(* ===== verification/Prelude.thy ===== *)
theory Prelude
  imports Main "HOL-Library.Char_ord" "HOL-Library.List_Lexorder" "HOL-Library.Product_Lexorder"
    "HOL-Library.Option_ord" "HOL-Library.Sublist" "HOL-Library.Multiset"
begin

text \<open>
  Shared vocabulary of the development.

  A Rust \<open>str\<close> is a HOL \<^typ>\<open>string\<close>. A \<^typ>\<open>char\<close> stands for one byte where the code
  works on bytes (the glob matcher and the identity hashes of \<open>cgx-core\<close>) and for one
  \<open>char\<close> where the code iterates \<open>chars()\<close> (the selector lexer); the derived \<open>Ord\<close> of
  strings is the lexicographic byte order. A \<open>BTreeMap\<close> is an association list with
  strictly increasing keys, a \<open>BTreeSet\<close> a strictly increasing list, so that iteration
  order is part of the value. The standard-library operations the sources rely on
  (\<open>split\<close>, \<open>binary_search\<close>, \<open>dedup\<close>, decimal formatting, the map and set updates) are
  defined here, with the laws that the component theories use.
\<close>

named_theorems container_simps \<open>rewrite rules of the ordered maps and sets\<close>

type_synonym ('k, 'v) btree_map = "('k \<times> 'v) list"
type_synonym 'k btree_set = "'k list"

lemma set_map_filter: "y \<in> set (List.map_filter f xs) \<longleftrightarrow> (\<exists>x \<in> set xs. f x = Some y)"
  by (auto simp: List.map_filter_def image_iff)

subsection \<open>Strictly increasing lists\<close>

abbreviation strict_sorted :: "'a::linorder list \<Rightarrow> bool" where
  "strict_sorted xs \<equiv> sorted_wrt (<) xs"

lemma strict_sorted_distinct: "strict_sorted xs \<Longrightarrow> distinct xs"
  by (induction xs) auto

lemma strict_sorted_sorted: "strict_sorted xs \<Longrightarrow> sorted xs"
  by (induction xs) (auto intro: less_imp_le)

lemma strict_sorted_unique:
  assumes "strict_sorted xs" "strict_sorted ys" "set xs = set ys"
  shows "xs = ys"
  using assms by (metis sorted_distinct_set_unique strict_sorted_distinct strict_sorted_sorted)

lemma sorted_remdups_adj_strict: "sorted xs \<Longrightarrow> strict_sorted (remdups_adj xs)"
proof (induction xs rule: remdups_adj.induct)
  case (3 x y xs)
  then show ?case by (auto simp: order_less_le dest: order_trans)
qed auto

lemma strict_sorted_sort_remdups_adj: "strict_sorted (remdups_adj (sort xs))"
  by (rule sorted_remdups_adj_strict) simp

lemma sorted_keys_unique:
  assumes "strict_sorted (map fst xs)" "strict_sorted (map fst ys)" "set xs = set ys"
  shows "xs = ys"
  using assms
proof (induction xs arbitrary: ys)
  case (Cons x xs)
  then obtain y ys' where ys: "ys = y # ys'" by (cases ys) auto
  have eq: "insert x (set xs) = insert y (set ys')" using Cons.prems unfolding ys by simp
  have lx: "z \<in> set xs \<Longrightarrow> fst x < fst z" and ly: "z \<in> set ys' \<Longrightarrow> fst y < fst z" for z
    using Cons.prems unfolding ys by auto
  have "x = y"
  proof (rule ccontr)
    assume "x \<noteq> y"
    with eq have "x \<in> set ys'" "y \<in> set xs" by auto
    then show False using lx [of y] ly [of x] by simp
  qed
  moreover have "x \<notin> set xs" "y \<notin> set ys'" using lx ly by blast+
  then have "set xs = set ys'" using eq \<open>x = y\<close> by (simp add: insert_ident)
  ultimately show ?case using Cons unfolding ys by simp
qed simp

subsection \<open>Ordered maps\<close>

fun bt_insert :: "'k::linorder \<Rightarrow> 'v \<Rightarrow> ('k, 'v) btree_map \<Rightarrow> ('k, 'v) btree_map" where
  "bt_insert k v [] = [(k, v)]"
| "bt_insert k v ((k', v') # m) =
     (if k < k' then (k, v) # (k', v') # m
      else if k = k' then (k, v) # m
      else (k', v') # bt_insert k v m)"

definition bt_wf :: "('k::linorder, 'v) btree_map \<Rightarrow> bool" where
  "bt_wf m \<longleftrightarrow> strict_sorted (map fst m)"

lemma bt_wf_Nil [simp]: "bt_wf []"
  by (simp add: bt_wf_def)

lemma bt_wf_keys: "bt_wf m \<Longrightarrow> strict_sorted (map fst m)"
  by (simp add: bt_wf_def)

lemma map_of_bt_insert [container_simps]: "map_of (bt_insert k v m) = (map_of m)(k \<mapsto> v)"
  by (induction k v m rule: bt_insert.induct) (auto simp: fun_upd_twist)

lemma keys_bt_insert [container_simps]: "set (map fst (bt_insert k v m)) = insert k (set (map fst m))"
  by (induction k v m rule: bt_insert.induct) auto

lemma bt_wf_insert [container_simps]: "bt_wf m \<Longrightarrow> bt_wf (bt_insert k v m)"
proof (induction k v m rule: bt_insert.induct)
  case (2 k v k' v' m)
  have "\<forall>x \<in> set (map fst (bt_insert k v m)). x = k \<or> x \<in> set (map fst m)"
    by (simp only: keys_bt_insert) simp
  with 2 show ?case by (fastforce simp: bt_wf_def)
qed (simp add: bt_wf_def)

text \<open>
  The interface that the clients of a map rely on: lookup after an insertion, and the
  canonical iteration order. Clients of an index built by repeated insertion (\<open>index_edges\<close>,
  \<open>index_nodes\<close>) use the laws of the locale; the interpretation below discharges them for
  the ordered association lists.
\<close>

locale finite_map =
  fixes emp :: 'm
    and get :: "'m \<Rightarrow> 'k::linorder \<Rightarrow> 'v option"
    and put :: "'k \<Rightarrow> 'v \<Rightarrow> 'm \<Rightarrow> 'm"
    and items :: "'m \<Rightarrow> ('k \<times> 'v) list"
    and wf :: "'m \<Rightarrow> bool"
  assumes get_emp: "get emp k = None"
    and get_put: "get (put k v m) = (get m)(k \<mapsto> v)"
    and wf_emp: "wf emp"
    and wf_put: "wf m \<Longrightarrow> wf (put k v m)"
    and items_sorted: "wf m \<Longrightarrow> strict_sorted (map fst (items m))"
    and items_get: "wf m \<Longrightarrow> (k, v) \<in> set (items m) \<longleftrightarrow> get m k = Some v"
begin

lemma wf_fold: "wf m \<Longrightarrow> wf (fold (\<lambda>x. put (f x) (g x)) xs m)"
  by (induction xs arbitrary: m) (auto intro: wf_put)

lemma get_fold:
  "get (fold (\<lambda>x. put (f x) (g x)) xs m) k =
     (case map_of (rev (map (\<lambda>x. (f x, g x)) xs)) k of Some v \<Rightarrow> Some v | None \<Rightarrow> get m k)"
  by (induction xs arbitrary: m) (auto simp: get_put map_add_def split: option.split)

lemma get_build_last:
  "get (fold (\<lambda>x. put (f x) (g x)) xs emp) k = map_of (rev (map (\<lambda>x. (f x, g x)) xs)) k"
  by (simp add: get_fold get_emp split: option.split)

lemma items_eqI:
  assumes "wf a" "wf b" "get a = get b"
  shows "items a = items b"
proof (rule sorted_keys_unique)
  show "set (items a) = set (items b)"
  proof (rule set_eqI)
    fix x :: "'k \<times> 'v"
    show "x \<in> set (items a) \<longleftrightarrow> x \<in> set (items b)"
      using assms by (cases x) (simp add: items_get)
  qed
qed (use assms items_sorted in auto)

end


lemma bt_items_get: "bt_wf m \<Longrightarrow> (k, v) \<in> set m \<longleftrightarrow> map_of m k = Some v"
  by (auto simp: bt_wf_def dest!: strict_sorted_distinct dest: map_of_SomeD)

interpretation bt: finite_map "[]" map_of bt_insert "\<lambda>m. m" bt_wf
  by unfold_locales (simp_all add: map_of_bt_insert bt_wf_insert bt_items_get bt_wf_keys)

text \<open>\<open>*map.entry(k).or_default() += 1\<close> on a counting map.\<close>

definition bt_bump :: "'k::linorder \<Rightarrow> ('k, nat) btree_map \<Rightarrow> ('k, nat) btree_map" where
  "bt_bump k m = bt_insert k ((case map_of m k of None \<Rightarrow> 0 | Some c \<Rightarrow> c) + 1) m"

definition bt_count :: "('k, nat) btree_map \<Rightarrow> 'k \<Rightarrow> nat" where
  "bt_count m k = (case map_of m k of None \<Rightarrow> 0 | Some c \<Rightarrow> c)"

lemma bt_count_Nil [simp]: "bt_count [] k = 0"
  by (simp add: bt_count_def)

lemma bt_count_bump [container_simps]:
  "bt_count (bt_bump k m) k' = (if k' = k then Suc (bt_count m k) else bt_count m k')"
  by (simp add: bt_count_def bt_bump_def map_of_bt_insert split: option.split)

lemma bt_wf_bump [container_simps]: "bt_wf m \<Longrightarrow> bt_wf (bt_bump k m)"
  by (simp add: bt_bump_def bt_wf_insert)

lemma bt_count_fold_bump:
  "bt_count (fold (\<lambda>x. bt_bump (f x)) xs m) k = bt_count m k + length (filter (\<lambda>x. f x = k) xs)"
  by (induction xs arbitrary: m) (auto simp: container_simps)

subsection \<open>Ordered sets and binary search\<close>

fun bs_insert :: "'k::linorder \<Rightarrow> 'k btree_set \<Rightarrow> 'k btree_set" where
  "bs_insert k [] = [k]"
| "bs_insert k (x # xs) =
     (if k < x then k # x # xs else if k = x then x # xs else x # bs_insert k xs)"

lemma set_bs_insert [container_simps]: "set (bs_insert k xs) = insert k (set xs)"
  by (induction k xs rule: bs_insert.induct) auto

lemma bs_insert_sorted [container_simps]:
  "strict_sorted xs \<Longrightarrow> strict_sorted (bs_insert k xs)"
  by (induction k xs rule: bs_insert.induct) (auto simp: set_bs_insert)

definition bs_collect :: "'k::linorder list \<Rightarrow> 'k btree_set" where
  "bs_collect xs = fold bs_insert xs []"

lemma fold_bs_insert_set: "set (fold bs_insert xs s) = set xs \<union> set s"
  by (induction xs arbitrary: s) (auto simp: set_bs_insert)

lemma fold_bs_insert_sorted: "strict_sorted s \<Longrightarrow> strict_sorted (fold bs_insert xs s)"
  by (induction xs arbitrary: s) (auto simp: bs_insert_sorted)

lemma set_bs_collect [simp]: "set (bs_collect xs) = set xs"
  by (simp add: bs_collect_def fold_bs_insert_set)

lemma bs_collect_sorted [simp]: "strict_sorted (bs_collect xs)"
  by (simp add: bs_collect_def fold_bs_insert_sorted)

text \<open>\<open>map.entry(k).or_default()\<close> followed by \<open>push\<close> on a vector or \<open>insert\<close> on a set.\<close>

definition bt_items :: "('k, 'v list) btree_map \<Rightarrow> 'k \<Rightarrow> 'v list" where
  "bt_items m k = (case map_of m k of None \<Rightarrow> [] | Some xs \<Rightarrow> xs)"

definition bt_push :: "'k::linorder \<Rightarrow> 'v \<Rightarrow> ('k, 'v list) btree_map \<Rightarrow> ('k, 'v list) btree_map" where
  "bt_push k x m = bt_insert k (bt_items m k @ [x]) m"

definition bt_add :: "'k::linorder \<Rightarrow> 'v::linorder \<Rightarrow> ('k, 'v btree_set) btree_map \<Rightarrow> ('k, 'v btree_set) btree_map" where
  "bt_add k x m = bt_insert k (bs_insert x (bt_items m k)) m"

lemma bt_items_Nil [simp]: "bt_items [] k = []"
  by (simp add: bt_items_def)

lemma bt_items_push [container_simps]:
  "bt_items (bt_push k x m) k' = (if k' = k then bt_items m k @ [x] else bt_items m k')"
  by (simp add: bt_items_def bt_push_def map_of_bt_insert)

lemma bt_items_add [container_simps]:
  "bt_items (bt_add k x m) k' = (if k' = k then bs_insert x (bt_items m k) else bt_items m k')"
  by (simp add: bt_items_def bt_add_def map_of_bt_insert)

lemma bt_items_fold_push:
  "bt_items (fold (\<lambda>y. bt_push (f y) (g y)) ys m) k = bt_items m k @ map g (filter (\<lambda>y. f y = k) ys)"
  by (induction ys arbitrary: m) (auto simp: container_simps)

lemma set_bt_items_fold_add:
  "set (bt_items (fold (\<lambda>y. bt_add (f y) (g y)) ys m) k) = set (bt_items m k) \<union> g ` {y \<in> set ys. f y = k}"
  by (induction ys arbitrary: m) (auto simp: container_simps)

lemma bt_wf_push [container_simps]: "bt_wf m \<Longrightarrow> bt_wf (bt_push k x m)"
  by (simp add: bt_push_def bt_wf_insert)

lemma bt_wf_add [container_simps]: "bt_wf m \<Longrightarrow> bt_wf (bt_add k x m)"
  by (simp add: bt_add_def bt_wf_insert)

text \<open>
  \<open>slice::binary_search\<close>: \<open>Inr\<close> is \<open>Ok\<close> of a matching position, \<open>Inl\<close> is \<open>Err\<close> of the
  position where the element can be inserted while keeping the order.
\<close>

function bsearch :: "'a::linorder list \<Rightarrow> 'a \<Rightarrow> nat \<Rightarrow> nat \<Rightarrow> nat + nat" where
  "bsearch xs x lo hi =
     (if lo < hi then
        let mid = (lo + hi) div 2 in
        if xs ! mid < x then bsearch xs x (Suc mid) hi
        else if xs ! mid = x then Inr mid
        else bsearch xs x lo mid
      else Inl lo)"
  by pat_completeness auto
termination
  by (relation "measure (\<lambda>(xs, x, lo, hi). hi - lo)") auto

declare bsearch.simps [simp del]

definition binary_search :: "'a::linorder list \<Rightarrow> 'a \<Rightarrow> nat + nat" where
  "binary_search xs x = bsearch xs x 0 (length xs)"

lemma strict_sorted_nth_less:
  "strict_sorted xs \<Longrightarrow> i < j \<Longrightarrow> j < length xs \<Longrightarrow> xs ! i < xs ! j"
  by (simp add: sorted_wrt_nth_less)

lemma bsearch_correct:
  assumes "strict_sorted xs" "hi \<le> length xs" "lo \<le> hi"
    and "\<forall>i < lo. xs ! i < x" "\<forall>i. hi \<le> i \<longrightarrow> i < length xs \<longrightarrow> x < xs ! i"
  shows "case bsearch xs x lo hi of
      Inr i \<Rightarrow> i < length xs \<and> xs ! i = x
    | Inl i \<Rightarrow> i \<le> length xs \<and> (\<forall>j < i. xs ! j < x) \<and> (\<forall>j. i \<le> j \<longrightarrow> j < length xs \<longrightarrow> x < xs ! j)"
  using assms
proof (induction xs x lo hi rule: bsearch.induct)
  case (1 xs x lo hi)
  show ?case
  proof (cases "lo < hi")
    case False
    then show ?thesis using 1 by (subst bsearch.simps) auto
  next
    case True
    let ?mid = "(lo + hi) div 2"
    have mid: "lo \<le> ?mid" "?mid < hi" using True by auto
    consider "xs ! ?mid < x" | "xs ! ?mid = x" | "x < xs ! ?mid" by (rule linorder_cases)
    then show ?thesis
    proof cases
      case 1
      have "\<forall>i < Suc ?mid. xs ! i < x"
        using 1 strict_sorted_nth_less [OF \<open>strict_sorted xs\<close>, of _ ?mid] mid \<open>hi \<le> length xs\<close>
        by (metis less_SucE less_trans order_less_le_trans)
      then show ?thesis using "1.IH" (1) True 1 "1.prems" mid
        by (subst bsearch.simps) (simp add: Let_def)
    next
      case 2
      then show ?thesis using True mid \<open>hi \<le> length xs\<close> by (subst bsearch.simps) (simp add: Let_def)
    next
      case 3
      have "\<forall>i. ?mid \<le> i \<longrightarrow> i < length xs \<longrightarrow> x < xs ! i"
        using 3 strict_sorted_nth_less [OF \<open>strict_sorted xs\<close>, of ?mid]
        by (metis le_neq_implies_less less_trans)
      then show ?thesis using "1.IH" (2) True 3 "1.prems" mid
        by (subst bsearch.simps) (auto simp: Let_def)
    qed
  qed
qed

lemma binary_search_Inr: "strict_sorted xs \<Longrightarrow> binary_search xs x = Inr i \<Longrightarrow> x \<in> set xs"
  using bsearch_correct [of xs "length xs" 0 x] by (auto simp: binary_search_def)

lemma binary_search_Inl:
  assumes "strict_sorted xs" "binary_search xs x = Inl i"
  shows "i \<le> length xs" "\<forall>j < i. xs ! j < x" "\<forall>j. i \<le> j \<longrightarrow> j < length xs \<longrightarrow> x < xs ! j"
  using bsearch_correct [of xs "length xs" 0 x] assms by (auto simp: binary_search_def)

lemma binary_search_Inl_notin:
  assumes "strict_sorted xs" "binary_search xs x = Inl i"
  shows "x \<notin> set xs"
proof
  assume "x \<in> set xs"
  then obtain j where "j < length xs" "xs ! j = x" by (auto simp: in_set_conv_nth)
  then show False using binary_search_Inl [OF assms] by (metis less_irrefl not_le)
qed

end
