(* ===== verification/Rust_Str.thy ===== *)
theory Rust_Str
  imports Prelude
begin

text \<open>
  The string operations of the Rust standard library that the modelled code calls:
  \<open>str::split\<close> and \<open>join\<close> on a non-empty separator, \<open>starts_with\<close>, \<open>ends_with\<close>,
  \<open>contains\<close>, \<open>rsplit_once\<close>, \<open>trim_start_matches\<close>, the decimal and hexadecimal \<open>Display\<close> of numbers, and the \<open>Debug\<close> of a
  \<open>char\<close> used in the selector's messages.
\<close>

subsection \<open>Splitting and joining\<close>

fun split_go :: "string \<Rightarrow> nat \<Rightarrow> string \<Rightarrow> string \<Rightarrow> string list" where
  "split_go sep k cur [] = [rev cur]"
| "split_go sep (Suc k) cur (c # s) = split_go sep k cur s"
| "split_go sep 0 cur (c # s) =
     (if prefix sep (c # s) then rev cur # split_go sep (length sep - 1) [] s
      else split_go sep 0 (c # cur) s)"

definition str_split :: "string \<Rightarrow> string \<Rightarrow> string list" where
  "str_split sep s = split_go sep 0 [] s"

fun str_join :: "string \<Rightarrow> string list \<Rightarrow> string" where
  "str_join sep [] = []"
| "str_join sep [x] = x"
| "str_join sep (x # y # ys) = x @ sep @ str_join sep (y # ys)"

lemma str_join_Cons: "ys \<noteq> [] \<Longrightarrow> str_join sep (x # ys) = x @ sep @ str_join sep ys"
  by (cases ys) auto

lemma split_go_nonempty [simp]: "split_go sep k cur s \<noteq> []"
  by (induction sep k cur s rule: split_go.induct) auto

lemma split_go_skip: "k \<le> length s \<Longrightarrow> split_go sep k cur s = split_go sep 0 cur (drop k s)"
proof (induction k arbitrary: s)
  case (Suc k)
  then show ?case by (cases s) auto
qed simp

lemma join_split_go:
  "sep \<noteq> [] \<Longrightarrow> str_join sep (split_go sep 0 cur s) = rev cur @ s"
proof (induction "length s" arbitrary: s cur rule: less_induct)
  case less
  show ?case
  proof (cases s)
    case (Cons c s')
    show ?thesis
    proof (cases "prefix sep (c # s')")
      case True
      then obtain t where t: "c # s' = sep @ t" by (auto simp: prefix_def)
      from less.prems t obtain sep' where sep: "sep = c # sep'" by (cases sep) auto
      have s': "s' = sep' @ t" using t sep by simp
      have "split_go sep 0 cur s = rev cur # split_go sep 0 [] t"
        using True Cons split_go_skip [of "length sep'" s' "c # sep'" "[]"] by (simp add: s' sep)
      moreover have "str_join sep (split_go sep 0 [] t) = t"
        using less.hyps [of t "[]"] less.prems Cons s' by simp
      ultimately show ?thesis using Cons t by (simp add: str_join_Cons)
    next
      case False
      then show ?thesis using less.hyps [of s' "c # cur"] less.prems Cons by simp
    qed
  qed simp
qed

text \<open>Joining what was split gives the string back: \<open>split\<close> loses nothing.\<close>

lemma str_join_split: "sep \<noteq> [] \<Longrightarrow> str_join sep (str_split sep s) = s"
  by (simp add: str_split_def join_split_go)

lemma str_split_nonempty [simp]: "str_split sep s \<noteq> []"
  by (simp add: str_split_def)

lemma str_split_inj: "sep \<noteq> [] \<Longrightarrow> str_split sep s = str_split sep t \<Longrightarrow> s = t"
  by (metis str_join_split)

lemma split_go_no_sep:
  assumes "\<And>ys zs. s = ys @ zs \<Longrightarrow> zs \<noteq> [] \<Longrightarrow> \<not> prefix sep zs"
  shows "split_go sep 0 cur s = [rev cur @ s]"
  using assms
proof (induction s arbitrary: cur)
  case (Cons c s)
  have "\<not> prefix sep (c # s)" using Cons.prems [of "[]"] by simp
  moreover have "split_go sep 0 (c # cur) s = [rev (c # cur) @ s]"
    by (rule Cons.IH) (metis Cons.prems append_Cons)
  ultimately show ?case by simp
qed simp

subsection \<open>Affixes\<close>

definition str_starts_with :: "string \<Rightarrow> string \<Rightarrow> bool" where
  "str_starts_with s needle = prefix needle s"

definition str_ends_with :: "string \<Rightarrow> string \<Rightarrow> bool" where
  "str_ends_with s needle = prefix (rev needle) (rev s)"

definition str_contains :: "string \<Rightarrow> string \<Rightarrow> bool" where
  "str_contains s needle = sublist needle s"

lemma str_ends_with_iff: "str_ends_with s needle \<longleftrightarrow> (\<exists>u. s = u @ needle)"
  by (simp add: str_ends_with_def suffix_to_prefix [symmetric] suffix_def)

lemma str_starts_with_iff: "str_starts_with s needle \<longleftrightarrow> (\<exists>u. s = needle @ u)"
  by (simp add: str_starts_with_def prefix_def)

lemma str_contains_iff: "str_contains s needle \<longleftrightarrow> (\<exists>u v. s = u @ needle @ v)"
  by (simp add: str_contains_def sublist_def)

subsection \<open>Splitting from the right and trimming\<close>

text \<open>\<open>str::rsplit_once\<close>: the text before and after the last occurrence of a separator.\<close>

definition str_rsplit_once :: "string \<Rightarrow> string \<Rightarrow> (string \<times> string) option" where
  "str_rsplit_once sep s =
     (case filter (\<lambda>i. str_starts_with (drop i s) sep) (rev [0..<Suc (length s)]) of
        [] \<Rightarrow> None
      | i # _ \<Rightarrow> Some (take i s, drop (i + length sep) s))"

lemma str_rsplit_once_Some:
  assumes "str_rsplit_once sep s = Some (a, b)"
  shows "s = a @ sep @ b"
proof -
  obtain i js where i: "filter (\<lambda>i. str_starts_with (drop i s) sep) (rev [0..<Suc (length s)]) = i # js"
    and ab: "a = take i s" "b = drop (i + length sep) s"
    using assms by (auto simp: str_rsplit_once_def split: list.splits)
  have "i \<in> set (filter (\<lambda>i. str_starts_with (drop i s) sep) (rev [0..<Suc (length s)]))" unfolding i by simp
  then have "str_starts_with (drop i s) sep" unfolding set_filter by blast
  then obtain u where "drop i s = sep @ u" by (auto simp: str_starts_with_iff)
  then show ?thesis by (metis ab append_eq_conv_conj append_take_drop_id drop_drop add.commute)
qed

lemma str_rsplit_once_None: "str_rsplit_once sep s = None \<longleftrightarrow> \<not> str_contains s sep"
proof -
  have "(\<exists>i \<le> length s. prefix sep (drop i s)) \<longleftrightarrow> sublist sep s"
  proof
    assume "\<exists>i \<le> length s. prefix sep (drop i s)"
    then show "sublist sep s" by (metis append_take_drop_id prefix_def sublist_appendI)
  next
    assume "sublist sep s"
    then obtain u v where "s = u @ sep @ v" by (auto simp: sublist_def)
    then show "\<exists>i \<le> length s. prefix sep (drop i s)" by (intro exI [of _ "length u"]) simp
  qed
  moreover have "str_rsplit_once sep s = None \<longleftrightarrow> filter (\<lambda>i. str_starts_with (drop i s) sep) (rev [0..<Suc (length s)]) = []"
    unfolding str_rsplit_once_def by (simp split: list.split)
  moreover have "\<dots> \<longleftrightarrow> \<not> (\<exists>i \<le> length s. prefix sep (drop i s))"
    by (auto simp: filter_empty_conv str_starts_with_def less_Suc_eq_le simp del: upt_Suc)
  ultimately show ?thesis by (simp add: str_contains_def)
qed

text \<open>\<open>str::trim_start_matches\<close> with a non-empty pattern.\<close>

function str_trim_start :: "string \<Rightarrow> string \<Rightarrow> string" where
  "str_trim_start pat s =
     (if pat \<noteq> [] \<and> str_starts_with s pat then str_trim_start pat (drop (length pat) s) else s)"
  by auto
termination
  by (relation "measure (\<lambda>(pat, s). length s)") (auto simp: str_starts_with_def prefix_def)

declare str_trim_start.simps [simp del]

text \<open>\<open>str::split\<close> with a set of characters.\<close>

fun split_chars :: "char list \<Rightarrow> string \<Rightarrow> string list" where
  "split_chars seps [] = [[]]"
| "split_chars seps (c # s) =
     (if c \<in> set seps then [] # split_chars seps s
      else (case split_chars seps s of [] \<Rightarrow> [[c]] | p # ps \<Rightarrow> (c # p) # ps))"

subsection \<open>Numbers and characters in messages\<close>

definition digit_char :: "nat \<Rightarrow> char" where
  "digit_char d = ''0123456789abcdef'' ! d"

fun show_nat :: "nat \<Rightarrow> string" where
  "show_nat n = (if n < 10 then [digit_char n] else show_nat (n div 10) @ [digit_char (n mod 10)])"

declare show_nat.simps [simp del]

fun show_hex :: "nat \<Rightarrow> string" where
  "show_hex n = (if n < 16 then [digit_char n] else show_hex (n div 16) @ [digit_char (n mod 16)])"

declare show_hex.simps [simp del]

text \<open>\<open>{:016x}\<close>: lowercase hexadecimal, zero-padded to sixteen digits.\<close>

definition show_hex16 :: "nat \<Rightarrow> string" where
  "show_hex16 n = replicate (16 - length (show_hex n)) (CHR ''0'') @ show_hex n"

definition quote_char :: char where
  "quote_char = CHR 0x27"

text \<open>\<open>char::escape_debug\<close> on the characters below 256, between single quotes.\<close>

definition debug_char :: "char \<Rightarrow> string" where
  "debug_char c =
     (let n = (of_char c :: nat) in
      [quote_char] @
      (if n = 0 then [CHR 0x5C, CHR ''0'']
       else if n = 9 then [CHR 0x5C, CHR ''t'']
       else if n = 10 then [CHR 0x5C, CHR ''n'']
       else if n = 13 then [CHR 0x5C, CHR ''r'']
       else if c = quote_char then [CHR 0x5C, quote_char]
       else if n = 0x5C then [CHR 0x5C, CHR 0x5C]
       else if n < 32 \<or> (127 \<le> n \<and> n < 160) \<or> n = 0xAD
         then [CHR 0x5C, CHR ''u'', CHR 0x7B] @ show_hex n @ [CHR 0x7D]
       else [c]) @ [quote_char])"

lemma show_nat_nonempty [simp]: "show_nat n \<noteq> []"
  by (subst show_nat.simps) simp

end
