(* ===== verification/Core_Labels.thy ===== *)
theory Core_Labels
  imports Rust_Str
begin

text \<open>
  The closed label sets of \<open>cgx-core\<close>: edge conditions, confidences, resolution tiers,
  transforms, edge and symbol kinds, locality tiers (\<open>condition.rs\<close>, \<open>confidence.rs\<close>,
  \<open>transform.rs\<close>, \<open>edge.rs\<close>, \<open>node.rs\<close>, \<open>locality.rs\<close>) and the operations on them. The
  discriminants (\<open>repr(u8)\<close>, or the declaration order) are the functions \<open>*_disc\<close>, and
  the derived \<open>Ord\<close> of an enum is the order of its discriminants, given here as an
  instance of \<open>linorder\<close>.
\<close>

subsection \<open>Labels with a rank\<close>

text \<open>
  Several operations keep the label of extreme rank among those they are given
  (\<open>EdgeCondition::max\<close>, \<open>Confidence::weakest\<close>, \<open>join_condition\<close>). The locale states what
  such a selection is; its lemmas say that the selection is a semilattice operation and that
  folding it over a collection yields the extreme rank, whatever the order.
\<close>

locale ranked_labels =
  fixes rank :: "'a \<Rightarrow> nat"
    and pick :: "'a \<Rightarrow> 'a \<Rightarrow> 'a"
  assumes rank_inj: "rank a = rank b \<Longrightarrow> a = b"
    and pick_rank: "pick a b = (if rank b \<le> rank a then a else b)"
begin

lemma rank_pick: "rank (pick a b) = max (rank a) (rank b)"
  by (simp add: pick_rank)

lemma pick_comm: "pick a b = pick b a"
  by (rule rank_inj) (simp add: rank_pick max.commute)

lemma pick_assoc: "pick (pick a b) c = pick a (pick b c)"
  by (rule rank_inj) (simp add: rank_pick max.assoc)

lemma pick_idem: "pick a a = a"
  by (simp add: pick_rank)

lemma rank_foldl: "rank (foldl pick a xs) = Max (insert (rank a) (rank ` set xs))"
proof (induction xs arbitrary: a)
  case (Cons x xs)
  then show ?case
    by (cases "xs = []") (auto simp: rank_pick max.assoc)
qed simp

lemma foldl_in: "foldl pick a xs \<in> insert a (set xs)"
proof (induction xs arbitrary: a)
  case (Cons x xs)
  from Cons.IH [of "pick a x"] show ?case by (auto simp: pick_rank split: if_splits)
qed simp

lemma foldl_set_cong: "set xs = set ys \<Longrightarrow> foldl pick a xs = foldl pick a ys"
  by (rule rank_inj) (simp add: rank_foldl)

lemma rank_foldl_le: "rank (foldl pick a xs) \<le> n \<longleftrightarrow> rank a \<le> n \<and> (\<forall>x \<in> set xs. rank x \<le> n)"
  by (simp add: rank_foldl)

lemma foldl_pick: "foldl pick (pick a b) xs = pick a (foldl pick b xs)"
  by (induction xs arbitrary: b) (simp_all add: pick_assoc)

end

subsection \<open>Edge conditions\<close>

datatype edge_condition =
    Always
  | Conditional
  | Loop
  | Exception
  | Panic

fun precedence :: "edge_condition \<Rightarrow> nat" where
  "precedence Always = 0"
| "precedence Conditional = 1"
| "precedence Loop = 2"
| "precedence Exception = 3"
| "precedence Panic = 4"

lemma precedence_inj: "precedence a = precedence b \<Longrightarrow> a = b"
  by (cases a; cases b) simp_all

instantiation edge_condition :: linorder
begin

definition less_eq_edge_condition :: "edge_condition \<Rightarrow> edge_condition \<Rightarrow> bool" where
  "less_eq_edge_condition a b \<longleftrightarrow> precedence a \<le> precedence b"

definition less_edge_condition :: "edge_condition \<Rightarrow> edge_condition \<Rightarrow> bool" where
  "less_edge_condition a b \<longleftrightarrow> precedence a < precedence b"

instance
  by standard (auto simp: less_eq_edge_condition_def less_edge_condition_def intro: precedence_inj)

end

definition edge_condition_all :: "edge_condition list" where
  "edge_condition_all = [Always, Conditional, Loop, Exception, Panic]"

definition condition_max :: "edge_condition \<Rightarrow> edge_condition \<Rightarrow> edge_condition" where
  "condition_max a b = (if precedence a \<ge> precedence b then a else b)"

definition condition_resolve :: "edge_condition list \<Rightarrow> edge_condition" where
  "condition_resolve applicable = foldl condition_max Always applicable"

fun is_exceptional :: "edge_condition \<Rightarrow> bool" where
  "is_exceptional Exception = True"
| "is_exceptional Panic = True"
| "is_exceptional _ = False"

interpretation cond: ranked_labels precedence condition_max
  by unfold_locales (auto simp: condition_max_def intro: precedence_inj)

lemma is_exceptional_rank: "is_exceptional c \<longleftrightarrow> 3 \<le> precedence c"
  by (cases c) auto

lemma condition_max_eq_max: "condition_max a b = max a b"
  by (auto simp: condition_max_def max_def less_eq_edge_condition_def intro: precedence_inj)

subsection \<open>Confidence and resolution tiers\<close>

datatype confidence =
    Possible
  | Probable
  | Certain

fun confidence_disc :: "confidence \<Rightarrow> nat" where
  "confidence_disc Possible = 0"
| "confidence_disc Probable = 1"
| "confidence_disc Certain = 2"

lemma confidence_disc_inj: "confidence_disc a = confidence_disc b \<Longrightarrow> a = b"
  by (cases a; cases b) simp_all

instantiation confidence :: linorder
begin

definition less_eq_confidence :: "confidence \<Rightarrow> confidence \<Rightarrow> bool" where
  "less_eq_confidence a b \<longleftrightarrow> confidence_disc a \<le> confidence_disc b"

definition less_confidence :: "confidence \<Rightarrow> confidence \<Rightarrow> bool" where
  "less_confidence a b \<longleftrightarrow> confidence_disc a < confidence_disc b"

instance
  by standard (auto simp: less_eq_confidence_def less_confidence_def intro: confidence_disc_inj)

end

definition confidence_all :: "confidence list" where
  "confidence_all = [Possible, Probable, Certain]"

definition weakest :: "confidence \<Rightarrow> confidence \<Rightarrow> confidence" where
  "weakest a b = min a b"

interpretation conf: ranked_labels "\<lambda>c. 2 - confidence_disc c" weakest
proof
  show "2 - confidence_disc a = 2 - confidence_disc b \<Longrightarrow> a = b" for a b
    by (cases a; cases b) simp_all
  show "weakest a b = (if 2 - confidence_disc b \<le> 2 - confidence_disc a then a else b)" for a b
    by (cases a; cases b) (simp_all add: weakest_def min_def less_eq_confidence_def)
qed

datatype tier =
    NameSyntactic
  | ScopeGraph
  | Scip
  | ChaRta
  | PointsTo

fun level :: "tier \<Rightarrow> nat" where
  "level NameSyntactic = 0"
| "level ScopeGraph = 1"
| "level Scip = 2"
| "level ChaRta = 3"
| "level PointsTo = 4"

lemma level_inj: "level a = level b \<Longrightarrow> a = b"
  by (cases a; cases b) simp_all

instantiation tier :: linorder
begin

definition less_eq_tier :: "tier \<Rightarrow> tier \<Rightarrow> bool" where
  "less_eq_tier a b \<longleftrightarrow> level a \<le> level b"

definition less_tier :: "tier \<Rightarrow> tier \<Rightarrow> bool" where
  "less_tier a b \<longleftrightarrow> level a < level b"

instance
  by standard (auto simp: less_eq_tier_def less_tier_def intro: level_inj)

end

definition tier_all :: "tier list" where
  "tier_all = [NameSyntactic, ScopeGraph, Scip, ChaRta, PointsTo]"

subsection \<open>Dataflow transforms\<close>

datatype transform =
    Copy
  | Projection
  | Arith
  | Concat
  | Composed
  | Branched
  | Aggregation
  | Parse
  | Serialize
  | Other

fun transform_disc :: "transform \<Rightarrow> nat" where
  "transform_disc Copy = 0"
| "transform_disc Projection = 1"
| "transform_disc Arith = 2"
| "transform_disc Concat = 3"
| "transform_disc Composed = 4"
| "transform_disc Branched = 5"
| "transform_disc Aggregation = 6"
| "transform_disc Parse = 7"
| "transform_disc Serialize = 8"
| "transform_disc Other = 9"

lemma transform_disc_inj: "transform_disc a = transform_disc b \<Longrightarrow> a = b"
  by (cases a; cases b) simp_all

instantiation transform :: linorder
begin

definition less_eq_transform :: "transform \<Rightarrow> transform \<Rightarrow> bool" where
  "less_eq_transform a b \<longleftrightarrow> transform_disc a \<le> transform_disc b"

definition less_transform :: "transform \<Rightarrow> transform \<Rightarrow> bool" where
  "less_transform a b \<longleftrightarrow> transform_disc a < transform_disc b"

instance
  by standard (auto simp: less_eq_transform_def less_transform_def intro: transform_disc_inj)

end

subsection \<open>Edge kinds and the evidence labels of an edge\<close>

datatype edge_kind =
    Calls
  | CallsVirtual
  | CallsClosure
  | CallsCallback
  | CallsAsync
  | CallsIndirect
  | Spawns
  | Contains
  | Imports
  | DerivesFrom
  | Overrides
  | Implements
  | Inherits
  | References
  | Instantiates
  | Throws
  | Catches
  | ReadsField
  | WritesField

fun edge_kind_disc :: "edge_kind \<Rightarrow> nat" where
  "edge_kind_disc Calls = 0"
| "edge_kind_disc CallsVirtual = 1"
| "edge_kind_disc CallsClosure = 2"
| "edge_kind_disc CallsCallback = 3"
| "edge_kind_disc CallsAsync = 4"
| "edge_kind_disc CallsIndirect = 5"
| "edge_kind_disc Spawns = 6"
| "edge_kind_disc Contains = 7"
| "edge_kind_disc Imports = 8"
| "edge_kind_disc DerivesFrom = 9"
| "edge_kind_disc Overrides = 10"
| "edge_kind_disc Implements = 11"
| "edge_kind_disc Inherits = 12"
| "edge_kind_disc References = 13"
| "edge_kind_disc Instantiates = 14"
| "edge_kind_disc Throws = 15"
| "edge_kind_disc Catches = 16"
| "edge_kind_disc ReadsField = 17"
| "edge_kind_disc WritesField = 18"

lemma edge_kind_disc_inj: "edge_kind_disc a = edge_kind_disc b \<Longrightarrow> a = b"
  by (cases a; cases b) simp_all

instantiation edge_kind :: linorder
begin

definition less_eq_edge_kind :: "edge_kind \<Rightarrow> edge_kind \<Rightarrow> bool" where
  "less_eq_edge_kind a b \<longleftrightarrow> edge_kind_disc a \<le> edge_kind_disc b"

definition less_edge_kind :: "edge_kind \<Rightarrow> edge_kind \<Rightarrow> bool" where
  "less_edge_kind a b \<longleftrightarrow> edge_kind_disc a < edge_kind_disc b"

instance
  by standard (auto simp: less_eq_edge_kind_def less_edge_kind_def intro: edge_kind_disc_inj)

end

fun is_call :: "edge_kind \<Rightarrow> bool" where
  "is_call Calls = True"
| "is_call CallsVirtual = True"
| "is_call CallsClosure = True"
| "is_call CallsCallback = True"
| "is_call CallsAsync = True"
| "is_call CallsIndirect = True"
| "is_call Spawns = True"
| "is_call _ = False"

datatype implicit_kind =
    Drop | Destructor | Deref | Coercion | Operator | Iterator | ContextEnter | ContextExit
  | Property | Defer | StaticInit | Conversion

datatype established_by = Annotation | ConfigFile | RegistrationSite | Convention

subsection \<open>Symbol kinds and the attributes of a symbol\<close>

datatype symbol_kind =
    Function | Method | Type | Field | Variable | Module | Constant | Macro | Lambda | Entrypoint

fun is_callable :: "symbol_kind \<Rightarrow> bool" where
  "is_callable Function = True"
| "is_callable Method = True"
| "is_callable Lambda = True"
| "is_callable _ = False"

datatype node_flavor = SymbolNode | CallSiteNode | ValueNodeFlavor

datatype visibility = Public | Protected | Internal | Package | Private

datatype entrypoint_kind = Main | Test | HttpHandler | AsyncMain | Declared

subsection \<open>Locality of a call candidate\<close>

datatype locality_tier =
    SameFile
  | SameModule
  | SameCrate
  | Global

fun locality_disc :: "locality_tier \<Rightarrow> nat" where
  "locality_disc SameFile = 0"
| "locality_disc SameModule = 1"
| "locality_disc SameCrate = 2"
| "locality_disc Global = 3"

lemma locality_disc_inj: "locality_disc a = locality_disc b \<Longrightarrow> a = b"
  by (cases a; cases b) simp_all

instantiation locality_tier :: linorder
begin

definition less_eq_locality_tier :: "locality_tier \<Rightarrow> locality_tier \<Rightarrow> bool" where
  "less_eq_locality_tier a b \<longleftrightarrow> locality_disc a \<le> locality_disc b"

definition less_locality_tier :: "locality_tier \<Rightarrow> locality_tier \<Rightarrow> bool" where
  "less_locality_tier a b \<longleftrightarrow> locality_disc a < locality_disc b"

instance
  by standard (auto simp: less_eq_locality_tier_def less_locality_tier_def intro: locality_disc_inj)

end

fun locality_as_str :: "locality_tier \<Rightarrow> string" where
  "locality_as_str SameFile = ''same-file''"
| "locality_as_str SameModule = ''same-module''"
| "locality_as_str SameCrate = ''same-crate''"
| "locality_as_str Global = ''global''"

definition locality_tier_of :: "string \<Rightarrow> string \<Rightarrow> string \<Rightarrow> string \<Rightarrow> locality_tier" where
  "locality_tier_of call_file caller_fqn cand_file cand_fqn =
     (if call_file \<noteq> [] \<and> cand_file = call_file then SameFile
      else
        let shared = length (takeWhile (\<lambda>(a, b). a = b)
              (zip (str_split ''::'' caller_fqn) (str_split ''::'' cand_fqn)))
        in if shared = 0 then Global else if shared = 1 then SameCrate else SameModule)"

lemma locality_as_str_inj: "locality_as_str a = locality_as_str b \<Longrightarrow> a = b"
  by (cases a; cases b) simp_all

text \<open>The shared leading segments, as the longest common prefix of the segment lists.\<close>

lemma takeWhile_zip_common:
  "length (takeWhile (\<lambda>(a, b). a = b) (zip xs ys)) = length (longest_common_prefix xs ys)"
  by (induction xs ys rule: longest_common_prefix.induct) auto

end
