(* ===== verification/Core_Markers.thy ===== *)
theory Core_Markers
  imports Core_Labels "HOL-Library.Word"
begin

unbundle bit_operations_syntax

text \<open>
  The two deterministic label sets of \<open>cgx-core\<close>: the cut markers of an edge
  (\<open>cut.rs\<close>, a sorted deduplicated vector) and the effects of a symbol (\<open>effect.rs\<close>, a
  \<open>u16\<close> bitset). Both promise the same thing, a canonical representation of a finite set of
  labels: equal sets are equal values, whatever the insertion order. The locale
  \<open>canonical_set\<close> states that contract and both are interpretations of it.
\<close>

subsection \<open>The contract of a canonical label set\<close>

locale canonical_set =
  fixes emp :: 's
    and ins :: "'a::linorder \<Rightarrow> 's \<Rightarrow> 's"
    and has :: "'s \<Rightarrow> 'a \<Rightarrow> bool"
    and members :: "'s \<Rightarrow> 'a list"
    and wf :: "'s \<Rightarrow> bool"
  assumes wf_emp: "wf emp"
    and wf_ins: "wf s \<Longrightarrow> wf (ins a s)"
    and members_emp: "members emp = []"
    and members_ins: "wf s \<Longrightarrow> set (members (ins a s)) = insert a (set (members s))"
    and has_members: "wf s \<Longrightarrow> has s a \<longleftrightarrow> a \<in> set (members s)"
    and members_sorted: "wf s \<Longrightarrow> strict_sorted (members s)"
    and canonical: "wf s \<Longrightarrow> wf t \<Longrightarrow> members s = members t \<Longrightarrow> s = t"
begin

lemma eqI: "wf s \<Longrightarrow> wf t \<Longrightarrow> set (members s) = set (members t) \<Longrightarrow> s = t"
  by (rule canonical) (auto intro: strict_sorted_unique members_sorted)

lemma wf_fold: "wf s \<Longrightarrow> wf (fold ins xs s)"
  by (induction xs arbitrary: s) (auto intro: wf_ins)

lemma members_fold: "wf s \<Longrightarrow> set (members (fold ins xs s)) = set xs \<union> set (members s)"
  by (induction xs arbitrary: s) (auto simp: wf_ins members_ins)

lemma build_canonical: "set xs = set ys \<Longrightarrow> fold ins xs emp = fold ins ys emp"
  by (rule eqI) (auto simp: wf_fold wf_emp members_fold)

lemma has_build: "has (fold ins xs emp) a \<longleftrightarrow> a \<in> set xs"
  by (simp add: has_members wf_fold wf_emp members_fold members_emp)

lemma members_build: "members (fold ins xs emp) = remdups_adj (sort xs)"
  by (rule strict_sorted_unique)
    (auto simp: members_sorted wf_fold wf_emp members_fold members_emp strict_sorted_sort_remdups_adj)

lemma ins_idem: "wf s \<Longrightarrow> ins a (ins a s) = ins a s"
  by (rule eqI) (auto simp: wf_ins members_ins)

lemma ins_commute: "wf s \<Longrightarrow> ins a (ins b s) = ins b (ins a s)"
  by (rule eqI) (auto simp: wf_ins members_ins)

end

subsection \<open>Cut markers\<close>

datatype cut_marker =
    Reflective
  | Dynamic
  | ViaDi
  | ViaFfi
  | Unresolved
  | UnexpandedMacro
  | OpaqueCall
  | TruncatedAccessPath
  | SummaryBudgetExceeded
  | External
  | UntypedReceiver

fun cut_marker_disc :: "cut_marker \<Rightarrow> nat" where
  "cut_marker_disc Reflective = 0"
| "cut_marker_disc Dynamic = 1"
| "cut_marker_disc ViaDi = 2"
| "cut_marker_disc ViaFfi = 3"
| "cut_marker_disc Unresolved = 4"
| "cut_marker_disc UnexpandedMacro = 5"
| "cut_marker_disc OpaqueCall = 6"
| "cut_marker_disc TruncatedAccessPath = 7"
| "cut_marker_disc SummaryBudgetExceeded = 8"
| "cut_marker_disc External = 9"
| "cut_marker_disc UntypedReceiver = 10"

lemma cut_marker_disc_inj: "cut_marker_disc a = cut_marker_disc b \<Longrightarrow> a = b"
  by (cases a; cases b) simp_all

instantiation cut_marker :: linorder
begin

definition less_eq_cut_marker :: "cut_marker \<Rightarrow> cut_marker \<Rightarrow> bool" where
  "less_eq_cut_marker a b \<longleftrightarrow> cut_marker_disc a \<le> cut_marker_disc b"

definition less_cut_marker :: "cut_marker \<Rightarrow> cut_marker \<Rightarrow> bool" where
  "less_cut_marker a b \<longleftrightarrow> cut_marker_disc a < cut_marker_disc b"

instance
  by standard (auto simp: less_eq_cut_marker_def less_cut_marker_def intro: cut_marker_disc_inj)

end

definition cut_marker_all :: "cut_marker list" where
  "cut_marker_all =
     [Reflective, Dynamic, ViaDi, ViaFfi, Unresolved,
      UnexpandedMacro, OpaqueCall, TruncatedAccessPath, SummaryBudgetExceeded, External, UntypedReceiver]"

type_synonym cut_markers = "cut_marker list"

definition cut_markers_new :: cut_markers where
  "cut_markers_new = []"

definition cut_markers_from_iter_canonical :: "cut_marker list \<Rightarrow> cut_markers" where
  "cut_markers_from_iter_canonical xs = remdups_adj (sort xs)"

definition cut_markers_insert :: "cut_marker \<Rightarrow> cut_markers \<Rightarrow> cut_markers" where
  "cut_markers_insert marker ms =
     (case binary_search ms marker of
        Inl pos \<Rightarrow> take pos ms @ [marker] @ drop pos ms
      | Inr _ \<Rightarrow> ms)"

definition cut_markers_contains :: "cut_markers \<Rightarrow> cut_marker \<Rightarrow> bool" where
  "cut_markers_contains ms marker = (case binary_search ms marker of Inl _ \<Rightarrow> False | Inr _ \<Rightarrow> True)"

definition cut_markers_is_empty :: "cut_markers \<Rightarrow> bool" where
  "cut_markers_is_empty ms = (ms = [])"

definition cut_markers_iter :: "cut_markers \<Rightarrow> cut_marker list" where
  "cut_markers_iter ms = ms"

definition cut_markers_len :: "cut_markers \<Rightarrow> nat" where
  "cut_markers_len ms = length ms"

text \<open>The representation invariant: strictly increasing, so sorted and without duplicates.\<close>

definition cut_markers_wf :: "cut_markers \<Rightarrow> bool" where
  "cut_markers_wf ms = strict_sorted ms"

lemma strict_sorted_insert_at:
  fixes xs :: "'a::linorder list"
  assumes "strict_sorted xs" "pos \<le> length xs" "\<forall>j < pos. xs ! j < x"
    and "\<forall>j. pos \<le> j \<longrightarrow> j < length xs \<longrightarrow> x < xs ! j"
  shows "strict_sorted (take pos xs @ [x] @ drop pos xs)"
proof -
  have below: "y < x" if "y \<in> set (take pos xs)" for y
    using that assms by (auto simp: in_set_conv_nth)
  have above: "x < y" if "y \<in> set (drop pos xs)" for y
    using that assms by (auto simp: in_set_conv_nth)
  have "sorted_wrt (<) (take pos xs @ drop pos xs)" using assms(1) by simp
  moreover have "y < z" if "y \<in> set (take pos xs)" "z \<in> set (drop pos xs)" for y z
    using less_trans [OF below above] that .
  ultimately show ?thesis using below above by (auto simp: sorted_wrt_append)
qed

lemma cut_markers_wf_insert: "cut_markers_wf ms \<Longrightarrow> cut_markers_wf (cut_markers_insert m ms)"
  by (auto simp: cut_markers_wf_def cut_markers_insert_def split: sum.split
      intro!: strict_sorted_insert_at [simplified] dest: binary_search_Inl)

lemma set_cut_markers_insert:
  "cut_markers_wf ms \<Longrightarrow> set (cut_markers_insert m ms) = insert m (set ms)"
proof -
  assume wf: "cut_markers_wf ms"
  have "set (take pos ms) \<union> set (drop pos ms) = set ms" for pos
    by (metis append_take_drop_id set_append)
  with wf show ?thesis
    by (auto simp: cut_markers_wf_def cut_markers_insert_def split: sum.split dest: binary_search_Inr)
qed

lemma cut_markers_contains_iff:
  "cut_markers_wf ms \<Longrightarrow> cut_markers_contains ms m \<longleftrightarrow> m \<in> set ms"
  by (auto simp: cut_markers_wf_def cut_markers_contains_def split: sum.split
      dest: binary_search_Inr binary_search_Inl_notin)

lemma cut_markers_wf_empty: "cut_markers_wf []"
  by (simp add: cut_markers_wf_def)

lemma cut_markers_wf_sorted: "cut_markers_wf ms \<Longrightarrow> strict_sorted ms"
  by (simp add: cut_markers_wf_def)

interpretation cuts: canonical_set cut_markers_new cut_markers_insert cut_markers_contains
  cut_markers_iter cut_markers_wf
  by unfold_locales
    (simp_all add: cut_markers_new_def cut_markers_iter_def cut_markers_wf_insert
      set_cut_markers_insert cut_markers_contains_iff cut_markers_wf_empty cut_markers_wf_sorted)

subsection \<open>Effects\<close>

datatype effect =
    Blocking
  | Effect_Spawns
  | IoFile
  | IoNet
  | IoProc
  | DynamicCode
  | Nondeterministic

fun effect_disc :: "effect \<Rightarrow> nat" where
  "effect_disc Blocking = 0"
| "effect_disc Effect_Spawns = 1"
| "effect_disc IoFile = 2"
| "effect_disc IoNet = 3"
| "effect_disc IoProc = 4"
| "effect_disc DynamicCode = 5"
| "effect_disc Nondeterministic = 6"

lemma effect_disc_inj: "effect_disc a = effect_disc b \<Longrightarrow> a = b"
  by (cases a; cases b) simp_all

instantiation effect :: linorder
begin

definition less_eq_effect :: "effect \<Rightarrow> effect \<Rightarrow> bool" where
  "less_eq_effect a b \<longleftrightarrow> effect_disc a \<le> effect_disc b"

definition less_effect :: "effect \<Rightarrow> effect \<Rightarrow> bool" where
  "less_effect a b \<longleftrightarrow> effect_disc a < effect_disc b"

instance
  by standard (auto simp: less_eq_effect_def less_effect_def intro: effect_disc_inj)

end

definition effect_all :: "effect list" where
  "effect_all = [Blocking, Effect_Spawns, IoFile, IoNet, IoProc, DynamicCode, Nondeterministic]"

type_synonym effect_set = "16 word"

definition effect_bit :: "effect \<Rightarrow> effect_set" where
  "effect_bit e = push_bit (effect_disc e) 1"

fun effect_as_str :: "effect \<Rightarrow> string" where
  "effect_as_str Blocking = ''blocking''"
| "effect_as_str Effect_Spawns = ''spawns''"
| "effect_as_str IoFile = ''io.file''"
| "effect_as_str IoNet = ''io.net''"
| "effect_as_str IoProc = ''io.proc''"
| "effect_as_str DynamicCode = ''dynamic-code''"
| "effect_as_str Nondeterministic = ''nondeterministic''"

definition effect_parse :: "string \<Rightarrow> effect option" where
  "effect_parse s = List.find (\<lambda>e. effect_as_str e = s) effect_all"

definition effect_set_new :: effect_set where
  "effect_set_new = 0"

definition effect_set_single :: "effect \<Rightarrow> effect_set" where
  "effect_set_single e = effect_bit e"

definition effect_set_insert :: "effect \<Rightarrow> effect_set \<Rightarrow> effect_set" where
  "effect_set_insert e s = s OR effect_bit e"

definition effect_set_from_iter_canonical :: "effect list \<Rightarrow> effect_set" where
  "effect_set_from_iter_canonical xs = fold effect_set_insert xs effect_set_new"

definition effect_set_union :: "effect_set \<Rightarrow> effect_set \<Rightarrow> effect_set" where
  "effect_set_union s t = s OR t"

definition effect_set_contains :: "effect_set \<Rightarrow> effect \<Rightarrow> bool" where
  "effect_set_contains s e \<longleftrightarrow> s AND effect_bit e \<noteq> 0"

definition effect_set_is_empty :: "effect_set \<Rightarrow> bool" where
  "effect_set_is_empty s \<longleftrightarrow> s = 0"

definition effect_set_len :: "effect_set \<Rightarrow> nat" where
  "effect_set_len s = length (filter (bit s) [0..<16])"

definition effect_set_iter :: "effect_set \<Rightarrow> effect list" where
  "effect_set_iter s = filter (effect_set_contains s) effect_all"

text \<open>Only the seven label bits can be set.\<close>

definition effect_set_wf :: "effect_set \<Rightarrow> bool" where
  "effect_set_wf s \<longleftrightarrow> (\<forall>i. bit s i \<longrightarrow> i < 7)"

lemma effect_disc_less: "effect_disc e < 7"
  by (cases e) simp_all

lemma effect_disc_surj: "i < 7 \<Longrightarrow> \<exists>e. effect_disc e = i"
proof -
  assume "i < 7"
  then have "i \<in> effect_disc ` set effect_all" by (auto simp: effect_all_def)
  then show ?thesis by blast
qed

lemma effect_all_complete [simp]: "e \<in> set effect_all"
  by (cases e) (simp_all add: effect_all_def)

lemma effect_all_sorted: "strict_sorted effect_all"
  by (simp add: effect_all_def less_effect_def)

lemma bit_effect_bit [simp]: "bit (effect_bit e) i \<longleftrightarrow> i = effect_disc e"
  using effect_disc_less [of e] by (auto simp: effect_bit_def bit_simps)

lemma effect_set_contains_bit: "effect_set_contains s e \<longleftrightarrow> bit s (effect_disc e)"
proof -
  have "s AND effect_bit e \<noteq> 0 \<longleftrightarrow> (\<exists>i. bit (s AND effect_bit e) i)"
    by (metis bit_0_eq bit_eqI bot_apply bot_bool_def)
  then show ?thesis by (simp add: effect_set_contains_def bit_and_iff)
qed

lemma effect_set_union_contains:
  "effect_set_contains (effect_set_union s t) e \<longleftrightarrow> effect_set_contains s e \<or> effect_set_contains t e"
  by (simp add: effect_set_contains_bit effect_set_union_def bit_or_iff)

lemma effect_set_wf_union: "effect_set_wf s \<Longrightarrow> effect_set_wf t \<Longrightarrow> effect_set_wf (effect_set_union s t)"
  by (auto simp: effect_set_wf_def effect_set_union_def bit_or_iff)

lemma set_effect_set_iter: "set (effect_set_iter s) = {e. effect_set_contains s e}"
  by (auto simp: effect_set_iter_def)

lemma effect_set_iter_sorted: "strict_sorted (effect_set_iter s)"
  unfolding effect_set_iter_def by (rule sorted_wrt_filter) (rule effect_all_sorted)

lemma effect_set_eqI:
  assumes "effect_set_wf s" "effect_set_wf t" "effect_set_iter s = effect_set_iter t"
  shows "s = t"
proof (rule bit_eqI)
  fix i
  have "effect_set_contains s e \<longleftrightarrow> effect_set_contains t e" for e
    using assms(3) set_effect_set_iter by (metis mem_Collect_eq)
  then show "bit s i \<longleftrightarrow> bit t i"
    using assms(1,2) effect_disc_surj [of i] by (auto simp: effect_set_wf_def effect_set_contains_bit)
qed

interpretation effects: canonical_set effect_set_new effect_set_insert effect_set_contains
  effect_set_iter effect_set_wf
proof unfold_locales
  show "effect_set_wf (effect_set_insert e s)" if "effect_set_wf s" for s e
    using that effect_disc_less [of e] by (auto simp: effect_set_wf_def effect_set_insert_def bit_or_iff)
  show "set (effect_set_iter (effect_set_insert e s)) = insert e (set (effect_set_iter s))" for s e
    by (auto simp: set_effect_set_iter effect_set_contains_bit effect_set_insert_def bit_or_iff
        dest: effect_disc_inj)
qed (simp_all add: effect_set_new_def effect_set_wf_def effect_set_iter_def effect_set_contains_def
    set_effect_set_iter effect_set_iter_sorted [unfolded effect_set_iter_def] effect_set_eqI
    [unfolded effect_set_iter_def effect_set_wf_def])

end
