(* ===== verification/Core_Ident.thy ===== *)
theory Core_Ident
  imports Core_Markers
begin

text \<open>
  Content-addressed identities (\<open>id.rs\<close>): the 64-bit FNV-1a hash that derives a
  \<open>SiteId\<close> from a call site and a \<open>ValueId\<close> from an SSA definition. Hashes are
  \<^typ>\<open>64 word\<close>, the folded integers \<^typ>\<open>32 word\<close>, bytes \<^typ>\<open>8 word\<close>, so
  that \<open>wrapping_mul\<close>, \<open>to_le_bytes\<close> and the \<open>as u32\<close> of a length are the code's. The
  lemmas separate the two halves of the scheme: the folded byte stream determines the
  identity tuple, and the hash is injective in every single byte of the stream.
\<close>

type_synonym u8 = "8 word"
type_synonym u32 = "32 word"
type_synonym u64 = "64 word"
type_synonym node_id = nat
type_synonym edge_id = nat
type_synonym site_id = u64
type_synonym value_id = u64

definition fnv_offset :: u64 where
  "fnv_offset = 0xcbf29ce484222325"

definition fnv_prime :: u64 where
  "fnv_prime = 0x100000001b3"

definition fold_byte :: "u64 \<Rightarrow> u8 \<Rightarrow> u64" where
  "fold_byte hash byte = (hash XOR ucast byte) * fnv_prime"

definition to_le_bytes :: "u32 \<Rightarrow> u8 list" where
  "to_le_bytes v = map (\<lambda>i. ucast (drop_bit (8 * i) v)) [0, 1, 2, 3]"

definition fold_u32 :: "u64 \<Rightarrow> u32 \<Rightarrow> u64" where
  "fold_u32 hash v = foldl fold_byte hash (to_le_bytes v)"

definition as_bytes :: "string \<Rightarrow> u8 list" where
  "as_bytes s = map of_char s"

definition fold_str :: "u64 \<Rightarrow> string \<Rightarrow> u64" where
  "fold_str hash s = foldl fold_byte (fold_u32 hash (of_nat (length s))) (as_bytes s)"

definition site_id_derive :: "string \<Rightarrow> string \<Rightarrow> u32 \<Rightarrow> u32 \<Rightarrow> site_id" where
  "site_id_derive caller_fqn file line col =
     (let hash = fold_str fnv_offset caller_fqn;
          hash = fold_str hash file;
          hash = fold_u32 hash line
      in fold_u32 hash col)"

definition value_id_derive :: "string \<Rightarrow> string \<Rightarrow> u32 \<Rightarrow> u32 \<Rightarrow> u32 \<Rightarrow> value_id" where
  "value_id_derive fn_fqn ssa_local ssa_version def_span_line def_span_col =
     (let hash = fold_str fnv_offset fn_fqn;
          hash = fold_str hash ssa_local;
          hash = fold_u32 hash ssa_version;
          hash = fold_u32 hash def_span_line
      in fold_u32 hash def_span_col)"

definition content_hash_hex :: "u8 list \<Rightarrow> string" where
  "content_hash_hex bs = show_hex16 (unat (foldl fold_byte fnv_offset bs))"

subsection \<open>The folded byte stream\<close>

definition str_stream :: "string \<Rightarrow> u8 list" where
  "str_stream s = to_le_bytes (of_nat (length s)) @ as_bytes s"

definition site_stream :: "string \<Rightarrow> string \<Rightarrow> u32 \<Rightarrow> u32 \<Rightarrow> u8 list" where
  "site_stream caller file line col =
     str_stream caller @ str_stream file @ to_le_bytes line @ to_le_bytes col"

definition value_stream :: "string \<Rightarrow> string \<Rightarrow> u32 \<Rightarrow> u32 \<Rightarrow> u32 \<Rightarrow> u8 list" where
  "value_stream fn loc ver line col =
     str_stream fn @ str_stream loc @ to_le_bytes ver @ to_le_bytes line @ to_le_bytes col"

lemma fold_str_stream: "fold_str h s = foldl fold_byte h (str_stream s)"
  by (simp add: fold_str_def fold_u32_def str_stream_def)

lemma site_id_stream:
  "site_id_derive c f l k = foldl fold_byte fnv_offset (site_stream c f l k)"
  by (simp add: site_id_derive_def site_stream_def fold_str_stream fold_u32_def Let_def)

lemma value_id_stream:
  "value_id_derive f x v l k = foldl fold_byte fnv_offset (value_stream f x v l k)"
  by (simp add: value_id_derive_def value_stream_def fold_str_stream fold_u32_def Let_def)

lemma length_to_le_bytes [simp]: "length (to_le_bytes v) = 4"
  by (simp add: to_le_bytes_def)

lemma length_as_bytes [simp]: "length (as_bytes s) = length s"
  by (simp add: as_bytes_def)

lemma to_le_bytes_inj: "to_le_bytes v = to_le_bytes w \<Longrightarrow> v = w"
proof (rule bit_eqI)
  fix i
  assume eq: "to_le_bytes v = to_le_bytes w" and i: "possible_bit TYPE(u32) i"
  from i have "i < 32" by simp
  then have "i div 8 \<in> {0, 1, 2, 3}" by auto
  then have "(ucast (drop_bit (8 * (i div 8)) v) :: u8) = ucast (drop_bit (8 * (i div 8)) w)"
    using eq by (auto simp: to_le_bytes_def)
  then have "bit (ucast (drop_bit (8 * (i div 8)) v) :: u8) (i mod 8)
      = bit (ucast (drop_bit (8 * (i div 8)) w) :: u8) (i mod 8)" by simp
  then show "bit v i = bit w i" by (simp add: bit_ucast_iff bit_drop_bit_eq)
qed

lemma unat_of_char_u8: "unat (of_char c :: u8) = of_char c"
proof -
  have "unat (of_nat (of_char c) :: u8) = (of_char c :: nat) mod 2 ^ 8"
    by (simp only: unat_of_nat) simp
  also have "\<dots> = of_char c" using nat_of_char_less_256 [of c] by simp
  finally show ?thesis by (simp only: of_nat_of_char)
qed

lemma of_char_u8_inj: "(of_char c :: u8) = of_char d \<Longrightarrow> c = d"
  by (metis unat_of_char_u8 of_char_eq_iff)

lemma as_bytes_inj: "as_bytes s = as_bytes t \<Longrightarrow> s = t"
  unfolding as_bytes_def by (rule map_injective) (auto intro: injI of_char_u8_inj)

text \<open>
  A length-prefixed string can be read off the front of a stream, as long as its length fits
  the \<open>u32\<close> prefix.
\<close>

lemma u32_of_nat_inj:
  assumes "(of_nat m :: u32) = of_nat n" "m < 2 ^ 32" "n < 2 ^ 32"
  shows "m = n"
proof -
  have "take_bit 32 m = take_bit 32 n" using assms(1) by (simp add: word_of_nat_eq_iff)
  moreover have "take_bit 32 m = m" "take_bit 32 n = n"
    by (rule take_bit_nat_eq_self, rule assms)+
  ultimately show ?thesis by (simp only:)
qed

lemma str_stream_append_inj:
  assumes "length s < 2 ^ 32" "length t < 2 ^ 32"
    and "str_stream s @ u = str_stream t @ v"
  shows "s = t \<and> u = v"
proof -
  have "to_le_bytes (of_nat (length s)) = to_le_bytes (of_nat (length t))"
    and rest: "as_bytes s @ u = as_bytes t @ v"
    using assms(3) by (simp_all add: str_stream_def)
  then have "(of_nat (length s) :: u32) = of_nat (length t)" by (blast dest: to_le_bytes_inj)
  then have "length s = length t"
    using u32_of_nat_inj assms(1,2) by blast
  with rest show ?thesis by (auto dest: as_bytes_inj)
qed

lemma to_le_bytes_append_inj: "to_le_bytes v @ xs = to_le_bytes w @ ys \<Longrightarrow> v = w \<and> xs = ys"
  by (auto dest: to_le_bytes_inj)

lemma site_stream_inj:
  assumes "length c < 2 ^ 32" "length c' < 2 ^ 32" "length f < 2 ^ 32" "length f' < 2 ^ 32"
    and "site_stream c f l k = site_stream c' f' l' k'"
  shows "(c, f, l, k) = (c', f', l', k')"
proof -
  have "c = c' \<and> str_stream f @ to_le_bytes l @ to_le_bytes k
      = str_stream f' @ to_le_bytes l' @ to_le_bytes k'"
    using assms by (intro str_stream_append_inj) (auto simp: site_stream_def)
  moreover from this have "f = f' \<and> to_le_bytes l @ to_le_bytes k = to_le_bytes l' @ to_le_bytes k'"
    using assms by (intro str_stream_append_inj) auto
  ultimately show ?thesis
    using to_le_bytes_append_inj [of l "to_le_bytes k" l' "to_le_bytes k'"] to_le_bytes_inj [of k k']
    by simp
qed

subsection \<open>The hash does not lose a byte\<close>

text \<open>
  The FNV prime is odd, so multiplication by it is invertible modulo \<open>2 ^ 64\<close> and one step
  of the hash is injective in the running value and in the byte.
\<close>

definition fnv_prime_inverse :: u64 where
  "fnv_prime_inverse = 0xce965057aff6957b"

lemma fnv_prime_inverse: "fnv_prime * fnv_prime_inverse = 1"
  by (simp add: fnv_prime_def fnv_prime_inverse_def)

lemma fold_byte_inj: "fold_byte h b = fold_byte h' b' \<Longrightarrow> h XOR ucast b = h' XOR ucast b'"
proof -
  assume "fold_byte h b = fold_byte h' b'"
  then have "(h XOR ucast b) * (fnv_prime * fnv_prime_inverse)
      = (h' XOR ucast b') * (fnv_prime * fnv_prime_inverse)"
    by (simp add: fold_byte_def flip: mult.assoc)
  then show ?thesis by (simp add: fnv_prime_inverse)
qed

lemma xor_cancel: "(a :: 'a::len word) XOR b = c XOR b \<Longrightarrow> a = c"
  by (metis bit.xor_left_self xor.commute)

lemma fold_byte_inj_hash: "fold_byte h b = fold_byte h' b \<Longrightarrow> h = h'"
  by (rule xor_cancel) (rule fold_byte_inj)

lemma ucast_u8_u64_inj: "(ucast (a :: u8) :: u64) = ucast b \<Longrightarrow> a = b"
  by (rule bit_word_eqI) (auto simp: bit_simps dest!: arg_cong [where f = bit] fun_cong)

lemma fold_byte_inj_byte: "fold_byte h b = fold_byte h b' \<Longrightarrow> b = b'"
  by (metis fold_byte_inj xor_cancel xor.commute ucast_u8_u64_inj)

lemma foldl_fold_byte_inj: "foldl fold_byte h xs = foldl fold_byte h' xs \<Longrightarrow> h = h'"
  by (induction xs arbitrary: h h') (auto dest: fold_byte_inj_hash)

lemma hash_single_byte:
  assumes "length xs = length ys" "i < length xs" "\<forall>j < length xs. j \<noteq> i \<longrightarrow> xs ! j = ys ! j"
    and "foldl fold_byte h xs = foldl fold_byte h ys"
  shows "xs = ys"
proof -
  have split: "xs = take i xs @ xs ! i # drop (Suc i) xs" "ys = take i xs @ ys ! i # drop (Suc i) xs"
  proof -
    show "xs = take i xs @ xs ! i # drop (Suc i) xs" using assms(2) by (simp add: id_take_nth_drop)
    have "take i ys = take i xs" "drop (Suc i) ys = drop (Suc i) xs"
      using assms(1,3) by (auto intro!: nth_equalityI)
    then show "ys = take i xs @ ys ! i # drop (Suc i) xs"
      using assms(1,2) id_take_nth_drop [of i ys] by simp
  qed
  have "foldl fold_byte h (take i xs @ xs ! i # drop (Suc i) xs)
      = foldl fold_byte h (take i xs @ ys ! i # drop (Suc i) xs)"
    using assms(4) split by metis
  then have "foldl fold_byte (fold_byte (foldl fold_byte h (take i xs)) (xs ! i)) (drop (Suc i) xs)
      = foldl fold_byte (fold_byte (foldl fold_byte h (take i xs)) (ys ! i)) (drop (Suc i) xs)"
    by simp
  then have "xs ! i = ys ! i" by (blast dest: foldl_fold_byte_inj fold_byte_inj_byte)
  with split show ?thesis by simp
qed

end
