(* ===== verification/Core_Model.thy ===== *)
theory Core_Model
  imports Core_Ident
begin

text \<open>
  The records of the code graph (\<open>node.rs\<close>, \<open>edge.rs\<close>, \<open>provenance.rs\<close>,
  \<open>signature.rs\<close>) and the canonical orders (\<open>sort.rs\<close>). The dense \<open>NodeId\<close> and \<open>EdgeId\<close>,
  line numbers, ordinals and counters are \<open>u32\<close> in the code and are only stored, compared
  and indexed here, so they are \<^typ>\<open>nat\<close>; the identity hashes take them as
  \<^typ>\<open>32 word\<close>. Optional labels are options, and the sort keys are tuples under the
  lexicographic order, as in the code.
\<close>

subsection \<open>Provenance and signatures\<close>

record span =
  sp_file :: string
  sp_line :: nat
  sp_col :: "nat option"

record provenance =
  pv_span :: span
  pv_rule :: string
  pv_tier :: tier
  pv_index_id :: string

definition span_new :: "string \<Rightarrow> nat \<Rightarrow> nat option \<Rightarrow> span" where
  "span_new file line col = \<lparr>sp_file = file, sp_line = line, sp_col = col\<rparr>"

definition provenance_new :: "span \<Rightarrow> string \<Rightarrow> tier \<Rightarrow> string \<Rightarrow> provenance" where
  "provenance_new spn rule tr index_id =
     \<lparr>pv_span = spn, pv_rule = rule, pv_tier = tr, pv_index_id = index_id\<rparr>"

record param =
  pm_name :: string
  pm_type_text :: "string option"
  pm_has_default :: bool
  pm_variadic :: bool

record signature =
  sg_params :: "param list"
  sg_return_type_text :: "string option"
  sg_type_params :: "string list"
  sg_receiver :: "string option"

definition signature_empty :: signature where
  "signature_empty =
     \<lparr>sg_params = [], sg_return_type_text = None, sg_type_params = [], sg_receiver = None\<rparr>"

text \<open>The three UTF-8 bytes of the ellipsis character that marks a defaulted parameter.\<close>

definition ellipsis :: string where
  "ellipsis = [CHR 0xE2, CHR 0x80, CHR 0xA6]"

definition canonical_param :: "param \<Rightarrow> string" where
  "canonical_param p =
     (if pm_variadic p then ''...'' else []) @ pm_name p @
     (case pm_type_text p of Some ty \<Rightarrow> '': '' @ ty | None \<Rightarrow> []) @
     (if pm_has_default p then '' = '' @ ellipsis else [])"

definition signature_canonical :: "signature \<Rightarrow> string" where
  "signature_canonical s =
     (case sg_receiver s of Some r \<Rightarrow> ''('' @ r @ '') '' | None \<Rightarrow> []) @
     (if sg_type_params s \<noteq> [] then ''<'' @ str_join '', '' (sg_type_params s) @ ''> '' else []) @
     ''('' @ str_join '', '' (map canonical_param (sg_params s)) @ '')'' @
     (case sg_return_type_text s of Some r \<Rightarrow> '' -> '' @ r | None \<Rightarrow> [])"

subsection \<open>Nodes\<close>

record narrowing_counts =
  nc_typed_out :: nat
  nc_interproc_out :: nat
  nc_visible_out :: nat
  nc_visible_dropped_out :: nat
  nc_typed_away_in :: nat
  nc_interproc_away_in :: nat
  nc_visible_away_in :: nat

record node_record =
  n_id :: node_id
  n_kind :: symbol_kind
  n_fqn :: string
  n_file :: string
  n_line_start :: nat
  n_line_end :: nat
  n_lang :: string
  n_visibility :: visibility
  n_is_abstract :: bool
  n_entrypoint_kind :: "entrypoint_kind option"
  n_signature :: "signature option"
  n_own_effects :: effect_set
  n_transitive_effects :: effect_set
  n_unresolved_calls :: nat
  n_external_calls :: nat
  n_narrowing :: narrowing_counts

record call_site =
  cs_site_id :: site_id
  cs_caller :: node_id
  cs_file :: string
  cs_line :: nat
  cs_col :: nat
  cs_ordinal :: nat
  cs_suspends :: bool

definition call_site_new ::
  "node_id \<Rightarrow> string \<Rightarrow> string \<Rightarrow> nat \<Rightarrow> nat \<Rightarrow> nat \<Rightarrow> bool \<Rightarrow> call_site" where
  "call_site_new caller caller_fqn file line col ordinal suspends =
     \<lparr>cs_site_id = site_id_derive caller_fqn file (of_nat line) (of_nat col),
      cs_caller = caller, cs_file = file, cs_line = line, cs_col = col,
      cs_ordinal = ordinal, cs_suspends = suspends\<rparr>"

record value_node =
  vn_value_id :: value_id
  vn_fn_fqn :: string
  vn_ssa_local :: string
  vn_ssa_version :: nat
  vn_def_span :: span

definition value_node_new :: "string \<Rightarrow> string \<Rightarrow> nat \<Rightarrow> span \<Rightarrow> value_node" where
  "value_node_new fn_fqn ssa_local ssa_version def_span =
     \<lparr>vn_value_id = value_id_derive fn_fqn ssa_local (of_nat ssa_version)
        (of_nat (sp_line def_span))
        (of_nat (case sp_col def_span of Some c \<Rightarrow> c | None \<Rightarrow> 0)),
      vn_fn_fqn = fn_fqn, vn_ssa_local = ssa_local, vn_ssa_version = ssa_version,
      vn_def_span = def_span\<rparr>"

record node_with_provenance =
  np_node :: node_record
  np_provenance :: provenance

subsection \<open>Edges\<close>

record edge_record =
  e_id :: edge_id
  e_src :: node_id
  e_dst :: node_id
  e_kind :: edge_kind
  e_condition :: edge_condition
  e_confidence :: confidence
  e_tier :: tier
  e_rule :: string
  e_site_id :: "site_id option"
  e_stmt_index :: "nat option"
  e_cut_markers :: cut_markers
  e_implicit :: "implicit_kind option"
  e_candidate_group :: "nat option"
  e_established_by :: "established_by option"
  e_cfg_condition :: "string option"
  e_macro_origin :: "string option"
  e_transform :: "transform option"

record edge_with_provenance =
  ep_edge :: edge_record
  ep_provenance :: provenance

record candidate =
  cd_candidate_group :: nat
  cd_dst :: node_id
  cd_rank :: nat

subsection \<open>Canonical orders\<close>

definition node_sort_key :: "node_record \<Rightarrow> string \<times> nat \<times> string" where
  "node_sort_key n = (n_file n, n_line_start n, n_fqn n)"

definition sort_nodes :: "node_record list \<Rightarrow> node_record list" where
  "sort_nodes nodes = sort_key node_sort_key nodes"

definition u32_max :: nat where
  "u32_max = 4294967295"

definition edge_sort_key :: "edge_record \<Rightarrow> nat \<times> nat \<times> nat \<times> nat \<times> nat \<times> nat" where
  "edge_sort_key e =
     (e_src e, e_dst e, edge_kind_disc (e_kind e),
      case e_stmt_index e of Some i \<Rightarrow> i | None \<Rightarrow> u32_max,
      case e_candidate_group e of Some g \<Rightarrow> g | None \<Rightarrow> u32_max,
      e_id e)"

definition sort_edges :: "edge_record list \<Rightarrow> edge_record list" where
  "sort_edges edges = sort_key edge_sort_key edges"

definition result_order_key :: "string \<Rightarrow> nat \<Rightarrow> nat option \<Rightarrow> string \<times> nat \<times> nat" where
  "result_order_key file line col = (file, line, case col of Some c \<Rightarrow> c | None \<Rightarrow> 0)"

datatype edge_identity =
  EdgeIdentity (ei_src_fqn: string) (ei_dst_fqn: string) (ei_edge_kind: edge_kind)
    (ei_file: string) (ei_anchor_ordinal: "nat option")

definition edge_identity_new ::
  "string \<Rightarrow> string \<Rightarrow> edge_record \<Rightarrow> string \<Rightarrow> nat option \<Rightarrow> edge_identity" where
  "edge_identity_new src_fqn dst_fqn edge file anchor_ordinal =
     EdgeIdentity src_fqn dst_fqn (e_kind edge) file anchor_ordinal"

text \<open>The derived \<open>Ord\<close> of a struct compares its fields in declaration order.\<close>

fun edge_identity_fields ::
  "edge_identity \<Rightarrow> string \<times> string \<times> edge_kind \<times> string \<times> nat option" where
  "edge_identity_fields (EdgeIdentity s d k f a) = (s, d, k, f, a)"

lemma edge_identity_fields_inj: "edge_identity_fields a = edge_identity_fields b \<Longrightarrow> a = b"
  by (cases a; cases b) simp

instantiation edge_identity :: linorder
begin

definition less_eq_edge_identity :: "edge_identity \<Rightarrow> edge_identity \<Rightarrow> bool" where
  "less_eq_edge_identity a b \<longleftrightarrow> edge_identity_fields a \<le> edge_identity_fields b"

definition less_edge_identity :: "edge_identity \<Rightarrow> edge_identity \<Rightarrow> bool" where
  "less_edge_identity a b \<longleftrightarrow> edge_identity_fields a < edge_identity_fields b"

instance
  by standard
    (auto simp: less_eq_edge_identity_def less_edge_identity_def intro: edge_identity_fields_inj)

end

text \<open>
  Two arrangements of the same records with pairwise different keys sort to the same list.
\<close>

lemma sort_key_order_independent:
  assumes "mset xs = mset ys" "inj_on f (set xs)"
  shows "sort_key f xs = sort_key f ys"
proof (rule properties_for_sort_key)
  have same: "filter (\<lambda>x. f k = f x) zs = replicate (count (mset xs) k) k"
    if "k \<in> set xs" "mset zs = mset xs" for k zs
  proof -
    have "filter (\<lambda>x. f k = f x) zs = filter ((=) k) zs"
      using that assms(2) by (intro filter_cong refl) (auto simp: inj_on_def dest: mset_eq_setD)
    then show ?thesis using that(2) by (simp add: replicate_count_mset_eq_filter_eq flip: that(2))
  qed
  show "filter (\<lambda>x. f k = f x) (sort_key f ys) = filter (\<lambda>x. f k = f x) xs"
    if "k \<in> set (sort_key f ys)" for k
    using that assms(1) same [of k "sort_key f ys"] same [of k xs] by (auto dest: mset_eq_setD)
qed (use assms in simp_all)

end
