(* ===== verification/Core_Pattern.thy ===== *)
theory Core_Pattern
  imports Core_Model
begin

text \<open>
  Symbol patterns (\<open>pattern.rs\<close>): the segment-separator predicate, the short name of an
  FQN, and the backtracking glob matcher. The matcher works on bytes, so a \<^typ>\<open>char\<close> is a
  byte here. \<open>glob_spec\<close> is the documented meaning of a pattern as a relation on its
  tokens; the matcher is proved equal to it.
\<close>

datatype pattern_kind = Fqn | Glob | ShortName

record symbol_pattern =
  sp_kind :: pattern_kind
  sp_text :: string

definition pattern_fqn :: "string \<Rightarrow> symbol_pattern" where
  "pattern_fqn txt = \<lparr>sp_kind = Fqn, sp_text = txt\<rparr>"

definition pattern_glob :: "string \<Rightarrow> symbol_pattern" where
  "pattern_glob txt = \<lparr>sp_kind = Glob, sp_text = txt\<rparr>"

definition pattern_short_name :: "string \<Rightarrow> symbol_pattern" where
  "pattern_short_name txt = \<lparr>sp_kind = ShortName, sp_text = txt\<rparr>"

definition segment_separator_len :: "string \<Rightarrow> nat \<Rightarrow> nat" where
  "segment_separator_len bytes i =
     (if i < length bytes then
        if bytes ! i = CHR ''/'' then 1
        else if bytes ! i = CHR '':'' \<and> Suc i < length bytes \<and> bytes ! Suc i = CHR '':'' then 2
        else 0
      else 0)"

definition contains_segment_separator :: "string \<Rightarrow> bool" where
  "contains_segment_separator s = list_ex (\<lambda>i. segment_separator_len s i > 0) [0..<length s]"

function short_name_go :: "string \<Rightarrow> nat \<Rightarrow> nat \<Rightarrow> nat" where
  "short_name_go bytes start i =
     (if i < length bytes then
        let sep = segment_separator_len bytes i in
        if sep > 0 then short_name_go bytes (i + sep) (i + sep)
        else short_name_go bytes start (i + 1)
      else start)"
  by pat_completeness auto
termination
  by (relation "measure (\<lambda>(bytes, start, i). length bytes - i)") auto

declare short_name_go.simps [simp del]

definition short_name :: "string \<Rightarrow> string" where
  "short_name fqn = drop (short_name_go fqn 0 0) fqn"

function glob_match_at :: "string \<Rightarrow> string \<Rightarrow> bool"
  and glob_star :: "string \<Rightarrow> string \<Rightarrow> nat \<Rightarrow> bool" where
  "glob_match_at pat text =
     (if prefix ''**'' pat then
        list_ex (\<lambda>split. glob_match_at (drop 2 pat) (drop split text)) [0..<Suc (length text)]
      else
        case (pat, text) of
          ([], []) \<Rightarrow> True
        | ([], c # text') \<Rightarrow> False
        | (p # pat', []) \<Rightarrow> if p = CHR ''*'' then glob_star pat' [] 0 else False
        | (p # pat', c # text') \<Rightarrow>
            if p = CHR ''*'' then glob_star pat' (c # text') 0
            else if p = CHR ''?'' then
              (if c = CHR '':'' \<or> c = CHR ''/'' then False else glob_match_at pat' text')
            else p = c \<and> glob_match_at pat' text')"
| "glob_star rest text split =
     (if glob_match_at rest (drop split text) then True
      else if split \<ge> length text then False
      else if segment_separator_len text split > 0 then False
      else glob_star rest text (split + 1))"
  by pat_completeness auto
termination
  by (relation "measures [\<lambda>x. case x of Inl (pat, text) \<Rightarrow> 2 * length pat
        | Inr (rest, text, split) \<Rightarrow> 2 * length rest + 1,
      \<lambda>x. case x of Inl _ \<Rightarrow> 0 | Inr (rest, text, split) \<Rightarrow> length text - split]")
    (auto simp: prefix_def)

declare glob_match_at.simps [simp del] glob_star.simps [simp del]

definition glob_match :: "string \<Rightarrow> string \<Rightarrow> bool" where
  "glob_match pattern_text text = glob_match_at pattern_text text"

definition matches_fqn :: "symbol_pattern \<Rightarrow> string \<Rightarrow> bool" where
  "matches_fqn p fqn =
     (case sp_kind p of
        Fqn \<Rightarrow> fqn = sp_text p
      | ShortName \<Rightarrow> short_name fqn = sp_text p
      | Glob \<Rightarrow> glob_match (sp_text p) fqn)"

definition pattern_matches :: "symbol_pattern \<Rightarrow> node_record \<Rightarrow> bool" where
  "pattern_matches p node = matches_fqn p (n_fqn node)"

subsection \<open>Separators and short names\<close>

text \<open>No separator starts anywhere in the string.\<close>

definition separator_free :: "string \<Rightarrow> bool" where
  "separator_free s \<longleftrightarrow> (\<forall>i. segment_separator_len s i = 0)"

lemma separator_in_range: "segment_separator_len s i > 0 \<Longrightarrow> i + segment_separator_len s i \<le> length s"
  by (auto simp: segment_separator_len_def split: if_splits)

lemma segment_separator_len_drop:
  "segment_separator_len (drop k s) i = segment_separator_len s (k + i)"
proof (cases "k \<le> length s")
  case True
  then show ?thesis by (auto simp: segment_separator_len_def)
qed (simp add: segment_separator_len_def)

lemma contains_segment_separator_iff: "contains_segment_separator s \<longleftrightarrow> \<not> separator_free s"
  using separator_in_range
  by (auto simp: contains_segment_separator_def separator_free_def list_ex_iff
      segment_separator_len_def split: if_splits)

lemma segment_separator_len_0:
  "segment_separator_len s i = 0 \<longleftrightarrow> \<not> (i < length s \<and> s ! i = CHR ''/'')
    \<and> \<not> (Suc i < length s \<and> s ! i = CHR '':'' \<and> s ! Suc i = CHR '':'')"
  unfolding segment_separator_len_def by (cases "Suc i < length s") simp_all

lemma separator_free_iff: "separator_free s \<longleftrightarrow> CHR ''/'' \<notin> set s \<and> \<not> sublist ''::'' s"
proof -
  have slash: "CHR ''/'' \<in> set s \<longleftrightarrow> (\<exists>i < length s. s ! i = CHR ''/'')"
    by (auto simp: in_set_conv_nth)
  have colons: "sublist ''::'' s \<longleftrightarrow> (\<exists>i. Suc i < length s \<and> s ! i = CHR '':'' \<and> s ! Suc i = CHR '':'')"
  proof
    assume "sublist ''::'' s"
    then obtain u v where "s = u @ ''::'' @ v" by (auto simp: sublist_def)
    then show "\<exists>i. Suc i < length s \<and> s ! i = CHR '':'' \<and> s ! Suc i = CHR '':''"
      by (intro exI [of _ "length u"]) (simp add: nth_append)
  next
    assume "\<exists>i. Suc i < length s \<and> s ! i = CHR '':'' \<and> s ! Suc i = CHR '':''"
    then obtain i where "Suc i < length s" "s ! i = CHR '':''" "s ! Suc i = CHR '':''" by blast
    then have "s = take i s @ ''::'' @ drop (Suc (Suc i)) s"
      by (metis Cons_nth_drop_Suc Suc_lessD append_Cons append_Nil append_take_drop_id)
    then show "sublist ''::'' s" unfolding sublist_def by blast
  qed
  show ?thesis unfolding separator_free_def segment_separator_len_0 slash colons by blast
qed

text \<open>Positions where a segment can start: the beginning, and right after a separator.\<close>

definition segment_start :: "string \<Rightarrow> nat \<Rightarrow> bool" where
  "segment_start s k \<longleftrightarrow> k = 0 \<or> (\<exists>j. segment_separator_len s j > 0 \<and> k = j + segment_separator_len s j)"

lemma segment_start_after: "segment_separator_len s j > 0 \<Longrightarrow> segment_start s (j + segment_separator_len s j)"
  unfolding segment_start_def by blast

definition last_start :: "string \<Rightarrow> nat \<Rightarrow> bool" where
  "last_start s k \<longleftrightarrow>
     segment_start s k \<and> k \<le> length s \<and> (\<forall>j. k \<le> j \<longrightarrow> segment_separator_len s j = 0)"

lemma short_name_go_correct:
  assumes "i \<le> length s" "start \<le> i" "\<forall>j. start \<le> j \<longrightarrow> j < i \<longrightarrow> segment_separator_len s j = 0"
    and "segment_start s start"
  shows "last_start s (short_name_go s start i)"
  using assms
proof (induction s start i rule: short_name_go.induct)
  case (1 s start i)
  show ?case
  proof (cases "i < length s")
    case False
    then have "\<forall>j. start \<le> j \<longrightarrow> segment_separator_len s j = 0"
      using "1.prems"(3) by (metis not_less order_less_le_trans segment_separator_len_def)
    then show ?thesis using 1 False by (subst short_name_go.simps) (simp add: last_start_def)
  next
    case True
    note IH = "1.IH" [OF True refl]
    show ?thesis
    proof (cases "segment_separator_len s i > 0")
      case sep: True
      then have "last_start s (short_name_go s (i + segment_separator_len s i) (i + segment_separator_len s i))"
        using separator_in_range [OF sep] by (intro IH(1) segment_start_after) simp_all
      with sep True show ?thesis by (simp add: short_name_go.simps [of s start i] Let_def)
    next
      case False
      then have "\<forall>j. start \<le> j \<longrightarrow> j < i + 1 \<longrightarrow> segment_separator_len s j = 0"
        using "1.prems"(3) by (metis Suc_eq_plus1 gr_zeroI less_SucE)
      with False have "last_start s (short_name_go s start (i + 1))"
        using True "1.prems" by (intro IH(2)) simp_all
      with False True show ?thesis by (simp add: short_name_go.simps [of s start i] Let_def)
    qed
  qed
qed

lemma short_name_last_start: "\<exists>k. short_name s = drop k s \<and> last_start s k"
  using short_name_go_correct [of 0 s 0] by (auto simp: short_name_def segment_start_def)

text \<open>The short name is what follows the last separator, and holds none itself.\<close>

lemma short_name_separator_free: "separator_free (short_name s)"
  using short_name_last_start [of s]
  by (auto simp: last_start_def separator_free_def segment_separator_len_drop)

lemma short_name_prefix: "\<exists>p. s = p @ short_name s \<and> (p = [] \<or> suffix ''/'' p \<or> suffix ''::'' p)"
proof -
  obtain k where k: "short_name s = drop k s" "k \<le> length s" "segment_start s k"
    using short_name_last_start [of s] by (auto simp: last_start_def)
  have "take k s = [] \<or> suffix ''/'' (take k s) \<or> suffix ''::'' (take k s)"
  proof (rule disjE [OF k(3) [unfolded segment_start_def]])
    assume "\<exists>j. segment_separator_len s j > 0 \<and> k = j + segment_separator_len s j"
    then obtain j where pos: "segment_separator_len s j > 0" and kj: "k = j + segment_separator_len s j"
      by blast
    show ?thesis
    proof (cases "j < length s \<and> s ! j = CHR ''/''")
      case True
      then have "take k s = take j s @ ''/''"
        by (simp add: kj segment_separator_len_def take_Suc_conv_app_nth)
      then show ?thesis by (simp add: suffix_def)
    next
      case False
      with pos have "Suc j < length s" "s ! j = CHR '':''" "s ! Suc j = CHR '':''" "k = Suc (Suc j)"
        by (auto simp: kj segment_separator_len_def split: if_splits)
      then have "take k s = take j s @ ''::''" by (simp add: take_Suc_conv_app_nth)
      then show ?thesis by (simp add: suffix_def)
    qed
  qed simp
  then show ?thesis using k(1) by (metis append_take_drop_id)
qed

lemma short_name_id: "separator_free s \<Longrightarrow> short_name s = s"
  using short_name_last_start [of s]
  by (auto simp: last_start_def segment_start_def separator_free_def)

subsection \<open>The meaning of a glob\<close>

datatype glob_token = AnyRun | SegmentRun | OneChar | Literal char

fun glob_tokens :: "string \<Rightarrow> glob_token list" where
  "glob_tokens [] = []"
| "glob_tokens [c] =
     [if c = CHR ''*'' then SegmentRun else if c = CHR ''?'' then OneChar else Literal c]"
| "glob_tokens (c # d # cs) =
     (if c = CHR ''*'' \<and> d = CHR ''*'' then AnyRun # glob_tokens cs
      else (if c = CHR ''*'' then SegmentRun else if c = CHR ''?'' then OneChar else Literal c)
        # glob_tokens (d # cs))"

text \<open>
  \<open>AnyRun\<close> consumes any run; \<open>SegmentRun\<close> a run in which no separator of the text starts;
  \<open>OneChar\<close> one character that is neither half of a separator.
\<close>

inductive glob_spec :: "glob_token list \<Rightarrow> string \<Rightarrow> bool" where
  glob_nil: "glob_spec [] []"
| glob_any: "glob_spec ts v \<Longrightarrow> glob_spec (AnyRun # ts) (u @ v)"
| glob_seg: "glob_spec ts v \<Longrightarrow> \<forall>i < length u. segment_separator_len (u @ v) i = 0 \<Longrightarrow>
    glob_spec (SegmentRun # ts) (u @ v)"
| glob_one: "glob_spec ts v \<Longrightarrow> c \<noteq> CHR '':'' \<Longrightarrow> c \<noteq> CHR ''/'' \<Longrightarrow> glob_spec (OneChar # ts) (c # v)"
| glob_lit: "glob_spec ts v \<Longrightarrow> glob_spec (Literal c # ts) (c # v)"

inductive_cases glob_spec_NilE: "glob_spec [] s"
inductive_cases glob_spec_AnyE: "glob_spec (AnyRun # ts) s"
inductive_cases glob_spec_SegE: "glob_spec (SegmentRun # ts) s"
inductive_cases glob_spec_OneE: "glob_spec (OneChar # ts) s"
inductive_cases glob_spec_LitE: "glob_spec (Literal c # ts) s"

lemma glob_spec_Nil: "glob_spec [] s \<longleftrightarrow> s = []"
  by (auto elim: glob_spec_NilE intro: glob_nil)

lemma glob_spec_Any: "glob_spec (AnyRun # ts) s \<longleftrightarrow> (\<exists>k \<le> length s. glob_spec ts (drop k s))"
proof
  assume "glob_spec (AnyRun # ts) s"
  then show "\<exists>k \<le> length s. glob_spec ts (drop k s)"
    by (rule glob_spec_AnyE) (metis append_eq_conv_conj le_add1 length_append)
next
  assume "\<exists>k \<le> length s. glob_spec ts (drop k s)"
  then show "glob_spec (AnyRun # ts) s" by (metis append_take_drop_id glob_any)
qed

lemma glob_spec_Seg: "glob_spec (SegmentRun # ts) s \<longleftrightarrow>
    (\<exists>k \<le> length s. glob_spec ts (drop k s) \<and> (\<forall>i < k. segment_separator_len s i = 0))"
proof
  assume "glob_spec (SegmentRun # ts) s"
  then obtain u v where "s = u @ v" "glob_spec ts v" "\<forall>i < length u. segment_separator_len s i = 0"
    by (auto elim: glob_spec_SegE)
  then show "\<exists>k \<le> length s. glob_spec ts (drop k s) \<and> (\<forall>i < k. segment_separator_len s i = 0)"
    by (intro exI [of _ "length u"]) simp
next
  assume "\<exists>k \<le> length s. glob_spec ts (drop k s) \<and> (\<forall>i < k. segment_separator_len s i = 0)"
  then obtain k where "k \<le> length s" "glob_spec ts (drop k s)" "\<forall>i < k. segment_separator_len s i = 0"
    by blast
  then have "glob_spec (SegmentRun # ts) (take k s @ drop k s)" by (intro glob_seg) auto
  then show "glob_spec (SegmentRun # ts) s" by simp
qed

lemma glob_spec_One: "glob_spec (OneChar # ts) s \<longleftrightarrow>
    (\<exists>c v. s = c # v \<and> c \<noteq> CHR '':'' \<and> c \<noteq> CHR ''/'' \<and> glob_spec ts v)"
  by (auto elim: glob_spec_OneE intro: glob_one)

lemma glob_spec_Lit: "glob_spec (Literal c # ts) s \<longleftrightarrow> (\<exists>v. s = c # v \<and> glob_spec ts v)"
  by (auto elim: glob_spec_LitE intro: glob_lit)

lemma glob_correct:
  "glob_match_at pat str \<longleftrightarrow> glob_spec (glob_tokens pat) str"
  "k0 \<le> length str \<Longrightarrow> glob_star rest str k0 \<longleftrightarrow>
     (\<exists>k. k0 \<le> k \<and> k \<le> length str \<and> glob_spec (glob_tokens rest) (drop k str)
       \<and> (\<forall>i. k0 \<le> i \<longrightarrow> i < k \<longrightarrow> segment_separator_len str i = 0))"
proof (induction pat str and rest str k0 rule: glob_match_at_glob_star.induct)
  case (1 pat str)
  show ?case
  proof (cases "prefix ''**'' pat")
    case True
    then obtain ps where pat: "pat = ''**'' @ ps" by (auto simp: prefix_def)
    have "glob_match_at ps (drop k str) \<longleftrightarrow> glob_spec (glob_tokens ps) (drop k str)"
      if "k \<le> length str" for k using "1.IH"(1) [OF True, of k] that pat by (auto simp: le_eq_less_or_eq)
    moreover have "glob_match_at pat str \<longleftrightarrow> (\<exists>k \<le> length str. glob_match_at ps (drop k str))"
      using pat
      by (subst glob_match_at.simps) (simp add: list_ex_iff Bex_def less_Suc_eq_le del: upt_Suc)
    ultimately show ?thesis using pat by (auto simp: glob_spec_Any)
  next
    case False
    show ?thesis
    proof (cases pat)
      case Nil
      then show ?thesis
        by (subst glob_match_at.simps) (simp add: glob_spec_Nil split: list.split)
    next
      case (Cons p pat')
      have tok: "glob_tokens pat =
          (if p = CHR ''*'' then SegmentRun else if p = CHR ''?'' then OneChar else Literal p)
          # glob_tokens pat'"
        using False Cons by (cases pat') auto
      show ?thesis
      proof (cases str)
        case Nil
        have "p = CHR ''*'' \<Longrightarrow> glob_star pat' [] 0 \<longleftrightarrow> glob_spec (glob_tokens pat') []"
          using "1.IH"(2) [OF False refl Cons Nil] by simp
        then show ?thesis using False Cons Nil tok
          by (subst glob_match_at.simps) (cases "p = CHR ''*''"; simp add: glob_spec_Seg glob_spec_One glob_spec_Lit eq_commute [of p])
      next
        case (Cons c str')
        note IH = "1.IH"(3-) [OF False refl \<open>pat = p # pat'\<close> Cons]
        show ?thesis using IH False \<open>pat = p # pat'\<close> Cons tok
          by (subst glob_match_at.simps) (cases "p = CHR ''*''"; simp add: glob_spec_Seg glob_spec_One glob_spec_Lit eq_commute [of p])
      qed
    qed
  qed
next
  case (2 rest str k0)
  show ?case
  proof (cases "glob_match_at rest (drop k0 str)")
    case True
    then show ?thesis using 2 by (subst glob_star.simps) auto
  next
    case False
    then have no: "\<not> glob_spec (glob_tokens rest) (drop k0 str)" using "2.IH"(1) by simp
    show ?thesis
    proof (cases "k0 < length str \<and> segment_separator_len str k0 = 0")
      case stop: False
      then have "\<not> glob_star rest str k0" using False by (subst glob_star.simps) auto
      moreover have "k = k0" if "k0 \<le> k" "k \<le> length str"
          "\<forall>i. k0 \<le> i \<longrightarrow> i < k \<longrightarrow> segment_separator_len str i = 0" for k
        using that stop "2.prems" by (metis le_neq_implies_less order_less_le_trans order_refl)
      ultimately show ?thesis using no by blast
    next
      case True
      then have "glob_star rest str k0 = glob_star rest str (k0 + 1)"
        using False by (subst glob_star.simps) simp
      also have "\<dots> \<longleftrightarrow> (\<exists>k. k0 + 1 \<le> k \<and> k \<le> length str \<and> glob_spec (glob_tokens rest) (drop k str)
          \<and> (\<forall>i. k0 + 1 \<le> i \<longrightarrow> i < k \<longrightarrow> segment_separator_len str i = 0))"
        using "2.IH"(2) False True by simp
      also have "\<dots> \<longleftrightarrow> (\<exists>k. k0 \<le> k \<and> k \<le> length str \<and> glob_spec (glob_tokens rest) (drop k str)
          \<and> (\<forall>i. k0 \<le> i \<longrightarrow> i < k \<longrightarrow> segment_separator_len str i = 0))"
        using no True by (metis Suc_eq_plus1 Suc_leD le_neq_implies_less less_eq_Suc_le)
      finally show ?thesis .
    qed
  qed
qed

text \<open>A pattern without wildcards is an equality test.\<close>

lemma glob_spec_literal: "glob_spec (map Literal p) s \<longleftrightarrow> s = p"
  by (induction p arbitrary: s) (auto simp: glob_spec_Nil glob_spec_Lit)

lemma glob_tokens_literal:
  "CHR ''*'' \<notin> set p \<Longrightarrow> CHR ''?'' \<notin> set p \<Longrightarrow> glob_tokens p = map Literal p"
  by (induction p rule: glob_tokens.induct) auto

end
