(* ===== verification/Query_Filter.thy ===== *)
theory Query_Filter
  imports Core_Pattern
begin

text \<open>
  Walk directions and the per-edge admission predicate (\<open>filter.rs\<close> of \<open>cgx-query\<close>). The
  fan-out clause \<open>max_candidates\<close> is not decided here but by \<open>neighbors\<close>, as in the code.
\<close>

datatype direction = Forward | Backward

fun direction_reverse :: "direction \<Rightarrow> direction" where
  "direction_reverse Forward = Backward"
| "direction_reverse Backward = Forward"

datatype condition_filter = AnyCondition | Only edge_condition | Exclude edge_condition

record edge_filter =
  ef_min_confidence :: confidence
  ef_condition :: condition_filter
  ef_kinds :: "edge_kind list option"
  ef_max_candidates :: "nat option"

definition edge_filter_calls :: edge_filter where
  "edge_filter_calls =
     \<lparr>ef_min_confidence = Possible, ef_condition = AnyCondition, ef_kinds = None,
      ef_max_candidates = None\<rparr>"

definition with_min_confidence :: "confidence \<Rightarrow> edge_filter \<Rightarrow> edge_filter" where
  "with_min_confidence c f = f\<lparr>ef_min_confidence := c\<rparr>"

definition only_condition :: "edge_condition \<Rightarrow> edge_filter \<Rightarrow> edge_filter" where
  "only_condition c f = f\<lparr>ef_condition := Only c\<rparr>"

definition exclude_condition :: "edge_condition \<Rightarrow> edge_filter \<Rightarrow> edge_filter" where
  "exclude_condition c f = f\<lparr>ef_condition := Exclude c\<rparr>"

definition with_kinds :: "edge_kind list \<Rightarrow> edge_filter \<Rightarrow> edge_filter" where
  "with_kinds kinds f = f\<lparr>ef_kinds := (if kinds = [] then None else Some kinds)\<rparr>"

definition with_max_candidates :: "nat \<Rightarrow> edge_filter \<Rightarrow> edge_filter" where
  "with_max_candidates n f = f\<lparr>ef_max_candidates := Some n\<rparr>"

definition filter_admits :: "edge_filter \<Rightarrow> edge_record \<Rightarrow> bool" where
  "filter_admits f edge =
     (if (case ef_kinds f of Some kinds \<Rightarrow> e_kind edge \<notin> set kinds | None \<Rightarrow> \<not> is_call (e_kind edge))
      then False
      else if e_confidence edge < ef_min_confidence f then False
      else case ef_condition f of
          AnyCondition \<Rightarrow> True
        | Only c \<Rightarrow> e_condition edge = c
        | Exclude c \<Rightarrow> e_condition edge \<noteq> c)"

text \<open>A higher confidence floor admits fewer edges, and so does a condition clause.\<close>

lemma filter_admits_floor:
  "c \<le> d \<Longrightarrow> filter_admits (with_min_confidence d f) e \<Longrightarrow> filter_admits (with_min_confidence c f) e"
  by (auto simp: filter_admits_def with_min_confidence_def not_less split: option.splits if_splits
      condition_filter.splits)

end
