(* ===== verification/Select_Grammar.thy ===== *)
theory Select_Grammar
  imports Core_Pattern
begin

text \<open>
  The selector's segment grammar (\<open>grammar.rs\<close>, with the rejection reasons of
  \<open>diagnostics.rs\<close>): the parser of one segment, the affix-constraint matcher it produces,
  and the printer of the abstract syntax the grammar describes, for the parse/print round
  trip. Segments are iterated by \<open>chars()\<close>, so a \<^typ>\<open>char\<close> is a Rust \<open>char\<close> here. A loop
  that advances an index through the characters is a recursion on the remaining characters
  that keeps the index for the error positions.
\<close>

subsection \<open>Characters and rejections\<close>

datatype char_class = Rust_class | JavaTs_class | Python_class | Go_class

definition is_ascii_alphanumeric :: "char \<Rightarrow> bool" where
  "is_ascii_alphanumeric c \<longleftrightarrow>
     CHR ''A'' \<le> c \<and> c \<le> CHR ''Z'' \<or> CHR ''a'' \<le> c \<and> c \<le> CHR ''z'' \<or>
     CHR ''0'' \<le> c \<and> c \<le> CHR ''9''"

definition admits :: "char_class \<Rightarrow> char \<Rightarrow> bool" where
  "admits cls c =
     (let base = is_ascii_alphanumeric c \<or> c = CHR ''_'' in
      case cls of
        Rust_class \<Rightarrow> base
      | Python_class \<Rightarrow> base
      | JavaTs_class \<Rightarrow> base \<or> c = CHR ''$''
      | Go_class \<Rightarrow> base \<or> c = CHR ''.'' \<or> c = CHR ''-'')"

datatype reject_reason =
    QuestionMark nat
  | IllegalChar char nat
  | EmptySegment
  | Malformed string

subsection \<open>Segment matchers\<close>

datatype group_opt = GroupOpt (go_text: string) (go_negated: bool)

datatype run_pred =
    SetPred "string list" bool
  | MixedGroup "group_opt list"

datatype piece = Star | Run run_pred

type_synonym segment_matcher = "piece list"

datatype affix = Equals | StartsWith | EndsWith | Contains_affix

fun affix_hit :: "affix \<Rightarrow> string \<Rightarrow> string \<Rightarrow> bool" where
  "affix_hit Equals needle seg = (seg = needle)"
| "affix_hit StartsWith needle seg = str_starts_with seg needle"
| "affix_hit EndsWith needle seg = str_ends_with seg needle"
| "affix_hit Contains_affix needle seg = str_contains seg needle"

fun run_eval :: "run_pred \<Rightarrow> affix \<Rightarrow> string \<Rightarrow> bool" where
  "run_eval (SetPred options negated) affix seg =
     (negated \<noteq> list_ex (\<lambda>opt. affix_hit affix opt seg) options)"
| "run_eval (MixedGroup opts) affix seg =
     list_ex (\<lambda>opt. go_negated opt \<noteq> affix_hit affix (go_text opt) seg) opts"

fun affix_of :: "bool \<Rightarrow> bool \<Rightarrow> affix" where
  "affix_of False False = Equals"
| "affix_of False True = StartsWith"
| "affix_of True False = EndsWith"
| "affix_of True True = Contains_affix"

definition runs_of :: "segment_matcher \<Rightarrow> run_pred list" where
  "runs_of pieces = List.map_filter (\<lambda>p. case p of Run r \<Rightarrow> Some r | Star \<Rightarrow> None) pieces"

definition segment_matches :: "segment_matcher \<Rightarrow> string \<Rightarrow> bool" where
  "segment_matches pieces seg =
     (let leading_star = (pieces \<noteq> [] \<and> hd pieces = Star);
          trailing_star = (pieces \<noteq> [] \<and> last pieces = Star);
          runs = runs_of pieces;
          k = length runs
      in if k = 0 then True
         else list_all (\<lambda>i. run_eval (runs ! i)
                (affix_of (i > 0 \<or> leading_star) (i < k - 1 \<or> trailing_star)) seg) [0..<k])"

subsection \<open>The parser of one segment\<close>

fun star_run :: "string \<Rightarrow> string \<times> string" where
  "star_run [] = ([], [])"
| "star_run (c # cs) =
     (if c = CHR ''*'' then (let (stars, rest) = star_run cs in (c # stars, rest)) else ([], c # cs))"

lemma star_run_append: "fst (star_run cs) @ snd (star_run cs) = cs"
  by (induction cs) (auto simp: Let_def split: prod.split)

lemma star_run_length: "length (snd (star_run cs)) \<le> length cs"
  by (metis star_run_append le_add2 length_append)

function rewrite_bang_star :: "string \<Rightarrow> string \<times> bool" where
  "rewrite_bang_star [] = ([], False)"
| "rewrite_bang_star (c # cs) =
     (if c = CHR ''!'' \<and> cs \<noteq> [] \<and> hd cs = CHR ''*'' then
        let out = rewrite_bang_star (snd (star_run cs))
        in (fst (star_run cs) @ ''!'' @ fst out, True)
      else let out = rewrite_bang_star cs in (c # fst out, snd out))"
  by pat_completeness auto
termination
  by (relation "measure length") (auto simp: less_Suc_eq_le star_run_length)

datatype atom = Lit string | Group "group_opt list"

definition push_opt ::
  "group_opt list \<Rightarrow> string \<Rightarrow> bool \<Rightarrow> bool \<Rightarrow> reject_reason + group_opt list" where
  "push_opt opts cur negated started_opt =
     (if cur = [] \<and> \<not> started_opt then Inl (Malformed ''empty alternative in group'')
      else if cur = [] then Inl (Malformed ''empty alternative in group'')
      else Inr (opts @ [GroupOpt cur negated]))"

fun group_loop ::
  "char_class \<Rightarrow> string \<Rightarrow> nat \<Rightarrow> group_opt list \<Rightarrow> string \<Rightarrow> bool \<Rightarrow> bool
    \<Rightarrow> reject_reason + atom \<times> nat" where
  "group_loop cls [] i opts cur negated started =
     Inl (Malformed ''unbalanced `(` in alternation group'')"
| "group_loop cls (c # cs) i opts cur negated started =
     (if c = CHR '')'' then
        (case push_opt opts cur negated started of
           Inl e \<Rightarrow> Inl e
         | Inr opts' \<Rightarrow>
             if opts' = [] then Inl (Malformed ''empty alternation group `()`'')
             else Inr (Group opts', i + 1))
      else if c = CHR ''|'' then
        (case push_opt opts cur negated started of
           Inl e \<Rightarrow> Inl e
         | Inr opts' \<Rightarrow> group_loop cls cs (i + 1) opts' [] False False)
      else if c = CHR ''!'' \<and> \<not> started \<and> cur = [] \<and> \<not> negated then
        group_loop cls cs (i + 1) opts cur True True
      else if c = CHR ''('' then
        Inl (Malformed ''nested alternation groups are not supported'')
      else if c = CHR ''*'' \<or> c = CHR ''?'' then
        Inl (Malformed (''wildcard '' @ debug_char c @ '' inside an alternation group''))
      else if admits cls c then group_loop cls cs (i + 1) opts (cur @ [c]) negated True
      else Inl (IllegalChar c i))"

text \<open>Called on characters that start with the open parenthesis, at index 0.\<close>

definition parse_group :: "char_class \<Rightarrow> string \<Rightarrow> reject_reason + atom \<times> nat" where
  "parse_group cls chars = group_loop cls (tl chars) 1 [] [] False False"

definition push_star :: "piece list \<Rightarrow> piece list" where
  "push_star pieces = (if pieces \<noteq> [] \<and> last pieces = Star then pieces else pieces @ [Star])"

definition flush_lit :: "atom list \<Rightarrow> string \<Rightarrow> atom list" where
  "flush_lit atoms lit = (if lit \<noteq> [] then atoms @ [Lit lit] else atoms)"

fun cross :: "atom list \<Rightarrow> string list \<Rightarrow> reject_reason + string list" where
  "cross [] strings = Inr strings"
| "cross (Lit s # as) strings = cross as (map (\<lambda>p. p @ s) strings)"
| "cross (Group opts # as) strings =
     (if list_ex go_negated opts then
        Inl (Malformed ''negated option in a concatenated group is unsupported'')
      else cross as (concat (map (\<lambda>p. map (\<lambda>opt. p @ go_text opt) opts) strings)))"

definition flush_run :: "piece list \<Rightarrow> atom list \<Rightarrow> bool \<Rightarrow> reject_reason + piece list" where
  "flush_run pieces atoms run_negated =
     (let general = (case cross atoms [[]] of
          Inl e \<Rightarrow> Inl e
        | Inr strings \<Rightarrow> Inr (pieces @ [Run (SetPred strings run_negated)]))
      in case atoms of
          [] \<Rightarrow> Inr pieces
        | [Group opts] \<Rightarrow>
            if list_ex go_negated opts then
              if run_negated then
                Inl (Malformed ''`!` cannot prefix a group that already negates options'')
              else Inr (pieces @ [Run (MixedGroup opts)])
            else general
        | _ \<Rightarrow> general)"

lemma group_loop_consumed: "group_loop cls cs i opts cur neg st = Inr (g, n) \<Longrightarrow> i < n"
  by (induction cs arbitrary: i opts cur neg st)
    (fastforce split: if_splits sum.splits dest: Suc_lessD)+

lemma parse_group_consumed: "parse_group cls chars = Inr (g, n) \<Longrightarrow> 0 < n"
  by (auto simp: parse_group_def dest: group_loop_consumed)

function body_loop ::
  "char_class \<Rightarrow> string \<Rightarrow> nat \<Rightarrow> piece list \<Rightarrow> atom list \<Rightarrow> string \<Rightarrow> bool
    \<Rightarrow> reject_reason + segment_matcher" where
  "body_loop cls [] i pieces atoms lit neg = flush_run pieces (flush_lit atoms lit) neg"
| "body_loop cls (c # cs) i pieces atoms lit neg =
     (if c = CHR ''?'' then Inl (QuestionMark i)
      else if c = CHR ''*'' then
        (case flush_run pieces (flush_lit atoms lit) neg of
           Inl e \<Rightarrow> Inl e
         | Inr pieces' \<Rightarrow> body_loop cls cs (i + 1) (push_star pieces') [] [] False)
      else if c = CHR ''!'' then
        (if lit \<noteq> [] \<or> atoms \<noteq> [] \<or> neg then
           Inl (Malformed ''`!` must prefix a literal or `(...)` group'')
         else body_loop cls cs (i + 1) pieces atoms lit True)
      else if c = CHR ''('' then
        (case parse_group cls (c # cs) of
           Inl e \<Rightarrow> Inl e
         | Inr (g, consumed) \<Rightarrow>
             body_loop cls (drop consumed (c # cs)) (i + consumed) pieces
               (flush_lit atoms lit @ [g]) [] neg)
      else if c = CHR '')'' \<or> c = CHR ''|'' then
        Inl (Malformed (''unexpected '' @ debug_char c @ '' outside a group''))
      else if admits cls c then body_loop cls cs (i + 1) pieces atoms (lit @ [c]) neg
      else Inl (IllegalChar c i))"
  by pat_completeness auto
termination
  by (relation "measure (\<lambda>(cls, cs, _). length cs)") (auto dest: parse_group_consumed)

definition parse_segment_body :: "string \<Rightarrow> char_class \<Rightarrow> reject_reason + segment_matcher" where
  "parse_segment_body s cls = body_loop cls s 0 [] [] [] False"

definition parse_segment ::
  "string \<Rightarrow> char_class \<Rightarrow> reject_reason + segment_matcher \<times> (string \<times> string) option" where
  "parse_segment raw cls =
     (let (working, rewritten) = rewrite_bang_star raw in
      case parse_segment_body working cls of
        Inl e \<Rightarrow> Inl e
      | Inr matcher \<Rightarrow> Inr (matcher, if rewritten then Some (raw, working) else None))"

end
