(* ===== verification/Select_Syntax.thy ===== *)
theory Select_Syntax
  imports Select_Grammar
begin

text \<open>
  The abstract syntax of one selector segment, its printer, and what the grammar table of
  \<open>lib.rs\<close> says a segment means. The central lemma is the round trip: printing a
  well-formed segment and parsing it back yields the matcher of the abstract syntax, with no
  rewrite diagnostic. The matcher is then related to the forms of the table.
\<close>

subsection \<open>Abstract syntax and printer\<close>

datatype elem = EStar | ERun bool "atom list"

fun print_opt :: "group_opt \<Rightarrow> string" where
  "print_opt (GroupOpt t n) = (if n then ''!'' else []) @ t"

fun print_atom :: "atom \<Rightarrow> string" where
  "print_atom (Lit s) = s"
| "print_atom (Group opts) = ''('' @ str_join ''|'' (map print_opt opts) @ '')''"

fun print_elem :: "elem \<Rightarrow> string" where
  "print_elem EStar = ''*''"
| "print_elem (ERun neg atoms) = (if neg then ''!'' else []) @ concat (map print_atom atoms)"

definition print_segment :: "elem list \<Rightarrow> string" where
  "print_segment es = concat (map print_elem es)"

definition wf_text :: "char_class \<Rightarrow> string \<Rightarrow> bool" where
  "wf_text cls s \<longleftrightarrow> s \<noteq> [] \<and> list_all (admits cls) s"

fun wf_atom :: "char_class \<Rightarrow> atom \<Rightarrow> bool" where
  "wf_atom cls (Lit s) = wf_text cls s"
| "wf_atom cls (Group opts) = (opts \<noteq> [] \<and> list_all (\<lambda>opt. wf_text cls (go_text opt)) opts)"

fun is_lit :: "atom \<Rightarrow> bool" where
  "is_lit (Lit _) = True"
| "is_lit (Group _) = False"

fun mixed :: "atom \<Rightarrow> bool" where
  "mixed (Lit _) = False"
| "mixed (Group opts) = list_ex go_negated opts"

fun wf_elem :: "char_class \<Rightarrow> elem \<Rightarrow> bool" where
  "wf_elem cls EStar = True"
| "wf_elem cls (ERun neg atoms) =
     (atoms \<noteq> [] \<and> list_all (wf_atom cls) atoms \<and>
      successively (\<lambda>a b. \<not> (is_lit a \<and> is_lit b)) atoms \<and>
      (list_ex mixed atoms \<longrightarrow> length atoms = 1 \<and> \<not> neg))"

fun same_shape :: "elem \<Rightarrow> elem \<Rightarrow> bool" where
  "same_shape EStar EStar = True"
| "same_shape (ERun _ _) (ERun _ _) = True"
| "same_shape _ _ = False"

definition wf_segment :: "char_class \<Rightarrow> elem list \<Rightarrow> bool" where
  "wf_segment cls es \<longleftrightarrow>
     es \<noteq> [] \<and> list_all (wf_elem cls) es \<and> successively (\<lambda>a b. \<not> same_shape a b) es"

text \<open>The strings a run of positive atoms can spell, in the order the parser lists them.\<close>

fun spellings :: "atom list \<Rightarrow> string list" where
  "spellings [] = [[]]"
| "spellings (Lit s # as) = map (\<lambda>t. s @ t) (spellings as)"
| "spellings (Group opts # as) = concat (map (\<lambda>opt. map (\<lambda>t. go_text opt @ t) (spellings as)) opts)"

fun run_pred_of :: "bool \<Rightarrow> atom list \<Rightarrow> run_pred" where
  "run_pred_of neg atoms =
     (if list_ex mixed atoms then
        (case atoms of [Group opts] \<Rightarrow> MixedGroup opts | _ \<Rightarrow> SetPred (spellings atoms) neg)
      else SetPred (spellings atoms) neg)"

fun elem_piece :: "elem \<Rightarrow> piece" where
  "elem_piece EStar = Star"
| "elem_piece (ERun neg atoms) = Run (run_pred_of neg atoms)"

definition matcher_of :: "elem list \<Rightarrow> segment_matcher" where
  "matcher_of es = map elem_piece es"

subsection \<open>Admissible characters are not metacharacters\<close>

definition metachars :: string where
  "metachars = ''?*!()|:/''"

lemma not_alnum_meta: "c \<in> set metachars \<Longrightarrow> \<not> is_ascii_alphanumeric c"
  by (auto simp: metachars_def is_ascii_alphanumeric_def less_eq_char_def)

lemma admits_not_meta: "admits cls c \<Longrightarrow> c \<notin> set metachars"
  using not_alnum_meta [of c]
  by (cases cls) (auto simp: admits_def Let_def metachars_def)

lemma admits_neq:
  assumes "admits cls c"
  shows "c \<noteq> CHR ''?''" "c \<noteq> CHR ''*''" "c \<noteq> CHR ''!''" "c \<noteq> CHR ''(''" "c \<noteq> CHR '')''"
    "c \<noteq> CHR ''|''" "c \<noteq> CHR '':''" "c \<noteq> CHR ''/''"
  using admits_not_meta [OF assms] by (auto simp: metachars_def)

lemma wf_text_not_meta: "wf_text cls s \<Longrightarrow> c \<in> set s \<Longrightarrow> c \<notin> set metachars"
  by (auto simp: wf_text_def list_all_iff dest: admits_not_meta)

subsection \<open>The parser follows the printer\<close>

lemma body_loop_char:
  "admits cls c \<Longrightarrow> body_loop cls (c # cs) i pieces atoms lit neg
     = body_loop cls cs (i + 1) pieces atoms (lit @ [c]) neg"
  using admits_neq [of cls c] by simp

lemma group_loop_char:
  "admits cls c \<Longrightarrow> group_loop cls (c # cs) i opts cur neg st
     = group_loop cls cs (i + 1) opts (cur @ [c]) neg True"
  using admits_neq [of cls c] by simp

lemma body_loop_text:
  "list_all (admits cls) s \<Longrightarrow>
   body_loop cls (s @ rest) i pieces atoms lit neg
     = body_loop cls rest (i + length s) pieces atoms (lit @ s) neg"
  by (induction s arbitrary: i lit) (simp_all add: body_loop_char del: body_loop.simps(2))

lemma group_loop_text:
  "list_all (admits cls) s \<Longrightarrow> s \<noteq> [] \<Longrightarrow>
   group_loop cls (s @ rest) i opts cur neg st
     = group_loop cls rest (i + length s) opts (cur @ s) neg True"
proof (induction s arbitrary: i cur st)
  case (Cons c s)
  then show ?case
    by (cases "s = []") (simp_all add: group_loop_char del: group_loop.simps(2))
qed simp

lemma group_loop_opt:
  assumes "wf_text cls (go_text opt)"
  shows "group_loop cls (print_opt opt @ rest) i opts [] False False
     = group_loop cls rest (i + length (print_opt opt)) opts (go_text opt) (go_negated opt) True"
  using assms by (cases opt) (simp add: wf_text_def group_loop_text)

lemma group_loop_opts:
  assumes "opts \<noteq> []" "list_all (\<lambda>opt. wf_text cls (go_text opt)) opts"
  shows "group_loop cls (str_join ''|'' (map print_opt opts) @ '')'' @ rest) i acc [] False False
     = Inr (Group (acc @ opts), i + length (str_join ''|'' (map print_opt opts)) + 1)"
  using assms
proof (induction opts arbitrary: i acc)
  case (Cons opt opts)
  have ne: "go_text opt \<noteq> []" using Cons.prems by (simp add: wf_text_def)
  show ?case
  proof (cases opts)
    case Nil
    then show ?thesis using Cons.prems ne by (simp add: group_loop_opt push_opt_def)
  next
    case (Cons opt' opts')
    then show ?thesis using Cons.IH [of "i + length (print_opt opt) + 1" "acc @ [opt]"] Cons.prems ne
      by (simp add: group_loop_opt push_opt_def add.assoc)
  qed
qed simp

lemma parse_group_print:
  assumes "wf_atom cls (Group opts)"
  shows "parse_group cls (print_atom (Group opts) @ rest)
     = Inr (Group opts, length (print_atom (Group opts)))"
  using assms group_loop_opts [of opts cls rest 1 "[]"] by (simp add: parse_group_def)

lemma body_loop_group:
  assumes "wf_atom cls (Group opts)"
  shows "body_loop cls (print_atom (Group opts) @ rest) i pieces atoms lit neg
     = body_loop cls rest (i + length (print_atom (Group opts))) pieces
         (flush_lit atoms lit @ [Group opts]) [] neg"
proof -
  obtain cs where cs: "print_atom (Group opts) @ rest = CHR ''('' # cs" by simp
  then show ?thesis using parse_group_print [OF assms, of rest]
    by (simp del: print_atom.simps) (metis append_eq_conv_conj drop_Suc_Cons)
qed

lemma body_loop_atoms:
  assumes "list_all (wf_atom cls) as" "successively (\<lambda>a b. \<not> (is_lit a \<and> is_lit b)) as"
    and "lit \<noteq> [] \<Longrightarrow> as \<noteq> [] \<Longrightarrow> \<not> is_lit (hd as)"
  shows "\<exists>atoms' lit'. flush_lit atoms' lit' = flush_lit atoms lit @ as \<and>
     (\<forall>rest i pieces. body_loop cls (concat (map print_atom as) @ rest) i pieces atoms lit neg
        = body_loop cls rest (i + length (concat (map print_atom as))) pieces atoms' lit' neg)"
  using assms
proof (induction as arbitrary: atoms lit)
  case Nil
  then show ?case by auto
next
  case (Cons a as)
  show ?case
  proof (cases a)
    case (Lit s)
    then have s: "lit = []" "s \<noteq> []" "list_all (admits cls) s"
      using Cons.prems by (auto simp: wf_text_def)
    have "as \<noteq> [] \<Longrightarrow> \<not> is_lit (hd as)" using Cons.prems(2) Lit by (cases as) auto
    then obtain atoms' lit' where *: "flush_lit atoms' lit' = flush_lit atoms s @ as"
        "\<And>rest i pieces. body_loop cls (concat (map print_atom as) @ rest) i pieces atoms s neg
          = body_loop cls rest (i + length (concat (map print_atom as))) pieces atoms' lit' neg"
      using Cons.IH [of s atoms] Cons.prems(1,2) by (auto simp: successively_Cons)
    then show ?thesis using Lit s
      by (intro exI [of _ atoms'] exI [of _ lit'])
        (simp add: body_loop_text flush_lit_def [of atoms] add.assoc)
  next
    case (Group opts)
    obtain atoms' lit' where *: "flush_lit atoms' lit' = flush_lit atoms lit @ [Group opts] @ as"
        "\<And>rest i pieces. body_loop cls (concat (map print_atom as) @ rest) i pieces
            (flush_lit atoms lit @ [Group opts]) [] neg
          = body_loop cls rest (i + length (concat (map print_atom as))) pieces atoms' lit' neg"
      using Cons.IH [of "[]" "flush_lit atoms lit @ [Group opts]"] Cons.prems(1,2)
      by (auto simp: successively_Cons flush_lit_def)
    then show ?thesis using Group Cons.prems(1)
      by (intro exI [of _ atoms'] exI [of _ lit'])
        (simp add: body_loop_group add.assoc del: print_atom.simps)
  qed
qed

lemma append_op_append: "(@) (p @ s) = (\<lambda>t. p @ s @ t)"
  by (rule ext) simp

lemma cross_spellings:
  "\<not> list_ex mixed as \<Longrightarrow> cross as strings = Inr (concat (map (\<lambda>p. map (\<lambda>t. p @ t) (spellings as)) strings))"
proof (induction as arbitrary: strings)
  case (Cons a as)
  show ?case
  proof (cases a)
    case (Lit s)
    then show ?thesis using Cons by (simp add: comp_def append_op_append)
  next
    case (Group opts)
    have "concat (map (\<lambda>p. map ((@) p) (spellings as))
            (concat (map (\<lambda>p. map (\<lambda>opt. p @ go_text opt) opts) strings)))
        = concat (map (\<lambda>p. map ((@) p) (spellings (Group opts # as))) strings)"
      by (induction strings) (simp_all add: map_concat comp_def append_op_append)
    then show ?thesis using Cons Group by simp
  qed
qed simp

lemma flush_run_pred:
  assumes "wf_elem cls (ERun neg atoms)"
  shows "flush_run pieces atoms neg = Inr (pieces @ [elem_piece (ERun neg atoms)])"
proof (cases "list_ex mixed atoms")
  case True
  then obtain opts where "atoms = [Group opts]" "\<not> neg"
    using assms by (cases atoms rule: remdups_adj.cases; cases "hd atoms") auto
  then show ?thesis using True by (simp add: flush_run_def Let_def)
next
  case False
  have "atoms \<noteq> []" using assms by simp
  with False have "flush_run pieces atoms neg
      = (case cross atoms [[]] of Inl e \<Rightarrow> Inl e
         | Inr strings \<Rightarrow> Inr (pieces @ [Run (SetPred strings neg)]))"
    by (auto simp: flush_run_def Let_def split: list.split atom.split)
  moreover have "map ((@) []) xs = xs" for xs :: "string list" by (induction xs) simp_all
  ultimately show ?thesis using False by (simp add: cross_spellings)
qed

lemma body_loop_run:
  assumes "wf_elem cls (ERun neg atoms)"
  obtains atoms' lit' where "flush_lit atoms' lit' = atoms"
    "\<And>rest i pieces. body_loop cls (print_elem (ERun neg atoms) @ rest) i pieces [] [] False
       = body_loop cls rest (i + length (print_elem (ERun neg atoms))) pieces atoms' lit' neg"
proof -
  obtain atoms' lit' where *: "flush_lit atoms' lit' = atoms"
      "\<And>rest i pieces. body_loop cls (concat (map print_atom atoms) @ rest) i pieces [] [] neg
        = body_loop cls rest (i + length (concat (map print_atom atoms))) pieces atoms' lit' neg"
    using body_loop_atoms [of cls atoms "[]" "[]" neg] assms by (auto simp: flush_lit_def)
  then show ?thesis by (intro that [of atoms' lit']) (cases neg; simp add: add.assoc)+
qed

lemma body_loop_print:
  assumes "list_all (wf_elem cls) es" "successively (\<lambda>a b. \<not> same_shape a b) es"
    and "es \<noteq> [] \<Longrightarrow> hd es = EStar \<Longrightarrow> pieces = [] \<or> last pieces \<noteq> Star"
  shows "body_loop cls (print_segment es) i pieces [] [] False = Inr (pieces @ matcher_of es)"
  using assms
proof (induction "length es" arbitrary: es i pieces rule: less_induct)
  case less
  show ?case
  proof (cases es)
    case Nil
    then show ?thesis by (simp add: print_segment_def flush_lit_def flush_run_def matcher_of_def)
  next
    case (Cons e es')
    show ?thesis
    proof (cases e)
      case EStar
      have "es' \<noteq> [] \<Longrightarrow> hd es' \<noteq> EStar" using less.prems(2) Cons EStar by (cases es') auto
      then have "body_loop cls (print_segment es') (i + 1) (pieces @ [Star]) [] [] False
          = Inr (pieces @ [Star] @ matcher_of es')"
        using less.hyps [of es' "pieces @ [Star]" "i + 1"] less.prems Cons by (auto simp: successively_Cons)
      then show ?thesis using Cons EStar less.prems(3)
        by (auto simp: print_segment_def flush_lit_def flush_run_def push_star_def matcher_of_def)
    next
      case (ERun neg atoms)
      then have wf: "wf_elem cls (ERun neg atoms)" using less.prems(1) Cons by simp
      obtain atoms' lit' where fl: "flush_lit atoms' lit' = atoms"
          and run: "\<And>rest i pieces. body_loop cls (print_elem (ERun neg atoms) @ rest) i pieces [] [] False
            = body_loop cls rest (i + length (print_elem (ERun neg atoms))) pieces atoms' lit' neg"
        using body_loop_run [OF wf] by blast
      show ?thesis
      proof (cases es')
        case Nil
        then show ?thesis using Cons ERun run [of "[]"] fl flush_run_pred [OF wf]
          by (simp add: print_segment_def matcher_of_def del: print_elem.simps elem_piece.simps wf_elem.simps)
      next
        case (Cons e2 es2)
        then have e2: "e2 = EStar" using less.prems(2) \<open>es = e # es'\<close> ERun by (cases e2) auto
        have "es2 \<noteq> [] \<Longrightarrow> hd es2 \<noteq> EStar" using less.prems(2) \<open>es = e # es'\<close> Cons e2 by (cases es2) auto
        then have "body_loop cls (print_segment es2) j (pieces @ [elem_piece e, Star]) [] [] False
            = Inr (pieces @ [elem_piece e, Star] @ matcher_of es2)" for j
          using less.hyps [of es2 "pieces @ [elem_piece e, Star]" j] less.prems \<open>es = e # es'\<close> Cons
          by (auto simp: successively_Cons)
        then show ?thesis
          using \<open>es = e # es'\<close> Cons e2 ERun run [of "''*'' @ print_segment es2"] fl flush_run_pred [OF wf]
          by (simp add: print_segment_def matcher_of_def push_star_def del: wf_elem.simps)
      qed
    qed
  qed
qed

subsection \<open>Printed segments are not rewritten\<close>

definition no_bang_star :: "string \<Rightarrow> bool" where
  "no_bang_star s \<longleftrightarrow> successively (\<lambda>a b. \<not> (a = CHR ''!'' \<and> b = CHR ''*'')) s"

lemma rewrite_bang_star_id: "no_bang_star s \<Longrightarrow> rewrite_bang_star s = (s, False)"
proof (induction s)
  case (Cons c s)
  then show ?case by (cases s) (auto simp: no_bang_star_def)
qed simp

lemma no_star_no_bang_star: "CHR ''*'' \<notin> set s \<Longrightarrow> no_bang_star s"
  unfolding no_bang_star_def by (rule successively_if_sorted_wrt) (force simp: sorted_wrt_iff_nth_less in_set_conv_nth)

lemma set_str_join: "set (str_join sep xs) \<subseteq> set sep \<union> (\<Union>x \<in> set xs. set x)"
  by (induction sep xs rule: str_join.induct) auto

lemma wf_atom_shape:
  assumes "wf_atom cls a"
  shows "print_atom a \<noteq> [] \<and> CHR ''*'' \<notin> set (print_atom a) \<and> last (print_atom a) \<noteq> CHR ''!''"
proof (cases a)
  case (Lit s)
  then have wf: "wf_text cls s" using assms by simp
  then have "s \<noteq> []" by (simp add: wf_text_def)
  then have "last s \<in> set s" by simp
  then show ?thesis using wf_text_not_meta [OF wf] Lit \<open>s \<noteq> []\<close> by (auto simp: metachars_def)
next
  case (Group opts)
  have "CHR ''*'' \<notin> set (print_opt opt)" if "opt \<in> set opts" for opt
    using assms that Group wf_text_not_meta [of cls "go_text opt" "CHR ''*''"]
    by (cases opt) (auto simp: list_all_iff metachars_def)
  then show ?thesis using Group set_str_join [of "''|''" "map print_opt opts"] by auto
qed

lemma wf_run_shape:
  assumes "wf_elem cls (ERun neg atoms)"
  shows "print_elem (ERun neg atoms) \<noteq> [] \<and> CHR ''*'' \<notin> set (print_elem (ERun neg atoms))
    \<and> last (print_elem (ERun neg atoms)) \<noteq> CHR ''!''"
proof -
  have "list_all (wf_atom cls) as \<Longrightarrow> as \<noteq> [] \<Longrightarrow>
      concat (map print_atom as) \<noteq> [] \<and> CHR ''*'' \<notin> set (concat (map print_atom as))
      \<and> last (concat (map print_atom as)) \<noteq> CHR ''!''" for as
  proof (induction as)
    case (Cons a as)
    then show ?case using wf_atom_shape [of cls a] by (cases "as = []") auto
  qed simp
  from this [of atoms] assms show ?thesis by auto
qed

lemma print_segment_no_bang_star: "list_all (wf_elem cls) es \<Longrightarrow> no_bang_star (print_segment es)"
proof (induction es)
  case (Cons e es)
  then have IH: "no_bang_star (print_segment es)" and e: "wf_elem cls e" by simp_all
  have "no_bang_star (print_elem e) \<and> last (print_elem e) \<noteq> CHR ''!''"
    using e wf_run_shape [of cls] no_star_no_bang_star
    by (cases e) (auto simp: no_bang_star_def simp del: print_elem.simps(2) wf_elem.simps(2))
  with IH show ?case
    by (auto simp: print_segment_def no_bang_star_def successively_append_iff)
qed (simp add: print_segment_def no_bang_star_def)

lemma parse_print:
  assumes "wf_segment cls es"
  shows "parse_segment (print_segment es) cls = Inr (matcher_of es, None)"
proof -
  have wf: "list_all (wf_elem cls) es" "successively (\<lambda>a b. \<not> same_shape a b) es"
    using assms by (simp_all add: wf_segment_def)
  then show ?thesis
    using rewrite_bang_star_id [OF print_segment_no_bang_star [OF wf(1)]]
      body_loop_print [OF wf, of "[]" 0]
    by (simp add: parse_segment_def parse_segment_body_def)
qed

lemma print_segment_nonempty: "wf_segment cls es \<Longrightarrow> print_segment es \<noteq> []"
  using wf_run_shape [of cls]
  by (cases es; cases "hd es") (auto simp: wf_segment_def print_segment_def simp del: print_elem.simps(2))

lemma print_segment_not_globstar:
  assumes "wf_segment cls es"
  shows "print_segment es \<noteq> ''**''"
proof
  assume eq: "print_segment es = ''**''"
  have wf: "wf_elem cls e" if "e \<in> set es" for e
    using assms that by (simp add: wf_segment_def list_all_iff)
  have star: "e = EStar" if "e \<in> set es" for e
  proof (cases e)
    case (ERun neg atoms)
    note shape = wf_run_shape [OF wf [OF that, unfolded ERun]]
    have "set (print_elem e) \<subseteq> set (print_segment es)"
      using that by (auto simp: print_segment_def)
    then have "set (print_elem e) \<subseteq> {CHR ''*''}" by (simp add: eq)
    moreover have "hd (print_elem e) \<in> set (print_elem e)" using shape ERun hd_in_set [of "print_elem e"] by blast
    ultimately have "CHR ''*'' \<in> set (print_elem e)" by (metis singletonD subsetD)
    then show ?thesis using shape ERun by (simp only: simp_thms)
  qed simp
  obtain e1 es1 where es: "es = e1 # es1" using assms by (cases es) (simp_all add: wf_segment_def)
  have "es1 = []"
  proof (cases es1)
    case (Cons e2 es2)
    then have "e1 = EStar" "e2 = EStar" using star [of e1] star [of e2] es by simp_all
    then show ?thesis using assms es Cons by (simp add: wf_segment_def)
  qed
  then have "es = [EStar]" using star [of e1] es by simp
  then show False using eq by (simp add: print_segment_def)
qed

subsection \<open>What a segment means\<close>

text \<open>The strings of a run: one alternative of each group, in order.\<close>

inductive spells :: "atom list \<Rightarrow> string \<Rightarrow> bool" where
  spells_nil: "spells [] []"
| spells_lit: "spells as t \<Longrightarrow> spells (Lit s # as) (s @ t)"
| spells_group: "spells as t \<Longrightarrow> opt \<in> set opts \<Longrightarrow> spells (Group opts # as) (go_text opt @ t)"

inductive_simps spells_simps: "spells [] s" "spells (Lit l # as) s" "spells (Group opts # as) s"

lemma set_spellings: "set (spellings as) = {s. spells as s}"
  by (induction as rule: spellings.induct) (auto simp: spells_simps)

definition affix_spec :: "affix \<Rightarrow> (string \<Rightarrow> bool) \<Rightarrow> string \<Rightarrow> bool" where
  "affix_spec a S seg \<longleftrightarrow>
     (\<exists>u s v. seg = u @ s @ v \<and> S s \<and> (a \<in> {Equals, StartsWith} \<longrightarrow> u = []) \<and>
        (a \<in> {Equals, EndsWith} \<longrightarrow> v = []))"

lemma affix_hit_spec: "affix_hit a needle seg \<longleftrightarrow> affix_spec a (\<lambda>s. s = needle) seg"
  by (cases a) (auto simp: affix_spec_def str_starts_with_iff str_ends_with_iff str_contains_iff)

lemma run_eval_spec:
  assumes "\<not> list_ex mixed atoms"
  shows "run_eval (run_pred_of neg atoms) a seg \<longleftrightarrow> (neg \<noteq> affix_spec a (spells atoms) seg)"
proof -
  have "list_ex (\<lambda>s. affix_hit a s seg) (spellings atoms) \<longleftrightarrow> affix_spec a (spells atoms) seg"
    by (auto simp: list_ex_iff set_spellings affix_hit_spec affix_spec_def)
  with assms show ?thesis by simp
qed

lemma segment_matches_run:
  "segment_matches [Run r] seg \<longleftrightarrow> run_eval r Equals seg"
  "segment_matches [Run r, Star] seg \<longleftrightarrow> run_eval r StartsWith seg"
  "segment_matches [Star, Run r] seg \<longleftrightarrow> run_eval r EndsWith seg"
  "segment_matches [Star, Run r, Star] seg \<longleftrightarrow> run_eval r Contains_affix seg"
  "segment_matches [Star] seg"
  "segment_matches [Run r, Star, Run q] seg \<longleftrightarrow> run_eval r StartsWith seg \<and> run_eval q EndsWith seg"
  by (simp_all add: segment_matches_def runs_of_def map_filter_simps Let_def)

end
