(* ===== verification/Select_Tokenizer.thy ===== *)
theory Select_Tokenizer
  imports Select_Syntax
begin

text \<open>
  Language families (\<open>family.rs\<close>) and the five separator tokenizers (\<open>tokenizer.rs\<close>). The
  registry is collected at link time by the \<open>inventory\<close> crate in an unspecified order, so
  the collected list is a parameter of \<open>registered\<close>; the code relies on its being the five
  submitted tokenizers in some order. The nesting depth of \<open>split\<close>, an \<open>i32\<close> that moves by
  one per parenthesis, is an \<^typ>\<open>int\<close>.
\<close>

subsection \<open>Families\<close>

datatype family = Rust | Go | TypeScript | Java | Python

fun family_disc :: "family \<Rightarrow> nat" where
  "family_disc Rust = 0"
| "family_disc Go = 1"
| "family_disc TypeScript = 2"
| "family_disc Java = 3"
| "family_disc Python = 4"

lemma family_disc_inj: "family_disc a = family_disc b \<Longrightarrow> a = b"
  by (cases a; cases b) simp_all

instantiation family :: linorder
begin

definition less_eq_family :: "family \<Rightarrow> family \<Rightarrow> bool" where
  "less_eq_family a b \<longleftrightarrow> family_disc a \<le> family_disc b"

definition less_family :: "family \<Rightarrow> family \<Rightarrow> bool" where
  "less_family a b \<longleftrightarrow> family_disc a < family_disc b"

instance
  by standard (auto simp: less_eq_family_def less_family_def intro: family_disc_inj)

end

fun lang_tags :: "family \<Rightarrow> string list" where
  "lang_tags Rust = [''rust'']"
| "lang_tags Go = [''go'']"
| "lang_tags TypeScript = [''typescript'']"
| "lang_tags Java = [''java'']"
| "lang_tags Python = [''python'']"

fun family_name :: "family \<Rightarrow> string" where
  "family_name Rust = ''rust''"
| "family_name Go = ''go''"
| "family_name TypeScript = ''typescript''"
| "family_name Java = ''java''"
| "family_name Python = ''python''"

lemma lang_tags_disjoint: "t \<in> set (lang_tags f) \<Longrightarrow> t \<in> set (lang_tags g) \<Longrightarrow> f = g"
  by (cases f; cases g) auto

subsection \<open>Tokenizers\<close>

datatype sep = ColonColon | Dot | Slash

fun sep_as_str :: "sep \<Rightarrow> string" where
  "sep_as_str ColonColon = ''::''"
| "sep_as_str Dot = ''.''"
| "sep_as_str Slash = ''/''"

lemma sep_as_str_nonempty [simp]: "sep_as_str sp \<noteq> []"
  by (cases sp) simp_all

datatype tokenizer_mode = Plain | RustAnchored | GoHost

record tokenizer =
  tk_family :: family
  tk_sep :: sep
  tk_mode :: tokenizer_mode
  tk_class :: char_class

datatype pattern_seg = Globstar | Segment segment_matcher

type_synonym select_pattern = "pattern_seg list"

definition at_sep :: "string \<Rightarrow> string \<Rightarrow> bool" where
  "at_sep chars sp = (if length sp > length chars then False else take (length sp) chars = sp)"

function split_loop ::
  "sep \<Rightarrow> string \<Rightarrow> string list \<Rightarrow> string \<Rightarrow> int \<Rightarrow> reject_reason + string list" where
  "split_loop sp [] acc cur depth =
     (if depth \<noteq> 0 then Inl (Malformed ''unbalanced `(`'') else Inr (acc @ [cur]))"
| "split_loop sp (c # cs) acc cur depth =
     (if c = CHR ''('' then split_loop sp cs acc (cur @ [c]) (depth + 1)
      else if c = CHR '')'' then
        (if depth - 1 < 0 then Inl (Malformed ''unbalanced `)`'')
         else split_loop sp cs acc (cur @ [c]) (depth - 1))
      else if depth = 0 \<and> at_sep (c # cs) (sep_as_str sp) then
        split_loop sp (drop (length (sep_as_str sp)) (c # cs)) (acc @ [cur]) [] depth
      else split_loop sp cs acc (cur @ [c]) depth)"
  by pat_completeness auto
termination
  by (relation "measure (\<lambda>(sp, cs, _). length cs)") (auto simp: sep_as_str_nonempty)

definition tokenizer_split :: "tokenizer \<Rightarrow> string \<Rightarrow> reject_reason + string list" where
  "tokenizer_split tk raw = split_loop (tk_sep tk) raw [] [] 0"

fun tokenize_segments ::
  "char_class \<Rightarrow> string list \<Rightarrow> select_pattern \<Rightarrow> (string \<times> string) list
    \<Rightarrow> reject_reason + select_pattern \<times> (string \<times> string) list" where
  "tokenize_segments cls [] acc rewrites = Inr (acc, rewrites)"
| "tokenize_segments cls (seg # segs) acc rewrites =
     (if seg = [] then Inl EmptySegment
      else if seg = ''**'' then tokenize_segments cls segs (acc @ [Globstar]) rewrites
      else case parse_segment seg cls of
          Inl e \<Rightarrow> Inl e
        | Inr (matcher, rw) \<Rightarrow>
            tokenize_segments cls segs (acc @ [Segment matcher])
              (case rw of Some r \<Rightarrow> rewrites @ [r] | None \<Rightarrow> rewrites))"

definition tokenize ::
  "tokenizer \<Rightarrow> string \<Rightarrow> reject_reason + select_pattern \<times> (string \<times> string) list" where
  "tokenize tk raw =
     (if raw = [] then Inl EmptySegment
      else case tokenizer_split tk raw of
          Inl e \<Rightarrow> Inl e
        | Inr segments \<Rightarrow>
            let segments =
              (if tk_mode tk = RustAnchored \<and> length segments > 1 \<and> hd segments = []
               then tl segments else segments)
            in tokenize_segments (tk_class tk) segments [] [])"

definition rust_tokenizer :: tokenizer where
  "rust_tokenizer =
     \<lparr>tk_family = Rust, tk_sep = ColonColon, tk_mode = RustAnchored, tk_class = Rust_class\<rparr>"

definition go_tokenizer :: tokenizer where
  "go_tokenizer = \<lparr>tk_family = Go, tk_sep = Slash, tk_mode = GoHost, tk_class = Go_class\<rparr>"

definition ts_tokenizer :: tokenizer where
  "ts_tokenizer = \<lparr>tk_family = TypeScript, tk_sep = Dot, tk_mode = Plain, tk_class = JavaTs_class\<rparr>"

definition java_tokenizer :: tokenizer where
  "java_tokenizer = \<lparr>tk_family = Java, tk_sep = Dot, tk_mode = Plain, tk_class = JavaTs_class\<rparr>"

definition python_tokenizer :: tokenizer where
  "python_tokenizer = \<lparr>tk_family = Python, tk_sep = Dot, tk_mode = Plain, tk_class = Python_class\<rparr>"

definition submitted :: "tokenizer list" where
  "submitted = [rust_tokenizer, go_tokenizer, ts_tokenizer, java_tokenizer, python_tokenizer]"

definition registered :: "tokenizer list \<Rightarrow> tokenizer list" where
  "registered inventory = sort_key tk_family inventory"

lemmas tokenizer_defs =
  rust_tokenizer_def go_tokenizer_def ts_tokenizer_def java_tokenizer_def python_tokenizer_def

lemma registered_submitted:
  assumes "mset inventory = mset submitted"
  shows "registered inventory = submitted"
proof -
  have "inj_on tk_family (set submitted)"
    by (auto simp: inj_on_def submitted_def tokenizer_defs)
  then have "sort_key tk_family submitted = sort_key tk_family inventory"
    by (rule sort_key_order_independent [OF assms [symmetric]])
  moreover have "sort_key tk_family submitted = submitted"
    by (simp add: submitted_def tokenizer_defs less_eq_family_def)
  ultimately show ?thesis by (simp add: registered_def)
qed

subsection \<open>Printing a selector and splitting it back\<close>

text \<open>A segment of a selector in abstract syntax: \<open>None\<close> is the globstar.\<close>

type_synonym selector_syntax = "elem list option list"

fun print_pattern_seg :: "elem list option \<Rightarrow> string" where
  "print_pattern_seg None = ''**''"
| "print_pattern_seg (Some es) = print_segment es"

definition print_selector :: "sep \<Rightarrow> selector_syntax \<Rightarrow> string" where
  "print_selector sp ps = str_join (sep_as_str sp) (map print_pattern_seg ps)"

definition wf_selector :: "char_class \<Rightarrow> selector_syntax \<Rightarrow> bool" where
  "wf_selector cls ps \<longleftrightarrow> ps \<noteq> [] \<and> list_all (\<lambda>p. case p of None \<Rightarrow> True | Some es \<Rightarrow> wf_segment cls es) ps"

fun seg_pattern :: "elem list option \<Rightarrow> pattern_seg" where
  "seg_pattern None = Globstar"
| "seg_pattern (Some es) = Segment (matcher_of es)"

text \<open>
  The separator of a family can neither start with an admissible character of its class nor
  with a metacharacter of the segment grammar.
\<close>

definition sep_clear :: "char_class \<Rightarrow> sep \<Rightarrow> bool" where
  "sep_clear cls sp \<longleftrightarrow>
     \<not> admits cls (hd (sep_as_str sp)) \<and> hd (sep_as_str sp) \<notin> set ''?*!()|''"

lemma submitted_sep_clear: "tk \<in> set submitted \<Longrightarrow> sep_clear (tk_class tk) (tk_sep tk)"
  by (auto simp: submitted_def tokenizer_defs sep_clear_def admits_def is_ascii_alphanumeric_def
      less_eq_char_def)

lemma at_sep_hd: "at_sep (c # cs) (sep_as_str sp) \<Longrightarrow> c = hd (sep_as_str sp)"
  by (cases sp) (auto simp: at_sep_def split: if_splits)

lemma split_loop_plain:
  "\<forall>c \<in> set s. c \<noteq> CHR ''('' \<and> c \<noteq> CHR '')'' \<and> (depth = 0 \<longrightarrow> c \<noteq> hd (sep_as_str sp)) \<Longrightarrow>
   split_loop sp (s @ rest) acc cur depth = split_loop sp rest acc (cur @ s) depth"
proof (induction s arbitrary: cur)
  case (Cons c s)
  then have "\<not> (depth = 0 \<and> at_sep (c # s @ rest) (sep_as_str sp))"
    by (auto dest: at_sep_hd)
  with Cons show ?case by (cases "depth = 0") simp_all
qed simp

lemma split_loop_atom:
  assumes "wf_atom cls a" "sep_clear cls sp"
  shows "split_loop sp (print_atom a @ rest) acc cur 0 = split_loop sp rest acc (cur @ print_atom a) 0"
proof (cases a)
  case (Lit s)
  then have "c \<noteq> CHR ''('' \<and> c \<noteq> CHR '')'' \<and> c \<noteq> hd (sep_as_str sp)" if "c \<in> set s" for c
    using assms that admits_neq [of cls c] by (auto simp: wf_text_def list_all_iff sep_clear_def)
  then show ?thesis using Lit by (simp add: split_loop_plain)
next
  case (Group opts)
  let ?body = "str_join ''|'' (map print_opt opts)"
  have "c \<noteq> CHR ''('' \<and> c \<noteq> CHR '')''" if "opt \<in> set opts" "c \<in> set (print_opt opt)" for c opt
    using assms(1) that Group admits_neq [of cls c]
    by (cases opt) (auto simp: wf_text_def list_all_iff split: if_splits)
  then have "\<forall>c \<in> set ?body. c \<noteq> CHR ''('' \<and> c \<noteq> CHR '')''"
    using set_str_join [of "''|''" "map print_opt opts"] by fastforce
  then have "split_loop sp (?body @ '')'' @ rest) acc (cur @ ''('') 1
      = split_loop sp ('')'' @ rest) acc (cur @ ''('' @ ?body) 1"
    by (subst split_loop_plain) auto
  then show ?thesis using Group by simp
qed

lemma split_loop_segment:
  assumes "list_all (wf_elem cls) es" "sep_clear cls sp"
  shows "split_loop sp (print_segment es @ rest) acc cur 0
     = split_loop sp rest acc (cur @ print_segment es) 0"
  using assms(1)
proof (induction es arbitrary: cur)
  case (Cons e es)
  have atoms: "split_loop sp (concat (map print_atom as) @ rest) acc cur 0
      = split_loop sp rest acc (cur @ concat (map print_atom as)) 0"
    if "list_all (wf_atom cls) as" for as rest cur
    using that
  proof (induction as arbitrary: cur)
    case (Cons a as)
    then show ?case using split_loop_atom [OF _ assms(2), of a] by simp
  qed simp
  have one: "split_loop sp (print_elem e @ rest) acc cur 0
      = split_loop sp rest acc (cur @ print_elem e) 0" for rest cur
  proof (cases e)
    case EStar
    then show ?thesis using assms(2) split_loop_plain [of "''*''" 0 sp rest acc cur]
      by (auto simp: sep_clear_def)
  next
    case (ERun neg as)
    have "split_loop sp (''!'' @ rest) acc cur 0 = split_loop sp rest acc (cur @ ''!'') 0" for rest cur
      using assms(2) split_loop_plain [of "''!''" 0 sp rest acc cur] by (auto simp: sep_clear_def)
    then show ?thesis using Cons.prems ERun atoms [of as] by (cases neg) simp_all
  qed
  then show ?case using Cons by (simp add: print_segment_def del: print_elem.simps)
qed (simp add: print_segment_def)

lemma split_loop_selector:
  assumes "wf_selector cls ps" "sep_clear cls sp"
  shows "split_loop sp (print_selector sp ps) acc [] 0 = Inr (acc @ map print_pattern_seg ps)"
  using assms(1)
proof (induction ps arbitrary: acc)
  case (Cons p ps)
  have one: "split_loop sp (print_pattern_seg p @ rest) acc [] 0
      = split_loop sp rest acc (print_pattern_seg p) 0" for rest
  proof (cases p)
    case None
    then show ?thesis using assms(2) split_loop_plain [of "''**''" 0 sp rest acc "[]"]
      by (auto simp: sep_clear_def)
  next
    case (Some es)
    then show ?thesis using Cons.prems split_loop_segment [OF _ assms(2), of es rest acc "[]"]
      by (simp add: wf_selector_def wf_segment_def)
  qed
  show ?case
  proof (cases "ps = []")
    case True
    then show ?thesis using one [of "[]"] by (simp add: print_selector_def)
  next
    case False
    have step: "split_loop sp (sep_as_str sp @ rest) acc cur 0 = split_loop sp rest (acc @ [cur]) [] 0"
      for rest cur by (cases sp) (simp_all add: at_sep_def)
    show ?thesis using Cons False one step
      by (simp add: print_selector_def str_join_Cons wf_selector_def)
  qed
qed (simp add: wf_selector_def)

lemma tokenize_segments_print:
  assumes "list_all (\<lambda>p. case p of None \<Rightarrow> True | Some es \<Rightarrow> wf_segment cls es) ps"
  shows "tokenize_segments cls (map print_pattern_seg ps) acc rw = Inr (acc @ map seg_pattern ps, rw)"
  using assms
proof (induction ps arbitrary: acc)
  case (Cons p ps)
  then show ?case
    by (cases p) (auto simp: parse_print print_segment_nonempty print_segment_not_globstar)
qed simp

lemma tokenize_print:
  assumes "wf_selector (tk_class tk) ps" "sep_clear (tk_class tk) (tk_sep tk)"
  shows "tokenize tk (print_selector (tk_sep tk) ps) = Inr (map seg_pattern ps, [])"
proof -
  obtain p ps' where ps: "ps = p # ps'" using assms(1) by (cases ps) (auto simp: wf_selector_def)
  have ne: "print_pattern_seg p \<noteq> []"
    using assms(1) ps print_segment_nonempty by (cases p) (auto simp: wf_selector_def)
  then have "print_selector (tk_sep tk) ps \<noteq> []"
    by (cases ps') (simp_all add: print_selector_def ps)
  moreover have "hd (map print_pattern_seg ps) \<noteq> []" using ne ps by simp
  ultimately show ?thesis
    using split_loop_selector [OF assms, of "[]"] tokenize_segments_print [of "tk_class tk" ps] assms(1)
    by (simp add: tokenize_def tokenizer_split_def wf_selector_def Let_def)
qed

end
