(* ===== verification/Select_Nfa.thy ===== *)
theory Select_Nfa
  imports Select_Tokenizer
begin

text \<open>
  The segment-consuming automaton of a selector (\<open>nfa.rs\<close>). The active set is a \<open>BTreeSet\<close>
  of state numbers, so a strictly increasing list, and the states are visited in that order.
  The recursion of \<open>eps_closure\<close> descends once per newly inserted state, so the number of
  states bounds its depth; \<open>pattern_spec\<close> is the meaning of a pattern that the automaton is
  proved to decide.
\<close>

datatype edge_matcher = Any | Seg segment_matcher

fun edge_matches :: "edge_matcher \<Rightarrow> string \<Rightarrow> bool" where
  "edge_matches Any seg = True"
| "edge_matches (Seg m) seg = segment_matches m seg"

record nfa_state =
  st_eps :: "nat list"
  st_edges :: "(edge_matcher \<times> nat) list"

definition nfa_state_default :: nfa_state where
  "nfa_state_default = \<lparr>st_eps = [], st_edges = []\<rparr>"

record sim_outcome =
  so_matched :: bool
  so_truncated :: bool

record nfa =
  nfa_states :: "nfa_state list"
  nfa_start :: nat
  nfa_accept :: nat

fun compile_seg :: "pattern_seg \<Rightarrow> nfa_state list \<times> nat \<Rightarrow> nfa_state list \<times> nat" where
  "compile_seg Globstar (states, cur) =
     (let states = states[cur := (states ! cur)\<lparr>st_edges := st_edges (states ! cur) @ [(Any, cur)]\<rparr>];
          nxt = length states;
          states = states @ [nfa_state_default];
          states = states[cur := (states ! cur)\<lparr>st_eps := st_eps (states ! cur) @ [nxt]\<rparr>]
      in (states, nxt))"
| "compile_seg (Segment m) (states, cur) =
     (let nxt = length states;
          states = states @ [nfa_state_default];
          states = states[cur := (states ! cur)\<lparr>st_edges := st_edges (states ! cur) @ [(Seg m, nxt)]\<rparr>]
      in (states, nxt))"

definition nfa_compile :: "select_pattern \<Rightarrow> nfa" where
  "nfa_compile pattern =
     (let (states, cur) = fold compile_seg pattern ([nfa_state_default], 0)
      in \<lparr>nfa_states = states, nfa_start = 0, nfa_accept = cur\<rparr>)"

text \<open>The first argument bounds the depth of the recursion; \<open>simulate\<close> passes the number of states.\<close>

fun eps_closure :: "nat \<Rightarrow> nfa \<Rightarrow> nat \<Rightarrow> nat btree_set \<Rightarrow> nat btree_set" where
  "eps_closure 0 a state seen = seen"
| "eps_closure (Suc d) a state seen =
     (if state \<in> set seen then seen
      else fold (\<lambda>e acc. eps_closure d a e acc) (st_eps (nfa_states a ! state)) (bs_insert state seen))"

definition closure :: "nfa \<Rightarrow> nat \<Rightarrow> nat btree_set \<Rightarrow> nat btree_set" where
  "closure a = eps_closure (length (nfa_states a)) a"

function drop_over_cap :: "nat \<Rightarrow> nat btree_set \<Rightarrow> nat btree_set" where
  "drop_over_cap cap seen = (if length seen > cap then drop_over_cap cap (butlast seen) else seen)"
  by pat_completeness auto
termination
  by (relation "measure (\<lambda>(cap, seen). length seen)") auto

declare drop_over_cap.simps [simp del]

definition step_active :: "nfa \<Rightarrow> string \<Rightarrow> nat btree_set \<Rightarrow> nat btree_set" where
  "step_active a seg active =
     fold (\<lambda>s acc. fold (\<lambda>(matcher, target) acc.
         if edge_matches matcher seg then closure a target acc else acc)
       (st_edges (nfa_states a ! s)) acc) active []"

fun sim_loop ::
  "nfa \<Rightarrow> nat \<Rightarrow> string list \<Rightarrow> nat btree_set \<Rightarrow> bool \<Rightarrow> nat btree_set \<times> bool" where
  "sim_loop a cap [] active truncated = (active, truncated)"
| "sim_loop a cap (seg # segs) active truncated =
     (let next_set = step_active a seg active;
          truncated = (if length next_set > cap then True else truncated);
          active = (if length next_set > cap then drop_over_cap cap next_set else next_set)
      in if active = [] then (active, truncated) else sim_loop a cap segs active truncated)"

definition simulate :: "nfa \<Rightarrow> string list \<Rightarrow> nat \<Rightarrow> sim_outcome" where
  "simulate a segments cap =
     (let (active, truncated) = sim_loop a cap segments (closure a (nfa_start a) []) False
      in \<lparr>so_matched = (nfa_accept a \<in> set active), so_truncated = truncated\<rparr>)"

subsection \<open>The meaning of a pattern\<close>

text \<open>A globstar consumes any number of whole segments, a matcher exactly one.\<close>

inductive pattern_spec :: "select_pattern \<Rightarrow> string list \<Rightarrow> bool" where
  ps_nil: "pattern_spec [] []"
| ps_seg: "segment_matches m w \<Longrightarrow> pattern_spec ps ws \<Longrightarrow> pattern_spec (Segment m # ps) (w # ws)"
| ps_skip: "pattern_spec ps ws \<Longrightarrow> pattern_spec (Globstar # ps) ws"
| ps_take: "pattern_spec (Globstar # ps) ws \<Longrightarrow> pattern_spec (Globstar # ps) (w # ws)"

inductive_cases ps_nilE: "pattern_spec [] ws"
inductive_cases ps_segE: "pattern_spec (Segment m # ps) ws"
inductive_cases ps_globE: "pattern_spec (Globstar # ps) ws"

lemma ps_globstar_iff:
  "pattern_spec (Globstar # ps) ws \<longleftrightarrow> (\<exists>k \<le> length ws. pattern_spec ps (drop k ws))"
proof
  assume "pattern_spec (Globstar # ps) ws"
  then show "\<exists>k \<le> length ws. pattern_spec ps (drop k ws)"
  proof (induction "Globstar # ps" ws rule: pattern_spec.induct)
    case (ps_skip ws)
    then show ?case by (intro exI [of _ 0]) simp
  next
    case (ps_take ws w)
    then obtain k where "k \<le> length ws" "pattern_spec ps (drop k ws)" by blast
    then show ?case by (intro exI [of _ "Suc k"]) simp
  qed
next
  assume "\<exists>k \<le> length ws. pattern_spec ps (drop k ws)"
  then obtain k where k: "k \<le> length ws" "pattern_spec ps (drop k ws)" by blast
  then have "pattern_spec (Globstar # ps) (drop k ws)" by (blast intro: ps_skip)
  with k(1) show "pattern_spec (Globstar # ps) ws"
  proof (induction k)
    case (Suc k)
    then have "drop k ws = ws ! k # drop (Suc k) ws" by (simp add: Cons_nth_drop_Suc)
    with Suc show ?case by (metis Suc_leD ps_take)
  qed simp
qed

lemma ps_literal:
  "pattern_spec (map Segment ms) ws \<longleftrightarrow> list_all2 segment_matches ms ws"
proof (induction ms arbitrary: ws)
  case (Cons m ms)
  then show ?case by (cases ws) (auto elim: ps_segE intro: ps_seg)
qed (auto elim: ps_nilE intro: ps_nil)

subsection \<open>The compiled automaton\<close>

text \<open>State \<open>i\<close> of the automaton stands before element \<open>i\<close> of the pattern.\<close>

definition expected_state :: "select_pattern \<Rightarrow> nat \<Rightarrow> nfa_state" where
  "expected_state ps i =
     (if i < length ps then
        (case ps ! i of
           Globstar \<Rightarrow> \<lparr>st_eps = [Suc i], st_edges = [(Any, i)]\<rparr>
         | Segment m \<Rightarrow> \<lparr>st_eps = [], st_edges = [(Seg m, Suc i)]\<rparr>)
      else nfa_state_default)"

lemma compile_fold:
  "fold compile_seg ps ([nfa_state_default], 0) = (map (expected_state ps) [0..<Suc (length ps)], length ps)"
proof (induction ps rule: rev_induct)
  case Nil
  show ?case by (simp add: expected_state_def)
next
  case (snoc p ps)
  let ?n = "length ps"
  have old: "expected_state (ps @ [p]) i = expected_state ps i" if "i < ?n" for i
    using that by (simp add: expected_state_def nth_append)
  have last: "expected_state ps ?n = nfa_state_default" "expected_state (ps @ [p]) (Suc ?n) = nfa_state_default"
    by (simp_all add: expected_state_def)
  have "compile_seg p (map (expected_state ps) [0..<Suc ?n], ?n)
      = (map (expected_state (ps @ [p])) [0..<Suc (Suc ?n)], Suc ?n)"
  proof (cases p)
    case Globstar
    then show ?thesis using old last
      by (auto simp: Let_def nth_append list_update_append nfa_state_default_def expected_state_def
          intro!: map_cong)
  next
    case (Segment m)
    then show ?thesis using old last
      by (auto simp: Let_def nth_append list_update_append nfa_state_default_def expected_state_def
          intro!: map_cong)
  qed
  with snoc show ?case by simp
qed

lemma nfa_compile_simps:
  "nfa_states (nfa_compile ps) = map (expected_state ps) [0..<Suc (length ps)]"
  "nfa_start (nfa_compile ps) = 0"
  "nfa_accept (nfa_compile ps) = length ps"
  by (simp_all add: nfa_compile_def compile_fold del: upt_Suc)

lemma state_at: "i \<le> length ps \<Longrightarrow> nfa_states (nfa_compile ps) ! i = expected_state ps i"
  by (simp add: nfa_compile_simps del: upt_Suc)

text \<open>
  A set of states that is closed under epsilon transitions, from state \<open>i\<close> upwards; the
  states from \<open>i\<close> up to the first element that is not a globstar are what \<open>i\<close> reaches by them.
\<close>

definition eps_closed :: "select_pattern \<Rightarrow> nat \<Rightarrow> nat set \<Rightarrow> bool" where
  "eps_closed ps i S \<longleftrightarrow> (\<forall>j. i \<le> j \<longrightarrow> j < length ps \<longrightarrow> j \<in> S \<longrightarrow> ps ! j = Globstar \<longrightarrow> Suc j \<in> S)"

definition eps_run :: "select_pattern \<Rightarrow> nat \<Rightarrow> nat set" where
  "eps_run ps i = {j. i \<le> j \<and> j \<le> length ps \<and> (\<forall>k. i \<le> k \<longrightarrow> k < j \<longrightarrow> ps ! k = Globstar)}"

lemma eps_run_step:
  assumes "i < length ps" "ps ! i = Globstar"
  shows "eps_run ps i = insert i (eps_run ps (Suc i))"
proof (rule set_eqI)
  fix j
  have "(\<forall>k. i \<le> k \<longrightarrow> k < j \<longrightarrow> ps ! k = Globstar) \<longleftrightarrow> (\<forall>k. Suc i \<le> k \<longrightarrow> k < j \<longrightarrow> ps ! k = Globstar)"
    using assms(2) by (metis Suc_leD le_antisym not_less_eq_eq)
  then show "j \<in> eps_run ps i \<longleftrightarrow> j \<in> insert i (eps_run ps (Suc i))"
    using assms(1) by (auto simp: eps_run_def le_less Suc_le_eq)
qed

lemma eps_run_stop:
  assumes "i \<le> length ps" "i < length ps \<Longrightarrow> ps ! i \<noteq> Globstar"
  shows "eps_run ps i = {i}"
  using assms by (force simp: eps_run_def)

lemma eps_run_closed: "eps_closed ps j (eps_run ps i)"
  by (auto simp: eps_closed_def eps_run_def less_Suc_eq)

lemma eps_run_refl: "i \<le> length ps \<Longrightarrow> i \<in> eps_run ps i"
  by (simp add: eps_run_def)

lemma eps_run_bound: "eps_run ps i \<subseteq> {..length ps}"
  by (auto simp: eps_run_def)

lemma eps_run_least:
  assumes "eps_closed ps i S" "i \<in> S"
  shows "eps_run ps i \<subseteq> S"
proof
  fix j assume "j \<in> eps_run ps i"
  then have "i \<le> j" "j \<le> length ps" "\<forall>k. i \<le> k \<longrightarrow> k < j \<longrightarrow> ps ! k = Globstar"
    by (auto simp: eps_run_def)
  then show "j \<in> S"
  proof (induction "j - i" arbitrary: j)
    case (Suc d)
    then have "j - 1 \<in> S" "j - 1 < length ps" "ps ! (j - 1) = Globstar" "i \<le> j - 1" by auto
    with assms show ?case using Suc.hyps(2) by (auto simp: eps_closed_def dest!: spec [of _ "j - 1"])
  qed (use assms in auto)
qed

lemma eps_closure_set:
  assumes "i \<le> length ps" "length ps - i < d" "eps_closed ps i (set s)"
  shows "set (eps_closure d (nfa_compile ps) i s) = set s \<union> eps_run ps i"
  using assms
proof (induction d arbitrary: i s)
  case (Suc d)
  show ?case
  proof (cases "i \<in> set s")
    case True
    then show ?thesis using eps_run_least [OF Suc.prems(3) True] by auto
  next
    case False
    show ?thesis
    proof (cases "i < length ps \<and> ps ! i = Globstar")
      case True
      then have st: "st_eps (nfa_states (nfa_compile ps) ! i) = [Suc i]"
        by (simp add: state_at expected_state_def)
      have "length ps - Suc i < d" using Suc.prems(2) True by linarith
      moreover have "eps_closed ps (Suc i) (set (bs_insert i s))"
        using Suc.prems(3) by (simp add: eps_closed_def set_bs_insert)
      ultimately have "set (eps_closure d (nfa_compile ps) (Suc i) (bs_insert i s))
          = insert i (set s) \<union> eps_run ps (Suc i)"
        using Suc.IH [of "Suc i" "bs_insert i s"] Suc.prems True by (simp add: set_bs_insert)
      then show ?thesis using False st eps_run_step [of i ps] True by simp
    next
      case no: False
      then have "st_eps (expected_state ps i) = []"
        by (auto simp: expected_state_def nfa_state_default_def split: pattern_seg.split)
      then show ?thesis using False no Suc.prems eps_run_stop [of i ps]
        by (auto simp: state_at set_bs_insert)
    qed
  qed
qed simp

lemma eps_closure_sorted: "strict_sorted s \<Longrightarrow> strict_sorted (eps_closure d a i s)"
proof (induction d arbitrary: i s)
  case (Suc d)
  have "strict_sorted (fold (\<lambda>e acc. eps_closure d a e acc) es acc)" if "strict_sorted acc" for es acc
    using that by (induction es arbitrary: acc) (auto intro: Suc.IH)
  with Suc.prems show ?case by (simp add: bs_insert_sorted)
qed simp

lemma closure_set:
  assumes "i \<le> length ps" "eps_closed ps i (set s)"
  shows "set (closure (nfa_compile ps) i s) = set s \<union> eps_run ps i"
  using eps_closure_set [OF assms(1) _ assms(2), of "Suc (length ps)"]
  by (simp add: closure_def nfa_compile_simps del: upt_Suc eps_closure.simps)

lemma closure_sorted: "strict_sorted s \<Longrightarrow> strict_sorted (closure a i s)"
  by (simp add: closure_def eps_closure_sorted)

subsection \<open>One step of the simulation\<close>

text \<open>Where state \<open>i\<close> goes on a segment, before the epsilon closure.\<close>

definition seg_targets :: "select_pattern \<Rightarrow> string \<Rightarrow> nat \<Rightarrow> nat set" where
  "seg_targets ps seg i =
     (if i < length ps then
        (case ps ! i of Globstar \<Rightarrow> {i}
         | Segment m \<Rightarrow> if segment_matches m seg then {Suc i} else {})
      else {})"

lemma step_one:
  assumes "i \<le> length ps" "\<forall>k. eps_closed ps k (set acc)"
  shows "set (fold (\<lambda>(matcher, target) acc.
         if edge_matches matcher seg then closure (nfa_compile ps) target acc else acc)
       (st_edges (nfa_states (nfa_compile ps) ! i)) acc)
     = set acc \<union> (\<Union>t \<in> seg_targets ps seg i. eps_run ps t)"
  using assms
  by (auto simp: state_at expected_state_def nfa_state_default_def seg_targets_def closure_set
      split: pattern_seg.split)

lemma eps_closed_Un: "eps_closed ps k S \<Longrightarrow> eps_closed ps k T \<Longrightarrow> eps_closed ps k (S \<union> T)"
  by (auto simp: eps_closed_def)

lemma eps_closed_UN: "(\<And>x. x \<in> A \<Longrightarrow> eps_closed ps k (f x)) \<Longrightarrow> eps_closed ps k (\<Union>x \<in> A. f x)"
  by (auto simp: eps_closed_def)

lemma step_active_set:
  assumes "set active \<subseteq> {..length ps}"
  shows "set (step_active (nfa_compile ps) seg active)
     = (\<Union>i \<in> set active. \<Union>t \<in> seg_targets ps seg i. eps_run ps t)"
proof -
  have "set (fold (\<lambda>s acc. fold (\<lambda>(matcher, target) acc.
         if edge_matches matcher seg then closure (nfa_compile ps) target acc else acc)
       (st_edges (nfa_states (nfa_compile ps) ! s)) acc) xs acc)
     = set acc \<union> (\<Union>i \<in> set xs. \<Union>t \<in> seg_targets ps seg i. eps_run ps t)"
    if "set xs \<subseteq> {..length ps}" "\<forall>k. eps_closed ps k (set acc)" for xs acc
    using that
  proof (induction xs arbitrary: acc)
    case (Cons x xs)
    have "\<forall>k. eps_closed ps k (set acc \<union> (\<Union>t \<in> seg_targets ps seg x. eps_run ps t))"
      using Cons.prems(2) by (auto intro: eps_closed_Un eps_closed_UN eps_run_closed)
    then show ?case using Cons by (auto simp: step_one)
  qed simp
  from this [OF assms, of "[]"] show ?thesis by (simp add: step_active_def eps_closed_def)
qed

lemma step_active_sorted: "strict_sorted (step_active a seg active)"
proof -
  have inner: "strict_sorted acc \<Longrightarrow> strict_sorted (fold (\<lambda>(matcher, target) acc.
      if edge_matches matcher seg then closure a target acc else acc) es acc)" for es acc
    by (induction es arbitrary: acc) (simp_all add: closure_sorted split: prod.split)
  have "strict_sorted acc \<Longrightarrow> strict_sorted (fold (\<lambda>s acc. fold (\<lambda>(matcher, target) acc.
      if edge_matches matcher seg then closure a target acc else acc) (st_edges (nfa_states a ! s)) acc)
      xs acc)" for xs acc
    by (induction xs arbitrary: acc) (auto intro: inner)
  then show ?thesis by (simp add: step_active_def)
qed

lemma step_active_bound:
  assumes "set active \<subseteq> {..length ps}"
  shows "set (step_active (nfa_compile ps) seg active) \<subseteq> {..length ps}"
  using eps_run_bound by (fastforce simp: step_active_set [OF assms])

lemma step_active_closed:
  assumes "set active \<subseteq> {..length ps}"
  shows "eps_closed ps k (set (step_active (nfa_compile ps) seg active))"
  by (simp add: step_active_set [OF assms] eps_closed_UN eps_run_closed)

lemma sorted_bound_length:
  assumes "strict_sorted (xs :: nat list)" "set xs \<subseteq> {..n}"
  shows "length xs \<le> Suc n"
  using assms card_mono [OF _ assms(2)] distinct_card [OF strict_sorted_distinct [OF assms(1)]] by simp

lemma drop_over_cap_take: "drop_over_cap cap xs = take cap xs"
proof (induction cap xs rule: drop_over_cap.induct)
  case (1 cap xs)
  then show ?case
    by (subst drop_over_cap.simps) (auto simp: butlast_conv_take min_def)
qed

subsection \<open>The automaton decides the pattern\<close>

lemma spec_suffix_step:
  assumes "i \<le> length ps"
  shows "pattern_spec (drop i ps) (seg # ws) \<longleftrightarrow>
    (\<exists>j \<in> eps_run ps i. \<exists>t \<in> seg_targets ps seg j. pattern_spec (drop t ps) ws)"
  using assms
proof (induction "length ps - i" arbitrary: i)
  case 0
  then show ?case by (auto simp: eps_run_def seg_targets_def elim: ps_nilE)
next
  case (Suc d)
  then have i: "i < length ps" by simp
  then have d: "drop i ps = ps ! i # drop (Suc i) ps" by (simp add: Cons_nth_drop_Suc)
  show ?case
  proof (cases "ps ! i")
    case Globstar
    have "pattern_spec (drop i ps) (seg # ws) \<longleftrightarrow>
        pattern_spec (drop (Suc i) ps) (seg # ws) \<or> pattern_spec (drop i ps) ws"
      unfolding d Globstar by (auto elim: ps_globE intro: ps_skip ps_take)
    then show ?thesis using Suc.hyps(1) [of "Suc i"] Suc.hyps(2) i Globstar eps_run_step [of i ps]
      by (auto simp: seg_targets_def)
  next
    case (Segment m)
    then show ?thesis using i d eps_run_stop [of i ps]
      by (auto simp: seg_targets_def elim: ps_segE intro: ps_seg)
  qed
qed

lemma spec_suffix_nil:
  assumes "i \<le> length ps"
  shows "pattern_spec (drop i ps) [] \<longleftrightarrow> length ps \<in> eps_run ps i"
  using assms
proof (induction "length ps - i" arbitrary: i)
  case 0
  then show ?case by (auto simp: eps_run_def intro: ps_nil)
next
  case (Suc d)
  then have i: "i < length ps" by simp
  then have d: "drop i ps = ps ! i # drop (Suc i) ps" by (simp add: Cons_nth_drop_Suc)
  show ?case
  proof (cases "ps ! i")
    case Globstar
    then have "pattern_spec (drop i ps) [] \<longleftrightarrow> pattern_spec (drop (Suc i) ps) []"
      unfolding d by (auto elim: ps_globE intro: ps_skip)
    then show ?thesis using Suc.hyps i Globstar eps_run_step [of i ps] by auto
  next
    case (Segment m)
    then show ?thesis using i d eps_run_stop [of i ps] by (auto elim: ps_segE)
  qed
qed

lemma run_globstars:
  assumes "j \<in> eps_run ps t" "pattern_spec (drop j ps) ws"
  shows "pattern_spec (drop t ps) ws"
proof -
  have "t \<le> j" "j \<le> length ps" "\<forall>k. t \<le> k \<longrightarrow> k < j \<longrightarrow> ps ! k = Globstar"
    using assms(1) by (auto simp: eps_run_def)
  then show ?thesis using assms(2)
  proof (induction "j - t" arbitrary: j)
    case (Suc d)
    then have "drop (j - 1) ps = Globstar # drop j ps"
      using Cons_nth_drop_Suc [of "j - 1" ps] by (auto simp: Suc_diff_1)
    then have "pattern_spec (drop (j - 1) ps) ws" using Suc.prems by (simp add: ps_skip)
    then show ?case using Suc.hyps(1) [of "j - 1"] Suc.hyps(2) Suc.prems by auto
  qed simp
qed

lemma seg_targets_bound: "t \<in> seg_targets ps seg i \<Longrightarrow> i \<le> length ps \<and> t \<le> length ps"
  by (auto simp: seg_targets_def split: if_splits pattern_seg.splits)

lemma step_active_sound:
  assumes "set active \<subseteq> {..length ps}" "j \<in> set (step_active (nfa_compile ps) seg active)"
    and "pattern_spec (drop j ps) segs"
  shows "\<exists>i \<in> set active. pattern_spec (drop i ps) (seg # segs)"
proof -
  obtain i t where *: "i \<in> set active" "t \<in> seg_targets ps seg i" "j \<in> eps_run ps t"
    using assms(2) by (auto simp: step_active_set [OF assms(1)])
  have "pattern_spec (drop t ps) segs" by (rule run_globstars [OF *(3) assms(3)])
  then have "pattern_spec (drop i ps) (seg # segs)"
    using spec_suffix_step [of i ps seg segs] *(2) seg_targets_bound [OF *(2)] eps_run_refl [of i ps]
    by blast
  with *(1) show ?thesis by blast
qed

lemma step_active_complete:
  assumes "set active \<subseteq> {..length ps}" "\<forall>k. eps_closed ps k (set active)"
    and "i \<in> set active" "pattern_spec (drop i ps) (seg # segs)"
  shows "\<exists>j \<in> set (step_active (nfa_compile ps) seg active). pattern_spec (drop j ps) segs"
proof -
  have "i \<le> length ps" using assms(1,3) by auto
  then obtain j t where *: "j \<in> eps_run ps i" "t \<in> seg_targets ps seg j" "pattern_spec (drop t ps) segs"
    using spec_suffix_step [of i ps seg segs] assms(4) by blast
  have "j \<in> set active" using eps_run_least [of ps i "set active"] assms(2,3) *(1) by blast
  moreover have "t \<in> eps_run ps t" using seg_targets_bound [OF *(2)] by (simp add: eps_run_refl)
  ultimately have "t \<in> set (step_active (nfa_compile ps) seg active)"
    using *(2) by (auto simp: step_active_set [OF assms(1)])
  with *(3) show ?thesis by blast
qed

lemma sim_loop_truncated: "snd (sim_loop a cap segs active True)"
  by (induction segs arbitrary: active) (simp_all add: Let_def)

lemma sim_loop_sound:
  assumes "set active \<subseteq> {..length ps}" "length ps \<in> set (fst (sim_loop (nfa_compile ps) cap segs active tr))"
  shows "\<exists>i \<in> set active. pattern_spec (drop i ps) segs"
  using assms
proof (induction segs arbitrary: active tr)
  case Nil
  then show ?case by (intro bexI [of _ "length ps"]) (auto intro: ps_nil)
next
  case (Cons seg segs)
  let ?next = "step_active (nfa_compile ps) seg active"
  let ?kept = "if length ?next > cap then drop_over_cap cap ?next else ?next"
  let ?tr = "if length ?next > cap then True else tr"
  have kept: "set ?kept \<subseteq> set ?next" by (auto simp: drop_over_cap_take dest: in_set_takeD)
  have "?kept \<noteq> []" using Cons.prems(2) by (auto simp: Let_def)
  then have "length ps \<in> set (fst (sim_loop (nfa_compile ps) cap segs ?kept ?tr))"
    using Cons.prems(2) by (simp only: sim_loop.simps Let_def if_False split: if_splits)
  then obtain j where "j \<in> set ?kept" "pattern_spec (drop j ps) segs"
    using Cons.IH [of ?kept ?tr] kept step_active_bound [OF Cons.prems(1), of seg] by blast
  then show ?case using step_active_sound [OF Cons.prems(1)] kept by blast
qed

lemma sim_loop_exact:
  assumes "set active \<subseteq> {..length ps}" "\<forall>k. eps_closed ps k (set active)"
    and "\<not> snd (sim_loop (nfa_compile ps) cap segs active tr)"
    and "\<exists>i \<in> set active. pattern_spec (drop i ps) segs"
  shows "length ps \<in> set (fst (sim_loop (nfa_compile ps) cap segs active tr))"
  using assms
proof (induction segs arbitrary: active)
  case Nil
  then obtain i where "i \<in> set active" "pattern_spec (drop i ps) []" "i \<le> length ps" by auto
  then show ?case using Nil.prems(2) spec_suffix_nil [of i ps] eps_run_least [of ps i "set active"]
    by (simp add: subset_iff)
next
  case (Cons seg segs)
  let ?next = "step_active (nfa_compile ps) seg active"
  have small: "\<not> length ?next > cap"
    using Cons.prems(3) sim_loop_truncated [of "nfa_compile ps" cap segs] by (auto simp: Let_def split: if_splits)
  obtain i where i: "i \<in> set active" "pattern_spec (drop i ps) (seg # segs)" using Cons.prems(4) by blast
  have ex: "\<exists>j \<in> set ?next. pattern_spec (drop j ps) segs"
    by (rule step_active_complete [OF Cons.prems(1,2) i])
  then have "?next \<noteq> []" by auto
  then show ?case
    using small ex Cons.prems(3) step_active_bound [OF Cons.prems(1), of seg]
      step_active_closed [OF Cons.prems(1), of _ seg] Cons.IH [of ?next]
    by (simp add: Let_def)
qed

lemma sim_loop_no_truncation:
  assumes "set active \<subseteq> {..length ps}" "length ps < cap"
  shows "snd (sim_loop (nfa_compile ps) cap segs active tr) = tr"
  using assms(1)
proof (induction segs arbitrary: active)
  case (Cons seg segs)
  have "\<not> length (step_active (nfa_compile ps) seg active) > cap"
    using sorted_bound_length [OF step_active_sorted step_active_bound [OF Cons.prems], of seg] assms(2)
    by simp
  then show ?case using Cons.IH [OF step_active_bound [OF Cons.prems]] by (simp add: Let_def)
qed simp

lemma start_active:
  "set (closure (nfa_compile ps) 0 []) = eps_run ps 0"
  using closure_set [of 0 ps "[]"] by (simp add: eps_closed_def)

lemma start_active_spec: "(\<exists>i \<in> eps_run ps 0. pattern_spec (drop i ps) ws) \<longleftrightarrow> pattern_spec ps ws"
  using run_globstars [of _ ps 0 ws] eps_run_refl [of 0 ps] by (metis drop0 le0)

lemma simulate_fields:
  "so_matched (simulate (nfa_compile ps) ws cap)
     = (length ps \<in> set (fst (sim_loop (nfa_compile ps) cap ws (closure (nfa_compile ps) 0 []) False)))"
  "so_truncated (simulate (nfa_compile ps) ws cap)
     = snd (sim_loop (nfa_compile ps) cap ws (closure (nfa_compile ps) 0 []) False)"
  by (simp_all add: simulate_def nfa_compile_simps split: prod.split del: upt_Suc)

text \<open>
  A reported match is a match, whatever the cap; a missing match is a non-match unless the
  outcome says that it was truncated; and the cap never trips when it exceeds the length of
  the pattern.
\<close>

lemma simulate_sound: "so_matched (simulate (nfa_compile ps) ws cap) \<Longrightarrow> pattern_spec ps ws"
  using sim_loop_sound [of "closure (nfa_compile ps) 0 []" ps] eps_run_bound [of ps 0]
  by (simp add: simulate_fields start_active start_active_spec)

lemma simulate_complete:
  "\<not> so_truncated (simulate (nfa_compile ps) ws cap) \<Longrightarrow> pattern_spec ps ws \<Longrightarrow>
   so_matched (simulate (nfa_compile ps) ws cap)"
  using sim_loop_exact [of "closure (nfa_compile ps) 0 []" ps] eps_run_bound [of ps 0] eps_run_closed [of ps _ 0]
  by (simp add: simulate_fields start_active start_active_spec)

lemma simulate_no_truncation:
  "length ps < cap \<Longrightarrow> \<not> so_truncated (simulate (nfa_compile ps) ws cap)"
  using sim_loop_no_truncation [of "closure (nfa_compile ps) 0 []" ps] eps_run_bound [of ps 0]
  by (simp add: simulate_fields start_active)

lemma simulate_correct:
  "length ps < cap \<Longrightarrow> so_matched (simulate (nfa_compile ps) ws cap) \<longleftrightarrow> pattern_spec ps ws"
  using simulate_sound simulate_complete simulate_no_truncation by blast

end
