(* ===== verification/Select_Engine.thy ===== *)
theory Select_Engine
  imports Select_Nfa
begin

text \<open>
  The multi-parse driver (\<open>engine.rs\<close>, with the error and result types of
  \<open>diagnostics.rs\<close>): every registered tokenizer attempts the selector, the clean parses are
  kept with their families, and a node is matched by the automaton of each of them.
\<close>

datatype diagnostic = NegationRewrite family string string

datatype selector_error =
    UnsupportedQuestionMark string nat
  | NoValidParse string string
  | SelectorEmpty

record node_match =
  nm_matched :: bool
  nm_families :: "family list"
  nm_truncated :: bool
  nm_agnostic_cross_language :: bool

record match_options =
  mo_agnostic :: bool
  mo_active_state_cap :: nat

definition default_active_state_cap :: nat where
  "default_active_state_cap = 1024"

definition match_options_native :: match_options where
  "match_options_native = \<lparr>mo_agnostic = False, mo_active_state_cap = default_active_state_cap\<rparr>"

definition match_options_agnostic :: match_options where
  "match_options_agnostic = \<lparr>mo_agnostic = True, mo_active_state_cap = default_active_state_cap\<rparr>"

fun describe :: "reject_reason \<Rightarrow> string" where
  "describe (QuestionMark pos) = ''`?` at position '' @ show_nat pos @ '' is unsupported''"
| "describe (IllegalChar ch pos) =
     ''illegal character '' @ debug_char ch @ '' at position '' @ show_nat pos"
| "describe EmptySegment = ''empty segment''"
| "describe (Malformed detail) = detail"

fun is_question_mark :: "reject_reason \<Rightarrow> bool" where
  "is_question_mark (QuestionMark _) = True"
| "is_question_mark _ = False"

definition from_rejects :: "string \<Rightarrow> reject_reason list \<Rightarrow> selector_error" where
  "from_rejects selector rejects =
     (case List.find is_question_mark rejects of
        Some (QuestionMark pos) \<Rightarrow> UnsupportedQuestionMark selector pos
      | _ \<Rightarrow>
        let seen = fold (\<lambda>r seen. let d = describe r in if d \<in> set seen then seen else seen @ [d]) rejects []
        in NoValidParse selector (str_join ''; '' (sort seen)))"

record parse =
  pr_family :: family
  pr_nfa :: nfa

record selector =
  sl_parses :: "parse list"
  sl_families :: "family list"
  sl_diagnostics :: "diagnostic list"

definition compile_step ::
  "string \<Rightarrow> tokenizer \<Rightarrow> parse list \<times> diagnostic list \<times> reject_reason list
    \<Rightarrow> parse list \<times> diagnostic list \<times> reject_reason list" where
  "compile_step selector tok st =
     (case st of (parses, diagnostics, rejects) \<Rightarrow>
        (case tokenize tok selector of
           Inr (pattern, rewrites) \<Rightarrow>
             (parses @ [\<lparr>pr_family = tk_family tok, pr_nfa = nfa_compile pattern\<rparr>],
              diagnostics @ map (\<lambda>(original, rewritten).
                NegationRewrite (tk_family tok) original rewritten) rewrites,
              rejects)
         | Inl reason \<Rightarrow> (parses, diagnostics, rejects @ [reason])))"

definition compile :: "tokenizer list \<Rightarrow> string \<Rightarrow> selector_error + selector" where
  "compile inventory selector =
     (if selector = [] then Inl SelectorEmpty
      else
        let (parses, diagnostics, rejects) =
          fold (compile_step selector) (registered inventory) ([], [], [])
        in if parses = [] then Inl (from_rejects selector rejects)
           else Inr \<lparr>sl_parses = parses, sl_families = remdups_adj (map pr_family parses),
                     sl_diagnostics = diagnostics\<rparr>)"

definition eval_step ::
  "string list \<Rightarrow> string \<Rightarrow> nat \<Rightarrow> parse \<Rightarrow> family list \<times> family list \<times> bool
    \<Rightarrow> family list \<times> family list \<times> bool" where
  "eval_step segments node_lang cap p st =
     (case st of (native_families, all_families, truncated) \<Rightarrow>
        let outcome = simulate (pr_nfa p) segments cap;
            truncated = (if so_truncated outcome then True else truncated)
        in if so_matched outcome then
             (if List.member (lang_tags (pr_family p)) node_lang
              then native_families @ [pr_family p] else native_families,
              all_families @ [pr_family p], truncated)
           else (native_families, all_families, truncated))"

definition evaluate :: "selector \<Rightarrow> node_record \<Rightarrow> match_options \<Rightarrow> node_match" where
  "evaluate sel node opts =
     (let (native_families, all_families, truncated) =
        fold (eval_step (str_split ''::'' (n_fqn node)) (n_lang node) (mo_active_state_cap opts))
          (sl_parses sel) ([], [], False);
        native_hit = (native_families \<noteq> []);
        any_hit = (all_families \<noteq> []);
        matched = (if mo_agnostic opts then any_hit else native_hit);
        families = (if \<not> matched then [] else if mo_agnostic opts then all_families else native_families)
      in \<lparr>nm_matched = matched, nm_families = remdups_adj (sort families), nm_truncated = truncated,
          nm_agnostic_cross_language = (mo_agnostic opts \<and> any_hit \<and> \<not> native_hit)\<rparr>)"

definition selector_matches :: "selector \<Rightarrow> node_record \<Rightarrow> match_options \<Rightarrow> bool" where
  "selector_matches sel node opts = nm_matched (evaluate sel node opts)"

definition matches_native :: "selector \<Rightarrow> node_record \<Rightarrow> bool" where
  "matches_native sel node = selector_matches sel node match_options_native"

subsection \<open>Compilation\<close>

text \<open>The clean parses of a selector, in the order of the tokenizers.\<close>

definition clean_parses :: "tokenizer list \<Rightarrow> string \<Rightarrow> (family \<times> select_pattern) list" where
  "clean_parses toks selector =
     List.map_filter (\<lambda>tok. case tokenize tok selector of
        Inr (pattern, _) \<Rightarrow> Some (tk_family tok, pattern) | Inl _ \<Rightarrow> None) toks"

lemma compile_fold_parses:
  "fst (fold (compile_step selector) toks (parses, diags, rejects))
     = parses @ map (\<lambda>(f, p). \<lparr>pr_family = f, pr_nfa = nfa_compile p\<rparr>) (clean_parses toks selector)"
  by (induction toks arbitrary: parses diags rejects)
    (auto simp: clean_parses_def compile_step_def map_filter_simps split: sum.split prod.split)

lemma compile_parses:
  assumes "compile inventory selector = Inr sel"
  shows "sl_parses sel = map (\<lambda>(f, p). \<lparr>pr_family = f, pr_nfa = nfa_compile p\<rparr>)
      (clean_parses (registered inventory) selector)"
    and "sl_families sel = remdups_adj (map fst (clean_parses (registered inventory) selector))"
    and "clean_parses (registered inventory) selector \<noteq> []"
  using assms compile_fold_parses [of selector "registered inventory" "[]" "[]" "[]"]
  by (auto simp: compile_def comp_def case_prod_unfold Let_def split: prod.splits if_splits)

lemma compile_succeeds:
  assumes "selector \<noteq> []" "clean_parses (registered inventory) selector \<noteq> []"
  shows "\<exists>sel. compile inventory selector = Inr sel"
  using assms compile_fold_parses [of selector "registered inventory" "[]" "[]" "[]"]
  by (auto simp: compile_def Let_def split: prod.split)

lemma compile_fails:
  "(\<exists>e. compile inventory selector = Inl e) \<longleftrightarrow>
     selector = [] \<or> (\<forall>tok \<in> set inventory. \<exists>r. tokenize tok selector = Inl r)"
proof -
  have "clean_parses (registered inventory) selector = [] \<longleftrightarrow>
      (\<forall>tok \<in> set inventory. \<exists>r. tokenize tok selector = Inl r)"
    unfolding clean_parses_def registered_def List.map_filter_def
    by (auto simp: filter_empty_conv split: sum.splits) (metis obj_sumE surj_pair)
  then have clean: "clean_parses (registered inventory) selector = [] \<longleftrightarrow>
      (\<forall>tok \<in> set inventory. \<exists>r. tokenize tok selector = Inl r)" .
  have empty: "compile inventory [] = Inl SelectorEmpty" by (simp add: compile_def)
  show ?thesis
  proof (cases "compile inventory selector")
    case (Inl e)
    then show ?thesis using compile_succeeds [of selector inventory] clean by fastforce
  next
    case (Inr sel)
    then show ?thesis using compile_parses(3) [OF Inr] clean empty by auto
  qed
qed

lemma subseq_strict_sorted: "subseq xs ys \<Longrightarrow> strict_sorted ys \<Longrightarrow> strict_sorted xs"
  by (induction rule: list_emb.induct) (auto dest: list_emb_set)

lemma clean_parses_sorted:
  assumes "mset inventory = mset submitted"
  shows "strict_sorted (map fst (clean_parses (registered inventory) selector))"
proof -
  have "\<exists>ts. map fst (clean_parses toks selector) = map tk_family ts \<and> subseq ts toks" for toks
  proof (induction toks)
    case (Cons tok toks)
    then obtain ts where "map fst (clean_parses toks selector) = map tk_family ts" "subseq ts toks" by blast
    then show ?case
      by (cases "tokenize tok selector")
        (auto simp: clean_parses_def map_filter_simps intro: exI [of _ ts] exI [of _ "tok # ts"] split: prod.split)
  qed (simp add: clean_parses_def map_filter_simps)
  then obtain ts where ts: "map fst (clean_parses submitted selector) = map tk_family ts" "subseq ts submitted"
    by blast
  have "strict_sorted (map tk_family submitted)"
    by (simp add: submitted_def tokenizer_defs less_family_def)
  then have "strict_sorted (map tk_family ts)"
    using ts(2) by (metis subseq_strict_sorted subseq_map)
  then show ?thesis using ts(1) registered_submitted [OF assms] by simp
qed

subsection \<open>Evaluation\<close>

text \<open>The families whose parse matches a node: all of them, and those that own its language.\<close>

definition matching_families :: "selector \<Rightarrow> node_record \<Rightarrow> nat \<Rightarrow> family list" where
  "matching_families sel node cap =
     map pr_family (filter (\<lambda>p. so_matched (simulate (pr_nfa p) (str_split ''::'' (n_fqn node)) cap))
       (sl_parses sel))"

definition native_families :: "selector \<Rightarrow> node_record \<Rightarrow> nat \<Rightarrow> family list" where
  "native_families sel node cap = filter (\<lambda>f. n_lang node \<in> set (lang_tags f)) (matching_families sel node cap)"

lemma eval_fold:
  "fold (eval_step segs lang cap) ps (nat_fs, all_fs, tr) =
     (nat_fs @ filter (\<lambda>f. lang \<in> set (lang_tags f))
        (map pr_family (filter (\<lambda>p. so_matched (simulate (pr_nfa p) segs cap)) ps)),
      all_fs @ map pr_family (filter (\<lambda>p. so_matched (simulate (pr_nfa p) segs cap)) ps),
      tr \<or> list_ex (\<lambda>p. so_truncated (simulate (pr_nfa p) segs cap)) ps)"
  by (induction ps arbitrary: nat_fs all_fs tr) (auto simp: eval_step_def Let_def)

lemma evaluate_eq:
  "evaluate sel node opts =
     (let native = native_families sel node (mo_active_state_cap opts);
          all_f = matching_families sel node (mo_active_state_cap opts);
          fs = if mo_agnostic opts then all_f else native
      in \<lparr>nm_matched = (fs \<noteq> []), nm_families = remdups_adj (sort fs),
          nm_truncated = list_ex (\<lambda>p. so_truncated (simulate (pr_nfa p)
            (str_split ''::'' (n_fqn node)) (mo_active_state_cap opts))) (sl_parses sel),
          nm_agnostic_cross_language = (mo_agnostic opts \<and> all_f \<noteq> [] \<and> native = [])\<rparr>)"
  by (auto simp: evaluate_def eval_fold native_families_def matching_families_def Let_def)

lemma native_subset: "set (native_families sel node cap) \<subseteq> set (matching_families sel node cap)"
  by (auto simp: native_families_def)

lemma set_matching_families:
  assumes "compile inventory selector = Inr sel"
  shows "f \<in> set (matching_families sel node cap) \<longleftrightarrow>
    (\<exists>p. (f, p) \<in> set (clean_parses (registered inventory) selector) \<and>
       so_matched (simulate (nfa_compile p) (str_split ''::'' (n_fqn node)) cap))"
  using compile_parses(1) [OF assms] by (auto simp: matching_families_def image_iff case_prod_unfold)

lemma clean_parses_mem:
  "(f, p) \<in> set (clean_parses toks selector) \<longleftrightarrow>
     (\<exists>tok \<in> set toks. tk_family tok = f \<and> (\<exists>rw. tokenize tok selector = Inr (p, rw)))"
  by (induction toks) (auto simp: clean_parses_def map_filter_simps split: sum.split prod.split)

lemma native_match_iff:
  assumes "compile inventory selector = Inr sel" "mset inventory = mset submitted"
    and "tok \<in> set submitted" "tokenize tok selector = Inr (p, rw)"
    and "n_lang node \<in> set (lang_tags (tk_family tok))"
  shows "native_families sel node cap \<noteq> [] \<longleftrightarrow>
    so_matched (simulate (nfa_compile p) (str_split ''::'' (n_fqn node)) cap)"
proof -
  have same: "t = tok" if "t \<in> set submitted" "tk_family t = tk_family tok" for t
    using that assms(3) by (auto simp: submitted_def tokenizer_defs)
  have reg: "registered inventory = submitted" by (rule registered_submitted [OF assms(2)])
  have "native_families sel node cap \<noteq> [] \<longleftrightarrow>
      (\<exists>f \<in> set (matching_families sel node cap). n_lang node \<in> set (lang_tags f))"
    by (auto simp: native_families_def filter_empty_conv)
  also have "\<dots> \<longleftrightarrow> tk_family tok \<in> set (matching_families sel node cap)"
    using lang_tags_disjoint assms(5) by blast
  also have "\<dots> \<longleftrightarrow> so_matched (simulate (nfa_compile p) (str_split ''::'' (n_fqn node)) cap)"
  proof -
    have "(tk_family tok, p') \<in> set (clean_parses submitted selector) \<longleftrightarrow> p' = p" for p'
      using assms(3,4) same by (fastforce simp: clean_parses_mem)
    then show ?thesis by (simp add: set_matching_families [OF assms(1)] reg)
  qed
  finally show ?thesis .
qed

end
