(* ===== verification/Query_View.thy ===== *)
theory Query_View
  imports Query_Filter Select_Engine
begin

text \<open>
  The in-memory adjacency of a linked graph (\<open>view.rs\<close>): its construction, the symbol
  resolutions and \<open>neighbors\<close>, the adjacency primitive of every walk. Adjacency lists hold
  positions into the edge list. Positions and counts are \<open>u32\<close> in the code; a graph has
  fewer edges and candidates than that, and they are \<^typ>\<open>nat\<close> here.
\<close>

record graph_view =
  gv_nodes :: "node_record list"
  gv_edges :: "edge_record list"
  gv_candidates :: "candidate list"
  gv_out_edges :: "nat list list"
  gv_in_edges :: "nat list list"
  gv_group_sizes :: "(nat, nat) btree_map"

record edge_ref =
  er_edge :: edge_record
  er_peer :: node_id

definition push_at :: "nat \<Rightarrow> 'a \<Rightarrow> 'a list list \<Rightarrow> 'a list list" where
  "push_at i x xss = (if i < length xss then xss[i := xss ! i @ [x]] else xss)"

definition add_adjacency ::
  "nat \<times> edge_record \<Rightarrow> nat list list \<times> nat list list \<Rightarrow> nat list list \<times> nat list list" where
  "add_adjacency ie adj = (case ie of (idx, e) \<Rightarrow> case adj of (out_edges, in_edges) \<Rightarrow>
     (push_at (e_src e) idx out_edges, push_at (e_dst e) idx in_edges))"

definition graph_view_new ::
  "node_record list \<Rightarrow> edge_record list \<Rightarrow> candidate list \<Rightarrow> graph_view" where
  "graph_view_new nodes edges candidates =
     (let n = length nodes;
          (out_edges, in_edges) =
            fold add_adjacency (enumerate 0 edges) (replicate n [], replicate n []);
          group_sizes = fold (\<lambda>c. bt_bump (cd_candidate_group c)) candidates []
      in \<lparr>gv_nodes = nodes, gv_edges = edges, gv_candidates = candidates,
          gv_out_edges = out_edges, gv_in_edges = in_edges, gv_group_sizes = group_sizes\<rparr>)"

definition node_count :: "graph_view \<Rightarrow> nat" where
  "node_count view = length (gv_nodes view)"

definition candidate_group_size :: "graph_view \<Rightarrow> nat \<Rightarrow> nat" where
  "candidate_group_size view grp = (case map_of (gv_group_sizes view) grp of Some c \<Rightarrow> c | None \<Rightarrow> 0)"

definition view_node :: "graph_view \<Rightarrow> node_id \<Rightarrow> node_record" where
  "view_node view n = gv_nodes view ! n"

definition try_node :: "graph_view \<Rightarrow> node_id \<Rightarrow> node_record option" where
  "try_node view n = (if n < length (gv_nodes view) then Some (gv_nodes view ! n) else None)"

definition view_edge :: "graph_view \<Rightarrow> edge_id \<Rightarrow> edge_record option" where
  "view_edge view e = (if e < length (gv_edges view) then Some (gv_edges view ! e) else None)"

definition resolve_symbol :: "graph_view \<Rightarrow> symbol_pattern \<Rightarrow> node_id list" where
  "resolve_symbol view pat = map n_id (filter (pattern_matches pat) (gv_nodes view))"

record select_resolution =
  sr_ids :: "node_id list"
  sr_truncated :: bool
  sr_agnostic_cross_language :: "node_id list"

definition resolve_select_step ::
  "selector \<Rightarrow> match_options \<Rightarrow> node_record \<Rightarrow> select_resolution \<Rightarrow> select_resolution" where
  "resolve_select_step sel opts node res =
     (let m = evaluate sel node opts;
          res = (if nm_truncated m then res\<lparr>sr_truncated := True\<rparr> else res)
      in if nm_matched m then
           (let res = res\<lparr>sr_ids := sr_ids res @ [n_id node]\<rparr>
            in if nm_agnostic_cross_language m
               then res\<lparr>sr_agnostic_cross_language := sr_agnostic_cross_language res @ [n_id node]\<rparr>
               else res)
         else res)"

definition resolve_select :: "graph_view \<Rightarrow> selector \<Rightarrow> match_options \<Rightarrow> select_resolution" where
  "resolve_select view sel opts =
     fold (resolve_select_step sel opts) (gv_nodes view)
       \<lparr>sr_ids = [], sr_truncated = False, sr_agnostic_cross_language = []\<rparr>"

datatype resolve_error = NotFound string | Ambiguous string nat

definition resolve_one :: "graph_view \<Rightarrow> symbol_pattern \<Rightarrow> resolve_error + node_id" where
  "resolve_one view pat =
     (case resolve_symbol view pat of
        [] \<Rightarrow> Inl (NotFound (sp_text pat))
      | [x] \<Rightarrow> Inr x
      | x # y # ys \<Rightarrow>
          if sp_kind pat = Fqn then Inl (Ambiguous (sp_text pat) (length (x # y # ys))) else Inr x)"

fun resolve_error_display :: "resolve_error \<Rightarrow> string" where
  "resolve_error_display (NotFound pat) = ''no symbol matched pattern `'' @ pat @ ''`''"
| "resolve_error_display (Ambiguous pat cnt) =
     ''pattern `'' @ pat @ ''` matched '' @ show_nat cnt @ '' symbols; expected one''"

definition nodes_of_kind :: "graph_view \<Rightarrow> symbol_kind list \<Rightarrow> node_id list" where
  "nodes_of_kind view kinds = map n_id (filter (\<lambda>node. n_kind node \<in> set kinds) (gv_nodes view))"

text \<open>
  An adjacency position outside the edge list panics in the code; the views built by
  \<open>graph_view_new\<close> have none, and such a position contributes no neighbor here.
\<close>

definition neighbor_ref ::
  "graph_view \<Rightarrow> direction \<Rightarrow> edge_filter \<Rightarrow> nat \<Rightarrow> edge_ref option" where
  "neighbor_ref view dir f ei =
     (if ei < length (gv_edges view) then
        (let edge = gv_edges view ! ei in
         if \<not> filter_admits f edge then None
         else if (case (ef_max_candidates f, e_candidate_group edge) of
                    (Some mx, Some grp) \<Rightarrow> candidate_group_size view grp > mx
                  | _ \<Rightarrow> False)
         then None
         else Some \<lparr>er_edge = edge,
                er_peer = (case dir of Forward \<Rightarrow> e_dst edge | Backward \<Rightarrow> e_src edge)\<rparr>)
      else None)"

definition neighbors :: "graph_view \<Rightarrow> node_id \<Rightarrow> direction \<Rightarrow> edge_filter \<Rightarrow> edge_ref list" where
  "neighbors view n dir f =
     (let adj = (case dir of Forward \<Rightarrow> gv_out_edges view | Backward \<Rightarrow> gv_in_edges view);
          bucket = (if n < length adj then adj ! n else [])
      in List.map_filter (neighbor_ref view dir f) bucket)"

subsection \<open>The adjacency lists\<close>

lemma length_push_at [simp]: "length (push_at i x xss) = length xss"
  by (simp add: push_at_def)

lemma nth_push_at: "j < length xss \<Longrightarrow> push_at i x xss ! j = (if i = j then xss ! j @ [x] else xss ! j)"
  by (auto simp: push_at_def nth_list_update)

lemma add_adjacency_pair:
  "add_adjacency (i, e) (out_edges, in_edges) = (push_at (e_src e) i out_edges, push_at (e_dst e) i in_edges)"
  by (simp add: add_adjacency_def)

lemma add_adjacency_fold:
  assumes "fold add_adjacency ies (out0, in0) = (out_edges, in_edges)"
  shows "length out_edges = length out0 \<and> length in_edges = length in0 \<and>
    (\<forall>j < length out0. out_edges ! j = out0 ! j @ map fst (filter (\<lambda>(i, e). e_src e = j) ies)) \<and>
    (\<forall>j < length in0. in_edges ! j = in0 ! j @ map fst (filter (\<lambda>(i, e). e_dst e = j) ies))"
  using assms
proof (induction ies arbitrary: out0 in0)
  case (Cons ie ies)
  obtain i e where ie: "ie = (i, e)" by (cases ie)
  have "fold add_adjacency ies (push_at (e_src e) i out0, push_at (e_dst e) i in0) = (out_edges, in_edges)"
    using Cons.prems by (simp add: ie add_adjacency_pair)
  from Cons.IH [OF this] show ?case by (auto simp: ie nth_push_at)
qed simp

text \<open>The end of an edge that a walk leaves from, and the one it reaches.\<close>

definition from_end :: "direction \<Rightarrow> edge_record \<Rightarrow> node_id" where
  "from_end dir e = (case dir of Forward \<Rightarrow> e_src e | Backward \<Rightarrow> e_dst e)"

definition to_end :: "direction \<Rightarrow> edge_record \<Rightarrow> node_id" where
  "to_end dir e = (case dir of Forward \<Rightarrow> e_dst e | Backward \<Rightarrow> e_src e)"

text \<open>The edges a filter lets through, fan-out cap included.\<close>

definition passes :: "graph_view \<Rightarrow> edge_filter \<Rightarrow> edge_record \<Rightarrow> bool" where
  "passes view f e \<longleftrightarrow> filter_admits f e \<and>
     (\<forall>mx grp. ef_max_candidates f = Some mx \<longrightarrow> e_candidate_group e = Some grp \<longrightarrow>
        candidate_group_size view grp \<le> mx)"

lemma neighbor_ref_eq:
  "ei < length (gv_edges view) \<Longrightarrow> neighbor_ref view dir f ei =
     (if passes view f (gv_edges view ! ei)
      then Some \<lparr>er_edge = gv_edges view ! ei, er_peer = to_end dir (gv_edges view ! ei)\<rparr> else None)"
  by (auto simp: neighbor_ref_def passes_def to_end_def Let_def not_less split: option.split)

lemma neighbor_ref_Some:
  "neighbor_ref view dir f ei = Some r \<longleftrightarrow>
     ei < length (gv_edges view) \<and> passes view f (gv_edges view ! ei) \<and>
     r = \<lparr>er_edge = gv_edges view ! ei, er_peer = to_end dir (gv_edges view ! ei)\<rparr>"
  by (cases "ei < length (gv_edges view)") (auto simp: neighbor_ref_eq, simp add: neighbor_ref_def)

lemma neighbor_edges:
  "r \<in> set (neighbors view n dir f) \<Longrightarrow>
     er_edge r \<in> set (gv_edges view) \<and> passes view f (er_edge r) \<and> er_peer r = to_end dir (er_edge r)"
  by (auto simp: neighbors_def List.map_filter_def neighbor_ref_Some neighbor_ref_eq Let_def split: if_splits)

lemma graph_view_new_fields:
  "gv_nodes (graph_view_new ns es cs) = ns" "gv_edges (graph_view_new ns es cs) = es"
  "gv_candidates (graph_view_new ns es cs) = cs"
  by (simp_all add: graph_view_new_def Let_def split: prod.split)

lemma candidate_group_size_new:
  "candidate_group_size (graph_view_new ns es cs) g = length (filter (\<lambda>c. cd_candidate_group c = g) cs)"
  using bt_count_fold_bump [of cd_candidate_group cs "[]" g]
  by (simp add: candidate_group_size_def graph_view_new_def bt_count_def Let_def split: prod.split)

lemma adjacency_new:
  assumes "n < length ns"
  shows "(case dir of Forward \<Rightarrow> gv_out_edges (graph_view_new ns es cs)
      | Backward \<Rightarrow> gv_in_edges (graph_view_new ns es cs)) ! n
    = map fst (filter (\<lambda>(i, e). from_end dir e = n) (enumerate 0 es))"
  using assms add_adjacency_fold [of "enumerate 0 es" "replicate (length ns) []" "replicate (length ns) []"]
  by (cases dir) (auto simp: graph_view_new_def from_end_def Let_def split: prod.split)

lemma adjacency_new_length:
  "length (case dir of Forward \<Rightarrow> gv_out_edges (graph_view_new ns es cs)
      | Backward \<Rightarrow> gv_in_edges (graph_view_new ns es cs)) = length ns"
  using add_adjacency_fold [of "enumerate 0 es" "replicate (length ns) []" "replicate (length ns) []"]
  by (cases dir) (auto simp: graph_view_new_def Let_def split: prod.split)

lemma neighbors_new:
  "neighbors (graph_view_new ns es cs) n dir f =
     (if n < length ns then
        map (\<lambda>e. \<lparr>er_edge = e, er_peer = to_end dir e\<rparr>)
          (filter (\<lambda>e. from_end dir e = n \<and> passes (graph_view_new ns es cs) f e) es)
      else [])"
proof (cases "n < length ns")
  case True
  let ?v = "graph_view_new ns es cs"
  have key: "List.map_filter (neighbor_ref ?v dir f) (map fst (filter (\<lambda>(i, e). from_end dir e = n) ies))
      = map (\<lambda>e. \<lparr>er_edge = e, er_peer = to_end dir e\<rparr>)
          (filter (\<lambda>e. from_end dir e = n \<and> passes ?v f e) (map snd ies))"
    if "\<forall>(i, e) \<in> set ies. i < length es \<and> es ! i = e" for ies
    using that
  proof (induction ies)
    case (Cons ie ies)
    then show ?case
      by (cases ie) (auto simp: map_filter_simps neighbor_ref_eq graph_view_new_fields)
  qed (simp add: map_filter_simps)
  have idx: "\<forall>(i, e) \<in> set (enumerate 0 es). i < length es \<and> es ! i = e"
    by (auto simp: in_set_enumerate_eq)
  have "List.map_filter (neighbor_ref ?v dir f)
        (map fst (filter (\<lambda>(i, e). from_end dir e = n) (enumerate 0 es)))
      = map (\<lambda>e. \<lparr>er_edge = e, er_peer = to_end dir e\<rparr>)
          (filter (\<lambda>e. from_end dir e = n \<and> passes ?v f e) es)"
    using key [OF idx] by simp
  then show ?thesis
    using True adjacency_new [OF True, where dir = dir and es = es and cs = cs] adjacency_new_length [where dir = dir and ns = ns and es = es and cs = cs]
    by (simp add: neighbors_def)
qed (use adjacency_new_length [where dir = dir and ns = ns and es = es and cs = cs] in \<open>simp add: neighbors_def map_filter_simps\<close>)

subsection \<open>Selector resolution\<close>

lemma resolve_select_fold:
  "fold (resolve_select_step sel opts) ns res =
     \<lparr>sr_ids = sr_ids res @ map n_id (filter (\<lambda>n. nm_matched (evaluate sel n opts)) ns),
      sr_truncated = (sr_truncated res \<or> list_ex (\<lambda>n. nm_truncated (evaluate sel n opts)) ns),
      sr_agnostic_cross_language = sr_agnostic_cross_language res @
        map n_id (filter (\<lambda>n. nm_matched (evaluate sel n opts)
          \<and> nm_agnostic_cross_language (evaluate sel n opts)) ns)\<rparr>"
  by (induction ns arbitrary: res) (auto simp: resolve_select_step_def Let_def)

end
