(* ===== verification/Graph_Search.thy ===== *)
theory Graph_Search
  imports Prelude
begin

text \<open>
  Breadth-first search, independently of what the searches of the program carry along. The
  loops of \<open>walk.rs\<close> and \<open>engine.rs\<close> differ in their payload (discovery edges, flags,
  predecessors, confidences) and agree on a frontier, a set of discovered nodes with their
  depths, and the order of the steps. The locale fixes a finite successor function; its
  lemmas show that every step of such a loop keeps an invariant from which soundness, and
  shortest depths, follow. Each loop is then related to these steps.
\<close>

subsection \<open>Walks and depth limits\<close>

inductive walk :: "(nat \<Rightarrow> nat list) \<Rightarrow> nat \<Rightarrow> nat \<Rightarrow> nat \<Rightarrow> bool" for succ start where
  walk_nil: "walk succ start 0 start"
| walk_step: "walk succ start k v \<Longrightarrow> w \<in> set (succ v) \<Longrightarrow> walk succ start (Suc k) w"

inductive_cases walk_zeroE: "walk succ start 0 v"
inductive_cases walk_SucE: "walk succ start (Suc k) v"

lemma walk_zero_iff: "walk succ start 0 v \<longleftrightarrow> v = start"
  by (auto elim: walk_zeroE intro: walk_nil)

lemma walk_Suc_iff: "walk succ start (Suc k) w \<longleftrightarrow> (\<exists>v. walk succ start k v \<and> w \<in> set (succ v))"
  by (auto elim: walk_SucE intro: walk_step)

definition within :: "nat option \<Rightarrow> nat \<Rightarrow> bool" where
  "within lim d = (case lim of None \<Rightarrow> True | Some m \<Rightarrow> d \<le> m)"

lemma within_mono: "within lim d \<Longrightarrow> k \<le> d \<Longrightarrow> within lim k"
  by (auto simp: within_def split: option.splits)

definition shortest :: "(nat \<Rightarrow> nat list) \<Rightarrow> nat \<Rightarrow> nat \<Rightarrow> nat \<Rightarrow> bool" where
  "shortest succ start v d \<longleftrightarrow> walk succ start d v \<and> (\<forall>k. walk succ start k v \<longrightarrow> d \<le> k)"

lemma shortest_unique: "shortest succ start v d \<Longrightarrow> shortest succ start v e \<Longrightarrow> d = e"
  by (meson le_antisym shortest_def)

lemma shortest_exists: "walk succ start k v \<Longrightarrow> \<exists>d \<le> k. shortest succ start v d"
  by (intro exI [of _ "LEAST k. walk succ start k v"])
    (auto simp: shortest_def intro: Least_le LeastI [of "\<lambda>k. walk succ start k v"])

subsection \<open>The invariant of a breadth-first search\<close>

text \<open>
  \<open>D\<close> gives the depth of every discovered node, \<open>Q\<close> is the frontier, \<open>c\<close> the depth being
  expanded and \<open>E\<close> the edges of the node being expanded that are still to be looked at.
\<close>

locale finite_graph =
  fixes n :: nat and succ :: "nat \<Rightarrow> nat list"
  assumes succ_bound: "w \<in> set (succ v) \<Longrightarrow> w < n"
begin

definition inv ::
  "nat \<Rightarrow> nat option \<Rightarrow> (nat \<Rightarrow> nat option) \<Rightarrow> (nat \<times> nat) list \<Rightarrow> nat \<Rightarrow> (nat \<times> nat) set \<Rightarrow> bool" where
  "inv start lim D Q c E \<longleftrightarrow>
     D start = Some 0 \<and>
     (\<forall>v d. D v = Some d \<longrightarrow> walk succ start d v \<and> (d = 0 \<or> within lim d) \<and> d \<le> Suc c) \<and>
     (\<forall>v d. D v = Some (Suc d) \<longrightarrow> (\<exists>u. D u = Some d)) \<and>
     (\<forall>(v, d) \<in> set Q. D v = Some d \<and> c \<le> d) \<and>
     sorted (map snd Q) \<and>
     (\<forall>(u, w) \<in> E. D u = Some c) \<and>
     (\<forall>u d w. D u = Some d \<longrightarrow> (u, d) \<notin> set Q \<longrightarrow> w \<in> set (succ u) \<longrightarrow> (u, w) \<notin> E \<longrightarrow>
        within lim (Suc d) \<longrightarrow> (\<exists>d' \<le> Suc d. D w = Some d'))"

lemma invI:
  assumes "D start = Some 0"
    and "\<And>v d. D v = Some d \<Longrightarrow> walk succ start d v \<and> (d = 0 \<or> within lim d) \<and> d \<le> Suc c"
    and "\<And>v d. D v = Some (Suc d) \<Longrightarrow> \<exists>u. D u = Some d"
    and "\<And>v d. (v, d) \<in> set Q \<Longrightarrow> D v = Some d \<and> c \<le> d"
    and "sorted (map snd Q)"
    and "\<And>u w. (u, w) \<in> E \<Longrightarrow> D u = Some c"
    and "\<And>u d w. D u = Some d \<Longrightarrow> (u, d) \<notin> set Q \<Longrightarrow> w \<in> set (succ u) \<Longrightarrow> (u, w) \<notin> E \<Longrightarrow>
        within lim (Suc d) \<Longrightarrow> \<exists>d' \<le> Suc d. D w = Some d'"
  shows "inv start lim D Q c E"
  unfolding inv_def
proof (intro conjI)
  show "\<forall>(v, d) \<in> set Q. D v = Some d \<and> c \<le> d" using assms(4) by blast
  show "\<forall>(u, w) \<in> E. D u = Some c" using assms(6) by blast
  show "\<forall>v d. D v = Some d \<longrightarrow> walk succ start d v \<and> (d = 0 \<or> within lim d) \<and> d \<le> Suc c"
    by (intro allI impI) (rule assms(2))
  show "\<forall>v d. D v = Some (Suc d) \<longrightarrow> (\<exists>u. D u = Some d)" by (intro allI impI) (rule assms(3))
  show "\<forall>u d w. D u = Some d \<longrightarrow> (u, d) \<notin> set Q \<longrightarrow> w \<in> set (succ u) \<longrightarrow> (u, w) \<notin> E \<longrightarrow>
        within lim (Suc d) \<longrightarrow> (\<exists>d' \<le> Suc d. D w = Some d')" by (intro allI impI) (rule assms(7))
qed (rule assms(1), rule assms(5))

lemma invD:
  assumes "inv start lim D Q c E"
  shows inv_start: "D start = Some 0"
    and inv_sound: "D v = Some d \<Longrightarrow> walk succ start d v \<and> (d = 0 \<or> within lim d)"
    and inv_le: "D v = Some d \<Longrightarrow> d \<le> Suc c"
    and inv_level: "D v = Some (Suc d) \<Longrightarrow> \<exists>u. D u = Some d"
    and inv_queue: "(v, d) \<in> set Q \<Longrightarrow> D v = Some d \<and> c \<le> d"
    and inv_sorted: "sorted (map snd Q)"
    and inv_edge: "(u, w) \<in> E \<Longrightarrow> D u = Some c"
    and inv_done: "D u = Some d \<Longrightarrow> (u, d) \<notin> set Q \<Longrightarrow> w \<in> set (succ u) \<Longrightarrow> (u, w) \<notin> E \<Longrightarrow>
        within lim (Suc d) \<Longrightarrow> \<exists>d' \<le> Suc d. D w = Some d'"
proof -
  note d = assms [unfolded inv_def]
  show "D start = Some 0" using d by blast
  show "D v = Some d \<Longrightarrow> walk succ start d v \<and> (d = 0 \<or> within lim d)" for v d using d by blast
  show "D v = Some d \<Longrightarrow> d \<le> Suc c" for v d using d by blast
  show "D v = Some (Suc d) \<Longrightarrow> \<exists>u. D u = Some d" for v d using d by blast
  show "(v, d) \<in> set Q \<Longrightarrow> D v = Some d \<and> c \<le> d" for v d using d by blast
  show "sorted (map snd Q)" using d by blast
  show "(u, w) \<in> E \<Longrightarrow> D u = Some c" for u w using d by blast
  show "D u = Some d \<Longrightarrow> (u, d) \<notin> set Q \<Longrightarrow> w \<in> set (succ u) \<Longrightarrow> (u, w) \<notin> E \<Longrightarrow>
        within lim (Suc d) \<Longrightarrow> \<exists>d' \<le> Suc d. D w = Some d'" for u d w using d by blast
qed

lemma inv_init: "inv start lim [start \<mapsto> 0] [(start, 0)] 0 {}"
  by (rule invI) (auto intro: walk_nil split: if_splits)

lemma inv_head:
  assumes "inv start lim D ((u, d) # Q) c E"
  shows "D u = Some d" "c \<le> d" "d \<le> Suc c" "(v, e) \<in> set Q \<Longrightarrow> d \<le> e"
proof -
  show D: "D u = Some d" using inv_queue [OF assms, of u d] by simp
  show "c \<le> d" using inv_queue [OF assms, of u d] by simp
  show "d \<le> Suc c" by (rule inv_le [OF assms D])
  show "(v, e) \<in> set Q \<Longrightarrow> d \<le> e" using inv_sorted [OF assms] by auto
qed

lemma inv_pop:
  assumes "inv start lim D ((u, d) # Q) c {}"
  shows "inv start lim D Q d {(u, w) | w. w \<in> set (succ u)}"
proof (rule invI)
  note h = inv_head [OF assms]
  show "D start = Some 0" by (rule inv_start [OF assms])
  show "walk succ start e v \<and> (e = 0 \<or> within lim e) \<and> e \<le> Suc d" if "D v = Some e" for v e
    using inv_sound [OF assms that] inv_le [OF assms that] h(2) by simp
  show "\<exists>u. D u = Some e" if "D v = Some (Suc e)" for v e by (rule inv_level [OF assms that])
  show "D v = Some e \<and> d \<le> e" if "(v, e) \<in> set Q" for v e
    using inv_queue [OF assms, of v e] h(4) that by simp
  show "sorted (map snd Q)" using inv_sorted [OF assms] by simp
  show "D x = Some d" if "(x, w) \<in> {(u, w) | w. w \<in> set (succ u)}" for x w using that h(1) by simp
  show "\<exists>d' \<le> Suc e. D w = Some d'"
    if "D x = Some e" "(x, e) \<notin> set Q" "w \<in> set (succ x)"
      "(x, w) \<notin> {(u, w) | w. w \<in> set (succ u)}" "within lim (Suc e)" for x e w
  proof -
    have "x \<noteq> u" using that(3,4) by blast
    then show ?thesis using inv_done [OF assms that(1) _ that(3) _ that(5)] that(2) by simp
  qed
qed

lemma inv_skip:
  assumes "inv start lim D ((u, d) # Q) c {}" "\<not> within lim (Suc d)"
  shows "inv start lim D Q d {}"
proof (rule invI)
  note i = inv_pop [OF assms(1)] and h = inv_head [OF assms(1)]
  show "D start = Some 0" by (rule inv_start [OF i])
  show "walk succ start e v \<and> (e = 0 \<or> within lim e) \<and> e \<le> Suc d" if "D v = Some e" for v e
    using inv_sound [OF i that] inv_le [OF i that] by simp
  show "\<exists>u. D u = Some e" if "D v = Some (Suc e)" for v e by (rule inv_level [OF i that])
  show "D v = Some e \<and> d \<le> e" if "(v, e) \<in> set Q" for v e by (rule inv_queue [OF i that])
  show "sorted (map snd Q)" by (rule inv_sorted [OF i])
  show "\<exists>d' \<le> Suc e. D w = Some d'"
    if "D x = Some e" "(x, e) \<notin> set Q" "w \<in> set (succ x)" "within lim (Suc e)" for x e w
  proof -
    have "x \<noteq> u" using that(1,4) h(1) assms(2) by auto
    then show ?thesis using inv_done [OF i that(1,2,3) _ that(4)] by simp
  qed
qed simp

lemma inv_old:
  assumes "inv start lim D Q c E" "D w \<noteq> None"
  shows "inv start lim D Q c (E - {(u, w)})"
proof (cases "(u, w) \<in> E")
  case True
  obtain d' where d': "D w = Some d'" using assms(2) by blast
  have u: "D u = Some c" by (rule inv_edge [OF assms(1) True])
  show ?thesis
  proof (rule invI)
    show "\<exists>d' \<le> Suc e. D y = Some d'"
      if "D x = Some e" "(x, e) \<notin> set Q" "y \<in> set (succ x)" "(x, y) \<notin> E - {(u, w)}"
        "within lim (Suc e)" for x e y
    proof (cases "(x, y) = (u, w)")
      case True
      then show ?thesis using d' inv_le [OF assms(1) d'] u that(1) by auto
    next
      case False
      then show ?thesis using inv_done [OF assms(1) that(1,2,3) _ that(5)] that(4) by blast
    qed
  qed (use assms(1) in \<open>auto dest: inv_sound inv_le inv_level inv_queue inv_sorted inv_edge intro: inv_start\<close>)
qed (use assms(1) in simp)

lemma inv_weaken:
  assumes "inv start lim D Q c E" "E \<subseteq> E'" "\<And>u w. (u, w) \<in> E' \<Longrightarrow> D u = Some c"
  shows "inv start lim D Q c E'"
proof (rule invI)
  show "\<exists>d' \<le> Suc e. D y = Some d'"
    if "D x = Some e" "(x, e) \<notin> set Q" "y \<in> set (succ x)" "(x, y) \<notin> E'" "within lim (Suc e)" for x e y
    using inv_done [OF assms(1) that(1,2,3) _ that(5)] that(4) assms(2) by blast
qed (use assms in \<open>auto dest: inv_sound inv_le inv_level inv_queue inv_sorted intro: inv_start\<close>)

lemma inv_new:
  assumes "inv start lim D Q c E" "(u, w) \<in> E" "w \<in> set (succ u)" "D w = None" "within lim (Suc c)"
  shows "inv start lim (D(w \<mapsto> Suc c)) (Q @ [(w, Suc c)]) c (E - {(u, w)})"
proof (rule invI)
  note i = assms(1)
  have u: "D u = Some c" by (rule inv_edge [OF i assms(2)])
  have w: "walk succ start (Suc c) w" using inv_sound [OF i u] assms(3) by (blast intro: walk_step)
  have q: "D v = Some d \<and> c \<le> d \<and> d \<le> Suc c \<and> v \<noteq> w" if "(v, d) \<in> set Q" for v d
    using inv_queue [OF i that] inv_le [OF i] assms(4) by auto
  show "(D(w \<mapsto> Suc c)) start = Some 0" using inv_start [OF i] assms(4) by auto
  show "walk succ start d v \<and> (d = 0 \<or> within lim d) \<and> d \<le> Suc c" if "(D(w \<mapsto> Suc c)) v = Some d" for v d
    using that w assms(5) inv_sound [OF i] inv_le [OF i] by (auto split: if_splits)
  show "\<exists>x. (D(w \<mapsto> Suc c)) x = Some d" if a: "(D(w \<mapsto> Suc c)) v = Some (Suc d)" for v d
  proof (cases "v = w")
    case True
    then have "d = c" using a by simp
    then show ?thesis using u assms(4) by (intro exI [of _ u]) auto
  next
    case False
    then obtain x where "D x = Some d" using inv_level [OF i, of v d] a by auto
    then show ?thesis using assms(4) by (intro exI [of _ x]) auto
  qed
  show "(D(w \<mapsto> Suc c)) v = Some d \<and> c \<le> d" if "(v, d) \<in> set (Q @ [(w, Suc c)])" for v d
    using that q by auto
  show "sorted (map snd (Q @ [(w, Suc c)]))" using inv_sorted [OF i] q by (auto simp: sorted_append)
  show "(D(w \<mapsto> Suc c)) x = Some c" if "(x, y) \<in> E - {(u, w)}" for x y
    using that inv_edge [OF i, of x y] assms(4) by auto
  show "\<exists>d' \<le> Suc d. (D(w \<mapsto> Suc c)) y = Some d'"
    if a: "(D(w \<mapsto> Suc c)) x = Some d" "(x, d) \<notin> set (Q @ [(w, Suc c)])" "y \<in> set (succ x)"
      "(x, y) \<notin> E - {(u, w)}" "within lim (Suc d)" for x d y
  proof (cases "(x, y) = (u, w)")
    case True
    then show ?thesis using a(1) u assms(4) by (auto split: if_splits)
  next
    case False
    have "x \<noteq> w" using a(1,2) by auto
    then have "D x = Some d" "(x, d) \<notin> set Q" "(x, y) \<notin> E" using a(1,2,4) False by auto
    then obtain d' where "d' \<le> Suc d" "D y = Some d'" using inv_done [OF i _ _ a(3) _ a(5)] by blast
    then show ?thesis using assms(4) by (intro exI [of _ d']) auto
  qed
qed

lemma walk_bound: "walk succ start k v \<Longrightarrow> v = start \<or> v < n"
  by (induction rule: walk.induct) (auto dest: succ_bound)

text \<open>Nodes closer than the level being expanded have all been found.\<close>

lemma inv_closer:
  assumes "inv start lim D Q c E" "walk succ start k v" "k \<le> c" "k = 0 \<or> within lim k"
  shows "\<exists>d \<le> k. D v = Some d"
  using assms(2-)
proof (induction rule: walk.induct)
  case walk_nil
  then show ?case using inv_start [OF assms(1)] by simp
next
  case (walk_step k v w)
  then obtain d where d: "d \<le> k" "D v = Some d" using within_mono [of lim "Suc k" k] by auto
  have "(v, d) \<notin> set Q" using inv_queue [OF assms(1), of v d] d walk_step.prems(1) by auto
  moreover have "(v, w) \<notin> E" using inv_edge [OF assms(1), of v w] d walk_step.prems(1) by auto
  moreover have "within lim (Suc d)" using walk_step.prems d within_mono [of lim "Suc k" "Suc d"] by simp
  ultimately obtain d' where "d' \<le> Suc d" "D w = Some d'"
    using inv_done [OF assms(1) d(2) _ walk_step.hyps(2)] by blast
  then show ?case using d by (intro exI [of _ d']) simp
qed

lemma inv_final_complete:
  assumes "inv start lim D [] c {}" "walk succ start k v" "k = 0 \<or> within lim k"
  shows "\<exists>d \<le> k. D v = Some d"
  using assms(2-)
proof (induction rule: walk.induct)
  case walk_nil
  then show ?case using inv_start [OF assms(1)] by simp
next
  case (walk_step k v w)
  then obtain d where d: "d \<le> k" "D v = Some d" using within_mono [of lim "Suc k" k] by auto
  have "within lim (Suc d)" using walk_step.prems d within_mono [of lim "Suc k" "Suc d"] by simp
  then obtain d' where "d' \<le> Suc d" "D w = Some d'"
    using inv_done [OF assms(1) d(2) _ walk_step.hyps(2)] by auto
  then show ?case using d by (intro exI [of _ d']) simp
qed

text \<open>When the frontier is empty, the discovered depths are the shortest distances in range.\<close>

lemma inv_final:
  assumes "inv start lim D [] c {}"
  shows "D v = Some d \<longleftrightarrow> shortest succ start v d \<and> (d = 0 \<or> within lim d)"
proof
  assume D: "D v = Some d"
  have wd: "walk succ start d v" "d = 0 \<or> within lim d" using inv_sound [OF assms D] by auto
  have "d \<le> k" if w: "walk succ start k v" for k
  proof (rule ccontr)
    assume "\<not> d \<le> k"
    then have "k = 0 \<or> within lim k" using wd(2) within_mono [of lim d k] by auto
    then obtain d' where "d' \<le> k" "D v = Some d'" using inv_final_complete [OF assms w] by blast
    then show False using D \<open>\<not> d \<le> k\<close> by simp
  qed
  with wd show "shortest succ start v d \<and> (d = 0 \<or> within lim d)" by (simp add: shortest_def)
next
  assume *: "shortest succ start v d \<and> (d = 0 \<or> within lim d)"
  then obtain d' where d': "d' \<le> d" "D v = Some d'"
    using inv_final_complete [OF assms, of d v] by (auto simp: shortest_def)
  moreover have "d \<le> d'" using * inv_sound [OF assms d'(2)] by (simp add: shortest_def)
  ultimately show "D v = Some d" by simp
qed

lemma inv_new_shortest:
  assumes "inv start lim D Q c E" "(u, w) \<in> E" "w \<in> set (succ u)" "D w = None" "within lim (Suc c)"
  shows "shortest succ start w (Suc c)"
proof -
  have "walk succ start c u" using inv_sound [OF assms(1) inv_edge [OF assms(1,2)]] by blast
  then have "walk succ start (Suc c) w" by (rule walk_step) (rule assms(3))
  moreover have "Suc c \<le> k" if "walk succ start k w" for k
  proof (rule ccontr)
    assume "\<not> Suc c \<le> k"
    then have "k \<le> c" "k = 0 \<or> within lim k" using within_mono [OF assms(5), of k] by auto
    then show False using inv_closer [OF assms(1) that] assms(4) by auto
  qed
  ultimately show ?thesis by (simp add: shortest_def)
qed

text \<open>Every level below a discovered depth is inhabited, so depths are at most \<open>n\<close>.\<close>

lemma inv_levels: "inv start lim D Q c E \<Longrightarrow> D v = Some (j + k) \<Longrightarrow> \<exists>u. D u = Some j"
proof (induction k arbitrary: v)
  case (Suc k)
  then obtain u where "D u = Some (j + k)" using inv_level [OF Suc.prems(1), of v "j + k"] by auto
  then show ?case using Suc by blast
qed auto

lemma inv_depth_le:
  assumes "inv start lim D Q c E" "D v = Some d"
  shows "d \<le> n"
proof -
  have "\<exists>u. D u = Some j" if "j \<le> d" for j
    using inv_levels [OF assms(1), of v j "d - j"] assms(2) that by simp
  then obtain f where f: "\<And>j. j \<le> d \<Longrightarrow> D (f j) = Some j" by metis
  have "inj_on f {..d}" by (rule inj_onI) (metis atMost_iff f option.inject)
  moreover have "f ` {..d} \<subseteq> insert start {..<n}"
    using f inv_sound [OF assms(1)] walk_bound by fastforce
  ultimately have "card {..d} \<le> card (insert start {..<n})" by (meson card_inj_on_le finite_insert finite_lessThan)
  also have "\<dots> \<le> Suc n" by (metis card_insert_le_m1 card_lessThan diff_Suc_1 le_refl zero_less_Suc)
  finally show ?thesis by simp
qed

lemma inv_dom: "inv start lim D Q c E \<Longrightarrow> D v = Some d \<Longrightarrow> v = start \<or> v < n"
  using inv_sound walk_bound by blast

end

subsection \<open>The termination measure\<close>

text \<open>
  A frontier search pops one entry per iteration and pushes one per newly marked node, so
  frontier length plus unmarked nodes decreases.
\<close>

definition unmarked :: "nat \<Rightarrow> (nat \<Rightarrow> bool) \<Rightarrow> nat" where
  "unmarked n seen = card {i. i < n \<and> \<not> seen i}"

lemma unmarked_mark: "i < n \<Longrightarrow> \<not> seen i \<Longrightarrow> Suc (unmarked n (seen(i := True))) = unmarked n seen"
proof -
  assume i: "i < n" "\<not> seen i"
  have "{j. j < n \<and> \<not> seen j} = insert i {j. j < n \<and> \<not> (seen(i := True)) j}" using i by auto
  then show ?thesis unfolding unmarked_def by (subst \<open>_ = insert i _\<close>) simp
qed

end
