(* ===== verification/Query_Walk.thy ===== *)
theory Query_Walk
  imports Query_View Graph_Search
begin

text \<open>
  The breadth-first half of \<open>walk.rs\<close>: the walker configuration, the exceptional-flag
  transition, \<open>bfs\<close>, \<open>reachable_within\<close>, \<open>neighborhood\<close>, \<open>reachable\<close> and
  \<open>shortest_path\<close> with its predecessor reconstruction. A \<open>Vec<bool>\<close> over the nodes, only
  accessed at checked positions, is a function \<^typ>\<open>nat \<Rightarrow> bool\<close>; the loops over a
  \<open>VecDeque\<close> are recursions on the frontier whose termination measure is the frontier
  length plus the number of unmarked nodes. The walks of a view are related to the search
  invariant of \<open>Graph_Search\<close> through \<open>view_succ\<close>.
\<close>

subsection \<open>The walker and its per-edge transition\<close>

definition default_max_paths :: nat where
  "default_max_paths = 1024"

definition default_max_steps :: nat where
  "default_max_steps = 2000000"

record path_walker =
  pw_filter :: edge_filter
  pw_max_depth :: "nat option"
  pw_max_paths :: "nat option"
  pw_max_steps :: "nat option"

definition path_walker_default :: path_walker where
  "path_walker_default =
     \<lparr>pw_filter = edge_filter_calls, pw_max_depth = None, pw_max_paths = None, pw_max_steps = None\<rparr>"

definition path_cap :: "path_walker \<Rightarrow> nat" where
  "path_cap w = (case pw_max_paths w of Some c \<Rightarrow> c | None \<Rightarrow> default_max_paths)"

definition step_budget :: "path_walker \<Rightarrow> nat" where
  "step_budget w = (case pw_max_steps w of Some c \<Rightarrow> c | None \<Rightarrow> default_max_steps)"

definition within_depth :: "path_walker \<Rightarrow> nat \<Rightarrow> bool" where
  "within_depth w depth = (case pw_max_depth w of None \<Rightarrow> True | Some d \<Rightarrow> depth \<le> d)"

definition advance_exceptional :: "bool \<Rightarrow> edge_record \<Rightarrow> bool" where
  "advance_exceptional prior edge =
     (if e_kind edge = Spawns then False else prior \<or> is_exceptional (e_condition edge))"

text \<open>The index of a node id in an array over the nodes.\<close>

definition checked_index :: "node_id \<Rightarrow> nat \<Rightarrow> nat option" where
  "checked_index node n = (if node < n then Some node else None)"

type_synonym nbr = "node_id \<times> edge_record \<times> bool"

definition sorted_nbrs :: "path_walker \<Rightarrow> graph_view \<Rightarrow> direction \<Rightarrow> node_id \<Rightarrow> bool \<Rightarrow> nbr list" where
  "sorted_nbrs w view dir node exc =
     sort_key (\<lambda>(peer, edge, _). (peer, e_id edge))
       (map (\<lambda>er. (er_peer er, er_edge er, advance_exceptional exc (er_edge er)))
          (neighbors view node dir (pw_filter w)))"

subsection \<open>Breadth-first discovery\<close>

record discovered =
  dc_node :: node_id
  dc_depth :: nat
  dc_via :: edge_record
  dc_exception_transient :: bool

type_synonym bfs_state = "(nat \<Rightarrow> bool) \<times> discovered list \<times> (node_id \<times> nat \<times> bool) list"

definition bfs_visit :: "nat \<Rightarrow> nat \<Rightarrow> nbr \<Rightarrow> bfs_state \<Rightarrow> bfs_state" where
  "bfs_visit n depth nb st =
     (case nb of (peer, edge, next_exc) \<Rightarrow> case st of (seen, out, frontier) \<Rightarrow>
        (case checked_index peer n of
           None \<Rightarrow> (seen, out, frontier)
         | Some pi \<Rightarrow>
             if seen pi then (seen, out, frontier)
             else (seen(pi := True),
                   out @ [\<lparr>dc_node = peer, dc_depth = depth + 1, dc_via = edge,
                           dc_exception_transient = next_exc\<rparr>],
                   frontier @ [(peer, depth + 1, next_exc)])))"

lemma bfs_visit_measure:
  assumes "fold (bfs_visit n depth) nbs (seen, out, frontier) = (seen', out', frontier')"
  shows "length frontier' + unmarked n seen' = length frontier + unmarked n seen"
  using assms
proof (induction nbs arbitrary: seen out frontier)
  case (Cons nb nbs)
  obtain peer edge exc where nb: "nb = (peer, edge, exc)" by (cases nb) auto
  show ?case
  proof (cases "peer < n \<and> \<not> seen peer")
    case True
    then have "bfs_visit n depth nb (seen, out, frontier) = (seen(peer := True),
        out @ [\<lparr>dc_node = peer, dc_depth = depth + 1, dc_via = edge, dc_exception_transient = exc\<rparr>],
        frontier @ [(peer, depth + 1, exc)])"
      by (simp add: nb bfs_visit_def checked_index_def)
    with Cons.prems have "fold (bfs_visit n depth) nbs (seen(peer := True),
        out @ [\<lparr>dc_node = peer, dc_depth = depth + 1, dc_via = edge, dc_exception_transient = exc\<rparr>],
        frontier @ [(peer, depth + 1, exc)]) = (seen', out', frontier')" by simp
    from Cons.IH [OF this] show ?thesis using unmarked_mark [of peer n seen] True
      by (simp only: fun_upd_def) simp
  next
    case False
    then have "bfs_visit n depth nb (seen, out, frontier) = (seen, out, frontier)"
      by (auto simp: nb bfs_visit_def checked_index_def)
    then show ?thesis using Cons by simp
  qed
qed simp

function bfs_loop :: "path_walker \<Rightarrow> graph_view \<Rightarrow> direction \<Rightarrow> bfs_state \<Rightarrow> discovered list" where
  "bfs_loop w view dir (seen, out, []) = out"
| "bfs_loop w view dir (seen, out, (node, depth, exc) # frontier) =
     (if \<not> within_depth w (depth + 1) then bfs_loop w view dir (seen, out, frontier)
      else bfs_loop w view dir
        (fold (bfs_visit (node_count view) depth) (sorted_nbrs w view dir node exc) (seen, out, frontier)))"
  by pat_completeness auto
termination
proof (relation "measure (\<lambda>(w, view, dir, seen, out, frontier). length frontier + unmarked (node_count view) seen)",
    goal_cases)
  case (3 w view dir seen out node depth exc frontier)
  then show ?case
    using bfs_visit_measure [of "node_count view" depth "sorted_nbrs w view dir node exc" seen out frontier]
    by (auto split: prod.split)
qed auto

definition mark_start :: "node_id \<Rightarrow> nat \<Rightarrow> nat \<Rightarrow> bool" where
  "mark_start start n = (case checked_index start n of Some si \<Rightarrow> (\<lambda>_. False)(si := True) | None \<Rightarrow> (\<lambda>_. False))"

definition bfs :: "path_walker \<Rightarrow> graph_view \<Rightarrow> node_id \<Rightarrow> direction \<Rightarrow> discovered list" where
  "bfs w view start dir =
     sort_key (\<lambda>d. (dc_depth d, dc_node d))
       (bfs_loop w view dir (mark_start start (node_count view), [], [(start, 0, False)]))"

definition reachable :: "path_walker \<Rightarrow> graph_view \<Rightarrow> node_id \<Rightarrow> node_id \<Rightarrow> direction \<Rightarrow> bool" where
  "reachable w view start goal dir =
     (if start = goal then True else list_ex (\<lambda>d. dc_node d = goal) (bfs w view start dir))"

subsection \<open>Depth-layered reachability\<close>

definition layer_push :: "nat \<Rightarrow> node_id \<Rightarrow> (nat \<Rightarrow> bool) \<times> node_id list \<Rightarrow> (nat \<Rightarrow> bool) \<times> node_id list" where
  "layer_push n peer st = (case st of (in_next, nxt) \<Rightarrow>
     (case checked_index peer n of
        Some pi \<Rightarrow> if \<not> in_next pi then (in_next(pi := True), nxt @ [peer]) else (in_next, nxt)
      | None \<Rightarrow> (in_next, nxt)))"

definition layer_next :: "path_walker \<Rightarrow> graph_view \<Rightarrow> direction \<Rightarrow> node_id list \<Rightarrow> node_id list" where
  "layer_next w view dir frontier =
     snd (fold (\<lambda>node st. fold (layer_push (node_count view))
         (sort (map er_peer (neighbors view node dir (pw_filter w)))) st)
       frontier (\<lambda>_. False, []))"

text \<open>The loop runs while \<open>depth < max\<close>; the first argument counts the layers left.\<close>

fun layer_loop ::
  "nat \<Rightarrow> path_walker \<Rightarrow> graph_view \<Rightarrow> direction \<Rightarrow> nat \<Rightarrow> nat \<Rightarrow> node_id list \<Rightarrow> node_id btree_set
    \<Rightarrow> node_id btree_set" where
  "layer_loop 0 w view dir min_depth depth frontier admitted = admitted"
| "layer_loop (Suc left) w view dir min_depth depth frontier admitted =
     (if frontier = [] then admitted
      else
        let nxt = layer_next w view dir frontier;
            depth = depth + 1;
            admitted = (if depth \<ge> min_depth then fold bs_insert nxt admitted else admitted)
        in layer_loop left w view dir min_depth depth nxt admitted)"

definition reachable_within ::
  "path_walker \<Rightarrow> graph_view \<Rightarrow> node_id \<Rightarrow> direction \<Rightarrow> nat \<Rightarrow> node_id list" where
  "reachable_within w view start dir min_depth =
     sort (layer_loop (case pw_max_depth w of Some d \<Rightarrow> d | None \<Rightarrow> u32_max)
       w view dir min_depth 0 [start] [])"

subsection \<open>The induced neighborhood\<close>

record edge_rec =
  rc_src :: node_id
  rc_dst :: node_id
  rc_edge_id :: edge_id
  rc_condition :: edge_condition
  rc_confidence :: confidence

record subgraph =
  sub_roots :: "node_id list"
  sub_nodes :: "node_id list"
  sub_edges :: "edge_rec list"

definition hood_push :: "nat \<Rightarrow> discovered \<Rightarrow> (nat \<Rightarrow> bool) \<times> node_id list \<Rightarrow> (nat \<Rightarrow> bool) \<times> node_id list" where
  "hood_push n d st = (case st of (in_set, nodes) \<Rightarrow>
     (case checked_index (dc_node d) n of
        Some i \<Rightarrow> if \<not> in_set i then (in_set(i := True), nodes @ [dc_node d]) else (in_set, nodes)
      | None \<Rightarrow> (in_set, nodes)))"

definition induced_edges ::
  "path_walker \<Rightarrow> graph_view \<Rightarrow> direction \<Rightarrow> (nat \<Rightarrow> bool) \<Rightarrow> node_id \<Rightarrow> edge_rec list" where
  "induced_edges w view dir in_set node =
     List.map_filter (\<lambda>er. case checked_index (er_peer er) (node_count view) of
         None \<Rightarrow> None
       | Some pi \<Rightarrow> if \<not> in_set pi then None
           else Some \<lparr>rc_src = node, rc_dst = er_peer er, rc_edge_id = e_id (er_edge er),
             rc_condition = e_condition (er_edge er), rc_confidence = e_confidence (er_edge er)\<rparr>)
       (neighbors view node dir (pw_filter w))"

definition neighborhood :: "path_walker \<Rightarrow> graph_view \<Rightarrow> node_id \<Rightarrow> direction \<Rightarrow> subgraph" where
  "neighborhood w view anchor dir =
     (let (in_set, nodes) = fold (hood_push (node_count view)) (bfs w view anchor dir)
            (mark_start anchor (node_count view), [anchor]);
          edges = concat (map (induced_edges w view dir in_set) nodes)
      in \<lparr>sub_roots = [anchor], sub_nodes = sort nodes,
          sub_edges = sort_key (\<lambda>e. (rc_src e, rc_dst e, rc_edge_id e)) edges\<rparr>)"

subsection \<open>Shortest path\<close>

type_synonym pred_map = "nat \<Rightarrow> (node_id \<times> edge_record) option"

text \<open>
  Walking the predecessors back. Each hop goes to a node of smaller depth, and depths are at
  most the number of nodes, which bounds the iterations by the first argument.
\<close>

fun reconstruct_loop ::
  "nat \<Rightarrow> pred_map \<Rightarrow> node_id \<Rightarrow> (node_id \<times> edge_record option) list
    \<Rightarrow> (node_id \<times> edge_record option) list" where
  "reconstruct_loop 0 pred cur rev_path = rev_path"
| "reconstruct_loop (Suc fuel) pred cur rev_path =
     (case pred cur of
        Some (p, edge) \<Rightarrow> reconstruct_loop fuel pred p (rev_path @ [(cur, Some edge)])
      | None \<Rightarrow> rev_path @ [(cur, None)])"

definition reconstruct :: "nat \<Rightarrow> node_id \<Rightarrow> pred_map \<Rightarrow> (node_id \<times> edge_record option) list" where
  "reconstruct n goal pred = rev (reconstruct_loop (Suc n) pred goal [])"

type_synonym sp_state = "pred_map \<times> (nat \<Rightarrow> bool) \<times> (node_id \<times> nat) list"

definition sorted_pairs ::
  "path_walker \<Rightarrow> graph_view \<Rightarrow> direction \<Rightarrow> node_id \<Rightarrow> (node_id \<times> edge_record) list" where
  "sorted_pairs w view dir node =
     sort_key (\<lambda>(peer, edge). (peer, e_id edge))
       (map (\<lambda>er. (er_peer er, er_edge er)) (neighbors view node dir (pw_filter w)))"

text \<open>The inner loop returns \<open>Inl\<close> of the predecessors when it reaches the goal.\<close>

fun sp_visit ::
  "nat \<Rightarrow> node_id \<Rightarrow> node_id \<Rightarrow> nat \<Rightarrow> (node_id \<times> edge_record) list \<Rightarrow> sp_state
    \<Rightarrow> pred_map + sp_state" where
  "sp_visit n goal node depth [] st = Inr st"
| "sp_visit n goal node depth ((peer, edge) # nbs) (pred, seen, frontier) =
     (case checked_index peer n of
        None \<Rightarrow> sp_visit n goal node depth nbs (pred, seen, frontier)
      | Some pi \<Rightarrow>
          if seen pi then sp_visit n goal node depth nbs (pred, seen, frontier)
          else
            let seen = seen(pi := True);
                pred = pred(pi := Some (node, edge))
            in if peer = goal then Inl pred
               else sp_visit n goal node depth nbs (pred, seen, frontier @ [(peer, depth + 1)]))"

lemma sp_visit_measure:
  "sp_visit n goal node depth nbs (pred, seen, frontier) = Inr (pred', seen', frontier') \<Longrightarrow>
   length frontier' + unmarked n seen' = length frontier + unmarked n seen"
proof (induction n goal node depth nbs "(pred, seen, frontier)" arbitrary: pred seen frontier
    rule: sp_visit.induct)
  case (2 n goal node depth peer edge nbs pred seen frontier)
  then show ?case
    using unmarked_mark [of peer n seen]
    by (auto simp: checked_index_def Let_def split: if_splits)
qed simp

function sp_loop ::
  "path_walker \<Rightarrow> graph_view \<Rightarrow> direction \<Rightarrow> node_id \<Rightarrow> sp_state \<Rightarrow> pred_map option" where
  "sp_loop w view dir goal (pred, seen, []) = None"
| "sp_loop w view dir goal (pred, seen, (node, depth) # frontier) =
     (if \<not> within_depth w (depth + 1) then sp_loop w view dir goal (pred, seen, frontier)
      else case sp_visit (node_count view) goal node depth (sorted_pairs w view dir node)
              (pred, seen, frontier) of
          Inl found \<Rightarrow> Some found
        | Inr st \<Rightarrow> sp_loop w view dir goal st)"
  by pat_completeness auto
termination
proof (relation "measure (\<lambda>(w, view, dir, goal, pred, seen, frontier).
    length frontier + unmarked (node_count view) seen)", goal_cases)
  case (3 w view dir goal pred seen node depth frontier st)
  then show ?case
    using sp_visit_measure [of "node_count view" goal node depth "sorted_pairs w view dir node"
        pred seen frontier]
    by (cases st) auto
qed auto

definition shortest_path ::
  "path_walker \<Rightarrow> graph_view \<Rightarrow> node_id \<Rightarrow> node_id \<Rightarrow> direction
    \<Rightarrow> (node_id \<times> edge_record option) list option" where
  "shortest_path w view start goal dir =
     (if start = goal then Some [(start, None)]
      else map_option (reconstruct (node_count view) goal)
        (sp_loop w view dir goal (\<lambda>_. None, mark_start start (node_count view), [(start, 0)])))"

end
