(* ===== verification/Query_Reach.thy ===== *)
theory Query_Reach
  imports Query_Walk
begin

text \<open>
  Correctness of the breadth-first walks of \<open>Query_Walk\<close>: what they return is what is
  reachable by admitted edges, at shortest depth, once, with a discovery edge and a flag that
  belong to a shortest edge path.
\<close>

subsection \<open>Edge paths of a view\<close>

text \<open>The peers of a node along admitted edges, as the searches see them.\<close>

definition view_succ :: "path_walker \<Rightarrow> graph_view \<Rightarrow> direction \<Rightarrow> node_id \<Rightarrow> node_id list" where
  "view_succ w view dir u =
     filter (\<lambda>p. p < node_count view) (map er_peer (neighbors view u dir (pw_filter w)))"

interpretation vg: finite_graph "node_count view" "view_succ w view dir" for w view dir
  by unfold_locales (auto simp: view_succ_def)

text \<open>A path of admitted edges from \<open>start\<close>, in order, and the node it ends at.\<close>

inductive edge_walk ::
  "path_walker \<Rightarrow> graph_view \<Rightarrow> direction \<Rightarrow> node_id \<Rightarrow> edge_record list \<Rightarrow> node_id \<Rightarrow> bool"
  for w view dir start where
  ew_nil: "edge_walk w view dir start [] start"
| ew_snoc: "edge_walk w view dir start es u \<Longrightarrow> r \<in> set (neighbors view u dir (pw_filter w)) \<Longrightarrow>
    er_peer r < node_count view \<Longrightarrow> edge_walk w view dir start (es @ [er_edge r]) (er_peer r)"

lemma edge_walk_walk: "edge_walk w view dir start es v \<Longrightarrow> walk (view_succ w view dir) start (length es) v"
  by (induction rule: edge_walk.induct) (auto simp: view_succ_def intro: walk_nil walk_step)

lemma walk_edge_walk:
  "walk (view_succ w view dir) start k v \<Longrightarrow> \<exists>es. length es = k \<and> edge_walk w view dir start es v"
proof (induction rule: walk.induct)
  case walk_nil
  then show ?case by (auto intro: ew_nil)
next
  case (walk_step k v x)
  then obtain es r where "length es = k" "edge_walk w view dir start es v"
      "r \<in> set (neighbors view v dir (pw_filter w))" "er_peer r = x" "x < node_count view"
    by (auto simp: view_succ_def)
  then show ?case by (intro exI [of _ "es @ [er_edge r]"]) (auto intro: ew_snoc)
qed

lemma walk_iff_edge_walk:
  "walk (view_succ w view dir) start k v \<longleftrightarrow> (\<exists>es. length es = k \<and> edge_walk w view dir start es v)"
  using edge_walk_walk walk_edge_walk by blast

lemma within_depth_within: "within_depth w d = within (pw_max_depth w) d"
  by (simp add: within_depth_def within_def)

lemma mark_start_iff: "v < n \<Longrightarrow> mark_start start n v \<longleftrightarrow> v = start"
  by (auto simp: mark_start_def checked_index_def)

lemma sorted_nbrs_mem:
  "(peer, edge, nx) \<in> set (sorted_nbrs w view dir u exc) \<longleftrightarrow>
     (\<exists>r \<in> set (neighbors view u dir (pw_filter w)). peer = er_peer r \<and> edge = er_edge r
        \<and> nx = advance_exceptional exc edge)"
  by (auto simp: sorted_nbrs_def)

lemma sorted_pairs_mem:
  "(peer, edge) \<in> set (sorted_pairs w view dir u) \<longleftrightarrow>
     (\<exists>r \<in> set (neighbors view u dir (pw_filter w)). peer = er_peer r \<and> edge = er_edge r)"
  by (auto simp: sorted_pairs_def)

subsection \<open>The discovery loop\<close>

text \<open>
  A node at depth \<open>d\<close> with flag \<open>x\<close>: some edge path of that length leads to it, and the flag
  is what crossing its edges in order leaves.
\<close>

definition certified ::
  "path_walker \<Rightarrow> graph_view \<Rightarrow> direction \<Rightarrow> node_id \<Rightarrow> edge_record list \<Rightarrow> node_id \<Rightarrow> nat \<Rightarrow> bool \<Rightarrow> bool" where
  "certified w view dir start es v d x \<longleftrightarrow>
     edge_walk w view dir start es v \<and> length es = d \<and> x = foldl advance_exceptional False es"

definition disc_map :: "node_id \<Rightarrow> discovered list \<Rightarrow> node_id \<Rightarrow> nat option" where
  "disc_map start out = (map_of (map (\<lambda>d. (dc_node d, dc_depth d)) out))(start \<mapsto> 0)"

definition bfs_inv ::
  "path_walker \<Rightarrow> graph_view \<Rightarrow> direction \<Rightarrow> node_id \<Rightarrow> bfs_state \<Rightarrow> nat \<Rightarrow> (nat \<times> nat) set \<Rightarrow> bool" where
  "bfs_inv w view dir start st c E \<longleftrightarrow> (case st of (seen, out, frontier) \<Rightarrow>
     vg.inv w view dir start (pw_max_depth w) (disc_map start out) (map (\<lambda>(v, d, x). (v, d)) frontier) c E \<and>
     (\<forall>v < node_count view. seen v \<longleftrightarrow> disc_map start out v \<noteq> None) \<and>
     distinct (start # map dc_node out) \<and>
     (\<forall>d \<in> set out. \<exists>es. es \<noteq> [] \<and> last es = dc_via d \<and>
        certified w view dir start es (dc_node d) (dc_depth d) (dc_exception_transient d)) \<and>
     (\<forall>(v, d, x) \<in> set frontier. \<exists>es. certified w view dir start es v d x))"

lemma disc_map_new:
  assumes "distinct (start # map dc_node out)" "disc_map start out (dc_node d) = None"
  shows "disc_map start (out @ [d]) = (disc_map start out)(dc_node d \<mapsto> dc_depth d)"
proof -
  let ?m = "map_of (map (\<lambda>d. (dc_node d, dc_depth d)) out)"
  have "dc_node d \<noteq> start" "?m (dc_node d) = None"
    using assms(2) by (auto simp: disc_map_def split: if_splits)
  moreover have "map_of (map (\<lambda>d. (dc_node d, dc_depth d)) (out @ [d]))
      = [dc_node d \<mapsto> dc_depth d] ++ ?m" by simp
  ultimately show ?thesis
    unfolding disc_map_def by (intro ext) (auto simp: map_add_def split: option.split)
qed

lemma bfs_inv_visit:
  assumes "bfs_inv w view dir start st c E" "\<exists>es. certified w view dir start es u c exc"
    and "(peer, edge, nx) \<in> set (sorted_nbrs w view dir u exc)"
    and "peer < node_count view \<Longrightarrow> (u, peer) \<in> E" "within (pw_max_depth w) (Suc c)"
  shows "bfs_inv w view dir start (bfs_visit (node_count view) c (peer, edge, nx) st) c
     (if peer < node_count view then E - {(u, peer)} else E)"
proof -
  obtain seen out frontier where st: "st = (seen, out, frontier)" by (cases st)
  obtain r where r: "r \<in> set (neighbors view u dir (pw_filter w))" "peer = er_peer r" "edge = er_edge r"
      "nx = advance_exceptional exc edge"
    using assms(3) by (auto simp: sorted_nbrs_mem)
  note inv = assms(1) [unfolded bfs_inv_def st prod.case]
  show ?thesis
  proof (cases "peer < node_count view")
    case False
    then show ?thesis using assms(1) by (simp add: st bfs_visit_def checked_index_def)
  next
    case lt: True
    have E: "(u, peer) \<in> E" using assms(4) lt by simp
    have succ: "peer \<in> set (view_succ w view dir u)" using r lt by (auto simp: view_succ_def)
    show ?thesis
    proof (cases "seen peer")
      case True
      then have "disc_map start out peer \<noteq> None" using inv lt by simp
      then show ?thesis using inv vg.inv_old [of w view dir start _ _ _ c E peer u] True lt
        by (simp add: st bfs_visit_def checked_index_def bfs_inv_def)
    next
      case False
      then have none: "disc_map start out peer = None" using inv lt by simp
      obtain es where es: "certified w view dir start es u c exc" using assms(2) by blast
      let ?d = "\<lparr>dc_node = peer, dc_depth = Suc c, dc_via = edge, dc_exception_transient = nx\<rparr>"
      have cert: "certified w view dir start (es @ [edge]) peer (Suc c) nx"
        using es r lt by (auto simp: certified_def intro: ew_snoc)
      have map: "disc_map start (out @ [?d]) = (disc_map start out)(peer \<mapsto> Suc c)"
        using disc_map_new [of start out ?d] inv none by simp
      have "vg.inv w view dir start (pw_max_depth w) (disc_map start (out @ [?d]))
          (map (\<lambda>(v, d, x). (v, d)) (frontier @ [(peer, Suc c, nx)])) c (E - {(u, peer)})"
        using vg.inv_new [of w view dir start "pw_max_depth w" "disc_map start out" _ c E u peer]
          inv E succ none assms(5) by (simp add: map)
      moreover have "distinct (start # map dc_node (out @ [?d]))"
        using inv none by (auto simp: disc_map_def map_of_eq_None_iff image_image split: if_splits)
      moreover have "\<forall>v < node_count view. (seen(peer := True)) v \<longleftrightarrow> disc_map start (out @ [?d]) v \<noteq> None"
        using inv by (simp add: map)
      moreover have "\<forall>d \<in> set (out @ [?d]). \<exists>es. es \<noteq> [] \<and> last es = dc_via d \<and>
          certified w view dir start es (dc_node d) (dc_depth d) (dc_exception_transient d)"
        using inv cert by (auto intro: exI [of _ "es @ [edge]"])
      moreover have "\<forall>(v, d, x) \<in> set (frontier @ [(peer, Suc c, nx)]). \<exists>es. certified w view dir start es v d x"
        using inv cert by auto
      ultimately show ?thesis using False lt
        by (simp add: st bfs_visit_def checked_index_def bfs_inv_def)
    qed
  qed
qed

definition pending :: "node_id \<Rightarrow> nat \<Rightarrow> node_id list \<Rightarrow> (nat \<times> nat) set" where
  "pending u n peers = {(u, p) | p. p \<in> set peers \<and> p < n}"

lemma bfs_inv_weaken:
  assumes "bfs_inv w view dir start st c E" "E \<subseteq> E'"
    and "\<And>x y. (x, y) \<in> E' \<Longrightarrow> disc_map start (fst (snd st)) x = Some c"
  shows "bfs_inv w view dir start st c E'"
  using assms vg.inv_weaken [of w view dir start _ _ _ c E E']
  by (auto simp: bfs_inv_def split: prod.splits)

lemma disc_map_visit:
  "bfs_inv w view dir start st c E \<Longrightarrow> disc_map start (fst (snd st)) u = Some d \<Longrightarrow>
   disc_map start (fst (snd (bfs_visit (node_count view) c nb st))) u = Some d"
proof -
  assume inv: "bfs_inv w view dir start st c E" and u: "disc_map start (fst (snd st)) u = Some d"
  obtain seen out frontier where st: "st = (seen, out, frontier)" by (cases st)
  obtain peer edge nx where nb: "nb = (peer, edge, nx)" by (cases nb)
  show ?thesis
  proof (cases "peer < node_count view \<and> \<not> seen peer")
    case True
    then have none: "disc_map start out peer = None" using inv by (auto simp: bfs_inv_def st)
    then have "disc_map start (out @ [\<lparr>dc_node = peer, dc_depth = Suc c, dc_via = edge,
        dc_exception_transient = nx\<rparr>]) = (disc_map start out)(peer \<mapsto> Suc c)"
      using disc_map_new [of start out "\<lparr>dc_node = peer, dc_depth = Suc c, dc_via = edge,
        dc_exception_transient = nx\<rparr>"] inv by (simp add: bfs_inv_def st)
    moreover have "u \<noteq> peer" using u none by (auto simp: st)
    ultimately show ?thesis using True u by (simp add: nb st bfs_visit_def checked_index_def)
  next
    case False
    then show ?thesis using u by (auto simp: nb st bfs_visit_def checked_index_def)
  qed
qed

lemma bfs_inv_fold:
  assumes "bfs_inv w view dir start st c (pending u (node_count view) (map fst nbs))"
    and "disc_map start (fst (snd st)) u = Some c"
    and "\<exists>es. certified w view dir start es u c exc"
    and "set nbs \<subseteq> set (sorted_nbrs w view dir u exc)" "within (pw_max_depth w) (Suc c)"
  shows "bfs_inv w view dir start (fold (bfs_visit (node_count view) c) nbs st) c {}"
  using assms(1,2,4)
proof (induction nbs arbitrary: st)
  case (Cons nb nbs)
  obtain peer edge nx where nb: "nb = (peer, edge, nx)" by (cases nb)
  let ?E = "pending u (node_count view) (map fst (nb # nbs))"
  let ?st = "bfs_visit (node_count view) c nb st"
  have step: "bfs_inv w view dir start ?st c
      (if peer < node_count view then ?E - {(u, peer)} else ?E)"
    using bfs_inv_visit [OF Cons.prems(1) assms(3), of peer edge nx] Cons.prems(3) assms(5)
    by (simp add: nb pending_def)
  have keep: "disc_map start (fst (snd ?st)) u = Some c"
    by (rule disc_map_visit [OF Cons.prems(1,2)])
  have "bfs_inv w view dir start ?st c (pending u (node_count view) (map fst nbs))"
    by (rule bfs_inv_weaken [OF step]) (use keep in \<open>auto simp: pending_def nb split: if_splits\<close>)
  then show ?case using Cons.IH [of ?st] keep Cons.prems(3) by simp
qed (simp add: pending_def)

lemma bfs_inv_pop:
  assumes "bfs_inv w view dir start (seen, out, (u, d, exc) # frontier) c {}"
  shows "bfs_inv w view dir start (seen, out, frontier) d
      (pending u (node_count view) (map fst (sorted_nbrs w view dir u exc)))"
    and "disc_map start out u = Some d" and "\<exists>es. certified w view dir start es u d exc"
proof -
  have E: "pending u (node_count view) (map fst (sorted_nbrs w view dir u exc))
      = {(u, x) | x. x \<in> set (view_succ w view dir u)}"
    by (auto simp: pending_def view_succ_def sorted_nbrs_def image_image)
  have i: "vg.inv w view dir start (pw_max_depth w) (disc_map start out)
      ((u, d) # map (\<lambda>(v, d, x). (v, d)) frontier) c {}"
    using assms by (simp add: bfs_inv_def)
  show "bfs_inv w view dir start (seen, out, frontier) d
      (pending u (node_count view) (map fst (sorted_nbrs w view dir u exc)))"
    using vg.inv_pop [OF i] assms by (simp add: bfs_inv_def E)
  show "disc_map start out u = Some d" by (rule vg.inv_head(1) [OF i])
  show "\<exists>es. certified w view dir start es u d exc" using assms by (simp add: bfs_inv_def)
qed

lemma bfs_inv_skip:
  assumes "bfs_inv w view dir start (seen, out, (u, d, exc) # frontier) c {}"
    and "\<not> within (pw_max_depth w) (Suc d)"
  shows "bfs_inv w view dir start (seen, out, frontier) d {}"
  using assms vg.inv_skip [of w view dir start "pw_max_depth w" "disc_map start out" u d]
  by (auto simp: bfs_inv_def)

lemma bfs_loop_final:
  assumes "bfs_inv w view dir start st c {}"
  shows "\<exists>seen c'. bfs_inv w view dir start (seen, bfs_loop w view dir st, []) c' {}"
  using assms
proof (induction w view dir st arbitrary: c rule: bfs_loop.induct)
  case (2 w view dir seen out node depth exc frontier)
  show ?case
  proof (cases "within_depth w (depth + 1)")
    case False
    then show ?thesis using 2(1) bfs_inv_skip [OF 2(3)] by (simp add: within_depth_within)
  next
    case True
    note pop = bfs_inv_pop [OF 2(3)]
    have "bfs_inv w view dir start
        (fold (bfs_visit (node_count view) depth) (sorted_nbrs w view dir node exc) (seen, out, frontier))
        depth {}"
      by (rule bfs_inv_fold [OF pop(1) _ pop(3)]) (use pop(2) True in \<open>simp_all add: within_depth_within\<close>)
    then show ?thesis using 2(2) True by simp
  qed
qed auto

lemma bfs_inv_init:
  "bfs_inv w view dir start (mark_start start (node_count view), [], [(start, 0, False)]) 0 {}"
proof -
  have "disc_map start [] = [start \<mapsto> 0]" by (simp add: disc_map_def)
  then show ?thesis using vg.inv_init [of w view dir start "pw_max_depth w"]
    by (auto simp: bfs_inv_def mark_start_iff certified_def intro: ew_nil)
qed

text \<open>What the loop returns: depths are shortest distances, nodes are pairwise different.\<close>

lemma bfs_loop_correct:
  fixes w view dir start
  defines "out \<equiv> bfs_loop w view dir (mark_start start (node_count view), [], [(start, 0, False)])"
  shows "distinct (start # map dc_node out)"
    and "(\<exists>x \<in> set out. dc_node x = v \<and> dc_depth x = d) \<longleftrightarrow>
      v \<noteq> start \<and> shortest (view_succ w view dir) start v d \<and> within_depth w d"
    and "x \<in> set out \<Longrightarrow> \<exists>es. es \<noteq> [] \<and> last es = dc_via x \<and>
      certified w view dir start es (dc_node x) (dc_depth x) (dc_exception_transient x)"
proof -
  obtain seen c where inv: "bfs_inv w view dir start (seen, out, []) c {}"
    using bfs_loop_final [OF bfs_inv_init] unfolding out_def by blast
  then have i: "vg.inv w view dir start (pw_max_depth w) (disc_map start out) [] c {}"
    and dist: "distinct (start # map dc_node out)" by (simp_all add: bfs_inv_def)
  show "distinct (start # map dc_node out)" by (rule dist)
  have mem: "disc_map start out v = Some d \<longleftrightarrow> (\<exists>x \<in> set out. dc_node x = v \<and> dc_depth x = d)"
    if "v \<noteq> start"
  proof -
    have "distinct (map fst (map (\<lambda>d. (dc_node d, dc_depth d)) out))" using dist by (simp add: comp_def)
    then have "map_of (map (\<lambda>d. (dc_node d, dc_depth d)) out) v = Some d \<longleftrightarrow>
        (v, d) \<in> set (map (\<lambda>d. (dc_node d, dc_depth d)) out)" by (rule map_of_eq_Some_iff)
    then show ?thesis using that by (auto simp: disc_map_def)
  qed
  have start0: "\<not> shortest (view_succ w view dir) start v 0" if "v \<noteq> start" for v
    using that by (auto simp: shortest_def walk_zero_iff)
  show "(\<exists>x \<in> set out. dc_node x = v \<and> dc_depth x = d) \<longleftrightarrow>
      v \<noteq> start \<and> shortest (view_succ w view dir) start v d \<and> within_depth w d"
  proof (cases "v = start")
    case True
    then show ?thesis using dist by (auto simp: image_iff)
  next
    case False
    then show ?thesis using mem vg.inv_final [OF i, of v d] start0 [OF False]
      by (cases "d = 0") (auto simp: within_depth_within)
  qed
  show "x \<in> set out \<Longrightarrow> \<exists>es. es \<noteq> [] \<and> last es = dc_via x \<and>
      certified w view dir start es (dc_node x) (dc_depth x) (dc_exception_transient x)"
    using inv by (simp add: bfs_inv_def)
qed

lemma set_bfs:
  "set (bfs w view start dir)
     = set (bfs_loop w view dir (mark_start start (node_count view), [], [(start, 0, False)]))"
  by (simp add: bfs_def)

lemma bfs_nodes_distinct: "distinct (start # map dc_node (bfs w view start dir))"
proof -
  have "mset (start # map dc_node (bfs w view start dir)) = mset (start # map dc_node
      (bfs_loop w view dir (mark_start start (node_count view), [], [(start, 0, False)])))"
    by (simp add: bfs_def)
  then show ?thesis using bfs_loop_correct(1) [of start w view dir] by (metis mset_eq_imp_distinct_iff)
qed

lemma bfs_nodes:
  "(\<exists>x \<in> set (bfs w view start dir). dc_node x = v \<and> dc_depth x = d) \<longleftrightarrow>
     v \<noteq> start \<and> shortest (view_succ w view dir) start v d \<and> within_depth w d"
  unfolding set_bfs by (rule bfs_loop_correct(2))

lemma bfs_certified:
  "x \<in> set (bfs w view start dir) \<Longrightarrow> \<exists>es. es \<noteq> [] \<and> last es = dc_via x \<and>
     certified w view dir start es (dc_node x) (dc_depth x) (dc_exception_transient x)"
  unfolding set_bfs by (rule bfs_loop_correct(3))

text \<open>Reachability within the depth limit, as a relation.\<close>

definition reach ::
  "path_walker \<Rightarrow> graph_view \<Rightarrow> direction \<Rightarrow> node_id \<Rightarrow> node_id \<Rightarrow> bool" where
  "reach w view dir start v \<longleftrightarrow>
     v = start \<or> (\<exists>es. edge_walk w view dir start es v \<and> within_depth w (length es))"

lemma reach_shortest:
  "reach w view dir start v \<longleftrightarrow>
     v = start \<or> (\<exists>d. shortest (view_succ w view dir) start v d \<and> within_depth w d)"
proof -
  have "(\<exists>es. edge_walk w view dir start es v \<and> within_depth w (length es)) \<longleftrightarrow>
      (\<exists>k. walk (view_succ w view dir) start k v \<and> within_depth w k)"
    by (auto simp: walk_iff_edge_walk)
  also have "\<dots> \<longleftrightarrow> (\<exists>d. shortest (view_succ w view dir) start v d \<and> within_depth w d)"
    unfolding within_depth_within
    by (metis shortest_def shortest_exists within_mono)
  finally show ?thesis by (simp add: reach_def)
qed

lemma bfs_reach: "insert start (dc_node ` set (bfs w view start dir)) = {v. reach w view dir start v}"
proof (rule set_eqI)
  fix v
  have "v \<in> dc_node ` set (bfs w view start dir) \<longleftrightarrow>
      v \<noteq> start \<and> (\<exists>d. shortest (view_succ w view dir) start v d \<and> within_depth w d)"
    using bfs_nodes [of w view start dir v] by (auto simp: image_iff)
  then show "v \<in> insert start (dc_node ` set (bfs w view start dir)) \<longleftrightarrow> v \<in> {v. reach w view dir start v}"
    by (auto simp: reach_shortest)
qed

lemma reachable_iff: "reachable w view start goal dir \<longleftrightarrow> reach w view dir start goal"
  using bfs_reach [of start w view dir] by (auto simp: reachable_def list_ex_iff)

end
