(* ===== verification/Query_Paths.thy ===== *)
theory Query_Paths
  imports Query_Reach
begin

text \<open>
  Correctness of the other breadth-first operations of \<open>walk.rs\<close>: depth-layered
  reachability, the induced neighborhood, and the shortest witnessing path.
\<close>

subsection \<open>Depth-layered reachability\<close>

lemma layer_push_simps:
  "p < n \<Longrightarrow> \<not> in_next p \<Longrightarrow> layer_push n p (in_next, nxt) = (in_next(p := True), nxt @ [p])"
  "\<not> (p < n \<and> \<not> in_next p) \<Longrightarrow> layer_push n p (in_next, nxt) = (in_next, nxt)"
  by (auto simp: layer_push_def checked_index_def)

lemma layer_push_fold:
  assumes "fold (layer_push n) ps (in_next, nxt) = (in_next', nxt')"
    and "\<forall>v < n. in_next v \<longleftrightarrow> v \<in> set nxt"
  shows "(\<forall>v < n. in_next' v \<longleftrightarrow> v \<in> set nxt') \<and> set nxt' = set nxt \<union> {p \<in> set ps. p < n}"
  using assms
proof (induction ps arbitrary: in_next nxt)
  case (Cons p ps)
  show ?case
  proof (cases "p < n \<and> \<not> in_next p")
    case True
    then have eq: "fold (layer_push n) ps (in_next(p := True), nxt @ [p]) = (in_next', nxt')"
      using Cons.prems(1) by (simp add: layer_push_simps(1))
    show ?thesis using Cons.IH [OF eq] Cons.prems(2) True by auto
  next
    case False
    then have eq: "fold (layer_push n) ps (in_next, nxt) = (in_next', nxt')"
      using Cons.prems(1) by (simp add: layer_push_simps(2))
    show ?thesis using Cons.IH [OF eq Cons.prems(2)] Cons.prems(2) False by auto
  qed
qed auto

lemma layer_next_set: "set (layer_next w view dir frontier) = (\<Union>u \<in> set frontier. set (view_succ w view dir u))"
proof -
  have "set (snd (fold (\<lambda>node st. fold (layer_push (node_count view))
          (sort (map er_peer (neighbors view node dir (pw_filter w)))) st) us (in_next, nxt)))
      = set nxt \<union> (\<Union>u \<in> set us. set (view_succ w view dir u))"
    if "\<forall>v < node_count view. in_next v \<longleftrightarrow> v \<in> set nxt" for us in_next nxt
    using that
  proof (induction us arbitrary: in_next nxt)
    case (Cons u us)
    obtain in_next' nxt' where f: "fold (layer_push (node_count view))
        (sort (map er_peer (neighbors view u dir (pw_filter w)))) (in_next, nxt) = (in_next', nxt')"
      by (cases "fold (layer_push (node_count view))
        (sort (map er_peer (neighbors view u dir (pw_filter w)))) (in_next, nxt)") auto
    note l = layer_push_fold [OF f Cons.prems]
    have "set nxt' = set nxt \<union> set (view_succ w view dir u)" using l by (auto simp: view_succ_def)
    then show ?case using Cons.IH [of in_next' nxt'] l by (auto simp: f)
  qed simp
  from this [of "\<lambda>_. False" "[]" frontier] show ?thesis by (simp add: layer_next_def)
qed

lemma walk_Suc_first: "walk succ u (Suc k) v \<longleftrightarrow> (\<exists>x \<in> set (succ u). walk succ x k v)"
proof (induction k arbitrary: v)
  case 0
  then show ?case by (auto simp: walk_Suc_iff walk_zero_iff)
next
  case (Suc k)
  then show ?case by (subst walk_Suc_iff) (auto simp: walk_Suc_iff [of succ _ k])
qed

lemma exists_layer:
  "(\<exists>j. 1 \<le> j \<and> j \<le> Suc left \<and> m \<le> depth + j \<and> P j) \<longleftrightarrow>
     (m \<le> depth + 1 \<and> P 1) \<or> (\<exists>j. 1 \<le> j \<and> j \<le> left \<and> m \<le> depth + 1 + j \<and> P (Suc j))"
proof
  assume "\<exists>j. 1 \<le> j \<and> j \<le> Suc left \<and> m \<le> depth + j \<and> P j"
  then obtain j where j: "1 \<le> j" "j \<le> Suc left" "m \<le> depth + j" "P j" by blast
  show "(m \<le> depth + 1 \<and> P 1) \<or> (\<exists>j. 1 \<le> j \<and> j \<le> left \<and> m \<le> depth + 1 + j \<and> P (Suc j))"
  proof (cases "j = 1")
    case False
    then obtain i where "j = Suc i" "1 \<le> i" using j(1) by (cases j) auto
    then show ?thesis using j by (intro disjI2 exI [of _ i]) simp
  qed (use j in simp)
next
  assume "(m \<le> depth + 1 \<and> P 1) \<or> (\<exists>j. 1 \<le> j \<and> j \<le> left \<and> m \<le> depth + 1 + j \<and> P (Suc j))"
  then consider "m \<le> depth + 1" "P 1"
    | j where "1 \<le> j" "j \<le> left" "m \<le> depth + 1 + j" "P (Suc j)" by blast
  then show "\<exists>j. 1 \<le> j \<and> j \<le> Suc left \<and> m \<le> depth + j \<and> P j"
  proof cases
    case 1
    then show ?thesis by (intro exI [of _ 1]) simp
  next
    case (2 j)
    then show ?thesis by (intro exI [of _ "Suc j"]) simp
  qed
qed

lemma layer_loop_set:
  "set (layer_loop left w view dir min_depth depth frontier admitted)
     = set admitted \<union> {v. \<exists>j. 1 \<le> j \<and> j \<le> left \<and> min_depth \<le> depth + j \<and>
         (\<exists>u \<in> set frontier. walk (view_succ w view dir) u j v)}"
proof (induction left arbitrary: depth frontier admitted)
  case (Suc left)
  let ?s = "view_succ w view dir"
  show ?case
  proof (cases "frontier = []")
    case False
    define nxt where "nxt = layer_next w view dir frontier"
    have one: "v \<in> set nxt \<longleftrightarrow> (\<exists>u \<in> set frontier. walk ?s u 1 v)" for v
      by (auto simp: nxt_def layer_next_set walk_Suc_first walk_zero_iff)
    have more: "(\<exists>x \<in> set nxt. walk ?s x j v) \<longleftrightarrow> (\<exists>u \<in> set frontier. walk ?s u (Suc j) v)" for j v
      by (auto simp: nxt_def layer_next_set walk_Suc_first)
    have "v \<in> set (layer_loop (Suc left) w view dir min_depth depth frontier admitted) \<longleftrightarrow>
        v \<in> set admitted \<or> (\<exists>j. 1 \<le> j \<and> j \<le> Suc left \<and> min_depth \<le> depth + j \<and>
          (\<exists>u \<in> set frontier. walk ?s u j v))" for v
    proof -
      have "v \<in> set (layer_loop (Suc left) w view dir min_depth depth frontier admitted) \<longleftrightarrow>
          v \<in> set admitted \<or> (min_depth \<le> depth + 1 \<and> v \<in> set nxt) \<or>
          (\<exists>j. 1 \<le> j \<and> j \<le> left \<and> min_depth \<le> depth + 1 + j \<and> (\<exists>x \<in> set nxt. walk ?s x j v))"
        using False by (auto simp: Let_def Suc fold_bs_insert_set nxt_def)
      then show ?thesis unfolding one more exists_layer by blast
    qed
    then show ?thesis by blast
  qed simp
qed auto

lemma layer_loop_sorted:
  "strict_sorted admitted \<Longrightarrow> strict_sorted (layer_loop left w view dir min_depth depth frontier admitted)"
  by (induction left arbitrary: depth frontier admitted) (auto simp: Let_def fold_bs_insert_sorted)

subsection \<open>The induced neighborhood\<close>

lemma hood_push_new:
  "dc_node d < n \<Longrightarrow> \<not> in_set (dc_node d) \<Longrightarrow>
   hood_push n d (in_set, nodes) = (in_set(dc_node d := True), nodes @ [dc_node d])"
  by (auto simp: hood_push_def checked_index_def)

lemma hood_fold:
  assumes "fold (hood_push n) ds (in_set, nodes) = (in_set', nodes')"
    and "distinct (nodes @ map dc_node ds)" "\<forall>d \<in> set ds. dc_node d < n"
    and "\<forall>v < n. in_set v \<longleftrightarrow> v \<in> set nodes"
  shows "nodes' = nodes @ map dc_node ds \<and> (\<forall>v < n. in_set' v \<longleftrightarrow> v \<in> set nodes')"
  using assms
proof (induction ds arbitrary: in_set nodes)
  case (Cons d ds)
  then have "\<not> in_set (dc_node d)" "dc_node d < n" by auto
  then have eq: "fold (hood_push n) ds (in_set(dc_node d := True), nodes @ [dc_node d]) = (in_set', nodes')"
    using Cons.prems(1) by (simp add: hood_push_new)
  from Cons.IH [OF eq] Cons.prems show ?case by auto
qed auto

lemma bfs_node_bound: "x \<in> set (bfs w view start dir) \<Longrightarrow> dc_node x < node_count view"
proof -
  assume x: "x \<in> set (bfs w view start dir)"
  then obtain es where "es \<noteq> []" "edge_walk w view dir start es (dc_node x)"
    using bfs_certified [OF x] by (auto simp: certified_def)
  then show ?thesis by (auto elim: edge_walk.cases)
qed

lemma neighborhood_state:
  obtains in_set where
    "fold (hood_push (node_count view)) (bfs w view anchor dir)
       (mark_start anchor (node_count view), [anchor]) = (in_set, anchor # map dc_node (bfs w view anchor dir))"
    "\<And>v. v < node_count view \<Longrightarrow> in_set v \<longleftrightarrow> reach w view dir anchor v"
proof -
  obtain in_set nodes where f: "fold (hood_push (node_count view)) (bfs w view anchor dir)
       (mark_start anchor (node_count view), [anchor]) = (in_set, nodes)"
    by (cases "fold (hood_push (node_count view)) (bfs w view anchor dir)
       (mark_start anchor (node_count view), [anchor])") auto
  have "nodes = [anchor] @ map dc_node (bfs w view anchor dir) \<and>
      (\<forall>v < node_count view. in_set v \<longleftrightarrow> v \<in> set nodes)"
    by (rule hood_fold [OF f])
      (use bfs_nodes_distinct [of anchor w view dir] bfs_node_bound in \<open>auto simp: mark_start_iff\<close>)
  moreover from this have "set nodes = {v. reach w view dir anchor v}"
    using bfs_reach [of anchor w view dir] by simp
  ultimately show ?thesis using f by (intro that [of in_set]) auto
qed

lemma induced_edges_mem:
  "x \<in> set (induced_edges w view dir in_set u) \<longleftrightarrow>
     (\<exists>r \<in> set (neighbors view u dir (pw_filter w)). er_peer r < node_count view \<and> in_set (er_peer r) \<and>
        x = \<lparr>rc_src = u, rc_dst = er_peer r, rc_edge_id = e_id (er_edge r),
             rc_condition = e_condition (er_edge r), rc_confidence = e_confidence (er_edge r)\<rparr>)"
  by (auto simp: induced_edges_def List.map_filter_def checked_index_def image_iff split: if_splits)

subsection \<open>Shortest path\<close>

text \<open>The sequence a path of edges stands for: the source without edge, then each node entered.\<close>

definition path_seq ::
  "direction \<Rightarrow> node_id \<Rightarrow> edge_record list \<Rightarrow> (node_id \<times> edge_record option) list" where
  "path_seq dir start es = (start, None) # map (\<lambda>e. (to_end dir e, Some e)) es"

definition pred_ok ::
  "path_walker \<Rightarrow> graph_view \<Rightarrow> direction \<Rightarrow> node_id \<Rightarrow> (nat \<Rightarrow> nat option) \<Rightarrow> pred_map \<Rightarrow> bool" where
  "pred_ok w view dir start D pred \<longleftrightarrow>
     pred start = None \<and>
     (\<forall>v d. D v = Some (Suc d) \<longrightarrow> (\<exists>p r. pred v = Some (p, er_edge r) \<and> D p = Some d \<and>
        r \<in> set (neighbors view p dir (pw_filter w)) \<and> er_peer r = v \<and> v < node_count view))"

lemma pred_okE:
  assumes "pred_ok w view dir start D pred" "D v = Some (Suc d)"
  obtains p r where "pred v = Some (p, er_edge r)" "D p = Some d"
    "r \<in> set (neighbors view p dir (pw_filter w))" "er_peer r = v" "v < node_count view"
  using assms unfolding pred_ok_def by blast

lemma reconstruct_loop_path:
  assumes "pred_ok w view dir start D pred" "\<And>v. D v = Some 0 \<Longrightarrow> v = start"
    and "D v = Some d" "d < fuel"
  shows "\<exists>es. edge_walk w view dir start es v \<and> length es = d \<and>
    reconstruct_loop fuel pred v acc = acc @ rev (path_seq dir start es)"
  using assms(3,4)
proof (induction d arbitrary: v fuel acc)
  case 0
  then have "v = start" using assms(2) by simp
  moreover obtain f where "fuel = Suc f" using 0 by (cases fuel) auto
  ultimately show ?case using assms(1)
    by (intro exI [of _ "[]"]) (auto simp: pred_ok_def path_seq_def intro: ew_nil)
next
  case (Suc d)
  obtain f where fuel: "fuel = Suc f" using Suc.prems by (cases fuel) auto
  obtain p r where p: "pred v = Some (p, er_edge r)" "D p = Some d"
      "r \<in> set (neighbors view p dir (pw_filter w))" "er_peer r = v" "v < node_count view"
    by (rule pred_okE [OF assms(1) Suc.prems(1)])
  obtain es where es: "edge_walk w view dir start es p" "length es = d"
      "reconstruct_loop f pred p (acc @ [(v, Some (er_edge r))])
         = (acc @ [(v, Some (er_edge r))]) @ rev (path_seq dir start es)"
    using Suc.IH [OF p(2), of f "acc @ [(v, Some (er_edge r))]"] Suc.prems(2) fuel by auto
  have "to_end dir (er_edge r) = v" using neighbor_edges [OF p(3)] p(4) by simp
  then show ?case using es p fuel ew_snoc [OF es(1) p(3)]
    by (intro exI [of _ "es @ [er_edge r]"]) (simp add: path_seq_def)
qed

definition sp_inv ::
  "path_walker \<Rightarrow> graph_view \<Rightarrow> direction \<Rightarrow> node_id \<Rightarrow> node_id \<Rightarrow> (nat \<Rightarrow> nat option) \<Rightarrow> sp_state
    \<Rightarrow> nat \<Rightarrow> (nat \<times> nat) set \<Rightarrow> bool" where
  "sp_inv w view dir start goal D st c E \<longleftrightarrow> (case st of (pred, seen, frontier) \<Rightarrow>
     vg.inv w view dir start (pw_max_depth w) D frontier c E \<and>
     (\<forall>v < node_count view. seen v \<longleftrightarrow> D v \<noteq> None) \<and>
     pred_ok w view dir start D pred \<and> D goal = None)"

text \<open>What the search promises when it stops at the goal.\<close>

definition sp_found :: "path_walker \<Rightarrow> graph_view \<Rightarrow> direction \<Rightarrow> node_id \<Rightarrow> node_id \<Rightarrow> pred_map \<Rightarrow> bool" where
  "sp_found w view dir start goal pred \<longleftrightarrow>
     (\<exists>D d. pred_ok w view dir start D pred \<and> (\<forall>v. D v = Some 0 \<longrightarrow> v = start) \<and> D goal = Some d \<and>
        d \<le> node_count view \<and> shortest (view_succ w view dir) start goal d \<and> within_depth w d)"

lemma pred_ok_new:
  assumes "pred_ok w view dir start D pred" "D u = Some c" "D v = None" "v \<noteq> start"
    and "r \<in> set (neighbors view u dir (pw_filter w))" "er_peer r = v" "v < node_count view"
  shows "pred_ok w view dir start (D(v \<mapsto> Suc c)) (pred(v \<mapsto> (u, er_edge r)))"
  unfolding pred_ok_def
proof (intro conjI allI impI)
  show "(pred(v \<mapsto> (u, er_edge r))) start = None" using assms(1,4) by (simp add: pred_ok_def)
  fix x d assume x: "(D(v \<mapsto> Suc c)) x = Some (Suc d)"
  show "\<exists>p r'. (pred(v \<mapsto> (u, er_edge r))) x = Some (p, er_edge r') \<and> (D(v \<mapsto> Suc c)) p = Some d \<and>
      r' \<in> set (neighbors view p dir (pw_filter w)) \<and> er_peer r' = x \<and> x < node_count view"
  proof (cases "x = v")
    case True
    then show ?thesis using x assms by (intro exI [of _ u] exI [of _ r]) auto
  next
    case False
    then have "D x = Some (Suc d)" using x by simp
    from pred_okE [OF assms(1) this] obtain p r' where "pred x = Some (p, er_edge r')" "D p = Some d"
        "r' \<in> set (neighbors view p dir (pw_filter w))" "er_peer r' = x" "x < node_count view" .
    then show ?thesis using False assms(3) by (intro exI [of _ p] exI [of _ r']) auto
  qed
qed

lemma sp_visit_correct:
  assumes "sp_inv w view dir start goal D (pred, seen, frontier) c (pending u (node_count view) (map fst nbs))"
    and "D u = Some c" "set nbs \<subseteq> set (sorted_pairs w view dir u)" "within_depth w (Suc c)"
  shows "case sp_visit (node_count view) goal u c nbs (pred, seen, frontier) of
      Inl found \<Rightarrow> sp_found w view dir start goal found
    | Inr st \<Rightarrow> \<exists>D'. sp_inv w view dir start goal D' st c {}"
  using assms(1-3)
proof (induction nbs arbitrary: D pred seen frontier)
  case Nil
  then show ?case by (auto simp: pending_def)
next
  case (Cons nb nbs)
  obtain peer edge where nb: "nb = (peer, edge)" by (cases nb)
  obtain r where r: "r \<in> set (neighbors view u dir (pw_filter w))" "peer = er_peer r" "edge = er_edge r"
    using Cons.prems(3) by (auto simp: nb sorted_pairs_mem)
  let ?E = "pending u (node_count view) (map fst (nb # nbs))"
  let ?E' = "pending u (node_count view) (map fst nbs)"
  have inv: "vg.inv w view dir start (pw_max_depth w) D frontier c ?E"
    and seen: "\<forall>v < node_count view. seen v \<longleftrightarrow> D v \<noteq> None"
    and pred: "pred_ok w view dir start D pred" and goal: "D goal = None"
    using Cons.prems(1) by (simp_all add: sp_inv_def)
  have weaken: "vg.inv w view dir start (pw_max_depth w) D' Q c ?E'"
    if "vg.inv w view dir start (pw_max_depth w) D' Q c (?E - {(u, peer)})" "D' u = Some c" for D' Q
    by (rule vg.inv_weaken [OF that(1)]) (use that(2) in \<open>auto simp: pending_def nb\<close>)
  show ?case
  proof (cases "peer < node_count view")
    case False
    then have "?E = ?E'" by (auto simp: pending_def nb)
    then show ?thesis using Cons.IH [of D pred seen frontier] Cons.prems False
      by (simp add: nb checked_index_def)
  next
    case lt: True
    have E: "(u, peer) \<in> ?E" using lt by (auto simp: pending_def nb)
    have succ: "peer \<in> set (view_succ w view dir u)" using r lt by (auto simp: view_succ_def)
    show ?thesis
    proof (cases "seen peer")
      case True
      then have "sp_inv w view dir start goal D (pred, seen, frontier) c ?E'"
        using weaken [OF vg.inv_old [OF inv, of peer u] Cons.prems(2)] seen lt pred goal
        by (simp add: sp_inv_def)
      then show ?thesis using Cons.IH [of D pred seen frontier] Cons.prems(2,3) True lt
        by (simp add: nb checked_index_def)
    next
      case False
      then have none: "D peer = None" using seen lt by simp
      have lim: "within (pw_max_depth w) (Suc c)" using assms(4) by (simp add: within_depth_within)
      have start: "peer \<noteq> start" using none vg.inv_start [OF inv] by auto
      let ?D = "D(peer \<mapsto> Suc c)" and ?pred = "pred(peer \<mapsto> (u, edge))"
      have new: "vg.inv w view dir start (pw_max_depth w) ?D (frontier @ [(peer, Suc c)]) c (?E - {(u, peer)})"
        by (rule vg.inv_new [OF inv E succ none lim])
      have pred': "pred_ok w view dir start ?D ?pred"
        using pred_ok_new [OF pred Cons.prems(2) none start r(1)] r lt by simp
      show ?thesis
      proof (cases "peer = goal")
        case True
        have "shortest (view_succ w view dir) start goal (Suc c)"
          using vg.inv_new_shortest [OF inv E succ none lim] True by simp
        moreover have "Suc c \<le> node_count view"
          using vg.inv_depth_le [OF new, of peer "Suc c"] by simp
        moreover have "v = start" if "?D v = Some 0" for v
          using vg.inv_sound [OF new that] by (simp add: walk_zero_iff)
        ultimately have "sp_found w view dir start goal ?pred"
          unfolding sp_found_def using pred' True assms(4) by (intro exI [of _ ?D] exI [of _ "Suc c"]) auto
        then show ?thesis using True lt False by (simp add: nb checked_index_def)
      next
        case ng: False
        have u: "?D u = Some c" using Cons.prems(2) none by auto
        have "sp_inv w view dir start goal ?D (?pred, seen(peer := True), frontier @ [(peer, Suc c)]) c ?E'"
          unfolding sp_inv_def prod.case
        proof (intro conjI)
          show "vg.inv w view dir start (pw_max_depth w) ?D (frontier @ [(peer, Suc c)]) c ?E'"
            by (rule weaken [OF new u])
        qed (use seen pred' goal ng in auto)
        from Cons.IH [OF this u] show ?thesis using Cons.prems(3) lt False ng
          by (simp add: nb checked_index_def fun_upd_def)
      qed
    qed
  qed
qed

lemma sp_loop_correct:
  assumes "sp_inv w view dir start goal D st c {}"
  shows "case sp_loop w view dir goal st of
      Some found \<Rightarrow> sp_found w view dir start goal found
    | None \<Rightarrow> \<not> (\<exists>k. walk (view_succ w view dir) start k goal \<and> (k = 0 \<or> within_depth w k))"
  using assms
proof (induction w view dir goal st arbitrary: D c rule: sp_loop.induct)
  case (1 w view dir goal pred seen)
  then have i: "vg.inv w view dir start (pw_max_depth w) D [] c {}" "D goal = None"
    by (simp_all add: sp_inv_def)
  then have "\<not> (\<exists>k. walk (view_succ w view dir) start k goal \<and> (k = 0 \<or> within_depth w k))"
    using vg.inv_final_complete [OF i(1), of _ goal] i(2) by (fastforce simp: within_depth_within)
  then show ?case by simp
next
  case (2 w view dir goal pred seen node depth frontier)
  have i: "vg.inv w view dir start (pw_max_depth w) D ((node, depth) # frontier) c {}"
    using 2(3) by (simp add: sp_inv_def)
  show ?case
  proof (cases "within_depth w (depth + 1)")
    case False
    then have "vg.inv w view dir start (pw_max_depth w) D frontier depth {}"
      using vg.inv_skip [OF i] by (simp add: within_depth_within)
    then have "sp_inv w view dir start goal D (pred, seen, frontier) depth {}"
      using 2(3) by (simp add: sp_inv_def)
    from 2(1) [OF _ this] show ?thesis using False by simp
  next
    case True
    have "pending node (node_count view) (map fst (sorted_pairs w view dir node))
        = {(node, x) | x. x \<in> set (view_succ w view dir node)}"
      by (auto simp: pending_def view_succ_def sorted_pairs_def image_image)
    then have "sp_inv w view dir start goal D (pred, seen, frontier) depth
        (pending node (node_count view) (map fst (sorted_pairs w view dir node)))"
      using vg.inv_pop [OF i] 2(3) by (simp add: sp_inv_def)
    from sp_visit_correct [OF this vg.inv_head(1) [OF i]] True
    have v: "case sp_visit (node_count view) goal node depth (sorted_pairs w view dir node) (pred, seen, frontier) of
        Inl found \<Rightarrow> sp_found w view dir start goal found
      | Inr st \<Rightarrow> \<exists>D'. sp_inv w view dir start goal D' st depth {}" by simp
    show ?thesis
    proof (cases "sp_visit (node_count view) goal node depth (sorted_pairs w view dir node) (pred, seen, frontier)")
      case (Inl found)
      then show ?thesis using v True by simp
    next
      case (Inr st)
      then obtain D' where D': "sp_inv w view dir start goal D' st depth {}" using v by auto
      have "\<not> \<not> within_depth w (depth + 1)" using True by simp
      from 2(2) [OF this Inr D'] show ?thesis using Inr True by simp
    qed
  qed
qed

lemma sp_found_path:
  assumes "sp_found w view dir start goal pred"
  shows "\<exists>es. reconstruct (node_count view) goal pred = path_seq dir start es \<and>
    edge_walk w view dir start es goal \<and> within_depth w (length es) \<and>
    (\<forall>es'. edge_walk w view dir start es' goal \<longrightarrow> length es \<le> length es')"
proof -
  obtain D d where D: "pred_ok w view dir start D pred" "\<And>v. D v = Some 0 \<Longrightarrow> v = start" "D goal = Some d"
      "d \<le> node_count view" "shortest (view_succ w view dir) start goal d" "within_depth w d"
    using assms by (auto simp: sp_found_def)
  obtain es where es: "edge_walk w view dir start es goal" "length es = d"
      "reconstruct_loop (Suc (node_count view)) pred goal [] = [] @ rev (path_seq dir start es)"
    using reconstruct_loop_path [OF D(1-3), of "Suc (node_count view)" "[]"] D(4)
    by (auto simp del: reconstruct_loop.simps)
  have "length es \<le> length es'" if "edge_walk w view dir start es' goal" for es'
    using edge_walk_walk [OF that] D(5) es(2) by (simp add: shortest_def)
  then show ?thesis using es D(6) by (intro exI [of _ es]) (simp add: reconstruct_def del: reconstruct_loop.simps)
qed

lemma shortest_path_start: "sp_inv w view dir start goal [start \<mapsto> 0]
    (\<lambda>_. None, mark_start start (node_count view), [(start, 0)]) 0 {}" if "start \<noteq> goal"
  using that vg.inv_init [of w view dir start "pw_max_depth w"]
  by (auto simp: sp_inv_def mark_start_iff pred_ok_def)

lemma shortest_path_Some:
  assumes "shortest_path w view start goal dir = Some seq"
  shows "\<exists>es. seq = path_seq dir start es \<and> edge_walk w view dir start es goal \<and>
    (es = [] \<or> within_depth w (length es)) \<and>
    (\<forall>es'. edge_walk w view dir start es' goal \<longrightarrow> length es \<le> length es')"
proof (cases "start = goal")
  case True
  then show ?thesis using assms
    by (intro exI [of _ "[]"]) (auto simp: shortest_path_def path_seq_def intro: ew_nil)
next
  case False
  then obtain pred where p: "sp_loop w view dir goal
      (\<lambda>_. None, mark_start start (node_count view), [(start, 0)]) = Some pred"
      "seq = reconstruct (node_count view) goal pred"
    using assms by (auto simp: shortest_path_def)
  then have "sp_found w view dir start goal pred"
    using sp_loop_correct [OF shortest_path_start [OF False, of w view dir]] by simp
  from sp_found_path [OF this] show ?thesis using p(2) by blast
qed

lemma shortest_path_None:
  "shortest_path w view start goal dir = None \<longleftrightarrow> \<not> reach w view dir start goal"
proof (cases "start = goal")
  case True
  then show ?thesis by (simp add: shortest_path_def reach_def)
next
  case False
  let ?loop = "sp_loop w view dir goal (\<lambda>_. None, mark_start start (node_count view), [(start, 0)])"
  note c = sp_loop_correct [OF shortest_path_start [OF False, of w view dir]]
  show ?thesis
  proof (cases ?loop)
    case None
    then have "\<not> reach w view dir start goal"
      using c False by (auto simp: reach_def walk_iff_edge_walk)
    then show ?thesis using None False by (simp add: shortest_path_def)
  next
    case (Some found)
    then have "sp_found w view dir start goal found" using c by simp
    then obtain es where "edge_walk w view dir start es goal" "within_depth w (length es)"
      using sp_found_path by blast
    then have "reach w view dir start goal" by (auto simp: reach_def)
    then show ?thesis using Some False by (simp add: shortest_path_def)
  qed
qed

end
