(* ===== verification/Query_Dfs.thy ===== *)
theory Query_Dfs
  imports Query_Paths
begin

text \<open>
  Path enumeration (\<open>enumerate_paths\<close>, \<open>enumerate_trails\<close> and \<open>dfs\<close> of \<open>walk.rs\<close>). The
  stack, the on-path marks and the used relationships are pushed before a recursive call and
  popped after it, so they are passed by value; the paths found, the step counter and the
  truncation reason are threaded through. The loop over the neighbors is the mutual function
  \<open>dfs_nbrs\<close>. \<open>dfs_all\<close> is the same search without bounds; the bounded search returns a
  prefix of it, and all of it when it reports no truncation.
\<close>

datatype truncation_reason = StepBudget | PathCap

fun truncation_token :: "truncation_reason \<Rightarrow> string" where
  "truncation_token StepBudget = ''step-budget''"
| "truncation_token PathCap = ''path-cap''"

datatype cycle_rule = SimplePath | Trail

record walk_step =
  ws_node :: node_id
  ws_via :: "edge_record option"
  ws_exception_transient :: bool

record path_enumeration =
  pe_paths :: "walk_step list list"
  pe_truncation :: "truncation_reason option"

record dfs_state =
  df_paths :: "walk_step list list"
  df_steps :: nat
  df_truncation :: "truncation_reason option"

text \<open>The relationships and nodes that a path may still use bound the recursion.\<close>

definition dfs_room :: "graph_view \<Rightarrow> nbr list \<Rightarrow> (nat \<Rightarrow> bool) \<Rightarrow> edge_id list \<Rightarrow> nat" where
  "dfs_room view nbs on_path used =
     unmarked (node_count view) on_path +
     card ((e_id ` set (gv_edges view) \<union> (\<lambda>(p, e, x). e_id e) ` set nbs) - set used)"

definition blocked :: "cycle_rule \<Rightarrow> (nat \<Rightarrow> bool) \<Rightarrow> edge_id list \<Rightarrow> node_id \<Rightarrow> edge_record \<Rightarrow> bool" where
  "blocked rule on_path used pi edge =
     (case rule of SimplePath \<Rightarrow> on_path pi | Trail \<Rightarrow> e_id edge \<in> set used)"

definition mark_path :: "cycle_rule \<Rightarrow> (nat \<Rightarrow> bool) \<Rightarrow> node_id \<Rightarrow> nat \<Rightarrow> bool" where
  "mark_path rule on_path pi = (case rule of SimplePath \<Rightarrow> on_path(pi := True) | Trail \<Rightarrow> on_path)"

definition mark_used :: "cycle_rule \<Rightarrow> edge_id list \<Rightarrow> edge_record \<Rightarrow> edge_id list" where
  "mark_used rule used edge = (case rule of SimplePath \<Rightarrow> used | Trail \<Rightarrow> used @ [e_id edge])"

lemma dfs_room_step:
  assumes "checked_index peer (node_count view) = Some pi" "\<not> blocked rule on_path used pi edge"
  shows "dfs_room view [] (mark_path rule on_path pi) (mark_used rule used edge)
    < dfs_room view ((peer, edge, x) # nbs) on_path used"
proof -
  let ?A = "e_id ` set (gv_edges view)" and ?B = "(\<lambda>(p, e, x). e_id e) ` set ((peer, edge, x) # nbs)"
  have pi: "pi < node_count view" using assms(1) by (simp add: checked_index_def split: if_splits)
  have sub: "card (?A - set used) \<le> card ((?A \<union> ?B) - set used)" by (intro card_mono) auto
  show ?thesis
  proof (cases rule)
    case SimplePath
    then have "Suc (unmarked (node_count view) (mark_path rule on_path pi)) = unmarked (node_count view) on_path"
      using unmarked_mark [OF pi] assms(2) by (simp add: blocked_def mark_path_def)
    then show ?thesis using sub SimplePath by (simp add: dfs_room_def mark_used_def)
  next
    case Trail
    then have new: "e_id edge \<notin> set used" using assms(2) by (simp add: blocked_def)
    have "?A - set (used @ [e_id edge]) \<subset> (?A \<union> ?B) - set used" using new by auto
    then have "card (?A - set (used @ [e_id edge])) < card ((?A \<union> ?B) - set used)"
      by (intro psubset_card_mono) auto
    then show ?thesis using Trail by (simp add: dfs_room_def mark_used_def mark_path_def)
  qed
qed

lemma dfs_room_tail: "dfs_room view nbs on_path used \<le> dfs_room view (nb # nbs) on_path used"
  unfolding dfs_room_def by (intro add_left_mono card_mono) auto

lemma dfs_room_nbrs: "dfs_room view (sorted_nbrs w view dir node exc) on_path used = dfs_room view [] on_path used"
proof -
  have "(\<lambda>(p, e, x). e_id e) ` set (sorted_nbrs w view dir node exc) \<subseteq> e_id ` set (gv_edges view)"
    using neighbor_edges by (fastforce simp: sorted_nbrs_def)
  then have "e_id ` set (gv_edges view) \<union> (\<lambda>(p, e, x). e_id e) ` set (sorted_nbrs w view dir node exc)
      = e_id ` set (gv_edges view)" by blast
  then show ?thesis by (simp add: dfs_room_def)
qed

function dfs ::
  "path_walker \<Rightarrow> graph_view \<Rightarrow> node_id \<Rightarrow> direction \<Rightarrow> cycle_rule \<Rightarrow> node_id \<Rightarrow> walk_step list
    \<Rightarrow> (nat \<Rightarrow> bool) \<Rightarrow> edge_id list \<Rightarrow> dfs_state \<Rightarrow> dfs_state"
  and dfs_nbrs ::
  "path_walker \<Rightarrow> graph_view \<Rightarrow> node_id \<Rightarrow> direction \<Rightarrow> cycle_rule \<Rightarrow> nbr list \<Rightarrow> walk_step list
    \<Rightarrow> (nat \<Rightarrow> bool) \<Rightarrow> edge_id list \<Rightarrow> dfs_state \<Rightarrow> dfs_state" where
  "dfs w view goal dir rule node stack on_path used st =
     (let st = st\<lparr>df_steps := df_steps st + 1\<rparr> in
      if df_steps st > step_budget w then st\<lparr>df_truncation := Some StepBudget\<rparr>
      else if length (df_paths st) \<ge> path_cap w then st
      else if node = goal \<and> length stack > 1 then
        (let st = st\<lparr>df_paths := df_paths st @ [stack]\<rparr> in
         if length (df_paths st) \<ge> path_cap w then st\<lparr>df_truncation := Some PathCap\<rparr> else st)
      else if \<not> within_depth w (length stack - 1 + 1) then st
      else dfs_nbrs w view goal dir rule
        (sorted_nbrs w view dir node (ws_exception_transient (last stack))) stack on_path used st)"
| "dfs_nbrs w view goal dir rule [] stack on_path used st = st"
| "dfs_nbrs w view goal dir rule ((peer, edge, next_exc) # nbs) stack on_path used st =
     (case checked_index peer (node_count view) of
        None \<Rightarrow> dfs_nbrs w view goal dir rule nbs stack on_path used st
      | Some pi \<Rightarrow>
          if blocked rule on_path used pi edge then
            dfs_nbrs w view goal dir rule nbs stack on_path used st
          else
            let st = dfs w view goal dir rule peer
                  (stack @ [\<lparr>ws_node = peer, ws_via = Some edge, ws_exception_transient = next_exc\<rparr>])
                  (mark_path rule on_path pi) (mark_used rule used edge) st
            in if df_truncation st = Some StepBudget \<or> length (df_paths st) \<ge> path_cap w then st
               else dfs_nbrs w view goal dir rule nbs stack on_path used st)"
  by pat_completeness auto
termination
  by (relation "measures [
      \<lambda>x. case x of Inl (w, view, goal, dir, rule, node, stack, on_path, used, st) \<Rightarrow> dfs_room view [] on_path used
        | Inr (w, view, goal, dir, rule, nbs, stack, on_path, used, st) \<Rightarrow> dfs_room view nbs on_path used,
      \<lambda>x. case x of Inl _ \<Rightarrow> 1 | Inr _ \<Rightarrow> 0,
      \<lambda>x. case x of Inl _ \<Rightarrow> 0
        | Inr (w, view, goal, dir, rule, nbs, stack, on_path, used, st) \<Rightarrow> length nbs]")
    (auto simp: dfs_room_nbrs dfs_room_step order_le_imp_less_or_eq [OF dfs_room_tail])

declare dfs.simps [simp del]

definition enumerate_dfs ::
  "path_walker \<Rightarrow> graph_view \<Rightarrow> node_id \<Rightarrow> node_id \<Rightarrow> direction \<Rightarrow> cycle_rule \<Rightarrow> path_enumeration" where
  "enumerate_dfs w view start goal dir rule =
     (let st = dfs w view goal dir rule start
            [\<lparr>ws_node = start, ws_via = None, ws_exception_transient = False\<rparr>]
            (mark_start start (node_count view)) []
            \<lparr>df_paths = [], df_steps = 0, df_truncation = None\<rparr>
      in \<lparr>pe_paths = df_paths st, pe_truncation = df_truncation st\<rparr>)"

definition enumerate_paths ::
  "path_walker \<Rightarrow> graph_view \<Rightarrow> node_id \<Rightarrow> node_id \<Rightarrow> direction \<Rightarrow> path_enumeration" where
  "enumerate_paths w view start goal dir = enumerate_dfs w view start goal dir SimplePath"

definition enumerate_trails ::
  "path_walker \<Rightarrow> graph_view \<Rightarrow> node_id \<Rightarrow> node_id \<Rightarrow> direction \<Rightarrow> path_enumeration" where
  "enumerate_trails w view start goal dir = enumerate_dfs w view start goal dir Trail"

subsection \<open>The unbounded search\<close>

function dfs_all ::
  "path_walker \<Rightarrow> graph_view \<Rightarrow> node_id \<Rightarrow> direction \<Rightarrow> cycle_rule \<Rightarrow> node_id \<Rightarrow> walk_step list
    \<Rightarrow> (nat \<Rightarrow> bool) \<Rightarrow> edge_id list \<Rightarrow> walk_step list list"
  and nbrs_all ::
  "path_walker \<Rightarrow> graph_view \<Rightarrow> node_id \<Rightarrow> direction \<Rightarrow> cycle_rule \<Rightarrow> nbr list \<Rightarrow> walk_step list
    \<Rightarrow> (nat \<Rightarrow> bool) \<Rightarrow> edge_id list \<Rightarrow> walk_step list list" where
  "dfs_all w view goal dir rule node stack on_path used =
     (if node = goal \<and> length stack > 1 then [stack]
      else if \<not> within_depth w (length stack - 1 + 1) then []
      else nbrs_all w view goal dir rule
        (sorted_nbrs w view dir node (ws_exception_transient (last stack))) stack on_path used)"
| "nbrs_all w view goal dir rule [] stack on_path used = []"
| "nbrs_all w view goal dir rule ((peer, edge, next_exc) # nbs) stack on_path used =
     (case checked_index peer (node_count view) of
        None \<Rightarrow> nbrs_all w view goal dir rule nbs stack on_path used
      | Some pi \<Rightarrow>
          if blocked rule on_path used pi edge then nbrs_all w view goal dir rule nbs stack on_path used
          else dfs_all w view goal dir rule peer
              (stack @ [\<lparr>ws_node = peer, ws_via = Some edge, ws_exception_transient = next_exc\<rparr>])
              (mark_path rule on_path pi) (mark_used rule used edge)
            @ nbrs_all w view goal dir rule nbs stack on_path used)"
  by pat_completeness auto
termination
  by (relation "measures [
      \<lambda>x. case x of Inl (w, view, goal, dir, rule, node, stack, on_path, used) \<Rightarrow> dfs_room view [] on_path used
        | Inr (w, view, goal, dir, rule, nbs, stack, on_path, used) \<Rightarrow> dfs_room view nbs on_path used,
      \<lambda>x. case x of Inl _ \<Rightarrow> 1 | Inr _ \<Rightarrow> 0,
      \<lambda>x. case x of Inl _ \<Rightarrow> 0
        | Inr (w, view, goal, dir, rule, nbs, stack, on_path, used) \<Rightarrow> length nbs]")
    (auto simp: dfs_room_nbrs dfs_room_step order_le_imp_less_or_eq [OF dfs_room_tail])

declare dfs_all.simps [simp del]

text \<open>
  What a bounded run adds to a state with room left, relative to the unbounded list \<open>all\<close>:
  a prefix of it, everything unless a bound is reported, and never others than the bounds.
\<close>

definition dfs_post :: "path_walker \<Rightarrow> dfs_state \<Rightarrow> walk_step list list \<Rightarrow> dfs_state \<Rightarrow> bool" where
  "dfs_post w st all st' \<longleftrightarrow>
     (\<exists>added. df_paths st' = df_paths st @ added \<and> prefix added all \<and>
        (df_truncation st' = None \<longrightarrow> added = all \<and> length (df_paths st') < path_cap w)) \<and>
     length (df_paths st') \<le> path_cap w \<and>
     (df_truncation st' = Some PathCap \<longrightarrow> length (df_paths st') = path_cap w) \<and>
     df_steps st \<le> df_steps st' \<and> df_steps st' \<le> Suc (step_budget w) \<and>
     (df_truncation st' = Some StepBudget \<longleftrightarrow> df_steps st' > step_budget w)"

definition dfs_pre :: "path_walker \<Rightarrow> dfs_state \<Rightarrow> bool" where
  "dfs_pre w st \<longleftrightarrow> df_truncation st = None \<and> length (df_paths st) < path_cap w \<and> df_steps st \<le> step_budget w"

lemma dfs_post_refl: "dfs_pre w st \<Longrightarrow> dfs_post w st [] st"
  by (auto simp: dfs_pre_def dfs_post_def)

lemma dfs_post_stop:
  assumes "dfs_post w st all st'" "df_truncation st' = Some StepBudget \<or> length (df_paths st') \<ge> path_cap w"
  shows "dfs_post w st (all @ others) st'"
  using assms by (auto simp: dfs_post_def intro: prefix_prefix)

lemma dfs_post_trans:
  assumes "dfs_post w st all st'" "df_truncation st' = None" "dfs_post w st' others st''"
  shows "dfs_post w st (all @ others) st''"
  using assms by (auto simp: dfs_post_def)

lemma dfs_post_pre:
  assumes "dfs_post w st all st'" "\<not> (df_truncation st' = Some StepBudget \<or> length (df_paths st') \<ge> path_cap w)"
  shows "dfs_pre w st'"
proof -
  have "df_truncation st' = None"
    using assms by (cases "df_truncation st'"; cases "the (df_truncation st')") (auto simp: dfs_post_def)
  then show ?thesis using assms by (auto simp: dfs_post_def dfs_pre_def)
qed

lemma dfs_correct:
  "dfs_pre w st \<Longrightarrow> dfs_post w st (dfs_all w view goal dir rule node stack on_path used)
     (dfs w view goal dir rule node stack on_path used st)"
  "dfs_pre w st \<Longrightarrow> dfs_post w st (nbrs_all w view goal dir rule nbs stack on_path used)
     (dfs_nbrs w view goal dir rule nbs stack on_path used st)"
proof (induction w view goal dir rule node stack on_path used st and w view goal dir rule nbs stack on_path used st
    rule: dfs_dfs_nbrs.induct)
  case (1 w view goal dir rule node stack on_path used st)
  let ?st = "st\<lparr>df_steps := df_steps st + 1\<rparr>"
  show ?case
  proof (cases "df_steps ?st > step_budget w")
    case True
    then show ?thesis using "1.prems"
      by (subst dfs.simps) (auto simp: Let_def dfs_pre_def dfs_post_def)
  next
    case steps: False
    have cap: "\<not> length (df_paths ?st) \<ge> path_cap w" using "1.prems" by (simp add: dfs_pre_def)
    show ?thesis
    proof (cases "node = goal \<and> length stack > 1")
      case True
      then show ?thesis using "1.prems" steps cap
        by (subst dfs.simps, subst dfs_all.simps) (auto simp: Let_def dfs_pre_def dfs_post_def)
    next
      case no: False
      show ?thesis
      proof (cases "within_depth w (length stack - 1 + 1)")
        case False
        then show ?thesis using "1.prems" steps cap no
          by (subst dfs.simps, subst dfs_all.simps) (auto simp: Let_def dfs_pre_def dfs_post_def)
      next
        case True
        have pre: "dfs_pre w ?st" using "1.prems" steps by (simp add: dfs_pre_def)
        have "dfs_post w ?st (nbrs_all w view goal dir rule
              (sorted_nbrs w view dir node (ws_exception_transient (last stack))) stack on_path used)
            (dfs_nbrs w view goal dir rule
              (sorted_nbrs w view dir node (ws_exception_transient (last stack))) stack on_path used ?st)"
          by (rule "1.IH" [OF refl steps cap no _ pre]) (use True in simp)
        then show ?thesis using steps cap no True
          by (subst dfs.simps, subst dfs_all.simps) (auto simp: Let_def dfs_post_def)
      qed
    qed
  qed
next
  case (2 w view goal dir rule stack on_path used st)
  then show ?case by (simp add: dfs_post_refl)
next
  case (3 w view goal dir rule peer edge next_exc nbs stack on_path used st)
  show ?case
  proof (cases "checked_index peer (node_count view)")
    case None
    then show ?thesis using 3 by simp
  next
    case (Some pi)
    show ?thesis
    proof (cases "blocked rule on_path used pi edge")
      case True
      then show ?thesis using 3 Some by simp
    next
      case False
      let ?st = "dfs w view goal dir rule peer
          (stack @ [\<lparr>ws_node = peer, ws_via = Some edge, ws_exception_transient = next_exc\<rparr>])
          (mark_path rule on_path pi) (mark_used rule used edge) st"
      have post: "dfs_post w st (dfs_all w view goal dir rule peer
          (stack @ [\<lparr>ws_node = peer, ws_via = Some edge, ws_exception_transient = next_exc\<rparr>])
          (mark_path rule on_path pi) (mark_used rule used edge)) ?st"
        by (rule "3.IH"(3) [OF Some False "3.prems"])
      show ?thesis
      proof (cases "df_truncation ?st = Some StepBudget \<or> length (df_paths ?st) \<ge> path_cap w")
        case True
        then show ?thesis using dfs_post_stop [OF post True] Some False by (simp add: Let_def)
      next
        case go: False
        have pre: "dfs_pre w ?st" by (rule dfs_post_pre [OF post go])
        have "dfs_post w ?st (nbrs_all w view goal dir rule nbs stack on_path used)
            (dfs_nbrs w view goal dir rule nbs stack on_path used ?st)"
          by (rule "3.IH"(4) [OF Some False refl go pre])
        then show ?thesis using dfs_post_trans [OF post] pre Some False go
          by (simp add: Let_def dfs_pre_def)
      qed
    qed
  qed
qed

subsection \<open>What the unbounded search lists\<close>

text \<open>
  A chain of admitted edges, read from its first edge, and the walk steps it stands for: the
  flag of a step is the one that holds after crossing the edge that enters it.
\<close>

fun edge_path :: "path_walker \<Rightarrow> graph_view \<Rightarrow> direction \<Rightarrow> node_id \<Rightarrow> edge_record list \<Rightarrow> node_id \<Rightarrow> bool" where
  "edge_path w view dir u [] v \<longleftrightarrow> u = v"
| "edge_path w view dir u (e # es) v \<longleftrightarrow>
     (\<exists>r \<in> set (neighbors view u dir (pw_filter w)). er_edge r = e \<and> er_peer r < node_count view
        \<and> edge_path w view dir (er_peer r) es v)"

fun walk_steps :: "direction \<Rightarrow> bool \<Rightarrow> edge_record list \<Rightarrow> walk_step list" where
  "walk_steps dir exc [] = []"
| "walk_steps dir exc (e # es) =
     \<lparr>ws_node = to_end dir e, ws_via = Some e, ws_exception_transient = advance_exceptional exc e\<rparr>
     # walk_steps dir (advance_exceptional exc e) es"

lemma edge_path_snoc:
  "edge_path w view dir u (es @ [e]) v \<longleftrightarrow>
     (\<exists>x. edge_path w view dir u es x \<and> (\<exists>r \<in> set (neighbors view x dir (pw_filter w)).
        er_edge r = e \<and> er_peer r = v \<and> v < node_count view))"
  by (induction es arbitrary: u) auto

lemma edge_path_walk: "edge_path w view dir start es v \<longleftrightarrow> edge_walk w view dir start es v"
proof
  show "edge_path w view dir start es v \<Longrightarrow> edge_walk w view dir start es v"
    by (induction es arbitrary: v rule: rev_induct) (auto simp: edge_path_snoc intro: ew_nil ew_snoc)
  show "edge_walk w view dir start es v \<Longrightarrow> edge_path w view dir start es v"
    by (induction rule: edge_walk.induct) (auto simp: edge_path_snoc)
qed

lemma length_walk_steps [simp]: "length (walk_steps dir exc es) = length es"
  by (induction es arbitrary: exc) auto

lemma walk_steps_nodes: "map ws_node (walk_steps dir exc es) = map (to_end dir) es"
  by (induction es arbitrary: exc) auto

lemma walk_steps_vias: "map ws_via (walk_steps dir exc es) = map Some es"
  by (induction es arbitrary: exc) auto

lemma walk_steps_inj: "walk_steps dir exc es = walk_steps dir exc es' \<Longrightarrow> es = es'"
  by (metis walk_steps_vias inj_map_eq_map inj_Some)

text \<open>The anti-looping rule, on the rest of a path.\<close>

fun rule_ok :: "cycle_rule \<Rightarrow> direction \<Rightarrow> (nat \<Rightarrow> bool) \<Rightarrow> edge_id list \<Rightarrow> edge_record list \<Rightarrow> bool" where
  "rule_ok SimplePath dir on_path used es =
     (distinct (map (to_end dir) es) \<and> (\<forall>e \<in> set es. \<not> on_path (to_end dir e)))"
| "rule_ok Trail dir on_path used es = (distinct (map e_id es) \<and> (\<forall>e \<in> set es. e_id e \<notin> set used))"

lemma rule_ok_Cons:
  "rule_ok rule dir on_path used (e # es) \<longleftrightarrow> \<not> blocked rule on_path used (to_end dir e) e \<and>
     rule_ok rule dir (mark_path rule on_path (to_end dir e)) (mark_used rule used e) es"
  by (cases rule) (auto simp: blocked_def mark_path_def mark_used_def image_iff)

text \<open>
  The paths below a node: chains of admitted edges to the goal within the depth limit that
  respect the rule and do not pass through the goal before their end.
\<close>

definition continuation ::
  "path_walker \<Rightarrow> graph_view \<Rightarrow> node_id \<Rightarrow> direction \<Rightarrow> cycle_rule \<Rightarrow> node_id \<Rightarrow> nat
    \<Rightarrow> (nat \<Rightarrow> bool) \<Rightarrow> edge_id list \<Rightarrow> edge_record list \<Rightarrow> bool" where
  "continuation w view goal dir rule node depth on_path used es \<longleftrightarrow>
     edge_path w view dir node es goal \<and> (es = [] \<or> within_depth w (depth + length es)) \<and>
     rule_ok rule dir on_path used es \<and> goal \<notin> set (butlast (map (to_end dir) es)) \<and>
     (if node = goal \<and> 0 < depth then es = [] else es \<noteq> [])"

lemma continuation_Cons:
  assumes "\<not> (node = goal \<and> 0 < depth)" "within_depth w (Suc depth)"
    and "r \<in> set (neighbors view node dir (pw_filter w))" "er_peer r < node_count view"
    and "\<not> blocked rule on_path used (er_peer r) (er_edge r)"
  shows "continuation w view goal dir rule (er_peer r) (Suc depth)
      (mark_path rule on_path (er_peer r)) (mark_used rule used (er_edge r)) es
    \<longrightarrow> continuation w view goal dir rule node depth on_path used (er_edge r # es)"
proof -
  have peer: "er_peer r = to_end dir (er_edge r)" using neighbor_edges [OF assms(3)] by blast
  have "es = [] \<longrightarrow> within_depth w (depth + length (er_edge r # es))" using assms(2) by simp
  then show ?thesis using assms peer
    by (auto simp: continuation_def rule_ok_Cons split: if_splits)
qed

lemma continuation_ConsD:
  assumes "continuation w view goal dir rule node depth on_path used es'"
    and "\<not> (node = goal \<and> 0 < depth)"
  obtains r es where "es' = er_edge r # es" "r \<in> set (neighbors view node dir (pw_filter w))"
    "er_peer r < node_count view" "within_depth w (Suc depth)"
    "\<not> blocked rule on_path used (er_peer r) (er_edge r)"
    "continuation w view goal dir rule (er_peer r) (Suc depth)
      (mark_path rule on_path (er_peer r)) (mark_used rule used (er_edge r)) es"
proof -
  obtain e es where es': "es' = e # es" using assms by (cases es') (auto simp: continuation_def)
  obtain r where r: "r \<in> set (neighbors view node dir (pw_filter w))" "er_edge r = e"
      "er_peer r < node_count view" "edge_path w view dir (er_peer r) es goal"
    using assms(1) by (auto simp: continuation_def es')
  have peer: "er_peer r = to_end dir e" using neighbor_edges [OF r(1)] r(2) by simp
  have depth: "within_depth w (depth + Suc (length es))" using assms(1) by (auto simp: continuation_def es')
  then have "within_depth w (Suc depth)" by (auto simp: within_depth_def split: option.splits)
  moreover have "goal \<notin> set (butlast (map (to_end dir) es))" "er_peer r = goal \<Longrightarrow> es = []"
    using assms(1) peer by (auto simp: continuation_def es' split: if_splits)
  moreover have "er_peer r \<noteq> goal \<Longrightarrow> es \<noteq> []" using r(4) by auto
  ultimately have "continuation w view goal dir rule (er_peer r) (Suc depth)
      (mark_path rule on_path (er_peer r)) (mark_used rule used (er_edge r)) es"
    and "\<not> blocked rule on_path used (er_peer r) (er_edge r)"
    using assms(1) r depth peer by (auto simp: continuation_def es' rule_ok_Cons)
  then show ?thesis using that [of r es] es' r \<open>within_depth w (Suc depth)\<close> by simp
qed

lemma dfs_all_set:
  "stack \<noteq> [] \<Longrightarrow> set (dfs_all w view goal dir rule node stack on_path used) =
     {stack @ walk_steps dir (ws_exception_transient (last stack)) es | es.
        continuation w view goal dir rule node (length stack - 1) on_path used es}"
  "stack \<noteq> [] \<Longrightarrow> set (nbrs_all w view goal dir rule nbs stack on_path used) =
     {stack @ [\<lparr>ws_node = peer, ws_via = Some edge, ws_exception_transient = x\<rparr>] @ walk_steps dir x es
      | peer edge x es. (peer, edge, x) \<in> set nbs \<and> peer < node_count view \<and>
        \<not> blocked rule on_path used peer edge \<and>
        continuation w view goal dir rule peer (length stack)
          (mark_path rule on_path peer) (mark_used rule used edge) es}"
proof (induction w view goal dir rule node stack on_path used and w view goal dir rule nbs stack on_path used
    rule: dfs_all_nbrs_all.induct)
  case (1 w view goal dir rule node stack on_path used)
  let ?d = "length stack - 1" and ?x = "ws_exception_transient (last stack)"
  have len: "length stack = Suc ?d" using "1.prems" by (cases stack) auto
  show ?case
  proof (cases "node = goal \<and> length stack > 1")
    case True
    then have "continuation w view goal dir rule node ?d on_path used es \<longleftrightarrow> es = []" for es
      by (cases rule) (auto simp: continuation_def)
    then show ?thesis using True by (subst dfs_all.simps) auto
  next
    case no: False
    then have ng: "\<not> (node = goal \<and> 0 < ?d)" using len by simp
    show ?thesis
    proof (cases "within_depth w (length stack - 1 + 1)")
      case False
      then have "\<not> continuation w view goal dir rule node ?d on_path used es" for es
        using continuation_ConsD [OF _ ng] by (metis Suc_eq_plus1)
      then show ?thesis using no False by (subst dfs_all.simps) auto
    next
      case True
      have IH: "set (nbrs_all w view goal dir rule (sorted_nbrs w view dir node ?x) stack on_path used) =
         {stack @ [\<lparr>ws_node = peer, ws_via = Some edge, ws_exception_transient = x\<rparr>] @ walk_steps dir x es
          | peer edge x es. (peer, edge, x) \<in> set (sorted_nbrs w view dir node ?x) \<and> peer < node_count view \<and>
            \<not> blocked rule on_path used peer edge \<and>
            continuation w view goal dir rule peer (length stack)
              (mark_path rule on_path peer) (mark_used rule used edge) es}"
        using "1.IH" no True "1.prems" by simp
      have wd: "within_depth w (Suc ?d)" using True by simp
      have "dfs_all w view goal dir rule node stack on_path used
          = nbrs_all w view goal dir rule (sorted_nbrs w view dir node ?x) stack on_path used"
        using no True by (subst dfs_all.simps) (simp only: if_False if_True simp_thms)
      moreover have "p \<in> set (nbrs_all w view goal dir rule (sorted_nbrs w view dir node ?x) stack on_path used)
          \<longleftrightarrow> (\<exists>es. p = stack @ walk_steps dir ?x es \<and> continuation w view goal dir rule node ?d on_path used es)" for p
      proof
        assume "p \<in> set (nbrs_all w view goal dir rule (sorted_nbrs w view dir node ?x) stack on_path used)"
        then obtain r es where r: "r \<in> set (neighbors view node dir (pw_filter w))" "er_peer r < node_count view"
            "\<not> blocked rule on_path used (er_peer r) (er_edge r)"
            "continuation w view goal dir rule (er_peer r) (Suc ?d)
              (mark_path rule on_path (er_peer r)) (mark_used rule used (er_edge r)) es"
            "p = stack @ [\<lparr>ws_node = er_peer r, ws_via = Some (er_edge r),
              ws_exception_transient = advance_exceptional ?x (er_edge r)\<rparr>]
              @ walk_steps dir (advance_exceptional ?x (er_edge r)) es"
          unfolding IH using len by (auto simp: sorted_nbrs_mem)
        have "continuation w view goal dir rule node ?d on_path used (er_edge r # es)"
          using continuation_Cons [OF ng wd r(1-3)] r(4) by blast
        moreover have "er_peer r = to_end dir (er_edge r)" using neighbor_edges [OF r(1)] by blast
        ultimately show "\<exists>es. p = stack @ walk_steps dir ?x es \<and> continuation w view goal dir rule node ?d on_path used es"
          using r(5) by (intro exI [of _ "er_edge r # es"]) simp
      next
        assume "\<exists>es. p = stack @ walk_steps dir ?x es \<and> continuation w view goal dir rule node ?d on_path used es"
        then obtain es' where p: "p = stack @ walk_steps dir ?x es'"
            and c: "continuation w view goal dir rule node ?d on_path used es'" by blast
        obtain r es where r: "es' = er_edge r # es" "r \<in> set (neighbors view node dir (pw_filter w))"
            "er_peer r < node_count view" "\<not> blocked rule on_path used (er_peer r) (er_edge r)"
            "continuation w view goal dir rule (er_peer r) (Suc ?d)
              (mark_path rule on_path (er_peer r)) (mark_used rule used (er_edge r)) es"
          by (rule continuation_ConsD [OF c ng])
        have "to_end dir (er_edge r) = er_peer r" using neighbor_edges [OF r(2)] by simp
        then show "p \<in> set (nbrs_all w view goal dir rule (sorted_nbrs w view dir node ?x) stack on_path used)"
          unfolding IH using p r len by (auto simp: sorted_nbrs_mem intro!: exI [of _ es])
      qed
      ultimately show ?thesis by (auto simp only: mem_Collect_eq)
    qed
  qed
next
  case (2 w view goal dir rule stack on_path used)
  then show ?case by simp
next
  case (3 w view goal dir rule peer edge x nbs stack on_path used)
  show ?case
  proof (cases "peer < node_count view \<and> \<not> blocked rule on_path used peer edge")
    case False
    have "nbrs_all w view goal dir rule ((peer, edge, x) # nbs) stack on_path used
        = nbrs_all w view goal dir rule nbs stack on_path used"
      using False by (auto simp: checked_index_def)
    moreover have "set (nbrs_all w view goal dir rule nbs stack on_path used) =
     {stack @ [\<lparr>ws_node = peer, ws_via = Some edge, ws_exception_transient = x\<rparr>] @ walk_steps dir x es
      | peer edge x es. (peer, edge, x) \<in> set nbs \<and> peer < node_count view \<and>
        \<not> blocked rule on_path used peer edge \<and>
        continuation w view goal dir rule peer (length stack)
          (mark_path rule on_path peer) (mark_used rule used edge) es}"
      using False 3 by (cases "peer < node_count view") (simp_all add: checked_index_def)
    ultimately show ?thesis using False by auto
  next
    case True
    then have ci: "checked_index peer (node_count view) = Some peer" by (simp add: checked_index_def)
    let ?s = "\<lparr>ws_node = peer, ws_via = Some edge, ws_exception_transient = x\<rparr>"
    have d: "set (dfs_all w view goal dir rule peer (stack @ [?s]) (mark_path rule on_path peer)
          (mark_used rule used edge)) = {stack @ [?s] @ walk_steps dir x es | es.
        continuation w view goal dir rule peer (length stack) (mark_path rule on_path peer)
          (mark_used rule used edge) es}"
      using "3.IH"(3) [OF ci] True by simp
    have n: "set (nbrs_all w view goal dir rule nbs stack on_path used) =
     {stack @ [\<lparr>ws_node = peer, ws_via = Some edge, ws_exception_transient = x\<rparr>] @ walk_steps dir x es
      | peer edge x es. (peer, edge, x) \<in> set nbs \<and> peer < node_count view \<and>
        \<not> blocked rule on_path used peer edge \<and>
        continuation w view goal dir rule peer (length stack)
          (mark_path rule on_path peer) (mark_used rule used edge) es}"
      using "3.IH"(4) [OF ci] True "3.prems" by simp
    have eq: "nbrs_all w view goal dir rule ((peer, edge, x) # nbs) stack on_path used
        = dfs_all w view goal dir rule peer (stack @ [?s]) (mark_path rule on_path peer) (mark_used rule used edge)
          @ nbrs_all w view goal dir rule nbs stack on_path used"
      using True by (simp add: checked_index_def)
    show ?thesis unfolding eq set_append d n using True by auto
  qed
qed

subsection \<open>The enumerations\<close>

definition start_step :: "node_id \<Rightarrow> walk_step" where
  "start_step start = \<lparr>ws_node = start, ws_via = None, ws_exception_transient = False\<rparr>"

definition all_paths ::
  "path_walker \<Rightarrow> graph_view \<Rightarrow> node_id \<Rightarrow> node_id \<Rightarrow> direction \<Rightarrow> cycle_rule \<Rightarrow> walk_step list list" where
  "all_paths w view start goal dir rule =
     dfs_all w view goal dir rule start [start_step start] (mark_start start (node_count view)) []"

lemma enumerate_dfs_post:
  assumes "0 < path_cap w"
  shows "\<exists>st. enumerate_dfs w view start goal dir rule = \<lparr>pe_paths = df_paths st, pe_truncation = df_truncation st\<rparr>
    \<and> dfs_post w \<lparr>df_paths = [], df_steps = 0, df_truncation = None\<rparr> (all_paths w view start goal dir rule) st"
proof -
  let ?init = "\<lparr>df_paths = [], df_steps = 0, df_truncation = None\<rparr>"
  have pre: "dfs_pre w ?init" using assms by (simp add: dfs_pre_def)
  show ?thesis
    unfolding enumerate_dfs_def Let_def all_paths_def start_step_def
    by (rule exI, rule conjI, rule refl, rule dfs_correct(1) [OF pre])
qed

lemma edge_path_bound: "edge_path w view dir u es v \<Longrightarrow> e \<in> set es \<Longrightarrow> to_end dir e < node_count view"
  by (induction es arbitrary: u) (auto dest: neighbor_edges)

lemma edge_path_last: "edge_path w view dir u es v \<Longrightarrow> es \<noteq> [] \<Longrightarrow> last (map (to_end dir) es) = v"
  by (induction es arbitrary: u) (auto dest: neighbor_edges)

lemma distinct_butlast_last: "distinct xs \<Longrightarrow> xs \<noteq> [] \<Longrightarrow> last xs \<notin> set (butlast xs)"
  by (metis append_butlast_last_id distinct_append disjoint_iff list.set_intros(1))

lemma all_simple_paths_set:
  "set (all_paths w view start goal dir SimplePath) =
     {start_step start # walk_steps dir False es | es.
        es \<noteq> [] \<and> edge_path w view dir start es goal \<and> within_depth w (length es) \<and>
        distinct (start # map (to_end dir) es)}"
proof -
  have "continuation w view goal dir SimplePath start 0 (mark_start start (node_count view)) [] es \<longleftrightarrow>
      es \<noteq> [] \<and> edge_path w view dir start es goal \<and> within_depth w (length es) \<and>
        distinct (start # map (to_end dir) es)" for es
  proof (cases "es \<noteq> [] \<and> edge_path w view dir start es goal")
    case True
    then have path: "edge_path w view dir start es goal" and ne: "es \<noteq> []" by simp_all
    have "mark_start start (node_count view) (to_end dir e) \<longleftrightarrow> to_end dir e = start" if "e \<in> set es" for e
      by (rule mark_start_iff) (rule edge_path_bound [OF path that])
    then have "(\<forall>e \<in> set es. \<not> mark_start start (node_count view) (to_end dir e)) \<longleftrightarrow>
        start \<notin> to_end dir ` set es" by auto
    moreover have "distinct (map (to_end dir) es) \<Longrightarrow> goal \<notin> set (butlast (map (to_end dir) es))"
      using distinct_butlast_last [of "map (to_end dir) es"] edge_path_last [OF path ne] ne by simp
    ultimately show ?thesis using True by (auto simp: continuation_def)
  qed (auto simp: continuation_def)
  then show ?thesis
    using dfs_all_set(1) [of "[start_step start]" w view goal dir SimplePath start
        "mark_start start (node_count view)" "[]"]
    by (simp add: all_paths_def start_step_def)
qed

lemma all_trails_set:
  "set (all_paths w view start goal dir Trail) =
     {start_step start # walk_steps dir False es | es.
        es \<noteq> [] \<and> edge_path w view dir start es goal \<and> within_depth w (length es) \<and>
        distinct (map e_id es) \<and> goal \<notin> set (butlast (map (to_end dir) es))}"
proof -
  have "continuation w view goal dir Trail start 0 (mark_start start (node_count view)) [] es \<longleftrightarrow>
      es \<noteq> [] \<and> edge_path w view dir start es goal \<and> within_depth w (length es) \<and>
        distinct (map e_id es) \<and> goal \<notin> set (butlast (map (to_end dir) es))" for es
    by (auto simp: continuation_def)
  then show ?thesis
    using dfs_all_set(1) [of "[start_step start]" w view goal dir Trail start
        "mark_start start (node_count view)" "[]"]
    by (simp add: all_paths_def start_step_def)
qed

end
