(* ===== verification/Query_Engine.thy ===== *)
theory Query_Engine
  imports Query_Dfs
begin

text \<open>
  The query functions of \<open>engine.rs\<close> over the walks, with the result records of
  \<open>result.rs\<close>: \<open>callers\<close>, \<open>callees\<close>, \<open>reaches\<close>, \<open>paths\<close>, \<open>unused\<close> and \<open>explain\<close>. The
  weakest confidence on a discovery path comes from a second search, which is shown to run in
  lockstep with \<open>bfs\<close>.
\<close>

subsection \<open>Result records\<close>

record neighbor_result =
  nr_node :: node_record
  nr_depth :: nat
  nr_via :: edge_record
  nr_condition :: edge_condition
  nr_confidence :: confidence
  nr_min_confidence_on_path :: confidence
  nr_exception_transient :: bool

record path_step =
  ps_node :: node_record
  ps_via :: "edge_record option"
  ps_exception_transient :: bool

record path_result =
  pt_steps :: "path_step list"
  pt_min_confidence :: confidence
  pt_crosses_exceptional :: bool

definition hops :: "path_result \<Rightarrow> nat" where
  "hops p = length (pt_steps p) - 1"

definition node_ids :: "path_result \<Rightarrow> node_id list" where
  "node_ids p = map (\<lambda>s. n_id (ps_node s)) (pt_steps p)"

record path_set =
  pset_paths :: "path_result list"
  pset_truncation :: "truncation_reason option"

definition path_set_truncated :: "path_set \<Rightarrow> bool" where
  "path_set_truncated s = (pset_truncation s \<noteq> None)"

record explain_edge =
  xe_incoming :: bool
  xe_peer :: node_record
  xe_condition :: edge_condition
  xe_confidence :: confidence
  xe_tier :: tier
  xe_rule :: string
  xe_resolution_source :: "string option"
  xe_site :: "span option"

record explanation =
  xp_node :: node_record
  xp_edges :: "explain_edge list"
  xp_callers_count :: nat
  xp_callees_count :: nat

record reach_result =
  rr_from :: node_id
  rr_to :: node_id
  rr_reachable :: bool
  rr_witness :: "path_result option"

subsection \<open>Neighbor walks\<close>

type_synonym wc_state = "(nat \<Rightarrow> confidence option) \<times> (nat \<Rightarrow> bool) \<times> (node_id \<times> nat) list"

definition wc_nbrs :: "path_walker \<Rightarrow> graph_view \<Rightarrow> direction \<Rightarrow> node_id \<Rightarrow> (node_id \<times> confidence \<times> edge_id) list" where
  "wc_nbrs w view dir node =
     sort_key (\<lambda>(peer, _, eid). (peer, eid))
       (map (\<lambda>er. (er_peer er, e_confidence (er_edge er), e_id (er_edge er)))
          (neighbors view node dir (pw_filter w)))"

definition wc_visit ::
  "nat \<Rightarrow> nat \<Rightarrow> confidence \<Rightarrow> node_id \<times> confidence \<times> edge_id \<Rightarrow> wc_state \<Rightarrow> wc_state" where
  "wc_visit n depth carried nb st =
     (case nb of (peer, edge_conf, _) \<Rightarrow> case st of (best, seen, frontier) \<Rightarrow>
        if peer \<ge> n \<or> seen peer then (best, seen, frontier)
        else (best(peer := Some (weakest carried edge_conf)), seen(peer := True),
              frontier @ [(peer, depth + 1)]))"

definition wc_carried :: "node_id \<Rightarrow> node_id \<Rightarrow> (nat \<Rightarrow> confidence option) \<Rightarrow> confidence" where
  "wc_carried anchor node best =
     (if node = anchor then Certain else case best node of Some c \<Rightarrow> c | None \<Rightarrow> Certain)"

lemma wc_visit_measure:
  assumes "fold (wc_visit n depth carried) nbs (best, seen, frontier) = (best', seen', frontier')"
  shows "length frontier' + unmarked n seen' = length frontier + unmarked n seen"
  using assms
proof (induction nbs arbitrary: best seen frontier)
  case (Cons nb nbs)
  obtain peer conf eid where nb: "nb = (peer, conf, eid)" by (cases nb) auto
  show ?case
  proof (cases "peer < n \<and> \<not> seen peer")
    case True
    then have "wc_visit n depth carried nb (best, seen, frontier) = (best(peer := Some (weakest carried conf)),
        seen(peer := True), frontier @ [(peer, depth + 1)])"
      by (simp add: nb wc_visit_def)
    with Cons.prems have "fold (wc_visit n depth carried) nbs (best(peer := Some (weakest carried conf)),
        seen(peer := True), frontier @ [(peer, depth + 1)]) = (best', seen', frontier')" by simp
    from Cons.IH [OF this] show ?thesis using unmarked_mark [of peer n seen] True
      by (simp only: fun_upd_def) simp
  next
    case False
    then have "wc_visit n depth carried nb (best, seen, frontier) = (best, seen, frontier)"
      by (auto simp: nb wc_visit_def)
    then show ?thesis using Cons by simp
  qed
qed simp

function wc_loop ::
  "path_walker \<Rightarrow> graph_view \<Rightarrow> direction \<Rightarrow> node_id \<Rightarrow> wc_state \<Rightarrow> nat \<Rightarrow> confidence option" where
  "wc_loop w view dir anchor (best, seen, []) = best"
| "wc_loop w view dir anchor (best, seen, (node, depth) # frontier) =
     (if (case pw_max_depth w of Some d \<Rightarrow> depth + 1 > d | None \<Rightarrow> False)
      then wc_loop w view dir anchor (best, seen, frontier)
      else wc_loop w view dir anchor
        (fold (wc_visit (node_count view) depth (wc_carried anchor node best)) (wc_nbrs w view dir node)
          (best, seen, frontier)))"
  by pat_completeness auto
termination
proof (relation "measure (\<lambda>(w, view, dir, anchor, best, seen, frontier).
    length frontier + unmarked (node_count view) seen)", goal_cases)
  case (3 w view dir anchor best seen node depth frontier)
  then show ?case
    using wc_visit_measure [of "node_count view" depth "wc_carried anchor node best"
        "wc_nbrs w view dir node" best seen frontier]
    by (auto split: prod.split)
qed auto

definition weakest_confidence_to ::
  "graph_view \<Rightarrow> node_id \<Rightarrow> path_walker \<Rightarrow> direction \<Rightarrow> nat \<Rightarrow> confidence option" where
  "weakest_confidence_to view anchor w dir =
     wc_loop w view dir anchor
       (\<lambda>_. None, if anchor < node_count view then (\<lambda>_. False)(anchor := True) else (\<lambda>_. False), [(anchor, 0)])"

definition result_key :: "node_record \<Rightarrow> string \<times> nat \<times> string" where
  "result_key node = (n_file node, n_line_start node, n_fqn node)"

definition neighbor_walk :: "graph_view \<Rightarrow> node_id \<Rightarrow> path_walker \<Rightarrow> direction \<Rightarrow> neighbor_result list" where
  "neighbor_walk view anchor w dir =
     (let discovered = bfs w view anchor dir;
          min_conf = weakest_confidence_to view anchor w dir
      in sort_key (\<lambda>r. result_key (nr_node r)) (map (\<lambda>d.
          let confidence = e_confidence (dc_via d)
          in \<lparr>nr_node = view_node view (dc_node d), nr_depth = dc_depth d, nr_via = dc_via d,
              nr_condition = e_condition (dc_via d), nr_confidence = confidence,
              nr_min_confidence_on_path =
                (case (if dc_node d < node_count view then min_conf (dc_node d) else None) of
                   Some c \<Rightarrow> c | None \<Rightarrow> confidence),
              nr_exception_transient = dc_exception_transient d\<rparr>) discovered))"

definition callers :: "graph_view \<Rightarrow> node_id \<Rightarrow> path_walker \<Rightarrow> neighbor_result list" where
  "callers view target w = neighbor_walk view target w Backward"

definition callees :: "graph_view \<Rightarrow> node_id \<Rightarrow> path_walker \<Rightarrow> neighbor_result list" where
  "callees view source w = neighbor_walk view source w Forward"

definition reaches_all :: "graph_view \<Rightarrow> node_id \<Rightarrow> path_walker \<Rightarrow> neighbor_result list" where
  "reaches_all view from_node w = callees view from_node w"

subsection \<open>Reachability and paths\<close>

fun seq_to_walksteps :: "bool \<Rightarrow> (node_id \<times> edge_record option) list \<Rightarrow> walk_step list" where
  "seq_to_walksteps exc [] = []"
| "seq_to_walksteps exc ((node, via) # seq) =
     (let exc = (case via of
          Some edge \<Rightarrow>
            if e_kind edge = Spawns then False
            else if is_exceptional (e_condition edge) then True else exc
        | None \<Rightarrow> exc)
      in \<lparr>ws_node = node, ws_via = via, ws_exception_transient = exc\<rparr> # seq_to_walksteps exc seq)"

definition build_path_result :: "graph_view \<Rightarrow> walk_step list \<Rightarrow> path_result" where
  "build_path_result view steps =
     \<lparr>pt_steps = map (\<lambda>s. \<lparr>ps_node = view_node view (ws_node s), ps_via = ws_via s,
          ps_exception_transient = ws_exception_transient s\<rparr>) steps,
      pt_min_confidence = foldl (\<lambda>c s. case ws_via s of Some edge \<Rightarrow> weakest c (e_confidence edge) | None \<Rightarrow> c)
          Certain steps,
      pt_crosses_exceptional = list_ex ws_exception_transient steps\<rparr>"

definition reaches :: "graph_view \<Rightarrow> node_id \<Rightarrow> node_id \<Rightarrow> path_walker \<Rightarrow> reach_result" where
  "reaches view from_node to_node w =
     (case shortest_path w view from_node to_node Forward of
        Some seq \<Rightarrow> \<lparr>rr_from = from_node, rr_to = to_node, rr_reachable = True,
          rr_witness = Some (build_path_result view (seq_to_walksteps False seq))\<rparr>
      | None \<Rightarrow> \<lparr>rr_from = from_node, rr_to = to_node, rr_reachable = False, rr_witness = None\<rparr>)"

definition path_key :: "path_result \<Rightarrow> nat \<times> nat list" where
  "path_key p = (hops p, node_ids p)"

definition paths :: "graph_view \<Rightarrow> node_id \<Rightarrow> node_id \<Rightarrow> path_walker \<Rightarrow> path_set" where
  "paths view from_node to_node w =
     (let raw = enumerate_paths w view from_node to_node Forward
      in \<lparr>pset_paths = sort_key path_key (map (build_path_result view) (pe_paths raw)),
          pset_truncation = pe_truncation raw\<rparr>)"

subsection \<open>Unused symbols\<close>

definition entrypoint_roots :: "graph_view \<Rightarrow> node_id list \<Rightarrow> node_id list" where
  "entrypoint_roots view entrypoints =
     (if entrypoints = [] then map n_id (filter (\<lambda>node. n_entrypoint_kind node \<noteq> None) (gv_nodes view))
      else entrypoints)"

definition mark_root :: "graph_view \<Rightarrow> path_walker \<Rightarrow> node_id \<Rightarrow> (nat \<Rightarrow> bool) \<Rightarrow> nat \<Rightarrow> bool" where
  "mark_root view w root marks =
     (let n = node_count view;
          marks = (if root < n then marks(root := True) else marks)
      in fold (\<lambda>d marks. if dc_node d < n then marks(dc_node d := True) else marks)
           (bfs w view root Forward) marks)"

definition unused :: "graph_view \<Rightarrow> node_id list \<Rightarrow> symbol_kind list \<Rightarrow> path_walker \<Rightarrow> node_record list" where
  "unused view entrypoints kinds w =
     (let marks = fold (mark_root view w) (entrypoint_roots view entrypoints) (\<lambda>_. False)
      in sort_key result_key
          (filter (\<lambda>node. kinds = [] \<or> n_kind node \<in> set kinds)
            (filter (\<lambda>node. \<not> marks (n_id node)) (gv_nodes view))))"

subsection \<open>Explain\<close>

definition explain_edge_of :: "bool \<Rightarrow> neighbor_result \<Rightarrow> node_record \<Rightarrow> explain_edge" where
  "explain_edge_of incoming r call_site_node =
     (let tier = e_tier (nr_via r) in
      \<lparr>xe_incoming = incoming, xe_peer = nr_node r, xe_condition = nr_condition r,
       xe_confidence = nr_confidence r, xe_tier = tier, xe_rule = e_rule (nr_via r),
       xe_resolution_source = (if tier = Scip then Some ''scip'' else None),
       xe_site = (if is_call (e_kind (nr_via r)) then
          Some \<lparr>sp_file = n_file call_site_node, sp_line = n_line_start call_site_node, sp_col = None\<rparr>
        else None)\<rparr>)"

definition explain :: "graph_view \<Rightarrow> node_id \<Rightarrow> explanation option" where
  "explain view anchor =
     (case try_node view anchor of
        None \<Rightarrow> None
      | Some node \<Rightarrow>
          let depth1 = \<lparr>pw_filter = edge_filter_calls, pw_max_depth = Some 1, pw_max_paths = None,
                pw_max_steps = None\<rparr>;
              incoming = callers view anchor depth1;
              outgoing = callees view anchor depth1
          in Some \<lparr>xp_node = node,
                xp_edges = map (\<lambda>r. explain_edge_of True r (nr_node r)) incoming
                  @ map (\<lambda>r. explain_edge_of False r node) outgoing,
                xp_callers_count = length incoming, xp_callees_count = length outgoing\<rparr>)"

definition resolve_anchor :: "graph_view \<Rightarrow> symbol_pattern \<Rightarrow> resolve_error + node_id" where
  "resolve_anchor view pat = resolve_one view pat"

subsection \<open>The two searches run in lockstep\<close>

lemma insort_key_map: "insort_key f (g x) (map g xs) = map g (insort_key (\<lambda>x. f (g x)) x xs)"
  by (induction xs) simp_all

lemma sort_key_map: "sort_key f (map g xs) = map g (sort_key (\<lambda>x. f (g x)) xs)"
  by (induction xs) (simp_all add: insort_key_map)

definition sorted_refs :: "path_walker \<Rightarrow> graph_view \<Rightarrow> direction \<Rightarrow> node_id \<Rightarrow> edge_ref list" where
  "sorted_refs w view dir node =
     sort_key (\<lambda>r. (er_peer r, e_id (er_edge r))) (neighbors view node dir (pw_filter w))"

lemma sorted_nbrs_refs:
  "sorted_nbrs w view dir node exc
     = map (\<lambda>er. (er_peer er, er_edge er, advance_exceptional exc (er_edge er))) (sorted_refs w view dir node)"
  by (simp add: sorted_nbrs_def sorted_refs_def sort_key_map)

lemma wc_nbrs_refs:
  "wc_nbrs w view dir node
     = map (\<lambda>er. (er_peer er, e_confidence (er_edge er), e_id (er_edge er))) (sorted_refs w view dir node)"
  by (simp add: wc_nbrs_def sorted_refs_def sort_key_map)

definition weakest_of :: "edge_record list \<Rightarrow> confidence" where
  "weakest_of es = foldl weakest Certain (map e_confidence es)"

text \<open>
  The same edge path explains the flag that \<open>bfs\<close> carries and the confidence that the second
  search carries.
\<close>

definition explained ::
  "path_walker \<Rightarrow> graph_view \<Rightarrow> direction \<Rightarrow> node_id \<Rightarrow> (nat \<Rightarrow> confidence option)
    \<Rightarrow> edge_record list \<Rightarrow> node_id \<Rightarrow> nat \<Rightarrow> bool \<Rightarrow> bool" where
  "explained w view dir start best es v d x \<longleftrightarrow>
     certified w view dir start es v d x \<and> wc_carried start v best = weakest_of es"

definition lockstep :: "path_walker \<Rightarrow> graph_view \<Rightarrow> direction \<Rightarrow> node_id \<Rightarrow> bfs_state \<Rightarrow> wc_state \<Rightarrow> bool" where
  "lockstep w view dir start bst wst \<longleftrightarrow>
     (case bst of (seen, out, frontier) \<Rightarrow> case wst of (best, seen', frontier') \<Rightarrow>
        seen' = seen \<and> frontier' = map (\<lambda>(v, d, x). (v, d)) frontier \<and>
        (start < node_count view \<longrightarrow> seen start) \<and>
        (\<forall>(v, d, x) \<in> set frontier. (v = start \<or> seen v) \<and> (\<exists>es. explained w view dir start best es v d x)) \<and>
        (\<forall>d \<in> set out. dc_node d \<noteq> start \<and> seen (dc_node d) \<and> (\<exists>es. es \<noteq> [] \<and> last es = dc_via d \<and>
            best (dc_node d) = Some (weakest_of es) \<and>
            certified w view dir start es (dc_node d) (dc_depth d) (dc_exception_transient d))))"

lemma lockstep_visit:
  assumes "lockstep w view dir start (seen, out, frontier) (best, seen, frontier')"
    and "r \<in> set (neighbors view u dir (pw_filter w))"
    and "certified w view dir start es u c exc" "carried = weakest_of es"
  shows "lockstep w view dir start
     (bfs_visit (node_count view) c (er_peer r, er_edge r, advance_exceptional exc (er_edge r)) (seen, out, frontier))
     (wc_visit (node_count view) c carried (er_peer r, e_confidence (er_edge r), e_id (er_edge r))
        (best, seen, frontier'))"
proof (cases "er_peer r < node_count view \<and> \<not> seen (er_peer r)")
  case False
  then show ?thesis using assms(1) by (auto simp: bfs_visit_def wc_visit_def checked_index_def)
next
  case True
  let ?p = "er_peer r" and ?es = "es @ [er_edge r]"
  let ?best = "best(?p := Some (weakest carried (e_confidence (er_edge r))))"
  have st: "?p \<noteq> start" using assms(1) True by (auto simp: lockstep_def)
  have cert: "certified w view dir start ?es ?p (Suc c) (advance_exceptional exc (er_edge r))"
    using assms(2,3) True by (auto simp: certified_def intro: ew_snoc)
  have weak: "weakest carried (e_confidence (er_edge r)) = weakest_of ?es"
    using assms(4) by (simp add: weakest_of_def)
  have keep: "explained w view dir start ?best es' v d x"
    if "explained w view dir start best es' v d x" "v = start \<or> seen v" for es' v d x
    using that True by (auto simp: explained_def wc_carried_def)
  have new: "explained w view dir start ?best ?es ?p (Suc c) (advance_exceptional exc (er_edge r))"
    using cert weak st by (simp add: explained_def wc_carried_def)
  have fr: "(v = start \<or> (seen(?p := True)) v) \<and> (\<exists>es. explained w view dir start ?best es v d x)"
    if "(v, d, x) \<in> set (frontier @ [(?p, Suc c, advance_exceptional exc (er_edge r))])" for v d x
  proof (cases "(v, d, x) \<in> set frontier")
    case True
    then obtain es' where e: "explained w view dir start best es' v d x" and sv: "v = start \<or> seen v"
      using assms(1) by (fastforce simp: lockstep_def)
    then have "v = start \<or> (seen(?p := True)) v" by auto
    with keep [OF e sv] show ?thesis by blast
  next
    case False
    then have "v = ?p" "d = Suc c" "x = advance_exceptional exc (er_edge r)" using that by auto
    then show ?thesis using new by auto
  qed
  let ?d = "\<lparr>dc_node = ?p, dc_depth = Suc c, dc_via = er_edge r,
      dc_exception_transient = advance_exceptional exc (er_edge r)\<rparr>"
  have out: "dc_node d \<noteq> start \<and> (seen(?p := True)) (dc_node d) \<and> (\<exists>es. es \<noteq> [] \<and> last es = dc_via d \<and>
      ?best (dc_node d) = Some (weakest_of es) \<and>
      certified w view dir start es (dc_node d) (dc_depth d) (dc_exception_transient d))"
    if "d \<in> set (out @ [?d])" for d
  proof (cases "d = ?d")
    case True
    then show ?thesis using cert weak st by (auto intro!: exI [of _ ?es])
  next
    case False
    then have d: "d \<in> set out" using that by simp
    then have "seen (dc_node d)" using assms(1) by (auto simp: lockstep_def)
    then have "dc_node d \<noteq> ?p" using True by auto
    then show ?thesis using assms(1) d by (auto simp: lockstep_def)
  qed
  show ?thesis using True assms(1) fr out
    by (auto simp: bfs_visit_def wc_visit_def checked_index_def lockstep_def)
qed

lemma lockstep_fold:
  assumes "lockstep w view dir start (seen, out, frontier) (best, seen, frontier')"
    and "set rs \<subseteq> set (neighbors view u dir (pw_filter w))"
    and "certified w view dir start es u c exc" "carried = weakest_of es"
  shows "lockstep w view dir start
     (fold (bfs_visit (node_count view) c)
        (map (\<lambda>er. (er_peer er, er_edge er, advance_exceptional exc (er_edge er))) rs) (seen, out, frontier))
     (fold (wc_visit (node_count view) c carried)
        (map (\<lambda>er. (er_peer er, e_confidence (er_edge er), e_id (er_edge er))) rs) (best, seen, frontier'))"
  using assms(1,2)
proof (induction rs arbitrary: seen out frontier best frontier')
  case (Cons r rs)
  obtain seen1 out1 fr1 where b: "bfs_visit (node_count view) c
      (er_peer r, er_edge r, advance_exceptional exc (er_edge r)) (seen, out, frontier) = (seen1, out1, fr1)"
    by (rule prod_cases3)
  obtain best1 seen2 fr2 where c: "wc_visit (node_count view) c carried
      (er_peer r, e_confidence (er_edge r), e_id (er_edge r)) (best, seen, frontier') = (best1, seen2, fr2)"
    by (rule prod_cases3)
  have step: "lockstep w view dir start (seen1, out1, fr1) (best1, seen2, fr2)"
    using lockstep_visit [OF Cons.prems(1) _ assms(3,4), of r] Cons.prems(2) b c by simp
  then have "seen2 = seen1" by (simp add: lockstep_def)
  then show ?case using Cons.IH [of seen1 out1 fr1 best1 fr2] step Cons.prems(2) b c by simp
qed simp

lemma set_sorted_refs: "set (sorted_refs w view dir node) = set (neighbors view node dir (pw_filter w))"
  by (simp add: sorted_refs_def)

lemma lockstep_loop:
  assumes "lockstep w view dir start st (best, seen, frontier')"
  shows "d \<in> set (bfs_loop w view dir st) \<Longrightarrow> \<exists>es. es \<noteq> [] \<and> last es = dc_via d \<and>
     wc_loop w view dir start (best, seen, frontier') (dc_node d) = Some (weakest_of es) \<and>
     certified w view dir start es (dc_node d) (dc_depth d) (dc_exception_transient d)"
  using assms
proof (induction w view dir st arbitrary: best seen frontier' rule: bfs_loop.induct)
  case (1 w view dir seen0 out)
  then show ?case by (auto simp: lockstep_def)
next
  case (2 w view dir seen0 out node depth exc frontier)
  then have eqs: "seen = seen0" "frontier' = (node, depth) # map (\<lambda>(v, d, x). (v, d)) frontier"
    by (auto simp: lockstep_def)
  have lim: "(case pw_max_depth w of Some d \<Rightarrow> depth + 1 > d | None \<Rightarrow> False) \<longleftrightarrow> \<not> within_depth w (depth + 1)"
    by (auto simp: within_depth_def split: option.split)
  have pop: "lockstep w view dir start (seen0, out, frontier) (best, seen0, map (\<lambda>(v, d, x). (v, d)) frontier)"
    using 2(4) by (auto simp: lockstep_def)
  obtain es where es: "certified w view dir start es node depth exc" "wc_carried start node best = weakest_of es"
    using 2(4) by (auto simp: lockstep_def explained_def)
  show ?case
  proof (cases "within_depth w (depth + 1)")
    case False
    then show ?thesis using 2(1) [OF _ _ pop] 2(3) eqs lim by simp
  next
    case True
    let ?b = "fold (bfs_visit (node_count view) depth) (sorted_nbrs w view dir node exc) (seen0, out, frontier)"
    let ?c = "fold (wc_visit (node_count view) depth (wc_carried start node best)) (wc_nbrs w view dir node)
        (best, seen0, map (\<lambda>(v, d, x). (v, d)) frontier)"
    have "lockstep w view dir start ?b ?c"
      unfolding sorted_nbrs_refs wc_nbrs_refs
      by (rule lockstep_fold [OF pop _ es]) (simp add: set_sorted_refs)
    moreover obtain best1 seen1 fr1 where c: "?c = (best1, seen1, fr1)" by (rule prod_cases3)
    ultimately have "\<exists>es. es \<noteq> [] \<and> last es = dc_via d \<and>
        wc_loop w view dir start ?c (dc_node d) = Some (weakest_of es) \<and>
        certified w view dir start es (dc_node d) (dc_depth d) (dc_exception_transient d)"
      using 2(2) [of best1 seen1 fr1] True 2(3) by simp
    then show ?thesis using True eqs lim by simp
  qed
qed

lemma lockstep_init:
  "lockstep w view dir start (mark_start start (node_count view), [], [(start, 0, False)])
     ((\<lambda>_. None), if start < node_count view then (\<lambda>_. False)(start := True) else (\<lambda>_. False), [(start, 0)])"
proof -
  have "mark_start start (node_count view)
      = (if start < node_count view then (\<lambda>_. False)(start := True) else (\<lambda>_. False))"
    by (simp add: mark_start_def checked_index_def)
  moreover have "explained w view dir start (\<lambda>_. None) [] start 0 False"
    by (simp add: explained_def certified_def wc_carried_def weakest_of_def ew_nil)
  ultimately show ?thesis by (auto simp: lockstep_def)
qed

lemma bfs_explained:
  assumes "d \<in> set (bfs w view start dir)"
  shows "\<exists>es. es \<noteq> [] \<and> last es = dc_via d \<and>
     weakest_confidence_to view start w dir (dc_node d) = Some (weakest_of es) \<and>
     certified w view dir start es (dc_node d) (dc_depth d) (dc_exception_transient d)"
  using lockstep_loop [OF lockstep_init, of d w view dir start] assms
  by (simp add: set_bfs weakest_confidence_to_def)

subsection \<open>Rows of a neighbor walk\<close>

definition row_of :: "graph_view \<Rightarrow> edge_record list \<Rightarrow> node_id \<Rightarrow> neighbor_result" where
  "row_of view es v =
     \<lparr>nr_node = view_node view v, nr_depth = length es, nr_via = last es,
      nr_condition = e_condition (last es), nr_confidence = e_confidence (last es),
      nr_min_confidence_on_path = weakest_of es,
      nr_exception_transient = foldl advance_exceptional False es\<rparr>"

definition shortest_edge_path ::
  "path_walker \<Rightarrow> graph_view \<Rightarrow> direction \<Rightarrow> node_id \<Rightarrow> edge_record list \<Rightarrow> node_id \<Rightarrow> bool" where
  "shortest_edge_path w view dir start es v \<longleftrightarrow> edge_walk w view dir start es v \<and>
     (\<forall>es'. edge_walk w view dir start es' v \<longrightarrow> length es \<le> length es')"

lemma shortest_edge_path_iff:
  "shortest_edge_path w view dir start es v \<longleftrightarrow>
     edge_walk w view dir start es v \<and> shortest (view_succ w view dir) start v (length es)"
  by (auto simp: shortest_edge_path_def shortest_def walk_iff_edge_walk)

definition row_for :: "graph_view \<Rightarrow> node_id \<Rightarrow> path_walker \<Rightarrow> direction \<Rightarrow> discovered \<Rightarrow> neighbor_result" where
  "row_for view anchor w dir d =
     (let confidence = e_confidence (dc_via d)
      in \<lparr>nr_node = view_node view (dc_node d), nr_depth = dc_depth d, nr_via = dc_via d,
          nr_condition = e_condition (dc_via d), nr_confidence = confidence,
          nr_min_confidence_on_path =
            (case (if dc_node d < node_count view then weakest_confidence_to view anchor w dir (dc_node d)
                   else None) of Some c \<Rightarrow> c | None \<Rightarrow> confidence),
          nr_exception_transient = dc_exception_transient d\<rparr>)"

lemma neighbor_walk_rows:
  "neighbor_walk view anchor w dir =
     sort_key (\<lambda>r. result_key (nr_node r)) (map (row_for view anchor w dir) (bfs w view anchor dir))"
  by (simp add: neighbor_walk_def row_for_def [abs_def] Let_def)

lemma row_for_eq:
  assumes "d \<in> set (bfs w view anchor dir)"
  shows "\<exists>es. es \<noteq> [] \<and> shortest_edge_path w view dir anchor es (dc_node d) \<and> within_depth w (length es) \<and>
    row_for view anchor w dir d = row_of view es (dc_node d)"
proof -
  obtain es where es: "es \<noteq> []" "last es = dc_via d"
      "weakest_confidence_to view anchor w dir (dc_node d) = Some (weakest_of es)"
      "certified w view dir anchor es (dc_node d) (dc_depth d) (dc_exception_transient d)"
    using bfs_explained [OF assms] by blast
  have "shortest (view_succ w view dir) anchor (dc_node d) (dc_depth d)" "within_depth w (dc_depth d)"
    using bfs_nodes [of w view anchor dir "dc_node d" "dc_depth d"] assms by blast+
  then show ?thesis using es bfs_node_bound [OF assms]
    by (intro exI [of _ es]) (auto simp: certified_def shortest_edge_path_iff row_for_def row_of_def Let_def)
qed

lemma neighbor_walk_sound:
  assumes "r \<in> set (neighbor_walk view anchor w dir)"
  shows "\<exists>v es. v \<noteq> anchor \<and> v < node_count view \<and> es \<noteq> [] \<and> shortest_edge_path w view dir anchor es v \<and>
    within_depth w (length es) \<and> r = row_of view es v"
proof -
  obtain d where d: "d \<in> set (bfs w view anchor dir)" "r = row_for view anchor w dir d"
    using assms by (auto simp: neighbor_walk_rows)
  have "dc_node d \<noteq> anchor" using bfs_nodes_distinct [of anchor w view dir] d(1) by auto
  then show ?thesis using row_for_eq [OF d(1)] bfs_node_bound [OF d(1)] d(2) by metis
qed

lemma neighbor_walk_complete:
  assumes "reach w view dir anchor v" "v \<noteq> anchor"
  shows "\<exists>r \<in> set (neighbor_walk view anchor w dir). nr_node r = view_node view v"
proof -
  obtain d where d: "d \<in> set (bfs w view anchor dir)" "dc_node d = v"
    using bfs_reach [of anchor w view dir] assms by blast
  then show ?thesis by (auto simp: neighbor_walk_rows row_for_def Let_def)
qed

lemma neighbor_walk_length: "length (neighbor_walk view anchor w dir) = length (bfs w view anchor dir)"
  by (simp add: neighbor_walk_rows)

lemma length_bfs: "length (bfs w view anchor dir) = card ({v. reach w view dir anchor v} - {anchor})"
proof -
  have "{v. reach w view dir anchor v} - {anchor} = set (map dc_node (bfs w view anchor dir))"
    using bfs_reach [of anchor w view dir] bfs_nodes_distinct [of anchor w view dir] by auto
  then show ?thesis using bfs_nodes_distinct [of anchor w view dir] distinct_card by fastforce
qed

subsection \<open>Marks of the used set\<close>

lemma mark_fold:
  "fold (\<lambda>d marks. if dc_node d < n then marks(dc_node d := True) else marks) ds marks v \<longleftrightarrow>
     marks v \<or> (v < n \<and> v \<in> dc_node ` set ds)"
  by (induction ds arbitrary: marks) auto

lemma mark_root_iff:
  assumes "v < node_count view"
  shows "mark_root view w root marks v \<longleftrightarrow> marks v \<or> reach w view Forward root v"
  using assms bfs_reach [of root w view Forward]
  by (auto simp: mark_root_def Let_def mark_fold)

lemma mark_roots_iff:
  assumes "v < node_count view"
  shows "fold (mark_root view w) roots marks v \<longleftrightarrow> marks v \<or> (\<exists>root \<in> set roots. reach w view Forward root v)"
  using assms by (induction roots arbitrary: marks) (auto simp: mark_root_iff)

subsection \<open>Witness of reachability\<close>

lemma seq_to_walksteps_path:
  "seq_to_walksteps exc (map (\<lambda>e. (to_end dir e, Some e)) es) = walk_steps dir exc es"
  by (induction es arbitrary: exc) (auto simp: advance_exceptional_def Let_def)

lemma seq_to_walksteps_path_seq:
  "seq_to_walksteps False (path_seq dir start es) = start_step start # walk_steps dir False es"
  by (simp add: path_seq_def seq_to_walksteps_path start_step_def)

lemma foldl_walk_steps:
  "foldl (\<lambda>c s. case ws_via s of Some edge \<Rightarrow> weakest c (e_confidence edge) | None \<Rightarrow> c) c (walk_steps dir exc es)
     = foldl weakest c (map e_confidence es)"
  by (induction es arbitrary: c exc) auto

lemma build_path_result_min:
  "pt_min_confidence (build_path_result view (start_step start # walk_steps dir False es)) = weakest_of es"
  by (simp add: build_path_result_def start_step_def foldl_walk_steps weakest_of_def)

end
