(* ===== verification/Core_Properties.thy ===== *)
theory Core_Properties
  imports Core_Pattern
begin

text \<open>
  What the core library promises to the rest of the program: canonical label sets, the
  order-independent choice of an edge condition, identities that keep distinct sites apart,
  the canonical orders, and the meaning of symbol patterns. Each property rests on the lemmas
  of the component's theory, and each with hypotheses is applied to a concrete input.
\<close>

subsection \<open>Label sets\<close>

text \<open>
  A set of cut markers built by inserting markers one at a time into an empty set is the
  sorted, deduplicated vector of those markers: it equals what \<open>from_iter_canonical\<close>
  builds, in whatever order and however often the markers are inserted, and \<open>contains\<close>
  (a binary search) answers membership exactly.
\<close>

theorem cut_markers_canonical:
  "fold cut_markers_insert ms cut_markers_new = cut_markers_from_iter_canonical ms \<and>
   (set ms = set ms' \<longrightarrow> cut_markers_from_iter_canonical ms = cut_markers_from_iter_canonical ms') \<and>
   (cut_markers_contains (cut_markers_from_iter_canonical ms) m \<longleftrightarrow> m \<in> set ms)"
proof -
  have build: "fold cut_markers_insert xs cut_markers_new = cut_markers_from_iter_canonical xs" for xs
    using cuts.members_build [of xs]
    by (simp add: cut_markers_iter_def cut_markers_from_iter_canonical_def)
  then show ?thesis using cuts.build_canonical [of ms ms'] cuts.has_build [of ms m] by metis
qed

lemma cut_markers_canonical_witness:
  "cut_markers_from_iter_canonical [Dynamic, Reflective, Dynamic] = [Reflective, Dynamic] \<and>
   cut_markers_from_iter_canonical [Reflective, Dynamic] = [Reflective, Dynamic]"
proof -
  have "cut_markers_from_iter_canonical [Dynamic, Reflective, Dynamic]
      = cut_markers_from_iter_canonical [Reflective, Dynamic]"
    using cut_markers_canonical [of "[Dynamic, Reflective, Dynamic]" "[Reflective, Dynamic]" Dynamic] by auto
  moreover have "cut_markers_from_iter_canonical [Reflective, Dynamic] = [Reflective, Dynamic]"
    by (simp add: cut_markers_from_iter_canonical_def less_eq_cut_marker_def)
  ultimately show ?thesis by simp
qed

text \<open>
  An effect set built from a sequence of effects is the bit set of exactly those effects:
  membership is exact, iteration lists them once each in discriminant order, \<open>len\<close> (a
  population count) is their number, no bit outside the label bits is ever set, and the
  union of two such sets is the set of the concatenated sequences.
\<close>

theorem effect_set_canonical:
  "(effect_set_contains (effect_set_from_iter_canonical xs) e \<longleftrightarrow> e \<in> set xs) \<and>
   effect_set_iter (effect_set_from_iter_canonical xs) = remdups_adj (sort xs) \<and>
   effect_set_len (effect_set_from_iter_canonical xs) = card (set xs) \<and>
   effect_set_wf (effect_set_from_iter_canonical xs) \<and>
   effect_set_union (effect_set_from_iter_canonical xs) (effect_set_from_iter_canonical ys)
     = effect_set_from_iter_canonical (xs @ ys)"
proof -
  have wf: "effect_set_wf (effect_set_from_iter_canonical zs)" for zs
    unfolding effect_set_from_iter_canonical_def by (intro effects.wf_fold effects.wf_emp)
  have mem: "effect_set_contains (effect_set_from_iter_canonical zs) x \<longleftrightarrow> x \<in> set zs" for zs x
    unfolding effect_set_from_iter_canonical_def by (rule effects.has_build)
  have iter: "effect_set_iter (effect_set_from_iter_canonical xs) = remdups_adj (sort xs)"
    unfolding effect_set_from_iter_canonical_def by (rule effects.members_build)
  have "effect_set_len (effect_set_from_iter_canonical xs)
      = card {i \<in> {..<16}. bit (effect_set_from_iter_canonical xs) i}"
    by (simp add: effect_set_len_def distinct_length_filter Int_def conj_commute lessThan_def)
  also have "{i \<in> {..<16}. bit (effect_set_from_iter_canonical xs) i} = effect_disc ` set xs"
    using wf [of xs] mem [of xs] effect_disc_less effect_disc_surj
    by (fastforce simp: effect_set_wf_def effect_set_contains_bit)
  also have "card \<dots> = card (set xs)" by (intro card_image inj_onI) (rule effect_disc_inj)
  finally have len: "effect_set_len (effect_set_from_iter_canonical xs) = card (set xs)" .
  have "effect_set_union (effect_set_from_iter_canonical xs) (effect_set_from_iter_canonical ys)
      = effect_set_from_iter_canonical (xs @ ys)"
    by (rule effects.eqI) (auto simp: effect_set_wf_union wf set_effect_set_iter effect_set_union_contains mem)
  with wf mem iter len show ?thesis by blast
qed

subsection \<open>Edge conditions\<close>

text \<open>
  \<open>EdgeCondition::resolve\<close> returns, of the conditions that apply to an edge, the one of
  highest precedence (and \<open>Always\<close> when none applies), so the answer does not depend on the
  order or the multiplicity in which the conditions are discovered, and an edge is
  exceptional exactly when one of its conditions is.
\<close>

theorem condition_resolve_highest:
  "condition_resolve cs \<in> insert Always (set cs) \<and>
   precedence (condition_resolve cs) = Max (insert 0 (precedence ` set cs)) \<and>
   (set cs = set ds \<longrightarrow> condition_resolve cs = condition_resolve ds) \<and>
   (is_exceptional (condition_resolve cs) \<longleftrightarrow> list_ex is_exceptional cs)"
proof -
  have rank: "precedence (condition_resolve cs) = Max (insert 0 (precedence ` set cs))"
    using cond.rank_foldl [of Always cs] by (simp add: condition_resolve_def)
  have "is_exceptional (condition_resolve cs) \<longleftrightarrow> list_ex is_exceptional cs"
    by (simp add: is_exceptional_rank rank Max_ge_iff list_ex_iff)
  then show ?thesis
    using rank cond.foldl_in [of Always cs] cond.foldl_set_cong [of cs ds Always]
    by (simp add: condition_resolve_def)
qed

lemma condition_resolve_highest_witness:
  "condition_resolve [Loop, Conditional, Loop] = condition_resolve [Conditional, Loop]"
  using condition_resolve_highest [of "[Loop, Conditional, Loop]" "[Conditional, Loop]"] by auto

subsection \<open>Identities\<close>

lemma fold_le_bytes_low:
  assumes "foldl fold_byte h (to_le_bytes a) = foldl fold_byte h (to_le_bytes b)"
    and "unat a div 256 = unat b div 256"
  shows "a = b"
proof -
  have drop: "drop_bit 8 a = drop_bit 8 b"
    unfolding word_unat_eq_iff unat_drop_bit_eq using assms(2) by (simp add: drop_bit_eq_div)
  have high: "to_le_bytes a ! j = to_le_bytes b ! j" if "j < 4" "j \<noteq> 0" for j
  proof -
    note j = that
    obtain k where k: "j = Suc k" using j(2) by (cases j) auto
    have "drop_bit (8 * j) c = drop_bit (8 * k) (drop_bit 8 c)" for c :: u32
      by (simp add: k add.commute)
    then have eq: "drop_bit (8 * j) a = drop_bit (8 * j) b" using drop by metis
    have "to_le_bytes c ! j = ucast (drop_bit (8 * j) c)" for c
      using j(1) by (auto simp: to_le_bytes_def nth_Cons' eval_nat_numeral less_Suc_eq)
    with eq show ?thesis by simp
  qed
  have "to_le_bytes a = to_le_bytes b"
    by (rule hash_single_byte [of _ _ 0 h]) (use assms(1) high in auto)
  then show ?thesis by (rule to_le_bytes_inj)
qed

text \<open>
  Two calls of one caller in one file never share a \<open>SiteId\<close> when their positions differ
  only in the low byte of the column or only in the low byte of the line: a collision of the
  64-bit hash cannot come from one byte of the folded stream.
\<close>

theorem site_id_separates_positions:
  assumes "site_id_derive caller file line col = site_id_derive caller file line' col'"
    and "line = line' \<and> unat col div 256 = unat col' div 256
      \<or> col = col' \<and> unat line div 256 = unat line' div 256"
  shows "line = line' \<and> col = col'"
proof -
  let ?h = "foldl fold_byte fnv_offset (str_stream caller @ str_stream file)"
  have eq: "foldl fold_byte (foldl fold_byte ?h (to_le_bytes line)) (to_le_bytes col)
      = foldl fold_byte (foldl fold_byte ?h (to_le_bytes line')) (to_le_bytes col')"
    using assms(1) by (simp add: site_id_stream site_stream_def)
  from assms(2) show ?thesis
  proof
    assume a: "line = line' \<and> unat col div 256 = unat col' div 256"
    then show ?thesis using eq fold_le_bytes_low by blast
  next
    assume a: "col = col' \<and> unat line div 256 = unat line' div 256"
    then have "foldl fold_byte ?h (to_le_bytes line) = foldl fold_byte ?h (to_le_bytes line')"
      using eq foldl_fold_byte_inj by blast
    then show ?thesis using a fold_le_bytes_low by blast
  qed
qed

lemma site_id_separates_positions_witness:
  "site_id_derive ''app::main'' ''main.rs'' 12 5 \<noteq> site_id_derive ''app::main'' ''main.rs'' 12 9"
  using site_id_separates_positions [of "''app::main''" "''main.rs''" 12 5 12 9] by auto

text \<open>
  A \<open>SiteId\<close> and a \<open>ValueId\<close> depend on their tuple only through a byte stream that
  determines the tuple: the length prefixes keep adjacent strings apart, so two different
  call sites, or two different SSA definitions, feed different streams to the hash (names
  shorter than 4 GiB).
\<close>

theorem identity_streams_injective:
  assumes "length c < 2 ^ 32" "length c' < 2 ^ 32" "length f < 2 ^ 32" "length f' < 2 ^ 32"
  shows "site_id_derive c f l k = foldl fold_byte fnv_offset (site_stream c f l k) \<and>
    value_id_derive c f v l k = foldl fold_byte fnv_offset (value_stream c f v l k) \<and>
    (site_stream c f l k = site_stream c' f' l' k' \<longrightarrow> (c, f, l, k) = (c', f', l', k')) \<and>
    (value_stream c f v l k = value_stream c' f' v' l' k' \<longrightarrow> (c, f, v, l, k) = (c', f', v', l', k'))"
proof (intro conjI impI)
  show "(c, f, l, k) = (c', f', l', k')" if "site_stream c f l k = site_stream c' f' l' k'"
    using site_stream_inj assms that by blast
  show "(c, f, v, l, k) = (c', f', v', l', k')" if eq: "value_stream c f v l k = value_stream c' f' v' l' k'"
  proof -
    have "c = c' \<and> str_stream f @ to_le_bytes v @ to_le_bytes l @ to_le_bytes k
        = str_stream f' @ to_le_bytes v' @ to_le_bytes l' @ to_le_bytes k'"
      using assms eq by (intro str_stream_append_inj) (auto simp: value_stream_def)
    moreover from this have "f = f' \<and> to_le_bytes v @ to_le_bytes l @ to_le_bytes k
        = to_le_bytes v' @ to_le_bytes l' @ to_le_bytes k'"
      using assms by (intro str_stream_append_inj) auto
    ultimately show ?thesis
      using to_le_bytes_append_inj [of v "to_le_bytes l @ to_le_bytes k" v' "to_le_bytes l' @ to_le_bytes k'"]
        to_le_bytes_append_inj [of l "to_le_bytes k" l' "to_le_bytes k'"] to_le_bytes_inj [of k k'] by simp
  qed
qed (rule site_id_stream, rule value_id_stream)

lemma identity_streams_injective_witness:
  "site_stream ''ab'' ''c'' 1 2 \<noteq> site_stream ''a'' ''bc'' 1 2"
  using identity_streams_injective [of "''ab''" "''a''" "''c''" "''bc''" 1 2 0 1 2] by auto

subsection \<open>Canonical orders\<close>

text \<open>
  \<open>sort_edges\<close> and \<open>sort_nodes\<close> produce a sorted rearrangement of their input; the result
  is a function of the set of records alone, so it does not depend on the insertion order, as
  long as edge ids are distinct and no two nodes share file, line and FQN.
\<close>

theorem sorts_canonical:
  assumes "inj_on e_id (set es)" "inj_on node_sort_key (set ns)"
  shows "mset (sort_edges es) = mset es \<and> sorted (map edge_sort_key (sort_edges es)) \<and>
    mset (sort_nodes ns) = mset ns \<and> sorted (map node_sort_key (sort_nodes ns)) \<and>
    (mset es = mset es' \<longrightarrow> sort_edges es = sort_edges es') \<and>
    (mset ns = mset ns' \<longrightarrow> sort_nodes ns = sort_nodes ns')"
proof -
  have "inj_on edge_sort_key (set es)"
    using assms(1) by (auto simp: inj_on_def edge_sort_key_def)
  then show ?thesis
    using assms(2) sort_key_order_independent [of es es' edge_sort_key]
      sort_key_order_independent [of ns ns' node_sort_key]
    by (simp add: sort_edges_def sort_nodes_def)
qed

definition sample_edge :: "edge_id \<Rightarrow> node_id \<Rightarrow> node_id \<Rightarrow> confidence \<Rightarrow> edge_condition \<Rightarrow> edge_record" where
  "sample_edge i s d conf cnd =
     \<lparr>e_id = i, e_src = s, e_dst = d, e_kind = Calls, e_condition = cnd, e_confidence = conf,
      e_tier = ScopeGraph, e_rule = ''scope'', e_site_id = None, e_stmt_index = None,
      e_cut_markers = [], e_implicit = None, e_candidate_group = None, e_established_by = None,
      e_cfg_condition = None, e_macro_origin = None, e_transform = None\<rparr>"

lemma sorts_canonical_witness:
  "sort_edges [sample_edge 1 2 0 Certain Always, sample_edge 0 1 3 Probable Loop]
     = sort_edges [sample_edge 0 1 3 Probable Loop, sample_edge 1 2 0 Certain Always]"
  using sorts_canonical [of "[sample_edge 1 2 0 Certain Always, sample_edge 0 1 3 Probable Loop]" "[]"
      "[sample_edge 0 1 3 Probable Loop, sample_edge 1 2 0 Certain Always]" "[]"]
  by (auto simp: sample_edge_def)

subsection \<open>Symbol patterns\<close>

text \<open>
  The glob matcher decides the documented meaning of a pattern: \<open>**\<close> is any run, \<open>*\<close> a run
  in which no segment separator starts, \<open>?\<close> one character that is not part of a separator,
  and any other character itself; the backtracking loop finds a match exactly when one exists.
\<close>

theorem glob_match_meaning: "glob_match pat txt \<longleftrightarrow> glob_spec (glob_tokens pat) txt"
  by (simp add: glob_match_def glob_correct(1))

text \<open>
  A pattern without wildcard characters matches exactly its own text, so a glob without
  wildcards and an FQN pattern with the same text select the same nodes.
\<close>

theorem glob_without_wildcards:
  assumes "CHR ''*'' \<notin> set p" "CHR ''?'' \<notin> set p"
  shows "(glob_match p s \<longleftrightarrow> s = p) \<and>
    (pattern_matches (pattern_glob p) node \<longleftrightarrow> pattern_matches (pattern_fqn p) node)"
  using assms
  by (simp add: glob_match_def glob_correct(1) glob_tokens_literal glob_spec_literal
      pattern_matches_def matches_fqn_def pattern_glob_def pattern_fqn_def)

lemma glob_without_wildcards_witness: "\<not> glob_match ''cfg::load'' ''cfg::loader''"
  using glob_without_wildcards [of "''cfg::load''" "''cfg::loader''"] by simp

text \<open>
  The short name of an FQN is its last segment: the FQN is the short name preceded by
  nothing or by a prefix that ends in a separator, the short name contains no separator
  (neither a slash nor a double colon), so taking it again changes nothing.
\<close>

theorem short_name_last_segment:
  "(\<exists>p. fqn = p @ short_name fqn \<and> (p = [] \<or> suffix ''/'' p \<or> suffix ''::'' p)) \<and>
   \<not> contains_segment_separator (short_name fqn) \<and>
   short_name (short_name fqn) = short_name fqn"
  using short_name_prefix [of fqn] short_name_separator_free [of fqn]
  by (simp add: contains_segment_separator_iff short_name_id)

end
