(* ===== verification/Select_Properties.thy ===== *)
theory Select_Properties
  imports Select_Engine
begin

text \<open>
  What the selector engine promises: printing and parsing are inverse on the grammar, the
  automaton decides the meaning of a pattern and reports when its cap could have cost a
  match, and a selector matches a node of a language exactly when the pattern written in that
  language's separator does.
\<close>

subsection \<open>The grammar\<close>

text \<open>
  C37. Parsing a printed selector gives the selector back: for each of the five tokenizers,
  the concrete syntax of any well-formed sequence of segments and globstars is split and parsed
  into exactly its patterns, with no rejection and no rewrite diagnostic.
\<close>

theorem tokenize_print_selector:
  assumes "tk \<in> set submitted" "wf_selector (tk_class tk) ps"
  shows "tokenize tk (print_selector (tk_sep tk) ps) = Inr (map seg_pattern ps, [])"
  by (rule tokenize_print [OF assms(2) submitted_sep_clear [OF assms(1)]])

lemma tokenize_print_selector_witness:
  "tokenize rust_tokenizer ''app::**::!(get|set)'' =
     Inr ([Segment [Run (SetPred [''app''] False)], Globstar,
       Segment [Run (SetPred [''get'', ''set''] True)]], [])"
proof -
  let ?ps = "[Some [ERun False [Lit ''app'']], None,
      Some [ERun True [Group [GroupOpt ''get'' False, GroupOpt ''set'' False]]]]"
  have "wf_selector (tk_class rust_tokenizer) ?ps"
    by (simp add: wf_selector_def wf_segment_def wf_text_def admits_def is_ascii_alphanumeric_def
        less_eq_char_def rust_tokenizer_def)
  moreover have "rust_tokenizer \<in> set submitted" by (simp add: submitted_def)
  ultimately have "tokenize rust_tokenizer (print_selector (tk_sep rust_tokenizer) ?ps)
      = Inr (map seg_pattern ?ps, [])" by (intro tokenize_print_selector)
  then show ?thesis
    by (simp add: rust_tokenizer_def print_selector_def print_segment_def matcher_of_def)
qed

text \<open>
  A segment made of one run of literals and alternation groups, with an optional star on
  either side and an optional negation, parses to a matcher that accepts exactly the segments
  it describes: those that equal, start with, end with or contain one of the strings the run
  spells, or, negated, those that do not.
\<close>

definition affixed :: "bool \<Rightarrow> bool \<Rightarrow> atom list \<Rightarrow> bool \<Rightarrow> elem list" where
  "affixed lead neg as trail =
     (if lead then [EStar] else []) @ [ERun neg as] @ (if trail then [EStar] else [])"

theorem segment_meaning:
  assumes "wf_elem cls (ERun neg as)" "\<not> list_ex mixed as"
  shows "\<exists>m. parse_segment (print_segment (affixed lead neg as trail)) cls = Inr (m, None) \<and>
    (segment_matches m seg \<longleftrightarrow> (neg \<noteq> affix_spec (affix_of lead trail) (spells as) seg))"
proof -
  have "wf_segment cls (affixed lead neg as trail)"
    using assms(1) by (auto simp: wf_segment_def affixed_def)
  then have "parse_segment (print_segment (affixed lead neg as trail)) cls
      = Inr (matcher_of (affixed lead neg as trail), None)" by (rule parse_print)
  moreover have "segment_matches (matcher_of (affixed lead neg as trail)) seg
      \<longleftrightarrow> (neg \<noteq> affix_spec (affix_of lead trail) (spells as) seg)"
    using run_eval_spec [OF assms(2), of neg _ seg]
    by (cases lead; cases trail) (simp_all add: matcher_of_def affixed_def segment_matches_run del: run_pred_of.simps)
  ultimately show ?thesis by blast
qed

lemma segment_meaning_witness:
  "\<exists>m. parse_segment ''*(get|set)'' Rust_class = Inr (m, None) \<and>
     (segment_matches m ''do_get'' \<longleftrightarrow>
        affix_spec EndsWith (spells [Group [GroupOpt ''get'' False, GroupOpt ''set'' False]]) ''do_get'')"
proof -
  let ?as = "[Group [GroupOpt ''get'' False, GroupOpt ''set'' False]]"
  have "wf_elem Rust_class (ERun False ?as)" "\<not> list_ex mixed ?as"
    by (simp_all add: wf_text_def admits_def is_ascii_alphanumeric_def less_eq_char_def)
  from segment_meaning [OF this, of True False "''do_get''"] show ?thesis
    by (simp add: affixed_def print_segment_def)
qed

text \<open>
  The accepted alias \<open>!*\<close>: a segment written with the negation before the star is parsed
  as if the star came first, the rewrite is reported with both spellings, and the segment
  matches exactly the names that do not end with the text.
\<close>

theorem bang_star_alias:
  assumes "wf_text cls s"
  shows "parse_segment (''!*'' @ s) cls = Inr ([Star, Run (SetPred [s] True)], Some (''!*'' @ s, ''*!'' @ s)) \<and>
    parse_segment (''*!'' @ s) cls = Inr ([Star, Run (SetPred [s] True)], None) \<and>
    (segment_matches [Star, Run (SetPred [s] True)] seg \<longleftrightarrow> \<not> suffix s seg)"
proof -
  have nostar: "CHR ''*'' \<notin> set s" and nobang: "CHR ''!'' \<notin> set s"
    using assms by (auto simp: wf_text_def list_all_iff dest: admits_neq)
  have wf: "wf_segment cls [EStar, ERun True [Lit s]]" using assms by (simp add: wf_segment_def)
  have print: "print_segment [EStar, ERun True [Lit s]] = ''*!'' @ s" by (simp add: print_segment_def)
  have matcher: "matcher_of [EStar, ERun True [Lit s]] = [Star, Run (SetPred [s] True)]"
    by (simp add: matcher_of_def)
  have plain: "parse_segment (''*!'' @ s) cls = Inr ([Star, Run (SetPred [s] True)], None)"
    using parse_print [OF wf] unfolding print matcher .
  have rest: "rewrite_bang_star s = (s, False)"
    using rewrite_bang_star_id no_star_no_bang_star [OF nostar] by blast
  obtain c t where s: "s = c # t" "c \<noteq> CHR ''*''" using assms nostar by (cases s) (auto simp: wf_text_def)
  have "rewrite_bang_star (''!*'' @ s) = (''*!'' @ s, True)"
    using rest s by (simp add: Let_def)
  moreover have "rewrite_bang_star (''*!'' @ s) = (''*!'' @ s, False)"
    using rest s by (simp add: Let_def)
  ultimately have "parse_segment (''!*'' @ s) cls
      = Inr ([Star, Run (SetPred [s] True)], Some (''!*'' @ s, ''*!'' @ s))"
    using plain by (auto simp: parse_segment_def split: sum.splits)
  moreover have "segment_matches [Star, Run (SetPred [s] True)] seg \<longleftrightarrow> \<not> suffix s seg"
    by (simp add: segment_matches_run str_ends_with_iff suffix_def)
  ultimately show ?thesis using plain by blast
qed

lemma bang_star_alias_witness:
  "parse_segment ''!*test'' Rust_class
     = Inr ([Star, Run (SetPred [''test''] True)], Some (''!*test'', ''*!test''))"
  using bang_star_alias [of Rust_class "''test''" "[]"]
  by (simp add: wf_text_def admits_def is_ascii_alphanumeric_def less_eq_char_def)

subsection \<open>The automaton\<close>

text \<open>
  C36. The automaton decides the meaning of a pattern: with a cap above the number of segments
  of the pattern (1024 by default) a sequence of segments is accepted exactly when the pattern
  describes it, and the run is never marked truncated.
\<close>

theorem automaton_decides:
  assumes "length ps < cap"
  shows "(so_matched (simulate (nfa_compile ps) ws cap) \<longleftrightarrow> pattern_spec ps ws) \<and>
    \<not> so_truncated (simulate (nfa_compile ps) ws cap)"
  using simulate_correct [OF assms] simulate_no_truncation [OF assms] by blast

lemma automaton_decides_witness:
  "pattern_spec [Globstar, Segment [Run (SetPred [''load''] False)]] [''app'', ''cfg'', ''load'']"
proof -
  let ?ps = "[Globstar, Segment [Run (SetPred [''load''] False)]]"
  have "so_matched (simulate (nfa_compile ?ps) [''app'', ''cfg'', ''load''] 8)" by code_simp
  then show ?thesis using automaton_decides [of ?ps 8 "[''app'', ''cfg'', ''load'']"] by simp
qed

text \<open>
  The active-state cap is honest: whatever its value, an accepted sequence really is
  described by the pattern, and a rejection of a described sequence is always marked
  truncated.
\<close>

theorem cap_honest:
  "(so_matched (simulate (nfa_compile ps) ws cap) \<longrightarrow> pattern_spec ps ws) \<and>
   (pattern_spec ps ws \<and> \<not> so_matched (simulate (nfa_compile ps) ws cap)
      \<longrightarrow> so_truncated (simulate (nfa_compile ps) ws cap))"
  using simulate_sound simulate_complete by blast

lemma cap_honest_witness:
  "so_truncated (simulate (nfa_compile [Globstar, Segment [Run (SetPred [''b''] False)]]) [''a'', ''b''] 1)"
proof -
  let ?ps = "[Globstar, Segment [Run (SetPred [''b''] False)]]"
  have "pattern_spec ?ps [''a'', ''b'']"
    by (intro ps_take ps_skip ps_seg ps_nil) (simp add: segment_matches_run)
  moreover have "\<not> so_matched (simulate (nfa_compile ?ps) [''a'', ''b''] 1)" by code_simp
  ultimately show ?thesis using cap_honest [of ?ps "[''a'', ''b'']" 1] by blast
qed

subsection \<open>Selectors\<close>

text \<open>
  A selector that every family rejects is an error, and only such a selector: \<open>compile\<close>
  fails exactly when the string is empty or each registered tokenizer rejects it, and when
  it succeeds it keeps at least one parse.
\<close>

theorem compile_error_iff:
  "((\<exists>e. compile inventory selector = Inl e) \<longleftrightarrow>
     selector = [] \<or> (\<forall>tok \<in> set inventory. \<exists>r. tokenize tok selector = Inl r)) \<and>
   (\<forall>sel. compile inventory selector = Inr sel \<longrightarrow> sl_parses sel \<noteq> [] \<and> sl_families sel \<noteq> [])"
  using compile_fails [of inventory selector] compile_parses(1,2,3) [of inventory selector] by fastforce

lemma compile_error_iff_witness:
  "\<exists>e. compile submitted ''a(b'' = Inl e"
proof -
  have "\<forall>tok \<in> set submitted. \<exists>r. tokenize tok ''a(b'' = Inl r"
    by (simp add: submitted_def tokenizer_defs tokenize_def tokenizer_split_def at_sep_def)
  then show ?thesis using compile_error_iff [of submitted "''a(b''"] by blast
qed

text \<open>
  Compilation does not depend on the order in which the linker collects the tokenizers:
  any arrangement of the five submitted tokenizers gives the same result, and the families of
  a compiled selector come without repetition in declaration order.
\<close>

theorem compile_link_order:
  assumes "mset inventory = mset submitted"
  shows "compile inventory selector = compile submitted selector \<and>
    (\<forall>sel. compile inventory selector = Inr sel \<longrightarrow>
       strict_sorted (sl_families sel) \<and> map pr_family (sl_parses sel) = sl_families sel)"
proof -
  have reg: "registered inventory = submitted" "registered submitted = submitted"
    using registered_submitted assms by simp_all
  have "strict_sorted (sl_families sel) \<and> map pr_family (sl_parses sel) = sl_families sel"
    if ok: "compile inventory selector = Inr sel" for sel
  proof -
    let ?fs = "map fst (clean_parses (registered inventory) selector)"
    have sorted: "strict_sorted ?fs" by (rule clean_parses_sorted [OF assms])
    then have "remdups_adj ?fs = ?fs" by (simp add: strict_sorted_distinct remdups_adj_distinct)
    then show ?thesis using sorted compile_parses(1,2) [OF ok] by (simp add: comp_def case_prod_unfold)
  qed
  then show ?thesis using reg by (simp add: compile_def)
qed

lemma compile_link_order_witness:
  "compile (rev submitted) ''app::run'' = compile submitted ''app::run''"
  using compile_link_order [of "rev submitted" "''app::run''"] by simp

text \<open>
  A selector written in the syntax of one language matches a node of that language exactly
  when its patterns describe the node's FQN segments: for every submitted tokenizer, printing
  well-formed patterns with its separator, compiling the string and matching natively is the
  meaning of the patterns on the segments of the FQN (below 1024 segments, the default cap).
\<close>

theorem selector_native_meaning:
  assumes "mset inventory = mset submitted" "tok \<in> set submitted"
    and "wf_selector (tk_class tok) ps" "length ps < default_active_state_cap"
    and "n_lang node \<in> set (lang_tags (tk_family tok))"
  shows "\<exists>sel. compile inventory (print_selector (tk_sep tok) ps) = Inr sel \<and>
    (matches_native sel node \<longleftrightarrow> pattern_spec (map seg_pattern ps) (str_split ''::'' (n_fqn node)))"
proof -
  let ?s = "print_selector (tk_sep tok) ps"
  have tok: "tokenize tok ?s = Inr (map seg_pattern ps, [])"
    by (rule tokenize_print [OF assms(3) submitted_sep_clear [OF assms(2)]])
  then have "?s \<noteq> []" by (auto simp: tokenize_def)
  moreover have "(tk_family tok, map seg_pattern ps) \<in> set (clean_parses (registered inventory) ?s)"
    using tok assms(2) registered_submitted [OF assms(1)] by (auto simp: clean_parses_mem)
  ultimately obtain sel where sel: "compile inventory ?s = Inr sel"
    using compile_succeeds [of ?s inventory] by fastforce
  have "matches_native sel node \<longleftrightarrow> native_families sel node default_active_state_cap \<noteq> []"
    by (simp add: matches_native_def selector_matches_def evaluate_eq match_options_native_def Let_def)
  also have "\<dots> \<longleftrightarrow> pattern_spec (map seg_pattern ps) (str_split ''::'' (n_fqn node))"
    using native_match_iff [OF sel assms(1,2) tok assms(5)] simulate_correct assms(4) by simp
  finally show ?thesis using sel by blast
qed

definition sample_node :: "node_id \<Rightarrow> string \<Rightarrow> string \<Rightarrow> entrypoint_kind option \<Rightarrow> node_record" where
  "sample_node i fqn lang entry =
     \<lparr>n_id = i, n_kind = Function, n_fqn = fqn, n_file = ''main.rs'', n_line_start = i, n_line_end = i,
      n_lang = lang, n_visibility = Public, n_is_abstract = False, n_entrypoint_kind = entry,
      n_signature = None, n_own_effects = 0, n_transitive_effects = 0, n_unresolved_calls = 0,
      n_external_calls = 0,
      n_narrowing = \<lparr>nc_typed_out = 0, nc_interproc_out = 0, nc_visible_out = 0,
        nc_visible_dropped_out = 0, nc_typed_away_in = 0, nc_interproc_away_in = 0,
        nc_visible_away_in = 0\<rparr>\<rparr>"

lemma selector_native_meaning_witness:
  "\<exists>sel. compile submitted ''app.*load'' = Inr sel \<and>
     matches_native sel (sample_node 0 ''app::reload'' ''python'' None)"
proof -
  let ?ps = "[Some [ERun False [Lit ''app'']], Some [EStar, ERun False [Lit ''load'']]]"
  let ?n = "sample_node 0 ''app::reload'' ''python'' None"
  have "python_tokenizer \<in> set submitted" "length ?ps < default_active_state_cap"
    "n_lang ?n \<in> set (lang_tags (tk_family python_tokenizer))"
    by (simp_all add: submitted_def default_active_state_cap_def sample_node_def python_tokenizer_def)
  moreover have "wf_selector (tk_class python_tokenizer) ?ps"
    by (simp add: wf_selector_def wf_segment_def wf_text_def admits_def is_ascii_alphanumeric_def
        less_eq_char_def python_tokenizer_def)
  ultimately obtain sel where "compile submitted (print_selector (tk_sep python_tokenizer) ?ps) = Inr sel"
    and iff: "matches_native sel ?n \<longleftrightarrow> pattern_spec (map seg_pattern ?ps) (str_split ''::'' (n_fqn ?n))"
    using selector_native_meaning [of submitted python_tokenizer ?ps ?n] by blast
  moreover have "print_selector (tk_sep python_tokenizer) ?ps = ''app.*load''"
    by (simp add: python_tokenizer_def print_selector_def print_segment_def)
  moreover have "str_split ''::'' (n_fqn ?n) = [''app'', ''reload'']"
    by (simp add: sample_node_def str_split_def)
  moreover have "pattern_spec (map seg_pattern ?ps) [''app'', ''reload'']"
    by (auto intro!: ps_seg ps_nil simp: matcher_of_def segment_matches_run str_ends_with_def)
  ultimately show ?thesis by metis
qed

text \<open>
  Agnostic matching only adds matches: every node matched natively is matched
  agnostically, and an agnostic match carries the cross-language flag exactly when no
  family that owns the node's language matches.
\<close>

theorem agnostic_extends_native:
  "(matches_native sel node \<longrightarrow> selector_matches sel node match_options_agnostic) \<and>
   (nm_agnostic_cross_language (evaluate sel node match_options_agnostic) \<longleftrightarrow>
      selector_matches sel node match_options_agnostic \<and> \<not> matches_native sel node) \<and>
   strict_sorted (nm_families (evaluate sel node opts))"
  using native_subset [of sel node default_active_state_cap]
  by (auto simp: matches_native_def selector_matches_def evaluate_eq match_options_native_def
      match_options_agnostic_def Let_def strict_sorted_sort_remdups_adj)

lemma agnostic_extends_native_witness:
  "selector_matches \<lparr>sl_parses = [\<lparr>pr_family = Rust, pr_nfa = nfa_compile [Globstar]\<rparr>], sl_families = [Rust],
      sl_diagnostics = []\<rparr> (sample_node 0 ''app::run'' ''rust'' None) match_options_agnostic"
proof -
  let ?sel = "\<lparr>sl_parses = [\<lparr>pr_family = Rust, pr_nfa = nfa_compile [Globstar]\<rparr>], sl_families = [Rust],
      sl_diagnostics = []\<rparr>"
  have "matches_native ?sel (sample_node 0 ''app::run'' ''rust'' None)" by code_simp
  then show ?thesis using agnostic_extends_native [of ?sel "sample_node 0 ''app::run'' ''rust'' None"] by blast
qed

subsection \<open>Corner cases of the grammar\<close>

text \<open>
  A segment that is only a negation sign parses to a matcher without constraints, which
  matches every segment; a rewrite can leave a negation before a star; and the position of a
  rejection counts from the start of its segment, not of the selector.
\<close>

lemma bare_bang_matches_all:
  "parse_segment ''!'' cls = Inr ([], None)" "segment_matches [] seg"
  by (simp_all add: parse_segment_def parse_segment_body_def flush_run_def flush_lit_def
      segment_matches_def runs_of_def map_filter_simps)

lemma rewrite_leaves_bang_star: "rewrite_bang_star ''!!*x'' = (''!*!x'', True)"
  by (simp add: Let_def)

lemma reject_position_in_segment:
  "tokenize rust_tokenizer ''app::b?'' = Inl (QuestionMark 1)"
  by (simp add: tokenize_def tokenizer_split_def rust_tokenizer_def at_sep_def parse_segment_def
      parse_segment_body_def flush_run_def flush_lit_def admits_def is_ascii_alphanumeric_def less_eq_char_def)

end
