(* ===== verification/Query_Properties.thy ===== *)
theory Query_Properties
  imports Query_Engine Core_Properties Select_Properties
begin

text \<open>
  What the query engine promises about a graph: adjacency, reachability, shortest and simple
  paths, and the answers built on them. A property speaks of \<open>edge_walk\<close>, the chains of
  admitted edges, and of \<open>reach\<close>, the nodes such a chain reaches within the walker's depth
  limit; both are defined from \<open>neighbors\<close>, whose own meaning is the first property.
\<close>

subsection \<open>A small graph for the witnesses\<close>

definition sample_nodes :: "node_record list" where
  "sample_nodes =
     [sample_node 0 ''app::main'' ''rust'' (Some Main), sample_node 1 ''app::load'' ''rust'' None,
      sample_node 2 ''app::store'' ''rust'' None, sample_node 3 ''app::flush'' ''rust'' None,
      sample_node 4 ''app::old'' ''rust'' None]"

definition sample_edges :: "edge_record list" where
  "sample_edges =
     [sample_edge 0 0 1 Certain Always, sample_edge 1 0 2 Probable Conditional,
      sample_edge 2 1 3 Possible Exception, sample_edge 3 2 3 Certain Always,
      sample_edge 4 3 0 Certain Always]"

definition sample_view :: graph_view where
  "sample_view = graph_view_new sample_nodes sample_edges []"

definition capped :: "nat \<Rightarrow> path_walker" where
  "capped c = path_walker_default\<lparr>pw_max_paths := Some c, pw_max_steps := Some 40\<rparr>"

subsection \<open>Adjacency\<close>

text \<open>
  \<open>neighbors\<close> of a freshly built view lists, for a node of the view, the admitted edges
  incident to it in the given direction, in edge order, each with the node at its other end,
  and nothing for an id outside the view. An edge is admitted when the filter admits it and,
  under a candidate cap, when the number of candidate records of its group is within the cap.
\<close>

theorem neighbors_meaning:
  "neighbors (graph_view_new ns es cs) v dir f =
     (if v < length ns then
        map (\<lambda>e. \<lparr>er_edge = e, er_peer = to_end dir e\<rparr>)
          (filter (\<lambda>e. from_end dir e = v \<and> filter_admits f e \<and>
             (case (ef_max_candidates f, e_candidate_group e) of
                (Some mx, Some grp) \<Rightarrow> length (filter (\<lambda>c. cd_candidate_group c = grp) cs) \<le> mx
              | _ \<Rightarrow> True)) es)
      else [])"
proof -
  have "passes (graph_view_new ns es cs) f e \<longleftrightarrow> filter_admits f e \<and>
      (case (ef_max_candidates f, e_candidate_group e) of
         (Some mx, Some grp) \<Rightarrow> length (filter (\<lambda>c. cd_candidate_group c = grp) cs) \<le> mx
       | _ \<Rightarrow> True)" for e
    by (auto simp: passes_def candidate_group_size_new split: option.split)
  then show ?thesis by (simp add: neighbors_new)
qed

subsection \<open>Reachability\<close>

text \<open>
  C21. \<open>bfs\<close> discovers exactly the nodes other than the start that some chain of admitted edges
  reaches within the depth limit, each once and at its shortest depth, in ascending order of
  depth and then id.
\<close>

theorem bfs_shortest_depths:
  "(\<lambda>x. (dc_node x, dc_depth x)) ` set (bfs w view start dir) =
     {(v, d). v \<noteq> start \<and> within_depth w d \<and> shortest (view_succ w view dir) start v d} \<and>
   distinct (map dc_node (bfs w view start dir)) \<and>
   sorted (map (\<lambda>x. (dc_depth x, dc_node x)) (bfs w view start dir))"
proof -
  have "(v, d) \<in> (\<lambda>x. (dc_node x, dc_depth x)) ` set (bfs w view start dir) \<longleftrightarrow>
      v \<noteq> start \<and> within_depth w d \<and> shortest (view_succ w view dir) start v d" for v d
    using bfs_nodes [of w view start dir v d] by (auto simp: image_iff)
  moreover have "sorted (map (\<lambda>x. (dc_depth x, dc_node x)) (bfs w view start dir))"
    by (simp add: bfs_def)
  ultimately show ?thesis using bfs_nodes_distinct [of start w view dir] by auto
qed

text \<open>
  \<open>reachable\<close> answers whether a chain of admitted edges within the depth limit leads from
  the start to the goal, a node always reaching itself.
\<close>

theorem reachable_meaning: "reachable w view start goal dir \<longleftrightarrow> reach w view dir start goal"
  by (rule reachable_iff)

text \<open>
  \<open>reachable_within\<close>, behind variable-length Cypher patterns, returns in ascending order
  and without repetition exactly the nodes at the end of some chain of admitted edges whose
  length lies between the larger of one and the minimum and the walker's maximum; unlike \<open>bfs\<close>
  it includes the start when a cycle leads back to it.
\<close>

theorem reachable_within_meaning:
  "set (reachable_within w view start dir min_depth) =
     {v. \<exists>k es. max 1 min_depth \<le> k \<and> k \<le> (case pw_max_depth w of Some m \<Rightarrow> m | None \<Rightarrow> u32_max) \<and>
        length es = k \<and> edge_walk w view dir start es v} \<and>
   strict_sorted (reachable_within w view start dir min_depth)"
proof -
  let ?max = "case pw_max_depth w of Some m \<Rightarrow> m | None \<Rightarrow> u32_max"
  have "strict_sorted (layer_loop ?max w view dir min_depth 0 [start] [])"
    by (rule layer_loop_sorted) simp
  then have "reachable_within w view start dir min_depth = layer_loop ?max w view dir min_depth 0 [start] []"
    "strict_sorted (reachable_within w view start dir min_depth)"
    unfolding reachable_within_def by (simp_all add: sorted_sort_id strict_sorted_sorted)
  then show ?thesis
    unfolding layer_loop_set
    by (simp add: layer_loop_set walk_iff_edge_walk) (metis (no_types, lifting) One_nat_def)
qed

text \<open>
  The neighborhood subgraph is the induced one: its nodes are exactly the anchor and what
  \<open>bfs\<close> reaches within the depth limit, ascending and without repetition, and its edges are
  exactly the admitted edges, in the walk's direction, between two of its nodes, ascending by
  endpoints and edge id.
\<close>

theorem neighborhood_induced:
  "set (sub_nodes (neighborhood w view anchor dir)) = {v. reach w view dir anchor v} \<and>
   strict_sorted (sub_nodes (neighborhood w view anchor dir)) \<and>
   set (sub_edges (neighborhood w view anchor dir)) =
     {\<lparr>rc_src = u, rc_dst = er_peer r, rc_edge_id = e_id (er_edge r),
        rc_condition = e_condition (er_edge r), rc_confidence = e_confidence (er_edge r)\<rparr> | u r.
        reach w view dir anchor u \<and> r \<in> set (neighbors view u dir (pw_filter w)) \<and>
        er_peer r < node_count view \<and> reach w view dir anchor (er_peer r)} \<and>
   sorted (map (\<lambda>e. (rc_src e, rc_dst e, rc_edge_id e)) (sub_edges (neighborhood w view anchor dir)))"
proof -
  define ns where "ns = anchor # map dc_node (bfs w view anchor dir)"
  obtain in_set where st: "fold (hood_push (node_count view)) (bfs w view anchor dir)
      (mark_start anchor (node_count view), [anchor]) = (in_set, ns)"
    and marks: "\<And>v. v < node_count view \<Longrightarrow> in_set v \<longleftrightarrow> reach w view dir anchor v"
    by (rule neighborhood_state [where w = w and view = view and anchor = anchor and dir = dir, folded ns_def]) blast
  have hood: "neighborhood w view anchor dir =
      \<lparr>sub_roots = [anchor], sub_nodes = sort ns,
       sub_edges = sort_key (\<lambda>e. (rc_src e, rc_dst e, rc_edge_id e))
         (concat (map (induced_edges w view dir in_set) ns))\<rparr>"
    by (simp only: neighborhood_def st Let_def prod.case)
  have nodes: "set ns = {v. reach w view dir anchor v}" using bfs_reach [of anchor w view dir] by (simp add: ns_def)
  have "distinct ns" using bfs_nodes_distinct [of anchor w view dir] by (simp add: ns_def)
  then have "strict_sorted (sort ns)" by (metis distinct_sort sorted_sort strict_sorted_iff)
  moreover have "set (concat (map (induced_edges w view dir in_set) ns)) =
      {\<lparr>rc_src = u, rc_dst = er_peer r, rc_edge_id = e_id (er_edge r),
        rc_condition = e_condition (er_edge r), rc_confidence = e_confidence (er_edge r)\<rparr> | u r.
        reach w view dir anchor u \<and> r \<in> set (neighbors view u dir (pw_filter w)) \<and>
        er_peer r < node_count view \<and> reach w view dir anchor (er_peer r)}" (is "_ = ?E")
  proof (rule set_eqI)
    fix x
    have "x \<in> set (concat (map (induced_edges w view dir in_set) ns)) \<longleftrightarrow>
        (\<exists>u \<in> set ns. x \<in> set (induced_edges w view dir in_set u))" by simp
    also have "\<dots> \<longleftrightarrow> x \<in> ?E" unfolding nodes induced_edges_mem using marks by auto
    finally show "x \<in> set (concat (map (induced_edges w view dir in_set) ns)) \<longleftrightarrow> x \<in> ?E" .
  qed
  ultimately show ?thesis using nodes by (simp add: hood)
qed

subsection \<open>Neighbor rows\<close>

text \<open>
  Every row of \<open>callers\<close>, \<open>callees\<close> or \<open>reaches_all\<close> is explained by one shortest chain
  of admitted edges from the anchor to the row's node: the depth is its length, the via edge,
  condition and confidence are those of its last edge, the path confidence is the weakest of
  the chain, and the exceptional flag is what the chain's edges leave (reset by a spawn). The
  confidence comes from a second search, which therefore agrees with the first.
\<close>

theorem neighbor_rows_explained:
  "set (neighbor_walk view anchor w dir) \<subseteq>
     {row_of view es v | es v. v \<noteq> anchor \<and> v < node_count view \<and> es \<noteq> [] \<and>
        shortest_edge_path w view dir anchor es v \<and> within_depth w (length es)}"
  using neighbor_walk_sound [of _ view anchor w dir] by blast

text \<open>
  No node is missed or repeated by a neighbor walk: the rows, taken with multiplicity,
  are the nodes that \<open>reach\<close> the anchor's side within the depth limit, the anchor itself
  excepted, and they come in the documented order of file, line and FQN.
\<close>

theorem neighbor_rows_complete:
  "mset (map nr_node (neighbor_walk view anchor w dir)) =
     image_mset (view_node view) (mset_set ({v. reach w view dir anchor v} - {anchor})) \<and>
   sorted (map (\<lambda>r. result_key (nr_node r)) (neighbor_walk view anchor w dir))"
proof -
  have "distinct (map dc_node (bfs w view anchor dir))" using bfs_nodes_distinct [of anchor w view dir] by simp
  moreover have "set (map dc_node (bfs w view anchor dir)) = {v. reach w view dir anchor v} - {anchor}"
    using bfs_reach [of anchor w view dir] bfs_nodes_distinct [of anchor w view dir] by auto
  ultimately have "mset (map dc_node (bfs w view anchor dir)) = mset_set ({v. reach w view dir anchor v} - {anchor})"
    by (metis mset_set_set)
  then have "image_mset (view_node view) (image_mset dc_node (mset (bfs w view anchor dir)))
      = image_mset (view_node view) (mset_set ({v. reach w view dir anchor v} - {anchor}))"
    by (simp only: mset_map)
  moreover have "map nr_node (map (row_for view anchor w dir) (bfs w view anchor dir))
      = map (view_node view) (map dc_node (bfs w view anchor dir))" by (simp add: row_for_def Let_def)
  then have "mset (map nr_node (neighbor_walk view anchor w dir))
      = image_mset (view_node view) (image_mset dc_node (mset (bfs w view anchor dir)))"
    unfolding neighbor_walk_rows by (metis mset_map mset_sort)
  moreover have "sorted (map (\<lambda>r. result_key (nr_node r)) (neighbor_walk view anchor w dir))"
    unfolding neighbor_walk_rows by simp
  ultimately show ?thesis by (simp only: simp_thms)
qed

subsection \<open>Shortest path\<close>

text \<open>
  C2. \<open>shortest_path\<close> returns \<open>None\<close> exactly when the goal is not reachable within the depth
  limit, and otherwise the node and edge sequence of a chain of admitted edges from the start
  to the goal that no other such chain undercuts in length.
\<close>

theorem shortest_path_meaning:
  "case shortest_path w view start goal dir of
     None \<Rightarrow> \<not> reach w view dir start goal
   | Some seq \<Rightarrow> \<exists>es. seq = path_seq dir start es \<and> shortest_edge_path w view dir start es goal \<and>
       (es = [] \<or> within_depth w (length es))"
proof (cases "shortest_path w view start goal dir")
  case None
  then show ?thesis using shortest_path_None [of w view start goal dir] by simp
next
  case (Some seq)
  then show ?thesis using shortest_path_Some [OF Some] by (auto simp: shortest_edge_path_def)
qed

text \<open>
  \<open>reaches\<close> reports reachability with evidence: it is true exactly when a chain of
  admitted edges exists, and then the witness is a shortest such chain with the weakest
  confidence of its edges as the path's confidence.
\<close>

theorem reaches_witness:
  "(rr_reachable (reaches view a b w) \<longleftrightarrow> reach w view Forward a b) \<and>
   (case rr_witness (reaches view a b w) of
      None \<Rightarrow> \<not> reach w view Forward a b
    | Some p \<Rightarrow> \<exists>es. shortest_edge_path w view Forward a es b \<and>
        map ps_node (pt_steps p) = map (view_node view) (a # map e_dst es) \<and>
        map ps_via (pt_steps p) = None # map Some es \<and>
        hops p = length es \<and> pt_min_confidence p = weakest_of es)"
proof (cases "shortest_path w view a b Forward")
  case None
  then show ?thesis using shortest_path_None [of w view a b Forward] by (simp add: reaches_def)
next
  case (Some seq)
  then obtain es where es: "seq = path_seq Forward a es" "shortest_edge_path w view Forward a es b"
    using shortest_path_Some [OF Some] by (auto simp: shortest_edge_path_def)
  let ?p = "build_path_result view (start_step a # walk_steps Forward False es)"
  have "rr_witness (reaches view a b w) = Some ?p" "rr_reachable (reaches view a b w)"
    using Some es(1) by (simp_all add: reaches_def seq_to_walksteps_path_seq)
  moreover have "map ps_node (pt_steps ?p) = map (view_node view) (map ws_node (start_step a # walk_steps Forward False es))"
    "map ps_via (pt_steps ?p) = map ws_via (start_step a # walk_steps Forward False es)"
    by (simp_all add: build_path_result_def)
  moreover have "hops ?p = length es" by (simp add: hops_def build_path_result_def)
  moreover have "to_end Forward = e_dst" by (simp add: fun_eq_iff to_end_def)
  moreover have "reach w view Forward a b"
    using Some shortest_path_None [of w view a b Forward] by (metis option.distinct(1))
  ultimately show ?thesis using es(2)
    by (auto simp: walk_steps_nodes walk_steps_vias start_step_def build_path_result_min [unfolded start_step_def])
qed

subsection \<open>Enumerated paths\<close>

text \<open>
  The walk-step sequences of the simple paths from a start to a goal within the walker's
  depth limit, and of the trails that meet the goal only at their end.
\<close>

definition simple_paths ::
  "path_walker \<Rightarrow> graph_view \<Rightarrow> node_id \<Rightarrow> node_id \<Rightarrow> direction \<Rightarrow> walk_step list set" where
  "simple_paths w view start goal dir =
     {start_step start # walk_steps dir False es | es.
        es \<noteq> [] \<and> edge_path w view dir start es goal \<and> within_depth w (length es) \<and>
        distinct (start # map (to_end dir) es)}"

definition goal_trails ::
  "path_walker \<Rightarrow> graph_view \<Rightarrow> node_id \<Rightarrow> node_id \<Rightarrow> direction \<Rightarrow> walk_step list set" where
  "goal_trails w view start goal dir =
     {start_step start # walk_steps dir False es | es.
        es \<noteq> [] \<and> edge_path w view dir start es goal \<and> within_depth w (length es) \<and>
        distinct (map e_id es) \<and> goal \<notin> set (butlast (map (to_end dir) es))}"

lemma enumerate_dfs_bounded:
  assumes "0 < path_cap w"
  shows "set (pe_paths (enumerate_dfs w view start goal dir rule))
      \<subseteq> set (all_paths w view start goal dir rule)"
    and "length (pe_paths (enumerate_dfs w view start goal dir rule)) \<le> path_cap w"
    and "pe_truncation (enumerate_dfs w view start goal dir rule) = None \<Longrightarrow>
      pe_paths (enumerate_dfs w view start goal dir rule) = all_paths w view start goal dir rule"
    and "pe_truncation (enumerate_dfs w view start goal dir rule) = Some PathCap \<Longrightarrow>
      length (pe_paths (enumerate_dfs w view start goal dir rule)) = path_cap w"
  using enumerate_dfs_post [OF assms, of view start goal dir rule]
  by (auto simp: dfs_post_def dest: subsetD [OF set_mono_prefix])

text \<open>
  C1. When \<open>enumerate_paths\<close> reports no truncation, its paths are exactly the simple paths
  from the start to the goal: every chain of admitted edges within the depth limit that
  repeats no node is there, and nothing else is (for any cap of at least one path).
\<close>

theorem enumerate_paths_complete:
  assumes "0 < path_cap w" "pe_truncation (enumerate_paths w view start goal dir) = None"
  shows "set (pe_paths (enumerate_paths w view start goal dir)) = simple_paths w view start goal dir"
  using enumerate_dfs_bounded(3) [OF assms(1), of view start goal dir SimplePath] assms(2)
  by (simp add: enumerate_paths_def all_simple_paths_set simple_paths_def)

lemma enumerate_paths_complete_witness:
  "pe_truncation (enumerate_paths (capped 8) sample_view 0 3 Forward) = None \<and>
   card (simple_paths (capped 8) sample_view 0 3 Forward) = 2"
proof -
  let ?e = "enumerate_paths (capped 8) sample_view 0 3 Forward"
  have trunc: "pe_truncation ?e = None" by code_simp
  have cap: "0 < path_cap (capped 8)" by (simp add: capped_def path_cap_def path_walker_default_def)
  have len: "length (pe_paths ?e) = 2" by code_simp
  have dist: "distinct (map (map ws_node) (pe_paths ?e))" by code_simp
  have "card (set (pe_paths ?e)) = 2" using dist len by (simp add: distinct_map distinct_card)
  then show ?thesis using enumerate_paths_complete [OF cap trunc] trunc by simp
qed

text \<open>
  A truncated enumeration is still sound and says which bound it hit: whatever happens the
  paths are simple paths from the start to the goal, no more than the cap, and a \<open>PathCap\<close>
  truncation means the cap is reached exactly.
\<close>

theorem enumerate_paths_bounds:
  assumes "0 < path_cap w"
  shows "set (pe_paths (enumerate_paths w view start goal dir)) \<subseteq> simple_paths w view start goal dir \<and>
    length (pe_paths (enumerate_paths w view start goal dir)) \<le> path_cap w \<and>
    (pe_truncation (enumerate_paths w view start goal dir) = Some PathCap \<longrightarrow>
       length (pe_paths (enumerate_paths w view start goal dir)) = path_cap w)"
  using enumerate_dfs_bounded [OF assms, of view start goal dir SimplePath]
  by (simp add: enumerate_paths_def all_simple_paths_set simple_paths_def)

lemma enumerate_paths_bounds_witness:
  "length (pe_paths (enumerate_paths (capped 1) sample_view 0 3 Forward)) = 1"
proof -
  have cap: "0 < path_cap (capped 1)" "path_cap (capped 1) = 1"
    by (simp_all add: capped_def path_cap_def path_walker_default_def)
  have "pe_truncation (enumerate_paths (capped 1) sample_view 0 3 Forward) = Some PathCap" by code_simp
  then show ?thesis using enumerate_paths_bounds [OF cap(1), of sample_view 0 3 Forward] cap(2) by simp
qed

text \<open>
  Without truncation \<open>enumerate_trails\<close> lists exactly the chains of admitted edges from the
  start to the goal within the depth limit that use no edge id twice and meet the goal only at
  their end; a trail that passes through the goal on its way is not listed.
\<close>

theorem enumerate_trails_complete:
  assumes "0 < path_cap w" "pe_truncation (enumerate_trails w view start goal dir) = None"
  shows "set (pe_paths (enumerate_trails w view start goal dir)) = goal_trails w view start goal dir"
  using enumerate_dfs_bounded(3) [OF assms(1), of view start goal dir Trail] assms(2)
  by (simp add: enumerate_trails_def all_trails_set goal_trails_def)

lemma enumerate_trails_complete_witness:
  "card (goal_trails (capped 8) sample_view 0 0 Forward) = 2"
proof -
  let ?e = "enumerate_trails (capped 8) sample_view 0 0 Forward"
  have trunc: "pe_truncation ?e = None" by code_simp
  have cap: "0 < path_cap (capped 8)" by (simp add: capped_def path_cap_def path_walker_default_def)
  have len: "length (pe_paths ?e) = 2" by code_simp
  have dist: "distinct (map (map ws_node) (pe_paths ?e))" by code_simp
  have "card (set (pe_paths ?e)) = 2" using dist len by (simp add: distinct_map distinct_card)
  then show ?thesis using enumerate_trails_complete [OF cap trunc] by simp
qed

text \<open>
  \<open>paths\<close> without a truncation reason contains one result for every simple path from
  \<open>a\<close> to \<open>b\<close>, built from that path, and orders its results by hop count and then by node ids.
\<close>

theorem paths_complete:
  assumes "0 < path_cap w" "\<not> path_set_truncated (paths view a b w)"
  shows "set (pset_paths (paths view a b w)) = build_path_result view ` simple_paths w view a b Forward \<and>
    sorted (map path_key (pset_paths (paths view a b w)))"
  using enumerate_dfs_bounded(3) [OF assms(1), of view a b Forward SimplePath] assms(2)
  by (simp add: paths_def path_set_truncated_def enumerate_paths_def all_simple_paths_set simple_paths_def Let_def)

lemma paths_complete_witness:
  "map hops (pset_paths (paths sample_view 0 3 (capped 8))) = [2, 2] \<and>
   set (pset_paths (paths sample_view 0 3 (capped 8)))
     = build_path_result sample_view ` simple_paths (capped 8) sample_view 0 3 Forward"
proof -
  have cap: "0 < path_cap (capped 8)" by (simp add: capped_def path_cap_def path_walker_default_def)
  have trunc: "\<not> path_set_truncated (paths sample_view 0 3 (capped 8))" by code_simp
  have "map hops (pset_paths (paths sample_view 0 3 (capped 8))) = [2, 2]" by code_simp
  then show ?thesis using paths_complete [OF cap trunc] by simp
qed

text \<open>A cap of zero paths yields an empty enumeration without a truncation reason.\<close>

lemma enumerate_paths_cap_zero:
  "enumerate_paths (capped 0) sample_view 0 3 Forward = \<lparr>pe_paths = [], pe_truncation = None\<rparr>"
  by code_simp

subsection \<open>Unused symbols\<close>

text \<open>
  \<open>unused\<close> returns exactly the nodes of the requested kinds that no root reaches along
  admitted edges, in result order; the roots are the given entrypoints, or, when none is given,
  the nodes that carry an entrypoint kind.
\<close>

theorem unused_unreachable:
  assumes "\<forall>node \<in> set (gv_nodes view). n_id node < node_count view"
  shows "set (unused view entrypoints kinds w) =
      {node \<in> set (gv_nodes view). (kinds = [] \<or> n_kind node \<in> set kinds) \<and>
         \<not> (\<exists>root \<in> set (if entrypoints = []
               then map n_id (filter (\<lambda>node. n_entrypoint_kind node \<noteq> None) (gv_nodes view))
               else entrypoints). reach w view Forward root (n_id node))} \<and>
    sorted (map result_key (unused view entrypoints kinds w))"
proof -
  let ?roots = "entrypoint_roots view entrypoints"
  have "fold (mark_root view w) ?roots (\<lambda>_. False) (n_id node)
      \<longleftrightarrow> (\<exists>root \<in> set ?roots. reach w view Forward root (n_id node))" if "node \<in> set (gv_nodes view)" for node
    using mark_roots_iff [of "n_id node" view w ?roots "\<lambda>_. False"] that assms by simp
  then have "set (unused view entrypoints kinds w) =
      {node \<in> set (gv_nodes view). (kinds = [] \<or> n_kind node \<in> set kinds) \<and>
         \<not> (\<exists>root \<in> set ?roots. reach w view Forward root (n_id node))}"
    unfolding unused_def Let_def set_sort set_filter by blast
  then show ?thesis unfolding entrypoint_roots_def by (simp add: unused_def Let_def)
qed

lemma unused_unreachable_witness:
  "map n_id (unused sample_view [] [] (capped 8)) = [4] \<and>
   \<not> reach (capped 8) sample_view Forward 0 4"
proof -
  have ids: "\<forall>node \<in> set (gv_nodes sample_view). n_id node < node_count sample_view" by code_simp
  have run: "map n_id (unused sample_view [] [] (capped 8)) = [4]" by code_simp
  then obtain node where node: "node \<in> set (unused sample_view [] [] (capped 8))" "n_id node = 4" by auto
  have "0 \<in> set (map n_id (filter (\<lambda>node. n_entrypoint_kind node \<noteq> None) (gv_nodes sample_view)))"
    by code_simp
  then have "\<not> reach (capped 8) sample_view Forward 0 (n_id node)"
    using unused_unreachable [OF ids, of "[]" "[]" "capped 8"] node(1) by fastforce
  then show ?thesis using run node(2) by simp
qed

subsection \<open>Explain\<close>

definition explain_walker :: path_walker where
  "explain_walker =
     \<lparr>pw_filter = edge_filter_calls, pw_max_depth = Some 1, pw_max_paths = None, pw_max_steps = None\<rparr>"

lemma reach_depth_one:
  assumes "pw_max_depth w = Some 1"
  shows "{v. reach w view dir a v} - {a} = set (view_succ w view dir a) - {a}"
proof -
  have "reach w view dir a v \<longleftrightarrow> v = a \<or> (\<exists>k \<le> 1. walk (view_succ w view dir) a k v)" for v
    using assms by (auto simp: reach_def walk_iff_edge_walk within_depth_def)
  moreover have "(\<exists>k \<le> 1. walk (view_succ w view dir) a k v) \<longleftrightarrow> v = a \<or> v \<in> set (view_succ w view dir a)"
    for v by (auto simp: le_Suc_eq walk_zero_iff walk_Suc_iff)
  ultimately show ?thesis by auto
qed

text \<open>
  \<open>explain\<close> fails exactly for an id outside the view; otherwise it has one row per
  distinct caller and one per distinct callee along call edges, the anchor itself excepted:
  parallel edges to one neighbor collapse to a single row, and a self call has none.
\<close>

theorem explain_counts:
  "case explain view anchor of
     None \<Rightarrow> node_count view \<le> anchor
   | Some x \<Rightarrow> anchor < node_count view \<and> xp_node x = view_node view anchor \<and>
       xp_callers_count x = card (set (view_succ explain_walker view Backward anchor) - {anchor}) \<and>
       xp_callees_count x = card (set (view_succ explain_walker view Forward anchor) - {anchor}) \<and>
       length (xp_edges x) = xp_callers_count x + xp_callees_count x"
proof -
  have count: "length (neighbor_walk view anchor explain_walker dir)
      = card (set (view_succ explain_walker view dir anchor) - {anchor})" for dir
    using reach_depth_one [of explain_walker view dir anchor]
    by (simp add: neighbor_walk_length length_bfs explain_walker_def)
  show ?thesis
    unfolding explain_def explain_walker_def [symmetric] Let_def
    by (simp add: try_node_def callers_def callees_def node_count_def view_node_def count)
qed

end
