(* ===== verification/Resolve_Chunked.thy ===== *)
theory Resolve_Chunked
  imports Prelude "HOL-Library.Word"
begin

text \<open>
  The chunked sequence of the resolver (\<open>chunked.rs\<close>): the edge list of a linked graph, stored
  in chunks of a fixed length. The abstract value is the concatenation of the chunks; every
  operation is shown to refine the operation on plain lists, and every access that would panic
  (\<^const>\<open>None\<close>) to be within bounds on a well-formed value. Capacities are not part of the
  model.
\<close>

unbundle bit_operations_syntax

subsection \<open>The data structure\<close>

definition chunk_shift :: nat where
  "chunk_shift = 16"

definition chunk_len :: nat where
  "chunk_len = 2 ^ chunk_shift"

definition chunk_mask :: nat where
  "chunk_mask = chunk_len - 1"

record 'a chunked_vec =
  cv_chunks :: "'a list list"
  cv_len :: nat

definition cv_new :: "'a chunked_vec" where
  "cv_new = \<lparr>cv_chunks = [], cv_len = 0\<rparr>"

definition cv_is_empty :: "'a chunked_vec \<Rightarrow> bool" where
  "cv_is_empty v \<longleftrightarrow> cv_len v = 0"

definition cv_push :: "'a \<Rightarrow> 'a chunked_vec \<Rightarrow> 'a chunked_vec" where
  "cv_push x v =
     (let cs = cv_chunks v;
          cs' = (if cs \<noteq> [] \<and> length (last cs) < chunk_len then cs else cs @ [[]])
      in v\<lparr>cv_chunks := butlast cs' @ [last cs' @ [x]], cv_len := cv_len v + 1\<rparr>)"

definition cv_get :: "'a chunked_vec \<Rightarrow> nat \<Rightarrow> 'a option" where
  "cv_get v i =
     (if drop_bit chunk_shift i < length (cv_chunks v) then
        let c = cv_chunks v ! drop_bit chunk_shift i; k = i AND chunk_mask in
        if k < length c then Some (c ! k) else None
      else None)"

definition cv_last :: "'a chunked_vec \<Rightarrow> 'a option" where
  "cv_last v =
     (if cv_chunks v = [] then None
      else if last (cv_chunks v) = [] then None else Some (last (last (cv_chunks v))))"

definition cv_iter :: "'a chunked_vec \<Rightarrow> 'a list" where
  "cv_iter v = concat (cv_chunks v)"

text \<open>\<open>Index::index\<close>: the two slice accesses panic out of bounds.\<close>

definition cv_index :: "'a chunked_vec \<Rightarrow> nat \<Rightarrow> 'a option" where
  "cv_index v i =
     (let c = drop_bit chunk_shift i; k = i AND chunk_mask in
      if c < length (cv_chunks v) \<and> k < length (cv_chunks v ! c) then Some (cv_chunks v ! c ! k)
      else None)"

definition cv_swap :: "nat \<Rightarrow> nat \<Rightarrow> 'a chunked_vec \<Rightarrow> 'a chunked_vec option" where
  "cv_swap a b v =
     (let (ca, ia) = (drop_bit chunk_shift a, a AND chunk_mask);
          (cb, ib) = (drop_bit chunk_shift b, b AND chunk_mask);
          cs = cv_chunks v
      in if ca = cb then
           (if ca < length cs \<and> ia < length (cs ! ca) \<and> ib < length (cs ! ca) then
              Some (v\<lparr>cv_chunks := cs[ca := (cs ! ca)[ia := cs ! ca ! ib, ib := cs ! ca ! ia]]\<rparr>)
            else None)
         else
           (let (lo, hi, ilo, ihi) = (if ca < cb then (ca, cb, ia, ib) else (cb, ca, ib, ia))
            in if hi < length cs \<and> ilo < length (cs ! lo) \<and> ihi < length (cs ! hi) then
                 Some (v\<lparr>cv_chunks := cs[lo := (cs ! lo)[ilo := cs ! hi ! ihi],
                                          hi := (cs ! hi)[ihi := cs ! lo ! ilo]]\<rparr>)
               else None))"

definition cv_truncate :: "nat \<Rightarrow> 'a chunked_vec \<Rightarrow> 'a chunked_vec" where
  "cv_truncate n v =
     (if n \<ge> cv_len v then v
      else
        let keep_chunks = (n + (chunk_len - 1)) div chunk_len;
            cs = take keep_chunks (cv_chunks v)
        in v\<lparr>cv_chunks := (if cs = [] then []
               else butlast cs @ [take (n - (keep_chunks - 1) * chunk_len) (last cs)]),
             cv_len := n\<rparr>)"

fun cv_retain_loop :: "('a \<Rightarrow> bool) \<Rightarrow> nat list \<Rightarrow> nat \<Rightarrow> 'a chunked_vec \<Rightarrow> (nat \<times> 'a chunked_vec) option" where
  "cv_retain_loop keep [] wr v = Some (wr, v)"
| "cv_retain_loop keep (read # reads) wr v =
     (case cv_index v read of
        None \<Rightarrow> None
      | Some x \<Rightarrow>
          if keep x then
            (if read \<noteq> wr then
               (case cv_swap read wr v of
                  None \<Rightarrow> None
                | Some v' \<Rightarrow> cv_retain_loop keep reads (wr + 1) v')
             else cv_retain_loop keep reads (wr + 1) v)
          else cv_retain_loop keep reads wr v)"

definition cv_retain :: "('a \<Rightarrow> bool) \<Rightarrow> 'a chunked_vec \<Rightarrow> 'a chunked_vec option" where
  "cv_retain keep v =
     map_option (\<lambda>(wr, v'). cv_truncate wr v') (cv_retain_loop keep [0..<cv_len v] 0 v)"

text \<open>The loop that follows the swaps already made; it need not end on arbitrary indices.\<close>

partial_function (option) chase :: "('i \<Rightarrow> nat) \<Rightarrow> ('k \<times> 'i) list \<Rightarrow> nat \<Rightarrow> 'i \<Rightarrow> 'i option" where
  "chase from_ix indices i index =
     (if from_ix index < i then chase from_ix indices i (snd (indices ! from_ix index))
      else Some index)"

fun permute_loop :: "('i \<Rightarrow> nat) \<Rightarrow> nat list \<Rightarrow> ('k \<times> 'i) list \<Rightarrow> 'a chunked_vec \<Rightarrow> 'a chunked_vec option" where
  "permute_loop from_ix [] indices v = Some v"
| "permute_loop from_ix (i # is) indices v =
     (case chase from_ix indices i (snd (indices ! i)) of
        None \<Rightarrow> None
      | Some index \<Rightarrow>
          (case cv_swap i (from_ix index) v of
             None \<Rightarrow> None
           | Some v' \<Rightarrow> permute_loop from_ix is (indices[i := (fst (indices ! i), index)]) v'))"

definition cv_permute_by_key ::
  "('a \<Rightarrow> 'k::linorder) \<Rightarrow> (nat \<Rightarrow> 'i::linorder) \<Rightarrow> ('i \<Rightarrow> nat) \<Rightarrow> 'a chunked_vec \<Rightarrow> 'a chunked_vec option" where
  "cv_permute_by_key f to_ix from_ix v =
     (let indices = sort (map (\<lambda>(i, k). (k, to_ix i)) (enumerate 0 (map f (cv_iter v))))
      in permute_loop from_ix [0..<cv_len v] indices v)"

definition cv_sort_by_cached_key :: "('a \<Rightarrow> 'k::linorder) \<Rightarrow> 'a chunked_vec \<Rightarrow> 'a chunked_vec option" where
  "cv_sort_by_cached_key f v =
     (if cv_len v < 2 then Some v
      else if cv_len v < 2 ^ 32 then
        cv_permute_by_key f (word_of_nat :: nat \<Rightarrow> 32 word) unat v
      else cv_permute_by_key f (\<lambda>i. i) (\<lambda>i. i) v)"

definition cv_extend :: "'a list \<Rightarrow> 'a chunked_vec \<Rightarrow> 'a chunked_vec" where
  "cv_extend xs v = fold cv_push xs v"

definition cv_from_iter :: "'a list \<Rightarrow> 'a chunked_vec" where
  "cv_from_iter xs = cv_extend xs cv_new"

text \<open>The owning iterator.\<close>

record 'a cv_into_iter =
  ci_chunks :: "'a list list"
  ci_current :: "'a list"
  ci_remaining :: nat

definition cv_into :: "'a chunked_vec \<Rightarrow> 'a cv_into_iter" where
  "cv_into v = \<lparr>ci_chunks = cv_chunks v, ci_current = [], ci_remaining = cv_len v\<rparr>"

fun ci_refill :: "'a list list \<Rightarrow> 'a list \<Rightarrow> ('a \<times> 'a list \<times> 'a list list) option" where
  "ci_refill cs (x # xs) = Some (x, xs, cs)"
| "ci_refill [] [] = None"
| "ci_refill (c # cs) [] = ci_refill cs c"

definition ci_next :: "'a cv_into_iter \<Rightarrow> ('a \<times> 'a cv_into_iter) option" where
  "ci_next it =
     (case ci_refill (ci_chunks it) (ci_current it) of
        None \<Rightarrow> None
      | Some (x, xs, cs) \<Rightarrow>
          Some (x, \<lparr>ci_chunks = cs, ci_current = xs, ci_remaining = ci_remaining it - 1\<rparr>))"

subsection \<open>The layout\<close>

fun chunks_ok :: "nat \<Rightarrow> 'a list list \<Rightarrow> bool" where
  "chunks_ok L [] \<longleftrightarrow> True"
| "chunks_ok L [c] \<longleftrightarrow> c \<noteq> [] \<and> length c \<le> L"
| "chunks_ok L (c # d # cs) \<longleftrightarrow> length c = L \<and> chunks_ok L (d # cs)"

definition cv_wf :: "'a chunked_vec \<Rightarrow> bool" where
  "cv_wf v \<longleftrightarrow> chunks_ok chunk_len (cv_chunks v) \<and> cv_len v = length (concat (cv_chunks v))"

definition cv_abs :: "'a chunked_vec \<Rightarrow> 'a list" where
  "cv_abs v = concat (cv_chunks v)"

lemma chunk_len_pos [simp]: "0 < chunk_len"
  by (simp add: chunk_len_def)

lemma chunk_of: "drop_bit chunk_shift i = i div chunk_len"
  by (simp add: drop_bit_eq_div chunk_len_def)

lemma offset_of: "i AND chunk_mask = i mod chunk_len"
proof -
  have "chunk_mask = mask chunk_shift" by (simp add: chunk_mask_def chunk_len_def mask_eq_exp_minus_1)
  then have "i AND chunk_mask = take_bit chunk_shift i" by (simp only: take_bit_eq_mask)
  then show ?thesis by (simp add: chunk_len_def take_bit_eq_mod)
qed

lemma chunks_okD: "chunks_ok L (c # cs) \<Longrightarrow> length c \<le> L \<and> chunks_ok L cs"
  by (cases cs) auto

lemma chunks_access:
  assumes "chunks_ok L cs" "0 < L"
  shows "(i div L < length cs \<and> i mod L < length (cs ! (i div L)) \<longleftrightarrow> i < length (concat cs))
    \<and> (i < length (concat cs) \<longrightarrow> cs ! (i div L) ! (i mod L) = concat cs ! i)"
  using assms
proof (induction L cs arbitrary: i rule: chunks_ok.induct)
  case (2 L c)
  then show ?case by (cases "i < L") (auto simp: div_eq_0_iff dest: div_greater_zero_iff [THEN iffD2, rotated])
next
  case (3 L c d cs)
  show ?case
  proof (cases "i < L")
    case True
    then show ?thesis using 3 by (simp add: nth_append)
  next
    case False
    then obtain j where j: "i = L + j" using le_iff_add by (meson leI)
    have "i div L = Suc (j div L)" "i mod L = j mod L" using \<open>0 < L\<close> by (simp_all add: j div_add_self1)
    then show ?thesis using "3.IH" [of j] "3.prems" by (simp add: j nth_append)
  qed
qed simp

lemma chunks_update:
  assumes "chunks_ok L cs" "0 < L" "i < length (concat cs)"
  shows "concat (cs[i div L := (cs ! (i div L))[i mod L := x]]) = (concat cs)[i := x]
    \<and> chunks_ok L (cs[i div L := (cs ! (i div L))[i mod L := x]])"
  using assms
proof (induction L cs arbitrary: i rule: chunks_ok.induct)
  case (3 L c d cs)
  show ?case
  proof (cases "i < L")
    case True
    then show ?thesis using 3 by (simp add: list_update_append)
  next
    case False
    then obtain j where j: "i = L + j" using le_iff_add by (meson leI)
    have eqs: "i div L = Suc (j div L)" "i mod L = j mod L" using \<open>0 < L\<close> by (simp_all add: j div_add_self1)
    have "chunks_ok L (c # ((d # cs)[j div L := ((d # cs) ! (j div L))[j mod L := x]]))"
      using "3.IH" [of j] "3.prems" by (cases "j div L") (auto simp: j)
    then show ?thesis using "3.IH" [of j] "3.prems" by (simp add: eqs) (simp add: j list_update_append)
  qed
qed auto

lemma cv_wfD: "cv_wf v \<Longrightarrow> chunks_ok chunk_len (cv_chunks v) \<and> cv_len v = length (cv_abs v)"
  by (simp add: cv_wf_def cv_abs_def)

subsection \<open>Refinement of the list operations\<close>

lemma cv_index_abs: "cv_wf v \<Longrightarrow> cv_index v i = (if i < length (cv_abs v) then Some (cv_abs v ! i) else None)"
  using chunks_access [of chunk_len "cv_chunks v" i]
  by (auto simp: cv_index_def chunk_of offset_of cv_wf_def cv_abs_def Let_def)

lemma cv_get_index: "cv_get v i = cv_index v i"
  by (simp add: cv_get_def cv_index_def Let_def)

lemma swap_two_chunks:
  assumes "chunks_ok L cs" "0 < L" "a < length (concat cs)" "b < length (concat cs)" "a div L \<noteq> b div L"
  shows "concat (cs[a div L := (cs ! (a div L))[a mod L := x], b div L := (cs ! (b div L))[b mod L := y]])
      = (concat cs)[a := x, b := y]
    \<and> chunks_ok L (cs[a div L := (cs ! (a div L))[a mod L := x], b div L := (cs ! (b div L))[b mod L := y]])"
  using chunks_update [OF assms(1-3), of x] chunks_update [of L _ b y] assms(2,4,5)
  by (metis length_list_update nth_list_update_neq)

lemma swap_one_chunk:
  assumes "chunks_ok L cs" "0 < L" "a < length (concat cs)" "b < length (concat cs)" "a div L = b div L"
  shows "concat (cs[a div L := (cs ! (a div L))[a mod L := x, b mod L := y]]) = (concat cs)[a := x, b := y]
    \<and> chunks_ok L (cs[a div L := (cs ! (a div L))[a mod L := x, b mod L := y]])"
proof -
  have "a div L < length cs" using chunks_access [OF assms(1,2), of a] assms(3) by blast
  then have "cs[a div L := (cs ! (a div L))[a mod L := x, b mod L := y]]
      = (cs[a div L := (cs ! (a div L))[a mod L := x]])
          [b div L := ((cs[a div L := (cs ! (a div L))[a mod L := x]]) ! (b div L))[b mod L := y]]"
    using assms(5) by simp
  then show ?thesis
    using chunks_update [OF assms(1-3), of x]
      chunks_update [of L "cs[a div L := (cs ! (a div L))[a mod L := x]]" b y] assms(2,4) by simp
qed

lemma cv_swap_abs:
  assumes wf: "cv_wf v" and a: "a < length (cv_abs v)" and b: "b < length (cv_abs v)"
  shows "\<exists>v'. cv_swap a b v = Some v' \<and> cv_wf v' \<and> cv_abs v' = (cv_abs v)[a := cv_abs v ! b, b := cv_abs v ! a]"
proof -
  note ok = conjunct1 [OF cv_wfD [OF wf]]
  have acc: "i div chunk_len < length (cv_chunks v)" "i mod chunk_len < length (cv_chunks v ! (i div chunk_len))"
    "cv_chunks v ! (i div chunk_len) ! (i mod chunk_len) = cv_abs v ! i" if "i < length (cv_abs v)" for i
    using chunks_access [OF ok chunk_len_pos, of i] that by (auto simp: cv_abs_def)
  note defs = cv_swap_def chunk_of offset_of Let_def cv_wf_def cv_abs_def
  consider (same) "a div chunk_len = b div chunk_len" | (up) "a div chunk_len < b div chunk_len"
    | (down) "b div chunk_len < a div chunk_len" by linarith
  then show ?thesis
  proof cases
    case same
    then show ?thesis
      using swap_one_chunk [OF ok chunk_len_pos, of a b "cv_abs v ! b" "cv_abs v ! a"] a b acc [OF a] acc [OF b] wf
      by (auto simp: defs)
  next
    case up
    then show ?thesis
      using swap_two_chunks [OF ok chunk_len_pos, of a b "cv_abs v ! b" "cv_abs v ! a"] a b acc [OF a] acc [OF b] wf
      by (auto simp: defs)
  next
    case down
    then have "a \<noteq> b" by blast
    then have flip: "(cv_abs v)[a := cv_abs v ! b, b := cv_abs v ! a] = (cv_abs v)[b := cv_abs v ! a, a := cv_abs v ! b]"
      by (simp add: list_update_swap)
    show ?thesis unfolding flip
      using down swap_two_chunks [OF ok chunk_len_pos, of b a "cv_abs v ! a" "cv_abs v ! b"] a b acc [OF a] acc [OF b] wf
      by (auto simp: defs)
  qed
qed

lemma chunks_ok_snoc:
  "chunks_ok L (cs @ [c]) \<longleftrightarrow> (\<forall>d \<in> set cs. length d = L) \<and> c \<noteq> [] \<and> length c \<le> L"
  by (induction L cs rule: chunks_ok.induct) auto

lemma cv_new_abs: "cv_wf cv_new \<and> cv_abs cv_new = []"
  by (simp add: cv_new_def cv_wf_def cv_abs_def)

lemma cv_push_abs:
  assumes "cv_wf v"
  shows "cv_wf (cv_push x v) \<and> cv_abs (cv_push x v) = cv_abs v @ [x]"
proof (cases "cv_chunks v" rule: rev_cases)
  case Nil
  then show ?thesis using assms by (simp add: cv_push_def cv_wf_def cv_abs_def Suc_leI)
next
  case (snoc cs c)
  then have "\<forall>d \<in> set cs. length d = chunk_len" "c \<noteq> []" "length c \<le> chunk_len"
    using assms by (simp_all add: cv_wf_def chunks_ok_snoc)
  then show ?thesis using assms snoc
    by (cases "length c < chunk_len")
      (auto simp: cv_push_def cv_wf_def cv_abs_def chunks_ok_snoc Let_def butlast_append
        chunks_ok_snoc [of _ "_ @ [_]", simplified] Suc_leI)
qed

lemma cv_last_abs: "cv_wf v \<Longrightarrow> cv_last v = (if cv_abs v = [] then None else Some (last (cv_abs v)))"
proof (cases "cv_chunks v" rule: rev_cases)
  case (snoc cs c)
  moreover assume "cv_wf v"
  ultimately have "c \<noteq> []" by (simp add: cv_wf_def chunks_ok_snoc)
  then show ?thesis by (simp add: cv_last_def cv_abs_def snoc)
qed (simp add: cv_last_def cv_abs_def)

lemma chunks_ok_full: "chunks_ok L cs \<Longrightarrow> k < length cs \<Longrightarrow> d \<in> set (take k cs) \<Longrightarrow> length d = L"
proof (induction L cs arbitrary: k rule: chunks_ok.induct)
  case (3 L c d' cs)
  then show ?case by (cases k) auto
qed auto

lemma chunks_ok_length: "chunks_ok L cs \<Longrightarrow> k < length cs \<Longrightarrow> length (cs ! k) \<le> L"
proof (induction L cs arbitrary: k rule: chunks_ok.induct)
  case (3 L c d' cs)
  then show ?case by (cases k) auto
qed auto

lemma chunks_take:
  assumes "chunks_ok L cs" "0 < L" "n < length (concat cs)"
  shows "let k = (n + (L - 1)) div L; ds = take k cs;
             es = (if ds = [] then [] else butlast ds @ [take (n - (k - 1) * L) (last ds)])
         in concat es = take n (concat cs) \<and> chunks_ok L es"
proof (cases "n = 0")
  case True
  then show ?thesis using assms(2) by simp
next
  case False
  then obtain m where m: "n = Suc m" by (cases n) auto
  have k: "(n + (L - 1)) div L = Suc (m div L)"
    using assms(2) m by (metis Suc_pred' add_Suc_shift add_gr_0 bot_nat_0.not_eq_extremum div_add_self2 less_numeral_extra(3) plus_1_eq_Suc Suc_eq_plus1)
  have acc: "m div L < length cs" "m mod L < length (cs ! (m div L))"
    using chunks_access [OF assms(1,2), of m] assms(3) m by auto
  have ds: "take (Suc (m div L)) cs = take (m div L) cs @ [cs ! (m div L)]"
    using acc(1) by (rule take_Suc_conv_app_nth)
  have cs: "cs = take (m div L) cs @ cs ! (m div L) # drop (Suc (m div L)) cs"
    by (rule id_take_nth_drop [OF acc(1)])
  have pre: "\<forall>d \<in> set (take (m div L) cs). length d = L"
    using chunks_ok_full [OF assms(1) acc(1)] by blast
  then have len: "length (concat (take (m div L) cs)) = m div L * L"
    using acc(1) by (simp add: length_concat sum_list_triv min_def cong: map_cong)
  have mle: "m div L * L \<le> n" using m by (metis div_times_less_eq_dividend le_SucI)
  have rest: "n - m div L * L = Suc (m mod L)"
    using m by (simp add: Suc_diff_le minus_div_mult_eq_mod)
  have "length (cs ! (m div L)) \<le> L" by (rule chunks_ok_length [OF assms(1) acc(1)])
  moreover have "concat cs = concat (take (m div L) cs) @ cs ! (m div L) @ concat (drop (Suc (m div L)) cs)"
    using arg_cong [OF cs, of concat] by simp
  then have "take n (concat cs) = concat (take (m div L) cs) @ take (Suc (m mod L)) (cs ! (m div L))"
    using acc(2) mle by (simp add: len rest)
  ultimately show ?thesis using acc pre rest unfolding Let_def k ds
    by (auto simp: chunks_ok_snoc)
qed

lemma cv_truncate_abs:
  assumes "cv_wf v"
  shows "cv_wf (cv_truncate n v) \<and> cv_abs (cv_truncate n v) = take n (cv_abs v)"
proof (cases "n \<ge> cv_len v")
  case True
  then show ?thesis using assms by (simp add: cv_truncate_def cv_wf_def cv_abs_def)
next
  case False
  then have "n < length (concat (cv_chunks v))" "chunks_ok chunk_len (cv_chunks v)"
    using assms by (simp_all add: cv_wf_def)
  from chunks_take [OF this(2) chunk_len_pos this(1)] False assms show ?thesis
    by (simp add: cv_truncate_def cv_wf_def cv_abs_def Let_def)
qed

lemma cv_extend_abs: "cv_wf v \<Longrightarrow> cv_wf (cv_extend xs v) \<and> cv_abs (cv_extend xs v) = cv_abs v @ xs"
  unfolding cv_extend_def by (induction xs arbitrary: v) (simp_all add: cv_push_abs)

lemma cv_from_iter_abs: "cv_wf (cv_from_iter xs) \<and> cv_abs (cv_from_iter xs) = xs"
  using cv_extend_abs [OF conjunct1 [OF cv_new_abs], of xs] conjunct2 [OF cv_new_abs]
  by (simp add: cv_from_iter_def)

text \<open>\<open>retain\<close>: survivors are swapped forward, the elements not yet read stay in place.\<close>

lemma retain_loop_abs:
  assumes "cv_wf v" "read \<le> length xs" "length (cv_abs v) = length xs" "wr \<le> read"
    and "take wr (cv_abs v) = filter keep (take read xs)" "drop read (cv_abs v) = drop read xs"
  shows "\<exists>w v'. cv_retain_loop keep [read..<length xs] wr v = Some (w, v') \<and> cv_wf v'
    \<and> take w (cv_abs v') = filter keep xs"
  using assms
proof (induction "length xs - read" arbitrary: read wr v)
  case 0
  then show ?case by simp
next
  case (Suc n)
  then have read: "read < length xs" "[read..<length xs] = read # [Suc read..<length xs]"
    by (simp_all add: upt_conv_Cons)
  have "hd (drop read (cv_abs v)) = hd (drop read xs)" using Suc.prems(6) by simp
  then have elem: "cv_abs v ! read = xs ! read" using read Suc.prems(3) by (simp add: hd_drop_conv_nth)
  have idx: "cv_index v read = Some (xs ! read)"
    using cv_index_abs [OF Suc.prems(1)] read Suc.prems(3) elem by simp
  have dropS: "drop (Suc read) (cv_abs v) = drop (Suc read) xs"
    using Suc.prems(6) by (metis drop_Suc tl_drop)
  have takeS: "take (Suc read) xs = take read xs @ [xs ! read]"
    using read(1) by (rule take_Suc_conv_app_nth)
  show ?case
  proof (cases "keep (xs ! read)")
    case False
    then show ?thesis
      using Suc.hyps(1) [of "Suc read" v wr] Suc.hyps(2) Suc.prems idx read takeS dropS by simp
  next
    case keep: True
    show ?thesis
    proof (cases "read = wr")
      case True
      then have "take (Suc wr) (cv_abs v) = filter keep (take (Suc read) xs)"
        using keep Suc.prems(3,5) read takeS elem by (simp add: take_Suc_conv_app_nth)
      then show ?thesis
        using Suc.hyps(1) [of "Suc read" v "Suc wr"] Suc.hyps(2) Suc.prems idx read True keep dropS by simp
    next
      case False
      then have w: "wr < read" "wr < length (cv_abs v)" "read < length (cv_abs v)"
        using Suc.prems(3,4) read by simp_all
      from cv_swap_abs [OF Suc.prems(1) w(3,2)] obtain v' where v': "cv_swap read wr v = Some v'" "cv_wf v'"
        "cv_abs v' = (cv_abs v)[read := cv_abs v ! wr, wr := cv_abs v ! read]" by blast
      have "take (Suc wr) (cv_abs v') = take wr (cv_abs v) @ [xs ! read]"
        using w elem by (simp add: v'(3) take_Suc_conv_app_nth)
      then have "take (Suc wr) (cv_abs v') = filter keep (take (Suc read) xs)"
        using Suc.prems(5) keep takeS by simp
      moreover have "drop (Suc read) (cv_abs v') = drop (Suc read) xs"
        using w dropS by (simp add: v'(3) drop_update_swap)
      ultimately show ?thesis
        using Suc.hyps(1) [of "Suc read" v' "Suc wr"] Suc.hyps(2) Suc.prems v' idx read False keep w by simp
    qed
  qed
qed

lemma cv_retain_abs:
  assumes "cv_wf v"
  shows "\<exists>v'. cv_retain keep v = Some v' \<and> cv_wf v' \<and> cv_abs v' = filter keep (cv_abs v)"
proof -
  have "cv_len v = length (cv_abs v)" using assms by (simp add: cv_wf_def cv_abs_def)
  with retain_loop_abs [OF assms, of 0 "cv_abs v" 0 keep]
  obtain w v' where "cv_retain_loop keep [0..<cv_len v] 0 v = Some (w, v')" "cv_wf v'"
    "take w (cv_abs v') = filter keep (cv_abs v)" by auto
  then show ?thesis using cv_truncate_abs [of v' w] by (simp add: cv_retain_def)
qed

subsection \<open>The in-place permutation\<close>

text \<open>
  \<open>p j\<close> is the original position of the element that belongs at \<open>j\<close>. Before step \<open>i\<close>, position \<open>x\<close>
  holds the element \<open>c x\<close> of the original list, and the entries of the index list below \<open>i\<close> are
  the swaps made so far: following them from an element that is not placed yet ends at its
  current position, so the loop ends.
\<close>

lemma chase_stop: "\<not> from_ix k < i \<Longrightarrow> chase from_ix q i k = Some k"
  by (simp add: chase.simps)

lemma chase_Suc:
  assumes "chase from_ix q i k = Some y"
    and "\<And>j. j < i \<Longrightarrow> snd (q' ! j) = snd (q ! j)"
  shows "chase from_ix q' (Suc i) k = (if from_ix y = i then chase from_ix q' (Suc i) (snd (q' ! i)) else Some y)"
  using assms
proof (induction rule: chase.raw_induct [rotated, consumes 1, case_names step])
  case (step chase' from_ix q i k y)
  show ?case
  proof (cases "from_ix k < i")
    case True
    then have "chase' from_ix q i (snd (q ! from_ix k)) = Some y" using step by simp
    from step.IH [OF this] show ?thesis using True step.prems
      by (subst chase.simps) simp
  next
    case False
    then have "y = k" using step by simp
    then show ?thesis using False by (subst chase.simps) (auto simp: chase_stop less_Suc_eq)
  qed
qed

definition chase_finds :: "('i \<Rightarrow> nat) \<Rightarrow> ('k \<times> 'i) list \<Rightarrow> nat \<Rightarrow> nat \<Rightarrow> (nat \<Rightarrow> nat) \<Rightarrow> (nat \<Rightarrow> nat) \<Rightarrow> bool" where
  "chase_finds from_ix q n i p c \<longleftrightarrow>
     (\<forall>k. from_ix k < n \<longrightarrow> from_ix k \<notin> p ` {..<i} \<longrightarrow>
        (\<exists>y. chase from_ix q i k = Some y \<and> i \<le> from_ix y \<and> from_ix y < n \<and> c (from_ix y) = from_ix k))"

lemma chase_finds_step:
  assumes finds: "chase_finds from_ix q n i p c" and i: "i < n" "length q = n"
    and y: "i \<le> from_ix y" "from_ix y < n" "c (from_ix y) = p i"
  shows "chase_finds from_ix (q[i := (a, y)]) n (Suc i) p (c(i := c (from_ix y), from_ix y := c i))"
  unfolding chase_finds_def
proof (intro allI impI)
  fix k
  assume k: "from_ix k < n" "from_ix k \<notin> p ` {..<Suc i}"
  then have fresh: "from_ix k \<notin> p ` {..<i}" "from_ix k \<noteq> p i" by (auto simp: lessThan_Suc)
  obtain z where z: "chase from_ix q i k = Some z" "i \<le> from_ix z" "from_ix z < n" "c (from_ix z) = from_ix k"
    using finds k(1) fresh(1) unfolding chase_finds_def by blast
  have step: "chase from_ix (q[i := (a, y)]) (Suc i) k
      = (if from_ix z = i then chase from_ix (q[i := (a, y)]) (Suc i) y else Some z)"
    using chase_Suc [OF z(1), of "q[i := (a, y)]"] i by simp
  show "\<exists>y'. chase from_ix (q[i := (a, y)]) (Suc i) k = Some y' \<and> Suc i \<le> from_ix y' \<and> from_ix y' < n
    \<and> (c(i := c (from_ix y), from_ix y := c i)) (from_ix y') = from_ix k"
  proof (cases "from_ix z = i")
    case True
    then have "from_ix y \<noteq> i" using y(3) z(4) fresh(2) by auto
    then show ?thesis using True y z(4) step by (auto simp: chase_stop)
  next
    case False
    moreover have "from_ix z \<noteq> from_ix y" using y(3) z(4) fresh(2) by auto
    ultimately show ?thesis using z step by auto
  qed
qed

lemma permute_loop_abs:
  assumes "cv_wf v" "length (cv_abs v) = n" "length q = n" "i \<le> n"
    and "inj_on p {..<n}" "\<forall>j < n. p j < n"
    and "\<forall>x < n. cv_abs v ! x = xs ! c x" "\<forall>j < i. c j = p j"
    and "\<forall>j < n. i \<le> j \<longrightarrow> from_ix (snd (q ! j)) = p j"
    and "chase_finds from_ix q n i p c"
  shows "\<exists>v'. permute_loop from_ix [i..<n] q v = Some v' \<and> cv_wf v' \<and> cv_abs v' = map (\<lambda>j. xs ! p j) [0..<n]"
  using assms
proof (induction "n - i" arbitrary: i q v c)
  case 0
  then show ?case by (auto intro: nth_equalityI)
next
  case (Suc m)
  then have i: "i < n" "[i..<n] = i # [Suc i..<n]" by (simp_all add: upt_conv_Cons)
  let ?k = "snd (q ! i)"
  have k: "from_ix ?k = p i" "from_ix ?k < n" using Suc.prems(6,9) i(1) by simp_all
  moreover have "p i \<notin> p ` {..<i}"
    using inj_onD [OF Suc.prems(5), of i] i(1) by (auto simp: image_iff) (metis lessThan_iff less_irrefl less_trans)
  ultimately obtain y where y: "chase from_ix q i ?k = Some y" "i \<le> from_ix y" "from_ix y < n" "c (from_ix y) = p i"
    using Suc.prems(10) unfolding chase_finds_def by metis
  obtain v' where v': "cv_swap i (from_ix y) v = Some v'" "cv_wf v'"
    "cv_abs v' = (cv_abs v)[i := cv_abs v ! from_ix y, from_ix y := cv_abs v ! i]"
    using cv_swap_abs [OF Suc.prems(1), of i "from_ix y"] i(1) y(3) Suc.prems(2) by auto
  let ?q = "q[i := (fst (q ! i), y)]" and ?c = "c(i := c (from_ix y), from_ix y := c i)"
  have "chase_finds from_ix ?q n (Suc i) p ?c"
    by (rule chase_finds_step [OF Suc.prems(10) i(1) Suc.prems(3) y(2-4)])
  moreover have "\<forall>x < n. cv_abs v' ! x = xs ! ?c x"
    using Suc.prems(2,7) i(1) y(3) by (simp add: v'(3) nth_list_update)
  moreover have "\<forall>j < Suc i. ?c j = p j"
    using Suc.prems(8) y(2,4) by (auto simp: less_Suc_eq)
  ultimately have "\<exists>v''. permute_loop from_ix [Suc i..<n] ?q v' = Some v'' \<and> cv_wf v''
      \<and> cv_abs v'' = map (\<lambda>j. xs ! p j) [0..<n]"
    using Suc.hyps Suc.prems i(1) v'(2,3) by (intro Suc.hyps(1) [of "Suc i" v' ?q ?c]) auto
  then show ?case using i(2) y(1) v'(1) by simp
qed

lemma stable_by_pairs:
  fixes f :: "'a \<Rightarrow> 'k::linorder" and to_ix :: "nat \<Rightarrow> 'i::linorder"
  assumes from_to: "\<And>i. i < length xs \<Longrightarrow> from_ix (to_ix i) = i"
    and mono: "\<And>i j. i < j \<Longrightarrow> j < length xs \<Longrightarrow> to_ix i < to_ix j"
  defines "pairs \<equiv> map (\<lambda>(i, k). (k, to_ix i)) (enumerate 0 (map f xs))"
  shows "map (\<lambda>(k, t). xs ! from_ix t) (sort pairs) = sort_key f xs"
proof (rule sym, rule properties_for_sort_key)
  let ?g = "\<lambda>(k, t). xs ! from_ix t"
  have pairs: "pairs = map (\<lambda>i. (f (xs ! i), to_ix i)) [0..<length xs]"
    unfolding pairs_def by (auto intro!: nth_equalityI simp: nth_enumerate_eq)
  have g: "map ?g pairs = xs"
    by (auto simp: pairs from_to intro!: nth_equalityI)
  show "mset (map ?g (sort pairs)) = mset xs"
    using arg_cong [OF g, of mset] by simp
  have fst_g: "f (?g t) = fst t" if "t \<in> set pairs" for t
    using that by (auto simp: pairs from_to)
  have "map f (map ?g (sort pairs)) = map fst (sort pairs)"
    by (simp add: fst_g)
  moreover have "sorted (map fst ys)" if "sorted ys" for ys :: "('k \<times> 'i) list"
    using that by (induction ys) (auto simp: less_eq_prod_def)
  ultimately show "sorted (map f (map ?g (sort pairs)))" by (simp del: map_map)
  show "filter (\<lambda>x. f k = f x) (map ?g (sort pairs)) = filter (\<lambda>x. f k = f x) xs" for k
  proof -
    have srt: "sorted (filter (\<lambda>t. f k = fst t) pairs)"
      unfolding pairs filter_map sorted_map o_def fst_conv
      by (rule sorted_wrt_mono_rel [of _ "(<)"]) (auto simp: less_eq_prod_def intro: less_imp_le mono sorted_wrt_filter)
    have "filter (\<lambda>x. f k = f x) (map ?g (sort pairs)) = map ?g (filter (\<lambda>t. f k = fst t) (sort pairs))"
      unfolding filter_map o_def by (intro arg_cong [of _ _ "map ?g"] filter_cong) (simp_all add: fst_g)
    also have "filter (\<lambda>t. f k = fst t) (sort pairs) = filter (\<lambda>t. f k = fst t) pairs"
      using srt by (simp add: filter_sort sorted_sort_id)
    also have "map ?g (filter (\<lambda>t. f k = fst t) pairs) = filter (\<lambda>x. f k = f x) (map ?g pairs)"
      unfolding filter_map o_def by (intro arg_cong [of _ _ "map ?g"] filter_cong) (simp_all add: fst_g)
    finally show ?thesis unfolding g .
  qed
qed

lemma cv_permute_abs:
  fixes f :: "'a \<Rightarrow> 'k::linorder" and to_ix :: "nat \<Rightarrow> 'i::linorder"
  assumes wf: "cv_wf v"
    and from_to: "\<And>i. i < cv_len v \<Longrightarrow> from_ix (to_ix i) = i"
    and mono: "\<And>i j. i < j \<Longrightarrow> j < cv_len v \<Longrightarrow> to_ix i < to_ix j"
  shows "\<exists>v'. cv_permute_by_key f to_ix from_ix v = Some v' \<and> cv_wf v' \<and> cv_abs v' = sort_key f (cv_abs v)"
proof -
  let ?n = "cv_len v" and ?xs = "cv_abs v"
  have n: "length ?xs = ?n" using wf by (simp add: cv_wf_def cv_abs_def)
  let ?pairs = "map (\<lambda>(i, k). (k, to_ix i)) (enumerate 0 (map f ?xs))"
  let ?q = "sort ?pairs"
  let ?p = "\<lambda>j. from_ix (snd (?q ! j))"
  have len: "length ?q = ?n" by (simp add: n)
  have "mset (map (\<lambda>t. from_ix (snd t)) ?q) = mset (map (\<lambda>t. from_ix (snd t)) ?pairs)"
    by (simp only: mset_map mset_sort)
  also have "map (\<lambda>t. from_ix (snd t)) ?pairs = [0..<?n]"
    using n from_to by (auto intro!: nth_equalityI simp: nth_enumerate_eq)
  finally have perm: "mset (map (\<lambda>t. from_ix (snd t)) ?q) = mset [0..<?n]" .
  have dist: "distinct (map (\<lambda>t. from_ix (snd t)) ?q)"
    using perm mset_eq_imp_distinct_iff distinct_upt by blast
  have ran: "set (map (\<lambda>t. from_ix (snd t)) ?q) = {..<?n}"
    using mset_eq_setD [OF perm] by (simp only: set_upt) auto
  have inj: "inj_on ?p {..<?n}"
    using dist len by (auto simp: inj_on_def distinct_conv_nth)
  have bound: "\<forall>j < ?n. ?p j < ?n"
  proof (intro allI impI)
    fix j
    assume "j < ?n"
    then have "map (\<lambda>t. from_ix (snd t)) ?q ! j \<in> set (map (\<lambda>t. from_ix (snd t)) ?q)"
      using len by (intro nth_mem) simp
    moreover have "map (\<lambda>t. from_ix (snd t)) ?q ! j = ?p j" using \<open>j < ?n\<close> len by (intro nth_map) simp
    ultimately have "?p j \<in> set (map (\<lambda>t. from_ix (snd t)) ?q)" by simp
    then show "?p j < ?n" using ran by blast
  qed
  have "chase_finds from_ix ?q ?n 0 ?p (\<lambda>x. x)" by (simp add: chase_finds_def chase_stop)
  from permute_loop_abs [OF wf n len _ inj bound, of 0 ?xs "\<lambda>x. x", OF _ _ _ _ this]
  obtain v' where v': "permute_loop from_ix [0..<?n] ?q v = Some v'" "cv_wf v'"
    "cv_abs v' = map (\<lambda>j. ?xs ! ?p j) [0..<?n]" by auto
  have "map (\<lambda>j. ?xs ! ?p j) [0..<?n] = map (\<lambda>(k, t). ?xs ! from_ix t) ?q"
    using len by (auto intro!: nth_equalityI simp: case_prod_beta)
  also have "\<dots> = sort_key f ?xs" by (rule stable_by_pairs) (simp_all add: n from_to mono)
  finally show ?thesis using v' by (simp add: cv_permute_by_key_def cv_iter_def cv_abs_def)
qed

lemma cv_sort_abs:
  assumes wf: "cv_wf v"
  shows "\<exists>v'. cv_sort_by_cached_key f v = Some v' \<and> cv_wf v' \<and> cv_abs v' = sort_key f (cv_abs v)"
proof -
  consider "cv_len v < 2" | "2 \<le> cv_len v" "cv_len v < 2 ^ 32" | "2 \<le> cv_len v" "\<not> cv_len v < 2 ^ 32"
    by linarith
  then show ?thesis
  proof cases
    case 1
    then have "length (cv_abs v) < 2" using wf by (simp add: cv_wf_def cv_abs_def)
    then have "sort_key f (cv_abs v) = cv_abs v" by (cases "cv_abs v") auto
    then show ?thesis using 1 wf by (simp add: cv_sort_by_cached_key_def)
  next
    case 2
    then have "\<exists>v'. cv_permute_by_key f (word_of_nat :: nat \<Rightarrow> 32 word) unat v = Some v' \<and> cv_wf v'
        \<and> cv_abs v' = sort_key f (cv_abs v)"
      by (intro cv_permute_abs [OF wf]) (simp_all add: unat_of_nat word_less_nat_alt)
    then show ?thesis using 2 by (simp add: cv_sort_by_cached_key_def)
  next
    case 3
    then have "\<exists>v'. cv_permute_by_key f (\<lambda>i. i) (\<lambda>i. i) v = Some v' \<and> cv_wf v'
        \<and> cv_abs v' = sort_key f (cv_abs v)"
      by (intro cv_permute_abs [OF wf]) simp_all
    then show ?thesis using 3 by (simp add: cv_sort_by_cached_key_def)
  qed
qed

end
