(* ===== verification/Resolve_Graph.thy ===== *)
theory Resolve_Graph
  imports Core_Model Resolve_Chunked
begin

text \<open>
  The data the linker hands to its passes: the linked graph with its counters (\<open>graph.rs\<close>,
  \<open>receiver/stats.rs\<close>), the summary facts of the interprocedural pass (\<open>summary.rs\<close>) and the
  closure that decides which functions an incremental run recomputes (\<open>propagate_dirty\<close>).
\<close>

subsection \<open>Counters\<close>

record cat_stats =
  ct_sites :: nat
  ct_edges_before :: nat
  ct_edges_after :: nat
  ct_dangling :: nat
  ct_dangling_edges_before :: nat
  ct_fallback :: nat
  ct_fallback_edges :: nat

record precision_stats =
  ps_self_cone :: cat_stats
  ps_class_head :: cat_stats
  ps_super_call :: cat_stats
  ps_literal :: cat_stats
  ps_external_module :: cat_stats
  ps_typed_local :: cat_stats
  ps_ctor_call :: cat_stats
  ps_self_field :: cat_stats
  ps_go_vta :: cat_stats
  ps_unknown_base :: cat_stats
  ps_legacy_local :: cat_stats
  ps_legacy_self_chain :: cat_stats
  ps_legacy_chain :: cat_stats
  ps_legacy_anon :: cat_stats
  ps_open_nonclass_bases :: nat
  ps_unknown_bases :: nat
  ps_fqn_collisions :: nat
  ps_spec_ambiguous :: nat
  ps_spec_shadowed :: nat
  ps_floating_classes :: nat

datatype cat =
    SelfCone | ClassHead | Cat_Super | Cat_Literal | ExternalModule | TypedLocal | CtorCall
  | SelfField | GoVta | LegacyLocal | LegacySelfChain | LegacyChain | LegacyAnon

definition precision_rows :: "precision_stats \<Rightarrow> (string \<times> cat_stats) list" where
  "precision_rows s =
     [(''self-cone'', ps_self_cone s), (''class-head'', ps_class_head s), (''super'', ps_super_call s),
      (''literal'', ps_literal s), (''external-module'', ps_external_module s),
      (''typed-local'', ps_typed_local s), (''ctor-call'', ps_ctor_call s),
      (''self-field'', ps_self_field s), (''go-vta'', ps_go_vta s),
      (''fallback:unknown-base'', ps_unknown_base s), (''legacy:local'', ps_legacy_local s),
      (''legacy:self-chain'', ps_legacy_self_chain s), (''legacy:chain'', ps_legacy_chain s),
      (''legacy:anon'', ps_legacy_anon s)]"

definition precision_counts :: "precision_stats \<Rightarrow> (string \<times> nat) list" where
  "precision_counts s =
     [(''open:nonclass-base'', ps_open_nonclass_bases s), (''unknown-base'', ps_unknown_bases s),
      (''fqn-collisions'', ps_fqn_collisions s), (''spec-ambiguous'', ps_spec_ambiguous s),
      (''spec-shadowed'', ps_spec_shadowed s), (''floating-classes'', ps_floating_classes s)]"

text \<open>The mutable borrow of a row is an update of that row.\<close>

fun cat_update :: "cat \<Rightarrow> (cat_stats \<Rightarrow> cat_stats) \<Rightarrow> precision_stats \<Rightarrow> precision_stats" where
  "cat_update SelfCone f s = s\<lparr>ps_self_cone := f (ps_self_cone s)\<rparr>"
| "cat_update ClassHead f s = s\<lparr>ps_class_head := f (ps_class_head s)\<rparr>"
| "cat_update Cat_Super f s = s\<lparr>ps_super_call := f (ps_super_call s)\<rparr>"
| "cat_update Cat_Literal f s = s\<lparr>ps_literal := f (ps_literal s)\<rparr>"
| "cat_update ExternalModule f s = s\<lparr>ps_external_module := f (ps_external_module s)\<rparr>"
| "cat_update TypedLocal f s = s\<lparr>ps_typed_local := f (ps_typed_local s)\<rparr>"
| "cat_update CtorCall f s = s\<lparr>ps_ctor_call := f (ps_ctor_call s)\<rparr>"
| "cat_update SelfField f s = s\<lparr>ps_self_field := f (ps_self_field s)\<rparr>"
| "cat_update GoVta f s = s\<lparr>ps_go_vta := f (ps_go_vta s)\<rparr>"
| "cat_update LegacyLocal f s = s\<lparr>ps_legacy_local := f (ps_legacy_local s)\<rparr>"
| "cat_update LegacySelfChain f s = s\<lparr>ps_legacy_self_chain := f (ps_legacy_self_chain s)\<rparr>"
| "cat_update LegacyChain f s = s\<lparr>ps_legacy_chain := f (ps_legacy_chain s)\<rparr>"
| "cat_update LegacyAnon f s = s\<lparr>ps_legacy_anon := f (ps_legacy_anon s)\<rparr>"

subsection \<open>The linked graph\<close>

record unresolved_ref =
  ur_caller_fqn :: string
  ur_name_path :: "string list"
  ur_span :: span
  ur_marker :: cut_marker
  ur_caller :: node_id

record ifds_dataflow_stats =
  ifd_summaries_computed :: nat
  ifd_summary_edges_materialized :: nat
  ifd_budget_exceeded_sccs :: nat

record dataflow_stats =
  df_functions_recomputed :: nat
  df_functions_reused :: nat

record dataflow_output =
  do_fn_intraproc_cache :: "((string \<times> string) \<times> string) list"
  do_summary_deps :: "(string \<times> string) list"
  do_changed_fns :: "string list"
  do_stats :: dataflow_stats
  do_fn_summaries :: "((string \<times> string) \<times> u8 list) list"
  do_ifds_stats :: ifds_dataflow_stats

record resolved_graph =
  rg_nodes :: "node_with_provenance list"
  rg_edges :: "edge_with_provenance chunked_vec"
  rg_candidates :: "candidate list"
  rg_unresolved :: "unresolved_ref list"
  rg_dataflow :: dataflow_output
  rg_precision :: precision_stats

definition into_linked :: "resolved_graph \<Rightarrow> node_record list \<times> edge_record list \<times> candidate list" where
  "into_linked g = (map np_node (rg_nodes g), map ep_edge (cv_iter (rg_edges g)), rg_candidates g)"

definition node_records :: "resolved_graph \<Rightarrow> node_record list" where
  "node_records g = map np_node (rg_nodes g)"

definition edge_records :: "resolved_graph \<Rightarrow> edge_record list" where
  "edge_records g = map ep_edge (cv_iter (rg_edges g))"

subsection \<open>Summary facts\<close>

datatype formal_out = Return | OutParam u8

record summary_fact =
  sf_formal_in_idx :: u8
  sf_formal_out :: formal_out
  sf_transform :: transform
  sf_condition :: edge_condition

fun join_transform :: "transform \<Rightarrow> transform \<Rightarrow> transform" where
  "join_transform a b =
     (if a = Copy then b else if b = Copy then a else if a = b then a else Other)"

definition join_condition :: "edge_condition \<Rightarrow> edge_condition \<Rightarrow> edge_condition" where
  "join_condition a b = condition_max a b"

declare join_transform.simps [simp del]

lemma join_transform_semilattice:
  "join_transform a (join_transform b c) = join_transform (join_transform a b) c"
  "join_transform a b = join_transform b a"
  "join_transform a a = a"
  by (auto simp: join_transform.simps)

subsection \<open>Dirty functions\<close>

definition dependents_of :: "(string \<times> string) list \<Rightarrow> (string, string list) btree_map" where
  "dependents_of summary_deps =
     fold (\<lambda>(dependent, callee) m. if callee = ''*'' then m else bt_push callee dependent m) summary_deps []"

definition wildcard_dependents :: "(string \<times> string) list \<Rightarrow> string list" where
  "wildcard_dependents summary_deps = map fst (filter (\<lambda>(dependent, callee). callee = ''*'') summary_deps)"

definition mark_dirty :: "'k::linorder \<Rightarrow> 'k list \<times> 'k btree_set \<Rightarrow> 'k list \<times> 'k btree_set" where
  "mark_dirty dep s =
     (let (queue, dirty) = s
      in if dep \<in> set dirty then (queue, dirty) else (queue @ [dep], bs_insert dep dirty))"

lemma mark_all:
  "set (snd (fold mark_dirty deps (q, d))) = set d \<union> set deps"
  "set (fst (fold mark_dirty deps (q, d))) = set q \<union> (set deps - set d)"
  "set deps \<subseteq> set d \<Longrightarrow> fold mark_dirty deps (q, d) = (q, d)"
  "strict_sorted d \<Longrightarrow> strict_sorted (snd (fold mark_dirty deps (q, d)))"
  by (induction deps arbitrary: q d) (auto simp: mark_dirty_def container_simps)

definition all_dependents :: "('k, 'k list) btree_map \<Rightarrow> 'k set" where
  "all_dependents deps = \<Union> (set ` snd ` set deps)"

lemma items_dependents: "set (bt_items deps k) \<subseteq> all_dependents deps"
proof (cases "map_of deps k")
  case (Some xs)
  from map_of_SomeD [OF Some] show ?thesis by (force simp: bt_items_def all_dependents_def Some)
qed (simp add: bt_items_def)

function dirty_loop :: "('k::linorder, 'k list) btree_map \<Rightarrow> 'k list \<Rightarrow> 'k btree_set \<Rightarrow> 'k btree_set" where
  "dirty_loop deps [] dirty = dirty"
| "dirty_loop deps (node # queue) dirty =
     (let s = fold mark_dirty (bt_items deps node) (queue, dirty)
      in dirty_loop deps (fst s) (snd s))"
  by pat_completeness auto
termination
proof (relation "measures [\<lambda>(deps, queue, dirty). card (all_dependents deps - set dirty),
    \<lambda>(deps, queue, dirty). length queue]")
  fix deps :: "('k::linorder, 'k list) btree_map" and node queue dirty s
  assume s: "s = fold mark_dirty (bt_items deps node) (queue, dirty)"
  show "((deps, fst s, snd s), (deps, node # queue, dirty)) \<in> measures
    [\<lambda>(deps, queue, dirty). card (all_dependents deps - set dirty), \<lambda>(deps, queue, dirty). length queue]"
  proof (cases "set (bt_items deps node) \<subseteq> set dirty")
    case True
    then show ?thesis by (simp add: s mark_all(3))
  next
    case False
    have "finite (all_dependents deps)" by (simp add: all_dependents_def)
    moreover have "all_dependents deps - set (snd s) \<subset> all_dependents deps - set dirty"
      using False items_dependents [of deps node] by (auto simp: s mark_all(1))
    ultimately have "card (all_dependents deps - set (snd s)) < card (all_dependents deps - set dirty)"
      by (intro psubset_card_mono) simp_all
    then show ?thesis by (simp add: case_prod_beta)
  qed
qed simp

definition propagate_dirty :: "string list \<Rightarrow> (string \<times> string) list \<Rightarrow> string list" where
  "propagate_dirty seed summary_deps =
     (let s = (seed, bs_collect seed);
          s' = (if seed \<noteq> [] then fold mark_dirty (wildcard_dependents summary_deps) s else s)
      in dirty_loop (dependents_of summary_deps) (fst s') (snd s'))"

text \<open>The relation from a callee to the functions that consume its summary.\<close>

definition consumes :: "(string \<times> string) list \<Rightarrow> (string \<times> string) set" where
  "consumes summary_deps = {(c, d). (d, c) \<in> set summary_deps \<and> c \<noteq> ''*''}"

lemma dependents_rel: "d \<in> set (bt_items (dependents_of summary_deps) c) \<longleftrightarrow> (c, d) \<in> consumes summary_deps"
proof -
  have "set (bt_items (fold (\<lambda>(dependent, callee) m. if callee = ''*'' then m else bt_push callee dependent m) ps m) c)
      = set (bt_items m c) \<union> {d. (d, c) \<in> set ps \<and> c \<noteq> ''*''}" for ps :: "(string \<times> string) list" and m
    by (induction ps arbitrary: m) (auto simp: container_simps split: if_splits)
  then show ?thesis by (simp add: dependents_of_def consumes_def)
qed

lemma dirty_loop_closure:
  assumes "set queue \<subseteq> set dirty" "strict_sorted dirty"
    and "\<And>x y. x \<in> set dirty \<Longrightarrow> x \<notin> set queue \<Longrightarrow> y \<in> set (bt_items deps x) \<Longrightarrow> y \<in> set dirty"
  shows "strict_sorted (dirty_loop deps queue dirty) \<and>
    set (dirty_loop deps queue dirty) = {(x, y). y \<in> set (bt_items deps x)}\<^sup>* `` set dirty"
  using assms
proof (induction deps queue dirty rule: dirty_loop.induct)
  case (1 deps dirty)
  then have "{(x, y). y \<in> set (bt_items deps x)}\<^sup>* `` set dirty \<subseteq> set dirty"
    by (intro Image_closed_trancl [THEN equalityD1]) auto
  then show ?case using 1 by auto
next
  case (2 deps node queue dirty)
  let ?s = "fold mark_dirty (bt_items deps node) (queue, dirty)"
  let ?R = "{(x, y). y \<in> set (bt_items deps x)}"
  have "strict_sorted (dirty_loop deps (fst ?s) (snd ?s)) \<and> set (dirty_loop deps (fst ?s) (snd ?s)) = ?R\<^sup>* `` set (snd ?s)"
  proof (rule "2.IH" [OF refl])
    show "set (fst ?s) \<subseteq> set (snd ?s)" using "2.prems"(1) by (auto simp: mark_all)
    show "strict_sorted (snd ?s)" by (rule mark_all(4) [OF "2.prems"(2)])
    show "y \<in> set (snd ?s)" if "x \<in> set (snd ?s)" "x \<notin> set (fst ?s)" "y \<in> set (bt_items deps x)" for x y
      using that "2.prems"(3) [of x y] by (cases "x = node") (auto simp: mark_all)
  qed
  moreover have "?R\<^sup>* `` set (snd ?s) = ?R\<^sup>* `` set dirty"
    using "2.prems"(1) by (auto simp: mark_all intro: converse_rtrancl_into_rtrancl)
  ultimately show ?case by (simp add: Let_def)
qed

lemma propagate_dirty_set:
  "set (propagate_dirty seed summary_deps) =
     (consumes summary_deps)\<^sup>* `` (set seed \<union> (if seed = [] then {} else {d. (d, ''*'') \<in> set summary_deps}))"
  "strict_sorted (propagate_dirty seed summary_deps)"
proof -
  let ?s = "if seed \<noteq> [] then fold mark_dirty (wildcard_dependents summary_deps) (seed, bs_collect seed)
    else (seed, bs_collect seed)"
  have rel: "{(x, y). y \<in> set (bt_items (dependents_of summary_deps) x)} = consumes summary_deps"
    by (auto simp: dependents_rel)
  have wild: "set (wildcard_dependents summary_deps) = {d. (d, ''*'') \<in> set summary_deps}"
    by (force simp: wildcard_dependents_def)
  have start: "set (snd ?s) = set seed \<union> (if seed = [] then {} else {d. (d, ''*'') \<in> set summary_deps})"
    by (simp add: mark_all wild)
  have "strict_sorted (dirty_loop (dependents_of summary_deps) (fst ?s) (snd ?s)) \<and>
    set (dirty_loop (dependents_of summary_deps) (fst ?s) (snd ?s))
      = {(x, y). y \<in> set (bt_items (dependents_of summary_deps) x)}\<^sup>* `` set (snd ?s)"
    by (rule dirty_loop_closure) (auto simp: mark_all)
  then show "set (propagate_dirty seed summary_deps) =
     (consumes summary_deps)\<^sup>* `` (set seed \<union> (if seed = [] then {} else {d. (d, ''*'') \<in> set summary_deps}))"
    "strict_sorted (propagate_dirty seed summary_deps)"
    unfolding rel start by (simp_all add: propagate_dirty_def Let_def)
qed

end
