(* ===== verification/Resolve_Scc.thy ===== *)
theory Resolve_Scc
  imports Prelude
begin

text \<open>
  Strongly connected components (\<open>graph_alg.rs\<close>): the iterative algorithm of Tarjan with
  its explicit frame stack. The vectors indexed by node position are functions on
  \<^typ>\<open>nat\<close>, the sentinel of an unvisited index is \<^const>\<open>None\<close>, and the two stacks are lists
  with their top in front. The invariant cuts the node stack into one segment per open frame:
  each segment is strongly connected, its oldest node is the frame's, and the low-link of the
  frame bounds the stack edges that leave the segment.
\<close>

subsection \<open>The algorithm\<close>

record tarjan_state =
  tj_idx :: "nat \<Rightarrow> nat option"
  tj_low :: "nat \<Rightarrow> nat"
  tj_on_stack :: "nat \<Rightarrow> bool"
  tj_stack :: "nat list"
  tj_next :: nat
  tj_sccs :: "nat list list"

definition tarjan_init :: tarjan_state where
  "tarjan_init =
     \<lparr>tj_idx = (\<lambda>_. None), tj_low = (\<lambda>_. 0), tj_on_stack = (\<lambda>_. False), tj_stack = [],
      tj_next = 0, tj_sccs = []\<rparr>"

definition index_of :: "'n::linorder list \<Rightarrow> 'n \<Rightarrow> nat option" where
  "index_of node_vec = map_of (zip node_vec [0..<length node_vec])"

definition adjacency :: "'n::linorder btree_set \<Rightarrow> ('n, 'n btree_set) btree_map \<Rightarrow> nat list list" where
  "adjacency nodes succ =
     map (\<lambda>n. case map_of succ n of
         Some ts \<Rightarrow> List.map_filter (index_of nodes) ts
       | None \<Rightarrow> []) nodes"

definition adj_of :: "nat list list \<Rightarrow> nat \<Rightarrow> nat list" where
  "adj_of adj v = (if v < length adj then adj ! v else [])"

definition tarjan_visit :: "nat \<Rightarrow> tarjan_state \<Rightarrow> tarjan_state" where
  "tarjan_visit w st =
     st\<lparr>tj_idx := (tj_idx st)(w := Some (tj_next st)), tj_low := (tj_low st)(w := tj_next st),
        tj_next := tj_next st + 1, tj_stack := w # tj_stack st,
        tj_on_stack := (tj_on_stack st)(w := True)\<rparr>"

text \<open>Popping an empty stack panics in the code; the invariant excludes it.\<close>

fun pop_component :: "nat \<Rightarrow> nat list \<Rightarrow> nat list \<times> nat list" where
  "pop_component v [] = ([], [])"
| "pop_component v (w # ws) =
     (if w = v then ([w], ws) else (let (comp, rest) = pop_component v ws in (w # comp, rest)))"

definition tarjan_emit :: "nat \<Rightarrow> tarjan_state \<Rightarrow> tarjan_state" where
  "tarjan_emit v st =
     (let (comp, rest) = pop_component v (tj_stack st)
      in st\<lparr>tj_stack := rest, tj_on_stack := (\<lambda>x. x \<notin> set comp \<and> tj_on_stack st x),
            tj_sccs := tj_sccs st @ [comp]\<rparr>)"

definition lower_link :: "nat \<Rightarrow> nat \<Rightarrow> tarjan_state \<Rightarrow> tarjan_state" where
  "lower_link v i st = st\<lparr>tj_low := (tj_low st)(v := min (tj_low st v) i)\<rparr>"

definition tarjan_finish :: "nat \<Rightarrow> tarjan_state \<Rightarrow> tarjan_state" where
  "tarjan_finish v st = (if tj_idx st v = Some (tj_low st v) then tarjan_emit v st else st)"

definition relax_parent :: "nat \<Rightarrow> (nat \<times> nat) list \<Rightarrow> tarjan_state \<Rightarrow> tarjan_state" where
  "relax_parent v frames st =
     (case frames of [] \<Rightarrow> st | (p, _) # _ \<Rightarrow> lower_link p (tj_low st v) st)"

text \<open>The nodes that a search can still visit; their number bounds the descents.\<close>

definition tarjan_universe :: "nat list list \<Rightarrow> nat set" where
  "tarjan_universe adj = {..<length adj} \<union> \<Union> (set ` set adj)"

definition tarjan_room :: "nat list list \<Rightarrow> tarjan_state \<Rightarrow> nat" where
  "tarjan_room adj st = card (tarjan_universe adj - {v. tj_idx st v \<noteq> None})"

definition frames_room :: "nat list list \<Rightarrow> (nat \<times> nat) list \<Rightarrow> nat" where
  "frames_room adj frames = sum_list (map (\<lambda>(v, c). Suc (length (adj_of adj v) - c)) frames)"

lemma finite_tarjan_universe: "finite (tarjan_universe adj)"
  by (auto simp: tarjan_universe_def)

lemma adj_of_universe: "w \<in> set (adj_of adj v) \<Longrightarrow> w \<in> tarjan_universe adj"
  by (auto simp: adj_of_def tarjan_universe_def split: if_splits)

lemma idx_emit [simp]: "tj_idx (tarjan_emit v st) = tj_idx st"
  by (simp add: tarjan_emit_def split: prod.split)

lemma idx_finish [simp]: "tj_idx (tarjan_finish v st) = tj_idx st"
  by (simp add: tarjan_finish_def)

lemma idx_lower_link [simp]: "tj_idx (lower_link v i st) = tj_idx st"
  by (simp add: lower_link_def)

lemma idx_relax_parent [simp]: "tj_idx (relax_parent v frames st) = tj_idx st"
  by (simp add: relax_parent_def split: list.split prod.split)

lemma tarjan_room_cong: "tj_idx st' = tj_idx st \<Longrightarrow> tarjan_room adj st' = tarjan_room adj st"
  by (simp add: tarjan_room_def)

lemma tarjan_room_visit:
  assumes "child < length (adj_of adj v)" "tj_idx st (adj_of adj v ! child) = None"
  shows "tarjan_room adj (tarjan_visit (adj_of adj v ! child) st) < tarjan_room adj st"
proof -
  have "adj_of adj v ! child \<in> tarjan_universe adj" by (rule adj_of_universe [OF nth_mem [OF assms(1)]])
  then show ?thesis unfolding tarjan_room_def
    by (intro psubset_card_mono) (use assms(2) finite_tarjan_universe in \<open>auto simp: tarjan_visit_def\<close>)
qed

function tarjan_loop :: "nat list list \<Rightarrow> (nat \<times> nat) list \<Rightarrow> tarjan_state \<Rightarrow> tarjan_state" where
  "tarjan_loop adj [] st = st"
| "tarjan_loop adj ((v, child) # frames) st =
     (if child < length (adj_of adj v) then
        let w = adj_of adj v ! child in
        (case tj_idx st w of
           None \<Rightarrow> tarjan_loop adj ((w, 0) # (v, child + 1) # frames) (tarjan_visit w st)
         | Some i \<Rightarrow> tarjan_loop adj ((v, child + 1) # frames)
             (if tj_on_stack st w then lower_link v i st else st))
      else tarjan_loop adj frames (relax_parent v frames (tarjan_finish v st)))"
  by pat_completeness auto
termination
  by (relation "measures [\<lambda>(adj, frames, st). tarjan_room adj st, \<lambda>(adj, frames, st). frames_room adj frames]")
    (auto simp: tarjan_room_visit frames_room_def tarjan_room_cong [of "lower_link _ _ _"]
      tarjan_room_cong [of "relax_parent _ _ _"])

definition tarjan_start :: "nat list list \<Rightarrow> nat \<Rightarrow> tarjan_state \<Rightarrow> tarjan_state" where
  "tarjan_start adj start st =
     (if tj_idx st start \<noteq> None then st else tarjan_loop adj [(start, 0)] (tarjan_visit start st))"

definition tarjan_sccs :: "'n::linorder btree_set \<Rightarrow> ('n, 'n btree_set) btree_map \<Rightarrow> 'n list list" where
  "tarjan_sccs nodes succ =
     (let st = fold (tarjan_start (adjacency nodes succ)) [0..<length nodes] tarjan_init
      in map (\<lambda>comp. sort (map (\<lambda>i. nodes ! i) comp)) (tj_sccs st))"

subsection \<open>The invariant\<close>

definition adj_rel :: "nat list list \<Rightarrow> (nat \<times> nat) set" where
  "adj_rel adj = {(u, w). w \<in> set (adj_of adj u)}"

definition mutually :: "nat list list \<Rightarrow> nat set \<Rightarrow> bool" where
  "mutually adj S \<longleftrightarrow> (\<forall>x \<in> S. \<forall>y \<in> S. (x, y) \<in> (adj_rel adj)\<^sup>*)"

definition done_set :: "tarjan_state \<Rightarrow> nat set" where
  "done_set st = set (concat (tj_sccs st))"

definition num :: "tarjan_state \<Rightarrow> nat \<Rightarrow> nat" where
  "num st x = (case tj_idx st x of Some i \<Rightarrow> i | None \<Rightarrow> 0)"

text \<open>The emitted components: disjoint, strongly connected, closed under successors.\<close>

definition emitted_ok :: "nat list list \<Rightarrow> nat list list \<Rightarrow> bool" where
  "emitted_ok adj sccs \<longleftrightarrow>
     distinct (concat sccs) \<and> [] \<notin> set sccs \<and> (\<forall>comp \<in> set sccs. mutually adj (set comp)) \<and>
     (\<forall>k < length sccs. \<forall>x \<in> set (sccs ! k). set (adj_of adj x) \<subseteq> set (concat (take (Suc k) sccs)))"

definition stack_ok :: "nat list list \<Rightarrow> tarjan_state \<Rightarrow> bool" where
  "stack_ok adj st \<longleftrightarrow>
     sorted_wrt (\<lambda>x y. num st y < num st x) (tj_stack st) \<and>
     set (tj_stack st) \<inter> done_set st = {} \<and>
     (\<forall>x. tj_idx st x = None \<longleftrightarrow> x \<notin> set (tj_stack st) \<and> x \<notin> done_set st) \<and>
     (\<forall>x. tj_on_stack st x \<longleftrightarrow> x \<in> set (tj_stack st)) \<and>
     (\<forall>x. tj_idx st x \<noteq> None \<longrightarrow> num st x < tj_next st)"

definition explored :: "nat list list \<Rightarrow> nat \<times> nat \<Rightarrow> nat \<Rightarrow> nat set" where
  "explored adj frame x =
     (if x = fst frame then set (take (snd frame) (adj_of adj x)) else set (adj_of adj x))"

text \<open>One segment of the stack with its open frame.\<close>

definition segment_ok :: "nat list list \<Rightarrow> tarjan_state \<Rightarrow> nat list \<Rightarrow> nat \<times> nat \<Rightarrow> bool" where
  "segment_ok adj st seg frame \<longleftrightarrow>
     seg \<noteq> [] \<and> last seg = fst frame \<and> mutually adj (set seg) \<and>
     tj_low st (fst frame) \<le> num st (fst frame) \<and>
     (\<exists>y \<in> set (tj_stack st). tj_low st (fst frame) = num st y \<and> (fst frame, y) \<in> (adj_rel adj)\<^sup>*) \<and>
     (\<forall>x \<in> set seg. \<forall>w \<in> explored adj frame x.
        w \<in> done_set st \<or> w \<in> set (tj_stack st) \<and> tj_low st (fst frame) \<le> num st w)"

definition frames_linked :: "nat list list \<Rightarrow> (nat \<times> nat) list \<Rightarrow> bool" where
  "frames_linked adj frames = successively (\<lambda>f g. (fst g, fst f) \<in> adj_rel adj) frames"

definition tarjan_inv ::
  "nat list list \<Rightarrow> nat list list \<Rightarrow> (nat \<times> nat) list \<Rightarrow> tarjan_state \<Rightarrow> bool" where
  "tarjan_inv adj segs frames st \<longleftrightarrow>
     tj_stack st = concat segs \<and> list_all2 (segment_ok adj st) segs frames \<and>
     frames_linked adj frames \<and> emitted_ok adj (tj_sccs st) \<and> stack_ok adj st"

lemma tarjan_invI:
  assumes "tj_stack st = concat segs" "list_all2 (segment_ok adj st) segs frames"
    "frames_linked adj frames" "emitted_ok adj (tj_sccs st)" "stack_ok adj st"
  shows "tarjan_inv adj segs frames st"
  using assms by (simp add: tarjan_inv_def)

lemma mutually_single: "mutually adj {v}"
  by (simp add: mutually_def)

lemma mutually_union:
  assumes "mutually adj S" "mutually adj T" "s \<in> S" "t \<in> T"
    and "(s, t) \<in> (adj_rel adj)\<^sup>*" "(t, s) \<in> (adj_rel adj)\<^sup>*"
  shows "mutually adj (S \<union> T)"
proof -
  have "(x, s) \<in> (adj_rel adj)\<^sup>* \<and> (s, x) \<in> (adj_rel adj)\<^sup>*" if "x \<in> S \<union> T" for x
    using that assms by (auto simp: mutually_def intro: rtrancl_trans)
  then show ?thesis by (auto simp: mutually_def intro: rtrancl_trans)
qed

text \<open>
  The invariant of a segment carries over to a later state: links and numbers of the old nodes
  are unchanged, a node leaves the stack only into an emitted component, and the nodes at or
  below the segment's frame stay on the stack.
\<close>

lemma segment_ok_mono:
  assumes "segment_ok adj st seg frame"
    and "tj_low st' (fst frame) = tj_low st (fst frame)"
    and "\<And>x. x \<in> set (tj_stack st) \<Longrightarrow> num st' x = num st x"
    and "done_set st \<subseteq> done_set st'" "set (tj_stack st) \<subseteq> done_set st' \<union> set (tj_stack st')"
    and "\<And>y. y \<in> set (tj_stack st) \<Longrightarrow> num st y \<le> num st (fst frame) \<Longrightarrow> y \<in> set (tj_stack st')"
    and "set seg \<subseteq> set (tj_stack st)"
  shows "segment_ok adj st' seg frame"
proof -
  have "fst frame \<in> set seg" using assms(1) by (auto simp: segment_ok_def dest: last_in_set)
  then have frame: "num st' (fst frame) = num st (fst frame)" using assms(3,7) by blast
  show ?thesis unfolding segment_ok_def
  proof (intro conjI)
    show "seg \<noteq> []" "last seg = fst frame" "mutually adj (set seg)"
      using assms(1) by (simp_all add: segment_ok_def)
    show "tj_low st' (fst frame) \<le> num st' (fst frame)"
      using assms(1,2) frame by (simp add: segment_ok_def)
    obtain y where y: "y \<in> set (tj_stack st)" "tj_low st (fst frame) = num st y"
      "(fst frame, y) \<in> (adj_rel adj)\<^sup>*" using assms(1) unfolding segment_ok_def by blast
    then have "num st y \<le> num st (fst frame)" using assms(1) by (simp add: segment_ok_def)
    then show "\<exists>y \<in> set (tj_stack st'). tj_low st' (fst frame) = num st' y \<and> (fst frame, y) \<in> (adj_rel adj)\<^sup>*"
      using y assms(2,3,6) by (metis)
    show "\<forall>x \<in> set seg. \<forall>w \<in> explored adj frame x.
        w \<in> done_set st' \<or> w \<in> set (tj_stack st') \<and> tj_low st' (fst frame) \<le> num st' w"
      using assms(1,2,3,4,5) unfolding segment_ok_def by (metis Un_iff subsetD)
  qed
qed

lemma segment_advance:
  assumes "segment_ok adj st seg (v, c)" "c < length (adj_of adj v)"
    and "adj_of adj v ! c \<in> done_set st
      \<or> adj_of adj v ! c \<in> set (tj_stack st) \<and> tj_low st v \<le> num st (adj_of adj v ! c)"
  shows "segment_ok adj st seg (v, Suc c)"
proof -
  have "explored adj (v, Suc c) x \<subseteq> insert (adj_of adj v ! c) (explored adj (v, c) x)" if "x = v" for x
    using that assms(2) by (simp add: explored_def take_Suc_conv_app_nth)
  moreover have "explored adj (v, Suc c) x = explored adj (v, c) x" if "x \<noteq> v" for x
    using that by (simp add: explored_def)
  ultimately have cases: "w = adj_of adj v ! c \<or> w \<in> explored adj (v, c) x"
    if "w \<in> explored adj (v, Suc c) x" for x w using that by blast
  have "\<forall>x \<in> set seg. \<forall>w \<in> explored adj (v, Suc c) x.
      w \<in> done_set st \<or> w \<in> set (tj_stack st) \<and> tj_low st v \<le> num st w"
  proof (intro ballI)
    fix x w
    assume "x \<in> set seg" "w \<in> explored adj (v, Suc c) x"
    from cases [OF this(2)] this(1) assms(1,3)
    show "w \<in> done_set st \<or> w \<in> set (tj_stack st) \<and> tj_low st v \<le> num st w"
      unfolding segment_ok_def fst_conv by blast
  qed
  then show ?thesis using assms(1) unfolding segment_ok_def fst_conv by blast
qed

subsection \<open>The stack\<close>

lemma sorted_num_distinct: "sorted_wrt (\<lambda>x y. f y < (f x :: nat)) xs \<Longrightarrow> distinct xs"
  by (induction xs) auto

lemma inv_stack_sorted: "tarjan_inv adj segs frames st \<Longrightarrow> sorted_wrt (\<lambda>x y. num st y < num st x) (concat segs)"
  unfolding tarjan_inv_def stack_ok_def by metis

lemma inv_stack_distinct: "tarjan_inv adj segs frames st \<Longrightarrow> distinct (concat segs)"
  by (rule sorted_num_distinct) (rule inv_stack_sorted)

lemma segment_frame: "segment_ok adj st seg frame \<Longrightarrow> fst frame \<in> set seg"
  by (auto simp: segment_ok_def dest: last_in_set)

lemma segments_frames:
  assumes "list_all2 (segment_ok adj st) segs frames"
  shows "f \<in> set frames \<Longrightarrow> fst f \<in> set (concat segs)"
    and "y \<in> set (concat segs) \<Longrightarrow> \<exists>f \<in> set frames. (y, fst f) \<in> (adj_rel adj)\<^sup>*"
  using assms
proof (induction rule: list_all2_induct)
  case (Cons seg segs frame frames)
  { case 1 then show ?case using Cons segment_frame [OF Cons(1)] by auto }
  { case 2
    then show ?case
    proof (cases "y \<in> set seg")
      case True
      then have "(y, fst frame) \<in> (adj_rel adj)\<^sup>*"
        using Cons(1) segment_frame [OF Cons(1)] by (simp add: segment_ok_def mutually_def)
      then show ?thesis by auto
    next
      case False
      then show ?thesis using 2 Cons by auto
    qed }
qed simp_all

lemma linked_reach:
  "frames_linked adj (f # frames) \<Longrightarrow> g \<in> set frames \<Longrightarrow> (fst g, fst f) \<in> (adj_rel adj)\<^sup>*"
proof (induction frames arbitrary: f)
  case (Cons h frames)
  then have "(fst h, fst f) \<in> adj_rel adj" "frames_linked adj (h # frames)"
    by (simp_all add: frames_linked_def)
  moreover have "(fst g, fst h) \<in> (adj_rel adj)\<^sup>*"
    using Cons.IH [OF \<open>frames_linked adj (h # frames)\<close>] Cons.prems(2) by auto
  ultimately show ?case by (meson rtrancl_into_rtrancl)
qed simp

text \<open>Every node of the stack below the top frame reaches the top frame.\<close>

lemma stack_reach:
  assumes "list_all2 (segment_ok adj st) segs frames" "frames_linked adj frames"
    and "frames = f # frames'" "y \<in> set (concat segs)"
  shows "(y, fst f) \<in> (adj_rel adj)\<^sup>*"
proof -
  obtain g where g: "g \<in> set frames" "(y, fst g) \<in> (adj_rel adj)\<^sup>*"
    using segments_frames(2) [OF assms(1,4)] by blast
  then show ?thesis using linked_reach [of adj f frames' g] assms(2,3) by (auto intro: rtrancl_trans)
qed

subsection \<open>The steps keep the invariant\<close>

lemma visit_fields [simp]:
  "tj_idx (tarjan_visit w st) = (tj_idx st)(w := Some (tj_next st))"
  "tj_low (tarjan_visit w st) = (tj_low st)(w := tj_next st)"
  "tj_on_stack (tarjan_visit w st) = (tj_on_stack st)(w := True)"
  "tj_stack (tarjan_visit w st) = w # tj_stack st"
  "tj_next (tarjan_visit w st) = Suc (tj_next st)"
  "tj_sccs (tarjan_visit w st) = tj_sccs st"
  by (simp_all add: tarjan_visit_def)

lemma done_set_visit [simp]: "done_set (tarjan_visit w st) = done_set st"
  by (simp add: done_set_def)

lemma num_visit: "num (tarjan_visit w st) x = (if x = w then tj_next st else num st x)"
  by (simp add: num_def)

lemma stack_ok_visit:
  assumes "stack_ok adj st" "tj_idx st w = None"
  shows "stack_ok adj (tarjan_visit w st)"
proof -
  have new: "w \<notin> set (tj_stack st)" "w \<notin> done_set st" using assms by (auto simp: stack_ok_def)
  have below: "num st x < tj_next st" if "x \<in> set (tj_stack st)" for x
    using that assms(1) by (auto simp: stack_ok_def)
  have "sorted_wrt (\<lambda>x y. num (tarjan_visit w st) y < num (tarjan_visit w st) x) (tj_stack st)"
    using assms(1) new by (auto simp: stack_ok_def num_visit elim!: sorted_wrt_mono_rel [rotated])
  then have "sorted_wrt (\<lambda>x y. num (tarjan_visit w st) y < num (tarjan_visit w st) x) (w # tj_stack st)"
    using below new by (auto simp: num_visit)
  then show ?thesis
    using assms new unfolding stack_ok_def done_set_visit
    by (auto simp: num_visit less_Suc_eq split: if_splits)
qed

lemma inv_visit:
  assumes "tarjan_inv adj segs frames st" "tj_idx st w = None"
    and "\<And>f frames'. frames = f # frames' \<Longrightarrow> (fst f, w) \<in> adj_rel adj"
  shows "tarjan_inv adj ([w] # segs) ((w, 0) # frames) (tarjan_visit w st)"
proof (rule tarjan_invI)
  have new: "w \<notin> set (tj_stack st)" using assms(1,2) by (auto simp: tarjan_inv_def stack_ok_def)
  show "tj_stack (tarjan_visit w st) = concat ([w] # segs)"
    using assms(1) by (simp add: tarjan_inv_def)
  show "frames_linked adj ((w, 0) # frames)"
    using assms(1,3) by (cases frames) (auto simp: tarjan_inv_def frames_linked_def)
  show "emitted_ok adj (tj_sccs (tarjan_visit w st))"
    using assms(1) by (simp add: tarjan_inv_def)
  show "stack_ok adj (tarjan_visit w st)"
    using assms(1,2) by (intro stack_ok_visit) (simp_all add: tarjan_inv_def)
  have stack: "tj_stack st = concat segs" and segs: "list_all2 (segment_ok adj st) segs frames"
    using assms(1) by (simp_all add: tarjan_inv_def)
  have "list_all2 (segment_ok adj (tarjan_visit w st)) segs frames"
  proof (rule list.rel_mono_strong [OF segs])
    fix seg f
    assume seg: "seg \<in> set segs" and ok: "segment_ok adj st seg f"
    have sub: "set seg \<subseteq> set (tj_stack st)" using seg stack by auto
    then have "fst f \<noteq> w" using segment_frame [OF ok] new by blast
    then show "segment_ok adj (tarjan_visit w st) seg f"
      using new sub by (intro segment_ok_mono [OF ok]) (auto simp: num_visit)
  qed
  moreover have "segment_ok adj (tarjan_visit w st) [w] (w, 0)"
    by (auto simp: segment_ok_def mutually_single explored_def num_visit)
  ultimately show "list_all2 (segment_ok adj (tarjan_visit w st)) ([w] # segs) ((w, 0) # frames)" by simp
qed

lemma lower_link_fields [simp]:
  "tj_low (lower_link v i st) = (tj_low st)(v := min (tj_low st v) i)"
  "tj_on_stack (lower_link v i st) = tj_on_stack st"
  "tj_stack (lower_link v i st) = tj_stack st"
  "tj_next (lower_link v i st) = tj_next st"
  "tj_sccs (lower_link v i st) = tj_sccs st"
  "done_set (lower_link v i st) = done_set st"
  "num (lower_link v i st) = num st"
  by (simp_all add: lower_link_def done_set_def num_def fun_eq_iff)

lemma stack_ok_lower_link: "stack_ok adj (lower_link v i st) = stack_ok adj st"
  by (simp add: stack_ok_def)

lemma inv_fields:
  assumes "tarjan_inv adj segs frames st"
  shows "tj_stack st = concat segs" "list_all2 (segment_ok adj st) segs frames"
    "frames_linked adj frames" "emitted_ok adj (tj_sccs st)" "stack_ok adj st"
  using assms by (simp_all add: tarjan_inv_def)

text \<open>Lowering the link of a node outside some segments does not touch them.\<close>

lemma segments_lower_link:
  assumes "list_all2 (segment_ok adj st) segs frames" "v \<notin> set (concat segs)"
    and "set (concat segs) \<subseteq> set (tj_stack st)"
  shows "list_all2 (segment_ok adj (lower_link v i st)) segs frames"
proof (rule list.rel_mono_strong [OF assms(1)])
  fix seg f
  assume seg: "seg \<in> set segs" and ok: "segment_ok adj st seg f"
  have "fst f \<noteq> v" using segment_frame [OF ok] seg assms(2) by auto
  moreover have "set seg \<subseteq> set (tj_stack st)" using seg assms(3) by auto
  ultimately show "segment_ok adj (lower_link v i st) seg f"
    by (intro segment_ok_mono [OF ok]) auto
qed

lemma segment_lower_link:
  assumes "segment_ok adj st seg (v, c)" "y \<in> set (tj_stack st)" "(v, y) \<in> (adj_rel adj)\<^sup>*"
  shows "segment_ok adj (lower_link v (num st y) st) seg (v, c)"
proof -
  have "\<exists>z \<in> set (tj_stack st). min (tj_low st v) (num st y) = num st z \<and> (v, z) \<in> (adj_rel adj)\<^sup>*"
    using assms unfolding segment_ok_def min_def by auto
  then show ?thesis using assms(1) unfolding segment_ok_def
    by (auto intro: min.coboundedI1)
qed

lemma inv_seen:
  assumes inv: "tarjan_inv adj segs ((v, c) # frames) st" and c: "c < length (adj_of adj v)"
    and seen: "tj_idx st (adj_of adj v ! c) = Some i"
  shows "tarjan_inv adj segs ((v, Suc c) # frames)
    (if tj_on_stack st (adj_of adj v ! c) then lower_link v i st else st)"
proof -
  let ?w = "adj_of adj v ! c"
  obtain seg segs' where segs: "segs = seg # segs'" and seg: "segment_ok adj st seg (v, c)"
    and rest: "list_all2 (segment_ok adj st) segs' frames"
    using inv_fields(2) [OF inv] by (auto simp: list_all2_Cons2)
  have i: "i = num st ?w" using seen by (simp add: num_def)
  have w: "(v, ?w) \<in> (adj_rel adj)\<^sup>*" using c by (auto simp: adj_rel_def)
  note ok = inv_fields(5) [OF inv]
  have linked: "frames_linked adj ((v, Suc c) # frames)"
    using inv_fields(3) [OF inv] by (cases frames) (simp_all add: frames_linked_def)
  show ?thesis
  proof (cases "tj_on_stack st ?w")
    case True
    then have mem: "?w \<in> set (tj_stack st)" using ok by (simp add: stack_ok_def)
    have "v \<in> set seg" using segment_frame [OF seg] by simp
    then have "v \<notin> set (concat segs')" using inv_stack_distinct [OF inv] segs by auto
    moreover have "set (concat segs') \<subseteq> set (tj_stack st)" using inv_fields(1) [OF inv] segs by auto
    ultimately have rest': "list_all2 (segment_ok adj (lower_link v i st)) segs' frames"
      by (rule segments_lower_link [OF rest])
    have "segment_ok adj (lower_link v i st) seg (v, c)"
      unfolding i by (rule segment_lower_link [OF seg mem w])
    then have "segment_ok adj (lower_link v i st) seg (v, Suc c)"
      by (rule segment_advance [OF _ c]) (simp add: mem i)
    then show ?thesis
      using rest' inv True segs linked by (simp add: tarjan_inv_def stack_ok_lower_link)
  next
    case False
    then have "?w \<in> done_set st" using ok seen unfolding stack_ok_def by (metis option.distinct(1))
    then have "segment_ok adj st seg (v, Suc c)" by (intro segment_advance [OF seg c]) simp
    then show ?thesis using rest inv False segs linked by (simp add: tarjan_inv_def)
  qed
qed

lemma inv_descend:
  assumes inv: "tarjan_inv adj segs ((v, c) # frames) st" and c: "c < length (adj_of adj v)"
    and fresh: "tj_idx st (adj_of adj v ! c) = None"
  shows "tarjan_inv adj ([adj_of adj v ! c] # segs) ((adj_of adj v ! c, 0) # (v, Suc c) # frames)
    (tarjan_visit (adj_of adj v ! c) st)"
proof -
  let ?w = "adj_of adj v ! c"
  have edge: "(v, ?w) \<in> adj_rel adj" using c by (simp add: adj_rel_def)
  then have new: "tarjan_inv adj ([?w] # segs) ((?w, 0) # (v, c) # frames) (tarjan_visit ?w st)"
    by (intro inv_visit [OF inv fresh]) auto
  obtain seg segs' where segs: "segs = seg # segs'" and seg: "segment_ok adj (tarjan_visit ?w st) seg (v, c)"
    and rest: "list_all2 (segment_ok adj (tarjan_visit ?w st)) segs' frames"
    using inv_fields(2) [OF new] by (auto simp: list_all2_Cons2)
  obtain s1 where old: "segment_ok adj st s1 (v, c)" "s1 = seg"
    using inv_fields(2) [OF inv] segs by auto
  have v: "v \<in> set (tj_stack st)" using segment_frame [OF old(1)] old(2) segs inv_fields(1) [OF inv] by auto
  then have "num st v < tj_next st" "v \<noteq> ?w" using inv_fields(5) [OF inv] fresh by (auto simp: stack_ok_def)
  moreover have "tj_low st v \<le> num st v" using old by (simp add: segment_ok_def)
  ultimately have "segment_ok adj (tarjan_visit ?w st) seg (v, Suc c)"
    by (intro segment_advance [OF seg c]) (simp add: num_visit)
  moreover have "frames_linked adj ((?w, 0) # (v, Suc c) # frames)"
    using inv_fields(3) [OF new] by (cases frames) (simp_all add: frames_linked_def)
  ultimately show ?thesis
    using new rest segs by (auto simp: tarjan_inv_def)
qed

text \<open>At the root of a component its segment is emitted.\<close>

lemma pop_component_segment:
  "distinct (seg @ rest) \<Longrightarrow> seg \<noteq> [] \<Longrightarrow> pop_component (last seg) (seg @ rest) = (seg, rest)"
proof (induction seg)
  case (Cons x seg)
  then show ?case by (cases "seg = []") auto
qed simp

lemma emitted_ok_snoc:
  assumes "emitted_ok adj sccs" "distinct scc" "scc \<noteq> []" "mutually adj (set scc)"
    and "set scc \<inter> set (concat sccs) = {}"
    and "\<And>x. x \<in> set scc \<Longrightarrow> set (adj_of adj x) \<subseteq> set (concat sccs) \<union> set scc"
  shows "emitted_ok adj (sccs @ [scc])"
proof -
  have "set (adj_of adj x) \<subseteq> set (concat (take (Suc k) (sccs @ [scc])))"
    if "k < length (sccs @ [scc])" "x \<in> set ((sccs @ [scc]) ! k)" for k x
    using that assms(1,6) by (cases "k < length sccs") (auto simp: emitted_ok_def nth_append less_Suc_eq)
  moreover have "set (concat sccs) \<inter> set scc = {}" using assms(5) by blast
  ultimately show ?thesis using assms by (simp add: emitted_ok_def)
qed

lemma above_frame:
  assumes "sorted_wrt (\<lambda>x y. num st y < num st x) (seg @ rest)" "seg \<noteq> []" "w \<in> set (seg @ rest)"
    and "num st (last seg) \<le> num st w"
  shows "w \<in> set seg"
proof (rule ccontr)
  assume "w \<notin> set seg"
  then have "w \<in> set rest" using assms(3) by simp
  then have "num st w < num st (last seg)" using assms(1,2) by (auto simp: sorted_wrt_append)
  then show False using assms(4) by simp
qed

lemma emit_fields:
  assumes "pop_component v (tj_stack st) = (scc, rest)"
  shows "tj_stack (tarjan_emit v st) = rest" "tj_sccs (tarjan_emit v st) = tj_sccs st @ [scc]"
    "tj_low (tarjan_emit v st) = tj_low st" "num (tarjan_emit v st) = num st"
    "tj_next (tarjan_emit v st) = tj_next st" "done_set (tarjan_emit v st) = done_set st \<union> set scc"
    "tj_on_stack (tarjan_emit v st) = (\<lambda>x. x \<notin> set scc \<and> tj_on_stack st x)"
  using assms by (simp_all add: tarjan_emit_def num_def done_set_def fun_eq_iff)

lemma inv_root:
  assumes inv: "tarjan_inv adj segs ((v, c) # frames) st" and c: "\<not> c < length (adj_of adj v)"
    and root: "tj_low st v = num st v"
  shows "tarjan_inv adj (tl segs) frames (tarjan_emit v st)"
proof -
  obtain seg segs' where segs: "segs = seg # segs'" and seg: "segment_ok adj st seg (v, c)"
    and rest: "list_all2 (segment_ok adj st) segs' frames"
    using inv_fields(2) [OF inv] by (auto simp: list_all2_Cons2)
  have stack: "tj_stack st = seg @ concat segs'" using inv_fields(1) [OF inv] segs by simp
  have sorted: "sorted_wrt (\<lambda>x y. num st y < num st x) (seg @ concat segs')"
    using inv_stack_sorted [OF inv] segs by simp
  have dist: "distinct (seg @ concat segs')" using inv_stack_distinct [OF inv] segs by simp
  have seg_v: "seg \<noteq> []" "last seg = v" "mutually adj (set seg)" using seg by (auto simp: segment_ok_def)
  have pop: "pop_component v (tj_stack st) = (seg, concat segs')"
    using pop_component_segment [OF dist seg_v(1)] stack seg_v(2) by simp
  note fields = emit_fields [OF pop]
  note ok = inv_fields(5) [OF inv]
  have out: "w \<in> done_set st \<union> set seg" if "x \<in> set seg" "w \<in> set (adj_of adj x)" for x w
  proof -
    have "w \<in> explored adj (v, c) x" using that(2) c by (auto simp: explored_def)
    then have "w \<in> done_set st \<or> w \<in> set (tj_stack st) \<and> num st v \<le> num st w"
      using seg that(1) root unfolding segment_ok_def by force
    then show ?thesis using above_frame [OF sorted seg_v(1)] stack seg_v(2) by auto
  qed
  have closed: "set (adj_of adj x) \<subseteq> set (concat (tj_sccs st)) \<union> set seg" if "x \<in> set seg" for x
    using out [OF that] unfolding done_set_def by blast
  have disj: "set seg \<inter> done_set st = {}" using ok stack by (auto simp: stack_ok_def)
  have below: "y \<in> set (concat segs')" if "y \<in> set (tj_stack st)" "num st y \<le> num st (fst f)" "f \<in> set frames" for y f
  proof -
    have "fst f \<in> set (concat segs')" by (rule segments_frames(1) [OF rest that(3)])
    then have "num st (fst f) < num st z" if "z \<in> set seg" for z
      using sorted that by (auto simp: sorted_wrt_append)
    then show ?thesis using that stack by fastforce
  qed
  show ?thesis
  proof (rule tarjan_invI)
    show "tj_stack (tarjan_emit v st) = concat (tl segs)" by (simp add: fields segs)
    show "frames_linked adj frames"
      using inv_fields(3) [OF inv] by (cases frames) (simp_all add: frames_linked_def)
    show "emitted_ok adj (tj_sccs (tarjan_emit v st))"
      unfolding fields
    proof (rule emitted_ok_snoc [OF inv_fields(4) [OF inv] _ seg_v(1,3) _ closed])
      show "distinct seg" "set seg \<inter> set (concat (tj_sccs st)) = {}"
        using dist disj by (simp_all add: done_set_def)
    qed
    show "stack_ok adj (tarjan_emit v st)"
      using ok sorted stack dist unfolding stack_ok_def fields idx_emit
      by (auto simp: sorted_wrt_append)
    have "list_all2 (segment_ok adj (tarjan_emit v st)) segs' frames"
    proof (rule list.rel_mono_strong [OF rest])
      fix s f
      assume s: "s \<in> set segs'" and f: "f \<in> set frames" and okf: "segment_ok adj st s f"
      have "set s \<subseteq> set (tj_stack st)" using s stack by auto
      then show "segment_ok adj (tarjan_emit v st) s f"
        using below [OF _ _ f] stack by (intro segment_ok_mono [OF okf]) (auto simp: fields)
    qed
    then show "list_all2 (segment_ok adj (tarjan_emit v st)) (tl segs) frames" by (simp add: segs)
  qed
qed

text \<open>Elsewhere the segment joins the one below it.\<close>

lemma inv_merge:
  assumes inv: "tarjan_inv adj segs ((v, c) # frames) st" and c: "\<not> c < length (adj_of adj v)"
    and low: "tj_low st v \<noteq> num st v"
  shows "\<exists>p d frames' segs'. frames = (p, d) # frames' \<and>
    tarjan_inv adj segs' frames (lower_link p (tj_low st v) st)"
proof -
  obtain seg segs' where segs: "segs = seg # segs'" and seg: "segment_ok adj st seg (v, c)"
    and rest: "list_all2 (segment_ok adj st) segs' frames"
    using inv_fields(2) [OF inv] by (auto simp: list_all2_Cons2)
  have stack: "tj_stack st = seg @ concat segs'" using inv_fields(1) [OF inv] segs by simp
  have sorted: "sorted_wrt (\<lambda>x y. num st y < num st x) (seg @ concat segs')"
    using inv_stack_sorted [OF inv] segs by simp
  have dist: "distinct (seg @ concat segs')" using inv_stack_distinct [OF inv] segs by simp
  obtain y where y: "y \<in> set (tj_stack st)" "tj_low st v = num st y" "(v, y) \<in> (adj_rel adj)\<^sup>*"
    using seg by (auto simp: segment_ok_def)
  have "num st y < num st v" using seg low y(2) by (simp add: segment_ok_def)
  moreover have "num st v \<le> num st x" if "x \<in> set seg" for x
  proof -
    have "seg = butlast seg @ [v]" using seg by (metis append_butlast_last_id fst_conv segment_ok_def)
    then have "x \<in> set (butlast seg) \<or> x = v" using that by (metis Un_iff empty_iff insert_iff list.set(1,2) set_append)
    moreover have "sorted_wrt (\<lambda>x y. num st y < num st x) (butlast seg @ [v])"
      using sorted \<open>seg = _\<close> by (metis sorted_wrt_append)
    ultimately show ?thesis by (auto simp: sorted_wrt_append)
  qed
  ultimately have yrest: "y \<in> set (concat segs')" using y(1) stack by fastforce
  then have "segs' \<noteq> []" by auto
  then obtain seg2 segs2 where segs': "segs' = seg2 # segs2" by (cases segs') auto
  then obtain p d frames' where frames: "frames = (p, d) # frames'"
    and seg2: "segment_ok adj st seg2 (p, d)" and rest2: "list_all2 (segment_ok adj st) segs2 frames'"
    using rest by (cases frames) auto
  have linked: "frames_linked adj ((p, d) # frames')" "(p, v) \<in> adj_rel adj"
    using inv_fields(3) [OF inv] by (simp_all add: frames frames_linked_def)
  have "(y, p) \<in> (adj_rel adj)\<^sup>*"
    using stack_reach [OF rest _ frames yrest] linked(1) frames by simp
  then have vp: "(v, p) \<in> (adj_rel adj)\<^sup>*" using y(3) by (rule rtrancl_trans [rotated])
  have pv: "(p, v) \<in> (adj_rel adj)\<^sup>*" using linked(2) by blast
  have v: "v \<in> set seg" and p: "p \<in> set seg2" using segment_frame [OF seg] segment_frame [OF seg2] by simp_all
  let ?st = "lower_link p (tj_low st v) st"
  have mut: "mutually adj (set (seg @ seg2))"
    using mutually_union [of adj "set seg" "set seg2" v p] seg seg2 v p vp pv by (simp add: segment_ok_def)
  have edges: "w \<in> done_set st \<or> w \<in> set (tj_stack st) \<and> min (tj_low st p) (tj_low st v) \<le> num st w"
    if "x \<in> set (seg @ seg2)" "w \<in> explored adj (p, d) x" for x w
  proof (cases "x \<in> set seg")
    case True
    then have "x \<noteq> p" using dist p segs' by auto
    then have "w \<in> explored adj (v, c) x" using that(2) c by (auto simp: explored_def)
    then show ?thesis using seg True unfolding segment_ok_def fst_conv by (meson min.coboundedI2)
  next
    case False
    then show ?thesis using seg2 that unfolding segment_ok_def fst_conv
      by (metis Un_iff min.coboundedI1 set_append)
  qed
  have "p \<in> set (tj_stack st)" using p stack segs' by auto
  have low2: "segment_ok adj ?st seg2 (p, d)"
    unfolding y(2) by (rule segment_lower_link [OF seg2 y(1)]) (rule rtrancl_trans [OF pv y(3)])
  have merged: "segment_ok adj ?st (seg @ seg2) (p, d)"
    unfolding segment_ok_def
  proof (intro conjI)
    show "seg @ seg2 \<noteq> []" "last (seg @ seg2) = fst (p, d)" using seg2 by (auto simp: segment_ok_def)
    show "mutually adj (set (seg @ seg2))" by (rule mut)
    show "tj_low ?st (fst (p, d)) \<le> num ?st (fst (p, d))" using low2 unfolding segment_ok_def by blast
    show "\<exists>y \<in> set (tj_stack ?st). tj_low ?st (fst (p, d)) = num ?st y \<and> (fst (p, d), y) \<in> (adj_rel adj)\<^sup>*"
      using low2 unfolding segment_ok_def by blast
    show "\<forall>x \<in> set (seg @ seg2). \<forall>w \<in> explored adj (p, d) x.
        w \<in> done_set ?st \<or> w \<in> set (tj_stack ?st) \<and> tj_low ?st (fst (p, d)) \<le> num ?st w"
      using edges by simp
  qed
  have "p \<notin> set (concat segs2)" using dist p segs' by auto
  moreover have "set (concat segs2) \<subseteq> set (tj_stack st)" using stack segs' by auto
  ultimately have "list_all2 (segment_ok adj ?st) segs2 frames'" by (rule segments_lower_link [OF rest2])
  then have "list_all2 (segment_ok adj ?st) ((seg @ seg2) # segs2) frames" using merged frames by simp
  moreover have "tj_stack ?st = concat ((seg @ seg2) # segs2)" using stack segs' by simp
  ultimately have "tarjan_inv adj ((seg @ seg2) # segs2) frames ?st"
    using inv_fields(4,5) [OF inv] linked(1) frames by (intro tarjan_invI) (simp_all add: stack_ok_lower_link)
  then show ?thesis using frames by blast
qed

subsection \<open>The loop\<close>

lemma lower_link_noop: "tj_low st v \<le> i \<Longrightarrow> lower_link v i st = st"
  by (simp add: lower_link_def min_def fun_upd_idem)

lemma top_frame:
  assumes inv: "tarjan_inv adj segs ((v, c) # frames) st"
  shows "tj_idx st v = Some (num st v)" "v \<in> set (tj_stack st)"
proof -
  obtain seg segs' where segs: "segs = seg # segs'" and seg: "segment_ok adj st seg (v, c)"
    using inv_fields(2) [OF inv] by (auto simp: list_all2_Cons2)
  then show stack: "v \<in> set (tj_stack st)"
    using segment_frame [OF seg] inv_fields(1) [OF inv] by simp
  then have "tj_idx st v \<noteq> None" using inv_fields(5) [OF inv] by (simp add: stack_ok_def)
  then show "tj_idx st v = Some (num st v)" by (auto simp: num_def)
qed

lemma parent_low:
  assumes inv: "tarjan_inv adj segs ((v, c) # (p, d) # frames) st"
  shows "tj_low st p < num st v"
proof -
  obtain s1 s2 segs' where segs: "segs = s1 # s2 # segs'" and s1: "segment_ok adj st s1 (v, c)"
    and s2: "segment_ok adj st s2 (p, d)"
    using inv_fields(2) [OF inv] by (auto simp: list_all2_Cons2)
  have "num st p < num st v"
    using inv_stack_sorted [OF inv] segment_frame [OF s1] segment_frame [OF s2] segs
    by (auto simp: sorted_wrt_append)
  moreover have "tj_low st p \<le> num st p" using s2 by (simp add: segment_ok_def)
  ultimately show ?thesis by simp
qed

lemma inv_leave:
  assumes inv: "tarjan_inv adj segs ((v, c) # frames) st" and c: "\<not> c < length (adj_of adj v)"
  shows "\<exists>segs'. tarjan_inv adj segs' frames (relax_parent v frames (tarjan_finish v st))"
proof (cases "tj_low st v = num st v")
  case True
  then have fin: "tarjan_finish v st = tarjan_emit v st"
    using top_frame(1) [OF inv] by (simp add: tarjan_finish_def)
  have low: "tj_low (tarjan_emit v st) = tj_low st"
    by (simp add: tarjan_emit_def split: prod.split)
  have "relax_parent v frames (tarjan_emit v st) = tarjan_emit v st"
  proof (cases frames)
    case (Cons f frames')
    then obtain p d where f: "frames = (p, d) # frames'" by (cases f) auto
    have "tj_low st p < num st v" using parent_low inv f by blast
    then show ?thesis using True f low by (simp add: relax_parent_def lower_link_noop)
  qed (simp add: relax_parent_def)
  then show ?thesis using inv_root [OF inv c True] fin by metis
next
  case False
  then have fin: "tarjan_finish v st = st" using top_frame(1) [OF inv] by (simp add: tarjan_finish_def)
  from inv_merge [OF inv c False] show ?thesis by (auto simp: relax_parent_def fin)
qed

declare tarjan_loop.simps(2) [simp del]

lemma tarjan_loop_steps:
  "child < length (adj_of adj v) \<Longrightarrow> tj_idx st (adj_of adj v ! child) = None \<Longrightarrow>
    tarjan_loop adj ((v, child) # frames) st
      = tarjan_loop adj ((adj_of adj v ! child, 0) # (v, child + 1) # frames)
          (tarjan_visit (adj_of adj v ! child) st)"
  "child < length (adj_of adj v) \<Longrightarrow> tj_idx st (adj_of adj v ! child) = Some i \<Longrightarrow>
    tarjan_loop adj ((v, child) # frames) st
      = tarjan_loop adj ((v, child + 1) # frames)
          (if tj_on_stack st (adj_of adj v ! child) then lower_link v i st else st)"
  "\<not> child < length (adj_of adj v) \<Longrightarrow>
    tarjan_loop adj ((v, child) # frames) st
      = tarjan_loop adj frames (relax_parent v frames (tarjan_finish v st))"
  by (simp_all add: tarjan_loop.simps(2) [of adj v child] Let_def)

lemma tarjan_loop_inv:
  "tarjan_inv adj segs frames st \<Longrightarrow> tarjan_inv adj [] [] (tarjan_loop adj frames st)"
proof (induction adj frames st arbitrary: segs rule: tarjan_loop.induct)
  case (1 adj st)
  moreover from this have "segs = []" using inv_fields(2) [of adj segs "[]" st] by simp
  ultimately show ?case by simp
next
  case (2 adj v child frames st)
  note inv = "2.prems"
  show ?case
  proof (cases "child < length (adj_of adj v)")
    case True
    show ?thesis
    proof (cases "tj_idx st (adj_of adj v ! child)")
      case None
      from "2.IH"(1) [OF True refl None] inv_descend [OF inv True None]
      show ?thesis by (simp add: tarjan_loop_steps(1) [OF True None])
    next
      case (Some i)
      from "2.IH"(2) [OF True refl Some] inv_seen [OF inv True Some]
      show ?thesis by (simp add: tarjan_loop_steps(2) [OF True Some])
    qed
  next
    case False
    from inv_leave [OF inv False] obtain segs'
      where "tarjan_inv adj segs' frames (relax_parent v frames (tarjan_finish v st))" ..
    from "2.IH"(3) [OF False this] show ?thesis by (simp add: tarjan_loop_steps(3) [OF False])
  qed
qed

definition visited :: "tarjan_state \<Rightarrow> nat set" where
  "visited st = {x. tj_idx st x \<noteq> None}"

lemma visited_simps [simp]:
  "visited (tarjan_visit w st) = insert w (visited st)"
  "visited (lower_link v i st) = visited st"
  "visited (relax_parent v frames (tarjan_finish v st)) = visited st"
  by (auto simp: visited_def)

lemma tarjan_loop_visited:
  "visited st \<subseteq> visited (tarjan_loop adj frames st) \<and>
   visited (tarjan_loop adj frames st) \<subseteq> visited st \<union> tarjan_universe adj"
proof (induction adj frames st rule: tarjan_loop.induct)
  case (2 adj v child frames st)
  show ?case
  proof (cases "child < length (adj_of adj v)")
    case True
    have w: "adj_of adj v ! child \<in> tarjan_universe adj" by (rule adj_of_universe [OF nth_mem [OF True]])
    show ?thesis
    proof (cases "tj_idx st (adj_of adj v ! child)")
      case None
      from "2.IH"(1) [OF True refl None] w show ?thesis by (auto simp: tarjan_loop_steps(1) [OF True None])
    next
      case (Some i)
      from "2.IH"(2) [OF True refl Some] show ?thesis
        by (simp add: tarjan_loop_steps(2) [OF True Some] split: if_splits)
    qed
  next
    case False
    from "2.IH"(3) [OF False] show ?thesis by (simp add: tarjan_loop_steps(3) [OF False])
  qed
qed simp

lemma tarjan_start_inv:
  assumes "tarjan_inv adj [] [] st"
  shows "tarjan_inv adj [] [] (tarjan_start adj v st)"
    and "insert v (visited st) \<subseteq> visited (tarjan_start adj v st)"
    and "visited (tarjan_start adj v st) \<subseteq> insert v (visited st) \<union> tarjan_universe adj"
proof -
  have "tarjan_inv adj [[v]] [(v, 0)] (tarjan_visit v st)" if "tj_idx st v = None"
    using inv_visit [OF assms that] by simp
  then show "tarjan_inv adj [] [] (tarjan_start adj v st)"
    using assms by (auto simp: tarjan_start_def intro: tarjan_loop_inv)
  have "visited (tarjan_start adj v st)
      = (if v \<in> visited st then visited st else visited (tarjan_loop adj [(v, 0)] (tarjan_visit v st)))"
    by (simp add: tarjan_start_def visited_def)
  then show "insert v (visited st) \<subseteq> visited (tarjan_start adj v st)"
    "visited (tarjan_start adj v st) \<subseteq> insert v (visited st) \<union> tarjan_universe adj"
    using tarjan_loop_visited [of "tarjan_visit v st" adj "[(v, 0)]"] by auto
qed

lemma tarjan_starts_inv:
  assumes "tarjan_inv adj [] [] st"
  shows "tarjan_inv adj [] [] (fold (tarjan_start adj) vs st)
    \<and> set vs \<union> visited st \<subseteq> visited (fold (tarjan_start adj) vs st)
    \<and> visited (fold (tarjan_start adj) vs st) \<subseteq> set vs \<union> visited st \<union> tarjan_universe adj"
  using assms
proof (induction vs arbitrary: st)
  case (Cons v vs)
  note step = tarjan_start_inv [OF Cons.prems, of v]
  from Cons.IH [OF step(1)] step(2,3) show ?case by auto
qed simp

lemma tarjan_init_inv: "tarjan_inv adj [] [] tarjan_init"
  by (simp add: tarjan_inv_def tarjan_init_def frames_linked_def emitted_ok_def stack_ok_def done_set_def)

text \<open>What the components of a graph on the first \<open>n\<close> numbers are at the end.\<close>

lemma tarjan_components:
  assumes "tarjan_universe adj \<subseteq> {..<n}"
  shows "emitted_ok adj (tj_sccs (fold (tarjan_start adj) [0..<n] tarjan_init))"
    and "set (concat (tj_sccs (fold (tarjan_start adj) [0..<n] tarjan_init))) = {..<n}"
proof -
  let ?st = "fold (tarjan_start adj) [0..<n] tarjan_init"
  have inv: "tarjan_inv adj [] [] ?st" and vis: "visited ?st = {..<n}"
    using tarjan_starts_inv [OF tarjan_init_inv, of adj "[0..<n]"] assms
    by (auto simp: visited_def tarjan_init_def)
  show "emitted_ok adj (tj_sccs ?st)" by (rule inv_fields(4) [OF inv])
  have "tj_idx ?st x = None \<longleftrightarrow> x \<notin> done_set ?st" for x
    using inv_fields(1,5) [OF inv] by (simp add: stack_ok_def)
  then show "set (concat (tj_sccs ?st)) = {..<n}"
    using vis unfolding visited_def done_set_def by blast
qed

subsection \<open>The components\<close>

lemma mem_concat_take: "x \<in> set (concat (take k xss)) \<longleftrightarrow> (\<exists>i < length xss. i < k \<and> x \<in> set (xss ! i))"
proof -
  have "set (take k xss) = (\<lambda>i. xss ! i) ` {i. i < length xss \<and> i < k}"
    by (auto simp: set_conv_nth) (metis nth_take)
  then show ?thesis by auto
qed

lemma mem_concat: "x \<in> set (concat xss) \<longleftrightarrow> (\<exists>i < length xss. x \<in> set (xss ! i))"
  using mem_concat_take [of x "length xss" xss] by simp

lemma distinct_concat_nth:
  assumes "distinct (concat xss)" "i < length xss" "j < length xss" "x \<in> set (xss ! i)" "x \<in> set (xss ! j)"
  shows "i \<le> j"
proof (rule ccontr)
  assume less: "\<not> i \<le> j"
  have "concat xss = concat (take i xss) @ xss ! i @ concat (drop (Suc i) xss)"
    using id_take_nth_drop [OF assms(2)] by (metis concat.simps(2) concat_append)
  moreover have "x \<in> set (concat (take i xss))" using less assms(3,5) unfolding mem_concat_take by auto
  ultimately show False using assms(1,4) by auto
qed

lemma emitted_closed:
  assumes "emitted_ok adj sccs" "(x, y) \<in> (adj_rel adj)\<^sup>*" "x \<in> set (concat (take k sccs))"
  shows "y \<in> set (concat (take k sccs))"
  using assms(2,3)
proof (induction rule: rtrancl_induct)
  case base then show ?case .
next
  case (step y z)
  then obtain i where i: "i < k" "i < length sccs" "y \<in> set (sccs ! i)"
    unfolding mem_concat_take by blast
  then have "z \<in> set (concat (take (Suc i) sccs))"
    using assms(1) step.hyps(2) unfolding emitted_ok_def adj_rel_def by blast
  then show ?case using i(1) unfolding mem_concat_take by (metis less_Suc_eq less_trans)
qed

lemma emitted_same:
  assumes ok: "emitted_ok adj sccs" and "i < length sccs" "j < length sccs" "x \<in> set (sccs ! i)" "y \<in> set (sccs ! j)"
    and "(x, y) \<in> (adj_rel adj)\<^sup>*"
  shows "j \<le> i"
proof -
  have "x \<in> set (concat (take (Suc i) sccs))" using assms(2,4) by (auto simp: take_Suc_conv_app_nth)
  from emitted_closed [OF ok assms(6) this]
  obtain k where k: "k < Suc i" "k < length sccs" "y \<in> set (sccs ! k)" unfolding mem_concat_take by blast
  have "j \<le> k" using distinct_concat_nth [OF _ assms(3) k(2) assms(5) k(3)] ok by (simp add: emitted_ok_def)
  then show ?thesis using k(1) by simp
qed

lemma emitted_component:
  assumes ok: "emitted_ok adj sccs" and "x \<in> set (concat sccs)" "y \<in> set (concat sccs)"
  shows "(\<exists>scc \<in> set sccs. x \<in> set scc \<and> y \<in> set scc)
    \<longleftrightarrow> (x, y) \<in> (adj_rel adj)\<^sup>* \<and> (y, x) \<in> (adj_rel adj)\<^sup>*"
proof
  assume "\<exists>scc \<in> set sccs. x \<in> set scc \<and> y \<in> set scc"
  then show "(x, y) \<in> (adj_rel adj)\<^sup>* \<and> (y, x) \<in> (adj_rel adj)\<^sup>*"
    using ok by (auto simp: emitted_ok_def mutually_def)
next
  assume reach: "(x, y) \<in> (adj_rel adj)\<^sup>* \<and> (y, x) \<in> (adj_rel adj)\<^sup>*"
  obtain i j where i: "i < length sccs" "x \<in> set (sccs ! i)" and j: "j < length sccs" "y \<in> set (sccs ! j)"
    using assms(2,3) unfolding mem_concat by blast
  have "j \<le> i" "i \<le> j"
    using reach emitted_same [OF ok i(1) j(1) i(2) j(2)] emitted_same [OF ok j(1) i(1) j(2) i(2)] by simp_all
  then have "i = j" by simp
  then show "\<exists>scc \<in> set sccs. x \<in> set scc \<and> y \<in> set scc" using i j nth_mem by metis
qed

text \<open>The edges between listed nodes, and their image under the dense indexing.\<close>

definition succ_edges :: "'n::linorder btree_set \<Rightarrow> ('n, 'n btree_set) btree_map \<Rightarrow> ('n \<times> 'n) set" where
  "succ_edges nodes succ =
     {(a, b). a \<in> set nodes \<and> b \<in> set nodes \<and> (\<exists>ts. map_of succ a = Some ts \<and> b \<in> set ts)}"

lemma index_of_Some:
  assumes "distinct nodes"
  shows "index_of nodes t = Some j \<longleftrightarrow> j < length nodes \<and> nodes ! j = t"
proof -
  have "map fst (zip nodes [0..<length nodes]) = nodes" by simp
  then have "distinct (map fst (zip nodes [0..<length nodes]))" using assms by simp
  then have "index_of nodes t = Some j \<longleftrightarrow> (t, j) \<in> set (zip nodes [0..<length nodes])"
    by (simp add: index_of_def)
  also have "\<dots> \<longleftrightarrow> j < length nodes \<and> nodes ! j = t" by (auto simp: set_zip)
  finally show ?thesis .
qed

lemma set_filter_index:
  assumes "distinct nodes"
  shows "j \<in> set (List.map_filter (index_of nodes) ts) \<longleftrightarrow> j < length nodes \<and> nodes ! j \<in> set ts"
  by (auto simp: set_map_filter index_of_Some [OF assms])

lemma adjacency_rel:
  assumes "distinct nodes"
  shows "(i, j) \<in> adj_rel (adjacency nodes succ)
    \<longleftrightarrow> i < length nodes \<and> j < length nodes \<and> (nodes ! i, nodes ! j) \<in> succ_edges nodes succ"
  by (auto simp: adj_rel_def adj_of_def adjacency_def succ_edges_def set_filter_index [OF assms]
      split: option.splits) metis

lemma adjacency_universe:
  assumes "distinct nodes"
  shows "tarjan_universe (adjacency nodes succ) \<subseteq> {..<length nodes}"
  by (auto simp: tarjan_universe_def adjacency_def set_filter_index [OF assms] split: option.splits)

lemma adjacency_reach:
  assumes "distinct nodes" "i < length nodes" "j < length nodes"
  shows "(i, j) \<in> (adj_rel (adjacency nodes succ))\<^sup>* \<longleftrightarrow> (nodes ! i, nodes ! j) \<in> (succ_edges nodes succ)\<^sup>*"
proof
  assume "(i, j) \<in> (adj_rel (adjacency nodes succ))\<^sup>*"
  then show "(nodes ! i, nodes ! j) \<in> (succ_edges nodes succ)\<^sup>*"
    by (induction rule: rtrancl_induct)
      (auto simp: adjacency_rel [OF assms(1)] intro: rtrancl_into_rtrancl)
next
  assume "(nodes ! i, nodes ! j) \<in> (succ_edges nodes succ)\<^sup>*"
  then have "\<exists>k < length nodes. nodes ! k = nodes ! j \<and> (i, k) \<in> (adj_rel (adjacency nodes succ))\<^sup>*"
  proof (induction rule: rtrancl_induct)
    case base then show ?case using assms(2) by blast
  next
    case (step a b)
    then obtain k where k: "k < length nodes" "nodes ! k = a" "(i, k) \<in> (adj_rel (adjacency nodes succ))\<^sup>*" by blast
    obtain m where m: "m < length nodes" "nodes ! m = b"
      using step.hyps(2) by (auto simp: succ_edges_def in_set_conv_nth)
    have "(k, m) \<in> adj_rel (adjacency nodes succ)"
      using k m step.hyps(2) by (simp add: adjacency_rel [OF assms(1)])
    with k(3) have "(i, m) \<in> (adj_rel (adjacency nodes succ))\<^sup>*" by (rule rtrancl_into_rtrancl)
    then show ?case using m by blast
  qed
  then show "(i, j) \<in> (adj_rel (adjacency nodes succ))\<^sup>*"
    using assms(1,3) nth_eq_iff_index_eq by blast
qed

text \<open>The result as the image of the components of the index graph.\<close>

definition index_sccs :: "'n::linorder btree_set \<Rightarrow> ('n, 'n btree_set) btree_map \<Rightarrow> nat list list" where
  "index_sccs nodes succ =
     tj_sccs (fold (tarjan_start (adjacency nodes succ)) [0..<length nodes] tarjan_init)"

lemma tarjan_sccs_index:
  "tarjan_sccs nodes succ = map (\<lambda>scc. sort (map (\<lambda>i. nodes ! i) scc)) (index_sccs nodes succ)"
  by (simp add: tarjan_sccs_def index_sccs_def Let_def)

lemma index_sccs_ok:
  assumes "distinct nodes"
  shows "emitted_ok (adjacency nodes succ) (index_sccs nodes succ)"
    and "set (concat (index_sccs nodes succ)) = {..<length nodes}"
  unfolding index_sccs_def by (rule tarjan_components, rule adjacency_universe [OF assms])+

lemma sccs_members:
  assumes "strict_sorted nodes"
  shows "distinct (concat (tarjan_sccs nodes succ))" "set (concat (tarjan_sccs nodes succ)) = set nodes"
proof -
  note dist = strict_sorted_distinct [OF assms]
  let ?I = "index_sccs nodes succ"
  have mset: "mset (concat (tarjan_sccs nodes succ)) = image_mset (\<lambda>i. nodes ! i) (mset (concat ?I))"
  proof -
    have "mset (concat (map (\<lambda>scc. sort (map (\<lambda>i. nodes ! i) scc)) ss)) = image_mset (\<lambda>i. nodes ! i) (mset (concat ss))" for ss
      by (induction ss) auto
    then show ?thesis unfolding tarjan_sccs_index by blast
  qed
  have ok: "distinct (concat ?I)" "set (concat ?I) = {..<length nodes}"
    using index_sccs_ok [OF dist, of succ] by (simp_all add: emitted_ok_def)
  have "distinct (map (\<lambda>i. nodes ! i) (concat ?I))"
    using ok dist by (simp add: distinct_map inj_on_nth)
  then show "distinct (concat (tarjan_sccs nodes succ))"
    using mset by (metis mset_eq_imp_distinct_iff mset_map)
  have "set (concat (tarjan_sccs nodes succ)) = (\<lambda>i. nodes ! i) ` set (concat ?I)"
    using arg_cong [OF mset, of set_mset] by simp
  then show "set (concat (tarjan_sccs nodes succ)) = set nodes"
    unfolding ok(2) set_conv_nth [of nodes] by auto
qed

lemma sccs_length: "length (tarjan_sccs nodes succ) = length (index_sccs nodes succ)"
  by (simp add: tarjan_sccs_index)

lemma sccs_nth:
  assumes "strict_sorted nodes" "k < length (index_sccs nodes succ)"
  shows "set (tarjan_sccs nodes succ ! k) = (\<lambda>i. nodes ! i) ` set (index_sccs nodes succ ! k)"
    "set (index_sccs nodes succ ! k) \<subseteq> {..<length nodes}"
proof -
  show "set (tarjan_sccs nodes succ ! k) = (\<lambda>i. nodes ! i) ` set (index_sccs nodes succ ! k)"
    using assms(2) by (simp add: tarjan_sccs_index)
  show "set (index_sccs nodes succ ! k) \<subseteq> {..<length nodes}"
    using index_sccs_ok(2) [OF strict_sorted_distinct [OF assms(1)], of succ] nth_mem [OF assms(2)] by auto
qed

lemma sccs_component:
  assumes sorted: "strict_sorted nodes" and a: "a \<in> set nodes" and b: "b \<in> set nodes"
  shows "(\<exists>scc \<in> set (tarjan_sccs nodes succ). a \<in> set scc \<and> b \<in> set scc)
    \<longleftrightarrow> (a, b) \<in> (succ_edges nodes succ)\<^sup>* \<and> (b, a) \<in> (succ_edges nodes succ)\<^sup>*"
proof -
  note dist = strict_sorted_distinct [OF sorted]
  obtain i j where i: "i < length nodes" "nodes ! i = a" and j: "j < length nodes" "nodes ! j = b"
    using a b by (auto simp: in_set_conv_nth)
  have mem: "nodes ! i \<in> (\<lambda>i. nodes ! i) ` set scc \<longleftrightarrow> i \<in> set scc"
    if "scc \<in> set (index_sccs nodes succ)" "i < length nodes" for scc i
  proof -
    have "set scc \<subseteq> {..<length nodes}" using index_sccs_ok(2) [OF dist, of succ] that(1) by auto
    then show ?thesis using that(2) nth_eq_iff_index_eq [OF dist] by (auto simp: image_iff)
  qed
  have "(\<exists>scc \<in> set (tarjan_sccs nodes succ). a \<in> set scc \<and> b \<in> set scc)
      \<longleftrightarrow> (\<exists>scc \<in> set (index_sccs nodes succ). i \<in> set scc \<and> j \<in> set scc)"
    using i j mem by (auto simp: tarjan_sccs_index)
  also have "\<dots> \<longleftrightarrow> (i, j) \<in> (adj_rel (adjacency nodes succ))\<^sup>* \<and> (j, i) \<in> (adj_rel (adjacency nodes succ))\<^sup>*"
    using index_sccs_ok [OF dist, of succ] i(1) j(1) by (intro emitted_component) auto
  finally show ?thesis using adjacency_reach [OF dist i(1) j(1), of succ] adjacency_reach [OF dist j(1) i(1), of succ] i(2) j(2)
    by simp
qed

lemma sccs_order:
  assumes sorted: "strict_sorted nodes" and k: "k < length (tarjan_sccs nodes succ)"
    and a: "a \<in> set (tarjan_sccs nodes succ ! k)" and edge: "(a, b) \<in> succ_edges nodes succ"
  shows "\<exists>m \<le> k. b \<in> set (tarjan_sccs nodes succ ! m)"
proof -
  note dist = strict_sorted_distinct [OF sorted]
  have k': "k < length (index_sccs nodes succ)" using k by (simp add: sccs_length)
  obtain i where i: "i \<in> set (index_sccs nodes succ ! k)" "nodes ! i = a" "i < length nodes"
    using a sccs_nth [OF sorted k'] by auto
  obtain j where j: "j < length nodes" "nodes ! j = b" using edge by (auto simp: succ_edges_def in_set_conv_nth)
  have "j \<in> set (adj_of (adjacency nodes succ) i)"
    using adjacency_rel [OF dist, of i j succ] i j edge by (simp add: adj_rel_def)
  then have "j \<in> set (concat (take (Suc k) (index_sccs nodes succ)))"
    using index_sccs_ok(1) [OF dist, of succ] k' i(1) unfolding emitted_ok_def by blast
  then obtain m where m: "m < Suc k" "m < length (index_sccs nodes succ)" "j \<in> set (index_sccs nodes succ ! m)"
    unfolding mem_concat_take by blast
  then show ?thesis using sccs_nth(1) [OF sorted m(2)] j(2) by (auto intro!: exI [of _ m])
qed

end
