(* ===== verification/Resolve_Effects.thy ===== *)
theory Resolve_Effects
  imports Resolve_Graph Resolve_Scc
begin

text \<open>
  The transitive effect closure (\<open>effects.rs\<close>): strongly connected components over the edges
  that propagate effects, one pass over the components in emission order, and the result written
  back to every node. The lookup of the component of a successor panics when the successor is
  not a node; the model returns \<^const>\<open>None\<close> there.
\<close>

record effect_stats =
  es_nodes_with_effects :: nat
  es_recursive_sccs :: nat

fun propagates_effects :: "edge_kind \<Rightarrow> bool" where
  "propagates_effects Calls = True"
| "propagates_effects CallsVirtual = True"
| "propagates_effects CallsClosure = True"
| "propagates_effects CallsCallback = True"
| "propagates_effects CallsAsync = True"
| "propagates_effects CallsIndirect = True"
| "propagates_effects _ = False"

definition own_effects :: "resolved_graph \<Rightarrow> (node_id, effect_set) btree_map" where
  "own_effects g = fold (\<lambda>n. bt_insert (n_id (np_node n)) (n_own_effects (np_node n))) (rg_nodes g) []"

definition effect_succ :: "resolved_graph \<Rightarrow> (node_id, node_id btree_set) btree_map" where
  "effect_succ g =
     fold (\<lambda>e m.
         if propagates_effects (e_kind (ep_edge e)) then
           (if e_src (ep_edge e) \<noteq> e_dst (ep_edge e) then bt_add (e_src (ep_edge e)) (e_dst (ep_edge e)) m else m)
         else m)
       (cv_iter (rg_edges g)) []"

definition scc_index :: "node_id list list \<Rightarrow> (node_id, nat) btree_map" where
  "scc_index sccs = fold (\<lambda>(i, scc) m. fold (\<lambda>n. bt_insert n i) scc m) (enumerate 0 sccs) []"

definition union_own :: "(node_id, effect_set) btree_map \<Rightarrow> node_id list \<Rightarrow> effect_set \<Rightarrow> effect_set" where
  "union_own own scc acc =
     fold (\<lambda>n acc. effect_set_union acc (case map_of own n of Some e \<Rightarrow> e | None \<Rightarrow> effect_set_new)) scc acc"

fun union_targets ::
  "(node_id, nat) btree_map \<Rightarrow> effect_set list \<Rightarrow> nat \<Rightarrow> node_id list \<Rightarrow> effect_set \<Rightarrow> effect_set option" where
  "union_targets scc_of effs i [] acc = Some acc"
| "union_targets scc_of effs i (t # ts) acc =
     (case map_of scc_of t of
        None \<Rightarrow> None
      | Some tj \<Rightarrow> union_targets scc_of effs i ts (if tj \<noteq> i then effect_set_union acc (effs ! tj) else acc))"

fun union_members ::
  "(node_id, node_id btree_set) btree_map \<Rightarrow> (node_id, nat) btree_map \<Rightarrow> effect_set list \<Rightarrow> nat
    \<Rightarrow> node_id list \<Rightarrow> effect_set \<Rightarrow> effect_set option" where
  "union_members succ scc_of effs i [] acc = Some acc"
| "union_members succ scc_of effs i (n # ns) acc =
     (case map_of succ n of
        None \<Rightarrow> union_members succ scc_of effs i ns acc
      | Some ts \<Rightarrow> Option.bind (union_targets scc_of effs i ts acc) (union_members succ scc_of effs i ns))"

fun settle_sccs ::
  "(node_id, effect_set) btree_map \<Rightarrow> (node_id, node_id btree_set) btree_map \<Rightarrow> (node_id, nat) btree_map
    \<Rightarrow> (nat \<times> node_id list) list \<Rightarrow> effect_stats \<times> effect_set list \<Rightarrow> (effect_stats \<times> effect_set list) option" where
  "settle_sccs own succ scc_of [] s = Some s"
| "settle_sccs own succ scc_of ((i, scc) # rest) (stats, effs) =
     (let stats = (if length scc > 1 then stats\<lparr>es_recursive_sccs := es_recursive_sccs stats + 1\<rparr> else stats)
      in case union_members succ scc_of effs i scc (union_own own scc effect_set_new) of
           None \<Rightarrow> None
         | Some acc \<Rightarrow> settle_sccs own succ scc_of rest (stats, effs[i := acc]))"

definition write_effects ::
  "(node_id, nat) btree_map \<Rightarrow> effect_set list \<Rightarrow> node_with_provenance \<Rightarrow> node_with_provenance" where
  "write_effects scc_of effs n =
     (let eff = (case map_of scc_of (n_id (np_node n)) of Some i \<Rightarrow> effs ! i | None \<Rightarrow> effect_set_new)
      in n\<lparr>np_node := np_node n\<lparr>n_transitive_effects := eff\<rparr>\<rparr>)"

definition run_effect_closure :: "resolved_graph \<Rightarrow> (resolved_graph \<times> effect_stats) option" where
  "run_effect_closure g =
     (let own = own_effects g; succ = effect_succ g;
          sccs = tarjan_sccs (map fst own) succ;
          scc_of = scc_index sccs
      in case settle_sccs own succ scc_of (enumerate 0 sccs)
             (\<lparr>es_nodes_with_effects = 0, es_recursive_sccs = 0\<rparr>, replicate (length sccs) effect_set_new) of
           None \<Rightarrow> None
         | Some (stats, effs) \<Rightarrow>
             let nodes = map (write_effects scc_of effs) (rg_nodes g);
                 found = length (filter (\<lambda>n. \<not> effect_set_is_empty (n_transitive_effects (np_node n))) nodes)
             in Some (g\<lparr>rg_nodes := nodes\<rparr>,
                  stats\<lparr>es_nodes_with_effects := es_nodes_with_effects stats + found\<rparr>))"

subsection \<open>What each pass computes\<close>

lemma propagates_call: "propagates_effects k \<longleftrightarrow> is_call k \<and> k \<noteq> Spawns"
  by (cases k) simp_all

lemma own_effects_wf: "bt_wf (own_effects g)"
  unfolding own_effects_def by (rule bt.wf_fold) simp

lemma own_effects_keys: "set (map fst (own_effects g)) = (\<lambda>n. n_id (np_node n)) ` set (rg_nodes g)"
proof -
  have "set (map fst (fold (\<lambda>n. bt_insert (n_id (np_node n)) (n_own_effects (np_node n))) ns m))
      = set (map fst m) \<union> (\<lambda>n. n_id (np_node n)) ` set ns" for ns :: "node_with_provenance list" and m
    by (induction ns arbitrary: m) (auto simp: keys_bt_insert simp del: set_map)
  then show ?thesis by (simp add: own_effects_def)
qed

lemma own_effects_get:
  assumes "distinct (map (\<lambda>n. n_id (np_node n)) (rg_nodes g))" "n \<in> set (rg_nodes g)"
  shows "map_of (own_effects g) (n_id (np_node n)) = Some (n_own_effects (np_node n))"
proof -
  let ?ps = "map (\<lambda>n. (n_id (np_node n), n_own_effects (np_node n))) (rg_nodes g)"
  have "distinct (map fst (rev ?ps))" using assms(1) by (simp add: rev_map [symmetric] o_def)
  moreover have "(n_id (np_node n), n_own_effects (np_node n)) \<in> set (rev ?ps)" using assms(2) by auto
  ultimately show ?thesis unfolding own_effects_def bt.get_build_last by (rule map_of_is_SomeI)
qed

text \<open>The relation along which effects propagate.\<close>

definition effect_edges :: "resolved_graph \<Rightarrow> (node_id \<times> node_id) set" where
  "effect_edges g =
     {(e_src (ep_edge e), e_dst (ep_edge e)) | e. e \<in> set (cv_iter (rg_edges g)) \<and> propagates_effects (e_kind (ep_edge e))}"

lemma effect_succ_items: "b \<in> set (bt_items (effect_succ g) a) \<longleftrightarrow> (a, b) \<in> effect_edges g \<and> a \<noteq> b"
proof -
  have "set (bt_items (fold (\<lambda>e m.
         if propagates_effects (e_kind (ep_edge e)) then
           (if e_src (ep_edge e) \<noteq> e_dst (ep_edge e) then bt_add (e_src (ep_edge e)) (e_dst (ep_edge e)) m else m)
         else m) es m) a) = set (bt_items m a) \<union> {e_dst (ep_edge e) | e. e \<in> set es \<and> e_src (ep_edge e) = a
            \<and> e_src (ep_edge e) \<noteq> e_dst (ep_edge e) \<and> propagates_effects (e_kind (ep_edge e))}"
    for es :: "edge_with_provenance list" and m
    by (induction es arbitrary: m) (auto simp: container_simps split: if_splits)
  then show ?thesis by (auto simp: effect_succ_def effect_edges_def)
qed

lemma map_of_bt_items: "map_of m a = Some ts \<Longrightarrow> bt_items m a = ts"
  by (simp add: bt_items_def)

lemma succ_edges_effects:
  "succ_edges ns (effect_succ g) = {(a, b). a \<in> set ns \<and> b \<in> set ns \<and> (a, b) \<in> effect_edges g \<and> a \<noteq> b}"
proof -
  have "(\<exists>ts. map_of (effect_succ g) a = Some ts \<and> b \<in> set ts) \<longleftrightarrow> b \<in> set (bt_items (effect_succ g) a)" for a b
    by (cases "map_of (effect_succ g) a") (auto simp: bt_items_def)
  then show ?thesis by (auto simp: succ_edges_def effect_succ_items)
qed

lemma scc_index_get:
  assumes "distinct (concat sccs)"
  shows "map_of (scc_index sccs) n = Some i \<longleftrightarrow> i < length sccs \<and> n \<in> set (sccs ! i)"
proof -
  have inner: "map_of (fold (\<lambda>n. bt_insert n i) scc m) n = (if n \<in> set scc then Some i else map_of m n)"
    for scc and i :: nat and m n
    by (induction scc arbitrary: m) (auto simp: container_simps)
  have "map_of (fold (\<lambda>(i, scc) m. fold (\<lambda>n. bt_insert n i) scc m) (enumerate k ss) m) n = Some i
      \<longleftrightarrow> (if n \<in> set (concat ss) then k \<le> i \<and> i < k + length ss \<and> n \<in> set (ss ! (i - k)) else map_of m n = Some i)"
    if "distinct (concat ss)" for ss k m
    using that
  proof (induction ss arbitrary: k m)
    case (Cons s ss)
    have split: "k \<le> i \<and> i < k + length (s # ss) \<and> n \<in> set ((s # ss) ! (i - k))
        \<longleftrightarrow> i = k \<and> n \<in> set s \<or> Suc k \<le> i \<and> i < Suc k + length ss \<and> n \<in> set (ss ! (i - Suc k))"
    proof (cases i k rule: linorder_cases)
      case greater
      then obtain d where "i = Suc (k + d)" using less_iff_Suc_add by auto
      then show ?thesis by simp
    qed simp_all
    have "n \<notin> set (ss ! (i - Suc k))" if "n \<in> set s" "Suc k \<le> i" "i < Suc k + length ss"
    proof -
      have "ss ! (i - Suc k) \<in> set ss" using that(2,3) by (intro nth_mem) arith
      then show ?thesis using Cons.prems that(1) by auto
    qed
    then show ?case using Cons unfolding split by (auto simp: inner)
  qed simp
  from this [OF assms, of 0 "[]"] show ?thesis
    by (auto simp: scc_index_def mem_concat)
qed

definition own_bit :: "(node_id, effect_set) btree_map \<Rightarrow> node_id \<Rightarrow> nat \<Rightarrow> bool" where
  "own_bit own n b \<longleftrightarrow> (\<exists>e. map_of own n = Some e \<and> bit e b)"

lemma bit_union [simp]: "bit (effect_set_union s t) b \<longleftrightarrow> bit s b \<or> bit t b"
  by (simp add: effect_set_union_def bit_or_iff)

lemma bit_new [simp]: "\<not> bit effect_set_new b"
  by (simp add: effect_set_new_def)

lemma union_own_bit: "bit (union_own own scc acc) b \<longleftrightarrow> bit acc b \<or> (\<exists>n \<in> set scc. own_bit own n b)"
  unfolding union_own_def
  by (induction scc arbitrary: acc) (auto simp: own_bit_def split: option.splits)

lemma union_targets_bit:
  assumes "\<forall>t \<in> set ts. map_of scc_of t \<noteq> None"
  shows "\<exists>r. union_targets scc_of effs i ts acc = Some r \<and>
    (\<forall>b. bit r b \<longleftrightarrow> bit acc b \<or> (\<exists>t \<in> set ts. \<exists>j. map_of scc_of t = Some j \<and> j \<noteq> i \<and> bit (effs ! j) b))"
  using assms
proof (induction ts arbitrary: acc)
  case (Cons t ts)
  then obtain j where j: "map_of scc_of t = Some j" by auto
  from Cons show ?case by (cases "j = i") (fastforce simp: j)+
qed simp

lemma union_members_bit:
  assumes "\<forall>n \<in> set ns. \<forall>t \<in> set (bt_items succ n). map_of scc_of t \<noteq> None"
  shows "\<exists>r. union_members succ scc_of effs i ns acc = Some r \<and>
    (\<forall>b. bit r b \<longleftrightarrow> bit acc b \<or>
      (\<exists>n \<in> set ns. \<exists>t \<in> set (bt_items succ n). \<exists>j. map_of scc_of t = Some j \<and> j \<noteq> i \<and> bit (effs ! j) b))"
  using assms
proof (induction ns arbitrary: acc)
  case (Cons n ns)
  show ?case
  proof (cases "map_of succ n")
    case None
    then show ?thesis using Cons by (simp add: bt_items_def)
  next
    case (Some ts)
    then have ts: "bt_items succ n = ts" by (simp add: bt_items_def)
    with Cons.prems obtain r where r: "union_targets scc_of effs i ts acc = Some r"
      "\<forall>b. bit r b \<longleftrightarrow> bit acc b \<or> (\<exists>t \<in> set ts. \<exists>j. map_of scc_of t = Some j \<and> j \<noteq> i \<and> bit (effs ! j) b)"
      using union_targets_bit [of ts scc_of effs i acc] by auto
    from Cons.IH [of r] Cons.prems obtain r' where "union_members succ scc_of effs i ns r = Some r'"
      "\<forall>b. bit r' b \<longleftrightarrow> bit r b \<or>
        (\<exists>n \<in> set ns. \<exists>t \<in> set (bt_items succ n). \<exists>j. map_of scc_of t = Some j \<and> j \<noteq> i \<and> bit (effs ! j) b)"
      by auto
    then show ?thesis using r Some ts by (intro exI [of _ r']) auto
  qed
qed simp

text \<open>
  The effects of a component: what its members and everything they reach do themselves. The
  components settled so far determine the next one, because its successors come first.
\<close>

definition reach_bit :: "(node_id \<times> node_id) set \<Rightarrow> (node_id, effect_set) btree_map \<Rightarrow> node_id \<Rightarrow> nat \<Rightarrow> bool" where
  "reach_bit E own x b \<longleftrightarrow> (\<exists>m. (x, m) \<in> E\<^sup>* \<and> own_bit own m b)"

lemma reach_bit_step: "(x, y) \<in> E\<^sup>* \<Longrightarrow> reach_bit E own y b \<Longrightarrow> reach_bit E own x b"
  unfolding reach_bit_def by (meson rtrancl_trans)

lemma reach_bit_unfold:
  "reach_bit E own x b \<longleftrightarrow> own_bit own x b \<or> (\<exists>y. (x, y) \<in> E \<and> reach_bit E own y b)"
  unfolding reach_bit_def
  by (metis converse_rtranclE converse_rtrancl_into_rtrancl rtrancl.rtrancl_refl)

lemma component_bits:
  assumes "x \<in> S" and "\<And>y. y \<in> S \<Longrightarrow> (x, y) \<in> E\<^sup>*"
    and P: "\<And>y z. y \<in> S \<Longrightarrow> (y, z) \<in> E \<Longrightarrow> z \<notin> S \<Longrightarrow> P z \<longleftrightarrow> reach_bit E own z b"
  shows "(\<exists>y \<in> S. own_bit own y b) \<or> (\<exists>y \<in> S. \<exists>z. (y, z) \<in> E \<and> z \<notin> S \<and> P z) \<longleftrightarrow> reach_bit E own x b"
proof
  assume "(\<exists>y \<in> S. own_bit own y b) \<or> (\<exists>y \<in> S. \<exists>z. (y, z) \<in> E \<and> z \<notin> S \<and> P z)"
  then obtain y where "y \<in> S" "reach_bit E own y b" using P reach_bit_unfold by metis
  then show "reach_bit E own x b" using assms(2) reach_bit_step by metis
next
  assume "reach_bit E own x b"
  then obtain m where m: "(x, m) \<in> E\<^sup>*" "own_bit own m b" unfolding reach_bit_def by blast
  have "m \<in> S \<or> (\<exists>y \<in> S. \<exists>z. (y, z) \<in> E \<and> z \<notin> S \<and> (z, m) \<in> E\<^sup>*)"
    using m(1) assms(1)
  proof (induction rule: converse_rtrancl_induct)
    case (step y z)
    then show ?case by (cases "z \<in> S") blast+
  qed simp
  then show "(\<exists>y \<in> S. own_bit own y b) \<or> (\<exists>y \<in> S. \<exists>z. (y, z) \<in> E \<and> z \<notin> S \<and> P z)"
    using m(2) P unfolding reach_bit_def by metis
qed

definition settled ::
  "(node_id \<times> node_id) set \<Rightarrow> (node_id, effect_set) btree_map \<Rightarrow> node_id list list \<Rightarrow> nat \<Rightarrow> effect_set list \<Rightarrow> bool" where
  "settled E own sccs k effs \<longleftrightarrow>
     length effs = length sccs \<and> (\<forall>j < k. \<forall>x \<in> set (sccs ! j). \<forall>b. bit (effs ! j) b \<longleftrightarrow> reach_bit E own x b)"

lemma settle_step:
  assumes dist: "distinct (concat sccs)" and k: "k < length sccs"
    and order: "\<And>x y. x \<in> set (sccs ! k) \<Longrightarrow> y \<in> set (bt_items succ x) \<Longrightarrow> \<exists>m \<le> k. y \<in> set (sccs ! m)"
    and mutual: "\<And>x y. x \<in> set (sccs ! k) \<Longrightarrow> y \<in> set (sccs ! k) \<Longrightarrow> (x, y) \<in> E\<^sup>*"
    and E: "\<And>x y. x \<in> set (sccs ! k) \<Longrightarrow> (x, y) \<in> E \<longleftrightarrow> y \<in> set (bt_items succ x)"
    and settled: "settled E own sccs k effs"
  shows "\<exists>acc. union_members succ (scc_index sccs) effs k (sccs ! k) (union_own own (sccs ! k) effect_set_new) = Some acc
    \<and> settled E own sccs (Suc k) (effs[k := acc])"
proof -
  let ?S = "set (sccs ! k)"
  let ?P = "\<lambda>b z. \<exists>j. map_of (scc_index sccs) z = Some j \<and> j \<noteq> k \<and> bit (effs ! j) b"
  note get = scc_index_get [OF dist]
  have some: "\<forall>x \<in> ?S. \<forall>y \<in> set (bt_items succ x). map_of (scc_index sccs) y \<noteq> None"
  proof (intro ballI)
    fix x y
    assume "x \<in> ?S" "y \<in> set (bt_items succ x)"
    then obtain m where m: "m \<le> k" "y \<in> set (sccs ! m)" using order by blast
    then have "map_of (scc_index sccs) y = Some m" using get [of y m] k by simp
    then show "map_of (scc_index sccs) y \<noteq> None" by simp
  qed
  obtain acc where acc: "union_members succ (scc_index sccs) effs k (sccs ! k) (union_own own (sccs ! k) effect_set_new) = Some acc"
    and bits: "\<And>b. bit acc b \<longleftrightarrow> bit (union_own own (sccs ! k) effect_set_new) b \<or>
      (\<exists>x \<in> ?S. \<exists>y \<in> set (bt_items succ x). ?P b y)"
    using union_members_bit [OF some] by blast
  have out: "?P b z \<longleftrightarrow> z \<notin> ?S \<and> reach_bit E own z b" if "y \<in> ?S" "(y, z) \<in> E" for y z b
  proof -
    note yz = that
    have "z \<in> set (bt_items succ y)" using E [OF yz(1)] yz(2) by simp
    then obtain m where m: "m \<le> k" "z \<in> set (sccs ! m)" using order [OF yz(1)] by blast
    then have z: "map_of (scc_index sccs) z = Some m" using get [of z m] k by simp
    have "z \<notin> ?S \<longleftrightarrow> m \<noteq> k" using get [of z k] k z by auto
    then show ?thesis using z m settled unfolding settled_def by (auto simp: le_less)
  qed
  have "bit acc b \<longleftrightarrow> reach_bit E own x b" if x: "x \<in> ?S" for x b
  proof -
    have "bit acc b \<longleftrightarrow> (\<exists>y \<in> ?S. own_bit own y b) \<or> (\<exists>y \<in> ?S. \<exists>z. (y, z) \<in> E \<and> z \<notin> ?S \<and> ?P b z)"
    proof -
      have "(\<exists>z \<in> set (bt_items succ y). ?P b z) \<longleftrightarrow> (\<exists>z. (y, z) \<in> E \<and> z \<notin> ?S \<and> ?P b z)" if "y \<in> ?S" for y
        using E [OF that] out [OF that] by blast
      then show ?thesis unfolding bits union_own_bit by auto
    qed
    also have "\<dots> \<longleftrightarrow> reach_bit E own x b"
      by (rule component_bits [OF x]) (use mutual x out in auto)
    finally show ?thesis .
  qed
  then have "settled E own sccs (Suc k) (effs[k := acc])"
    using settled k by (auto simp: settled_def less_Suc_eq nth_list_update)
  then show ?thesis using acc by blast
qed

lemma settle_all:
  assumes dist: "distinct (concat sccs)" and "k \<le> length sccs"
    and order: "\<And>k x y. k < length sccs \<Longrightarrow> x \<in> set (sccs ! k) \<Longrightarrow> y \<in> set (bt_items succ x) \<Longrightarrow> \<exists>m \<le> k. y \<in> set (sccs ! m)"
    and mutual: "\<And>k x y. k < length sccs \<Longrightarrow> x \<in> set (sccs ! k) \<Longrightarrow> y \<in> set (sccs ! k) \<Longrightarrow> (x, y) \<in> E\<^sup>*"
    and E: "\<And>k x y. k < length sccs \<Longrightarrow> x \<in> set (sccs ! k) \<Longrightarrow> (x, y) \<in> E \<longleftrightarrow> y \<in> set (bt_items succ x)"
    and "settled E own sccs k effs"
  shows "\<exists>stats' effs'. settle_sccs own succ (scc_index sccs) (enumerate k (drop k sccs)) (stats, effs) = Some (stats', effs')
    \<and> settled E own sccs (length sccs) effs'"
  using assms(2,6)
proof (induction "length sccs - k" arbitrary: k stats effs)
  case 0
  then show ?case by simp
next
  case (Suc n)
  then have k: "k < length sccs" by simp
  then have drop: "enumerate k (drop k sccs) = (k, sccs ! k) # enumerate (Suc k) (drop (Suc k) sccs)"
    by (simp add: Cons_nth_drop_Suc [symmetric])
  have "\<exists>acc. union_members succ (scc_index sccs) effs k (sccs ! k) (union_own own (sccs ! k) effect_set_new) = Some acc
      \<and> settled E own sccs (Suc k) (effs[k := acc])"
    by (rule settle_step [OF dist k _ _ _ Suc.prems(2)]) (use order mutual E k in blast)+
  then obtain acc where
    acc: "union_members succ (scc_index sccs) effs k (sccs ! k) (union_own own (sccs ! k) effect_set_new) = Some acc"
      "settled E own sccs (Suc k) (effs[k := acc])" by blast
  show ?case
    using Suc.hyps(1) [of "Suc k" "effs[k := acc]" "if 1 < length (sccs ! k) then stats\<lparr>es_recursive_sccs := es_recursive_sccs stats + 1\<rparr> else stats"]
      Suc.hyps(2) k acc unfolding drop by (simp add: Let_def)
qed

subsection \<open>The closure\<close>

text \<open>Every edge that propagates effects leads to a node of the graph.\<close>

definition edges_closed :: "resolved_graph \<Rightarrow> bool" where
  "edges_closed g \<longleftrightarrow> (\<forall>e \<in> set (cv_iter (rg_edges g)). propagates_effects (e_kind (ep_edge e)) \<longrightarrow>
     e_dst (ep_edge e) \<in> (\<lambda>n. n_id (np_node n)) ` set (rg_nodes g))"

lemma effect_closure_bits:
  assumes closed: "edges_closed g"
  shows "\<exists>effs stats. run_effect_closure g = Some (g\<lparr>rg_nodes := map (\<lambda>n. n\<lparr>np_node :=
        (np_node n)\<lparr>n_transitive_effects := effs (n_id (np_node n))\<rparr>\<rparr>) (rg_nodes g)\<rparr>, stats)
    \<and> (\<forall>n \<in> set (rg_nodes g). \<forall>b. bit (effs (n_id (np_node n))) b
        \<longleftrightarrow> reach_bit (effect_edges g) (own_effects g) (n_id (np_node n)) b)"
proof -
  let ?own = "own_effects g" and ?succ = "effect_succ g"
  let ?nodes = "map fst ?own"
  let ?sccs = "tarjan_sccs ?nodes ?succ" and ?E = "succ_edges ?nodes ?succ"
  have sorted: "strict_sorted ?nodes" by (rule bt_wf_keys [OF own_effects_wf])
  note dist = sccs_members(1) [OF sorted, of ?succ] and mem = sccs_members(2) [OF sorted, of ?succ]
  have keys: "set ?nodes = (\<lambda>n. n_id (np_node n)) ` set (rg_nodes g)" by (rule own_effects_keys)
  have in_nodes: "x \<in> set ?nodes" if "k < length ?sccs" "x \<in> set (?sccs ! k)" for k x
    using that mem nth_mem [OF that(1)] by auto
  have E: "(x, y) \<in> ?E \<longleftrightarrow> y \<in> set (bt_items ?succ x)" if "x \<in> set ?nodes" for x y
    using that closed unfolding succ_edges_effects effect_succ_items keys edges_closed_def effect_edges_def
    by auto
  have "\<exists>stats' effs'. settle_sccs ?own ?succ (scc_index ?sccs) (enumerate 0 (drop 0 ?sccs))
      (\<lparr>es_nodes_with_effects = 0, es_recursive_sccs = 0\<rparr>, replicate (length ?sccs) effect_set_new) = Some (stats', effs')
    \<and> settled ?E ?own ?sccs (length ?sccs) effs'"
  proof (rule settle_all [OF dist])
    fix k x y
    assume k: "k < length ?sccs" and x: "x \<in> set (?sccs ! k)"
    show "(x, y) \<in> ?E \<longleftrightarrow> y \<in> set (bt_items ?succ x)" by (rule E [OF in_nodes [OF k x]])
    then show "\<exists>m \<le> k. y \<in> set (?sccs ! m)" if "y \<in> set (bt_items ?succ x)"
      using sccs_order [OF sorted k x, of y] that by blast
    show "(x, y) \<in> ?E\<^sup>*" if "y \<in> set (?sccs ! k)"
      using sccs_component [OF sorted in_nodes [OF k x] in_nodes [OF k that], of ?succ] x that nth_mem [OF k] by blast
  qed (simp_all add: settled_def)
  then obtain stats effs where run: "settle_sccs ?own ?succ (scc_index ?sccs) (enumerate 0 ?sccs)
      (\<lparr>es_nodes_with_effects = 0, es_recursive_sccs = 0\<rparr>, replicate (length ?sccs) effect_set_new) = Some (stats, effs)"
    and settled: "settled ?E ?own ?sccs (length ?sccs) effs" by auto
  let ?eff = "\<lambda>i. case map_of (scc_index ?sccs) i of Some i \<Rightarrow> effs ! i | None \<Rightarrow> effect_set_new"
  have reach: "(x, m) \<in> ?E\<^sup>* \<longleftrightarrow> (x, m) \<in> (effect_edges g)\<^sup>*" if "x \<in> set ?nodes" for x m
  proof
    have "?E \<subseteq> effect_edges g" unfolding succ_edges_effects by blast
    then show "(x, m) \<in> ?E\<^sup>* \<Longrightarrow> (x, m) \<in> (effect_edges g)\<^sup>*" using rtrancl_mono by blast
    assume "(x, m) \<in> (effect_edges g)\<^sup>*"
    then have "(x, m) \<in> ?E\<^sup>* \<and> m \<in> set ?nodes"
    proof (induction rule: rtrancl_induct)
      case (step y z)
      have "z \<in> set ?nodes" using step.hyps(2) closed unfolding keys effect_edges_def edges_closed_def by auto
      moreover have "y = z \<or> (y, z) \<in> ?E" using step calculation unfolding succ_edges_effects by blast
      ultimately show ?case using step.IH by (auto intro: rtrancl_into_rtrancl)
    qed (use that in simp)
    then show "(x, m) \<in> ?E\<^sup>*" ..
  qed
  have bits: "bit (?eff (n_id (np_node n))) b \<longleftrightarrow> reach_bit (effect_edges g) ?own (n_id (np_node n)) b"
    if "n \<in> set (rg_nodes g)" for n b
  proof -
    let ?x = "n_id (np_node n)"
    have x: "?x \<in> set ?nodes" using that unfolding keys by blast
    then have "?x \<in> set (concat ?sccs)" unfolding mem .
    then obtain k where k: "k < length ?sccs" "?x \<in> set (?sccs ! k)" unfolding mem_concat by blast
    then have "map_of (scc_index ?sccs) ?x = Some k" using scc_index_get [OF dist, of ?x k] by blast
    then have "bit (?eff ?x) b \<longleftrightarrow> reach_bit ?E ?own ?x b"
      using settled k unfolding settled_def by simp
    then show ?thesis using reach [OF x] unfolding reach_bit_def by blast
  qed
  have "\<exists>stats. run_effect_closure g = Some (g\<lparr>rg_nodes := map (\<lambda>n. n\<lparr>np_node :=
        (np_node n)\<lparr>n_transitive_effects := ?eff (n_id (np_node n))\<rparr>\<rparr>) (rg_nodes g)\<rparr>, stats)"
    by (simp add: run_effect_closure_def Let_def run write_effects_def [abs_def])
  then obtain stats where "run_effect_closure g = Some (g\<lparr>rg_nodes := map (\<lambda>n. n\<lparr>np_node :=
        (np_node n)\<lparr>n_transitive_effects := ?eff (n_id (np_node n))\<rparr>\<rparr>) (rg_nodes g)\<rparr>, stats)" ..
  then show ?thesis using bits by (intro exI [of _ ?eff] exI [of _ stats] conjI ballI allI)
qed

end
