(* ===== verification/Resolve_Properties.thy ===== *)
theory Resolve_Properties
  imports Query_Properties Resolve_Effects
begin

text \<open>
  Properties of the resolver's graph algorithms: the components found by the iterative Tarjan
  search, the effect closure over them, the closure of the dirty functions, and the refinement
  of plain lists by the chunked sequence.
\<close>

definition sample_prov :: provenance where
  "sample_prov = provenance_new (span_new ''main.rs'' 1 None) ''scope'' ScopeGraph ''oid''"

definition no_stats :: cat_stats where
  "no_stats = \<lparr>ct_sites = 0, ct_edges_before = 0, ct_edges_after = 0, ct_dangling = 0,
     ct_dangling_edges_before = 0, ct_fallback = 0, ct_fallback_edges = 0\<rparr>"

definition sample_graph :: resolved_graph where
  "sample_graph =
     \<lparr>rg_nodes = map (\<lambda>n. \<lparr>np_node = n\<lparr>n_own_effects := (if n_id n = 3 then effect_set_single IoFile else 0)\<rparr>,
          np_provenance = sample_prov\<rparr>) sample_nodes,
      rg_edges = cv_from_iter (map (\<lambda>e. \<lparr>ep_edge = e, ep_provenance = sample_prov\<rparr>) sample_edges),
      rg_candidates = [], rg_unresolved = [],
      rg_dataflow = \<lparr>do_fn_intraproc_cache = [], do_summary_deps = [], do_changed_fns = [],
        do_stats = \<lparr>df_functions_recomputed = 0, df_functions_reused = 0\<rparr>, do_fn_summaries = [],
        do_ifds_stats = \<lparr>ifd_summaries_computed = 0, ifd_summary_edges_materialized = 0,
          ifd_budget_exceeded_sccs = 0\<rparr>\<rparr>,
      rg_precision = \<lparr>ps_self_cone = no_stats, ps_class_head = no_stats, ps_super_call = no_stats,
        ps_literal = no_stats, ps_external_module = no_stats, ps_typed_local = no_stats,
        ps_ctor_call = no_stats, ps_self_field = no_stats, ps_go_vta = no_stats,
        ps_unknown_base = no_stats, ps_legacy_local = no_stats, ps_legacy_self_chain = no_stats,
        ps_legacy_chain = no_stats, ps_legacy_anon = no_stats, ps_open_nonclass_bases = 0,
        ps_unknown_bases = 0, ps_fqn_collisions = 0, ps_spec_ambiguous = 0, ps_spec_shadowed = 0,
        ps_floating_classes = 0\<rparr>\<rparr>"

subsection \<open>Strongly connected components\<close>

text \<open>
  C3. \<open>tarjan_sccs\<close> on a set of nodes and a successor map: the components partition the nodes,
  two nodes share a component exactly when each reaches the other, every edge leads into the
  same or an earlier component (reverse topological order), and each component is sorted.
\<close>

theorem tarjan_sccs_correct:
  assumes "strict_sorted nodes"
  shows "distinct (concat (tarjan_sccs nodes succ)) \<and> set (concat (tarjan_sccs nodes succ)) = set nodes
    \<and> (\<forall>a \<in> set nodes. \<forall>b \<in> set nodes.
        (\<exists>scc \<in> set (tarjan_sccs nodes succ). a \<in> set scc \<and> b \<in> set scc)
          \<longleftrightarrow> (a, b) \<in> (succ_edges nodes succ)\<^sup>* \<and> (b, a) \<in> (succ_edges nodes succ)\<^sup>*)
    \<and> (\<forall>k < length (tarjan_sccs nodes succ). \<forall>a \<in> set (tarjan_sccs nodes succ ! k).
        \<forall>b. (a, b) \<in> succ_edges nodes succ \<longrightarrow> (\<exists>m \<le> k. b \<in> set (tarjan_sccs nodes succ ! m)))
    \<and> (\<forall>scc \<in> set (tarjan_sccs nodes succ). sorted scc)"
proof (intro conjI ballI allI impI)
  show "(\<exists>scc \<in> set (tarjan_sccs nodes succ). a \<in> set scc \<and> b \<in> set scc)
      \<longleftrightarrow> (a, b) \<in> (succ_edges nodes succ)\<^sup>* \<and> (b, a) \<in> (succ_edges nodes succ)\<^sup>*"
    if "a \<in> set nodes" "b \<in> set nodes" for a b by (rule sccs_component [OF assms that])
  show "\<exists>m \<le> k. b \<in> set (tarjan_sccs nodes succ ! m)"
    if "k < length (tarjan_sccs nodes succ)" "a \<in> set (tarjan_sccs nodes succ ! k)" "(a, b) \<in> succ_edges nodes succ"
    for k a b by (rule sccs_order [OF assms that])
  show "sorted scc" if "scc \<in> set (tarjan_sccs nodes succ)" for scc
    using that by (auto simp: tarjan_sccs_index)
qed (rule sccs_members [OF assms])+

lemma tarjan_sccs_correct_witness:
  "set (concat (tarjan_sccs [1, 2, 3 :: nat] [(1, [2]), (2, [1, 3])])) = {1, 2, 3}
    \<and> (\<exists>scc \<in> set (tarjan_sccs [1, 2, 3 :: nat] [(1, [2]), (2, [1, 3])]). 1 \<in> set scc \<and> 2 \<in> set scc)"
proof -
  have "(1, 2) \<in> succ_edges [1, 2, 3 :: nat] [(1, [2]), (2, [1, 3])]"
    "(2, 1) \<in> succ_edges [1, 2, 3 :: nat] [(1, [2]), (2, [1, 3])]"
    by (simp_all add: succ_edges_def)
  then show ?thesis
    using tarjan_sccs_correct [of "[1, 2, 3 :: nat]" "[(1, [2]), (2, [1, 3])]"] by auto
qed

subsection \<open>Effects\<close>

text \<open>
  C4. The effect closure on a graph with distinct node identifiers whose propagating edges lead
  to nodes: it succeeds, changes nothing but the transitive effects, and a node's transitive
  effects are exactly the effects that the nodes it reaches over propagating edges have
  themselves (calls of every kind except detached spawns).
\<close>

theorem effect_closure_is_reachability:
  assumes "distinct (map (\<lambda>n. n_id (np_node n)) (rg_nodes g))" "edges_closed g"
  shows "\<exists>g' stats. run_effect_closure g = Some (g', stats)
    \<and> g'\<lparr>rg_nodes := map (\<lambda>n. n\<lparr>np_node := (np_node n)\<lparr>n_transitive_effects := 0\<rparr>\<rparr>) (rg_nodes g')\<rparr>
      = g\<lparr>rg_nodes := map (\<lambda>n. n\<lparr>np_node := (np_node n)\<lparr>n_transitive_effects := 0\<rparr>\<rparr>) (rg_nodes g)\<rparr>
    \<and> (\<forall>n \<in> set (rg_nodes g'). \<forall>e. effect_set_contains (n_transitive_effects (np_node n)) e
        \<longleftrightarrow> (\<exists>m \<in> set (rg_nodes g). (n_id (np_node n), n_id (np_node m)) \<in> (effect_edges g)\<^sup>*
              \<and> effect_set_contains (n_own_effects (np_node m)) e))"
proof -
  obtain effs stats where run: "run_effect_closure g = Some (g\<lparr>rg_nodes := map (\<lambda>n. n\<lparr>np_node :=
        (np_node n)\<lparr>n_transitive_effects := effs (n_id (np_node n))\<rparr>\<rparr>) (rg_nodes g)\<rparr>, stats)"
    and bits: "\<And>n b. n \<in> set (rg_nodes g) \<Longrightarrow> bit (effs (n_id (np_node n))) b
        \<longleftrightarrow> reach_bit (effect_edges g) (own_effects g) (n_id (np_node n)) b"
    using effect_closure_bits [OF assms(2)] by blast
  have own: "own_bit (own_effects g) x b
      \<longleftrightarrow> (\<exists>m \<in> set (rg_nodes g). n_id (np_node m) = x \<and> bit (n_own_effects (np_node m)) b)" for x b
  proof -
    have "own_bit (own_effects g) x b \<Longrightarrow> x \<in> (\<lambda>n. n_id (np_node n)) ` set (rg_nodes g)"
      unfolding own_effects_keys [symmetric] own_bit_def by (force dest: map_of_SomeD)
    then show ?thesis using own_effects_get [OF assms(1)] by (fastforce simp: own_bit_def)
  qed
  have "\<forall>n \<in> set (rg_nodes g). \<forall>e. effect_set_contains (effs (n_id (np_node n))) e
      \<longleftrightarrow> (\<exists>m \<in> set (rg_nodes g). (n_id (np_node n), n_id (np_node m)) \<in> (effect_edges g)\<^sup>*
            \<and> effect_set_contains (n_own_effects (np_node m)) e)"
    using bits by (auto simp: effect_set_contains_bit reach_bit_def own)
  then show ?thesis using run by (auto simp: comp_def)
qed

lemma sample_graph_edges:
  "cv_iter (rg_edges sample_graph) = map (\<lambda>e. \<lparr>ep_edge = e, ep_provenance = sample_prov\<rparr>) sample_edges"
  by (simp add: sample_graph_def cv_iter_def cv_from_iter_abs [unfolded cv_abs_def])

lemma effect_closure_is_reachability_witness:
  "\<exists>g' stats. run_effect_closure sample_graph = Some (g', stats)
    \<and> (\<forall>n \<in> set (rg_nodes g'). n_id (np_node n) = 0 \<longrightarrow> effect_set_contains (n_transitive_effects (np_node n)) IoFile)"
proof -
  have ids: "map (\<lambda>n. n_id (np_node n)) (rg_nodes sample_graph) = [0, 1, 2, 3, 4]"
    by (simp add: sample_graph_def sample_nodes_def sample_node_def)
  have edges: "cv_iter (rg_edges sample_graph) = map (\<lambda>e. \<lparr>ep_edge = e, ep_provenance = sample_prov\<rparr>) sample_edges"
    by (rule sample_graph_edges)
  have "edges_closed sample_graph"
    unfolding edges_closed_def edges set_map [symmetric] ids
    by (simp add: sample_edges_def sample_edge_def)
  then obtain g' stats where g': "run_effect_closure sample_graph = Some (g', stats)"
    and eff: "\<forall>n \<in> set (rg_nodes g'). \<forall>e. effect_set_contains (n_transitive_effects (np_node n)) e
        \<longleftrightarrow> (\<exists>m \<in> set (rg_nodes sample_graph). (n_id (np_node n), n_id (np_node m)) \<in> (effect_edges sample_graph)\<^sup>*
              \<and> effect_set_contains (n_own_effects (np_node m)) e)"
    using effect_closure_is_reachability [of sample_graph] ids by auto
  have "(0, 1) \<in> effect_edges sample_graph" "(1, 3) \<in> effect_edges sample_graph"
    unfolding effect_edges_def edges by (force simp: sample_edges_def sample_edge_def)+
  then have "(0, 3) \<in> (effect_edges sample_graph)\<^sup>*" by (meson converse_rtrancl_into_rtrancl r_into_rtrancl)
  moreover have "\<exists>m \<in> set (rg_nodes sample_graph). n_id (np_node m) = 3 \<and> effect_set_contains (n_own_effects (np_node m)) IoFile"
    by (simp add: sample_graph_def sample_nodes_def sample_node_def effect_set_contains_def effect_set_single_def effect_bit_def)
  ultimately have "\<exists>m \<in> set (rg_nodes sample_graph). (0, n_id (np_node m)) \<in> (effect_edges sample_graph)\<^sup>*
      \<and> effect_set_contains (n_own_effects (np_node m)) IoFile" by metis
  then show ?thesis using g' eff by auto
qed

subsection \<open>Dirty functions\<close>

text \<open>
  C24. \<open>propagate_dirty\<close> returns, sorted and without repetition, exactly the seed, the dependents of
  the wildcard when anything changed, and every function that transitively consumes the summary
  of one of them; cyclic dependencies included.
\<close>

theorem propagate_dirty_closure:
  "strict_sorted (propagate_dirty seed deps)
    \<and> set (propagate_dirty seed deps)
      = (consumes deps)\<^sup>* `` (set seed \<union> (if seed = [] then {} else {d. (d, ''*'') \<in> set deps}))"
  by (simp add: propagate_dirty_set)

subsection \<open>The chunked sequence\<close>

text \<open>
  C23. Sorting a chunked sequence by a cached key: the loops that follow the swaps made so far
  end, no index is out of bounds, the layout stays well formed, and the elements are those of
  the stable sort by the key.
\<close>

theorem chunked_sort_refines:
  assumes "cv_wf v"
  shows "\<exists>v'. cv_sort_by_cached_key f v = Some v' \<and> cv_wf v' \<and> cv_abs v' = sort_key f (cv_abs v)"
  by (rule cv_sort_abs [OF assms])

lemma chunked_sort_refines_witness:
  "\<exists>v'. cv_sort_by_cached_key (\<lambda>x. x) (cv_from_iter [3, 1, 2 :: nat]) = Some v' \<and> cv_abs v' = [1, 2, 3]"
  using chunked_sort_refines [OF conjunct1 [OF cv_from_iter_abs], of "\<lambda>x. x" "[3, 1, 2 :: nat]"]
  by (auto simp: cv_from_iter_abs)

text \<open>
  The other operations of the chunked sequence refine those of a plain list: appending,
  lookup by index, the last element, swapping, truncation and retaining; each keeps the layout
  and none panics within bounds.
\<close>

theorem chunked_operations_refine:
  assumes "cv_wf v"
  shows "cv_wf (cv_push x v) \<and> cv_abs (cv_push x v) = cv_abs v @ [x]
    \<and> cv_get v i = (if i < length (cv_abs v) then Some (cv_abs v ! i) else None)
    \<and> cv_last v = (if cv_abs v = [] then None else Some (last (cv_abs v)))
    \<and> (a < length (cv_abs v) \<longrightarrow> b < length (cv_abs v) \<longrightarrow>
        (\<exists>v'. cv_swap a b v = Some v' \<and> cv_wf v' \<and> cv_abs v' = (cv_abs v)[a := cv_abs v ! b, b := cv_abs v ! a]))
    \<and> cv_wf (cv_truncate n v) \<and> cv_abs (cv_truncate n v) = take n (cv_abs v)
    \<and> (\<exists>v'. cv_retain keep v = Some v' \<and> cv_wf v' \<and> cv_abs v' = filter keep (cv_abs v))"
  using cv_push_abs [OF assms] cv_index_abs [OF assms] cv_last_abs [OF assms] cv_swap_abs [OF assms]
    cv_truncate_abs [OF assms] cv_retain_abs [OF assms]
  by (simp add: cv_get_index)

lemma chunked_operations_refine_witness:
  "cv_get (cv_from_iter [''a'', ''b'']) 1 = Some ''b'' \<and> cv_get (cv_from_iter [''a'', ''b'']) 2 = None"
proof -
  have "cv_wf (cv_from_iter [''a'', ''b''])" using cv_from_iter_abs by blast
  from chunked_operations_refine [OF this, of undefined 1] chunked_operations_refine [OF this, of undefined 2]
  show ?thesis by (simp add: cv_from_iter_abs)
qed

end
