(* ===== verification/Diff_Graph.thy ===== *)
theory Diff_Graph
  imports Core_Pattern
begin

text \<open>
  The graph diff (\<open>diff.rs\<close>) and its post-filter (\<open>filter.rs\<close>). Edges are indexed by their
  stable identity in an ordered map, the last edge of an identity winning; nodes by their name.
  The specification side is a lookup that scans the edge list for the last edge of an identity.
\<close>

subsection \<open>Data\<close>

record linked_graph =
  lg_nodes :: "node_record list"
  lg_edges :: "edge_record list"
  lg_candidates :: "candidate list"

record diff_edge =
  de_identity :: edge_identity
  de_record :: edge_record
  de_line :: nat

record edge_changes =
  ec_condition :: bool
  ec_confidence :: bool
  ec_tier :: bool
  ec_candidate_group :: bool
  ec_cfg_condition :: bool

record changed_edge =
  ce_identity :: edge_identity
  ce_base :: edge_record
  ce_head :: edge_record
  ce_changes :: edge_changes

record diff_node =
  dn_fqn :: string
  dn_record :: node_record

record graph_diff =
  gd_added_edges :: "diff_edge list"
  gd_removed_edges :: "diff_edge list"
  gd_changed_edges :: "changed_edge list"
  gd_added_nodes :: "diff_node list"
  gd_removed_nodes :: "diff_node list"

definition edge_changes_any :: "edge_changes \<Rightarrow> bool" where
  "edge_changes_any c \<longleftrightarrow> ec_condition c \<or> ec_confidence c \<or> ec_tier c \<or> ec_candidate_group c \<or> ec_cfg_condition c"

definition classify_change :: "edge_record \<Rightarrow> edge_record \<Rightarrow> edge_changes" where
  "classify_change b h =
     \<lparr>ec_condition = (e_condition b \<noteq> e_condition h),
      ec_confidence = (e_confidence b \<noteq> e_confidence h),
      ec_tier = (e_tier b \<noteq> e_tier h),
      ec_candidate_group = (e_candidate_group b \<noteq> e_candidate_group h),
      ec_cfg_condition = (e_cfg_condition b \<noteq> e_cfg_condition h)\<rparr>"

definition graph_diff_is_empty :: "graph_diff \<Rightarrow> bool" where
  "graph_diff_is_empty d \<longleftrightarrow>
     gd_added_edges d = [] \<and> gd_removed_edges d = [] \<and> gd_changed_edges d = [] \<and>
     gd_added_nodes d = [] \<and> gd_removed_nodes d = []"

subsection \<open>The diff\<close>

definition node_at :: "linked_graph \<Rightarrow> node_id \<Rightarrow> node_record option" where
  "node_at g n = (if n < length (lg_nodes g) then Some (lg_nodes g ! n) else None)"

definition identity_of :: "linked_graph \<Rightarrow> edge_record \<Rightarrow> (edge_identity \<times> nat) option" where
  "identity_of g edge =
     (case node_at g (e_src edge) of None \<Rightarrow> None | Some src \<Rightarrow>
      (case node_at g (e_dst edge) of None \<Rightarrow> None | Some dst \<Rightarrow>
         Some (edge_identity_new (n_fqn src) (n_fqn dst) edge (n_file src) (e_stmt_index edge), n_line_start src)))"

definition index_edges :: "linked_graph \<Rightarrow> (edge_identity, edge_record \<times> nat) btree_map" where
  "index_edges g =
     fold (\<lambda>edge m. case identity_of g edge of Some (ident, line) \<Rightarrow> bt_insert ident (edge, line) m | None \<Rightarrow> m)
       (lg_edges g) []"

definition index_nodes :: "linked_graph \<Rightarrow> (string, node_record) btree_map" where
  "index_nodes g = fold (\<lambda>n. bt_insert (n_fqn n) n) (lg_nodes g) []"

definition diff_head_edge ::
  "(edge_identity, edge_record \<times> nat) btree_map \<Rightarrow> edge_identity \<times> edge_record \<times> nat
    \<Rightarrow> diff_edge list \<times> changed_edge list \<Rightarrow> diff_edge list \<times> changed_edge list" where
  "diff_head_edge base_edges entry acc =
     (case entry of (ident, h_edge, h_line) \<Rightarrow> case acc of (added, changed) \<Rightarrow>
        (case map_of base_edges ident of
           None \<Rightarrow> (added @ [\<lparr>de_identity = ident, de_record = h_edge, de_line = h_line\<rparr>], changed)
         | Some (b_edge, _) \<Rightarrow>
             (let changes = classify_change b_edge h_edge in
              if edge_changes_any changes
              then (added, changed @ [\<lparr>ce_identity = ident, ce_base = b_edge, ce_head = h_edge, ce_changes = changes\<rparr>])
              else (added, changed))))"

definition missing_edges ::
  "(edge_identity, edge_record \<times> nat) btree_map \<Rightarrow> (edge_identity, edge_record \<times> nat) btree_map \<Rightarrow> diff_edge list" where
  "missing_edges from_map in_map =
     map (\<lambda>(ident, edge, line). \<lparr>de_identity = ident, de_record = edge, de_line = line\<rparr>)
       (filter (\<lambda>(ident, _). map_of in_map ident = None) from_map)"

definition missing_nodes ::
  "(string, node_record) btree_map \<Rightarrow> (string, node_record) btree_map \<Rightarrow> diff_node list" where
  "missing_nodes from_map in_map =
     map (\<lambda>(fqn, node). \<lparr>dn_fqn = fqn, dn_record = node\<rparr>)
       (filter (\<lambda>(fqn, _). map_of in_map fqn = None) from_map)"

definition diff_graphs :: "linked_graph \<Rightarrow> linked_graph \<Rightarrow> graph_diff" where
  "diff_graphs base head =
     (let base_edges = index_edges base; head_edges = index_edges head;
          (added_edges, changed_edges) = fold (diff_head_edge base_edges) head_edges ([], []);
          removed_edges = missing_edges base_edges head_edges;
          base_nodes = index_nodes base; head_nodes = index_nodes head
      in \<lparr>gd_added_edges = added_edges, gd_removed_edges = removed_edges, gd_changed_edges = changed_edges,
          gd_added_nodes = missing_nodes head_nodes base_nodes,
          gd_removed_nodes = missing_nodes base_nodes head_nodes\<rparr>)"

subsection \<open>The post-filter\<close>

record bucket_select =
  bs_added :: bool
  bs_removed :: bool
  bs_changed :: bool

definition bucket_select_default :: bucket_select where
  "bucket_select_default = \<lparr>bs_added = True, bs_removed = True, bs_changed = True\<rparr>"

definition from_flags :: "bool \<Rightarrow> bool \<Rightarrow> bool \<Rightarrow> bucket_select" where
  "from_flags added removed changed =
     (if \<not> added \<and> \<not> removed \<and> \<not> changed then bucket_select_default
      else \<lparr>bs_added = added, bs_removed = removed, bs_changed = changed\<rparr>)"

record diff_filter =
  df_buckets :: bucket_select
  df_kinds :: "edge_kind list"
  df_edge_condition :: "edge_condition option"
  df_from :: "symbol_pattern option"
  df_to :: "symbol_pattern option"

definition with_buckets :: "bucket_select \<Rightarrow> diff_filter" where
  "with_buckets b = \<lparr>df_buckets = b, df_kinds = [], df_edge_condition = None, df_from = None, df_to = None\<rparr>"

definition has_edge_predicate :: "diff_filter \<Rightarrow> bool" where
  "has_edge_predicate f \<longleftrightarrow> df_kinds f \<noteq> [] \<or> df_edge_condition f \<noteq> None \<or> df_from f \<noteq> None \<or> df_to f \<noteq> None"

definition glob_matches_fqn :: "symbol_pattern \<Rightarrow> string \<Rightarrow> bool" where
  "glob_matches_fqn pat fqn = matches_fqn pat fqn"

definition diff_admits :: "diff_filter \<Rightarrow> string \<Rightarrow> string \<Rightarrow> edge_kind \<Rightarrow> edge_condition \<Rightarrow> bool" where
  "diff_admits f src_fqn dst_fqn kind condition =
     (if df_kinds f \<noteq> [] \<and> kind \<notin> set (df_kinds f) then False
      else if (case df_edge_condition f of Some want \<Rightarrow> condition \<noteq> want | None \<Rightarrow> False) then False
      else if (case df_from f of Some pat \<Rightarrow> \<not> glob_matches_fqn pat src_fqn | None \<Rightarrow> False) then False
      else if (case df_to f of Some pat \<Rightarrow> \<not> glob_matches_fqn pat dst_fqn | None \<Rightarrow> False) then False
      else True)"

definition admits_diff_edge :: "diff_filter \<Rightarrow> diff_edge \<Rightarrow> bool" where
  "admits_diff_edge f e =
     diff_admits f (ei_src_fqn (de_identity e)) (ei_dst_fqn (de_identity e)) (ei_edge_kind (de_identity e))
       (e_condition (de_record e))"

definition admits_changed_edge :: "diff_filter \<Rightarrow> changed_edge \<Rightarrow> bool" where
  "admits_changed_edge f e =
     (if df_kinds f \<noteq> [] \<and> ei_edge_kind (ce_identity e) \<notin> set (df_kinds f) then False
      else if (case df_edge_condition f of
          Some want \<Rightarrow> e_condition (ce_base e) \<noteq> want \<and> e_condition (ce_head e) \<noteq> want
        | None \<Rightarrow> False) then False
      else if (case df_from f of Some pat \<Rightarrow> \<not> glob_matches_fqn pat (ei_src_fqn (ce_identity e)) | None \<Rightarrow> False) then False
      else if (case df_to f of Some pat \<Rightarrow> \<not> glob_matches_fqn pat (ei_dst_fqn (ce_identity e)) | None \<Rightarrow> False) then False
      else True)"

definition diff_filter_apply :: "diff_filter \<Rightarrow> graph_diff \<Rightarrow> graph_diff" where
  "diff_filter_apply f d =
     (let b = df_buckets f;
          (added_nodes, removed_nodes) =
            (if has_edge_predicate f then ([], [])
             else (if bs_added b then gd_added_nodes d else [], if bs_removed b then gd_removed_nodes d else []))
      in \<lparr>gd_added_edges = (if bs_added b then filter (admits_diff_edge f) (gd_added_edges d) else []),
          gd_removed_edges = (if bs_removed b then filter (admits_diff_edge f) (gd_removed_edges d) else []),
          gd_changed_edges = (if bs_changed b then filter (admits_changed_edge f) (gd_changed_edges d) else []),
          gd_added_nodes = added_nodes, gd_removed_nodes = removed_nodes\<rparr>)"

subsection \<open>What the indexes hold\<close>

text \<open>The last edge of an identity and the last node of a name, by a scan of the lists.\<close>

fun edge_with_identity :: "linked_graph \<Rightarrow> edge_record list \<Rightarrow> edge_identity \<Rightarrow> (edge_record \<times> nat) option" where
  "edge_with_identity g [] ident = None"
| "edge_with_identity g (e # es) ident =
     (case edge_with_identity g es ident of
        Some x \<Rightarrow> Some x
      | None \<Rightarrow> (case identity_of g e of Some (i, line) \<Rightarrow> if i = ident then Some (e, line) else None | None \<Rightarrow> None))"

fun node_named :: "node_record list \<Rightarrow> string \<Rightarrow> node_record option" where
  "node_named [] fqn = None"
| "node_named (n # ns) fqn =
     (case node_named ns fqn of Some x \<Rightarrow> Some x | None \<Rightarrow> if n_fqn n = fqn then Some n else None)"

definition edge_at :: "linked_graph \<Rightarrow> edge_identity \<Rightarrow> (edge_record \<times> nat) option" where
  "edge_at g = edge_with_identity g (lg_edges g)"

lemma index_edges_get: "map_of (index_edges g) ident = edge_at g ident"
proof -
  have "map_of (fold (\<lambda>edge m. case identity_of g edge of Some (ident, line) \<Rightarrow> bt_insert ident (edge, line) m | None \<Rightarrow> m) es m) ident
      = (case edge_with_identity g es ident of Some x \<Rightarrow> Some x | None \<Rightarrow> map_of m ident)" for es m
    by (induction es arbitrary: m) (auto simp: container_simps split: option.splits prod.splits)
  then show ?thesis by (simp add: index_edges_def edge_at_def split: option.split)
qed

lemma index_edges_wf: "bt_wf (index_edges g)"
proof -
  have "bt_wf m \<Longrightarrow> bt_wf (fold (\<lambda>edge m. case identity_of g edge of Some (ident, line) \<Rightarrow> bt_insert ident (edge, line) m | None \<Rightarrow> m) es m)" for es m
    by (induction es arbitrary: m) (auto simp: container_simps split: option.splits prod.splits)
  then show ?thesis by (simp add: index_edges_def)
qed

lemma index_nodes_get: "map_of (index_nodes g) fqn = node_named (lg_nodes g) fqn"
proof -
  have "map_of (fold (\<lambda>n. bt_insert (n_fqn n) n) ns m) fqn
      = (case node_named ns fqn of Some x \<Rightarrow> Some x | None \<Rightarrow> map_of m fqn)" for ns m
    by (induction ns arbitrary: m) (auto simp: container_simps split: option.splits)
  then show ?thesis by (simp add: index_nodes_def split: option.split)
qed

lemma index_nodes_wf: "bt_wf (index_nodes g)"
  unfolding index_nodes_def by (rule bt.wf_fold) simp

lemma node_named_None: "node_named ns fqn = None \<longleftrightarrow> fqn \<notin> n_fqn ` set ns"
  by (induction ns) (auto split: option.splits)

lemma diff_head_fold:
  "fold (diff_head_edge base_edges) entries (added, changed) =
     (added @ map (\<lambda>(ident, edge, line). \<lparr>de_identity = ident, de_record = edge, de_line = line\<rparr>)
        (filter (\<lambda>(ident, _). map_of base_edges ident = None) entries),
      changed @ List.map_filter (\<lambda>(ident, h, _). case map_of base_edges ident of None \<Rightarrow> None
        | Some (b, _) \<Rightarrow> if edge_changes_any (classify_change b h)
            then Some \<lparr>ce_identity = ident, ce_base = b, ce_head = h, ce_changes = classify_change b h\<rparr> else None) entries)"
  by (induction entries arbitrary: added changed)
    (auto simp: diff_head_edge_def Let_def List.map_filter_def split: option.splits prod.splits)

lemma diff_graphs_fields:
  "gd_added_edges (diff_graphs base head) = missing_edges (index_edges head) (index_edges base)"
  "gd_removed_edges (diff_graphs base head) = missing_edges (index_edges base) (index_edges head)"
  "gd_changed_edges (diff_graphs base head) =
     List.map_filter (\<lambda>(ident, h, _). case map_of (index_edges base) ident of None \<Rightarrow> None
        | Some (b, _) \<Rightarrow> if edge_changes_any (classify_change b h)
            then Some \<lparr>ce_identity = ident, ce_base = b, ce_head = h, ce_changes = classify_change b h\<rparr> else None)
       (index_edges head)"
  "gd_added_nodes (diff_graphs base head) = missing_nodes (index_nodes head) (index_nodes base)"
  "gd_removed_nodes (diff_graphs base head) = missing_nodes (index_nodes base) (index_nodes head)"
  by (simp_all add: diff_graphs_def diff_head_fold missing_edges_def Let_def)

subsection \<open>The lists of a diff\<close>

lemma key_sorted_unique:
  assumes "strict_sorted (map f xs)" "strict_sorted (map f ys)" "set xs = set ys"
  shows "xs = ys"
proof -
  have "map (\<lambda>x. (f x, x)) xs = map (\<lambda>x. (f x, x)) ys"
    using assms by (intro sorted_keys_unique) (simp_all add: o_def)
  then have "map snd (map (\<lambda>x. (f x, x)) xs) = map snd (map (\<lambda>x. (f x, x)) ys)" by (rule arg_cong)
  then show ?thesis by (simp add: o_def)
qed

lemma strict_sorted_map_filter: "strict_sorted (map f xs) \<Longrightarrow> strict_sorted (map f (filter P xs))"
  by (induction xs) auto

lemma missing_edges_mem:
  assumes "bt_wf from_map"
  shows "e \<in> set (missing_edges from_map in_map) \<longleftrightarrow>
    map_of from_map (de_identity e) = Some (de_record e, de_line e) \<and> map_of in_map (de_identity e) = None"
  using bt_items_get [OF assms, symmetric] by (cases e) (force simp: missing_edges_def)

lemma missing_edges_sorted:
  assumes "bt_wf from_map"
  shows "strict_sorted (map de_identity (missing_edges from_map in_map))"
proof -
  have "map de_identity (missing_edges from_map in_map) = map fst (filter (\<lambda>(ident, _). map_of in_map ident = None) from_map)"
    by (auto simp: missing_edges_def)
  then show ?thesis using strict_sorted_map_filter [OF bt_wf_keys [OF assms]] by metis
qed

lemma missing_empty:
  "missing_edges es es' = [] \<longleftrightarrow> dom (map_of es) \<subseteq> dom (map_of es')"
  "missing_nodes ns ns' = [] \<longleftrightarrow> dom (map_of ns) \<subseteq> dom (map_of ns')"
  by (force simp: missing_edges_def missing_nodes_def filter_empty_conv dom_map_of_conv_image_fst map_of_eq_None_iff)+

lemma missing_nodes_mem:
  assumes "bt_wf from_map"
  shows "n \<in> set (missing_nodes from_map in_map) \<longleftrightarrow>
    map_of from_map (dn_fqn n) = Some (dn_record n) \<and> map_of in_map (dn_fqn n) = None"
  using bt_items_get [OF assms, symmetric] by (cases n) (force simp: missing_nodes_def)

lemma missing_nodes_sorted:
  assumes "bt_wf from_map"
  shows "strict_sorted (map dn_fqn (missing_nodes from_map in_map))"
proof -
  have "map dn_fqn (missing_nodes from_map in_map) = map fst (filter (\<lambda>(fqn, _). map_of in_map fqn = None) from_map)"
    by (auto simp: missing_nodes_def)
  then show ?thesis using strict_sorted_map_filter [OF bt_wf_keys [OF assms]] by metis
qed

definition changed_entry ::
  "linked_graph \<Rightarrow> edge_identity \<times> edge_record \<times> nat \<Rightarrow> changed_edge option" where
  "changed_entry base = (\<lambda>(ident, h, _). case edge_at base ident of None \<Rightarrow> None
     | Some (b, _) \<Rightarrow> if edge_changes_any (classify_change b h)
         then Some \<lparr>ce_identity = ident, ce_base = b, ce_head = h, ce_changes = classify_change b h\<rparr> else None)"

lemma changed_edges_filter:
  "gd_changed_edges (diff_graphs base head) = List.map_filter (changed_entry base) (index_edges head)"
  unfolding diff_graphs_fields changed_entry_def index_edges_get ..

lemma changed_entry_Some:
  "changed_entry base (ident, h, l) = Some c \<longleftrightarrow>
    (\<exists>b l'. edge_at base ident = Some (b, l') \<and> edge_changes_any (classify_change b h) \<and>
       c = \<lparr>ce_identity = ident, ce_base = b, ce_head = h, ce_changes = classify_change b h\<rparr>)"
  by (auto simp: changed_entry_def split: option.splits prod.splits if_splits)

lemma changed_edges_mem:
  "c \<in> set (gd_changed_edges (diff_graphs base head)) \<longleftrightarrow>
    (\<exists>l l'. edge_at base (ce_identity c) = Some (ce_base c, l) \<and> edge_at head (ce_identity c) = Some (ce_head c, l'))
    \<and> ce_changes c = classify_change (ce_base c) (ce_head c) \<and> edge_changes_any (ce_changes c)"
proof -
  have "c \<in> set (gd_changed_edges (diff_graphs base head)) \<longleftrightarrow>
      (\<exists>x \<in> set (index_edges head). changed_entry base x = Some c)"
    unfolding changed_edges_filter by (rule set_map_filter)
  also have "\<dots> \<longleftrightarrow> (\<exists>ident h l. edge_at head ident = Some (h, l) \<and> changed_entry base (ident, h, l) = Some c)"
    using bt_items_get [OF index_edges_wf, of _ _ head] by (force simp: index_edges_get)
  also have "\<dots> \<longleftrightarrow>
      (\<exists>l l'. edge_at base (ce_identity c) = Some (ce_base c, l) \<and> edge_at head (ce_identity c) = Some (ce_head c, l'))
      \<and> ce_changes c = classify_change (ce_base c) (ce_head c) \<and> edge_changes_any (ce_changes c)"
    unfolding changed_entry_Some by (cases c) auto
  finally show ?thesis .
qed

lemma map_filter_sublist:
  assumes "\<And>x y. f x = Some y \<Longrightarrow> key y = fst x"
  shows "map key (List.map_filter f xs) = map fst (filter (\<lambda>x. f x \<noteq> None) xs)"
  using assms by (induction xs) (auto simp: List.map_filter_def)

lemma changed_edges_sorted: "strict_sorted (map ce_identity (gd_changed_edges (diff_graphs base head)))"
proof -
  have "map ce_identity (List.map_filter (changed_entry base) (index_edges head))
      = map fst (filter (\<lambda>x. changed_entry base x \<noteq> None) (index_edges head))"
    by (rule map_filter_sublist) (auto simp: changed_entry_def split: option.splits prod.splits if_splits)
  then show ?thesis
    unfolding changed_edges_filter using strict_sorted_map_filter [OF bt_wf_keys [OF index_edges_wf]] by metis
qed

lemma diff_edges_mem:
  "e \<in> set (gd_added_edges (diff_graphs base head)) \<longleftrightarrow>
    edge_at head (de_identity e) = Some (de_record e, de_line e) \<and> edge_at base (de_identity e) = None"
  "e \<in> set (gd_removed_edges (diff_graphs base head)) \<longleftrightarrow>
    edge_at base (de_identity e) = Some (de_record e, de_line e) \<and> edge_at head (de_identity e) = None"
  by (simp_all add: diff_graphs_fields missing_edges_mem index_edges_wf index_edges_get)

lemma diff_nodes_mem:
  "n \<in> set (gd_added_nodes (diff_graphs base head)) \<longleftrightarrow>
    node_named (lg_nodes head) (dn_fqn n) = Some (dn_record n) \<and> node_named (lg_nodes base) (dn_fqn n) = None"
  "n \<in> set (gd_removed_nodes (diff_graphs base head)) \<longleftrightarrow>
    node_named (lg_nodes base) (dn_fqn n) = Some (dn_record n) \<and> node_named (lg_nodes head) (dn_fqn n) = None"
  by (simp_all add: diff_graphs_fields missing_nodes_mem index_nodes_wf index_nodes_get)

lemma diff_sorted:
  "strict_sorted (map de_identity (gd_added_edges (diff_graphs base head)))"
  "strict_sorted (map de_identity (gd_removed_edges (diff_graphs base head)))"
  "strict_sorted (map dn_fqn (gd_added_nodes (diff_graphs base head)))"
  "strict_sorted (map dn_fqn (gd_removed_nodes (diff_graphs base head)))"
  by (simp_all add: diff_graphs_fields missing_edges_sorted missing_nodes_sorted index_edges_wf index_nodes_wf)

subsection \<open>Filtering\<close>

definition admits_identity :: "diff_filter \<Rightarrow> edge_identity \<Rightarrow> bool" where
  "admits_identity f i \<longleftrightarrow>
     (df_kinds f = [] \<or> ei_edge_kind i \<in> set (df_kinds f)) \<and>
     (case df_from f of Some pat \<Rightarrow> glob_matches_fqn pat (ei_src_fqn i) | None \<Rightarrow> True) \<and>
     (case df_to f of Some pat \<Rightarrow> glob_matches_fqn pat (ei_dst_fqn i) | None \<Rightarrow> True)"

lemma admits_diff_edge_parts:
  "admits_diff_edge f e \<longleftrightarrow> admits_identity f (de_identity e) \<and>
    (case df_edge_condition f of Some want \<Rightarrow> e_condition (de_record e) = want | None \<Rightarrow> True)"
  by (auto simp: admits_diff_edge_def diff_admits_def admits_identity_def split: option.splits)

lemma admits_changed_edge_parts:
  "admits_changed_edge f c \<longleftrightarrow> admits_identity f (ce_identity c) \<and>
    (case df_edge_condition f of
       Some want \<Rightarrow> e_condition (ce_base c) = want \<or> e_condition (ce_head c) = want | None \<Rightarrow> True)"
  by (auto simp: admits_changed_edge_def admits_identity_def split: option.splits)

text \<open>The graph without the edges whose identity the filter rejects.\<close>

definition restrict_graph :: "diff_filter \<Rightarrow> linked_graph \<Rightarrow> linked_graph" where
  "restrict_graph f g =
     g\<lparr>lg_edges := filter (\<lambda>e. case identity_of g e of Some (i, _) \<Rightarrow> admits_identity f i | None \<Rightarrow> False) (lg_edges g)\<rparr>"

lemma edge_at_restrict:
  "edge_at (restrict_graph f g) i = (if admits_identity f i then edge_at g i else None)"
proof -
  have ident: "identity_of (restrict_graph f g) = identity_of g"
    by (simp add: restrict_graph_def identity_of_def node_at_def fun_eq_iff)
  have "edge_with_identity (restrict_graph f g) (filter (\<lambda>e. case identity_of g e of Some (i, _) \<Rightarrow> admits_identity f i | None \<Rightarrow> False) es) i
      = (if admits_identity f i then edge_with_identity g es i else None)" for es
    by (induction es) (auto simp: ident split: option.splits)
  then show ?thesis by (simp add: edge_at_def restrict_graph_def)
qed

end
