(* ===== verification/Diff_Path.thy ===== *)
theory Diff_Path
  imports Diff_Graph Query_Engine
begin

text \<open>
  The path-level diff (\<open>path_diff.rs\<close>): which source and sink pairs are connected over call and
  data-flow edges at the head and not at the base. Reachability is \<open>reaches\<close> of the query engine;
  the specification is the reflexive transitive closure of the flow edges of the linked graph.
\<close>

record added_path =
  ap_from_fqn :: string
  ap_to_fqn :: string
  ap_via :: "string list"

record path_diff =
  pd_added_paths :: "added_path list"
  pd_from_matched :: nat
  pd_to_matched :: nat

definition has_new_path :: "path_diff \<Rightarrow> bool" where
  "has_new_path d \<longleftrightarrow> pd_added_paths d \<noteq> []"

definition gate_kinds :: "edge_kind list" where
  "gate_kinds = [Calls, CallsVirtual, CallsClosure, CallsCallback, CallsAsync, CallsIndirect, Spawns, DerivesFrom]"

definition reachability_filter :: edge_filter where
  "reachability_filter = with_kinds gate_kinds edge_filter_calls"

definition matched_node_ids :: "graph_view \<Rightarrow> symbol_pattern \<Rightarrow> node_id list" where
  "matched_node_ids view pat = map n_id (filter (pattern_matches pat) (gv_nodes view))"

definition gate_walker :: "nat \<Rightarrow> path_walker" where
  "gate_walker max_steps =
     \<lparr>pw_filter = reachability_filter, pw_max_depth = None, pw_max_paths = None, pw_max_steps = Some max_steps\<rparr>"

definition reachable_pair :: "graph_view \<Rightarrow> nat \<Rightarrow> node_id \<Rightarrow> node_id \<Rightarrow> added_path option" where
  "reachable_pair view max_steps src dst =
     (if src = dst then None
      else
        let result = reaches view src dst (gate_walker max_steps) in
        if rr_reachable result then
          Some \<lparr>ap_from_fqn = n_fqn (view_node view src), ap_to_fqn = n_fqn (view_node view dst),
            ap_via = (case rr_witness result of Some w \<Rightarrow> map (\<lambda>s. n_fqn (ps_node s)) (pt_steps w) | None \<Rightarrow> [])\<rparr>
        else None)"

definition reachable_pairs :: "graph_view \<Rightarrow> symbol_pattern \<Rightarrow> symbol_pattern \<Rightarrow> nat \<Rightarrow> added_path list" where
  "reachable_pairs view from_pat to_pat max_steps =
     concat (map (\<lambda>src. List.map_filter (reachable_pair view max_steps src) (matched_node_ids view to_pat))
       (matched_node_ids view from_pat))"

definition view_of :: "linked_graph \<Rightarrow> graph_view" where
  "view_of g = graph_view_new (lg_nodes g) (lg_edges g) (lg_candidates g)"

definition pair_key :: "added_path \<Rightarrow> string \<times> string" where
  "pair_key p = (ap_from_fqn p, ap_to_fqn p)"

definition path_diff_graphs_bounded ::
  "linked_graph \<Rightarrow> linked_graph \<Rightarrow> symbol_pattern \<Rightarrow> symbol_pattern \<Rightarrow> nat \<Rightarrow> path_diff" where
  "path_diff_graphs_bounded base head from_pat to_pat max_steps =
     (let base_pairs = bs_collect (map pair_key (reachable_pairs (view_of base) from_pat to_pat max_steps));
          added_paths = sort_key pair_key
            (filter (\<lambda>p. pair_key p \<notin> set base_pairs) (reachable_pairs (view_of head) from_pat to_pat max_steps))
      in \<lparr>pd_added_paths = added_paths,
          pd_from_matched = length (matched_node_ids (view_of head) from_pat),
          pd_to_matched = length (matched_node_ids (view_of head) to_pat)\<rparr>)"

definition path_diff_graphs ::
  "linked_graph \<Rightarrow> linked_graph \<Rightarrow> symbol_pattern \<Rightarrow> symbol_pattern \<Rightarrow> path_diff" where
  "path_diff_graphs base head from_pat to_pat =
     path_diff_graphs_bounded base head from_pat to_pat default_max_steps"

subsection \<open>Reachability in the graph\<close>

text \<open>In a stored graph a node's identifier is its position.\<close>

definition dense_ids :: "linked_graph \<Rightarrow> bool" where
  "dense_ids g \<longleftrightarrow> map n_id (lg_nodes g) = [0..<length (lg_nodes g)]"

definition flow_edges :: "linked_graph \<Rightarrow> (node_id \<times> node_id) set" where
  "flow_edges g = {(e_src e, e_dst e) | e. e \<in> set (lg_edges g) \<and> e_kind e \<in> set gate_kinds \<and>
     e_src e < length (lg_nodes g) \<and> e_dst e < length (lg_nodes g)}"

definition flow_pair :: "linked_graph \<Rightarrow> symbol_pattern \<Rightarrow> symbol_pattern \<Rightarrow> (string \<times> string) set" where
  "flow_pair g from_pat to_pat =
     {(n_fqn a, n_fqn b) | a b. a \<in> set (lg_nodes g) \<and> b \<in> set (lg_nodes g) \<and> n_id a \<noteq> n_id b \<and>
        pattern_matches from_pat a \<and> pattern_matches to_pat b \<and> (n_id a, n_id b) \<in> (flow_edges g)\<^sup>*}"

lemma passes_gate: "passes view reachability_filter e \<longleftrightarrow> e_kind e \<in> set gate_kinds"
proof -
  have "\<not> e_confidence e < Possible" by (cases "e_confidence e") (simp_all add: less_confidence_def)
  then show ?thesis
    by (auto simp: passes_def filter_admits_def reachability_filter_def with_kinds_def edge_filter_calls_def gate_kinds_def)
qed

lemma gate_neighbors:
  "(\<exists>r \<in> set (neighbors (view_of g) u Forward (pw_filter (gate_walker n))). er_peer r = v \<and> er_peer r < node_count (view_of g))
    \<longleftrightarrow> (u, v) \<in> flow_edges g"
  by (auto simp: view_of_def neighbors_new gate_walker_def passes_gate flow_edges_def node_count_def graph_view_new_fields
      to_end_def from_end_def)

lemma gate_reach: "reach (gate_walker n) (view_of g) Forward u v \<longleftrightarrow> (u, v) \<in> (flow_edges g)\<^sup>*"
proof
  have walk: "(u, v) \<in> (flow_edges g)\<^sup>*" if "edge_walk (gate_walker n) (view_of g) Forward u es v" for es v
    using that
  proof (induction rule: edge_walk.induct)
    case (ew_snoc es w r)
    then have "(w, er_peer r) \<in> flow_edges g" using gate_neighbors by blast
    with ew_snoc.IH show ?case by (rule rtrancl_into_rtrancl)
  qed simp
  then show "reach (gate_walker n) (view_of g) Forward u v \<Longrightarrow> (u, v) \<in> (flow_edges g)\<^sup>*"
    by (auto simp: reach_def)
next
  assume "(u, v) \<in> (flow_edges g)\<^sup>*"
  then have "\<exists>es. edge_walk (gate_walker n) (view_of g) Forward u es v"
  proof (induction rule: rtrancl_induct)
    case (step y z)
    from step.hyps(2) gate_neighbors [where n = n] obtain r
      where "r \<in> set (neighbors (view_of g) y Forward (pw_filter (gate_walker n)))" "er_peer r = z"
        "er_peer r < node_count (view_of g)" by metis
    with step.IH show ?case by (metis ew_snoc)
  qed (blast intro: ew_nil)
  then show "reach (gate_walker n) (view_of g) Forward u v"
    by (auto simp: reach_def within_depth_def gate_walker_def)
qed

lemma dense_node:
  assumes "dense_ids g" "a \<in> set (lg_nodes g)"
  shows "view_node (view_of g) (n_id a) = a" "n_id a < length (lg_nodes g)"
proof -
  obtain i where i: "i < length (lg_nodes g)" "lg_nodes g ! i = a" using assms(2) by (auto simp: in_set_conv_nth)
  have "map n_id (lg_nodes g) ! i = i" using assms(1) i(1) by (simp add: dense_ids_def)
  then have "n_id a = i" using i by simp
  then show "view_node (view_of g) (n_id a) = a" "n_id a < length (lg_nodes g)"
    using i by (simp_all add: view_node_def view_of_def graph_view_new_fields)
qed

lemma matched_ids: "set (matched_node_ids (view_of g) pat) = n_id ` {a \<in> set (lg_nodes g). pattern_matches pat a}"
  by (auto simp: matched_node_ids_def view_of_def graph_view_new_fields)

lemma reachable_pair_Some:
  "reachable_pair (view_of g) n a b = Some p \<longleftrightarrow> a \<noteq> b \<and> (a, b) \<in> (flow_edges g)\<^sup>* \<and>
     (\<exists>seq. shortest_path (gate_walker n) (view_of g) a b Forward = Some seq \<and>
       p = \<lparr>ap_from_fqn = n_fqn (view_node (view_of g) a), ap_to_fqn = n_fqn (view_node (view_of g) b),
         ap_via = map (\<lambda>s. n_fqn (view_node (view_of g) (fst s))) seq\<rparr>)"
proof -
  have fst: "map (\<lambda>s. n_fqn (ps_node s)) (pt_steps (build_path_result view (seq_to_walksteps exc seq)))
      = map (\<lambda>s. n_fqn (view_node view (fst s))) seq" for view exc and seq :: "(node_id \<times> edge_record option) list"
    by (induction exc seq rule: seq_to_walksteps.induct) (auto simp: build_path_result_def Let_def)
  have "(a, b) \<in> (flow_edges g)\<^sup>* \<longleftrightarrow> (\<exists>seq. shortest_path (gate_walker n) (view_of g) a b Forward = Some seq)"
    using shortest_path_None [of "gate_walker n" "view_of g" a b Forward] by (auto simp: gate_reach)
  then show ?thesis
    by (auto simp: reachable_pair_def reaches_def fst Let_def split: option.splits)
qed

lemma reachable_pairs_keys:
  assumes "dense_ids g"
  shows "pair_key ` set (reachable_pairs (view_of g) from_pat to_pat n) = flow_pair g from_pat to_pat"
proof -
  have mem: "p \<in> set (reachable_pairs (view_of g) from_pat to_pat n) \<longleftrightarrow>
      (\<exists>a \<in> {a \<in> set (lg_nodes g). pattern_matches from_pat a}. \<exists>b \<in> {b \<in> set (lg_nodes g). pattern_matches to_pat b}.
        reachable_pair (view_of g) n (n_id a) (n_id b) = Some p)" for p
    by (simp add: reachable_pairs_def set_map_filter matched_ids)
  show ?thesis
  proof (intro equalityI subsetI)
    fix k
    assume "k \<in> pair_key ` set (reachable_pairs (view_of g) from_pat to_pat n)"
    then obtain p a b where p: "k = pair_key p" and ab: "a \<in> set (lg_nodes g)" "pattern_matches from_pat a"
      "b \<in> set (lg_nodes g)" "pattern_matches to_pat b" "reachable_pair (view_of g) n (n_id a) (n_id b) = Some p"
      using mem by blast
    then have "k = (n_fqn a, n_fqn b)" "n_id a \<noteq> n_id b" "(n_id a, n_id b) \<in> (flow_edges g)\<^sup>*"
      unfolding reachable_pair_Some by (auto simp: pair_key_def dense_node [OF assms])
    then show "k \<in> flow_pair g from_pat to_pat" using ab unfolding flow_pair_def by blast
  next
    fix k
    assume "k \<in> flow_pair g from_pat to_pat"
    then obtain a b where ab: "a \<in> set (lg_nodes g)" "b \<in> set (lg_nodes g)" "n_id a \<noteq> n_id b"
      "pattern_matches from_pat a" "pattern_matches to_pat b" "(n_id a, n_id b) \<in> (flow_edges g)\<^sup>*"
      "k = (n_fqn a, n_fqn b)" by (auto simp: flow_pair_def)
    then obtain p where "reachable_pair (view_of g) n (n_id a) (n_id b) = Some p" "pair_key p = k"
      using shortest_path_None [of "gate_walker n" "view_of g" "n_id a" "n_id b" Forward]
      by (auto simp: reachable_pair_Some gate_reach pair_key_def dense_node [OF assms])
    then show "k \<in> pair_key ` set (reachable_pairs (view_of g) from_pat to_pat n)"
      using ab mem by (intro image_eqI [of _ _ p]) auto
  qed
qed

text \<open>The route reported for a pair runs along flow edges from the source to the sink.\<close>

definition flow_route :: "linked_graph \<Rightarrow> string list \<Rightarrow> bool" where
  "flow_route g fqns \<longleftrightarrow> (\<exists>ids. ids \<noteq> [] \<and> fqns = map (\<lambda>i. n_fqn (lg_nodes g ! i)) ids \<and>
     successively (\<lambda>u v. (u, v) \<in> flow_edges g) ids)"

lemma edge_walk_route:
  assumes "edge_walk (gate_walker n) (view_of g) Forward u es v"
  shows "successively (\<lambda>u v. (u, v) \<in> flow_edges g) (u # map e_dst es) \<and> last (u # map e_dst es) = v"
  using assms
proof (induction rule: edge_walk.induct)
  case (ew_snoc es w r)
  have edge: "(w, er_peer r) \<in> flow_edges g" using ew_snoc.hyps gate_neighbors by blast
  have "er_peer r = e_dst (er_edge r)" using neighbor_edges [OF ew_snoc.hyps(2)] by (simp add: to_end_def)
  then show ?case using ew_snoc.IH edge
    by (auto simp: successively_append_iff successively_Cons split: if_splits)
qed simp

lemma added_path_route:
  assumes "p \<in> set (reachable_pairs (view_of g) from_pat to_pat n)"
  shows "flow_route g (ap_via p) \<and> hd (ap_via p) = ap_from_fqn p \<and> last (ap_via p) = ap_to_fqn p"
proof -
  obtain a b seq where p: "shortest_path (gate_walker n) (view_of g) a b Forward = Some seq"
    "p = \<lparr>ap_from_fqn = n_fqn (view_node (view_of g) a), ap_to_fqn = n_fqn (view_node (view_of g) b),
         ap_via = map (\<lambda>s. n_fqn (view_node (view_of g) (fst s))) seq\<rparr>"
    using assms by (auto simp: reachable_pairs_def set_map_filter reachable_pair_Some)
  obtain es where es: "seq = path_seq Forward a es" "edge_walk (gate_walker n) (view_of g) Forward a es b"
    using shortest_path_Some [OF p(1)] by blast
  note route = edge_walk_route [OF es(2)]
  have nodes: "map fst seq = a # map e_dst es" by (simp add: es(1) path_seq_def to_end_def o_def)
  have via: "ap_via p = map (\<lambda>i. n_fqn (lg_nodes g ! i)) (a # map e_dst es)"
    unfolding nodes [symmetric] by (simp add: p(2) view_node_def view_of_def graph_view_new_fields o_def)
  show ?thesis
  proof (intro conjI)
    show "flow_route g (ap_via p)" unfolding flow_route_def using via route by blast
    show "hd (ap_via p) = ap_from_fqn p" unfolding via by (simp add: p(2) view_node_def view_of_def graph_view_new_fields)
    have "last (ap_via p) = n_fqn (lg_nodes g ! last (a # map e_dst es))" unfolding via by (subst last_map) simp_all
    then show "last (ap_via p) = ap_to_fqn p" using route by (simp add: p(2) view_node_def view_of_def graph_view_new_fields)
  qed
qed

end
