(* ===== verification/Diff_Properties.thy ===== *)
theory Diff_Properties
  imports Diff_Path Query_Properties
begin

text \<open>
  Properties of the graph diff, its post-filter and the path diff.
\<close>

subsection \<open>Graph diff\<close>

text \<open>
  C25. \<open>diff_graphs\<close> classifies every stable identity: an edge is added (removed) exactly when only
  the head (the base) has its identity, changed exactly when both have it and a reported
  attribute differs; likewise for symbols by name. Each record reported is the last one of its
  identity on its side, and every list is strictly ordered by its identity.
\<close>

theorem diff_graphs_classifies:
  "(\<forall>e. e \<in> set (gd_added_edges (diff_graphs base head)) \<longleftrightarrow>
        edge_at head (de_identity e) = Some (de_record e, de_line e) \<and> edge_at base (de_identity e) = None)
    \<and> (\<forall>e. e \<in> set (gd_removed_edges (diff_graphs base head)) \<longleftrightarrow>
        edge_at base (de_identity e) = Some (de_record e, de_line e) \<and> edge_at head (de_identity e) = None)
    \<and> (\<forall>c. c \<in> set (gd_changed_edges (diff_graphs base head)) \<longleftrightarrow>
        (\<exists>l l'. edge_at base (ce_identity c) = Some (ce_base c, l) \<and> edge_at head (ce_identity c) = Some (ce_head c, l'))
        \<and> ce_changes c = classify_change (ce_base c) (ce_head c) \<and> edge_changes_any (ce_changes c))
    \<and> dn_fqn ` set (gd_added_nodes (diff_graphs base head)) = n_fqn ` set (lg_nodes head) - n_fqn ` set (lg_nodes base)
    \<and> dn_fqn ` set (gd_removed_nodes (diff_graphs base head)) = n_fqn ` set (lg_nodes base) - n_fqn ` set (lg_nodes head)
    \<and> strict_sorted (map de_identity (gd_added_edges (diff_graphs base head))) \<and> strict_sorted (map de_identity (gd_removed_edges (diff_graphs base head)))
    \<and> strict_sorted (map ce_identity (gd_changed_edges (diff_graphs base head)))
    \<and> strict_sorted (map dn_fqn (gd_added_nodes (diff_graphs base head))) \<and> strict_sorted (map dn_fqn (gd_removed_nodes (diff_graphs base head)))"
proof -
  have names: "dn_fqn ` {n :: diff_node. node_named ns (dn_fqn n) = Some (dn_record n) \<and> node_named ms (dn_fqn n) = None}
      = n_fqn ` set ns - n_fqn ` set ms" for ns ms
  proof (intro equalityI subsetI)
    fix f
    assume "f \<in> n_fqn ` set ns - n_fqn ` set ms"
    then obtain n where "node_named ns f = Some n" "node_named ms f = None"
      using node_named_None [of ns f] node_named_None [of ms f] by auto
    then have "\<lparr>dn_fqn = f, dn_record = n\<rparr>
        \<in> {n :: diff_node. node_named ns (dn_fqn n) = Some (dn_record n) \<and> node_named ms (dn_fqn n) = None}" by simp
    from imageI [OF this, of dn_fqn]
    show "f \<in> dn_fqn ` {n :: diff_node. node_named ns (dn_fqn n) = Some (dn_record n) \<and> node_named ms (dn_fqn n) = None}"
      by simp
  qed (use node_named_None in \<open>auto simp: image_iff\<close>, (metis node_named_None option.distinct(1) image_eqI)+)
  have sets: "set (gd_added_nodes (diff_graphs base head)) = {n. node_named (lg_nodes head) (dn_fqn n) = Some (dn_record n) \<and> node_named (lg_nodes base) (dn_fqn n) = None}"
    "set (gd_removed_nodes (diff_graphs base head)) = {n. node_named (lg_nodes base) (dn_fqn n) = Some (dn_record n) \<and> node_named (lg_nodes head) (dn_fqn n) = None}"
    using diff_nodes_mem [of _ base head] by blast+
  show ?thesis
    unfolding sets names
    by (simp add: diff_edges_mem changed_edges_mem diff_sorted changed_edges_sorted)
qed

text \<open>
  Diffing in the other direction swaps the roles: what was added is removed, what was removed
  is added, and each changed edge is reported with its sides exchanged, in the same order.
\<close>

theorem diff_graphs_swap:
  "diff_graphs head base =
     \<lparr>gd_added_edges = gd_removed_edges (diff_graphs base head),
      gd_removed_edges = gd_added_edges (diff_graphs base head),
      gd_changed_edges = map (\<lambda>c. c\<lparr>ce_base := ce_head c, ce_head := ce_base c\<rparr>) (gd_changed_edges (diff_graphs base head)),
      gd_added_nodes = gd_removed_nodes (diff_graphs base head),
      gd_removed_nodes = gd_added_nodes (diff_graphs base head)\<rparr>"
proof -
  let ?swap = "\<lambda>c. c\<lparr>ce_base := ce_head c, ce_head := ce_base c\<rparr>"
  have sym: "classify_change a b = classify_change b a" for a b by (auto simp: classify_change_def)
  have "gd_changed_edges (diff_graphs head base) = map ?swap (gd_changed_edges (diff_graphs base head))"
  proof (rule key_sorted_unique)
    show "strict_sorted (map ce_identity (gd_changed_edges (diff_graphs head base)))" by (rule changed_edges_sorted)
    show "strict_sorted (map ce_identity (map ?swap (gd_changed_edges (diff_graphs base head))))"
      using changed_edges_sorted [of base head] by (simp add: comp_def)
    have swap: "c \<in> set (gd_changed_edges (diff_graphs head base)) \<longleftrightarrow> ?swap c \<in> set (gd_changed_edges (diff_graphs base head))" for c
      unfolding changed_edges_mem by (auto simp: sym)
    show "set (gd_changed_edges (diff_graphs head base)) = set (map ?swap (gd_changed_edges (diff_graphs base head)))"
    proof (intro equalityI subsetI)
      fix c
      assume "c \<in> set (gd_changed_edges (diff_graphs head base))"
      then have "?swap c \<in> set (gd_changed_edges (diff_graphs base head))" by (simp only: swap)
      from imageI [OF this, of ?swap] show "c \<in> set (map ?swap (gd_changed_edges (diff_graphs base head)))" by simp
    next
      fix c
      assume "c \<in> set (map ?swap (gd_changed_edges (diff_graphs base head)))"
      then obtain b where "b \<in> set (gd_changed_edges (diff_graphs base head))" "c = ?swap b" by auto
      then show "c \<in> set (gd_changed_edges (diff_graphs head base))" by (simp add: swap)
    qed
  qed
  then show ?thesis by (intro graph_diff.equality) (simp_all add: diff_graphs_fields)
qed

text \<open>
  The gate predicate \<open>is_empty\<close> holds exactly when both graphs have the same stable identities
  with no reported attribute different, and the same symbol names.
\<close>

theorem diff_empty_iff:
  "graph_diff_is_empty (diff_graphs base head) \<longleftrightarrow>
     (\<forall>i. case (edge_at base i, edge_at head i) of
        (None, None) \<Rightarrow> True
      | (Some (b, _), Some (h, _)) \<Rightarrow> \<not> edge_changes_any (classify_change b h)
      | _ \<Rightarrow> False) \<and>
     n_fqn ` set (lg_nodes base) = n_fqn ` set (lg_nodes head)"
proof -
  have edges: "missing_edges (index_edges g) (index_edges k) = [] \<longleftrightarrow> (\<forall>i. edge_at g i \<noteq> None \<longrightarrow> edge_at k i \<noteq> None)" for g k
    unfolding missing_empty dom_def index_edges_get by blast
  have nodes: "missing_nodes (index_nodes g) (index_nodes k) = [] \<longleftrightarrow> n_fqn ` set (lg_nodes g) \<subseteq> n_fqn ` set (lg_nodes k)" for g k
    unfolding missing_empty dom_def index_nodes_get node_named_None by blast
  have changed: "gd_changed_edges (diff_graphs base head) = [] \<longleftrightarrow>
      (\<forall>i b l h l'. edge_at base i = Some (b, l) \<longrightarrow> edge_at head i = Some (h, l') \<longrightarrow> \<not> edge_changes_any (classify_change b h))"
  proof -
    have "gd_changed_edges (diff_graphs base head) = [] \<longleftrightarrow> (\<forall>c :: changed_edge. c \<notin> set (gd_changed_edges (diff_graphs base head)))"
      by (metis empty_iff ex_in_conv list.set(1) set_empty2)
    then show ?thesis unfolding changed_edges_mem by (metis changed_edge.select_convs)
  qed
  have point: "(case (edge_at base i, edge_at head i) of
        (None, None) \<Rightarrow> True
      | (Some (b, _), Some (h, _)) \<Rightarrow> \<not> edge_changes_any (classify_change b h)
      | _ \<Rightarrow> False) \<longleftrightarrow>
      (edge_at head i \<noteq> None \<longrightarrow> edge_at base i \<noteq> None) \<and> (edge_at base i \<noteq> None \<longrightarrow> edge_at head i \<noteq> None) \<and>
      (\<forall>b l h l'. edge_at base i = Some (b, l) \<longrightarrow> edge_at head i = Some (h, l') \<longrightarrow> \<not> edge_changes_any (classify_change b h))" for i
    by (auto split: option.splits prod.splits)
  show ?thesis
    unfolding graph_diff_is_empty_def changed diff_graphs_fields(1,2,4,5) nodes edges point all_conj_distrib set_eq_subset by argo
qed

subsection \<open>The post-filter\<close>

text \<open>
  C26. A post-filter on kinds and on the names of the ends commutes with the diff: filtering the
  edge lists of a diff gives the edge lists of the diff of the two graphs restricted to the
  edges whose identity the filter admits.
\<close>

theorem filter_commutes_with_diff:
  assumes "df_edge_condition f = None"
  shows "gd_added_edges (diff_filter_apply f (diff_graphs base head)) =
      (if bs_added (df_buckets f) then gd_added_edges (diff_graphs (restrict_graph f base) (restrict_graph f head)) else [])
    \<and> gd_removed_edges (diff_filter_apply f (diff_graphs base head)) =
      (if bs_removed (df_buckets f) then gd_removed_edges (diff_graphs (restrict_graph f base) (restrict_graph f head)) else [])
    \<and> gd_changed_edges (diff_filter_apply f (diff_graphs base head)) =
      (if bs_changed (df_buckets f) then gd_changed_edges (diff_graphs (restrict_graph f base) (restrict_graph f head)) else [])"
proof -
  let ?d = "diff_graphs base head" and ?r = "diff_graphs (restrict_graph f base) (restrict_graph f head)"
  have ident: "admits_diff_edge f e \<longleftrightarrow> admits_identity f (de_identity e)" "admits_changed_edge f c \<longleftrightarrow> admits_identity f (ce_identity c)" for e :: diff_edge and c :: changed_edge
    using assms by (simp_all add: admits_diff_edge_parts admits_changed_edge_parts)
  have added: "filter (admits_diff_edge f) (gd_added_edges ?d) = gd_added_edges ?r"
  proof (rule key_sorted_unique)
    show "strict_sorted (map de_identity (filter (admits_diff_edge f) (gd_added_edges ?d)))"
      by (rule strict_sorted_map_filter) (rule diff_sorted)
    show "set (filter (admits_diff_edge f) (gd_added_edges ?d)) = set (gd_added_edges ?r)"
      by (auto simp: diff_edges_mem edge_at_restrict ident split: if_splits)
  qed (rule diff_sorted)
  have removed: "filter (admits_diff_edge f) (gd_removed_edges ?d) = gd_removed_edges ?r"
  proof (rule key_sorted_unique)
    show "strict_sorted (map de_identity (filter (admits_diff_edge f) (gd_removed_edges ?d)))"
      by (rule strict_sorted_map_filter) (rule diff_sorted)
    show "set (filter (admits_diff_edge f) (gd_removed_edges ?d)) = set (gd_removed_edges ?r)"
      by (auto simp: diff_edges_mem edge_at_restrict ident split: if_splits)
  qed (rule diff_sorted)
  have changed: "filter (admits_changed_edge f) (gd_changed_edges ?d) = gd_changed_edges ?r"
  proof (rule key_sorted_unique)
    show "strict_sorted (map ce_identity (filter (admits_changed_edge f) (gd_changed_edges ?d)))"
      by (rule strict_sorted_map_filter) (rule changed_edges_sorted)
    show "set (filter (admits_changed_edge f) (gd_changed_edges ?d)) = set (gd_changed_edges ?r)"
      by (auto simp: changed_edges_mem edge_at_restrict ident split: if_splits)
  qed (rule changed_edges_sorted)
  show ?thesis by (simp add: diff_filter_apply_def Let_def added removed changed split: prod.split)
qed

lemma filter_commutes_with_diff_witness:
  "gd_removed_edges (diff_filter_apply ((with_buckets (from_flags False True False))\<lparr>df_kinds := [Calls]\<rparr>)
      (diff_graphs \<lparr>lg_nodes = sample_nodes, lg_edges = sample_edges, lg_candidates = []\<rparr>
        \<lparr>lg_nodes = sample_nodes, lg_edges = [], lg_candidates = []\<rparr>)) =
    gd_removed_edges (diff_graphs
      (restrict_graph ((with_buckets (from_flags False True False))\<lparr>df_kinds := [Calls]\<rparr>)
        \<lparr>lg_nodes = sample_nodes, lg_edges = sample_edges, lg_candidates = []\<rparr>)
      (restrict_graph ((with_buckets (from_flags False True False))\<lparr>df_kinds := [Calls]\<rparr>)
        \<lparr>lg_nodes = sample_nodes, lg_edges = [], lg_candidates = []\<rparr>))"
proof -
  let ?f = "(with_buckets (from_flags False True False))\<lparr>df_kinds := [Calls]\<rparr>"
  have "df_edge_condition ?f = None" "bs_removed (df_buckets ?f)" by (simp_all add: with_buckets_def from_flags_def)
  then show ?thesis using filter_commutes_with_diff [of ?f] by simp
qed

text \<open>Applying a post-filter twice is applying it once.\<close>

theorem diff_filter_idempotent:
  "diff_filter_apply f (diff_filter_apply f d) = diff_filter_apply f d"
  by (simp add: diff_filter_apply_def Let_def split: prod.split)

subsection \<open>Path diff\<close>

lemma image_filter_diff: "f ` {p \<in> H. f p \<notin> f ` B} = f ` H - f ` B"
  by auto

text \<open>
  C20. The path gate on stored graphs (identifiers are positions): whatever the step budget, the
  pairs reported are exactly the named source and sink pairs connected over call and data-flow
  edges at the head and not connected at the base, ordered by name; each comes with a route along
  flow edges of the head from the source to the sink; and the match counts are those of the head.
\<close>

theorem path_diff_exact:
  assumes "dense_ids base" "dense_ids head"
  shows "pair_key ` set (pd_added_paths (path_diff_graphs_bounded base head from_pat to_pat n)) =
      flow_pair head from_pat to_pat - flow_pair base from_pat to_pat
    \<and> sorted (map pair_key (pd_added_paths (path_diff_graphs_bounded base head from_pat to_pat n)))
    \<and> (\<forall>p \<in> set (pd_added_paths (path_diff_graphs_bounded base head from_pat to_pat n)).
        flow_route head (ap_via p) \<and> hd (ap_via p) = ap_from_fqn p \<and> last (ap_via p) = ap_to_fqn p)
    \<and> pd_from_matched (path_diff_graphs_bounded base head from_pat to_pat n) =
        length (filter (pattern_matches from_pat) (lg_nodes head))"
proof -
  let ?b = "reachable_pairs (view_of base) from_pat to_pat n" and ?h = "reachable_pairs (view_of head) from_pat to_pat n"
  have added: "pd_added_paths (path_diff_graphs_bounded base head from_pat to_pat n)
      = sort_key pair_key (filter (\<lambda>p. pair_key p \<notin> pair_key ` set ?b) ?h)"
    by (simp add: path_diff_graphs_bounded_def Let_def)
  have "pair_key ` set (pd_added_paths (path_diff_graphs_bounded base head from_pat to_pat n)) = pair_key ` set ?h - pair_key ` set ?b"
    unfolding added set_sort set_filter by (rule image_filter_diff)
  moreover have "pd_from_matched (path_diff_graphs_bounded base head from_pat to_pat n) = length (filter (pattern_matches from_pat) (lg_nodes head))"
    by (simp add: path_diff_graphs_bounded_def matched_node_ids_def view_of_def graph_view_new_fields Let_def)
  moreover have "\<forall>p \<in> set (pd_added_paths (path_diff_graphs_bounded base head from_pat to_pat n)).
        flow_route head (ap_via p) \<and> hd (ap_via p) = ap_from_fqn p \<and> last (ap_via p) = ap_to_fqn p"
    unfolding added set_sort set_filter by (intro ballI added_path_route) blast
  moreover have "sorted (map pair_key (pd_added_paths (path_diff_graphs_bounded base head from_pat to_pat n)))"
    by (simp add: added)
  ultimately show ?thesis
    unfolding reachable_pairs_keys [OF assms(1)] reachable_pairs_keys [OF assms(2)]
    by (simp only: simp_thms)
qed

lemma path_diff_exact_witness:
  "pair_key ` set (pd_added_paths (path_diff_graphs_bounded
      \<lparr>lg_nodes = sample_nodes, lg_edges = [], lg_candidates = []\<rparr>
      \<lparr>lg_nodes = sample_nodes, lg_edges = sample_edges, lg_candidates = []\<rparr>
      \<lparr>sp_kind = Fqn, sp_text = ''app::main''\<rparr> \<lparr>sp_kind = Fqn, sp_text = ''app::load''\<rparr> 0))
    = flow_pair \<lparr>lg_nodes = sample_nodes, lg_edges = sample_edges, lg_candidates = []\<rparr>
        \<lparr>sp_kind = Fqn, sp_text = ''app::main''\<rparr> \<lparr>sp_kind = Fqn, sp_text = ''app::load''\<rparr>
      - flow_pair \<lparr>lg_nodes = sample_nodes, lg_edges = [], lg_candidates = []\<rparr>
        \<lparr>sp_kind = Fqn, sp_text = ''app::main''\<rparr> \<lparr>sp_kind = Fqn, sp_text = ''app::load''\<rparr>"
proof -
  have "dense_ids \<lparr>lg_nodes = sample_nodes, lg_edges = es, lg_candidates = []\<rparr>" for es
    by (simp add: dense_ids_def sample_nodes_def sample_node_def upt_rec)
  from path_diff_exact [OF this this] show ?thesis by blast
qed

end
