(* ===== verification/Comparator.thy ===== *)
theory Comparator
  imports Main "HOL-Library.Multiset"
begin

text \<open>
  Comparisons as values and sorting by a comparator: \<open>std::cmp::Ordering\<close>, \<open>slice::sort_by\<close> and
  \<open>Vec::dedup\<close>. \<open>sort_by\<close> is a stable insertion sort. Rust fixes the result of a stable sort only
  for a total preorder, so the laws are stated in a locale of comparators: within it the stable
  sort is the only sorted rearrangement that keeps equal elements in order.
\<close>

subsection \<open>Orderings\<close>

datatype ordering = Ord_Less | Ord_Equal | Ord_Greater

fun ord_reverse :: "ordering \<Rightarrow> ordering" where
  "ord_reverse Ord_Less = Ord_Greater"
| "ord_reverse Ord_Equal = Ord_Equal"
| "ord_reverse Ord_Greater = Ord_Less"

fun ord_then :: "ordering \<Rightarrow> ordering \<Rightarrow> ordering" where
  "ord_then Ord_Equal next = next"
| "ord_then o1 next = o1"

definition ord_cmp :: "'a::linorder \<Rightarrow> 'a \<Rightarrow> ordering" where
  "ord_cmp x y = (if x < y then Ord_Less else if x = y then Ord_Equal else Ord_Greater)"

lemma ord_reverse_reverse [simp]: "ord_reverse (ord_reverse r) = r"
  by (cases r) simp_all

lemma ord_reverse_eq [simp]:
  "ord_reverse r = Ord_Equal \<longleftrightarrow> r = Ord_Equal" "ord_reverse r = Ord_Less \<longleftrightarrow> r = Ord_Greater"
  "ord_reverse r = Ord_Greater \<longleftrightarrow> r = Ord_Less"
  by (cases r; simp)+

lemma ord_cmp_simps [simp]:
  "ord_cmp x y = Ord_Less \<longleftrightarrow> x < y" "ord_cmp x y = Ord_Equal \<longleftrightarrow> x = y" "ord_cmp x y = Ord_Greater \<longleftrightarrow> y < x"
  "ord_cmp x x = Ord_Equal"
  by (auto simp: ord_cmp_def)

lemma ord_cmp_reverse: "ord_cmp y x = ord_reverse (ord_cmp x y)"
  by (auto simp: ord_cmp_def)

lemma ord_then_eq [simp]: "ord_then r s = Ord_Equal \<longleftrightarrow> r = Ord_Equal \<and> s = Ord_Equal"
  by (cases r) simp_all

lemma ord_then_reverse: "ord_reverse (ord_then r s) = ord_then (ord_reverse r) (ord_reverse s)"
  by (cases r) simp_all

subsection \<open>Stable sorting by a comparator\<close>

fun insert_by :: "('a \<Rightarrow> 'a \<Rightarrow> ordering) \<Rightarrow> 'a \<Rightarrow> 'a list \<Rightarrow> 'a list" where
  "insert_by cmp x [] = [x]"
| "insert_by cmp x (y # ys) = (if cmp x y = Ord_Greater then y # insert_by cmp x ys else x # y # ys)"

definition sort_by :: "('a \<Rightarrow> 'a \<Rightarrow> ordering) \<Rightarrow> 'a list \<Rightarrow> 'a list" where
  "sort_by cmp xs = foldr (insert_by cmp) xs []"

lemma mset_insert_by [simp]: "mset (insert_by cmp x xs) = add_mset x (mset xs)"
  by (induction xs) simp_all

lemma mset_sort_by [simp]: "mset (sort_by cmp xs) = mset xs"
  unfolding sort_by_def by (induction xs) simp_all

lemma set_sort_by [simp]: "set (sort_by cmp xs) = set xs"
  by (metis mset_sort_by set_mset_mset)

lemma length_sort_by [simp]: "length (sort_by cmp xs) = length xs"
  by (metis mset_sort_by size_mset)

text \<open>\<open>Vec::dedup\<close>: an element is dropped when it equals the last one kept.\<close>

fun dedup_by :: "('a \<Rightarrow> 'a \<Rightarrow> bool) \<Rightarrow> 'a list \<Rightarrow> 'a list" where
  "dedup_by eq (x # y # ys) = (if eq y x then dedup_by eq (x # ys) else x # dedup_by eq (y # ys))"
| "dedup_by eq xs = xs"

lemma set_dedup_by: "set (dedup_by eq xs) \<subseteq> set xs"
  by (induction eq xs rule: dedup_by.induct) auto

lemma dedup_by_hd: "dedup_by eq (x # xs) = x # tl (dedup_by eq (x # xs))"
  by (induction xs arbitrary: x) simp_all

lemma length_dedup_by: "length (dedup_by eq xs) \<le> length xs"
  by (induction eq xs rule: dedup_by.induct) auto

text \<open>
  The contract of a comparator on a set of elements: a total preorder. Within it the stable sort
  is sorted, and it is the only stable rearrangement that is.
\<close>

locale comparator =
  fixes cmp :: "'a \<Rightarrow> 'a \<Rightarrow> ordering" and dom :: "'a set"
  assumes cmp_refl: "x \<in> dom \<Longrightarrow> cmp x x = Ord_Equal"
    and cmp_reverse: "x \<in> dom \<Longrightarrow> y \<in> dom \<Longrightarrow> cmp y x = ord_reverse (cmp x y)"
    and cmp_trans: "x \<in> dom \<Longrightarrow> y \<in> dom \<Longrightarrow> z \<in> dom \<Longrightarrow>
      cmp x y \<noteq> Ord_Greater \<Longrightarrow> cmp y z \<noteq> Ord_Greater \<Longrightarrow> cmp x z \<noteq> Ord_Greater"
begin

definition le :: "'a \<Rightarrow> 'a \<Rightarrow> bool" where
  "le x y \<longleftrightarrow> cmp x y \<noteq> Ord_Greater"

lemma le_refl: "x \<in> dom \<Longrightarrow> le x x"
  by (simp add: le_def cmp_refl)

lemma le_linear: "x \<in> dom \<Longrightarrow> y \<in> dom \<Longrightarrow> le x y \<or> le y x"
  by (auto simp: le_def cmp_reverse [of x y])

lemma le_trans: "x \<in> dom \<Longrightarrow> y \<in> dom \<Longrightarrow> z \<in> dom \<Longrightarrow> le x y \<Longrightarrow> le y z \<Longrightarrow> le x z"
  unfolding le_def by (rule cmp_trans)

lemma le_both: "x \<in> dom \<Longrightarrow> y \<in> dom \<Longrightarrow> cmp x y = Ord_Equal \<longleftrightarrow> le x y \<and> le y x"
  unfolding le_def using cmp_reverse [of x y] by (cases "cmp x y") simp_all

lemma insert_sorted:
  assumes "insert x (set xs) \<subseteq> dom" "sorted_wrt le xs"
  shows "sorted_wrt le (insert_by cmp x xs)"
  using assms
proof (induction xs)
  case (Cons y ys)
  have set: "set (insert_by cmp x ys) = insert x (set ys)"
    by (metis mset_insert_by set_mset_add_mset_insert set_mset_mset)
  show ?case
  proof (cases "cmp x y = Ord_Greater")
    case True
    then have "le y x" using le_linear [of x y] Cons.prems(1) by (auto simp: le_def)
    then show ?thesis using True Cons by (simp add: set)
  next
    case False
    then have "le x y" by (simp add: le_def)
    then have "le x z" if "z \<in> set ys" for z
      using that Cons.prems le_trans [of x y z] by auto
    then show ?thesis using False Cons.prems \<open>le x y\<close> by simp
  qed
qed simp

lemma sort_sorted: "set xs \<subseteq> dom \<Longrightarrow> sorted_wrt le (sort_by cmp xs)"
proof (induction xs)
  case (Cons x xs)
  then show ?case using insert_sorted [of x "sort_by cmp xs"] by (simp add: sort_by_def [symmetric] sort_by_def [of cmp "x # xs"])
qed (simp add: sort_by_def)

lemma insert_stable:
  assumes "insert x (set xs) \<subseteq> dom" "c \<in> dom" "sorted_wrt le xs"
  shows "filter (\<lambda>y. cmp c y = Ord_Equal) (insert_by cmp x xs) =
    (if cmp c x = Ord_Equal then x # filter (\<lambda>y. cmp c y = Ord_Equal) xs else filter (\<lambda>y. cmp c y = Ord_Equal) xs)"
  using assms
proof (induction xs)
  case (Cons y ys)
  have "cmp c y \<noteq> Ord_Equal" if "cmp x y = Ord_Greater" "cmp c x = Ord_Equal"
  proof
    assume "cmp c y = Ord_Equal"
    then have "le c y" "le x c" using that(2) Cons.prems le_both by auto
    then show False using le_trans [of x c y] Cons.prems that(1) by (auto simp: le_def)
  qed
  then show ?case using Cons by auto
qed simp

lemma sort_stable:
  assumes "set xs \<subseteq> dom" "c \<in> dom"
  shows "filter (\<lambda>y. cmp c y = Ord_Equal) (sort_by cmp xs) = filter (\<lambda>y. cmp c y = Ord_Equal) xs"
  using assms
proof (induction xs)
  case (Cons x xs)
  then show ?case
    using insert_stable [of x "sort_by cmp xs" c] sort_sorted [of xs]
    by (simp add: sort_by_def [symmetric] sort_by_def [of cmp "x # xs"])
qed (simp add: sort_by_def)

text \<open>A sorted list is determined by its classes of equal elements, in their order.\<close>

lemma sorted_stable_unique:
  assumes "sorted_wrt le xs" "sorted_wrt le ys" "set xs \<subseteq> dom" "set ys \<subseteq> dom"
    and "\<forall>c \<in> dom. filter (\<lambda>y. cmp c y = Ord_Equal) xs = filter (\<lambda>y. cmp c y = Ord_Equal) ys"
  shows "xs = ys"
  using assms
proof (induction xs arbitrary: ys)
  case Nil
  have "y \<notin> set ys" for y
  proof
    assume "y \<in> set ys"
    moreover have "filter (\<lambda>z. cmp y z = Ord_Equal) ys = []" using Nil.prems(4,5) \<open>y \<in> set ys\<close> by auto
    ultimately show False using cmp_refl [of y] Nil.prems(4) by (auto simp: filter_empty_conv)
  qed
  then show ?case by (metis last_in_set)
next
  case (Cons x xs)
  note pre = Cons.prems
  have x: "x \<in> dom" using pre(3) by simp
  have same: "set (x # xs) = set ys"
  proof -
    have "z \<in> set (x # xs) \<longleftrightarrow> z \<in> set ys" if "z \<in> dom" for z
    proof -
      have "z \<in> set (filter (\<lambda>y. cmp z y = Ord_Equal) (x # xs)) \<longleftrightarrow> z \<in> set (filter (\<lambda>y. cmp z y = Ord_Equal) ys)"
        using pre(5) that by metis
      then show ?thesis unfolding set_filter using cmp_refl that by blast
    qed
    then show ?thesis using pre(3,4) by blast
  qed
  then obtain y ys' where ys: "ys = y # ys'" by (cases ys) auto
  have y: "y \<in> dom" using pre(4) ys by simp
  have "le x z" if "z \<in> set ys" for z
    using that same pre(1) le_refl [OF x] by (metis set_ConsD sorted_wrt.simps(2))
  then have "le x y" using ys by simp
  moreover have "le y z" if "z \<in> set (x # xs)" for z
    using that same pre(2) le_refl [OF y] unfolding ys by (metis set_ConsD sorted_wrt.simps(2))
  then have "le y x" by simp
  ultimately have "cmp x y = Ord_Equal" using le_both [OF x y] by simp
  moreover have eq: "filter (\<lambda>z. cmp x z = Ord_Equal) (x # xs) = filter (\<lambda>z. cmp x z = Ord_Equal) (y # ys')"
    using pre(5) x ys by blast
  ultimately have xy: "x = y" using cmp_refl [OF x] by simp
  have "\<forall>c \<in> dom. filter (\<lambda>z. cmp c z = Ord_Equal) xs = filter (\<lambda>z. cmp c z = Ord_Equal) ys'"
  proof
    fix c
    assume "c \<in> dom"
    then have "filter (\<lambda>z. cmp c z = Ord_Equal) (x # xs) = filter (\<lambda>z. cmp c z = Ord_Equal) (x # ys')"
      using pre(5) ys xy by blast
    then show "filter (\<lambda>z. cmp c z = Ord_Equal) xs = filter (\<lambda>z. cmp c z = Ord_Equal) ys'" by (simp split: if_splits)
  qed
  then have "xs = ys'" using Cons.IH [of ys'] pre unfolding ys by simp
  then show ?case using ys xy by simp
qed

lemma sort_unique:
  assumes "set xs \<subseteq> dom" "mset ys = mset xs" "sorted_wrt le ys"
    and "\<forall>c \<in> dom. filter (\<lambda>y. cmp c y = Ord_Equal) ys = filter (\<lambda>y. cmp c y = Ord_Equal) xs"
  shows "ys = sort_by cmp xs"
proof (rule sorted_stable_unique)
  show "set ys \<subseteq> dom" using assms(1,2) by (metis set_mset_mset)
  show "\<forall>c \<in> dom. filter (\<lambda>y. cmp c y = Ord_Equal) ys = filter (\<lambda>y. cmp c y = Ord_Equal) (sort_by cmp xs)"
    using assms(4) sort_stable [OF assms(1)] by metis
qed (use assms sort_sorted in auto)

text \<open>Sorting and removing adjacent equal elements leaves no two equal ones.\<close>

lemma dedup_sorted:
  assumes "set xs \<subseteq> dom" "sorted_wrt le xs" "\<And>x y. x \<in> set xs \<Longrightarrow> y \<in> set xs \<Longrightarrow> eq y x \<longleftrightarrow> cmp x y = Ord_Equal"
  shows "sorted_wrt (\<lambda>x y. cmp x y = Ord_Less) (dedup_by eq xs)"
  using assms
proof (induction eq xs rule: dedup_by.induct)
  case (1 eq x y ys)
  show ?case
  proof (cases "eq y x")
    case True
    have "sorted_wrt le (x # ys)" using 1(4) by simp
    moreover have "sorted_wrt (\<lambda>x y. cmp x y = Ord_Less) (dedup_by eq (x # ys))"
      by (rule 1(1) [OF True]) (use 1(3-5) in auto)
    ultimately show ?thesis using True by simp
  next
    case False
    have "cmp x z = Ord_Less" if "z \<in> set (y # ys)" for z
    proof -
      have x: "x \<in> dom" and y: "y \<in> dom" and z: "z \<in> dom" using 1(3) that by auto
      have "cmp x y \<noteq> Ord_Equal" using False 1(5) [of x y] by simp
      moreover have "le x y" "le y z" using 1(4) that le_refl [OF y] by auto
      ultimately have "\<not> le y x" using le_both [OF x y] by simp
      then have "\<not> le z x" using le_trans [OF y z x] \<open>le y z\<close> by blast
      then show ?thesis using cmp_reverse [OF z x] by (simp add: le_def)
    qed
    then have "\<forall>z \<in> set (dedup_by eq (y # ys)). cmp x z = Ord_Less" using set_dedup_by [of eq "y # ys"] by blast
    moreover have "sorted_wrt (\<lambda>x y. cmp x y = Ord_Less) (dedup_by eq (y # ys))" using 1(2) [OF False] 1(3-5) by simp
    ultimately show ?thesis using False by simp
  qed
qed auto

lemma dedup_covers:
  assumes "\<And>x y. x \<in> set xs \<Longrightarrow> y \<in> set xs \<Longrightarrow> eq y x \<Longrightarrow> cmp x y = Ord_Equal" "set xs \<subseteq> dom" "x \<in> set xs"
  shows "\<exists>y \<in> set (dedup_by eq xs). cmp y x = Ord_Equal"
  using assms
proof (induction eq xs rule: dedup_by.induct)
  case (1 eq a b ys)
  show ?case
  proof (cases "eq b a")
    case True
    have ab: "cmp a b = Ord_Equal" using 1(3) [of a b] True by simp
    have "\<exists>y \<in> set (dedup_by eq (a # ys)). cmp y x = Ord_Equal" if "x \<in> set (a # ys)"
      by (rule 1(1) [OF True]) (use 1(3,4) that in auto)
    moreover have "\<exists>y \<in> set (dedup_by eq (a # ys)). cmp y x = Ord_Equal" if "x = b"
      using ab that dedup_by_hd [of eq a ys] by (metis list.set_intros(1))
    ultimately show ?thesis using 1(5) True by auto
  next
    case False
    have "\<exists>y \<in> set (dedup_by eq (b # ys)). cmp y x = Ord_Equal" if "x \<in> set (b # ys)"
      by (rule 1(2) [OF False]) (use 1(3,4) that in auto)
    moreover have "cmp x x = Ord_Equal" using cmp_refl 1(4,5) by auto
    ultimately show ?thesis using 1(5) False by auto
  qed
qed (auto intro: cmp_refl)

end

subsection \<open>Comparators built from others\<close>

lemma comparator_key:
  assumes c: "comparator c D"
  shows "comparator (\<lambda>x y. c (f x) (f y)) {x. f x \<in> D}"
proof unfold_locales
  show "c (f x) (f x) = Ord_Equal" if "x \<in> {x. f x \<in> D}" for x
    using comparator.cmp_refl [OF c] that by simp
  show "c (f y) (f x) = ord_reverse (c (f x) (f y))" if "x \<in> {x. f x \<in> D}" "y \<in> {x. f x \<in> D}" for x y
    by (rule comparator.cmp_reverse [OF c]) (use that in simp_all)
  show "c (f x) (f z) \<noteq> Ord_Greater"
    if "x \<in> {x. f x \<in> D}" "y \<in> {x. f x \<in> D}" "z \<in> {x. f x \<in> D}"
      "c (f x) (f y) \<noteq> Ord_Greater" "c (f y) (f z) \<noteq> Ord_Greater" for x y z
    by (rule comparator.cmp_trans [OF c _ _ _ that(4,5)]) (use that in simp_all)
qed

lemma comparator_subset:
  assumes c: "comparator c D" and sub: "E \<subseteq> D"
  shows "comparator c E"
proof unfold_locales
  show "c x x = Ord_Equal" if "x \<in> E" for x using comparator.cmp_refl [OF c] that sub by blast
  show "c y x = ord_reverse (c x y)" if "x \<in> E" "y \<in> E" for x y
    by (rule comparator.cmp_reverse [OF c]) (use that sub in blast)+
  show "c x z \<noteq> Ord_Greater" if "x \<in> E" "y \<in> E" "z \<in> E" "c x y \<noteq> Ord_Greater" "c y z \<noteq> Ord_Greater" for x y z
    by (rule comparator.cmp_trans [OF c _ _ _ that(4,5)]) (use that sub in blast)+
qed

lemma comparator_reversed: "comparator c D \<Longrightarrow> comparator (\<lambda>x y. ord_reverse (c x y)) D"
proof unfold_locales
  assume c: "comparator c D"
  show "ord_reverse (c x x) = Ord_Equal" if "x \<in> D" for x using comparator.cmp_refl [OF c that] by simp
  show "ord_reverse (c y x) = ord_reverse (ord_reverse (c x y))" if "x \<in> D" "y \<in> D" for x y
    using comparator.cmp_reverse [OF c that] by simp
  show "ord_reverse (c x z) \<noteq> Ord_Greater"
    if "x \<in> D" "y \<in> D" "z \<in> D" "ord_reverse (c x y) \<noteq> Ord_Greater" "ord_reverse (c y z) \<noteq> Ord_Greater" for x y z
    using comparator.cmp_trans [OF c that(3,2,1)] that comparator.cmp_reverse [OF c] by metis
qed

lemma ord_then_le: "ord_then r s \<noteq> Ord_Greater \<longleftrightarrow> r \<noteq> Ord_Greater \<and> (r = Ord_Equal \<longrightarrow> s \<noteq> Ord_Greater)"
  by (cases r) simp_all

lemma comparator_equal:
  assumes c: "comparator c D" and D: "x \<in> D" "y \<in> D" "z \<in> D"
    and le: "c x y \<noteq> Ord_Greater" "c y z \<noteq> Ord_Greater" "c x z = Ord_Equal"
  shows "c x y = Ord_Equal" "c y z = Ord_Equal"
proof -
  note rev = comparator.cmp_reverse [OF c] and trans = comparator.cmp_trans [OF c]
  have zx: "c z x \<noteq> Ord_Greater" using rev [OF D(1,3)] le(3) by simp
  have "c z y \<noteq> Ord_Greater" "c y x \<noteq> Ord_Greater"
    using trans [OF D(3,1,2) zx le(1)] trans [OF D(2,3,1) le(2) zx] .
  then show "c x y = Ord_Equal" "c y z = Ord_Equal"
    using rev [OF D(1,2)] rev [OF D(2,3)] le by (cases "c x y"; cases "c y z"; simp)+
qed

lemma comparator_then:
  assumes c: "comparator c D" and d: "comparator d D"
  shows "comparator (\<lambda>x y. ord_then (c x y) (d x y)) D"
proof unfold_locales
  show "ord_then (c x x) (d x x) = Ord_Equal" if "x \<in> D" for x
    using comparator.cmp_refl [OF c that] comparator.cmp_refl [OF d that] by simp
  show "ord_then (c y x) (d y x) = ord_reverse (ord_then (c x y) (d x y))" if "x \<in> D" "y \<in> D" for x y
    using comparator.cmp_reverse [OF c that] comparator.cmp_reverse [OF d that] by (simp add: ord_then_reverse)
  show "ord_then (c x z) (d x z) \<noteq> Ord_Greater"
    if D: "x \<in> D" "y \<in> D" "z \<in> D"
      and le: "ord_then (c x y) (d x y) \<noteq> Ord_Greater" "ord_then (c y z) (d y z) \<noteq> Ord_Greater" for x y z
  proof -
    have c_le: "c x y \<noteq> Ord_Greater" "c y z \<noteq> Ord_Greater" using le by (simp_all add: ord_then_le)
    have "d x z \<noteq> Ord_Greater" if "c x z = Ord_Equal"
      using comparator_equal [OF c D c_le that] le comparator.cmp_trans [OF d D] by (simp add: ord_then_le)
    then show ?thesis using comparator.cmp_trans [OF c D c_le] by (simp add: ord_then_le)
  qed
qed

lemma map_insert_by: "map f (insert_by (\<lambda>x y. c (f x) (f y)) x xs) = insert_by c (f x) (map f xs)"
  by (induction xs) simp_all

lemma map_sort_by: "map f (sort_by (\<lambda>x y. c (f x) (f y)) xs) = sort_by c (map f xs)"
  by (induction xs) (simp_all add: sort_by_def map_insert_by)

text \<open>A comparator that tells any two elements apart sorts every arrangement to the same list.\<close>

context comparator
begin

lemma sort_by_mset:
  assumes "mset xs = mset ys" "set xs \<subseteq> dom" "\<And>x y. x \<in> dom \<Longrightarrow> y \<in> dom \<Longrightarrow> cmp x y = Ord_Equal \<Longrightarrow> x = y"
  shows "sort_by cmp xs = sort_by cmp ys"
proof (rule sorted_stable_unique)
  have ys: "set ys \<subseteq> dom" using assms(1,2) by (metis set_mset_mset)
  show "sorted_wrt le (sort_by cmp xs)" "sorted_wrt le (sort_by cmp ys)" using sort_sorted assms(2) ys by blast+
  show "set (sort_by cmp xs) \<subseteq> dom" "set (sort_by cmp ys) \<subseteq> dom" using assms(2) ys by simp_all
  have "filter (\<lambda>y. cmp c y = Ord_Equal) zs = replicate (count (mset zs) c) c" if "set zs \<subseteq> dom" "c \<in> dom" for zs c
    using that by (induction zs) (use assms(3) cmp_refl in auto)
  then show "\<forall>c \<in> dom. filter (\<lambda>y. cmp c y = Ord_Equal) (sort_by cmp xs) = filter (\<lambda>y. cmp c y = Ord_Equal) (sort_by cmp ys)"
    using assms(1,2) ys by simp
qed

end

lemma comparator_cong:
  assumes c: "comparator c D" and same: "\<And>x y. x \<in> D \<Longrightarrow> y \<in> D \<Longrightarrow> d x y = c x y"
  shows "comparator d D"
proof unfold_locales
  show "d x x = Ord_Equal" if "x \<in> D" for x using comparator.cmp_refl [OF c that] same that by simp
  show "d y x = ord_reverse (d x y)" if "x \<in> D" "y \<in> D" for x y
    using comparator.cmp_reverse [OF c that] same that by simp
  show "d x z \<noteq> Ord_Greater" if "x \<in> D" "y \<in> D" "z \<in> D" "d x y \<noteq> Ord_Greater" "d y z \<noteq> Ord_Greater" for x y z
    using comparator.cmp_trans [OF c that(1-3)] same that by simp
qed

end
