(* ===== verification/Cql_Value.thy ===== *)
theory Cql_Value
  imports Complex_Main Core_Ident Rust_Str Comparator
begin

text \<open>
  The runtime values of the query language (cgx-cql/src/value.rs): the value type, truthiness,
  the comparison that orders rows and the derived equality. An \<open>i64\<close> is an \<^typ>\<open>int\<close>; its only
  sources are literals, which the lexer checks against the range, line numbers and lengths. An
  \<open>f64\<close> is not a number, an infinity, or the rational number it denotes; the sign of zero is left
  out because neither the comparison nor the equality of the code sees it.

  The comparison is a total preorder on the values whose integers are exact in a double, and
  only there: outside, an integer can be equal to a double that is equal to another integer.
\<close>

subsection \<open>Doubles\<close>

datatype f64 = F_NaN | F_Inf bool | F_Fin rat

text \<open>Rounding of a quotient to the nearest integer, ties to even.\<close>

definition round_half_even :: "int \<Rightarrow> int \<Rightarrow> int" where
  "round_half_even n d =
     (let q = n div d; r = n mod d
      in if 2 * r > d \<or> (2 * r = d \<and> odd q) then q + 1 else q)"

function bit_len :: "int \<Rightarrow> nat" where
  "bit_len n = (if n \<le> 0 then 0 else Suc (bit_len (n div 2)))"
  by auto
termination by (relation "measure nat") auto

declare bit_len.simps [simp del]

text \<open>
  The double nearest to \<open>n / d\<close> for \<open>0 \<le> n\<close> and \<open>0 < d\<close>: 53 significant bits, exponents from
  -1074, infinity from 2 to the 1024 on.
\<close>

definition f64_exponent :: "int \<Rightarrow> int \<Rightarrow> int" where
  "f64_exponent n d =
     (let e0 = int (bit_len n) - int (bit_len d);
          top = (if 0 \<le> e0 then d * 2 ^ nat e0 \<le> n else d \<le> n * 2 ^ nat (- e0))
      in max (- 1074) ((if top then e0 else e0 - 1) - 52))"

definition f64_limit :: int where
  "f64_limit = 2 ^ 1024"

definition f64_at :: "int \<Rightarrow> int \<Rightarrow> int \<Rightarrow> f64" where
  "f64_at n d e =
     (if 0 \<le> e then
        let q = round_half_even n (d * 2 ^ nat e) * 2 ^ nat e
        in if f64_limit \<le> q then F_Inf True else F_Fin (of_int q)
      else F_Fin (of_int (round_half_even (n * 2 ^ nat (- e)) d) / 2 ^ nat (- e)))"

definition f64_of_ratio :: "int \<Rightarrow> int \<Rightarrow> f64" where
  "f64_of_ratio n d = (if n = 0 then F_Fin 0 else f64_at n d (f64_exponent n d))"

fun f64_neg :: "f64 \<Rightarrow> f64" where
  "f64_neg F_NaN = F_NaN"
| "f64_neg (F_Inf pos) = F_Inf (\<not> pos)"
| "f64_neg (F_Fin q) = F_Fin (- q)"

text \<open>\<open>x as f64\<close> on an integer.\<close>

definition f64_of_int :: "int \<Rightarrow> f64" where
  "f64_of_int x = (if x < 0 then f64_neg (f64_of_ratio (- x) 1) else f64_of_ratio x 1)"

fun f64_partial_cmp :: "f64 \<Rightarrow> f64 \<Rightarrow> ordering option" where
  "f64_partial_cmp F_NaN y = None"
| "f64_partial_cmp x F_NaN = None"
| "f64_partial_cmp (F_Fin p) (F_Fin q) = Some (ord_cmp p q)"
| "f64_partial_cmp (F_Inf b) (F_Inf c) = Some (ord_cmp b c)"
| "f64_partial_cmp (F_Inf b) (F_Fin q) = Some (if b then Ord_Greater else Ord_Less)"
| "f64_partial_cmp (F_Fin p) (F_Inf c) = Some (if c then Ord_Less else Ord_Greater)"

definition f64_eq :: "f64 \<Rightarrow> f64 \<Rightarrow> bool" where
  "f64_eq x y \<longleftrightarrow> x \<noteq> F_NaN \<and> x = y"

definition total_f64 :: "f64 \<Rightarrow> f64 \<Rightarrow> ordering" where
  "total_f64 a b =
     (case f64_partial_cmp a b of
        Some r \<Rightarrow> r
      | None \<Rightarrow> if a = F_NaN \<and> b = F_NaN then Ord_Equal else if a = F_NaN then Ord_Greater else Ord_Less)"

subsection \<open>Values\<close>

record path_value =
  pv_nodes :: "node_id list"
  pv_edges :: "edge_id list"

datatype cql_value =
    VNull | VBool bool | VInt int | VFloat f64 | VStr string | VList "cql_value list"
  | VNode node_id | VEdge edge_id | VPath path_value

fun type_rank :: "cql_value \<Rightarrow> nat" where
  "type_rank VNull = 0"
| "type_rank (VBool _) = 1"
| "type_rank (VInt _) = 2"
| "type_rank (VFloat _) = 3"
| "type_rank (VStr _) = 4"
| "type_rank (VList _) = 5"
| "type_rank (VNode _) = 6"
| "type_rank (VEdge _) = 7"
| "type_rank (VPath _) = 8"

fun is_truthy :: "cql_value \<Rightarrow> bool" where
  "is_truthy VNull = False"
| "is_truthy (VBool b) = b"
| "is_truthy _ = True"

text \<open>\<open>Iterator::cmp\<close> on the identifiers of a path is the lexicographic order.\<close>

definition cmp_path :: "path_value \<Rightarrow> path_value \<Rightarrow> ordering" where
  "cmp_path x y =
     (let nodes = ord_cmp (pv_nodes x) (pv_nodes y)
      in if nodes \<noteq> Ord_Equal then nodes else ord_cmp (pv_edges x) (pv_edges y))"

text \<open>
  \<open>cmp_list\<close> compares the zipped elements first. When one list is used up the lengths decide; the
  elements already passed are as many on both sides, so the rests can be compared.
\<close>

fun value_compare :: "cql_value \<Rightarrow> cql_value \<Rightarrow> ordering"
  and cmp_list :: "cql_value list \<Rightarrow> cql_value list \<Rightarrow> ordering" where
  "value_compare (VInt x) b =
     (case b of VInt y \<Rightarrow> ord_cmp x y | VFloat y \<Rightarrow> total_f64 (f64_of_int x) y
      | _ \<Rightarrow> ord_cmp (type_rank (VInt x)) (type_rank b))"
| "value_compare (VFloat x) b =
     (case b of VFloat y \<Rightarrow> total_f64 x y | VInt y \<Rightarrow> total_f64 x (f64_of_int y)
      | _ \<Rightarrow> ord_cmp (type_rank (VFloat x)) (type_rank b))"
| "value_compare (VBool x) b =
     (case b of VBool y \<Rightarrow> ord_cmp x y | _ \<Rightarrow> ord_cmp (type_rank (VBool x)) (type_rank b))"
| "value_compare (VStr x) b =
     (case b of VStr y \<Rightarrow> ord_cmp x y | _ \<Rightarrow> ord_cmp (type_rank (VStr x)) (type_rank b))"
| "value_compare (VList x) b =
     (case b of VList y \<Rightarrow> cmp_list x y | _ \<Rightarrow> ord_cmp (type_rank (VList x)) (type_rank b))"
| "value_compare (VNode x) b =
     (case b of VNode y \<Rightarrow> ord_cmp x y | _ \<Rightarrow> ord_cmp (type_rank (VNode x)) (type_rank b))"
| "value_compare (VEdge x) b =
     (case b of VEdge y \<Rightarrow> ord_cmp x y | _ \<Rightarrow> ord_cmp (type_rank (VEdge x)) (type_rank b))"
| "value_compare (VPath x) b =
     (case b of VPath y \<Rightarrow> cmp_path x y | _ \<Rightarrow> ord_cmp (type_rank (VPath x)) (type_rank b))"
| "value_compare VNull b =
     (case b of VNull \<Rightarrow> Ord_Equal | _ \<Rightarrow> ord_cmp (type_rank VNull) (type_rank b))"
| "cmp_list (xa # x) y =
     (case y of [] \<Rightarrow> Ord_Greater
      | ya # y \<Rightarrow> (let r = value_compare xa ya in if r \<noteq> Ord_Equal then r else cmp_list x y))"
| "cmp_list [] y = ord_cmp 0 (length y)"

text \<open>The derived \<open>PartialEq\<close>: the same variant with equal contents, floats by IEEE equality.\<close>

fun value_eq :: "cql_value \<Rightarrow> cql_value \<Rightarrow> bool"
  and values_eq_list :: "cql_value list \<Rightarrow> cql_value list \<Rightarrow> bool" where
  "value_eq (VFloat x) b = (case b of VFloat y \<Rightarrow> f64_eq x y | _ \<Rightarrow> False)"
| "value_eq (VList x) b = (case b of VList y \<Rightarrow> values_eq_list x y | _ \<Rightarrow> False)"
| "value_eq VNull b = (b = VNull)"
| "value_eq (VBool x) b = (b = VBool x)"
| "value_eq (VInt x) b = (b = VInt x)"
| "value_eq (VStr x) b = (b = VStr x)"
| "value_eq (VNode x) b = (b = VNode x)"
| "value_eq (VEdge x) b = (b = VEdge x)"
| "value_eq (VPath x) b = (b = VPath x)"
| "values_eq_list [] y = (y = [])"
| "values_eq_list (a # x) y = (case y of [] \<Rightarrow> False | b # y \<Rightarrow> value_eq a b \<and> values_eq_list x y)"

text \<open>
  \<open>values_equal\<close> (eval.rs), the equality of \<open>=\<close> and \<open>IN\<close>: integers and floats compare as numbers,
  at the top level only.
\<close>

definition values_equal :: "cql_value \<Rightarrow> cql_value \<Rightarrow> bool" where
  "values_equal a b =
     (case (a, b) of
        (VInt x, VFloat y) \<Rightarrow> f64_eq (f64_of_int x) y
      | (VFloat y, VInt x) \<Rightarrow> f64_eq (f64_of_int x) y
      | _ \<Rightarrow> value_eq a b)"

subsection \<open>Where the comparison is a total preorder\<close>

definition exact_int :: "int \<Rightarrow> bool" where
  "exact_int x \<longleftrightarrow> f64_of_int x = F_Fin (of_int x)"

text \<open>
  A value that is comparable with its like: either no float occurs in it, or floats may occur and
  every integer in it is exact.
\<close>

fun comparable :: "bool \<Rightarrow> cql_value \<Rightarrow> bool" where
  "comparable floats (VInt x) = (floats \<longrightarrow> exact_int x)"
| "comparable floats (VFloat x) = floats"
| "comparable floats (VList vs) = list_all (comparable floats) vs"
| "comparable floats _ = True"

text \<open>Integers of at most 53 bits are exact.\<close>

lemma bit_len_bounds: "0 < n \<Longrightarrow> 2 ^ (bit_len n - 1) \<le> n \<and> n < 2 ^ bit_len n \<and> 0 < bit_len n"
proof (induction n rule: bit_len.induct)
  case (1 n)
  show ?case
  proof (cases "n div 2 = 0")
    case True
    then have "n = 1" using 1(2) by simp
    then show ?thesis by (simp add: bit_len.simps)
  next
    case False
    then have pos: "0 < n div 2" using 1(2) by simp
    have len: "bit_len n = Suc (bit_len (n div 2))" using 1(2) by (subst bit_len.simps) simp
    have ih: "2 ^ (bit_len (n div 2) - 1) \<le> n div 2" "n div 2 < 2 ^ bit_len (n div 2)" "0 < bit_len (n div 2)"
      using 1(1) 1(2) pos by auto
    obtain k where k: "bit_len (n div 2) = Suc k" using ih(3) by (cases "bit_len (n div 2)") auto
    have "2 ^ k \<le> n div 2" "n div 2 < 2 * 2 ^ k" using ih k by simp_all
    then have "2 * 2 ^ k \<le> n" "n < 4 * 2 ^ k" by linarith+
    then show ?thesis by (simp add: len k)
  qed
qed

lemma bit_len_le: "0 \<le> n \<Longrightarrow> n < 2 ^ k \<Longrightarrow> bit_len n \<le> k"
proof (rule ccontr)
  assume n: "0 \<le> n" "n < 2 ^ k" "\<not> bit_len n \<le> k"
  then have "0 < n" by (cases "n = 0") (auto simp: bit_len.simps)
  then have "2 ^ (bit_len n - 1) \<le> n" using bit_len_bounds by blast
  moreover have "(2::int) ^ k \<le> 2 ^ (bit_len n - 1)" using n(3) by (intro power_increasing) auto
  ultimately show False using n(2) by linarith
qed

lemma round_exact: "0 < d \<Longrightarrow> round_half_even (n * d) d = n"
  by (simp add: round_half_even_def Let_def)

lemma f64_at_exact: "e \<le> 0 \<Longrightarrow> n < f64_limit \<Longrightarrow> f64_at n 1 e = F_Fin (of_int n)"
  using round_exact [of 1 n] round_exact [of 1 "n * 2 ^ nat (- e)"] by (simp add: f64_at_def Let_def)

lemma f64_of_ratio_int:
  assumes "0 \<le> n" "n \<le> 2 ^ 53"
  shows "f64_of_ratio n 1 = F_Fin (of_int n)"
proof (cases "n = 0")
  case False
  have len1: "bit_len 1 = 1" by (simp add: bit_len.simps)
  have pos: "0 < n" using assms False by simp
  have lim: "n < f64_limit" using assms(2) by (simp add: f64_limit_def)
  have len: "0 < bit_len n" "bit_len n \<le> 54" using bit_len_bounds [OF pos] assms by (auto intro: bit_len_le)
  show ?thesis
  proof (cases "f64_exponent n 1 \<le> 0")
    case True
    then show ?thesis using f64_at_exact lim False by (simp add: f64_of_ratio_def)
  next
    case e: False
    have "bit_len n = 54"
    proof (rule ccontr)
      assume "bit_len n \<noteq> 54"
      then have "int (bit_len n) - int (bit_len 1) \<le> 52" using len len1 by simp
      then show False using e by (simp add: f64_exponent_def Let_def split: if_splits)
    qed
    then have n: "n = 2 ^ 53" using bit_len_bounds [OF pos] assms(2) by simp
    have "f64_exponent n 1 = 1" using \<open>bit_len n = 54\<close> len1 by (simp add: f64_exponent_def n)
    moreover have "round_half_even (2 ^ 53) (1 * 2 ^ nat 1) = 2 ^ 52" by (simp add: round_half_even_def)
    ultimately show ?thesis using lim by (simp add: f64_of_ratio_def f64_at_def n)
  qed
qed (simp add: f64_of_ratio_def)

lemma exact_int_small: "\<bar>x\<bar> \<le> 2 ^ 53 \<Longrightarrow> exact_int x"
  using f64_of_ratio_int [of "\<bar>x\<bar>"] by (auto simp: exact_int_def f64_of_int_def abs_if split: if_splits)

lemma total_f64_cases:
  "total_f64 F_NaN F_NaN = Ord_Equal" "y \<noteq> F_NaN \<Longrightarrow> total_f64 F_NaN y = Ord_Greater"
  "x \<noteq> F_NaN \<Longrightarrow> total_f64 x F_NaN = Ord_Less" "total_f64 (F_Fin p) (F_Fin q) = ord_cmp p q"
  "total_f64 (F_Inf b) (F_Inf c) = ord_cmp b c" "total_f64 (F_Inf b) (F_Fin q) = (if b then Ord_Greater else Ord_Less)"
  "total_f64 (F_Fin p) (F_Inf c) = (if c then Ord_Less else Ord_Greater)"
  by (cases x; cases y; simp add: total_f64_def)+

text \<open>A comparator given by an order embedding is one: doubles with not-a-number last.\<close>

fun f64_key :: "f64 \<Rightarrow> nat \<times> rat" where
  "f64_key (F_Inf False) = (0, 0)"
| "f64_key (F_Fin q) = (1, q)"
| "f64_key (F_Inf True) = (2, 0)"
| "f64_key F_NaN = (3, 0)"

lemma total_f64_key: "total_f64 x y = ord_cmp (f64_key x) (f64_key y)"
  by (cases x rule: f64_key.cases; cases y rule: f64_key.cases) (auto simp: total_f64_cases ord_cmp_def)

lemma f64_key_inj [simp]: "f64_key x = f64_key y \<longleftrightarrow> x = y"
  by (cases x rule: f64_key.cases; cases y rule: f64_key.cases) auto

lemma ord_cmp_int_f64: "ord_cmp x y = total_f64 (F_Fin (of_int x)) (F_Fin (of_int y))"
  by (simp add: total_f64_cases ord_cmp_def)

lemma cmp_list_Nil [simp]: "cmp_list y [] = ord_cmp (length y) 0"
  by (cases y) (simp_all add: ord_cmp_def)

lemma compare_reverse:
  "value_compare b a = ord_reverse (value_compare a b)"
  "cmp_list ys xs = ord_reverse (cmp_list xs ys)"
proof (induction a b and xs ys rule: value_compare_cmp_list.induct)
qed (auto simp: total_f64_key cmp_path_def Let_def split: cql_value.splits list.splits intro: ord_cmp_reverse)

fun class_rank :: "cql_value \<Rightarrow> nat" where
  "class_rank (VFloat x) = 2"
| "class_rank v = type_rank v"

lemma compare_class: "class_rank a \<noteq> class_rank b \<Longrightarrow> value_compare a b = ord_cmp (class_rank a) (class_rank b)"
  by (cases a; cases b) (simp_all add: ord_cmp_def)

abbreviation value_le :: "cql_value \<Rightarrow> cql_value \<Rightarrow> bool" where
  "value_le a b \<equiv> value_compare a b \<noteq> Ord_Greater"

lemma value_le_class: "value_le a b \<Longrightarrow> class_rank a \<le> class_rank b"
  using compare_class [of a b] by (cases "class_rank a = class_rank b") (auto simp: ord_cmp_def split: if_splits)

fun flat_key :: "cql_value \<Rightarrow> nat \<times> (nat \<times> rat) \<times> bool \<times> string \<times> nat \<times> nat list \<times> nat list" where
  "flat_key (VBool b) = (1, (0, 0), b, [], 0, [], [])"
| "flat_key (VInt x) = (2, (1, of_int x), False, [], 0, [], [])"
| "flat_key (VFloat x) = (2, f64_key x, False, [], 0, [], [])"
| "flat_key (VStr s) = (4, (0, 0), False, s, 0, [], [])"
| "flat_key (VNode n) = (6, (0, 0), False, [], n, [], [])"
| "flat_key (VEdge n) = (7, (0, 0), False, [], n, [], [])"
| "flat_key (VPath p) = (8, (0, 0), False, [], 0, pv_nodes p, pv_edges p)"
| "flat_key _ = (0, (0, 0), False, [], 0, [], [])"

lemma compare_flat:
  assumes "comparable fl a" "comparable fl b" "class_rank a \<noteq> 5" "class_rank b \<noteq> 5"
  shows "value_compare a b = ord_cmp (flat_key a) (flat_key b)"
proof (cases "class_rank a = class_rank b")
  case True
  then show ?thesis using assms
    by (cases a; cases b) (simp_all add: exact_int_def total_f64_key cmp_path_def ord_cmp_def Let_def)
next
  case False
  moreover have "class_rank a \<noteq> class_rank b \<Longrightarrow> ord_cmp (flat_key a) (flat_key b) = ord_cmp (class_rank a) (class_rank b)"
    using assms(3,4) by (cases a; cases b) (simp_all add: ord_cmp_def)
  ultimately show ?thesis using compare_class by simp
qed

lemma ord_cmp_le: "ord_cmp x y \<noteq> Ord_Greater \<longleftrightarrow> x \<le> y"
  by (auto simp: ord_cmp_def)

lemma flat_trans:
  assumes "comparable fl a" "comparable fl b" "comparable fl c" "class_rank a \<noteq> 5" "class_rank b \<noteq> 5" "class_rank c \<noteq> 5"
    and "value_le a b" "value_le b c"
  shows "value_le a c"
  using assms(7,8) unfolding compare_flat [OF assms(1,2,4,5)] compare_flat [OF assms(2,3,5,6)]
    compare_flat [OF assms(1,3,4,6)] ord_cmp_le by (rule order_trans)

definition trans_triple :: "cql_value \<Rightarrow> cql_value \<Rightarrow> cql_value \<Rightarrow> bool" where
  "trans_triple a b c \<longleftrightarrow> (value_le a b \<longrightarrow> value_le b c \<longrightarrow> value_le a c)"

lemma equal_le: "value_compare a b = Ord_Equal \<longleftrightarrow> value_le a b \<and> value_le b a"
  using compare_reverse(1) [of b a] by (cases "value_compare a b") simp_all

lemma trans_triple_equal:
  assumes "trans_triple b c a" "trans_triple c a b" "value_le a b" "value_le b c" "value_le c a"
  shows "value_compare a b = Ord_Equal" "value_compare b c = Ord_Equal"
  using assms unfolding trans_triple_def equal_le by blast+

lemma cmp_list_Cons:
  "cmp_list (a # x) (b # y) \<noteq> Ord_Greater \<longleftrightarrow>
    value_le a b \<and> (value_compare a b = Ord_Equal \<longrightarrow> cmp_list x y \<noteq> Ord_Greater)"
  by (cases "value_compare a b") (simp_all add: Let_def)

lemma cmp_list_trans:
  assumes "\<And>a b c. a \<in> set x \<Longrightarrow> b \<in> set y \<Longrightarrow> c \<in> set z \<Longrightarrow>
      trans_triple a b c \<and> trans_triple b c a \<and> trans_triple c a b"
    and "cmp_list x y \<noteq> Ord_Greater" "cmp_list y z \<noteq> Ord_Greater"
  shows "cmp_list x z \<noteq> Ord_Greater"
  using assms
proof (induction x arbitrary: y z)
  case (Cons a x)
  obtain b y' where y: "y = b # y'" using Cons.prems(2) by (cases y) simp_all
  obtain c z' where z: "z = c # z'" using Cons.prems(3) y by (cases z) simp_all
  have t: "trans_triple a b c" "trans_triple b c a" "trans_triple c a b" using Cons.prems(1) [of a b c] y z by simp_all
  have ab: "value_le a b" "value_compare a b = Ord_Equal \<longrightarrow> cmp_list x y' \<noteq> Ord_Greater"
    and bc: "value_le b c" "value_compare b c = Ord_Equal \<longrightarrow> cmp_list y' z' \<noteq> Ord_Greater"
    using Cons.prems(2,3) unfolding y z cmp_list_Cons by blast+
  have ac: "value_le a c" using t(1) ab(1) bc(1) unfolding trans_triple_def by blast
  have "cmp_list x z' \<noteq> Ord_Greater" if "value_compare a c = Ord_Equal"
  proof (rule Cons.IH [of y' z'])
    have "value_le c a" using that unfolding equal_le by blast
    note trans_triple_equal [OF t(2,3) ab(1) bc(1) this]
    then show "cmp_list x y' \<noteq> Ord_Greater" "cmp_list y' z' \<noteq> Ord_Greater" using ab(2) bc(2) by blast+
    fix u v w
    assume "u \<in> set x" "v \<in> set y'" "w \<in> set z'"
    then show "trans_triple u v w \<and> trans_triple v w u \<and> trans_triple w u v"
      using Cons.prems(1) [of u v w] y z by simp
  qed
  then show ?case unfolding z cmp_list_Cons using ac by blast
qed simp

lemma compare_trans:
  "comparable fl a \<Longrightarrow> comparable fl b \<Longrightarrow> comparable fl c \<Longrightarrow> value_le a b \<Longrightarrow> value_le b c \<Longrightarrow> value_le a c"
proof (induction "size a + size b + size c" arbitrary: a b c rule: less_induct)
  case less
  have rank: "class_rank a \<le> class_rank b" "class_rank b \<le> class_rank c"
    using less.prems(4,5) value_le_class by blast+
  show ?case
  proof (cases "class_rank a = class_rank c")
    case False
    then show ?thesis using rank compare_class [of a c] by (auto simp: ord_cmp_def)
  next
    case same: True
    then have ab: "class_rank a = class_rank b" and bc: "class_rank b = class_rank c" using rank by simp_all
    show ?thesis
    proof (cases "class_rank a = 5")
      case False
      show ?thesis by (rule flat_trans [OF less.prems(1-3) _ _ _ less.prems(4,5)]) (use False ab bc in simp_all)
    next
      case True
      then obtain x y z where l: "a = VList x" "b = VList y" "c = VList z"
        using ab bc by (cases a; cases b; cases c) simp_all
      have "cmp_list x z \<noteq> Ord_Greater"
      proof (rule cmp_list_trans)
        fix u v w
        assume in3: "u \<in> set x" "v \<in> set y" "w \<in> set z"
        have "size u < size a" "size v < size b" "size w < size c"
          using in3 by (auto simp: l less_Suc_eq_le intro: size_list_estimation' order_refl)
        then have sz: "size u + size v + size w < size a + size b + size c" by linarith
        have ex: "comparable fl u" "comparable fl v" "comparable fl w"
          using less.prems(1-3) in3 by (auto simp: l list_all_iff)
        show "trans_triple u v w \<and> trans_triple v w u \<and> trans_triple w u v"
          using less.hyps [of u v w] less.hyps [of v w u] less.hyps [of w u v] sz ex
          unfolding trans_triple_def by (simp add: add.commute add.left_commute)
      qed (use less.prems(4,5) l in simp_all)
      then show ?thesis by (simp add: l)
    qed
  qed
qed

interpretation value_ord: comparator value_compare "{v. comparable fl v}" for fl
proof
  show "value_compare x x = Ord_Equal" for x
    using compare_reverse(1) [of x x] by (cases "value_compare x x") simp_all
  show "value_compare y x = ord_reverse (value_compare x y)" for x y by (rule compare_reverse(1))
qed (use compare_trans in blast)

text \<open>A row is compared as \<open>Vec\<close> compares its elements, which is what \<open>cmp_list\<close> does.\<close>

interpretation row_ord: comparator cmp_list "{r. list_all (comparable fl) r}" for fl
proof
  show "cmp_list x x = Ord_Equal" for x
    using compare_reverse(2) [of x x] by (cases "cmp_list x x") simp_all
  show "cmp_list y x = ord_reverse (cmp_list x y)" for x y by (rule compare_reverse(2))
  show "cmp_list x z \<noteq> Ord_Greater"
    if "x \<in> {r. list_all (comparable fl) r}" "y \<in> {r. list_all (comparable fl) r}" "z \<in> {r. list_all (comparable fl) r}"
      "cmp_list x y \<noteq> Ord_Greater" "cmp_list y z \<noteq> Ord_Greater" for x y z
    by (rule cmp_list_trans [OF _ that(4,5)])
      (use that(1-3) compare_trans [where fl = fl] in \<open>unfold trans_triple_def list_all_iff mem_Collect_eq, metis\<close>)
qed

text \<open>Without floats the comparison, the derived equality and equality of values agree.\<close>

lemma compare_equal_iff:
  "comparable False a \<Longrightarrow> comparable False b \<Longrightarrow> value_compare a b = Ord_Equal \<longleftrightarrow> a = b"
  "list_all (comparable False) x \<Longrightarrow> list_all (comparable False) y \<Longrightarrow> cmp_list x y = Ord_Equal \<longleftrightarrow> x = y"
  by (induction a b and x y rule: value_compare_cmp_list.induct)
    (auto simp: cmp_path_def Let_def split: cql_value.splits list.splits)

lemma value_eq_iff:
  "comparable False a \<Longrightarrow> comparable False b \<Longrightarrow> value_eq a b \<longleftrightarrow> a = b"
  "list_all (comparable False) x \<Longrightarrow> list_all (comparable False) y \<Longrightarrow> values_eq_list x y \<longleftrightarrow> x = y"
  by (induction a b and x y rule: value_eq_values_eq_list.induct) (auto split: cql_value.splits list.splits)

text \<open>Beyond 53 bits two integers can be equal to one double and not to each other.\<close>

lemma compare_not_transitive:
  "value_compare (VInt 9007199254740992) (VFloat (F_Fin 9007199254740992)) = Ord_Equal"
  "value_compare (VInt 9007199254740993) (VFloat (F_Fin 9007199254740992)) = Ord_Equal"
  "value_compare (VInt 9007199254740992) (VInt 9007199254740993) = Ord_Less"
  by code_simp+

end
