(* ===== verification/Cql_Token.thy ===== *)
theory Cql_Token
  imports Cql_Value Select_Grammar
begin

text \<open>
  Errors and the lexer of the query language (cgx-cql/src/error.rs, token.rs).

  The source is a list of bytes, valid UTF-8 as a Rust \<open>str\<close> is. The lexer's position is kept as
  the rest of the source still to read: \<open>pos\<close> is the length of the source less the length of the
  rest. Spans are half-open byte ranges.
\<close>

subsection \<open>Errors\<close>

type_synonym byte_span = "nat \<times> nat"

datatype error_kind = ParseError | PlanError | EvalError

fun error_label :: "error_kind \<Rightarrow> string" where
  "error_label ParseError = ''parse error''"
| "error_label PlanError = ''plan error''"
| "error_label EvalError = ''eval error''"

record cql_error =
  er_span :: byte_span
  er_kind :: error_kind
  er_message :: string

definition cql_error_new :: "byte_span \<Rightarrow> error_kind \<Rightarrow> string \<Rightarrow> cql_error" where
  "cql_error_new sp kind message = \<lparr>er_span = sp, er_kind = kind, er_message = message\<rparr>"

definition parse_error :: "byte_span \<Rightarrow> string \<Rightarrow> cql_error" where
  "parse_error sp message = cql_error_new sp ParseError message"

definition plan_error :: "byte_span \<Rightarrow> string \<Rightarrow> cql_error" where
  "plan_error sp message = cql_error_new sp PlanError message"

definition eval_error :: "byte_span \<Rightarrow> string \<Rightarrow> cql_error" where
  "eval_error sp message = cql_error_new sp EvalError message"

definition newline :: char where
  "newline = CHR 0x0A"

text \<open>\<open>rfind('\n')\<close> on a prefix, plus one, and \<open>find('\n')\<close> on a suffix.\<close>

definition line_start_of :: "string \<Rightarrow> nat" where
  "line_start_of lead = length lead - length (takeWhile (\<lambda>c. c \<noteq> newline) (rev lead))"

definition render_error :: "cql_error \<Rightarrow> string \<Rightarrow> string" where
  "render_error err src =
     (let len = length src;
          start = min (fst (er_span err)) len;
          end' = max start (min (snd (er_span err)) len);
          line_start = line_start_of (take start src);
          line_end = start + length (takeWhile (\<lambda>c. c \<noteq> newline) (drop start src));
          line_no = length (filter (\<lambda>c. c = newline) (take start src)) + 1;
          col = start - line_start + 1;
          line_text = take (line_end - line_start) (drop line_start src);
          caret_offset = start - line_start;
          caret_len = max (min end' line_end - start) 1;
          gutter = show_nat line_no;
          pad = replicate (length gutter) (CHR '' '')
      in ''error: '' @ er_message err @ [newline]
         @ pad @ ''--> query:'' @ show_nat line_no @ '':'' @ show_nat col @ [newline]
         @ pad @ '' |'' @ [newline]
         @ gutter @ '' | '' @ line_text @ [newline]
         @ pad @ '' | '' @ replicate caret_offset (CHR '' '') @ replicate caret_len (CHR ''^''))"

definition display_error :: "cql_error \<Rightarrow> string" where
  "display_error err =
     error_label (er_kind err) @ '': '' @ er_message err @ '' (at bytes '' @ show_nat (fst (er_span err))
       @ ''..'' @ show_nat (snd (er_span err)) @ '')''"

text \<open>
  The slices and the subtractions of \<open>render\<close> stay in range: the line starts at or before the
  span, ends at or after it, contains no line break, and the carets start under the span.
\<close>

lemma line_start_of_le: "line_start_of s \<le> length s"
  by (simp add: line_start_of_def)

lemma line_start_of_line: "newline \<notin> set (drop (line_start_of s) s)"
proof -
  have "drop (line_start_of s) s = rev (takeWhile (\<lambda>c. c \<noteq> newline) (rev s))"
    by (simp add: line_start_of_def drop_rev [of _ "rev s", simplified] takeWhile_eq_take [symmetric] flip: rev_take)
      (metis length_rev length_takeWhile_le rev_rev_ident rev_take takeWhile_eq_take diff_diff_cancel)
  then show ?thesis by (auto dest: set_takeWhileD)
qed

subsection \<open>Tokens\<close>

datatype (plugins only: size code) tok =
    T_Match | T_Where | T_Return | T_With | T_Call | T_Yield | T_Order | T_By | T_As | T_Distinct
  | T_Limit | T_Asc | T_Desc | T_And | T_Or | T_Not | T_In | T_None | T_Any | T_All | T_True | T_False
  | T_Null
  | T_Ident string | T_Int int | T_Float f64 | T_Str string
  | T_LParen | T_RParen | T_LBracket | T_RBracket | T_LBrace | T_RBrace | T_Colon | T_Comma | T_Dot
  | T_Pipe | T_At | T_Star | T_DotDot
  | T_Eq | T_Ne | T_Lt | T_Le | T_Gt | T_Ge | T_Dash | T_ArrowR | T_ArrowL
  | T_Eof

record cql_token =
  tok_kind :: tok
  tok_span :: byte_span

definition to_upper :: "char \<Rightarrow> char" where
  "to_upper c = (if CHR ''a'' \<le> c \<and> c \<le> CHR ''z'' then char_of (of_char c - 32 :: nat) else c)"

definition keyword_table :: "(string \<times> tok) list" where
  "keyword_table =
     [(''MATCH'', T_Match), (''WHERE'', T_Where), (''RETURN'', T_Return), (''WITH'', T_With),
      (''CALL'', T_Call), (''YIELD'', T_Yield), (''ORDER'', T_Order), (''BY'', T_By), (''AS'', T_As),
      (''DISTINCT'', T_Distinct), (''LIMIT'', T_Limit), (''ASC'', T_Asc), (''DESC'', T_Desc),
      (''AND'', T_And), (''OR'', T_Or), (''NOT'', T_Not), (''IN'', T_In), (''NONE'', T_None),
      (''ANY'', T_Any), (''ALL'', T_All), (''TRUE'', T_True), (''FALSE'', T_False), (''NULL'', T_Null)]"

definition keyword :: "string \<Rightarrow> tok option" where
  "keyword name = map_of keyword_table (map to_upper name)"

definition is_digit :: "char \<Rightarrow> bool" where
  "is_digit c \<longleftrightarrow> CHR ''0'' \<le> c \<and> c \<le> CHR ''9''"

definition is_ident_start :: "char \<Rightarrow> bool" where
  "is_ident_start c \<longleftrightarrow> (CHR ''a'' \<le> c \<and> c \<le> CHR ''z'') \<or> (CHR ''A'' \<le> c \<and> c \<le> CHR ''Z'') \<or> c = CHR ''_''"

definition is_ident_continue :: "char \<Rightarrow> bool" where
  "is_ident_continue c \<longleftrightarrow> is_ident_start c \<or> is_digit c"

text \<open>The byte length of the character at the head of valid UTF-8, from its first byte.\<close>

fun char_len :: "string \<Rightarrow> nat" where
  "char_len [] = 1"
| "char_len (c # _) =
     (let b = (of_char c :: nat) in if b < 128 then 1 else if b < 224 then 2 else if b < 240 then 3 else 4)"

definition backslash :: char where
  "backslash = CHR 0x5C"

definition dquote :: char where
  "dquote = CHR 0x22"

subsection \<open>The lexer\<close>

function skip_trivia :: "string \<Rightarrow> string" where
  "skip_trivia rest =
     (case rest of
        [] \<Rightarrow> []
      | b # bs \<Rightarrow>
          if b = CHR '' '' \<or> b = CHR 0x09 \<or> b = CHR 0x0D \<or> b = newline then skip_trivia bs
          else if b = CHR ''/'' \<and> (case bs of c # _ \<Rightarrow> c = CHR ''/'' | [] \<Rightarrow> False)
            then skip_trivia (dropWhile (\<lambda>c. c \<noteq> newline) rest)
          else rest)"
  by auto
termination
  by (relation "measure length")
    (auto simp: newline_def less_Suc_eq_le intro: length_dropWhile_le)

declare skip_trivia.simps [simp del]

definition lex_ident :: "nat \<Rightarrow> string \<Rightarrow> cql_token \<times> string" where
  "lex_ident n rest =
     (let start = n - length rest;
          name = hd rest # takeWhile is_ident_continue (tl rest);
          rest' = dropWhile is_ident_continue (tl rest);
          kind = (case keyword name of Some k \<Rightarrow> k | None \<Rightarrow> T_Ident name)
      in (\<lparr>tok_kind = kind, tok_span = (start, n - length rest')\<rparr>, rest'))"

definition digits_value :: "string \<Rightarrow> int" where
  "digits_value ds = fold (\<lambda>c v. 10 * v + (of_char c - 48)) ds 0"

text \<open>\<open>str::parse::<f64>\<close> on digits, a fraction and an exponent: the nearest double; it never fails
  on a text of this shape.\<close>

definition f64_of_decimal :: "int \<Rightarrow> int \<Rightarrow> f64" where
  "f64_of_decimal m k =
     (if 0 \<le> k then f64_of_ratio (m * 10 ^ nat k) 1 else f64_of_ratio m (10 ^ nat (- k)))"

definition i64_max :: int where
  "i64_max = 2 ^ 63 - 1"

definition lex_fraction :: "string \<Rightarrow> string option \<times> string" where
  "lex_fraction rest =
     (case rest of
        d # c # r \<Rightarrow>
          if d = CHR ''.'' \<and> is_digit c then (Some (takeWhile is_digit (c # r)), dropWhile is_digit (c # r))
          else (None, rest)
      | _ \<Rightarrow> (None, rest))"

definition lex_exponent :: "string \<Rightarrow> (bool \<times> string) option \<times> string" where
  "lex_exponent rest =
     (case rest of
        e # r \<Rightarrow>
          if e = CHR ''e'' \<or> e = CHR ''E'' then
            let negative = (case r of s # _ \<Rightarrow> s = CHR ''-'' | [] \<Rightarrow> False);
                r' = (case r of s # r' \<Rightarrow> if s = CHR ''+'' \<or> s = CHR ''-'' then r' else r | [] \<Rightarrow> r)
            in (case r' of
                  c # _ \<Rightarrow>
                    if is_digit c then (Some (negative, takeWhile is_digit r'), dropWhile is_digit r')
                    else (None, rest)
                | [] \<Rightarrow> (None, rest))
          else (None, rest)
      | [] \<Rightarrow> (None, rest))"

definition lex_number :: "nat \<Rightarrow> string \<Rightarrow> cql_error + cql_token \<times> string" where
  "lex_number n rest =
     (let start = n - length rest;
          ds = takeWhile is_digit rest;
          (fr, rest1) = lex_fraction (dropWhile is_digit rest);
          (expo, rest2) = lex_exponent rest1;
          sp = (start, n - length rest2);
          literal = take (length rest - length rest2) rest
      in if fr \<noteq> None \<or> expo \<noteq> None then
           let fs = (case fr of Some fs \<Rightarrow> fs | None \<Rightarrow> []);
               e = (case expo of Some (negative, es) \<Rightarrow> (if negative then - digits_value es else digits_value es) | None \<Rightarrow> 0)
           in Inr (\<lparr>tok_kind = T_Float (f64_of_decimal (digits_value (ds @ fs)) (e - int (length fs))),
                    tok_span = sp\<rparr>, rest2)
         else if digits_value ds \<le> i64_max then
           Inr (\<lparr>tok_kind = T_Int (digits_value ds), tok_span = sp\<rparr>, rest2)
         else Inl (cql_error_new sp ParseError (''integer literal `'' @ literal @ ''` out of range'')))"

definition decode_escape :: "char \<Rightarrow> char option" where
  "decode_escape esc =
     (if esc = dquote \<or> esc = backslash \<or> esc = CHR ''/'' then Some esc
      else if esc = CHR ''n'' then Some newline
      else if esc = CHR ''t'' then Some (CHR 0x09)
      else if esc = CHR ''r'' then Some (CHR 0x0D)
      else None)"

text \<open>
  \<open>esc as char\<close> reads the byte as a code point: a byte of 128 or more is printed as the two bytes
  of its UTF-8 encoding.
\<close>

definition latin1_char :: "char \<Rightarrow> string" where
  "latin1_char c =
     (let b = (of_char c :: nat) in if b < 128 then [c] else [char_of (192 + b div 64), char_of (128 + b mod 64)])"

function lex_string_go :: "nat \<Rightarrow> nat \<Rightarrow> string \<Rightarrow> string \<Rightarrow> cql_error + cql_token \<times> string" where
  "lex_string_go n start value rest =
     (case rest of
        [] \<Rightarrow> Inl (cql_error_new (start, n) ParseError ''unterminated string literal'')
      | b # bs \<Rightarrow>
          if b = dquote then
            Inr (\<lparr>tok_kind = T_Str value, tok_span = (start, n - length bs)\<rparr>, bs)
          else if b = backslash then
            (case bs of
               [] \<Rightarrow> Inl (cql_error_new (start, n) ParseError ''unterminated string literal'')
             | esc # bs' \<Rightarrow>
                 (case decode_escape esc of
                    None \<Rightarrow> Inl (cql_error_new (n - length rest, n - length rest + 2) ParseError
                      (''invalid string escape `'' @ [backslash] @ latin1_char esc @ ''`''))
                  | Some decoded \<Rightarrow> lex_string_go n start (value @ [decoded]) bs'))
          else
            lex_string_go n start (value @ take (char_len rest) rest) (drop (char_len rest) rest))"
  by auto
termination
  by (relation "measure (\<lambda>(n, start, value, rest). length rest)") (auto simp: Let_def)

declare lex_string_go.simps [simp del]

definition lex_string :: "nat \<Rightarrow> string \<Rightarrow> cql_error + cql_token \<times> string" where
  "lex_string n rest = lex_string_go n (n - length rest) [] (tl rest)"

definition two_char_token :: "char \<Rightarrow> char \<Rightarrow> tok option" where
  "two_char_token b c =
     (if b = CHR ''<'' \<and> c = CHR ''>'' then Some T_Ne
      else if b = CHR ''<'' \<and> c = CHR ''='' then Some T_Le
      else if b = CHR ''<'' \<and> c = CHR ''-'' then Some T_ArrowL
      else if b = CHR ''>'' \<and> c = CHR ''='' then Some T_Ge
      else if b = CHR ''-'' \<and> c = CHR ''>'' then Some T_ArrowR
      else if b = CHR ''.'' \<and> c = CHR ''.'' then Some T_DotDot
      else None)"

definition punctuation :: "(char \<times> tok) list" where
  "punctuation =
     [(CHR ''('', T_LParen), (CHR '')'', T_RParen), (CHR ''['', T_LBracket), (CHR '']'', T_RBracket),
      (CHR ''{'', T_LBrace), (CHR ''}'', T_RBrace), (CHR '':'', T_Colon), (CHR '','', T_Comma),
      (CHR ''.'', T_Dot), (CHR ''|'', T_Pipe), (CHR ''@'', T_At), (CHR ''*'', T_Star), (CHR ''='', T_Eq),
      (CHR ''<'', T_Lt), (CHR ''>'', T_Gt), (CHR ''-'', T_Dash)]"

definition unexpected_char :: "nat \<Rightarrow> string \<Rightarrow> cql_error" where
  "unexpected_char n rest =
     (let start = n - length rest;
          ch_len = char_len rest;
          ch = take ch_len rest;
          b = hd rest
      in if b = CHR ''$'' then
           cql_error_new (start, start + ch_len) PlanError
             ''query parameters (`$name`) are not supported in this release (deferred)''
         else if b = CHR ''+'' \<or> b = CHR ''/'' \<or> b = CHR ''%'' then
           cql_error_new (start, start + ch_len) PlanError
             (''arithmetic operator `'' @ ch @ ''` is not supported in this release (arithmetic expressions are deferred)'')
         else cql_error_new (start, start + ch_len) ParseError (''unexpected character `'' @ ch @ ''`''))"

definition next_token :: "nat \<Rightarrow> string \<Rightarrow> cql_error + cql_token \<times> string" where
  "next_token n rest =
     (let start = n - length rest; b = hd rest
      in if is_ident_start b then Inr (lex_ident n rest)
         else if is_digit b then lex_number n rest
         else if b = dquote then lex_string n rest
         else
           case (case tl rest of c # _ \<Rightarrow> two_char_token b c | [] \<Rightarrow> None) of
             Some kind \<Rightarrow> Inr (\<lparr>tok_kind = kind, tok_span = (start, start + 2)\<rparr>, drop 2 rest)
           | None \<Rightarrow>
               (case map_of punctuation b of
                  Some kind \<Rightarrow> Inr (\<lparr>tok_kind = kind, tok_span = (start, start + 1)\<rparr>, drop 1 rest)
                | None \<Rightarrow> Inl (unexpected_char n rest)))"

text \<open>
  Every step of the lexer reads a non-empty text at the head of the rest, and the span of its
  token is the range of that text.
\<close>

definition reads :: "nat \<Rightarrow> string \<Rightarrow> cql_token \<Rightarrow> string \<Rightarrow> bool" where
  "reads n rest t rest' \<longleftrightarrow>
     (\<exists>txt'. rest = txt' @ rest' \<and> txt' \<noteq> []) \<and> (length rest \<le> n \<longrightarrow> tok_span t = (n - length rest, n - length rest')) \<and>
     tok_kind t \<noteq> T_Eof"

lemma skip_trivia_suffix: "\<exists>gap. rest = gap @ skip_trivia rest"
proof (induction rest rule: skip_trivia.induct)
  case (1 rest)
  show ?case
  proof (cases rest)
    case (Cons b bs)
    consider (blank) "b = CHR '' '' \<or> b = CHR 0x09 \<or> b = CHR 0x0D \<or> b = newline"
      | (comment) "\<not> (b = CHR '' '' \<or> b = CHR 0x09 \<or> b = CHR 0x0D \<or> b = newline)"
          "b = CHR ''/'' \<and> (case bs of c # _ \<Rightarrow> c = CHR ''/'' | [] \<Rightarrow> False)"
      | (stop) "skip_trivia rest = rest"
      using Cons by (cases "b = CHR '' '' \<or> b = CHR 0x09 \<or> b = CHR 0x0D \<or> b = newline";
        cases "b = CHR ''/'' \<and> (case bs of c # _ \<Rightarrow> c = CHR ''/'' | [] \<Rightarrow> False)")
        (simp_all add: skip_trivia.simps [of "b # bs"])
    then show ?thesis
    proof cases
      case blank
      then have "\<exists>gap. bs = gap @ skip_trivia bs" using 1(1) Cons by blast
      moreover have "skip_trivia rest = skip_trivia bs" using Cons blank by (subst skip_trivia.simps) simp
      ultimately show ?thesis using Cons by (metis append_Cons)
    next
      case comment
      let ?d = "dropWhile (\<lambda>c. c \<noteq> newline) rest"
      have "\<exists>gap. ?d = gap @ skip_trivia ?d" using 1(2) Cons comment by blast
      moreover have "skip_trivia rest = skip_trivia ?d" using Cons comment by (subst skip_trivia.simps) simp
      ultimately show ?thesis by (metis append.assoc takeWhile_dropWhile_id)
    qed simp
  qed (simp add: skip_trivia.simps)
qed

lemma skip_trivia_length: "length (skip_trivia rest) \<le> length rest"
  using skip_trivia_suffix [of rest] by (metis le_add2 length_append)

lemma keyword_not_eof: "keyword name \<noteq> Some T_Eof"
  by (auto simp: keyword_def keyword_table_def dest!: map_of_SomeD)

lemma keyword_not_text:
  "keyword name \<noteq> Some (T_Ident s)" "keyword name \<noteq> Some (T_Int i)" "keyword name \<noteq> Some (T_Str s)"
  "keyword name \<noteq> Some (T_Float f)"
  by (auto simp: keyword_def keyword_table_def dest!: map_of_SomeD)

lemma lex_ident_reads:
  assumes "rest \<noteq> []"
  shows "reads n rest (fst (lex_ident n rest)) (snd (lex_ident n rest))"
proof -
  have "rest = (hd rest # takeWhile is_ident_continue (tl rest)) @ dropWhile is_ident_continue (tl rest)"
    using assms by simp
  then have "\<exists>txt'. rest = txt' @ dropWhile is_ident_continue (tl rest) \<and> txt' \<noteq> []" by blast
  then show ?thesis
    using keyword_not_eof [of "hd rest # takeWhile is_ident_continue (tl rest)"]
    by (cases "keyword (hd rest # takeWhile is_ident_continue (tl rest))") (simp_all add: reads_def lex_ident_def Let_def)
qed

lemma lex_fraction_suffix: "lex_fraction rest = (fr, rest') \<Longrightarrow> \<exists>txt'. rest = txt' @ rest'"
  by (auto simp: lex_fraction_def split: list.splits if_splits intro: exI [of _ "[]"])
    (metis append_Cons takeWhile_dropWhile_id dropWhile.simps(2))

lemma lex_exponent_suffix: "lex_exponent rest = (expo, rest') \<Longrightarrow> \<exists>txt'. rest = txt' @ rest'"
  unfolding lex_exponent_def Let_def
  by (auto split: list.splits if_splits intro: exI [of _ "[]"])
    (metis append_Cons takeWhile_dropWhile_id)+

lemma lex_number_reads:
  assumes "is_digit (hd rest)" "rest \<noteq> []" "lex_number n rest = Inr (t, rest')"
  shows "reads n rest t rest'"
proof -
  obtain fr rest1 where f: "lex_fraction (dropWhile is_digit rest) = (fr, rest1)" by fastforce
  obtain expo rest2 where e: "lex_exponent rest1 = (expo, rest2)" by fastforce
  obtain u v where uv: "dropWhile is_digit rest = u @ rest1" "rest1 = v @ rest2"
    using lex_fraction_suffix [OF f] lex_exponent_suffix [OF e] by blast
  have "rest = takeWhile is_digit rest @ u @ v @ rest2" using uv by (metis takeWhile_dropWhile_id)
  moreover have "takeWhile is_digit rest \<noteq> []" using assms(1,2) by (cases rest) auto
  ultimately have "\<exists>txt'. rest = txt' @ rest2 \<and> txt' \<noteq> []"
    by (metis append.assoc append_is_Nil_conv)
  moreover have "rest' = rest2" "tok_span t = (n - length rest, n - length rest2)" "tok_kind t \<noteq> T_Eof"
    using assms(3) by (auto simp: lex_number_def Let_def f e split: if_splits)
  ultimately show ?thesis by (simp add: reads_def)
qed

lemma lex_string_quote:
  "lex_string_go n start v (dquote # bs) = Inr (\<lparr>tok_kind = T_Str v, tok_span = (start, n - length bs)\<rparr>, bs)"
  by (subst lex_string_go.simps) simp

lemma lex_string_escape:
  "lex_string_go n start v (backslash # bs) =
     (case bs of
        [] \<Rightarrow> Inl (cql_error_new (start, n) ParseError ''unterminated string literal'')
      | esc # cs \<Rightarrow>
          (case decode_escape esc of
             None \<Rightarrow> Inl (cql_error_new (n - length (backslash # bs), n - length (backslash # bs) + 2) ParseError
               (''invalid string escape `'' @ [backslash] @ latin1_char esc @ ''`''))
           | Some decoded \<Rightarrow> lex_string_go n start (v @ [decoded]) cs))"
  by (subst lex_string_go.simps) (simp add: backslash_def dquote_def)

lemma lex_string_plain:
  "b \<noteq> dquote \<Longrightarrow> b \<noteq> backslash \<Longrightarrow>
    lex_string_go n start v (b # bs) =
      lex_string_go n start (v @ take (char_len (b # bs)) (b # bs)) (drop (char_len (b # bs)) (b # bs))"
  by (subst lex_string_go.simps) simp

lemma lex_string_go_suffix:
  "lex_string_go n start v rest = Inr (t, rest') \<Longrightarrow>
    (\<exists>txt'. rest = txt' @ rest') \<and> tok_span t = (start, n - length rest') \<and> tok_kind t \<noteq> T_Eof"
proof (induction n start v rest rule: lex_string_go.induct)
  case (1 n start v rest)
  obtain b bs where rest: "rest = b # bs" using 1(3) by (cases rest) (simp_all add: lex_string_go.simps)
  consider (quote) "b = dquote" | (escape) "b \<noteq> dquote" "b = backslash" | (plain) "b \<noteq> dquote" "b \<noteq> backslash" by blast
  then show ?case
  proof cases
    case quote
    then show ?thesis using 1(3) by (auto simp: rest lex_string_quote)
  next
    case escape
    then obtain c cs d where c: "bs = c # cs" "decode_escape c = Some d" "lex_string_go n start (v @ [d]) cs = Inr (t, rest')"
      using 1(3) by (auto simp: rest lex_string_escape split: list.splits option.splits)
    then have "\<exists>txt'. cs = txt' @ rest'" "tok_span t = (start, n - length rest')" "tok_kind t \<noteq> T_Eof"
      using 1(1) [OF rest escape c(1,2)] by blast+
    then show ?thesis by (auto simp: rest c(1) intro: exI [of _ "b # c # _"])
  next
    case plain
    have "lex_string_go n start (v @ take (char_len rest) rest) (drop (char_len rest) rest) = Inr (t, rest')"
      using 1(3) by (simp add: rest lex_string_plain [OF plain])
    then have "\<exists>txt'. drop (char_len rest) rest = txt' @ rest'" "tok_span t = (start, n - length rest')" "tok_kind t \<noteq> T_Eof"
      using 1(2) [OF rest plain] by blast+
    then show ?thesis by (metis append.assoc append_take_drop_id)
  qed
qed

lemma punctuation_not_eof: "map_of punctuation b \<noteq> Some T_Eof"
  by (auto simp: punctuation_def dest!: map_of_SomeD)

definition operator_token :: "string \<Rightarrow> (tok \<times> nat) option" where
  "operator_token rest =
     (case (case tl rest of c # _ \<Rightarrow> two_char_token (hd rest) c | [] \<Rightarrow> None) of
        Some kind \<Rightarrow> Some (kind, 2)
      | None \<Rightarrow> map_option (\<lambda>kind. (kind, 1)) (map_of punctuation (hd rest)))"

lemma next_token_operator:
  assumes "\<not> is_ident_start (hd rest)" "\<not> is_digit (hd rest)" "hd rest \<noteq> dquote"
  shows "next_token n rest =
    (case operator_token rest of
       Some (kind, len) \<Rightarrow> Inr (\<lparr>tok_kind = kind, tok_span = (n - length rest, n - length rest + len)\<rparr>, drop len rest)
     | None \<Rightarrow> Inl (unexpected_char n rest))"
  using assms by (simp add: next_token_def operator_token_def Let_def split: option.split list.split)

lemma operator_token_length:
  "rest \<noteq> [] \<Longrightarrow> operator_token rest = Some (kind, len) \<Longrightarrow> 0 < len \<and> len \<le> length rest \<and> kind \<noteq> T_Eof"
  using punctuation_not_eof [of "hd rest"]
  by (cases rest) (auto simp: operator_token_def two_char_token_def split: option.splits list.splits if_splits)

lemma next_token_reads:
  assumes "rest \<noteq> []" "next_token n rest = Inr (t, rest')"
  shows "reads n rest t rest'"
proof -
  consider (ident) "is_ident_start (hd rest)" | (number) "\<not> is_ident_start (hd rest)" "is_digit (hd rest)"
    | (str) "\<not> is_ident_start (hd rest)" "\<not> is_digit (hd rest)" "hd rest = dquote"
    | (operator) "\<not> is_ident_start (hd rest)" "\<not> is_digit (hd rest)" "hd rest \<noteq> dquote" by blast
  then show ?thesis
  proof cases
    case ident
    then have "lex_ident n rest = (t, rest')" using assms(2) by (simp add: next_token_def)
    then show ?thesis using lex_ident_reads [OF assms(1), of n] by simp
  next
    case number
    then show ?thesis using lex_number_reads [of rest n t rest'] assms by (simp add: next_token_def)
  next
    case str
    then have "lex_string_go n (n - length rest) [] (tl rest) = Inr (t, rest')"
      using assms(2) by (simp add: next_token_def lex_string_def)
    from lex_string_go_suffix [OF this] obtain u where "tl rest = u @ rest'"
      and t: "tok_span t = (n - length rest, n - length rest')" "tok_kind t \<noteq> T_Eof" by blast
    then have "rest = (hd rest # u) @ rest'" using assms(1) by (cases rest) simp_all
    then show ?thesis unfolding reads_def using t by blast
  next
    case operator
    then obtain kind len where op: "operator_token rest = Some (kind, len)" "rest' = drop len rest"
      "t = \<lparr>tok_kind = kind, tok_span = (n - length rest, n - length rest + len)\<rparr>"
      using assms(2) by (auto simp: next_token_operator split: option.splits prod.splits)
    have len: "0 < len" "len \<le> length rest" "kind \<noteq> T_Eof" using operator_token_length [OF assms(1) op(1)] by blast+
    then have "rest = take len rest @ rest'" "take len rest \<noteq> []" using op(2) assms(1) by simp_all
    moreover have "length rest \<le> n \<longrightarrow> tok_span t = (n - length rest, n - length rest')" using op len by auto
    ultimately show ?thesis unfolding reads_def using op(3) len(3) by auto
  qed
qed

subsection \<open>The token sequence\<close>

lemma reads_shorter: "reads n rest t rest' \<Longrightarrow> length rest' < length rest"
  by (auto simp: reads_def)

text \<open>A trivial bound on the rest keeps the recursion of the driver within its domain.\<close>

function lex_run :: "nat \<Rightarrow> string \<Rightarrow> cql_error + cql_token list" where
  "lex_run n rest =
     (let rest1 = skip_trivia rest in
      if rest1 = [] then Inr [\<lparr>tok_kind = T_Eof, tok_span = (n, n)\<rparr>]
      else
        case next_token n rest1 of
          Inl err \<Rightarrow> Inl err
        | Inr (t, rest2) \<Rightarrow>
            (case lex_run n rest2 of Inl err \<Rightarrow> Inl err | Inr ts \<Rightarrow> Inr (t # ts)))"
  by pat_completeness auto

termination
proof (relation "measure (\<lambda>(n, rest). length rest)")
  fix n rest rest1 rp t rest2
  assume "rest1 = skip_trivia rest" "rest1 \<noteq> []" "next_token n rest1 = Inr rp" "(t, rest2) = rp"
  then have "length rest2 < length rest1" using next_token_reads reads_shorter by metis
  then show "((n, rest2), n, rest) \<in> measure (\<lambda>(n, rest). length rest)"
    using skip_trivia_length [of rest] \<open>rest1 = skip_trivia rest\<close> by simp
qed simp

declare lex_run.simps [simp del]

definition cql_tokenize :: "string \<Rightarrow> cql_error + cql_token list" where
  "cql_tokenize src = lex_run (length src) src"

lemma lex_run_end: "skip_trivia rest = [] \<Longrightarrow> lex_run n rest = Inr [\<lparr>tok_kind = T_Eof, tok_span = (n, n)\<rparr>]"
  by (subst lex_run.simps) simp

lemma lex_run_step:
  "skip_trivia rest \<noteq> [] \<Longrightarrow> next_token n (skip_trivia rest) = Inr (t, rest') \<Longrightarrow>
    lex_run n rest = (case lex_run n rest' of Inl err \<Rightarrow> Inl err | Inr ts \<Rightarrow> Inr (t # ts))"
  by (subst lex_run.simps) (simp add: Let_def)

lemma lex_run_fail:
  "skip_trivia rest \<noteq> [] \<Longrightarrow> next_token n (skip_trivia rest) = Inl err \<Longrightarrow> lex_run n rest = Inl err"
  by (subst lex_run.simps) (simp add: Let_def)

definition eof_token :: "nat \<Rightarrow> cql_token" where
  "eof_token n = \<lparr>tok_kind = T_Eof, tok_span = (n, n)\<rparr>"

text \<open>A token sequence as the parser expects it: a single end marker, at the end.\<close>

definition ends_with_eof :: "cql_token list \<Rightarrow> bool" where
  "ends_with_eof ts \<longleftrightarrow> ts \<noteq> [] \<and> tok_kind (last ts) = T_Eof \<and> (\<forall>t \<in> set (butlast ts). tok_kind t \<noteq> T_Eof)"

definition span_before :: "cql_token \<Rightarrow> cql_token \<Rightarrow> bool" where
  "span_before a b \<longleftrightarrow> snd (tok_span a) \<le> fst (tok_span b)"

lemma lex_run_spans:
  "lex_run n rest = Inr ts \<Longrightarrow> length rest \<le> n \<Longrightarrow>
    ends_with_eof ts \<and> last ts = eof_token n \<and> sorted_wrt span_before ts \<and>
    (\<forall>t \<in> set (butlast ts). n - length rest \<le> fst (tok_span t) \<and> fst (tok_span t) < snd (tok_span t) \<and> snd (tok_span t) \<le> n)"
proof (induction n rest arbitrary: ts rule: lex_run.induct)
  case (1 n rest)
  show ?case
  proof (cases "skip_trivia rest = []")
    case True
    then show ?thesis using 1(2) by (auto simp: lex_run_end ends_with_eof_def eof_token_def)
  next
    case False
    obtain t rest2 where step: "next_token n (skip_trivia rest) = Inr (t, rest2)"
      using 1(2) lex_run_fail [OF False] by (cases "next_token n (skip_trivia rest)") auto
    obtain ts' where ts': "lex_run n rest2 = Inr ts'" "ts = t # ts'"
      using 1(2) lex_run_step [OF False step] by (cases "lex_run n rest2") auto
    have shorter: "length rest2 < length (skip_trivia rest)" "length (skip_trivia rest) \<le> length rest"
      using next_token_reads [OF False step] reads_shorter skip_trivia_length by blast+
    then have ih: "ends_with_eof ts'" "last ts' = eof_token n" "sorted_wrt span_before ts'"
      "\<forall>t \<in> set (butlast ts'). n - length rest2 \<le> fst (tok_span t) \<and> fst (tok_span t) < snd (tok_span t) \<and> snd (tok_span t) \<le> n"
      using 1(1) [OF refl False step refl ts'(1)] 1(3) by auto
    have span: "tok_span t = (n - length (skip_trivia rest), n - length rest2)" "tok_kind t \<noteq> T_Eof"
      using next_token_reads [OF False step] shorter 1(3) by (auto simp: reads_def)
    have "\<forall>u \<in> set ts'. span_before t u"
    proof
      fix u
      assume "u \<in> set ts'"
      moreover have "ts' = butlast ts' @ [eof_token n]"
        using ih(1,2) by (metis append_butlast_last_id ends_with_eof_def)
      ultimately have "u = eof_token n \<or> u \<in> set (butlast ts')" by (metis Un_iff empty_iff list.set(1) set_ConsD set_append)
      then show "span_before t u" using ih(4) span(1) by (auto simp: span_before_def eof_token_def)
    qed
    moreover have "ts' \<noteq> []" using ih(1) by (simp add: ends_with_eof_def)
    ultimately show ?thesis
      using ih span shorter 1(3) by (auto simp: ts'(2) ends_with_eof_def)
  qed
qed

subsection \<open>Printing tokens\<close>

fun token_text :: "tok \<Rightarrow> string" where
  "token_text T_Match = ''MATCH''" | "token_text T_Where = ''WHERE''" | "token_text T_Return = ''RETURN''"
| "token_text T_With = ''WITH''" | "token_text T_Call = ''CALL''" | "token_text T_Yield = ''YIELD''"
| "token_text T_Order = ''ORDER''" | "token_text T_By = ''BY''" | "token_text T_As = ''AS''"
| "token_text T_Distinct = ''DISTINCT''" | "token_text T_Limit = ''LIMIT''" | "token_text T_Asc = ''ASC''"
| "token_text T_Desc = ''DESC''" | "token_text T_And = ''AND''" | "token_text T_Or = ''OR''"
| "token_text T_Not = ''NOT''" | "token_text T_In = ''IN''" | "token_text T_None = ''NONE''"
| "token_text T_Any = ''ANY''" | "token_text T_All = ''ALL''" | "token_text T_True = ''true''"
| "token_text T_False = ''false''" | "token_text T_Null = ''null''" | "token_text T_LParen = ''(''"
| "token_text T_RParen = '')''" | "token_text T_LBracket = ''[''" | "token_text T_RBracket = '']''"
| "token_text T_LBrace = ''{''" | "token_text T_RBrace = ''}''" | "token_text T_Colon = '':''"
| "token_text T_Comma = '',''" | "token_text T_Dot = ''.''" | "token_text T_Pipe = ''|''"
| "token_text T_At = ''@''" | "token_text T_Star = ''*''" | "token_text T_DotDot = ''..''"
| "token_text T_Eq = ''=''" | "token_text T_Ne = ''<>''" | "token_text T_Lt = ''<''" | "token_text T_Le = ''<=''"
| "token_text T_Gt = ''>''" | "token_text T_Ge = ''>=''" | "token_text T_Dash = ''-''"
| "token_text T_ArrowR = ''->''" | "token_text T_ArrowL = ''<-''"
| "token_text _ = []"

definition escape_string :: "string \<Rightarrow> string" where
  "escape_string s = concat (map (\<lambda>c. if c = dquote \<or> c = backslash then [backslash, c] else [c]) s)"

fun spell :: "tok \<Rightarrow> string" where
  "spell (T_Ident s) = s"
| "spell (T_Int i) = show_nat (nat i)"
| "spell (T_Str s) = [dquote] @ escape_string s @ [dquote]"
| "spell k = token_text k"

text \<open>Valid UTF-8, as far as the lexer sees it: no byte inside a character is an ASCII byte.\<close>

function utf8_ok :: "string \<Rightarrow> bool" where
  "utf8_ok s =
     (if s = [] then True
      else let k = char_len s
        in k \<le> length s \<and> (\<forall>c \<in> set (take (k - 1) (tl s)). 128 \<le> (of_char c :: nat)) \<and> utf8_ok (drop k s))"
  by auto
termination
  by (relation "measure length") (auto simp: Let_def neq_Nil_conv)

declare utf8_ok.simps [simp del]

fun wf_token :: "tok \<Rightarrow> bool" where
  "wf_token (T_Ident s) = (s \<noteq> [] \<and> is_ident_start (hd s) \<and> list_all is_ident_continue s \<and> keyword s = None)"
| "wf_token (T_Int i) = (0 \<le> i \<and> i \<le> i64_max)"
| "wf_token (T_Str s) = utf8_ok s"
| "wf_token (T_Float f) = False"
| "wf_token T_Eof = False"
| "wf_token _ = True"

lemma digit_facts [simp]:
  "is_digit c \<Longrightarrow> \<not> is_ident_start c" "\<not> is_digit (CHR '' '')" "\<not> is_ident_continue (CHR '' '')"
  by (auto simp: is_digit_def is_ident_start_def is_ident_continue_def less_eq_char_def)

lemma show_nat_digits: "list_all is_digit (show_nat m) \<and> digits_value (show_nat m) = int m"
proof (induction m rule: show_nat.induct)
  case (1 m)
  have digit: "is_digit (digit_char d) \<and> of_char (digit_char d) = (48 + int d)" if "d < 10" for d
  proof -
    have "d \<in> {0, 1, 2, 3, 4, 5, 6, 7, 8, 9}" using that by auto
    then show ?thesis by (auto simp: digit_char_def is_digit_def less_eq_char_def)
  qed
  show ?case
  proof (cases "m < 10")
    case True
    then show ?thesis using digit [of m] by (simp add: show_nat.simps [of m] digits_value_def)
  next
    case False
    have "10 * int (m div 10) + int (m mod 10) = int m" by presburger
    then show ?thesis using 1 digit [of "m mod 10"] False
      by (subst (1 2) show_nat.simps) (simp add: digits_value_def del: of_nat_mod)
  qed
qed

definition two_char_tokens :: "(char \<times> char \<times> tok) list" where
  "two_char_tokens =
     [(CHR ''<'', CHR ''>'', T_Ne), (CHR ''<'', CHR ''='', T_Le), (CHR ''<'', CHR ''-'', T_ArrowL),
      (CHR ''>'', CHR ''='', T_Ge), (CHR ''-'', CHR ''>'', T_ArrowR), (CHR ''.'', CHR ''.'', T_DotDot)]"

lemma wf_token_cases:
  assumes "wf_token k"
  obtains u where "(u, k) \<in> set keyword_table" | b where "(b, k) \<in> set punctuation"
    | b c where "(b, c, k) \<in> set two_char_tokens"
    | s where "k = T_Ident s" | i where "k = T_Int i" | s where "k = T_Str s"
  using assms by (cases k) (simp_all add: keyword_table_def punctuation_def two_char_tokens_def)

lemma keyword_spelling:
  "list_all (\<lambda>(u, k). spell k \<noteq> [] \<and> is_ident_start (hd (spell k)) \<and> list_all is_ident_continue (spell k)
     \<and> keyword (spell k) = Some k) keyword_table"
  by code_simp

lemma punctuation_spelling:
  "list_all (\<lambda>(b, k). spell k = [b] \<and> map_of punctuation b = Some k \<and> \<not> is_ident_start b \<and> \<not> is_digit b \<and> b \<noteq> dquote)
     punctuation"
  by code_simp

lemma two_char_spelling:
  "list_all (\<lambda>(b, c, k). spell k = [b, c] \<and> two_char_token b c = Some k \<and> \<not> is_ident_start b \<and> \<not> is_digit b \<and> b \<noteq> dquote)
     two_char_tokens"
  by code_simp

lemma takeWhile_spell: "list_all P s \<Longrightarrow> \<not> P c \<Longrightarrow> takeWhile P (s @ c # r) = s \<and> dropWhile P (s @ c # r) = c # r"
  by (induction s) simp_all

lemma next_token_ident:
  assumes "s \<noteq> []" "is_ident_start (hd s)" "list_all is_ident_continue s"
  shows "\<exists>sp. next_token n (s @ CHR '' '' # r) =
    Inr (\<lparr>tok_kind = (case keyword s of Some k \<Rightarrow> k | None \<Rightarrow> T_Ident s), tok_span = sp\<rparr>, CHR '' '' # r)"
proof -
  obtain c cs where s: "s = c # cs" using assms(1) by (cases s) auto
  have "takeWhile is_ident_continue (cs @ CHR '' '' # r) = cs" "dropWhile is_ident_continue (cs @ CHR '' '' # r) = CHR '' '' # r"
    using takeWhile_spell [of is_ident_continue cs "CHR '' ''" r] assms(3) by (simp_all add: s)
  then show ?thesis using assms(2) by (simp add: s next_token_def Let_def lex_ident_def cong: option.case_cong)
qed

lemma next_token_int:
  assumes "0 \<le> i" "i \<le> i64_max"
  shows "\<exists>sp. next_token n (show_nat (nat i) @ CHR '' '' # r) = Inr (\<lparr>tok_kind = T_Int i, tok_span = sp\<rparr>, CHR '' '' # r)"
proof -
  let ?s = "show_nat (nat i)"
  have d: "list_all is_digit ?s" "digits_value ?s = i" using show_nat_digits [of "nat i"] assms(1) by simp_all
  obtain c cs where s: "?s = c # cs" by (cases ?s) auto
  have "takeWhile is_digit (?s @ CHR '' '' # r) = ?s" "dropWhile is_digit (?s @ CHR '' '' # r) = CHR '' '' # r"
    using takeWhile_spell [of is_digit ?s "CHR '' ''" r] d(1) by simp_all
  moreover have "lex_fraction (CHR '' '' # r) = (None, CHR '' '' # r)" "lex_exponent (CHR '' '' # r) = (None, CHR '' '' # r)"
    by (simp_all add: lex_fraction_def lex_exponent_def split: list.split)
  moreover have "is_digit (hd (?s @ CHR '' '' # r))" using d(1) by (simp add: s)
  ultimately show ?thesis using d(2) assms(2) by (simp add: next_token_def Let_def lex_number_def)
qed

lemma utf8_ok_Cons:
  "utf8_ok (c # s) \<Longrightarrow> char_len (c # s) \<le> length (c # s) \<and>
    (\<forall>c \<in> set (take (char_len (c # s) - 1) s). 128 \<le> (of_char c :: nat)) \<and> utf8_ok (drop (char_len (c # s)) (c # s))"
  by (subst (asm) utf8_ok.simps) (simp add: Let_def)

lemma char_len_append: "s \<noteq> [] \<Longrightarrow> char_len (s @ t) = char_len s"
  by (cases s) simp_all

lemma escape_clean: "\<forall>c \<in> set s. c \<noteq> dquote \<and> c \<noteq> backslash \<Longrightarrow> escape_string s = s"
  by (induction s) (simp_all add: escape_string_def)

lemma escape_append: "escape_string (s @ t) = escape_string s @ escape_string t"
  by (simp add: escape_string_def)

lemma lex_string_escaped:
  "utf8_ok s \<Longrightarrow> \<exists>sp. lex_string_go n start v (escape_string s @ dquote # r) = Inr (\<lparr>tok_kind = T_Str (v @ s), tok_span = sp\<rparr>, r)"
proof (induction s arbitrary: v rule: utf8_ok.induct)
  case (1 s)
  show ?case
  proof (cases s)
    case (Cons c cs)
    let ?k = "char_len s"
    have ok: "?k \<le> length s" "\<forall>c \<in> set (take (?k - 1) cs). 128 \<le> (of_char c :: nat)" "utf8_ok (drop ?k s)"
      using utf8_ok_Cons [of c cs] 1(2) Cons by simp_all
    have k: "0 < ?k" by (simp add: Cons Let_def)
    show ?thesis
    proof (cases "c = dquote \<or> c = backslash")
      case True
      then have k1: "?k = 1" by (auto simp: Cons dquote_def backslash_def)
      have "\<exists>sp. lex_string_go n start (v @ [c]) (escape_string cs @ dquote # r) = Inr (\<lparr>tok_kind = T_Str ((v @ [c]) @ cs), tok_span = sp\<rparr>, r)"
        using 1(1) [OF _ refl ok(3), of "v @ [c]"] Cons k1 by simp
      moreover have "escape_string s = backslash # c # escape_string cs" using True by (simp add: Cons escape_string_def)
      moreover have "decode_escape c = Some c" using True by (auto simp: decode_escape_def)
      ultimately show ?thesis by (simp add: lex_string_escape Cons)
    next
      case False
      have split: "s = take ?k s @ drop ?k s" by simp
      have "take ?k s = c # take (?k - 1) cs" using k by (simp add: Cons take_Cons')
      moreover have "\<forall>x \<in> set (take (?k - 1) cs). x \<noteq> dquote \<and> x \<noteq> backslash" using ok(2) by (auto simp: dquote_def backslash_def)
      ultimately have clean: "escape_string (take ?k s) = take ?k s" using False by (intro escape_clean) auto
      have esc: "escape_string s @ dquote # r = take ?k s @ escape_string (drop ?k s) @ dquote # r"
        using escape_append [of "take ?k s" "drop ?k s"] clean by simp
      have hd: "escape_string s @ dquote # r = c # tl (escape_string s @ dquote # r)"
        unfolding esc using k by (simp add: Cons take_Cons')
      have len: "char_len (escape_string s @ dquote # r) = ?k"
        unfolding esc using k ok(1) by (simp add: char_len_append Cons take_Cons')
      have cut: "take ?k (escape_string s @ dquote # r) = take ?k s"
        "drop ?k (escape_string s @ dquote # r) = escape_string (drop ?k s) @ dquote # r"
        unfolding esc using ok(1) by simp_all
      have "lex_string_go n start v (escape_string s @ dquote # r)
          = lex_string_go n start (v @ take ?k s) (escape_string (drop ?k s) @ dquote # r)"
        using lex_string_plain [of c n start v "tl (escape_string s @ dquote # r)"] False
        unfolding hd [symmetric] len cut by blast
      moreover have "\<exists>sp. lex_string_go n start (v @ take ?k s) (escape_string (drop ?k s) @ dquote # r)
          = Inr (\<lparr>tok_kind = T_Str ((v @ take ?k s) @ drop ?k s), tok_span = sp\<rparr>, r)"
        by (rule 1(1) [OF _ refl ok(3)]) (simp add: Cons)
      ultimately show ?thesis by simp
    qed
  qed (simp add: escape_string_def lex_string_quote)
qed

lemma next_token_spell:
  assumes "wf_token k"
  shows "\<exists>sp. next_token n (spell k @ CHR '' '' # r) = Inr (\<lparr>tok_kind = k, tok_span = sp\<rparr>, CHR '' '' # r)"
  using assms
proof (cases rule: wf_token_cases)
  case (1 u)
  then have "spell k \<noteq> []" "is_ident_start (hd (spell k))" "list_all is_ident_continue (spell k)" "keyword (spell k) = Some k"
    using keyword_spelling by (auto simp: list_all_iff)
  then show ?thesis using next_token_ident [of "spell k" n r] by simp
next
  case (2 b)
  then have "spell k = [b]" "map_of punctuation b = Some k" "\<not> is_ident_start b" "\<not> is_digit b" "b \<noteq> dquote"
    using punctuation_spelling by (auto simp: list_all_iff)
  moreover have "two_char_token b (CHR '' '') = None" by (simp add: two_char_token_def)
  ultimately show ?thesis by (simp add: next_token_operator operator_token_def)
next
  case (3 b c)
  then have "spell k = [b, c]" "two_char_token b c = Some k" "\<not> is_ident_start b" "\<not> is_digit b" "b \<noteq> dquote"
    using two_char_spelling by (auto simp: list_all_iff)
  then show ?thesis by (simp add: next_token_operator operator_token_def)
next
  case (4 s)
  then show ?thesis using assms next_token_ident [of s n r] by simp
next
  case (5 i)
  then show ?thesis using assms next_token_int [of i n r] by simp
next
  case (6 s)
  have "\<not> is_ident_start dquote" "\<not> is_digit dquote"
    by (simp_all add: dquote_def is_ident_start_def is_digit_def less_eq_char_def)
  then show ?thesis using 6 assms lex_string_escaped [of s n _ "[]" "CHR '' '' # r"]
    by (simp add: next_token_def Let_def lex_string_def)
qed

definition spell_all :: "tok list \<Rightarrow> string" where
  "spell_all ks = concat (map (\<lambda>k. spell k @ '' '') ks)"

lemma skip_blank: "skip_trivia (CHR '' '' # r) = skip_trivia r"
  by (subst skip_trivia.simps) simp

lemma skip_trivia_stop:
  "b \<notin> {CHR '' '', CHR 0x09, CHR 0x0D, newline, CHR ''/''} \<Longrightarrow> skip_trivia (b # r) = b # r"
  by (subst skip_trivia.simps) simp

lemma spell_head:
  assumes "wf_token k"
  shows "spell k \<noteq> [] \<and> hd (spell k) \<notin> {CHR '' '', CHR 0x09, CHR 0x0D, newline, CHR ''/''}"
proof -
  have ident: "is_ident_start c \<Longrightarrow> c \<notin> {CHR '' '', CHR 0x09, CHR 0x0D, newline, CHR ''/''}" for c
    by (auto simp: is_ident_start_def less_eq_char_def newline_def)
  have digit: "is_digit c \<Longrightarrow> c \<notin> {CHR '' '', CHR 0x09, CHR 0x0D, newline, CHR ''/''}" for c
    by (auto simp: is_digit_def less_eq_char_def newline_def)
  from assms show ?thesis
  proof (cases rule: wf_token_cases)
    case (1 u)
    then show ?thesis using keyword_spelling ident by (auto simp: list_all_iff)
  next
    case (2 b)
    then show ?thesis by (auto simp: punctuation_def newline_def)
  next
    case (3 b c)
    then show ?thesis by (auto simp: two_char_tokens_def newline_def)
  next
    case (4 s)
    then show ?thesis using assms ident [of "hd s"] by simp
  next
    case (5 i)
    obtain c cs where "show_nat (nat i) = c # cs" by (cases "show_nat (nat i)") auto
    then show ?thesis using 5 digit [of c] show_nat_digits [of "nat i"] by simp
  next
    case (6 s)
    then show ?thesis by (auto simp: dquote_def newline_def)
  qed
qed

lemma lex_run_spell:
  "\<forall>k \<in> set ks. wf_token k \<Longrightarrow>
    \<exists>ts. lex_run n (spell_all ks) = Inr ts \<and> map tok_kind ts = ks @ [T_Eof] \<and>
      (\<exists>ts. lex_run n (CHR '' '' # spell_all ks) = Inr ts \<and> map tok_kind ts = ks @ [T_Eof])"
proof (induction ks)
  case Nil
  have "lex_run n (spell_all []) = Inr [eof_token n]" "lex_run n (CHR '' '' # spell_all []) = Inr [eof_token n]"
    by (simp_all add: lex_run_end skip_blank skip_trivia.simps spell_all_def eof_token_def)
  then show ?case by (simp add: eof_token_def)
next
  case (Cons k ks)
  obtain ts where ts: "lex_run n (CHR '' '' # spell_all ks) = Inr ts" "map tok_kind ts = ks @ [T_Eof]"
    using Cons by auto
  obtain sp where sp: "next_token n (spell k @ CHR '' '' # spell_all ks) = Inr (\<lparr>tok_kind = k, tok_span = sp\<rparr>, CHR '' '' # spell_all ks)"
    using next_token_spell [of k n "spell_all ks"] Cons.prems by auto
  have text': "spell_all (k # ks) = spell k @ CHR '' '' # spell_all ks" by (simp add: spell_all_def)
  have stop: "skip_trivia (spell k @ CHR '' '' # spell_all ks) = spell k @ CHR '' '' # spell_all ks"
    using spell_head [of k] Cons.prems skip_trivia_stop [of "hd (spell k)" "tl (spell k) @ CHR '' '' # spell_all ks"]
    by (cases "spell k") auto
  have "lex_run n (spell_all (k # ks)) = Inr (\<lparr>tok_kind = k, tok_span = sp\<rparr> # ts)"
    "lex_run n (CHR '' '' # spell_all (k # ks)) = Inr (\<lparr>tok_kind = k, tok_span = sp\<rparr> # ts)"
    unfolding text' by (subst lex_run_step [where rest' = "CHR '' '' # spell_all ks" and t = "\<lparr>tok_kind = k, tok_span = sp\<rparr>"];
      simp add: stop skip_blank sp ts(1))+
  then show ?case using ts(2) by simp
qed

end
