(* ===== verification/Cql_Ast.thy ===== *)
theory Cql_Ast
  imports Cql_Token
begin

text \<open>
  The syntax tree of the query language (cgx-cql/src/ast.rs), and the text of floats in messages
  and column names. A \<open>u32\<close> bound and the \<open>u64\<close> limit are naturals; the parser checks their range.
\<close>

record 'a spanned =
  sv_value :: 'a
  sv_span :: byte_span

definition spanned_new :: "'a \<Rightarrow> byte_span \<Rightarrow> 'a spanned" where
  "spanned_new v sp = \<lparr>sv_value = v, sv_span = sp\<rparr>"

record prop_entry =
  prop_key :: "string spanned"
  prop_value :: cql_value

record node_pat =
  nd_var :: "string option"
  nd_label :: "string spanned option"
  nd_props :: "prop_entry list"

datatype ast_direction = AstForward | AstBackward

record var_len =
  vl_min :: "nat option"
  vl_max :: "nat option"

record rel_pat =
  rl_var :: "string option"
  rl_direction :: ast_direction
  rl_types :: "string spanned list"
  rl_var_len :: "var_len option"
  rl_props :: "prop_entry list"

record path_pattern =
  pp_path_var :: "string option"
  pp_start :: node_pat
  pp_steps :: "(rel_pat \<times> node_pat) list"

datatype quantifier_kind = QNone | QAny | QAll

datatype bin_op = BEq | BNe | BLt | BLe | BGt | BGe | BIn | BAnd | BOr

datatype expr =
    ELiteral cql_value
  | EProperty "string spanned" "string spanned list"
  | ECall "string spanned" "expr list"
  | EListComp string expr "expr option" expr
  | EQuantifier quantifier_kind string expr expr
  | EPattern bool path_pattern
  | EBinary bin_op expr expr byte_span
  | ENot expr

record match_clause =
  mc_patterns :: "path_pattern list"
  mc_where :: "expr option"

record yield_item =
  yi_name :: "string spanned"
  yi_alias :: "string option"

record call_clause =
  cl_proc :: "string spanned"
  cl_args :: "expr list"
  cl_yields :: "yield_item list"
  cl_where :: "expr option"

datatype reading_clause = RMatch match_clause | RCall call_clause

record return_item =
  ri_expr :: expr
  ri_alias :: "string option"

record order_by =
  ob_expr :: expr
  ob_descending :: bool

record return_clause =
  rc_distinct :: bool
  rc_items :: "return_item list"
  rc_order_by :: "order_by list"
  rc_limit :: "nat option"

record with_clause =
  wi_distinct :: bool
  wi_items :: "return_item list"
  wi_order_by :: "order_by list"
  wi_limit :: "nat option"
  wi_where :: "expr option"

record query_part =
  qp_reading :: "reading_clause list"
  qp_ret :: "return_clause option"
  qp_with :: "with_clause option"

record query =
  q_parts :: "query_part list"

subsection \<open>Floats and strings as text\<close>

text \<open>
  \<open>Display\<close> of an \<open>f64\<close>: the fewest significant digits that read back as the same double, the
  nearest such number, without an exponent.
\<close>

fun scale_up :: "nat \<Rightarrow> rat \<Rightarrow> nat" where
  "scale_up 0 q = 0"
| "scale_up (Suc n) q = (if 1 \<le> q then 0 else Suc (scale_up n (q * 10)))"

definition decimal_exponent :: "rat \<Rightarrow> int" where
  "decimal_exponent q =
     (if 1 \<le> q then int (length (show_nat (nat \<lfloor>q\<rfloor>))) - 1 else - int (scale_up 330 q))"

definition rat_power10 :: "int \<Rightarrow> rat" where
  "rat_power10 k = (if 0 \<le> k then 10 ^ nat k else 1 / 10 ^ nat (- k))"

definition reads_back :: "rat \<Rightarrow> rat \<Rightarrow> bool" where
  "reads_back q c = (let (n, d) = quotient_of c in f64_of_ratio n d = F_Fin q)"

text \<open>\<open>k\<close> digits of \<open>q\<close>, rounded down or up, whichever reads back and is nearer.\<close>

definition digits_at :: "rat \<Rightarrow> nat \<Rightarrow> int option" where
  "digits_at q k =
     (let unit = rat_power10 (decimal_exponent q - int k + 1);
          low = \<lfloor>q / unit\<rfloor>;
          near = (if q / unit - of_int low \<le> of_int (low + 1) - q / unit then [low, low + 1] else [low + 1, low])
      in find (\<lambda>m. reads_back q (of_int m * unit)) near)"

fun shortest_digits :: "rat \<Rightarrow> nat \<Rightarrow> nat \<Rightarrow> int \<times> nat" where
  "shortest_digits q 0 k = (\<lfloor>q / rat_power10 (decimal_exponent q - int k + 1)\<rfloor>, k)"
| "shortest_digits q (Suc n) k = (case digits_at q k of Some m \<Rightarrow> (m, k) | None \<Rightarrow> shortest_digits q n (Suc k))"

definition show_positional :: "string \<Rightarrow> int \<Rightarrow> string" where
  "show_positional ds e =
     (if int (length ds) \<le> e + 1 then ds @ replicate (nat (e + 1) - length ds) (CHR ''0'')
      else if 0 \<le> e then take (nat (e + 1)) ds @ ''.'' @ drop (nat (e + 1)) ds
      else ''0.'' @ replicate (nat (- e - 1)) (CHR ''0'') @ ds)"

definition strip_zeros :: "string \<Rightarrow> string" where
  "strip_zeros ds = rev (dropWhile (\<lambda>c. c = CHR ''0'') (rev ds))"

definition show_rat_f64 :: "rat \<Rightarrow> string" where
  "show_rat_f64 q =
     (if q = 0 then ''0''
      else
        let (m, k) = shortest_digits q 17 1;
            ds = show_nat (nat m)
        in show_positional (strip_zeros ds) (decimal_exponent q + (int (length ds) - int k)))"

fun show_f64 :: "f64 \<Rightarrow> string" where
  "show_f64 F_NaN = ''NaN''"
| "show_f64 (F_Inf pos) = (if pos then ''inf'' else ''-inf'')"
| "show_f64 (F_Fin q) = (if q < 0 then ''-'' @ show_rat_f64 (- q) else show_rat_f64 q)"

text \<open>\<open>Display\<close> of an \<open>i64\<close>.\<close>

definition show_int :: "int \<Rightarrow> string" where
  "show_int i = (if i < 0 then ''-'' @ show_nat (nat (- i)) else show_nat (nat i))"

text \<open>
  \<open>Debug\<close> of a \<open>str\<close>: the escapes of \<open>char::escape_debug\<close> on ASCII, with the double quote escaped
  and the single quote not. Characters beyond ASCII are taken to be printable.
\<close>

definition debug_str :: "string \<Rightarrow> string" where
  "debug_str s =
     [dquote] @
     concat (map (\<lambda>c.
        let n = (of_char c :: nat) in
        if c = dquote \<or> c = backslash then [backslash, c]
        else if n = 0 then [backslash, CHR ''0'']
        else if n = 9 then [backslash, CHR ''t'']
        else if n = 10 then [backslash, CHR ''n'']
        else if n = 13 then [backslash, CHR ''r'']
        else if n < 32 \<or> n = 127 then [backslash, CHR ''u'', CHR 0x7B] @ show_hex n @ [CHR 0x7D]
        else [c]) s) @
     [dquote]"


end
