(* ===== verification/Cql_Parser.thy ===== *)
theory Cql_Parser
  imports Cql_Ast
begin

text \<open>
  The recursive-descent parser (cgx-cql/src/parser.rs).

  The cursor is the list of tokens still to read; it always ends with the end marker, which no
  step consumes. A parser returns the parsed value with the rest of the tokens, or an error. The
  nesting of expressions and lists is bounded by a fuel argument; running out of it is a third
  outcome, and the fuel that \<open>cql_parse\<close> passes is shown to be enough.
\<close>

datatype 'a reply = Parsed 'a "cql_token list" | Failed cql_error | OutOfFuel

fun and_then :: "'a reply \<Rightarrow> ('a \<Rightarrow> cql_token list \<Rightarrow> 'b reply) \<Rightarrow> 'b reply" where
  "and_then (Parsed x ts) f = f x ts"
| "and_then (Failed err) f = Failed err"
| "and_then OutOfFuel f = OutOfFuel"

fun describe_token :: "tok \<Rightarrow> string" where
  "describe_token T_Eof = ''end of input''"
| "describe_token (T_Ident s) = ''identifier `'' @ s @ ''`''"
| "describe_token (T_Int n) = ''integer `'' @ show_int n @ ''`''"
| "describe_token (T_Float f) = ''float `'' @ show_f64 f @ ''`''"
| "describe_token (T_Str s) = ''string '' @ debug_str s"
| "describe_token k = ''`'' @ token_text k @ ''`''"

subsection \<open>The token cursor\<close>

fun peek :: "cql_token list \<Rightarrow> tok" where
  "peek (t # _) = tok_kind t"
| "peek [] = T_Eof"

fun peek_span :: "cql_token list \<Rightarrow> byte_span" where
  "peek_span (t # _) = tok_span t"
| "peek_span [] = (0, 0)"

definition bump :: "cql_token list \<Rightarrow> cql_token list" where
  "bump ts = (if peek ts = T_Eof then ts else tl ts)"

definition eat :: "tok \<Rightarrow> cql_token list \<Rightarrow> bool \<times> cql_token list" where
  "eat kind ts = (if peek ts = kind then (True, tl ts) else (False, ts))"

definition err_here :: "cql_token list \<Rightarrow> string \<Rightarrow> cql_error" where
  "err_here ts msg = cql_error_new (peek_span ts) ParseError msg"

definition expect :: "tok \<Rightarrow> string \<Rightarrow> cql_token list \<Rightarrow> cql_token reply" where
  "expect kind what ts =
     (if peek ts = kind then Parsed (hd ts) (bump ts)
      else Failed (err_here ts (''expected '' @ what @ '', found '' @ describe_token (peek ts))))"

definition expect_ident :: "string \<Rightarrow> cql_token list \<Rightarrow> string spanned reply" where
  "expect_ident what ts =
     (case peek ts of
        T_Ident name \<Rightarrow> Parsed (spanned_new name (peek_span ts)) (bump ts)
      | other \<Rightarrow> Failed (err_here ts (''expected '' @ what @ '', found '' @ describe_token other)))"

definition parse_opt_ident :: "cql_token list \<Rightarrow> string option \<times> cql_token list" where
  "parse_opt_ident ts = (case peek ts of T_Ident name \<Rightarrow> (Some name, bump ts) | _ \<Rightarrow> (None, ts))"

text \<open>
  The loop \<open>vec![p()?]; while eat(sep) { push(p()?) }\<close> that the grammar repeats for patterns, types,
  arguments, columns and sort keys.
\<close>

fun sep_rest :: "tok \<Rightarrow> (cql_token list \<Rightarrow> 'a reply) \<Rightarrow> nat \<Rightarrow> cql_token list \<Rightarrow> 'a list reply" where
  "sep_rest sep p 0 ts = OutOfFuel"
| "sep_rest sep p (Suc n) ts =
     (let (more', ts1) = eat sep ts
      in if more' then and_then (p ts1) (\<lambda>x ts2. and_then (sep_rest sep p n ts2) (\<lambda>xs ts3. Parsed (x # xs) ts3))
         else Parsed [] ts)"

definition sep_list :: "tok \<Rightarrow> (cql_token list \<Rightarrow> 'a reply) \<Rightarrow> nat \<Rightarrow> cql_token list \<Rightarrow> 'a list reply" where
  "sep_list sep p n ts = and_then (p ts) (\<lambda>x ts1. and_then (sep_rest sep p n ts1) (\<lambda>xs ts2. Parsed (x # xs) ts2))"

subsection \<open>Literals\<close>

fun parse_literal :: "nat \<Rightarrow> cql_token list \<Rightarrow> cql_value reply"
  and parse_list_literal :: "nat \<Rightarrow> cql_token list \<Rightarrow> cql_value reply" where
  "parse_literal 0 ts = OutOfFuel"
| "parse_literal (Suc n) ts =
     (case peek ts of
        T_Str s \<Rightarrow> Parsed (VStr s) (bump ts)
      | T_Int i \<Rightarrow> Parsed (VInt i) (bump ts)
      | T_Float f \<Rightarrow> Parsed (VFloat f) (bump ts)
      | T_True \<Rightarrow> Parsed (VBool True) (bump ts)
      | T_False \<Rightarrow> Parsed (VBool False) (bump ts)
      | T_Null \<Rightarrow> Parsed VNull (bump ts)
      | T_LBracket \<Rightarrow> parse_list_literal n ts
      | other \<Rightarrow> Failed (err_here ts (''expected a literal, found '' @ describe_token other)))"
| "parse_list_literal 0 ts = OutOfFuel"
| "parse_list_literal (Suc n) ts =
     and_then (expect T_LBracket ''`[`'' ts) (\<lambda>_ ts1.
       and_then (if peek ts1 \<noteq> T_RBracket then sep_list T_Comma (parse_literal n) n ts1 else Parsed [] ts1) (\<lambda>items ts2.
         and_then (expect T_RBracket ''`]` to close the list literal'' ts2) (\<lambda>_ ts3. Parsed (VList items) ts3)))"

definition parse_prop_entry :: "nat \<Rightarrow> cql_token list \<Rightarrow> prop_entry reply" where
  "parse_prop_entry n ts =
     and_then (expect_ident ''property key'' ts) (\<lambda>key ts1.
       and_then (expect T_Colon ''`:` after property key'' ts1) (\<lambda>_ ts2.
         and_then (parse_literal n ts2) (\<lambda>v ts3. Parsed \<lparr>prop_key = key, prop_value = v\<rparr> ts3)))"

definition parse_prop_map :: "nat \<Rightarrow> cql_token list \<Rightarrow> prop_entry list reply" where
  "parse_prop_map n ts =
     and_then (expect T_LBrace ''`{`'' ts) (\<lambda>_ ts1.
       and_then (if peek ts1 \<noteq> T_RBrace then sep_list T_Comma (parse_prop_entry n) n ts1 else Parsed [] ts1) (\<lambda>entries ts2.
         and_then (expect T_RBrace ''`}` to close the property map'' ts2) (\<lambda>_ ts3. Parsed entries ts3)))"

subsection \<open>Patterns\<close>

definition parse_label :: "cql_token list \<Rightarrow> string spanned option reply" where
  "parse_label ts =
     (let (colon, ts1) = eat T_Colon ts
      in if colon then and_then (expect_ident ''node label after `:`'' ts1) (\<lambda>name ts2. Parsed (Some name) ts2)
         else Parsed None ts)"

definition parse_opt_props :: "nat \<Rightarrow> cql_token list \<Rightarrow> prop_entry list reply" where
  "parse_opt_props n ts = (if peek ts = T_LBrace then parse_prop_map n ts else Parsed [] ts)"

definition parse_node_pat :: "nat \<Rightarrow> cql_token list \<Rightarrow> node_pat reply" where
  "parse_node_pat n ts =
     and_then (expect T_LParen ''`(` to begin a node pattern'' ts) (\<lambda>_ ts1.
       let (var, ts2) = parse_opt_ident ts1 in
       and_then (parse_label ts2) (\<lambda>label ts3.
         and_then (parse_opt_props n ts3) (\<lambda>props ts4.
           and_then (expect T_RParen ''`)` to close the node pattern'' ts4) (\<lambda>_ ts5.
             Parsed \<lparr>nd_var = var, nd_label = label, nd_props = props\<rparr> ts5))))"

text \<open>The messages spell an ellipsis, three bytes in UTF-8.\<close>

definition ellipsis :: string where
  "ellipsis = [CHR 0xE2, CHR 0x80, CHR 0xA6]"

definition parse_rel_types :: "nat \<Rightarrow> cql_token list \<Rightarrow> string spanned list reply" where
  "parse_rel_types n ts =
     and_then (expect_ident ''relationship type after `:`'' ts) (\<lambda>name ts1.
       if peek ts1 = T_Colon then
         Failed (plan_error (peek_span ts1)
           (''sub-type qualifier `'' @ sv_value name @ '':'' @ ellipsis @
            ''` (e.g. `CALLS:super`) is recognised but not supported in this release (Theme-13, deferred)''))
       else
         and_then (sep_rest T_Pipe (expect_ident ''relationship type after `|`'') n ts1) (\<lambda>types ts2.
           Parsed (name # types) ts2))"

definition u32_limit :: int where
  "u32_limit = 2 ^ 32"

definition parse_opt_int_u32 :: "cql_token list \<Rightarrow> nat option reply" where
  "parse_opt_int_u32 ts =
     (case peek ts of
        T_Int i \<Rightarrow>
          if 0 \<le> i \<and> i < u32_limit then Parsed (Some (nat i)) (bump ts)
          else Failed (cql_error_new (peek_span ts) ParseError (''length bound `'' @ show_int i @ ''` out of range''))
      | _ \<Rightarrow> Parsed None ts)"

definition parse_var_len :: "cql_token list \<Rightarrow> var_len reply" where
  "parse_var_len ts =
     and_then (expect T_Star ''`*`'' ts) (\<lambda>_ ts1.
       and_then (parse_opt_int_u32 ts1) (\<lambda>lo ts2.
         let (dots, ts3) = eat T_DotDot ts2
         in if dots then and_then (parse_opt_int_u32 ts3) (\<lambda>hi ts4. Parsed \<lparr>vl_min = lo, vl_max = hi\<rparr> ts4)
            else Parsed \<lparr>vl_min = lo, vl_max = lo\<rparr> ts2))"

definition parse_rel_body :: "nat \<Rightarrow> cql_token list \<Rightarrow> (string option \<times> string spanned list \<times> var_len option \<times> prop_entry list) reply" where
  "parse_rel_body n ts =
     (let (bracket, ts1) = eat T_LBracket ts
      in if bracket then
           let (var, ts2) = parse_opt_ident ts1; (colon, ts3) = eat T_Colon ts2 in
           and_then (if colon then parse_rel_types n ts3 else Parsed [] ts2) (\<lambda>types ts4.
             and_then (if peek ts4 = T_Star then and_then (parse_var_len ts4) (\<lambda>v ts. Parsed (Some v) ts) else Parsed None ts4) (\<lambda>len ts5.
               and_then (parse_opt_props n ts5) (\<lambda>props ts6.
                 and_then (expect T_RBracket ''`]` to close the relationship'' ts6) (\<lambda>_ ts7.
                   Parsed (var, types, len, props) ts7))))
         else Parsed (None, [], None, []) ts)"

definition parse_rel_pat :: "nat \<Rightarrow> cql_token list \<Rightarrow> rel_pat reply" where
  "parse_rel_pat n ts =
     and_then (if peek ts = T_Dash then Parsed False (bump ts)
               else if peek ts = T_ArrowL then Parsed True (bump ts)
               else Failed (err_here ts ''expected `-` or `<-` to begin a relationship'')) (\<lambda>leading_back ts1.
       and_then (parse_rel_body n ts1) (\<lambda>(var, types, len, props) ts2.
         and_then (if peek ts2 = T_ArrowR then Parsed True (bump ts2)
                   else if peek ts2 = T_Dash then Parsed False (bump ts2)
                   else Failed (err_here ts2 ''expected `->` or `-` to close a relationship'')) (\<lambda>trailing_forward ts3.
           if leading_back \<noteq> trailing_forward then
             Parsed \<lparr>rl_var = var, rl_direction = (if leading_back then AstBackward else AstForward),
               rl_types = types, rl_var_len = len, rl_props = props\<rparr> ts3
           else Failed (err_here ts3 ''ambiguous relationship direction: use `-[...]->` or `<-[...]-`''))))"

fun parse_steps :: "nat \<Rightarrow> cql_token list \<Rightarrow> (rel_pat \<times> node_pat) list reply" where
  "parse_steps 0 ts = OutOfFuel"
| "parse_steps (Suc n) ts =
     (if peek ts = T_Dash \<or> peek ts = T_ArrowL then
        and_then (parse_rel_pat n ts) (\<lambda>rel ts1.
          and_then (parse_node_pat n ts1) (\<lambda>node ts2.
            and_then (parse_steps n ts2) (\<lambda>steps ts3. Parsed ((rel, node) # steps) ts3)))
      else Parsed [] ts)"

definition parse_path_var :: "cql_token list \<Rightarrow> string option \<times> cql_token list" where
  "parse_path_var ts =
     (case peek ts of
        T_Ident name \<Rightarrow> if peek (tl ts) = T_Eq then (Some name, bump (bump ts)) else (None, ts)
      | _ \<Rightarrow> (None, ts))"

definition parse_path_pattern :: "nat \<Rightarrow> cql_token list \<Rightarrow> path_pattern reply" where
  "parse_path_pattern n ts =
     (let (path_var, ts1) = parse_path_var ts in
      and_then (parse_node_pat n ts1) (\<lambda>start ts2.
        and_then (parse_steps n ts2) (\<lambda>steps ts3.
          Parsed \<lparr>pp_path_var = path_var, pp_start = start, pp_steps = steps\<rparr> ts3)))"

text \<open>
  The lookahead from \<open>(\<close> to its matching \<open>)\<close>: whether a relationship arrow follows. The depth is
  zero only before the first token.
\<close>

fun group_is_pattern :: "nat \<Rightarrow> cql_token list \<Rightarrow> bool" where
  "group_is_pattern depth [] = False"
| "group_is_pattern depth (t # ts) =
     (case tok_kind t of
        T_LParen \<Rightarrow> group_is_pattern (Suc depth) ts
      | T_RParen \<Rightarrow>
          if depth - 1 = 0 then peek ts = T_Dash \<or> peek ts = T_ArrowL
          else group_is_pattern (depth - 1) ts
      | T_Eof \<Rightarrow> False
      | _ \<Rightarrow> group_is_pattern depth ts)"

definition paren_group_is_pattern :: "cql_token list \<Rightarrow> bool" where
  "paren_group_is_pattern ts = group_is_pattern 0 ts"

definition try_pattern_predicate :: "nat \<Rightarrow> cql_token list \<Rightarrow> path_pattern option reply" where
  "try_pattern_predicate n ts =
     (if peek ts \<noteq> T_LParen then Parsed None ts
      else if \<not> paren_group_is_pattern ts then Parsed None ts
      else and_then (parse_path_pattern n ts) (\<lambda>pat ts1.
        if pp_steps pat = [] then
          Failed (cql_error_new (peek_span ts1) ParseError
            ''a pattern predicate requires a relationship, e.g. `(m)<-[:CALLS]-()`'')
        else Parsed (Some pat) ts1))"

subsection \<open>Expressions\<close>

fun comparison_op :: "tok \<Rightarrow> bin_op option" where
  "comparison_op T_Eq = Some BEq"
| "comparison_op T_Ne = Some BNe"
| "comparison_op T_Lt = Some BLt"
| "comparison_op T_Le = Some BLe"
| "comparison_op T_Gt = Some BGt"
| "comparison_op T_Ge = Some BGe"
| "comparison_op T_In = Some BIn"
| "comparison_op _ = None"

definition eq_ignore_case :: "string \<Rightarrow> string \<Rightarrow> bool" where
  "eq_ignore_case a b \<longleftrightarrow> map to_upper a = map to_upper b"

definition is_unsupported_is :: "tok \<Rightarrow> bool" where
  "is_unsupported_is k \<longleftrightarrow> (case k of T_Ident name \<Rightarrow> eq_ignore_case name ''IS'' | _ \<Rightarrow> False)"

definition bracket_is_comprehension :: "cql_token list \<Rightarrow> bool" where
  "bracket_is_comprehension ts \<longleftrightarrow>
     (case peek (tl ts) of T_Ident _ \<Rightarrow> peek (tl (tl ts)) = T_In | _ \<Rightarrow> False)"

fun property_segments :: "nat \<Rightarrow> cql_token list \<Rightarrow> string spanned list reply" where
  "property_segments 0 ts = OutOfFuel"
| "property_segments (Suc n) ts =
     (let (dot, ts1) = eat T_Dot ts
      in if dot then
           and_then (expect_ident ''property name after `.`'' ts1) (\<lambda>seg ts2.
             and_then (property_segments n ts2) (\<lambda>segs ts3. Parsed (seg # segs) ts3))
         else Parsed [] ts)"

fun quantifier_of :: "tok \<Rightarrow> quantifier_kind option" where
  "quantifier_of T_None = Some QNone"
| "quantifier_of T_Any = Some QAny"
| "quantifier_of T_All = Some QAll"
| "quantifier_of _ = None"

definition is_message :: string where
  "is_message = ''`IS EMPTY` / `IS NULL` predicates are not supported in this release (IS EMPTY requires type reconstruction; deferred)''"

text \<open>
  The methods that call each other are given one level of fuel apart: \<open>parsers\<close> holds all of them
  with a fuel, each definition below is the body of a method that calls the ones of the level below,
  and \<open>parsers_at\<close> ties the knot.
\<close>

record parsers =
  px_fuel :: nat
  px_or :: "cql_token list \<Rightarrow> expr reply"
  px_or_loop :: "expr \<Rightarrow> cql_token list \<Rightarrow> expr reply"
  px_and :: "cql_token list \<Rightarrow> expr reply"
  px_and_loop :: "expr \<Rightarrow> cql_token list \<Rightarrow> expr reply"
  px_not :: "cql_token list \<Rightarrow> expr reply"
  px_comparison :: "cql_token list \<Rightarrow> expr reply"
  px_primary :: "cql_token list \<Rightarrow> expr reply"
  px_args :: "cql_token list \<Rightarrow> expr list reply"
  px_list_comp :: "cql_token list \<Rightarrow> expr reply"
  px_quantifier :: "cql_token list \<Rightarrow> expr reply"

definition parse_or :: "parsers \<Rightarrow> cql_token list \<Rightarrow> expr reply" where
  "parse_or P ts = and_then (px_and P ts) (px_or_loop P)"

definition or_loop :: "parsers \<Rightarrow> expr \<Rightarrow> cql_token list \<Rightarrow> expr reply" where
  "or_loop P lhs ts =
     (if peek ts = T_Or then
        and_then (px_and P (bump ts)) (\<lambda>rhs ts1. px_or_loop P (EBinary BOr lhs rhs (peek_span ts)) ts1)
      else Parsed lhs ts)"

definition parse_and :: "parsers \<Rightarrow> cql_token list \<Rightarrow> expr reply" where
  "parse_and P ts = and_then (px_not P ts) (px_and_loop P)"

definition and_loop :: "parsers \<Rightarrow> expr \<Rightarrow> cql_token list \<Rightarrow> expr reply" where
  "and_loop P lhs ts =
     (if peek ts = T_And then
        and_then (px_not P (bump ts)) (\<lambda>rhs ts1. px_and_loop P (EBinary BAnd lhs rhs (peek_span ts)) ts1)
      else Parsed lhs ts)"

definition parse_not :: "parsers \<Rightarrow> cql_token list \<Rightarrow> expr reply" where
  "parse_not P ts =
     (if peek ts = T_Not then
        and_then (try_pattern_predicate (px_fuel P) (bump ts)) (\<lambda>pat ts1.
          case pat of
            Some pattern \<Rightarrow> Parsed (EPattern True pattern) ts1
          | None \<Rightarrow> and_then (px_not P ts1) (\<lambda>e ts2. Parsed (ENot e) ts2))
      else
        and_then (try_pattern_predicate (px_fuel P) ts) (\<lambda>pat ts1.
          case pat of
            Some pattern \<Rightarrow> Parsed (EPattern False pattern) ts1
          | None \<Rightarrow> px_comparison P ts1))"

definition parse_comparison :: "parsers \<Rightarrow> cql_token list \<Rightarrow> expr reply" where
  "parse_comparison P ts =
     and_then (px_primary P ts) (\<lambda>lhs ts1.
       case comparison_op (peek ts1) of
         Some op \<Rightarrow> and_then (px_primary P (bump ts1)) (\<lambda>rhs ts2. Parsed (EBinary op lhs rhs (peek_span ts1)) ts2)
       | None \<Rightarrow>
           if is_unsupported_is (peek ts1) then Failed (plan_error (peek_span ts1) is_message)
           else Parsed lhs ts1)"

definition parse_primary :: "parsers \<Rightarrow> cql_token list \<Rightarrow> expr reply" where
  "parse_primary P ts =
     (case peek ts of
        T_LParen \<Rightarrow>
          and_then (px_or P (bump ts)) (\<lambda>e ts1.
            and_then (expect T_RParen ''`)` to close a parenthesised expression'' ts1) (\<lambda>_ ts2. Parsed e ts2))
      | T_LBracket \<Rightarrow>
          if bracket_is_comprehension ts then px_list_comp P ts
          else and_then (parse_list_literal (px_fuel P) ts) (\<lambda>v ts1. Parsed (ELiteral v) ts1)
      | T_None \<Rightarrow> px_quantifier P ts
      | T_Any \<Rightarrow> px_quantifier P ts
      | T_All \<Rightarrow> px_quantifier P ts
      | T_Ident name \<Rightarrow>
          let head = spanned_new name (peek_span ts) in
          if peek (bump ts) = T_LParen then
            and_then (px_args P (bump ts)) (\<lambda>args ts1. Parsed (ECall head args) ts1)
          else
            and_then (property_segments (px_fuel P) (bump ts)) (\<lambda>segments ts1. Parsed (EProperty head segments) ts1)
      | T_Str _ \<Rightarrow> and_then (parse_literal (px_fuel P) ts) (\<lambda>v ts1. Parsed (ELiteral v) ts1)
      | T_Int _ \<Rightarrow> and_then (parse_literal (px_fuel P) ts) (\<lambda>v ts1. Parsed (ELiteral v) ts1)
      | T_Float _ \<Rightarrow> and_then (parse_literal (px_fuel P) ts) (\<lambda>v ts1. Parsed (ELiteral v) ts1)
      | T_True \<Rightarrow> and_then (parse_literal (px_fuel P) ts) (\<lambda>v ts1. Parsed (ELiteral v) ts1)
      | T_False \<Rightarrow> and_then (parse_literal (px_fuel P) ts) (\<lambda>v ts1. Parsed (ELiteral v) ts1)
      | T_Null \<Rightarrow> and_then (parse_literal (px_fuel P) ts) (\<lambda>v ts1. Parsed (ELiteral v) ts1)
      | other \<Rightarrow> Failed (err_here ts (''expected an expression, found '' @ describe_token other)))"

definition parse_args :: "parsers \<Rightarrow> cql_token list \<Rightarrow> expr list reply" where
  "parse_args P ts =
     and_then (expect T_LParen ''`(`'' ts) (\<lambda>_ ts1.
       and_then (if peek ts1 = T_Star then Parsed [EProperty (spanned_new ''*'' (peek_span ts1)) []] (bump ts1)
                 else if peek ts1 \<noteq> T_RParen then sep_list T_Comma (px_or P) (px_fuel P) ts1
                 else Parsed [] ts1) (\<lambda>args ts2.
         and_then (expect T_RParen ''`)` to close the argument list'' ts2) (\<lambda>_ ts3. Parsed args ts3)))"

definition parse_list_comp :: "parsers \<Rightarrow> cql_token list \<Rightarrow> expr reply" where
  "parse_list_comp P ts =
     and_then (expect T_LBracket ''`[`'' ts) (\<lambda>_ ts1.
       and_then (expect_ident ''comprehension variable'' ts1) (\<lambda>var ts2.
         and_then (expect T_In ''IN in a list comprehension'' ts2) (\<lambda>_ ts3.
           and_then (px_or P ts3) (\<lambda>list ts4.
             let (filtered, ts5) = eat T_Where ts4 in
             and_then (if filtered then and_then (px_or P ts5) (\<lambda>e ts. Parsed (Some e) ts) else Parsed None ts4) (\<lambda>filt ts6.
               and_then (expect T_Pipe ''`|` before the comprehension projection'' ts6) (\<lambda>_ ts7.
                 and_then (px_or P ts7) (\<lambda>projection ts8.
                   and_then (expect T_RBracket ''`]` to close the comprehension'' ts8) (\<lambda>_ ts9.
                     Parsed (EListComp (sv_value var) list filt projection) ts9))))))))"

definition parse_quantifier :: "parsers \<Rightarrow> cql_token list \<Rightarrow> expr reply" where
  "parse_quantifier P ts =
     (case quantifier_of (peek ts) of
        None \<Rightarrow> Failed (err_here ts ''parse_quantifier called on a non-quantifier token'')
      | Some kind \<Rightarrow>
          and_then (expect T_LParen ''`(` after a quantifier'' (bump ts)) (\<lambda>_ ts1.
            and_then (expect_ident ''quantifier variable'' ts1) (\<lambda>var ts2.
              and_then (expect T_In ''IN in a quantifier'' ts2) (\<lambda>_ ts3.
                and_then (px_or P ts3) (\<lambda>list ts4.
                  and_then (expect T_Where ''WHERE in a quantifier'' ts4) (\<lambda>_ ts5.
                    and_then (px_or P ts5) (\<lambda>predicate ts6.
                      and_then (expect T_RParen ''`)` to close the quantifier'' ts6) (\<lambda>_ ts7.
                        Parsed (EQuantifier kind (sv_value var) list predicate) ts7))))))))"

primrec parsers_at :: "nat \<Rightarrow> parsers" where
  "parsers_at 0 =
     \<lparr>px_fuel = 0, px_or = \<lambda>_. OutOfFuel, px_or_loop = \<lambda>_ _. OutOfFuel, px_and = \<lambda>_. OutOfFuel,
      px_and_loop = \<lambda>_ _. OutOfFuel, px_not = \<lambda>_. OutOfFuel, px_comparison = \<lambda>_. OutOfFuel,
      px_primary = \<lambda>_. OutOfFuel, px_args = \<lambda>_. OutOfFuel, px_list_comp = \<lambda>_. OutOfFuel,
      px_quantifier = \<lambda>_. OutOfFuel\<rparr>"
| "parsers_at (Suc n) =
     (let P = parsers_at n in
      \<lparr>px_fuel = Suc n, px_or = parse_or P, px_or_loop = or_loop P, px_and = parse_and P,
       px_and_loop = and_loop P, px_not = parse_not P, px_comparison = parse_comparison P,
       px_primary = parse_primary P, px_args = parse_args P, px_list_comp = parse_list_comp P,
       px_quantifier = parse_quantifier P\<rparr>)"

definition parse_expr :: "nat \<Rightarrow> cql_token list \<Rightarrow> expr reply" where
  "parse_expr n = px_or (parsers_at n)"

lemma parsers_at_Suc [simp]:
  "px_or (parsers_at (Suc n)) = parse_or (parsers_at n)" "px_or_loop (parsers_at (Suc n)) = or_loop (parsers_at n)"
  "px_and (parsers_at (Suc n)) = parse_and (parsers_at n)" "px_and_loop (parsers_at (Suc n)) = and_loop (parsers_at n)"
  "px_not (parsers_at (Suc n)) = parse_not (parsers_at n)" "px_comparison (parsers_at (Suc n)) = parse_comparison (parsers_at n)"
  "px_primary (parsers_at (Suc n)) = parse_primary (parsers_at n)" "px_args (parsers_at (Suc n)) = parse_args (parsers_at n)"
  "px_list_comp (parsers_at (Suc n)) = parse_list_comp (parsers_at n)"
  "px_quantifier (parsers_at (Suc n)) = parse_quantifier (parsers_at n)"
  by (simp_all add: Let_def)

lemma parsers_at_0 [simp]:
  "px_or (parsers_at 0) ts = OutOfFuel" "px_or_loop (parsers_at 0) e ts = OutOfFuel"
  "px_and (parsers_at 0) ts = OutOfFuel" "px_and_loop (parsers_at 0) e ts = OutOfFuel"
  "px_not (parsers_at 0) ts = OutOfFuel" "px_comparison (parsers_at 0) ts = OutOfFuel"
  "px_primary (parsers_at 0) ts = OutOfFuel" "px_args (parsers_at 0) ts = OutOfFuel"
  "px_list_comp (parsers_at 0) ts = OutOfFuel" "px_quantifier (parsers_at 0) ts = OutOfFuel"
  by simp_all

lemma parsers_at_fuel [simp]: "px_fuel (parsers_at n) = n"
  by (cases n) (simp_all add: Let_def)

declare parsers_at.simps [simp del]

subsection \<open>Clauses\<close>

definition parse_alias :: "cql_token list \<Rightarrow> string option reply" where
  "parse_alias ts =
     (let (aliased, ts1) = eat T_As ts
      in if aliased then and_then (expect_ident ''alias after AS'' ts1) (\<lambda>name ts2. Parsed (Some (sv_value name)) ts2)
         else Parsed None ts)"

definition parse_opt_where :: "nat \<Rightarrow> cql_token list \<Rightarrow> expr option reply" where
  "parse_opt_where n ts =
     (let (filtered, ts1) = eat T_Where ts
      in if filtered then and_then (parse_expr n ts1) (\<lambda>e ts2. Parsed (Some e) ts2) else Parsed None ts)"

definition match_all_message :: string where
  "match_all_message = ''`MATCH ALL '' @ ellipsis @ '' MUST PASS THROUGH/AVOIDING` (Q-20 guarded-cut) is not supported in this release (deferred)''"

definition parse_match :: "nat \<Rightarrow> cql_token list \<Rightarrow> match_clause reply" where
  "parse_match n ts =
     and_then (expect T_Match ''MATCH'' ts) (\<lambda>_ ts1.
       if peek ts1 = T_All then Failed (plan_error (peek_span ts1) match_all_message)
       else
         and_then (sep_list T_Comma (parse_path_pattern n) n ts1) (\<lambda>patterns ts2.
           and_then (parse_opt_where n ts2) (\<lambda>filt ts3. Parsed \<lparr>mc_patterns = patterns, mc_where = filt\<rparr> ts3)))"

fun proc_segments :: "nat \<Rightarrow> string spanned \<Rightarrow> cql_token list \<Rightarrow> string spanned reply" where
  "proc_segments 0 name ts = OutOfFuel"
| "proc_segments (Suc n) name ts =
     (let (dot, ts1) = eat T_Dot ts
      in if dot then
           and_then (expect_ident ''procedure name segment after `.`'' ts1) (\<lambda>seg ts2.
             proc_segments n (spanned_new (sv_value name @ ''.'' @ sv_value seg) (fst (sv_span name), snd (sv_span seg))) ts2)
         else Parsed name ts)"

definition parse_yield_item :: "cql_token list \<Rightarrow> yield_item reply" where
  "parse_yield_item ts =
     and_then (expect_ident ''yielded column name'' ts) (\<lambda>name ts1.
       and_then (parse_alias ts1) (\<lambda>alias ts2. Parsed \<lparr>yi_name = name, yi_alias = alias\<rparr> ts2))"

definition parse_call :: "nat \<Rightarrow> cql_token list \<Rightarrow> call_clause reply" where
  "parse_call n ts =
     and_then (expect T_Call ''CALL'' ts) (\<lambda>_ ts1.
       and_then (expect_ident ''procedure name'' ts1) (\<lambda>head ts2.
         and_then (proc_segments n head ts2) (\<lambda>proc ts3.
           and_then (expect T_LParen ''`(` after procedure name'' ts3) (\<lambda>_ ts4.
             and_then (if peek ts4 \<noteq> T_RParen then sep_list T_Comma (parse_expr n) n ts4 else Parsed [] ts4) (\<lambda>args ts5.
               and_then (expect T_RParen ''`)` to close arguments'' ts5) (\<lambda>_ ts6.
                 and_then (expect T_Yield ''YIELD'' ts6) (\<lambda>_ ts7.
                   and_then (sep_list T_Comma parse_yield_item n ts7) (\<lambda>yields ts8.
                     and_then (parse_opt_where n ts8) (\<lambda>filt ts9.
                       Parsed \<lparr>cl_proc = proc, cl_args = args, cl_yields = yields, cl_where = filt\<rparr> ts9)))))))))"

definition parse_return_item :: "nat \<Rightarrow> cql_token list \<Rightarrow> return_item reply" where
  "parse_return_item n ts =
     and_then (parse_expr n ts) (\<lambda>e ts1.
       and_then (parse_alias ts1) (\<lambda>alias ts2. Parsed \<lparr>ri_expr = e, ri_alias = alias\<rparr> ts2))"

definition parse_return_items :: "nat \<Rightarrow> cql_token list \<Rightarrow> return_item list reply" where
  "parse_return_items n ts = sep_list T_Comma (parse_return_item n) n ts"

definition parse_sort_item :: "nat \<Rightarrow> cql_token list \<Rightarrow> order_by reply" where
  "parse_sort_item n ts =
     and_then (parse_expr n ts) (\<lambda>e ts1.
       let (desc, ts2) = eat T_Desc ts1
       in if desc then Parsed \<lparr>ob_expr = e, ob_descending = True\<rparr> ts2
          else Parsed \<lparr>ob_expr = e, ob_descending = False\<rparr> (snd (eat T_Asc ts1)))"

definition parse_opt_order_by :: "nat \<Rightarrow> cql_token list \<Rightarrow> order_by list reply" where
  "parse_opt_order_by n ts =
     (let (order, ts1) = eat T_Order ts
      in if \<not> order then Parsed [] ts
         else and_then (expect T_By ''BY after ORDER'' ts1) (\<lambda>_ ts2. sep_list T_Comma (parse_sort_item n) n ts2))"

definition parse_opt_limit :: "cql_token list \<Rightarrow> nat option reply" where
  "parse_opt_limit ts =
     (let (limited, ts1) = eat T_Limit ts
      in if \<not> limited then Parsed None ts
         else case peek ts1 of
           T_Int i \<Rightarrow>
             if 0 \<le> i then Parsed (Some (nat i)) (bump ts1)
             else Failed (err_here ts1 ''expected a non-negative integer after LIMIT'')
         | _ \<Rightarrow> Failed (err_here ts1 ''expected a non-negative integer after LIMIT''))"

definition parse_return :: "nat \<Rightarrow> cql_token list \<Rightarrow> return_clause reply" where
  "parse_return n ts =
     and_then (expect T_Return ''RETURN'' ts) (\<lambda>_ ts1.
       let (distinct', ts2) = eat T_Distinct ts1 in
       and_then (parse_return_items n ts2) (\<lambda>items ts3.
         and_then (parse_opt_order_by n ts3) (\<lambda>order_by ts4.
           and_then (parse_opt_limit ts4) (\<lambda>limit ts5.
             Parsed \<lparr>rc_distinct = distinct', rc_items = items, rc_order_by = order_by, rc_limit = limit\<rparr> ts5))))"

definition parse_with :: "nat \<Rightarrow> cql_token list \<Rightarrow> with_clause reply" where
  "parse_with n ts =
     (let (distinct', ts1) = eat T_Distinct ts in
      and_then (parse_return_items n ts1) (\<lambda>items ts2.
        and_then (parse_opt_order_by n ts2) (\<lambda>order_by ts3.
          and_then (parse_opt_limit ts3) (\<lambda>limit ts4.
            and_then (parse_opt_where n ts4) (\<lambda>filt ts5.
              Parsed \<lparr>wi_distinct = distinct', wi_items = items, wi_order_by = order_by, wi_limit = limit,
                wi_where = filt\<rparr> ts5)))))"

fun parse_reading :: "nat \<Rightarrow> cql_token list \<Rightarrow> reading_clause list reply" where
  "parse_reading 0 ts = OutOfFuel"
| "parse_reading (Suc n) ts =
     (if peek ts = T_Match then
        and_then (parse_match n ts) (\<lambda>m ts1. and_then (parse_reading n ts1) (\<lambda>rs ts2. Parsed (RMatch m # rs) ts2))
      else if peek ts = T_Call then
        and_then (parse_call n ts) (\<lambda>c ts1. and_then (parse_reading n ts1) (\<lambda>rs ts2. Parsed (RCall c # rs) ts2))
      else Parsed [] ts)"

text \<open>Clauses that are recognised only to be rejected with their name.\<close>

definition deferred_clause :: "string \<Rightarrow> string option" where
  "deferred_clause name =
     (let upper = map to_upper name in
      if upper \<in> {''CREATE'', ''SET'', ''DELETE'', ''DETACH''} then
        Some (''`'' @ name @ ''` is not supported: cgx query is a read-only language; write clauses (CREATE/SET/DELETE) are deferred'')
      else if upper = ''UNWIND'' then Some ''`UNWIND` is not supported in this release (deferred)''
      else if upper = ''OPTIONAL'' then Some ''`OPTIONAL MATCH` is not supported in this release (deferred)''
      else if upper = ''UNION'' then Some ''`UNION` is not supported in this release (deferred)''
      else None)"

definition part_error :: "bool \<Rightarrow> cql_token list \<Rightarrow> cql_error" where
  "part_error no_reading ts =
     (case (case peek ts of T_Ident name \<Rightarrow> deferred_clause name | _ \<Rightarrow> None) of
        Some msg \<Rightarrow> plan_error (peek_span ts) msg
      | None \<Rightarrow>
          if no_reading then err_here ts (''expected MATCH, CALL, WITH, or RETURN, found '' @ describe_token (peek ts))
          else err_here ts (''expected WITH or RETURN, found '' @ describe_token (peek ts)))"

definition parse_part :: "nat \<Rightarrow> cql_token list \<Rightarrow> query_part reply" where
  "parse_part n ts =
     and_then (parse_reading n ts) (\<lambda>reading ts1.
       let (with', ts2) = eat T_With ts1 in
       if with' then
         and_then (parse_with n ts2) (\<lambda>w ts3. Parsed \<lparr>qp_reading = reading, qp_ret = None, qp_with = Some w\<rparr> ts3)
       else if peek ts1 = T_Return then
         and_then (parse_return n ts1) (\<lambda>r ts3. Parsed \<lparr>qp_reading = reading, qp_ret = Some r, qp_with = None\<rparr> ts3)
       else Failed (part_error (reading = []) ts1))"

fun parse_parts :: "nat \<Rightarrow> cql_token list \<Rightarrow> query_part list reply" where
  "parse_parts 0 ts = OutOfFuel"
| "parse_parts (Suc n) ts =
     and_then (parse_part n ts) (\<lambda>part ts1.
       if qp_with part = None then Parsed [part] ts1
       else and_then (parse_parts n ts1) (\<lambda>parts ts2. Parsed (part # parts) ts2))"

definition trailing_error :: "cql_token list \<Rightarrow> cql_error" where
  "trailing_error ts =
     (if (case peek ts of T_Ident name \<Rightarrow> eq_ignore_case name ''UNION'' | _ \<Rightarrow> False)
      then plan_error (peek_span ts) ''`UNION` is not supported in this release (deferred)''
      else err_here ts (''unexpected trailing input '' @ describe_token (peek ts)))"

definition parse_query :: "nat \<Rightarrow> cql_token list \<Rightarrow> query reply" where
  "parse_query n ts =
     and_then (parse_parts n ts) (\<lambda>parts ts1.
       if peek ts1 \<noteq> T_Eof then Failed (trailing_error ts1)
       else if parts \<noteq> [] \<and> qp_ret (last parts) \<noteq> None then Parsed \<lparr>q_parts = parts\<rparr> ts1
       else Failed (err_here ts1 ''query must end with a RETURN clause''))"

text \<open>Every level of the grammar consumes a token or descends one of at most ten methods.\<close>

definition parse_fuel :: "cql_token list \<Rightarrow> nat" where
  "parse_fuel ts = 12 * length ts + 20"

definition cql_parse :: "string \<Rightarrow> (cql_error + query) option" where
  "cql_parse src =
     (case cql_tokenize src of
        Inl err \<Rightarrow> Some (Inl err)
      | Inr ts \<Rightarrow>
          (case parse_query (parse_fuel ts) ts of
             Parsed q _ \<Rightarrow> Some (Inr q)
           | Failed err \<Rightarrow> Some (Inl err)
           | OutOfFuel \<Rightarrow> None))"

end
