(* ===== verification/Cql_Parser_Total.thy ===== *)
theory Cql_Parser_Total
  imports Cql_Parser
begin

text \<open>
  The parser always returns. \<open>leaves m\<close> says of a reply that it is not out of fuel and leaves at
  most \<open>m\<close> tokens, ended by the end marker; one rule per method of the parser, under a fuel that is
  linear in the number of tokens.
\<close>

named_theorems leaves_rules \<open>bounds on the tokens that a parser leaves\<close>

definition leaves :: "nat \<Rightarrow> 'a reply \<Rightarrow> bool" where
  "leaves m r \<longleftrightarrow> r \<noteq> OutOfFuel \<and> (\<forall>x ts. r = Parsed x ts \<longrightarrow> ends_with_eof ts \<and> length ts \<le> m)"

lemma leaves_Parsed [leaves_rules]: "ends_with_eof ts \<Longrightarrow> length ts \<le> m \<Longrightarrow> leaves m (Parsed x ts)"
  by (simp add: leaves_def)

lemma leaves_Failed [leaves_rules]: "leaves m (Failed err)"
  by (simp add: leaves_def)

lemma leaves_bind:
  "leaves m r \<Longrightarrow> (\<And>x ts. ends_with_eof ts \<Longrightarrow> length ts \<le> m \<Longrightarrow> leaves k (f x ts)) \<Longrightarrow> leaves k (and_then r f)"
  by (cases r) (auto simp: leaves_def)

lemma leaves_mono: "leaves m r \<Longrightarrow> m \<le> k \<Longrightarrow> leaves k r"
  unfolding leaves_def using order_trans by blast

lemma ends_Cons: "ends_with_eof (t # ts) \<longleftrightarrow> (if ts = [] then tok_kind t = T_Eof else tok_kind t \<noteq> T_Eof \<and> ends_with_eof ts)"
  by (auto simp: ends_with_eof_def)

lemma ends_length: "ends_with_eof ts \<Longrightarrow> 1 \<le> length ts"
  by (cases ts) (auto simp: ends_with_eof_def)

lemma ends_tl:
  assumes "ends_with_eof ts" "peek ts \<noteq> T_Eof"
  shows "ends_with_eof (tl ts)" "length (tl ts) = length ts - 1" "2 \<le> length ts" "bump ts = tl ts"
proof -
  obtain t us where ts: "ts = t # us" using assms(1) by (cases ts) (auto simp: ends_with_eof_def)
  then have us: "us \<noteq> []" "ends_with_eof us" using assms by (simp_all add: ends_Cons split: if_splits)
  then show "ends_with_eof (tl ts)" "length (tl ts) = length ts - 1" "bump ts = tl ts"
    using assms(2) by (simp_all add: ts bump_def)
  show "2 \<le> length ts" using us(1) by (cases us) (simp_all add: ts)
qed

lemma ends_bump: "ends_with_eof ts \<Longrightarrow> peek ts \<noteq> T_Eof \<Longrightarrow> ends_with_eof (bump ts) \<and> length (bump ts) = length ts - 1 \<and> 2 \<le> length ts"
  using ends_tl by simp

lemma ends_eat:
  "ends_with_eof ts \<Longrightarrow> kind \<noteq> T_Eof \<Longrightarrow> eat kind ts = (True, ts1) \<Longrightarrow> ends_with_eof ts1 \<and> length ts1 = length ts - 1 \<and> 2 \<le> length ts"
  using ends_tl by (auto simp: eat_def split: if_splits)

lemma leaves_expect [leaves_rules]:
  "ends_with_eof ts \<Longrightarrow> kind \<noteq> T_Eof \<Longrightarrow> leaves (length ts - 1) (expect kind what ts)"
  using ends_bump by (auto simp: expect_def intro!: leaves_rules)

lemma leaves_expect_ident [leaves_rules]: "ends_with_eof ts \<Longrightarrow> leaves (length ts - 1) (expect_ident what ts)"
  using ends_bump [of ts] by (cases "peek ts") (simp_all add: expect_ident_def leaves_def)

lemma opt_ident_ends: "ends_with_eof ts \<Longrightarrow> ends_with_eof (snd (parse_opt_ident ts)) \<and> length (snd (parse_opt_ident ts)) \<le> length ts"
  using ends_bump [of ts] by (cases "peek ts") (simp_all add: parse_opt_ident_def)

lemma leaves_sep_rest [leaves_rules]:
  assumes "sep \<noteq> T_Eof" "\<And>ts'. ends_with_eof ts' \<Longrightarrow> length ts' < length ts \<Longrightarrow> leaves (length ts' - 1) (p ts')"
  shows "ends_with_eof ts \<Longrightarrow> length ts \<le> n \<Longrightarrow> leaves (length ts) (sep_rest sep p n ts)"
  using assms(2)
proof (induction n arbitrary: ts)
  case 0
  then show ?case using ends_length by fastforce
next
  case (Suc n)
  show ?case
  proof (cases "peek ts = sep")
    case True
    have tl: "ends_with_eof (tl ts)" "length (tl ts) = length ts - 1" "2 \<le> length ts"
      using ends_tl [OF Suc.prems(1)] True assms(1) by auto
    have "leaves (length ts) (and_then (p (tl ts)) (\<lambda>x ts2. and_then (sep_rest sep p n ts2) (\<lambda>xs ts3. Parsed (x # xs) ts3)))"
    proof (rule leaves_bind)
      show "leaves (length (tl ts) - 1) (p (tl ts))" by (rule Suc.prems(3) [OF tl(1)]) (use tl in simp)
      fix x ts2
      assume ts2: "ends_with_eof ts2" "length ts2 \<le> length (tl ts) - 1"
      have "leaves (length ts2) (sep_rest sep p n ts2)"
        by (rule Suc.IH) (use Suc.prems ts2 tl in auto)
      then show "leaves (length ts) (and_then (sep_rest sep p n ts2) (\<lambda>xs ts3. Parsed (x # xs) ts3))"
        by (rule leaves_bind) (use ts2 tl in \<open>auto intro: leaves_Parsed\<close>)
    qed
    then show ?thesis using True by (simp add: eat_def)
  next
    case False
    then show ?thesis using Suc.prems by (simp add: eat_def leaves_Parsed)
  qed
qed

lemma leaves_sep_list [leaves_rules]:
  assumes "sep \<noteq> T_Eof" "\<And>ts'. ends_with_eof ts' \<Longrightarrow> length ts' \<le> length ts \<Longrightarrow> leaves (length ts' - 1) (p ts')"
    and "ends_with_eof ts" "length ts \<le> n"
  shows "leaves (length ts - 1) (sep_list sep p n ts)"
  unfolding sep_list_def
proof (rule leaves_bind)
  show "leaves (length ts - 1) (p ts)" using assms by simp
  fix x ts1
  assume ts1: "ends_with_eof ts1" "length ts1 \<le> length ts - 1"
  have "leaves (length ts1) (sep_rest sep p n ts1)"
    by (rule leaves_sep_rest) (use assms ts1 in auto)
  then show "leaves (length ts - 1) (and_then (sep_rest sep p n ts1) (\<lambda>xs ts2. Parsed (x # xs) ts2))"
    by (rule leaves_bind) (use ts1 in \<open>auto intro: leaves_Parsed\<close>)
qed

lemma leaves_literals:
  "ends_with_eof ts \<Longrightarrow> 2 * length ts + 2 \<le> n \<Longrightarrow> leaves (length ts - 1) (parse_literal n ts)"
  "ends_with_eof ts \<Longrightarrow> 2 * length ts + 1 \<le> n \<Longrightarrow> leaves (length ts - 1) (parse_list_literal n ts)"
proof (induction n arbitrary: ts)
  case (Suc n)
  {
    case 1
    have "leaves (length ts - 1) (parse_list_literal n ts)" by (rule Suc.IH(2)) (use 1 in auto)
    then show ?case using ends_bump [OF 1(1)] by (cases "peek ts") (simp_all add: leaves_def)
  next
    case 2
    have list: "leaves (length ts1) (if peek ts1 \<noteq> T_RBracket then sep_list T_Comma (parse_literal n) n ts1 else Parsed [] ts1)"
      if "ends_with_eof ts1" "length ts1 \<le> length ts - 1" for ts1
    proof -
      have "leaves (length ts1 - 1) (sep_list T_Comma (parse_literal n) n ts1)"
      proof (rule leaves_sep_list)
        show "leaves (length ts' - 1) (parse_literal n ts')" if "ends_with_eof ts'" "length ts' \<le> length ts1" for ts'
          by (rule Suc.IH(1)) (use that \<open>length ts1 \<le> length ts - 1\<close> 2 ends_length [OF 2(1)] in linarith)+
      qed (use 2 that ends_length [OF 2(1)] in simp_all)
      then have "leaves (length ts1) (sep_list T_Comma (parse_literal n) n ts1)" by (rule leaves_mono) simp
      then show ?thesis using that by (simp add: leaves_Parsed)
    qed
    show ?case
      unfolding parse_list_literal.simps
    proof (rule leaves_bind [OF leaves_expect])
      fix t ts1
      assume ts1: "ends_with_eof ts1" "length ts1 \<le> length ts - 1"
      show "leaves (length ts - 1) (and_then (if peek ts1 \<noteq> T_RBracket then sep_list T_Comma (parse_literal n) n ts1 else Parsed [] ts1)
          (\<lambda>items ts2. and_then (expect T_RBracket ''`]` to close the list literal'' ts2) (\<lambda>_ ts3. Parsed (VList items) ts3)))"
        by (rule leaves_bind [OF list [OF ts1]], rule leaves_bind [OF leaves_expect])
          (use ts1 in \<open>auto intro!: leaves_Parsed\<close>)
    qed (use 2 in simp_all)
  }
qed simp_all

subsection \<open>Patterns\<close>

lemma leaves_prop_entry:
  assumes "ends_with_eof ts" "2 * length ts + 2 \<le> n"
  shows "leaves (length ts - 1) (parse_prop_entry n ts)"
  unfolding parse_prop_entry_def
proof (rule leaves_bind [OF leaves_expect_ident])
  fix key ts1
  assume ts1: "ends_with_eof ts1" "length ts1 \<le> length ts - 1"
  show "leaves (length ts - 1) (and_then (expect T_Colon ''`:` after property key'' ts1)
      (\<lambda>_ ts2. and_then (parse_literal n ts2) (\<lambda>v ts3. Parsed \<lparr>prop_key = key, prop_value = v\<rparr> ts3)))"
  proof (rule leaves_bind [OF leaves_expect], goal_cases)
    case (3 t ts2)
    show ?case
      by (rule leaves_bind [OF leaves_literals(1)]) (use 3 ts1 assms(2) in \<open>auto intro!: leaves_Parsed\<close>)
  qed (use ts1 in simp_all)
qed (rule assms(1))

lemma leaves_prop_map:
  assumes "ends_with_eof ts" "2 * length ts + 1 \<le> n"
  shows "leaves (length ts - 1) (parse_prop_map n ts)"
  unfolding parse_prop_map_def
proof (rule leaves_bind [OF leaves_expect], goal_cases)
  case (3 t ts1)
  have pos: "1 \<le> length ts" using ends_length [OF assms(1)] .
  have "leaves (length ts1 - 1) (sep_list T_Comma (parse_prop_entry n) n ts1)"
  proof (rule leaves_sep_list)
    show "leaves (length ts' - 1) (parse_prop_entry n ts')" if "ends_with_eof ts'" "length ts' \<le> length ts1" for ts'
      by (rule leaves_prop_entry) (use that 3 assms pos in linarith)+
  qed (use 3 assms pos in simp_all)
  then have "leaves (length ts1) (if peek ts1 \<noteq> T_RBrace then sep_list T_Comma (parse_prop_entry n) n ts1 else Parsed [] ts1)"
    using 3(1) by (auto intro: leaves_mono leaves_Parsed)
  then show ?case
  proof (rule leaves_bind, goal_cases)
    case (1 entries ts2)
    show ?case by (rule leaves_bind [OF leaves_expect]) (use 1 3 in \<open>auto intro!: leaves_Parsed\<close>)
  qed
qed (use assms in simp_all)

lemma leaves_opt_props:
  "ends_with_eof ts \<Longrightarrow> 2 * length ts + 1 \<le> n \<Longrightarrow> leaves (length ts) (parse_opt_props n ts)"
  using leaves_prop_map [of ts n] by (auto simp: parse_opt_props_def intro: leaves_mono leaves_Parsed)

lemma leaves_label: "ends_with_eof ts \<Longrightarrow> leaves (length ts) (parse_label ts)"
  using ends_tl [of ts]
  by (auto simp: parse_label_def eat_def intro!: leaves_Parsed leaves_bind [OF leaves_expect_ident])

lemma leaves_node_pat:
  assumes "ends_with_eof ts" "2 * length ts + 1 \<le> n"
  shows "leaves (length ts - 1) (parse_node_pat n ts)"
  unfolding parse_node_pat_def
proof (rule leaves_bind [OF leaves_expect], goal_cases)
  case (3 t ts1)
  obtain var ts2 where var: "parse_opt_ident ts1 = (var, ts2)" by fastforce
  have ts2: "ends_with_eof ts2" "length ts2 \<le> length ts1" using opt_ident_ends [OF 3(1)] var by simp_all
  show ?case
    unfolding var Let_def prod.case
  proof (rule leaves_bind [OF leaves_label [OF ts2(1)]], goal_cases)
    case (1 label ts3)
    show ?case
    proof (rule leaves_bind [OF leaves_opt_props], goal_cases)
      case (3 props ts4)
      show ?case by (rule leaves_bind [OF leaves_expect]) (use 3 1 ts2 \<open>length ts1 \<le> length ts - 1\<close> in \<open>auto intro!: leaves_Parsed\<close>)
    qed (use 1 ts2 3 assms in simp_all)
  qed
qed (use assms in simp_all)

lemma leaves_rel_types:
  assumes "ends_with_eof ts" "length ts \<le> n"
  shows "leaves (length ts - 1) (parse_rel_types n ts)"
  unfolding parse_rel_types_def
proof (rule leaves_bind [OF leaves_expect_ident], goal_cases)
  case (2 name ts1)
  have "leaves (length ts1) (sep_rest T_Pipe (expect_ident ''relationship type after `|`'') n ts1)"
    by (rule leaves_sep_rest, simp, rule leaves_expect_ident) (use 2 assms in simp_all)
  then have "leaves (length ts - 1) (and_then (sep_rest T_Pipe (expect_ident ''relationship type after `|`'') n ts1)
      (\<lambda>types ts2. Parsed (name # types) ts2))"
    by (rule leaves_bind) (use 2 in \<open>auto intro: leaves_Parsed\<close>)
  then show ?case by (simp add: leaves_Failed)
qed (rule assms(1))

lemma leaves_opt_int: "ends_with_eof ts \<Longrightarrow> leaves (length ts) (parse_opt_int_u32 ts)"
  using ends_bump [of ts] by (cases "peek ts") (simp_all add: parse_opt_int_u32_def leaves_def)

lemma leaves_var_len: "ends_with_eof ts \<Longrightarrow> leaves (length ts - 1) (parse_var_len ts)"
  unfolding parse_var_len_def
proof (rule leaves_bind [OF leaves_expect], goal_cases)
  case (3 t ts1)
  show ?case
  proof (rule leaves_bind [OF leaves_opt_int [OF 3(2)]], goal_cases)
    case (1 lo ts2)
    show ?case
    proof (cases "peek ts2 = T_DotDot")
      case True
      then show ?thesis using ends_tl [OF 1(1)] 1 3
        by (auto simp: eat_def intro!: leaves_bind [OF leaves_opt_int] leaves_Parsed)
    qed (use 1 3 in \<open>simp add: eat_def leaves_Parsed\<close>)
  qed
qed simp_all

lemma leaves_opt_types:
  assumes "ends_with_eof ts" "length ts \<le> n"
  shows "leaves (length ts) (let (colon, ts3) = eat T_Colon ts in if colon then parse_rel_types n ts3 else Parsed [] ts)"
proof (cases "peek ts = T_Colon")
  case True
  have "leaves (length (tl ts) - 1) (parse_rel_types n (tl ts))"
    by (rule leaves_rel_types) (use ends_tl [OF assms(1)] True assms(2) in auto)
  then show ?thesis using True by (auto simp: eat_def intro: leaves_mono)
qed (use assms in \<open>simp add: eat_def leaves_Parsed\<close>)

lemma leaves_opt_var_len:
  assumes "ends_with_eof ts"
  shows "leaves (length ts) (if peek ts = T_Star then and_then (parse_var_len ts) (\<lambda>v ts. Parsed (Some v) ts) else Parsed None ts)"
proof (cases "peek ts = T_Star")
  case True
  have "leaves (length ts - 1) (and_then (parse_var_len ts) (\<lambda>v ts. Parsed (Some v) ts))"
    by (rule leaves_bind [OF leaves_var_len [OF assms]]) (rule leaves_Parsed)
  then show ?thesis using True by (auto intro: leaves_mono)
qed (use assms in \<open>simp add: leaves_Parsed\<close>)

lemma leaves_rel_body:
  assumes "ends_with_eof ts" "2 * length ts + 1 \<le> n"
  shows "leaves (length ts) (parse_rel_body n ts)"
proof (cases "peek ts = T_LBracket")
  case True
  note tl = ends_tl [OF assms(1), unfolded True, simplified]
  obtain var ts2 where var: "parse_opt_ident (tl ts) = (var, ts2)" by fastforce
  have ts2: "ends_with_eof ts2" "length ts2 \<le> length ts - 1" using opt_ident_ends [OF tl(1)] var tl(2) by simp_all
  obtain colon ts3 where colon: "eat T_Colon ts2 = (colon, ts3)" by fastforce
  have "leaves (length ts) (and_then (if colon then parse_rel_types n ts3 else Parsed [] ts2) (\<lambda>types ts4.
      and_then (if peek ts4 = T_Star then and_then (parse_var_len ts4) (\<lambda>v ts. Parsed (Some v) ts) else Parsed None ts4) (\<lambda>len ts5.
        and_then (parse_opt_props n ts5) (\<lambda>props ts6.
          and_then (expect T_RBracket ''`]` to close the relationship'' ts6) (\<lambda>_ ts7. Parsed (var, types, len, props) ts7)))))"
  proof (rule leaves_bind)
    show "leaves (length ts2) (if colon then parse_rel_types n ts3 else Parsed [] ts2)"
      using leaves_opt_types [OF ts2(1), of n] ts2(2) assms(2) by (simp add: colon)
    fix types ts4
    assume ts4: "ends_with_eof ts4" "length ts4 \<le> length ts2"
    show "leaves (length ts) (and_then (if peek ts4 = T_Star then and_then (parse_var_len ts4) (\<lambda>v ts. Parsed (Some v) ts) else Parsed None ts4)
        (\<lambda>len ts5. and_then (parse_opt_props n ts5) (\<lambda>props ts6.
          and_then (expect T_RBracket ''`]` to close the relationship'' ts6) (\<lambda>_ ts7. Parsed (var, types, len, props) ts7))))"
    proof (rule leaves_bind [OF leaves_opt_var_len [OF ts4(1)]], goal_cases)
      case (1 len ts5)
      show ?case
      proof (rule leaves_bind [OF leaves_opt_props], goal_cases)
        case (3 props ts6)
        show ?case by (rule leaves_bind [OF leaves_expect]) (use 3 1 ts4 ts2 in \<open>auto intro!: leaves_Parsed\<close>)
      qed (use 1 ts4 ts2 assms in simp_all)
    qed
  qed
  then show ?thesis using True by (simp add: parse_rel_body_def eat_def var colon [unfolded eat_def])
qed (use assms in \<open>simp add: parse_rel_body_def eat_def leaves_Parsed\<close>)

lemma leaves_rel_pat:
  assumes "ends_with_eof ts" "2 * length ts \<le> n"
  shows "leaves (length ts - 1) (parse_rel_pat n ts)"
  unfolding parse_rel_pat_def
proof (rule leaves_bind)
  show "leaves (length ts - 1) (if peek ts = T_Dash then Parsed False (bump ts)
      else if peek ts = T_ArrowL then Parsed True (bump ts)
      else Failed (err_here ts ''expected `-` or `<-` to begin a relationship''))"
    using ends_bump [OF assms(1)] by (auto intro!: leaves_Parsed leaves_Failed)
next
  fix leading ts1
  assume 2: "ends_with_eof ts1" "length ts1 \<le> length ts - 1"
  have pos: "1 \<le> length ts" using ends_length [OF assms(1)] .
  show "leaves (length ts - 1) (and_then (parse_rel_body n ts1) (\<lambda>(var, types, len, props) ts2.
         and_then (if peek ts2 = T_ArrowR then Parsed True (bump ts2)
                   else if peek ts2 = T_Dash then Parsed False (bump ts2)
                   else Failed (err_here ts2 ''expected `->` or `-` to close a relationship'')) (\<lambda>trailing_forward ts3.
           if leading \<noteq> trailing_forward then
             Parsed \<lparr>rl_var = var, rl_direction = (if leading then AstBackward else AstForward),
               rl_types = types, rl_var_len = len, rl_props = props\<rparr> ts3
           else Failed (err_here ts3 ''ambiguous relationship direction: use `-[...]->` or `<-[...]-`''))))"
  proof (rule leaves_bind [OF leaves_rel_body], goal_cases)
    case (3 body ts2)
    obtain var types len props where body: "body = (var, types, len, props)" by (cases body)
    show ?case
      unfolding body prod.case
    proof (rule leaves_bind)
      show "leaves (length ts2 - 1) (if peek ts2 = T_ArrowR then Parsed True (bump ts2)
          else if peek ts2 = T_Dash then Parsed False (bump ts2)
          else Failed (err_here ts2 ''expected `->` or `-` to close a relationship''))"
        using ends_bump [OF 3(1)] by (auto intro!: leaves_Parsed leaves_Failed)
    qed (use 3 2 in \<open>auto intro!: leaves_Parsed leaves_Failed\<close>)
  qed (use 2 assms pos in linarith)+
qed

lemma leaves_steps:
  "ends_with_eof ts \<Longrightarrow> 2 * length ts + 1 \<le> n \<Longrightarrow> leaves (length ts) (parse_steps n ts)"
proof (induction n arbitrary: ts)
  case (Suc n)
  note pos = ends_length [OF Suc.prems(1)]
  have "leaves (length ts) (and_then (parse_rel_pat n ts) (\<lambda>rel ts1.
      and_then (parse_node_pat n ts1) (\<lambda>node ts2.
        and_then (parse_steps n ts2) (\<lambda>steps ts3. Parsed ((rel, node) # steps) ts3))))"
  proof (rule leaves_bind [OF leaves_rel_pat], goal_cases)
    case (3 rel ts1)
    show ?case
    proof (rule leaves_bind [OF leaves_node_pat], goal_cases)
      case (3 node ts2)
      show ?case
        by (rule leaves_bind [OF Suc.IH])
          (use 3 \<open>length ts1 \<le> length ts - 1\<close> ends_length [OF 3(1)] Suc.prems pos in \<open>auto intro!: leaves_Parsed\<close>)
    qed (use 3 Suc.prems pos in linarith)+
  qed (use Suc.prems in simp_all)
  then show ?case using Suc.prems by (simp add: leaves_Parsed)
qed simp

lemma path_var_ends:
  assumes "ends_with_eof ts"
  shows "ends_with_eof (snd (parse_path_var ts)) \<and> length (snd (parse_path_var ts)) \<le> length ts"
proof (cases "\<exists>name. peek ts = T_Ident name \<and> peek (tl ts) = T_Eq")
  case True
  then have "peek ts \<noteq> T_Eof" "peek (bump ts) \<noteq> T_Eof" by (auto simp: bump_def)
  then show ?thesis using True ends_bump [OF assms] ends_bump [of "bump ts"] by (auto simp: parse_path_var_def)
next
  case False
  then show ?thesis using assms by (cases "peek ts") (auto simp: parse_path_var_def)
qed

lemma leaves_path_pattern:
  assumes "ends_with_eof ts" "2 * length ts + 1 \<le> n"
  shows "leaves (length ts - 1) (parse_path_pattern n ts)"
proof -
  obtain var ts1 where var: "parse_path_var ts = (var, ts1)" by fastforce
  have ts1: "ends_with_eof ts1" "length ts1 \<le> length ts" using path_var_ends [OF assms(1)] var by simp_all
  show ?thesis
    unfolding parse_path_pattern_def var Let_def prod.case
  proof (rule leaves_bind [OF leaves_node_pat], goal_cases)
    case (3 start ts2)
    show ?case
      by (rule leaves_bind [OF leaves_steps]) (use 3 ts1 assms in \<open>auto intro!: leaves_Parsed\<close>)
  qed (use ts1 assms in linarith)+
qed

text \<open>A pattern predicate that is recognised consumes its first token.\<close>

lemma leaves_try_pattern:
  assumes "ends_with_eof ts" "2 * length ts + 1 \<le> n"
  shows "leaves (length ts) (try_pattern_predicate n ts)"
    "try_pattern_predicate n ts = Parsed (Some pat) ts' \<Longrightarrow> length ts' < length ts"
proof -
  have path: "leaves (length ts - 1) (and_then (parse_path_pattern n ts) (\<lambda>pat ts1.
      if pp_steps pat = [] then
        Failed (cql_error_new (peek_span ts1) ParseError ''a pattern predicate requires a relationship, e.g. `(m)<-[:CALLS]-()`'')
      else Parsed (Some pat) ts1))"
    by (rule leaves_bind [OF leaves_path_pattern [OF assms]]) (auto intro!: leaves_Parsed leaves_Failed)
  then show "leaves (length ts) (try_pattern_predicate n ts)"
    using assms(1) leaves_mono [OF path, of "length ts"] by (simp add: try_pattern_predicate_def leaves_Parsed)
  show "length ts' < length ts" if "try_pattern_predicate n ts = Parsed (Some pat) ts'"
    using that path ends_length [OF assms(1)]
    by (auto simp: try_pattern_predicate_def leaves_def split: if_splits)
qed

subsection \<open>Expressions\<close>

text \<open>
  The fuel a method needs beyond twelve per token: a method that calls another without consuming a
  token needs more than it.
\<close>

definition complete_at :: "nat \<Rightarrow> bool" where
  "complete_at m \<longleftrightarrow> (\<forall>ts. ends_with_eof ts \<longrightarrow>
     (12 * length ts + 8 \<le> m \<longrightarrow> leaves (length ts - 1) (px_or (parsers_at m) ts)) \<and>
     (\<forall>e. 12 * length ts + 1 \<le> m \<longrightarrow> leaves (length ts) (px_or_loop (parsers_at m) e ts)) \<and>
     (12 * length ts + 7 \<le> m \<longrightarrow> leaves (length ts - 1) (px_and (parsers_at m) ts)) \<and>
     (\<forall>e. 12 * length ts + 1 \<le> m \<longrightarrow> leaves (length ts) (px_and_loop (parsers_at m) e ts)) \<and>
     (12 * length ts + 6 \<le> m \<longrightarrow> leaves (length ts - 1) (px_not (parsers_at m) ts)) \<and>
     (12 * length ts + 5 \<le> m \<longrightarrow> leaves (length ts - 1) (px_comparison (parsers_at m) ts)) \<and>
     (12 * length ts + 4 \<le> m \<longrightarrow> leaves (length ts - 1) (px_primary (parsers_at m) ts)) \<and>
     (12 * length ts + 1 \<le> m \<longrightarrow> leaves (length ts - 1) (px_args (parsers_at m) ts)) \<and>
     (12 * length ts + 1 \<le> m \<longrightarrow> leaves (length ts - 1) (px_list_comp (parsers_at m) ts)) \<and>
     (12 * length ts + 1 \<le> m \<longrightarrow> leaves (length ts - 1) (px_quantifier (parsers_at m) ts)))"

lemma complete_atD:
  assumes "complete_at m" "ends_with_eof ts"
  shows "12 * length ts + 8 \<le> m \<Longrightarrow> leaves (length ts - 1) (px_or (parsers_at m) ts)"
    "12 * length ts + 1 \<le> m \<Longrightarrow> leaves (length ts) (px_or_loop (parsers_at m) e ts)"
    "12 * length ts + 7 \<le> m \<Longrightarrow> leaves (length ts - 1) (px_and (parsers_at m) ts)"
    "12 * length ts + 1 \<le> m \<Longrightarrow> leaves (length ts) (px_and_loop (parsers_at m) e ts)"
    "12 * length ts + 6 \<le> m \<Longrightarrow> leaves (length ts - 1) (px_not (parsers_at m) ts)"
    "12 * length ts + 5 \<le> m \<Longrightarrow> leaves (length ts - 1) (px_comparison (parsers_at m) ts)"
    "12 * length ts + 4 \<le> m \<Longrightarrow> leaves (length ts - 1) (px_primary (parsers_at m) ts)"
    "12 * length ts + 1 \<le> m \<Longrightarrow> leaves (length ts - 1) (px_args (parsers_at m) ts)"
    "12 * length ts + 1 \<le> m \<Longrightarrow> leaves (length ts - 1) (px_list_comp (parsers_at m) ts)"
    "12 * length ts + 1 \<le> m \<Longrightarrow> leaves (length ts - 1) (px_quantifier (parsers_at m) ts)"
  using assms unfolding complete_at_def by blast+

lemma leaves_or:
  assumes ih: "complete_at m" and ends: "ends_with_eof ts" and fuel: "12 * length ts + 8 \<le> Suc m"
  shows "leaves (length ts - 1) (parse_or (parsers_at m) ts)"
  unfolding parse_or_def
proof (rule leaves_bind [OF complete_atD(3) [OF ih ends]], goal_cases)
  case (2 e ts1)
  have "leaves (length ts1) (px_or_loop (parsers_at m) e ts1)"
    by (rule complete_atD(2) [OF ih 2(1)]) (use 2 ends fuel ends_length [OF ends] in linarith)
  then show ?case by (rule leaves_mono) (rule 2(2))
qed (use ends fuel in simp)

lemma leaves_or_loop:
  assumes ih: "complete_at m" and ends: "ends_with_eof ts" and fuel: "12 * length ts + 1 \<le> Suc m"
  shows "leaves (length ts) (or_loop (parsers_at m) lhs ts)"
proof (cases "peek ts = T_Or")
  case True
  note b = ends_bump [OF ends, unfolded True, simplified]
  have "leaves (length ts) (and_then (px_and (parsers_at m) (bump ts))
      (\<lambda>rhs ts1. px_or_loop (parsers_at m) (EBinary BOr lhs rhs (peek_span ts)) ts1))"
  proof (rule leaves_bind [OF complete_atD(3) [OF ih]], goal_cases)
    case (3 e ts1)
    have "leaves (length ts1) (px_or_loop (parsers_at m) (EBinary BOr lhs e (peek_span ts)) ts1)"
      by (rule complete_atD(2) [OF ih 3(1)]) (use 3 b ends fuel in linarith)
    then show ?case by (rule leaves_mono) (use 3 b in linarith)
  qed (use b ends fuel in linarith)+
  then show ?thesis using True by (simp add: or_loop_def)
qed (use ends fuel in \<open>simp add: or_loop_def leaves_Parsed\<close>)

lemma leaves_and:
  assumes ih: "complete_at m" and ends: "ends_with_eof ts" and fuel: "12 * length ts + 7 \<le> Suc m"
  shows "leaves (length ts - 1) (parse_and (parsers_at m) ts)"
  unfolding parse_and_def
proof (rule leaves_bind [OF complete_atD(5) [OF ih ends]], goal_cases)
  case (2 e ts1)
  have "leaves (length ts1) (px_and_loop (parsers_at m) e ts1)"
    by (rule complete_atD(4) [OF ih 2(1)]) (use 2 ends fuel ends_length [OF ends] in linarith)
  then show ?case by (rule leaves_mono) (rule 2(2))
qed (use ends fuel in simp)

lemma leaves_and_loop:
  assumes ih: "complete_at m" and ends: "ends_with_eof ts" and fuel: "12 * length ts + 1 \<le> Suc m"
  shows "leaves (length ts) (and_loop (parsers_at m) lhs ts)"
proof (cases "peek ts = T_And")
  case True
  note b = ends_bump [OF ends, unfolded True, simplified]
  have "leaves (length ts) (and_then (px_not (parsers_at m) (bump ts))
      (\<lambda>rhs ts1. px_and_loop (parsers_at m) (EBinary BAnd lhs rhs (peek_span ts)) ts1))"
  proof (rule leaves_bind [OF complete_atD(5) [OF ih]], goal_cases)
    case (3 e ts1)
    have "leaves (length ts1) (px_and_loop (parsers_at m) (EBinary BAnd lhs e (peek_span ts)) ts1)"
      by (rule complete_atD(4) [OF ih 3(1)]) (use 3 b ends fuel in linarith)
    then show ?case by (rule leaves_mono) (use 3 b in linarith)
  qed (use b ends fuel in linarith)+
  then show ?thesis using True by (simp add: and_loop_def)
qed (use ends fuel in \<open>simp add: and_loop_def leaves_Parsed\<close>)

lemma try_pattern_None: "try_pattern_predicate n ts = Parsed None ts' \<Longrightarrow> ts' = ts"
  by (cases "parse_path_pattern n ts") (auto simp: try_pattern_predicate_def split: if_splits)

lemma leaves_not:
  assumes ih: "complete_at m" and ends: "ends_with_eof ts" and fuel: "12 * length ts + 6 \<le> Suc m"
  shows "leaves (length ts - 1) (parse_not (parsers_at m) ts)"
proof (cases "peek ts = T_Not")
  case True
  note b = ends_bump [OF ends, unfolded True, simplified]
  have pred: "leaves (length (bump ts)) (try_pattern_predicate m (bump ts))"
    by (rule leaves_try_pattern(1)) (use b ends fuel in linarith)+
  have "leaves (length ts - 1) (and_then (try_pattern_predicate m (bump ts)) (\<lambda>pat ts1.
      case pat of Some pattern \<Rightarrow> Parsed (EPattern True pattern) ts1
      | None \<Rightarrow> and_then (px_not (parsers_at m) ts1) (\<lambda>e ts2. Parsed (ENot e) ts2)))"
  proof (rule leaves_bind [OF pred], goal_cases)
    case (1 pat ts1)
    have "leaves (length ts1 - 1) (and_then (px_not (parsers_at m) ts1) (\<lambda>e ts2. Parsed (ENot e) ts2))"
      by (rule leaves_bind [OF complete_atD(5) [OF ih 1(1)]]) (use 1 b ends fuel in \<open>auto intro: leaves_Parsed\<close>)
    then have "leaves (length ts - 1) (and_then (px_not (parsers_at m) ts1) (\<lambda>e ts2. Parsed (ENot e) ts2))"
      by (rule leaves_mono) (use 1 b in linarith)
    then show ?case using 1 b by (auto split: option.split intro: leaves_Parsed)
  qed
  then show ?thesis using True by (simp add: parse_not_def)
next
  case False
  have bound: "2 * length ts + 1 \<le> m" using fuel by linarith
  show ?thesis
  proof (cases "try_pattern_predicate m ts")
    case (Parsed pat ts1)
    have ts1: "ends_with_eof ts1" using leaves_try_pattern(1) [OF ends bound] Parsed by (simp add: leaves_def)
    show ?thesis
    proof (cases pat)
      case None
      then have "ts1 = ts" using try_pattern_None Parsed by blast
      then show ?thesis using complete_atD(6) [OF ih ends] fuel False Parsed None by (simp add: parse_not_def)
    next
      case (Some p)
      then have "length ts1 \<le> length ts - 1"
        using leaves_try_pattern(2) [OF ends bound] Parsed by fastforce
      then show ?thesis using ts1 False Parsed Some by (simp add: parse_not_def leaves_Parsed)
    qed
  next
    case OutOfFuel
    then show ?thesis using leaves_try_pattern(1) [OF ends bound] by (simp add: leaves_def)
  qed (use False in \<open>simp add: parse_not_def leaves_Failed\<close>)
qed

lemma comparison_op_eof: "comparison_op k = Some op \<Longrightarrow> k \<noteq> T_Eof"
  by auto

lemma leaves_comparison:
  assumes ih: "complete_at m" and ends: "ends_with_eof ts" and fuel: "12 * length ts + 5 \<le> Suc m"
  shows "leaves (length ts - 1) (parse_comparison (parsers_at m) ts)"
  unfolding parse_comparison_def
proof (rule leaves_bind [OF complete_atD(7) [OF ih ends]], goal_cases)
  case (2 lhs ts1)
  show ?case
  proof (cases "comparison_op (peek ts1)")
    case (Some op)
    note b = ends_bump [OF 2(1) comparison_op_eof [OF Some]]
    have "leaves (length ts - 1) (and_then (px_primary (parsers_at m) (bump ts1))
        (\<lambda>rhs ts2. Parsed (EBinary op lhs rhs (peek_span ts1)) ts2))"
    proof (rule leaves_bind [OF complete_atD(7) [OF ih]], goal_cases)
      case (3 rhs ts2)
      then show ?case using b 2 by (auto intro: leaves_Parsed)
    qed (use b 2 ends fuel in linarith)+
    then show ?thesis using Some by simp
  qed (use 2 in \<open>simp add: leaves_Parsed leaves_Failed\<close>)
qed (use ends fuel in simp)

lemma leaves_segments: "ends_with_eof ts \<Longrightarrow> length ts \<le> n \<Longrightarrow> leaves (length ts) (property_segments n ts)"
proof (induction n arbitrary: ts)
  case 0
  then show ?case using ends_length [of ts] by simp
next
  case (Suc n)
  show ?case
  proof (cases "peek ts = T_Dot")
    case True
    note tl = ends_tl [OF Suc.prems(1), unfolded True, simplified]
    have "leaves (length ts) (and_then (expect_ident ''property name after `.`'' (tl ts)) (\<lambda>seg ts2.
        and_then (property_segments n ts2) (\<lambda>segs ts3. Parsed (seg # segs) ts3)))"
    proof (rule leaves_bind [OF leaves_expect_ident [OF tl(1)]], goal_cases)
      case (1 seg ts2)
      show ?case by (rule leaves_bind [OF Suc.IH]) (use 1 tl Suc.prems in \<open>auto intro: leaves_Parsed\<close>)
    qed
    then show ?thesis using True by (simp add: eat_def)
  qed (use Suc.prems in \<open>simp add: eat_def leaves_Parsed\<close>)
qed

lemma leaves_literal_expr:
  "ends_with_eof ts \<Longrightarrow> 2 * length ts + 2 \<le> n \<Longrightarrow>
    leaves (length ts - 1) (and_then (parse_literal n ts) (\<lambda>v ts1. Parsed (ELiteral v) ts1))"
  "ends_with_eof ts \<Longrightarrow> 2 * length ts + 1 \<le> n \<Longrightarrow>
    leaves (length ts - 1) (and_then (parse_list_literal n ts) (\<lambda>v ts1. Parsed (ELiteral v) ts1))"
  by (rule leaves_bind [OF leaves_literals(1)] leaves_bind [OF leaves_literals(2)]; auto intro: leaves_Parsed)+

lemma leaves_paren:
  assumes ih: "complete_at m" and ends: "ends_with_eof ts" and fuel: "12 * length ts + 4 \<le> Suc m" and "peek ts = T_LParen"
  shows "leaves (length ts - 1) (and_then (px_or (parsers_at m) (bump ts)) (\<lambda>e ts1.
    and_then (expect T_RParen ''`)` to close a parenthesised expression'' ts1) (\<lambda>_ ts2. Parsed e ts2)))"
proof -
  have b: "ends_with_eof (bump ts)" "length (bump ts) = length ts - 1" "2 \<le> length ts"
    using ends_bump [OF ends] assms(4) by auto
  show ?thesis
  proof (rule leaves_bind [OF complete_atD(1) [OF ih b(1)]], goal_cases)
    case (2 e ts1)
    show ?case by (rule leaves_bind [OF leaves_expect]) (use 2 b in \<open>auto intro: leaves_Parsed\<close>)
  qed (use b fuel in linarith)
qed

lemma leaves_name:
  assumes ih: "complete_at m" and ends: "ends_with_eof ts" and fuel: "12 * length ts + 4 \<le> Suc m" and "peek ts = T_Ident name"
  shows "leaves (length ts - 1)
    (let head = spanned_new name (peek_span ts) in
     if peek (bump ts) = T_LParen then
       and_then (px_args (parsers_at m) (bump ts)) (\<lambda>args ts1. Parsed (ECall head args) ts1)
     else and_then (property_segments m (bump ts)) (\<lambda>segments ts1. Parsed (EProperty head segments) ts1))"
proof -
  have b: "ends_with_eof (bump ts)" "length (bump ts) = length ts - 1" "2 \<le> length ts"
    using ends_bump [OF ends] assms(4) by auto
  have "leaves (length ts - 1) (and_then (px_args (parsers_at m) (bump ts)) (\<lambda>args ts1. Parsed (ECall h args) ts1))" for h
    by (rule leaves_bind [OF complete_atD(8) [OF ih b(1)]]) (use b fuel in \<open>auto intro: leaves_Parsed\<close>)
  moreover have "leaves (length ts - 1) (and_then (property_segments m (bump ts)) (\<lambda>segments ts1. Parsed (EProperty h segments) ts1))" for h
    by (rule leaves_bind [OF leaves_segments [OF b(1)]]) (use b fuel in \<open>auto intro: leaves_Parsed\<close>)
  ultimately show ?thesis by (simp add: Let_def)
qed

lemma leaves_primary:
  assumes ih: "complete_at m" and ends: "ends_with_eof ts" and fuel: "12 * length ts + 4 \<le> Suc m"
  shows "leaves (length ts - 1) (parse_primary (parsers_at m) ts)"
proof -
  have lit: "leaves (length ts - 1) (and_then (parse_literal m ts) (\<lambda>v ts1. Parsed (ELiteral v) ts1))"
    "leaves (length ts - 1) (and_then (parse_list_literal m ts) (\<lambda>v ts1. Parsed (ELiteral v) ts1))"
    by (rule leaves_literal_expr; use ends fuel ends_length [OF ends] in linarith)+
  have rec: "leaves (length ts - 1) (px_list_comp (parsers_at m) ts)" "leaves (length ts - 1) (px_quantifier (parsers_at m) ts)"
    using complete_atD(9,10) [OF ih ends] fuel by simp_all
  show ?thesis
    using leaves_paren [OF ih ends fuel] leaves_name [OF ih ends fuel] lit rec
    unfolding parse_primary_def parsers_at_fuel
    by (cases "peek ts") (simp_all add: leaves_Failed del: One_nat_def)
qed

lemma leaves_args:
  assumes ih: "complete_at m" and ends: "ends_with_eof ts" and fuel: "12 * length ts + 1 \<le> Suc m"
  shows "leaves (length ts - 1) (parse_args (parsers_at m) ts)"
  unfolding parse_args_def parsers_at_fuel
proof (rule leaves_bind [OF leaves_expect [OF ends]], goal_cases)
  case (2 t ts1)
  have "leaves (length ts1 - 1) (sep_list T_Comma (px_or (parsers_at m)) m ts1)"
  proof (rule leaves_sep_list)
    show "leaves (length ts' - 1) (px_or (parsers_at m) ts')" if "ends_with_eof ts'" "length ts' \<le> length ts1" for ts'
      by (rule complete_atD(1) [OF ih that(1)]) (use that 2 fuel ends_length [OF ends] in linarith)
  qed (use 2 fuel ends_length [OF ends] in simp_all)
  then have list: "leaves (length ts1) (sep_list T_Comma (px_or (parsers_at m)) m ts1)" by (rule leaves_mono) simp
  have star: "peek ts1 = T_Star \<Longrightarrow> ends_with_eof (bump ts1) \<and> length (bump ts1) \<le> length ts1" using ends_bump [OF 2(1)] by simp
  have "leaves (length ts1) (if peek ts1 = T_Star then Parsed [EProperty (spanned_new ''*'' (peek_span ts1)) []] (bump ts1)
      else if peek ts1 \<noteq> T_RParen then sep_list T_Comma (px_or (parsers_at m)) m ts1 else Parsed [] ts1)"
    using list star 2(1) by (auto intro: leaves_Parsed)
  then show ?case
  proof (rule leaves_bind, goal_cases)
    case (1 args ts2)
    show ?case by (rule leaves_bind [OF leaves_expect]) (use 1 2 in \<open>auto intro: leaves_Parsed\<close>)
  qed
qed simp

lemma leaves_opt_filter:
  assumes ends: "ends_with_eof ts" and p: "\<And>ts'. ends_with_eof ts' \<Longrightarrow> length ts' < length ts \<Longrightarrow> leaves (length ts' - 1) (p ts')"
  shows "leaves (length ts) (let (filtered, ts5) = eat T_Where ts in
    if filtered then and_then (p ts5) (\<lambda>e ts. Parsed (Some e) ts) else Parsed None ts)"
proof (cases "peek ts = T_Where")
  case True
  note tl = ends_tl [OF ends, unfolded True, simplified]
  have "leaves (length ts) (and_then (p (tl ts)) (\<lambda>e ts. Parsed (Some e) ts))"
    by (rule leaves_bind [OF p [OF tl(1)]]) (use tl in \<open>auto intro: leaves_Parsed\<close>)
  then show ?thesis using True by (simp add: eat_def)
qed (use ends in \<open>simp add: eat_def leaves_Parsed\<close>)

lemma leaves_list_comp:
  assumes ih: "complete_at m" and ends: "ends_with_eof ts" and fuel: "12 * length ts + 1 \<le> Suc m"
  shows "leaves (length ts - 1) (parse_list_comp (parsers_at m) ts)"
proof -
  have sub: "leaves (length ts' - 1) (px_or (parsers_at m) ts')" if "ends_with_eof ts'" "length ts' \<le> length ts - 1" for ts'
    by (rule complete_atD(1) [OF ih that(1)]) (use that fuel ends_length [OF that(1)] in linarith)
  show ?thesis
    unfolding parse_list_comp_def
  proof (rule leaves_bind [OF leaves_expect [OF ends]], simp, rule leaves_bind [OF leaves_expect_ident], assumption,
      rule leaves_bind [OF leaves_expect], assumption, simp, rule leaves_bind [OF sub], assumption, linarith, goal_cases)
    case (1 t1 ts1 var ts2 t2 ts3 list ts4)
    obtain filtered ts5 where eat: "eat T_Where ts4 = (filtered, ts5)" by fastforce
    have filt: "leaves (length ts4) (if filtered then and_then (px_or (parsers_at m) ts5) (\<lambda>e ts. Parsed (Some e) ts) else Parsed None ts4)"
      using leaves_opt_filter [of ts4 "px_or (parsers_at m)"] 1 sub by (simp add: eat)
    show ?case
      unfolding eat Let_def prod.case
    proof (rule leaves_bind [OF filt], rule leaves_bind [OF leaves_expect], assumption, simp, rule leaves_bind [OF sub], assumption, goal_cases)
      case (2 filt ts6 t3 ts7 proj ts8)
      show ?case by (rule leaves_bind [OF leaves_expect]) (use 1 2 in \<open>auto intro: leaves_Parsed\<close>)
    qed (use 1 in linarith)
  qed
qed

lemma leaves_quantifier:
  assumes ih: "complete_at m" and ends: "ends_with_eof ts" and fuel: "12 * length ts + 1 \<le> Suc m"
  shows "leaves (length ts - 1) (parse_quantifier (parsers_at m) ts)"
proof (cases "quantifier_of (peek ts)")
  case (Some kind)
  have sub: "leaves (length ts' - 1) (px_or (parsers_at m) ts')" if "ends_with_eof ts'" "length ts' \<le> length ts - 1" for ts'
    by (rule complete_atD(1) [OF ih that(1)]) (use that fuel ends_length [OF that(1)] in linarith)
  have "peek ts \<noteq> T_Eof" using Some by auto
  note b = ends_bump [OF ends this]
  have "leaves (length ts - 1) (and_then (expect T_LParen ''`(` after a quantifier'' (bump ts)) (\<lambda>_ ts1.
      and_then (expect_ident ''quantifier variable'' ts1) (\<lambda>var ts2.
        and_then (expect T_In ''IN in a quantifier'' ts2) (\<lambda>_ ts3.
          and_then (px_or (parsers_at m) ts3) (\<lambda>list ts4.
            and_then (expect T_Where ''WHERE in a quantifier'' ts4) (\<lambda>_ ts5.
              and_then (px_or (parsers_at m) ts5) (\<lambda>predicate ts6.
                and_then (expect T_RParen ''`)` to close the quantifier'' ts6) (\<lambda>_ ts7.
                  Parsed (EQuantifier kind (sv_value var) list predicate) ts7))))))))"
  proof (rule leaves_bind [OF leaves_expect], goal_cases)
    case (3 t0 ts1)
    show ?case
    proof (rule leaves_bind [OF leaves_expect_ident], rule 3, rule leaves_bind [OF leaves_expect], assumption, simp,
        rule leaves_bind [OF sub], assumption, goal_cases)
      case (2 var ts2 t ts3 list ts4)
      note list = 2
      show ?case
      proof (rule leaves_bind [OF leaves_expect], rule 2, simp, rule leaves_bind [OF sub], assumption, goal_cases)
        case (2 t ts5 predicate ts6)
        show ?case by (rule leaves_bind [OF leaves_expect]) (use 2 list 3 b in \<open>auto intro: leaves_Parsed\<close>)
      qed (use 2 3 b in linarith)
    qed (use 3 b in linarith)
  qed (use b in simp_all)
  then show ?thesis using Some by (simp add: parse_quantifier_def)
qed (simp add: parse_quantifier_def leaves_Failed)

lemma complete_at_all: "complete_at m"
proof (induction m)
  case 0
  then show ?case by (simp add: complete_at_def)
next
  case (Suc m)
  show ?case
    unfolding complete_at_def parsers_at_Suc
    using leaves_or [OF Suc] leaves_or_loop [OF Suc] leaves_and [OF Suc] leaves_and_loop [OF Suc] leaves_not [OF Suc]
      leaves_comparison [OF Suc] leaves_primary [OF Suc] leaves_args [OF Suc] leaves_list_comp [OF Suc] leaves_quantifier [OF Suc]
    by blast
qed

lemma leaves_expr: "ends_with_eof ts \<Longrightarrow> 12 * length ts + 8 \<le> n \<Longrightarrow> leaves (length ts - 1) (parse_expr n ts)"
  unfolding parse_expr_def by (rule complete_atD(1) [OF complete_at_all])

subsection \<open>Clauses\<close>

lemma leaves_alias: "ends_with_eof ts \<Longrightarrow> leaves (length ts) (parse_alias ts)"
  using ends_tl [of ts] by (auto simp: parse_alias_def eat_def intro!: leaves_Parsed leaves_bind [OF leaves_expect_ident])

lemma leaves_opt_where:
  assumes "ends_with_eof ts" "12 * length ts \<le> n"
  shows "leaves (length ts) (parse_opt_where n ts)"
  unfolding parse_opt_where_def
  by (rule leaves_opt_filter [OF assms(1)], rule leaves_expr) (use assms in simp_all)

lemma leaves_match:
  assumes "ends_with_eof ts" "12 * length ts + 1 \<le> n"
  shows "leaves (length ts - 1) (parse_match n ts)"
  unfolding parse_match_def
proof (rule leaves_bind [OF leaves_expect [OF assms(1)]], simp, goal_cases)
  case (1 t ts1)
  have "leaves (length ts1 - 1) (sep_list T_Comma (parse_path_pattern n) n ts1)"
    by (rule leaves_sep_list, simp, rule leaves_path_pattern) (use 1 assms in simp_all)
  then have "leaves (length ts - 1) (and_then (sep_list T_Comma (parse_path_pattern n) n ts1) (\<lambda>patterns ts2.
      and_then (parse_opt_where n ts2) (\<lambda>filt ts3. Parsed \<lparr>mc_patterns = patterns, mc_where = filt\<rparr> ts3)))"
  proof (rule leaves_bind, goal_cases)
    case (1 patterns ts2)
    show ?case
      by (rule leaves_bind [OF leaves_opt_where]) (use 1 \<open>length ts1 \<le> length ts - 1\<close> assms in \<open>auto intro: leaves_Parsed\<close>)
  qed
  then show ?case by (simp add: leaves_Failed)
qed

lemma leaves_proc_segments: "ends_with_eof ts \<Longrightarrow> length ts \<le> n \<Longrightarrow> leaves (length ts) (proc_segments n name ts)"
proof (induction n arbitrary: ts name)
  case 0
  then show ?case using ends_length [of ts] by simp
next
  case (Suc n)
  show ?case
  proof (cases "peek ts = T_Dot")
    case True
    note tl = ends_tl [OF Suc.prems(1), unfolded True, simplified]
    have "leaves (length ts) (and_then (expect_ident ''procedure name segment after `.`'' (tl ts)) (\<lambda>seg ts2.
        proc_segments n (spanned_new (sv_value name @ ''.'' @ sv_value seg) (fst (sv_span name), snd (sv_span seg))) ts2))"
    proof (rule leaves_bind [OF leaves_expect_ident [OF tl(1)]], goal_cases)
      case (1 seg ts2)
      show ?case by (rule leaves_mono [OF Suc.IH]) (use 1 tl Suc.prems in auto)
    qed
    then show ?thesis using True by (simp add: eat_def)
  qed (use Suc.prems in \<open>simp add: eat_def leaves_Parsed\<close>)
qed

lemma leaves_yield_item: "ends_with_eof ts \<Longrightarrow> leaves (length ts - 1) (parse_yield_item ts)"
  unfolding parse_yield_item_def
  by (rule leaves_bind [OF leaves_expect_ident], assumption, rule leaves_bind [OF leaves_alias]) (auto intro: leaves_Parsed)

lemma leaves_call:
  assumes "ends_with_eof ts" "12 * length ts + 1 \<le> n"
  shows "leaves (length ts - 1) (parse_call n ts)"
  unfolding parse_call_def
proof (rule leaves_bind [OF leaves_expect [OF assms(1)]], simp, rule leaves_bind [OF leaves_expect_ident], assumption,
    rule leaves_bind [OF leaves_proc_segments], assumption, goal_cases)
  case (2 t ts1 name ts2 proc ts3)
  note name = 2
  show ?case
  proof (rule leaves_bind [OF leaves_expect], rule 2, simp, goal_cases)
    case (1 t ts4)
    have "leaves (length ts4 - 1) (sep_list T_Comma (parse_expr n) n ts4)"
      by (rule leaves_sep_list, simp, rule leaves_expr) (use 1 name assms ends_length [OF assms(1)] in simp_all)
    then have list: "leaves (length ts4) (if peek ts4 \<noteq> T_RParen then sep_list T_Comma (parse_expr n) n ts4 else Parsed [] ts4)"
      using 1 by (auto intro: leaves_mono leaves_Parsed)
    show ?case
    proof (rule leaves_bind [OF list], rule leaves_bind [OF leaves_expect], assumption, simp,
        rule leaves_bind [OF leaves_expect], assumption, simp, goal_cases)
      case (1 args ts5 t ts6 t' ts7)
      have "leaves (length ts7 - 1) (sep_list T_Comma parse_yield_item n ts7)"
        by (rule leaves_sep_list, simp, rule leaves_yield_item)
          (use 1 \<open>length ts4 \<le> length ts3 - 1\<close> name assms in simp_all)
      then show ?case
      proof (rule leaves_bind, goal_cases)
        case (1 yields ts8)
        show ?case
          by (rule leaves_bind [OF leaves_opt_where])
            (use 1 \<open>length ts7 \<le> length ts6 - 1\<close> \<open>length ts6 \<le> length ts5 - 1\<close> \<open>length ts5 \<le> length ts4\<close>
              \<open>length ts4 \<le> length ts3 - 1\<close> name assms in \<open>auto intro: leaves_Parsed\<close>)
      qed
    qed
  qed
qed (use assms in linarith)

lemma leaves_return_item:
  "ends_with_eof ts \<Longrightarrow> 12 * length ts + 8 \<le> n \<Longrightarrow> leaves (length ts - 1) (parse_return_item n ts)"
  unfolding parse_return_item_def
  by (rule leaves_bind [OF leaves_expr], assumption, assumption, rule leaves_bind [OF leaves_alias]) (auto intro: leaves_Parsed)

lemma leaves_return_items:
  assumes "ends_with_eof ts" "12 * length ts + 8 \<le> n"
  shows "leaves (length ts - 1) (parse_return_items n ts)"
  unfolding parse_return_items_def
  by (rule leaves_sep_list, simp, rule leaves_return_item) (use assms in simp_all)

lemma leaves_sort_item:
  assumes "ends_with_eof ts" "12 * length ts + 8 \<le> n"
  shows "leaves (length ts - 1) (parse_sort_item n ts)"
  unfolding parse_sort_item_def
proof (rule leaves_bind [OF leaves_expr [OF assms]], goal_cases)
  case (1 e ts1)
  have "length (tl ts1) \<le> length ts - 1" using 1(2) by simp
  then show ?case using 1 ends_tl [OF 1(1)] by (auto simp: eat_def intro: leaves_Parsed)
qed

lemma leaves_opt_order_by:
  assumes "ends_with_eof ts" "12 * length ts \<le> n"
  shows "leaves (length ts) (parse_opt_order_by n ts)"
proof (cases "peek ts = T_Order")
  case True
  note tl = ends_tl [OF assms(1), unfolded True, simplified]
  have "leaves (length ts) (and_then (expect T_By ''BY after ORDER'' (tl ts)) (\<lambda>_ ts2. sep_list T_Comma (parse_sort_item n) n ts2))"
  proof (rule leaves_bind [OF leaves_expect [OF tl(1)]], simp, goal_cases)
    case (1 t ts2)
    have "leaves (length ts2 - 1) (sep_list T_Comma (parse_sort_item n) n ts2)"
      by (rule leaves_sep_list, simp, rule leaves_sort_item) (use 1 tl assms in simp_all)
    then show ?case by (rule leaves_mono) (use 1 tl in simp)
  qed
  then show ?thesis using True by (simp add: parse_opt_order_by_def eat_def)
qed (use assms in \<open>simp add: parse_opt_order_by_def eat_def leaves_Parsed\<close>)

lemma leaves_opt_limit:
  assumes "ends_with_eof ts"
  shows "leaves (length ts) (parse_opt_limit ts)"
proof (cases "peek ts = T_Limit")
  case True
  note tl = ends_tl [OF assms(1), unfolded True, simplified]
  show ?thesis
    using True tl ends_bump [OF tl(1)]
    by (cases "peek (tl ts)") (simp_all add: parse_opt_limit_def eat_def leaves_Parsed leaves_Failed)
qed (use assms in \<open>simp add: parse_opt_limit_def eat_def leaves_Parsed\<close>)

lemma eat_ends: "ends_with_eof ts \<Longrightarrow> kind \<noteq> T_Eof \<Longrightarrow> ends_with_eof (snd (eat kind ts)) \<and> length (snd (eat kind ts)) \<le> length ts"
  using ends_tl [of ts] by (simp add: eat_def)

lemma leaves_return:
  assumes "ends_with_eof ts" "12 * length ts \<le> n"
  shows "leaves (length ts - 1) (parse_return n ts)"
  unfolding parse_return_def
proof (rule leaves_bind [OF leaves_expect [OF assms(1)]], simp, goal_cases)
  case (1 t ts1)
  obtain d ts2 where d: "eat T_Distinct ts1 = (d, ts2)" by fastforce
  have ts2: "ends_with_eof ts2" "length ts2 \<le> length ts1" using eat_ends [OF 1(1), of T_Distinct] d by simp_all
  show ?case
    unfolding d Let_def prod.case
  proof (rule leaves_bind [OF leaves_return_items [OF ts2(1)]], goal_cases)
    case (2 items ts3)
    show ?case
    proof (rule leaves_bind [OF leaves_opt_order_by], rule 2, goal_cases)
      case (2 ob ts4)
      show ?case
        by (rule leaves_bind [OF leaves_opt_limit])
          (use 1 2 ts2 \<open>length ts3 \<le> length ts2 - 1\<close> in \<open>auto intro: leaves_Parsed\<close>)
    qed (use 1 2 ts2 assms in linarith)
  qed (use 1 ts2 assms ends_length [OF assms(1)] in linarith)
qed

lemma leaves_with:
  assumes "ends_with_eof ts" "12 * length ts + 8 \<le> n"
  shows "leaves (length ts - 1) (parse_with n ts)"
proof -
  obtain d ts1 where d: "eat T_Distinct ts = (d, ts1)" by fastforce
  have ts1: "ends_with_eof ts1" "length ts1 \<le> length ts" using eat_ends [OF assms(1), of T_Distinct] d by simp_all
  show ?thesis
    unfolding parse_with_def d Let_def prod.case
  proof (rule leaves_bind [OF leaves_return_items [OF ts1(1)]], goal_cases)
    case (2 items ts2)
    note items = 2
    show ?case
    proof (rule leaves_bind [OF leaves_opt_order_by], rule 2, goal_cases)
      case (2 ob ts3)
      note ob = 2
      show ?case
      proof (rule leaves_bind [OF leaves_opt_limit], rule 2, goal_cases)
        case (1 limit ts4)
        show ?case
          by (rule leaves_bind [OF leaves_opt_where]) (use 1 ob items ts1 assms in \<open>auto intro: leaves_Parsed\<close>)
      qed
    qed (use 2 ts1 assms in linarith)
  qed (use ts1 assms in linarith)
qed

lemma leaves_reading:
  "ends_with_eof ts \<Longrightarrow> 12 * length ts + 2 \<le> n \<Longrightarrow> leaves (length ts) (parse_reading n ts)"
proof (induction n arbitrary: ts)
  case (Suc n)
  have step: "leaves (length ts) (and_then r (\<lambda>x ts1. and_then (parse_reading n ts1) (\<lambda>rs ts2. Parsed (f x # rs) ts2)))"
    if "leaves (length ts - 1) r" for r :: "'b reply" and f
    using that
  proof (rule leaves_bind, goal_cases)
    case (1 x ts1)
    show ?case
      by (rule leaves_bind [OF Suc.IH]) (use 1 Suc.prems ends_length [OF Suc.prems(1)] in \<open>auto intro: leaves_Parsed\<close>)
  qed
  show ?case
    using step [OF leaves_match [of ts n]] step [OF leaves_call [of ts n]] Suc.prems
    by (simp add: leaves_Parsed)
qed simp

lemma leaves_part:
  assumes "ends_with_eof ts" "12 * length ts + 8 \<le> n"
  shows "leaves (length ts - 1) (parse_part n ts)"
  unfolding parse_part_def
proof (rule leaves_bind [OF leaves_reading [OF assms(1)]], goal_cases)
  case (2 reading ts1)
  show ?case
  proof (cases "peek ts1 = T_With")
    case True
    note tl = ends_tl [OF 2(1), unfolded True, simplified]
    have "leaves (length ts - 1) (and_then (parse_with n (tl ts1))
        (\<lambda>w ts3. Parsed \<lparr>qp_reading = reading, qp_ret = None, qp_with = Some w\<rparr> ts3))"
      by (rule leaves_bind [OF leaves_with [OF tl(1)]]) (use tl 2 assms in \<open>auto intro: leaves_Parsed\<close>)
    then show ?thesis using True by (simp add: eat_def)
  next
    case False
    have "leaves (length ts - 1) (and_then (parse_return n ts1)
        (\<lambda>r ts3. Parsed \<lparr>qp_reading = reading, qp_ret = Some r, qp_with = None\<rparr> ts3))"
      by (rule leaves_bind [OF leaves_return [OF 2(1)]]) (use 2 assms in \<open>auto intro: leaves_Parsed\<close>)
    then show ?thesis using False by (simp add: eat_def leaves_Failed)
  qed
qed (use assms in simp)

lemma leaves_parts:
  "ends_with_eof ts \<Longrightarrow> 12 * length ts + 9 \<le> n \<Longrightarrow> leaves (length ts - 1) (parse_parts n ts)"
proof (induction n arbitrary: ts)
  case (Suc n)
  have "leaves (length ts - 1) (and_then (parse_part n ts) (\<lambda>part ts1. if qp_with part = None then Parsed [part] ts1
      else and_then (parse_parts n ts1) (\<lambda>parts ts2. Parsed (part # parts) ts2)))"
  proof (rule leaves_bind [OF leaves_part [OF Suc.prems(1)]], goal_cases)
    case (2 part ts1)
    have "leaves (length ts - 1) (and_then (parse_parts n ts1) (\<lambda>parts ts2. Parsed (part # parts) ts2))"
      by (rule leaves_bind [OF Suc.IH]) (use 2 Suc.prems ends_length [OF Suc.prems(1)] in \<open>auto intro: leaves_Parsed\<close>)
    then show ?case using 2 by (simp add: leaves_Parsed)
  qed (use Suc.prems in simp)
  then show ?case by simp
qed simp

lemma leaves_query: "ends_with_eof ts \<Longrightarrow> parse_fuel ts \<le> n \<Longrightarrow> leaves (length ts - 1) (parse_query n ts)"
  unfolding parse_query_def parse_fuel_def
  by (rule leaves_bind [OF leaves_parts]) (auto intro: leaves_Parsed leaves_Failed)

lemma tokenize_ends: "cql_tokenize src = Inr ts \<Longrightarrow> ends_with_eof ts"
  using lex_run_spans [of "length src" src ts] by (simp add: cql_tokenize_def)

end
