(* ===== verification/Cql_Print.thy ===== *)
theory Cql_Print
  imports Cql_Parser_Total
begin

text \<open>
  The inverse direction of the parser: a syntax tree without spans is printed as tokens with as few
  parentheses as the grammar allows, and the parser reads every printed tree back. The precedence
  and associativity of the grammar are what this file proves unambiguous.
\<close>

subsection \<open>Syntax trees without spans\<close>

abbreviation bare :: "'a \<Rightarrow> 'a spanned" where
  "bare v \<equiv> \<lparr>sv_value = v, sv_span = (0, 0)\<rparr>"

definition strip_name :: "'a spanned \<Rightarrow> 'a spanned" where
  "strip_name s = bare (sv_value s)"

definition strip_prop :: "prop_entry \<Rightarrow> prop_entry" where
  "strip_prop p = p\<lparr>prop_key := strip_name (prop_key p)\<rparr>"

definition strip_node :: "node_pat \<Rightarrow> node_pat" where
  "strip_node nd = nd\<lparr>nd_label := map_option strip_name (nd_label nd), nd_props := map strip_prop (nd_props nd)\<rparr>"

definition strip_rel :: "rel_pat \<Rightarrow> rel_pat" where
  "strip_rel r = r\<lparr>rl_types := map strip_name (rl_types r), rl_props := map strip_prop (rl_props r)\<rparr>"

definition strip_path :: "path_pattern \<Rightarrow> path_pattern" where
  "strip_path p =
     p\<lparr>pp_start := strip_node (pp_start p), pp_steps := map (\<lambda>(r, nd). (strip_rel r, strip_node nd)) (pp_steps p)\<rparr>"

fun strip_expr :: "expr \<Rightarrow> expr" where
  "strip_expr (ELiteral v) = ELiteral v"
| "strip_expr (EProperty head segs) = EProperty (strip_name head) (map strip_name segs)"
| "strip_expr (ECall name args) = ECall (strip_name name) (map strip_expr args)"
| "strip_expr (EListComp var list filt proj) =
     EListComp var (strip_expr list) (map_option strip_expr filt) (strip_expr proj)"
| "strip_expr (EQuantifier kind var list p) = EQuantifier kind var (strip_expr list) (strip_expr p)"
| "strip_expr (EPattern negated p) = EPattern negated (strip_path p)"
| "strip_expr (EBinary op l r sp) = EBinary op (strip_expr l) (strip_expr r) (0, 0)"
| "strip_expr (ENot e) = ENot (strip_expr e)"

definition strip_match :: "match_clause \<Rightarrow> match_clause" where
  "strip_match m = \<lparr>mc_patterns = map strip_path (mc_patterns m), mc_where = map_option strip_expr (mc_where m)\<rparr>"

definition strip_yield :: "yield_item \<Rightarrow> yield_item" where
  "strip_yield y = y\<lparr>yi_name := strip_name (yi_name y)\<rparr>"

definition strip_call :: "call_clause \<Rightarrow> call_clause" where
  "strip_call c =
     \<lparr>cl_proc = strip_name (cl_proc c), cl_args = map strip_expr (cl_args c), cl_yields = map strip_yield (cl_yields c),
      cl_where = map_option strip_expr (cl_where c)\<rparr>"

fun strip_reading :: "reading_clause \<Rightarrow> reading_clause" where
  "strip_reading (RMatch m) = RMatch (strip_match m)"
| "strip_reading (RCall c) = RCall (strip_call c)"

definition strip_item :: "return_item \<Rightarrow> return_item" where
  "strip_item i = i\<lparr>ri_expr := strip_expr (ri_expr i)\<rparr>"

definition strip_order :: "order_by \<Rightarrow> order_by" where
  "strip_order ob = ob\<lparr>ob_expr := strip_expr (ob_expr ob)\<rparr>"

definition strip_return :: "return_clause \<Rightarrow> return_clause" where
  "strip_return r = r\<lparr>rc_items := map strip_item (rc_items r), rc_order_by := map strip_order (rc_order_by r)\<rparr>"

definition strip_with :: "with_clause \<Rightarrow> with_clause" where
  "strip_with w =
     w\<lparr>wi_items := map strip_item (wi_items w), wi_order_by := map strip_order (wi_order_by w),
       wi_where := map_option strip_expr (wi_where w)\<rparr>"

definition strip_part :: "query_part \<Rightarrow> query_part" where
  "strip_part p =
     \<lparr>qp_reading = map strip_reading (qp_reading p), qp_ret = map_option strip_return (qp_ret p),
      qp_with = map_option strip_with (qp_with p)\<rparr>"

definition strip_query :: "query \<Rightarrow> query" where
  "strip_query q = \<lparr>q_parts = map strip_part (q_parts q)\<rparr>"

subsection \<open>Printing\<close>

fun print_sep :: "tok \<Rightarrow> ('a \<Rightarrow> tok list) \<Rightarrow> 'a list \<Rightarrow> tok list" where
  "print_sep sep pr [] = []"
| "print_sep sep pr [x] = pr x"
| "print_sep sep pr (x # y # xs) = pr x @ [sep] @ print_sep sep pr (y # xs)"

definition print_more :: "tok \<Rightarrow> ('a \<Rightarrow> tok list) \<Rightarrow> 'a list \<Rightarrow> tok list" where
  "print_more sep pr xs = concat (map (\<lambda>x. sep # pr x) xs)"

lemma print_sep_Cons: "print_sep sep pr (x # xs) = pr x @ print_more sep pr xs"
  by (induction sep pr xs arbitrary: x rule: print_sep.induct) (simp_all add: print_more_def)

lemma print_sep_cong [fundef_cong]:
  "sep = sep' \<Longrightarrow> xs = ys \<Longrightarrow> (\<And>y. y \<in> set ys \<Longrightarrow> f y = g y) \<Longrightarrow> print_sep sep f xs = print_sep sep' g ys"
  by (cases ys) (auto simp: print_sep_Cons print_more_def intro!: arg_cong [of _ _ concat])

fun print_value :: "cql_value \<Rightarrow> tok list" where
  "print_value VNull = [T_Null]"
| "print_value (VBool b) = [if b then T_True else T_False]"
| "print_value (VInt i) = [T_Int i]"
| "print_value (VFloat f) = [T_Float f]"
| "print_value (VStr s) = [T_Str s]"
| "print_value (VList vs) = [T_LBracket] @ print_sep T_Comma print_value vs @ [T_RBracket]"
| "print_value _ = []"

definition print_opt :: "('a \<Rightarrow> tok list) \<Rightarrow> 'a option \<Rightarrow> tok list" where
  "print_opt pr x = (case x of None \<Rightarrow> [] | Some y \<Rightarrow> pr y)"

definition print_prop :: "prop_entry \<Rightarrow> tok list" where
  "print_prop p = [T_Ident (sv_value (prop_key p)), T_Colon] @ print_value (prop_value p)"

definition print_props :: "prop_entry list \<Rightarrow> tok list" where
  "print_props ps = (if ps = [] then [] else [T_LBrace] @ print_sep T_Comma print_prop ps @ [T_RBrace])"

definition print_var :: "string option \<Rightarrow> tok list" where
  "print_var = print_opt (\<lambda>v. [T_Ident v])"

definition print_node :: "node_pat \<Rightarrow> tok list" where
  "print_node nd =
     [T_LParen] @ print_var (nd_var nd) @ print_opt (\<lambda>l. [T_Colon, T_Ident (sv_value l)]) (nd_label nd)
     @ print_props (nd_props nd) @ [T_RParen]"

definition print_types :: "string spanned list \<Rightarrow> tok list" where
  "print_types ts = (if ts = [] then [] else [T_Colon] @ print_sep T_Pipe (\<lambda>t. [T_Ident (sv_value t)]) ts)"

definition print_bound :: "nat option \<Rightarrow> tok list" where
  "print_bound = print_opt (\<lambda>b. [T_Int (int b)])"

definition print_len :: "var_len \<Rightarrow> tok list" where
  "print_len v =
     [T_Star] @ print_bound (vl_min v) @ (if vl_max v = vl_min v then [] else [T_DotDot] @ print_bound (vl_max v))"

definition print_rel :: "rel_pat \<Rightarrow> tok list" where
  "print_rel r =
     [if rl_direction r = AstBackward then T_ArrowL else T_Dash]
     @ [T_LBracket] @ print_var (rl_var r) @ print_types (rl_types r) @ print_opt print_len (rl_var_len r)
     @ print_props (rl_props r) @ [T_RBracket]
     @ [if rl_direction r = AstForward then T_ArrowR else T_Dash]"

definition print_path :: "path_pattern \<Rightarrow> tok list" where
  "print_path p =
     print_opt (\<lambda>v. [T_Ident v, T_Eq]) (pp_path_var p) @ print_node (pp_start p)
     @ concat (map (\<lambda>(r, nd). print_rel r @ print_node nd) (pp_steps p))"

fun print_op :: "bin_op \<Rightarrow> tok" where
  "print_op BEq = T_Eq" | "print_op BNe = T_Ne" | "print_op BLt = T_Lt" | "print_op BLe = T_Le"
| "print_op BGt = T_Gt" | "print_op BGe = T_Ge" | "print_op BIn = T_In" | "print_op BAnd = T_And" | "print_op BOr = T_Or"

fun print_quantifier :: "quantifier_kind \<Rightarrow> tok" where
  "print_quantifier QNone = T_None" | "print_quantifier QAny = T_Any" | "print_quantifier QAll = T_All"

text \<open>The level of the grammar that produces an expression, from \<open>OR\<close> to the primaries.\<close>

fun expr_level :: "expr \<Rightarrow> nat" where
  "expr_level (EBinary op l r sp) = (case op of BOr \<Rightarrow> 0 | BAnd \<Rightarrow> 1 | _ \<Rightarrow> 3)"
| "expr_level (ENot e) = 2"
| "expr_level (EPattern negated p) = 2"
| "expr_level _ = 4"

fun operand_levels :: "bin_op \<Rightarrow> nat \<times> nat" where
  "operand_levels BOr = (0, 1)"
| "operand_levels BAnd = (1, 2)"
| "operand_levels _ = (4, 4)"

definition wrap :: "bool \<Rightarrow> tok list \<Rightarrow> tok list" where
  "wrap paren ks = (if paren then [T_LParen] @ ks @ [T_RParen] else ks)"

fun is_pattern :: "expr \<Rightarrow> bool" where
  "is_pattern (EPattern negated p) = True"
| "is_pattern _ = False"

definition is_star :: "expr \<Rightarrow> bool" where
  "is_star e \<longleftrightarrow> e = EProperty (bare ''*'') []"

fun print_expr :: "expr \<Rightarrow> tok list" where
  "print_expr (ELiteral v) = print_value v"
| "print_expr (EProperty head segs) =
     [T_Ident (sv_value head)] @ print_more T_Dot (\<lambda>s. [T_Ident (sv_value s)]) segs"
| "print_expr (ECall name args) =
     [T_Ident (sv_value name), T_LParen]
     @ (if length args = 1 \<and> list_all is_star args then [T_Star] else print_sep T_Comma print_expr args)
     @ [T_RParen]"
| "print_expr (EListComp var list filt proj) =
     [T_LBracket, T_Ident var, T_In] @ print_expr list
     @ (case filt of None \<Rightarrow> [] | Some f \<Rightarrow> T_Where # print_expr f)
     @ [T_Pipe] @ print_expr proj @ [T_RBracket]"
| "print_expr (EQuantifier kind var list p) =
     [print_quantifier kind, T_LParen, T_Ident var, T_In] @ print_expr list @ [T_Where] @ print_expr p @ [T_RParen]"
| "print_expr (EPattern negated p) = (if negated then [T_Not] else []) @ print_path p"
| "print_expr (EBinary op l r sp) =
     wrap (expr_level l < fst (operand_levels op)) (print_expr l) @ [print_op op]
     @ wrap (expr_level r < snd (operand_levels op)) (print_expr r)"
| "print_expr (ENot e) = [T_Not] @ wrap (expr_level e < 2 \<or> is_pattern e) (print_expr e)"

definition print_at :: "nat \<Rightarrow> expr \<Rightarrow> tok list" where
  "print_at k e = wrap (expr_level e < k) (print_expr e)"

text \<open>Clauses: every part of a clause stands where the parser looks for it.\<close>

definition print_where :: "expr option \<Rightarrow> tok list" where
  "print_where = print_opt (\<lambda>e. [T_Where] @ print_expr e)"

definition print_alias :: "string option \<Rightarrow> tok list" where
  "print_alias = print_opt (\<lambda>a. [T_As, T_Ident a])"

fun split_dots :: "string \<Rightarrow> string list" where
  "split_dots [] = [[]]"
| "split_dots (c # s) = (if c = CHR ''.'' then [] # split_dots s else (c # hd (split_dots s)) # tl (split_dots s))"

definition print_match :: "match_clause \<Rightarrow> tok list" where
  "print_match m = [T_Match] @ print_sep T_Comma print_path (mc_patterns m) @ print_where (mc_where m)"

definition print_yield :: "yield_item \<Rightarrow> tok list" where
  "print_yield y = [T_Ident (sv_value (yi_name y))] @ print_alias (yi_alias y)"

definition print_call :: "call_clause \<Rightarrow> tok list" where
  "print_call c =
     [T_Call] @ print_sep T_Dot (\<lambda>s. [T_Ident s]) (split_dots (sv_value (cl_proc c)))
     @ [T_LParen] @ print_sep T_Comma print_expr (cl_args c) @ [T_RParen, T_Yield]
     @ print_sep T_Comma print_yield (cl_yields c) @ print_where (cl_where c)"

fun print_reading :: "reading_clause \<Rightarrow> tok list" where
  "print_reading (RMatch m) = print_match m"
| "print_reading (RCall c) = print_call c"

definition print_item :: "return_item \<Rightarrow> tok list" where
  "print_item i = print_expr (ri_expr i) @ print_alias (ri_alias i)"

definition print_order :: "order_by \<Rightarrow> tok list" where
  "print_order ob = print_expr (ob_expr ob) @ (if ob_descending ob then [T_Desc] else [])"

definition print_order_by :: "order_by list \<Rightarrow> tok list" where
  "print_order_by obs = (if obs = [] then [] else [T_Order, T_By] @ print_sep T_Comma print_order obs)"

definition print_limit :: "nat option \<Rightarrow> tok list" where
  "print_limit = print_opt (\<lambda>l. [T_Limit, T_Int (int l)])"

definition print_projection :: "bool \<Rightarrow> return_item list \<Rightarrow> order_by list \<Rightarrow> nat option \<Rightarrow> tok list" where
  "print_projection d items obs l =
     (if d then [T_Distinct] else []) @ print_sep T_Comma print_item items @ print_order_by obs @ print_limit l"

definition print_return :: "return_clause \<Rightarrow> tok list" where
  "print_return r = [T_Return] @ print_projection (rc_distinct r) (rc_items r) (rc_order_by r) (rc_limit r)"

definition print_with :: "with_clause \<Rightarrow> tok list" where
  "print_with w =
     [T_With] @ print_projection (wi_distinct w) (wi_items w) (wi_order_by w) (wi_limit w) @ print_where (wi_where w)"

definition print_part :: "query_part \<Rightarrow> tok list" where
  "print_part p =
     concat (map print_reading (qp_reading p)) @ print_opt print_with (qp_with p) @ print_opt print_return (qp_ret p)"

definition print_query :: "query \<Rightarrow> tok list" where
  "print_query q = concat (map print_part (q_parts q))"

subsection \<open>Trees that the grammar can produce\<close>

fun literal_value :: "cql_value \<Rightarrow> bool" where
  "literal_value (VList vs) = list_all literal_value vs"
| "literal_value (VNode _) = False"
| "literal_value (VEdge _) = False"
| "literal_value (VPath _) = False"
| "literal_value _ = True"

definition wf_name :: "'a spanned \<Rightarrow> bool" where
  "wf_name s \<longleftrightarrow> sv_span s = (0, 0)"

definition wf_props :: "prop_entry list \<Rightarrow> bool" where
  "wf_props ps \<longleftrightarrow> list_all (\<lambda>p. wf_name (prop_key p) \<and> literal_value (prop_value p)) ps"

definition wf_node :: "node_pat \<Rightarrow> bool" where
  "wf_node nd \<longleftrightarrow> pred_option wf_name (nd_label nd) \<and> wf_props (nd_props nd)"

definition wf_len :: "var_len \<Rightarrow> bool" where
  "wf_len v \<longleftrightarrow> pred_option (\<lambda>b. int b < u32_limit) (vl_min v) \<and> pred_option (\<lambda>b. int b < u32_limit) (vl_max v)"

definition wf_rel :: "rel_pat \<Rightarrow> bool" where
  "wf_rel r \<longleftrightarrow> list_all wf_name (rl_types r) \<and> pred_option wf_len (rl_var_len r) \<and> wf_props (rl_props r)"

definition wf_path :: "path_pattern \<Rightarrow> bool" where
  "wf_path p \<longleftrightarrow> wf_node (pp_start p) \<and> list_all (\<lambda>(r, nd). wf_rel r \<and> wf_node nd) (pp_steps p)"

text \<open>
  A property whose head reads \<open>IS\<close> is fine, but a name that starts a call or a path is any
  identifier; a pattern used as a predicate has a step and no path variable.
\<close>

fun wf_expr :: "expr \<Rightarrow> bool" where
  "wf_expr (ELiteral v) = literal_value v"
| "wf_expr (EProperty head segs) = (wf_name head \<and> list_all wf_name segs)"
| "wf_expr (ECall name args) = (wf_name name \<and> list_all wf_expr args)"
| "wf_expr (EListComp var list filt proj) = (wf_expr list \<and> pred_option wf_expr filt \<and> wf_expr proj)"
| "wf_expr (EQuantifier kind var list p) = (wf_expr list \<and> wf_expr p)"
| "wf_expr (EPattern negated p) = (wf_path p \<and> pp_path_var p = None \<and> pp_steps p \<noteq> [])"
| "wf_expr (EBinary op l r sp) = (wf_expr l \<and> wf_expr r \<and> sp = (0, 0))"
| "wf_expr (ENot e) = wf_expr e"

definition wf_match :: "match_clause \<Rightarrow> bool" where
  "wf_match m \<longleftrightarrow> mc_patterns m \<noteq> [] \<and> list_all wf_path (mc_patterns m) \<and> pred_option wf_expr (mc_where m)"

definition wf_call :: "call_clause \<Rightarrow> bool" where
  "wf_call c \<longleftrightarrow>
     wf_name (cl_proc c) \<and> list_all wf_expr (cl_args c) \<and> cl_yields c \<noteq> [] \<and> list_all (\<lambda>y. wf_name (yi_name y)) (cl_yields c)
     \<and> pred_option wf_expr (cl_where c)"

fun wf_reading :: "reading_clause \<Rightarrow> bool" where
  "wf_reading (RMatch m) = wf_match m"
| "wf_reading (RCall c) = wf_call c"

definition wf_projection :: "return_item list \<Rightarrow> order_by list \<Rightarrow> bool" where
  "wf_projection items obs \<longleftrightarrow> items \<noteq> [] \<and> list_all (\<lambda>i. wf_expr (ri_expr i)) items \<and> list_all (\<lambda>ob. wf_expr (ob_expr ob)) obs"

definition wf_return :: "return_clause \<Rightarrow> bool" where
  "wf_return r \<longleftrightarrow> wf_projection (rc_items r) (rc_order_by r)"

definition wf_with :: "with_clause \<Rightarrow> bool" where
  "wf_with w \<longleftrightarrow> wf_projection (wi_items w) (wi_order_by w) \<and> pred_option wf_expr (wi_where w)"

text \<open>A part ends in WITH, except for the last one, which ends in RETURN.\<close>

fun wf_parts :: "query_part list \<Rightarrow> bool" where
  "wf_parts [] = False"
| "wf_parts (p # ps) =
     (list_all wf_reading (qp_reading p) \<and>
      (if ps = [] then qp_with p = None \<and> qp_ret p \<noteq> None \<and> pred_option wf_return (qp_ret p)
       else qp_ret p = None \<and> qp_with p \<noteq> None \<and> pred_option wf_with (qp_with p) \<and> wf_parts ps))"

definition wf_query :: "query \<Rightarrow> bool" where
  "wf_query q \<longleftrightarrow> wf_parts (q_parts q)"

subsection \<open>Replies that succeed\<close>

text \<open>
  \<open>gives r Q\<close>: the reply is not an error, and if it is not out of fuel its value and its rest
  satisfy \<open>Q\<close>. Fuel is dealt with separately.
\<close>

definition gives :: "'a reply \<Rightarrow> ('a \<Rightarrow> cql_token list \<Rightarrow> bool) \<Rightarrow> bool" where
  "gives r Q \<longleftrightarrow> (case r of Parsed x ts \<Rightarrow> Q x ts | Failed _ \<Rightarrow> False | OutOfFuel \<Rightarrow> True)"

lemma gives_simps [simp]: "gives (Parsed x ts) Q \<longleftrightarrow> Q x ts" "gives OutOfFuel Q" "\<not> gives (Failed err) Q"
  by (simp_all add: gives_def)

lemma gives_bind: "gives r Q \<Longrightarrow> (\<And>x ts. Q x ts \<Longrightarrow> gives (f x ts) R) \<Longrightarrow> gives (and_then r f) R"
  by (cases r) simp_all

lemma gives_mono: "gives r Q \<Longrightarrow> (\<And>x ts. Q x ts \<Longrightarrow> R x ts) \<Longrightarrow> gives r R"
  by (cases r) simp_all

abbreviation kinds :: "cql_token list \<Rightarrow> tok list" where
  "kinds us \<equiv> map tok_kind us"

text \<open>\<open>reads_as ks ts rest\<close>: the tokens \<open>ts\<close> start with the kinds \<open>ks\<close>, and \<open>rest\<close> follows them.\<close>

definition reads_as :: "tok list \<Rightarrow> cql_token list \<Rightarrow> cql_token list \<Rightarrow> bool" where
  "reads_as ks ts rest \<longleftrightarrow> (\<exists>us. ts = us @ rest \<and> kinds us = ks)"

lemma reads_as_Nil [simp]: "reads_as [] ts rest \<longleftrightarrow> ts = rest"
  by (auto simp: reads_as_def)

lemma reads_as_Cons:
  "reads_as (k # ks) ts rest \<longleftrightarrow> (\<exists>t ts'. ts = t # ts' \<and> tok_kind t = k \<and> reads_as ks ts' rest)"
  by (fastforce simp: reads_as_def map_eq_Cons_conv intro: exI [of _ "_ # _"])

lemma reads_as_append: "reads_as (ks @ ls) ts rest \<longleftrightarrow> (\<exists>mid. reads_as ks ts mid \<and> reads_as ls mid rest)"
  by (fastforce simp: reads_as_def map_eq_append_conv)

lemma reads_as_peek: "reads_as (k # ks) ts rest \<Longrightarrow> peek ts = k"
  by (auto simp: reads_as_Cons)

lemma expect_ok:
  "reads_as (k # ks) ts rest \<Longrightarrow> k \<noteq> T_Eof \<Longrightarrow> gives (expect k what ts) (\<lambda>_ ts'. reads_as ks ts' rest)"
  by (auto simp: reads_as_Cons expect_def bump_def)

lemma expect_ident_ok:
  "reads_as (T_Ident name # ks) ts rest \<Longrightarrow>
    gives (expect_ident what ts) (\<lambda>x ts'. strip_name x = bare name \<and> reads_as ks ts' rest)"
  by (auto simp: reads_as_Cons expect_ident_def bump_def strip_name_def spanned_new_def)

abbreviation same :: "('a \<Rightarrow> 'b) \<Rightarrow> 'b \<Rightarrow> cql_token list \<Rightarrow> 'a \<Rightarrow> cql_token list \<Rightarrow> bool" where
  "same g x rest \<equiv> \<lambda>y ts. g y = x \<and> ts = rest"

text \<open>One step of a method: a fixed token, an identifier, a method that reads a printed part.\<close>

lemma expect_then:
  "reads_as [k] ts rest \<Longrightarrow> k \<noteq> T_Eof \<Longrightarrow> (\<And>t. gives (f t rest) R) \<Longrightarrow> gives (and_then (expect k what ts) f) R"
  by (rule gives_bind [OF expect_ok]) auto

lemma ident_then:
  "reads_as [T_Ident s] ts rest \<Longrightarrow> (\<And>x. sv_value x = s \<Longrightarrow> gives (f x rest) R) \<Longrightarrow> gives (and_then (expect_ident what ts) f) R"
  by (rule gives_bind [OF expect_ident_ok]) (auto simp: strip_name_def)

lemma same_then:
  "gives r (same g x rest) \<Longrightarrow> (\<And>y. g y = x \<Longrightarrow> gives (f y rest) R) \<Longrightarrow> gives (and_then r f) R"
  by (erule gives_bind) auto

subsection \<open>Reading lists and literals\<close>

lemma sep_rest_ok:
  assumes "\<And>x ts rest. x \<in> set xs \<Longrightarrow> reads_as (pr x) ts rest \<Longrightarrow> F (peek rest) \<Longrightarrow> gives (p ts) (same g x rest)"
    and "F sep" "sep \<noteq> T_Eof" "peek rest \<noteq> sep" "F (peek rest)" "reads_as (print_more sep pr xs) ts rest"
  shows "gives (sep_rest sep p n ts) (same (map g) xs rest)"
  using assms(1,6)
proof (induction xs arbitrary: n ts)
  case Nil
  then show ?case using assms(4) by (cases n) (simp_all add: print_more_def eat_def)
next
  case (Cons x xs)
  show ?case
  proof (cases n)
    case (Suc m)
    obtain t ts1 mid where ts: "ts = t # ts1" "tok_kind t = sep" "reads_as (pr x) ts1 mid" "reads_as (print_more sep pr xs) mid rest"
      using Cons.prems(2) by (auto simp: print_more_def reads_as_Cons reads_as_append)
    have "F (peek mid)"
      using ts(4) assms(2,5) by (cases xs) (auto simp: print_more_def reads_as_Cons)
    then have "gives (p ts1) (same g x mid)" using Cons.prems(1) ts(3) by simp
    then have "gives (and_then (p ts1) (\<lambda>x ts2. and_then (sep_rest sep p m ts2) (\<lambda>xs ts3. Parsed (x # xs) ts3)))
        (same (map g) (x # xs) rest)"
    proof (rule gives_bind)
      fix y ts2
      assume y: "same g x mid y ts2"
      have "gives (sep_rest sep p m mid) (same (map g) xs rest)" by (rule Cons.IH) (use Cons.prems(1) ts(4) in auto)
      then show "gives (and_then (sep_rest sep p m ts2) (\<lambda>xs ts3. Parsed (y # xs) ts3)) (same (map g) (x # xs) rest)"
        unfolding y [THEN conjunct2] by (rule gives_bind) (use y in simp)
    qed
    then show ?thesis by (simp add: Suc eat_def ts)
  qed simp
qed

lemma sep_list_ok:
  assumes "\<And>x ts rest. x \<in> set xs \<Longrightarrow> reads_as (pr x) ts rest \<Longrightarrow> F (peek rest) \<Longrightarrow> gives (p ts) (same g x rest)"
    and "F sep" "sep \<noteq> T_Eof" "peek rest \<noteq> sep" "F (peek rest)" "reads_as (print_sep sep pr xs) ts rest" "xs \<noteq> []"
  shows "gives (sep_list sep p n ts) (same (map g) xs rest)"
proof -
  obtain x ys where xs: "xs = x # ys" using assms(7) by (cases xs) auto
  obtain mid where mid: "reads_as (pr x) ts mid" "reads_as (print_more sep pr ys) mid rest"
    using assms(6) by (auto simp: xs print_sep_Cons reads_as_append)
  have "F (peek mid)" using mid(2) assms(2,5) by (cases ys) (auto simp: print_more_def reads_as_Cons)
  then have "gives (p ts) (same g x mid)" using assms(1) mid(1) by (simp add: xs)
  then show ?thesis
    unfolding sep_list_def
  proof (rule gives_bind)
    fix y ts2
    assume y: "same g x mid y ts2"
    have "gives (sep_rest sep p n mid) (same (map g) ys rest)"
      by (rule sep_rest_ok [where F = F]) (use assms mid(2) in \<open>auto simp: xs\<close>)
    then show "gives (and_then (sep_rest sep p n ts2) (\<lambda>xs ts2. Parsed (y # xs) ts2)) (same (map g) xs rest)"
      unfolding y [THEN conjunct2] by (rule gives_bind) (use y xs in simp)
  qed
qed

lemma print_value_head:
  "literal_value v \<Longrightarrow> \<exists>k ks. print_value v = k # ks \<and> k \<notin> {T_RBracket, T_RParen, T_Eof, T_Star, T_LParen, T_Not, T_None, T_Any, T_All, T_Distinct}
    \<and> (\<forall>s. k \<noteq> T_Ident s)"
  by (cases v) auto

lemma literals_ok:
  "literal_value v \<Longrightarrow> reads_as (print_value v) ts rest \<Longrightarrow> gives (parse_literal n ts) (same (\<lambda>v. v) v rest)"
  "list_all literal_value vs \<Longrightarrow> reads_as (print_value (VList vs)) ts rest \<Longrightarrow>
    gives (parse_list_literal n ts) (same (\<lambda>v. v) (VList vs) rest)"
proof (induction n arbitrary: v vs ts rest)
  case (Suc n)
  {
    case 1
    have "gives (parse_list_literal n ts) (same (\<lambda>v. v) (VList vs) rest)" if "v = VList vs" for vs
      by (rule Suc.IH(2)) (use 1 that in auto)
    then show ?case using 1 by (cases v) (auto simp: reads_as_Cons bump_def split: if_splits)
  next
    case 2
    obtain ts1 mid where ts1: "reads_as [T_LBracket] ts ts1" "reads_as (print_sep T_Comma print_value vs) ts1 mid"
      "reads_as [T_RBracket] mid rest"
      using 2(2) by (auto simp: reads_as_Cons reads_as_append)
    have items: "gives (if peek ts1 \<noteq> T_RBracket then sep_list T_Comma (parse_literal n) n ts1 else Parsed [] ts1)
        (same (map (\<lambda>v. v)) vs mid)"
    proof (cases vs)
      case Nil
      then have "peek ts1 = T_RBracket" using ts1 by (auto simp: reads_as_Cons)
      then show ?thesis using Nil ts1(2) by simp
    next
      case (Cons w ws)
      have "peek ts1 \<noteq> T_RBracket"
        using ts1(2) 2(1) print_value_head [of w] by (auto simp: Cons print_sep_Cons reads_as_append reads_as_Cons)
      moreover have "gives (sep_list T_Comma (parse_literal n) n ts1) (same (map (\<lambda>v. v)) vs mid)"
        by (rule sep_list_ok [where F = "\<lambda>_. True", OF Suc.IH(1)])
          (use 2(1) ts1 Cons in \<open>auto simp: list_all_iff reads_as_Cons\<close>)
      ultimately show ?thesis by simp
    qed
    show ?case
      unfolding parse_list_literal.simps
    proof (rule gives_bind [OF expect_ok [OF ts1(1)]], simp, goal_cases)
      case (1 t ts')
      then have "ts' = ts1" by simp
      show ?case
        unfolding \<open>ts' = ts1\<close>
      proof (rule gives_bind [OF items], goal_cases)
        case (1 ys ts2)
        then have "reads_as [T_RBracket] ts2 rest" using ts1(3) by simp
        from expect_ok [OF this, of "''`]` to close the list literal''"] show ?case
          by (rule gives_bind) (use 1 in simp_all)
      qed
    qed
  }
qed simp_all

subsection \<open>Reading patterns\<close>

lemma wf_name_bare: "wf_name x \<Longrightarrow> x = bare (sv_value x)"
  by (simp add: wf_name_def)

lemma prop_entry_ok:
  assumes "wf_name (prop_key p)" "literal_value (prop_value p)" "reads_as (print_prop p) ts rest"
  shows "gives (parse_prop_entry n ts) (same strip_prop p rest)"
proof -
  have ts: "reads_as (T_Ident (sv_value (prop_key p)) # T_Colon # print_value (prop_value p)) ts rest"
    using assms(3) by (simp add: print_prop_def)
  show ?thesis
    unfolding parse_prop_entry_def
  proof (rule gives_bind [OF expect_ident_ok [OF ts]], goal_cases)
    case (1 key ts1)
    then have key: "strip_name key = bare (sv_value (prop_key p))" by blast
    from 1 have ts1: "reads_as (T_Colon # print_value (prop_value p)) ts1 rest" by blast
    show ?case
    proof (rule gives_bind [OF expect_ok [OF ts1]], simp, goal_cases)
      case (1 t ts2)
      from literals_ok(1) [OF assms(2) 1] show ?case
        by (rule gives_bind) (use key wf_name_bare [OF assms(1)] in \<open>simp add: strip_prop_def\<close>)
    qed
  qed
qed

lemma props_ok:
  assumes "wf_props ps" "ps \<noteq> []" "reads_as (print_props ps) ts rest"
  shows "gives (parse_prop_map n ts) (same (map strip_prop) ps rest)"
proof -
  obtain ts1 mid where ts: "reads_as [T_LBrace] ts ts1" "reads_as (print_sep T_Comma print_prop ps) ts1 mid" "reads_as [T_RBrace] mid rest"
    using assms(2,3) by (auto simp: print_props_def reads_as_Cons reads_as_append)
  have "peek ts1 \<noteq> T_RBrace"
    using ts(2) assms(2) by (cases ps) (auto simp: print_sep_Cons print_prop_def reads_as_Cons)
  moreover have "gives (sep_list T_Comma (parse_prop_entry n) n ts1) (same (map strip_prop) ps mid)"
    by (rule sep_list_ok [where F = "\<lambda>_. True", OF prop_entry_ok])
      (use assms ts in \<open>auto simp: wf_props_def list_all_iff reads_as_Cons\<close>)
  ultimately have items: "gives (if peek ts1 \<noteq> T_RBrace then sep_list T_Comma (parse_prop_entry n) n ts1 else Parsed [] ts1)
      (same (map strip_prop) ps mid)" by simp
  show ?thesis
    unfolding parse_prop_map_def
  proof (rule gives_bind [OF expect_ok [OF ts(1)]], simp, goal_cases)
    case (1 t ts')
    then have "ts' = ts1" by simp
    show ?case
      unfolding \<open>ts' = ts1\<close>
    proof (rule gives_bind [OF items], goal_cases)
      case (1 ys ts2)
      then have "reads_as [T_RBrace] ts2 rest" using ts(3) by simp
      from expect_ok [OF this, of "''`}` to close the property map''"] show ?case
        by (rule gives_bind) (use 1 in simp_all)
    qed
  qed
qed

lemma opt_props_ok:
  assumes "wf_props ps" "reads_as (print_props ps) ts rest" "peek rest \<noteq> T_LBrace"
  shows "gives (parse_opt_props n ts) (same (map strip_prop) ps rest)"
proof (cases "ps = []")
  case True
  then show ?thesis using assms by (simp add: parse_opt_props_def print_props_def)
next
  case False
  have "peek ts = T_LBrace" using False assms(2) by (auto simp: print_props_def reads_as_Cons)
  then show ?thesis using props_ok [OF assms(1) False assms(2)] by (simp add: parse_opt_props_def)
qed

lemma opt_ident_ok:
  assumes "reads_as (print_var v) ts rest" "\<forall>s. peek rest \<noteq> T_Ident s"
  shows "parse_opt_ident ts = (v, rest)"
proof (cases v)
  case None
  then have "ts = rest" using assms(1) by (simp add: print_var_def print_opt_def)
  then show ?thesis using None assms(2) by (cases "peek rest") (simp_all add: parse_opt_ident_def)
next
  case (Some s)
  then show ?thesis using assms(1) by (auto simp: print_var_def print_opt_def reads_as_Cons parse_opt_ident_def bump_def)
qed

lemma label_ok:
  assumes "reads_as (print_opt (\<lambda>l. [T_Colon, T_Ident (sv_value l)]) label) ts rest" "pred_option wf_name label" "peek rest \<noteq> T_Colon"
  shows "gives (parse_label ts) (same (map_option strip_name) label rest)"
proof (cases label)
  case None
  then show ?thesis using assms by (simp add: print_opt_def parse_label_def eat_def)
next
  case (Some l)
  then obtain t ts1 where ts: "ts = t # ts1" "tok_kind t = T_Colon" "reads_as [T_Ident (sv_value l)] ts1 rest"
    using assms(1) by (auto simp: print_opt_def reads_as_Cons)
  have "gives (and_then (expect_ident ''node label after `:`'' ts1) (\<lambda>name ts2. Parsed (Some name) ts2))
      (same (map_option strip_name) label rest)"
    by (rule gives_bind [OF expect_ident_ok [OF ts(3)]]) (use Some assms(2) wf_name_bare [of l] in simp)
  then show ?thesis by (simp add: parse_label_def eat_def ts)
qed

lemma wf_props_strip: "wf_props ps \<Longrightarrow> map strip_prop ps = ps"
  by (induction ps) (auto simp: wf_props_def strip_prop_def strip_name_def wf_name_def)

lemma node_ok:
  assumes "wf_node nd" "reads_as (print_node nd) ts rest"
  shows "gives (parse_node_pat n ts) (same strip_node nd rest)"
proof -
  obtain ts1 ts2 ts3 ts4 where ts: "reads_as [T_LParen] ts ts1" "reads_as (print_var (nd_var nd)) ts1 ts2"
    "reads_as (print_opt (\<lambda>l. [T_Colon, T_Ident (sv_value l)]) (nd_label nd)) ts2 ts3"
    "reads_as (print_props (nd_props nd)) ts3 ts4" "reads_as [T_RParen] ts4 rest"
    using assms(2) by (auto simp: print_node_def reads_as_append simp del: append_Cons append_Nil)
  have p4: "peek ts4 = T_RParen" using ts(5) by (rule reads_as_peek)
  have p3: "peek ts3 \<in> {T_LBrace, T_RParen}"
    using ts(4) p4 by (auto simp: print_props_def reads_as_Cons split: if_splits)
  have p2: "peek ts2 \<in> {T_Colon, T_LBrace, T_RParen}"
    using ts(3) p3 by (auto simp: print_opt_def reads_as_Cons split: option.splits)
  have var: "parse_opt_ident ts1 = (nd_var nd, ts2)" by (rule opt_ident_ok [OF ts(2)]) (use p2 in auto)
  have label: "gives (parse_label ts2) (same (map_option strip_name) (nd_label nd) ts3)"
    by (rule label_ok [OF ts(3)]) (use assms(1) p3 in \<open>auto simp: wf_node_def\<close>)
  have props: "gives (parse_opt_props n ts3) (same (map strip_prop) (nd_props nd) ts4)"
    by (rule opt_props_ok [OF _ ts(4)]) (use assms(1) p4 in \<open>auto simp: wf_node_def\<close>)
  show ?thesis
    unfolding parse_node_pat_def
  proof (rule gives_bind [OF expect_ok [OF ts(1)]], simp, goal_cases)
    case (1 t ts')
    then have "ts' = ts1" by simp
    show ?case
      unfolding \<open>ts' = ts1\<close> var Let_def prod.case
    proof (rule gives_bind [OF label], goal_cases)
      case (1 l ts')
      then have l: "map_option strip_name l = nd_label nd" and "ts' = ts3" by auto
      show ?case
        unfolding \<open>ts' = ts3\<close>
      proof (rule gives_bind [OF props], goal_cases)
        case (1 ps ts')
        then have ps: "map strip_prop ps = nd_props nd" and "ts' = ts4" by auto
        show ?case
          unfolding \<open>ts' = ts4\<close>
          by (rule gives_bind [OF expect_ok [OF ts(5)]]) (use l ps in \<open>simp_all add: strip_node_def\<close>)
      qed
    qed
  qed
qed

lemma types_ok:
  assumes "list_all wf_name types" "types \<noteq> []" "reads_as (print_sep T_Pipe (\<lambda>t. [T_Ident (sv_value t)]) types) ts rest"
    and "peek rest \<noteq> T_Pipe" "peek rest \<noteq> T_Colon"
  shows "gives (parse_rel_types n ts) (same (map strip_name) types rest)"
proof -
  obtain t us where types: "types = t # us" using assms(2) by (cases types) auto
  obtain mid where mid: "reads_as [T_Ident (sv_value t)] ts mid" "reads_as (print_more T_Pipe (\<lambda>t. [T_Ident (sv_value t)]) us) mid rest"
    using assms(3) by (auto simp: types print_sep_Cons reads_as_append simp del: append_Cons append_Nil)
  have "peek mid \<noteq> T_Colon" using mid(2) assms(5) by (cases us) (auto simp: print_more_def reads_as_Cons)
  show ?thesis
    unfolding parse_rel_types_def
  proof (rule gives_bind [OF expect_ident_ok [OF mid(1)]], goal_cases)
    case (1 name ts1)
    then have name: "strip_name name = t" and "ts1 = mid" using assms(1) wf_name_bare [of t] by (auto simp: types)
    have "gives (sep_rest T_Pipe (expect_ident ''relationship type after `|`'') n mid) (same (map strip_name) us rest)"
    proof (rule sep_rest_ok [where F = "\<lambda>_. True", OF _ _ _ assms(4) _ mid(2)])
      fix x ts' rest'
      assume x: "x \<in> set us" "reads_as [T_Ident (sv_value x)] ts' rest'"
      have "wf_name x" using assms(1) x(1) by (simp add: types list_all_iff)
      from expect_ident_ok [OF x(2)] show "gives (expect_ident ''relationship type after `|`'' ts') (same strip_name x rest')"
        by (rule gives_mono) (use wf_name_bare [OF \<open>wf_name x\<close>] in simp)
    qed simp_all
    then have "gives (and_then (sep_rest T_Pipe (expect_ident ''relationship type after `|`'') n mid)
        (\<lambda>types ts2. Parsed (name # types) ts2)) (same (map strip_name) types rest)"
      by (rule gives_bind) (use name types in simp)
    then show ?case using \<open>peek mid \<noteq> T_Colon\<close> by (simp add: \<open>ts1 = mid\<close>)
  qed
qed

lemma bound_ok:
  assumes "reads_as (print_bound b) ts rest" "pred_option (\<lambda>b. int b < u32_limit) b" "\<forall>i. peek rest \<noteq> T_Int i"
  shows "gives (parse_opt_int_u32 ts) (same (\<lambda>x. x) b rest)"
proof (cases b)
  case None
  then have "ts = rest" using assms(1) by (simp add: print_bound_def print_opt_def)
  then show ?thesis using None assms(3) by (cases "peek rest") (simp_all add: parse_opt_int_u32_def)
next
  case (Some i)
  then show ?thesis using assms by (auto simp: print_bound_def print_opt_def reads_as_Cons parse_opt_int_u32_def bump_def)
qed

lemma len_ok:
  assumes "reads_as (print_len v) ts rest" "wf_len v" "\<forall>i. peek rest \<noteq> T_Int i" "peek rest \<noteq> T_DotDot"
  shows "gives (parse_var_len ts) (same (\<lambda>x. x) v rest)"
proof -
  obtain ts1 ts2 where ts: "reads_as [T_Star] ts ts1" "reads_as (print_bound (vl_min v)) ts1 ts2"
    "reads_as (if vl_max v = vl_min v then [] else [T_DotDot] @ print_bound (vl_max v)) ts2 rest"
    using assms(1) by (auto simp: print_len_def reads_as_append simp del: append_Cons append_Nil)
  have p2: "\<forall>i. peek ts2 \<noteq> T_Int i" using ts(3) assms(3) by (auto simp: reads_as_Cons split: if_splits)
  have lo: "gives (parse_opt_int_u32 ts1) (same (\<lambda>x. x) (vl_min v) ts2)"
    by (rule bound_ok [OF ts(2)]) (use assms(2) p2 in \<open>auto simp: wf_len_def\<close>)
  show ?thesis
    unfolding parse_var_len_def
  proof (rule gives_bind [OF expect_ok [OF ts(1)]], simp, goal_cases)
    case (1 t ts')
    then have "ts' = ts1" by simp
    show ?case
      unfolding \<open>ts' = ts1\<close>
    proof (rule gives_bind [OF lo], goal_cases)
      case (1 x ts')
      then have x: "x = vl_min v" "ts' = ts2" by auto
      show ?case
      proof (cases "vl_max v = vl_min v")
        case True
        then show ?thesis using ts(3) assms(4) x by (simp add: eat_def)
      next
        case False
        then obtain t ts3 where dots: "ts2 = t # ts3" "tok_kind t = T_DotDot" "reads_as (print_bound (vl_max v)) ts3 rest"
          using ts(3) by (auto simp: reads_as_Cons)
        have "gives (parse_opt_int_u32 ts3) (same (\<lambda>x. x) (vl_max v) rest)"
          by (rule bound_ok [OF dots(3)]) (use assms in \<open>auto simp: wf_len_def\<close>)
        then have "gives (and_then (parse_opt_int_u32 ts3) (\<lambda>hi ts4. Parsed \<lparr>vl_min = x, vl_max = hi\<rparr> ts4)) (same (\<lambda>x. x) v rest)"
          by (rule gives_bind) (use x in simp)
        then show ?thesis by (simp add: x eat_def dots)
      qed
    qed
  qed
qed

end
