(* ===== verification/Cql_Roundtrip.thy ===== *)
theory Cql_Roundtrip
  imports Cql_Print
begin

text \<open>
  The parser reads printed patterns, expressions, clauses and queries back.
\<close>

subsection \<open>Relationships and paths\<close>

lemma opt_types_ok:
  assumes "list_all wf_name types" "reads_as (print_types types) ts rest" "peek rest \<notin> {T_Pipe, T_Colon}"
  shows "gives (let (colon, ts1) = eat T_Colon ts in if colon then parse_rel_types n ts1 else Parsed [] ts) (same (map strip_name) types rest)"
proof (cases "types = []")
  case True
  then show ?thesis using assms by (simp add: print_types_def eat_def)
next
  case False
  obtain t ts1 where ts: "ts = t # ts1" "tok_kind t = T_Colon"
    and tail: "reads_as (print_sep T_Pipe (\<lambda>t. [T_Ident (sv_value t)]) types) ts1 rest"
    using assms(2) False by (auto simp: print_types_def reads_as_Cons)
  show ?thesis using types_ok [OF assms(1) False tail] assms(3) by (simp add: eat_def ts)
qed

lemma opt_len_ok:
  assumes "pred_option wf_len len" "reads_as (print_opt print_len len) ts rest" "\<forall>i. peek rest \<noteq> T_Int i" "peek rest \<noteq> T_DotDot" "peek rest \<noteq> T_Star"
  shows "gives (if peek ts = T_Star then and_then (parse_var_len ts) (\<lambda>v ts. Parsed (Some v) ts) else Parsed None ts) (same (\<lambda>x. x) len rest)"
proof (cases len)
  case None
  then show ?thesis using assms by (simp add: print_opt_def)
next
  case (Some v)
  have "peek ts = T_Star" using assms(2) by (auto simp: Some print_opt_def print_len_def reads_as_Cons)
  moreover have "gives (and_then (parse_var_len ts) (\<lambda>v ts. Parsed (Some v) ts)) (same (\<lambda>x. x) len rest)"
    by (rule gives_bind [OF len_ok [of v]]) (use assms Some in \<open>simp_all add: print_opt_def\<close>)
  ultimately show ?thesis by simp
qed

lemma rel_body_ok:
  assumes "wf_rel r" "reads_as ([T_LBracket] @ print_var (rl_var r) @ print_types (rl_types r) @ print_opt print_len (rl_var_len r) @ print_props (rl_props r) @ [T_RBracket]) ts rest"
  shows "gives (parse_rel_body n ts) (\<lambda>(var, types, len, props) ts'. var = rl_var r \<and> map strip_name types = rl_types r \<and> len = rl_var_len r \<and> map strip_prop props = rl_props r \<and> ts' = rest)"
proof -
  obtain t ts1 ts2 ts3 ts4 ts5 where t: "ts = t # ts1" "tok_kind t = T_LBracket" and ts: "reads_as (print_var (rl_var r)) ts1 ts2"
    "reads_as (print_types (rl_types r)) ts2 ts3" "reads_as (print_opt print_len (rl_var_len r)) ts3 ts4"
    "reads_as (print_props (rl_props r)) ts4 ts5" "reads_as [T_RBracket] ts5 rest"
    using assms(2) by (auto simp: reads_as_append reads_as_Cons)
  have p5: "peek ts5 = T_RBracket" using ts(5) by (rule reads_as_peek)
  have p4: "peek ts4 \<in> {T_LBrace, T_RBracket}"
    using ts(4) p5 by (auto simp: print_props_def reads_as_Cons split: if_splits)
  have p3: "peek ts3 \<in> {T_Star, T_LBrace, T_RBracket}"
    using ts(3) p4 by (auto simp: print_opt_def print_len_def reads_as_Cons split: option.splits)
  have p2: "peek ts2 \<in> {T_Colon, T_Star, T_LBrace, T_RBracket}"
    using ts(2) p3 by (auto simp: print_types_def reads_as_Cons split: if_splits)
  have var: "parse_opt_ident ts1 = (rl_var r, ts2)" by (rule opt_ident_ok [OF ts(1)]) (use p2 in auto)
  have types: "gives (let (colon, ts1) = eat T_Colon ts2 in if colon then parse_rel_types n ts1 else Parsed [] ts2) (same (map strip_name) (rl_types r) ts3)"
    by (rule opt_types_ok [OF _ ts(2)]) (use assms(1) p3 in \<open>auto simp: wf_rel_def\<close>)
  have len: "gives (if peek ts3 = T_Star then and_then (parse_var_len ts3) (\<lambda>v ts. Parsed (Some v) ts) else Parsed None ts3) (same (\<lambda>x. x) (rl_var_len r) ts4)"
    by (rule opt_len_ok [OF _ ts(3)]) (use assms(1) p4 in \<open>auto simp: wf_rel_def\<close>)
  have props: "gives (parse_opt_props n ts4) (same (map strip_prop) (rl_props r) ts5)"
    by (rule opt_props_ok [OF _ ts(4)]) (use assms(1) p5 in \<open>auto simp: wf_rel_def\<close>)
  obtain colon ts2' where eat: "eat T_Colon ts2 = (colon, ts2')" by fastforce
  have "gives (and_then (if colon then parse_rel_types n ts2' else Parsed [] ts2) (\<lambda>types ts4.
             and_then (if peek ts4 = T_Star then and_then (parse_var_len ts4) (\<lambda>v ts. Parsed (Some v) ts) else Parsed None ts4) (\<lambda>len ts5.
               and_then (parse_opt_props n ts5) (\<lambda>props ts6.
                 and_then (expect T_RBracket ''`]` to close the relationship'' ts6) (\<lambda>_ ts7.
                   Parsed (rl_var r, types, len, props) ts7)))))
     (\<lambda>(var, types, len, props) ts'. var = rl_var r \<and> map strip_name types = rl_types r \<and> len = rl_var_len r \<and> map strip_prop props = rl_props r \<and> ts' = rest)"
  proof (rule gives_bind [OF types [unfolded eat Let_def prod.case]], goal_cases)
    case (1 types ts3')
    then have types': "map strip_name types = rl_types r" and "ts3' = ts3" by auto
    show ?case
      unfolding \<open>ts3' = ts3\<close>
    proof (rule gives_bind [OF len], goal_cases)
      case (1 l ts4')
      then have l: "l = rl_var_len r" and "ts4' = ts4" by auto
      show ?case
        unfolding \<open>ts4' = ts4\<close>
      proof (rule gives_bind [OF props], goal_cases)
        case (1 ps ts5')
        then have ps: "map strip_prop ps = rl_props r" and "ts5' = ts5" by auto
        show ?case
          unfolding \<open>ts5' = ts5\<close>
          by (rule gives_bind [OF expect_ok [OF ts(5)]]) (use types' l ps in simp_all)
      qed
    qed
  qed
  then show ?thesis by (simp add: parse_rel_body_def t eat_def [of T_LBracket] var eat)
qed

lemma rel_ok:
  assumes "wf_rel r" "reads_as (print_rel r) ts rest"
  shows "gives (parse_rel_pat n ts) (same strip_rel r rest)"
proof -
  let ?lead = "if rl_direction r = AstBackward then T_ArrowL else T_Dash"
  let ?trail = "if rl_direction r = AstForward then T_ArrowR else T_Dash"
  obtain t ts1 ts2 u where t: "ts = t # ts1" "tok_kind t = ?lead" and ts1: "reads_as ([T_LBracket] @ print_var (rl_var r) @ print_types (rl_types r) @ print_opt print_len (rl_var_len r) @ print_props (rl_props r) @ [T_RBracket]) ts1 ts2"
    and u: "ts2 = u # rest" "tok_kind u = ?trail"
    using assms(2) unfolding print_rel_def by (force simp: reads_as_append reads_as_Cons)
  have lead: "(if peek ts = T_Dash then Parsed False (bump ts) else if peek ts = T_ArrowL then Parsed True (bump ts)
      else Failed (err_here ts ''expected `-` or `<-` to begin a relationship'')) = Parsed (rl_direction r = AstBackward) ts1"
    using t by (cases "rl_direction r") (simp_all add: bump_def)
  have trail: "(if peek ts2 = T_ArrowR then Parsed True (bump ts2) else if peek ts2 = T_Dash then Parsed False (bump ts2)
      else Failed (err_here ts2 ''expected `->` or `-` to close a relationship'')) = Parsed (rl_direction r = AstForward) rest"
    using u by (cases "rl_direction r") (simp_all add: bump_def)
  show ?thesis
    unfolding parse_rel_pat_def lead and_then.simps
  proof (rule gives_bind [OF rel_body_ok [OF assms(1) ts1]], goal_cases)
    case (1 x ts2')
    obtain var types len props where x: "x = (var, types, len, props)" by (cases x) auto
    have eqs: "var = rl_var r" "map strip_name types = rl_types r" "len = rl_var_len r" "map strip_prop props = rl_props r" "ts2' = ts2"
      using 1 by (auto simp: x)
    show ?case
      unfolding x prod.case eqs(5) trail and_then.simps
      using eqs by (cases "rl_direction r") (simp_all add: strip_rel_def)
  qed
qed

lemma print_node_head: "reads_as (print_node nd) ts rest \<Longrightarrow> peek ts = T_LParen"
  by (auto simp: print_node_def reads_as_Cons)

lemma steps_ok:
  assumes "list_all (\<lambda>(r, nd). wf_rel r \<and> wf_node nd) steps" "peek rest \<notin> {T_Dash, T_ArrowL}"
    and "reads_as (concat (map (\<lambda>(r, nd). print_rel r @ print_node nd) steps)) ts rest"
  shows "gives (parse_steps n ts) (same (map (\<lambda>(r, nd). (strip_rel r, strip_node nd))) steps rest)"
  using assms
proof (induction steps arbitrary: n ts)
  case Nil
  then show ?case by (cases n) simp_all
next
  case (Cons s steps)
  obtain r nd where s: "s = (r, nd)" by fastforce
  obtain ts1 ts2 where ts: "reads_as (print_rel r) ts ts1" "reads_as (print_node nd) ts1 ts2"
    "reads_as (concat (map (\<lambda>(r, nd). print_rel r @ print_node nd) steps)) ts2 rest"
    using Cons.prems(3) by (auto simp: s reads_as_append)
  have wf: "wf_rel r" "wf_node nd" using Cons.prems(1) by (simp_all add: s)
  show ?case
  proof (cases n)
    case (Suc m)
    have "peek ts = T_Dash \<or> peek ts = T_ArrowL" using ts(1) by (auto simp: print_rel_def reads_as_Cons)
    moreover have "gives (and_then (parse_rel_pat m ts) (\<lambda>rel ts1. and_then (parse_node_pat m ts1) (\<lambda>node ts2.
          and_then (parse_steps m ts2) (\<lambda>steps ts3. Parsed ((rel, node) # steps) ts3))))
        (same (map (\<lambda>(r, nd). (strip_rel r, strip_node nd))) (s # steps) rest)"
    proof (rule gives_bind [OF rel_ok [OF wf(1) ts(1)]], goal_cases)
      case (1 r' ts1')
      then have r': "strip_rel r' = r" and "ts1' = ts1" by auto
      show ?case
        unfolding \<open>ts1' = ts1\<close>
      proof (rule gives_bind [OF node_ok [OF wf(2) ts(2)]], goal_cases)
        case (1 nd' ts2')
        then have nd': "strip_node nd' = nd" and "ts2' = ts2" by auto
        have "gives (parse_steps m ts2) (same (map (\<lambda>(r, nd). (strip_rel r, strip_node nd))) steps rest)"
          by (rule Cons.IH) (use Cons.prems ts in simp_all)
        then show ?case
          unfolding \<open>ts2' = ts2\<close> by (rule gives_bind) (use r' nd' in \<open>simp add: s\<close>)
      qed
    qed
    ultimately show ?thesis by (simp add: Suc)
  qed simp
qed

lemma path_var_ok:
  assumes "reads_as (print_opt (\<lambda>v. [T_Ident v, T_Eq]) v) ts rest" "peek rest = T_LParen"
  shows "parse_path_var ts = (v, rest)"
  using assms by (cases v) (auto simp: parse_path_var_def print_opt_def reads_as_Cons bump_def)

lemma path_ok:
  assumes "wf_path p" "reads_as (print_path p) ts rest" "peek rest \<notin> {T_Dash, T_ArrowL}"
  shows "gives (parse_path_pattern n ts) (same strip_path p rest)"
proof -
  obtain ts1 ts2 where ts: "reads_as (print_opt (\<lambda>v. [T_Ident v, T_Eq]) (pp_path_var p)) ts ts1" "reads_as (print_node (pp_start p)) ts1 ts2"
    "reads_as (concat (map (\<lambda>(r, nd). print_rel r @ print_node nd) (pp_steps p))) ts2 rest"
    using assms(2) by (auto simp: print_path_def reads_as_append)
  have var: "parse_path_var ts = (pp_path_var p, ts1)" by (rule path_var_ok [OF ts(1) print_node_head [OF ts(2)]])
  have wf: "wf_node (pp_start p)" "list_all (\<lambda>(r, nd). wf_rel r \<and> wf_node nd) (pp_steps p)" using assms(1) by (simp_all add: wf_path_def)
  show ?thesis
    unfolding parse_path_pattern_def var Let_def prod.case
  proof (rule gives_bind [OF node_ok [OF wf(1) ts(2)]], goal_cases)
    case (1 nd ts2')
    then have nd: "strip_node nd = pp_start p" and "ts2' = ts2" by auto
    show ?case
      unfolding \<open>ts2' = ts2\<close>
      by (rule gives_bind [OF steps_ok [OF wf(2) assms(3) ts(3)]]) (use nd in \<open>simp add: strip_path_def\<close>)
  qed
qed

subsection \<open>Balanced parentheses\<close>

text \<open>
  Inside a group the lookahead skips whatever is balanced, and everything printed is.
\<close>

definition balanced :: "tok list \<Rightarrow> bool" where
  "balanced ks \<longleftrightarrow> (\<forall>d ts rest. reads_as ks ts rest \<longrightarrow> group_is_pattern (Suc d) ts = group_is_pattern (Suc d) rest)"

lemma balancedD: "balanced ks \<Longrightarrow> reads_as ks ts rest \<Longrightarrow> group_is_pattern (Suc d) ts = group_is_pattern (Suc d) rest"
  unfolding balanced_def by blast

lemma balanced_Nil [simp, intro!]: "balanced []"
  by (simp add: balanced_def)

lemma balanced_append [intro!]: "balanced ks \<Longrightarrow> balanced ls \<Longrightarrow> balanced (ks @ ls)"
  unfolding balanced_def reads_as_append by metis

lemma group_plain:
  "k \<noteq> T_LParen \<Longrightarrow> k \<noteq> T_RParen \<Longrightarrow> k \<noteq> T_Eof \<Longrightarrow> tok_kind t = k \<Longrightarrow> group_is_pattern d (t # ts) = group_is_pattern d ts"
  by (cases k) simp_all

lemma balanced_plain: "k \<noteq> T_LParen \<Longrightarrow> k \<noteq> T_RParen \<Longrightarrow> k \<noteq> T_Eof \<Longrightarrow> balanced [k]"
  unfolding balanced_def reads_as_Cons reads_as_Nil using group_plain by blast

lemma balanced_Cons [simp]: "k \<noteq> T_LParen \<Longrightarrow> k \<noteq> T_RParen \<Longrightarrow> k \<noteq> T_Eof \<Longrightarrow> balanced (k # ks) \<longleftrightarrow> balanced ks"
proof
  assume k: "k \<noteq> T_LParen" "k \<noteq> T_RParen" "k \<noteq> T_Eof"
  show "balanced ks \<Longrightarrow> balanced (k # ks)" using balanced_append [OF balanced_plain [OF k]] by simp
  assume bal: "balanced (k # ks)"
  have "group_is_pattern (Suc d) ts = group_is_pattern (Suc d) rest" if "reads_as ks ts rest" for d ts rest
    proof -
    let ?t = "\<lparr>tok_kind = k, tok_span = (0, 0)\<rparr> :: cql_token"
    have "reads_as (k # ks) (?t # ts) rest" using that by (auto simp: reads_as_Cons)
    from balancedD [OF bal this, of d] show ?thesis unfolding group_plain [OF k cql_token.select_convs(1)] .
  qed
  then show "balanced ks" unfolding balanced_def by blast
qed

lemma group_closed:
  assumes "balanced ks" "reads_as ([T_LParen] @ ks @ [T_RParen]) ts rest"
  shows "group_is_pattern 0 ts = (peek rest = T_Dash \<or> peek rest = T_ArrowL)" "group_is_pattern (Suc d) ts = group_is_pattern (Suc d) rest"
proof -
  obtain t ts1 u where t: "ts = t # ts1" "tok_kind t = T_LParen" "reads_as ks ts1 (u # rest)" "tok_kind u = T_RParen"
    using assms(2) by (auto simp: reads_as_Cons reads_as_append)
  show "group_is_pattern 0 ts = (peek rest = T_Dash \<or> peek rest = T_ArrowL)" "group_is_pattern (Suc d) ts = group_is_pattern (Suc d) rest"
    using balancedD [OF assms(1) t(3)] by (simp_all add: t)
qed

lemma balanced_group [intro!]: "balanced ks \<Longrightarrow> balanced (T_LParen # ks @ [T_RParen])"
proof -
  assume ks: "balanced ks"
  have "group_is_pattern (Suc d) ts = group_is_pattern (Suc d) rest" if "reads_as (T_LParen # ks @ [T_RParen]) ts rest" for d ts rest
    by (rule group_closed(2) [OF ks]) (use that in simp)
  then show ?thesis unfolding balanced_def by blast
qed

lemma balanced_concat [intro!]: "(\<And>ks. ks \<in> set kss \<Longrightarrow> balanced ks) \<Longrightarrow> balanced (concat kss)"
  by (induction kss) auto

lemma balanced_more [intro!]:
  "sep \<notin> {T_LParen, T_RParen, T_Eof} \<Longrightarrow> (\<And>x. x \<in> set xs \<Longrightarrow> balanced (pr x)) \<Longrightarrow> balanced (print_more sep pr xs)"
  unfolding print_more_def by auto

lemma balanced_sep [intro!]:
  "sep \<notin> {T_LParen, T_RParen, T_Eof} \<Longrightarrow> (\<And>x. x \<in> set xs \<Longrightarrow> balanced (pr x)) \<Longrightarrow> balanced (print_sep sep pr xs)"
  by (cases xs) (auto simp: print_sep_Cons)

lemma balanced_opt [intro!]: "(\<And>y. x = Some y \<Longrightarrow> balanced (pr y)) \<Longrightarrow> balanced (print_opt pr x)"
  by (cases x) (simp_all add: print_opt_def)

lemma balanced_value [intro!]: "balanced (print_value v)"
  by (induction v) (auto simp del: append_Cons append_Nil)

lemma balanced_props [intro!]: "balanced (print_props ps)"
  by (auto simp: print_props_def print_prop_def)

lemma balanced_var [intro!]: "balanced (print_var v)"
  by (auto simp: print_var_def)

lemma print_node_group:
  "\<exists>ks. balanced ks \<and> print_node nd = [T_LParen] @ ks @ [T_RParen]"
proof (intro exI conjI)
  let ?ks = "print_var (nd_var nd) @ print_opt (\<lambda>l. [T_Colon, T_Ident (sv_value l)]) (nd_label nd) @ print_props (nd_props nd)"
  show "balanced ?ks" by auto
  show "print_node nd = [T_LParen] @ ?ks @ [T_RParen]" by (simp add: print_node_def)
qed

lemma balanced_node [intro!]: "balanced (print_node nd)"
proof -
  obtain ks where "balanced ks" "print_node nd = T_LParen # ks @ [T_RParen]" using print_node_group [of nd] by auto
  then show ?thesis by (simp only: balanced_group)
qed

lemma balanced_rel [intro!]: "balanced (print_rel r)"
  by (auto simp: print_rel_def print_types_def print_len_def print_bound_def)

lemma balanced_path [intro!]: "balanced (print_path p)"
  by (auto simp: print_path_def)

lemma balanced_wrap [intro!]: "balanced ks \<Longrightarrow> balanced (wrap b ks)"
  using balanced_group by (simp add: wrap_def)

lemma balanced_expr [intro!]: "balanced (print_expr e)"
proof (induction e)
  case (ECall name args)
  have "balanced (if length args = 1 \<and> list_all is_star args then [T_Star] else print_sep T_Comma print_expr args)"
    using ECall by auto
  then show ?case by (simp add: balanced_group)
next
  case (EListComp var list filt proj)
  have "balanced (case filt of None \<Rightarrow> [] | Some f \<Rightarrow> T_Where # print_expr f)"
    using EListComp(2) by (cases filt) simp_all
  then show ?case using EListComp(1,3) by (simp add: balanced_append)
next
  case (EQuantifier kind var list p)
  have "balanced (T_LParen # (T_Ident var # T_In # print_expr list @ T_Where # print_expr p) @ [T_RParen])"
    by (rule balanced_group) (use EQuantifier in \<open>simp add: balanced_append\<close>)
  then show ?case by (cases kind) simp_all
next
  case (EBinary op l r sp)
  then have "balanced (wrap a (print_expr l) @ [print_op op] @ wrap b (print_expr r))" for a b
    by (cases op) (auto intro!: balanced_append)
  then show ?case by simp
qed (auto simp: print_path_def)

end
