(* ===== verification/Cql_Roundtrip_Expr.thy ===== *)
theory Cql_Roundtrip_Expr
  imports Cql_Roundtrip
begin

text \<open>
  The parser reads printed expressions back: precedence, left association, the lookahead that tells
  a pattern from a group, and every primary form.
\<close>

subsection \<open>What may follow and what comes first\<close>

definition follow :: "nat \<Rightarrow> tok \<Rightarrow> bool" where
  "follow lvl k \<longleftrightarrow> k \<noteq> T_Dot \<and> k \<noteq> T_LParen \<and> (lvl \<le> 3 \<longrightarrow> comparison_op k = None \<and> \<not> is_unsupported_is k) \<and>
     (lvl \<le> 2 \<longrightarrow> k \<noteq> T_Dash \<and> k \<noteq> T_ArrowL) \<and> (lvl \<le> 1 \<longrightarrow> k \<noteq> T_And) \<and> (lvl = 0 \<longrightarrow> k \<noteq> T_Or)"

lemma follow_mono: "follow i k \<Longrightarrow> i \<le> j \<Longrightarrow> follow j k"
  by (auto simp: follow_def)

lemma follow_tokens [simp]:
  "follow i T_Comma" "follow i T_RParen" "follow i T_RBracket" "follow i T_Pipe" "follow i T_Where" "follow i T_As"
  "follow i T_Order" "follow i T_Limit" "follow i T_Asc" "follow i T_Desc" "follow i T_Eof" "follow i T_With"
  "follow i T_Return" "follow i T_Match" "follow i T_Call" "follow i T_Yield"
  "follow 1 T_Or" "follow (Suc 0) T_Or" "follow 2 T_And"
  by (simp_all add: follow_def is_unsupported_is_def)

lemma primary_head:
  assumes "expr_level e = 4" "wf_expr e"
  shows "\<exists>k ks. print_expr e = k # ks \<and> k \<notin> {T_LParen, T_RParen, T_Not, T_Star, T_Eof, T_RBracket, T_Distinct}"
proof (cases e)
  case (ELiteral v)
  then show ?thesis using print_value_head [of v] assms(2) by auto
next
  case (EQuantifier kind var list p)
  then show ?thesis by (cases kind) auto
qed (use assms in \<open>auto split: bin_op.splits\<close>)

lemma print_path_head: "pp_path_var p = None \<Longrightarrow> \<exists>ks. print_path p = T_LParen # ks"
  by (simp add: print_path_def print_opt_def print_node_def)

lemma expr_head:
  "wf_expr e \<Longrightarrow> \<exists>k ks. wrap b (print_expr e) = k # ks \<and> k \<notin> {T_RParen, T_Star, T_Eof, T_RBracket, T_Distinct}"
proof (induction e arbitrary: b)
  case (EBinary op l r sp)
  obtain k ks where "wrap (expr_level l < fst (operand_levels op)) (print_expr l) = k # ks" "k \<notin> {T_RParen, T_Star, T_Eof, T_RBracket, T_Distinct}"
    using EBinary.IH(1) EBinary.prems by fastforce
  then show ?case by (simp add: wrap_def [of b])
next
  case (EPattern negated p)
  then show ?case using print_path_head [of p] by (auto simp: wrap_def)
next
  case (ELiteral v)
  then show ?case using primary_head [of "ELiteral v"] by (auto simp: wrap_def)
next
  case (EQuantifier kind var list p)
  then show ?case by (cases kind) (auto simp: wrap_def)
qed (auto simp: wrap_def)

lemma reads_as_head: "reads_as ks ts rest \<Longrightarrow> ks = k # ls \<Longrightarrow> peek ts = k"
  by (auto simp: reads_as_Cons)

lemma primary_peek:
  "expr_level e = 4 \<Longrightarrow> wf_expr e \<Longrightarrow> reads_as (print_expr e @ ks) ts rest \<Longrightarrow> peek ts \<noteq> T_LParen \<and> peek ts \<noteq> T_Not"
  using primary_head [of e] by (auto simp: reads_as_Cons)

text \<open>Only a printed pattern looks like one.\<close>

lemma try_none_group:
  assumes "reads_as (wrap True (print_expr e) @ ks) ts rest"
    and "\<And>mid. reads_as ks mid rest \<Longrightarrow> peek mid \<notin> {T_Dash, T_ArrowL}"
  shows "try_pattern_predicate n ts = Parsed None ts"
proof -
  obtain mid where mid: "reads_as ([T_LParen] @ print_expr e @ [T_RParen]) ts mid" "reads_as ks mid rest"
    using assms(1) unfolding wrap_def if_True reads_as_append [of "[T_LParen] @ print_expr e @ [T_RParen]" ks] by blast
  have "\<not> paren_group_is_pattern ts"
    using group_closed(1) [OF balanced_expr mid(1)] assms(2) [OF mid(2)] by (simp add: paren_group_is_pattern_def)
  then show ?thesis by (simp add: try_pattern_predicate_def)
qed

lemma try_none:
  assumes "wf_expr e" "reads_as (wrap b (print_expr e)) ts rest" "peek rest \<notin> {T_Dash, T_ArrowL}"
    and "expr_level e < 2 \<or> is_pattern e \<Longrightarrow> b"
  shows "try_pattern_predicate n ts = Parsed None ts"
proof (cases b)
  case True
  then show ?thesis using try_none_group [of e "[]" ts rest] assms(2,3) by simp
next
  case False
  have prim: "peek ts \<noteq> T_LParen \<Longrightarrow> ?thesis" by (simp add: try_pattern_predicate_def)
  show ?thesis
  proof (cases e)
    case (EBinary op l r sp)
    have lvl: "operand_levels op = (4, 4)" "print_op op \<notin> {T_Dash, T_ArrowL}"
      using assms(4) False EBinary by (cases op; simp)+
    have ts: "reads_as (wrap (expr_level l < 4) (print_expr l) @ [print_op op] @ wrap (expr_level r < 4) (print_expr r)) ts rest"
      using assms(2) False by (simp add: EBinary wrap_def lvl)
    show ?thesis
    proof (cases "expr_level l < 4")
      case True
      show ?thesis by (rule try_none_group [OF ts [unfolded eqTrueI [OF True]]]) (use lvl in \<open>auto simp: reads_as_Cons\<close>)
    next
      case False
      then have "expr_level l = 4" by (cases l) (auto split: bin_op.splits)
      then show ?thesis using primary_peek [of l] ts assms(1) prim by (simp add: EBinary wrap_def)
    qed
  next
    case (ENot e')
    then show ?thesis using prim assms(2) False by (auto simp: wrap_def reads_as_Cons)
  next
    case (EPattern negated p)
    then show ?thesis using assms(4) False by simp
  qed (use primary_peek [of e "[]" ts rest] assms False prim in \<open>simp_all add: wrap_def\<close>)
qed

lemma try_some:
  assumes "wf_path p" "pp_path_var p = None" "pp_steps p \<noteq> []" "reads_as (print_path p) ts rest" "peek rest \<notin> {T_Dash, T_ArrowL}"
  shows "gives (try_pattern_predicate n ts) (same (map_option strip_path) (Some p) rest)"
proof -
  obtain r nd steps where steps: "pp_steps p = (r, nd) # steps" using assms(3) by (cases "pp_steps p") auto
  obtain ts1 where ts: "reads_as (print_node (pp_start p)) ts ts1" "peek ts1 = T_Dash \<or> peek ts1 = T_ArrowL"
    using assms(4) by (fastforce simp: print_path_def print_opt_def assms(2) steps reads_as_append print_rel_def reads_as_Cons
      simp del: append_Cons split: if_splits)
  obtain ks where ks: "balanced ks" "print_node (pp_start p) = [T_LParen] @ ks @ [T_RParen]" using print_node_group by blast
  have "paren_group_is_pattern ts"
    unfolding paren_group_is_pattern_def group_closed(1) [OF ks(1) ts(1) [unfolded ks(2)]] using ts(2) .
  moreover have "peek ts = T_LParen" using print_node_head [OF ts(1)] .
  moreover have "gives (and_then (parse_path_pattern n ts) (\<lambda>pat ts1.
        if pp_steps pat = [] then
          Failed (cql_error_new (peek_span ts1) ParseError
            ''a pattern predicate requires a relationship, e.g. `(m)<-[:CALLS]-()`'')
        else Parsed (Some pat) ts1)) (same (map_option strip_path) (Some p) rest)"
    by (rule gives_bind [OF path_ok [OF assms(1,4,5)]]) (use steps in \<open>auto simp: strip_path_def\<close>)
  ultimately show ?thesis by (simp add: try_pattern_predicate_def)
qed

subsection \<open>Operator spines\<close>

abbreviation join :: "bin_op \<Rightarrow> expr \<Rightarrow> expr \<Rightarrow> expr" where
  "join op l r \<equiv> EBinary op l r (0, 0)"

lemma print_more_snoc: "print_more sep pr (xs @ [x]) = print_more sep pr xs @ sep # pr x"
  by (simp add: print_more_def)

lemma spine_single:
  assumes "wf_expr e" "lvl < expr_level e"
  shows "\<exists>e0 es. print_expr e = print_at (Suc lvl) e0 @ print_more (print_op op) (print_at (Suc lvl)) es \<and>
      e = foldl (join op) e0 es \<and> wf_expr e0 \<and> list_all wf_expr es"
proof (intro exI conjI)
  show "print_expr e = print_at (Suc lvl) e @ print_more (print_op op) (print_at (Suc lvl)) []"
    using assms by (simp add: print_at_def wrap_def print_more_def)
qed (use assms in simp_all)

lemma spine:
  assumes "op = BAnd \<and> lvl = 1 \<or> op = BOr \<and> lvl = 0"
  shows "wf_expr e \<Longrightarrow> lvl \<le> expr_level e \<Longrightarrow>
    \<exists>e0 es. print_expr e = print_at (Suc lvl) e0 @ print_more (print_op op) (print_at (Suc lvl)) es \<and>
      e = foldl (join op) e0 es \<and> wf_expr e0 \<and> list_all wf_expr es"
proof (induction e)
  case (EBinary op' l r sp)
  show ?case
  proof (cases "op' = op")
    case True
    have lvls: "operand_levels op' = (lvl, Suc lvl)" using assms True by auto
    have wf: "wf_expr l" "wf_expr r" "sp = (0, 0)" using EBinary.prems by simp_all
    show ?thesis
    proof (cases "expr_level l < lvl")
      case False
      then obtain e0 es where l: "print_expr l = print_at (Suc lvl) e0 @ print_more (print_op op) (print_at (Suc lvl)) es"
          "l = foldl (join op) e0 es" "wf_expr e0" "list_all wf_expr es"
        using EBinary.IH(1) wf(1) by auto
      show ?thesis
      proof (intro exI conjI)
        show "print_expr (EBinary op' l r sp) = print_at (Suc lvl) e0 @ print_more (print_op op) (print_at (Suc lvl)) (es @ [r])"
          using False True by (simp add: lvls [unfolded True] wrap_def [of False] l(1) print_more_snoc print_at_def)
        show "EBinary op' l r sp = foldl (join op) e0 (es @ [r])" using True l(2) wf(3) by simp
      qed (use l wf in simp_all)
    next
      case low: True
      show ?thesis
      proof (intro exI conjI)
        show "print_expr (EBinary op' l r sp) = print_at (Suc lvl) l @ print_more (print_op op) (print_at (Suc lvl)) [r]"
          using low True by (simp add: lvls [unfolded True] print_at_def print_more_def)
        show "EBinary op' l r sp = foldl (join op) l [r]" using True wf(3) by simp
      qed (use wf in simp_all)
    qed
  next
    case False
    then have "lvl < expr_level (EBinary op' l r sp)" using EBinary.prems assms by (cases op') auto
    then show ?thesis using spine_single [OF EBinary.prems(1)] by blast
  qed
qed (rule spine_single; use assms in force)+

subsection \<open>The methods of one level\<close>

definition args_tokens :: "expr list \<Rightarrow> tok list" where
  "args_tokens args =
     [T_LParen] @ (if length args = 1 \<and> list_all is_star args then [T_Star] else print_sep T_Comma print_expr args) @ [T_RParen]"

text \<open>What the methods with a given fuel read back.\<close>

definition reads_at :: "nat \<Rightarrow> bool" where
  "reads_at n \<longleftrightarrow>
     (\<forall>e b ts rest. wf_expr e \<longrightarrow> reads_as (wrap b (print_expr e)) ts rest \<longrightarrow>
        (follow 0 (peek rest) \<longrightarrow> gives (px_or (parsers_at n) ts) (same strip_expr e rest)) \<and>
        ((expr_level e < 1 \<longrightarrow> b) \<longrightarrow> follow 1 (peek rest) \<longrightarrow> gives (px_and (parsers_at n) ts) (same strip_expr e rest)) \<and>
        ((expr_level e < 2 \<longrightarrow> b) \<longrightarrow> follow 2 (peek rest) \<longrightarrow> gives (px_not (parsers_at n) ts) (same strip_expr e rest)) \<and>
        ((expr_level e < 3 \<longrightarrow> b) \<longrightarrow> follow 3 (peek rest) \<longrightarrow> gives (px_comparison (parsers_at n) ts) (same strip_expr e rest)) \<and>
        ((expr_level e < 4 \<longrightarrow> b) \<longrightarrow> follow 4 (peek rest) \<longrightarrow> gives (px_primary (parsers_at n) ts) (same strip_expr e rest))) \<and>
     (\<forall>es lhs ts rest. list_all wf_expr es \<longrightarrow>
        (reads_as (print_more T_Or (print_at 1) es) ts rest \<longrightarrow> follow 0 (peek rest) \<longrightarrow>
           gives (px_or_loop (parsers_at n) lhs ts) (same strip_expr (foldl (join BOr) (strip_expr lhs) es) rest)) \<and>
        (reads_as (print_more T_And (print_at 2) es) ts rest \<longrightarrow> follow 1 (peek rest) \<longrightarrow>
           gives (px_and_loop (parsers_at n) lhs ts) (same strip_expr (foldl (join BAnd) (strip_expr lhs) es) rest)) \<and>
        (reads_as (args_tokens es) ts rest \<longrightarrow> gives (px_args (parsers_at n) ts) (same (map strip_expr) es rest))) \<and>
     (\<forall>var list filt proj ts rest. wf_expr (EListComp var list filt proj) \<longrightarrow> reads_as (print_expr (EListComp var list filt proj)) ts rest \<longrightarrow>
        gives (px_list_comp (parsers_at n) ts) (same strip_expr (EListComp var list filt proj) rest)) \<and>
     (\<forall>kind var list p ts rest. wf_expr (EQuantifier kind var list p) \<longrightarrow> reads_as (print_expr (EQuantifier kind var list p)) ts rest \<longrightarrow>
        gives (px_quantifier (parsers_at n) ts) (same strip_expr (EQuantifier kind var list p) rest))"

lemma reads_atD:
  assumes "reads_at n"
  shows "wf_expr e \<Longrightarrow> reads_as (wrap b (print_expr e)) ts rest \<Longrightarrow> follow 0 (peek rest) \<Longrightarrow>
      gives (px_or (parsers_at n) ts) (same strip_expr e rest)"
    and "wf_expr e \<Longrightarrow> reads_as (wrap b (print_expr e)) ts rest \<Longrightarrow> follow 1 (peek rest) \<Longrightarrow> (expr_level e < 1 \<longrightarrow> b) \<Longrightarrow>
      gives (px_and (parsers_at n) ts) (same strip_expr e rest)"
    and "wf_expr e \<Longrightarrow> reads_as (wrap b (print_expr e)) ts rest \<Longrightarrow> follow 2 (peek rest) \<Longrightarrow> (expr_level e < 2 \<longrightarrow> b) \<Longrightarrow>
      gives (px_not (parsers_at n) ts) (same strip_expr e rest)"
    and "wf_expr e \<Longrightarrow> reads_as (wrap b (print_expr e)) ts rest \<Longrightarrow> follow 3 (peek rest) \<Longrightarrow> (expr_level e < 3 \<longrightarrow> b) \<Longrightarrow>
      gives (px_comparison (parsers_at n) ts) (same strip_expr e rest)"
    and "wf_expr e \<Longrightarrow> reads_as (wrap b (print_expr e)) ts rest \<Longrightarrow> follow 4 (peek rest) \<Longrightarrow> (expr_level e < 4 \<longrightarrow> b) \<Longrightarrow>
      gives (px_primary (parsers_at n) ts) (same strip_expr e rest)"
    and "list_all wf_expr es \<Longrightarrow> reads_as (print_more T_Or (print_at 1) es) ts rest \<Longrightarrow> follow 0 (peek rest) \<Longrightarrow>
      gives (px_or_loop (parsers_at n) lhs ts) (same strip_expr (foldl (join BOr) (strip_expr lhs) es) rest)"
    and "list_all wf_expr es \<Longrightarrow> reads_as (print_more T_And (print_at 2) es) ts rest \<Longrightarrow> follow 1 (peek rest) \<Longrightarrow>
      gives (px_and_loop (parsers_at n) lhs ts) (same strip_expr (foldl (join BAnd) (strip_expr lhs) es) rest)"
    and "list_all wf_expr es \<Longrightarrow> reads_as (args_tokens es) ts rest \<Longrightarrow> gives (px_args (parsers_at n) ts) (same (map strip_expr) es rest)"
    and "wf_expr (EListComp var list filt proj) \<Longrightarrow> reads_as (print_expr (EListComp var list filt proj)) ts rest \<Longrightarrow>
      gives (px_list_comp (parsers_at n) ts) (same strip_expr (EListComp var list filt proj) rest)"
    and "wf_expr (EQuantifier kind var list p) \<Longrightarrow> reads_as (print_expr (EQuantifier kind var list p)) ts rest \<Longrightarrow>
      gives (px_quantifier (parsers_at n) ts) (same strip_expr (EQuantifier kind var list p) rest)"
  using assms unfolding reads_at_def by blast+

lemma print_more_peek:
  "reads_as (print_more sep pr es) ts rest \<Longrightarrow> F sep \<Longrightarrow> F (peek rest) \<Longrightarrow> F (peek ts)"
  by (cases es) (auto simp: print_more_def reads_as_Cons)

subsection \<open>OR, AND and NOT\<close>

lemma or_loop_ok:
  assumes ih: "reads_at m" and wf: "list_all wf_expr es"
    and ts: "reads_as (print_more T_Or (print_at 1) es) ts rest" and rest: "follow 0 (peek rest)"
  shows "gives (or_loop (parsers_at m) lhs ts) (same strip_expr (foldl (join BOr) (strip_expr lhs) es) rest)"
proof (cases es)
  case Nil
  then show ?thesis using ts rest by (simp add: or_loop_def print_more_def follow_def)
next
  case (Cons e es')
  obtain t ts1 mid where t: "ts = t # ts1" "tok_kind t = T_Or" "reads_as (print_at 1 e) ts1 mid" "reads_as (print_more T_Or (print_at 1) es') mid rest"
    using ts by (auto simp: Cons print_more_def reads_as_Cons reads_as_append)
  have "follow 1 (peek mid)" by (rule print_more_peek [OF t(4)]) (use rest in \<open>auto intro: follow_mono\<close>)
  then have e: "gives (px_and (parsers_at m) ts1) (same strip_expr e mid)"
    using reads_atD(2) [OF ih _ t(3) [unfolded print_at_def]] wf by (simp add: Cons)
  have "gives (and_then (px_and (parsers_at m) ts1) (\<lambda>rhs ts1. px_or_loop (parsers_at m) (EBinary BOr lhs rhs (peek_span ts)) ts1))
      (same strip_expr (foldl (join BOr) (strip_expr lhs) es) rest)"
  proof (rule gives_bind [OF e], goal_cases)
    case (1 e' mid')
    then show ?case using reads_atD(6) [OF ih _ t(4) rest, of "EBinary BOr lhs e' (peek_span ts)"] wf by (simp add: Cons)
  qed
  then show ?thesis using t(1,2) by (simp add: or_loop_def bump_def)
qed

lemma or_ok:
  assumes ih: "reads_at m" and wf: "wf_expr e" and ts: "reads_as (wrap b (print_expr e)) ts rest" and rest: "follow 0 (peek rest)"
  shows "gives (parse_or (parsers_at m) ts) (same strip_expr e rest)"
proof -
  obtain e0 es c where e: "wrap b (print_expr e) = wrap c (print_expr e0) @ print_more T_Or (print_at 1) es" "e = foldl (join BOr) e0 es"
    "wf_expr e0" "list_all wf_expr es" "expr_level e0 < 1 \<longrightarrow> c"
  proof (cases b)
    case True
    then show ?thesis using wf that [of True e "[]"] by (simp add: print_more_def)
  next
    case False
    obtain e0 es where "print_expr e = print_at (Suc 0) e0 @ print_more T_Or (print_at (Suc 0)) es" "e = foldl (join BOr) e0 es" "wf_expr e0" "list_all wf_expr es"
      using spine [of BOr 0 e] wf by auto
    then show ?thesis using that [of "expr_level e0 < Suc 0" e0 es] False by (simp add: print_at_def wrap_def [of False])
  qed
  obtain mid where mid: "reads_as (wrap c (print_expr e0)) ts mid" "reads_as (print_more T_Or (print_at 1) es) mid rest"
    using ts unfolding e(1) reads_as_append by blast
  have "follow 1 (peek mid)" by (rule print_more_peek [OF mid(2)]) (use rest in \<open>auto intro: follow_mono\<close>)
  then show ?thesis
    unfolding parse_or_def
  proof (rule gives_bind [OF reads_atD(2) [OF ih e(3) mid(1) _ e(5)]], goal_cases)
    case (1 e' ts')
    then show ?case using reads_atD(6) [OF ih e(4) mid(2) rest, of e'] by (simp add: e(2))
  qed
qed

lemma and_loop_ok:
  assumes ih: "reads_at m" and wf: "list_all wf_expr es"
    and ts: "reads_as (print_more T_And (print_at 2) es) ts rest" and rest: "follow 1 (peek rest)"
  shows "gives (and_loop (parsers_at m) lhs ts) (same strip_expr (foldl (join BAnd) (strip_expr lhs) es) rest)"
proof (cases es)
  case Nil
  then show ?thesis using ts rest by (simp add: and_loop_def print_more_def follow_def)
next
  case (Cons e es')
  obtain t ts1 mid where t: "ts = t # ts1" "tok_kind t = T_And" "reads_as (print_at 2 e) ts1 mid" "reads_as (print_more T_And (print_at 2) es') mid rest"
    using ts by (auto simp: Cons print_more_def reads_as_Cons reads_as_append)
  have "follow 2 (peek mid)" by (rule print_more_peek [OF t(4)]) (use rest in \<open>auto intro: follow_mono\<close>)
  then have e: "gives (px_not (parsers_at m) ts1) (same strip_expr e mid)"
    using reads_atD(3) [OF ih _ t(3) [unfolded print_at_def]] wf by (simp add: Cons)
  have "gives (and_then (px_not (parsers_at m) ts1) (\<lambda>rhs ts1. px_and_loop (parsers_at m) (EBinary BAnd lhs rhs (peek_span ts)) ts1))
      (same strip_expr (foldl (join BAnd) (strip_expr lhs) es) rest)"
  proof (rule gives_bind [OF e], goal_cases)
    case (1 e' mid')
    then show ?case using reads_atD(7) [OF ih _ t(4) rest, of "EBinary BAnd lhs e' (peek_span ts)"] wf by (simp add: Cons)
  qed
  then show ?thesis using t(1,2) by (simp add: and_loop_def bump_def)
qed

lemma and_ok:
  assumes ih: "reads_at m" and wf: "wf_expr e" and ts: "reads_as (wrap b (print_expr e)) ts rest" and rest: "follow 1 (peek rest)"
    and lvl: "expr_level e < 1 \<longrightarrow> b"
  shows "gives (parse_and (parsers_at m) ts) (same strip_expr e rest)"
proof -
  obtain e0 es c where e: "wrap b (print_expr e) = wrap c (print_expr e0) @ print_more T_And (print_at 2) es" "e = foldl (join BAnd) e0 es"
    "wf_expr e0" "list_all wf_expr es" "expr_level e0 < 2 \<longrightarrow> c"
  proof (cases b)
    case True
    then show ?thesis using wf that [of True e "[]"] by (simp add: print_more_def)
  next
    case False
    obtain e0 es where "print_expr e = print_at 2 e0 @ print_more T_And (print_at 2) es" "e = foldl (join BAnd) e0 es" "wf_expr e0" "list_all wf_expr es"
      using spine [of BAnd 1 e] wf lvl False by (auto simp: numeral_2_eq_2)
    then show ?thesis using that [of "expr_level e0 < 2" e0 es] False by (simp add: print_at_def wrap_def [of False])
  qed
  obtain mid where mid: "reads_as (wrap c (print_expr e0)) ts mid" "reads_as (print_more T_And (print_at 2) es) mid rest"
    using ts unfolding e(1) reads_as_append by blast
  have "follow 2 (peek mid)" by (rule print_more_peek [OF mid(2)]) (use rest in \<open>auto intro: follow_mono\<close>)
  then show ?thesis
    unfolding parse_and_def
  proof (rule gives_bind [OF reads_atD(3) [OF ih e(3) mid(1) _ e(5)]], goal_cases)
    case (1 e' ts')
    then show ?case using reads_atD(7) [OF ih e(4) mid(2) rest, of e'] by (simp add: e(2))
  qed
qed

lemma not_first:
  assumes "wf_expr e" "reads_as (wrap b (print_expr e)) ts rest" "b \<or> 3 \<le> expr_level e"
  shows "peek ts \<noteq> T_Not"
proof (cases b)
  case True
  then show ?thesis using assms(2) by (auto simp: wrap_def reads_as_Cons)
next
  case False
  show ?thesis
  proof (cases e)
    case (EBinary op l r sp)
    have lvl: "operand_levels op = (4, 4)" using assms(3) False EBinary by (cases op) simp_all
    show ?thesis
    proof (cases "expr_level l < 4")
      case True
      then show ?thesis using assms(2) False by (auto simp: EBinary lvl wrap_def reads_as_Cons)
    next
      case high: False
      then have "expr_level l = 4" by (cases l) (auto split: bin_op.splits)
      then show ?thesis using primary_peek [of l] assms(1,2) high False by (simp add: EBinary lvl wrap_def)
    qed
  qed (use primary_peek [of e "[]" ts rest] assms False in \<open>simp_all add: wrap_def\<close>)
qed

lemma not_ok:
  assumes ih: "reads_at m" and wf: "wf_expr e" and ts: "reads_as (wrap b (print_expr e)) ts rest" and rest: "follow 2 (peek rest)"
    and lvl: "expr_level e < 2 \<longrightarrow> b"
  shows "gives (parse_not (parsers_at m) ts) (same strip_expr e rest)"
proof -
  have dash: "peek rest \<notin> {T_Dash, T_ArrowL}" using rest by (simp add: follow_def)
  consider (negation) e' where "\<not> b" "e = ENot e'" | (pattern) negated p where "\<not> b" "e = EPattern negated p"
    | (low) "b \<or> 3 \<le> expr_level e"
    using lvl by (cases e) (auto split: bin_op.splits)
  then show ?thesis
  proof cases
    case negation
    let ?w = "expr_level e' < 2 \<or> is_pattern e'"
    obtain t ts1 where t: "ts = t # ts1" "tok_kind t = T_Not" "reads_as (wrap ?w (print_expr e')) ts1 rest"
      using ts by (auto simp: negation wrap_def [of False] reads_as_Cons)
    have wf': "wf_expr e'" using wf by (simp add: negation)
    have none: "try_pattern_predicate (px_fuel (parsers_at m)) ts1 = Parsed None ts1" by (rule try_none [OF wf' t(3) dash]) simp
    have "gives (and_then (px_not (parsers_at m) ts1) (\<lambda>e ts2. Parsed (ENot e) ts2)) (same strip_expr e rest)"
      by (rule gives_bind [OF reads_atD(3) [OF ih wf' t(3) rest]]) (use negation in auto)
    then show ?thesis using none by (simp add: parse_not_def t bump_def del: parsers_at_fuel)
  next
    case pattern
    have p: "wf_path p" "pp_path_var p = None" "pp_steps p \<noteq> []" using wf by (simp_all add: pattern)
    show ?thesis
    proof (cases negated)
      case True
      obtain t ts1 where t: "ts = t # ts1" "tok_kind t = T_Not" "reads_as (print_path p) ts1 rest"
        using ts True by (auto simp: pattern wrap_def reads_as_Cons)
      have "gives (and_then (try_pattern_predicate (px_fuel (parsers_at m)) ts1) (\<lambda>pat ts1.
          case pat of
            Some pattern \<Rightarrow> Parsed (EPattern True pattern) ts1
          | None \<Rightarrow> and_then (px_not (parsers_at m) ts1) (\<lambda>e ts2. Parsed (ENot e) ts2))) (same strip_expr e rest)"
        by (rule gives_bind [OF try_some [OF p t(3) dash]]) (use pattern True in auto)
      then show ?thesis by (simp add: parse_not_def t bump_def del: parsers_at_fuel)
    next
      case False
      have t: "reads_as (print_path p) ts rest" using ts False by (simp add: pattern wrap_def)
      then have "peek ts = T_LParen" using print_path_head [OF p(2)] reads_as_head by blast
      moreover have "gives (and_then (try_pattern_predicate (px_fuel (parsers_at m)) ts) (\<lambda>pat ts1.
          case pat of
            Some pattern \<Rightarrow> Parsed (EPattern False pattern) ts1
          | None \<Rightarrow> px_comparison (parsers_at m) ts1)) (same strip_expr e rest)"
        by (rule gives_bind [OF try_some [OF p t dash]]) (use pattern False in auto)
      ultimately show ?thesis by (simp add: parse_not_def del: parsers_at_fuel)
    qed
  next
    case low
    have none: "try_pattern_predicate (px_fuel (parsers_at m)) ts = Parsed None ts"
      by (rule try_none [OF wf ts dash]) (use low in \<open>cases e; auto\<close>)
    have "peek ts \<noteq> T_Not" using not_first [OF wf ts low] .
    moreover have "gives (px_comparison (parsers_at m) ts) (same strip_expr e rest)"
      by (rule reads_atD(4) [OF ih wf ts follow_mono [OF rest]]) (use low in auto)
    ultimately show ?thesis using none by (simp add: parse_not_def del: parsers_at_fuel)
  qed
qed

subsection \<open>Comparisons and primaries\<close>

lemma comparison_ok:
  assumes ih: "reads_at m" and wf: "wf_expr e" and ts: "reads_as (wrap b (print_expr e)) ts rest" and rest: "follow 3 (peek rest)"
    and lvl: "expr_level e < 3 \<longrightarrow> b"
  shows "gives (parse_comparison (parsers_at m) ts) (same strip_expr e rest)"
proof (cases "b \<or> expr_level e = 4")
  case True
  then show ?thesis
    unfolding parse_comparison_def
  proof (intro gives_bind [OF reads_atD(5) [OF ih wf ts follow_mono [OF rest]]], goal_cases)
    case (3 e' ts')
    then show ?case using rest by (simp add: follow_def)
  qed auto
next
  case False
  then obtain op l r sp where e: "e = EBinary op l r sp" and op: "operand_levels op = (4, 4)" "comparison_op (print_op op) = Some op" "follow 4 (print_op op)"
    using lvl by (cases e) (auto simp: follow_def split: bin_op.splits)
  obtain ts1 t ts2 where t: "reads_as (wrap (expr_level l < 4) (print_expr l)) ts ts1" "ts1 = t # ts2" "tok_kind t = print_op op"
      "reads_as (wrap (expr_level r < 4) (print_expr r)) ts2 rest"
    using ts False by (auto simp: e op wrap_def [of False] reads_as_append reads_as_Cons)
  have wf': "wf_expr l" "wf_expr r" "sp = (0, 0)" using wf by (simp_all add: e)
  have p1: "peek ts1 = print_op op" by (simp add: t)
  have bump: "bump ts1 = ts2" using op(2) by (cases op) (simp_all add: bump_def t)
  show ?thesis
    unfolding parse_comparison_def
  proof (rule gives_bind [OF reads_atD(5) [OF ih wf'(1) t(1)]], goal_cases)
    case (3 l' ts1')
    then have l: "strip_expr l' = l" and "ts1' = ts1" by auto
    show ?case
      unfolding \<open>ts1' = ts1\<close> p1 op(2) option.case bump
      by (rule gives_bind [OF reads_atD(5) [OF ih wf'(2) t(4) follow_mono [OF rest]]]) (use l wf'(3) in \<open>simp_all add: e\<close>)
  qed (use op p1 in simp_all)
qed

lemma segments_ok:
  assumes "list_all wf_name segs" "reads_as (print_more T_Dot (\<lambda>s. [T_Ident (sv_value s)]) segs) ts rest" "peek rest \<noteq> T_Dot"
  shows "gives (property_segments n ts) (same (map strip_name) segs rest)"
  using assms
proof (induction segs arbitrary: n ts)
  case Nil
  then show ?case by (cases n) (simp_all add: print_more_def eat_def)
next
  case (Cons s segs)
  show ?case
  proof (cases n)
    case (Suc k)
    obtain t ts1 ts2 where t: "ts = t # ts1" "tok_kind t = T_Dot" "reads_as [T_Ident (sv_value s)] ts1 ts2"
      "reads_as (print_more T_Dot (\<lambda>s. [T_Ident (sv_value s)]) segs) ts2 rest"
      using Cons.prems(2) by (auto simp: print_more_def reads_as_Cons)
    have "gives (and_then (expect_ident ''property name after `.`'' ts1) (\<lambda>seg ts2.
             and_then (property_segments k ts2) (\<lambda>segs ts3. Parsed (seg # segs) ts3))) (same (map strip_name) (s # segs) rest)"
    proof (rule gives_bind [OF expect_ident_ok [OF t(3)]], goal_cases)
      case (1 x ts2')
      then have x: "strip_name x = s" and "ts2' = ts2" using Cons.prems(1) wf_name_bare [of s] by simp_all
      have "gives (property_segments k ts2) (same (map strip_name) segs rest)"
        by (rule Cons.IH) (use Cons.prems t in simp_all)
      then show ?case unfolding \<open>ts2' = ts2\<close> by (rule gives_bind) (use x in simp)
    qed
    then show ?thesis by (simp add: Suc eat_def t)
  qed simp
qed

lemma literal_primary:
  assumes "literal_value v" "reads_as (print_value v) ts rest"
  shows "gives (parse_primary (parsers_at m) ts) (same strip_expr (ELiteral v) rest)"
proof (cases "\<exists>vs. v = VList vs")
  case True
  then obtain vs where v: "v = VList vs" by blast
  obtain t ts1 where t: "ts = t # ts1" "tok_kind t = T_LBracket" "reads_as (print_sep T_Comma print_value vs @ [T_RBracket]) ts1 rest"
    using assms(2) by (auto simp: v reads_as_Cons)
  have "\<forall>s. peek ts1 \<noteq> T_Ident s"
  proof (cases vs)
    case Nil
    then show ?thesis using t(3) by (auto simp: reads_as_Cons)
  next
    case (Cons w ws)
    then show ?thesis using t(3) assms(1) print_value_head [of w] by (auto simp: v print_sep_Cons reads_as_Cons)
  qed
  then have "\<not> bracket_is_comprehension ts" by (simp add: bracket_is_comprehension_def t split: tok.split)
  moreover have "gives (and_then (parse_list_literal (px_fuel (parsers_at m)) ts) (\<lambda>v ts1. Parsed (ELiteral v) ts1)) (same strip_expr (ELiteral v) rest)"
    by (rule gives_bind [OF literals_ok(2)]) (use assms in \<open>simp_all add: v\<close>)
  ultimately show ?thesis using t(2) by (simp add: parse_primary_def t(1))
next
  case False
  have "gives (and_then (parse_literal (px_fuel (parsers_at m)) ts) (\<lambda>v ts1. Parsed (ELiteral v) ts1)) (same strip_expr (ELiteral v) rest)"
    by (rule gives_bind [OF literals_ok(1) [OF assms]]) simp
  then show ?thesis
    using assms False by (cases v) (auto simp: parse_primary_def reads_as_Cons simp del: parse_literal.simps split: if_splits)
qed

lemma primary_ok:
  assumes ih: "reads_at m" and wf: "wf_expr e" and ts: "reads_as (wrap b (print_expr e)) ts rest" and rest: "follow 4 (peek rest)"
    and lvl: "expr_level e < 4 \<longrightarrow> b"
  shows "gives (parse_primary (parsers_at m) ts) (same strip_expr e rest)"
proof (cases b)
  case True
  obtain t ts1 mid where t: "ts = t # ts1" "tok_kind t = T_LParen" "reads_as (wrap False (print_expr e)) ts1 mid" "reads_as [T_RParen] mid rest"
    using ts by (auto simp: True wrap_def reads_as_Cons reads_as_append)
  have "gives (and_then (px_or (parsers_at m) (bump ts)) (\<lambda>e ts1.
            and_then (expect T_RParen ''`)` to close a parenthesised expression'' ts1) (\<lambda>_ ts2. Parsed e ts2))) (same strip_expr e rest)"
    unfolding t(1) bump_def peek.simps t(2)
  proof (simp, rule gives_bind [OF reads_atD(1) [OF ih wf t(3)]], goal_cases)
    case (2 e' mid')
    then have e': "strip_expr e' = e" "mid' = mid" by auto
    show ?case unfolding e'(2) by (rule gives_bind [OF expect_ok [OF t(4)]]) (use e' in simp_all)
  qed (use reads_as_peek [OF t(4)] in simp)
  then show ?thesis by (simp add: parse_primary_def t)
next
  case False
  have pe: "reads_as (print_expr e) ts rest" using ts False by (simp add: wrap_def)
  show ?thesis
  proof (cases e)
    case (ELiteral v)
    then show ?thesis using literal_primary [of v ts rest m] wf pe by simp
  next
    case (EProperty head segs)
    obtain t ts1 where t: "ts = t # ts1" "tok_kind t = T_Ident (sv_value head)" "reads_as (print_more T_Dot (\<lambda>s. [T_Ident (sv_value s)]) segs) ts1 rest"
      using pe by (auto simp: EProperty reads_as_Cons)
    have "peek ts1 \<noteq> T_LParen" by (rule print_more_peek [OF t(3)]) (use rest in \<open>simp_all add: follow_def\<close>)
    moreover have "gives (and_then (property_segments (px_fuel (parsers_at m)) ts1) (\<lambda>segments ts1. Parsed (EProperty (spanned_new (sv_value head) (peek_span ts)) segments) ts1)) (same strip_expr e rest)"
      by (rule gives_bind [OF segments_ok [OF _ t(3)]]) (use wf rest in \<open>auto simp: EProperty follow_def strip_name_def spanned_new_def wf_name_def\<close>)
    ultimately show ?thesis by (simp add: parse_primary_def t bump_def Let_def)
  next
    case (ECall name args)
    obtain t ts1 where t: "ts = t # ts1" "tok_kind t = T_Ident (sv_value name)" "reads_as (args_tokens args) ts1 rest"
      using pe by (auto simp: ECall reads_as_Cons args_tokens_def)
    have "peek ts1 = T_LParen" using t(3) by (auto simp: args_tokens_def reads_as_Cons)
    moreover have "gives (and_then (px_args (parsers_at m) ts1) (\<lambda>args ts1. Parsed (ECall (spanned_new (sv_value name) (peek_span ts)) args) ts1)) (same strip_expr e rest)"
      by (rule gives_bind [OF reads_atD(8) [OF ih _ t(3)]]) (use wf in \<open>auto simp: ECall strip_name_def spanned_new_def wf_name_def\<close>)
    ultimately show ?thesis by (simp add: parse_primary_def t bump_def Let_def)
  next
    case (EListComp var list filt proj)
    have "peek ts = T_LBracket" "bracket_is_comprehension ts"
      using pe by (auto simp: EListComp reads_as_Cons bracket_is_comprehension_def)
    then show ?thesis
      using reads_atD(9) [OF ih wf [unfolded EListComp] pe [unfolded EListComp]] by (simp add: parse_primary_def EListComp)
  next
    case (EQuantifier kind var list p)
    have "peek ts = print_quantifier kind" using pe by (auto simp: EQuantifier reads_as_Cons)
    then show ?thesis
      using reads_atD(10) [OF ih wf [unfolded EQuantifier] pe [unfolded EQuantifier]] by (cases kind) (simp_all add: parse_primary_def EQuantifier)
  qed (use lvl False in \<open>auto split: bin_op.splits\<close>)
qed

lemma exprs_ok:
  assumes ih: "reads_at m" and wf: "list_all wf_expr args" "args \<noteq> []" and ts: "reads_as (print_sep T_Comma print_expr args) ts rest"
    and rest: "follow 0 (peek rest)" "peek rest \<noteq> T_Comma"
  shows "gives (sep_list T_Comma (px_or (parsers_at m)) n ts) (same (map strip_expr) args rest)"
proof (rule sep_list_ok [where F = "follow 0", OF _ _ _ rest(2,1) ts wf(2)])
  fix x ts rest
  assume x: "x \<in> set args" "reads_as (print_expr x) ts rest" "follow 0 (peek rest)"
  show "gives (px_or (parsers_at m) ts) (same strip_expr x rest)"
    using reads_atD(1) [OF ih, of x False] x wf(1) by (simp add: wrap_def list_all_iff)
qed simp_all

lemma exprs_head:
  assumes "list_all wf_expr args" "args \<noteq> []" "reads_as (print_sep T_Comma print_expr args) ts rest"
  shows "peek ts \<notin> {T_RParen, T_Star}"
proof -
  obtain e es where args: "args = e # es" using assms(2) by (cases args) auto
  show ?thesis using assms(1,3) expr_head [of e False] by (auto simp: args print_sep_Cons wrap_def reads_as_Cons)
qed

lemma args_ok:
  assumes ih: "reads_at m" and wf: "list_all wf_expr args" and ts: "reads_as (args_tokens args) ts rest"
  shows "gives (parse_args (parsers_at m) ts) (same (map strip_expr) args rest)"
proof -
  obtain ts1 mid where t: "reads_as [T_LParen] ts ts1" "reads_as [T_RParen] mid rest"
    "reads_as (if length args = 1 \<and> list_all is_star args then [T_Star] else print_sep T_Comma print_expr args) ts1 mid"
    using ts by (auto simp: args_tokens_def reads_as_append reads_as_Cons simp del: append_Cons append_Nil)
  have inner: "gives (if peek ts1 = T_Star then Parsed [EProperty (spanned_new ''*'' (peek_span ts1)) []] (bump ts1)
                 else if peek ts1 \<noteq> T_RParen then sep_list T_Comma (px_or (parsers_at m)) (px_fuel (parsers_at m)) ts1
                 else Parsed [] ts1) (same (map strip_expr) args mid)"
  proof (cases "length args = 1 \<and> list_all is_star args")
    case True
    then obtain e where e: "args = [e]" "is_star e" by (cases args) auto
    show ?thesis using t(3) True e by (auto simp: reads_as_Cons bump_def is_star_def strip_name_def spanned_new_def)
  next
    case False
    show ?thesis
    proof (cases "args = []")
      case True
      then show ?thesis using t(2,3) by (auto simp: reads_as_Cons)
    next
      case nonempty: False
      have tok: "reads_as (print_sep T_Comma print_expr args) ts1 mid" using t(3) False by (simp split: if_splits)
      have "peek mid = T_RParen" using reads_as_peek [OF t(2)] .
      then show ?thesis using exprs_ok [OF ih wf nonempty tok] exprs_head [OF wf nonempty tok] by simp
    qed
  qed
  show ?thesis
    unfolding parse_args_def
  proof (rule gives_bind [OF expect_ok [OF t(1)]], simp, goal_cases)
    case (1 u ts1')
    then have "ts1' = ts1" by simp
    show ?case
      unfolding \<open>ts1' = ts1\<close>
    proof (rule gives_bind [OF inner], goal_cases)
      case (1 ys mid')
      then have "mid' = mid" by simp
      show ?case unfolding \<open>mid' = mid\<close> by (rule gives_bind [OF expect_ok [OF t(2)]]) (use 1 in simp_all)
    qed
  qed
qed

lemma expr_okD:
  assumes "reads_at m" "wf_expr e" "reads_as (print_expr e) ts rest" "follow 0 (peek rest)"
  shows "gives (px_or (parsers_at m) ts) (same strip_expr e rest)"
  using reads_atD(1) [OF assms(1,2), of False] assms(3,4) by (simp add: wrap_def)

lemma filter_ok:
  assumes ih: "reads_at m" and wf: "pred_option wf_expr filt" and rest: "follow 0 (peek rest)" "peek rest \<noteq> T_Where"
    and ts: "reads_as (case filt of None \<Rightarrow> [] | Some f \<Rightarrow> T_Where # print_expr f) ts rest"
  shows "gives (let (filtered, ts5) = eat T_Where ts in
      if filtered then and_then (px_or (parsers_at m) ts5) (\<lambda>e ts. Parsed (Some e) ts) else Parsed None ts)
    (same (map_option strip_expr) filt rest)"
proof (cases filt)
  case None
  then show ?thesis using ts rest by (simp add: eat_def)
next
  case (Some f)
  obtain t ts1 where t: "ts = t # ts1" "tok_kind t = T_Where" "reads_as (print_expr f) ts1 rest" using ts by (auto simp: Some reads_as_Cons)
  have "gives (and_then (px_or (parsers_at m) ts1) (\<lambda>e ts. Parsed (Some e) ts)) (same (map_option strip_expr) filt rest)"
    by (rule gives_bind [OF expr_okD [OF ih _ t(3) rest(1)]]) (use wf in \<open>simp_all add: Some\<close>)
  then show ?thesis by (simp add: eat_def t)
qed

lemma list_comp_ok:
  assumes ih: "reads_at m" and wf: "wf_expr (EListComp var list filt proj)" and ts: "reads_as (print_expr (EListComp var list filt proj)) ts rest"
  shows "gives (parse_list_comp (parsers_at m) ts) (same strip_expr (EListComp var list filt proj) rest)"
proof -
  have wf': "wf_expr list" "pred_option wf_expr filt" "wf_expr proj" using wf by simp_all
  obtain ts1 ts2 ts3 ts4 ts5 ts6 ts7 where t: "reads_as [T_LBracket] ts ts1" "reads_as [T_Ident var] ts1 ts2" "reads_as [T_In] ts2 ts3"
    "reads_as (print_expr list) ts3 ts4" "reads_as (case filt of None \<Rightarrow> [] | Some f \<Rightarrow> T_Where # print_expr f) ts4 ts5"
    "reads_as [T_Pipe] ts5 ts6" "reads_as (print_expr proj) ts6 ts7" "reads_as [T_RBracket] ts7 rest"
    using ts by (simp add: reads_as_append reads_as_Cons) blast
  have p4: "follow 0 (peek ts4)"
    using t(5) reads_as_peek [OF t(6)] by (cases filt) (auto simp: reads_as_Cons)
  obtain filtered ts4' where eat: "eat T_Where ts4 = (filtered, ts4')" by fastforce
  have filt: "gives (if filtered then and_then (px_or (parsers_at m) ts4') (\<lambda>e ts. Parsed (Some e) ts) else Parsed None ts4) (same (map_option strip_expr) filt ts5)"
    using filter_ok [OF ih wf'(2) _ _ t(5)] reads_as_peek [OF t(6)] by (simp add: eat)
  show ?thesis
    unfolding parse_list_comp_def
  proof (rule expect_then [OF t(1)], simp, rule ident_then [OF t(2)], rule expect_then [OF t(3)], simp,
      rule same_then [OF expr_okD [OF ih wf'(1) t(4) p4]], unfold eat Let_def prod.case, rule same_then [OF filt],
      rule expect_then [OF t(6)], simp, rule same_then [OF expr_okD [OF ih wf'(3) t(7)]], goal_cases)
    case (2 _ v _ list' filt' _ proj')
    show ?case by (rule expect_then [OF t(8)]) (use 2 in simp_all)
  qed (use reads_as_peek [OF t(8)] in simp)
qed

lemma quantifier_ok:
  assumes ih: "reads_at m" and wf: "wf_expr (EQuantifier kind var list p)" and ts: "reads_as (print_expr (EQuantifier kind var list p)) ts rest"
  shows "gives (parse_quantifier (parsers_at m) ts) (same strip_expr (EQuantifier kind var list p) rest)"
proof -
  have wf': "wf_expr list" "wf_expr p" using wf by simp_all
  obtain t ts1 ts2 ts3 ts4 ts5 ts6 ts7 where u: "ts = t # ts1" "tok_kind t = print_quantifier kind"
    and t: "reads_as [T_LParen] ts1 ts2" "reads_as [T_Ident var] ts2 ts3" "reads_as [T_In] ts3 ts4"
    "reads_as (print_expr list) ts4 ts5" "reads_as [T_Where] ts5 ts6" "reads_as (print_expr p) ts6 ts7" "reads_as [T_RParen] ts7 rest"
    using ts by (simp add: reads_as_append reads_as_Cons) blast
  have q: "quantifier_of (peek ts) = Some kind" "bump ts = ts1" by (cases kind; simp add: u bump_def)+
  show ?thesis
    unfolding parse_quantifier_def q option.case
  proof (rule expect_then [OF t(1)], simp, rule ident_then [OF t(2)], rule expect_then [OF t(3)], simp,
      rule same_then [OF expr_okD [OF ih wf'(1) t(4)]], simp_all only: reads_as_peek [OF t(5)] follow_tokens,
      rule expect_then [OF t(5)], simp, rule same_then [OF expr_okD [OF ih wf'(2) t(6)]], goal_cases)
    case (2 _ v _ list' _ p')
    show ?case by (rule expect_then [OF t(7)]) (use 2 in simp_all)
  qed (use reads_as_peek [OF t(7)] in simp)
qed

lemma reads_at_all: "reads_at n"
proof (induction n)
  case 0
  then show ?case by (simp add: reads_at_def)
next
  case (Suc m)
  show ?case
    unfolding reads_at_def parsers_at_Suc
    by (intro conjI allI impI;
        rule or_ok [OF Suc] and_ok [OF Suc] not_ok [OF Suc] comparison_ok [OF Suc] primary_ok [OF Suc] or_loop_ok [OF Suc]
          and_loop_ok [OF Suc] args_ok [OF Suc] list_comp_ok [OF Suc] quantifier_ok [OF Suc]; assumption)
qed

lemma expr_ok:
  "wf_expr e \<Longrightarrow> reads_as (print_expr e) ts rest \<Longrightarrow> follow 0 (peek rest) \<Longrightarrow> gives (parse_expr n ts) (same strip_expr e rest)"
  unfolding parse_expr_def by (rule expr_okD [OF reads_at_all])

end
