(* ===== verification/Cql_Roundtrip_Query.thy ===== *)
theory Cql_Roundtrip_Query
  imports Cql_Roundtrip_Expr
begin

text \<open>
  The parser reads printed clauses and queries back.
\<close>

subsection \<open>Parts of clauses\<close>

lemma alias_ok:
  assumes "reads_as (print_alias a) ts rest" "peek rest \<noteq> T_As"
  shows "gives (parse_alias ts) (same (\<lambda>x. x) a rest)"
proof (cases a)
  case None
  then show ?thesis using assms by (simp add: print_alias_def print_opt_def parse_alias_def eat_def)
next
  case (Some s)
  obtain t ts1 where t: "ts = t # ts1" "tok_kind t = T_As" "reads_as [T_Ident s] ts1 rest"
    using assms(1) by (auto simp: Some print_alias_def print_opt_def reads_as_Cons)
  have "gives (and_then (expect_ident ''alias after AS'' ts1) (\<lambda>name ts2. Parsed (Some (sv_value name)) ts2)) (same (\<lambda>x. x) a rest)"
    by (rule ident_then [OF t(3)]) (simp add: Some)
  then show ?thesis by (simp add: parse_alias_def eat_def t)
qed

lemma alias_peek: "reads_as (print_alias a) ts rest \<Longrightarrow> follow 0 (peek rest) \<Longrightarrow> follow 0 (peek ts)"
  by (cases a) (auto simp: print_alias_def print_opt_def reads_as_Cons)

lemma where_ok:
  assumes "pred_option wf_expr e" "reads_as (print_where e) ts rest" "follow 0 (peek rest)" "peek rest \<noteq> T_Where"
  shows "gives (parse_opt_where n ts) (same (map_option strip_expr) e rest)"
proof (cases e)
  case None
  then show ?thesis using assms by (simp add: print_where_def print_opt_def parse_opt_where_def eat_def)
next
  case (Some f)
  obtain t ts1 where t: "ts = t # ts1" "tok_kind t = T_Where" "reads_as (print_expr f) ts1 rest"
    using assms(2) by (auto simp: Some print_where_def print_opt_def reads_as_Cons)
  have "gives (and_then (parse_expr n ts1) (\<lambda>e ts2. Parsed (Some e) ts2)) (same (map_option strip_expr) e rest)"
    by (rule same_then [OF expr_ok [OF _ t(3) assms(3)]]) (use assms(1) in \<open>simp_all add: Some\<close>)
  then show ?thesis by (simp add: parse_opt_where_def eat_def t)
qed

lemma where_peek: "reads_as (print_where e) ts rest \<Longrightarrow> F T_Where \<Longrightarrow> F (peek rest) \<Longrightarrow> F (peek ts)"
  by (cases e) (auto simp: print_where_def print_opt_def reads_as_Cons)

subsection \<open>Reading clauses\<close>

lemma print_path_peek: "reads_as (print_path p) ts rest \<Longrightarrow> peek ts \<noteq> T_All"
  by (cases "pp_path_var p") (auto simp: print_path_def print_opt_def print_node_def reads_as_Cons)

lemma match_ok:
  assumes "wf_match m" "reads_as (print_match m) ts rest" "follow 0 (peek rest)" "peek rest \<notin> {T_Where, T_Comma}"
  shows "gives (parse_match n ts) (same strip_match m rest)"
proof -
  obtain ts1 ts2 where t: "reads_as [T_Match] ts ts1" "reads_as (print_sep T_Comma print_path (mc_patterns m)) ts1 ts2" "reads_as (print_where (mc_where m)) ts2 rest"
    using assms(2) unfolding print_match_def reads_as_append by blast
  have wf: "mc_patterns m \<noteq> []" "list_all wf_path (mc_patterns m)" "pred_option wf_expr (mc_where m)" using assms(1) by (simp_all add: wf_match_def)
  have p2: "peek ts2 \<notin> {T_Dash, T_ArrowL, T_Comma}"
    by (rule where_peek [OF t(3)]) (use assms(3,4) in \<open>auto simp: follow_def\<close>)
  have all: "peek ts1 \<noteq> T_All"
    using t(2) wf(1) print_path_peek by (cases "mc_patterns m") (auto simp: print_sep_Cons reads_as_append)
  have pats: "gives (sep_list T_Comma (parse_path_pattern n) n ts1) (same (map strip_path) (mc_patterns m) ts2)"
    by (rule sep_list_ok [where F = "\<lambda>k. k \<notin> {T_Dash, T_ArrowL}", OF path_ok _ _ _ _ t(2)]) (use wf p2 in \<open>auto simp: list_all_iff\<close>)
  show ?thesis
    unfolding parse_match_def
  proof (rule expect_then [OF t(1)], simp, simp only: all if_False, rule same_then [OF pats])
    fix ps
    assume "map strip_path ps = mc_patterns m"
    then show "gives (and_then (parse_opt_where n ts2) (\<lambda>filt ts3. Parsed \<lparr>mc_patterns = ps, mc_where = filt\<rparr> ts3)) (same strip_match m rest)"
      by (intro same_then [OF where_ok [OF wf(3) t(3) assms(3)]]) (use assms(4) in \<open>simp_all add: strip_match_def\<close>)
  qed
qed

lemma split_dots_nonempty: "split_dots s \<noteq> []"
  by (cases s) simp_all

fun join_dots :: "string list \<Rightarrow> string" where
  "join_dots [] = []"
| "join_dots (s # ss) = (if ss = [] then s else s @ ''.'' @ join_dots ss)"

lemma join_split: "join_dots (split_dots s) = s"
proof (induction s)
  case (Cons c s)
  obtain d ds where d: "split_dots s = d # ds" using split_dots_nonempty [of s] by (cases "split_dots s") auto
  then show ?case using Cons by (cases ds) (simp_all add: d)
qed simp

lemma join_dots_step: "join_dots (s # t # ts) = join_dots ((s @ ''.'' @ t) # ts)"
  by (cases ts) simp_all

lemma proc_ok:
  assumes "reads_as (print_more T_Dot (\<lambda>s. [T_Ident s]) segs) ts rest" "peek rest \<noteq> T_Dot"
  shows "gives (proc_segments n name ts) (\<lambda>x ts'. sv_value x = join_dots (sv_value name # segs) \<and> ts' = rest)"
  using assms(1)
proof (induction segs arbitrary: n name ts)
  case Nil
  then show ?case using assms(2) by (cases n) (simp_all add: print_more_def eat_def)
next
  case (Cons s segs)
  show ?case
  proof (cases n)
    case (Suc k)
    obtain t ts1 ts2 where t: "ts = t # ts1" "tok_kind t = T_Dot" "reads_as [T_Ident s] ts1 ts2" "reads_as (print_more T_Dot (\<lambda>s. [T_Ident s]) segs) ts2 rest"
      using Cons.prems by (auto simp: print_more_def reads_as_Cons)
    have "gives (and_then (expect_ident ''procedure name segment after `.`'' ts1) (\<lambda>seg ts2.
             proc_segments k (spanned_new (sv_value name @ ''.'' @ sv_value seg) (fst (sv_span name), snd (sv_span seg))) ts2))
        (\<lambda>x ts'. sv_value x = join_dots (sv_value name # s # segs) \<and> ts' = rest)"
    proof (rule ident_then [OF t(3)])
      fix x :: "string spanned"
      assume "sv_value x = s"
      then show "gives (proc_segments k (spanned_new (sv_value name @ ''.'' @ sv_value x) (fst (sv_span name), snd (sv_span x))) ts2)
          (\<lambda>x ts'. sv_value x = join_dots (sv_value name # s # segs) \<and> ts' = rest)"
        using Cons.IH [OF t(4), of k "spanned_new (sv_value name @ ''.'' @ s) (fst (sv_span name), snd (sv_span x))"]
        unfolding join_dots_step by (simp add: spanned_new_def)
    qed
    then show ?thesis by (simp add: Suc eat_def t del: join_dots.simps)
  qed simp
qed

lemma yield_ok:
  assumes "wf_name (yi_name y)" "reads_as (print_yield y) ts rest" "peek rest \<noteq> T_As"
  shows "gives (parse_yield_item ts) (same strip_yield y rest)"
proof -
  obtain ts1 where t: "reads_as [T_Ident (sv_value (yi_name y))] ts ts1" "reads_as (print_alias (yi_alias y)) ts1 rest"
    using assms(2) unfolding print_yield_def reads_as_append by blast
  show ?thesis
    unfolding parse_yield_item_def
  proof (rule ident_then [OF t(1)])
    fix x :: "string spanned"
    assume "sv_value x = sv_value (yi_name y)"
    then have "strip_name x = yi_name y" using wf_name_bare [OF assms(1)] by (simp add: strip_name_def)
    then show "gives (and_then (parse_alias ts1) (\<lambda>alias ts2. Parsed \<lparr>yi_name = x, yi_alias = alias\<rparr> ts2)) (same strip_yield y rest)"
      by (intro same_then [OF alias_ok [OF t(2) assms(3)]]) (simp add: strip_yield_def)
  qed
qed

lemma call_args_ok:
  assumes "list_all wf_expr args" "reads_as (print_sep T_Comma print_expr args) ts rest" "peek rest = T_RParen"
  shows "gives (if peek ts \<noteq> T_RParen then sep_list T_Comma (parse_expr n) n ts else Parsed [] ts) (same (map strip_expr) args rest)"
proof (cases "args = []")
  case True
  then show ?thesis using assms by simp
next
  case False
  show ?thesis
    using exprs_ok [OF reads_at_all assms(1) False assms(2), of n n] exprs_head [OF assms(1) False assms(2)] assms(3)
    by (simp add: parse_expr_def)
qed

lemma call_ok:
  assumes "wf_call c" "reads_as (print_call c) ts rest" "follow 0 (peek rest)" "peek rest \<notin> {T_Where, T_Comma, T_As}"
  shows "gives (parse_call n ts) (same strip_call c rest)"
proof -
  obtain s segs where dots: "split_dots (sv_value (cl_proc c)) = s # segs"
    using split_dots_nonempty [of "sv_value (cl_proc c)"] by (cases "split_dots (sv_value (cl_proc c))") auto
  obtain ts1 ts2 ts3 ts4 ts5 ts6 ts7 ts8 where t: "reads_as [T_Call] ts ts1" "reads_as [T_Ident s] ts1 ts2"
    "reads_as (print_more T_Dot (\<lambda>s. [T_Ident s]) segs) ts2 ts3" "reads_as [T_LParen] ts3 ts4"
    "reads_as (print_sep T_Comma print_expr (cl_args c)) ts4 ts5" "reads_as [T_RParen] ts5 ts6" "reads_as [T_Yield] ts6 ts7"
    "reads_as (print_sep T_Comma print_yield (cl_yields c)) ts7 ts8" "reads_as (print_where (cl_where c)) ts8 rest"
    using assms(2) unfolding print_call_def dots print_sep_Cons [of T_Dot] by (auto simp: reads_as_append reads_as_Cons)
  have wf: "wf_name (cl_proc c)" "list_all wf_expr (cl_args c)" "cl_yields c \<noteq> []" "list_all (\<lambda>y. wf_name (yi_name y)) (cl_yields c)" "pred_option wf_expr (cl_where c)"
    using assms(1) by (simp_all add: wf_call_def)
  have p8: "peek ts8 \<notin> {T_As, T_Comma}" by (rule where_peek [OF t(9)]) (use assms(4) in auto)
  have yields: "gives (sep_list T_Comma parse_yield_item n ts7) (same (map strip_yield) (cl_yields c) ts8)"
    by (rule sep_list_ok [where F = "\<lambda>k. k \<noteq> T_As", OF yield_ok _ _ _ _ t(8)]) (use wf p8 in \<open>auto simp: list_all_iff\<close>)
  have filt: "gives (parse_opt_where n ts8) (same (map_option strip_expr) (cl_where c) rest)"
    by (rule where_ok [OF wf(5) t(9) assms(3)]) (use assms(4) in simp)
  show ?thesis
    unfolding parse_call_def
  proof (rule expect_then [OF t(1)], simp, rule ident_then [OF t(2)], goal_cases)
    case (1 _ head)
    show ?case
    proof (rule gives_bind [OF proc_ok [OF t(3)]], simp add: reads_as_peek [OF t(4)], elim conjE, simp only:,
        rule expect_then [OF t(4)], simp, rule same_then [OF call_args_ok [OF wf(2) t(5) reads_as_peek [OF t(6)]]],
        rule expect_then [OF t(6)], simp, rule expect_then [OF t(7)], simp, rule same_then [OF yields], rule same_then [OF filt], goal_cases)
      case (1 proc _ _ args _ _ ys f)
      then have "strip_name proc = cl_proc c"
        using wf_name_bare [OF wf(1)] join_split [of "sv_value (cl_proc c)"] \<open>sv_value head = s\<close> by (simp add: strip_name_def dots)
      then show ?case using 1 by (simp add: strip_call_def)
    qed
  qed
qed

subsection \<open>Projections\<close>

lemma item_ok:
  assumes "wf_expr (ri_expr i)" "reads_as (print_item i) ts rest" "follow 0 (peek rest) \<and> peek rest \<noteq> T_As"
  shows "gives (parse_return_item n ts) (same strip_item i rest)"
proof -
  obtain ts1 where t: "reads_as (print_expr (ri_expr i)) ts ts1" "reads_as (print_alias (ri_alias i)) ts1 rest"
    using assms(2) unfolding print_item_def reads_as_append by blast
  show ?thesis
    unfolding parse_return_item_def
  proof (rule same_then [OF expr_ok [OF assms(1) t(1) alias_peek [OF t(2) assms(3) [THEN conjunct1]]]])
    fix e
    assume "strip_expr e = ri_expr i"
    then show "gives (and_then (parse_alias ts1) (\<lambda>alias ts2. Parsed \<lparr>ri_expr = e, ri_alias = alias\<rparr> ts2)) (same strip_item i rest)"
      by (intro same_then [OF alias_ok [OF t(2) assms(3) [THEN conjunct2]]]) (simp add: strip_item_def)
  qed
qed

lemma sort_item_ok:
  assumes "wf_expr (ob_expr x)" "reads_as (print_order x) ts rest" "follow 0 (peek rest) \<and> peek rest \<notin> {T_Asc, T_Desc}"
  shows "gives (parse_sort_item n ts) (same strip_order x rest)"
proof -
  obtain ts1 where t: "reads_as (print_expr (ob_expr x)) ts ts1" "reads_as (if ob_descending x then [T_Desc] else []) ts1 rest"
    using assms(2) unfolding print_order_def reads_as_append by blast
  have p1: "follow 0 (peek ts1)" using t(2) assms(3) by (auto simp: reads_as_Cons split: if_splits)
  show ?thesis
    unfolding parse_sort_item_def
    by (rule same_then [OF expr_ok [OF assms(1) t(1) p1]])
      (use t(2) assms(3) in \<open>auto simp: eat_def reads_as_Cons strip_order_def split: if_splits\<close>)
qed

lemma order_by_ok:
  assumes "list_all (\<lambda>x. wf_expr (ob_expr x)) obs" "reads_as (print_order_by obs) ts rest"
    and "follow 0 (peek rest)" "peek rest \<notin> {T_Asc, T_Desc, T_Comma, T_Order}"
  shows "gives (parse_opt_order_by n ts) (same (map strip_order) obs rest)"
proof (cases "obs = []")
  case True
  then show ?thesis using assms by (simp add: print_order_by_def parse_opt_order_by_def eat_def)
next
  case False
  obtain t ts1 ts2 where t: "ts = t # ts1" "tok_kind t = T_Order" "reads_as [T_By] ts1 ts2" "reads_as (print_sep T_Comma print_order obs) ts2 rest"
    using assms(2) False by (auto simp: print_order_by_def reads_as_Cons)
  have "gives (sep_list T_Comma (parse_sort_item n) n ts2) (same (map strip_order) obs rest)"
    by (rule sep_list_ok [where F = "\<lambda>k. follow 0 k \<and> k \<notin> {T_Asc, T_Desc}", OF sort_item_ok _ _ _ _ t(4)])
      (use assms False in \<open>auto simp: list_all_iff\<close>)
  then have "gives (and_then (expect T_By ''BY after ORDER'' ts1) (\<lambda>_ ts2. sep_list T_Comma (parse_sort_item n) n ts2)) (same (map strip_order) obs rest)"
    by (intro expect_then [OF t(3)]) simp_all
  then show ?thesis by (simp add: parse_opt_order_by_def eat_def t)
qed

lemma limit_ok:
  "reads_as (print_limit l) ts rest \<Longrightarrow> peek rest \<noteq> T_Limit \<Longrightarrow> gives (parse_opt_limit ts) (same (\<lambda>x. x) l rest)"
  by (cases l) (auto simp: print_limit_def print_opt_def parse_opt_limit_def eat_def bump_def reads_as_Cons)

lemma limit_peek: "reads_as (print_limit l) ts rest \<Longrightarrow> F T_Limit \<Longrightarrow> F (peek rest) \<Longrightarrow> F (peek ts)"
  by (cases l) (auto simp: print_limit_def print_opt_def reads_as_Cons)

lemma order_by_peek: "reads_as (print_order_by obs) ts rest \<Longrightarrow> F T_Order \<Longrightarrow> F (peek rest) \<Longrightarrow> F (peek ts)"
  by (cases "obs = []") (auto simp: print_order_by_def reads_as_Cons)

definition clause_end :: "tok \<Rightarrow> bool" where
  "clause_end k \<longleftrightarrow> follow 0 k \<and> k \<notin> {T_As, T_Asc, T_Desc, T_Comma, T_Order, T_Limit}"

lemma distinct_ok:
  assumes "reads_as (if d then [T_Distinct] else []) ts ts1" "peek ts1 \<noteq> T_Distinct"
  shows "eat T_Distinct ts = (d, ts1)"
  using assms by (auto simp: eat_def reads_as_Cons split: if_splits)

lemma projection_ok:
  assumes "wf_projection items obs" "reads_as (print_projection d items obs l) ts rest" "clause_end (peek rest)"
    and cont: "\<And>items' obs'. map strip_item items' = items \<Longrightarrow> map strip_order obs' = obs \<Longrightarrow> gives (f d items' obs' l rest) R"
  shows "gives (let (distinct', ts2) = eat T_Distinct ts in
       and_then (parse_return_items n ts2) (\<lambda>items ts3.
         and_then (parse_opt_order_by n ts3) (\<lambda>order_by ts4.
           and_then (parse_opt_limit ts4) (\<lambda>limit ts5. f distinct' items order_by limit ts5)))) R"
proof -
  obtain ts1 ts2 ts3 where t: "reads_as (if d then [T_Distinct] else []) ts ts1" "reads_as (print_sep T_Comma print_item items) ts1 ts2"
    "reads_as (print_order_by obs) ts2 ts3" "reads_as (print_limit l) ts3 rest"
    using assms(2) unfolding print_projection_def reads_as_append by blast
  have wf: "items \<noteq> []" "list_all (\<lambda>i. wf_expr (ri_expr i)) items" "list_all (\<lambda>x. wf_expr (ob_expr x)) obs"
    using assms(1) by (simp_all add: wf_projection_def)
  have p3: "follow 0 (peek ts3) \<and> peek ts3 \<notin> {T_As, T_Asc, T_Desc, T_Comma, T_Order}"
    by (rule limit_peek [OF t(4)]) (use assms(3) in \<open>auto simp: clause_end_def\<close>)
  have p2: "follow 0 (peek ts2) \<and> peek ts2 \<notin> {T_As, T_Comma}"
    by (rule order_by_peek [OF t(3)]) (use p3 in auto)
  have p1: "peek ts1 \<noteq> T_Distinct"
  proof -
    obtain i is' where items: "items = i # is'" using wf(1) by (cases items) auto
    show ?thesis using t(2) wf(2) expr_head [of "ri_expr i" False] by (auto simp: items print_sep_Cons print_item_def wrap_def reads_as_Cons)
  qed
  have its: "gives (parse_return_items n ts1) (same (map strip_item) items ts2)"
    unfolding parse_return_items_def
    by (rule sep_list_ok [where F = "\<lambda>k. follow 0 k \<and> k \<noteq> T_As", OF item_ok _ _ _ _ t(2)]) (use wf p2 in \<open>auto simp: list_all_iff\<close>)
  show ?thesis
    unfolding distinct_ok [OF t(1) p1] Let_def prod.case
  proof (rule same_then [OF its], rule same_then [OF order_by_ok [OF wf(3) t(3)]], goal_cases)
    case (3 items' obs')
    show ?case by (rule same_then [OF limit_ok [OF t(4)]]) (use 3 cont assms(3) in \<open>auto simp: clause_end_def\<close>)
  qed (use p3 in auto)
qed

lemma return_ok:
  assumes "wf_return r" "reads_as (print_return r) ts rest" "clause_end (peek rest)"
  shows "gives (parse_return n ts) (same strip_return r rest)"
proof -
  obtain ts1 where t: "reads_as [T_Return] ts ts1" "reads_as (print_projection (rc_distinct r) (rc_items r) (rc_order_by r) (rc_limit r)) ts1 rest"
    using assms(2) unfolding print_return_def reads_as_append by blast
  have wf: "wf_projection (rc_items r) (rc_order_by r)" using assms(1) by (simp add: wf_return_def)
  show ?thesis
    unfolding parse_return_def
    by (rule expect_then [OF t(1)], simp, rule projection_ok [OF wf t(2) assms(3)]) (simp add: strip_return_def)
qed

lemma with_ok:
  assumes "wf_with w" "reads_as (print_with w) ts rest" "clause_end (peek rest)" "peek rest \<noteq> T_Where"
  obtains ts1 where "reads_as [T_With] ts ts1" "gives (parse_with n ts1) (same strip_with w rest)"
proof -
  obtain ts1 ts2 where t: "reads_as [T_With] ts ts1"
    "reads_as (print_projection (wi_distinct w) (wi_items w) (wi_order_by w) (wi_limit w)) ts1 ts2" "reads_as (print_where (wi_where w)) ts2 rest"
    using assms(2) unfolding print_with_def reads_as_append by blast
  have wf: "wf_projection (wi_items w) (wi_order_by w)" "pred_option wf_expr (wi_where w)" using assms(1) by (simp_all add: wf_with_def)
  have p2: "clause_end (peek ts2)" by (rule where_peek [OF t(3)]) (use assms(3) in \<open>simp_all add: clause_end_def\<close>)
  have filt: "gives (parse_opt_where n ts2) (same (map_option strip_expr) (wi_where w) rest)"
    by (rule where_ok [OF wf(2) t(3)]) (use assms(3,4) in \<open>simp_all add: clause_end_def\<close>)
  have "gives (parse_with n ts1) (same strip_with w rest)"
    unfolding parse_with_def
  proof (rule projection_ok [OF wf(1) t(2) p2], goal_cases)
    case (1 items' obs')
    then show ?case by (intro same_then [OF filt]) (simp add: strip_with_def)
  qed
  then show ?thesis using that t(1) by blast
qed

subsection \<open>Queries\<close>

lemma clause_ends [simp]:
  "clause_end T_Eof" "clause_end T_Match" "clause_end T_Call" "clause_end T_With" "clause_end T_Return"
  by (simp_all add: clause_end_def)

abbreviation starts_clause :: "tok \<Rightarrow> bool" where
  "starts_clause k \<equiv> k \<in> {T_Match, T_Call, T_With, T_Return}"

lemma reading_peek: "reads_as (print_reading r) ts rest \<Longrightarrow> peek ts \<in> {T_Match, T_Call}"
  by (cases r) (auto simp: print_match_def print_call_def reads_as_Cons)

lemma readings_peek:
  "reads_as (concat (map print_reading rs)) ts rest \<Longrightarrow> starts_clause (peek rest) \<Longrightarrow> starts_clause (peek ts)"
  using reading_peek by (cases rs) (auto simp: reads_as_append)

lemma readings_ok:
  assumes "list_all wf_reading rs" "reads_as (concat (map print_reading rs)) ts rest" "peek rest \<in> {T_With, T_Return}"
  shows "gives (parse_reading n ts) (same (map strip_reading) rs rest)"
  using assms(1,2)
proof (induction rs arbitrary: n ts)
  case Nil
  then show ?case using assms(3) by (cases n) auto
next
  case (Cons r rs)
  obtain mid where t: "reads_as (print_reading r) ts mid" "reads_as (concat (map print_reading rs)) mid rest"
    using Cons.prems(2) by (auto simp: reads_as_append)
  have next_ok: "starts_clause (peek mid)" using readings_peek [OF t(2)] assms(3) by auto
  then have ends: "follow 0 (peek mid)" "peek mid \<notin> {T_Where, T_Comma, T_As}" by auto
  show ?case
  proof (cases n)
    case (Suc k)
    have ih: "gives (parse_reading k mid) (same (map strip_reading) rs rest)" by (rule Cons.IH) (use Cons.prems t in simp_all)
    show ?thesis
    proof (cases r)
      case (RMatch m)
      have m: "gives (parse_match k ts) (same strip_match m mid)"
        by (rule match_ok) (use Cons.prems t ends in \<open>simp_all add: RMatch\<close>)
      have "gives (and_then (parse_match k ts) (\<lambda>m ts1. and_then (parse_reading k ts1) (\<lambda>rs ts2. Parsed (RMatch m # rs) ts2)))
          (same (map strip_reading) (r # rs) rest)"
        by (rule same_then [OF m], rule same_then [OF ih]) (simp add: RMatch)
      moreover have "peek ts = T_Match" using t(1) by (auto simp: RMatch print_match_def reads_as_Cons)
      ultimately show ?thesis by (simp add: Suc)
    next
      case (RCall c)
      have c: "gives (parse_call k ts) (same strip_call c mid)"
        by (rule call_ok) (use Cons.prems t ends in \<open>simp_all add: RCall\<close>)
      have "gives (and_then (parse_call k ts) (\<lambda>c ts1. and_then (parse_reading k ts1) (\<lambda>rs ts2. Parsed (RCall c # rs) ts2)))
          (same (map strip_reading) (r # rs) rest)"
        by (rule same_then [OF c], rule same_then [OF ih]) (simp add: RCall)
      moreover have "peek ts = T_Call" using t(1) by (auto simp: RCall print_call_def reads_as_Cons)
      ultimately show ?thesis by (simp add: Suc)
    qed
  qed simp
qed

lemma part_ok:
  assumes "list_all wf_reading (qp_reading p)" "pred_option wf_return (qp_ret p)" "pred_option wf_with (qp_with p)"
    and "qp_ret p = None \<longleftrightarrow> qp_with p \<noteq> None" "reads_as (print_part p) ts rest" "clause_end (peek rest)" "peek rest \<noteq> T_Where"
  shows "gives (parse_part n ts) (same strip_part p rest)"
proof -
  obtain mid where t: "reads_as (concat (map print_reading (qp_reading p))) ts mid"
    "reads_as (print_opt print_with (qp_with p) @ print_opt print_return (qp_ret p)) mid rest"
    using assms(5) unfolding print_part_def reads_as_append by blast
  show ?thesis
  proof (cases "qp_with p")
    case None
    then obtain r where r: "qp_ret p = Some r" using assms(4) by auto
    have tr: "reads_as (print_return r) mid rest" using t(2) by (simp add: None r print_opt_def)
    then have peek: "peek mid = T_Return" by (auto simp: print_return_def reads_as_Cons)
    have reading: "gives (parse_reading n ts) (same (map strip_reading) (qp_reading p) mid)"
      by (rule readings_ok [OF assms(1) t(1)]) (simp add: peek)
    show ?thesis
      unfolding parse_part_def
    proof (rule same_then [OF reading], goal_cases)
      case (1 rs)
      have "gives (and_then (parse_return n mid) (\<lambda>r ts3. Parsed \<lparr>qp_reading = rs, qp_ret = Some r, qp_with = None\<rparr> ts3)) (same strip_part p rest)"
        by (rule same_then [OF return_ok [OF _ tr assms(6)]]) (use assms(2) 1 in \<open>simp_all add: r strip_part_def None\<close>)
      then show ?case by (simp add: eat_def peek)
    qed
  next
    case (Some w)
    then have r: "qp_ret p = None" using assms(4) by auto
    have tw: "reads_as (print_with w) mid rest" using t(2) by (simp add: Some r print_opt_def)
    obtain ts1 where ts1: "reads_as [T_With] mid ts1" "gives (parse_with n ts1) (same strip_with w rest)"
      by (rule with_ok [OF _ tw assms(6,7)]) (use assms(3) in \<open>simp_all add: Some\<close>)
    then have peek: "peek mid = T_With" "eat T_With mid = (True, ts1)" by (auto simp: eat_def reads_as_Cons)
    have reading: "gives (parse_reading n ts) (same (map strip_reading) (qp_reading p) mid)"
      by (rule readings_ok [OF assms(1) t(1)]) (simp add: peek)
    show ?thesis
      unfolding parse_part_def
    proof (rule same_then [OF reading], goal_cases)
      case (1 rs)
      show ?case
        unfolding peek(2) Let_def prod.case if_True
        by (rule same_then [OF ts1(2)]) (use 1 in \<open>simp add: r strip_part_def Some\<close>)
    qed
  qed
qed

lemma part_peek: "reads_as (print_part p) ts rest \<Longrightarrow> qp_ret p = None \<longleftrightarrow> qp_with p \<noteq> None \<Longrightarrow> starts_clause (peek ts)"
proof -
  assume p: "reads_as (print_part p) ts rest" "qp_ret p = None \<longleftrightarrow> qp_with p \<noteq> None"
  obtain mid where t: "reads_as (concat (map print_reading (qp_reading p))) ts mid"
    "reads_as (print_opt print_with (qp_with p) @ print_opt print_return (qp_ret p)) mid rest"
    using p(1) unfolding print_part_def reads_as_append by blast
  have "starts_clause (peek mid)"
    using t(2) p(2) by (cases "qp_with p"; cases "qp_ret p") (auto simp: print_opt_def print_with_def print_return_def reads_as_Cons)
  then show ?thesis by (rule readings_peek [OF t(1)])
qed

lemma wf_parts_head:
  assumes "wf_parts (p # ps)"
  shows "list_all wf_reading (qp_reading p)" "pred_option wf_return (qp_ret p)" "pred_option wf_with (qp_with p)"
    "qp_ret p = None \<longleftrightarrow> qp_with p \<noteq> None" "qp_with p = None \<longleftrightarrow> ps = []"
  using assms by (auto split: if_splits)

lemma parts_ok:
  "wf_parts ps \<Longrightarrow> reads_as (concat (map print_part ps)) ts rest \<Longrightarrow> peek rest = T_Eof \<Longrightarrow>
    gives (parse_parts n ts) (same (map strip_part) ps rest)"
proof (induction ps arbitrary: n ts)
  case (Cons p ps)
  note p = wf_parts_head [OF Cons.prems(1)]
  obtain mid where t: "reads_as (print_part p) ts mid" "reads_as (concat (map print_part ps)) mid rest"
    using Cons.prems(2) by (auto simp: reads_as_append)
  have mid: "clause_end (peek mid) \<and> peek mid \<noteq> T_Where"
  proof (cases ps)
    case Nil
    then show ?thesis using t(2) Cons.prems(3) by simp
  next
    case (Cons q qs)
    have "wf_parts (q # qs)" using Cons.prems(1) by (simp add: Cons split: if_splits)
    then have "starts_clause (peek mid)"
      using part_peek [of q mid] wf_parts_head(4) [of q qs] t(2) by (auto simp: Cons reads_as_append)
    then show ?thesis by auto
  qed
  show ?case
  proof (cases n)
    case (Suc k)
    have part: "gives (parse_part k ts) (same strip_part p mid)" by (rule part_ok) (use p t(1) mid in auto)
    show ?thesis
      unfolding Suc parse_parts.simps
    proof (rule same_then [OF part], goal_cases)
      case (1 p')
      then have none: "qp_with p' = None \<longleftrightarrow> ps = []" using p(5) by (auto simp: strip_part_def)
      show ?case
      proof (cases "ps = []")
        case True
        then show ?thesis using none 1 t(2) by simp
      next
        case False
        have "gives (parse_parts k mid) (same (map strip_part) ps rest)"
          by (rule Cons.IH) (use Cons.prems False t in \<open>simp_all split: if_splits\<close>)
        then have "gives (and_then (parse_parts k mid) (\<lambda>parts ts2. Parsed (p' # parts) ts2)) (same (map strip_part) (p # ps) rest)"
          by (rule same_then) (use 1 in simp)
        then show ?thesis using none False by simp
      qed
    qed
  qed simp
qed simp

lemma wf_parts_last: "wf_parts ps \<Longrightarrow> ps \<noteq> [] \<and> qp_ret (last ps) \<noteq> None"
  by (induction ps rule: wf_parts.induct) (auto split: if_splits)

lemma query_ok:
  assumes "wf_query q" "reads_as (print_query q) ts rest" "peek rest = T_Eof"
  shows "gives (parse_query n ts) (same strip_query q rest)"
proof -
  have parts: "gives (parse_parts n ts) (same (map strip_part) (q_parts q) rest)"
    by (rule parts_ok) (use assms in \<open>simp_all add: wf_query_def print_query_def\<close>)
  show ?thesis
    unfolding parse_query_def
  proof (rule same_then [OF parts], goal_cases)
    case (1 ps)
    have "q_parts q \<noteq> [] \<and> qp_ret (last (q_parts q)) \<noteq> None" using assms(1) wf_parts_last by (simp add: wf_query_def)
    then have "ps \<noteq> [] \<and> qp_ret (last ps) \<noteq> None"
      unfolding 1 [symmetric] by (auto simp: last_map strip_part_def)
    then show ?case using assms(3) 1 by (simp add: strip_query_def)
  qed
qed

end
