(* ===== verification/Cql_Properties.thy ===== *)
theory Cql_Properties
  imports Cql_Roundtrip_Query
begin

text \<open>
  What the query language front half guarantees: the order of values on which ORDER BY, DISTINCT
  and min/max rest, the token stream, and the parser.
\<close>

section \<open>The lexer and the parser\<close>

text \<open>
  C35. The parser always returns: for every source text, the recursion of the recursive-descent
  parser ends with a query or with a structured error, whatever the tokens are.
\<close>

theorem cql_parse_returns: "cql_parse src \<noteq> None"
proof (cases "cql_tokenize src")
  case (Inr ts)
  have "leaves (length ts - 1) (parse_query (parse_fuel ts) ts)" using leaves_query [OF tokenize_ends [OF Inr]] by simp
  then show ?thesis by (cases "parse_query (parse_fuel ts) ts") (simp_all add: cql_parse_def Inr leaves_def)
qed (simp add: cql_parse_def)

text \<open>
  Spelling a list of tokens and lexing the text gives the tokens back, followed by the end
  marker: keywords, names, integers, strings with their escapes and all the punctuation.
\<close>

theorem cql_tokenize_spell:
  "\<forall>k \<in> set ks. wf_token k \<Longrightarrow> \<exists>ts. cql_tokenize (spell_all ks) = Inr ts \<and> map tok_kind ts = ks @ [T_Eof]"
  using lex_run_spell [of ks] by (fastforce simp: cql_tokenize_def)

theorem cql_tokenize_spell_witness:
  "\<exists>ts. cql_tokenize (spell_all [T_Match, T_LParen, T_Ident ''n'', T_RParen, T_Limit, T_Int 7]) = Inr ts \<and>
    map tok_kind ts = [T_Match, T_LParen, T_Ident ''n'', T_RParen, T_Limit, T_Int 7] @ [T_Eof]"
  by (rule cql_tokenize_spell) code_simp

text \<open>
  C38. The spans of a token stream lie within the source, are not empty, do not overlap and are in
  source order, and the stream ends with the one end marker, which stands at the end of the source.
\<close>

theorem cql_tokenize_spans:
  assumes "cql_tokenize src = Inr ts"
  shows "last ts = eof_token (length src) \<and> sorted_wrt span_before ts \<and>
    (\<forall>t \<in> set (butlast ts). tok_kind t \<noteq> T_Eof \<and> fst (tok_span t) < snd (tok_span t) \<and> snd (tok_span t) \<le> length src)"
  using lex_run_spans [of "length src" src ts] assms by (simp add: cql_tokenize_def ends_with_eof_def)

definition sample_source :: string where
  "sample_source = ''a <> 12''"

definition sample_tokens :: "cql_token list" where
  "sample_tokens = [\<lparr>tok_kind = T_Ident ''a'', tok_span = (0, 1)\<rparr>, \<lparr>tok_kind = T_Ne, tok_span = (2, 4)\<rparr>,
     \<lparr>tok_kind = T_Int 12, tok_span = (5, 7)\<rparr>, \<lparr>tok_kind = T_Eof, tok_span = (7, 7)\<rparr>]"

theorem cql_tokenize_spans_witness:
  "cql_tokenize sample_source = Inr sample_tokens \<and> sorted_wrt span_before sample_tokens"
proof -
  have "cql_tokenize sample_source = Inr sample_tokens" by code_simp
  then show ?thesis using cql_tokenize_spans by blast
qed

section \<open>Printing and parsing\<close>

text \<open>
  C19. The grammar is unambiguous and the parser is faithful to it: printing a syntax tree with as
  few parentheses as the precedence of OR, AND, NOT, comparisons and primaries allows, lexing the
  text and parsing it gives the tree back, up to the spans. This covers every clause, pattern,
  literal and expression form, and the lookahead that tells a pattern from a parenthesised group.
\<close>

theorem cql_parse_print:
  assumes "wf_query q" "\<forall>k \<in> set (print_query q). wf_token k"
  shows "\<exists>q'. cql_parse (spell_all (print_query q)) = Some (Inr q') \<and> strip_query q' = q"
proof -
  obtain ts where ts: "cql_tokenize (spell_all (print_query q)) = Inr ts" "map tok_kind ts = print_query q @ [T_Eof]"
    using lex_run_spell [OF assms(2)] by (fastforce simp: cql_tokenize_def)
  obtain us eof where us: "ts = us @ [eof]" "tok_kind eof = T_Eof" "kinds us = print_query q"
    using ts(2) by (auto simp: map_eq_append_conv)
  have "reads_as (print_query q) ts [eof]" unfolding reads_as_def using us by blast
  then have "gives (parse_query (parse_fuel ts) ts) (same strip_query q [eof])"
    by (rule query_ok [OF assms(1)]) (simp add: us(2))
  moreover have "leaves (length ts - 1) (parse_query (parse_fuel ts) ts)" using leaves_query [OF tokenize_ends [OF ts(1)]] by simp
  ultimately show ?thesis
    by (cases "parse_query (parse_fuel ts) ts") (simp_all add: cql_parse_def ts(1) leaves_def)
qed

text \<open>
  MATCH (f:Function)-[:CALLS*1..3]->(g) WHERE (f.name = "a" OR NOT g.degree < 3) AND NOT (g)-[]->()
  RETURN f.name AS caller, count(*) ORDER BY f.name DESC LIMIT 5
\<close>

definition sample_query :: query where
  "sample_query =
     (let f = EProperty (bare ''f'') [bare ''name'']; g = EProperty (bare ''g'') [bare ''degree''];
          nd = \<lambda>v. \<lparr>nd_var = v, nd_label = None, nd_props = []\<rparr>;
          calls = \<lparr>rl_var = None, rl_direction = AstForward, rl_types = [bare ''CALLS''],
            rl_var_len = Some \<lparr>vl_min = Some 1, vl_max = Some 3\<rparr>, rl_props = []\<rparr>;
          anyrel = \<lparr>rl_var = None, rl_direction = AstForward, rl_types = [], rl_var_len = None, rl_props = []\<rparr>;
          filt = join BAnd
            (join BOr (join BEq f (ELiteral (VStr ''a''))) (ENot (join BLt g (ELiteral (VInt 3)))))
            (EPattern True \<lparr>pp_path_var = None, pp_start = nd (Some ''g''), pp_steps = [(anyrel, nd None)]\<rparr>)
      in \<lparr>q_parts =
           [\<lparr>qp_reading = [RMatch \<lparr>mc_patterns =
               [\<lparr>pp_path_var = None, pp_start = (nd (Some ''f''))\<lparr>nd_label := Some (bare ''Function'')\<rparr>,
                 pp_steps = [(calls, nd (Some ''g''))]\<rparr>], mc_where = Some filt\<rparr>],
             qp_ret = Some \<lparr>rc_distinct = False,
               rc_items = [\<lparr>ri_expr = f, ri_alias = Some ''caller''\<rparr>,
                 \<lparr>ri_expr = ECall (bare ''count'') [EProperty (bare ''*'') []], ri_alias = None\<rparr>],
               rc_order_by = [\<lparr>ob_expr = f, ob_descending = True\<rparr>], rc_limit = Some 5\<rparr>,
             qp_with = None\<rparr>]\<rparr>)"

theorem cql_parse_print_witness:
  "\<exists>q'. cql_parse (spell_all (print_query sample_query)) = Some (Inr q') \<and> strip_query q' = sample_query"
proof (rule cql_parse_print)
  show "wf_query sample_query"
    by (simp add: sample_query_def Let_def wf_query_def wf_match_def wf_path_def wf_node_def wf_rel_def wf_len_def wf_props_def
        wf_name_def wf_return_def wf_projection_def u32_limit_def)
  show "\<forall>k \<in> set (print_query sample_query). wf_token k" by code_simp
qed

section \<open>The order of values\<close>

text \<open>
  C39. On values without floats, and on values with floats whose integers are all exactly
  representable, the comparison behind ORDER BY is a total preorder, and it calls two values equal
  exactly when they are the same value up to the number types.
\<close>

theorem value_compare_preorder:
  assumes "comparable fl a" "comparable fl b" "comparable fl c"
  shows "value_compare a a = Ord_Equal \<and> value_compare b a = ord_reverse (value_compare a b) \<and>
    (value_compare a b \<noteq> Ord_Greater \<and> value_compare b c \<noteq> Ord_Greater \<longrightarrow> value_compare a c \<noteq> Ord_Greater) \<and>
    (\<not> fl \<longrightarrow> value_compare a b = Ord_Equal \<longleftrightarrow> a = b)"
proof (intro conjI impI)
  show "value_compare a a = Ord_Equal" by (rule value_ord.cmp_refl [of a fl]) (use assms(1) in simp)
  show "value_compare b a = ord_reverse (value_compare a b)" by (rule compare_reverse)
  show "value_compare a b \<noteq> Ord_Greater \<and> value_compare b c \<noteq> Ord_Greater \<Longrightarrow> value_compare a c \<noteq> Ord_Greater"
    using compare_trans [OF assms] by blast
  show "\<not> fl \<Longrightarrow> value_compare a b = Ord_Equal \<longleftrightarrow> a = b" using assms compare_equal_iff(1) by simp
qed

theorem value_compare_preorder_witness:
  "value_compare (VInt 3) (VFloat (F_Fin (7/2))) = Ord_Less \<and> value_compare (VFloat (F_Fin (7/2))) (VStr ''a'') = Ord_Less \<and>
   value_compare (VInt 3) (VStr ''a'') \<noteq> Ord_Greater"
proof -
  have le: "value_compare (VInt 3) (VFloat (F_Fin (7/2))) = Ord_Less" "value_compare (VFloat (F_Fin (7/2))) (VStr ''a'') = Ord_Less"
    by code_simp+
  have "comparable True (VInt 3)" by (simp add: exact_int_small)
  then show ?thesis using value_compare_preorder [of True "VInt 3" "VFloat (F_Fin (7/2))" "VStr ''a''"] le by simp
qed

end
