(* ===== verification/Cql_Lower.thy ===== *)
theory Cql_Lower
  imports Fallible Cql_Ast Query_Dfs Comparator
begin

text \<open>
  Lowering (cgx-cql/src/lower.rs): a relationship pattern becomes a plan over the adjacency of the
  view, with the maps from the names of the language to the labels of the graph and the errors for
  the names that have no field behind them. The label tokens of eval.rs are here as well.
\<close>

abbreviation no_span :: byte_span where
  "no_span \<equiv> (0, 0)"

datatype node_field = FqnField | FileField | LineField | KindField

datatype edge_field = ConditionField | ConfidenceField | EdgeKindField

definition unbacked_node_props :: "string list" where
  "unbacked_node_props =
     [''scope'', ''col'', ''type'', ''in_degree'', ''out_degree'', ''is_exit'', ''entrypoint_class'', ''source_class'',
      ''sink_class'', ''sanitizer_class'', ''introduced_in_branch'', ''transitive_effects'', ''suspends'', ''lock_set'', ''async'']"

definition node_field_from_name :: "string \<Rightarrow> byte_span \<Rightarrow> cql_error + node_field" where
  "node_field_from_name name sp =
     (if name = ''name'' then Inr FqnField
      else if name = ''file'' then Inr FileField
      else if name = ''line'' then Inr LineField
      else if name = ''kind'' then Inr KindField
      else if name = ''fqn'' then Inr FqnField
      else if name = ''confidence'' then
        Inl (plan_error sp ''node property `confidence` is not supported: confidence is an edge attribute (use `r.confidence` on a relationship); deferred on nodes'')
      else if name \<in> set unbacked_node_props then
        Inl (plan_error sp (''node property `'' @ name @ ''` is not supported in this release (no backing field on a symbol node)''))
      else Inl (plan_error sp (''unknown node property `'' @ name @ ''`'')))"

definition edge_field_from_name :: "string \<Rightarrow> byte_span \<Rightarrow> cql_error + edge_field" where
  "edge_field_from_name name sp =
     (if name = ''condition'' then Inr ConditionField
      else if name = ''confidence'' then Inr ConfidenceField
      else if name = ''kind'' then Inr EdgeKindField
      else if name = ''transformation'' then
        Inl (plan_error sp ''edge property `transformation` is not populated by the current frontend; DATA_FLOW transformation tags are deferred'')
      else if name \<in> {''via'', ''taint_label'', ''site''} then
        Inl (plan_error sp (''edge property `'' @ name @ ''` is not supported in this release (no backing field on an edge)''))
      else Inl (plan_error sp (''unknown edge property `'' @ name @ ''`'')))"

subsection \<open>Labels and their tokens\<close>

fun symbol_kind_token :: "symbol_kind \<Rightarrow> string" where
  "symbol_kind_token Function = ''function''" | "symbol_kind_token Method = ''method''"
| "symbol_kind_token Type = ''type''" | "symbol_kind_token Field = ''field''"
| "symbol_kind_token Variable = ''variable''" | "symbol_kind_token Module = ''module''"
| "symbol_kind_token Constant = ''constant''" | "symbol_kind_token Macro = ''macro''"
| "symbol_kind_token Lambda = ''lambda''" | "symbol_kind_token Entrypoint = ''entrypoint''"

definition symbol_kind_of :: "string \<Rightarrow> byte_span \<Rightarrow> cql_error + symbol_kind" where
  "symbol_kind_of token sp =
     (if token = ''function'' then Inr Function else if token = ''method'' then Inr Method
      else if token = ''type'' then Inr Type else if token = ''field'' then Inr Field
      else if token = ''variable'' then Inr Variable else if token = ''module'' then Inr Module
      else if token = ''constant'' then Inr Constant else if token = ''macro'' then Inr Macro
      else if token = ''lambda'' then Inr Lambda else if token = ''entrypoint'' then Inr Entrypoint
      else Inl (plan_error sp (''unknown symbol kind `'' @ token @ ''`'')))"

fun condition_token :: "edge_condition \<Rightarrow> string" where
  "condition_token Always = ''always''" | "condition_token Conditional = ''conditional''"
| "condition_token Loop = ''loop''" | "condition_token Exception = ''exception''" | "condition_token Panic = ''panic''"

fun confidence_token :: "confidence \<Rightarrow> string" where
  "confidence_token Possible = ''possible''" | "confidence_token Probable = ''probable''" | "confidence_token Certain = ''certain''"

fun edge_kind_token :: "edge_kind \<Rightarrow> string" where
  "edge_kind_token Calls = ''calls''" | "edge_kind_token CallsVirtual = ''calls-virtual''"
| "edge_kind_token CallsClosure = ''calls-closure''" | "edge_kind_token CallsCallback = ''calls-callback''"
| "edge_kind_token CallsAsync = ''calls-async''" | "edge_kind_token CallsIndirect = ''calls-indirect''"
| "edge_kind_token Spawns = ''spawns''" | "edge_kind_token Contains = ''contains''" | "edge_kind_token Imports = ''imports''"
| "edge_kind_token DerivesFrom = ''derives-from''" | "edge_kind_token Overrides = ''overrides''"
| "edge_kind_token Implements = ''implements''" | "edge_kind_token Inherits = ''inherits''"
| "edge_kind_token References = ''references''" | "edge_kind_token Instantiates = ''instantiates''"
| "edge_kind_token Throws = ''throws''" | "edge_kind_token Catches = ''catches''"
| "edge_kind_token ReadsField = ''reads-field''" | "edge_kind_token WritesField = ''writes-field''"

definition parse_condition :: "cql_value \<Rightarrow> byte_span \<Rightarrow> cql_error + edge_condition" where
  "parse_condition v sp =
     (case v of
        VStr s \<Rightarrow>
          if s = ''always'' then Inr Always else if s = ''conditional'' then Inr Conditional
          else if s = ''loop'' then Inr Loop else if s = ''exception'' then Inr Exception
          else if s = ''panic'' then Inr Panic
          else Inl (plan_error sp (''unknown edge condition `'' @ s @ ''`''))
      | _ \<Rightarrow> Inl (plan_error sp ''edge `condition` must be a string''))"

definition parse_confidence :: "cql_value \<Rightarrow> byte_span \<Rightarrow> cql_error + confidence" where
  "parse_confidence v sp =
     (case v of
        VStr s \<Rightarrow>
          if s = ''possible'' then Inr Possible else if s = ''probable'' then Inr Probable
          else if s = ''certain'' then Inr Certain
          else Inl (plan_error sp (''unknown edge confidence `'' @ s @ ''`''))
      | _ \<Rightarrow> Inl (plan_error sp ''edge `confidence` must be a string''))"

text \<open>Reading a printed label gives the label back.\<close>

lemma symbol_kind_round_trip: "symbol_kind_of (symbol_kind_token k) sp = Inr k"
  by (cases k) (simp_all add: symbol_kind_of_def)

lemma condition_round_trip: "parse_condition (VStr (condition_token c)) sp = Inr c"
  by (cases c) (simp_all add: parse_condition_def)

lemma confidence_round_trip: "parse_confidence (VStr (confidence_token c)) sp = Inr c"
  by (cases c) (simp_all add: parse_confidence_def)

lemma edge_kind_token_inj: "edge_kind_token j = edge_kind_token k \<longleftrightarrow> j = k"
  by (cases j; cases k; simp)

subsection \<open>Relationship types\<close>

definition rel_kind_table :: "(string \<times> edge_kind list) list" where
  "rel_kind_table =
     [(''CALLS'', [Calls, CallsVirtual, CallsClosure, CallsCallback, CallsAsync, CallsIndirect]), (''SPAWNS'', [Spawns]),
      (''DATA_FLOW'', [DerivesFrom]), (''CONTAINS'', [Contains]), (''OVERRIDES'', [Overrides]), (''INHERITS'', [Inherits]),
      (''IMPLEMENTS'', [Implements]), (''IMPORTS'', [Imports]), (''REFERENCES'', [References]), (''INSTANTIATES'', [Instantiates]),
      (''THROWS'', [Throws]), (''CATCHES'', [Catches]), (''READS_FIELD'', [ReadsField]), (''WRITES_FIELD'', [WritesField])]"

definition rel_kinds :: "string \<Rightarrow> byte_span \<Rightarrow> cql_error + edge_kind list \<times> bool" where
  "rel_kinds token sp =
     (if token = ''MEMBER_OF'' then Inr ([Contains], True)
      else case map_of rel_kind_table token of
        Some kinds \<Rightarrow> Inr (kinds, False)
      | None \<Rightarrow>
          if token \<in> {''CALLS:super'', ''RESOLVES_TO'', ''PROVIDES_BODY'', ''SHADOWS_FIELD'', ''FULFILLS''} then
            Inl (plan_error sp (''edge type `'' @ token @ ''` is recognised but not supported in this release (Theme-13, deferred)''))
          else if token = ''COMPATIBLE_WITH'' then
            Inl (plan_error sp ''edge type `COMPATIBLE_WITH` is not supported in this release (type-reconstruction operator, deferred)'')
          else Inl (plan_error sp (''unknown edge type `'' @ token @ ''`'')))"

definition rel_kinds_step :: "string spanned \<Rightarrow> edge_kind list \<times> bool option \<Rightarrow> cql_error + edge_kind list \<times> bool option" where
  "rel_kinds_step t acc =
     (case acc of (kinds, invert) \<Rightarrow>
        try_bind (rel_kinds (sv_value t) (sv_span t)) (\<lambda>(ks, flip).
          case invert of
            None \<Rightarrow> Inr (kinds @ ks, Some flip)
          | Some prev \<Rightarrow>
              if prev \<noteq> flip then
                Inl (plan_error (sv_span t) ''cannot combine `MEMBER_OF` with other edge types in one pattern (their stored directions disagree)'')
              else Inr (kinds @ ks, invert)))"

definition rel_kinds_multi :: "string spanned list \<Rightarrow> cql_error + edge_kind list \<times> bool" where
  "rel_kinds_multi types =
     try_bind (try_fold rel_kinds_step types ([], None)) (\<lambda>(kinds, invert).
       Inr (kinds, case invert of Some flip \<Rightarrow> flip | None \<Rightarrow> False))"

definition walk_direction :: "ast_direction \<Rightarrow> bool \<Rightarrow> direction" where
  "walk_direction arrow invert =
     (let base = (case arrow of AstForward \<Rightarrow> Forward | AstBackward \<Rightarrow> Backward)
      in if invert then direction_reverse base else base)"

subsection \<open>Node constraints and anchors\<close>

record node_prop =
  npr_field :: node_field
  npr_value :: cql_value

datatype anchor_set = AnchorSymbol symbol_pattern | AnchorKinds "symbol_kind list" | AnchorAll

datatype cardinality = SingleHop | VarLength nat "nat option"

record pattern_plan =
  pl_path_var :: "string option"
  pl_anchor_bound_var :: "string option"
  pl_anchor_var :: "string option"
  pl_peer_var :: "string option"
  pl_rel_var :: "string option"
  pl_anchor :: anchor_set
  pl_direction :: direction
  pl_filter :: edge_filter
  pl_cardinality :: cardinality
  pl_peer_kinds :: "symbol_kind list option"
  pl_peer_props :: "node_prop list"

definition node_prop_step ::
  "prop_entry \<Rightarrow> node_prop list \<times> symbol_kind list option \<Rightarrow> cql_error + node_prop list \<times> symbol_kind list option" where
  "node_prop_step entry acc =
     (case acc of (props, kinds) \<Rightarrow>
        let sp = sv_span (prop_key entry) in
        try_bind (node_field_from_name (sv_value (prop_key entry)) sp) (\<lambda>field.
          if field = KindField then
            (case prop_value entry of
               VStr token \<Rightarrow>
                 try_bind (symbol_kind_of token sp) (\<lambda>k.
                   Inr (props, Some (case kinds of Some v \<Rightarrow> v @ [k] | None \<Rightarrow> [k])))
             | _ \<Rightarrow> Inl (plan_error sp ''node `kind` property requires a string value''))
          else Inr (props @ [\<lparr>npr_field = field, npr_value = prop_value entry\<rparr>], kinds)))"

definition node_constraints :: "node_pat \<Rightarrow> cql_error + node_prop list \<times> symbol_kind list option" where
  "node_constraints node =
     try_bind
       (case nd_label node of
          Some label \<Rightarrow> try_bind (symbol_kind_of (sv_value label) (sv_span label)) (\<lambda>k. Inr (Some [k]))
        | None \<Rightarrow> Inr None)
       (\<lambda>kinds. try_fold node_prop_step (nd_props node) ([], kinds))"

text \<open>\<open>name_pattern\<close> (eval.rs): a glob, a qualified name or a short name, by its characters.\<close>

definition name_pattern :: "string \<Rightarrow> symbol_pattern" where
  "name_pattern s =
     (if CHR ''*'' \<in> set s \<or> CHR ''?'' \<in> set s then pattern_glob s
      else if contains_segment_separator s then pattern_fqn s
      else pattern_short_name s)"

definition symbol_pattern_from :: "cql_value \<Rightarrow> symbol_pattern option" where
  "symbol_pattern_from v =
     (case v of
        VStr s \<Rightarrow>
          Some (if CHR ''*'' \<in> set s \<or> CHR ''?'' \<in> set s then pattern_glob s
                else if contains_segment_separator s then pattern_fqn s
                else pattern_short_name s)
      | _ \<Rightarrow> None)"

lemma symbol_pattern_from_name: "symbol_pattern_from (VStr s) = Some (name_pattern s)"
  by (simp add: symbol_pattern_from_def name_pattern_def)

definition selectivity :: "node_prop list \<Rightarrow> symbol_kind list option \<Rightarrow> nat" where
  "selectivity props kinds =
     (if list_ex (\<lambda>p. npr_field p = FqnField) props then 2
      else if kinds \<noteq> None \<or> props \<noteq> [] then 1
      else 0)"

definition anchor_set_of :: "node_prop list \<Rightarrow> symbol_kind list option \<Rightarrow> anchor_set" where
  "anchor_set_of props kinds =
     (let rest = (case kinds of Some ks \<Rightarrow> AnchorKinds ks | None \<Rightarrow> AnchorAll)
      in case List.find (\<lambda>p. npr_field p = FqnField) props of
           Some p \<Rightarrow> (case symbol_pattern_from (npr_value p) of Some pat \<Rightarrow> AnchorSymbol pat | None \<Rightarrow> rest)
         | None \<Rightarrow> rest)"

subsection \<open>Plans\<close>

definition rel_prop_step :: "prop_entry \<Rightarrow> edge_filter \<Rightarrow> cql_error + edge_filter" where
  "rel_prop_step entry f =
     (let sp = sv_span (prop_key entry) in
      try_bind (edge_field_from_name (sv_value (prop_key entry)) sp) (\<lambda>field.
        case field of
          ConditionField \<Rightarrow> try_bind (parse_condition (prop_value entry) sp) (\<lambda>c. Inr (only_condition c f))
        | ConfidenceField \<Rightarrow> try_bind (parse_confidence (prop_value entry) sp) (\<lambda>c. Inr (with_min_confidence c f))
        | EdgeKindField \<Rightarrow>
            Inl (plan_error sp ''inline relationship `kind` property is not supported; use the `:TYPE` syntax instead'')))"

definition apply_rel_props :: "edge_filter \<Rightarrow> rel_pat \<Rightarrow> cql_error + edge_filter" where
  "apply_rel_props f rel = try_fold rel_prop_step (rl_props rel) f"

definition rel_filter :: "rel_pat \<Rightarrow> cql_error + edge_filter \<times> bool" where
  "rel_filter rel =
     try_bind (if rl_types rel = [] then Inr ([], False) else rel_kinds_multi (rl_types rel)) (\<lambda>(kinds, invert).
       try_bind (apply_rel_props (if kinds = [] then edge_filter_calls else with_kinds kinds edge_filter_calls) rel) (\<lambda>f.
         Inr (f, invert)))"

definition cardinality_of :: "rel_pat \<Rightarrow> cardinality" where
  "cardinality_of rel =
     (case rl_var_len rel of
        None \<Rightarrow> SingleHop
      | Some v \<Rightarrow> VarLength (case vl_min v of Some n \<Rightarrow> n | None \<Rightarrow> 1) (vl_max v))"

definition lower_chained_step :: "node_pat \<Rightarrow> rel_pat \<Rightarrow> node_pat \<Rightarrow> cql_error + pattern_plan" where
  "lower_chained_step start rel end_node =
     try_bind (node_constraints start) (\<lambda>(start_props, start_kinds).
     try_bind (node_constraints end_node) (\<lambda>(end_props, end_kinds).
     try_bind (rel_filter rel) (\<lambda>(f, invert).
       Inr \<lparr>pl_path_var = None, pl_anchor_bound_var = None, pl_anchor_var = nd_var start,
            pl_peer_var = nd_var end_node, pl_rel_var = rl_var rel,
            pl_anchor = anchor_set_of start_props start_kinds,
            pl_direction = walk_direction (rl_direction rel) invert, pl_filter = f,
            pl_cardinality = cardinality_of rel, pl_peer_kinds = end_kinds, pl_peer_props = end_props\<rparr>)))"

definition lower_single :: "string option \<Rightarrow> node_pat \<Rightarrow> rel_pat \<Rightarrow> node_pat \<Rightarrow> cql_error + pattern_plan" where
  "lower_single path_var start rel end_node =
     try_bind (node_constraints start) (\<lambda>(start_props, start_kinds).
     try_bind (node_constraints end_node) (\<lambda>(end_props, end_kinds).
     try_bind (rel_filter rel) (\<lambda>(f, invert).
       let anchor_is_start = (selectivity start_props start_kinds \<ge> selectivity end_props end_kinds);
           d = walk_direction (rl_direction rel) invert;
           dir = (if anchor_is_start then d else direction_reverse d);
           (anchor_props, anchor_kinds, peer_props, peer_kinds, anchor_var, peer_var) =
             (if anchor_is_start then (start_props, start_kinds, end_props, end_kinds, nd_var start, nd_var end_node)
              else (end_props, end_kinds, start_props, start_kinds, nd_var end_node, nd_var start))
       in Inr \<lparr>pl_path_var = path_var, pl_anchor_bound_var = None, pl_anchor_var = anchor_var,
            pl_peer_var = peer_var, pl_rel_var = rl_var rel,
            pl_anchor = anchor_set_of anchor_props anchor_kinds, pl_direction = dir, pl_filter = f,
            pl_cardinality = cardinality_of rel, pl_peer_kinds = peer_kinds, pl_peer_props = peer_props\<rparr>)))"

definition lower_pattern :: "path_pattern \<Rightarrow> cql_error + pattern_plan" where
  "lower_pattern pat =
     (case pp_steps pat of
        [(rel, end_node)] \<Rightarrow> lower_single (pp_path_var pat) (pp_start pat) rel end_node
      | _ \<Rightarrow> Inl (plan_error no_span ''this position accepts only a single-relationship pattern''))"

text \<open>The loop over the steps of a chain; the flag tells the first step.\<close>

fun lower_chain :: "bool \<Rightarrow> node_pat \<Rightarrow> (rel_pat \<times> node_pat) list \<Rightarrow> cql_error + pattern_plan list" where
  "lower_chain is_first prev [] = Inr []"
| "lower_chain is_first prev ((rel, end_node) # steps) =
     (if steps \<noteq> [] \<and> nd_var end_node = None then
        Inl (plan_error no_span ''interior nodes of a multi-relationship pattern must be named (they are the join keys, e.g. `(a)-[]->(b)-[]->(c)`)'')
      else
        try_bind (lower_chained_step prev rel end_node) (\<lambda>plan.
          let plan = (if is_first then plan else plan\<lparr>pl_anchor_bound_var := nd_var prev\<rparr>) in
          try_bind (lower_chain False end_node steps) (\<lambda>plans. Inr (plan # plans))))"

definition lower_pattern_chain :: "path_pattern \<Rightarrow> cql_error + pattern_plan list" where
  "lower_pattern_chain pat =
     (case pp_steps pat of
        [] \<Rightarrow> Inl (plan_error no_span ''a MATCH pattern must contain at least one relationship'')
      | [(rel, end_node)] \<Rightarrow> try_bind (lower_single (pp_path_var pat) (pp_start pat) rel end_node) (\<lambda>plan. Inr [plan])
      | steps \<Rightarrow>
          if pp_path_var pat \<noteq> None then
            Inl (plan_error no_span ''a `path =` binding over a multi-relationship pattern is not yet supported'')
          else lower_chain True (pp_start pat) steps)"

end
