(* ===== verification/Cql_Match.thy ===== *)
theory Cql_Match
  imports Cql_Lower Cql_Value
begin

text \<open>
  The pattern half of cgx-cql/src/eval.rs: bindings, the expansion of the binding stream by a plan,
  the fields of nodes and edges, and the existence of a pattern.
\<close>

definition default_var_length_depth :: nat where
  "default_var_length_depth = 8"

definition default_var_length_rows :: nat where
  "default_var_length_rows = 1024"

type_synonym binding = "(string, cql_value) btree_map"

definition bind_node :: "string option \<Rightarrow> node_id \<Rightarrow> binding \<Rightarrow> binding" where
  "bind_node var n b = (case var of Some v \<Rightarrow> bt_insert v (VNode n) b | None \<Rightarrow> b)"

fun node_field_value :: "node_record \<Rightarrow> node_field \<Rightarrow> cql_value" where
  "node_field_value node FqnField = VStr (n_fqn node)"
| "node_field_value node FileField = VStr (n_file node)"
| "node_field_value node LineField = VInt (int (n_line_start node))"
| "node_field_value node KindField = VStr (symbol_kind_token (n_kind node))"

fun edge_field_value :: "edge_record \<Rightarrow> edge_field \<Rightarrow> cql_value" where
  "edge_field_value edge ConditionField = VStr (condition_token (e_condition edge))"
| "edge_field_value edge ConfidenceField = VStr (confidence_token (e_confidence edge))"
| "edge_field_value edge EdgeKindField = VStr (edge_kind_token (e_kind edge))"

subsection \<open>The peer of a step\<close>

definition prop_matches :: "node_record \<Rightarrow> node_prop \<Rightarrow> bool" where
  "prop_matches node p =
     (if npr_field p = FqnField then
        (case npr_value p of VStr s \<Rightarrow> pattern_matches (name_pattern s) node | _ \<Rightarrow> False)
      else values_equal (node_field_value node (npr_field p)) (npr_value p))"

definition peer_matches :: "graph_view \<Rightarrow> pattern_plan \<Rightarrow> node_id \<Rightarrow> bool" where
  "peer_matches view plan peer =
     (case try_node view peer of
        None \<Rightarrow> False
      | Some node \<Rightarrow>
          (case pl_peer_kinds plan of Some kinds \<Rightarrow> n_kind node \<in> set kinds | None \<Rightarrow> True) \<and>
          list_all (prop_matches node) (pl_peer_props plan))"

definition peer_goal_ids :: "graph_view \<Rightarrow> pattern_plan \<Rightarrow> node_id list" where
  "peer_goal_ids view plan =
     (let candidates = filter (peer_matches view plan) (map n_id (gv_nodes view))
      in case List.find (\<lambda>p. npr_field p = FqnField) (pl_peer_props plan) of
           Some p \<Rightarrow> (case npr_value p of VStr s \<Rightarrow> resolve_symbol view (name_pattern s) | _ \<Rightarrow> candidates)
         | None \<Rightarrow> candidates)"

definition anchor_ids :: "graph_view \<Rightarrow> anchor_set \<Rightarrow> node_id list" where
  "anchor_ids view anchor =
     (case anchor of
        AnchorSymbol pat \<Rightarrow> resolve_symbol view pat
      | AnchorKinds kinds \<Rightarrow> nodes_of_kind view kinds
      | AnchorAll \<Rightarrow> map n_id (gv_nodes view))"

subsection \<open>One step\<close>

definition single_hop_binding :: "pattern_plan \<Rightarrow> binding \<Rightarrow> node_id \<Rightarrow> edge_ref \<Rightarrow> binding" where
  "single_hop_binding plan base anchor er =
     (let b = bind_node (pl_peer_var plan) (er_peer er) (bind_node (pl_anchor_var plan) anchor base);
          b = (case pl_rel_var plan of Some rv \<Rightarrow> bt_insert rv (VEdge (e_id (er_edge er))) b | None \<Rightarrow> b)
      in case pl_path_var plan of
           Some pv \<Rightarrow> bt_insert pv (VPath \<lparr>pv_nodes = [anchor, er_peer er], pv_edges = [e_id (er_edge er)]\<rparr>) b
         | None \<Rightarrow> b)"

definition expand_single_hop :: "graph_view \<Rightarrow> pattern_plan \<Rightarrow> binding \<Rightarrow> node_id \<Rightarrow> binding list" where
  "expand_single_hop view plan base anchor =
     map (single_hop_binding plan base anchor)
       (filter (\<lambda>er. peer_matches view plan (er_peer er)) (neighbors view anchor (pl_direction plan) (pl_filter plan)))"

definition effective_max_depth :: "nat option \<Rightarrow> nat" where
  "effective_max_depth mx = (case mx of Some d \<Rightarrow> d | None \<Rightarrow> default_var_length_depth)"

definition step_walker :: "pattern_plan \<Rightarrow> nat option \<Rightarrow> path_walker" where
  "step_walker plan mx =
     \<lparr>pw_filter = pl_filter plan, pw_max_depth = Some (effective_max_depth mx), pw_max_paths = None, pw_max_steps = None\<rparr>"

fun upgrade_truncation :: "truncation_reason option \<Rightarrow> truncation_reason \<Rightarrow> truncation_reason option" where
  "upgrade_truncation None reason = Some reason"
| "upgrade_truncation (Some PathCap) reason = Some reason"
| "upgrade_truncation (Some StepBudget) reason = Some StepBudget"

type_synonym stream = "binding list \<times> truncation_reason option"

text \<open>The bindings of the witness trails to one goal.\<close>

definition trail_path :: "walk_step list \<Rightarrow> path_value" where
  "trail_path steps = \<lparr>pv_nodes = map ws_node steps, pv_edges = List.map_filter (\<lambda>s. map_option e_id (ws_via s)) steps\<rparr>"

definition trail_bindings ::
  "pattern_plan \<Rightarrow> string \<Rightarrow> binding \<Rightarrow> node_id \<Rightarrow> nat \<Rightarrow> node_id \<Rightarrow> walk_step list list \<Rightarrow> binding list" where
  "trail_bindings plan pv base anchor min_hops goal paths =
     map (\<lambda>steps. bt_insert pv (VPath (trail_path steps)) (bind_node (pl_peer_var plan) goal (bind_node (pl_anchor_var plan) anchor base)))
       (filter (\<lambda>steps. min_hops \<le> length steps - 1) paths)"

definition expand_goal ::
  "graph_view \<Rightarrow> pattern_plan \<Rightarrow> string \<Rightarrow> path_walker \<Rightarrow> binding \<Rightarrow> node_id \<Rightarrow> nat \<Rightarrow> node_id \<Rightarrow> stream \<Rightarrow> stream" where
  "expand_goal view plan pv w base anchor min_hops goal st =
     (case st of (out, truncation) \<Rightarrow>
        let enum = enumerate_trails w view anchor goal (pl_direction plan)
        in (out @ trail_bindings plan pv base anchor min_hops goal (pe_paths enum),
            case pe_truncation enum of Some reason \<Rightarrow> upgrade_truncation truncation reason | None \<Rightarrow> truncation))"

text \<open>The loop over the reachable peers stops at the row cap.\<close>

fun expand_peers :: "pattern_plan \<Rightarrow> binding \<Rightarrow> node_id \<Rightarrow> node_id list \<Rightarrow> node_id list \<Rightarrow> stream \<Rightarrow> stream" where
  "expand_peers plan base anchor goals [] st = st"
| "expand_peers plan base anchor goals (node # nodes) st =
     (case st of (out, truncation) \<Rightarrow>
        if node \<notin> set goals then expand_peers plan base anchor goals nodes st
        else if default_var_length_rows \<le> length out then (out, upgrade_truncation truncation PathCap)
        else expand_peers plan base anchor goals nodes
          (out @ [bind_node (pl_peer_var plan) node (bind_node (pl_anchor_var plan) anchor base)], truncation))"

definition expand_var_length ::
  "graph_view \<Rightarrow> pattern_plan \<Rightarrow> binding \<Rightarrow> node_id \<Rightarrow> nat \<Rightarrow> nat option \<Rightarrow> stream \<Rightarrow> stream" where
  "expand_var_length view plan base anchor min_hops mx st =
     (let w = step_walker plan mx; goals = peer_goal_ids view plan
      in case pl_path_var plan of
           Some pv \<Rightarrow> fold (expand_goal view plan pv w base anchor min_hops) goals st
         | None \<Rightarrow> expand_peers plan base anchor goals (reachable_within w view anchor (pl_direction plan) min_hops) st)"

definition expand_anchor :: "graph_view \<Rightarrow> pattern_plan \<Rightarrow> binding \<Rightarrow> node_id \<Rightarrow> stream \<Rightarrow> stream" where
  "expand_anchor view plan base anchor st =
     (case pl_cardinality plan of
        SingleHop \<Rightarrow> (case st of (out, truncation) \<Rightarrow> (out @ expand_single_hop view plan base anchor, truncation))
      | VarLength min_hops mx \<Rightarrow> expand_var_length view plan base anchor min_hops mx st)"

definition step_anchors :: "graph_view \<Rightarrow> pattern_plan \<Rightarrow> binding \<Rightarrow> node_id list" where
  "step_anchors view plan base =
     (case pl_anchor_bound_var plan of
        Some var \<Rightarrow> (case map_of base var of Some (VNode n) \<Rightarrow> [n] | _ \<Rightarrow> [])
      | None \<Rightarrow> anchor_ids view (pl_anchor plan))"

definition expand_pattern :: "graph_view \<Rightarrow> pattern_plan \<Rightarrow> stream \<Rightarrow> stream" where
  "expand_pattern view plan st =
     (case st of (input, truncation) \<Rightarrow>
        fold (\<lambda>base. fold (expand_anchor view plan base) (step_anchors view plan base)) input ([], truncation))"

subsection \<open>Pattern predicates\<close>

definition pattern_exists :: "graph_view \<Rightarrow> path_pattern \<Rightarrow> binding \<Rightarrow> cql_error + bool" where
  "pattern_exists view pat b =
     try_bind (lower_pattern pat) (\<lambda>plan.
       let anchors =
         (case pl_anchor_var plan of
            Some v \<Rightarrow> (case map_of b v of Some (VNode n) \<Rightarrow> [n] | _ \<Rightarrow> anchor_ids view (pl_anchor plan))
          | None \<Rightarrow> anchor_ids view (pl_anchor plan))
       in Inr (list_ex (\<lambda>anchor.
            case pl_cardinality plan of
              SingleHop \<Rightarrow>
                list_ex (\<lambda>er. peer_matches view plan (er_peer er)) (neighbors view anchor (pl_direction plan) (pl_filter plan))
            | VarLength min_hops mx \<Rightarrow>
                list_ex (\<lambda>d. min_hops \<le> dc_depth d \<and> peer_matches view plan (dc_node d))
                  (bfs (step_walker plan mx) view anchor (pl_direction plan))) anchors))"

end
