(* ===== verification/Cql_Expr.thy ===== *)
theory Cql_Expr
  imports Cql_Match
begin

text \<open>
  Expressions (cgx-cql/src/eval.rs): every method that evaluates an expression against a binding.
  The arguments of a call are evaluated first here, as results, and a method looks at a result only
  where the code evaluates the argument; evaluation has no effects, so the order does not matter.
  The list of selector tokenizers that the selector engine collects at link time is a parameter. The
  positions in the message of a refused selector count bytes, which are the characters here.
\<close>

type_synonym evaluated = "cql_error + cql_value"

fun value_type_name :: "cql_value \<Rightarrow> string" where
  "value_type_name VNull = ''null''" | "value_type_name (VBool _) = ''bool''"
| "value_type_name (VInt _) = ''int''" | "value_type_name (VFloat _) = ''float''"
| "value_type_name (VStr _) = ''string''" | "value_type_name (VList _) = ''list''"
| "value_type_name (VNode _) = ''node''" | "value_type_name (VEdge _) = ''edge''"
| "value_type_name (VPath _) = ''path''"

definition expect_list :: "cql_value \<Rightarrow> cql_error + cql_value list" where
  "expect_list v =
     (case v of
        VList items \<Rightarrow> Inr items
      | VNull \<Rightarrow> Inr []
      | _ \<Rightarrow> Inl (eval_error no_span ''expected a list (e.g. from `nodes(p)` / `relationships(p)`)''))"

definition path_arg_error :: "byte_span \<Rightarrow> string \<Rightarrow> cql_value \<Rightarrow> cql_error" where
  "path_arg_error sp fname v = eval_error sp (fname @ '': argument must be a path, got a '' @ value_type_name v @ '' value'')"

definition expect_path_arg :: "string \<Rightarrow> evaluated list \<Rightarrow> cql_error + path_value" where
  "expect_path_arg fname args =
     (case args of
        [r] \<Rightarrow> try_bind r (\<lambda>v. case v of VPath p \<Rightarrow> Inr p | _ \<Rightarrow> Inl (path_arg_error no_span fname v))
      | _ \<Rightarrow> Inl (eval_error no_span (fname @ '': expected exactly one argument'')))"

definition expect_path :: "cql_value \<Rightarrow> string spanned \<Rightarrow> cql_error + path_value" where
  "expect_path v name = (case v of VPath p \<Rightarrow> Inr p | _ \<Rightarrow> Inl (path_arg_error (sv_span name) (sv_value name) v))"

definition arity :: "string spanned \<Rightarrow> 'a list \<Rightarrow> nat \<Rightarrow> cql_error + unit" where
  "arity name args n =
     (if length args \<noteq> n then
        Inl (eval_error (sv_span name) (sv_value name @ '': expected '' @ show_nat n @ '' argument(s), got '' @ show_nat (length args)))
      else Inr ())"

subsection \<open>Property access\<close>

definition nested_property_error :: "string spanned list \<Rightarrow> cql_error" where
  "nested_property_error segments =
     plan_error (sv_span (segments ! 1)) ''nested property access is not supported (e.g. `n.in_degree.calls`)''"

definition eval_property :: "graph_view \<Rightarrow> string spanned \<Rightarrow> string spanned list \<Rightarrow> binding \<Rightarrow> evaluated" where
  "eval_property view head segments b =
     (let base = map_of b (sv_value head) in
      case segments of
        [] \<Rightarrow> Inr (case base of Some v \<Rightarrow> v | None \<Rightarrow> VNull)
      | [prop] \<Rightarrow>
          (case base of
             Some (VNode n) \<Rightarrow>
               try_bind (node_field_from_name (sv_value prop) (sv_span prop)) (\<lambda>field.
                 case try_node view n of
                   Some node \<Rightarrow> Inr (node_field_value node field)
                 | None \<Rightarrow> Inl (eval_error (sv_span prop) ''dangling node id''))
           | Some (VEdge e) \<Rightarrow>
               try_bind (edge_field_from_name (sv_value prop) (sv_span prop)) (\<lambda>field.
                 case view_edge view e of
                   Some edge \<Rightarrow> Inr (edge_field_value edge field)
                 | None \<Rightarrow> Inl (eval_error (sv_span prop) ''dangling edge id''))
           | Some VNull \<Rightarrow> Inr VNull
           | None \<Rightarrow> Inr VNull
           | Some other \<Rightarrow>
               Inl (eval_error (sv_span head) (''cannot access property `'' @ sv_value prop @ ''` on a '' @ value_type_name other @ '' value'')))
      | _ \<Rightarrow> Inl (nested_property_error segments))"

subsection \<open>Operators\<close>

definition eval_binary :: "bin_op \<Rightarrow> evaluated \<Rightarrow> evaluated \<Rightarrow> evaluated" where
  "eval_binary op lhs rhs =
     try_bind lhs (\<lambda>l. try_bind rhs (\<lambda>r.
       case op of
         BAnd \<Rightarrow> Inr (VBool (is_truthy l \<and> is_truthy r))
       | BOr \<Rightarrow> Inr (VBool (is_truthy l \<or> is_truthy r))
       | BIn \<Rightarrow>
           (case r of
              VList items \<Rightarrow> Inr (VBool (list_ex (\<lambda>x. values_equal x l) items))
            | VNull \<Rightarrow> Inr (VBool False)
            | _ \<Rightarrow> Inl (eval_error no_span ''right-hand side of IN must be a list''))
       | _ \<Rightarrow>
           if l = VNull \<or> r = VNull then Inr (VBool False)
           else Inr (VBool (case op of
               BEq \<Rightarrow> values_equal l r
             | BNe \<Rightarrow> \<not> values_equal l r
             | BLt \<Rightarrow> value_compare l r = Ord_Less
             | BLe \<Rightarrow> value_compare l r \<noteq> Ord_Greater
             | BGt \<Rightarrow> value_compare l r = Ord_Greater
             | _ \<Rightarrow> value_compare l r \<noteq> Ord_Less))))"

subsection \<open>Comprehensions and quantifiers\<close>

definition comp_step ::
  "string \<Rightarrow> (binding \<Rightarrow> evaluated) option \<Rightarrow> (binding \<Rightarrow> evaluated) \<Rightarrow> binding \<Rightarrow> cql_value \<Rightarrow> cql_value list \<Rightarrow> cql_error + cql_value list" where
  "comp_step var filt proj b item out =
     (let scoped = bt_insert var item b;
          push = try_bind (proj scoped) (\<lambda>v. Inr (out @ [v]))
      in case filt of
           None \<Rightarrow> push
         | Some f \<Rightarrow> try_bind (f scoped) (\<lambda>c. if \<not> is_truthy c then Inr out else push))"

definition eval_list_comp ::
  "string \<Rightarrow> evaluated \<Rightarrow> (binding \<Rightarrow> evaluated) option \<Rightarrow> (binding \<Rightarrow> evaluated) \<Rightarrow> binding \<Rightarrow> evaluated" where
  "eval_list_comp var list filt proj b =
     try_bind list (\<lambda>v. try_bind (expect_list v) (\<lambda>items.
       try_bind (try_fold (comp_step var filt proj b) items []) (\<lambda>out. Inr (VList out))))"

definition eval_quantifier ::
  "quantifier_kind \<Rightarrow> string \<Rightarrow> evaluated \<Rightarrow> (binding \<Rightarrow> evaluated) \<Rightarrow> binding \<Rightarrow> evaluated" where
  "eval_quantifier kind var list predicate b =
     try_bind list (\<lambda>v. try_bind (expect_list v) (\<lambda>items.
       try_bind (try_fold (\<lambda>item (any, all). try_bind (predicate (bt_insert var item b)) (\<lambda>c.
           Inr (any \<or> is_truthy c, all \<and> is_truthy c))) items (False, True))
         (\<lambda>(any, all). Inr (VBool (case kind of QNone \<Rightarrow> \<not> any | QAny \<Rightarrow> any | QAll \<Rightarrow> all)))))"

subsection \<open>Functions\<close>

fun selector_error_display :: "selector_error \<Rightarrow> string" where
  "selector_error_display (UnsupportedQuestionMark selector pos) =
     ''selector '' @ debug_str selector @ '': `?` at position '' @ show_nat pos @
     '' is not supported by the selector engine (the coexisting glob matcher still supports it)''"
| "selector_error_display (NoValidParse selector reason) =
     ''selector '' @ debug_str selector @ '': no valid parse ('' @ reason @ '')''"
| "selector_error_display SelectorEmpty = ''selector is empty''"

definition agnostic_flag :: "string spanned \<Rightarrow> evaluated list \<Rightarrow> cql_error + bool" where
  "agnostic_flag name args =
     (if length args \<le> 2 then Inr False
      else try_bind (args ! 2) (\<lambda>v. case v of
        VBool flag \<Rightarrow> Inr flag
      | _ \<Rightarrow> Inl (eval_error (sv_span name) (''select: third argument (agnostic) must be a boolean, got a '' @ value_type_name v @ '' value''))))"

definition select_node :: "tokenizer list \<Rightarrow> graph_view \<Rightarrow> string spanned \<Rightarrow> node_id \<Rightarrow> string \<Rightarrow> bool \<Rightarrow> evaluated" where
  "select_node inventory view name n src agnostic =
     (case compile inventory src of
        Inl err \<Rightarrow> Inl (eval_error (sv_span name) (''select: '' @ selector_error_display err))
      | Inr selector \<Rightarrow>
          (case try_node view n of
             None \<Rightarrow> Inl (eval_error (sv_span name) ''select: dangling node id'')
           | Some node \<Rightarrow>
               Inr (VBool (selector_matches selector node (if agnostic then match_options_agnostic else match_options_native)))))"

definition eval_select :: "tokenizer list \<Rightarrow> graph_view \<Rightarrow> string spanned \<Rightarrow> evaluated list \<Rightarrow> evaluated" where
  "eval_select inventory view name args =
     (if length args \<noteq> 2 \<and> length args \<noteq> 3 then
        Inl (eval_error (sv_span name) (''select: expected 2 or 3 arguments (node, '' @ [dquote] @ ''<selector>'' @ [dquote] @ '' [, agnostic]), got '' @ show_nat (length args)))
      else
        try_bind (args ! 0) (\<lambda>v0. case v0 of
          VNull \<Rightarrow> Inr (VBool False)
        | VNode n \<Rightarrow>
            try_bind (args ! 1) (\<lambda>v1. case v1 of
              VStr src \<Rightarrow> try_bind (agnostic_flag name args) (select_node inventory view name n src)
            | _ \<Rightarrow> Inl (eval_error (sv_span name) (''select: second argument must be a selector string, got a '' @ value_type_name v1 @ '' value'')))
        | _ \<Rightarrow> Inl (eval_error (sv_span name) (''select: first argument must be a node, got a '' @ value_type_name v0 @ '' value''))))"

definition position_in :: "node_id \<Rightarrow> path_value \<Rightarrow> cql_value" where
  "position_in target p =
     (let skipped = takeWhile (\<lambda>n. n \<noteq> target) (pv_nodes p)
      in if length skipped < length (pv_nodes p) then VInt (int (length skipped)) else VNull)"

definition eval_function :: "tokenizer list \<Rightarrow> graph_view \<Rightarrow> string spanned \<Rightarrow> evaluated list \<Rightarrow> evaluated" where
  "eval_function inventory view name args =
     (let fname = sv_value name in
      if fname = ''nodes'' then try_bind (expect_path_arg fname args) (\<lambda>p. Inr (VList (map VNode (pv_nodes p))))
      else if fname = ''relationships'' then try_bind (expect_path_arg fname args) (\<lambda>p. Inr (VList (map VEdge (pv_edges p))))
      else if fname = ''length'' then try_bind (expect_path_arg fname args) (\<lambda>p. Inr (VInt (int (length (pv_edges p)))))
      else if fname = ''last_node'' then
        try_bind (expect_path_arg fname args) (\<lambda>p. Inr (if pv_nodes p = [] then VNull else VNode (last (pv_nodes p))))
      else if fname = ''position_in'' then
        try_bind (arity name args 2) (\<lambda>_. try_bind (args ! 0) (\<lambda>needle. try_bind (args ! 1) (\<lambda>v.
          try_bind (expect_path v name) (\<lambda>p. case needle of
            VNode target \<Rightarrow> Inr (position_in target p)
          | _ \<Rightarrow> Inl (eval_error (sv_span name) ''position_in: first argument must be a node'')))))
      else if fname = ''size'' then
        try_bind (arity name args 1) (\<lambda>_. try_bind (args ! 0) (\<lambda>v. case v of
          VList items \<Rightarrow> Inr (VInt (int (length items)))
        | VNull \<Rightarrow> Inr VNull
        | _ \<Rightarrow> Inl (eval_error (sv_span name) ''size: argument must be a list'')))
      else if fname = ''select'' then eval_select inventory view name args
      else Inl (plan_error (sv_span name) (''function `'' @ fname @ ''` is not supported in this release'')))"

subsection \<open>Expressions\<close>

fun eval_expr :: "tokenizer list \<Rightarrow> graph_view \<Rightarrow> expr \<Rightarrow> binding \<Rightarrow> evaluated" where
  "eval_expr inventory view (ELiteral v) b = Inr v"
| "eval_expr inventory view (EProperty head segments) b = eval_property view head segments b"
| "eval_expr inventory view (ENot e) b = try_bind (eval_expr inventory view e b) (\<lambda>v. Inr (VBool (\<not> is_truthy v)))"
| "eval_expr inventory view (EBinary op l r sp) b = eval_binary op (eval_expr inventory view l b) (eval_expr inventory view r b)"
| "eval_expr inventory view (EPattern negated pat) b =
     try_bind (pattern_exists view pat b) (\<lambda>found. Inr (VBool (if negated then \<not> found else found)))"
| "eval_expr inventory view (ECall name args) b =
     eval_function inventory view name (map (\<lambda>e. eval_expr inventory view e b) args)"
| "eval_expr inventory view (EListComp var list filt proj) b =
     eval_list_comp var (eval_expr inventory view list b) (map_option (\<lambda>f. eval_expr inventory view f) filt)
       (eval_expr inventory view proj) b"
| "eval_expr inventory view (EQuantifier kind var list p) b =
     eval_quantifier kind var (eval_expr inventory view list b) (eval_expr inventory view p) b"

definition eval_predicate :: "tokenizer list \<Rightarrow> graph_view \<Rightarrow> expr \<Rightarrow> binding \<Rightarrow> cql_error + bool" where
  "eval_predicate inventory view e b = try_bind (eval_expr inventory view e b) (\<lambda>v. Inr (is_truthy v))"

end
