(* ===== verification/Cql_Project.thy ===== *)
theory Cql_Project
  imports Cql_Expr "HOL-Library.Option_ord"
begin

text \<open>
  Projection (cgx-cql/src/eval.rs): the rows of a RETURN, plain or grouped by the items that are not
  aggregates, with DISTINCT, ORDER BY and LIMIT. An index into a list that the code keeps beside the
  sorted rows is the row or the binding itself here. A branch that panics is an error of the model;
  the lemmas show that none is reached.
\<close>

record result_table =
  rt_columns :: "string list"
  rt_rows :: "cql_value list list"
  rt_paths :: "path_value list"
  rt_truncation :: "truncation_reason option"

subsection \<open>Column names\<close>

definition dotted_name :: "string spanned \<Rightarrow> string spanned list \<Rightarrow> string" where
  "dotted_name head segments = sv_value head @ concat (map (\<lambda>seg. ''.'' @ sv_value seg) segments)"

fun join_with :: "string \<Rightarrow> string list \<Rightarrow> string" where
  "join_with sep [] = ''''"
| "join_with sep [x] = x"
| "join_with sep (x # xs) = x @ sep @ join_with sep xs"

definition render_literal :: "cql_value \<Rightarrow> string" where
  "render_literal v =
     (case v of
        VStr s \<Rightarrow> [dquote] @ s @ [dquote]
      | VInt i \<Rightarrow> show_int i
      | VFloat f \<Rightarrow> show_f64 f
      | VBool b \<Rightarrow> (if b then ''true'' else ''false'')
      | VNull \<Rightarrow> ''null''
      | _ \<Rightarrow> ''<expr>'')"

fun render_expr :: "expr \<Rightarrow> string" where
  "render_expr (EProperty head segments) = dotted_name head segments"
| "render_expr (ECall name args) = sv_value name @ ''('' @ join_with '', '' (map render_expr args) @ '')''"
| "render_expr (ELiteral v) = render_literal v"
| "render_expr _ = ''<expr>''"

definition column_name :: "return_item \<Rightarrow> string" where
  "column_name item = (case ri_alias item of Some alias \<Rightarrow> alias | None \<Rightarrow> render_expr (ri_expr item))"

definition is_path_return :: "return_item \<Rightarrow> bool" where
  "is_path_return item = (case ri_expr item of EProperty _ segments \<Rightarrow> segments = [] | _ \<Rightarrow> False)"

definition order_expr_name :: "expr \<Rightarrow> string" where
  "order_expr_name e = (case e of EProperty head segments \<Rightarrow> dotted_name head segments | _ \<Rightarrow> render_expr e)"

subsection \<open>Ordering\<close>

text \<open>The least node bound in a binding; its identifiers follow the canonical order of nodes.\<close>

definition representative_node :: "binding \<Rightarrow> node_id option" where
  "representative_node b =
     (let ids = List.map_filter (\<lambda>(k, v). case v of VNode n \<Rightarrow> Some n | _ \<Rightarrow> None) b
      in if ids = [] then None else Some (Min (set ids)))"

type_synonym keyed_binding = "node_id option \<times> cql_value list \<times> binding"

definition keyed_cmp :: "keyed_binding \<Rightarrow> keyed_binding \<Rightarrow> ordering" where
  "keyed_cmp a b =
     (case (fst a, fst b) of
        (Some x, Some y) \<Rightarrow> ord_then (ord_cmp x y) (cmp_list (fst (snd a)) (fst (snd b)))
      | (Some _, None) \<Rightarrow> Ord_Less
      | (None, Some _) \<Rightarrow> Ord_Greater
      | (None, None) \<Rightarrow> cmp_list (fst (snd a)) (fst (snd b)))"

definition eval_row :: "tokenizer list \<Rightarrow> graph_view \<Rightarrow> return_item list \<Rightarrow> binding \<Rightarrow> cql_error + cql_value list" where
  "eval_row inventory view items b = try_map (\<lambda>item. eval_expr inventory view (ri_expr item) b) items"

definition sort_bindings_default ::
  "tokenizer list \<Rightarrow> graph_view \<Rightarrow> return_clause \<Rightarrow> binding list \<Rightarrow> cql_error + binding list" where
  "sort_bindings_default inventory view ret bindings =
     try_bind (try_map (\<lambda>b. try_bind (eval_row inventory view (rc_items ret) b) (\<lambda>row.
         Inr (representative_node b, row, b))) bindings)
       (\<lambda>keyed. Inr (map (snd \<circ> snd) (sort_by keyed_cmp keyed)))"

definition eval_order_key :: "expr \<Rightarrow> return_clause \<Rightarrow> cql_value list \<Rightarrow> cql_error + cql_value" where
  "eval_order_key e ret row =
     (let target = order_expr_name e in
      case List.find (\<lambda>(item, v). column_name item = target \<or> render_expr (ri_expr item) = target) (zip (rc_items ret) row) of
        Some (item, v) \<Rightarrow> Inr v
      | None \<Rightarrow> Inl (plan_error no_span (''ORDER BY `'' @ target @ ''` must reference a RETURN column'')))"

text \<open>The keys in turn, each reversed when descending, and then the whole row.\<close>

fun order_cmp :: "(cql_value \<times> bool) list \<Rightarrow> (cql_value \<times> bool) list \<Rightarrow> ordering" where
  "order_cmp ((va, desc) # a) ((vb, _) # b) =
     ord_then (if desc then ord_reverse (value_compare va vb) else value_compare va vb) (order_cmp a b)"
| "order_cmp _ _ = Ord_Equal"

type_synonym keyed_row = "(cql_value \<times> bool) list \<times> cql_value list"

definition keyed_row_cmp :: "keyed_row \<Rightarrow> keyed_row \<Rightarrow> ordering" where
  "keyed_row_cmp a b = ord_then (order_cmp (fst a) (fst b)) (cmp_list (snd a) (snd b))"

definition row_keys :: "order_by list \<Rightarrow> return_clause \<Rightarrow> cql_value list \<Rightarrow> cql_error + (cql_value \<times> bool) list" where
  "row_keys keys ret row =
     try_map (\<lambda>ob. try_bind (eval_order_key (ob_expr ob) ret row) (\<lambda>v. Inr (v, ob_descending ob))) keys"

definition sort_rows :: "order_by list \<Rightarrow> return_clause \<Rightarrow> cql_value list list \<Rightarrow> cql_error + cql_value list list" where
  "sort_rows keys ret rows =
     try_bind (try_map (\<lambda>row. try_bind (row_keys keys ret row) (\<lambda>ks. Inr (ks, row))) rows)
       (\<lambda>keyed. Inr (map snd (sort_by keyed_row_cmp keyed)))"

definition distinct_rows :: "bool \<Rightarrow> cql_value list list \<Rightarrow> cql_value list list" where
  "distinct_rows dedup rows = (if dedup then dedup_by values_eq_list (sort_by cmp_list rows) else rows)"

definition limit_rows :: "nat option \<Rightarrow> 'a list \<Rightarrow> 'a list" where
  "limit_rows limit rows = (case limit of Some n \<Rightarrow> take n rows | None \<Rightarrow> rows)"

text \<open>The path of a row whose only column is one.\<close>

definition row_path :: "cql_value list \<Rightarrow> path_value option" where
  "row_path row = (case row of VPath p # _ \<Rightarrow> Some p | _ \<Rightarrow> None)"

subsection \<open>Aggregates\<close>

definition aggregate_name :: "string \<Rightarrow> string option" where
  "aggregate_name name =
     (if name = ''collect'' then Some ''collect''
      else if name = ''count'' then Some ''count''
      else if name = ''MIN'' \<or> name = ''min'' then Some ''min''
      else if name = ''MAX'' \<or> name = ''max'' then Some ''max''
      else None)"

definition is_aggregate_expr :: "expr \<Rightarrow> bool" where
  "is_aggregate_expr e = (case e of ECall name args \<Rightarrow> aggregate_name (sv_value name) \<noteq> None | _ \<Rightarrow> False)"

definition is_star_arg :: "expr \<Rightarrow> bool" where
  "is_star_arg e = (case e of EProperty head segments \<Rightarrow> sv_value head = ''*'' \<and> segments = [] | _ \<Rightarrow> False)"

definition confidence_rank :: "string \<Rightarrow> nat option" where
  "confidence_rank s =
     (if s = ''possible'' then Some 0 else if s = ''probable'' then Some 1
      else if s = ''certain'' then Some 2 else None)"

definition aggregate_value_cmp :: "cql_value \<Rightarrow> cql_value \<Rightarrow> ordering" where
  "aggregate_value_cmp a b =
     (case (a, b) of
        (VStr x, VStr y) \<Rightarrow>
          (case (confidence_rank x, confidence_rank y) of
             (Some rx, Some ry) \<Rightarrow> ord_cmp rx ry
           | _ \<Rightarrow> value_compare a b)
      | _ \<Rightarrow> value_compare a b)"

text \<open>\<open>min_by\<close> keeps the first of the least elements, \<open>max_by\<close> the last of the greatest.\<close>

fun min_by :: "('a \<Rightarrow> 'a \<Rightarrow> ordering) \<Rightarrow> 'a \<Rightarrow> 'a list \<Rightarrow> 'a" where
  "min_by cmp x [] = x"
| "min_by cmp x (y # ys) = min_by cmp (if cmp x y = Ord_Greater then y else x) ys"

fun max_by :: "('a \<Rightarrow> 'a \<Rightarrow> ordering) \<Rightarrow> 'a \<Rightarrow> 'a list \<Rightarrow> 'a" where
  "max_by cmp x [] = x"
| "max_by cmp x (y # ys) = max_by cmp (if cmp x y = Ord_Greater then x else y) ys"

definition extreme_elems :: "cql_value \<Rightarrow> cql_value list" where
  "extreme_elems v = (case v of VList items \<Rightarrow> filter (\<lambda>x. x \<noteq> VNull) items | VNull \<Rightarrow> [] | scalar \<Rightarrow> [scalar])"

definition unreachable_error :: "cql_error" where
  "unreachable_error = eval_error no_span ''internal error: entered unreachable code''"

definition eval_aggregate :: "tokenizer list \<Rightarrow> graph_view \<Rightarrow> expr \<Rightarrow> binding list \<Rightarrow> evaluated" where
  "eval_aggregate inventory view e grp =
     (case e of
        ECall name args \<Rightarrow>
          (let arg_values = try_map (\<lambda>b. eval_expr inventory view (args ! 0) b) in
           case aggregate_name (sv_value name) of
             None \<Rightarrow> Inl unreachable_error
           | Some agg \<Rightarrow>
               if agg = ''count'' then
                 (if args = [] \<or> is_star_arg (args ! 0) then Inr (VInt (int (length grp)))
                  else try_bind (arity name args 1) (\<lambda>_. try_bind (arg_values grp) (\<lambda>vs.
                    Inr (VInt (int (length (filter (\<lambda>v. v \<noteq> VNull) vs)))))))
               else if agg = ''collect'' then
                 try_bind (arity name args 1) (\<lambda>_. try_bind (arg_values (sort_key representative_node grp)) (\<lambda>vs.
                   Inr (VList (filter (\<lambda>v. v \<noteq> VNull) vs))))
               else
                 try_bind (arity name args 1) (\<lambda>_. try_bind (arg_values grp) (\<lambda>vs.
                   Inr (case concat (map extreme_elems vs) of
                          [] \<Rightarrow> VNull
                        | x # xs \<Rightarrow> (if agg = ''min'' then min_by aggregate_value_cmp x xs else max_by aggregate_value_cmp x xs)))))
      | _ \<Rightarrow> Inl unreachable_error)"

subsection \<open>Grouping\<close>

type_synonym row_groups = "(cql_value list \<times> binding list) list"

fun push_group :: "cql_value list \<Rightarrow> binding \<Rightarrow> row_groups \<Rightarrow> row_groups" where
  "push_group key b [] = [(key, [b])]"
| "push_group key b ((k, bs) # groups) =
     (if values_eq_list k key then (k, bs @ [b]) # groups else (k, bs) # push_group key b groups)"

definition group_step :: "tokenizer list \<Rightarrow> graph_view \<Rightarrow> return_item list \<Rightarrow> binding \<Rightarrow> row_groups \<Rightarrow> cql_error + row_groups" where
  "group_step inventory view items b groups =
     try_bind (eval_row inventory view (filter (\<lambda>i. \<not> is_aggregate_expr (ri_expr i)) items) b) (\<lambda>key.
       Inr (push_group key b groups))"

definition group_bindings :: "tokenizer list \<Rightarrow> graph_view \<Rightarrow> return_item list \<Rightarrow> binding list \<Rightarrow> cql_error + row_groups" where
  "group_bindings inventory view items bindings =
     try_bind (try_fold (group_step inventory view items) bindings []) (\<lambda>groups.
       Inr (if list_all (\<lambda>i. is_aggregate_expr (ri_expr i)) items \<and> groups = [] then [([], [])] else groups))"

definition group_row :: "tokenizer list \<Rightarrow> graph_view \<Rightarrow> return_item list \<Rightarrow> binding list \<Rightarrow> cql_error + cql_value list" where
  "group_row inventory view items grp =
     try_map (\<lambda>item.
       if is_aggregate_expr (ri_expr item) then eval_aggregate inventory view (ri_expr item) grp
       else case grp of b # _ \<Rightarrow> eval_expr inventory view (ri_expr item) b | [] \<Rightarrow> Inl unreachable_error) items"

definition project_grouped ::
  "tokenizer list \<Rightarrow> graph_view \<Rightarrow> return_clause \<Rightarrow> string list \<Rightarrow> binding list \<Rightarrow> truncation_reason option \<Rightarrow> cql_error + result_table" where
  "project_grouped inventory view ret columns bindings truncation =
     try_bind (group_bindings inventory view (rc_items ret) bindings) (\<lambda>groups.
     try_bind (try_map (\<lambda>(key, grp). group_row inventory view (rc_items ret) grp) groups) (\<lambda>rows.
     let rows = distinct_rows (rc_distinct ret) rows in
     try_bind (if rc_order_by ret \<noteq> [] then sort_rows (rc_order_by ret) ret rows else Inr (sort_by cmp_list rows)) (\<lambda>rows.
       Inr \<lparr>rt_columns = columns, rt_rows = limit_rows (rc_limit ret) rows, rt_paths = [], rt_truncation = truncation\<rparr>)))"

subsection \<open>Projection\<close>

definition project ::
  "tokenizer list \<Rightarrow> graph_view \<Rightarrow> return_clause \<Rightarrow> binding list \<Rightarrow> truncation_reason option \<Rightarrow> cql_error + result_table" where
  "project inventory view ret bindings truncation =
     (let columns = map column_name (rc_items ret) in
      if list_ex (\<lambda>i. is_aggregate_expr (ri_expr i)) (rc_items ret) then
        project_grouped inventory view ret columns bindings truncation
      else
        (let single_path_col = (case rc_items ret of [item] \<Rightarrow> is_path_return item | _ \<Rightarrow> False) in
         try_bind (if rc_order_by ret = [] then sort_bindings_default inventory view ret bindings else Inr bindings) (\<lambda>bindings.
         try_bind (try_map (eval_row inventory view (rc_items ret)) bindings) (\<lambda>rows.
         let rows = distinct_rows (rc_distinct ret) rows in
         try_bind (if rc_order_by ret \<noteq> [] then sort_rows (rc_order_by ret) ret rows else Inr rows) (\<lambda>rows.
         let paths = (if single_path_col then List.map_filter row_path rows else []) in
           Inr \<lparr>rt_columns = columns, rt_rows = limit_rows (rc_limit ret) rows,
                rt_paths = limit_rows (if single_path_col then rc_limit ret else None) paths,
                rt_truncation = truncation\<rparr>)))))"

end
