(* ===== verification/Cql_Eval.thy ===== *)
theory Cql_Eval
  imports Cql_Project Cql_Parser
begin

text \<open>
  The pipeline of a query (cgx-cql/src/eval.rs, proc.rs, lib.rs): the checks before a part runs, the
  reading clauses with their filters, the scope horizon of WITH, the procedures of CALL, and the
  whole of \<open>run\<close>. The truncation marker is threaded through the parts.
\<close>

subsection \<open>Checks before a part runs\<close>

datatype var_type = NodeVar | EdgeVar | PathVar

type_synonym var_types = "(string, var_type) btree_map"

definition record_var :: "string option \<Rightarrow> var_type \<Rightarrow> var_types \<Rightarrow> var_types" where
  "record_var var ty types = (case var of Some v \<Rightarrow> bt_insert v ty types | None \<Rightarrow> types)"

definition record_plan :: "pattern_plan \<Rightarrow> var_types \<Rightarrow> var_types" where
  "record_plan plan types =
     record_var (pl_path_var plan) PathVar (record_var (pl_rel_var plan) EdgeVar
       (record_var (pl_peer_var plan) NodeVar (record_var (pl_anchor_var plan) NodeVar types)))"

definition with_element :: "var_types \<Rightarrow> string \<Rightarrow> var_type option \<Rightarrow> var_types" where
  "with_element types var ty =
     (case ty of Some t \<Rightarrow> bt_insert var t types | None \<Rightarrow> filter (\<lambda>(k, _). k \<noteq> var) types)"

definition element_type :: "expr \<Rightarrow> var_type option" where
  "element_type list =
     (case list of
        ECall name args \<Rightarrow>
          if sv_value name = ''relationships'' then Some EdgeVar
          else if sv_value name = ''nodes'' then Some NodeVar
          else None
      | _ \<Rightarrow> None)"

definition validate_property :: "string spanned \<Rightarrow> string spanned list \<Rightarrow> var_types \<Rightarrow> cql_error + unit" where
  "validate_property head segments types =
     (case segments of
        [] \<Rightarrow> Inr ()
      | [prop] \<Rightarrow>
          (case map_of types (sv_value head) of
             Some NodeVar \<Rightarrow> try_bind (node_field_from_name (sv_value prop) (sv_span prop)) (\<lambda>_. Inr ())
           | Some EdgeVar \<Rightarrow> try_bind (edge_field_from_name (sv_value prop) (sv_span prop)) (\<lambda>_. Inr ())
           | _ \<Rightarrow> Inr ())
      | _ \<Rightarrow> Inl (nested_property_error segments))"

fun validate_expr :: "expr \<Rightarrow> var_types \<Rightarrow> cql_error + unit" where
  "validate_expr (ELiteral v) types = Inr ()"
| "validate_expr (EProperty head segments) types = validate_property head segments types"
| "validate_expr (ENot e) types = validate_expr e types"
| "validate_expr (EBinary op l r sp) types = try_bind (validate_expr l types) (\<lambda>_. validate_expr r types)"
| "validate_expr (ECall name args) types = try_all (\<lambda>e. validate_expr e types) args"
| "validate_expr (EListComp var list filt proj) types =
     try_bind (validate_expr list types) (\<lambda>_.
       let scoped = with_element types var (element_type list) in
       try_bind (case filt of Some f \<Rightarrow> validate_expr f scoped | None \<Rightarrow> Inr ()) (\<lambda>_. validate_expr proj scoped))"
| "validate_expr (EQuantifier kind var list p) types =
     try_bind (validate_expr list types) (\<lambda>_. validate_expr p (with_element types var (element_type list)))"
| "validate_expr (EPattern negated pat) types = Inr ()"

definition validate_opt :: "expr option \<Rightarrow> var_types \<Rightarrow> cql_error + unit" where
  "validate_opt e types = (case e of Some w \<Rightarrow> validate_expr w types | None \<Rightarrow> Inr ())"

subsection \<open>Procedures\<close>

record proc_plan =
  pr_direction :: direction
  pr_symbol_column :: string

definition proc_produces :: "proc_plan \<Rightarrow> string \<Rightarrow> bool" where
  "proc_produces plan col \<longleftrightarrow> col = pr_symbol_column plan \<or> col = ''confidence''"

definition resolve_proc :: "call_clause \<Rightarrow> cql_error + proc_plan" where
  "resolve_proc call =
     (let name = sv_value (cl_proc call) in
      if name = ''cgx.mutation_fanout'' then Inr \<lparr>pr_direction = Forward, pr_symbol_column = ''mutator''\<rparr>
      else if name = ''cgx.pedigree'' then Inr \<lparr>pr_direction = Backward, pr_symbol_column = ''source''\<rparr>
      else Inl (plan_error (sv_span (cl_proc call))
        (''unknown procedure `'' @ name @ ''` (known: `cgx.mutation_fanout`, `cgx.pedigree`)'')))"

definition validate_call :: "call_clause \<Rightarrow> cql_error + unit" where
  "validate_call call =
     try_bind (resolve_proc call) (\<lambda>plan.
       try_all (\<lambda>y.
         if \<not> proc_produces plan (sv_value (yi_name y)) then
           Inl (plan_error (sv_span (yi_name y))
             (''procedure `'' @ sv_value (cl_proc call) @ ''` does not yield column `'' @ sv_value (yi_name y) @
              ''`; it yields `'' @ pr_symbol_column plan @
              ''` and `confidence` (the `effect`/`transform`/`evidence` columns are not populated by the current frontend and are deferred)''))
         else Inr ()) (cl_yields call))"

definition yield_column :: "yield_item \<Rightarrow> string" where
  "yield_column y = (case yi_alias y of Some alias \<Rightarrow> alias | None \<Rightarrow> sv_value (yi_name y))"

definition yielded_columns :: "call_clause \<Rightarrow> string list" where
  "yielded_columns call = map yield_column (cl_yields call)"

definition bind_yields :: "call_clause \<Rightarrow> proc_plan \<Rightarrow> string \<Rightarrow> string \<Rightarrow> binding \<Rightarrow> binding" where
  "bind_yields call plan fqn conf b =
     fold (\<lambda>y. bt_insert (yield_column y)
       (if sv_value (yi_name y) = pr_symbol_column plan then VStr fqn else VStr conf)) (cl_yields call) b"

definition resolve_arg :: "tokenizer list \<Rightarrow> graph_view \<Rightarrow> call_clause \<Rightarrow> binding \<Rightarrow> cql_error + string" where
  "resolve_arg inventory view call b =
     (case cl_args call of
        [arg] \<Rightarrow>
          try_bind (eval_expr inventory view arg b) (\<lambda>v. case v of
            VStr s \<Rightarrow> Inr s
          | _ \<Rightarrow> Inl (eval_error (sv_span (cl_proc call))
              (''procedure `'' @ sv_value (cl_proc call) @ ''` argument must be a string symbol name, got a '' @ value_type_name v @ '' value'')))
      | _ \<Rightarrow> Inl (plan_error (sv_span (cl_proc call))
          (''procedure `'' @ sv_value (cl_proc call) @ ''` takes exactly one argument (the anchor symbol)'')))"

definition proc_walker :: path_walker where
  "proc_walker =
     \<lparr>pw_filter = with_kinds [DerivesFrom] edge_filter_calls, pw_max_depth = Some default_var_length_depth,
      pw_max_paths = None, pw_max_steps = None\<rparr>"

type_synonym reached_node = "node_id \<times> edge_id \<times> string"

definition reached_from :: "graph_view \<Rightarrow> direction \<Rightarrow> node_id \<Rightarrow> reached_node list" where
  "reached_from view dir anchor =
     map (\<lambda>d. (dc_node d, e_id (dc_via d), confidence_token (e_confidence (dc_via d)))) (bfs proc_walker view anchor dir)"

definition call_rows ::
  "tokenizer list \<Rightarrow> graph_view \<Rightarrow> call_clause \<Rightarrow> proc_plan \<Rightarrow> binding \<Rightarrow> cql_error + binding list" where
  "call_rows inventory view call plan base =
     try_bind (resolve_arg inventory view call base) (\<lambda>anchor_name.
       let anchors = resolve_symbol view (name_pattern anchor_name);
           reached = sort_key (\<lambda>(node, edge, _). (node, edge)) (concat (map (reached_from view (pr_direction plan)) anchors));
           bound = List.map_filter (\<lambda>(node, _, conf).
             map_option (\<lambda>n. bind_yields call plan (n_fqn n) conf base) (try_node view node)) reached
       in case cl_where call of
            Some f \<Rightarrow> try_filter (eval_predicate inventory view f) bound
          | None \<Rightarrow> Inr bound)"

definition eval_call :: "tokenizer list \<Rightarrow> graph_view \<Rightarrow> call_clause \<Rightarrow> binding list \<Rightarrow> cql_error + binding list" where
  "eval_call inventory view call input =
     try_bind (resolve_proc call) (\<lambda>plan. try_bind (validate_call call) (\<lambda>_.
       try_bind (try_map (call_rows inventory view call plan) input) (\<lambda>rows. Inr (concat rows))))"

subsection \<open>Reading clauses\<close>

definition eval_match ::
  "tokenizer list \<Rightarrow> graph_view \<Rightarrow> match_clause \<Rightarrow> pattern_plan list \<Rightarrow> stream \<Rightarrow> cql_error + stream" where
  "eval_match inventory view clause plans st =
     (case fold (expand_pattern view) plans st of (bindings, truncation) \<Rightarrow>
        case mc_where clause of
          Some f \<Rightarrow> try_bind (try_filter (eval_predicate inventory view f) bindings) (\<lambda>kept. Inr (kept, truncation))
        | None \<Rightarrow> Inr (bindings, truncation))"

text \<open>The plans of the MATCH clauses in order; a CALL is only checked.\<close>

fun plan_reading :: "reading_clause list \<Rightarrow> cql_error + pattern_plan list list" where
  "plan_reading [] = Inr []"
| "plan_reading (RMatch m # clauses) =
     try_bind (try_map lower_pattern_chain (mc_patterns m)) (\<lambda>plans.
       try_bind (plan_reading clauses) (\<lambda>rest. Inr (concat plans # rest)))"
| "plan_reading (RCall call # clauses) = try_bind (validate_call call) (\<lambda>_. plan_reading clauses)"

definition plan_types :: "pattern_plan list list \<Rightarrow> var_types" where
  "plan_types plans = fold record_plan (concat plans) []"

definition reading_where :: "reading_clause \<Rightarrow> expr option" where
  "reading_where clause = (case clause of RMatch m \<Rightarrow> mc_where m | RCall call \<Rightarrow> cl_where call)"

definition validate_items :: "return_item list \<Rightarrow> var_types \<Rightarrow> cql_error + unit" where
  "validate_items items types = try_all (\<lambda>item. validate_expr (ri_expr item) types) items"

definition validate_part :: "query_part \<Rightarrow> var_types \<Rightarrow> cql_error + unit" where
  "validate_part part types =
     try_bind (try_all (\<lambda>clause. validate_opt (reading_where clause) types) (qp_reading part)) (\<lambda>_.
     try_bind (case qp_ret part of
         Some ret \<Rightarrow> try_bind (validate_items (rc_items ret) types) (\<lambda>_.
           try_all (\<lambda>ob. validate_expr (ob_expr ob) types) (rc_order_by ret))
       | None \<Rightarrow> Inr ()) (\<lambda>_.
     case qp_with part of
       Some w \<Rightarrow> try_bind (validate_items (wi_items w) types) (\<lambda>_. validate_opt (wi_where w) types)
     | None \<Rightarrow> Inr ()))"

text \<open>The clauses in order, each MATCH with its plans; a missing entry of the iterator would panic.\<close>

fun run_reading ::
  "tokenizer list \<Rightarrow> graph_view \<Rightarrow> reading_clause list \<Rightarrow> pattern_plan list list \<Rightarrow> stream \<Rightarrow> cql_error + stream" where
  "run_reading inventory view [] plans st = Inr st"
| "run_reading inventory view (RMatch m # clauses) (ps # plans) st =
     try_bind (eval_match inventory view m ps st) (run_reading inventory view clauses plans)"
| "run_reading inventory view (RMatch m # clauses) [] st = Inl unreachable_error"
| "run_reading inventory view (RCall call # clauses) plans st =
     try_bind (eval_call inventory view call (fst st)) (\<lambda>bindings.
       run_reading inventory view clauses plans (bindings, snd st))"

definition eval_reading :: "tokenizer list \<Rightarrow> graph_view \<Rightarrow> query_part \<Rightarrow> stream \<Rightarrow> cql_error + stream" where
  "eval_reading inventory view part st =
     try_bind (plan_reading (qp_reading part)) (\<lambda>plans.
     try_bind (validate_part part (plan_types plans)) (\<lambda>_.
       run_reading inventory view (qp_reading part) plans st))"

subsection \<open>The pipeline\<close>

definition with_return :: "with_clause \<Rightarrow> return_clause" where
  "with_return w = \<lparr>rc_distinct = wi_distinct w, rc_items = wi_items w, rc_order_by = wi_order_by w, rc_limit = wi_limit w\<rparr>"

definition row_binding :: "string list \<Rightarrow> cql_value list \<Rightarrow> binding" where
  "row_binding names row = fold (\<lambda>(name, v). bt_insert name v) (zip names row) []"

definition project_with :: "tokenizer list \<Rightarrow> graph_view \<Rightarrow> with_clause \<Rightarrow> binding list \<Rightarrow> cql_error + binding list" where
  "project_with inventory view w bindings =
     try_bind (project inventory view (with_return w) bindings None) (\<lambda>table.
       let carried = map (row_binding (rt_columns table)) (rt_rows table) in
       case wi_where w of
         Some f \<Rightarrow> try_filter (eval_predicate inventory view f) carried
       | None \<Rightarrow> Inr carried)"

text \<open>
  A part with a WITH feeds the next one; the first part that ends with a RETURN ends the query. The
  assertions of a debug build on the position of the two hold for a parsed query.
\<close>

fun eval_parts :: "tokenizer list \<Rightarrow> graph_view \<Rightarrow> query_part list \<Rightarrow> stream \<Rightarrow> cql_error + result_table" where
  "eval_parts inventory view [] st = Inl (plan_error no_span ''query must end with a RETURN clause'')"
| "eval_parts inventory view (part # parts) st =
     try_bind (eval_reading inventory view part st) (\<lambda>(bindings, truncation).
       case (qp_with part, qp_ret part) of
         (Some w, _) \<Rightarrow>
           try_bind (project_with inventory view w bindings) (\<lambda>carried.
             eval_parts inventory view parts (carried, truncation))
       | (None, Some ret) \<Rightarrow> project inventory view ret bindings truncation
       | (None, None) \<Rightarrow> Inl (plan_error no_span ''query part must end with WITH or RETURN''))"

definition cql_eval :: "tokenizer list \<Rightarrow> graph_view \<Rightarrow> query \<Rightarrow> cql_error + result_table" where
  "cql_eval inventory view q = eval_parts inventory view (q_parts q) ([[]], None)"

text \<open>\<open>run\<close>: parse and evaluate. The parser is total on every text (\<open>cql_parse_returns\<close>).\<close>

definition cql_run :: "tokenizer list \<Rightarrow> graph_view \<Rightarrow> string \<Rightarrow> (cql_error + result_table) option" where
  "cql_run inventory view src = map_option (\<lambda>r. try_bind r (cql_eval inventory view)) (cql_parse src)"

end
