(* ===== verification/Cql_Meaning.thy ===== *)
theory Cql_Meaning
  imports Cql_Eval Query_Paths
begin

text \<open>
  Lemmas on the expansion of patterns: the constraints of a node pattern, the anchors, one hop, and
  the bindings of both ends whichever of them is the anchor.
\<close>

subsection \<open>Bindings\<close>

lemma bt_insert_twist:
  assumes "k \<noteq> l" "bt_wf m"
  shows "bt_insert k v (bt_insert l w m) = bt_insert l w (bt_insert k v m)"
  by (rule bt.items_eqI) (use assms in \<open>auto simp: bt_wf_insert map_of_bt_insert fun_upd_twist\<close>)

lemma bind_node_twist:
  assumes "v \<noteq> w \<or> v = None" "bt_wf b"
  shows "bind_node v m (bind_node w n b) = bind_node w n (bind_node v m b)"
  using assms by (auto simp: bind_node_def intro: bt_insert_twist split: option.split)

lemma bt_wf_bind_node: "bt_wf b \<Longrightarrow> bt_wf (bind_node v n b)"
  by (simp add: bind_node_def bt_wf_insert split: option.split)

subsection \<open>The constraints of a node pattern\<close>

definition node_meets :: "node_prop list \<times> symbol_kind list option \<Rightarrow> node_record \<Rightarrow> bool" where
  "node_meets c node \<longleftrightarrow>
     (case snd c of Some kinds \<Rightarrow> n_kind node \<in> set kinds | None \<Rightarrow> True) \<and> list_all (prop_matches node) (fst c)"

text \<open>The constraints that the choice of an anchor set keeps: a name alone, or kinds alone.\<close>

definition captured :: "node_prop list \<times> symbol_kind list option \<Rightarrow> bool" where
  "captured c \<longleftrightarrow> fst c = [] \<or> (snd c = None \<and> (\<exists>s. fst c = [\<lparr>npr_field = FqnField, npr_value = VStr s\<rparr>]))"

definition dense :: "graph_view \<Rightarrow> bool" where
  "dense view \<longleftrightarrow> map n_id (gv_nodes view) = [0..<node_count view]"

definition meets_at :: "graph_view \<Rightarrow> node_prop list \<times> symbol_kind list option \<Rightarrow> node_id \<Rightarrow> bool" where
  "meets_at view c n \<longleftrightarrow> (case try_node view n of Some node \<Rightarrow> node_meets c node | None \<Rightarrow> False)"

lemma peer_matches_meets: "peer_matches view plan n \<longleftrightarrow> meets_at view (pl_peer_props plan, pl_peer_kinds plan) n"
  by (auto simp: peer_matches_def meets_at_def node_meets_def split: option.split)

lemma ids_filter:
  assumes "dense view"
  shows "n \<in> set (map n_id (filter P (gv_nodes view))) \<longleftrightarrow> (case try_node view n of Some node \<Rightarrow> P node | None \<Rightarrow> False)"
proof -
  have id: "n_id (gv_nodes view ! i) = i" if "i < length (gv_nodes view)" for i
    using assms that by (metis dense_def add_0 nth_map nth_upt node_count_def)
  show ?thesis using id by (auto simp: try_node_def in_set_conv_nth image_iff split: if_splits)
qed

lemma anchor_ids_captured:
  assumes "captured c" "dense view"
  shows "n \<in> set (anchor_ids view (anchor_set_of (fst c) (snd c))) \<longleftrightarrow> meets_at view c n"
proof (cases "fst c = []")
  case True
  have all: "map n_id (gv_nodes view) = map n_id (filter (\<lambda>_. True) (gv_nodes view))" by simp
  show ?thesis
    unfolding anchor_set_of_def anchor_ids_def meets_at_def node_meets_def nodes_of_kind_def
    using True ids_filter [OF assms(2)] ids_filter [OF assms(2), of n "\<lambda>_. True"]
    by (auto split: option.split)
next
  case False
  then obtain s where "snd c = None" "fst c = [\<lparr>npr_field = FqnField, npr_value = VStr s\<rparr>]" using assms(1) by (auto simp: captured_def)
  then show ?thesis
    using ids_filter [OF assms(2), of n "pattern_matches (name_pattern s)"]
    by (auto simp: anchor_set_of_def anchor_ids_def meets_at_def node_meets_def prop_matches_def symbol_pattern_from_name
        resolve_symbol_def split: option.splits)
qed

text \<open>
  What the plan really checks at an end. The anchor keeps the name when there is one and the kinds
  otherwise; the goals of a variable length step keep the name when there is one and everything
  otherwise.
\<close>

definition name_prop :: "node_prop list \<times> symbol_kind list option \<Rightarrow> node_prop option" where
  "name_prop c =
     (case List.find (\<lambda>p. npr_field p = FqnField) (fst c) of
        Some p \<Rightarrow> (case npr_value p of VStr s \<Rightarrow> Some p | _ \<Rightarrow> None)
      | None \<Rightarrow> None)"

definition anchor_checks :: "node_prop list \<times> symbol_kind list option \<Rightarrow> node_prop list \<times> symbol_kind list option" where
  "anchor_checks c = (case name_prop c of Some p \<Rightarrow> ([p], None) | None \<Rightarrow> ([], snd c))"

definition goal_checks :: "node_prop list \<times> symbol_kind list option \<Rightarrow> node_prop list \<times> symbol_kind list option" where
  "goal_checks c = (case name_prop c of Some p \<Rightarrow> ([p], None) | None \<Rightarrow> c)"

lemma name_prop_Some:
  "name_prop c = Some p \<Longrightarrow> p \<in> set (fst c) \<and> List.find (\<lambda>p. npr_field p = FqnField) (fst c) = Some p \<and>
    (\<exists>s. p = \<lparr>npr_field = FqnField, npr_value = VStr s\<rparr>)"
proof -
  assume a: "name_prop c = Some p"
  then have f: "List.find (\<lambda>p. npr_field p = FqnField) (fst c) = Some p" and "\<exists>s. npr_value p = VStr s"
    by (auto simp: name_prop_def split: option.splits cql_value.splits)
  moreover from f have "p \<in> set (fst c)" "npr_field p = FqnField" by (auto simp: find_Some_iff)
  ultimately show ?thesis by (cases p) auto
qed

lemma anchor_checks_captured: "captured (anchor_checks c)"
  by (auto simp: anchor_checks_def captured_def split: option.split dest!: name_prop_Some)

lemma checks_of_captured: "captured c \<Longrightarrow> anchor_checks c = c \<and> goal_checks c = c"
  by (cases c) (auto simp: captured_def anchor_checks_def goal_checks_def name_prop_def)

lemma checks_weaker: "meets_at view c n \<Longrightarrow> meets_at view (anchor_checks c) n \<and> meets_at view (goal_checks c) n"
  by (auto simp: meets_at_def node_meets_def anchor_checks_def goal_checks_def list_all_iff split: option.splits dest!: name_prop_Some)

lemma anchor_set_checks: "anchor_set_of (fst c) (snd c) = anchor_set_of (fst (anchor_checks c)) (snd (anchor_checks c))"
proof (cases "name_prop c")
  case (Some p)
  from name_prop_Some [OF this] Some show ?thesis
    by (auto simp: anchor_set_of_def anchor_checks_def symbol_pattern_from_name)
next
  case None
  then show ?thesis
    by (auto simp: anchor_set_of_def anchor_checks_def name_prop_def symbol_pattern_from_def split: option.splits cql_value.splits)
qed

lemma anchor_ids_checks: "dense view \<Longrightarrow> n \<in> set (anchor_ids view (anchor_set_of (fst c) (snd c))) \<longleftrightarrow> meets_at view (anchor_checks c) n"
  unfolding anchor_set_checks [of c] by (rule anchor_ids_captured [OF anchor_checks_captured])

text \<open>The checks at the start and at the end: the more selective end is the anchor, the start in case of a tie.\<close>

definition start_is_anchor :: "node_prop list \<times> symbol_kind list option \<Rightarrow> node_prop list \<times> symbol_kind list option \<Rightarrow> bool" where
  "start_is_anchor sc ec \<longleftrightarrow> selectivity (fst ec) (snd ec) \<le> selectivity (fst sc) (snd sc)"

type_synonym end_checks = "node_prop list \<times> symbol_kind list option"

definition hop_checks :: "end_checks \<Rightarrow> end_checks \<Rightarrow> end_checks \<times> end_checks" where
  "hop_checks sc ec = (if start_is_anchor sc ec then (anchor_checks sc, ec) else (sc, anchor_checks ec))"

definition length_checks :: "end_checks \<Rightarrow> end_checks \<Rightarrow> end_checks \<times> end_checks" where
  "length_checks sc ec = (if start_is_anchor sc ec then (anchor_checks sc, goal_checks ec) else (goal_checks sc, anchor_checks ec))"

lemma checks_of_captured_ends:
  "captured sc \<Longrightarrow> captured ec \<Longrightarrow> hop_checks sc ec = (sc, ec) \<and> length_checks sc ec = (sc, ec)"
  by (simp add: hop_checks_def length_checks_def checks_of_captured)

lemma hop_checks_of_anchor:
  "captured (if start_is_anchor sc ec then sc else ec) \<Longrightarrow> hop_checks sc ec = (sc, ec)"
  by (simp add: hop_checks_def checks_of_captured split: if_splits)

lemma checks_complete:
  "meets_at view sc s \<Longrightarrow> meets_at view (fst (hop_checks sc ec)) s \<and> meets_at view (fst (length_checks sc ec)) s"
  "meets_at view ec d \<Longrightarrow> meets_at view (snd (hop_checks sc ec)) d \<and> meets_at view (snd (length_checks sc ec)) d"
  by (simp_all add: hop_checks_def length_checks_def checks_weaker)

subsection \<open>One hop\<close>

lemma mem_expand_single_hop:
  "b \<in> set (expand_single_hop (graph_view_new ns es cs) plan base anchor) \<longleftrightarrow>
    (\<exists>e \<in> set es. anchor < length ns \<and> from_end (pl_direction plan) e = anchor \<and>
       passes (graph_view_new ns es cs) (pl_filter plan) e \<and>
       peer_matches (graph_view_new ns es cs) plan (to_end (pl_direction plan) e) \<and>
       b = single_hop_binding plan base anchor \<lparr>er_edge = e, er_peer = to_end (pl_direction plan) e\<rparr>)"
  by (auto simp: expand_single_hop_def neighbors_new)

lemma fold_single_hop:
  assumes "pl_cardinality plan = SingleHop"
  shows "fold (expand_anchor view plan base) anchors (out, tr) =
    (out @ concat (map (expand_single_hop view plan base) anchors), tr)"
  using assms by (induction anchors arbitrary: out) (simp_all add: expand_anchor_def)

lemma expand_pattern_single:
  assumes "pl_cardinality plan = SingleHop"
  shows "expand_pattern view plan (input, tr) =
    (concat (map (\<lambda>base. concat (map (expand_single_hop view plan base) (step_anchors view plan base))) input), tr)"
proof -
  have "fold (\<lambda>base. fold (expand_anchor view plan base) (step_anchors view plan base)) input (out, tr) =
      (out @ concat (map (\<lambda>base. concat (map (expand_single_hop view plan base) (step_anchors view plan base))) input), tr)" for out
    by (induction input arbitrary: out) (simp_all add: fold_single_hop [OF assms])
  then show ?thesis by (simp add: expand_pattern_def)
qed

text \<open>The binding of a match of one relationship, in the order of its parts as written.\<close>

definition match_binding :: "node_pat \<Rightarrow> rel_pat \<Rightarrow> node_pat \<Rightarrow> node_id \<Rightarrow> edge_record \<Rightarrow> node_id \<Rightarrow> binding \<Rightarrow> binding" where
  "match_binding start rel end_node s e d base =
     (let b = bind_node (nd_var end_node) d (bind_node (nd_var start) s base)
      in case rl_var rel of Some rv \<Rightarrow> bt_insert rv (VEdge (e_id e)) b | None \<Rightarrow> b)"

lemma direction_ends:
  "from_end (direction_reverse dir) e = to_end dir e" "to_end (direction_reverse dir) e = from_end dir e"
  by (cases dir; simp add: from_end_def to_end_def)+

lemma meets_at_bound: "meets_at view c n \<Longrightarrow> n < node_count view"
  by (auto simp: meets_at_def try_node_def node_count_def split: if_splits)

lemma lower_single_plan:
  assumes "node_constraints start = Inr sc" "node_constraints end_node = Inr ec" "rel_filter rel = Inr (f, invert)"
  shows "\<exists>plan. lower_single None start rel end_node = Inr plan \<and> pl_cardinality plan = cardinality_of rel \<and>
    pl_anchor_bound_var plan = None \<and> pl_filter plan = f \<and> pl_path_var plan = None \<and> pl_rel_var plan = rl_var rel \<and>
    ((start_is_anchor sc ec \<and> pl_direction plan = walk_direction (rl_direction rel) invert \<and> pl_anchor plan = anchor_set_of (fst sc) (snd sc) \<and>
      (pl_peer_props plan, pl_peer_kinds plan) = ec \<and> pl_anchor_var plan = nd_var start \<and> pl_peer_var plan = nd_var end_node) \<or>
     (\<not> start_is_anchor sc ec \<and> pl_direction plan = direction_reverse (walk_direction (rl_direction rel) invert) \<and> pl_anchor plan = anchor_set_of (fst ec) (snd ec) \<and>
      (pl_peer_props plan, pl_peer_kinds plan) = sc \<and> pl_anchor_var plan = nd_var end_node \<and> pl_peer_var plan = nd_var start))"
  using assms by (cases sc; cases ec) (simp add: lower_single_def Let_def start_is_anchor_def)

lemma single_hop_binding_start:
  assumes "pl_path_var plan = None" "pl_rel_var plan = rl_var rel" "pl_anchor_var plan = nd_var start" "pl_peer_var plan = nd_var end_node"
  shows "single_hop_binding plan base s \<lparr>er_edge = e, er_peer = d\<rparr> = match_binding start rel end_node s e d base"
  using assms by (simp add: single_hop_binding_def match_binding_def Let_def split: option.split)

lemma single_hop_binding_end:
  assumes "pl_path_var plan = None" "pl_rel_var plan = rl_var rel" "pl_anchor_var plan = nd_var end_node" "pl_peer_var plan = nd_var start"
    and "nd_var start \<noteq> nd_var end_node \<or> nd_var start = None" "bt_wf base"
  shows "single_hop_binding plan base d \<lparr>er_edge = e, er_peer = s\<rparr> = match_binding start rel end_node s e d base"
  using assms bind_node_twist [OF assms(5,6)] by (simp add: single_hop_binding_def match_binding_def Let_def split: option.split)

lemma mem_expand_single:
  assumes "pl_cardinality plan = SingleHop" "pl_anchor_bound_var plan = None"
  shows "b \<in> set (fst (expand_pattern view plan ([base], tr))) \<longleftrightarrow>
    (\<exists>a \<in> set (anchor_ids view (pl_anchor plan)). b \<in> set (expand_single_hop view plan base a))"
  using assms by (simp add: expand_pattern_single step_anchors_def)

lemma match_single_hop_mem:
  fixes ns es cs
  defines "view \<equiv> graph_view_new ns es cs"
  assumes dense: "dense view"
    and constraints: "node_constraints start = Inr sc" "node_constraints end_node = Inr ec"
    and rel: "rel_filter rel = Inr (f, invert)" "rl_var_len rel = None"
    and vars: "nd_var start \<noteq> nd_var end_node \<or> nd_var start = None" and wf: "bt_wf base"
  shows "\<exists>plan. lower_pattern_chain \<lparr>pp_path_var = None, pp_start = start, pp_steps = [(rel, end_node)]\<rparr> = Inr [plan] \<and>
    (b \<in> set (fst (expand_pattern view plan ([base], tr))) \<longleftrightarrow>
      (\<exists>e \<in> set es. let dir = walk_direction (rl_direction rel) invert; s = from_end dir e; d = to_end dir e in
         passes view f e \<and> meets_at view (fst (hop_checks sc ec)) s \<and> meets_at view (snd (hop_checks sc ec)) d \<and> b = match_binding start rel end_node s e d base))"
proof -
  let ?dir = "walk_direction (rl_direction rel) invert"
  obtain plan where plan: "lower_single None start rel end_node = Inr plan" "pl_cardinality plan = SingleHop"
    "pl_anchor_bound_var plan = None" "pl_filter plan = f" "pl_path_var plan = None" "pl_rel_var plan = rl_var rel"
    and ends: "(start_is_anchor sc ec \<and> pl_direction plan = ?dir \<and> pl_anchor plan = anchor_set_of (fst sc) (snd sc) \<and>
      (pl_peer_props plan, pl_peer_kinds plan) = ec \<and> pl_anchor_var plan = nd_var start \<and> pl_peer_var plan = nd_var end_node) \<or>
     (\<not> start_is_anchor sc ec \<and> pl_direction plan = direction_reverse ?dir \<and> pl_anchor plan = anchor_set_of (fst ec) (snd ec) \<and>
      (pl_peer_props plan, pl_peer_kinds plan) = sc \<and> pl_anchor_var plan = nd_var end_node \<and> pl_peer_var plan = nd_var start)"
    using lower_single_plan [OF constraints(1,2) rel(1)] rel(2) by (auto simp: cardinality_of_def)
  have "length ns = node_count view" by (simp add: view_def node_count_def graph_view_new_fields)
  then have hop: "b \<in> set (expand_single_hop view plan base a) \<longleftrightarrow>
      (\<exists>e \<in> set es. a < node_count view \<and> from_end (pl_direction plan) e = a \<and> passes view f e \<and>
       meets_at view (pl_peer_props plan, pl_peer_kinds plan) (to_end (pl_direction plan) e) \<and>
       b = single_hop_binding plan base a \<lparr>er_edge = e, er_peer = to_end (pl_direction plan) e\<rparr>)" for a
    using mem_expand_single_hop [of b ns es cs plan base a] plan(4) by (simp add: peer_matches_meets flip: view_def)
  note expand = mem_expand_single [OF plan(2,3), of b view base tr] hop
  have "b \<in> set (fst (expand_pattern view plan ([base], tr))) \<longleftrightarrow>
      (\<exists>e \<in> set es. passes view f e \<and> meets_at view (fst (hop_checks sc ec)) (from_end ?dir e) \<and> meets_at view (snd (hop_checks sc ec)) (to_end ?dir e) \<and>
        b = match_binding start rel end_node (from_end ?dir e) e (to_end ?dir e) base)"
    using ends
  proof
    assume e: "start_is_anchor sc ec \<and> pl_direction plan = ?dir \<and> pl_anchor plan = anchor_set_of (fst sc) (snd sc) \<and>
      (pl_peer_props plan, pl_peer_kinds plan) = ec \<and> pl_anchor_var plan = nd_var start \<and> pl_peer_var plan = nd_var end_node"
    then have "single_hop_binding plan base s \<lparr>er_edge = e, er_peer = d\<rparr> = match_binding start rel end_node s e d base" for s e d
      using single_hop_binding_start plan by blast
    then show ?thesis
      unfolding expand using e anchor_ids_checks [OF dense] meets_at_bound by (auto simp: hop_checks_def)
  next
    assume e: "\<not> start_is_anchor sc ec \<and> pl_direction plan = direction_reverse ?dir \<and> pl_anchor plan = anchor_set_of (fst ec) (snd ec) \<and>
      (pl_peer_props plan, pl_peer_kinds plan) = sc \<and> pl_anchor_var plan = nd_var end_node \<and> pl_peer_var plan = nd_var start"
    then have "single_hop_binding plan base d \<lparr>er_edge = e, er_peer = s\<rparr> = match_binding start rel end_node s e d base" for s e d
      using single_hop_binding_end [OF plan(5,6) _ _ vars wf] by blast
    then show ?thesis
      unfolding expand using e anchor_ids_checks [OF dense] meets_at_bound by (auto simp: direction_ends hop_checks_def)
  qed
  then show ?thesis using plan(1) by (intro exI [of _ plan]) (simp add: lower_pattern_chain_def Let_def)
qed

subsection \<open>Chains read from their end\<close>

lemma neighbors_reverse:
  assumes "r \<in> set (neighbors (graph_view_new ns es cs) u dir f)" "er_peer r < length ns"
  shows "\<lparr>er_edge = er_edge r, er_peer = u\<rparr> \<in> set (neighbors (graph_view_new ns es cs) (er_peer r) (direction_reverse dir) f)"
  using assms by (auto simp: neighbors_new direction_ends image_iff split: if_splits)

lemma neighbors_bound: "r \<in> set (neighbors (graph_view_new ns es cs) u dir f) \<Longrightarrow> u < length ns"
  by (simp add: neighbors_new split: if_splits)

lemma edge_walk_reverse:
  assumes "edge_walk w (graph_view_new ns es cs) dir s p d"
  shows "edge_walk w (graph_view_new ns es cs) (direction_reverse dir) d (rev p) s"
  using assms
proof (induction rule: edge_walk.induct)
  case ew_nil
  show ?case by (simp add: edge_walk.ew_nil)
next
  case (ew_snoc p u r)
  let ?view = "graph_view_new ns es cs"
  have n: "node_count ?view = length ns" by (simp add: node_count_def graph_view_new_fields)
  have "\<lparr>er_edge = er_edge r, er_peer = u\<rparr> \<in> set (neighbors ?view (er_peer r) (direction_reverse dir) (pw_filter w))"
    using neighbors_reverse [OF ew_snoc.hyps(2)] ew_snoc.hyps(3) by (simp add: n)
  moreover have "edge_path w ?view (direction_reverse dir) u (rev p) s" using ew_snoc.IH by (simp add: edge_path_walk)
  moreover have "u < node_count ?view" using neighbors_bound [OF ew_snoc.hyps(2)] by (simp add: n)
  ultimately have "edge_path w ?view (direction_reverse dir) (er_peer r) (er_edge r # rev p) s"
    by (auto intro!: bexI [of _ "\<lparr>er_edge = er_edge r, er_peer = u\<rparr>"])
  then show ?case by (simp add: edge_path_walk)
qed

lemma reverse_reverse [simp]: "direction_reverse (direction_reverse dir) = dir"
  by (cases dir) simp_all

lemma edge_walk_reverse_iff:
  "(\<exists>p. length p = k \<and> edge_walk w (graph_view_new ns es cs) (direction_reverse dir) d p s) \<longleftrightarrow>
   (\<exists>p. length p = k \<and> edge_walk w (graph_view_new ns es cs) dir s p d)"
  using edge_walk_reverse [of w ns es cs "direction_reverse dir" d _ s] edge_walk_reverse [of w ns es cs dir s _ d]
  by (metis length_rev reverse_reverse)

subsection \<open>Variable length\<close>

lemma upgrade_some [simp]: "upgrade_truncation tr reason \<noteq> None" "None \<noteq> upgrade_truncation tr reason"
  by (cases tr; cases "the tr"; simp)+

definition peer_binding :: "pattern_plan \<Rightarrow> binding \<Rightarrow> node_id \<Rightarrow> node_id \<Rightarrow> binding" where
  "peer_binding plan base a n = bind_node (pl_peer_var plan) n (bind_node (pl_anchor_var plan) a base)"

lemma expand_peers_sound:
  "set (fst (expand_peers plan base a goals nodes (out, tr))) \<subseteq> set out \<union> peer_binding plan base a ` (set goals \<inter> set nodes)"
proof (induction nodes arbitrary: out)
  case (Cons n nodes)
  show ?case
    using Cons.IH [of out] Cons.IH [of "out @ [peer_binding plan base a n]"] by (auto simp: peer_binding_def)
qed simp

lemma expand_peers_full:
  "snd (expand_peers plan base a goals nodes (out, tr)) = None \<Longrightarrow>
    tr = None \<and> set (fst (expand_peers plan base a goals nodes (out, tr))) =
      set out \<union> peer_binding plan base a ` (set goals \<inter> set nodes)"
  by (induction nodes arbitrary: out) (auto simp: peer_binding_def split: if_splits)

definition far_nodes :: "graph_view \<Rightarrow> pattern_plan \<Rightarrow> nat \<Rightarrow> nat option \<Rightarrow> node_id \<Rightarrow> node_id set" where
  "far_nodes view plan m mx a = set (peer_goal_ids view plan) \<inter> set (reachable_within (step_walker plan mx) view a (pl_direction plan) m)"

lemma expand_anchor_var_length:
  assumes "pl_cardinality plan = VarLength m mx" "pl_path_var plan = None"
  shows "set (fst (expand_anchor view plan base a (out, tr))) \<subseteq> set out \<union> peer_binding plan base a ` far_nodes view plan m mx a"
    and "snd (expand_anchor view plan base a (out, tr)) = None \<Longrightarrow> tr = None \<and>
      set (fst (expand_anchor view plan base a (out, tr))) = set out \<union> peer_binding plan base a ` far_nodes view plan m mx a"
  using assms expand_peers_sound [of plan base a "peer_goal_ids view plan" _ out tr]
    expand_peers_full [of plan base a "peer_goal_ids view plan" _ out tr]
  by (simp_all add: expand_anchor_def expand_var_length_def far_nodes_def Let_def)

lemma fold_var_length:
  assumes "pl_cardinality plan = VarLength m mx" "pl_path_var plan = None"
  shows "set (fst (fold (expand_anchor view plan base) as (out, tr))) \<subseteq>
      set out \<union> (\<Union>a \<in> set as. peer_binding plan base a ` far_nodes view plan m mx a) \<and>
    (snd (fold (expand_anchor view plan base) as (out, tr)) = None \<longrightarrow> tr = None \<and>
     set (fst (fold (expand_anchor view plan base) as (out, tr))) =
      set out \<union> (\<Union>a \<in> set as. peer_binding plan base a ` far_nodes view plan m mx a))"
proof (induction as arbitrary: out tr)
  case (Cons a as)
  obtain out' tr' where st: "expand_anchor view plan base a (out, tr) = (out', tr')" by fastforce
  note one = expand_anchor_var_length [OF assms, of view base a out tr, unfolded st fst_conv snd_conv]
  show ?case
    using Cons.IH [of out' tr'] one unfolding fold_Cons comp_apply st by (simp only: list.set UN_insert) blast
qed simp

lemma peer_goal_ids_checks:
  assumes "dense view"
  shows "n \<in> set (peer_goal_ids view plan) \<longleftrightarrow> meets_at view (goal_checks (pl_peer_props plan, pl_peer_kinds plan)) n"
proof (cases "name_prop (pl_peer_props plan, pl_peer_kinds plan)")
  case None
  have "n \<in> set (map n_id (gv_nodes view))" if "meets_at view (pl_peer_props plan, pl_peer_kinds plan) n"
    using meets_at_bound [OF that] assms by (simp add: dense_def)
  moreover have "peer_goal_ids view plan = filter (peer_matches view plan) (map n_id (gv_nodes view))"
    using None by (auto simp: peer_goal_ids_def name_prop_def Let_def split: option.splits cql_value.splits)
  ultimately show ?thesis using None by (auto simp: goal_checks_def peer_matches_meets)
next
  case (Some p)
  from name_prop_Some [OF this] obtain s where
    p: "List.find (\<lambda>p. npr_field p = FqnField) (pl_peer_props plan) = Some p" "p = \<lparr>npr_field = FqnField, npr_value = VStr s\<rparr>" by auto
  then show ?thesis using ids_filter [OF assms, of n "pattern_matches (name_pattern s)"] Some
    by (auto simp: peer_goal_ids_def goal_checks_def meets_at_def node_meets_def prop_matches_def resolve_symbol_def split: option.splits)
qed

lemma expand_pattern_base:
  "pl_anchor_bound_var plan = None \<Longrightarrow>
    expand_pattern view plan ([base], tr) = fold (expand_anchor view plan base) (anchor_ids view (pl_anchor plan)) ([], tr)"
  by (simp add: expand_pattern_def step_anchors_def)

text \<open>A chain of edges that a filter admits.\<close>

definition chain :: "graph_view \<Rightarrow> edge_filter \<Rightarrow> direction \<Rightarrow> node_id \<Rightarrow> edge_record list \<Rightarrow> node_id \<Rightarrow> bool" where
  "chain view f dir = edge_walk \<lparr>pw_filter = f, pw_max_depth = None, pw_max_paths = None, pw_max_steps = None\<rparr> view dir"

lemma edge_path_filter: "pw_filter w = pw_filter w' \<Longrightarrow> edge_path w view dir s p d = edge_path w' view dir s p d"
  by (induction p arbitrary: s) auto

lemma edge_walk_chain: "edge_walk w view dir s p d = chain view (pw_filter w) dir s p d"
  by (simp add: chain_def flip: edge_path_walk) (rule edge_path_filter, simp)

lemma mem_reachable_within:
  "d \<in> set (reachable_within (step_walker plan mx) view s dir m) \<longleftrightarrow>
    (\<exists>p. max 1 m \<le> length p \<and> length p \<le> effective_max_depth mx \<and> chain view (pl_filter plan) dir s p d)"
proof -
  have "d \<in> set (reachable_within (step_walker plan mx) view s dir m) \<longleftrightarrow>
      d \<in> set (layer_loop (effective_max_depth mx) (step_walker plan mx) view dir m 0 [s] [])"
    by (simp add: reachable_within_def step_walker_def)
  also have "\<dots> \<longleftrightarrow> (\<exists>j. 1 \<le> j \<and> j \<le> effective_max_depth mx \<and> m \<le> j \<and>
      (\<exists>p. length p = j \<and> chain view (pl_filter plan) dir s p d))"
    by (simp add: layer_loop_set walk_iff_edge_walk edge_walk_chain step_walker_def)
  finally show ?thesis by auto
qed

definition joined ::
  "graph_view \<Rightarrow> edge_filter \<Rightarrow> direction \<Rightarrow> nat \<Rightarrow> nat option \<Rightarrow> node_prop list \<times> symbol_kind list option \<Rightarrow>
    node_prop list \<times> symbol_kind list option \<Rightarrow> node_id \<Rightarrow> node_id \<Rightarrow> bool" where
  "joined view f dir m mx sc ec s d \<longleftrightarrow> meets_at view sc s \<and> meets_at view ec d \<and>
     (\<exists>p. max 1 m \<le> length p \<and> length p \<le> effective_max_depth mx \<and> chain view f dir s p d)"

lemma joined_reverse:
  "joined (graph_view_new ns es cs) f (direction_reverse dir) m mx ec sc d s \<longleftrightarrow> joined (graph_view_new ns es cs) f dir m mx sc ec s d"
proof -
  have "(\<exists>p. max 1 m \<le> length p \<and> length p \<le> effective_max_depth mx \<and> chain (graph_view_new ns es cs) f (direction_reverse dir) d p s) \<longleftrightarrow>
      (\<exists>k. max 1 m \<le> k \<and> k \<le> effective_max_depth mx \<and> (\<exists>p. length p = k \<and> chain (graph_view_new ns es cs) f (direction_reverse dir) d p s))"
    by auto
  also have "\<dots> \<longleftrightarrow> (\<exists>p. max 1 m \<le> length p \<and> length p \<le> effective_max_depth mx \<and> chain (graph_view_new ns es cs) f dir s p d)"
    unfolding chain_def edge_walk_reverse_iff by auto
  finally show ?thesis by (auto simp: joined_def)
qed

lemma match_var_length_mem:
  fixes ns es cs
  defines "view \<equiv> graph_view_new ns es cs"
  assumes dense: "dense view"
    and constraints: "node_constraints start = Inr sc" "node_constraints end_node = Inr ec"
    and rel: "rel_filter rel = Inr (f, invert)" "rl_var_len rel = Some v"
    and vars: "nd_var start \<noteq> nd_var end_node \<or> nd_var start = None" and wf: "bt_wf base"
  shows "\<exists>plan out tr. lower_pattern_chain \<lparr>pp_path_var = None, pp_start = start, pp_steps = [(rel, end_node)]\<rparr> = Inr [plan] \<and>
    expand_pattern view plan ([base], None) = (out, tr) \<and>
    (let matches = {bind_node (nd_var end_node) d (bind_node (nd_var start) s base) | s d.
        joined view f (walk_direction (rl_direction rel) invert) (case vl_min v of Some n \<Rightarrow> n | None \<Rightarrow> 1) (vl_max v)
          (fst (length_checks sc ec)) (snd (length_checks sc ec)) s d}
     in set out \<subseteq> matches \<and> (tr \<noteq> None \<or> set out = matches))"
proof -
  let ?dir = "walk_direction (rl_direction rel) invert" and ?m = "case vl_min v of Some n \<Rightarrow> n | None \<Rightarrow> 1"
  obtain plan where plan: "lower_single None start rel end_node = Inr plan" "pl_cardinality plan = VarLength ?m (vl_max v)"
    "pl_anchor_bound_var plan = None" "pl_filter plan = f" "pl_path_var plan = None"
    and ends: "(start_is_anchor sc ec \<and> pl_direction plan = ?dir \<and> pl_anchor plan = anchor_set_of (fst sc) (snd sc) \<and>
      (pl_peer_props plan, pl_peer_kinds plan) = ec \<and> pl_anchor_var plan = nd_var start \<and> pl_peer_var plan = nd_var end_node) \<or>
     (\<not> start_is_anchor sc ec \<and> pl_direction plan = direction_reverse ?dir \<and> pl_anchor plan = anchor_set_of (fst ec) (snd ec) \<and>
      (pl_peer_props plan, pl_peer_kinds plan) = sc \<and> pl_anchor_var plan = nd_var end_node \<and> pl_peer_var plan = nd_var start)"
    using lower_single_plan [OF constraints(1,2) rel(1)] rel(2) by (auto simp: cardinality_of_def)
  obtain out tr where out: "expand_pattern view plan ([base], None) = (out, tr)" by fastforce
  let ?all = "\<Union>a \<in> set (anchor_ids view (pl_anchor plan)). peer_binding plan base a ` far_nodes view plan ?m (vl_max v) a"
  have res: "set out \<subseteq> ?all \<and> (tr \<noteq> None \<or> set out = ?all)"
    using fold_var_length [OF plan(2,5), of view base "anchor_ids view (pl_anchor plan)" "[]" None] out
    unfolding expand_pattern_base [OF plan(3)] by (cases tr) simp_all
  note goal = peer_goal_ids_checks [OF dense, of _ plan]
  have "?all = {bind_node (nd_var end_node) d (bind_node (nd_var start) s base) | s d. joined view f ?dir ?m (vl_max v) (fst (length_checks sc ec)) (snd (length_checks sc ec)) s d}"
    using ends
  proof
    assume e: "start_is_anchor sc ec \<and> pl_direction plan = ?dir \<and> pl_anchor plan = anchor_set_of (fst sc) (snd sc) \<and>
      (pl_peer_props plan, pl_peer_kinds plan) = ec \<and> pl_anchor_var plan = nd_var start \<and> pl_peer_var plan = nd_var end_node"
    then have "a \<in> set (anchor_ids view (pl_anchor plan)) \<and> n \<in> far_nodes view plan ?m (vl_max v) a \<longleftrightarrow>
        joined view f ?dir ?m (vl_max v) (fst (length_checks sc ec)) (snd (length_checks sc ec)) a n" for a n
      using anchor_ids_checks [OF dense] plan(4) goal by (simp add: far_nodes_def mem_reachable_within joined_def length_checks_def)
    then have "?all = {peer_binding plan base s d | s d. joined view f ?dir ?m (vl_max v) (fst (length_checks sc ec)) (snd (length_checks sc ec)) s d}" by blast
    then show ?thesis using e by (simp add: peer_binding_def)
  next
    assume e: "\<not> start_is_anchor sc ec \<and> pl_direction plan = direction_reverse ?dir \<and> pl_anchor plan = anchor_set_of (fst ec) (snd ec) \<and>
      (pl_peer_props plan, pl_peer_kinds plan) = sc \<and> pl_anchor_var plan = nd_var end_node \<and> pl_peer_var plan = nd_var start"
    then have "a \<in> set (anchor_ids view (pl_anchor plan)) \<and> n \<in> far_nodes view plan ?m (vl_max v) a \<longleftrightarrow>
        joined view f (direction_reverse ?dir) ?m (vl_max v) (snd (length_checks sc ec)) (fst (length_checks sc ec)) a n" for a n
      using anchor_ids_checks [OF dense] plan(4) goal by (simp add: far_nodes_def mem_reachable_within joined_def length_checks_def)
    then have "?all = {peer_binding plan base d s | s d. joined view f (direction_reverse ?dir) ?m (vl_max v) (snd (length_checks sc ec)) (fst (length_checks sc ec)) d s}" by blast
    then show ?thesis unfolding view_def joined_reverse using e bind_node_twist [OF vars wf] by (simp add: peer_binding_def)
  qed
  then show ?thesis using plan(1) out res by (intro exI [of _ plan] exI [of _ out] exI [of _ tr]) (simp add: lower_pattern_chain_def Let_def)
qed

end
