(* ===== verification/Cql_Types.thy ===== *)
theory Cql_Types
  imports Cql_Meaning
begin

text \<open>
  Types of the variables of a part: what the plans of its patterns record is what their expansion
  binds, and an expression that passes the checks and stays in the safe fragment has a value.
\<close>

subsection \<open>Typed bindings\<close>

definition path_in_view :: "graph_view \<Rightarrow> path_value \<Rightarrow> bool" where
  "path_in_view view p \<longleftrightarrow>
     (\<forall>n \<in> set (pv_nodes p). n < node_count view) \<and> (\<forall>e \<in> set (pv_edges p). e < length (gv_edges view))"

fun has_type :: "graph_view \<Rightarrow> var_type \<Rightarrow> cql_value \<Rightarrow> bool" where
  "has_type view NodeVar (VNode n) \<longleftrightarrow> n < node_count view"
| "has_type view EdgeVar (VEdge e) \<longleftrightarrow> e < length (gv_edges view)"
| "has_type view PathVar (VPath p) \<longleftrightarrow> path_in_view view p"
| "has_type view ty v \<longleftrightarrow> False"

lemma has_type_iff:
  "has_type view NodeVar v \<longleftrightarrow> (\<exists>n. v = VNode n \<and> n < node_count view)"
  "has_type view EdgeVar v \<longleftrightarrow> (\<exists>e. v = VEdge e \<and> e < length (gv_edges view))"
  "has_type view PathVar v \<longleftrightarrow> (\<exists>p. v = VPath p \<and> path_in_view view p)"
  by (cases v; simp)+

text \<open>A path variable is bound; a node or a relationship may be missing, and reads as null.\<close>

definition well_typed :: "graph_view \<Rightarrow> var_types \<Rightarrow> binding \<Rightarrow> bool" where
  "well_typed view types b \<longleftrightarrow>
     (\<forall>x ty. map_of types x = Some ty \<longrightarrow>
       (case map_of b x of Some v \<Rightarrow> has_type view ty v | None \<Rightarrow> ty \<noteq> PathVar))"

lemma well_typed_node:
  "well_typed view types b \<Longrightarrow> map_of types x = Some NodeVar \<Longrightarrow>
    map_of b x = None \<or> (\<exists>n. map_of b x = Some (VNode n) \<and> n < node_count view)"
  unfolding well_typed_def by (drule spec [of _ x], drule spec [of _ NodeVar]) (auto simp: has_type_iff split: option.splits)

lemma well_typed_edge:
  "well_typed view types b \<Longrightarrow> map_of types x = Some EdgeVar \<Longrightarrow>
    map_of b x = None \<or> (\<exists>e. map_of b x = Some (VEdge e) \<and> e < length (gv_edges view))"
  unfolding well_typed_def by (drule spec [of _ x], drule spec [of _ EdgeVar]) (auto simp: has_type_iff split: option.splits)

lemma well_typed_path:
  "well_typed view types b \<Longrightarrow> map_of types x = Some PathVar \<Longrightarrow> \<exists>p. map_of b x = Some (VPath p) \<and> path_in_view view p"
  unfolding well_typed_def by (drule spec [of _ x], drule spec [of _ PathVar]) (auto simp: has_type_iff split: option.splits)

lemma map_of_with_element:
  "map_of (with_element types var ty) x = (if x = var then ty else map_of types x)"
proof (cases ty)
  case None
  have "map_of (filter (\<lambda>(k, _). k \<noteq> var) types) x = (if x = var then None else map_of types x)"
    by (induction types) auto
  then show ?thesis using None by (simp add: with_element_def)
qed (simp add: with_element_def map_of_bt_insert)

lemma well_typed_element:
  assumes "well_typed view types b" "ty = None \<or> has_type view (the ty) v"
  shows "well_typed view (with_element types var ty) (bt_insert var v b)"
  using assms by (auto simp: well_typed_def map_of_with_element map_of_bt_insert)

subsection \<open>The safe fragment\<close>

fun path_args :: "var_types \<Rightarrow> expr list \<Rightarrow> bool" where
  "path_args types [EProperty x []] \<longleftrightarrow> map_of types (sv_value x) = Some PathVar"
| "path_args types _ \<longleftrightarrow> False"

lemma path_args_iff: "path_args types args \<longleftrightarrow> (\<exists>x. args = [EProperty x []] \<and> map_of types (sv_value x) = Some PathVar)"
  by (cases "(types, args)" rule: path_args.cases) auto

definition path_call :: "var_types \<Rightarrow> string list \<Rightarrow> expr \<Rightarrow> bool" where
  "path_call types fnames e = (case e of ECall name args \<Rightarrow> sv_value name \<in> set fnames \<and> path_args types args | _ \<Rightarrow> False)"

abbreviation elements_call :: "var_types \<Rightarrow> expr \<Rightarrow> bool" where
  "elements_call types e \<equiv> path_call types [''nodes'', ''relationships''] e"

fun safe_expr :: "var_types \<Rightarrow> expr \<Rightarrow> bool" where
  "safe_expr types (ELiteral v) = True"
| "safe_expr types (EProperty x segments) =
     (segments = [] \<or> map_of types (sv_value x) = Some NodeVar \<or> map_of types (sv_value x) = Some EdgeVar)"
| "safe_expr types (ENot e) = safe_expr types e"
| "safe_expr types (EBinary op l r sp) =
     (safe_expr types l \<and> safe_expr types r \<and> (op \<noteq> BIn \<or> elements_call types r \<or> (case r of EListComp _ _ _ _ \<Rightarrow> True | _ \<Rightarrow> False)))"
| "safe_expr types (ECall name args) =
     path_call types [''nodes'', ''relationships'', ''length'', ''last_node''] (ECall name args)"
| "safe_expr types (EListComp var list filt proj) =
     (elements_call types list \<and>
      (let scoped = with_element types var (element_type list) in
       (case filt of Some f \<Rightarrow> safe_expr scoped f | None \<Rightarrow> True) \<and> safe_expr scoped proj))"
| "safe_expr types (EQuantifier kind var list p) =
     (elements_call types list \<and> safe_expr (with_element types var (element_type list)) p)"
| "safe_expr types (EPattern negated pat) = (case lower_pattern pat of Inr _ \<Rightarrow> True | Inl _ \<Rightarrow> False)"

lemma path_callD:
  assumes "path_call types fnames e"
  shows "\<exists>name x. e = ECall name [EProperty x []] \<and> sv_value name \<in> set fnames \<and> map_of types (sv_value x) = Some PathVar"
  using assms by (auto simp: path_call_def path_args_iff split: expr.splits)

lemma path_call_value:
  assumes "path_call types fnames e" "well_typed view types b"
  shows "\<exists>name x p. e = ECall name [EProperty x []] \<and> sv_value name \<in> set fnames \<and> path_in_view view p \<and>
    expect_path_arg fname (map (\<lambda>e. eval_expr inventory view e b) [EProperty x []]) = Inr p"
proof -
  obtain name x where e: "e = ECall name [EProperty x []]" "sv_value name \<in> set fnames" "map_of types (sv_value x) = Some PathVar"
    using path_callD [OF assms(1)] by blast
  obtain p where p: "map_of b (sv_value x) = Some (VPath p)" "path_in_view view p" using well_typed_path [OF assms(2) e(3)] by blast
  then show ?thesis using e by (intro exI conjI) (auto simp: expect_path_arg_def eval_property_def)
qed

lemma elements_call_value:
  assumes "elements_call types e" "well_typed view types b"
  shows "\<exists>vs ty. eval_expr inventory view e b = Inr (VList vs) \<and> element_type e = Some ty \<and> (\<forall>v \<in> set vs. has_type view ty v)"
proof -
  obtain name x where e: "e = ECall name [EProperty x []]" "sv_value name = ''nodes'' \<or> sv_value name = ''relationships''"
    "map_of types (sv_value x) = Some PathVar" using path_callD [OF assms(1)] by auto
  obtain p where p: "map_of b (sv_value x) = Some (VPath p)" "path_in_view view p" using well_typed_path [OF assms(2) e(3)] by blast
  show ?thesis using e(2)
  proof
    assume "sv_value name = ''nodes''"
    then show ?thesis using e(1) p by (auto simp: eval_function_def expect_path_arg_def eval_property_def element_type_def path_in_view_def)
  next
    assume "sv_value name = ''relationships''"
    then show ?thesis using e(1) p by (auto simp: eval_function_def expect_path_arg_def eval_property_def element_type_def path_in_view_def)
  qed
qed

lemma try_fold_total:
  assumes "\<And>x s. x \<in> set xs \<Longrightarrow> \<exists>t. f x s = Inr t"
  shows "\<exists>t. try_fold f xs s = Inr t"
  using assms
proof (induction xs arbitrary: s)
  case (Cons x xs)
  obtain t where "f x s = Inr t" using Cons.prems [of x s] by auto
  then show ?case using Cons.IH [of t] Cons.prems by simp
qed simp

lemma eval_property_total:
  assumes "validate_property x segments types = Inr ()" "safe_expr types (EProperty x segments)" "well_typed view types b"
  shows "\<exists>v. eval_property view x segments b = Inr v"
proof (cases segments)
  case (Cons seg rest)
  then have one: "segments = [seg]" using assms(1) by (cases rest) (simp_all add: validate_property_def)
  from assms(2) have "map_of types (sv_value x) = Some NodeVar \<or> map_of types (sv_value x) = Some EdgeVar" by (simp add: one)
  then show ?thesis
  proof
    assume ty: "map_of types (sv_value x) = Some NodeVar"
    then obtain field where "node_field_from_name (sv_value seg) (sv_span seg) = Inr field"
      using assms(1) by (auto simp: validate_property_def one try_bind_Inr)
    then show ?thesis using well_typed_node [OF assms(3) ty] by (auto simp: one eval_property_def try_node_def node_count_def)
  next
    assume ty: "map_of types (sv_value x) = Some EdgeVar"
    then obtain field where "edge_field_from_name (sv_value seg) (sv_span seg) = Inr field"
      using assms(1) by (auto simp: validate_property_def one try_bind_Inr)
    then show ?thesis using well_typed_edge [OF assms(3) ty] by (auto simp: one eval_property_def view_edge_def)
  qed
qed (simp add: eval_property_def)

lemma eval_list_comp_total:
  assumes "list = Inr (VList vs)"
    and "\<And>v. v \<in> set vs \<Longrightarrow> (\<forall>f. filt = Some f \<longrightarrow> (\<exists>c. f (bt_insert var v b) = Inr c)) \<and> (\<exists>u. proj (bt_insert var v b) = Inr u)"
  shows "\<exists>us. eval_list_comp var list filt proj b = Inr (VList us)"
proof -
  have "\<exists>out'. comp_step var filt proj b v out = Inr out'" if "v \<in> set vs" for v out
    using assms(2) [OF that] by (auto simp: comp_step_def Let_def split: option.splits)
  then obtain out where "try_fold (comp_step var filt proj b) vs [] = Inr out" using try_fold_total by meson
  then show ?thesis using assms(1) by (simp add: eval_list_comp_def expect_list_def)
qed

lemma eval_quantifier_total:
  assumes "list = Inr (VList vs)" "\<And>v. v \<in> set vs \<Longrightarrow> \<exists>c. p (bt_insert var v b) = Inr c"
  shows "\<exists>v. eval_quantifier kind var list p b = Inr v"
proof -
  let ?step = "\<lambda>item (any, all). try_bind (p (bt_insert var item b)) (\<lambda>c. Inr (any \<or> is_truthy c, all \<and> is_truthy c))"
  have "\<exists>t. ?step v s = Inr t" if "v \<in> set vs" for v s using assms(2) [OF that] by (cases s) auto
  then obtain s where "try_fold ?step vs (False, True) = Inr s" using try_fold_total [of vs ?step] by blast
  then show ?thesis using assms(1) by (cases s) (simp add: eval_quantifier_def expect_list_def)
qed

lemma eval_binary_total:
  assumes "l = Inr v" "r = Inr w" "op \<noteq> BIn \<or> (\<exists>ws. w = VList ws)"
  shows "\<exists>u. eval_binary op l r = Inr u"
  using assms by (cases op) (auto simp: eval_binary_def)

lemma eval_expr_total:
  "validate_expr e types = Inr () \<Longrightarrow> safe_expr types e \<Longrightarrow> well_typed view types b \<Longrightarrow> \<exists>v. eval_expr inventory view e b = Inr v"
proof (induction e arbitrary: types b)
  case (ELiteral v)
  then show ?case by simp
next
  case (EProperty x segments)
  then show ?case using eval_property_total by simp
next
  case (ECall name args)
  have "path_call types [''nodes'', ''relationships'', ''length'', ''last_node''] (ECall name args)" using ECall.prems(2) by simp
  from path_call_value [OF this ECall.prems(3), of "sv_value name" inventory]
  show ?case by (auto simp: eval_function_def)
next
  case (EListComp var list filt proj)
  obtain vs ty where vs: "eval_expr inventory view list b = Inr (VList vs)" "element_type list = Some ty" "\<forall>v \<in> set vs. has_type view ty v"
    using elements_call_value [of types list view b inventory] EListComp.prems(2,3) by auto
  let ?types = "with_element types var (element_type list)"
  have scoped: "well_typed view ?types (bt_insert var v b)" if "v \<in> set vs" for v
    using well_typed_element [OF EListComp.prems(3)] vs that by simp
  have valid: "filt = Some f \<Longrightarrow> validate_expr f ?types = Inr ()" "validate_expr proj ?types = Inr ()"
    and safe: "filt = Some f \<Longrightarrow> safe_expr ?types f" "safe_expr ?types proj" for f
    using EListComp.prems(1,2) by (auto simp: Let_def try_bind_Inr)
  have "\<exists>c. eval_expr inventory view f (bt_insert var v b) = Inr c" if "v \<in> set vs" "filt = Some f" for v f
    using EListComp.IH(2) [OF _ valid(1) safe(1) scoped [OF that(1)], of f] that(2) by simp
  moreover have "\<exists>u. eval_expr inventory view proj (bt_insert var v b) = Inr u" if "v \<in> set vs" for v
    using EListComp.IH(3) [OF valid(2) safe(2) scoped [OF that]] .
  ultimately have "\<exists>us. eval_list_comp var (eval_expr inventory view list b) (map_option (eval_expr inventory view) filt)
      (eval_expr inventory view proj) b = Inr (VList us)"
    by (intro eval_list_comp_total [OF vs(1)]) auto
  then show ?case by auto
next
  case (EQuantifier kind var list p)
  obtain vs ty where vs: "eval_expr inventory view list b = Inr (VList vs)" "element_type list = Some ty" "\<forall>v \<in> set vs. has_type view ty v"
    using elements_call_value [of types list view b inventory] EQuantifier.prems(2,3) by auto
  let ?types = "with_element types var (element_type list)"
  have "\<exists>c. eval_expr inventory view p (bt_insert var v b) = Inr c" if "v \<in> set vs" for v
  proof (rule EQuantifier.IH(2))
    show "validate_expr p ?types = Inr ()" "safe_expr ?types p" using EQuantifier.prems(1,2) by (auto simp: try_bind_Inr)
    show "well_typed view ?types (bt_insert var v b)" using well_typed_element [OF EQuantifier.prems(3)] vs that by simp
  qed
  then show ?case using eval_quantifier_total [OF vs(1)] by simp
next
  case (EPattern negated pat)
  then show ?case by (auto simp: pattern_exists_def Let_def split: sum.splits)
next
  case (EBinary op l r sp)
  have ok: "validate_expr l types = Inr ()" "validate_expr r types = Inr ()" "safe_expr types l" "safe_expr types r"
    using EBinary.prems(1,2) by (auto simp: try_bind_Inr)
  obtain v where v: "eval_expr inventory view l b = Inr v" using EBinary.IH(1) ok EBinary.prems(3) by blast
  obtain w where w: "eval_expr inventory view r b = Inr w" using EBinary.IH(2) ok EBinary.prems(3) by blast
  have "op \<noteq> BIn \<or> (\<exists>ws. w = VList ws)"
  proof (cases "elements_call types r")
    case True
    then show ?thesis using elements_call_value [OF True EBinary.prems(3), of inventory] w by auto
  next
    case False
    then show ?thesis using EBinary.prems(2) w
      by (auto simp: eval_list_comp_def try_bind_Inr split: expr.splits)
  qed
  then show ?case using eval_binary_total [OF v w] by simp
next
  case (ENot e)
  then obtain v where "eval_expr inventory view e b = Inr v" by (metis safe_expr.simps(3) validate_expr.simps(3))
  then show ?case by simp
qed

subsection \<open>What the expansion of a pattern binds\<close>

definition agrees_var :: "var_types \<Rightarrow> string option \<Rightarrow> var_type \<Rightarrow> bool" where
  "agrees_var types var ty \<longleftrightarrow> (case var of Some v \<Rightarrow> map_of types v = Some ty | None \<Rightarrow> True)"

definition plan_agrees :: "var_types \<Rightarrow> pattern_plan \<Rightarrow> bool" where
  "plan_agrees types plan \<longleftrightarrow>
     agrees_var types (pl_anchor_var plan) NodeVar \<and> agrees_var types (pl_peer_var plan) NodeVar \<and>
     agrees_var types (pl_rel_var plan) EdgeVar \<and> agrees_var types (pl_path_var plan) PathVar"

definition numbered :: "graph_view \<Rightarrow> bool" where
  "numbered view \<longleftrightarrow> map e_id (gv_edges view) = [0..<length (gv_edges view)]"

definition typed_values :: "graph_view \<Rightarrow> var_types \<Rightarrow> binding \<Rightarrow> bool" where
  "typed_values view types b \<longleftrightarrow> (\<forall>x ty v. map_of types x = Some ty \<longrightarrow> map_of b x = Some v \<longrightarrow> has_type view ty v)"

lemma typed_values_insert:
  "typed_values view types b \<Longrightarrow> map_of types x = Some ty \<Longrightarrow> has_type view ty v \<Longrightarrow> typed_values view types (bt_insert x v b)"
  by (auto simp: typed_values_def map_of_bt_insert)

lemma typed_values_bind_node:
  "typed_values view types b \<Longrightarrow> agrees_var types var NodeVar \<Longrightarrow> n < node_count view \<Longrightarrow> typed_values view types (bind_node var n b)"
  by (auto simp: bind_node_def agrees_var_def intro: typed_values_insert split: option.splits)

lemma edge_id_bound: "numbered view \<Longrightarrow> e \<in> set (gv_edges view) \<Longrightarrow> e_id e < length (gv_edges view)"
  unfolding numbered_def by (metis atLeastLessThan_iff image_eqI image_set set_upt)

lemma keys_bind_node: "set (map fst b) \<subseteq> set (map fst (bind_node var n b))"
  by (auto simp: bind_node_def keys_bt_insert simp del: set_map split: option.split)

text \<open>A binding that a plan makes of \<open>base\<close>.\<close>

definition extends :: "graph_view \<Rightarrow> var_types \<Rightarrow> pattern_plan \<Rightarrow> binding \<Rightarrow> binding \<Rightarrow> bool" where
  "extends view types plan base b \<longleftrightarrow> typed_values view types b \<and> set (map fst base) \<subseteq> set (map fst b) \<and>
     (case pl_path_var plan of Some v \<Rightarrow> v \<in> set (map fst b) | None \<Rightarrow> True)"

lemma extends_peer:
  assumes "typed_values view types base" "plan_agrees types plan" "a < node_count view" "n < node_count view"
  shows "typed_values view types (peer_binding plan base a n) \<and> set (map fst base) \<subseteq> set (map fst (peer_binding plan base a n))"
  unfolding peer_binding_def using assms keys_bind_node
  by (meson order_trans plan_agrees_def typed_values_bind_node)

lemma extends_path:
  assumes "typed_values view types b" "set (map fst base) \<subseteq> set (map fst b)" "plan_agrees types plan"
    "pl_path_var plan = Some pv" "path_in_view view p"
  shows "extends view types plan base (bt_insert pv (VPath p) b)"
  using assms typed_values_insert [of view types b pv PathVar "VPath p"]
  by (auto simp: extends_def plan_agrees_def agrees_var_def keys_bt_insert simp del: set_map)

lemma extends_single_hop:
  assumes base: "typed_values view types base" and plan: "plan_agrees types plan" and a: "a < node_count view"
    and er: "er \<in> set (neighbors view a dir f)" "peer_matches view plan (er_peer er)" and num: "numbered view"
  shows "extends view types plan base (single_hop_binding plan base a er)"
proof -
  have n: "er_peer er < node_count view" using er(2) meets_at_bound by (simp add: peer_matches_meets)
  have e: "e_id (er_edge er) < length (gv_edges view)" using neighbor_edges [OF er(1)] edge_id_bound [OF num] by blast
  let ?b = "peer_binding plan base a (er_peer er)"
  let ?c = "case pl_rel_var plan of Some rv \<Rightarrow> bt_insert rv (VEdge (e_id (er_edge er))) ?b | None \<Rightarrow> ?b"
  have b: "typed_values view types ?b" "set (map fst base) \<subseteq> set (map fst ?b)" using extends_peer [OF base plan a n] by simp_all
  have c: "typed_values view types ?c" "set (map fst base) \<subseteq> set (map fst ?c)"
    using b plan e by (auto simp: plan_agrees_def agrees_var_def keys_bt_insert simp del: set_map split: option.split intro!: typed_values_insert)
  have eq: "single_hop_binding plan base a er =
      (case pl_path_var plan of Some pv \<Rightarrow> bt_insert pv (VPath \<lparr>pv_nodes = [a, er_peer er], pv_edges = [e_id (er_edge er)]\<rparr>) ?c | None \<Rightarrow> ?c)"
    unfolding single_hop_binding_def peer_binding_def Let_def by (rule refl)
  show ?thesis
  proof (cases "pl_path_var plan")
    case None
    then show ?thesis using c eq by (simp add: extends_def)
  next
    case (Some pv)
    have "path_in_view view \<lparr>pv_nodes = [a, er_peer er], pv_edges = [e_id (er_edge er)]\<rparr>" using a n e by (simp add: path_in_view_def)
    then show ?thesis using extends_path [OF c plan Some] eq Some by simp
  qed
qed

lemma trails_paths:
  assumes "steps \<in> set (pe_paths (enumerate_trails (step_walker plan mx) view a goal dir))"
  shows "\<exists>p. steps = start_step a # walk_steps dir False p \<and> p \<noteq> [] \<and> edge_path (step_walker plan mx) view dir a p goal"
proof -
  have cap: "0 < path_cap (step_walker plan mx)" by (simp add: path_cap_def step_walker_def default_max_paths_def)
  have "set (pe_paths (enumerate_trails (step_walker plan mx) view a goal dir)) \<subseteq> set (all_paths (step_walker plan mx) view a goal dir Trail)"
    proof -
    obtain st where st: "enumerate_dfs (step_walker plan mx) view a goal dir Trail = \<lparr>pe_paths = df_paths st, pe_truncation = df_truncation st\<rparr>"
      and post: "dfs_post (step_walker plan mx) \<lparr>df_paths = [], df_steps = 0, df_truncation = None\<rparr>
        (all_paths (step_walker plan mx) view a goal dir Trail) st"
      using enumerate_dfs_post [OF cap, of view a goal dir Trail] by blast
    have "prefix (df_paths st) (all_paths (step_walker plan mx) view a goal dir Trail)" using post by (auto simp: dfs_post_def)
    then show ?thesis using set_mono_prefix by (simp add: enumerate_trails_def st)
  qed
  then show ?thesis using assms by (auto simp: all_trails_set)
qed

lemma edge_path_edges: "edge_path w view dir u p v \<Longrightarrow> set p \<subseteq> set (gv_edges view)"
  by (induction p arbitrary: u) (auto dest: neighbor_edges)

lemma trail_path_value: "trail_path (start_step a # walk_steps dir x p) = \<lparr>pv_nodes = a # map (to_end dir) p, pv_edges = map e_id p\<rparr>"
proof -
  have "List.map_filter (\<lambda>s. map_option e_id (ws_via s)) (walk_steps dir x p) = map e_id p" for x
    by (induction p arbitrary: x) (simp_all add: map_filter_simps)
  then show ?thesis by (simp add: trail_path_def start_step_def walk_steps_nodes map_filter_simps)
qed

lemma extends_trail:
  assumes base: "typed_values view types base" and plan: "plan_agrees types plan" "pl_path_var plan = Some pv"
    and ids: "a < node_count view" "goal < node_count view" and num: "numbered view"
    and b: "b \<in> set (trail_bindings plan pv base a m goal (pe_paths (enumerate_trails (step_walker plan mx) view a goal dir)))"
  shows "extends view types plan base b"
proof -
  obtain steps where steps: "steps \<in> set (pe_paths (enumerate_trails (step_walker plan mx) view a goal dir))"
    "b = bt_insert pv (VPath (trail_path steps)) (peer_binding plan base a goal)"
    using b by (auto simp: trail_bindings_def peer_binding_def)
  obtain p where p: "steps = start_step a # walk_steps dir False p" "edge_path (step_walker plan mx) view dir a p goal"
    using trails_paths [OF steps(1)] by blast
  have "path_in_view view (trail_path steps)"
    using ids(1) edge_path_bound [OF p(2)] edge_path_edges [OF p(2)] edge_id_bound [OF num]
    by (auto simp: path_in_view_def p(1) trail_path_value)
  then show ?thesis using extends_path extends_peer [OF base plan(1) ids] plan steps(2) by blast
qed

lemma fold_stream:
  assumes "\<And>x st b. x \<in> set xs \<Longrightarrow> b \<in> set (fst (f x st)) \<Longrightarrow> b \<in> set (fst st) \<or> P b"
  shows "b \<in> set (fst (fold f xs st)) \<Longrightarrow> b \<in> set (fst st) \<or> P b"
  using assms
proof (induction xs arbitrary: st)
  case (Cons x xs)
  have "b \<in> set (fst (f x st)) \<or> P b" by (rule Cons.IH) (use Cons.prems in auto)
  then show ?case using Cons.prems(2) [of x b st] by auto
qed simp

lemma dense_ids: "dense view \<Longrightarrow> n \<in> set (map n_id (gv_nodes view)) \<Longrightarrow> n < node_count view"
  unfolding dense_def by simp

lemma peer_goal_bound:
  assumes "dense view" "n \<in> set (peer_goal_ids view plan)"
  shows "n < node_count view"
proof -
  have "n \<in> set (map n_id (gv_nodes view))"
    using assms(2) by (auto simp: peer_goal_ids_def resolve_symbol_def Let_def split: option.splits cql_value.splits)
  then show ?thesis by (rule dense_ids [OF assms(1)])
qed

lemma anchor_bound:
  assumes "dense view" "n \<in> set (anchor_ids view anchor)"
  shows "n < node_count view"
proof -
  have "n \<in> set (map n_id (gv_nodes view))"
    using assms(2) by (auto simp: anchor_ids_def resolve_symbol_def nodes_of_kind_def split: anchor_set.splits)
  then show ?thesis by (rule dense_ids [OF assms(1)])
qed

lemma expand_anchor_extends:
  assumes base: "typed_values view types base" and plan: "plan_agrees types plan" and view: "dense view" "numbered view"
    and a: "a < node_count view" and b: "b \<in> set (fst (expand_anchor view plan base a st))"
  shows "b \<in> set (fst st) \<or> extends view types plan base b"
proof (cases "pl_cardinality plan")
  case SingleHop
  then show ?thesis using b extends_single_hop [OF base plan a _ _ view(2)]
    by (cases st) (auto simp: expand_anchor_def expand_single_hop_def)
next
  case (VarLength m mx)
  show ?thesis
  proof (cases "pl_path_var plan")
    case None
    have "b \<in> set (fst (expand_peers plan base a (peer_goal_ids view plan) (reachable_within (step_walker plan mx) view a (pl_direction plan) m) st))"
      using b VarLength None by (simp add: expand_anchor_def expand_var_length_def Let_def)
    then have "b \<in> set (fst st) \<or> (\<exists>n \<in> set (peer_goal_ids view plan). b = peer_binding plan base a n)"
      using expand_peers_sound [of plan base a "peer_goal_ids view plan" _ "fst st" "snd st"] by auto
    moreover have "extends view types plan base (peer_binding plan base a n)" if "n \<in> set (peer_goal_ids view plan)" for n
      using extends_peer [OF base plan a peer_goal_bound [OF view(1) that]] None by (simp add: extends_def)
    ultimately show ?thesis by auto
  next
    case (Some pv)
    have "b \<in> set (fst (fold (expand_goal view plan pv (step_walker plan mx) base a m) (peer_goal_ids view plan) st))"
      using b VarLength Some by (simp add: expand_anchor_def expand_var_length_def Let_def)
    then show ?thesis
    proof (rule fold_stream [rotated])
      fix goal st b
      assume "goal \<in> set (peer_goal_ids view plan)" "b \<in> set (fst (expand_goal view plan pv (step_walker plan mx) base a m goal st))"
      then show "b \<in> set (fst st) \<or> extends view types plan base b"
        using extends_trail [OF base plan Some a peer_goal_bound [OF view(1)] view(2)]
        by (cases st) (auto simp: expand_goal_def Let_def)
    qed
  qed
qed

lemma expand_pattern_extends:
  assumes plan: "plan_agrees types plan" "pl_anchor_bound_var plan = None \<or> pl_anchor_bound_var plan = pl_anchor_var plan"
    and view: "dense view" "numbered view" and input: "\<forall>base \<in> set input. typed_values view types base"
    and b: "b \<in> set (fst (expand_pattern view plan (input, tr)))"
  shows "\<exists>base \<in> set input. extends view types plan base b"
proof -
  have step: "b \<in> set (fst st) \<or> (\<exists>base \<in> set input. extends view types plan base b)"
    if base: "base \<in> set input" and "b \<in> set (fst (fold (expand_anchor view plan base) (step_anchors view plan base) st))" for base st b
    using that(2)
  proof (rule fold_stream [rotated])
    fix a st b
    assume a: "a \<in> set (step_anchors view plan base)" and mem: "b \<in> set (fst (expand_anchor view plan base a st))"
    have "a < node_count view"
    proof (cases "pl_anchor_bound_var plan")
      case None
      then show ?thesis using a anchor_bound [OF view(1)] by (simp add: step_anchors_def)
    next
      case (Some v)
      then have "pl_anchor_var plan = Some v" using plan(2) by simp
      then have "map_of types v = Some NodeVar" using plan(1) by (simp add: plan_agrees_def agrees_var_def)
      moreover have "map_of base v = Some (VNode a)"
        using a Some by (auto simp: step_anchors_def split: option.splits cql_value.splits)
      ultimately show ?thesis using input base by (fastforce simp: typed_values_def)
    qed
    then show "b \<in> set (fst st) \<or> (\<exists>base \<in> set input. extends view types plan base b)"
      using expand_anchor_extends [OF _ plan(1) view _ mem] input base by blast
  qed
  have "b \<in> set (fst (fold (\<lambda>base. fold (expand_anchor view plan base) (step_anchors view plan base)) input ([], tr)))"
    using b by (simp add: expand_pattern_def)
  from fold_stream [OF step this] show ?thesis by simp
qed

lemma fold_expand_typed:
  assumes view: "dense view" "numbered view"
    and plans: "\<forall>plan \<in> set plans. plan_agrees types plan \<and> (pl_anchor_bound_var plan = None \<or> pl_anchor_bound_var plan = pl_anchor_var plan)"
    and input: "\<forall>base \<in> set input. typed_values view types base \<and> vars \<subseteq> set (map fst base)"
    and b: "b \<in> set (fst (fold (expand_pattern view) plans (input, tr)))"
  shows "typed_values view types b \<and> vars \<subseteq> set (map fst b) \<and> (\<forall>plan \<in> set plans. \<forall>x. pl_path_var plan = Some x \<longrightarrow> x \<in> set (map fst b))"
  using plans input b
proof (induction plans arbitrary: input tr vars)
  case (Cons plan plans)
  obtain input' tr' where st: "expand_pattern view plan (input, tr) = (input', tr')" by fastforce
  let ?vars = "vars \<union> set_option (pl_path_var plan)"
  have "typed_values view types b' \<and> ?vars \<subseteq> set (map fst b')" if mem: "b' \<in> set input'" for b'
  proof -
    obtain base where base: "base \<in> set input" "extends view types plan base b'"
    proof -
      have "\<exists>base \<in> set input. extends view types plan base b'"
        by (rule expand_pattern_extends [where tr = tr]) (use Cons.prems(1,2) view mem st in auto)
      then show ?thesis using that by blast
    qed
    have "vars \<subseteq> set (map fst base)" using Cons.prems(2) base(1) by blast
    then show ?thesis using base(2) unfolding extends_def by (cases "pl_path_var plan") auto
  qed
  then have "typed_values view types b \<and> ?vars \<subseteq> set (map fst b) \<and> (\<forall>plan \<in> set plans. \<forall>x. pl_path_var plan = Some x \<longrightarrow> x \<in> set (map fst b))"
    by (intro Cons.IH [of input' ?vars tr']) (use Cons.prems(1,3) st in auto)
  then show ?case by auto
qed auto

lemma record_plan_path:
  "map_of (record_plan plan types) x = Some PathVar \<Longrightarrow> pl_path_var plan = Some x \<or> map_of types x = Some PathVar"
  by (auto simp: record_plan_def record_var_def map_of_bt_insert split: option.splits if_splits)

lemma plan_types_path:
  assumes "map_of (plan_types plans) x = Some PathVar"
  shows "\<exists>plan \<in> set (concat plans). pl_path_var plan = Some x"
proof -
  have "map_of (fold record_plan ps types) x = Some PathVar \<Longrightarrow>
      (\<exists>plan \<in> set ps. pl_path_var plan = Some x) \<or> map_of types x = Some PathVar" for ps types
    by (induction ps arbitrary: types) (auto dest: record_plan_path)
  from this [of "concat plans" "[]"] show ?thesis using assms by (simp add: plan_types_def)
qed

lemma lower_chain_bound:
  "lower_chain is_first prev steps = Inr plans \<Longrightarrow> plan \<in> set plans \<Longrightarrow>
    pl_anchor_bound_var plan = None \<or> pl_anchor_bound_var plan = pl_anchor_var plan"
  by (induction is_first prev steps arbitrary: plans rule: lower_chain.induct)
    (auto simp: try_bind_Inr lower_chained_step_def Let_def split: if_splits prod.splits)

lemma lower_pattern_chain_bound:
  assumes "lower_pattern_chain pat = Inr plans" "plan \<in> set plans"
  shows "pl_anchor_bound_var plan = None \<or> pl_anchor_bound_var plan = pl_anchor_var plan"
proof (cases "\<exists>rel end_node. pp_steps pat = [(rel, end_node)]")
  case True
  then obtain rel end_node where "pp_steps pat = [(rel, end_node)]" by blast
  then have "lower_single (pp_path_var pat) (pp_start pat) rel end_node = Inr plan"
    using assms by (auto simp: lower_pattern_chain_def try_bind_Inr)
  then have "pl_anchor_bound_var plan = None" by (auto simp: lower_single_def try_bind_Inr Let_def split: prod.splits if_splits)
  then show ?thesis by simp
next
  case False
  then have "lower_chain True (pp_start pat) (pp_steps pat) = Inr plans"
    using assms by (auto simp: lower_pattern_chain_def split: list.splits if_splits)
  then show ?thesis using lower_chain_bound assms(2) by blast
qed

lemma plan_reading_bound:
  assumes "plan_reading clauses = Inr plans" "plan \<in> set (concat plans)"
  shows "pl_anchor_bound_var plan = None \<or> pl_anchor_bound_var plan = pl_anchor_var plan"
  using assms
proof (induction clauses arbitrary: plans rule: plan_reading.induct)
  case (2 m clauses)
  obtain ps rest where ps: "try_map lower_pattern_chain (mc_patterns m) = Inr ps" "plan_reading clauses = Inr rest"
    "plans = concat ps # rest" using "2.prems"(1) by (auto simp: try_bind_Inr)
  show ?case
  proof (cases "plan \<in> set (concat rest)")
    case True
    then show ?thesis using "2.IH" [OF ps(1,2)] by blast
  next
    case False
    then obtain qs where "qs \<in> set ps" "plan \<in> set qs" using "2.prems"(2) ps(3) by auto
    moreover have "\<exists>pat. lower_pattern_chain pat = Inr qs"
      using ps(1) \<open>qs \<in> set ps\<close> unfolding try_map_Inr by (induction rule: list_all2_induct) auto
    ultimately show ?thesis using lower_pattern_chain_bound by blast
  qed
qed (auto simp: try_bind_Inr)

lemma well_typed_intro:
  assumes "typed_values view types b" "\<And>x. map_of types x = Some PathVar \<Longrightarrow> x \<in> set (map fst b)"
  shows "well_typed view types b"
  unfolding well_typed_def
proof (intro allI impI)
  fix x ty
  assume ty: "map_of types x = Some ty"
  show "case map_of b x of Some v \<Rightarrow> has_type view ty v | None \<Rightarrow> ty \<noteq> PathVar"
  proof (cases "map_of b x")
    case None
    then have "x \<notin> set (map fst b)" by (simp add: map_of_eq_None_iff)
    then show ?thesis using assms(2) [of x] ty None by auto
  next
    case (Some v)
    then show ?thesis using assms(1) ty by (simp add: typed_values_def)
  qed
qed

text \<open>A MATCH whose checks pass and whose filter is safe runs, and binds what was recorded.\<close>

lemma match_runs:
  assumes view: "dense view" "numbered view" and plans: "plan_reading [RMatch m] = Inr plans"
    and agree: "\<forall>plan \<in> set (concat plans). plan_agrees (plan_types plans) plan"
    and filt: "validate_opt (mc_where m) (plan_types plans) = Inr ()"
      "case mc_where m of Some w \<Rightarrow> safe_expr (plan_types plans) w | None \<Rightarrow> True"
  shows "\<exists>bs tr. run_reading inventory view [RMatch m] plans ([[]], None) = Inr (bs, tr) \<and>
    (\<forall>b \<in> set bs. well_typed view (plan_types plans) b)"
proof -
  obtain ps where ps: "plans = [ps]" using plans by (auto simp: try_bind_Inr)
  obtain bs tr where st: "fold (expand_pattern view) ps ([[]], None) = (bs, tr)" by fastforce
  have typed: "well_typed view (plan_types plans) b" if "b \<in> set bs" for b
  proof -
    have "typed_values view (plan_types plans) b \<and> {} \<subseteq> set (map fst b) \<and>
        (\<forall>plan \<in> set ps. \<forall>x. pl_path_var plan = Some x \<longrightarrow> x \<in> set (map fst b))"
    proof (rule fold_expand_typed [OF view, where input = "[[]]" and tr = None])
      show "\<forall>plan \<in> set ps. plan_agrees (plan_types plans) plan \<and> (pl_anchor_bound_var plan = None \<or> pl_anchor_bound_var plan = pl_anchor_var plan)"
        using agree plan_reading_bound [OF plans] ps by auto
    qed (use that st in \<open>auto simp: typed_values_def\<close>)
    then show ?thesis using plan_types_path [of plans] ps by (intro well_typed_intro) auto
  qed
  show ?thesis
  proof (cases "mc_where m")
    case None
    then show ?thesis using typed ps st by (auto simp: eval_match_def)
  next
    case (Some w)
    have "\<exists>c. eval_predicate inventory view w b = Inr c" if "b \<in> set bs" for b
      using eval_expr_total [OF _ _ typed [OF that], of w inventory] filt Some
      by (auto simp: validate_opt_def eval_predicate_def)
    then have "try_filter (eval_predicate inventory view w) bs = Inr (filter (\<lambda>b. eval_predicate inventory view w b = Inr True) bs)"
      by (simp add: try_filter_Inr)
    then show ?thesis using typed ps st Some by (auto simp: eval_match_def)
  qed
qed

end
