(* ===== verification/Cql_Table.thy ===== *)
theory Cql_Table
  imports Cql_Eval
begin

text \<open>
  Lemmas on projection: the comparators of its sorts, the sorted rows, the groups, the shape of a
  result table and the scope that WITH leaves.
\<close>

subsection \<open>The comparators of projection\<close>

definition node_first_cmp :: "node_id option \<Rightarrow> node_id option \<Rightarrow> ordering" where
  "node_first_cmp a b =
     (case (a, b) of (Some x, Some y) \<Rightarrow> ord_cmp x y | (Some _, None) \<Rightarrow> Ord_Less
        | (None, Some _) \<Rightarrow> Ord_Greater | (None, None) \<Rightarrow> Ord_Equal)"

lemma comparator_node_first: "comparator node_first_cmp UNIV"
  by unfold_locales (auto simp: node_first_cmp_def ord_cmp_def split: option.splits if_splits)

lemma keyed_cmp_then: "keyed_cmp a b = ord_then (node_first_cmp (fst a) (fst b)) (cmp_list (fst (snd a)) (fst (snd b)))"
  by (auto simp: keyed_cmp_def node_first_cmp_def split: option.split)

text \<open>The order of the bindings, on the pairs of representative node and row.\<close>

definition rep_row_cmp :: "node_id option \<times> cql_value list \<Rightarrow> node_id option \<times> cql_value list \<Rightarrow> ordering" where
  "rep_row_cmp a b = ord_then (node_first_cmp (fst a) (fst b)) (cmp_list (snd a) (snd b))"

abbreviation comparable_rows :: "bool \<Rightarrow> cql_value list set" where
  "comparable_rows floats \<equiv> {r. list_all (comparable floats) r}"

interpretation rep_row: comparator rep_row_cmp "{k. snd k \<in> comparable_rows fl}" for fl
  unfolding rep_row_cmp_def
  by (rule comparator_then)
    (rule comparator_subset [OF comparator_key [OF comparator_node_first]], simp,
      rule comparator_key [OF row_ord.comparator_axioms])

interpretation keyed_binding: comparator keyed_cmp "{k. fst (snd k) \<in> comparable_rows fl}" for fl
  unfolding keyed_cmp_then
  by (rule comparator_then)
    (rule comparator_subset [OF comparator_key [OF comparator_node_first]], simp,
      rule comparator_key [OF row_ord.comparator_axioms])

text \<open>Sort keys with the same directions.\<close>

definition order_keys :: "bool \<Rightarrow> bool list \<Rightarrow> (cql_value \<times> bool) list set" where
  "order_keys floats dirs = {ks. map snd ks = dirs \<and> list_all (\<lambda>k. comparable floats (fst k)) ks}"

lemma comparator_directed:
  "comparator (\<lambda>v w. if desc then ord_reverse (value_compare v w) else value_compare v w) {v. comparable fl v}"
  using value_ord.comparator_axioms comparator_reversed by (cases desc) auto

lemma comparator_order: "comparator order_cmp (order_keys fl dirs)"
proof (induction dirs)
  case Nil
  show ?case by unfold_locales (auto simp: order_keys_def)
next
  case (Cons desc dirs)
  let ?c = "\<lambda>v w. if desc then ord_reverse (value_compare v w) else value_compare v w"
  have heads: "comparator (\<lambda>x y. ?c (fst (hd x)) (fst (hd y))) (order_keys fl (desc # dirs))"
    by (rule comparator_subset [OF comparator_key [OF comparator_directed [of desc fl]]]) (auto simp: order_keys_def)
  have tails: "comparator (\<lambda>x y. order_cmp (tl x) (tl y)) (order_keys fl (desc # dirs))"
    by (rule comparator_subset [OF comparator_key [OF Cons.IH]]) (auto simp: order_keys_def)
  show ?case
  proof (rule comparator_cong [OF comparator_then [OF heads tails]])
    fix x y
    assume "x \<in> order_keys fl (desc # dirs)" "y \<in> order_keys fl (desc # dirs)"
    then obtain v x' w y' where "x = (v, desc) # x'" "y = (w, desc) # y'" by (auto simp: order_keys_def)
    then show "order_cmp x y = ord_then (?c (fst (hd x)) (fst (hd y))) (order_cmp (tl x) (tl y))" by simp
  qed
qed

definition keyed_rows :: "bool \<Rightarrow> bool list \<Rightarrow> keyed_row set" where
  "keyed_rows floats dirs = {k. fst k \<in> order_keys floats dirs \<and> snd k \<in> comparable_rows floats}"

interpretation keyed_row: comparator keyed_row_cmp "keyed_rows fl dirs" for fl dirs
  unfolding keyed_row_cmp_def
  by (rule comparator_then)
    (rule comparator_subset [OF comparator_key [OF comparator_order [of fl dirs]]], simp add: keyed_rows_def subset_iff,
      rule comparator_subset [OF comparator_key [OF row_ord.comparator_axioms [of fl]]], simp add: keyed_rows_def subset_iff)

subsection \<open>The rows of a plain projection\<close>

definition plain_table :: "return_clause \<Rightarrow> cql_value list list \<Rightarrow> truncation_reason option \<Rightarrow> result_table" where
  "plain_table ret rows truncation =
     (let single = (case rc_items ret of [item] \<Rightarrow> is_path_return item | _ \<Rightarrow> False) in
      \<lparr>rt_columns = map column_name (rc_items ret), rt_rows = limit_rows (rc_limit ret) rows,
       rt_paths = limit_rows (if single then rc_limit ret else None) (if single then List.map_filter row_path rows else []),
       rt_truncation = truncation\<rparr>)"

definition default_rows :: "(binding \<Rightarrow> cql_value list) \<Rightarrow> binding list \<Rightarrow> cql_value list list" where
  "default_rows f bs = map snd (sort_by rep_row_cmp (map (\<lambda>b. (representative_node b, f b)) bs))"

lemma sort_bindings_rows:
  assumes "\<And>b. b \<in> set bs \<Longrightarrow> eval_row inventory view (rc_items ret) b = Inr (f b)"
  shows "\<exists>cs. sort_bindings_default inventory view ret bs = Inr cs \<and> set cs = set bs \<and> map f cs = default_rows f bs"
proof -
  let ?key = "\<lambda>k :: keyed_binding. (fst k, fst (snd k))"
  let ?keyed = "map (\<lambda>b. (representative_node b, f b, b)) bs"
  let ?cs = "map (snd \<circ> snd) (sort_by keyed_cmp ?keyed)"
  have sorted: "sort_bindings_default inventory view ret bs = Inr ?cs"
    by (simp add: sort_bindings_default_def assms try_map_ok [where g = "\<lambda>b. (representative_node b, f b, b)"])
  have "keyed_cmp = (\<lambda>a b. rep_row_cmp (?key a) (?key b))" by (intro ext) (simp add: keyed_cmp_then rep_row_cmp_def)
  then have "map ?key (sort_by keyed_cmp ?keyed) = map ?key (sort_by (\<lambda>a b. rep_row_cmp (?key a) (?key b)) ?keyed)" by (rule arg_cong)
  also have "\<dots> = sort_by rep_row_cmp (map ?key ?keyed)" by (rule map_sort_by)
  also have "map ?key ?keyed = map (\<lambda>b. (representative_node b, f b)) bs" by simp
  finally have "default_rows f bs = map snd (map ?key (sort_by keyed_cmp ?keyed))" by (simp only: default_rows_def)
  then have "default_rows f bs = map (\<lambda>k. fst (snd k)) (sort_by keyed_cmp ?keyed)" by (simp add: comp_def)
  moreover have "f (snd (snd k)) = fst (snd k)" if "k \<in> set (sort_by keyed_cmp ?keyed)" for k using that by auto
  ultimately have "map f ?cs = default_rows f bs" by (simp add: comp_def)
  moreover have "set ?cs = set bs" by (auto simp: image_image)
  ultimately show ?thesis using sorted by blast
qed

lemma project_plain:
  assumes plain: "\<not> list_ex (\<lambda>i. is_aggregate_expr (ri_expr i)) (rc_items ret)"
    and ok: "\<And>b. b \<in> set bs \<Longrightarrow> eval_row inventory view (rc_items ret) b = Inr (f b)"
  shows "project inventory view ret bs tr =
    (if rc_order_by ret = [] then Inr (plain_table ret (distinct_rows (rc_distinct ret) (default_rows f bs)) tr)
     else try_bind (sort_rows (rc_order_by ret) ret (distinct_rows (rc_distinct ret) (map f bs)))
       (\<lambda>rows. Inr (plain_table ret rows tr)))"
proof (cases "rc_order_by ret = []")
  case True
  obtain cs where cs: "sort_bindings_default inventory view ret bs = Inr cs" "set cs = set bs" "map f cs = default_rows f bs"
    using sort_bindings_rows [of bs inventory view ret f] ok by blast
  have "try_map (eval_row inventory view (rc_items ret)) cs = Inr (default_rows f bs)"
    using try_map_ok [of cs "eval_row inventory view (rc_items ret)" f] ok cs(2,3) by metis
  then show ?thesis using True plain cs(1) by (simp add: project_def plain_table_def Let_def)
next
  case False
  have "try_map (eval_row inventory view (rc_items ret)) bs = Inr (map f bs)" using try_map_ok [of bs "eval_row inventory view (rc_items ret)" f] ok by blast
  then show ?thesis using False plain by (simp add: project_def plain_table_def Let_def)
qed

lemma project_ordered:
  assumes "\<not> list_ex (\<lambda>i. is_aggregate_expr (ri_expr i)) (rc_items ret)" "rc_order_by ret \<noteq> []"
    and "\<And>b. b \<in> set bs \<Longrightarrow> eval_row inventory view (rc_items ret) b = Inr (f b)"
  shows "project inventory view ret bs tr = Inr t \<longleftrightarrow>
    (\<exists>out. sort_rows (rc_order_by ret) ret (distinct_rows (rc_distinct ret) (map f bs)) = Inr out \<and> t = plain_table ret out tr)"
  using project_plain [OF assms(1,3), of bs] assms(2) by (auto simp: try_bind_Inr)

lemma mset_default_rows: "mset (default_rows f bs) = image_mset f (mset bs)"
  by (simp add: default_rows_def multiset.map_comp comp_def)

text \<open>The sort keys of a row are values of the row.\<close>

lemma eval_order_key_in: "eval_order_key e ret row = Inr v \<Longrightarrow> v \<in> set row"
  by (auto simp: eval_order_key_def Let_def find_Some_iff in_set_conv_nth split: option.splits dest: arg_cong [of _ _ snd])

lemma row_keys_in:
  assumes "row_keys keys ret row = Inr ks" "row \<in> comparable_rows fl"
  shows "ks \<in> order_keys fl (map ob_descending keys)"
proof -
  have "list_all2 (\<lambda>ob k. snd k = ob_descending ob \<and> comparable fl (fst k)) keys ks"
    using assms(1) unfolding row_keys_def try_map_Inr
    by (rule list_all2_mono) (use assms(2) in \<open>auto simp: try_bind_Inr list_all_iff dest: eval_order_key_in\<close>)
  then show ?thesis by (induction keys ks rule: list_all2_induct) (simp_all add: order_keys_def)
qed

lemma order_cmp_equal: "x \<in> order_keys False dirs \<Longrightarrow> y \<in> order_keys False dirs \<Longrightarrow> order_cmp x y = Ord_Equal \<Longrightarrow> x = y"
proof (induction dirs arbitrary: x y)
  case (Cons desc dirs)
  obtain v x' w y' where xy: "x = (v, desc) # x'" "y = (w, desc) # y'" and
    ok: "comparable False v" "comparable False w" "x' \<in> order_keys False dirs" "y' \<in> order_keys False dirs"
    using Cons.prems(1,2) by (auto simp: order_keys_def)
  then have "value_compare v w = Ord_Equal" "order_cmp x' y' = Ord_Equal" using Cons.prems(3) by (auto split: if_splits)
  then show ?case using Cons.IH [of x' y'] compare_equal_iff(1) [of v w] ok xy by simp
qed (simp add: order_keys_def)

lemma sort_rows_keyed:
  assumes "sort_rows keys ret rows = Inr out"
  shows "\<exists>g. (\<forall>r \<in> set rows. row_keys keys ret r = Inr (g r)) \<and>
    out = map snd (sort_by keyed_row_cmp (map (\<lambda>r. (g r, r)) rows))"
proof -
  let ?g = "\<lambda>r. projr (row_keys keys ret r)"
  obtain keyed where k: "try_map (\<lambda>row. try_bind (row_keys keys ret row) (\<lambda>ks. Inr (ks, row))) rows = Inr keyed"
    and out: "out = map snd (sort_by keyed_row_cmp keyed)"
    using assms by (auto simp: sort_rows_def try_bind_Inr)
  have "list_all2 (\<lambda>r kr. row_keys keys ret r = Inr (?g r) \<and> kr = (?g r, r)) rows keyed"
    using k unfolding try_map_Inr by (rule list_all2_mono) (auto simp: try_bind_Inr)
  then have "(\<forall>r \<in> set rows. row_keys keys ret r = Inr (?g r)) \<and> keyed = map (\<lambda>r. (?g r, r)) rows"
    by (induction rows keyed rule: list_all2_induct) auto
  then show ?thesis using out by (intro exI [of _ ?g]) simp
qed

lemma sort_rows_ok:
  assumes "\<forall>r \<in> set rows. row_keys keys ret r = Inr (g r)"
  shows "sort_rows keys ret rows = Inr (map snd (sort_by keyed_row_cmp (map (\<lambda>r. (g r, r)) rows)))"
proof -
  have "try_map (\<lambda>row. try_bind (row_keys keys ret row) (\<lambda>ks. Inr (ks, row))) rows = Inr (map (\<lambda>r. (g r, r)) rows)"
    by (rule try_map_ok) (simp add: assms)
  then show ?thesis by (simp add: sort_rows_def)
qed

lemma keyed_rows_image:
  assumes "\<forall>r \<in> set rows. row_keys keys ret r = Inr (g r)" "set rows \<subseteq> comparable_rows fl"
  shows "set (map (\<lambda>r. (g r, r)) rows) \<subseteq> keyed_rows fl (map ob_descending keys)"
proof -
  have "(g r, r) \<in> keyed_rows fl (map ob_descending keys)" if "r \<in> set rows" for r
    using row_keys_in [of keys ret r "g r" fl] assms that by (auto simp: keyed_rows_def)
  then show ?thesis by auto
qed

lemma sort_rows_mset:
  assumes out: "sort_rows keys ret rows = Inr out" and same: "mset rows = mset rows'" and ok: "set rows \<subseteq> comparable_rows False"
  shows "sort_rows keys ret rows' = Inr out"
proof -
  obtain g where g: "\<forall>r \<in> set rows. row_keys keys ret r = Inr (g r)"
    and o: "out = map snd (sort_by keyed_row_cmp (map (\<lambda>r. (g r, r)) rows))"
    using sort_rows_keyed [OF out] by blast
  have g': "\<forall>r \<in> set rows'. row_keys keys ret r = Inr (g r)" using g same by (metis set_mset_mset)
  have "sort_by keyed_row_cmp (map (\<lambda>r. (g r, r)) rows) = sort_by keyed_row_cmp (map (\<lambda>r. (g r, r)) rows')"
  proof (rule keyed_row.sort_by_mset [OF _ keyed_rows_image [OF g ok]])
    show "x = y" if "x \<in> keyed_rows False (map ob_descending keys)" "y \<in> keyed_rows False (map ob_descending keys)"
      "keyed_row_cmp x y = Ord_Equal" for x y
      using that order_cmp_equal [of "fst x" "map ob_descending keys" "fst y"] compare_equal_iff(2) [of "snd x" "snd y"]
      by (auto simp: keyed_rows_def keyed_row_cmp_def prod_eq_iff)
  qed (simp add: same)
  then show ?thesis using sort_rows_ok [OF g'] o by simp
qed

lemma strict_sorted_wrt_distinct: "sorted_wrt (\<lambda>x y. x \<noteq> y) xs \<Longrightarrow> distinct xs"
  by (induction xs) auto

definition ordered_by :: "order_by list \<Rightarrow> return_clause \<Rightarrow> cql_value list \<Rightarrow> cql_value list \<Rightarrow> bool" where
  "ordered_by keys ret r s \<longleftrightarrow>
     (\<exists>kr ks. row_keys keys ret r = Inr kr \<and> row_keys keys ret s = Inr ks \<and> order_cmp kr ks \<noteq> Ord_Greater)"

lemma sort_rows_sorted:
  assumes out: "sort_rows keys ret rows = Inr out" and ok: "set rows \<subseteq> comparable_rows fl"
  shows "mset out = mset rows" "sorted_wrt (ordered_by keys ret) out"
proof -
  obtain g where g: "\<forall>r \<in> set rows. row_keys keys ret r = Inr (g r)"
    and o: "out = map snd (sort_by keyed_row_cmp (map (\<lambda>r. (g r, r)) rows))"
    using sort_rows_keyed [OF out] by blast
  let ?keyed = "map (\<lambda>r. (g r, r)) rows"
  show "mset out = mset rows" unfolding o mset_map mset_sort_by by (simp add: multiset.map_comp comp_def)
  have "sorted_wrt (keyed_row.le) (sort_by keyed_row_cmp ?keyed)" by (rule keyed_row.sort_sorted [OF keyed_rows_image [OF g ok]])
  then have "sorted_wrt (\<lambda>x y. ordered_by keys ret (snd x) (snd y)) (sort_by keyed_row_cmp ?keyed)"
  proof (rule sorted_wrt_mono_rel [rotated])
    fix x y
    assume "x \<in> set (sort_by keyed_row_cmp ?keyed)" "y \<in> set (sort_by keyed_row_cmp ?keyed)" "keyed_row.le x y"
    then show "ordered_by keys ret (snd x) (snd y)"
      using g by (auto simp: ordered_by_def keyed_row.le_def keyed_row_cmp_def ord_then_le)
  qed
  then show "sorted_wrt (ordered_by keys ret) out" unfolding o sorted_wrt_map .
qed

lemma set_distinct_rows:
  assumes "set rows \<subseteq> comparable_rows False"
  shows "set (distinct_rows d rows) = set rows" "d \<Longrightarrow> distinct (distinct_rows d rows)"
proof -
  have eq: "values_eq_list y x \<longleftrightarrow> cmp_list x y = Ord_Equal" if "x \<in> set (sort_by cmp_list rows)" "y \<in> set (sort_by cmp_list rows)" for x y
    using that assms compare_equal_iff(2) [of x y] value_eq_iff(2) [of y x] by (auto simp: subset_iff)
  have "\<exists>y \<in> set (dedup_by values_eq_list (sort_by cmp_list rows)). y = x" if "x \<in> set rows" for x
  proof -
    have "\<exists>y \<in> set (dedup_by values_eq_list (sort_by cmp_list rows)). cmp_list y x = Ord_Equal"
      by (rule row_ord.dedup_covers [where fl = False]) (use eq assms that in auto)
    then show ?thesis
      using set_dedup_by [of values_eq_list "sort_by cmp_list rows"] assms compare_equal_iff(2) that by (fastforce simp: subset_iff)
  qed
  then show "set (distinct_rows d rows) = set rows"
    using set_dedup_by [of values_eq_list "sort_by cmp_list rows"] by (auto simp: distinct_rows_def)
  have "sorted_wrt (\<lambda>x y. cmp_list x y = Ord_Less) (dedup_by values_eq_list (sort_by cmp_list rows))"
    by (rule row_ord.dedup_sorted [where fl = False]) (use eq assms row_ord.sort_sorted in auto)
  then have "sorted_wrt (\<lambda>x y. x \<noteq> y) (dedup_by values_eq_list (sort_by cmp_list rows))"
    by (rule sorted_wrt_mono_rel [rotated])
      (use set_dedup_by [of values_eq_list "sort_by cmp_list rows"] assms compare_equal_iff(2) in \<open>fastforce simp: subset_iff\<close>)
  then show "distinct (distinct_rows d rows)" if d using that by (simp add: distinct_rows_def strict_sorted_wrt_distinct)
qed

subsection \<open>Grouping\<close>

lemma push_group_spec:
  assumes "distinct (map fst groups)" "insert key (set (map fst groups)) \<subseteq> comparable_rows False"
  shows "push_group key b groups =
    (if key \<in> set (map fst groups) then map (\<lambda>(k, g). (k, if k = key then g @ [b] else g)) groups
     else groups @ [(key, [b])])"
  using assms
proof (induction groups)
  case (Cons kg groups)
  obtain k g where kg: "kg = (k, g)" by (cases kg)
  have eq: "values_eq_list k key \<longleftrightarrow> k = key" using value_eq_iff(2) [of k key] Cons.prems kg by auto
  have "map (\<lambda>(k, g). (k, if k = key then g @ [b] else g)) groups = groups" if "key \<notin> set (map fst groups)"
    using that by (intro map_idI) (auto simp: image_iff)
  then show ?case using Cons eq kg by auto
qed simp

definition grouped :: "(binding \<Rightarrow> cql_value list) \<Rightarrow> binding list \<Rightarrow> row_groups \<Rightarrow> bool" where
  "grouped f bs groups \<longleftrightarrow> distinct (map fst groups) \<and> set (map fst groups) = f ` set bs \<and>
     (\<forall>(k, g) \<in> set groups. g = filter (\<lambda>b. f b = k) bs)"

lemma grouped_fold:
  assumes "\<forall>b \<in> set bs. f b \<in> comparable_rows False"
  shows "grouped f bs (fold (\<lambda>b. push_group (f b) b) bs [])"
  using assms
proof (induction bs rule: rev_induct)
  case (snoc b bs)
  let ?gs = "fold (\<lambda>b. push_group (f b) b) bs []"
  have ih: "distinct (map fst ?gs)" "set (map fst ?gs) = f ` set bs" "\<forall>(k, g) \<in> set ?gs. g = filter (\<lambda>b. f b = k) bs"
    using snoc by (auto simp: grouped_def)
  have push: "push_group (f b) b ?gs = (if f b \<in> f ` set bs then map (\<lambda>(k, g). (k, if k = f b then g @ [b] else g)) ?gs
      else ?gs @ [(f b, [b])])"
  proof -
    have "insert (f b) (set (map fst ?gs)) \<subseteq> comparable_rows False" unfolding ih(2) using snoc.prems by auto
    from push_group_spec [OF ih(1) this] show ?thesis unfolding ih(2) .
  qed
  have keep: "map fst (map (\<lambda>(k, g). (k, if k = f b then g @ [b] else g)) ?gs) = map fst ?gs" by (simp add: case_prod_beta comp_def)
  show ?case
  proof (cases "f b \<in> f ` set bs")
    case True
    let ?new = "map (\<lambda>(k, g). (k, if k = f b then g @ [b] else g)) ?gs"
    have "distinct (map fst ?new)" "set (map fst ?new) = f ` set (bs @ [b])"
      using ih(1,2) True unfolding keep by auto
    moreover have "\<forall>(k, g) \<in> set ?new. g = filter (\<lambda>b. f b = k) (bs @ [b])" using ih(3) by auto
    ultimately show ?thesis using push True by (simp add: grouped_def)
  next
    case False
    then have "filter (\<lambda>c. f c = f b) bs = []" by (auto simp: filter_empty_conv image_iff)
    moreover have "g = filter (\<lambda>c. f c = k) (bs @ [b])" if "(k, g) \<in> set ?gs" for k g
    proof -
      have "k \<in> set (map fst ?gs)" using that by force
      then have "f b \<noteq> k" using False ih(2) by auto
      then show ?thesis using ih(3) that by auto
    qed
    ultimately have "\<forall>(k, g) \<in> set (?gs @ [(f b, [b])]). g = filter (\<lambda>c. f c = k) (bs @ [b])" by auto
    moreover have "distinct (map fst (?gs @ [(f b, [b])]))" "set (map fst (?gs @ [(f b, [b])])) = f ` set (bs @ [b])"
      using ih(1,2) False by auto
    ultimately show ?thesis using False push by (simp add: grouped_def)
  qed
qed (simp add: grouped_def)

lemma group_fold_keys:
  assumes "try_fold (group_step inventory view items) bs gs = Inr groups"
  shows "\<exists>f. (\<forall>b \<in> set bs. eval_row inventory view (filter (\<lambda>i. \<not> is_aggregate_expr (ri_expr i)) items) b = Inr (f b)) \<and>
    groups = fold (\<lambda>b. push_group (f b) b) bs gs"
proof -
  let ?key = "eval_row inventory view (filter (\<lambda>i. \<not> is_aggregate_expr (ri_expr i)) items)"
  let ?f = "\<lambda>b. projr (?key b)"
  have "(\<forall>b \<in> set bs. ?key b = Inr (?f b)) \<and> groups = fold (\<lambda>b. push_group (?f b) b) bs gs"
    using assms by (induction bs arbitrary: gs) (auto simp: try_bind_Inr group_step_def)
  then show ?thesis by (intro exI [of _ ?f])
qed

lemma group_bindings_grouped:
  assumes groups: "group_bindings inventory view items bs = Inr groups"
    and rows: "\<And>b. b \<in> set bs \<Longrightarrow> eval_row inventory view (filter (\<lambda>i. \<not> is_aggregate_expr (ri_expr i)) items) b = Inr (f b)"
    and ok: "\<forall>b \<in> set bs. f b \<in> comparable_rows False"
  shows "if list_all (\<lambda>i. is_aggregate_expr (ri_expr i)) items \<and> bs = [] then groups = [([], [])] else grouped f bs groups"
proof -
  obtain gs where gs: "try_fold (group_step inventory view items) bs [] = Inr gs"
    "groups = (if list_all (\<lambda>i. is_aggregate_expr (ri_expr i)) items \<and> gs = [] then [([], [])] else gs)"
    using groups by (auto simp: group_bindings_def try_bind_Inr)
  obtain g where g: "\<forall>b \<in> set bs. eval_row inventory view (filter (\<lambda>i. \<not> is_aggregate_expr (ri_expr i)) items) b = Inr (g b)"
    "gs = fold (\<lambda>b. push_group (g b) b) bs []" using group_fold_keys [OF gs(1)] by blast
  have "gs = fold (\<lambda>b. push_group (f b) b) bs []" unfolding g(2) by (rule fold_cong) (use g(1) rows in auto)
  then have all: "grouped f bs gs" using grouped_fold [OF ok] by simp
  then have "gs = [] \<longleftrightarrow> bs = []" by (auto simp: grouped_def)
  then show ?thesis using gs(2) all by auto
qed

subsection \<open>The shape of a table\<close>

lemma length_eval_row: "eval_row inventory view items b = Inr row \<Longrightarrow> length row = length items"
  by (simp add: eval_row_def length_try_map)

lemma length_group_row: "group_row inventory view items grp = Inr row \<Longrightarrow> length row = length items"
  by (simp add: group_row_def length_try_map)

lemma mset_sort_rows: "sort_rows keys ret rows = Inr out \<Longrightarrow> mset out = mset rows"
  using sort_rows_keyed [of keys ret rows out] by (auto simp: multiset.map_comp comp_def)

lemma set_sort_rows: "sort_rows keys ret rows = Inr out \<Longrightarrow> set out = set rows"
  using mset_sort_rows by (metis set_mset_mset)

lemma set_distinct_rows_sub: "set (distinct_rows d rows) \<subseteq> set rows"
  using set_dedup_by [of values_eq_list "sort_by cmp_list rows"] by (auto simp: distinct_rows_def)

lemma set_limit_rows: "set (limit_rows limit rows) \<subseteq> set rows"
  by (auto simp: limit_rows_def split: option.split dest: in_set_takeD)

lemma limit_rows_length: "limit = Some n \<Longrightarrow> length (limit_rows limit rows) \<le> n"
  by (simp add: limit_rows_def)

lemma try_map_set: "try_map f xs = Inr ys \<Longrightarrow> y \<in> set ys \<Longrightarrow> \<exists>x \<in> set xs. f x = Inr y"
  unfolding try_map_Inr by (induction rule: list_all2_induct) auto

definition well_shaped :: "return_clause \<Rightarrow> result_table \<Rightarrow> bool" where
  "well_shaped ret t \<longleftrightarrow> rt_columns t = map column_name (rc_items ret) \<and>
     (\<forall>row \<in> set (rt_rows t). length row = length (rt_columns t)) \<and>
     (\<forall>n. rc_limit ret = Some n \<longrightarrow> length (rt_rows t) \<le> n)"

lemma well_shapedI:
  assumes "\<And>row. row \<in> set rows \<Longrightarrow> length row = length (rc_items ret)"
    "rt_columns t = map column_name (rc_items ret)" "rt_rows t = limit_rows (rc_limit ret) rows"
  shows "well_shaped ret t"
  using assms set_limit_rows [of "rc_limit ret" rows] limit_rows_length [of "rc_limit ret" _ rows]
  by (auto simp: well_shaped_def subset_iff)

lemma project_grouped_shape:
  assumes "project_grouped inventory view ret (map column_name (rc_items ret)) bs tr = Inr t"
  shows "well_shaped ret t \<and> rt_truncation t = tr \<and> rt_paths t = []"
proof -
  obtain groups :: row_groups and rows out where rows: "try_map (\<lambda>(key, grp). group_row inventory view (rc_items ret) grp) groups = Inr rows"
    and out: "(if rc_order_by ret \<noteq> [] then sort_rows (rc_order_by ret) ret (distinct_rows (rc_distinct ret) rows)
        else Inr (sort_by cmp_list (distinct_rows (rc_distinct ret) rows))) = Inr out"
    and t: "rt_columns t = map column_name (rc_items ret)" "rt_rows t = limit_rows (rc_limit ret) out" "rt_truncation t = tr" "rt_paths t = []"
    using assms by (auto simp: project_grouped_def try_bind_Inr Let_def split del: if_split)
  have "set out \<subseteq> set rows"
    using out set_sort_rows set_distinct_rows_sub [of "rc_distinct ret" rows] by (auto split: if_splits)
  then have "length row = length (rc_items ret)" if "row \<in> set out" for row
    using that try_map_set [OF rows] length_group_row by fastforce
  then show ?thesis using well_shapedI [of out ret t] t by simp
qed

lemma project_shape:
  assumes "project inventory view ret bs tr = Inr t"
  shows "well_shaped ret t \<and> rt_truncation t = tr"
proof (cases "list_ex (\<lambda>i. is_aggregate_expr (ri_expr i)) (rc_items ret)")
  case True
  then show ?thesis using assms project_grouped_shape by (simp add: project_def Let_def)
next
  case False
  obtain cs rows out where rows: "try_map (eval_row inventory view (rc_items ret)) cs = Inr rows"
    and out: "(if rc_order_by ret \<noteq> [] then sort_rows (rc_order_by ret) ret (distinct_rows (rc_distinct ret) rows)
        else Inr (distinct_rows (rc_distinct ret) rows)) = Inr out"
    and t: "rt_columns t = map column_name (rc_items ret)" "rt_rows t = limit_rows (rc_limit ret) out" "rt_truncation t = tr"
    using assms False by (auto simp: project_def try_bind_Inr Let_def split del: if_split)
  have "set out \<subseteq> set rows"
    using out set_sort_rows set_distinct_rows_sub [of "rc_distinct ret" rows] by (auto split: if_splits)
  then have "length row = length (rc_items ret)" if "row \<in> set out" for row
    using that try_map_set [OF rows] length_eval_row by fastforce
  then show ?thesis using well_shapedI [of out ret t] t by simp
qed

lemma distinct_rows_spec:
  assumes "set rows \<subseteq> comparable_rows False"
  shows "if d then distinct (distinct_rows d rows) \<and> set (distinct_rows d rows) = set rows else distinct_rows d rows = rows"
  using set_distinct_rows [OF assms, of True] by (cases d) (simp_all, simp add: distinct_rows_def)

text \<open>The bindings that a WITH passes on.\<close>

lemma keys_row_binding: "length names = length row \<Longrightarrow> set (map fst (row_binding names row)) = set names"
proof -
  have "set (map fst (fold (\<lambda>(name, v). bt_insert name v) nvs b)) = fst ` set nvs \<union> set (map fst b)" for nvs :: "(string \<times> cql_value) list" and b
    by (induction nvs arbitrary: b) (auto simp: keys_bt_insert simp del: set_map)
  then show "set (map fst (row_binding names row)) = set names" if "length names = length row"
    using that by (metis Un_empty_right list.map(1) list.set(1) list.set_map map_fst_zip row_binding_def)
qed

lemma project_with_keys:
  assumes "project_with inventory view w bs = Inr carried" "b \<in> set carried"
  shows "set (map fst b) = set (map column_name (wi_items w))"
proof -
  obtain t where t: "project inventory view (with_return w) bs None = Inr t"
    and carried: "set carried \<subseteq> row_binding (rt_columns t) ` set (rt_rows t)"
    using assms(1) by (auto simp: project_with_def try_bind_Inr Let_def try_filter_Inr split: option.splits)
  obtain row where row: "row \<in> set (rt_rows t)" "b = row_binding (rt_columns t) row" using assms(2) carried by auto
  have "well_shaped (with_return w) t" using project_shape [OF t] by simp
  then show ?thesis using keys_row_binding [of "rt_columns t" row] row by (simp add: well_shaped_def with_return_def)
qed

end
