(* ===== verification/Cql_Eval_Properties.thy ===== *)
theory Cql_Eval_Properties
  imports Cql_Table Query_Properties
begin

text \<open>
  What a query returns: the shape and the order of its table, grouping, and the scope of WITH.
\<close>

subsection \<open>Small queries for the witnesses\<close>

definition sample_name :: "string \<Rightarrow> string spanned" where
  "sample_name s = \<lparr>sv_value = s, sv_span = (0, 0)\<rparr>"

definition sample_item :: "expr \<Rightarrow> return_item" where
  "sample_item e = \<lparr>ri_expr = e, ri_alias = None\<rparr>"

definition var_x :: expr where
  "var_x = EProperty (sample_name ''x'') []"

definition count_star :: expr where
  "count_star = ECall (sample_name ''count'') [EProperty (sample_name ''*'') []]"

definition int_bindings :: "int list \<Rightarrow> binding list" where
  "int_bindings xs = map (\<lambda>x. [(''x'', VInt x)]) xs"

definition int_row :: "binding \<Rightarrow> cql_value list" where
  "int_row b = map snd b"

definition sample_return :: "bool \<Rightarrow> expr list \<Rightarrow> order_by list \<Rightarrow> nat option \<Rightarrow> return_clause" where
  "sample_return dedup items keys limit =
     \<lparr>rc_distinct = dedup, rc_items = map sample_item items, rc_order_by = keys, rc_limit = limit\<rparr>"

definition descending_x :: "order_by list" where
  "descending_x = [\<lparr>ob_expr = var_x, ob_descending = True\<rparr>]"

lemma sample_return_sel:
  "rc_items (sample_return d es ks l) = map sample_item es" "rc_limit (sample_return d es ks l) = l"
  "rc_distinct (sample_return d es ks l) = d" "rc_order_by (sample_return d es ks l) = ks"
  by (simp_all add: sample_return_def)

lemma sample_aggregates:
  "\<not> is_aggregate_expr (ri_expr (sample_item var_x))" "is_aggregate_expr (ri_expr (sample_item count_star))"
  by (simp_all add: sample_item_def var_x_def count_star_def is_aggregate_expr_def aggregate_name_def sample_name_def)

lemma int_row_ok:
  "b \<in> set (int_bindings xs) \<Longrightarrow> eval_row inventory view [sample_item var_x] b = Inr (int_row b) \<and> list_all (comparable False) (int_row b)"
  by (auto simp: int_bindings_def int_row_def eval_row_def sample_item_def var_x_def eval_property_def sample_name_def)

section \<open>Result tables\<close>

text \<open>
  C40. The table of a successful query has the shape its contract promises: the columns are the
  names of the items of a RETURN of the query, every row has one value per column, and a LIMIT
  bounds the number of rows.
\<close>

theorem cql_eval_shape:
  assumes "cql_eval inventory view q = Inr t"
  shows "\<exists>part \<in> set (q_parts q). \<exists>ret. qp_ret part = Some ret \<and>
    rt_columns t = map column_name (rc_items ret) \<and>
    list_all (\<lambda>row. length row = length (rt_columns t)) (rt_rows t) \<and>
    (rc_limit ret = None \<or> length (rt_rows t) \<le> the (rc_limit ret))"
proof -
  have "\<exists>part \<in> set parts. \<exists>ret. qp_ret part = Some ret \<and> well_shaped ret t"
    if "eval_parts inventory view parts st = Inr t" for parts st
    using that
  proof (induction parts arbitrary: st)
    case (Cons part parts)
    then obtain bs tr where st: "eval_reading inventory view part st = Inr (bs, tr)" by (auto simp: try_bind_Inr)
    show ?case
    proof (cases "qp_with part")
      case None
      then obtain ret where "qp_ret part = Some ret" "project inventory view ret bs tr = Inr t"
        using Cons.prems st by (auto split: option.splits)
      then show ?thesis using project_shape by auto
    next
      case (Some w)
      then show ?thesis using Cons.prems st Cons.IH by (auto simp: try_bind_Inr)
    qed
  qed simp
  from this [of "q_parts q"] assms show ?thesis
    unfolding cql_eval_def well_shaped_def list_all_iff by (metis option.exhaust_sel)
qed

text \<open>
  C33. A RETURN without aggregates, on values that are no floats, has one row per binding, or with
  DISTINCT each of those rows once; ORDER BY puts them in the order of its keys, and a LIMIT keeps
  the first ones.
\<close>

theorem project_rows:
  assumes plain: "\<not> list_ex (\<lambda>i. is_aggregate_expr (ri_expr i)) (rc_items ret)"
    and rows: "\<And>b. b \<in> set bs \<Longrightarrow> eval_row inventory view (rc_items ret) b = Inr (f b) \<and> list_all (comparable False) (f b)"
    and t: "project inventory view ret bs tr = Inr t"
  shows "\<exists>rows. rt_rows t = (case rc_limit ret of Some n \<Rightarrow> take n rows | None \<Rightarrow> rows) \<and>
    (if rc_distinct ret then distinct rows \<and> set rows = f ` set bs else mset rows = image_mset f (mset bs)) \<and>
    (rc_order_by ret = [] \<or> sorted_wrt (ordered_by (rc_order_by ret) ret) rows)"
proof -
  have ok: "set (map f bs) \<subseteq> comparable_rows False" using rows by auto
  have plain_rows: "eval_row inventory view (rc_items ret) b = Inr (f b)" if "b \<in> set bs" for b using rows that by simp
  show ?thesis
  proof (cases "rc_order_by ret = []")
    case True
    define base where "base = default_rows f bs"
    have base: "mset base = image_mset f (mset bs)" "set base = f ` set bs"
      using mset_default_rows [of f bs] mset_eq_setD [of base "map f bs"] by (simp_all add: base_def)
    have "t = plain_table ret (distinct_rows (rc_distinct ret) base) tr"
      using t project_plain [OF plain plain_rows] True unfolding base_def by simp
    moreover have "set base \<subseteq> comparable_rows False" using ok base(2) by simp
    note distinct_rows_spec [OF this, of "rc_distinct ret"]
    ultimately show ?thesis using True base
      by (intro exI [of _ "distinct_rows (rc_distinct ret) base"]) (auto simp: plain_table_def limit_rows_def Let_def split: if_splits)
  next
    case False
    obtain out where out: "sort_rows (rc_order_by ret) ret (distinct_rows (rc_distinct ret) (map f bs)) = Inr out"
      and tab: "t = plain_table ret out tr"
      using t project_ordered [OF plain False plain_rows] by blast
    have "set (distinct_rows (rc_distinct ret) (map f bs)) \<subseteq> comparable_rows False"
      using ok set_distinct_rows_sub by fast
    note sorted = sort_rows_sorted [OF out this]
    have "if rc_distinct ret then distinct out \<and> set out = f ` set bs else mset out = image_mset f (mset bs)"
      using distinct_rows_spec [OF ok, of "rc_distinct ret"] mset_eq_imp_distinct_iff [OF sorted(1)] mset_eq_setD [OF sorted(1)] sorted(1)
      by (auto split: if_splits)
    then show ?thesis using sorted(2) tab
      by (intro exI [of _ out]) (auto simp: plain_table_def limit_rows_def Let_def)
  qed
qed

text \<open>
  C32. The table does not depend on the order in which the bindings were enumerated: on values that
  are no floats, a RETURN without aggregates gives the same table for any arrangement of its
  bindings, with and without DISTINCT, ORDER BY and LIMIT.
\<close>

theorem project_order_independent:
  assumes plain: "\<not> list_ex (\<lambda>i. is_aggregate_expr (ri_expr i)) (rc_items ret)"
    and rows: "\<And>b. b \<in> set bs \<Longrightarrow> eval_row inventory view (rc_items ret) b = Inr (f b) \<and> list_all (comparable False) (f b)"
    and same: "mset bs' = mset bs"
    and t: "project inventory view ret bs tr = Inr t"
  shows "project inventory view ret bs' tr = Inr t"
proof -
  have set: "set bs' = set bs" using same by (rule mset_eq_setD)
  have ev: "eval_row inventory view (rc_items ret) b = Inr (f b)" if "b \<in> set bs" for b using rows that by simp
  have ev': "eval_row inventory view (rc_items ret) b = Inr (f b)" if "b \<in> set bs'" for b using rows that set by simp
  have default: "default_rows f bs' = default_rows f bs"
  proof -
    have "sort_by rep_row_cmp (map (\<lambda>b. (representative_node b, f b)) bs') = sort_by rep_row_cmp (map (\<lambda>b. (representative_node b, f b)) bs)"
    proof (rule rep_row.sort_by_mset [where fl = False])
      show "x = y" if "x \<in> {k. snd k \<in> comparable_rows False}" "y \<in> {k. snd k \<in> comparable_rows False}"
        "rep_row_cmp x y = Ord_Equal" for x y
        using that compare_equal_iff(2) [of "snd x" "snd y"]
        by (auto simp: rep_row_cmp_def node_first_cmp_def ord_cmp_def prod_eq_iff split: option.splits if_splits)
    qed (use rows set same in auto)
    then show ?thesis by (simp add: default_rows_def)
  qed
  show ?thesis
  proof (cases "rc_order_by ret = []")
    case True
    then show ?thesis using t default project_plain [OF plain ev] project_plain [OF plain ev'] by simp
  next
    case False
    have ok: "set (map f bs) \<subseteq> comparable_rows False" using rows by auto
    have mset: "mset (map f bs') = mset (map f bs)" using same by simp
    have "mset (distinct_rows (rc_distinct ret) (map f bs')) = mset (distinct_rows (rc_distinct ret) (map f bs))"
    proof -
      have "sort_by cmp_list (map f bs') = sort_by cmp_list (map f bs)"
        by (rule row_ord.sort_by_mset [where fl = False]) (use mset ok set compare_equal_iff(2) in auto)
      then show ?thesis using mset by (simp add: distinct_rows_def)
    qed
    moreover obtain out where "sort_rows (rc_order_by ret) ret (distinct_rows (rc_distinct ret) (map f bs)) = Inr out" "t = plain_table ret out tr"
      using t project_ordered [OF plain False ev] by blast
    moreover have "set (distinct_rows (rc_distinct ret) (map f bs)) \<subseteq> comparable_rows False"
      using ok set_distinct_rows_sub by fast
    ultimately have "sort_rows (rc_order_by ret) ret (distinct_rows (rc_distinct ret) (map f bs')) = Inr out"
      using sort_rows_mset by metis
    then show ?thesis using project_ordered [OF plain False ev'] \<open>t = plain_table ret out tr\<close> by blast
  qed
qed

text \<open>
  C31. A RETURN with aggregates groups the bindings by the values of its other items: on keys that
  are no floats there is one row per distinct key, made from exactly the bindings with that key in
  their order, and one row over no bindings when there is neither a key nor a binding.
\<close>

theorem project_groups:
  assumes agg: "list_ex (\<lambda>i. is_aggregate_expr (ri_expr i)) (rc_items ret)"
    and keys: "\<And>b. b \<in> set bs \<Longrightarrow>
      eval_row inventory view (filter (\<lambda>i. \<not> is_aggregate_expr (ri_expr i)) (rc_items ret)) b = Inr (f b) \<and> list_all (comparable False) (f b)"
    and all: "\<not> rc_distinct ret" "rc_limit ret = None"
    and t: "project inventory view ret bs tr = Inr t"
  shows "\<exists>ks. distinct ks \<and>
    set ks = (if bs = [] \<and> list_all (\<lambda>i. is_aggregate_expr (ri_expr i)) (rc_items ret) then {[]} else f ` set bs) \<and>
    mset (map Inr (rt_rows t)) = mset (map (\<lambda>k. group_row inventory view (rc_items ret) (filter (\<lambda>b. f b = k) bs)) ks)"
proof -
  let ?row = "group_row inventory view (rc_items ret)"
  obtain groups :: row_groups and rows where groups: "group_bindings inventory view (rc_items ret) bs = Inr groups"
    and rows: "try_map (\<lambda>(key, grp). ?row grp) groups = Inr rows"
    and "(if rc_order_by ret \<noteq> [] then sort_rows (rc_order_by ret) ret rows else Inr (sort_by cmp_list rows)) = Inr (rt_rows t)"
    using t agg all by (auto simp: project_def project_grouped_def distinct_rows_def limit_rows_def try_bind_Inr Let_def split del: if_split)
  then have mset: "mset (rt_rows t) = mset rows" by (metis mset_sort_by mset_sort_rows sum.inject(2))
  have ks: "set (map fst groups) = (if bs = [] \<and> list_all (\<lambda>i. is_aggregate_expr (ri_expr i)) (rc_items ret) then {[]} else f ` set bs)"
    and "distinct (map fst groups)" "\<forall>(k, g) \<in> set groups. g = filter (\<lambda>b. f b = k) bs"
    using group_bindings_grouped [OF groups, of f] keys by (auto simp: grouped_def split: if_splits)
  moreover have "map Inr rows = map (\<lambda>(key, grp). ?row grp) groups"
    using rows unfolding try_map_Inr by (induction groups rows rule: list_all2_induct) auto
  ultimately have "map Inr rows = map (\<lambda>k. ?row (filter (\<lambda>b. f b = k) bs)) (map fst groups)" by auto
  then have "mset (map Inr (rt_rows t)) = mset (map (\<lambda>k. ?row (filter (\<lambda>b. f b = k) bs)) (map fst groups))"
    unfolding mset_map [of Inr "rt_rows t"] mset by (metis mset_map)
  then show ?thesis using ks \<open>distinct (map fst groups)\<close> by blast
qed

section \<open>The scope of WITH\<close>

text \<open>
  C34. WITH is a scope horizon: every binding it passes on has exactly the columns that it lists,
  so that a variable of the clauses before that is not listed reads as null afterwards, and the
  number of bindings stays within its LIMIT.
\<close>

theorem with_scope:
  assumes "project_with inventory view w bs = Inr carried" "b \<in> set carried"
  shows "set (map fst b) = set (map column_name (wi_items w)) \<and>
    (sv_value x \<in> set (map column_name (wi_items w)) \<or> eval_expr inventory view (EProperty x []) b = Inr VNull)"
proof -
  have "set (map fst b) = set (map column_name (wi_items w))" by (rule project_with_keys [OF assms])
  moreover have "map_of b (sv_value x) = None" if "sv_value x \<notin> set (map fst b)" using that by (simp add: map_of_eq_None_iff)
  ultimately show ?thesis by (auto simp: eval_property_def)
qed

text \<open>The properties at concrete inputs.\<close>

definition int_table :: "string list \<Rightarrow> cql_value list list \<Rightarrow> result_table" where
  "int_table columns rows = \<lparr>rt_columns = columns, rt_rows = rows, rt_paths = [], rt_truncation = None\<rparr>"

lemma project_ordered_sample:
  "project [] sample_view (sample_return True [var_x] descending_x (Some 2)) (int_bindings [1, 3, 2, 3]) None = Inr (int_table [''x''] [[VInt 3], [VInt 2]])"
  by code_simp

theorem project_rows_witness:
  "\<exists>rows. [[VInt 3], [VInt 2]] = take 2 rows \<and> distinct rows \<and> set rows = int_row ` set (int_bindings [1, 3, 2, 3]) \<and>
    sorted_wrt (ordered_by descending_x (sample_return True [var_x] descending_x (Some 2))) rows"
  using project_rows [OF _ _ project_ordered_sample, where f = int_row] int_row_ok
  by (simp add: sample_return_sel sample_aggregates int_table_def descending_x_def)

theorem project_order_independent_witness:
  "project [] sample_view (sample_return True [var_x] descending_x (Some 2)) (int_bindings [3, 3, 2, 1]) None =
    Inr (int_table [''x''] [[VInt 3], [VInt 2]])"
  by (rule project_order_independent [OF _ _ _ project_ordered_sample, where f = int_row])
    (use int_row_ok in \<open>simp_all add: sample_return_sel sample_aggregates\<close>, simp add: int_bindings_def)

lemma project_grouped_sample:
  "project [] sample_view (sample_return False [var_x, count_star] [] None) (int_bindings [1, 3, 2, 3]) None =
    Inr (int_table [''x'', ''count(*)''] [[VInt 1, VInt 1], [VInt 2, VInt 1], [VInt 3, VInt 2]])"
  by code_simp

theorem project_groups_witness:
  "\<exists>ks. distinct ks \<and> set ks = int_row ` set (int_bindings [1, 3, 2, 3]) \<and>
    mset (map Inr [[VInt 1, VInt 1], [VInt 2, VInt 1], [VInt 3, VInt 2]]) =
    mset (map (\<lambda>k. group_row [] sample_view [sample_item var_x, sample_item count_star]
      (filter (\<lambda>b. int_row b = k) (int_bindings [1, 3, 2, 3]))) ks)"
proof -
  have "int_bindings [1, 3, 2, 3] \<noteq> []" by (simp add: int_bindings_def)
  then show ?thesis
    using project_groups [OF _ _ _ _ project_grouped_sample, where f = int_row] int_row_ok
    by (simp add: sample_return_sel sample_aggregates int_table_def)
qed

definition sample_with :: with_clause where
  "sample_with = \<lparr>wi_distinct = False, wi_items = [sample_item var_x], wi_order_by = [], wi_limit = None, wi_where = None\<rparr>"

theorem with_scope_witness:
  "set (map fst [(''x'', VInt 2)]) = set (map column_name (wi_items sample_with)) \<and>
    eval_expr [] sample_view (EProperty (sample_name ''y'') []) [(''x'', VInt 2)] = Inr VNull"
proof -
  have "project_with [] sample_view sample_with [[(''x'', VInt 2), (''y'', VInt 5)]] = Inr [[(''x'', VInt 2)]]" by code_simp
  from with_scope [OF this, of "[(''x'', VInt 2)]" "sample_name ''y''"] show ?thesis
    by (simp add: sample_with_def sample_item_def var_x_def sample_name_def column_name_def dotted_name_def)
qed

definition two_view :: graph_view where
  "two_view = graph_view_new [sample_node 0 ''app::main'' ''rust'' None, sample_node 1 ''app::load'' ''rust'' None]
     [sample_edge 0 0 1 Certain Always] []"

definition sample_end :: "string \<Rightarrow> node_pat" where
  "sample_end v = \<lparr>nd_var = Some v, nd_label = None, nd_props = []\<rparr>"

definition sample_rel :: "var_len option \<Rightarrow> rel_pat" where
  "sample_rel len = \<lparr>rl_var = Some ''r'', rl_direction = AstForward, rl_types = [], rl_var_len = len, rl_props = []\<rparr>"

definition sample_pattern :: "var_len option \<Rightarrow> path_pattern" where
  "sample_pattern len = \<lparr>pp_path_var = None, pp_start = sample_end ''a'', pp_steps = [(sample_rel len, sample_end ''b'')]\<rparr>"

definition call_query :: query where
  "call_query = \<lparr>q_parts =
     [\<lparr>qp_reading = [RMatch \<lparr>mc_patterns = [sample_pattern None], mc_where = None\<rparr>],
       qp_ret = Some (sample_return False [EProperty (sample_name ''b'') [sample_name ''name'']] [] (Some 3)), qp_with = None\<rparr>]\<rparr>"

theorem cql_eval_shape_witness:
  "cql_eval [] two_view call_query = Inr (int_table [''b.name''] [[VStr ''app::load'']]) \<and>
    list_all (\<lambda>row. length row = length [''b.name'']) [[VStr ''app::load'']]"
proof -
  have "cql_eval [] two_view call_query = Inr (int_table [''b.name''] [[VStr ''app::load'']])" by code_simp
  with cql_eval_shape [OF this] show ?thesis by (simp add: int_table_def)
qed

end
