(* ===== verification/Cql_Match_Properties.thy ===== *)
theory Cql_Match_Properties
  imports Cql_Types Cql_Eval_Properties
begin

text \<open>
  What a query matches: the meaning of one relationship and of a variable length pattern, the
  procedures of CALL, and the checks that rule out errors at run time.
\<close>

section \<open>The meaning of a pattern\<close>

definition hop_matches ::
  "graph_view \<Rightarrow> edge_record list \<Rightarrow> edge_filter \<Rightarrow> direction \<Rightarrow> node_pat \<Rightarrow> rel_pat \<Rightarrow> node_pat \<Rightarrow> binding \<Rightarrow>
    end_checks \<times> end_checks \<Rightarrow> binding set" where
  "hop_matches view es f dir start rel end_node base c =
     {match_binding start rel end_node s e d base | s e d.
        e \<in> set es \<and> passes view f e \<and> s = from_end dir e \<and> d = to_end dir e \<and> meets_at view (fst c) s \<and> meets_at view (snd c) d}"

definition length_matches ::
  "graph_view \<Rightarrow> edge_filter \<Rightarrow> direction \<Rightarrow> var_len \<Rightarrow> node_pat \<Rightarrow> node_pat \<Rightarrow> binding \<Rightarrow> end_checks \<times> end_checks \<Rightarrow> binding set" where
  "length_matches view f dir v start end_node base c =
     {bind_node (nd_var end_node) d (bind_node (nd_var start) s base) | s d.
        meets_at view (fst c) s \<and> meets_at view (snd c) d \<and>
        (\<exists>p. max 1 (case vl_min v of Some n \<Rightarrow> n | None \<Rightarrow> 1) \<le> length p \<and> length p \<le> (case vl_max v of Some n \<Rightarrow> n | None \<Rightarrow> 8) \<and>
          chain view f dir s p d)}"

lemma hop_matches_complete: "hop_matches view es f dir start rel end_node base (sc, ec) \<subseteq> hop_matches view es f dir start rel end_node base (hop_checks sc ec)"
proof -
  have "meets_at view (fst (hop_checks sc ec)) s \<and> meets_at view (snd (hop_checks sc ec)) d" if "meets_at view sc s" "meets_at view ec d" for s d
    using checks_complete that by blast
  then show ?thesis unfolding hop_matches_def fst_conv snd_conv by (intro Collect_mono impI) metis
qed

lemma length_matches_complete: "length_matches view f dir v start end_node base (sc, ec) \<subseteq> length_matches view f dir v start end_node base (length_checks sc ec)"
proof -
  have "meets_at view (fst (length_checks sc ec)) s \<and> meets_at view (snd (length_checks sc ec)) d" if "meets_at view sc s" "meets_at view ec d" for s d
    using checks_complete that by blast
  then show ?thesis unfolding length_matches_def fst_conv snd_conv by (intro Collect_mono impI) metis
qed

text \<open>
  C28. For a pattern of one relationship without a path variable, whose two ends have different
  variables (or an anonymous start): the result is exactly the admitted edges whose ends, in the
  written direction, pass the checks that the plan makes, each binding both ends and the
  relationship. These checks are all the constraints at the end that is not the anchor, and at the
  anchor (the more selective end, the start in case of a tie) its name alone when it has one and its
  kinds alone otherwise. So every match that the two node patterns describe is found, and nothing
  else is found whenever the anchor's own constraints are a name alone or kinds alone; for other
  anchors the result can be larger (lemmas anchor_drops_constraints and hop_finds_more).
\<close>

theorem match_single_hop:
  assumes "map n_id ns = [0..<length ns]"
    and "node_constraints start = Inr sc" "node_constraints end_node = Inr ec"
    and "rel_filter rel = Inr (f, invert)" "rl_var_len rel = None"
    and "nd_var start \<noteq> nd_var end_node \<or> nd_var start = None" "bt_wf base"
  shows "\<exists>plan. lower_pattern_chain \<lparr>pp_path_var = None, pp_start = start, pp_steps = [(rel, end_node)]\<rparr> = Inr [plan] \<and>
    (let found = set (fst (expand_pattern (graph_view_new ns es cs) plan ([base], tr)));
         matches = hop_matches (graph_view_new ns es cs) es f (walk_direction (rl_direction rel) invert) start rel end_node base
     in found = matches (hop_checks sc ec) \<and> matches (sc, ec) \<subseteq> found \<and>
        (captured (if start_is_anchor sc ec then sc else ec) \<longrightarrow> found = matches (sc, ec)))"
proof -
  have "dense (graph_view_new ns es cs)" using assms(1) by (simp add: dense_def node_count_def graph_view_new_fields)
  note mem = match_single_hop_mem [OF this assms(2-7), of _ tr]
  obtain plan where plan: "lower_pattern_chain \<lparr>pp_path_var = None, pp_start = start, pp_steps = [(rel, end_node)]\<rparr> = Inr [plan]"
    using mem by blast
  have found: "set (fst (expand_pattern (graph_view_new ns es cs) plan ([base], tr))) =
      hop_matches (graph_view_new ns es cs) es f (walk_direction (rl_direction rel) invert) start rel end_node base (hop_checks sc ec)"
  proof (rule set_eqI)
    fix b
    show "b \<in> set (fst (expand_pattern (graph_view_new ns es cs) plan ([base], tr))) \<longleftrightarrow>
      b \<in> hop_matches (graph_view_new ns es cs) es f (walk_direction (rl_direction rel) invert) start rel end_node base (hop_checks sc ec)"
      using mem [of b] plan by (auto simp: Let_def hop_matches_def)
  qed
  show ?thesis
    using plan found hop_matches_complete hop_checks_of_anchor [of sc ec] by (intro exI [of _ plan]) (simp add: Let_def)
qed

text \<open>
  C27. For a pattern of one variable length relationship without a path variable, whose two ends
  have different variables (or an anonymous start): the result binds only pairs of nodes that a
  chain of admitted edges joins whose length lies between the bounds, with 8 for a missing upper
  bound, and that pass the checks that the plan makes; when the result is not marked as truncated it
  binds all of them. A chain may return to its start. The checks are, at the anchor (the more
  selective end) and at the goals, the name alone when there is one, and otherwise the kinds at the
  anchor and everything at the goals. So an untruncated result contains every match that the two
  node patterns describe, and when both ends are constrained by a name alone or by kinds alone the
  result, truncated or not, contains nothing else.
\<close>

theorem match_var_length:
  assumes "map n_id ns = [0..<length ns]"
    and "node_constraints start = Inr sc" "node_constraints end_node = Inr ec"
    and "rel_filter rel = Inr (f, invert)" "rl_var_len rel = Some v"
    and "nd_var start \<noteq> nd_var end_node \<or> nd_var start = None" "bt_wf base"
  shows "\<exists>plan out tr. lower_pattern_chain \<lparr>pp_path_var = None, pp_start = start, pp_steps = [(rel, end_node)]\<rparr> = Inr [plan] \<and>
    expand_pattern (graph_view_new ns es cs) plan ([base], None) = (out, tr) \<and>
    (let matches = length_matches (graph_view_new ns es cs) f (walk_direction (rl_direction rel) invert) v start end_node base
     in set out \<subseteq> matches (length_checks sc ec) \<and>
        (tr \<noteq> None \<or> (set out = matches (length_checks sc ec) \<and> matches (sc, ec) \<subseteq> set out)) \<and>
        (captured sc \<and> captured ec \<longrightarrow> set out \<subseteq> matches (sc, ec) \<and> (tr \<noteq> None \<or> set out = matches (sc, ec))))"
proof -
  have "dense (graph_view_new ns es cs)" using assms(1) by (simp add: dense_def node_count_def graph_view_new_fields)
  from match_var_length_mem [OF this assms(2-7)] obtain plan out tr where
    run: "lower_pattern_chain \<lparr>pp_path_var = None, pp_start = start, pp_steps = [(rel, end_node)]\<rparr> = Inr [plan]"
      "expand_pattern (graph_view_new ns es cs) plan ([base], None) = (out, tr)"
    and out: "set out \<subseteq> length_matches (graph_view_new ns es cs) f (walk_direction (rl_direction rel) invert) v start end_node base (length_checks sc ec)"
      "tr \<noteq> None \<or> set out = length_matches (graph_view_new ns es cs) f (walk_direction (rl_direction rel) invert) v start end_node base (length_checks sc ec)"
    unfolding joined_def effective_max_depth_def default_var_length_depth_def length_matches_def Let_def by blast
  have "length_checks sc ec = (sc, ec)" if "captured sc \<and> captured ec" using that checks_of_captured_ends by blast
  then show ?thesis
    using run out length_matches_complete [of "graph_view_new ns es cs" f "walk_direction (rl_direction rel) invert" v start end_node base sc ec]
    by (intro exI [of _ plan] exI [of _ out] exI [of _ tr]) (auto simp: Let_def)
qed

section \<open>Checks before a query runs\<close>

text \<open>
  C30. Well-typed queries do not fail: for a query of one MATCH and a RETURN without aggregates
  whose patterns lower to plans that give every variable one type and whose expressions pass the
  checks and stay in the safe fragment, evaluation on a numbered view ends with a table. (The
  bindings keep the types that the plans recorded, so every node, relationship and path that an
  expression reads is one of the view.)
\<close>

theorem typed_query_runs:
  assumes "dense view" "numbered view" "plan_reading [RMatch m] = Inr plans"
    and "\<forall>plan \<in> set (concat plans). plan_agrees (plan_types plans) plan"
    and "validate_part \<lparr>qp_reading = [RMatch m], qp_ret = Some ret, qp_with = None\<rparr> (plan_types plans) = Inr ()"
    and "case mc_where m of Some w \<Rightarrow> safe_expr (plan_types plans) w | None \<Rightarrow> True"
    and "\<forall>item \<in> set (rc_items ret). safe_expr (plan_types plans) (ri_expr item) \<and> \<not> is_aggregate_expr (ri_expr item)"
    and "rc_order_by ret = []"
  shows "\<exists>t. cql_eval inventory view \<lparr>q_parts = [\<lparr>qp_reading = [RMatch m], qp_ret = Some ret, qp_with = None\<rparr>]\<rparr> = Inr t"
proof -
  have valid: "validate_opt (mc_where m) (plan_types plans) = Inr ()" "\<forall>item \<in> set (rc_items ret). validate_expr (ri_expr item) (plan_types plans) = Inr ()"
    using assms(5) by (auto simp: validate_part_def reading_where_def validate_items_def try_bind_Inr try_all_Inr)
  obtain bs tr where run: "run_reading inventory view [RMatch m] plans ([[]], None) = Inr (bs, tr)"
    and typed: "\<forall>b \<in> set bs. well_typed view (plan_types plans) b"
    using match_runs [OF assms(1-4) valid(1) assms(6)] by blast
  have "\<exists>row. eval_row inventory view (rc_items ret) b = Inr row" if "b \<in> set bs" for b
    unfolding eval_row_def
    by (rule try_map_total) (use eval_expr_total typed that valid(2) assms(7) in blast)
  then have rows: "eval_row inventory view (rc_items ret) b = Inr (projr (eval_row inventory view (rc_items ret) b))" if "b \<in> set bs" for b
    using that by force
  have plain: "\<not> list_ex (\<lambda>i. is_aggregate_expr (ri_expr i)) (rc_items ret)" using assms(7) by (auto simp: list_ex_iff)
  have "\<exists>t. project inventory view ret bs tr = Inr t"
    using project_plain [OF plain rows] assms(8) by simp
  moreover have "eval_reading inventory view \<lparr>qp_reading = [RMatch m], qp_ret = Some ret, qp_with = None\<rparr> ([[]], None) = Inr (bs, tr)"
    using assms(3,5) run by (simp add: eval_reading_def del: plan_reading.simps run_reading.simps)
  ultimately show ?thesis by (simp add: cql_eval_def)
qed

section \<open>Procedures\<close>

text \<open>
  C29. The data-flow procedures answer reachability: a CALL with a literal name that yields only the
  symbol column returns, and its results are exactly the qualified names of the other nodes that a chain of at
  most 8 data-flow edges joins with a node the name resolves to, forward for the fan-out and
  backward for the pedigree.
\<close>

theorem procedure_reaches:
  assumes "dense view" "resolve_proc call = Inr plan" "cl_args call = [ELiteral (VStr name)]" "cl_where call = None"
    and "cl_yields call = [\<lparr>yi_name = col, yi_alias = None\<rparr>]" "sv_value col = pr_symbol_column plan"
  shows "\<exists>bs. eval_call inventory view call [base] = Inr bs \<and> set bs = {bt_insert (pr_symbol_column plan) (VStr (n_fqn node)) base | node a n p.
    a \<in> set (resolve_symbol view (name_pattern name)) \<and> try_node view n = Some node \<and> n \<noteq> a \<and>
    chain view (with_kinds [DerivesFrom] edge_filter_calls) (pr_direction plan) a p n \<and> length p \<le> 8}"
proof -
  let ?f = "with_kinds [DerivesFrom] edge_filter_calls"
  have mem: "n \<in> dc_node ` set (bfs proc_walker view a dir) \<longleftrightarrow> n \<noteq> a \<and> (\<exists>p. chain view ?f dir a p n \<and> length p \<le> 8)" for n a dir
  proof -
    have "a \<notin> dc_node ` set (bfs proc_walker view a dir)" using bfs_nodes_distinct [of a proc_walker view dir] by auto
    then have "n \<in> dc_node ` set (bfs proc_walker view a dir) \<longleftrightarrow> n \<noteq> a \<and> reach proc_walker view dir a n"
      using bfs_reach [of a proc_walker view dir] by blast
    then show ?thesis
      by (auto simp: reach_def edge_walk_chain proc_walker_def within_depth_def default_var_length_depth_def)
  qed
  have bound: "bind_yields call plan fqn conf base = bt_insert (pr_symbol_column plan) (VStr fqn) base" for fqn conf
    using assms(5,6) by (simp add: bind_yields_def yield_column_def)
  have "validate_call call = Inr ()"
    using assms(2,5,6) by (simp add: validate_call_def proc_produces_def)
  moreover obtain bs where rows: "call_rows inventory view call plan base = Inr bs"
    and bs: "bs = List.map_filter (\<lambda>(node, _, conf). map_option (\<lambda>n. bind_yields call plan (n_fqn n) conf base) (try_node view node))
      (sort_key (\<lambda>(node, edge, _). (node, edge)) (concat (map (reached_from view (pr_direction plan)) (resolve_symbol view (name_pattern name)))))"
    using assms(3,4) by (simp add: call_rows_def resolve_arg_def Let_def)
  ultimately have run: "eval_call inventory view call [base] = Inr bs"
    using assms(2) by (simp add: eval_call_def)
  have "b \<in> set bs \<longleftrightarrow> (\<exists>a \<in> set (resolve_symbol view (name_pattern name)). \<exists>d \<in> set (bfs proc_walker view a (pr_direction plan)).
      \<exists>node. try_node view (dc_node d) = Some node \<and> b = bt_insert (pr_symbol_column plan) (VStr (n_fqn node)) base)" for b
    unfolding bs set_map_filter by (simp add: bound reached_from_def map_option_eq_Some) blast
  then have "b \<in> set bs \<longleftrightarrow> (\<exists>node a n. b = bt_insert (pr_symbol_column plan) (VStr (n_fqn node)) base \<and>
      a \<in> set (resolve_symbol view (name_pattern name)) \<and> try_node view n = Some node \<and>
      n \<in> dc_node ` set (bfs proc_walker view a (pr_direction plan)))" for b
    unfolding image_iff by metis
  then show ?thesis unfolding run mem by (intro exI [of _ bs]) (simp add: set_eq_iff)
qed

section \<open>Concrete inputs\<close>

lemma sample_constraints:
  "node_constraints (sample_end v) = Inr ([], None)" "captured ([], None)"
  "rel_filter (sample_rel len) = Inr (edge_filter_calls, False)" "rl_var_len (sample_rel len) = len"
  "nd_var (sample_end v) = Some v" "rl_direction (sample_rel len) = AstForward"
  by (simp_all add: node_constraints_def sample_end_def captured_def rel_filter_def sample_rel_def apply_rel_props_def)

lemma sample_ids: "map n_id sample_nodes = [0..<length sample_nodes]"
  by (simp add: sample_nodes_def sample_node_def upt_rec)

theorem match_single_hop_witness:
  "\<exists>plan. lower_pattern_chain (sample_pattern None) = Inr [plan] \<and>
    set (fst (expand_pattern sample_view plan ([[]], None))) =
      {match_binding (sample_end ''a'') (sample_rel None) (sample_end ''b'') s e d [] | s e d.
        e \<in> set sample_edges \<and> passes sample_view edge_filter_calls e \<and> s = from_end Forward e \<and> d = to_end Forward e \<and>
        meets_at sample_view ([], None) s \<and> meets_at sample_view ([], None) d}"
  using match_single_hop [OF sample_ids sample_constraints(1,1,3), of None "''a''" "''b''" "[]" sample_edges "[]" None]
  unfolding sample_view_def
  by (fastforce simp: sample_constraints sample_pattern_def walk_direction_def hop_matches_def Let_def)

definition long_pattern :: path_pattern where
  "long_pattern = sample_pattern (Some \<lparr>vl_min = None, vl_max = Some 3\<rparr>)"

lemma long_untruncated:
  "lower_pattern_chain long_pattern = Inr [plan] \<Longrightarrow> snd (expand_pattern sample_view plan ([[]], None)) = None"
proof -
  have "snd (expand_pattern sample_view (hd (projr (lower_pattern_chain long_pattern))) ([[]], None)) = None" by code_simp
  then show "lower_pattern_chain long_pattern = Inr [plan] \<Longrightarrow> snd (expand_pattern sample_view plan ([[]], None)) = None" by simp
qed

theorem match_var_length_witness:
  "\<exists>plan out. lower_pattern_chain long_pattern = Inr [plan] \<and>
    expand_pattern sample_view plan ([[]], None) = (out, None) \<and>
    set out = {bind_node (Some ''b'') d (bind_node (Some ''a'') s []) | s d.
      meets_at sample_view ([], None) s \<and> meets_at sample_view ([], None) d \<and>
      (\<exists>p. max 1 1 \<le> length p \<and> length p \<le> 3 \<and> chain sample_view edge_filter_calls Forward s p d)}"
proof -
  obtain plan out tr where run: "lower_pattern_chain long_pattern = Inr [plan]" "expand_pattern sample_view plan ([[]], None) = (out, tr)"
    and out: "tr \<noteq> None \<or> set out = length_matches sample_view edge_filter_calls Forward \<lparr>vl_min = None, vl_max = Some 3\<rparr>
      (sample_end ''a'') (sample_end ''b'') [] (([], None), ([], None))"
    using match_var_length [OF sample_ids sample_constraints(1,1,3),
      of "Some \<lparr>vl_min = None, vl_max = Some 3\<rparr>" "\<lparr>vl_min = None, vl_max = Some 3\<rparr>" "''a''" "''b''" "[]" sample_edges "[]"]
    unfolding sample_view_def long_pattern_def
    by (fastforce simp: sample_constraints sample_pattern_def walk_direction_def Let_def)
  have "tr = None" using long_untruncated [OF run(1)] run(2) by simp
  with out run show ?thesis by (auto simp: length_matches_def sample_constraints)
qed

definition typed_match :: match_clause where
  "typed_match = \<lparr>mc_patterns = [sample_pattern None],
     mc_where = Some (EBinary BEq (EProperty (sample_name ''b'') [sample_name ''name'']) (ELiteral (VStr ''app::load'')) (0, 0))\<rparr>"

definition typed_return :: return_clause where
  "typed_return = sample_return False [EProperty (sample_name ''r'') [sample_name ''kind'']] [] None"

definition typed_plans :: "pattern_plan list list" where
  "typed_plans = projr (plan_reading [RMatch typed_match])"

theorem typed_query_runs_witness:
  "\<exists>t. cql_eval [] two_view \<lparr>q_parts = [\<lparr>qp_reading = [RMatch typed_match], qp_ret = Some typed_return, qp_with = None\<rparr>]\<rparr> = Inr t"
proof (rule typed_query_runs)
  show "dense two_view" "numbered two_view"
    by (simp_all add: dense_def numbered_def node_count_def two_view_def graph_view_new_fields sample_node_def sample_edge_def upt_rec)
  show "plan_reading [RMatch typed_match] = Inr typed_plans" by code_simp
  show "\<forall>plan \<in> set (concat typed_plans). plan_agrees (plan_types typed_plans) plan" by code_simp
  show "validate_part \<lparr>qp_reading = [RMatch typed_match], qp_ret = Some typed_return, qp_with = None\<rparr> (plan_types typed_plans) = Inr ()"
    by code_simp
  show "case mc_where typed_match of Some w \<Rightarrow> safe_expr (plan_types typed_plans) w | None \<Rightarrow> True" by code_simp
  show "\<forall>item \<in> set (rc_items typed_return). safe_expr (plan_types typed_plans) (ri_expr item) \<and> \<not> is_aggregate_expr (ri_expr item)"
    by code_simp
  show "rc_order_by typed_return = []" by (simp add: typed_return_def sample_return_sel)
qed

definition flow_view :: graph_view where
  "flow_view = graph_view_new [sample_node 0 ''app::src'' ''rust'' None, sample_node 1 ''app::dst'' ''rust'' None]
     [(sample_edge 0 0 1 Certain Always)\<lparr>e_kind := DerivesFrom\<rparr>] []"

definition fanout_call :: call_clause where
  "fanout_call = \<lparr>cl_proc = sample_name ''cgx.mutation_fanout'', cl_args = [ELiteral (VStr ''src'')],
     cl_yields = [\<lparr>yi_name = sample_name ''mutator'', yi_alias = None\<rparr>], cl_where = None\<rparr>"

theorem procedure_reaches_witness:
  "\<exists>bs. eval_call [] flow_view fanout_call [[]] = Inr bs \<and> set bs = {bt_insert ''mutator'' (VStr (n_fqn node)) [] | node a n p.
    a \<in> set (resolve_symbol flow_view (name_pattern ''src'')) \<and> try_node flow_view n = Some node \<and> n \<noteq> a \<and>
    chain flow_view (with_kinds [DerivesFrom] edge_filter_calls) Forward a p n \<and> length p \<le> 8}"
proof -
  have "dense flow_view"
    by (simp add: dense_def node_count_def flow_view_def graph_view_new_fields sample_node_def upt_rec)
  moreover have "resolve_proc fanout_call = Inr \<lparr>pr_direction = Forward, pr_symbol_column = ''mutator''\<rparr>" by code_simp
  ultimately show ?thesis
    using procedure_reaches [of flow_view fanout_call "\<lparr>pr_direction = Forward, pr_symbol_column = ''mutator''\<rparr>" "''src''" "sample_name ''mutator''" "[]" "[]"]
    by (simp add: fanout_call_def sample_name_def)
qed

section \<open>Where matching departs from its description\<close>

definition named_end :: "string \<Rightarrow> node_pat" where
  "named_end s = (sample_end ''x'')\<lparr>nd_props := [\<lparr>prop_key = sample_name ''name'', prop_value = VStr s\<rparr>]\<rparr>"

definition named_pattern :: "string option \<Rightarrow> string \<Rightarrow> path_pattern" where
  "named_pattern path s = \<lparr>pp_path_var = path, pp_start = sample_end ''m'', pp_steps = [(sample_rel None, named_end s)]\<rparr>"

text \<open>
  A pattern predicate forgets a bound variable when the other end is the anchor: no edge leaves the
  second node, and the predicate that it calls the first one holds.
\<close>

lemma pattern_exists_forgets_bound:
  "pattern_exists two_view (named_pattern None ''app::load'') [(''m'', VNode 1)] = Inr True"
  "neighbors two_view 1 Forward edge_filter_calls = []"
  by code_simp+

text \<open>A path variable lists the nodes from the anchor, here from the written end to the start.\<close>

lemma path_reversed:
  "map_option (\<lambda>plans. fst (fold (expand_pattern two_view) plans ([[]], None)))
     (case lower_pattern_chain (named_pattern (Some ''p'') ''app::load'') of Inr plans \<Rightarrow> Some plans | Inl _ \<Rightarrow> None)
   = Some [[(''m'', VNode 0), (''p'', VPath \<lparr>pv_nodes = [1, 0], pv_edges = [0]\<rparr>), (''r'', VEdge 0), (''x'', VNode 1)]]"
  by code_simp

text \<open>A chain that returns to its start is matched by MATCH and not by the predicate.\<close>

definition loop_view :: graph_view where
  "loop_view = graph_view_new [sample_node 0 ''app::f'' ''rust'' None] [sample_edge 0 0 0 Certain Always] []"

lemma predicate_misses_cycle:
  "pattern_exists loop_view (sample_pattern (Some \<lparr>vl_min = None, vl_max = None\<rparr>)) [(''a'', VNode 0)] = Inr False"
  "reachable_within (step_walker (projr (lower_pattern (sample_pattern (Some \<lparr>vl_min = None, vl_max = None\<rparr>)))) None) loop_view 0 Forward 1 = [0]"
  by code_simp+

text \<open>The other constraints of an end with a name are dropped when it is the anchor.\<close>

lemma anchor_drops_constraints:
  "anchor_set_of [\<lparr>npr_field = FqnField, npr_value = VStr s\<rparr>, p] kinds = AnchorSymbol (name_pattern s)"
  by (simp add: anchor_set_of_def symbol_pattern_from_name)

text \<open>So a hop can find an edge whose start is of another kind than its pattern asks for.\<close>

definition labelled_pattern :: path_pattern where
  "labelled_pattern = \<lparr>pp_path_var = None, pp_start = (named_end ''app::main'')\<lparr>nd_label := Some (sample_name ''type'')\<rparr>,
     pp_steps = [(sample_rel None, sample_end ''b'')]\<rparr>"

lemma hop_finds_more:
  "length (fst (fold (expand_pattern two_view) (projr (lower_pattern_chain labelled_pattern)) ([[]], None))) = 1 \<and>
   map n_kind (filter (\<lambda>n. n_fqn n = ''app::main'') (gv_nodes two_view)) = [Function]"
  by code_simp

lemma anchor_drops_file:
  "anchor_set_of [\<lparr>npr_field = FileField, npr_value = v\<rparr>] (Some kinds) = AnchorKinds kinds"
  by (simp add: anchor_set_of_def)

end
