(* ===== verification/Query_Contract.thy ===== *)
theory Query_Contract
  imports Query_Engine
begin

text \<open>
  The approximation contract of an answer (cgx-query/src/contract.rs): in which direction the answer
  can be wrong and why. A scan of the nodes that a walk touched counts what the walk could not
  follow; the reasons are folded into a direction, and a negative answer carries the scope that was
  searched. Counts are \<open>u64\<close> and \<open>usize\<close> in the code and far from their bounds; they are naturals
  here.
\<close>

subsection \<open>Directions, reasons, scope\<close>

datatype approx_direction = ApproxExact | ApproxOver | ApproxUnder | ApproxOverUnder

datatype reason_direction = ReasonOver | ReasonUnder

record approx_reason =
  ar_direction :: reason_direction
  ar_code :: string
  ar_detail :: string

record negative_scope =
  ng_searched_edge_kinds :: "edge_kind list"
  ng_confidence_floor :: confidence
  ng_max_depth :: "nat option"

definition modeled_graph_text :: string where
  "modeled_graph_text = ''descended function bodies in the indexed repository; '' @
     ''external/unindexed callees, undescended closure bodies, and unexpanded macros are '' @
     ''outside the modeled graph''"

record approximation_contract =
  ac_direction :: approx_direction
  ac_reasons :: "approx_reason list"
  ac_modeled_graph :: string
  ac_scope :: "negative_scope option"

definition contract_exact :: approximation_contract where
  "contract_exact =
     \<lparr>ac_direction = ApproxExact, ac_reasons = [], ac_modeled_graph = modeled_graph_text, ac_scope = None\<rparr>"

definition assemble_with :: "approx_reason list \<Rightarrow> negative_scope option \<Rightarrow> string \<Rightarrow> approximation_contract" where
  "assemble_with reasons scope modeled =
     (let over = list_ex (\<lambda>r. ar_direction r = ReasonOver) reasons;
          under = list_ex (\<lambda>r. ar_direction r = ReasonUnder) reasons
      in \<lparr>ac_direction =
            (case (over, under) of
               (False, False) \<Rightarrow> ApproxExact
             | (True, False) \<Rightarrow> ApproxOver
             | (False, True) \<Rightarrow> ApproxUnder
             | (True, True) \<Rightarrow> ApproxOverUnder),
          ac_reasons = reasons, ac_modeled_graph = modeled, ac_scope = scope\<rparr>)"

definition assemble :: "approx_reason list \<Rightarrow> negative_scope option \<Rightarrow> approximation_contract" where
  "assemble reasons scope = assemble_with reasons scope modeled_graph_text"

subsection \<open>The line of the contract\<close>

fun contract_confidence_token :: "confidence \<Rightarrow> string" where
  "contract_confidence_token Possible = ''possible''"
| "contract_confidence_token Probable = ''probable''"
| "contract_confidence_token Certain = ''certain''"

fun contract_edge_kind_token :: "edge_kind \<Rightarrow> string" where
  "contract_edge_kind_token Calls = ''calls''"
| "contract_edge_kind_token CallsVirtual = ''calls-virtual''"
| "contract_edge_kind_token CallsClosure = ''calls-closure''"
| "contract_edge_kind_token CallsCallback = ''calls-callback''"
| "contract_edge_kind_token CallsAsync = ''calls-async''"
| "contract_edge_kind_token CallsIndirect = ''calls-indirect''"
| "contract_edge_kind_token Spawns = ''spawns''"
| "contract_edge_kind_token DerivesFrom = ''derives-from''"
| "contract_edge_kind_token _ = ''other''"

definition family_label :: "negative_scope \<Rightarrow> string" where
  "family_label scope =
     (if list_all is_call (ng_searched_edge_kinds scope) then ''call''
      else if ng_searched_edge_kinds scope = [DerivesFrom] then ''data-flow''
      else str_join '','' (map contract_edge_kind_token (ng_searched_edge_kinds scope)))"

text \<open>The three bytes of the dash in the line.\<close>

definition em_dash :: string where
  "em_dash = [CHR 0xE2, CHR 0x80, CHR 0x94]"

definition human_summary :: "approximation_contract \<Rightarrow> string" where
  "human_summary c =
     (let dir = (case ac_direction c of
             ApproxExact \<Rightarrow> ''exact (within modeled graph)''
           | ApproxOver \<Rightarrow> ''over-approximate''
           | ApproxUnder \<Rightarrow> ''under-approximate''
           | ApproxOverUnder \<Rightarrow> ''over- and under-approximate'');
          s = ''approximation: '' @ dir;
          s = (if ac_reasons c \<noteq> [] then s @ '' '' @ em_dash @ '' '' @ str_join ''; '' (map ar_detail (ac_reasons c)) else s)
      in case ac_scope c of
           None \<Rightarrow> s
         | Some scope \<Rightarrow>
             s @ '' | scope: '' @ family_label scope @ '' edges, confidence>='' @
             contract_confidence_token (ng_confidence_floor scope) @ '', depth'' @
             (case ng_max_depth scope of Some d \<Rightarrow> ''<='' @ show_nat d | None \<Rightarrow> ''=unbounded''))"

subsection \<open>Reasons\<close>

abbreviation under_reason :: "string \<Rightarrow> string \<Rightarrow> approx_reason" where
  "under_reason code detail \<equiv> \<lparr>ar_direction = ReasonUnder, ar_code = code, ar_detail = detail\<rparr>"

definition over_candidate_reason :: approx_reason where
  "over_candidate_reason =
     \<lparr>ar_direction = ReasonOver, ar_code = ''over-approx-candidate-set'',
      ar_detail = ''resolved through an over-approximated candidate set (dynamic dispatch or '' @
        ''name-collision); some reported edges may not occur''\<rparr>"

fun cut_phrase :: "cut_marker \<Rightarrow> string \<times> string" where
  "cut_phrase Unresolved = (''unresolved-call'', ''external/unindexed callees not modeled (no SCIP)'')"
| "cut_phrase Dynamic = (''dynamic-dispatch'', ''dynamic/plugin dispatch not resolved'')"
| "cut_phrase Reflective = (''reflective-dispatch'', ''reflective/string-computed dispatch not resolved'')"
| "cut_phrase ViaFfi = (''foreign-function'', ''calls crossing an FFI boundary not modeled'')"
| "cut_phrase ViaDi = (''dependency-injection'', ''dependency-injection dispatch not resolved'')"
| "cut_phrase UnexpandedMacro = (''unexpanded-macro'', ''calls inside unexpanded macros not modeled'')"
| "cut_phrase OpaqueCall = (''opaque-dataflow'', ''dataflow through an un-summarized callee not modeled'')"
| "cut_phrase TruncatedAccessPath =
     (''truncated-access-path'', ''deep field-access dataflow truncated to its base value'')"
| "cut_phrase SummaryBudgetExceeded =
     (''summary-budget'', ''interprocedural dataflow summary budget exhausted'')"
| "cut_phrase External = (''external-receiver'', ''call on an out-of-repo receiver type not modeled'')"
| "cut_phrase UntypedReceiver = (''untyped-receiver'', ''call on a receiver of unknown type not modeled'')"

definition cut_reason :: "cut_marker \<Rightarrow> nat \<Rightarrow> approx_reason" where
  "cut_reason marker cnt =
     (case cut_phrase marker of (code, phrase) \<Rightarrow>
        under_reason code (phrase @ '' ('' @ show_nat cnt @ '' site(s) on the searched frontier)''))"

definition below_floor_reason :: "confidence \<Rightarrow> nat \<Rightarrow> approx_reason" where
  "below_floor_reason floor cnt = under_reason ''below-confidence-floor''
     (show_nat cnt @ '' edge(s) below the confidence>='' @ contract_confidence_token floor @
      '' floor were excluded from the search'')"

definition dropped_max_candidates_reason :: "nat \<Rightarrow> nat \<Rightarrow> approx_reason" where
  "dropped_max_candidates_reason mx cnt = under_reason ''dropped-max-candidates''
     (show_nat cnt @ '' edge(s) in a candidate set larger than '' @ show_nat mx @
      '' were excluded from the search '' @ ''(--max-candidates fan-out cap)'')"

definition depth_limit_reason :: "nat \<Rightarrow> approx_reason" where
  "depth_limit_reason depth = under_reason ''depth-limit''
     (''search stopped at depth '' @ show_nat depth @ ''; deeper edges were not explored'')"

definition dangling_refs_reason :: "nat \<Rightarrow> approx_reason" where
  "dangling_refs_reason cnt = under_reason ''unresolved-external-calls''
     (show_nat cnt @ '' call(s) in the searched region resolved to no in-repo target '' @
      ''(external/unindexed callee; no SCIP) and could not be followed'')"

definition external_receiver_calls_reason :: "nat \<Rightarrow> approx_reason" where
  "external_receiver_calls_reason cnt = under_reason ''external-receiver-calls''
     (show_nat cnt @ '' call(s) on receivers of out-of-repo types (builtin, stdlib or library) '' @
      ''have no in-repo target and could not be followed'')"

definition receiver_narrowed_reason :: "nat \<Rightarrow> approx_reason" where
  "receiver_narrowed_reason cnt = under_reason ''receiver-narrowed''
     (show_nat cnt @ '' virtual call site(s) were bound by receiver typing (self/cls/super, class '' @
      ''heads, annotations, constructors, fields); targets outside the inferred type are '' @
      ''excluded and are reachable only if a typing assumption fails (monkey-patching or '' @
      ''methods assigned from outside the class family, untruthful annotations, '' @
      ''attributes set dynamically, a metaclass that makes a constructor return another '' @
      ''class)'')"

definition receiver_narrowed_interproc_reason :: "nat \<Rightarrow> approx_reason" where
  "receiver_narrowed_interproc_reason cnt = under_reason ''receiver-narrowed-interproc''
     (show_nat cnt @ '' site(s) were bound using argument/return/fixture typing, which assumes '' @
      ''every caller of the typed function is in the indexed repo'')"

definition residual_import_visible_reason :: "nat \<Rightarrow> nat \<Rightarrow> approx_reason" where
  "residual_import_visible_reason bounded dropped = under_reason ''residual-import-visible''
     (show_nat (bounded + dropped) @ '' untyped-receiver call site(s) were limited to methods of classes the '' @
      ''caller's file defines or imports, plus their subclasses ('' @ show_nat dropped @ '' left with no '' @
      ''target); this rule is not sound for duck typing: an object can reach a module '' @
      ''that never imports its class'')"

definition receiver_narrowed_away_reason :: "nat \<Rightarrow> approx_reason" where
  "receiver_narrowed_away_reason cnt = under_reason ''receiver-narrowed-away''
     (show_nat cnt @ '' same-name virtual call site(s) were bound by receiver typing to other '' @
      ''targets; they could reach the searched symbols only if a typing assumption fails'')"

definition receiver_narrowed_away_interproc_reason :: "nat \<Rightarrow> approx_reason" where
  "receiver_narrowed_away_interproc_reason cnt = under_reason ''receiver-narrowed-away-interproc''
     (show_nat cnt @ '' same-name virtual call site(s) were bound by argument/return/fixture typing '' @
      ''to other targets; they could reach the searched symbols only if a typing assumption '' @
      ''fails or a caller of the typed function is outside the indexed repo'')"

definition residual_narrowed_away_reason :: "nat \<Rightarrow> approx_reason" where
  "residual_narrowed_away_reason cnt = under_reason ''residual-narrowed-away''
     (show_nat cnt @ '' same-name untyped-receiver call site(s) excluded the searched symbols '' @
      ''because their classes are not import-visible to the caller; not sound for duck '' @
      ''typing'')"

fun truncation_reason_of :: "truncation_reason \<Rightarrow> approx_reason" where
  "truncation_reason_of StepBudget = under_reason ''truncated-step-budget''
     ''path enumeration hit the work budget; more paths may exist''"
| "truncation_reason_of PathCap = under_reason ''truncated-path-cap''
     ''path enumeration hit the result cap; more paths may exist''"

subsection \<open>The scan of the frontier\<close>

record frontier_facts =
  ff_dangling_refs :: nat
  ff_external_calls :: nat
  ff_typed_out :: nat
  ff_interproc_out :: nat
  ff_visible_out :: nat
  ff_visible_dropped_out :: nat
  ff_typed_away_in :: nat
  ff_interproc_away_in :: nat
  ff_visible_away_in :: nat
  ff_cut_counts :: "(cut_marker, nat) btree_map"
  ff_below_floor :: nat
  ff_dropped_max_candidates :: nat
  ff_depth_truncated :: bool

definition frontier_facts_default :: frontier_facts where
  "frontier_facts_default =
     \<lparr>ff_dangling_refs = 0, ff_external_calls = 0, ff_typed_out = 0, ff_interproc_out = 0,
      ff_visible_out = 0, ff_visible_dropped_out = 0, ff_typed_away_in = 0, ff_interproc_away_in = 0,
      ff_visible_away_in = 0, ff_cut_counts = [], ff_below_floor = 0, ff_dropped_max_candidates = 0,
      ff_depth_truncated = False\<rparr>"

text \<open>A reason for every count that is not zero, in the fixed order of the code.\<close>

definition counted :: "nat \<Rightarrow> (nat \<Rightarrow> approx_reason) \<Rightarrow> approx_reason list" where
  "counted cnt reason = (if cnt > 0 then [reason cnt] else [])"

definition into_reasons :: "path_walker \<Rightarrow> frontier_facts \<Rightarrow> approx_reason list" where
  "into_reasons w facts =
     counted (ff_dangling_refs facts) dangling_refs_reason @
     counted (ff_external_calls facts) external_receiver_calls_reason @
     counted (ff_typed_out facts) receiver_narrowed_reason @
     counted (ff_interproc_out facts) receiver_narrowed_interproc_reason @
     (if ff_visible_out facts + ff_visible_dropped_out facts > 0
      then [residual_import_visible_reason (ff_visible_out facts) (ff_visible_dropped_out facts)] else []) @
     counted (ff_typed_away_in facts) receiver_narrowed_away_reason @
     counted (ff_interproc_away_in facts) receiver_narrowed_away_interproc_reason @
     counted (ff_visible_away_in facts) residual_narrowed_away_reason @
     map (\<lambda>(marker, cnt). cut_reason marker cnt) (ff_cut_counts facts) @
     counted (ff_below_floor facts) (below_floor_reason (ef_min_confidence (pw_filter w))) @
     (case ef_max_candidates (pw_filter w) of
        Some mx \<Rightarrow> counted (ff_dropped_max_candidates facts) (dropped_max_candidates_reason mx)
      | None \<Rightarrow> []) @
     (case pw_max_depth w of
        Some d \<Rightarrow> if ff_depth_truncated facts then [depth_limit_reason d] else []
      | None \<Rightarrow> [])"

text \<open>
  The nodes that a walk from the roots touches, with their least depth. \<open>depth_of\<close> starts at the
  largest \<open>u32\<close>, which is written None; only touched nodes are looked up.
\<close>

type_synonym touch_state = "(nat \<Rightarrow> bool) \<times> (nat \<Rightarrow> nat option) \<times> node_id list"

definition touch_root :: "nat \<Rightarrow> node_id \<Rightarrow> touch_state \<Rightarrow> touch_state" where
  "touch_root n r st =
     (case st of (reached, depth_of, touched) \<Rightarrow>
        case checked_index r n of
          Some i \<Rightarrow> if reached i then st else (reached(i := True), depth_of(i := Some 0), touched @ [r])
        | None \<Rightarrow> st)"

definition least_depth :: "nat option \<Rightarrow> nat \<Rightarrow> nat option" where
  "least_depth known d = (case known of None \<Rightarrow> Some d | Some k \<Rightarrow> Some (min k d))"

definition touch_discovered :: "nat \<Rightarrow> discovered \<Rightarrow> touch_state \<Rightarrow> touch_state" where
  "touch_discovered n d st =
     (case st of (reached, depth_of, touched) \<Rightarrow>
        case checked_index (dc_node d) n of
          Some i \<Rightarrow>
            (if reached i then (reached, depth_of(i := least_depth (depth_of i) (dc_depth d)), touched)
             else (reached(i := True), depth_of(i := least_depth (depth_of i) (dc_depth d)), touched @ [dc_node d]))
        | None \<Rightarrow> st)"

definition touch_all :: "graph_view \<Rightarrow> path_walker \<Rightarrow> node_id list \<Rightarrow> direction \<Rightarrow> touch_state" where
  "touch_all view w roots dir =
     fold (\<lambda>r. fold (touch_discovered (node_count view)) (bfs w view r dir)) roots
       (fold (touch_root (node_count view)) roots (\<lambda>_. False, \<lambda>_. None, []))"

definition scan_filter_of :: "path_walker \<Rightarrow> edge_filter" where
  "scan_filter_of w =
     \<lparr>ef_min_confidence = Possible, ef_condition = AnyCondition, ef_kinds = ef_kinds (pw_filter w),
      ef_max_candidates = None\<rparr>"

definition is_call_scope :: "path_walker \<Rightarrow> bool" where
  "is_call_scope w = (case ef_kinds (pw_filter w) of None \<Rightarrow> True | Some ks \<Rightarrow> list_all is_call ks)"

text \<open>An edge on the frontier: its markers, and the first of the two bounds that excluded it.\<close>

definition over_cap :: "graph_view \<Rightarrow> path_walker \<Rightarrow> edge_record \<Rightarrow> bool" where
  "over_cap view w edge =
     (case (ef_max_candidates (pw_filter w), e_candidate_group edge) of
        (Some mx, Some grp) \<Rightarrow> candidate_group_size view grp > mx
      | _ \<Rightarrow> False)"

definition scan_edge :: "graph_view \<Rightarrow> path_walker \<Rightarrow> edge_ref \<Rightarrow> frontier_facts \<Rightarrow> frontier_facts" where
  "scan_edge view w er facts =
     (let edge = er_edge er;
          facts = facts\<lparr>ff_cut_counts := fold bt_bump (cut_markers_iter (e_cut_markers edge)) (ff_cut_counts facts)\<rparr>
      in if e_confidence edge < ef_min_confidence (pw_filter w)
         then facts\<lparr>ff_below_floor := ff_below_floor facts + 1\<rparr>
         else if over_cap view w edge
         then facts\<lparr>ff_dropped_max_candidates := ff_dropped_max_candidates facts + 1\<rparr>
         else facts)"

definition count_out :: "node_record \<Rightarrow> frontier_facts \<Rightarrow> frontier_facts" where
  "count_out node facts =
     (let nc = n_narrowing node in
      facts\<lparr>ff_external_calls := ff_external_calls facts + n_external_calls node,
            ff_typed_out := ff_typed_out facts + nc_typed_out nc,
            ff_interproc_out := ff_interproc_out facts + nc_interproc_out nc,
            ff_visible_out := ff_visible_out facts + nc_visible_out nc,
            ff_visible_dropped_out := ff_visible_dropped_out facts + nc_visible_dropped_out nc\<rparr>)"

definition count_away :: "node_record \<Rightarrow> frontier_facts \<Rightarrow> frontier_facts" where
  "count_away node facts =
     (let nc = n_narrowing node in
      facts\<lparr>ff_typed_away_in := ff_typed_away_in facts + nc_typed_away_in nc,
            ff_interproc_away_in := ff_interproc_away_in facts + nc_interproc_away_in nc,
            ff_visible_away_in := ff_visible_away_in facts + nc_visible_away_in nc\<rparr>)"

text \<open>A node at the depth bound, and one with an admitted neighbor that was not reached.\<close>

definition at_horizon :: "path_walker \<Rightarrow> nat option \<Rightarrow> bool" where
  "at_horizon w depth = (case pw_max_depth w of Some m \<Rightarrow> depth = Some m | None \<Rightarrow> False)"

definition beyond_horizon :: "graph_view \<Rightarrow> path_walker \<Rightarrow> direction \<Rightarrow> (nat \<Rightarrow> bool) \<Rightarrow> node_id \<Rightarrow> bool" where
  "beyond_horizon view w dir reached node =
     list_ex (\<lambda>er. case checked_index (er_peer er) (node_count view) of Some i \<Rightarrow> \<not> reached i | None \<Rightarrow> False)
       (neighbors view node dir (pw_filter w))"

definition scan_node ::
  "graph_view \<Rightarrow> path_walker \<Rightarrow> direction \<Rightarrow> (nat \<Rightarrow> bool) \<Rightarrow> (nat \<Rightarrow> nat option) \<Rightarrow> node_id \<Rightarrow>
   frontier_facts \<Rightarrow> frontier_facts" where
  "scan_node view w dir reached depth_of node facts =
     (let record = view_node view node;
          horizon = at_horizon w (depth_of node);
          count_dangling = (dir = Forward \<and> is_call_scope w);
          count_backward = (dir = Backward \<and> is_call_scope w);
          facts = (if count_dangling
                   then facts\<lparr>ff_dangling_refs := ff_dangling_refs facts + n_unresolved_calls record\<rparr> else facts);
          facts = (if count_dangling \<and> \<not> horizon then count_out record facts else facts);
          facts = (if count_backward \<and> \<not> horizon then count_away record facts else facts);
          facts = fold (scan_edge view w) (neighbors view node dir (scan_filter_of w)) facts
      in if horizon \<and> beyond_horizon view w dir reached node
         then facts\<lparr>ff_depth_truncated := True\<rparr> else facts)"

definition scan_frontier :: "graph_view \<Rightarrow> path_walker \<Rightarrow> node_id list \<Rightarrow> direction \<Rightarrow> frontier_facts" where
  "scan_frontier view w roots dir =
     (case touch_all view w roots dir of (reached, depth_of, touched) \<Rightarrow>
        fold (scan_node view w dir reached depth_of) touched frontier_facts_default)"

definition searched_kinds :: "edge_filter \<Rightarrow> edge_kind list" where
  "searched_kinds f =
     (case ef_kinds f of
        Some kinds \<Rightarrow> kinds
      | None \<Rightarrow> [Calls, CallsVirtual, CallsClosure, CallsCallback, CallsAsync, CallsIndirect])"

definition scope_of :: "path_walker \<Rightarrow> direction \<Rightarrow> negative_scope" where
  "scope_of w dir =
     \<lparr>ng_searched_edge_kinds = searched_kinds (pw_filter w),
      ng_confidence_floor = ef_min_confidence (pw_filter w), ng_max_depth = pw_max_depth w\<rparr>"

subsection \<open>The contract of each answer\<close>

definition for_neighbors ::
  "graph_view \<Rightarrow> path_walker \<Rightarrow> node_id \<Rightarrow> direction \<Rightarrow> neighbor_result list \<Rightarrow> approximation_contract" where
  "for_neighbors view w root dir results =
     assemble
       ((if list_ex (\<lambda>r. nr_min_confidence_on_path r = Possible \<or> e_candidate_group (nr_via r) \<noteq> None) results
         then [over_candidate_reason] else []) @
        into_reasons w (scan_frontier view w [root] dir))
       (if results = [] then Some (scope_of w dir) else None)"

definition path_over :: "path_result \<Rightarrow> bool" where
  "path_over p \<longleftrightarrow> pt_min_confidence p = Possible \<or>
     list_ex (\<lambda>s. case ps_via s of Some e \<Rightarrow> e_candidate_group e \<noteq> None | None \<Rightarrow> False) (pt_steps p)"

definition for_reaches ::
  "graph_view \<Rightarrow> path_walker \<Rightarrow> node_id \<Rightarrow> reach_result \<Rightarrow> approximation_contract" where
  "for_reaches view w from_node result =
     (case rr_witness result of
        Some witness \<Rightarrow> assemble (if path_over witness then [over_candidate_reason] else []) None
      | None \<Rightarrow> assemble (into_reasons w (scan_frontier view w [from_node] Forward)) (Some (scope_of w Forward)))"

definition path_set_reasons :: "path_set \<Rightarrow> approx_reason list" where
  "path_set_reasons result =
     (if list_ex path_over (pset_paths result) then [over_candidate_reason] else []) @
     (case pset_truncation result of Some reason \<Rightarrow> [truncation_reason_of reason] | None \<Rightarrow> [])"

definition for_paths :: "graph_view \<Rightarrow> path_walker \<Rightarrow> node_id \<Rightarrow> path_set \<Rightarrow> approximation_contract" where
  "for_paths view w from_node result =
     (if pset_paths result = []
      then assemble (path_set_reasons result @ into_reasons w (scan_frontier view w [from_node] Forward))
             (Some (scope_of w Forward))
      else assemble (path_set_reasons result) None)"

definition for_path_set :: "path_set \<Rightarrow> approximation_contract" where
  "for_path_set result = assemble (path_set_reasons result) None"

definition over_only :: "bool \<Rightarrow> approximation_contract" where
  "over_only over = assemble (if over then [over_candidate_reason] else []) None"

definition for_unused :: "graph_view \<Rightarrow> path_walker \<Rightarrow> node_id list \<Rightarrow> approximation_contract" where
  "for_unused view w roots =
     assemble (into_reasons w (scan_frontier view w roots Forward)) (Some (scope_of w Forward))"

definition for_history :: "approx_reason list \<Rightarrow> string \<Rightarrow> approximation_contract" where
  "for_history reasons modeled_history = assemble_with reasons None modeled_history"

end
