(* ===== verification/Query_Honesty.thy ===== *)
theory Query_Honesty
  imports Query_Contract
begin

text \<open>
  What an exact contract means: lemmas on the frontier scan. The touched nodes are the reached
  ones, each with the length of a walk that leads to it, and every count of the scan is a sum over
  them. When nothing was counted the touched set is closed under the edges that the confidence
  floor, the candidate cap and the depth bound would have excluded.
\<close>

subsection \<open>Reasons and direction\<close>

lemma counted_Nil: "counted c r = [] \<longleftrightarrow> c = 0"
  by (simp add: counted_def)

lemma assemble_direction:
  "ac_direction (assemble_with rs scope m) = ApproxExact \<longleftrightarrow> rs = []"
proof -
  have "ar_direction r = ReasonOver \<or> ar_direction r = ReasonUnder" for r
    by (cases "ar_direction r") simp_all
  then have "(\<not> list_ex (\<lambda>r. ar_direction r = ReasonOver) rs \<and> \<not> list_ex (\<lambda>r. ar_direction r = ReasonUnder) rs) \<longleftrightarrow> rs = []"
    by (cases rs) auto
  then show ?thesis by (auto simp: assemble_with_def Let_def split: bool.split)
qed

lemma assemble_fields:
  "ac_reasons (assemble rs scope) = rs" "ac_scope (assemble rs scope) = scope"
  "ac_direction (assemble rs scope) = ApproxExact \<longleftrightarrow> rs = []"
  by (simp_all add: assemble_def assemble_direction) (simp_all add: assemble_with_def Let_def)

subsection \<open>The touched nodes\<close>

definition touch_ok :: "graph_view \<Rightarrow> path_walker \<Rightarrow> direction \<Rightarrow> node_id list \<Rightarrow> touch_state \<Rightarrow> bool" where
  "touch_ok view w dir roots st \<longleftrightarrow> (case st of (reached, depth_of, touched) \<Rightarrow>
     (\<forall>v. reached v \<longleftrightarrow> v \<in> set touched) \<and>
     (\<forall>v \<in> set touched. v < node_count view \<and>
        (\<exists>d. depth_of v = Some d \<and> (\<exists>r \<in> set roots. walk (view_succ w view dir) r d v) \<and>
             (d = 0 \<or> within_depth w d))) \<and>
     (\<forall>v. v \<notin> set touched \<longrightarrow> depth_of v = None))"

lemma touch_ok_init: "touch_ok view w dir roots (\<lambda>_. False, \<lambda>_. None, [])"
  by (simp add: touch_ok_def)

lemma touch_root_ok:
  assumes "touch_ok view w dir roots st" "r \<in> set roots"
  shows "touch_ok view w dir roots (touch_root (node_count view) r st)"
    and "set (snd (snd (touch_root (node_count view) r st))) =
      set (snd (snd st)) \<union> (if r < node_count view then {r} else {})"
proof -
  obtain reached depth_of touched where st: "st = (reached, depth_of, touched)" by (cases st)
  show "touch_ok view w dir roots (touch_root (node_count view) r st)"
    using assms unfolding st by (auto simp: touch_ok_def touch_root_def checked_index_def intro: walk_nil)
  show "set (snd (snd (touch_root (node_count view) r st))) =
      set (snd (snd st)) \<union> (if r < node_count view then {r} else {})"
    using assms unfolding st by (auto simp: touch_ok_def touch_root_def checked_index_def)
qed

lemma touch_discovered_ok:
  assumes "touch_ok view w dir roots st" "r \<in> set roots" "x \<in> set (bfs w view r dir)"
  shows "touch_ok view w dir roots (touch_discovered (node_count view) x st)"
    and "set (snd (snd (touch_discovered (node_count view) x st))) =
      set (snd (snd st)) \<union> (if dc_node x < node_count view then {dc_node x} else {})"
proof -
  obtain reached depth_of touched where st: "st = (reached, depth_of, touched)" by (cases st)
  have new: "walk (view_succ w view dir) r (dc_depth x) (dc_node x) \<and> within_depth w (dc_depth x)"
    using bfs_nodes [of w view r dir "dc_node x" "dc_depth x"] assms(3) by (auto simp: shortest_def)
  have "\<exists>d. least_depth (depth_of (dc_node x)) (dc_depth x) = Some d \<and>
      (\<exists>r \<in> set roots. walk (view_succ w view dir) r d (dc_node x)) \<and> (d = 0 \<or> within_depth w d)"
  proof (cases "depth_of (dc_node x)")
    case None
    then show ?thesis using new assms(2) by (auto simp: least_depth_def)
  next
    case (Some k)
    then have "dc_node x \<in> set touched" using assms(1) unfolding st touch_ok_def by auto
    then have "(\<exists>r \<in> set roots. walk (view_succ w view dir) r k (dc_node x)) \<and> (k = 0 \<or> within_depth w k)"
      using assms(1) Some unfolding st touch_ok_def prod.case by (metis option.inject)
    then show ?thesis using new assms(2) Some by (auto simp: least_depth_def min_def)
  qed
  then show "touch_ok view w dir roots (touch_discovered (node_count view) x st)"
    using assms(1) unfolding st by (auto simp: touch_ok_def touch_discovered_def checked_index_def)
  show "set (snd (snd (touch_discovered (node_count view) x st))) =
      set (snd (snd st)) \<union> (if dc_node x < node_count view then {dc_node x} else {})"
    using assms unfolding st by (auto simp: touch_ok_def touch_discovered_def checked_index_def)
qed

lemma touch_roots_fold:
  assumes "touch_ok view w dir roots st" "set rs \<subseteq> set roots"
  shows "touch_ok view w dir roots (fold (touch_root (node_count view)) rs st) \<and>
    set (snd (snd (fold (touch_root (node_count view)) rs st))) =
      set (snd (snd st)) \<union> {r \<in> set rs. r < node_count view}"
  using assms
proof (induction rs arbitrary: st)
  case (Cons r rs)
  from Cons.IH [OF touch_root_ok(1) [OF Cons.prems(1)]] touch_root_ok(2) [OF Cons.prems(1)] Cons.prems(2)
  show ?case by (auto split: if_splits)
qed simp

lemma touch_bfs_fold:
  assumes "touch_ok view w dir roots st" "r \<in> set roots" "set xs \<subseteq> set (bfs w view r dir)"
  shows "touch_ok view w dir roots (fold (touch_discovered (node_count view)) xs st) \<and>
    set (snd (snd (fold (touch_discovered (node_count view)) xs st))) =
      set (snd (snd st)) \<union> {v \<in> dc_node ` set xs. v < node_count view}"
  using assms
proof (induction xs arbitrary: st)
  case (Cons x xs)
  from Cons.IH [OF touch_discovered_ok(1) [OF Cons.prems(1,2)]] touch_discovered_ok(2) [OF Cons.prems(1,2)] Cons.prems(2,3)
  show ?case by (auto split: if_splits)
qed simp

lemma touch_walks_fold:
  assumes "touch_ok view w dir roots st" "set rs \<subseteq> set roots"
  shows "touch_ok view w dir roots (fold (\<lambda>r. fold (touch_discovered (node_count view)) (bfs w view r dir)) rs st) \<and>
    set (snd (snd (fold (\<lambda>r. fold (touch_discovered (node_count view)) (bfs w view r dir)) rs st))) =
      set (snd (snd st)) \<union> {v. v < node_count view \<and> (\<exists>r \<in> set rs. v \<in> dc_node ` set (bfs w view r dir))}"
  using assms
proof (induction rs arbitrary: st)
  case (Cons r rs)
  note step = touch_bfs_fold [OF Cons.prems(1), of r "bfs w view r dir"]
  from Cons.IH [of "fold (touch_discovered (node_count view)) (bfs w view r dir) st"] step Cons.prems(2)
  show ?case by auto
qed simp

lemma touch_all_ok: "touch_ok view w dir roots (touch_all view w roots dir)"
  unfolding touch_all_def
  by (intro conjunct1 [OF touch_walks_fold] conjunct1 [OF touch_roots_fold] touch_ok_init) simp_all

lemma touched_reach:
  assumes "touch_all view w roots dir = (reached, depth_of, touched)"
  shows "v \<in> set touched \<longleftrightarrow> v < node_count view \<and> (\<exists>r \<in> set roots. reach w view dir r v)"
proof -
  have r: "touch_ok view w dir roots (fold (touch_root (node_count view)) roots (\<lambda>_. False, \<lambda>_. None, [])) \<and>
      set (snd (snd (fold (touch_root (node_count view)) roots (\<lambda>_. False, \<lambda>_. None, [])))) = {r \<in> set roots. r < node_count view}"
    using touch_roots_fold [OF touch_ok_init, of roots roots view w dir] by simp
  have "set touched = {r \<in> set roots. r < node_count view} \<union>
      {v. v < node_count view \<and> (\<exists>r \<in> set roots. v \<in> dc_node ` set (bfs w view r dir))}"
    using conjunct2 [OF touch_walks_fold [OF conjunct1 [OF r], of roots]] r assms unfolding touch_all_def by simp
  moreover have "reach w view dir r v \<longleftrightarrow> v = r \<or> v \<in> dc_node ` set (bfs w view r dir)" for r
    using bfs_reach [of r w view dir] by blast
  ultimately show ?thesis by auto
qed

subsection \<open>The counts as sums\<close>

abbreviation scanned :: "graph_view \<Rightarrow> path_walker \<Rightarrow> direction \<Rightarrow> node_id \<Rightarrow> edge_record list" where
  "scanned view w dir u \<equiv> map er_edge (neighbors view u dir (scan_filter_of w))"

definition below :: "path_walker \<Rightarrow> edge_record \<Rightarrow> bool" where
  "below w e \<longleftrightarrow> e_confidence e < ef_min_confidence (pw_filter w)"

lemma scan_edge_fields:
  "ff_below_floor (scan_edge view w er f) = ff_below_floor f + (if below w (er_edge er) then 1 else 0)"
  "ff_dropped_max_candidates (scan_edge view w er f) = ff_dropped_max_candidates f +
     (if \<not> below w (er_edge er) \<and> over_cap view w (er_edge er) then 1 else 0)"
  "ff_cut_counts (scan_edge view w er f) = fold bt_bump (e_cut_markers (er_edge er)) (ff_cut_counts f)"
  "ff_dangling_refs (scan_edge view w er f) = ff_dangling_refs f"
  "ff_depth_truncated (scan_edge view w er f) = ff_depth_truncated f"
  by (simp_all add: scan_edge_def below_def cut_markers_iter_def Let_def)

lemma scan_edges_fields:
  "ff_below_floor (fold (scan_edge view w) ers f) = ff_below_floor f + length (filter (below w) (map er_edge ers))"
  "ff_dropped_max_candidates (fold (scan_edge view w) ers f) = ff_dropped_max_candidates f +
     length (filter (\<lambda>e. \<not> below w e \<and> over_cap view w e) (map er_edge ers))"
  "ff_cut_counts (fold (scan_edge view w) ers f) = fold bt_bump (concat (map e_cut_markers (map er_edge ers))) (ff_cut_counts f)"
  "ff_dangling_refs (fold (scan_edge view w) ers f) = ff_dangling_refs f"
  "ff_depth_truncated (fold (scan_edge view w) ers f) = ff_depth_truncated f"
  by (induction ers arbitrary: f) (simp_all add: scan_edge_fields)

lemma count_fields:
  "ff_below_floor (count_out node f) = ff_below_floor f" "ff_below_floor (count_away node f) = ff_below_floor f"
  "ff_dropped_max_candidates (count_out node f) = ff_dropped_max_candidates f"
  "ff_dropped_max_candidates (count_away node f) = ff_dropped_max_candidates f"
  "ff_cut_counts (count_out node f) = ff_cut_counts f" "ff_cut_counts (count_away node f) = ff_cut_counts f"
  "ff_dangling_refs (count_out node f) = ff_dangling_refs f" "ff_dangling_refs (count_away node f) = ff_dangling_refs f"
  "ff_depth_truncated (count_out node f) = ff_depth_truncated f" "ff_depth_truncated (count_away node f) = ff_depth_truncated f"
  by (simp_all add: count_out_def count_away_def Let_def)

lemma scan_node_fields:
  "ff_below_floor (scan_node view w dir reached depth_of u f) =
     ff_below_floor f + length (filter (below w) (scanned view w dir u))"
  "ff_dropped_max_candidates (scan_node view w dir reached depth_of u f) = ff_dropped_max_candidates f +
     length (filter (\<lambda>e. \<not> below w e \<and> over_cap view w e) (scanned view w dir u))"
  "ff_cut_counts (scan_node view w dir reached depth_of u f) =
     fold bt_bump (concat (map e_cut_markers (scanned view w dir u))) (ff_cut_counts f)"
  "ff_dangling_refs (scan_node view w dir reached depth_of u f) = ff_dangling_refs f +
     (if dir = Forward \<and> is_call_scope w then n_unresolved_calls (view_node view u) else 0)"
  "ff_depth_truncated (scan_node view w dir reached depth_of u f) \<longleftrightarrow>
     ff_depth_truncated f \<or> (at_horizon w (depth_of u) \<and> beyond_horizon view w dir reached u)"
  by (simp_all add: scan_node_def scan_edges_fields count_fields Let_def) auto

lemma scan_nodes_fields:
  "ff_below_floor (fold (scan_node view w dir reached depth_of) us f) =
     ff_below_floor f + sum_list (map (\<lambda>u. length (filter (below w) (scanned view w dir u))) us)"
  "ff_dropped_max_candidates (fold (scan_node view w dir reached depth_of) us f) = ff_dropped_max_candidates f +
     sum_list (map (\<lambda>u. length (filter (\<lambda>e. \<not> below w e \<and> over_cap view w e) (scanned view w dir u))) us)"
  "ff_cut_counts (fold (scan_node view w dir reached depth_of) us f) =
     fold bt_bump (concat (map (\<lambda>u. concat (map e_cut_markers (scanned view w dir u))) us)) (ff_cut_counts f)"
  "ff_dangling_refs (fold (scan_node view w dir reached depth_of) us f) = ff_dangling_refs f +
     (if dir = Forward \<and> is_call_scope w then sum_list (map (\<lambda>u. n_unresolved_calls (view_node view u)) us) else 0)"
  "ff_depth_truncated (fold (scan_node view w dir reached depth_of) us f) \<longleftrightarrow>
     ff_depth_truncated f \<or> (\<exists>u \<in> set us. (at_horizon w (depth_of u) \<and> beyond_horizon view w dir reached u))"
  by (induction us arbitrary: f) (auto simp: scan_node_fields)

lemma into_reasons_Nil:
  assumes "into_reasons w facts = []"
  shows "ff_below_floor facts = 0" "ff_dangling_refs facts = 0" "ff_cut_counts facts = []"
    and "ef_max_candidates (pw_filter w) \<noteq> None \<Longrightarrow> ff_dropped_max_candidates facts = 0"
    and "pw_max_depth w \<noteq> None \<Longrightarrow> \<not> ff_depth_truncated facts"
  using assms by (auto simp: into_reasons_def counted_Nil split: option.splits if_splits)

lemma fold_bump_Nil: "fold bt_bump xs m = [] \<longleftrightarrow> xs = [] \<and> m = []"
proof (induction xs arbitrary: m)
  case (Cons x xs)
  have "bt_bump x m \<noteq> []"
    using keys_bt_insert [of x "(case map_of m x of None \<Rightarrow> 0 | Some c \<Rightarrow> c) + 1" m] by (auto simp: bt_bump_def)
  then show ?case using Cons by simp
qed simp

subsection \<open>A scan that finds nothing\<close>

text \<open>The walk without confidence floor, candidate cap and depth bound.\<close>

definition lifted :: "path_walker \<Rightarrow> path_walker" where
  "lifted w = w\<lparr>pw_filter := (pw_filter w)\<lparr>ef_min_confidence := Possible, ef_max_candidates := None\<rparr>,
     pw_max_depth := None\<rparr>"

definition clean :: "graph_view \<Rightarrow> path_walker \<Rightarrow> direction \<Rightarrow> node_id list \<Rightarrow> bool" where
  "clean view w dir roots \<longleftrightarrow> into_reasons w (scan_frontier view w roots dir) = []"

lemma least_confidence: "(Possible :: confidence) \<le> c"
  by (cases c) (simp_all add: less_eq_confidence_def)

lemma neighbors_passes:
  assumes "r \<in> set (neighbors view u dir f)" "passes view g (er_edge r)"
  shows "r \<in> set (neighbors view u dir g)"
  using assms by (auto simp: neighbors_def set_map_filter neighbor_ref_Some Let_def split: if_splits)

lemma scan_filter_weaker:
  assumes "r \<in> set (neighbors view u dir (pw_filter (lifted w)))"
  shows "r \<in> set (neighbors view u dir (scan_filter_of w))"
  by (rule neighbors_passes [OF assms])
    (use neighbor_edges [OF assms] in \<open>auto simp: passes_def filter_admits_def lifted_def scan_filter_of_def
      not_less least_confidence split: option.splits if_splits\<close>)

lemma clean_touched:
  assumes "clean view w dir roots" "touch_all view w roots dir = (reached, depth_of, touched)" "u \<in> set touched"
  shows "e \<in> set (scanned view w dir u) \<Longrightarrow> \<not> below w e \<and> \<not> over_cap view w e \<and> e_cut_markers e = []"
    and "\<not> (at_horizon w (depth_of u) \<and> beyond_horizon view w dir reached u)"
    and "dir = Forward \<Longrightarrow> is_call_scope w \<Longrightarrow> n_unresolved_calls (view_node view u) = 0"
proof -
  let ?f = "fold (scan_node view w dir reached depth_of) touched frontier_facts_default"
  have nil: "into_reasons w ?f = []" using assms(1,2) by (simp add: clean_def scan_frontier_def)
  note z = into_reasons_Nil [OF nil]
  have default: "ff_below_floor frontier_facts_default = 0" "ff_dropped_max_candidates frontier_facts_default = 0"
    "ff_cut_counts frontier_facts_default = []" "ff_dangling_refs frontier_facts_default = 0"
    by (simp_all add: frontier_facts_default_def)
  show "\<not> below w e \<and> \<not> over_cap view w e \<and> e_cut_markers e = []" if e: "e \<in> set (scanned view w dir u)"
  proof (intro conjI)
    show nb: "\<not> below w e"
      using z(1) e assms(3) by (auto simp: scan_nodes_fields default filter_empty_conv sum_list_eq_0_iff)
    show "\<not> over_cap view w e"
    proof (cases "ef_max_candidates (pw_filter w)")
      case (Some mx)
      then show ?thesis using z(4) e assms(3) nb
        by (auto simp: scan_nodes_fields default filter_empty_conv sum_list_eq_0_iff)
    qed (simp add: over_cap_def)
    show "e_cut_markers e = []"
      using z(3) e assms(3) by (auto simp: scan_nodes_fields default fold_bump_Nil concat_eq_Nil_conv)
  qed
  show "\<not> (at_horizon w (depth_of u) \<and> beyond_horizon view w dir reached u)"
    using z(5) assms(3) by (auto simp: scan_nodes_fields at_horizon_def split: option.splits)
  show "n_unresolved_calls (view_node view u) = 0" if "dir = Forward" "is_call_scope w"
    using z(2) assms(3) that by (auto simp: scan_nodes_fields default sum_list_eq_0_iff)
qed

lemma clean_step:
  assumes c: "clean view w dir roots" and t: "touch_all view w roots dir = (reached, depth_of, touched)"
    and u: "u \<in> set touched" and v: "v \<in> set (view_succ (lifted w) view dir u)"
  shows "v \<in> set touched"
proof -
  obtain r where r: "r \<in> set (neighbors view u dir (pw_filter (lifted w)))" "v = er_peer r" "v < node_count view"
    using v by (auto simp: view_succ_def)
  note scan = scan_filter_weaker [OF r(1)]
  have e: "\<not> below w (er_edge r) \<and> \<not> over_cap view w (er_edge r)"
    using clean_touched(1) [OF c t u, of "er_edge r"] scan by simp
  have "passes view (pw_filter w) (er_edge r)"
    using neighbor_edges [OF r(1)] e
    by (auto simp: passes_def filter_admits_def lifted_def below_def over_cap_def not_less split: option.splits if_splits)
  then have nb: "r \<in> set (neighbors view u dir (pw_filter w))" by (rule neighbors_passes [OF r(1)])
  have ok: "touch_ok view w dir roots (reached, depth_of, touched)" using touch_all_ok [of view w dir roots] t by simp
  obtain d root where d: "depth_of u = Some d" "root \<in> set roots" "walk (view_succ w view dir) root d u"
      "d = 0 \<or> within_depth w d"
    using ok u unfolding touch_ok_def by blast
  have walk: "walk (view_succ w view dir) root (Suc d) v"
    by (rule walk_step [OF d(3)]) (use nb r(2,3) in \<open>auto simp: view_succ_def\<close>)
  show ?thesis
  proof (cases "within_depth w (Suc d)")
    case True
    then have "reach w view dir root v" using walk unfolding reach_def walk_iff_edge_walk by metis
    then show ?thesis using touched_reach [OF t] d(2) r(3) by blast
  next
    case False
    then have "pw_max_depth w = Some d" using d(4) by (auto simp: within_depth_def split: option.splits)
    then have "at_horizon w (depth_of u)" using d(1) by (simp add: at_horizon_def)
    then have "reached v" using clean_touched(2) [OF c t u] nb r(2,3)
      by (auto simp: beyond_horizon_def list_ex_iff checked_index_def split: if_splits)
    then show ?thesis using ok by (simp add: touch_ok_def)
  qed
qed

theorem clean_reach:
  assumes c: "clean view w dir roots" and r: "root \<in> set roots" "root < node_count view"
  shows "reach (lifted w) view dir root v \<longleftrightarrow> (\<exists>s \<in> set roots. reach w view dir s v \<and> reach (lifted w) view dir root v)"
proof
  assume re: "reach (lifted w) view dir root v"
  obtain reached depth_of touched where t: "touch_all view w roots dir = (reached, depth_of, touched)"
    by (cases "touch_all view w roots dir")
  have "walk (view_succ (lifted w) view dir) root k x \<Longrightarrow> x \<in> set touched" for k x
  proof (induction rule: walk.induct)
    case walk_nil
    then show ?case using touched_reach [OF t, of root] r by (auto simp: reach_def)
  next
    case (walk_step k x y)
    then show ?case using clean_step [OF c t] by blast
  qed
  moreover have "\<exists>k. walk (view_succ (lifted w) view dir) root k v"
    using re by (auto simp: reach_def dest: edge_walk_walk intro: walk_nil)
  ultimately have "v \<in> set touched" by blast
  then show "\<exists>s \<in> set roots. reach w view dir s v \<and> reach (lifted w) view dir root v"
    using touched_reach [OF t] re by blast
qed blast

lemma clean_facts:
  assumes c: "clean view w dir roots" and r: "root \<in> set roots" and re: "reach w view dir root u" "u < node_count view"
  shows "e \<in> set (scanned view w dir u) \<Longrightarrow> e_cut_markers e = [] \<and> ef_min_confidence (pw_filter w) \<le> e_confidence e"
    and "dir = Forward \<Longrightarrow> is_call_scope w \<Longrightarrow> n_unresolved_calls (view_node view u) = 0"
proof -
  obtain reached depth_of touched where t: "touch_all view w roots dir = (reached, depth_of, touched)"
    by (cases "touch_all view w roots dir")
  have u: "u \<in> set touched" using touched_reach [OF t] r re by blast
  show "e_cut_markers e = [] \<and> ef_min_confidence (pw_filter w) \<le> e_confidence e" if "e \<in> set (scanned view w dir u)"
    using clean_touched(1) [OF c t u that] by (simp add: below_def not_less)
  show "n_unresolved_calls (view_node view u) = 0" if "dir = Forward" "is_call_scope w"
    using clean_touched(3) [OF c t u] that by simp
qed

end
