(* ===== verification/Query_Impacted.thy ===== *)
theory Query_Impacted
  imports Query_Contract
begin

text \<open>
  The test entrypoints that reach a changed symbol: \<open>impacted_tests\<close> (cgx-query/src/engine.rs) and
  the answer types and contract of cgx-query/src/impacted.rs. Rounds of backward searches from the
  roots alternate with a lift from a closure to the function that contains it, until a round lifts
  nothing. Arrays over the nodes are functions; every access is at a checked position.
\<close>

subsection \<open>The answer\<close>

record impacted_witness =
  iw_root :: node_id
  iw_chain :: "node_id list"
  iw_via_containment_lift :: bool

record impacted_answer =
  ia_tests :: "neighbor_result list"
  ia_witnesses :: "impacted_witness list"
  ia_changed_symbols :: nat
  ia_file_granular_only :: nat
  ia_lifted :: nat
  ia_langs_in_play :: "string btree_set"
  ia_reached :: "bool list"

definition reached_count :: "impacted_answer \<Rightarrow> nat" where
  "reached_count a = length (filter (\<lambda>r. r) (ia_reached a))"

record diff_facts =
  df_removed_symbols :: nat
  df_unindexed_changed_files :: nat
  df_dropped_unclaimed_paths :: nat
  df_tip_to_tip_base :: bool

definition supported_langs :: "string list" where
  "supported_langs = [''go'', ''java'', ''python'', ''rust'']"

definition changed_symbol_rule :: string where
  "changed_symbol_rule = ''impacted-changed-symbol''"

definition lambda_owner_fqn :: "string \<Rightarrow> string option" where
  "lambda_owner_fqn fqn =
     (case str_rsplit_once ''::'' fqn of
        None \<Rightarrow> None
      | Some (head, seg) \<Rightarrow>
          if str_ends_with seg ''}'' \<and> (str_starts_with seg ''{func@'' \<or> str_starts_with seg ''{closure@'')
          then Some head else None)"

text \<open>The largest \<open>u32\<close> marks the edge as synthetic.\<close>

definition changed_symbol_marker :: "node_id \<Rightarrow> edge_record" where
  "changed_symbol_marker node =
     \<lparr>e_id = u32_max, e_src = node, e_dst = node, e_kind = Calls, e_condition = Always, e_confidence = Certain,
      e_tier = NameSyntactic, e_rule = changed_symbol_rule, e_site_id = None, e_stmt_index = None,
      e_cut_markers = [], e_implicit = None, e_candidate_group = None, e_established_by = None,
      e_cfg_condition = None, e_macro_origin = None, e_transform = None\<rparr>"

definition is_changed_symbol_marker :: "edge_record \<Rightarrow> bool" where
  "is_changed_symbol_marker edge \<longleftrightarrow> e_id edge = u32_max \<and> e_rule edge = changed_symbol_rule"

subsection \<open>The rounds\<close>

record impact_state =
  im_reached :: "nat \<Rightarrow> bool"
  im_walk_reached :: "nat \<Rightarrow> bool"
  im_expanded :: "nat \<Rightarrow> bool"
  im_via_of :: "nat \<Rightarrow> discovered option"
  im_lift_from :: "nat \<Rightarrow> node_id option"
  im_round_new :: "node_id list"

definition record_discovered :: "nat \<Rightarrow> discovered \<Rightarrow> impact_state \<Rightarrow> impact_state" where
  "record_discovered n d st =
     (let di = dc_node d in
      if di \<ge> n \<or> im_reached st di then st
      else st\<lparr>im_reached := (im_reached st)(di := True), im_walk_reached := (im_walk_reached st)(di := True),
              im_via_of := (im_via_of st)(di := Some d), im_round_new := im_round_new st @ [di]\<rparr>)"

definition expand_root :: "graph_view \<Rightarrow> path_walker \<Rightarrow> node_id \<Rightarrow> impact_state \<Rightarrow> impact_state" where
  "expand_root view w r st =
     (let n = node_count view; skip_walked_roots = (pw_max_depth w = None) in
      if r \<ge> n \<or> im_expanded st r \<or> (skip_walked_roots \<and> im_walk_reached st r) then st
      else fold (record_discovered n) (bfs w view r Backward) (st\<lparr>im_expanded := (im_expanded st)(r := True)\<rparr>))"

text \<open>The node that a closure lifts to: the lowest id with the name of its owner.\<close>

definition fqn_index :: "graph_view \<Rightarrow> (string, node_id) btree_map" where
  "fqn_index view =
     fold (\<lambda>node m. case map_of m (n_fqn node) of Some _ \<Rightarrow> m | None \<Rightarrow> bt_insert (n_fqn node) (n_id node) m)
       (gv_nodes view) []"

definition lift_owner :: "graph_view \<Rightarrow> (string, node_id) btree_map \<Rightarrow> node_id \<Rightarrow> node_id option" where
  "lift_owner view index x =
     (let node = view_node view x in
      if n_kind node \<noteq> Lambda then None
      else case lambda_owner_fqn (n_fqn node) of Some fqn \<Rightarrow> map_of index fqn | None \<Rightarrow> None)"

definition lift_node ::
  "graph_view \<Rightarrow> (string, node_id) btree_map \<Rightarrow> node_id \<Rightarrow> impact_state \<times> node_id btree_set \<Rightarrow>
   impact_state \<times> node_id btree_set" where
  "lift_node view index x acc =
     (case acc of (st, nxt) \<Rightarrow>
        case lift_owner view index x of
          None \<Rightarrow> (st, nxt)
        | Some owner \<Rightarrow>
            if owner \<ge> node_count view \<or> im_reached st owner then (st, nxt)
            else (st\<lparr>im_reached := (im_reached st)(owner := True),
                     im_lift_from := (im_lift_from st)(owner := Some x)\<rparr>, bs_insert owner nxt))"

definition impact_round ::
  "graph_view \<Rightarrow> path_walker \<Rightarrow> (string, node_id) btree_map \<Rightarrow> node_id list \<Rightarrow> impact_state \<Rightarrow>
   impact_state \<times> node_id btree_set" where
  "impact_round view w index worklist st =
     (let st = fold (expand_root view w) worklist st
      in fold (lift_node view index) (sort (im_round_new st)) (st, []))"

lemma unmarked_antimono: "(\<And>i. seen i \<Longrightarrow> seen' i) \<Longrightarrow> unmarked n seen' \<le> unmarked n seen"
  unfolding unmarked_def by (rule card_mono) auto

lemma record_discovered_grows: "im_reached st i \<Longrightarrow> im_reached (fold (record_discovered n) ds st) i"
  by (induction ds arbitrary: st) (auto simp: record_discovered_def Let_def)

lemma expand_root_grows: "im_reached st i \<Longrightarrow> im_reached (expand_root view w r st) i"
  by (auto simp: expand_root_def Let_def intro: record_discovered_grows)

lemma expand_roots_grow: "im_reached st i \<Longrightarrow> im_reached (fold (expand_root view w) rs st) i"
  by (induction rs arbitrary: st) (simp_all add: expand_root_grows)

lemma lift_nodes_measure:
  assumes "fold (lift_node view index) xs (st, nxt) = (st', nxt')"
  shows "unmarked (node_count view) (im_reached st') \<le> unmarked (node_count view) (im_reached st)"
    and "nxt' \<noteq> nxt \<Longrightarrow> unmarked (node_count view) (im_reached st') < unmarked (node_count view) (im_reached st)"
proof -
  have "unmarked (node_count view) (im_reached st') \<le> unmarked (node_count view) (im_reached st) \<and>
      (nxt' \<noteq> nxt \<longrightarrow> unmarked (node_count view) (im_reached st') < unmarked (node_count view) (im_reached st))"
    using assms
  proof (induction xs arbitrary: st nxt)
    case (Cons x xs)
    show ?case
    proof (cases "\<exists>o1. lift_owner view index x = Some o1 \<and> o1 < node_count view \<and> \<not> im_reached st o1")
      case True
      then obtain o1 where o1: "lift_owner view index x = Some o1" "o1 < node_count view" "\<not> im_reached st o1" by blast
      let ?st = "st\<lparr>im_reached := (im_reached st)(o1 := True), im_lift_from := (im_lift_from st)(o1 := Some x)\<rparr>"
      have "lift_node view index x (st, nxt) = (?st, bs_insert o1 nxt)" using o1 by (simp add: lift_node_def)
      then have "fold (lift_node view index) xs (?st, bs_insert o1 nxt) = (st', nxt')"
        using Cons.prems by simp
      from Cons.IH [OF this] unmarked_mark [of o1 "node_count view" "im_reached st"] o1 show ?thesis
        by (auto simp: fun_upd_def)
    next
      case False
      then have "lift_node view index x (st, nxt) = (st, nxt)"
        by (auto simp: lift_node_def not_le split: option.split)
      then show ?thesis using Cons by simp
    qed
  qed simp
  then show "unmarked (node_count view) (im_reached st') \<le> unmarked (node_count view) (im_reached st)"
    "nxt' \<noteq> nxt \<Longrightarrow> unmarked (node_count view) (im_reached st') < unmarked (node_count view) (im_reached st)" by auto
qed

lemma impact_round_measure:
  assumes "impact_round view w index worklist st = (st', nxt)" "nxt \<noteq> []"
  shows "unmarked (node_count view) (im_reached st') < unmarked (node_count view) (im_reached st)"
proof -
  let ?st = "fold (expand_root view w) worklist st"
  have "unmarked (node_count view) (im_reached st') < unmarked (node_count view) (im_reached ?st)"
    using lift_nodes_measure(2) assms unfolding impact_round_def Let_def by blast
  moreover have "unmarked (node_count view) (im_reached ?st) \<le> unmarked (node_count view) (im_reached st)"
    by (rule unmarked_antimono) (rule expand_roots_grow)
  ultimately show ?thesis by simp
qed

function impact_loop ::
  "graph_view \<Rightarrow> path_walker \<Rightarrow> (string, node_id) btree_map \<Rightarrow> node_id list \<Rightarrow> impact_state \<Rightarrow> impact_state" where
  "impact_loop view w index worklist st =
     (case impact_round view w index worklist st of (st', nxt) \<Rightarrow>
        if nxt = [] then st' else impact_loop view w index nxt (st'\<lparr>im_round_new := nxt\<rparr>))"
  by pat_completeness auto
termination
  by (relation "measure (\<lambda>(view, w, index, worklist, st). unmarked (node_count view) (im_reached st))")
    (use impact_round_measure [OF sym] in auto)

declare impact_loop.simps [simp del]

definition impact_seeds :: "graph_view \<Rightarrow> node_id list \<Rightarrow> node_id list" where
  "impact_seeds view changed = remdups_adj (sort (filter (\<lambda>r. r < node_count view) changed))"

definition impact_run :: "graph_view \<Rightarrow> node_id list \<Rightarrow> path_walker \<Rightarrow> impact_state" where
  "impact_run view changed w =
     (let seeds = impact_seeds view changed in
      impact_loop view w (fqn_index view) seeds
        \<lparr>im_reached = (\<lambda>i. i \<in> set seeds), im_walk_reached = (\<lambda>_. False), im_expanded = (\<lambda>_. False),
         im_via_of = (\<lambda>_. None), im_lift_from = (\<lambda>_. None), im_round_new = seeds\<rparr>)"

subsection \<open>Rows and witness chains\<close>

text \<open>The chain is walked back at most as many times as there are nodes.\<close>

fun chain_loop ::
  "impact_state \<Rightarrow> nat \<Rightarrow> node_id \<Rightarrow> node_id list \<times> confidence \<times> bool \<Rightarrow> node_id list \<times> confidence \<times> bool" where
  "chain_loop st 0 cur acc = acc"
| "chain_loop st (Suc k) cur (chain, min_conf, lifted) =
     (case im_lift_from st cur of
        Some lam \<Rightarrow> chain_loop st k lam (chain @ [lam], min_conf, True)
      | None \<Rightarrow>
          (case im_via_of st cur of
             None \<Rightarrow> (chain, min_conf, lifted)
           | Some d \<Rightarrow> chain_loop st k (e_dst (dc_via d))
               (chain @ [e_dst (dc_via d)], weakest min_conf (e_confidence (dc_via d)), lifted)))"

definition witness_chain :: "graph_view \<Rightarrow> impact_state \<Rightarrow> node_id \<Rightarrow> node_id list \<times> confidence \<times> bool" where
  "witness_chain view st node =
     (case chain_loop st (node_count view) node ([node], Certain, False) of (chain, min_conf, lifted) \<Rightarrow>
        (chain, if lifted then weakest min_conf Possible else min_conf, lifted))"

text \<open>The discovery edge of a row: its own, or that of the closure it was lifted from.\<close>

partial_function (option) row_via :: "impact_state \<Rightarrow> node_id \<Rightarrow> node_id \<Rightarrow> (edge_record \<times> bool) option" where
  "row_via st node c =
     (case im_via_of st c of
        Some d \<Rightarrow> Some (dc_via d, dc_exception_transient d)
      | None \<Rightarrow>
          (case im_lift_from st c of
             Some lam \<Rightarrow> row_via st node lam
           | None \<Rightarrow> Some (changed_symbol_marker node, False)))"

type_synonym impact_row = "neighbor_result \<times> impacted_witness"

definition impact_row_of :: "graph_view \<Rightarrow> impact_state \<Rightarrow> node_record \<Rightarrow> impact_row option" where
  "impact_row_of view st node =
     (case witness_chain view st (n_id node) of (chain, min_conf, lifted) \<Rightarrow>
        map_option (\<lambda>(via, exception_transient).
          (\<lparr>nr_node = node, nr_depth = length chain - 1, nr_via = via, nr_condition = e_condition via,
            nr_confidence = e_confidence via, nr_min_confidence_on_path = min_conf,
            nr_exception_transient = exception_transient\<rparr>,
           \<lparr>iw_root = last chain, iw_chain = chain, iw_via_containment_lift = lifted\<rparr>))
          (row_via st (n_id node) (n_id node)))"

fun opt_all :: "'a option list \<Rightarrow> 'a list option" where
  "opt_all [] = Some []"
| "opt_all (None # xs) = None"
| "opt_all (Some x # xs) = map_option (Cons x) (opt_all xs)"

definition is_impacted :: "graph_view \<Rightarrow> impact_state \<Rightarrow> node_record \<Rightarrow> bool" where
  "is_impacted view st node \<longleftrightarrow>
     n_id node < node_count view \<and> im_reached st (n_id node) \<and> n_entrypoint_kind node = Some Test"

text \<open>None stands for a run that would not end.\<close>

definition impacted_tests :: "graph_view \<Rightarrow> node_id list \<Rightarrow> path_walker \<Rightarrow> impacted_answer option" where
  "impacted_tests view changed w =
     (let st = impact_run view changed w; seeds = impact_seeds view changed in
      map_option (\<lambda>rows.
        let rows = sort_key (\<lambda>row. result_key (nr_node (fst row))) rows
        in \<lparr>ia_tests = map fst rows, ia_witnesses = map snd rows, ia_changed_symbols = length seeds,
            ia_file_granular_only = 0,
            ia_lifted = length (filter (\<lambda>row. iw_via_containment_lift (snd row)) rows),
            ia_langs_in_play = bs_collect (map (\<lambda>r. n_lang (view_node view r)) seeds),
            ia_reached = map (im_reached st) [0..<node_count view]\<rparr>)
        (opt_all (map (impact_row_of view st) (filter (is_impacted view st) (gv_nodes view)))))"

end
