(* ===== verification/Query_Impact_Reach.thy ===== *)
theory Query_Impact_Reach
  imports Query_Impacted
begin

text \<open>
  What the rounds of \<open>impacted_tests\<close> compute: the reached nodes are the least set that holds the
  changed symbols and is closed under callers and under the lift from a closure to its owner. Every
  reached node keeps the step that reached it, and these steps lead back to a changed symbol.
\<close>

subsection \<open>The specification\<close>

inductive affected :: "graph_view \<Rightarrow> path_walker \<Rightarrow> node_id list \<Rightarrow> node_id \<Rightarrow> bool" for view w changed where
  aff_seed: "r \<in> set changed \<Longrightarrow> r < node_count view \<Longrightarrow> affected view w changed r"
| aff_call: "affected view w changed u \<Longrightarrow> v \<in> set (view_succ w view Backward u) \<Longrightarrow> affected view w changed v"
| aff_lift: "affected view w changed x \<Longrightarrow> lift_owner view (fqn_index view) x = Some v \<Longrightarrow> v < node_count view \<Longrightarrow>
    affected view w changed v"

lemma affected_walk:
  "walk (view_succ w view Backward) r k v \<Longrightarrow> affected view w changed r \<Longrightarrow> affected view w changed v"
  by (induction rule: walk.induct) (auto intro: aff_call)

lemma affected_reach: "reach w view Backward r v \<Longrightarrow> affected view w changed r \<Longrightarrow> affected view w changed v"
  by (auto simp: reach_def dest: edge_walk_walk affected_walk)

text \<open>The index finds the first node with a name.\<close>

lemma fqn_index_first: "map_of (fqn_index view) fqn = map_of (map (\<lambda>node. (n_fqn node, n_id node)) (gv_nodes view)) fqn"
proof -
  have "map_of (fold (\<lambda>node m. case map_of m (n_fqn node) of Some _ \<Rightarrow> m | None \<Rightarrow> bt_insert (n_fqn node) (n_id node) m) ns m) fqn
      = (case map_of m fqn of Some i \<Rightarrow> Some i | None \<Rightarrow> map_of (map (\<lambda>node. (n_fqn node, n_id node)) ns) fqn)" for ns m
    by (induction ns arbitrary: m) (auto simp: map_of_bt_insert split: option.split)
  from this [of "gv_nodes view" "[]"] show ?thesis by (simp add: fqn_index_def)
qed

subsection \<open>Justified steps\<close>

definition caller_edge :: "graph_view \<Rightarrow> path_walker \<Rightarrow> edge_record \<Rightarrow> node_id \<Rightarrow> node_id \<Rightarrow> bool" where
  "caller_edge view w e v p \<longleftrightarrow> e \<in> set (gv_edges view) \<and> passes view (pw_filter w) e \<and> e_src e = v \<and> e_dst e = p"

definition lift_step :: "graph_view \<Rightarrow> node_id \<Rightarrow> node_id \<Rightarrow> bool" where
  "lift_step view v p \<longleftrightarrow> lift_owner view (fqn_index view) p = Some v"

definition justified :: "graph_view \<Rightarrow> path_walker \<Rightarrow> impact_state \<Rightarrow> node_id \<Rightarrow> node_id \<Rightarrow> bool" where
  "justified view w st v p \<longleftrightarrow>
     (im_lift_from st v = Some p \<and> im_via_of st v = None \<and> lift_step view v p) \<or>
     (im_lift_from st v = None \<and> (\<exists>d. im_via_of st v = Some d \<and> caller_edge view w (dc_via d) v p))"

definition seeded :: "node_id list \<Rightarrow> impact_state \<Rightarrow> node_id \<Rightarrow> bool" where
  "seeded seeds st v \<longleftrightarrow> v \<in> set seeds \<and> im_lift_from st v = None \<and> im_via_of st v = None"

definition ranked ::
  "graph_view \<Rightarrow> path_walker \<Rightarrow> node_id list \<Rightarrow> impact_state \<Rightarrow> (node_id \<Rightarrow> nat) \<Rightarrow> bool" where
  "ranked view w seeds st rank \<longleftrightarrow>
     (\<forall>v. im_reached st v \<longrightarrow> v < node_count view \<and> rank v < card {v. im_reached st v} \<and>
        (seeded seeds st v \<or> (\<exists>p. im_reached st p \<and> rank p < rank v \<and> justified view w st v p)))"

lemma reached_finite: "ranked view w seeds st rank \<Longrightarrow> finite {v. im_reached st v}"
  by (rule finite_subset [of _ "{..<node_count view}"]) (auto simp: ranked_def)

lemma ranked_add:
  assumes r: "ranked view w seeds st rank" and v: "v < node_count view" "\<not> im_reached st v" and p: "im_reached st p"
    and new: "im_reached st' = (im_reached st)(v := True)" "justified view w st' v p"
    and rest: "\<And>u. u \<noteq> v \<Longrightarrow> im_via_of st' u = im_via_of st u \<and> im_lift_from st' u = im_lift_from st u"
  shows "ranked view w seeds st' (rank(v := card {v. im_reached st v}))"
proof -
  have fin: "finite {v. im_reached st v}" by (rule reached_finite [OF r])
  have "{u. im_reached st' u} = insert v {u. im_reached st u}" using new(1) by auto
  then have card: "card {u. im_reached st' u} = Suc (card {u. im_reached st u})" using fin v(2) by simp
  have "p \<noteq> v" using p v(2) by auto
  have same: "seeded seeds st' u \<longleftrightarrow> seeded seeds st u" "justified view w st' u x \<longleftrightarrow> justified view w st u x" if "u \<noteq> v" for u x
    using rest [OF that] by (simp_all add: seeded_def justified_def)
  show ?thesis
    unfolding ranked_def
  proof (intro allI impI)
    fix u
    assume u: "im_reached st' u"
    show "u < node_count view \<and> (rank(v := card {v. im_reached st v})) u < card {v. im_reached st' v} \<and>
        (seeded seeds st' u \<or> (\<exists>p. im_reached st' p \<and>
          (rank(v := card {v. im_reached st v})) p < (rank(v := card {v. im_reached st v})) u \<and> justified view w st' u p))"
    proof (cases "u = v")
      case True
      have "rank p < card {v. im_reached st v}" using r p by (auto simp: ranked_def)
      then show ?thesis using True v(1) p new \<open>p \<noteq> v\<close> card by auto
    next
      case False
      then have u: "im_reached st u" using u new(1) by simp
      then have "u < node_count view \<and> rank u < card {v. im_reached st v} \<and>
          (seeded seeds st u \<or> (\<exists>p. im_reached st p \<and> rank p < rank u \<and> justified view w st u p))"
        using r by (simp add: ranked_def)
      moreover have "x \<noteq> v" if "im_reached st x" for x using that v(2) by auto
      ultimately show ?thesis using False same [OF False] card new(1) by (auto simp: less_Suc_eq)
    qed
  qed
qed

subsection \<open>The order of a breadth-first search\<close>

text \<open>Every discovered node comes after the node its edge was found at.\<close>

fun preds_first :: "node_id set \<Rightarrow> discovered list \<Rightarrow> bool" where
  "preds_first S [] = True"
| "preds_first S (d # ds) \<longleftrightarrow> e_dst (dc_via d) \<in> S \<and> preds_first (insert (dc_node d) S) ds"

lemma preds_first_sorted:
  assumes "sorted (map dc_depth ds)"
    and "\<And>d. d \<in> set ds \<Longrightarrow> e_dst (dc_via d) \<in> S \<or> (\<exists>x \<in> set ds. dc_node x = e_dst (dc_via d) \<and> dc_depth x < dc_depth d)"
  shows "preds_first S ds"
  using assms
proof (induction ds arbitrary: S)
  case (Cons d ds)
  have "e_dst (dc_via d) \<in> S" using Cons.prems(1) Cons.prems(2) [of d] by (auto simp: not_le [symmetric])
  moreover have "preds_first (insert (dc_node d) S) ds"
  proof (rule Cons.IH)
    show "e_dst (dc_via x) \<in> insert (dc_node d) S \<or> (\<exists>y \<in> set ds. dc_node y = e_dst (dc_via x) \<and> dc_depth y < dc_depth x)"
      if "x \<in> set ds" for x
      using Cons.prems(2) [of x] that by auto
  qed (use Cons.prems(1) in simp)
  ultimately show ?case by simp
qed simp

lemma bfs_via:
  assumes "view = graph_view_new ns es cs" "x \<in> set (bfs w view r Backward)"
  shows "caller_edge view w (dc_via x) (dc_node x) (e_dst (dc_via x))"
    and "e_dst (dc_via x) = r \<or> (\<exists>y \<in> set (bfs w view r Backward). dc_node y = e_dst (dc_via x) \<and> dc_depth y < dc_depth x)"
proof -
  obtain es' where es': "es' \<noteq> []" "last es' = dc_via x" "edge_walk w view Backward r es' (dc_node x)" "length es' = dc_depth x"
    using bfs_certified [OF assms(2)] by (auto simp: certified_def)
  then obtain pre where pre: "es' = pre @ [dc_via x]" by (metis append_butlast_last_id)
  then have "edge_path w view Backward r (pre @ [dc_via x]) (dc_node x)" using es'(3) by (simp add: edge_path_walk)
  then obtain u rf where u: "edge_path w view Backward r pre u" "rf \<in> set (neighbors view u Backward (pw_filter w))"
      "er_edge rf = dc_via x" "er_peer rf = dc_node x"
    unfolding edge_path_snoc by auto
  have e: "dc_via x \<in> set (gv_edges view)" "passes view (pw_filter w) (dc_via x)" "e_src (dc_via x) = dc_node x"
    using neighbor_edges [OF u(2)] u(3,4) by (simp_all add: to_end_def)
  have dst: "e_dst (dc_via x) = u"
    using u(2,3) unfolding assms(1) neighbors_new by (auto simp: from_end_def split: if_splits)
  show "caller_edge view w (dc_via x) (dc_node x) (e_dst (dc_via x))" using e by (simp add: caller_edge_def)
  have "within_depth w (dc_depth x)" using bfs_nodes [of w view r Backward "dc_node x" "dc_depth x"] assms(2) by blast
  then have lim: "within_depth w (length pre)"
    using pre es'(4) within_mono [of "pw_max_depth w" "dc_depth x" "length pre"] by (simp add: within_depth_within)
  have "walk (view_succ w view Backward) r (length pre) u" using u(1) by (simp add: edge_path_walk edge_walk_walk)
  then obtain d where d: "d \<le> length pre" "shortest (view_succ w view Backward) r u d" using shortest_exists by blast
  have "within_depth w d" using lim d(1) within_mono [of "pw_max_depth w" "length pre" d] by (simp add: within_depth_within)
  then have "u = r \<or> (\<exists>y \<in> set (bfs w view r Backward). dc_node y = u \<and> dc_depth y = d)"
    using bfs_nodes [of w view r Backward u d] d(2) by blast
  then show "e_dst (dc_via x) = r \<or> (\<exists>y \<in> set (bfs w view r Backward). dc_node y = e_dst (dc_via x) \<and> dc_depth y < dc_depth x)"
    using dst d(1) pre es'(4) by auto
qed

lemma bfs_preds_first:
  assumes "view = graph_view_new ns es cs"
  shows "preds_first {r} (bfs w view r Backward)"
proof (rule preds_first_sorted)
  have "sorted (map (\<lambda>d. (dc_depth d, dc_node d)) (bfs w view r Backward))" by (simp add: bfs_def)
  then have "sorted (map fst (map (\<lambda>d. (dc_depth d, dc_node d)) (bfs w view r Backward)))"
    by (auto simp: sorted_wrt_map less_eq_prod_def elim!: sorted_wrt_mono_rel [rotated])
  then show "sorted (map dc_depth (bfs w view r Backward))" by (simp add: comp_def)
qed (use bfs_via(2) [OF assms] in auto)

subsection \<open>Expanding the worklist\<close>

text \<open>
  The invariant of a round: reached nodes are affected and have their steps; the search from an
  expanded root is complete; a reached node is expanded, found by a search, or still in \<open>P\<close>.
\<close>

definition impact_inv ::
  "graph_view \<Rightarrow> path_walker \<Rightarrow> node_id list \<Rightarrow> node_id set \<Rightarrow> impact_state \<Rightarrow> bool" where
  "impact_inv view w seeds P st \<longleftrightarrow>
     (\<exists>rank. ranked view w seeds st rank) \<and>
     (\<forall>v. im_reached st v \<longrightarrow> affected view w seeds v) \<and>
     (\<forall>r v. im_expanded st r \<longrightarrow> v < node_count view \<longrightarrow> reach w view Backward r v \<longrightarrow> im_reached st v) \<and>
     (\<forall>v. im_walk_reached st v \<longrightarrow> (\<exists>r. im_expanded st r \<and> reach w view Backward r v)) \<and>
     (\<forall>v. im_reached st v \<longrightarrow> im_expanded st v \<or> im_walk_reached st v \<or> v \<in> P)"

lemma record_discovered_skip: "dc_node d \<ge> node_count view \<or> im_reached st (dc_node d) \<Longrightarrow> record_discovered (node_count view) d st = st"
  by (auto simp: record_discovered_def Let_def)

lemma record_discovered_new:
  "dc_node d < node_count view \<Longrightarrow> \<not> im_reached st (dc_node d) \<Longrightarrow> record_discovered (node_count view) d st =
     st\<lparr>im_reached := (im_reached st)(dc_node d := True), im_walk_reached := (im_walk_reached st)(dc_node d := True),
        im_via_of := (im_via_of st)(dc_node d := Some d), im_round_new := im_round_new st @ [dc_node d]\<rparr>"
  by (auto simp: record_discovered_def Let_def)

lemma record_fold_ranked:
  assumes "ranked view w seeds st rank" "preds_first S ds" "\<forall>p \<in> S. p < node_count view \<longrightarrow> im_reached st p"
    and "\<forall>d \<in> set ds. caller_edge view w (dc_via d) (dc_node d) (e_dst (dc_via d)) \<and>
      e_dst (dc_via d) < node_count view \<and> im_lift_from st (dc_node d) = None \<or> im_reached st (dc_node d)"
  shows "\<exists>rank. ranked view w seeds (fold (record_discovered (node_count view)) ds st) rank"
  using assms
proof (induction ds arbitrary: S st rank)
  case (Cons d ds)
  show ?case
  proof (cases "dc_node d < node_count view \<and> \<not> im_reached st (dc_node d)")
    case True
    let ?st = "record_discovered (node_count view) d st"
    have st: "?st = st\<lparr>im_reached := (im_reached st)(dc_node d := True), im_walk_reached := (im_walk_reached st)(dc_node d := True),
        im_via_of := (im_via_of st)(dc_node d := Some d), im_round_new := im_round_new st @ [dc_node d]\<rparr>"
      using True by (intro record_discovered_new) simp_all
    have d: "caller_edge view w (dc_via d) (dc_node d) (e_dst (dc_via d))" "e_dst (dc_via d) < node_count view"
        "im_lift_from st (dc_node d) = None"
      using Cons.prems(4) True by auto
    have p: "im_reached st (e_dst (dc_via d))" using Cons.prems(2,3) d(2) by simp
    have "ranked view w seeds ?st (rank(dc_node d := card {v. im_reached st v}))"
      by (rule ranked_add [OF Cons.prems(1) _ _ p]) (use True d in \<open>simp_all add: st justified_def\<close>)
    then show ?thesis
      unfolding fold_simps comp_apply
      by (rule Cons.IH [where S = "insert (dc_node d) S"]) (use Cons.prems(2-4) in \<open>auto simp: st\<close>)
  next
    case False
    then have "record_discovered (node_count view) d st = st" by (intro record_discovered_skip) auto
    then show ?thesis using Cons.IH [OF Cons.prems(1), of "insert (dc_node d) S"] Cons.prems(2-4) False by auto
  qed
qed auto

lemma record_fold_fields:
  "im_reached (fold (record_discovered n) ds st) v \<longleftrightarrow> im_reached st v \<or> v < n \<and> v \<in> dc_node ` set ds"
  "im_walk_reached (fold (record_discovered n) ds st) v \<longleftrightarrow>
     im_walk_reached st v \<or> \<not> im_reached st v \<and> v < n \<and> v \<in> dc_node ` set ds"
  "im_expanded (fold (record_discovered n) ds st) = im_expanded st"
  "im_lift_from (fold (record_discovered n) ds st) = im_lift_from st"
  "set (im_round_new (fold (record_discovered n) ds st)) =
     set (im_round_new st) \<union> {v. v < n \<and> v \<in> dc_node ` set ds \<and> \<not> im_reached st v}"
  by (induction ds arbitrary: st) (auto simp: record_discovered_def Let_def)

text \<open>Lifted nodes are reached, so an unreached node was not lifted.\<close>

definition lifts_reached :: "impact_state \<Rightarrow> bool" where
  "lifts_reached st \<longleftrightarrow> (\<forall>v. im_lift_from st v \<noteq> None \<or> im_via_of st v \<noteq> None \<longrightarrow> im_reached st v)"

lemma lifts_reached_record: "lifts_reached st \<Longrightarrow> lifts_reached (record_discovered n d st)"
  by (auto simp: lifts_reached_def record_discovered_def Let_def)

lemma lifts_reached_fold: "lifts_reached st \<Longrightarrow> lifts_reached (fold (record_discovered n) ds st)"
  by (induction ds arbitrary: st) (simp_all add: lifts_reached_record)

lemma expand_root_inv:
  assumes v: "view = graph_view_new ns es cs" and inv: "impact_inv view w seeds P st" and r: "im_reached st r"
    and l: "lifts_reached st"
  shows "impact_inv view w seeds (P - {r}) (expand_root view w r st) \<and> lifts_reached (expand_root view w r st)"
proof (cases "im_expanded st r \<or> (pw_max_depth w = None \<and> im_walk_reached st r)")
  case True
  then have "expand_root view w r st = st" by (auto simp: expand_root_def Let_def)
  then show ?thesis using inv True l by (auto simp: impact_inv_def)
next
  case False
  let ?n = "node_count view" and ?ds = "bfs w view r Backward" and ?st = "st\<lparr>im_expanded := (im_expanded st)(r := True)\<rparr>"
  have rn: "r < ?n" using inv r by (auto simp: impact_inv_def ranked_def)
  have st': "expand_root view w r st = fold (record_discovered ?n) ?ds ?st"
    using False rn by (auto simp: expand_root_def Let_def)
  obtain rank where rank: "ranked view w seeds st rank" using inv by (auto simp: impact_inv_def)
  have reach: "reach w view Backward r v \<longleftrightarrow> v = r \<or> v \<in> dc_node ` set ?ds" for v using bfs_reach [of r w view Backward] by blast
  have bound: "dc_node d < ?n" if "d \<in> set ?ds" for d using bfs_node_bound [OF that] .
  have "ranked view w seeds ?st rank" using rank by (simp add: ranked_def seeded_def justified_def)
  then have rk: "\<exists>rank. ranked view w seeds (fold (record_discovered ?n) ?ds ?st) rank"
  proof (rule record_fold_ranked [OF _ bfs_preds_first [OF v]])
    show "\<forall>d \<in> set ?ds. caller_edge view w (dc_via d) (dc_node d) (e_dst (dc_via d)) \<and>
        e_dst (dc_via d) < ?n \<and> im_lift_from ?st (dc_node d) = None \<or> im_reached ?st (dc_node d)"
    proof
      fix d
      assume d: "d \<in> set ?ds"
      have "e_dst (dc_via d) < ?n" using bfs_via(2) [OF v d] bound rn by metis
      moreover have "im_lift_from ?st (dc_node d) = None \<or> im_reached ?st (dc_node d)"
        using l by (auto simp: lifts_reached_def)
      ultimately show "caller_edge view w (dc_via d) (dc_node d) (e_dst (dc_via d)) \<and>
          e_dst (dc_via d) < ?n \<and> im_lift_from ?st (dc_node d) = None \<or> im_reached ?st (dc_node d)"
        using bfs_via(1) [OF v d] by blast
    qed
  qed (use r in simp)
  have aff: "affected view w seeds x" if "im_reached st x \<or> x < ?n \<and> x \<in> dc_node ` set ?ds" for x
  proof -
    have all: "im_reached st v \<Longrightarrow> affected view w seeds v" for v using inv by (simp add: impact_inv_def)
    show ?thesis using that reach [of x] all affected_reach [OF _ all [OF r], of x] by blast
  qed
  have old: "im_expanded st x \<Longrightarrow> u < ?n \<Longrightarrow> reach w view Backward x u \<Longrightarrow> im_reached st u"
    "im_walk_reached st u \<Longrightarrow> \<exists>x. im_expanded st x \<and> reach w view Backward x u"
    "im_reached st u \<Longrightarrow> im_expanded st u \<or> im_walk_reached st u \<or> u \<in> P" for x u
    using inv by (simp_all add: impact_inv_def)
  have "impact_inv view w seeds (P - {r}) (fold (record_discovered ?n) ?ds ?st)"
    unfolding impact_inv_def record_fold_fields
  proof (intro conjI allI impI)
    show "\<exists>x. im_expanded ?st x \<and> reach w view Backward x u"
      if "im_walk_reached ?st u \<or> \<not> im_reached ?st u \<and> u < ?n \<and> u \<in> dc_node ` set ?ds" for u
      using that reach [of u] old(2) [of u] by auto
    show "im_reached ?st u \<or> u < ?n \<and> u \<in> dc_node ` set ?ds"
      if "im_expanded ?st x" "u < ?n" "reach w view Backward x u" for x u
      using that reach [of u] old(1) [of x u] r by (cases "x = r") auto
    show "im_expanded ?st u \<or> (im_walk_reached ?st u \<or> \<not> im_reached ?st u \<and> u < ?n \<and> u \<in> dc_node ` set ?ds) \<or> u \<in> P - {r}"
      if "im_reached ?st u \<or> u < ?n \<and> u \<in> dc_node ` set ?ds" for u
      using that old(3) [of u] by auto
    show "affected view w seeds u" if "im_reached ?st u \<or> u < ?n \<and> u \<in> dc_node ` set ?ds" for u
      by (rule aff) (use that in simp)
    show "\<exists>rank. ranked view w seeds (fold (record_discovered ?n) ?ds ?st) rank" by (rule rk)
  qed
  moreover have "lifts_reached (fold (record_discovered ?n) ?ds ?st)"
    by (rule lifts_reached_fold) (use l in \<open>simp add: lifts_reached_def\<close>)
  ultimately show ?thesis unfolding st' by blast
qed

lemma expand_round_new:
  "set (im_round_new (expand_root view w r st)) = set (im_round_new st) \<union> {v. im_reached (expand_root view w r st) v \<and> \<not> im_reached st v}"
  by (auto simp: expand_root_def record_fold_fields Let_def)

lemma expand_roots_inv:
  assumes v: "view = graph_view_new ns es cs" and "impact_inv view w seeds P st" "\<forall>r \<in> set wl. im_reached st r" "lifts_reached st"
  shows "impact_inv view w seeds (P - set wl) (fold (expand_root view w) wl st) \<and> lifts_reached (fold (expand_root view w) wl st) \<and>
    set (im_round_new (fold (expand_root view w) wl st)) =
      set (im_round_new st) \<union> {v. im_reached (fold (expand_root view w) wl st) v \<and> \<not> im_reached st v}"
  using assms(2-4)
proof (induction wl arbitrary: st P)
  case (Cons r wl)
  let ?st = "expand_root view w r st"
  have r: "im_reached st r" using Cons.prems(2) by simp
  note one = expand_root_inv [OF v Cons.prems(1) r Cons.prems(3)]
  have "\<forall>r \<in> set wl. im_reached ?st r" using Cons.prems(2) expand_root_grows by auto
  from Cons.IH [OF _ this, of "P - {r}"] one
  have "impact_inv view w seeds (P - {r} - set wl) (fold (expand_root view w) wl ?st)"
    "lifts_reached (fold (expand_root view w) wl ?st)"
    "set (im_round_new (fold (expand_root view w) wl ?st)) =
      set (im_round_new ?st) \<union> {v. im_reached (fold (expand_root view w) wl ?st) v \<and> \<not> im_reached ?st v}" by blast+
  moreover have "P - {r} - set wl = P - set (r # wl)" by auto
  ultimately show ?case using expand_round_new [of view w r st] expand_root_grows [of st _ view w r]
      expand_roots_grow [of ?st _ view w wl] by auto
qed simp

subsection \<open>Lifting closures\<close>

definition lifted_from :: "graph_view \<Rightarrow> impact_state \<Rightarrow> node_id \<Rightarrow> bool" where
  "lifted_from view st x \<longleftrightarrow>
     (\<forall>v. lift_owner view (fqn_index view) x = Some v \<longrightarrow> v < node_count view \<longrightarrow> im_reached st v)"

lemma lift_node_cases:
  obtains (skip) "lift_node view (fqn_index view) x (st, nxt) = (st, nxt)" "lifted_from view st x"
  | (lift) v where "lift_owner view (fqn_index view) x = Some v" "v < node_count view" "\<not> im_reached st v"
      "lift_node view (fqn_index view) x (st, nxt) =
        (st\<lparr>im_reached := (im_reached st)(v := True), im_lift_from := (im_lift_from st)(v := Some x)\<rparr>, bs_insert v nxt)"
proof (cases "\<exists>v. lift_owner view (fqn_index view) x = Some v \<and> v < node_count view \<and> \<not> im_reached st v")
  case True
  then obtain v where v: "lift_owner view (fqn_index view) x = Some v" "v < node_count view" "\<not> im_reached st v" by blast
  then show thesis by (intro lift [OF v]) (simp add: lift_node_def)
next
  case False
  then have "lift_node view (fqn_index view) x (st, nxt) = (st, nxt)" by (auto simp: lift_node_def not_le split: option.split)
  then show thesis by (rule skip) (use False in \<open>auto simp: lifted_from_def\<close>)
qed

lemma lift_fold_next: "fold (lift_node view (fqn_index view)) xs (st, nxt) = (st', nxt') \<Longrightarrow> set nxt \<subseteq> set nxt'"
proof (induction xs arbitrary: st nxt)
  case (Cons x xs)
  show ?case
  proof (cases rule: lift_node_cases [of view x st nxt])
    case skip
    then show ?thesis using Cons by simp
  next
    case (lift v)
    then have "set (bs_insert v nxt) \<subseteq> set nxt'" using Cons by simp
    then show ?thesis by (simp add: set_bs_insert)
  qed
qed simp

text \<open>The invariant of the lifts of a round; the nodes of \<open>nxt\<close> are the new ones.\<close>

lemma lift_fold_inv:
  assumes "fold (lift_node view (fqn_index view)) xs (st, nxt) = (st', nxt')"
    and "impact_inv view w seeds (set nxt) st" "lifts_reached st" "\<forall>x \<in> set xs. im_reached st x" "\<forall>v \<in> set nxt. im_reached st v"
  shows "impact_inv view w seeds (set nxt') st' \<and> lifts_reached st' \<and> (\<forall>x \<in> set xs. lifted_from view st' x) \<and>
    {v. im_reached st' v} = {v. im_reached st v} \<union> set nxt'"
  using assms
proof (induction xs arbitrary: st nxt)
  case Nil
  then show ?case by auto
next
  case (Cons x xs)
  show ?case
  proof (cases rule: lift_node_cases [of view x st nxt])
    case skip
    have "fold (lift_node view (fqn_index view)) xs (st, nxt) = (st', nxt')" using Cons.prems(1) skip(1) by simp
    from Cons.IH [OF this Cons.prems(2,3)] Cons.prems(4,5) have ih: "impact_inv view w seeds (set nxt') st' \<and> lifts_reached st' \<and>
        (\<forall>x \<in> set xs. lifted_from view st' x) \<and> {v. im_reached st' v} = {v. im_reached st v} \<union> set nxt'" by simp
    then have "im_reached st v \<Longrightarrow> im_reached st' v" for v by blast
    then have "lifted_from view st' x" using skip(2) by (simp add: lifted_from_def)
    then show ?thesis using ih by simp
  next
    case (lift v)
    let ?st = "st\<lparr>im_reached := (im_reached st)(v := True), im_lift_from := (im_lift_from st)(v := Some x)\<rparr>"
    have x: "im_reached st x" using Cons.prems(4) by simp
    obtain rank where rank: "ranked view w seeds st rank" using Cons.prems(2) by (auto simp: impact_inv_def)
    have "im_via_of st v = None" using Cons.prems(3) lift(3) by (auto simp: lifts_reached_def)
    then have rk: "ranked view w seeds ?st (rank(v := card {v. im_reached st v}))"
      by (intro ranked_add [OF rank lift(2,3) x]) (use lift(1) in \<open>simp_all add: justified_def lift_step_def\<close>)
    have all: "im_reached st u \<Longrightarrow> affected view w seeds u" for u using Cons.prems(2) by (simp add: impact_inv_def)
    have inv: "impact_inv view w seeds (set (bs_insert v nxt)) ?st"
      unfolding impact_inv_def
    proof (intro conjI allI impI)
      show "\<exists>rank. ranked view w seeds ?st rank" using rk by blast
      show "affected view w seeds u" if "im_reached ?st u" for u
        using that all aff_lift [OF all [OF x] lift(1,2)] by (auto split: if_splits)
    qed (use Cons.prems(2) in \<open>auto simp: impact_inv_def set_bs_insert split: if_splits\<close>)
    have eq: "fold (lift_node view (fqn_index view)) xs (?st, bs_insert v nxt) = (st', nxt')" using Cons.prems(1) lift(4) by simp
    have lr: "lifts_reached ?st" using Cons.prems(3) by (auto simp: lifts_reached_def)
    have ih: "impact_inv view w seeds (set nxt') st' \<and> lifts_reached st' \<and>
        (\<forall>x \<in> set xs. lifted_from view st' x) \<and> {u. im_reached st' u} = {u. im_reached ?st u} \<union> set nxt'"
      by (rule Cons.IH [OF eq inv lr]) (use Cons.prems(4,5) in \<open>auto simp: set_bs_insert\<close>)
    have "{u. im_reached ?st u} = insert v {u. im_reached st u}" by auto
    then have "im_reached st' v" using ih by blast
    then have lifted: "lifted_from view st' x" using lift(1) by (simp add: lifted_from_def)
    have "v \<in> set nxt'" using lift_fold_next [OF eq] by (simp add: set_bs_insert)
    then show ?thesis using ih lifted \<open>{u. im_reached ?st u} = insert v {u. im_reached st u}\<close> by auto
  qed
qed

subsection \<open>The rounds together\<close>

lemma lifted_from_mono:
  "lifted_from view st x \<Longrightarrow> (\<And>v. im_reached st v \<Longrightarrow> im_reached st' v) \<Longrightarrow> lifted_from view st' x"
  by (simp add: lifted_from_def)

lemma impact_round_inv:
  assumes v: "view = graph_view_new ns es cs" and inv: "impact_inv view w seeds (set wl) st" "lifts_reached st"
    and new: "set (im_round_new st) = set wl" "\<forall>x \<in> set wl. im_reached st x"
    and old: "\<forall>x. im_reached st x \<longrightarrow> x \<notin> set wl \<longrightarrow> lifted_from view st x"
    and round: "impact_round view w (fqn_index view) wl st = (st', nxt)"
  shows "impact_inv view w seeds (set nxt) st' \<and> lifts_reached st' \<and> (\<forall>x \<in> set nxt. im_reached st' x) \<and>
    (\<forall>x. im_reached st' x \<longrightarrow> x \<notin> set nxt \<longrightarrow> lifted_from view st' x) \<and> (\<forall>x. im_reached st x \<longrightarrow> im_reached st' x)"
proof -
  let ?st = "fold (expand_root view w) wl st"
  have grow: "im_reached st x \<Longrightarrow> im_reached ?st x" for x by (rule expand_roots_grow)
  have one: "impact_inv view w seeds (set []) ?st" "lifts_reached ?st"
    and rn: "set (im_round_new ?st) = set wl \<union> {v. im_reached ?st v \<and> \<not> im_reached st v}"
    using expand_roots_inv [OF v inv(1) new(2) inv(2)] new(1) by simp_all
  have "fold (lift_node view (fqn_index view)) (sort (im_round_new ?st)) (?st, []) = (st', nxt)"
    using round by (simp add: impact_round_def Let_def)
  note lifts = lift_fold_inv [OF this one]
  have "\<forall>x \<in> set (sort (im_round_new ?st)). im_reached ?st x" using grow new(2) unfolding set_sort rn by blast
  note lifts = lifts [OF this]
  have two: "impact_inv view w seeds (set nxt) st'" "lifts_reached st'"
      "\<forall>x \<in> set (im_round_new ?st). lifted_from view st' x"
      "{v. im_reached st' v} = {v. im_reached ?st v} \<union> set nxt"
    using lifts by simp_all
  have split: "im_reached st' x \<longleftrightarrow> im_reached ?st x \<or> x \<in> set nxt" for x using two(4) by blast
  have "lifted_from view st' x" if "im_reached st' x" "x \<notin> set nxt" for x
  proof (cases "x \<in> set (im_round_new ?st)")
    case False
    moreover have "im_reached ?st x" using that split by simp
    ultimately have "im_reached st x" "x \<notin> set wl" unfolding rn by blast+
    then have "lifted_from view st x" using old by simp
    then show ?thesis by (rule lifted_from_mono) (simp add: split grow)
  qed (use two(3) in simp)
  moreover have "\<forall>x. im_reached st x \<longrightarrow> im_reached st' x" using grow split by simp
  ultimately show ?thesis using two(1,2) split by simp
qed

lemma impact_loop_final:
  assumes "index = fqn_index view" "view = graph_view_new ns es cs" "impact_inv view w seeds (set wl) st" "lifts_reached st"
    and "set (im_round_new st) = set wl" "\<forall>x \<in> set wl. im_reached st x"
    and "\<forall>x. im_reached st x \<longrightarrow> x \<notin> set wl \<longrightarrow> lifted_from view st x"
  shows "impact_inv view w seeds {} (impact_loop view w index wl st) \<and>
    (\<forall>x. im_reached (impact_loop view w index wl st) x \<longrightarrow> lifted_from view (impact_loop view w index wl st) x) \<and>
    (\<forall>x. im_reached st x \<longrightarrow> im_reached (impact_loop view w index wl st) x)"
  using assms
proof (induction view w index wl st rule: impact_loop.induct)
  case (1 view w index wl st)
  obtain st' nxt where round: "impact_round view w index wl st = (st', nxt)" by fastforce
  have r: "impact_inv view w seeds (set nxt) st'" "lifts_reached st'" "\<forall>x \<in> set nxt. im_reached st' x"
      "\<forall>x. im_reached st' x \<longrightarrow> x \<notin> set nxt \<longrightarrow> lifted_from view st' x" "\<forall>x. im_reached st x \<longrightarrow> im_reached st' x"
    using impact_round_inv [OF 1(3-8)] round 1(2) by simp_all
  show ?case
  proof (cases "nxt = []")
    case True
    then have "impact_loop view w index wl st = st'" by (simp add: impact_loop.simps [of view w index wl st] round)
    then show ?thesis using r True by simp
  next
    case False
    let ?st = "st'\<lparr>im_round_new := nxt\<rparr>"
    have loop: "impact_loop view w index wl st = impact_loop view w index nxt ?st"
      using False by (simp add: impact_loop.simps [of view w index wl st] round)
    have same: "impact_inv view w seeds (set nxt) ?st" "lifts_reached ?st"
      "lifted_from view ?st x \<longleftrightarrow> lifted_from view st' x" for x
      using r(1,2) by (simp_all add: impact_inv_def ranked_def seeded_def justified_def lifts_reached_def lifted_from_def)
    show ?thesis
      using 1(1) [OF round [symmetric] False 1(2,3) same(1,2)] r(3-5) same(3) unfolding loop by simp
  qed
qed

definition impact_start :: "node_id list \<Rightarrow> impact_state" where
  "impact_start seeds =
     \<lparr>im_reached = (\<lambda>i. i \<in> set seeds), im_walk_reached = (\<lambda>_. False), im_expanded = (\<lambda>_. False),
      im_via_of = (\<lambda>_. None), im_lift_from = (\<lambda>_. None), im_round_new = seeds\<rparr>"

lemma set_impact_seeds: "set (impact_seeds view changed) = {r \<in> set changed. r < node_count view}"
  by (auto simp: impact_seeds_def)

lemma impact_start_inv:
  assumes "\<forall>r \<in> set seeds. r < node_count view"
  shows "impact_inv view w seeds (set seeds) (impact_start seeds)"
proof -
  have "ranked view w seeds (impact_start seeds) (\<lambda>_. 0)"
    using assms by (auto simp: ranked_def impact_start_def seeded_def card_gt_0_iff)
  then show ?thesis using assms by (auto simp: impact_inv_def impact_start_def intro: aff_seed)
qed

lemma impact_run_inv:
  assumes "view = graph_view_new ns es cs"
  shows "impact_inv view w (impact_seeds view changed) {} (impact_run view changed w)"
    and "im_reached (impact_run view changed w) x \<Longrightarrow> lifted_from view (impact_run view changed w) x"
    and "x \<in> set (impact_seeds view changed) \<Longrightarrow> im_reached (impact_run view changed w) x"
proof -
  let ?seeds = "impact_seeds view changed"
  have run: "impact_run view changed w = impact_loop view w (fqn_index view) ?seeds (impact_start ?seeds)"
    by (simp add: impact_run_def impact_start_def Let_def)
  have "lifts_reached (impact_start ?seeds)" "set (im_round_new (impact_start ?seeds)) = set ?seeds"
    "\<And>x. im_reached (impact_start ?seeds) x \<longleftrightarrow> x \<in> set ?seeds"
    by (simp_all add: lifts_reached_def impact_start_def)
  then have "impact_inv view w ?seeds {} (impact_run view changed w) \<and>
      (\<forall>x. im_reached (impact_run view changed w) x \<longrightarrow> lifted_from view (impact_run view changed w) x) \<and>
      (\<forall>x. im_reached (impact_start ?seeds) x \<longrightarrow> im_reached (impact_run view changed w) x)"
    unfolding run by (intro impact_loop_final [OF refl assms impact_start_inv]) (simp_all add: set_impact_seeds)
  then show "impact_inv view w ?seeds {} (impact_run view changed w)"
    "im_reached (impact_run view changed w) x \<Longrightarrow> lifted_from view (impact_run view changed w) x"
    "x \<in> set ?seeds \<Longrightarrow> im_reached (impact_run view changed w) x"
    by (simp_all add: impact_start_def)
qed

lemma affected_seeds: "affected view w (impact_seeds view changed) v \<longleftrightarrow> affected view w changed v"
proof
  show "affected view w (impact_seeds view changed) v \<Longrightarrow> affected view w changed v"
    by (induction rule: affected.induct) (auto simp: set_impact_seeds intro: affected.intros)
  show "affected view w changed v \<Longrightarrow> affected view w (impact_seeds view changed) v"
    by (induction rule: affected.induct) (auto simp: set_impact_seeds intro: affected.intros)
qed

theorem impact_run_affected:
  assumes "view = graph_view_new ns es cs" "pw_max_depth w = None"
  shows "im_reached (impact_run view changed w) v \<longleftrightarrow> affected view w changed v"
proof
  let ?st = "impact_run view changed w"
  note inv = impact_run_inv [OF assms(1), where w = w and changed = changed]
  show "im_reached ?st v \<Longrightarrow> affected view w changed v"
    using inv(1) by (simp add: impact_inv_def affected_seeds)
  have full: "im_expanded ?st r \<Longrightarrow> v < node_count view \<Longrightarrow> reach w view Backward r v \<Longrightarrow> im_reached ?st v"
    and from_root: "im_reached ?st v \<Longrightarrow> im_expanded ?st v \<or> (\<exists>r. im_expanded ?st r \<and> reach w view Backward r v)" for r v
    using inv(1) by (auto simp: impact_inv_def)
  show "affected view w changed v \<Longrightarrow> im_reached ?st v"
  proof (induction rule: affected.induct)
    case (aff_seed r)
    then show ?case using inv(3) by (simp add: set_impact_seeds)
  next
    case (aff_call u x)
    obtain r where r: "im_expanded ?st r" "reach w view Backward r u"
      using from_root [OF aff_call.IH] by (auto simp: reach_def)
    obtain k where "walk (view_succ w view Backward) r k u"
      using r(2) by (auto simp: reach_def dest: edge_walk_walk intro: walk_nil)
    then have "walk (view_succ w view Backward) r (Suc k) x" using aff_call.hyps(2) by (rule walk_step)
    then have "reach w view Backward r x" using assms(2) unfolding walk_iff_edge_walk by (auto simp: reach_def within_depth_def)
    moreover have "x < node_count view" using aff_call.hyps(2) by (auto simp: view_succ_def)
    ultimately show ?case using full r(1) by blast
  next
    case (aff_lift x u)
    then show ?case using inv(2) by (auto simp: lifted_from_def)
  qed
qed

subsection \<open>Witness routes\<close>

text \<open>A route from a test to a change: call edges, and steps from an owner into its closure.\<close>

inductive route ::
  "graph_view \<Rightarrow> path_walker \<Rightarrow> node_id \<Rightarrow> node_id list \<Rightarrow> edge_record list \<Rightarrow> bool \<Rightarrow> bool" for view w where
  route_end: "route view w v [] [] False"
| route_call: "caller_edge view w e v p \<Longrightarrow> route view w p tail es lf \<Longrightarrow> route view w v (p # tail) (e # es) lf"
| route_lift: "lift_step view v p \<Longrightarrow> route view w p tail es lf \<Longrightarrow> route view w v (p # tail) es True"

definition route_via :: "node_id \<Rightarrow> edge_record list \<Rightarrow> edge_record" where
  "route_via node es = (case es of [] \<Rightarrow> changed_symbol_marker node | e # _ \<Rightarrow> e)"

lemma chain_route:
  assumes rank: "ranked view w seeds st rank" and cur: "im_reached st cur"
  shows "\<exists>tail es lf. route view w cur tail es lf \<and> last (cur # tail) \<in> set seeds \<and> length tail \<le> rank cur \<and>
    (\<exists>x. row_via st node cur = Some (route_via node es, x)) \<and>
    (\<forall>k acc conf lifted. rank cur \<le> k \<longrightarrow> chain_loop st k cur (acc, conf, lifted) =
      (acc @ tail, foldl weakest conf (map e_confidence es), lifted \<or> lf))"
  using cur
proof (induction "rank cur" arbitrary: cur rule: less_induct)
  case less
  have "seeded seeds st cur \<or> (\<exists>p. im_reached st p \<and> rank p < rank cur \<and> justified view w st cur p)"
    using rank less.prems by (auto simp: ranked_def)
  then show ?case
  proof (elim disjE exE conjE)
    assume "seeded seeds st cur"
    then have "cur \<in> set seeds" "im_lift_from st cur = None" "im_via_of st cur = None" by (simp_all add: seeded_def)
    moreover from this have "chain_loop st k cur (acc, conf, lifted) = (acc, conf, lifted)" for k acc conf lifted
      by (cases k) simp_all
    moreover have "row_via st node cur = Some (changed_symbol_marker node, False)"
      using calculation by (simp add: row_via.simps)
    ultimately show ?thesis
      by (intro exI [of _ "[]"] exI [of _ False] conjI route_end) (simp_all add: route_via_def)
  next
    fix p
    assume p: "im_reached st p" "rank p < rank cur" "justified view w st cur p"
    obtain tail es lf x where ih: "route view w p tail es lf" "last (p # tail) \<in> set seeds" "length tail \<le> rank p"
        "row_via st node p = Some (route_via node es, x)"
        "\<And>k acc conf lifted. rank p \<le> k \<Longrightarrow> chain_loop st k p (acc, conf, lifted) =
          (acc @ tail, foldl weakest conf (map e_confidence es), lifted \<or> lf)"
      using less.hyps [OF p(2,1)] by blast
    show ?thesis
      using p(3) unfolding justified_def
    proof (elim disjE exE conjE)
      assume l: "im_lift_from st cur = Some p" "im_via_of st cur = None" "lift_step view cur p"
      have "chain_loop st k cur (acc, conf, lifted) = (acc @ p # tail, foldl weakest conf (map e_confidence es), lifted \<or> True)"
        if "rank cur \<le> k" for k acc conf lifted
        using that p(2) l(1) ih(5) by (cases k) simp_all
      moreover have "row_via st node cur = Some (route_via node es, x)"
        using l ih(4) by (simp add: row_via.simps [of st node cur])
      ultimately show ?thesis
        using route_lift [OF l(3) ih(1)] ih(2,3) p(2)
        by (intro exI [of _ "p # tail"] exI [of _ es] exI [of _ True]) simp
    next
      fix d
      assume d: "im_lift_from st cur = None" "im_via_of st cur = Some d" "caller_edge view w (dc_via d) cur p"
      then have dst: "e_dst (dc_via d) = p" by (simp add: caller_edge_def)
      have "chain_loop st k cur (acc, conf, lifted) =
          (acc @ p # tail, foldl weakest conf (map e_confidence (dc_via d # es)), lifted \<or> lf)"
        if "rank cur \<le> k" for k acc conf lifted
        using that p(2) d(1,2) dst ih(5) by (cases k) simp_all
      moreover have "row_via st node cur = Some (route_via node (dc_via d # es), dc_exception_transient d)"
        using d(2) by (simp add: row_via.simps [of st node cur] route_via_def)
      ultimately show ?thesis
        using route_call [OF d(3) ih(1)] ih(2,3) p(2)
        by (intro exI [of _ "p # tail"] exI [of _ "dc_via d # es"] exI [of _ lf]) simp
    qed
  qed
qed

lemma witness_route:
  assumes "ranked view w seeds st rank" "im_reached st cur"
  shows "\<exists>tail es lf x. route view w cur tail es lf \<and> last (cur # tail) \<in> set seeds \<and>
    row_via st node cur = Some (route_via node es, x) \<and>
    witness_chain view st cur = (cur # tail, if lf then weakest (weakest_of es) Possible else weakest_of es, lf)"
proof -
  have "card {v. im_reached st v} \<le> node_count view"
    using assms(1) by (intro card_mono [of "{..<node_count view}", simplified]) (auto simp: ranked_def)
  then have "rank cur \<le> node_count view" using assms by (auto simp: ranked_def intro: less_imp_le less_le_trans)
  then show ?thesis using chain_route [OF assms, of node] by (fastforce simp: witness_chain_def weakest_of_def)
qed

lemma opt_all_map: "(\<And>x. x \<in> set xs \<Longrightarrow> f x = Some (g x)) \<Longrightarrow> opt_all (map f xs) = Some (map g xs)"
  by (induction xs) simp_all

text \<open>What a row says.\<close>

definition row_explained :: "graph_view \<Rightarrow> path_walker \<Rightarrow> node_id list \<Rightarrow> impact_row \<Rightarrow> bool" where
  "row_explained view w changed row \<longleftrightarrow> (case row of (r, wit) \<Rightarrow>
     \<exists>tail es. route view w (n_id (nr_node r)) tail es (iw_via_containment_lift wit) \<and>
       iw_chain wit = n_id (nr_node r) # tail \<and> iw_root wit = last (iw_chain wit) \<and> iw_root wit \<in> set changed \<and>
       nr_depth r = length tail \<and> nr_via r = route_via (n_id (nr_node r)) es \<and>
       nr_min_confidence_on_path r = (if iw_via_containment_lift wit then Possible else weakest_of es))"

lemma impacted_tests_rows:
  assumes v: "view = graph_view_new ns es cs"
  shows "\<exists>rows a. impacted_tests view changed w = Some a \<and>
    ia_tests a = map fst rows \<and> ia_witnesses a = map snd rows \<and>
    mset (map (\<lambda>row. nr_node (fst row)) rows) = mset (filter (is_impacted view (impact_run view changed w)) ns) \<and>
    sorted (map (\<lambda>row. result_key (nr_node (fst row))) rows) \<and> (\<forall>row \<in> set rows. row_explained view w changed row)"
proof -
  let ?st = "impact_run view changed w" and ?seeds = "impact_seeds view changed"
  let ?nodes = "filter (is_impacted view ?st) ns"
  obtain rank where rank: "ranked view w ?seeds ?st rank"
    using impact_run_inv(1) [OF v, of w changed] by (auto simp: impact_inv_def)
  have one: "\<exists>row. impact_row_of view ?st node = Some row \<and> nr_node (fst row) = node \<and> row_explained view w changed row"
    if node: "node \<in> set ?nodes" for node
  proof -
    have "im_reached ?st (n_id node)" using node by (simp add: is_impacted_def)
    from witness_route [OF rank this, of "n_id node"] obtain tail es lf x where
      t: "route view w (n_id node) tail es lf" "last (n_id node # tail) \<in> set ?seeds"
        "row_via ?st (n_id node) (n_id node) = Some (route_via (n_id node) es, x)"
        "witness_chain view ?st (n_id node) = (n_id node # tail, if lf then weakest (weakest_of es) Possible else weakest_of es, lf)"
      by blast
    let ?row = "(\<lparr>nr_node = node, nr_depth = length tail, nr_via = route_via (n_id node) es,
        nr_condition = e_condition (route_via (n_id node) es), nr_confidence = e_confidence (route_via (n_id node) es),
        nr_min_confidence_on_path = (if lf then weakest (weakest_of es) Possible else weakest_of es),
        nr_exception_transient = x\<rparr>,
       \<lparr>iw_root = last (n_id node # tail), iw_chain = n_id node # tail, iw_via_containment_lift = lf\<rparr>)"
    have weak: "weakest c Possible = Possible" for c
      by (cases c) (simp_all add: weakest_def min_def less_eq_confidence_def)
    have "impact_row_of view ?st node = Some ?row" unfolding impact_row_of_def t(4) by (simp add: t(3))
    moreover have "last (n_id node # tail) \<in> set changed" using t(2) unfolding set_impact_seeds by blast
    then have "row_explained view w changed ?row"
      unfolding row_explained_def prod.case using t(1)
      by (intro exI [of _ tail] exI [of _ es]) (simp only: neighbor_result.simps impacted_witness.simps weak if_cancel HOL.simp_thms)
    ultimately show ?thesis by (intro exI [of _ ?row]) simp
  qed
  then obtain g where g: "\<And>node. node \<in> set ?nodes \<Longrightarrow> impact_row_of view ?st node = Some (g node) \<and>
      nr_node (fst (g node)) = node \<and> row_explained view w changed (g node)" by metis
  let ?rows = "sort_key (\<lambda>row. result_key (nr_node (fst row))) (map g ?nodes)"
  have nodes: "gv_nodes view = ns" by (simp add: v graph_view_new_fields)
  have "opt_all (map (impact_row_of view ?st) ?nodes) = Some (map g ?nodes)" by (rule opt_all_map) (use g in blast)
  then have "\<exists>a. impacted_tests view changed w = Some a \<and> ia_tests a = map fst ?rows \<and> ia_witnesses a = map snd ?rows"
    by (simp add: impacted_tests_def nodes Let_def)
  moreover have "map (\<lambda>row. nr_node (fst row)) (map g ?nodes) = ?nodes"
    unfolding map_map comp_def by (rule map_idI) (use g in blast)
  then have "mset (map (\<lambda>row. nr_node (fst row)) ?rows) = mset ?nodes" by (metis mset_map mset_sort)
  ultimately show ?thesis using g by (intro exI [of _ ?rows]) auto
qed

end
