(* ===== verification/Query_Impact_Contract.thy ===== *)
theory Query_Impact_Contract
  imports Query_Impacted
begin

text \<open>
  The approximation contract of an impacted-tests answer (cgx-query/src/impacted.rs): its own scan
  of the nodes the walk reached and did not reach, and the fixed order of its reasons.
\<close>

subsection \<open>The frontier of the reverse walk\<close>

record impact_frontier =
  if_dangling_refs :: nat
  if_untyped_dropped :: nat
  if_narrowed_away_in :: nat
  if_visible_away_in :: nat
  if_cut_counts :: "(cut_marker, nat) btree_map"
  if_below_floor :: nat
  if_dropped_max_candidates :: nat
  if_depth_truncated :: bool

definition impact_frontier_default :: impact_frontier where
  "impact_frontier_default =
     \<lparr>if_dangling_refs = 0, if_untyped_dropped = 0, if_narrowed_away_in = 0, if_visible_away_in = 0,
      if_cut_counts = [], if_below_floor = 0, if_dropped_max_candidates = 0, if_depth_truncated = False\<rparr>"

definition impact_scan_edge :: "graph_view \<Rightarrow> path_walker \<Rightarrow> edge_ref \<Rightarrow> impact_frontier \<Rightarrow> impact_frontier" where
  "impact_scan_edge view w er facts =
     (let edge = er_edge er;
          facts = facts\<lparr>if_cut_counts := fold bt_bump (cut_markers_iter (e_cut_markers edge)) (if_cut_counts facts)\<rparr>
      in if e_confidence edge < ef_min_confidence (pw_filter w)
         then facts\<lparr>if_below_floor := if_below_floor facts + 1\<rparr>
         else case (ef_max_candidates (pw_filter w), e_candidate_group edge) of
             (Some mx, Some grp) \<Rightarrow>
               if candidate_group_size view grp > mx
               then facts\<lparr>if_dropped_max_candidates := if_dropped_max_candidates facts + 1\<rparr> else facts
           | _ \<Rightarrow> facts)"

definition impact_scan_node ::
  "graph_view \<Rightarrow> path_walker \<Rightarrow> bool list \<Rightarrow> node_record \<Rightarrow> impact_frontier \<Rightarrow> impact_frontier" where
  "impact_scan_node view w reached node facts =
     (let i = n_id node; nc = n_narrowing node in
      if i \<ge> length reached then facts
      else if \<not> reached ! i then
        facts\<lparr>if_dangling_refs := if_dangling_refs facts + (n_unresolved_calls node + n_external_calls node),
              if_untyped_dropped := if_untyped_dropped facts + nc_visible_dropped_out nc\<rparr>
      else
        (let facts = facts\<lparr>if_narrowed_away_in := if_narrowed_away_in facts + (nc_typed_away_in nc + nc_interproc_away_in nc),
                           if_visible_away_in := if_visible_away_in facts + nc_visible_away_in nc\<rparr>;
             facts = fold (impact_scan_edge view w) (neighbors view i Backward (scan_filter_of w)) facts
         in if pw_max_depth w \<noteq> None \<and> \<not> if_depth_truncated facts
            then facts\<lparr>if_depth_truncated :=
                   list_ex (\<lambda>er. er_peer er < length reached \<and> \<not> reached ! er_peer er)
                     (neighbors view i Backward (pw_filter w))\<rparr>
            else facts))"

definition impact_scan :: "graph_view \<Rightarrow> path_walker \<Rightarrow> bool list \<Rightarrow> impact_frontier" where
  "impact_scan view w reached = fold (impact_scan_node view w reached) (gv_nodes view) impact_frontier_default"

subsection \<open>Reasons\<close>

abbreviation over_reason :: "string \<Rightarrow> string \<Rightarrow> approx_reason" where
  "over_reason code detail \<equiv> \<lparr>ar_direction = ReasonOver, ar_code = code, ar_detail = detail\<rparr>"

definition impact_frontier_reasons :: "path_walker \<Rightarrow> impact_frontier \<Rightarrow> approx_reason list" where
  "impact_frontier_reasons w facts =
     counted (if_dangling_refs facts) (\<lambda>c. under_reason ''impacted-unresolved-external-calls''
       (show_nat c @ '' call(s) in symbols outside the walked region resolved to no in-repo target '' @ em_dash @ '' '' @
        ''an external or unindexed callee (no SCIP), or a call site the frontend does not '' @
        ''model as an edge, such as one written inside an unexpanded macro. A test '' @
        ''reaching your change only through such a call is not in this answer.'')) @
     counted (if_untyped_dropped facts) (\<lambda>c. under_reason ''impacted-untyped-receiver-dropped''
       (show_nat c @ '' untyped-receiver call site(s) outside the walked region were left with no '' @
        ''target by the import-visibility rule; not sound for duck typing. A test reaching '' @
        ''your change only through such a site is not in this answer.'')) @
     counted (if_narrowed_away_in facts) (\<lambda>c. under_reason ''impacted-receiver-narrowed-away''
       (show_nat c @ '' same-name virtual call site(s) were bound by receiver typing to targets other '' @
        ''than the walked symbols; they could reach your change only if a typing '' @
        ''assumption fails or a caller of the typed function is outside the indexed repo. '' @
        ''A test reaching your change only through such a site is not in this answer.'')) @
     counted (if_visible_away_in facts) (\<lambda>c. under_reason ''impacted-residual-narrowed-away''
       (show_nat c @ '' same-name untyped-receiver call site(s) excluded the walked symbols because '' @
        ''their classes are not import-visible to the caller; not sound for duck typing. '' @
        ''A test reaching your change only through such a site is not in this answer.'')) @
     map (\<lambda>(marker, cnt). case cut_phrase marker of (code, phrase) \<Rightarrow>
        under_reason code (phrase @ '' ('' @ show_nat cnt @ '' site(s) on the searched frontier)'')) (if_cut_counts facts) @
     counted (if_below_floor facts) (\<lambda>c. under_reason ''below-confidence-floor''
       (show_nat c @ '' edge(s) below the confidence>='' @
        contract_confidence_token (ef_min_confidence (pw_filter w)) @ '' floor were excluded from the search'')) @
     (case ef_max_candidates (pw_filter w) of
        Some mx \<Rightarrow> counted (if_dropped_max_candidates facts) (\<lambda>c. under_reason ''dropped-max-candidates''
          (show_nat c @ '' edge(s) in a candidate set larger than '' @ show_nat mx @ '' were excluded from the '' @
           ''search (--max-candidates fan-out cap)''))
      | None \<Rightarrow> []) @
     (case pw_max_depth w of
        Some d \<Rightarrow>
          if if_depth_truncated facts
          then [under_reason ''depth-limit'' (''search stopped at depth '' @ show_nat d @ ''; deeper edges were not explored'')]
          else []
      | None \<Rightarrow> [])"

definition recognition_gap :: "string \<Rightarrow> (string \<times> string) option" where
  "recognition_gap lang =
     (if lang = ''go'' then Some (''impacted-test-recognition-incomplete-go'',
        ''go: FuzzXxx is not recognised as a test; t.Run subtest closures are recovered by '' @
        ''containment only (see over-reasons), not by a call edge.'')
      else if lang = ''java'' then Some (''impacted-test-recognition-incomplete-java'',
        ''java: a TestNG class-level @Test (annotating the type, so every public method is a '' @
        ''test) is not read '' @ em_dash @ '' only method-level annotations are; nor is JUnit4's experimental '' @
        ''@Theory.'')
      else if lang = ''python'' then Some (''impacted-test-recognition-incomplete-python'',
        ''python: unittest camelCase testFoo methods, non-default pytest '' @
        ''python_files/python_functions config, and TestCase chains through an unindexed '' @
        ''third-party base are not recognised as tests.'')
      else if lang = ''rust'' then Some (''impacted-test-recognition-incomplete-rust'',
        ''rust: a call written inside an assertion macro (assert!, assert_eq!, assert_ne!, '' @
        ''matches! and friends) is an unexpanded macro argument and yields no call edge, so a '' @
        ''#[test] whose only use of the changed symbol is inside one is not in this answer '' @ em_dash @ '' '' @
        ''bind the call to a local first to make it visible; a test attribute whose last path '' @
        ''segment is neither `test` nor `*_test` nor `rstest` (#[proptest], #[quickcheck], '' @
        ''#[test_case]) is not recognised as a test; doc-tests have no node identity at all.'')
      else None)"

definition unsupported_reasons :: "graph_view \<Rightarrow> node_id list \<Rightarrow> approx_reason list" where
  "unsupported_reasons view changed =
     (let nodes = List.map_filter (try_node view) changed;
          foreign = filter (\<lambda>lang. lang \<notin> set supported_langs) (map n_lang nodes);
          langs = str_join '', '' (bs_collect foreign)
      in if bs_collect foreign \<noteq> [] then
           [under_reason ''impacted-language-unsupported''
             (show_nat (length foreign) @ '' changed symbol(s) are in '' @ langs @ '', for which cgx cannot identify tests at '' @
              ''all (EntrypointHint FQNs are built from the test's string label and never match a '' @
              ''symbol FQN; calls inside inline test callbacks produce no graph edge). No '' @ langs @ '' '' @
              ''test appears in this answer.'')]
         else [])"

definition diff_side_reasons :: "node_id list \<Rightarrow> diff_facts \<Rightarrow> approx_reason list" where
  "diff_side_reasons changed facts =
     (if df_unindexed_changed_files facts > 0 then
        [under_reason ''impacted-changed-file-unindexed''
          (show_nat (df_unindexed_changed_files facts) @
           '' changed file(s) contributed no symbols (no adapter claims the extension, or '' @
           ''the file defines none); edits there are not represented in the changed set.'')]
      else if changed = [] \<and> df_dropped_unclaimed_paths facts > 0 then
        [under_reason ''impacted-changed-file-unindexed''
          (''the changed-symbol set is empty and '' @ show_nat (df_dropped_unclaimed_paths facts) @
           '' working-tree path(s) were dropped from it '' @
           ''as untracked and unclaimed (no adapter claims the extension, or the file defines '' @
           ''nothing), none of them recognised as gitignored build output. A genuinely new '' @
           ''unmodeled file '' @ em_dash @ '' a migration, a config '' @ em_dash @ '' reads exactly this way, so this empty '' @
           ''answer is not a clean bill of health.'')]
      else []) @
     counted (df_removed_symbols facts) (\<lambda>c. under_reason ''impacted-removed-symbols-not-walked''
       (show_nat c @ '' symbol(s) were deleted at head; tests that exercised them are not in this '' @ ''answer.''))"

definition impact_over_reasons :: "impacted_answer \<Rightarrow> diff_facts \<Rightarrow> approx_reason list" where
  "impact_over_reasons tests facts =
     counted (ia_file_granular_only tests) (\<lambda>c. over_reason ''impacted-changed-set-file-granular''
       (show_nat c @ '' symbol(s) entered the changed set because their defining file changed, not '' @
        ''because their call graph changed; some may be unaffected by the edit.'')) @
     counted (ia_lifted tests) (\<lambda>c. over_reason ''impacted-closure-containment-lift''
       (show_nat c @ '' test(s) were reached by walking from a closure body to its lexically enclosing '' @
        ''function. Containment is not invocation: the closure may never be invoked by that '' @
        ''test.'')) @
     (if df_tip_to_tip_base facts then [over_reason ''impacted-tip-to-tip-base''
       (''base is the ref tip, not the merge-base of base and head; symbols that landed on the '' @
        ''base ref since the branch point are counted as changed.'')] else []) @
     (if list_ex (\<lambda>r. nr_min_confidence_on_path r = Possible \<or> e_candidate_group (nr_via r) \<noteq> None) (ia_tests tests)
      then [over_reason ''over-approx-candidate-set''
        (''resolved through an over-approximated candidate set (dynamic dispatch or '' @
         ''name-collision); some reported edges may not occur'')] else [])"

definition contract_for ::
  "graph_view \<Rightarrow> path_walker \<Rightarrow> node_id list \<Rightarrow> impacted_answer \<Rightarrow> diff_facts \<Rightarrow> approximation_contract" where
  "contract_for view w changed tests facts =
     (let reasons =
            impact_frontier_reasons w (impact_scan view w (ia_reached tests)) @
            List.map_filter (\<lambda>lang. map_option (\<lambda>(code, detail). under_reason code detail) (recognition_gap lang))
              (ia_langs_in_play tests) @
            unsupported_reasons view changed @ diff_side_reasons changed facts @ impact_over_reasons tests facts;
          has_over = list_ex (\<lambda>r. ar_direction r = ReasonOver) reasons;
          has_under = list_ex (\<lambda>r. ar_direction r = ReasonUnder) reasons
      in \<lparr>ac_direction =
            (case (has_over, has_under) of
               (False, False) \<Rightarrow> ApproxExact
             | (True, False) \<Rightarrow> ApproxOver
             | (False, True) \<Rightarrow> ApproxUnder
             | (True, True) \<Rightarrow> ApproxOverUnder),
          ac_reasons = reasons, ac_modeled_graph = modeled_graph_text,
          ac_scope =
            (if ia_tests tests = [] then
               Some \<lparr>ng_searched_edge_kinds = searched_kinds (pw_filter w),
                     ng_confidence_floor = ef_min_confidence (pw_filter w), ng_max_depth = pw_max_depth w\<rparr>
             else None)\<rparr>)"

end
