(* ===== verification/Query_Symbols.thy ===== *)
theory Query_Symbols
  imports Query_View Comparator
begin

text \<open>
  The two aggregations over the node table of cgx-query: symbols ranked by their incident edges
  (symbols.rs) and the search by name (search.rs). The regular expression engine is a third-party
  crate and the case mapping of Unicode is a table of the standard library; both are parameters of
  the search.
\<close>

subsection \<open>Edge families and tallies\<close>

datatype edge_family = CallsFamily | DerivesFromFamily

definition classify_family :: "edge_kind \<Rightarrow> edge_family option" where
  "classify_family kind =
     (if is_call kind then Some CallsFamily else if kind = DerivesFrom then Some DerivesFromFamily else None)"

fun family_token :: "edge_family \<Rightarrow> string" where
  "family_token CallsFamily = ''calls''"
| "family_token DerivesFromFamily = ''derives_from''"

fun rank_condition_token :: "edge_condition \<Rightarrow> string" where
  "rank_condition_token Always = ''always''"
| "rank_condition_token Conditional = ''conditional''"
| "rank_condition_token Loop = ''loop''"
| "rank_condition_token Exception = ''exception''"
| "rank_condition_token Panic = ''panic''"

fun rank_confidence_token :: "confidence \<Rightarrow> string" where
  "rank_confidence_token Possible = ''possible''"
| "rank_confidence_token Probable = ''probable''"
| "rank_confidence_token Certain = ''certain''"

record edge_breakdown =
  eb_total :: nat
  eb_by_family :: "(string, nat) btree_map"
  eb_by_condition :: "(string, nat) btree_map"
  eb_by_confidence :: "(string, nat) btree_map"

definition edge_breakdown_default :: edge_breakdown where
  "edge_breakdown_default = \<lparr>eb_total = 0, eb_by_family = [], eb_by_condition = [], eb_by_confidence = []\<rparr>"

definition tally :: "edge_family \<Rightarrow> edge_condition \<Rightarrow> confidence \<Rightarrow> edge_breakdown \<Rightarrow> edge_breakdown" where
  "tally family cond conf b =
     b\<lparr>eb_total := eb_total b + 1,
       eb_by_family := bt_bump (family_token family) (eb_by_family b),
       eb_by_condition := bt_bump (rank_condition_token cond) (eb_by_condition b),
       eb_by_confidence := bt_bump (rank_confidence_token conf) (eb_by_confidence b)\<rparr>"

subsection \<open>Ranking\<close>

record symbol_rank =
  sy_fqn :: string
  sy_file :: string
  sy_line :: nat
  sy_kind :: symbol_kind
  sy_in_degree :: nat
  sy_out_degree :: nat
  sy_inbound :: edge_breakdown
  sy_outbound :: edge_breakdown

definition total_degree :: "symbol_rank \<Rightarrow> nat" where
  "total_degree r = sy_in_degree r + sy_out_degree r"

datatype rank_by = RankTotal | RankInbound | RankOutbound

definition tally_at :: "nat \<Rightarrow> edge_family \<Rightarrow> edge_record \<Rightarrow> edge_breakdown list \<Rightarrow> edge_breakdown list" where
  "tally_at i family edge bs =
     (if i < length bs then bs[i := tally family (e_condition edge) (e_confidence edge) (bs ! i)] else bs)"

definition tally_edge ::
  "edge_record \<Rightarrow> edge_breakdown list \<times> edge_breakdown list \<Rightarrow> edge_breakdown list \<times> edge_breakdown list" where
  "tally_edge edge acc =
     (case acc of (inbound, outbound) \<Rightarrow>
        case classify_family (e_kind edge) of
          None \<Rightarrow> (inbound, outbound)
        | Some family \<Rightarrow> (tally_at (e_dst edge) family edge inbound, tally_at (e_src edge) family edge outbound))"

fun rank_key :: "rank_by \<Rightarrow> symbol_rank \<Rightarrow> nat" where
  "rank_key RankTotal r = total_degree r"
| "rank_key RankInbound r = sy_in_degree r"
| "rank_key RankOutbound r = sy_out_degree r"

definition rank_cmp :: "rank_by \<Rightarrow> symbol_rank \<Rightarrow> symbol_rank \<Rightarrow> ordering" where
  "rank_cmp by1 a b =
     ord_then (ord_cmp (rank_key by1 b) (rank_key by1 a))
       (ord_then (ord_cmp (sy_fqn a) (sy_fqn b))
         (ord_then (ord_cmp (sy_file a) (sy_file b)) (ord_cmp (sy_line a) (sy_line b))))"

definition rank_row :: "edge_breakdown list \<Rightarrow> edge_breakdown list \<Rightarrow> nat \<times> node_record \<Rightarrow> symbol_rank" where
  "rank_row inbound outbound inode =
     (case inode of (i, node) \<Rightarrow>
        \<lparr>sy_fqn = n_fqn node, sy_file = n_file node, sy_line = n_line_start node, sy_kind = n_kind node,
         sy_in_degree = eb_total (inbound ! i), sy_out_degree = eb_total (outbound ! i),
         sy_inbound = inbound ! i, sy_outbound = outbound ! i\<rparr>)"

definition rank_symbols :: "graph_view \<Rightarrow> rank_by \<Rightarrow> symbol_kind option \<Rightarrow> symbol_rank list" where
  "rank_symbols view by1 kind_filter =
     (let n = length (gv_nodes view);
          (inbound, outbound) =
            fold tally_edge (gv_edges view) (replicate n edge_breakdown_default, replicate n edge_breakdown_default)
      in sort_by (rank_cmp by1)
           (map (rank_row inbound outbound)
             (filter (\<lambda>(i, node). case kind_filter of None \<Rightarrow> True | Some k \<Rightarrow> n_kind node = k)
               (enumerate 0 (gv_nodes view)))))"

subsection \<open>Search\<close>

record symbol_hit =
  sh_fqn :: string
  sh_file :: string
  sh_line :: nat
  sh_kind :: symbol_kind

datatype search_match = SearchAll | SearchPattern string bool

text \<open>
  \<open>compile_regex\<close> gives the matcher of a pattern or the message of the engine, \<open>lowercase\<close> the
  case mapping.
\<close>

definition search_predicate ::
  "(string \<Rightarrow> string + (string \<Rightarrow> bool)) \<Rightarrow> (string \<Rightarrow> string) \<Rightarrow> search_match \<Rightarrow> string + (string \<Rightarrow> bool)" where
  "search_predicate compile_regex lowercase sel =
     (case sel of
        SearchAll \<Rightarrow> Inr (\<lambda>_. True)
      | SearchPattern pat regex \<Rightarrow>
          if pat = [] then Inl ''pattern must not be empty''
          else if regex then
            (case compile_regex pat of
               Inl e \<Rightarrow> Inl (''invalid regex: '' @ e)
             | Inr re \<Rightarrow> Inr re)
          else Inr (\<lambda>fqn. str_contains (lowercase fqn) (lowercase pat)))"

definition hit_cmp :: "symbol_hit \<Rightarrow> symbol_hit \<Rightarrow> ordering" where
  "hit_cmp a b =
     ord_then (ord_cmp (sh_fqn a) (sh_fqn b))
       (ord_then (ord_cmp (sh_file a) (sh_file b)) (ord_cmp (sh_line a) (sh_line b)))"

definition search_symbols ::
  "(string \<Rightarrow> string + (string \<Rightarrow> bool)) \<Rightarrow> (string \<Rightarrow> string) \<Rightarrow> graph_view \<Rightarrow> search_match \<Rightarrow>
   symbol_kind option \<Rightarrow> string + symbol_hit list" where
  "search_symbols compile_regex lowercase view sel kind_filter =
     (case search_predicate compile_regex lowercase sel of
        Inl e \<Rightarrow> Inl e
      | Inr matches \<Rightarrow>
          Inr (sort_by hit_cmp
            (map (\<lambda>node. \<lparr>sh_fqn = n_fqn node, sh_file = n_file node, sh_line = n_line_start node, sh_kind = n_kind node\<rparr>)
              (filter (\<lambda>node. matches (n_fqn node))
                (filter (\<lambda>node. case kind_filter of None \<Rightarrow> True | Some k \<Rightarrow> n_kind node = k) (gv_nodes view))))))"

subsection \<open>The tallies\<close>

lemma tally_at_nth:
  "j < length bs \<Longrightarrow> tally_at i family edge bs ! j =
     (if i = j then tally family (e_condition edge) (e_confidence edge) (bs ! j) else bs ! j)"
  "length (tally_at i family edge bs) = length bs"
  by (auto simp: tally_at_def nth_list_update)

text \<open>The edges that count for a node.\<close>

definition ranked_edges :: "(edge_record \<Rightarrow> node_id) \<Rightarrow> nat \<Rightarrow> edge_record list \<Rightarrow> edge_record list" where
  "ranked_edges side i es = filter (\<lambda>e. classify_family (e_kind e) \<noteq> None \<and> side e = i) es"

definition tally_edge_into :: "edge_record \<Rightarrow> edge_breakdown \<Rightarrow> edge_breakdown" where
  "tally_edge_into e = tally (the (classify_family (e_kind e))) (e_condition e) (e_confidence e)"

lemma tally_edges_fold:
  assumes "fold tally_edge es (inb, outb) = (inb', outb')"
  shows "length inb' = length inb \<and> length outb' = length outb \<and>
    (\<forall>i < length inb. inb' ! i = fold tally_edge_into (ranked_edges e_dst i es) (inb ! i)) \<and>
    (\<forall>i < length outb. outb' ! i = fold tally_edge_into (ranked_edges e_src i es) (outb ! i))"
  using assms
proof (induction es arbitrary: inb outb)
  case (Cons e es)
  obtain i1 o1 where step: "tally_edge e (inb, outb) = (i1, o1)" by fastforce
  then have "fold tally_edge es (i1, o1) = (inb', outb')" using Cons.prems by simp
  from Cons.IH [OF this] show ?case using step
    by (cases "classify_family (e_kind e)")
      (auto simp: tally_edge_def tally_at_nth ranked_edges_def tally_edge_into_def)
qed (simp add: ranked_edges_def)

lemma tally_counts:
  "eb_total (fold tally_edge_into es b) = eb_total b + length es"
  "bt_count (eb_by_family (fold tally_edge_into es b)) k =
     bt_count (eb_by_family b) k + length (filter (\<lambda>e. family_token (the (classify_family (e_kind e))) = k) es)"
  "bt_count (eb_by_condition (fold tally_edge_into es b)) k =
     bt_count (eb_by_condition b) k + length (filter (\<lambda>e. rank_condition_token (e_condition e) = k) es)"
  "bt_count (eb_by_confidence (fold tally_edge_into es b)) k =
     bt_count (eb_by_confidence b) k + length (filter (\<lambda>e. rank_confidence_token (e_confidence e) = k) es)"
  by (induction es arbitrary: b) (simp_all add: tally_edge_into_def tally_def bt_count_bump)

lemma tallies_new:
  assumes "fold tally_edge es (replicate n edge_breakdown_default, replicate n edge_breakdown_default) = (inb, outb)" "i < n"
  shows "inb ! i = fold tally_edge_into (ranked_edges e_dst i es) edge_breakdown_default"
    "outb ! i = fold tally_edge_into (ranked_edges e_src i es) edge_breakdown_default"
  using tally_edges_fold [OF assms(1)] assms(2) by simp_all

lemma comparator_ord_cmp: "comparator (\<lambda>x y. ord_cmp (f x) (f y)) UNIV"
  by unfold_locales (auto simp: ord_cmp_reverse [of "f _"] ord_cmp_def split: if_splits)

lemma comparator_rank: "comparator (rank_cmp by1) UNIV"
proof -
  have key: "comparator (\<lambda>a b. ord_cmp (rank_key by1 b) (rank_key by1 a)) UNIV"
    using comparator_reversed [OF comparator_ord_cmp [of "rank_key by1"]]
    by (simp add: ord_cmp_reverse [of "rank_key by1 _", symmetric])
  show ?thesis
    unfolding rank_cmp_def by (intro comparator_then key comparator_ord_cmp)
qed

end
