(* ===== verification/Query_Answers.thy ===== *)
theory Query_Answers
  imports Query_Properties Query_Honesty Query_Impact_Reach Query_Impact_Contract Query_Symbols
begin

text \<open>
  Properties of the answers that are composed from the walks: the approximation contract, the
  impacted tests, the symbol ranking.
\<close>

subsection \<open>Exact answers\<close>

lemma lifted_reach: "reach w view dir s v \<Longrightarrow> reach (lifted w) view dir s v"
proof -
  have step: "v \<in> set (view_succ (lifted w) view dir u)" if v: "v \<in> set (view_succ w view dir u)" for u v
  proof -
    obtain r where r: "r \<in> set (neighbors view u dir (pw_filter w))" "v = er_peer r" "v < node_count view"
      using v by (auto simp: view_succ_def)
    have "passes view (pw_filter (lifted w)) (er_edge r)"
      using neighbor_edges [OF r(1)]
      by (auto simp: passes_def filter_admits_def lifted_def not_less least_confidence split: option.splits if_splits)
    then show ?thesis using neighbors_passes [OF r(1)] r(2,3) by (auto simp: view_succ_def)
  qed
  have "walk (view_succ w view dir) s k v \<Longrightarrow> walk (view_succ (lifted w) view dir) s k v" for k v
    by (induction rule: walk.induct) (auto intro: walk_nil walk_step step)
  moreover assume "reach w view dir s v"
  ultimately show ?thesis
    unfolding reach_def walk_iff_edge_walk by (auto simp: lifted_def within_depth_def walk_iff_edge_walk dest: edge_walk_walk)
qed

lemma clean_reach_iff:
  assumes "clean view w dir [a]" "a < node_count view"
  shows "reach (lifted w) view dir a v \<longleftrightarrow> reach w view dir a v"
  using clean_reach [OF assms(1), of a v] assms(2) lifted_reach [of w view dir a v] by auto

text \<open>
  C5. An exact contract of a callers or callees answer is honest: the walk found every node that it
  would find with no confidence floor, no candidate cap and no depth bound; no edge of the searched
  family at a reached node carries a cut marker; and no row rests on a possible edge or ends with an
  edge of a candidate group.
\<close>

theorem exact_answer_complete:
  assumes "a < node_count view" "ac_direction (for_neighbors view w a dir rows) = ApproxExact"
  shows "{v. reach (lifted w) view dir a v} = {v. reach w view dir a v} \<and>
    (\<forall>v r. reach w view dir a v \<longrightarrow> r \<in> set (neighbors view v dir (scan_filter_of w)) \<longrightarrow> e_cut_markers (er_edge r) = []) \<and>
    (\<forall>row \<in> set rows. nr_min_confidence_on_path row \<noteq> Possible \<and> e_candidate_group (nr_via row) = None)"
proof -
  have clean: "clean view w dir [a]" and rows: "\<not> list_ex (\<lambda>r. nr_min_confidence_on_path r = Possible \<or> e_candidate_group (nr_via r) \<noteq> None) rows"
    using assms(2) by (auto simp: for_neighbors_def assemble_fields clean_def split: if_splits)
  have bound: "v < node_count view" if "reach w view dir a v" for v
  proof -
    have "v \<in> insert a (dc_node ` set (bfs w view a dir))" using that bfs_reach [of a w view dir] by simp
    then show ?thesis using bfs_node_bound [of _ w view a dir] assms(1) by auto
  qed
  show ?thesis
    using clean_reach_iff [OF clean assms(1)] clean_facts(1) [OF clean] bound rows by (auto simp: list_ex_iff)
qed

text \<open>
  A negative answer with an exact contract is final: a target that reaches does not find stays
  unreachable when the confidence floor, the candidate cap and the depth bound are lifted.
\<close>

theorem exact_negative_final:
  assumes "a < node_count view" "\<not> rr_reachable (reaches view a b w)"
    and "ac_direction (for_reaches view w a (reaches view a b w)) = ApproxExact"
  shows "\<not> reach (lifted w) view Forward a b"
proof -
  have none: "shortest_path w view a b Forward = None" using assms(2) by (auto simp: reaches_def split: option.splits)
  then have "clean view w Forward [a]" using assms(3) by (simp add: reaches_def for_reaches_def assemble_fields clean_def)
  moreover have "\<not> reach w view Forward a b" using none shortest_path_None [of w view a b Forward] by simp
  ultimately show ?thesis using clean_reach_iff assms(1) by blast
qed

text \<open>
  C17. A symbol that unused lists under an exact contract is dead: no entrypoint reaches it even when
  the confidence floor, the candidate cap and the depth bound are lifted.
\<close>

theorem exact_unused_dead:
  assumes "\<forall>node \<in> set (gv_nodes view). n_id node < node_count view"
    and "\<forall>root \<in> set (entrypoint_roots view entrypoints). root < node_count view"
    and "ac_direction (for_unused view w (entrypoint_roots view entrypoints)) = ApproxExact"
    and "node \<in> set (unused view entrypoints kinds w)" "root \<in> set (entrypoint_roots view entrypoints)"
  shows "\<not> reach (lifted w) view Forward root (n_id node)"
proof -
  let ?roots = "entrypoint_roots view entrypoints"
  have clean: "clean view w Forward ?roots" using assms(3) by (simp add: for_unused_def assemble_fields clean_def)
  have "n_id node < node_count view" using assms(1,4) by (auto simp: unused_def Let_def)
  then have "\<not> (\<exists>s \<in> set ?roots. reach w view Forward s (n_id node))"
    using assms(4) mark_roots_iff [of "n_id node" view w ?roots "\<lambda>_. False"] by (auto simp: unused_def Let_def)
  then show ?thesis using clean_reach [OF clean assms(5)] assms(2,5) by blast
qed

subsection \<open>Impacted tests\<close>

text \<open>
  C6. Without a depth bound, impacted_tests reports exactly the test entrypoints in the least set
  that holds the changed symbols and is closed under callers over admitted edges and under the lift
  from a closure to the function with its enclosing name; the run ends, and the rows come in order
  of file, line and name.
\<close>

theorem impacted_tests_exact:
  assumes "view = graph_view_new ns es cs" "pw_max_depth w = None"
  shows "\<exists>a. impacted_tests view changed w = Some a \<and>
    mset (map nr_node (ia_tests a)) =
      mset (filter (\<lambda>node. n_id node < length ns \<and> affected view w changed (n_id node) \<and> n_entrypoint_kind node = Some Test) ns) \<and>
    sorted (map (\<lambda>row. result_key (nr_node row)) (ia_tests a))"
proof -
  obtain rows a where a: "impacted_tests view changed w = Some a \<and> ia_tests a = map fst rows \<and> ia_witnesses a = map snd rows \<and>
      mset (map (\<lambda>row. nr_node (fst row)) rows) = mset (filter (is_impacted view (impact_run view changed w)) ns) \<and>
      sorted (map (\<lambda>row. result_key (nr_node (fst row))) rows) \<and> (\<forall>row \<in> set rows. row_explained view w changed row)"
    using impacted_tests_rows [OF assms(1), of changed w] by (elim exE)
  have "is_impacted view (impact_run view changed w) node \<longleftrightarrow>
      n_id node < length ns \<and> affected view w changed (n_id node) \<and> n_entrypoint_kind node = Some Test" for node
    using impact_run_affected [OF assms] assms(1) by (simp add: is_impacted_def node_count_def graph_view_new_fields)
  then show ?thesis using a by (simp add: comp_def multiset.map_comp)
qed

text \<open>
  C7. Every reported test has its proof: a route of call edges and closure lifts from the test to a
  changed symbol, whose nodes are the witness chain, whose length is the reported depth, whose
  first edge is the reported one and whose weakest edge gives the confidence, which a lift lowers
  to possible. This holds for every depth bound.
\<close>

theorem impacted_rows_explained:
  assumes "view = graph_view_new ns es cs"
  shows "\<exists>a. impacted_tests view changed w = Some a \<and>
    (\<forall>(r, wit) \<in> set (zip (ia_tests a) (ia_witnesses a)).
      \<exists>tail edges. route view w (n_id (nr_node r)) tail edges (iw_via_containment_lift wit) \<and>
        iw_chain wit = n_id (nr_node r) # tail \<and> iw_root wit = last (iw_chain wit) \<and> iw_root wit \<in> set changed \<and>
        nr_depth r = length tail \<and> nr_via r = route_via (n_id (nr_node r)) edges \<and>
        nr_min_confidence_on_path r = (if iw_via_containment_lift wit then Possible else weakest_of edges))"
proof -
  obtain rows a where a: "impacted_tests view changed w = Some a" "ia_tests a = map fst rows" "ia_witnesses a = map snd rows"
      "\<forall>row \<in> set rows. row_explained view w changed row"
    using impacted_tests_rows [OF assms, of changed w] by blast
  have "zip (map fst rows) (map snd rows) = rows" by (rule zip_map_fst_snd)
  then show ?thesis using a unfolding row_explained_def by auto
qed

subsection \<open>Symbol ranks\<close>

text \<open>
  The breakdown of a list of call and data flow edges: their number, and for every token the number of
  edges of that family, condition and confidence.
\<close>

definition breakdown_of :: "edge_record list \<Rightarrow> edge_breakdown \<Rightarrow> bool" where
  "breakdown_of es b \<longleftrightarrow>
     eb_total b = length es \<and>
     (\<forall>k. bt_count (eb_by_family b) k = length (filter (\<lambda>e. (if is_call (e_kind e) then ''calls'' else ''derives_from'') = k) es)) \<and>
     (\<forall>k. bt_count (eb_by_condition b) k = length (filter (\<lambda>e. rank_condition_token (e_condition e) = k) es)) \<and>
     (\<forall>k. bt_count (eb_by_confidence b) k = length (filter (\<lambda>e. rank_confidence_token (e_confidence e) = k) es))"

text \<open>The row of a node: the breakdowns of the call and data flow edges into it and out of it.\<close>

definition rank_of :: "edge_record list \<Rightarrow> nat \<times> node_record \<Rightarrow> symbol_rank \<Rightarrow> bool" where
  "rank_of es inode row \<longleftrightarrow> (case inode of (i, node) \<Rightarrow>
     let ranked = filter (\<lambda>e. is_call (e_kind e) \<or> e_kind e = DerivesFrom) es in
     sy_fqn row = n_fqn node \<and> sy_file row = n_file node \<and> sy_line row = n_line_start node \<and> sy_kind row = n_kind node \<and>
     sy_in_degree row = length (filter (\<lambda>e. e_dst e = i) ranked) \<and>
     sy_out_degree row = length (filter (\<lambda>e. e_src e = i) ranked) \<and>
     breakdown_of (filter (\<lambda>e. e_dst e = i) ranked) (sy_inbound row) \<and>
     breakdown_of (filter (\<lambda>e. e_src e = i) ranked) (sy_outbound row))"

text \<open>The first row may stand before the second: more edges of the chosen kind, or as many and a smaller name, file and line.\<close>

definition rank_before :: "rank_by \<Rightarrow> symbol_rank \<Rightarrow> symbol_rank \<Rightarrow> bool" where
  "rank_before by1 a b \<longleftrightarrow>
     (let degree = (case by1 of RankTotal \<Rightarrow> (\<lambda>r. sy_in_degree r + sy_out_degree r) | RankInbound \<Rightarrow> sy_in_degree | RankOutbound \<Rightarrow> sy_out_degree)
      in degree a > degree b \<or>
         (degree a = degree b \<and> (sy_fqn a < sy_fqn b \<or>
            (sy_fqn a = sy_fqn b \<and> (sy_file a < sy_file b \<or> (sy_file a = sy_file b \<and> sy_line a \<le> sy_line b))))))"

lemma rank_cmp_before: "rank_cmp by1 a b \<noteq> Ord_Greater \<longleftrightarrow> rank_before by1 a b"
  by (cases by1) (auto simp: rank_cmp_def rank_before_def ord_cmp_def total_degree_def split: if_splits)

lemma ranked_edges_filter: "ranked_edges endpoint i es = filter (\<lambda>e. endpoint e = i) (filter (\<lambda>e. is_call (e_kind e) \<or> e_kind e = DerivesFrom) es)"
  by (auto simp: ranked_edges_def classify_family_def intro: filter_cong)

lemma tally_breakdown:
  "breakdown_of (filter (\<lambda>e. endpoint e = i) (filter (\<lambda>e. is_call (e_kind e) \<or> e_kind e = DerivesFrom) es))
     (fold tally_edge_into (ranked_edges endpoint i es) edge_breakdown_default)"
proof -
  have token: "family_token (the (classify_family (e_kind e))) = (if is_call (e_kind e) then ''calls'' else ''derives_from'')"
    if "e \<in> set (ranked_edges endpoint i es)" for e
    using that by (auto simp: ranked_edges_filter classify_family_def)
  have "filter (\<lambda>e. family_token (the (classify_family (e_kind e))) = k) (ranked_edges endpoint i es) =
      filter (\<lambda>e. (if is_call (e_kind e) then ''calls'' else ''derives_from'') = k) (ranked_edges endpoint i es)" for k
    by (rule filter_cong [OF refl]) (simp only: token)
  then show ?thesis
    unfolding ranked_edges_filter [symmetric] breakdown_of_def tally_counts edge_breakdown_default_def by (simp add: bt_count_Nil)
qed

text \<open>
  C18. The ranking has exactly one row per node of the requested kind. A row gives the name, file,
  line and kind of its node, the numbers of call and data flow edges into it and out of it, and for
  either direction the numbers of these edges by family, by condition and by confidence. The rows
  stand in descending order of the chosen degree (inbound, outbound, or their sum), those of equal
  degree in ascending order of name, file and line.
\<close>

theorem rank_symbols_counts:
  "\<exists>inodes. mset inodes = mset (filter (\<lambda>(i, node). case kind of None \<Rightarrow> True | Some k \<Rightarrow> n_kind node = k) (enumerate 0 (gv_nodes view))) \<and>
    list_all2 (rank_of (gv_edges view)) inodes (rank_symbols view by1 kind) \<and>
    sorted_wrt (rank_before by1) (rank_symbols view by1 kind)"
proof -
  let ?n = "length (gv_nodes view)"
  let ?inodes = "filter (\<lambda>(i, node). case kind of None \<Rightarrow> True | Some k \<Rightarrow> n_kind node = k) (enumerate 0 (gv_nodes view))"
  obtain inb outb where tally: "fold tally_edge (gv_edges view)
      (replicate ?n edge_breakdown_default, replicate ?n edge_breakdown_default) = (inb, outb)" by fastforce
  let ?cmp = "\<lambda>x y. rank_cmp by1 (rank_row inb outb x) (rank_row inb outb y)"
  have rows: "rank_symbols view by1 kind = map (rank_row inb outb) (sort_by ?cmp ?inodes)"
    by (simp add: rank_symbols_def tally Let_def map_sort_by)
  have row: "rank_of (gv_edges view) inode (rank_row inb outb inode)" if inode: "inode \<in> set ?inodes" for inode
  proof -
    have "inode \<in> set (enumerate 0 (gv_nodes view))" using inode unfolding set_filter by blast
    then obtain i where "i < ?n" "inode = enumerate 0 (gv_nodes view) ! i" by (auto simp: in_set_conv_nth)
    then have i: "inode = (i, gv_nodes view ! i)" "i < ?n" by (simp_all add: nth_enumerate_eq)
    show ?thesis
      using i(2) tally_breakdown [of e_dst i "gv_edges view"] tally_breakdown [of e_src i "gv_edges view"]
      unfolding i(1) by (simp add: rank_of_def rank_row_def Let_def tallies_new [OF tally] breakdown_of_def)
  qed
  have "list_all2 (rank_of (gv_edges view)) (sort_by ?cmp ?inodes) (map (rank_row inb outb) (sort_by ?cmp ?inodes))"
    unfolding list.rel_map by (rule list.rel_refl_strong) (rule row, simp only: set_sort_by)
  moreover have "sorted_wrt (rank_before by1) (rank_symbols view by1 kind)"
    using comparator.sort_sorted [OF comparator_rank [of by1]] unfolding comparator.le_def [OF comparator_rank] rank_cmp_before
    by (simp add: rank_symbols_def tally Let_def)
  ultimately show ?thesis unfolding rows by (intro exI [of _ "sort_by ?cmp ?inodes"]) simp
qed

subsection \<open>Concrete inputs\<close>

lemma exact_answer_complete_witness:
  "{v. reach (lifted path_walker_default) sample_view Forward 4 v} = {v. reach path_walker_default sample_view Forward 4 v} \<and>
   ac_scope (for_neighbors sample_view path_walker_default 4 Forward []) \<noteq> None"
proof -
  have "4 < node_count sample_view" "ac_direction (for_neighbors sample_view path_walker_default 4 Forward []) = ApproxExact"
    "ac_scope (for_neighbors sample_view path_walker_default 4 Forward []) \<noteq> None"
    by code_simp+
  then show ?thesis using exact_answer_complete [of 4 sample_view path_walker_default Forward "[]"] by blast
qed

lemma exact_negative_final_witness: "\<not> reach (lifted path_walker_default) sample_view Forward 0 4"
proof (rule exact_negative_final)
  show "0 < node_count sample_view" "\<not> rr_reachable (reaches sample_view 0 4 path_walker_default)"
    "ac_direction (for_reaches sample_view path_walker_default 0 (reaches sample_view 0 4 path_walker_default)) = ApproxExact"
    by code_simp+
qed

lemma exact_unused_dead_witness: "\<not> reach (lifted path_walker_default) sample_view Forward 0 4"
proof -
  let ?dead = "sample_node 4 ''app::old'' ''rust'' None"
  have "\<forall>node \<in> set (gv_nodes sample_view). n_id node < node_count sample_view"
    "\<forall>root \<in> set (entrypoint_roots sample_view []). root < node_count sample_view"
    "ac_direction (for_unused sample_view path_walker_default (entrypoint_roots sample_view [])) = ApproxExact"
    "?dead \<in> set (unused sample_view [] [] path_walker_default)" "0 \<in> set (entrypoint_roots sample_view [])"
    by code_simp+
  from exact_unused_dead [OF this] show ?thesis by (simp add: sample_node_def)
qed

text \<open>A test calls a function whose closure calls the changed helper.\<close>

definition impact_nodes :: "node_record list" where
  "impact_nodes =
     [sample_node 0 ''a::h'' ''rust'' None, (sample_node 1 ''a::o::{closure@9:5}'' ''rust'' None)\<lparr>n_kind := Lambda\<rparr>,
      sample_node 2 ''a::o'' ''rust'' None, sample_node 3 ''a::t'' ''rust'' (Some Test)]"

definition impact_edges :: "edge_record list" where
  "impact_edges = [sample_edge 0 1 0 Certain Always, sample_edge 1 3 2 Probable Always]"

definition impact_view :: graph_view where
  "impact_view = graph_view_new impact_nodes impact_edges []"

lemma impact_sample:
  "map_option (\<lambda>a. (map (\<lambda>r. n_id (nr_node r)) (ia_tests a), map iw_chain (ia_witnesses a), map nr_min_confidence_on_path (ia_tests a),
       map iw_via_containment_lift (ia_witnesses a)))
     (impacted_tests impact_view [0] path_walker_default) = Some ([3], [[3, 2, 1, 0]], [Possible], [True])"
  by (code_simp, simp add: row_via.simps)

lemma impacted_tests_exact_witness: "affected impact_view path_walker_default [0] 3"
proof -
  have unbounded: "pw_max_depth path_walker_default = None" by (simp add: path_walker_default_def)
  obtain a where a: "impacted_tests impact_view [0] path_walker_default = Some a"
      "mset (map nr_node (ia_tests a)) = mset (filter (\<lambda>node. n_id node < length impact_nodes \<and>
        affected impact_view path_walker_default [0] (n_id node) \<and> n_entrypoint_kind node = Some Test) impact_nodes)"
    using impacted_tests_exact [OF impact_view_def unbounded, of "[0]"] by (elim exE conjE)
  have "map (\<lambda>r. n_id (nr_node r)) (ia_tests a) = [3]" using impact_sample a(1) by simp
  then obtain r where r: "ia_tests a = [r]" "n_id (nr_node r) = 3" by (auto simp: map_eq_Cons_conv)
  have "set_mset (mset (map nr_node (ia_tests a))) = set (filter (\<lambda>node. n_id node < length impact_nodes \<and>
        affected impact_view path_walker_default [0] (n_id node) \<and> n_entrypoint_kind node = Some Test) impact_nodes)"
    unfolding a(2) by (rule set_mset_mset)
  then have "affected impact_view path_walker_default [0] (n_id (nr_node r))" unfolding r(1) by force
  then show ?thesis unfolding r(2) .
qed

lemma impacted_rows_explained_witness:
  "\<exists>a. impacted_tests impact_view [0] path_walker_default = Some a \<and>
    (\<exists>tail edges. route impact_view path_walker_default 3 tail edges True \<and> last tail = 0)"
proof -
  obtain a where a: "impacted_tests impact_view [0] path_walker_default = Some a"
      "\<forall>(r, wit) \<in> set (zip (ia_tests a) (ia_witnesses a)).
        \<exists>tail edges. route impact_view path_walker_default (n_id (nr_node r)) tail edges (iw_via_containment_lift wit) \<and>
          iw_chain wit = n_id (nr_node r) # tail \<and> iw_root wit = last (iw_chain wit) \<and> iw_root wit \<in> set [0] \<and>
          nr_depth r = length tail \<and> nr_via r = route_via (n_id (nr_node r)) edges \<and>
          nr_min_confidence_on_path r = (if iw_via_containment_lift wit then Possible else weakest_of edges)"
    using impacted_rows_explained [OF impact_view_def, of "[0]" path_walker_default] by (elim exE conjE)
  have s: "map (\<lambda>r. n_id (nr_node r)) (ia_tests a) = [3]" "map iw_chain (ia_witnesses a) = [[3, 2, 1, 0]]"
    using impact_sample a(1) by simp_all
  then obtain r wit where rw: "ia_tests a = [r]" "ia_witnesses a = [wit]" "n_id (nr_node r) = 3" "iw_chain wit = [3, 2, 1, 0]"
    by (auto simp: map_eq_Cons_conv)
  have "iw_via_containment_lift wit" using impact_sample a(1) rw(2) by simp
  then obtain tail edges where "route impact_view path_walker_default 3 tail edges True" "[3, 2, 1, 0] = 3 # tail"
    using a(2) rw by auto
  then show ?thesis using a(1) by fastforce
qed

text \<open>
  Two places where the contract says less than its description. A probable edge leaves an answer
  exact, and the scope of a negative answer does not name the spawn edges that the walk follows.
\<close>

definition probable_view :: graph_view where
  "probable_view = graph_view_new [sample_node 0 ''a::f'' ''rust'' None, sample_node 1 ''a::g'' ''rust'' None]
     [sample_edge 0 0 1 Probable Always] []"

lemma probable_stays_exact:
  "ac_direction (for_neighbors probable_view path_walker_default 0 Forward (callees probable_view 0 path_walker_default)) = ApproxExact"
  "map nr_confidence (callees probable_view 0 path_walker_default) = [Probable]"
  by code_simp+

lemma scope_omits_spawns:
  "filter_admits edge_filter_calls e \<Longrightarrow> e_kind e \<noteq> Spawns \<Longrightarrow> e_kind e \<in> set (searched_kinds edge_filter_calls)"
  "Spawns \<notin> set (searched_kinds edge_filter_calls)"
  "filter_admits edge_filter_calls ((sample_edge 0 0 1 Certain Always)\<lparr>e_kind := Spawns\<rparr>)"
  by (cases "e_kind e"; simp add: filter_admits_def edge_filter_calls_def searched_kinds_def sample_edge_def less_confidence_def split: if_splits)+

end
