(* ===== verification/Query_Freshness.thy ===== *)
theory Query_Freshness
  imports Rust_Str
begin

text \<open>
  The freshness envelope of an answer (cgx-query/src/freshness.rs): whether the indexed tree is the
  current one and how many files differ. None means that the fact was not established. Keys are
  ASCII, so the first characters of a key are its first bytes.
\<close>

record freshness_envelope =
  fe_indexed_tree :: "string option"
  fe_head_tree :: "string option"
  fe_matches_head :: "bool option"
  fe_dirty_files_base :: "string option"
  fe_dirty_files :: "nat option"
  fe_stale :: bool

definition envelope_build ::
  "string option \<Rightarrow> string option \<Rightarrow> bool option \<Rightarrow> (string \<times> nat) option \<Rightarrow> freshness_envelope" where
  "envelope_build indexed head matches dirty =
     (let (base, files) = (case dirty of Some (base, n) \<Rightarrow> (Some base, Some n) | None \<Rightarrow> (None, None));
          stale = (matches = Some False \<or> (case files of Some n \<Rightarrow> n > 0 | None \<Rightarrow> False))
      in \<lparr>fe_indexed_tree = indexed, fe_head_tree = head, fe_matches_head = matches,
          fe_dirty_files_base = base, fe_dirty_files = files, fe_stale = stale\<rparr>)"

definition envelope_new :: "string option \<Rightarrow> string option \<Rightarrow> (string \<times> nat) option \<Rightarrow> freshness_envelope" where
  "envelope_new indexed head dirty =
     (let matches = (case (indexed, head) of (Some i, Some h) \<Rightarrow> Some (i = h) | _ \<Rightarrow> None)
      in envelope_build indexed head matches dirty)"

definition indeterminate_head ::
  "string option \<Rightarrow> string option \<Rightarrow> (string \<times> nat) option \<Rightarrow> freshness_envelope" where
  "indeterminate_head indexed head dirty = envelope_build indexed head None dirty"

definition uninspected :: freshness_envelope where
  "uninspected = envelope_new None None None"

definition fresh_verdict :: "freshness_envelope \<Rightarrow> string" where
  "fresh_verdict e =
     (case (fe_stale e, fe_matches_head e, fe_dirty_files e) of
        (True, _, _) \<Rightarrow> ''stale''
      | (False, Some True, Some 0) \<Rightarrow> ''current''
      | _ \<Rightarrow> ''unknown'')"

definition short_oid :: "string \<Rightarrow> string" where
  "short_oid key =
     (if str_starts_with key ''workdir:'' then ''workdir:'' @ take 7 (drop 8 key) else take 7 key)"

definition fresh_summary :: "freshness_envelope \<Rightarrow> string" where
  "fresh_summary e =
     ''freshness: '' @ fresh_verdict e @ '' | indexed tree '' @
     (case fe_indexed_tree e of Some t \<Rightarrow> short_oid t | None \<Rightarrow> ''unknown'') @
     (case fe_matches_head e of
        Some True \<Rightarrow> []
      | Some False \<Rightarrow> '' (behind HEAD '' @ short_oid (case fe_head_tree e of Some h \<Rightarrow> h | None \<Rightarrow> ''?'') @ '')''
      | None \<Rightarrow> '' (HEAD unknown)'') @
     (case fe_dirty_files e of
        None \<Rightarrow> '', working tree not inspected''
      | Some n \<Rightarrow>
          if n = 0 then '', working tree clean''
          else '', '' @ show_nat n @ '' dirty file'' @ (if n = 1 then [] else ''s''))"

text \<open>The verdict is current only when both halves were established and both came back clean.\<close>

lemma fresh_verdict_current:
  "fresh_verdict e = ''current'' \<longleftrightarrow> \<not> fe_stale e \<and> fe_matches_head e = Some True \<and> fe_dirty_files e = Some 0"
  by (auto simp: fresh_verdict_def split: bool.splits option.splits nat.splits)

lemma envelope_current:
  "fresh_verdict (envelope_new indexed head dirty) = ''current'' \<longleftrightarrow>
     (\<exists>t base. indexed = Some t \<and> head = Some t \<and> dirty = Some (base, 0))"
  by (auto simp: fresh_verdict_current envelope_new_def envelope_build_def Let_def split: option.splits prod.splits)

lemma envelope_stale:
  "fe_stale (envelope_new indexed head dirty) \<longleftrightarrow>
     (\<exists>t h. indexed = Some t \<and> head = Some h \<and> t \<noteq> h) \<or> (\<exists>base n. dirty = Some (base, n) \<and> n > 0)"
  by (auto simp: envelope_new_def envelope_build_def Let_def split: option.splits prod.splits)

end
