(* ===== verification/Diff_History.thy ===== *)
theory Diff_History
  imports Query_Symbols Query_Contract
begin

text \<open>
  The answers of cgx-diff that are read from the commit history: edge age (age.rs) and co-change
  coupling (coupling.rs). Git is reached through a third-party crate. What it returns is a
  parameter: the blame of a file, the author of a commit, the walk of a range with its errors, and
  the paths that changed between a commit and its parent. The commit counters are natural numbers;
  in the code they are 32 bits wide, which more than four thousand million commits would exceed.
\<close>

datatype diff_error = GitError string | StoreFailure string | IndexFailure string | MissingGraph string

subsection \<open>Edge age\<close>

type_synonym commit_id = string

record edge_age =
  ea_introducing_commit :: "commit_id option"
  ea_introducing_author :: "string option"
  ea_introducing_email :: "string option"
  ea_author_time :: "int option"

definition unattributed :: edge_age where
  "unattributed =
     \<lparr>ea_introducing_commit = None, ea_introducing_author = None, ea_introducing_email = None, ea_author_time = None\<rparr>"

definition is_attributed :: "edge_age \<Rightarrow> bool" where
  "is_attributed a \<longleftrightarrow> ea_introducing_commit a \<noteq> None"

text \<open>
  What the repository answers: whether a text is a commit id, the blame of a line range (or the
  message of its error), and a commit's author time and identity.
\<close>

record blame_repo =
  br_is_oid :: "string \<Rightarrow> bool"
  br_range_error :: "nat \<Rightarrow> nat \<Rightarrow> string option"
  br_blame :: "string \<Rightarrow> commit_id \<Rightarrow> nat \<Rightarrow> nat \<Rightarrow> string + commit_id list"
  br_author_seconds :: "commit_id \<Rightarrow> int option"
  br_author_identity :: "commit_id \<Rightarrow> string option \<times> string option"

text \<open>The entry with the latest author time; of equal ones the first.\<close>

fun newest_entry :: "(commit_id \<Rightarrow> int option) \<Rightarrow> commit_id list \<Rightarrow> (int \<times> commit_id) option \<Rightarrow> (int \<times> commit_id) option" where
  "newest_entry seconds [] best = best"
| "newest_entry seconds (c # cs) best =
     (case seconds c of
        None \<Rightarrow> newest_entry seconds cs best
      | Some time \<Rightarrow>
          newest_entry seconds cs
            (case best of
               None \<Rightarrow> Some (time, c)
             | Some (bt, bc) \<Rightarrow> if time > bt then Some (time, c) else Some (bt, bc)))"

definition symbol_age :: "blame_repo \<Rightarrow> node_record \<Rightarrow> string \<Rightarrow> edge_age \<times> string list" where
  "symbol_age repo symbol suspect =
     (if \<not> br_is_oid repo suspect then
        (unattributed, [suspect @ '' is not a commit OID; edge age unavailable (uncommitted/working-dir index)''])
      else
        (let start = max 1 (n_line_start symbol); end_line = max start (n_line_end symbol) in
         case br_range_error repo start end_line of
           Some e \<Rightarrow>
             (unattributed, [''invalid blame range '' @ show_nat start @ ''..='' @ show_nat end_line @ '' for '' @
                n_fqn symbol @ '': '' @ e])
         | None \<Rightarrow>
             (case br_blame repo (n_file symbol) suspect start end_line of
                Inl e \<Rightarrow>
                  (unattributed, [''blame failed for '' @ n_file symbol @ '' at '' @ suspect @ '': '' @ e @
                     '' (attribution degraded)''])
              | Inr entries \<Rightarrow>
                  (case newest_entry (br_author_seconds repo) entries None of
                     None \<Rightarrow>
                       (unattributed, [''no blamed commits for '' @ n_file symbol @ '' at '' @ suspect @ '' (empty blame)''])
                   | Some (time, commit) \<Rightarrow>
                       (case br_author_identity repo commit of (author, email) \<Rightarrow>
                          (\<lparr>ea_introducing_commit = Some commit, ea_introducing_author = author,
                            ea_introducing_email = email, ea_author_time = Some time\<rparr>, []))))))"

definition edge_age_of :: "blame_repo \<Rightarrow> node_record list \<Rightarrow> edge_record \<Rightarrow> string \<Rightarrow> edge_age \<times> string list" where
  "edge_age_of repo nodes edge suspect =
     (if e_src edge < length nodes then symbol_age repo (nodes ! e_src edge) suspect
      else (unattributed, [''edge '' @ show_nat (e_id edge) @ '' references an out-of-range caller node'']))"

lemma newest_entry_max:
  assumes "newest_entry seconds cs best = Some (t, c)"
  shows "((c \<in> set cs \<and> seconds c = Some t) \<or> best = Some (t, c)) \<and>
    (\<forall>c' \<in> set cs. \<forall>t'. seconds c' = Some t' \<longrightarrow> t' \<le> t) \<and> (\<forall>t' c'. best = Some (t', c') \<longrightarrow> t' \<le> t)"
  using assms
proof (induction cs arbitrary: best)
  case (Cons x cs)
  show ?case
  proof (cases "seconds x")
    case None
    then show ?thesis using Cons.IH [of best] Cons.prems by auto
  next
    case (Some tx)
    let ?best = "case best of None \<Rightarrow> Some (tx, x) | Some (bt, bc) \<Rightarrow> if tx > bt then Some (tx, x) else Some (bt, bc)"
    have "newest_entry seconds cs ?best = Some (t, c)" using Cons.prems Some by simp
    from Cons.IH [OF this] Some show ?thesis by (auto split: option.splits if_splits)
  qed
qed auto

subsection \<open>Co-change coupling\<close>

record coupling_options =
  co_max_files_per_commit :: nat
  co_min_cochanges :: nat
  co_limit :: nat

definition coupling_options_default :: coupling_options where
  "coupling_options_default = \<lparr>co_max_files_per_commit = 50, co_min_cochanges = 2, co_limit = 50\<rparr>"

record coupling_pair =
  pr_file_a :: string
  pr_file_b :: string
  pr_cochanges :: nat
  pr_changes_a :: nat
  pr_changes_b :: nat

record coupling_report =
  cr_base_rev :: string
  cr_base_commit :: commit_id
  cr_head_rev :: string
  cr_head_commit :: commit_id
  cr_commits_considered :: nat
  cr_commits_merge_excluded :: nat
  cr_commits_root_excluded :: nat
  cr_commits_large_excluded :: nat
  cr_truncated_at_history_boundary :: bool
  cr_shallow_repository :: bool
  cr_max_files_per_commit :: nat
  cr_min_cochanges :: nat
  cr_limit :: nat
  cr_pairs_total :: nat
  cr_pairs :: "coupling_pair list"
  cr_approximation :: approximation_contract

text \<open>
  The repository: revisions, the walk (None when it cannot start, an item None where it meets an
  unreadable object), the paths that a commit changed, and the rendering of path bytes as text.
\<close>

record commit_info =
  ci_id :: commit_id
  ci_parents :: "commit_id list"

record history_repo =
  hr_resolve :: "string \<Rightarrow> diff_error + commit_id"
  hr_walk :: "commit_id \<Rightarrow> commit_id \<Rightarrow> commit_info option list option"
  hr_changes :: "commit_id \<Rightarrow> commit_id \<Rightarrow> diff_error + string list"
  hr_shallow :: bool
  hr_render :: "string \<Rightarrow> string"

record coupling_state =
  cp_per_file :: "(string, nat) btree_map"
  cp_per_pair :: "(string \<times> string, nat) btree_map"
  cp_considered :: nat
  cp_merge :: nat
  cp_root :: nat
  cp_large :: nat
  cp_truncated :: bool

definition coupling_start :: "bool \<Rightarrow> coupling_state" where
  "coupling_start truncated =
     \<lparr>cp_per_file = [], cp_per_pair = [], cp_considered = 0, cp_merge = 0, cp_root = 0, cp_large = 0,
      cp_truncated = truncated\<rparr>"

text \<open>The pairs \<open>(i, j)\<close> with \<open>i < j\<close>, row by row.\<close>

fun index_pairs :: "'a list \<Rightarrow> ('a \<times> 'a) list" where
  "index_pairs [] = []"
| "index_pairs (x # xs) = map (Pair x) xs @ index_pairs xs"

definition count_commit :: "coupling_options \<Rightarrow> string list \<Rightarrow> coupling_state \<Rightarrow> coupling_state" where
  "count_commit opts changed st =
     (let paths = remdups_adj (sort changed) in
      if co_max_files_per_commit opts > 0 \<and> length paths > co_max_files_per_commit opts
      then st\<lparr>cp_large := cp_large st + 1\<rparr>
      else st\<lparr>cp_considered := cp_considered st + 1,
              cp_per_file := fold bt_bump paths (cp_per_file st),
              cp_per_pair := fold bt_bump (index_pairs paths) (cp_per_pair st)\<rparr>)"

fun coupling_walk ::
  "history_repo \<Rightarrow> coupling_options \<Rightarrow> commit_info option list \<Rightarrow> coupling_state \<Rightarrow> diff_error + coupling_state" where
  "coupling_walk repo opts [] st = Inr st"
| "coupling_walk repo opts (None # items) st = Inr (st\<lparr>cp_truncated := True\<rparr>)"
| "coupling_walk repo opts (Some info # items) st =
     (case ci_parents info of
        [] \<Rightarrow> coupling_walk repo opts items (st\<lparr>cp_root := cp_root st + 1\<rparr>)
      | [parent] \<Rightarrow>
          (case hr_changes repo (ci_id info) parent of
             Inl e \<Rightarrow> Inl e
           | Inr changed \<Rightarrow> coupling_walk repo opts items (count_commit opts changed st))
      | _ \<Rightarrow> coupling_walk repo opts items (st\<lparr>cp_merge := cp_merge st + 1\<rparr>))"

definition pair_cmp :: "coupling_pair \<Rightarrow> coupling_pair \<Rightarrow> ordering" where
  "pair_cmp x y =
     ord_then (ord_cmp (pr_cochanges y) (pr_cochanges x))
       (ord_then (ord_cmp (pr_file_a x) (pr_file_a y)) (ord_cmp (pr_file_b x) (pr_file_b y)))"

definition coupling_pairs :: "history_repo \<Rightarrow> coupling_options \<Rightarrow> coupling_state \<Rightarrow> coupling_pair list" where
  "coupling_pairs repo opts st =
     sort_by pair_cmp
       (map (\<lambda>((a, b), n). \<lparr>pr_file_a = hr_render repo a, pr_file_b = hr_render repo b, pr_cochanges = n,
            pr_changes_a = bt_count (cp_per_file st) a, pr_changes_b = bt_count (cp_per_file st) b\<rparr>)
         (filter (\<lambda>(_, n). n \<ge> co_min_cochanges opts) (cp_per_pair st)))"

definition modeled_history :: string where
  "modeled_history = ''commits with exactly one parent in the given rev range, '' @
     ''at file granularity; merges, root commits, changes outside the range, and rename '' @
     ''relationships are outside the modeled history''"

definition coupling_contract :: "coupling_report \<Rightarrow> approximation_contract" where
  "coupling_contract r =
     for_history
       ([\<lparr>ar_direction = ReasonOver, ar_code = ''file-level-granularity'',
          ar_detail = ''co-change is attributed at file granularity; two files reported as co-changing '' @
            ''may have had unrelated symbols edited in the same commit''\<rparr>,
         under_reason ''bounded-rev-range''
           (''only the '' @ show_nat (cr_commits_considered r) @ '' single-parent commit(s) in '' @ cr_base_rev r @
            '' ('' @ cr_base_commit r @ '')..'' @ cr_head_rev r @ '' ('' @ cr_head_commit r @
            '') were walked; co-change '' @ ''outside this range is not visible''),
         \<lparr>ar_direction = ReasonOver, ar_code = ''renames-not-tracked'',
          ar_detail = ''rename detection is disabled so the walk cannot depend on ambient git config; a '' @
            ''renamed file appears as an unrelated delete and add, reporting a co-change pair '' @
            ''between its old and new path, and the new path does not inherit the old path's '' @ ''history''\<rparr>] @
        counted (cr_commits_merge_excluded r) (\<lambda>c. under_reason ''merge-commits-excluded''
          (show_nat c @ '' merge commit(s) in range contributed no co-change; edits made only inside a '' @
           ''merge (conflict resolutions) are not observed'')) @
        counted (cr_commits_root_excluded r) (\<lambda>c. under_reason ''root-commits-excluded''
          (show_nat c @ '' commit(s) with no parent were not diffed against a predecessor'')) @
        counted (cr_commits_large_excluded r) (\<lambda>c. under_reason ''large-commit-excluded''
          (show_nat c @ '' commit(s) touched more than '' @ show_nat (cr_max_files_per_commit r) @
           '' files and contributed no co-change'')) @
        (if cr_min_cochanges r > 1 then [under_reason ''cochange-threshold''
          (''pairs with fewer than '' @ show_nat (cr_min_cochanges r) @ '' co-changes are not reported'')] else []) @
        (if length (cr_pairs r) < cr_pairs_total r then [under_reason ''result-limit''
          (show_nat (cr_pairs_total r) @ '' pair(s) met the threshold; the '' @ show_nat (cr_limit r) @
           '' with the highest co-change count are reported'')] else []) @
        (if cr_shallow_repository r then [under_reason ''shallow-repository''
          (''the repository is a shallow clone; history before the graft boundary is '' @
           ''absent and its co-changes are not counted'')] else []) @
        (if cr_truncated_at_history_boundary r then [under_reason ''history-boundary''
          (''the commit walk stopped at a history boundary (missing or unreadable object) '' @
           ''after '' @ show_nat (cr_commits_considered r) @ '' commit(s)'')] else []) @
        (if cr_commits_considered r = 0 \<and> \<not> cr_truncated_at_history_boundary r \<and> cr_commits_merge_excluded r = 0 \<and>
            cr_commits_root_excluded r = 0 \<and> cr_commits_large_excluded r = 0
         then [under_reason ''empty-rev-range''
           (''no single-parent commits are reachable from '' @ cr_head_rev r @
            '' that are not reachable from '' @ cr_base_rev r)] else []))
       modeled_history"

definition coupling ::
  "history_repo \<Rightarrow> string \<Rightarrow> string \<Rightarrow> coupling_options \<Rightarrow> diff_error + coupling_report" where
  "coupling repo base_rev head_rev opts =
     (case hr_resolve repo base_rev of Inl e \<Rightarrow> Inl e | Inr base_id \<Rightarrow>
     (case hr_resolve repo head_rev of Inl e \<Rightarrow> Inl e | Inr head_id \<Rightarrow>
     (let walked =
            (case hr_walk repo base_id head_id of
               None \<Rightarrow> Inr (coupling_start True)
             | Some items \<Rightarrow> coupling_walk repo opts items (coupling_start False))
      in case walked of Inl e \<Rightarrow> Inl e | Inr st \<Rightarrow>
        (let pairs = coupling_pairs repo opts st;
             report = \<lparr>cr_base_rev = base_rev, cr_base_commit = base_id, cr_head_rev = head_rev,
               cr_head_commit = head_id, cr_commits_considered = cp_considered st,
               cr_commits_merge_excluded = cp_merge st, cr_commits_root_excluded = cp_root st,
               cr_commits_large_excluded = cp_large st, cr_truncated_at_history_boundary = cp_truncated st,
               cr_shallow_repository = hr_shallow repo, cr_max_files_per_commit = co_max_files_per_commit opts,
               cr_min_cochanges = co_min_cochanges opts, cr_limit = co_limit opts, cr_pairs_total = length pairs,
               cr_pairs = (if co_limit opts > 0 then take (co_limit opts) pairs else pairs),
               cr_approximation = contract_exact\<rparr>
         in Inr (report\<lparr>cr_approximation := coupling_contract report\<rparr>)))))"

subsection \<open>The counts\<close>

lemma bt_ext:
  assumes "bt_wf m" "bt_wf m'" "\<And>k. map_of m k = map_of m' k"
  shows "m = m'"
proof -
  have "distinct (map fst m)" "distinct (map fst m')"
    using assms(1,2) by (auto simp: bt_wf_def intro: strict_sorted_distinct)
  then have "set m = set m'" using assms(3) by (simp add: map_of_inject_set [symmetric] fun_eq_iff)
  then show ?thesis using assms(1,2) by (intro sorted_keys_unique) (simp_all add: bt_wf_def)
qed

lemma map_of_bump: "map_of (bt_bump k m) = (map_of m)(k \<mapsto> bt_count m k + 1)"
  by (simp add: bt_bump_def bt_count_def map_of_bt_insert split: option.split)

text \<open>A key is present exactly when it was counted.\<close>

lemma map_of_bumps:
  "map_of (fold bt_bump xs []) k = (if k \<in> set xs then Some (count_list xs k) else None)"
proof -
  have "map_of (fold bt_bump xs m) k =
      (if k \<in> set xs then Some (bt_count m k + count_list xs k) else map_of m k)" for m
  proof (induction xs arbitrary: m)
    case (Cons x xs)
    then show ?case by (auto simp: map_of_bump bt_count_bump bt_count_def split: option.splits)
  qed simp
  then show ?thesis by simp
qed

lemma bt_wf_bumps: "bt_wf (fold bt_bump xs [])"
proof -
  have "bt_wf m \<Longrightarrow> bt_wf (fold bt_bump xs m)" for m
    by (induction xs arbitrary: m) (simp_all add: bt_wf_bump)
  then show ?thesis by simp
qed

lemma bumps_mset:
  assumes "mset xs = mset ys"
  shows "fold bt_bump xs [] = fold bt_bump ys []"
proof (rule bt_ext [OF bt_wf_bumps bt_wf_bumps])
  have "set xs = set ys" "count_list xs k = count_list ys k" for k
    using assms by (metis set_mset_mset) (metis assms count_mset)
  then show "map_of (fold bt_bump xs []) k = map_of (fold bt_bump ys []) k" for k by (simp add: map_of_bumps)
qed

lemma set_index_pairs_sorted:
  "strict_sorted xs \<Longrightarrow> set (index_pairs xs) = {(a, b). a \<in> set xs \<and> b \<in> set xs \<and> a < b}"
  by (induction xs) auto

lemma index_pairs_members: "(a, b) \<in> set (index_pairs xs) \<Longrightarrow> a \<in> set xs \<and> b \<in> set xs"
  by (induction xs) auto

lemma distinct_index_pairs: "distinct xs \<Longrightarrow> distinct (index_pairs xs)"
  by (induction xs) (auto simp: distinct_map inj_on_def dest: index_pairs_members)

end
