(* ===== verification/Diff_Impacted.thy ===== *)
theory Diff_Impacted
  imports Diff_Graph Diff_History Query_Impact_Contract Cql_Project
begin

text \<open>
  The impacted-tests command of cgx-diff: impacted.rs, and the functions of lib.rs that read two
  graphs from a store. Parameters: the store's read, and the git and indexing calls that make the
  graph and the file list of one side, with their errors. \<open>git check-ignore\<close> is a parameter
  too. A graph that was indexed stays readable, so the store is a fixed function here.
\<close>

subsection \<open>Diffs of stored graphs\<close>

record graph_store =
  gs_read_graph :: "string \<Rightarrow> diff_error + linked_graph"
  gs_graph_for :: "string \<Rightarrow> diff_error + bool"

definition diff_trees :: "graph_store \<Rightarrow> string \<Rightarrow> string \<Rightarrow> diff_error + graph_diff" where
  "diff_trees store base head =
     (case gs_read_graph store base of
        Inl e \<Rightarrow> Inl e
      | Inr base_graph \<Rightarrow>
          (case gs_read_graph store head of
             Inl e \<Rightarrow> Inl e
           | Inr head_graph \<Rightarrow> Inr (diff_graphs base_graph head_graph)))"

definition diff_tree_oids :: "graph_store \<Rightarrow> string \<Rightarrow> string \<Rightarrow> diff_error + graph_diff" where
  "diff_tree_oids store base head =
     (case gs_graph_for store base of
        Inl e \<Rightarrow> Inl e
      | Inr False \<Rightarrow> Inl (MissingGraph base)
      | Inr True \<Rightarrow>
          (case gs_graph_for store head of
             Inl e \<Rightarrow> Inl e
           | Inr False \<Rightarrow> Inl (MissingGraph head)
           | Inr True \<Rightarrow> diff_trees store base head))"

definition edges_newer_than :: "graph_store \<Rightarrow> string \<Rightarrow> string \<Rightarrow> diff_error + diff_edge list" where
  "edges_newer_than store base head = map_sum id gd_added_edges (diff_trees store base head)"

definition edges_newer_than_graphs :: "linked_graph \<Rightarrow> linked_graph \<Rightarrow> diff_edge list" where
  "edges_newer_than_graphs base head = gd_added_edges (diff_graphs base head)"

subsection \<open>The two sides\<close>

datatype sides = Refs string string bool | RefToWorkdir string bool | Workdir

fun uses_merge_base :: "sides \<Rightarrow> bool" where
  "uses_merge_base (Refs base head merge_base) = merge_base"
| "uses_merge_base (RefToWorkdir base merge_base) = merge_base"
| "uses_merge_base Workdir = True"

fun head_is_workdir :: "sides \<Rightarrow> bool" where
  "head_is_workdir (Refs base head merge_base) = False"
| "head_is_workdir (RefToWorkdir base merge_base) = True"
| "head_is_workdir Workdir = True"

record source_file =
  sf_rel_path :: string
  sf_blob_oid :: string

record side =
  sd_graph_key :: string
  sd_reference :: string
  sd_manifest :: "(string, string) btree_map"

text \<open>The git and indexing calls; an indexing run yields the key of the stored graph.\<close>

record side_source =
  ss_discover :: "diff_error option"
  ss_resolve_commit :: "string \<Rightarrow> diff_error + string"
  ss_merge_base :: "string \<Rightarrow> string \<Rightarrow> diff_error + string"
  ss_worktree :: "string \<Rightarrow> diff_error + (string \<times> source_file list)"
  ss_repo_workdir :: "string option"
  ss_enumerate_workdir :: "string \<Rightarrow> diff_error + source_file list"
  ss_index_workdir :: "string \<Rightarrow> diff_error + string"
  ss_enumerate_tree :: "diff_error + source_file list"
  ss_index_path :: "diff_error + string"

definition and_then :: "'e + 'a \<Rightarrow> ('a \<Rightarrow> 'e + 'b) \<Rightarrow> 'e + 'b" where
  "and_then m f = (case m of Inl e \<Rightarrow> Inl e | Inr x \<Rightarrow> f x)"

definition discovered_repo :: "side_source \<Rightarrow> diff_error + unit" where
  "discovered_repo src = (case ss_discover src of Some e \<Rightarrow> Inl e | None \<Rightarrow> Inr ())"

definition manifest_of :: "source_file list \<Rightarrow> (string, string) btree_map" where
  "manifest_of sources = fold (\<lambda>s. bt_insert (sf_rel_path s) (sf_blob_oid s)) sources []"

definition index_ref :: "side_source \<Rightarrow> string \<Rightarrow> diff_error + side" where
  "index_ref src commit =
     and_then (ss_worktree src commit) (\<lambda>(key, sources).
       Inr \<lparr>sd_graph_key = key, sd_reference = commit, sd_manifest = manifest_of sources\<rparr>)"

definition index_working_dir :: "side_source \<Rightarrow> diff_error + side" where
  "index_working_dir src =
     and_then (discovered_repo src) (\<lambda>_.
       case ss_repo_workdir src of
         None \<Rightarrow> Inl (GitError ''repository has no working directory (bare)'')
       | Some dir \<Rightarrow>
           and_then (ss_enumerate_workdir src dir) (\<lambda>working.
           and_then (ss_index_workdir src dir) (\<lambda>key.
             Inr \<lparr>sd_graph_key = key, sd_reference = ''workdir'', sd_manifest = manifest_of working\<rparr>)))"

definition base_commit_of :: "side_source \<Rightarrow> bool \<Rightarrow> string \<Rightarrow> string \<Rightarrow> diff_error + string" where
  "base_commit_of src merge_base base head =
     (if merge_base then ss_merge_base src base head else ss_resolve_commit src base)"

fun acquire :: "side_source \<Rightarrow> sides \<Rightarrow> diff_error + (side \<times> side)" where
  "acquire src (Refs base head merge_base) =
     and_then (discovered_repo src) (\<lambda>_.
     and_then (ss_resolve_commit src head) (\<lambda>head_commit.
     and_then (base_commit_of src merge_base base head) (\<lambda>base_commit.
     and_then (index_ref src base_commit) (\<lambda>base_side.
     and_then (index_ref src head_commit) (\<lambda>head_side. Inr (base_side, head_side))))))"
| "acquire src (RefToWorkdir base merge_base) =
     and_then (discovered_repo src) (\<lambda>_.
     and_then (base_commit_of src merge_base base ''HEAD'') (\<lambda>base_commit.
     and_then (index_ref src base_commit) (\<lambda>base_side.
     and_then (index_working_dir src) (\<lambda>head_side. Inr (base_side, head_side)))))"
| "acquire src Workdir =
     and_then (discovered_repo src) (\<lambda>_.
     and_then (ss_enumerate_tree src) (\<lambda>committed.
     and_then (ss_index_path src) (\<lambda>key.
     and_then (index_working_dir src) (\<lambda>head_side.
       Inr (\<lparr>sd_graph_key = key, sd_reference = ''HEAD'', sd_manifest = manifest_of committed\<rparr>, head_side)))))"

subsection \<open>The changed symbols\<close>

text \<open>Paths of the head side whose content the base side does not have, in path order.\<close>

definition changed_paths :: "side \<Rightarrow> side \<Rightarrow> string list" where
  "changed_paths base head =
     map fst (filter (\<lambda>(path, oid). map_of (sd_manifest base) path \<noteq> Some oid) (sd_manifest head))"

definition diff_fqns :: "graph_diff \<Rightarrow> string list" where
  "diff_fqns d =
     map dn_fqn (gd_added_nodes d) @
     concat (map (\<lambda>e. [ei_src_fqn (de_identity e), ei_dst_fqn (de_identity e)]) (gd_added_edges d)) @
     concat (map (\<lambda>e. [ei_src_fqn (ce_identity e), ei_dst_fqn (ce_identity e)]) (gd_changed_edges d))"

definition struct_symbols :: "graph_view \<Rightarrow> graph_diff \<Rightarrow> node_id btree_set" where
  "struct_symbols view d =
     bs_collect (List.map_filter (map_of (fqn_index view)) (diff_fqns d))"

definition file_symbols :: "graph_view \<Rightarrow> string list \<Rightarrow> node_id btree_set" where
  "file_symbols view changed = bs_collect (map n_id (filter (\<lambda>node. n_file node \<in> set changed) (gv_nodes view)))"

definition files_with_symbols :: "graph_view \<Rightarrow> string list \<Rightarrow> string btree_set" where
  "files_with_symbols view changed = bs_collect (map n_file (filter (\<lambda>node. n_file node \<in> set changed) (gv_nodes view)))"

definition cgx_store_dir :: string where
  "cgx_store_dir = ''.cgx/''"

text \<open>The paths that count as changes, and how many dropped ones git would not ignore.\<close>

definition narrow_paths ::
  "(string list \<Rightarrow> string set) \<Rightarrow> bool \<Rightarrow> side \<Rightarrow> string btree_set \<Rightarrow> string list \<Rightarrow> string list \<times> nat" where
  "narrow_paths git_ignored workdir base with_symbols kept =
     (if workdir then
        (let tracked = (\<lambda>p. map_of (sd_manifest base) p \<noteq> None \<or> p \<in> set with_symbols);
             candidates = filter (\<lambda>p. \<not> str_starts_with p cgx_store_dir) (filter (\<lambda>p. \<not> tracked p) kept);
             ignored = (if candidates = [] then {} else git_ignored candidates)
         in (filter tracked kept, length (filter (\<lambda>p. p \<notin> ignored) candidates)))
      else (kept, 0))"

definition languages_of :: "graph_view \<Rightarrow> node_id list \<Rightarrow> string btree_set" where
  "languages_of view ids = bs_collect (map n_lang (List.map_filter (try_node view) ids))"

definition is_degenerate :: "string list \<Rightarrow> string btree_set \<Rightarrow> bool" where
  "is_degenerate changed langs \<longleftrightarrow> changed \<noteq> [] \<and> \<not> list_ex (\<lambda>l. l \<in> set supported_langs) langs"

definition degenerate_reason_of :: "string btree_set \<Rightarrow> string" where
  "degenerate_reason_of langs =
     (if langs = [] then ''no changed file contributed an indexed symbol''
      else ''no supported language in the changed set ('' @ join_with '', '' langs @ '')'')"

record impact_report =
  ir_tests :: impacted_answer
  ir_contract :: approximation_contract
  ir_degenerate :: bool
  ir_degenerate_reason :: "string option"
  ir_base_ref :: string
  ir_head_ref :: string
  ir_base_graph_key :: string
  ir_head_graph_key :: string
  ir_dirty_files :: nat
  ir_changed :: "node_id list"
  ir_view :: graph_view

definition impacted_report ::
  "(string list \<Rightarrow> string set) \<Rightarrow> sides \<Rightarrow> path_walker \<Rightarrow> side \<Rightarrow> side \<Rightarrow> graph_view \<Rightarrow> graph_diff \<Rightarrow> impact_report option" where
  "impacted_report git_ignored between w base head view d =
     (let all_paths = changed_paths base head;
          s_struct = struct_symbols view d;
          s_file = file_symbols view all_paths;
          with_symbols = files_with_symbols view all_paths;
          (kept, dropped) = narrow_paths git_ignored (head_is_workdir between) base with_symbols all_paths;
          changed = bs_collect (s_struct @ s_file);
          langs = languages_of view changed;
          degenerate = is_degenerate kept langs
      in case impacted_tests view changed w of
           None \<Rightarrow> None
         | Some found \<Rightarrow>
             (let tests = found\<lparr>ia_file_granular_only := length (filter (\<lambda>i. i \<notin> set s_struct) s_file)\<rparr>;
                  facts = \<lparr>df_removed_symbols = length (gd_removed_nodes d),
                    df_unindexed_changed_files = length (filter (\<lambda>p. p \<notin> set with_symbols) kept),
                    df_dropped_unclaimed_paths = dropped, df_tip_to_tip_base = (\<not> uses_merge_base between)\<rparr>
              in Some \<lparr>ir_tests = tests, ir_contract = contract_for view w changed tests facts,
                   ir_degenerate = degenerate,
                   ir_degenerate_reason = (if degenerate then Some (degenerate_reason_of langs) else None),
                   ir_base_ref = sd_reference base, ir_head_ref = sd_reference head,
                   ir_base_graph_key = sd_graph_key base, ir_head_graph_key = sd_graph_key head,
                   ir_dirty_files = length kept, ir_changed = changed, ir_view = view\<rparr>))"

text \<open>\<open>run\<close>; \<open>None\<close> is a panic.\<close>

definition run_impacted ::
  "graph_store \<Rightarrow> side_source \<Rightarrow> (string list \<Rightarrow> string set) \<Rightarrow> sides \<Rightarrow> path_walker \<Rightarrow> (diff_error + impact_report) option" where
  "run_impacted store src git_ignored between w =
     (case acquire src between of
        Inl e \<Rightarrow> Some (Inl e)
      | Inr (base, head) \<Rightarrow>
          (case gs_read_graph store (sd_graph_key head) of
             Inl e \<Rightarrow> Some (Inl e)
           | Inr g \<Rightarrow>
               (case diff_trees store (sd_graph_key base) (sd_graph_key head) of
                  Inl e \<Rightarrow> Some (Inl e)
                | Inr d \<Rightarrow>
                    map_option Inr (impacted_report git_ignored between w base head
                      (graph_view_new (lg_nodes g) (lg_edges g) (lg_candidates g)) d))))"

end
