(* ===== verification/Diff_Impacted_Properties.thy ===== *)
theory Diff_Impacted_Properties
  imports Diff_Impacted Query_Impact_Reach Select_Properties Core_Properties
begin









subsection \<open>Witness\<close>







end
