(* ===== verification/Diff_History_Properties.thy ===== *)
theory Diff_History_Properties
  imports Diff_History Select_Properties
begin

text \<open>What the coupling report and the edge ages say of the commits they were read from.\<close>

text \<open>The files a commit with exactly one parent changed, for the commits before the walk's first gap.\<close>

definition commit_files :: "history_repo \<Rightarrow> commit_info \<Rightarrow> string set option" where
  "commit_files repo info =
     (case ci_parents info of
        [parent] \<Rightarrow> (case hr_changes repo (ci_id info) parent of Inr ps \<Rightarrow> Some (set ps) | Inl _ \<Rightarrow> None)
      | _ \<Rightarrow> None)"

definition considered :: "history_repo \<Rightarrow> coupling_options \<Rightarrow> commit_info option list \<Rightarrow> string set list" where
  "considered repo opts items =
     filter (\<lambda>files. co_max_files_per_commit opts = 0 \<or> card files \<le> co_max_files_per_commit opts)
       (List.map_filter (\<lambda>item. Option.bind item (commit_files repo)) (takeWhile (\<lambda>item. item \<noteq> None) items))"

definition changing :: "string set list \<Rightarrow> string set \<Rightarrow> nat" where
  "changing commits files = length (filter (\<lambda>c. files \<subseteq> c) commits)"

lemma count_list_one: "distinct xs \<Longrightarrow> count_list xs k = (if k \<in> set xs then 1 else 0)"
  by (induction xs) auto

lemma count_list_concat: "count_list (concat xss) k = sum_list (map (\<lambda>xs. count_list xs k) xss)"
  by (induction xss) simp_all

lemma sum_list_filter_length: "sum_list (map (\<lambda>x. if P x then 1 else 0) xs) = length (filter P xs)"
  by (induction xs) simp_all

text \<open>The walk is the fold of the considered commits' files, each as a sorted list.\<close>

lemma sorted_paths: "remdups_adj (sort ps) = sorted_list_of_set (set ps)" for ps :: "'a::linorder list"
  by (rule strict_sorted_equal [symmetric]) (simp_all add: strict_sorted_sort_remdups_adj)

lemma coupling_walk_counts:
  assumes "coupling_walk repo opts items st = Inr st'"
  shows "cp_per_file st' =
      fold bt_bump (concat (map sorted_list_of_set (considered repo opts items))) (cp_per_file st) \<and>
    cp_per_pair st' = fold bt_bump
      (concat (map (\<lambda>c. index_pairs (sorted_list_of_set c)) (considered repo opts items))) (cp_per_pair st) \<and>
    cp_considered st' = cp_considered st + length (considered repo opts items)"
  using assms
proof (induction repo opts items st rule: coupling_walk.induct)
  case (3 repo opts info items st)
  show ?case
  proof (cases "\<exists>parent. ci_parents info = [parent]")
    case True
    then obtain parent where p: "ci_parents info = [parent]" by blast
    then obtain ps where c: "hr_changes repo (ci_id info) parent = Inr ps" using 3 by (auto split: sum.splits)
    then have "commit_files repo info = Some (set ps)" using p by (simp add: commit_files_def)
    then show ?thesis using 3 p c
      by (auto simp: considered_def List.map_filter_def count_commit_def sorted_paths Let_def)
  next
    case False
    then have "commit_files repo info = None" by (auto simp: commit_files_def split: list.splits)
    then show ?thesis using 3 False by (auto simp: considered_def List.map_filter_def split: list.splits)
  qed
qed (auto simp: considered_def List.map_filter_def)

text \<open>So the map of pairs counts, for each pair in order, the considered commits that changed both.\<close>

lemma considered_finite: "c \<in> set (considered repo opts items) \<Longrightarrow> finite c"
proof -
  have "finite files" if "commit_files repo info = Some files" for info files
    using that unfolding commit_files_def by (cases "ci_parents info" rule: remdups_adj.cases) (auto split: sum.split_asm)
  moreover assume "c \<in> set (considered repo opts items)"
  ultimately show "finite c"
    by (auto simp: considered_def List.map_filter_def bind_eq_Some_conv split: option.splits)
qed

lemma count_pairs:
  assumes "\<forall>c \<in> set commits. finite c"
  shows "count_list (concat (map (\<lambda>c. index_pairs (sorted_list_of_set c)) commits)) (a, b) =
    (if a < b then changing commits {a, b} else 0)"
proof -
  have "count_list (index_pairs (sorted_list_of_set c)) (a, b) = (if a < b \<and> {a, b} \<subseteq> c then 1 else 0)"
    if "c \<in> set commits" for c
    using assms that by (auto simp: count_list_one distinct_index_pairs set_index_pairs_sorted)
  then have "count_list (concat (map (\<lambda>c. index_pairs (sorted_list_of_set c)) commits)) (a, b) =
      sum_list (map (\<lambda>c. if a < b \<and> {a, b} \<subseteq> c then 1 else 0) commits)"
    by (simp add: count_list_concat comp_def cong: map_cong)
  then show ?thesis by (simp add: sum_list_filter_length changing_def)
qed

lemma count_files:
  assumes "\<forall>c \<in> set commits. finite c"
  shows "count_list (concat (map sorted_list_of_set commits)) a = changing commits {a}"
proof -
  have "count_list (sorted_list_of_set c) a = (if {a} \<subseteq> c then 1 else 0)" if "c \<in> set commits" for c
    using assms that by (simp add: count_list_one)
  then have "count_list (concat (map sorted_list_of_set commits)) a = sum_list (map (\<lambda>c. if {a} \<subseteq> c then 1 else 0) commits)"
    by (simp add: count_list_concat comp_def cong: map_cong)
  then show ?thesis by (simp add: sum_list_filter_length changing_def)
qed

lemma bt_count_bumps: "bt_count (fold bt_bump xs []) k = count_list xs k"
  by (simp add: bt_count_def map_of_bumps count_list_0_iff)

lemma map_of_bumps_count:
  "map_of (fold bt_bump xs []) k = (if count_list xs k = 0 then None else Some (count_list xs k))"
  by (simp add: map_of_bumps count_list_0_iff)

text \<open>
  C15. Co-change coupling is exact over the commits it says it considered: with no cap on the list, a
  pair of files is reported just when at least the threshold of the considered commits changed both
  (and at least one did), and its three counts are the numbers of considered commits that changed
  both files, the first, and the second.
\<close>

theorem coupling_counts:
  assumes "coupling repo base head opts = Inr report"
    and "hr_resolve repo base = Inr base_id" "hr_resolve repo head = Inr head_id"
    and "hr_walk repo base_id head_id = Some items"
    and "\<And>path. hr_render repo path = path" "co_limit opts = 0"
  shows "cr_commits_considered report = length (considered repo opts items) \<and>
    (p \<in> set (cr_pairs report) \<longleftrightarrow>
       pr_file_a p < pr_file_b p \<and>
       pr_cochanges p = changing (considered repo opts items) {pr_file_a p, pr_file_b p} \<and>
       max 1 (co_min_cochanges opts) \<le> pr_cochanges p \<and>
       pr_changes_a p = changing (considered repo opts items) {pr_file_a p} \<and>
       pr_changes_b p = changing (considered repo opts items) {pr_file_b p})"
proof

  let ?cs = "considered repo opts items"
  from assms obtain st where st: "coupling_walk repo opts items (coupling_start False) = Inr st"
    and r: "cr_commits_considered report = cp_considered st" "cr_pairs report = coupling_pairs repo opts st"
    by (auto simp: coupling_def Let_def split: sum.splits)
  have fin: "\<forall>c \<in> set ?cs. finite c" using considered_finite by blast
  note walk = coupling_walk_counts [OF st]
  have files: "cp_per_file st = fold bt_bump (concat (map sorted_list_of_set ?cs)) []"
    and pairs: "cp_per_pair st = fold bt_bump (concat (map (\<lambda>c. index_pairs (sorted_list_of_set c)) ?cs)) []"
    using walk by (simp_all add: coupling_start_def)
  have f: "bt_count (cp_per_file st) a = changing ?cs {a}" for a
    unfolding files bt_count_bumps by (rule count_files [OF fin])
  have d: "distinct (map fst (cp_per_pair st))"
    unfolding pairs using bt_wf_bumps by (auto simp: bt_wf_def intro: strict_sorted_distinct)
  have "((a, b), n) \<in> set (cp_per_pair st) \<longleftrightarrow> map_of (cp_per_pair st) (a, b) = Some n" for a b n
    using map_of_eq_Some_iff [OF d] by simp
  moreover have "map_of (cp_per_pair st) (a, b) = Some n \<longleftrightarrow> a < b \<and> n = changing ?cs {a, b} \<and> 1 \<le> n" for a b n
    unfolding pairs map_of_bumps_count count_pairs [OF fin] by auto
  ultimately have in_pairs:
    "((a, b), n) \<in> set (cp_per_pair st) \<longleftrightarrow> a < b \<and> n = changing ?cs {a, b} \<and> 1 \<le> n" for a b n by simp
  show "cr_commits_considered report = length ?cs" using r walk by (simp add: coupling_start_def)
  show "p \<in> set (cr_pairs report) \<longleftrightarrow>
       pr_file_a p < pr_file_b p \<and> pr_cochanges p = changing ?cs {pr_file_a p, pr_file_b p} \<and>
       max 1 (co_min_cochanges opts) \<le> pr_cochanges p \<and>
       pr_changes_a p = changing ?cs {pr_file_a p} \<and> pr_changes_b p = changing ?cs {pr_file_b p}"
    unfolding r coupling_pairs_def
    by (cases p) (auto simp: in_pairs f assms(5) image_iff split: prod.splits)
qed

text \<open>
  C16. The age of a symbol is read from the newest of the commits blamed for its lines: when a commit
  is reported it is blamed, it has the reported author time, and no blamed commit with a known time
  is newer; the author is that commit's, and there is no warning. Otherwise the age is the
  unattributed one and exactly one warning says why.
\<close>

theorem symbol_age_newest:
  assumes "symbol_age repo symbol suspect = (age, warnings)"
  shows "(\<exists>time commit entries. age = \<lparr>ea_introducing_commit = Some commit,
        ea_introducing_author = fst (br_author_identity repo commit),
        ea_introducing_email = snd (br_author_identity repo commit), ea_author_time = Some time\<rparr> \<and> warnings = [] \<and>
      br_blame repo (n_file symbol) suspect (max 1 (n_line_start symbol))
        (max (max 1 (n_line_start symbol)) (n_line_end symbol)) = Inr entries \<and>
      commit \<in> set entries \<and> br_author_seconds repo commit = Some time \<and>
      (\<forall>other \<in> set entries. \<forall>t. br_author_seconds repo other = Some t \<longrightarrow> t \<le> time)) \<or>
    (age = unattributed \<and> length warnings = 1)"
proof (cases "is_attributed age")
  case True
  then obtain entries time commit where e:
      "br_blame repo (n_file symbol) suspect (max 1 (n_line_start symbol))
        (max (max 1 (n_line_start symbol)) (n_line_end symbol)) = Inr entries"
      "newest_entry (br_author_seconds repo) entries None = Some (time, commit)"
      and age: "age = \<lparr>ea_introducing_commit = Some commit,
        ea_introducing_author = fst (br_author_identity repo commit),
        ea_introducing_email = snd (br_author_identity repo commit), ea_author_time = Some time\<rparr>" "warnings = []"
    using assms by (auto simp: symbol_age_def Let_def is_attributed_def unattributed_def
      split: if_split_asm option.split_asm sum.split_asm prod.split_asm)
  from newest_entry_max [OF e(2)] e(1) age show ?thesis by (intro disjI1) simp
next
  case False
  then show ?thesis using assms
    by (intro disjI2) (auto simp: symbol_age_def Let_def is_attributed_def
      split: if_split_asm option.split_asm sum.split_asm prod.split_asm)
qed

subsection \<open>Witnesses\<close>

definition sample_history :: history_repo where
  "sample_history =
     \<lparr>hr_resolve = Inr,
      hr_walk = (\<lambda>_ _. Some [Some \<lparr>ci_id = ''c3'', ci_parents = [''c2'']\<rparr>, Some \<lparr>ci_id = ''m'', ci_parents = [''c2'', ''x'']\<rparr>,
        Some \<lparr>ci_id = ''c2'', ci_parents = [''c1'']\<rparr>]),
      hr_changes = (\<lambda>commit _. Inr (if commit = ''c3'' then [''b.rs'', ''a.rs''] else [''a.rs'', ''b.rs'', ''a.rs''])),
      hr_shallow = False, hr_render = (\<lambda>path. path)\<rparr>"

lemma sample_considered:
  "considered sample_history (coupling_options_default\<lparr>co_limit := 0\<rparr>) (the (hr_walk sample_history ''c1'' ''c3'')) =
    [{''a.rs'', ''b.rs''}, {''a.rs'', ''b.rs''}]"
  by (auto simp: considered_def sample_history_def List.map_filter_def commit_files_def coupling_options_default_def insert_absorb)

lemma coupling_counts_witness:
  "\<exists>report. coupling sample_history ''c1'' ''c3'' (coupling_options_default\<lparr>co_limit := 0\<rparr>) = Inr report \<and>
    cr_commits_considered report = 2 \<and>
    \<lparr>pr_file_a = ''a.rs'', pr_file_b = ''b.rs'', pr_cochanges = 2, pr_changes_a = 2, pr_changes_b = 2\<rparr> \<in> set (cr_pairs report)"
proof -
  let ?opts = "coupling_options_default\<lparr>co_limit := 0\<rparr>"
  obtain report where r: "coupling sample_history ''c1'' ''c3'' ?opts = Inr report"
    by (simp add: coupling_def sample_history_def Let_def)
  have h: "hr_resolve sample_history ''c1'' = Inr ''c1''" "hr_resolve sample_history ''c3'' = Inr ''c3''"
    "hr_walk sample_history ''c1'' ''c3'' = Some (the (hr_walk sample_history ''c1'' ''c3''))"
    "hr_render sample_history path = path" "co_limit ?opts = 0" for path
    by (simp_all add: sample_history_def)
  show ?thesis
    using r coupling_counts [OF r h,
      of "\<lparr>pr_file_a = ''a.rs'', pr_file_b = ''b.rs'', pr_cochanges = 2, pr_changes_a = 2, pr_changes_b = 2\<rparr>"]
    unfolding sample_considered by (simp add: changing_def coupling_options_default_def)
qed

definition sample_blame :: blame_repo where
  "sample_blame =
     \<lparr>br_is_oid = (\<lambda>_. True), br_range_error = (\<lambda>_ _. None),
      br_blame = (\<lambda>_ _ _ _. Inr [''c1'', ''c3'', ''c2'']),
      br_author_seconds = (\<lambda>commit. Some (if commit = ''c3'' then 30 else 10)),
      br_author_identity = (\<lambda>_. (Some ''ann'', None))\<rparr>"

lemma symbol_age_newest_witness:
  "ea_introducing_commit (fst (symbol_age sample_blame (sample_node 1 ''f'' ''rust'' None) ''head'')) = Some ''c3''"
proof -
  obtain age warnings where a: "symbol_age sample_blame (sample_node 1 ''f'' ''rust'' None) ''head'' = (age, warnings)" by (cases "symbol_age sample_blame (sample_node 1 ''f'' ''rust'' None) ''head''")
  from symbol_age_newest [OF a] a show ?thesis
    by (auto simp: symbol_age_def sample_blame_def Let_def unattributed_def)
qed

end
