(* ===== verification/Frontend_Facts.thy ===== *)
theory Frontend_Facts
  imports Core_Model
begin

text \<open>
  The facts a language frontend emits for one file (cgx-frontend/src/facts.rs): definitions,
  references, relations between types, imports, the lexical scope tree, data flow and types. The
  derived order of the fact types is a key: the fields in their order, an enum as its position,
  options and lists with a leading 0 or 1, so that keys compare in the order that Rust derives
  (\<open>canonicalize\<close> sorts by it).
\<close>

subsection \<open>Scopes\<close>

type_synonym scope_id = nat

definition root_scope :: scope_id where
  "root_scope = 0"

record scope =
  sc_parent :: "scope_id option"
  sc_owner_fqn :: "string option"

record scope_tree =
  scopes :: "scope list"

definition scope_tree_new :: scope_tree where
  "scope_tree_new = \<lparr>scopes = [\<lparr>sc_parent = None, sc_owner_fqn = None\<rparr>]\<rparr>"

definition scope_push :: "scope_id \<Rightarrow> string option \<Rightarrow> scope_tree \<Rightarrow> scope_id \<times> scope_tree" where
  "scope_push parent owner_fqn t =
     (length (scopes t), t\<lparr>scopes := scopes t @ [\<lparr>sc_parent = Some parent, sc_owner_fqn = owner_fqn\<rparr>]\<rparr>)"

definition scope_parent :: "scope_tree \<Rightarrow> scope_id \<Rightarrow> scope_id option" where
  "scope_parent t i = (if i < length (scopes t) then sc_parent (scopes t ! i) else None)"

text \<open>
  The iterator over the scope and its ancestors. It is taken at most once more than there are
  scopes, which is all of it in a tree where every parent comes before its children.
\<close>

fun ancestors_go :: "nat \<Rightarrow> scope_tree \<Rightarrow> scope_id option \<Rightarrow> scope_id list" where
  "ancestors_go 0 t cur = []"
| "ancestors_go (Suc n) t None = []"
| "ancestors_go (Suc n) t (Some i) = i # ancestors_go n t (scope_parent t i)"

definition ancestors :: "scope_tree \<Rightarrow> scope_id \<Rightarrow> scope_id list" where
  "ancestors t i = ancestors_go (Suc (length (scopes t))) t (Some i)"

definition scope_tree_wf :: "scope_tree \<Rightarrow> bool" where
  "scope_tree_wf t \<longleftrightarrow> (\<forall>i < length (scopes t). \<forall>p. sc_parent (scopes t ! i) = Some p \<longrightarrow> p < i)"

lemma scope_tree_new_wf: "scope_tree_wf scope_tree_new"
  by (simp add: scope_tree_wf_def scope_tree_new_def)

lemma scope_push_wf:
  "scope_tree_wf t \<Longrightarrow> parent < length (scopes t) \<Longrightarrow> scope_tree_wf (snd (scope_push parent owner t))"
  by (auto simp: scope_tree_wf_def scope_push_def nth_append)

lemma ancestors_go_fuel:
  "scope_tree_wf t \<Longrightarrow> i < n \<Longrightarrow> i < length (scopes t) \<Longrightarrow> ancestors_go (Suc n) t (Some i) = ancestors_go (Suc i) t (Some i)"
proof (induction i arbitrary: n rule: less_induct)
  case (less i)
  show ?case
  proof (cases "scope_parent t i")
    case None
    with less show ?thesis by (cases n; cases i) simp_all
  next
    case (Some p)
    with less.prems have p: "p < i" "p < length (scopes t)" by (auto simp: scope_parent_def scope_tree_wf_def)
    then obtain m k where "n = Suc m" "i = Suc k" "p \<le> k" "p < m" using less.prems by (cases n; cases i) auto
    then have "ancestors_go n t (Some p) = ancestors_go (Suc p) t (Some p)" "ancestors_go i t (Some p) = ancestors_go (Suc p) t (Some p)"
      using less.IH [OF p(1) less.prems(1), of m] less.IH [OF p(1) less.prems(1), of k] p by (cases "p = k"; simp)+
    with Some show ?thesis by simp
  qed
qed

text \<open>In such a tree the ancestors are the scope followed by those of its parent.\<close>

lemma ancestors_unfold:
  assumes "scope_tree_wf t"
  shows "ancestors t i = i # (case scope_parent t i of None \<Rightarrow> [] | Some p \<Rightarrow> ancestors t p)"
proof (cases "scope_parent t i")
  case None
  then show ?thesis by (cases "length (scopes t)") (simp_all add: ancestors_def)
next
  case (Some p)
  then have p: "p < i" "i < length (scopes t)" using assms by (auto simp: scope_parent_def scope_tree_wf_def split: if_splits)
  then obtain n where n: "length (scopes t) = Suc n" by (cases "length (scopes t)") auto
  have "ancestors_go (Suc n) t (Some p) = ancestors_go (Suc p) t (Some p)"
    using ancestors_go_fuel [OF assms, of p n] p n by (cases "p = n") simp_all
  moreover have "ancestors_go (Suc (Suc n)) t (Some p) = ancestors_go (Suc p) t (Some p)"
    using ancestors_go_fuel [OF assms, of p "Suc n"] p n by simp
  ultimately show ?thesis using Some by (simp add: ancestors_def n)
qed

lemma ancestors_ends: "ancestors t i \<noteq> [] \<and> hd (ancestors t i) = i"
  by (simp add: ancestors_def)

subsection \<open>Definitions, references and relations\<close>

record symbol_def =
  sy_fqn :: string
  sy_kind :: symbol_kind
  sy_visibility :: visibility
  sy_scope :: scope_id
  sy_span :: span
  sy_line_end :: nat
  sy_is_abstract :: bool
  sy_signature :: "signature option"

datatype ref_kind =
    RefCall | RefVirtualReceiver | RefClosure | RefCallback | RefAsync | RefSpawn | RefReference
  | RefInstantiate | RefPinnedClosure

record raw_ref =
  rr_name_path :: "string list"
  rr_scope :: scope_id
  rr_kind :: ref_kind
  rr_edge_condition :: edge_condition
  rr_implicit :: "implicit_kind option"
  rr_span :: span
  rr_stmt_index :: nat
  rr_arity :: "nat option"
  rr_cut_markers :: "cut_marker list"

datatype relation_kind = RelImplements | RelInherits | RelOverrides

record impl_relation =
  il_kind :: relation_kind
  il_subject :: "string list"
  il_object :: "string list"
  il_span :: span

record imported_name =
  in_name :: string
  in_alias :: "string option"

record import_fact =
  im_specifier :: string
  im_names :: "imported_name list"
  im_glob :: bool
  im_re_export :: bool
  im_scope :: scope_id
  im_span :: span

record export_fact =
  ex_name :: string
  ex_alias :: "string option"
  ex_from :: "string option"
  ex_span :: span

record entrypoint_hint =
  eh_fqn :: string
  eh_kind :: entrypoint_kind

record effect_fact =
  ef_fqn :: string
  ef_effects :: effect_set

record data_flow_fact =
  fl_derived :: "string list"
  fl_source :: "string list"
  fl_derived_version :: nat
  fl_scope :: scope_id
  fl_transform :: transform
  fl_edge_condition :: edge_condition
  fl_cut_markers :: "cut_marker list"
  fl_callee_fqn :: "string option"
  fl_args :: "string list list"
  fl_span :: span

record cut_hint =
  ch_marker :: cut_marker
  ch_span :: span
  ch_macro_origin :: "string option"

subsection \<open>Types and values\<close>

datatype type_expr =
    TNamed "string list" bool
  | TGeneric "string list" "type_expr list" bool
  | TUnion "type_expr list"
  | TUnknown

datatype literal_kind = LitStr | LitBytes | LitNum | LitBool | LitList | LitDict | LitSet | LitTuple

datatype value_source =
    VsVar string
  | VsNew type_expr
  | VsCall "string list"
  | VsDeclared type_expr
  | VsEnter value_source
  | VsElement value_source
  | VsLiteral literal_kind
  | VsNull
  | VsOpaque

datatype base_expr = BaseType type_expr | BaseCall "string list" | BaseUnknown

datatype param_kind = PkReceiver | PkPositional | PkKeywordOnly | PkVarArgs | PkVarKeywords

datatype anon_root = AnonLiteral literal_kind | AnonSuper | AnonCall "string list" | AnonSubscript | AnonOther

record call_arg =
  ca_keyword :: "string option"
  ca_value :: value_source

datatype type_fact =
    ParamFact string string "nat option" param_kind "type_expr option"
  | BindFact string string value_source
  | FieldBindFact string string value_source
  | ClassBasesFact string "base_expr list"
  | AnonReceiverFact string nat nat string nat anon_root
  | CallArgsFact string nat nat "string list" "call_arg list"
  | ReturnFact string type_expr
  | FieldTypeFact string string type_expr
  | AttrStoreFact string value_source string value_source

record file_facts =
  ff_defs :: "symbol_def list"
  ff_refs :: "raw_ref list"
  ff_impl_relations :: "impl_relation list"
  ff_imports :: "import_fact list"
  ff_exports :: "export_fact list"
  ff_scopes :: scope_tree
  ff_entrypoint_hints :: "entrypoint_hint list"
  ff_cut_hints :: "cut_hint list"
  ff_effects :: "effect_fact list"
  ff_data_flows :: "data_flow_fact list"
  ff_module :: "string option"
  ff_type_facts :: "type_fact list"

definition facts_empty :: file_facts where
  "facts_empty =
     \<lparr>ff_defs = [], ff_refs = [], ff_impl_relations = [], ff_imports = [], ff_exports = [],
      ff_scopes = scope_tree_new, ff_entrypoint_hints = [], ff_cut_hints = [], ff_effects = [],
      ff_data_flows = [], ff_module = None, ff_type_facts = []\<rparr>"

definition is_degraded_empty :: "file_facts \<Rightarrow> bool" where
  "is_degraded_empty f \<longleftrightarrow>
     ff_defs f = [] \<and> ff_refs f = [] \<and> ff_impl_relations f = [] \<and> ff_imports f = [] \<and> ff_exports f = [] \<and>
     ff_entrypoint_hints f = [] \<and> ff_cut_hints f = [] \<and> ff_effects f = [] \<and> ff_data_flows f = [] \<and>
     ff_type_facts f = []"

subsection \<open>Erasing type names\<close>

fun erase_names :: "string list \<Rightarrow> type_expr \<Rightarrow> type_expr" where
  "erase_names names (TNamed path indirect) =
     (case path of [n] \<Rightarrow> if n \<in> set names then TUnknown else TNamed path indirect | _ \<Rightarrow> TNamed path indirect)"
| "erase_names names (TGeneric h args indirect) =
     (if length h = 1 \<and> hd h \<in> set names then TUnknown else TGeneric h (map (erase_names names) args) indirect)"
| "erase_names names (TUnion args) = TUnion (map (erase_names names) args)"
| "erase_names names TUnknown = TUnknown"

fun erase_source :: "string list \<Rightarrow> value_source \<Rightarrow> value_source" where
  "erase_source names (VsNew t) = VsNew (erase_names names t)"
| "erase_source names (VsDeclared t) = VsDeclared (erase_names names t)"
| "erase_source names (VsEnter s) = VsEnter (erase_source names s)"
| "erase_source names (VsElement s) = VsElement (erase_source names s)"
| "erase_source names s = s"

fun erase_fact :: "string list \<Rightarrow> type_fact \<Rightarrow> type_fact" where
  "erase_fact names (ParamFact f n i k (Some t)) = ParamFact f n i k (Some (erase_names names t))"
| "erase_fact names (ReturnFact f t) = ReturnFact f (erase_names names t)"
| "erase_fact names (FieldTypeFact c f t) = FieldTypeFact c f (erase_names names t)"
| "erase_fact names (BindFact f v s) = BindFact f v (erase_source names s)"
| "erase_fact names (FieldBindFact f v s) = FieldBindFact f v (erase_source names s)"
| "erase_fact names (AttrStoreFact f b v s) = AttrStoreFact f (erase_source names b) v (erase_source names s)"
| "erase_fact names (CallArgsFact f l c callee args) =
     CallArgsFact f l c callee (map (\<lambda>a. a\<lparr>ca_value := erase_source names (ca_value a)\<rparr>) args)"
| "erase_fact names t = t"

definition erase_type_names :: "string list \<Rightarrow> type_fact \<Rightarrow> type_fact" where
  "erase_type_names names t = (if names = [] then t else erase_fact names t)"

end
