(* ===== verification/Resolve_Symtab.thy ===== *)
theory Resolve_Symtab
  imports Frontend_Facts Comparator
begin

text \<open>
  The symbol table that references are resolved against (cgx-resolve/src/symtab.rs): definitions by
  full name, by last segment and by module, the re-export edges, and the lookup of a module member
  that follows them.
\<close>

subsection \<open>Names\<close>

definition last_name :: "string \<Rightarrow> string" where
  "last_name fqn = (case str_rsplit_once ''::'' fqn of None \<Rightarrow> fqn | Some (_, seg) \<Rightarrow> seg)"

definition module_prefix :: "string \<Rightarrow> string option" where
  "module_prefix fqn = map_option fst (str_rsplit_once ''::'' fqn)"

definition path_segment :: "string \<Rightarrow> string" where
  "path_segment specifier =
     (case filter (\<lambda>s. s \<noteq> []) (rev (split_chars ''/.'' (str_trim_start ''../'' (str_trim_start ''./'' specifier)))) of
        [] \<Rightarrow> specifier
      | seg # _ \<Rightarrow> seg)"

definition last_segment :: "string \<Rightarrow> string" where
  "last_segment specifier = (if str_contains specifier ''::'' then last_name specifier else path_segment specifier)"

definition candidate_module_prefixes :: "string \<Rightarrow> string list" where
  "candidate_module_prefixes specifier =
     remdups_adj
       (if str_contains specifier ''::'' then
          specifier # map (\<lambda>kw. drop (length kw) specifier)
            (filter (str_starts_with specifier) [''crate::'', ''self::'', ''super::''])
        else [path_segment specifier])"

subsection \<open>The table\<close>

record def_entry =
  dt_node_id :: node_id
  dt_fqn :: string
  dt_kind :: symbol_kind
  dt_arity :: "nat option"
  dt_lang :: string
  dt_file :: string

record import_binding =
  ib_local :: string
  ib_exported :: string
  ib_specifier :: string
  ib_scope :: scope_id
  ib_glob :: bool

record symbol_table =
  tb_by_fqn :: "(string, def_entry) btree_map"
  tb_by_short :: "(string, def_entry list) btree_map"
  tb_by_module_prefix :: "(string, def_entry list) btree_map"
  tb_reexports :: "(string \<times> string, string \<times> string) btree_map"
  tb_by_module_last :: "(string, string list) btree_map"

definition reexports_of :: "string \<Rightarrow> file_facts \<Rightarrow> ((string \<times> string) \<times> (string \<times> string)) list" where
  "reexports_of module_seg facts =
     concat (map (\<lambda>imp. map (\<lambda>n. ((module_seg, case in_alias n of Some a \<Rightarrow> a | None \<Rightarrow> in_name n), (im_specifier imp, in_name n)))
         (im_names imp)) (filter im_re_export (ff_imports facts))) @
     List.map_filter (\<lambda>e. map_option (\<lambda>from_spec.
         ((module_seg, case ex_alias e of Some a \<Rightarrow> a | None \<Rightarrow> ex_name e), (from_spec, ex_name e))) (ex_from e)) (ff_exports facts)"

definition record_reexports ::
  "string \<Rightarrow> file_facts \<Rightarrow> (string \<times> string, string \<times> string) btree_map \<Rightarrow> (string \<times> string, string \<times> string) btree_map" where
  "record_reexports module_seg facts m = fold (\<lambda>(key, target). bt_insert key target) (reexports_of module_seg facts) m"

definition def_entry_of :: "node_record \<Rightarrow> def_entry" where
  "def_entry_of n =
     \<lparr>dt_node_id = n_id n, dt_fqn = n_fqn n, dt_kind = n_kind n,
      dt_arity = map_option (\<lambda>s. min (length (sg_params s)) 255) (n_signature n), dt_lang = n_lang n, dt_file = n_file n\<rparr>"

definition sort_entries :: "(string, def_entry list) btree_map \<Rightarrow> (string, def_entry list) btree_map" where
  "sort_entries m = map (\<lambda>(k, v). (k, sort_key dt_node_id v)) m"

definition symbol_table_build :: "node_record list \<Rightarrow> (string \<times> file_facts) list \<Rightarrow> symbol_table" where
  "symbol_table_build nodes files =
     (let entries = map def_entry_of nodes;
          by_module = sort_entries
            (fold (\<lambda>e m. case module_prefix (dt_fqn e) of Some p \<Rightarrow> bt_push p e m | None \<Rightarrow> m) entries [])
      in \<lparr>tb_by_fqn = fold (\<lambda>e. bt_insert (dt_fqn e) e) entries [],
          tb_by_short = sort_entries (fold (\<lambda>e. bt_push (last_name (dt_fqn e)) e) entries []),
          tb_by_module_prefix = by_module,
          tb_reexports = fold (\<lambda>(seg, facts). record_reexports seg facts) files [],
          tb_by_module_last = fold (\<lambda>m. bt_push (last_name m) m) (map fst by_module) []\<rparr>)"

definition def_by_fqn :: "symbol_table \<Rightarrow> string \<Rightarrow> def_entry option" where
  "def_by_fqn t fqn = map_of (tb_by_fqn t) fqn"

definition defs_by_short :: "symbol_table \<Rightarrow> string \<Rightarrow> def_entry list" where
  "defs_by_short t name = bt_items (tb_by_short t) name"

subsection \<open>Module members\<close>

datatype resolve_outcome = OutUnique def_entry | OutAmbiguous "def_entry list" | OutNone

definition outcome_of :: "def_entry list \<Rightarrow> resolve_outcome" where
  "outcome_of hits = (case hits of [] \<Rightarrow> OutNone | [d] \<Rightarrow> OutUnique d | _ \<Rightarrow> OutAmbiguous hits)"

definition module_members :: "symbol_table \<Rightarrow> string \<Rightarrow> string \<Rightarrow> def_entry list" where
  "module_members t module_fqn name = filter (\<lambda>d. last_name (dt_fqn d) = name) (bt_items (tb_by_module_prefix t) module_fqn)"

definition suffix_members :: "symbol_table \<Rightarrow> string \<Rightarrow> string \<Rightarrow> def_entry list" where
  "suffix_members t seg name =
     dedup_by (\<lambda>a b. dt_node_id a = dt_node_id b)
       (sort_key dt_node_id (concat (map (\<lambda>m. module_members t m name) (bt_items (tb_by_module_last t) seg))))"

fun resolve_prefixes :: "symbol_table \<Rightarrow> string list \<Rightarrow> string \<Rightarrow> resolve_outcome" where
  "resolve_prefixes t [] name = OutNone"
| "resolve_prefixes t (p # ps) name =
     (if module_members t p name \<noteq> [] then outcome_of (module_members t p name)
      else if suffix_members t (last_name p) name \<noteq> [] then outcome_of (suffix_members t (last_name p) name)
      else resolve_prefixes t ps name)"

definition resolve_member_direct :: "symbol_table \<Rightarrow> string \<Rightarrow> string \<Rightarrow> resolve_outcome" where
  "resolve_member_direct t specifier name = resolve_prefixes t (candidate_module_prefixes specifier) name"

text \<open>The loop over re-export hops, with the keys that it has looked up.\<close>

function resolve_member_loop ::
  "symbol_table \<Rightarrow> (string \<times> string) set \<Rightarrow> string \<Rightarrow> string \<Rightarrow> resolve_outcome" where
  "resolve_member_loop t visited spec nm =
     (case resolve_member_direct t spec nm of
        OutNone \<Rightarrow>
          (let key = (last_segment spec, nm) in
           if key \<in> visited then OutNone
           else (case map_of (tb_reexports t) key of
                   None \<Rightarrow> OutNone
                 | Some (next_spec, next_name) \<Rightarrow> resolve_member_loop t (insert key visited) next_spec next_name))
      | found \<Rightarrow> found)"
  by auto
termination
proof (relation "measure (\<lambda>(t, visited, _). card (fst ` set (tb_reexports t) - visited))")
  fix t visited spec nm key x next_spec next_name
  assume "key = (last_segment spec, nm)" "key \<notin> visited" "map_of (tb_reexports t) key = Some (x :: string \<times> string)"
  then have "key \<in> fst ` set (tb_reexports t) - visited" by (force dest: map_of_SomeD)
  then have "card (fst ` set (tb_reexports t) - insert key visited) < card (fst ` set (tb_reexports t) - visited)"
    by (intro psubset_card_mono) auto
  then show "((t, insert key visited, next_spec, next_name), t, visited, spec, nm)
      \<in> measure (\<lambda>(t, visited, _). card (fst ` set (tb_reexports t) - visited))" by simp
qed simp

declare resolve_member_loop.simps [simp del]

definition resolve_member :: "symbol_table \<Rightarrow> string \<Rightarrow> string \<Rightarrow> resolve_outcome" where
  "resolve_member t specifier name = resolve_member_loop t {} specifier name"

subsection \<open>Import bindings\<close>

definition bindings_of :: "import_fact \<Rightarrow> import_binding list" where
  "bindings_of imp =
     (if im_glob imp then
        [\<lparr>ib_local = [], ib_exported = [], ib_specifier = im_specifier imp, ib_scope = im_scope imp, ib_glob = True\<rparr>]
      else map (\<lambda>n. \<lparr>ib_local = (case in_alias n of Some a \<Rightarrow> a | None \<Rightarrow> in_name n), ib_exported = in_name n,
        ib_specifier = im_specifier imp, ib_scope = im_scope imp, ib_glob = False\<rparr>) (im_names imp))"

definition collect_import_bindings :: "import_fact list \<Rightarrow> import_binding list" where
  "collect_import_bindings imports =
     sort_key (\<lambda>b. (ib_local b, ib_specifier b)) (concat (map bindings_of imports))"

subsection \<open>Re-export chains\<close>

text \<open>A hop leaves a module that does not have the member, over the re-export edge for it.\<close>

inductive hop :: "symbol_table \<Rightarrow> string \<times> string \<Rightarrow> string \<times> string \<Rightarrow> bool" for t where
  hop_step: "resolve_member_direct t spec nm = OutNone \<Longrightarrow> map_of (tb_reexports t) (last_segment spec, nm) = Some next \<Longrightarrow>
    hop t (spec, nm) next"

inductive_simps hop_from [simp]: "hop t (spec, nm) next"

text \<open>The keys looked up belong to modules without the member, and lead to such a module or to the current one.\<close>

definition chased :: "symbol_table \<Rightarrow> (string \<times> string) set \<Rightarrow> string \<times> string \<Rightarrow> bool" where
  "chased t visited cur \<longleftrightarrow>
     (\<forall>key \<in> visited. \<forall>next. map_of (tb_reexports t) key = Some next \<longrightarrow>
        next = cur \<or> (resolve_member_direct t (fst next) (snd next) = OutNone \<and> (last_segment (fst next), snd next) \<in> visited))"

lemma chased_closed:
  assumes "chased t visited (spec, nm)" "resolve_member_direct t spec nm = OutNone" "(last_segment spec, nm) \<in> visited"
    and "(hop t)\<^sup>*\<^sup>* (spec, nm) p"
  shows "resolve_member_direct t (fst p) (snd p) = OutNone \<and> (last_segment (fst p), snd p) \<in> visited"
  using assms(4)
proof (induction rule: rtranclp_induct)
  case (step p q)
  then show ?case using assms(1-3) by (cases p; cases q) (fastforce simp: chased_def)
qed (use assms(2,3) in simp)

lemma resolve_member_loop_chain:
  assumes "chased t visited (spec, nm)"
  shows "(\<exists>p. (hop t)\<^sup>*\<^sup>* (spec, nm) p \<and> resolve_member_direct t (fst p) (snd p) = resolve_member_loop t visited spec nm \<and>
      resolve_member_loop t visited spec nm \<noteq> OutNone) \<or>
    (resolve_member_loop t visited spec nm = OutNone \<and>
      (\<forall>p. (hop t)\<^sup>*\<^sup>* (spec, nm) p \<longrightarrow> resolve_member_direct t (fst p) (snd p) = OutNone))"
  using assms
proof (induction t visited spec nm rule: resolve_member_loop.induct)
  case (1 t visited spec nm)
  let ?key = "(last_segment spec, nm)"
  note unfold = resolve_member_loop.simps [of t visited spec nm]
  show ?case
  proof (cases "resolve_member_direct t spec nm = OutNone")
    case False
    then have "resolve_member_loop t visited spec nm = resolve_member_direct t spec nm"
      unfolding unfold by (cases "resolve_member_direct t spec nm") simp_all
    then show ?thesis using False by (intro disjI1 exI [of _ "(spec, nm)"]) simp
  next
    case none: True
    show ?thesis
    proof (cases "?key \<in> visited")
      case True
      then show ?thesis using chased_closed [OF 1(2) none True] none unfold by simp
    next
      case False
      show ?thesis
      proof (cases "map_of (tb_reexports t) ?key")
        case None
        then have "(hop t)\<^sup>*\<^sup>* (spec, nm) p \<Longrightarrow> p = (spec, nm)" for p
          by (auto elim: converse_rtranclpE)
        then show ?thesis using None False none unfold by fastforce
      next
        case (Some q)
        obtain spec' nm' where q: "q = (spec', nm')" by (cases q)
        have rec: "resolve_member_loop t visited spec nm = resolve_member_loop t (insert ?key visited) spec' nm'"
          using False none Some q unfold by simp
        have hop: "hop t (spec, nm) p \<longleftrightarrow> p = (spec', nm')" for p using none Some q by auto
        have "chased t (insert ?key visited) (spec', nm')" using 1(2) none Some q by (auto simp: chased_def)
        note IH = 1(1) [OF none refl False Some q [symmetric] this]
        have reach: "(hop t)\<^sup>*\<^sup>* (spec, nm) p \<longleftrightarrow> p = (spec, nm) \<or> (hop t)\<^sup>*\<^sup>* (spec', nm') p" for p
          using hop by (metis converse_rtranclpE converse_rtranclp_into_rtranclp rtranclp.rtrancl_refl)
        show ?thesis unfolding rec reach using IH none by (elim disjE) auto
      qed
    qed
  qed
qed

lemma hop_deterministic:
  "(hop t)\<^sup>*\<^sup>* p q \<Longrightarrow> (hop t)\<^sup>*\<^sup>* p q' \<Longrightarrow> (hop t)\<^sup>*\<^sup>* q q' \<or> (hop t)\<^sup>*\<^sup>* q' q"
proof (induction rule: rtranclp_induct)
  case (step q r)
  have det: "hop t a b \<Longrightarrow> hop t a c \<Longrightarrow> b = c" for a b c by (cases a) auto
  from step.IH [OF step.prems] show ?case
  proof
    assume "(hop t)\<^sup>*\<^sup>* q q'"
    then show ?thesis using step.hyps(2) det by (metis converse_rtranclpE r_into_rtranclp)
  next
    assume "(hop t)\<^sup>*\<^sup>* q' q"
    then show ?thesis using step.hyps(2) by (blast intro: rtranclp.rtrancl_into_rtrancl)
  qed
qed simp

text \<open>The outcome is that of the first module on the chain that has the member.\<close>

lemma resolve_member_chain:
  "resolve_member t spec nm = OutNone \<longleftrightarrow> (\<forall>p. (hop t)\<^sup>*\<^sup>* (spec, nm) p \<longrightarrow> resolve_member_direct t (fst p) (snd p) = OutNone)"
  "r \<noteq> OutNone \<Longrightarrow> resolve_member t spec nm = r \<longleftrightarrow> (\<exists>p. (hop t)\<^sup>*\<^sup>* (spec, nm) p \<and> resolve_member_direct t (fst p) (snd p) = r)"
proof -
  have "chased t {} (spec, nm)" by (simp add: chased_def)
  note cases = resolve_member_loop_chain [OF this, folded resolve_member_def]
  have final: "p = q" if "(hop t)\<^sup>*\<^sup>* p q" "resolve_member_direct t (fst p) (snd p) \<noteq> OutNone" for p q
    using that by (cases p) (auto elim: converse_rtranclpE)
  have unique: "resolve_member_direct t (fst p) (snd p) = resolve_member_direct t (fst q) (snd q)"
    if "(hop t)\<^sup>*\<^sup>* (spec, nm) p" "(hop t)\<^sup>*\<^sup>* (spec, nm) q"
      "resolve_member_direct t (fst p) (snd p) \<noteq> OutNone" "resolve_member_direct t (fst q) (snd q) \<noteq> OutNone" for p q
    using hop_deterministic [OF that(1,2)] final that(3,4) by metis
  show "resolve_member t spec nm = OutNone \<longleftrightarrow> (\<forall>p. (hop t)\<^sup>*\<^sup>* (spec, nm) p \<longrightarrow> resolve_member_direct t (fst p) (snd p) = OutNone)"
    using cases by metis
  show "resolve_member t spec nm = r \<longleftrightarrow> (\<exists>p. (hop t)\<^sup>*\<^sup>* (spec, nm) p \<and> resolve_member_direct t (fst p) (snd p) = r)" if "r \<noteq> OutNone"
    using cases unique that by metis
qed

subsection \<open>What the indexes hold\<close>

lemma bt_items_sort_entries: "bt_items (sort_entries m) k = sort_key dt_node_id (bt_items m k)"
proof -
  have "map_of (sort_entries m) k = map_option (sort_key dt_node_id) (map_of m k)"
    unfolding sort_entries_def by (induction m) auto
  then show ?thesis by (simp add: bt_items_def split: option.split)
qed

lemma bt_items_push_some:
  "bt_items (fold (\<lambda>e m. case f e of Some p \<Rightarrow> bt_push p e m | None \<Rightarrow> m) xs m) k = bt_items m k @ filter (\<lambda>e. f e = Some k) xs"
  by (induction xs arbitrary: m) (auto simp: container_simps split: option.split)

lemma bt_wf_push_some:
  "bt_wf m \<Longrightarrow> bt_wf (fold (\<lambda>e m. case f e of Some p \<Rightarrow> bt_push p e m | None \<Rightarrow> m) xs m)"
  by (induction xs arbitrary: m) (auto simp: container_simps split: option.split)

lemma symbol_table_indexes:
  assumes "t = symbol_table_build ns files"
  shows "def_by_fqn t fqn = map_of (rev (map (\<lambda>n. (n_fqn n, def_entry_of n)) ns)) fqn"
    and "defs_by_short t name = sort_key dt_node_id (map def_entry_of (filter (\<lambda>n. last_name (n_fqn n) = name) ns))"
    and "bt_items (tb_by_module_prefix t) p = sort_key dt_node_id (map def_entry_of (filter (\<lambda>n. module_prefix (n_fqn n) = Some p) ns))"
    and "bt_items (tb_by_module_last t) seg = filter (\<lambda>m. last_name m = seg) (map fst (tb_by_module_prefix t))"
    and "bt_wf (tb_by_module_prefix t)"
proof -
  have fqn: "dt_fqn (def_entry_of n) = n_fqn n" for n by (simp add: def_entry_of_def)
  show "def_by_fqn t fqn = map_of (rev (map (\<lambda>n. (n_fqn n, def_entry_of n)) ns)) fqn"
    using bt.get_build_last [of dt_fqn "\<lambda>e. e" "map def_entry_of ns" fqn]
    by (simp add: assms symbol_table_build_def def_by_fqn_def Let_def comp_def fqn)
  show "defs_by_short t name = sort_key dt_node_id (map def_entry_of (filter (\<lambda>n. last_name (n_fqn n) = name) ns))"
    using bt_items_fold_push [of "\<lambda>e. last_name (dt_fqn e)" "\<lambda>e. e" "map def_entry_of ns" "[]" name]
    by (simp add: assms symbol_table_build_def defs_by_short_def Let_def bt_items_sort_entries filter_map comp_def fqn)
  show "bt_items (tb_by_module_prefix t) p = sort_key dt_node_id (map def_entry_of (filter (\<lambda>n. module_prefix (n_fqn n) = Some p) ns))"
    by (simp add: assms symbol_table_build_def Let_def bt_items_sort_entries bt_items_push_some filter_map comp_def fqn)
  show "bt_items (tb_by_module_last t) seg = filter (\<lambda>m. last_name m = seg) (map fst (tb_by_module_prefix t))"
    using bt_items_fold_push [of last_name "\<lambda>e. e" "map fst (tb_by_module_prefix t)" "[]" seg]
    by (simp add: assms symbol_table_build_def Let_def)
  have "map fst (sort_entries m) = map fst m" for m by (simp add: sort_entries_def comp_def case_prod_unfold)
  then show "bt_wf (tb_by_module_prefix t)"
    using bt_wf_push_some [OF bt_wf_Nil, of "\<lambda>e. module_prefix (dt_fqn e)" "map def_entry_of ns"]
    by (simp add: assms symbol_table_build_def Let_def bt_wf_def)
qed

lemma set_dedup_inj: "inj_on f (set xs) \<Longrightarrow> set (dedup_by (\<lambda>a b. f a = f b) xs) = set xs"
  by (induction "\<lambda>a b. f a = f b" xs rule: dedup_by.induct) (auto simp: inj_on_def)

text \<open>The suffix index finds the members of every module whose name ends in the segment.\<close>

lemma set_suffix_members:
  assumes t: "t = symbol_table_build ns files" and ids: "distinct (map n_id ns)"
  shows "set (suffix_members t seg name) =
    def_entry_of ` {n \<in> set ns. last_name (n_fqn n) = name \<and> (\<exists>p. module_prefix (n_fqn n) = Some p \<and> last_name p = seg)}"
proof -
  have fqn: "dt_fqn (def_entry_of n) = n_fqn n" for n by (simp add: def_entry_of_def)
  have members: "set (module_members t p name) =
      def_entry_of ` {n \<in> set ns. last_name (n_fqn n) = name \<and> module_prefix (n_fqn n) = Some p}" for p
    by (auto simp: module_members_def symbol_table_indexes(3) [OF t] fqn)
  have keys: "p \<in> fst ` set (tb_by_module_prefix t)" if "n \<in> set ns" "module_prefix (n_fqn n) = Some p" for n p
  proof -
    have "def_entry_of n \<in> set (bt_items (tb_by_module_prefix t) p)"
      using that by (simp add: symbol_table_indexes(3) [OF t])
    then have "bt_items (tb_by_module_prefix t) p \<noteq> []" by (metis empty_iff empty_set)
    then show ?thesis by (auto simp: bt_items_def split: option.splits dest: map_of_SomeD intro: rev_image_eqI)
  qed
  let ?all = "concat (map (\<lambda>m. module_members t m name) (bt_items (tb_by_module_last t) seg))"
  let ?hits = "{n \<in> set ns. last_name (n_fqn n) = name \<and> (\<exists>p. module_prefix (n_fqn n) = Some p \<and> last_name p = seg)}"
  have "set ?all = (\<Union>m \<in> {m \<in> fst ` set (tb_by_module_prefix t). last_name m = seg}.
      def_entry_of ` {n \<in> set ns. last_name (n_fqn n) = name \<and> module_prefix (n_fqn n) = Some m})"
    by (simp add: symbol_table_indexes(4) [OF t] members)
  also have "\<dots> = def_entry_of ` (\<Union>m \<in> {m \<in> fst ` set (tb_by_module_prefix t). last_name m = seg}.
      {n \<in> set ns. last_name (n_fqn n) = name \<and> module_prefix (n_fqn n) = Some m})" by (rule image_UN [symmetric])
  also have "(\<Union>m \<in> {m \<in> fst ` set (tb_by_module_prefix t). last_name m = seg}.
      {n \<in> set ns. last_name (n_fqn n) = name \<and> module_prefix (n_fqn n) = Some m}) = ?hits"
    by (auto dest: keys)
  finally have set_all: "set ?all = def_entry_of ` ?hits" .
  have inj: "inj_on n_id (set ns)" using ids by (simp add: distinct_map)
  have "inj_on dt_node_id (set ?all)"
  proof (rule inj_onI)
    fix a b assume a: "a \<in> set ?all" and b: "b \<in> set ?all" and eq: "dt_node_id a = dt_node_id b"
    from a b obtain n m where nm: "a = def_entry_of n" "b = def_entry_of m" "n \<in> set ns" "m \<in> set ns"
      unfolding set_all by blast
    then have "n_id n = n_id m" using eq by (simp add: def_entry_of_def)
    then show "a = b" using inj_onD [OF inj] nm by metis
  qed
  then have "inj_on dt_node_id (set (sort_key dt_node_id ?all))" by simp
  then have "set (suffix_members t seg name) = set (sort_key dt_node_id ?all)" unfolding suffix_members_def by (rule set_dedup_inj)
  then show ?thesis using set_all by simp
qed

end
