(* ===== verification/Resolve_Nodes.thy ===== *)
theory Resolve_Nodes
  imports Resolve_Symtab Resolve_Graph
begin

text \<open>
  The inputs of the linker (cgx-resolve/src/input.rs) and the node passes of link.rs: \<open>build_nodes\<close>
  makes the symbol nodes in canonical order, \<open>sort_nodes_canonical\<close> restores that order after the
  value nodes were appended, and the lookups of a reference's enclosing definition.
\<close>

subsection \<open>Inputs\<close>

record file_input =
  fi_blob_oid :: string
  fi_path :: string
  fi_lang :: string
  fi_facts :: file_facts

record link_opts =
  lo_name_arity_fallback :: bool
  lo_arity_filter :: bool
  lo_dataflow :: bool
  lo_prior_fn_cache :: "((string \<times> string) \<times> string) list"
  lo_max_summary_edges :: "nat option"
  lo_receiver_narrowing :: bool
  lo_narrowing_trace :: bool

definition link_opts_default :: link_opts where
  "link_opts_default =
     \<lparr>lo_name_arity_fallback = True, lo_arity_filter = True, lo_dataflow = False, lo_prior_fn_cache = [],
      lo_max_summary_edges = None, lo_receiver_narrowing = False, lo_narrowing_trace = False\<rparr>"

subsection \<open>Symbol nodes\<close>

definition narrowing_zero :: narrowing_counts where
  "narrowing_zero =
     \<lparr>nc_typed_out = 0, nc_interproc_out = 0, nc_visible_out = 0, nc_visible_dropped_out = 0,
      nc_typed_away_in = 0, nc_interproc_away_in = 0, nc_visible_away_in = 0\<rparr>"

definition staged_node :: "file_input \<Rightarrow> symbol_def \<Rightarrow> node_with_provenance" where
  "staged_node f d =
     \<lparr>np_node =
        \<lparr>n_id = 0, n_kind = sy_kind d, n_fqn = sy_fqn d, n_file = fi_path f, n_line_start = sp_line (sy_span d),
         n_line_end = sy_line_end d, n_lang = fi_lang f, n_visibility = sy_visibility d, n_is_abstract = sy_is_abstract d,
         n_entrypoint_kind = map_option eh_kind (find (\<lambda>h. eh_fqn h = sy_fqn d) (ff_entrypoint_hints (fi_facts f))),
         n_signature = sy_signature d,
         n_own_effects = (case find (\<lambda>e. ef_fqn e = sy_fqn d) (ff_effects (fi_facts f)) of Some e \<Rightarrow> ef_effects e | None \<Rightarrow> effect_set_new),
         n_transitive_effects = effect_set_new, n_unresolved_calls = 0, n_external_calls = 0, n_narrowing = narrowing_zero\<rparr>,
      np_provenance = provenance_new (sy_span d) ''def'' ScopeGraph (fi_blob_oid f)\<rparr>"

definition assign_id :: "nat \<Rightarrow> node_with_provenance \<Rightarrow> node_with_provenance" where
  "assign_id i n = n\<lparr>np_node := (np_node n)\<lparr>n_id := i\<rparr>\<rparr>"

definition assign_ids :: "node_with_provenance list \<Rightarrow> node_with_provenance list" where
  "assign_ids ns = map2 assign_id [0..<length ns] ns"

definition fqn_to_node :: "node_with_provenance list \<Rightarrow> (string, node_id) btree_map" where
  "fqn_to_node ns = fold (\<lambda>n. bt_insert (n_fqn (np_node n)) (n_id (np_node n))) ns []"

definition build_nodes :: "file_input list \<Rightarrow> node_with_provenance list \<times> (string, node_id) btree_map" where
  "build_nodes inputs =
     (let staged = concat (map (\<lambda>f. map (staged_node f) (ff_defs (fi_facts f))) inputs);
          nodes = assign_ids (sort_key (\<lambda>n. node_sort_key (np_node n)) staged)
      in (nodes, fqn_to_node nodes))"

text \<open>
  The final order of all nodes, with the map from old to new ids, or \<open>None\<close> when no id moved. Ids are
  positions when this runs.
\<close>

definition node_key_of :: "node_with_provenance \<Rightarrow> string \<times> nat \<times> string" where
  "node_key_of n = node_sort_key (np_node n)"

definition id_remap :: "node_with_provenance list \<Rightarrow> node_id list" where
  "id_remap ordered =
     fold (\<lambda>(i, n) remap. remap[n_id (np_node n) := i]) (zip [0..<length ordered] ordered) (replicate (length ordered) 0)"

definition remap_edge :: "node_id list \<Rightarrow> edge_with_provenance \<Rightarrow> edge_with_provenance" where
  "remap_edge remap e =
     e\<lparr>ep_edge := (ep_edge e)\<lparr>e_src := remap ! e_src (ep_edge e), e_dst := remap ! e_dst (ep_edge e)\<rparr>\<rparr>"

definition remap_candidate :: "node_id list \<Rightarrow> candidate \<Rightarrow> candidate" where
  "remap_candidate remap c = c\<lparr>cd_dst := remap ! cd_dst c\<rparr>"

definition sort_nodes_canonical ::
  "node_with_provenance list \<Rightarrow> edge_with_provenance list \<Rightarrow> candidate list \<Rightarrow>
   node_with_provenance list \<times> edge_with_provenance list \<times> candidate list \<times> node_id list option" where
  "sort_nodes_canonical nodes edges candidates =
     (if sorted (map node_key_of nodes) then (nodes, edges, candidates, None)
      else (let ordered = sort_key node_key_of nodes; remap = id_remap ordered in
        (assign_ids ordered, map (remap_edge remap) edges, map (remap_candidate remap) candidates, Some remap)))"

subsection \<open>Modules and enclosing definitions\<close>

definition module_segment :: "file_input \<Rightarrow> string" where
  "module_segment f =
     (case find (\<lambda>d. str_contains (sy_fqn d) ''::'') (ff_defs (fi_facts f)) of
        Some d \<Rightarrow> last_name (the (module_prefix (sy_fqn d)))
      | None \<Rightarrow> hd (split_chars ''.'' (last (split_chars [CHR ''/'', CHR 0x5C] (fi_path f)))))"

definition scope_owner :: "scope_tree \<Rightarrow> scope_id \<Rightarrow> string option" where
  "scope_owner t i = (if i < length (scopes t) then sc_owner_fqn (scopes t ! i) else None)"

text \<open>The first result of a search along a list.\<close>

fun find_map :: "('a \<Rightarrow> 'b option) \<Rightarrow> 'a list \<Rightarrow> 'b option" where
  "find_map f [] = None"
| "find_map f (x # xs) = (case f x of Some y \<Rightarrow> Some y | None \<Rightarrow> find_map f xs)"

definition enclosing_def :: "scope_tree \<Rightarrow> symbol_def list \<Rightarrow> scope_id \<Rightarrow> symbol_def option" where
  "enclosing_def t defs sc =
     find_map (\<lambda>i. Option.bind (scope_owner t i) (\<lambda>owner. find (\<lambda>d. sy_fqn d = owner) defs)) (ancestors t sc)"

definition min_by_fqn :: "symbol_def list \<Rightarrow> symbol_def option" where
  "min_by_fqn ds = (case sort_key sy_fqn ds of [] \<Rightarrow> None | d # _ \<Rightarrow> Some d)"

definition resolve_local :: "scope_tree \<Rightarrow> symbol_def list \<Rightarrow> scope_id \<Rightarrow> string \<Rightarrow> symbol_def option" where
  "resolve_local t defs sc name =
     find_map (\<lambda>i. min_by_fqn (filter (\<lambda>d. sy_scope d = i \<and> last_name (sy_fqn d) = name) defs)) (ancestors t sc)"

text \<open>The nearest scope with a lambda of that name decides; it must define only one.\<close>

definition resolve_pinned_closure :: "scope_tree \<Rightarrow> symbol_def list \<Rightarrow> scope_id \<Rightarrow> string \<Rightarrow> symbol_def option" where
  "resolve_pinned_closure t defs sc name =
     (case find_map (\<lambda>i. case filter (\<lambda>d. sy_scope d = i \<and> sy_kind d = Lambda \<and> last_name (sy_fqn d) = name) defs of
          [] \<Rightarrow> None | hits \<Rightarrow> Some hits) (ancestors t sc) of
        Some [d] \<Rightarrow> Some d
      | _ \<Rightarrow> None)"

subsection \<open>Node ids\<close>

lemma find_map_Some: "find_map f xs = Some y \<Longrightarrow> \<exists>x \<in> set xs. f x = Some y"
  by (induction xs) (auto split: option.splits)

lemma length_assign_ids [simp]: "length (assign_ids ns) = length ns"
  by (simp add: assign_ids_def)

lemma assign_ids_nth: "i < length ns \<Longrightarrow> assign_ids ns ! i = assign_id i (ns ! i)"
  by (simp add: assign_ids_def)

lemma assign_ids_ids: "map (\<lambda>n. n_id (np_node n)) (assign_ids ns) = [0..<length ns]"
  by (rule nth_equalityI) (simp_all add: assign_ids_nth assign_id_def)

lemma assign_ids_keys: "map node_key_of (assign_ids ns) = map node_key_of ns"
  by (rule nth_equalityI) (simp_all add: assign_ids_nth assign_id_def node_key_of_def node_sort_key_def)

lemma fqn_to_node_get:
  "map_of (fqn_to_node ns) fqn = map_of (rev (map (\<lambda>n. (n_fqn (np_node n), n_id (np_node n))) ns)) fqn"
  unfolding fqn_to_node_def using bt.get_build_last [of "\<lambda>n. n_fqn (np_node n)" "\<lambda>n. n_id (np_node n)" ns fqn] by simp

lemma enclosing_def_mem: "enclosing_def t defs sc = Some d \<Longrightarrow> d \<in> set defs"
  by (auto simp: enclosing_def_def dest!: find_map_Some simp: bind_eq_Some_conv find_Some_iff)

lemma resolve_local_mem: "resolve_local t defs sc name = Some d \<Longrightarrow> d \<in> set defs \<and> last_name (sy_fqn d) = name"
proof -
  have "min_by_fqn ds = Some d \<Longrightarrow> d \<in> set ds" for ds
    unfolding min_by_fqn_def by (metis list.case_eq_if list.set_sel(1) option.distinct(1) option.inject set_sort)
  then show "resolve_local t defs sc name = Some d \<Longrightarrow> d \<in> set defs \<and> last_name (sy_fqn d) = name"
    by (fastforce simp: resolve_local_def dest!: find_map_Some)
qed

end
