(* ===== verification/Resolve_Refs.thy ===== *)
theory Resolve_Refs
  imports Resolve_Nodes
begin

text \<open>
  How a reference becomes edges (cgx-resolve/src/link.rs): \<open>resolve_ref\<close> with its steps in order
  (pinned closure, indirect call, lexical scope, receiver, import, same-name methods, name and arity,
  dangling), the candidate sets, and the declared type relations. The edge vector is the list that
  the chunked vector stands for (Resolve_Chunked). Receiver narrowing is an optional argument: the
  two operations of its index that the linker calls, with the ledger they update.
\<close>

subsection \<open>The state of the pass\<close>

record 'l link_state =
  ls_edges :: "edge_with_provenance list"
  ls_candidates :: "candidate list"
  ls_unresolved :: "unresolved_ref list"
  ls_next_group :: nat
  ls_ledger :: 'l

record ref_site =
  rs_file :: file_input
  rs_file_idx :: nat
  rs_raw :: raw_ref
  rs_caller :: symbol_def
  rs_caller_id :: node_id
  rs_local_def :: "symbol_def option"

datatype narrowed =
    NarrowTyped "def_entry list" string bool
  | NarrowExternal
  | NarrowLegacy

record 'l receivers =
  rx_narrow :: "ref_site \<Rightarrow> 'l \<Rightarrow> narrowed \<times> 'l"
  rx_record_legacy :: "ref_site \<Rightarrow> nat \<Rightarrow> 'l \<Rightarrow> 'l"

text \<open>What stays fixed while a file's references are resolved.\<close>

record 'l ref_context =
  rc_file :: file_input
  rc_file_idx :: nat
  rc_bindings :: "import_binding list"
  rc_table :: symbol_table
  rc_opts :: link_opts
  rc_receivers :: "'l receivers option"

subsection \<open>Edges\<close>

fun edge_kind_of :: "ref_kind \<Rightarrow> bool \<Rightarrow> edge_kind" where
  "edge_kind_of RefCall virtual_dispatch = Calls"
| "edge_kind_of RefVirtualReceiver virtual_dispatch = (if virtual_dispatch then CallsVirtual else Calls)"
| "edge_kind_of RefClosure virtual_dispatch = CallsClosure"
| "edge_kind_of RefPinnedClosure virtual_dispatch = CallsClosure"
| "edge_kind_of RefCallback virtual_dispatch = CallsCallback"
| "edge_kind_of RefAsync virtual_dispatch = CallsAsync"
| "edge_kind_of RefSpawn virtual_dispatch = Spawns"
| "edge_kind_of RefReference virtual_dispatch = References"
| "edge_kind_of RefInstantiate virtual_dispatch = Instantiates"

record edge_build =
  eb_src :: node_id
  eb_dst :: node_id
  eb_kind :: edge_kind
  eb_confidence :: confidence
  eb_tier :: tier
  eb_rule :: string
  eb_raw :: raw_ref
  eb_caller_fqn :: string
  eb_span :: span
  eb_candidate_group :: "nat option"

definition built_edge :: "edge_build \<Rightarrow> edge_with_provenance" where
  "built_edge b =
     \<lparr>ep_edge =
        \<lparr>e_id = 0, e_src = eb_src b, e_dst = eb_dst b, e_kind = eb_kind b, e_condition = rr_edge_condition (eb_raw b),
         e_confidence = eb_confidence b, e_tier = eb_tier b, e_rule = eb_rule b,
         e_site_id = (if is_call (eb_kind b) then
             Some (site_id_derive (eb_caller_fqn b) (sp_file (eb_span b)) (of_nat (sp_line (eb_span b)))
               (of_nat (case sp_col (eb_span b) of Some c \<Rightarrow> c | None \<Rightarrow> 0)))
           else None),
         e_stmt_index = Some (rr_stmt_index (eb_raw b)),
         e_cut_markers = fold cut_markers_insert (rr_cut_markers (eb_raw b)) cut_markers_new,
         e_implicit = rr_implicit (eb_raw b), e_candidate_group = eb_candidate_group b, e_established_by = None,
         e_cfg_condition = None, e_macro_origin = None, e_transform = None\<rparr>,
      ep_provenance = provenance_new (eb_span b) (eb_rule b) (eb_tier b) []\<rparr>"

definition push_edge :: "edge_build \<Rightarrow> 'l link_state \<Rightarrow> 'l link_state" where
  "push_edge b st = st\<lparr>ls_edges := ls_edges st @ [built_edge b]\<rparr>"

text \<open>The dynamic rule text is written into the edge that was pushed last.\<close>

definition restamp :: "string \<Rightarrow> edge_with_provenance \<Rightarrow> edge_with_provenance" where
  "restamp rule e =
     e\<lparr>ep_edge := (ep_edge e)\<lparr>e_rule := rule\<rparr>, ep_provenance := (ep_provenance e)\<lparr>pv_rule := rule\<rparr>\<rparr>"

definition stamp_last :: "string \<Rightarrow> 'l link_state \<Rightarrow> 'l link_state" where
  "stamp_last rule st =
     (if ls_edges st = [] then st
      else st\<lparr>ls_edges := butlast (ls_edges st) @ [restamp rule (last (ls_edges st))]\<rparr>)"

definition dangle :: "unresolved_ref \<Rightarrow> 'l link_state \<Rightarrow> 'l link_state" where
  "dangle u st = st\<lparr>ls_unresolved := ls_unresolved st @ [u]\<rparr>"

subsection \<open>Candidate sets\<close>

definition canonicalize_candidate_dsts :: "node_id list \<Rightarrow> node_id list \<times> confidence" where
  "canonicalize_candidate_dsts dsts =
     (let ids = remdups_adj (sort dsts) in (ids, if length ids = 1 then Probable else Possible))"

definition hit_localities :: "string \<Rightarrow> string \<Rightarrow> def_entry list \<Rightarrow> (node_id, locality_tier) btree_map" where
  "hit_localities file caller_fqn hits =
     fold (\<lambda>d. bt_insert (dt_node_id d) (locality_tier_of file caller_fqn (dt_file d) (dt_fqn d))) hits []"

definition locality_at :: "(node_id, locality_tier) btree_map \<Rightarrow> node_id \<Rightarrow> locality_tier" where
  "locality_at m dst = (case map_of m dst of Some l \<Rightarrow> l | None \<Rightarrow> Global)"

definition emit_candidate ::
  "nat option \<Rightarrow> (node_id \<Rightarrow> edge_build) \<Rightarrow> (node_id \<Rightarrow> string option) \<Rightarrow> nat \<times> node_id \<Rightarrow> 'l link_state \<Rightarrow> 'l link_state" where
  "emit_candidate grp build stamp item st =
     (case item of (rank, dst) \<Rightarrow>
        let st = (case grp of
                    Some g \<Rightarrow> st\<lparr>ls_candidates := ls_candidates st @ [\<lparr>cd_candidate_group = g, cd_dst = dst, cd_rank = rank\<rparr>]\<rparr>
                  | None \<Rightarrow> st);
            st = push_edge (build dst) st
        in case stamp dst of Some rule \<Rightarrow> stamp_last rule st | None \<Rightarrow> st)"

definition emit_candidate_set ::
  "def_entry list \<Rightarrow> node_id \<Rightarrow> raw_ref \<Rightarrow> bool \<Rightarrow> string \<Rightarrow> string \<Rightarrow> span \<Rightarrow> 'l link_state \<Rightarrow> 'l link_state" where
  "emit_candidate_set hits caller_id raw virtual_dispatch rule caller_fqn spn st =
     (let (ids, band) = canonicalize_candidate_dsts (map dt_node_id hits);
          by_name = (rule = ''name-arity'');
          locality = (if by_name then hit_localities (sp_file spn) caller_fqn hits else []);
          dsts = (if by_name then sort_key (\<lambda>dst. (locality_at locality dst, dst)) ids else ids);
          grp = (if length dsts > 1 then Some (ls_next_group st) else None);
          st = (if length dsts > 1 then st\<lparr>ls_next_group := ls_next_group st + 1\<rparr> else st);
          tr = (if by_name then NameSyntactic else ScopeGraph);
          conf = (if by_name then min band Possible else band);
          build = (\<lambda>dst. \<lparr>eb_src = caller_id, eb_dst = dst, eb_kind = edge_kind_of (rr_kind raw) virtual_dispatch,
            eb_confidence = conf, eb_tier = tr, eb_rule = rule, eb_raw = raw, eb_caller_fqn = caller_fqn, eb_span = spn,
            eb_candidate_group = grp\<rparr>);
          stamp = (\<lambda>dst. if by_name then Some (''name-arity:loc:'' @ locality_as_str (locality_at locality dst)) else None)
      in fold (emit_candidate grp build stamp) (enumerate 0 dsts) st)"

subsection \<open>Lookups of one reference\<close>

definition lookup_binding :: "import_binding list \<Rightarrow> scope_tree \<Rightarrow> scope_id \<Rightarrow> string \<Rightarrow> import_binding option" where
  "lookup_binding bindings t sc head_name =
     (let visible = ancestors t sc in
      case find (\<lambda>b. \<not> ib_glob b \<and> ib_local b = head_name \<and> ib_scope b \<in> set visible) bindings of
        Some b \<Rightarrow> Some b
      | None \<Rightarrow> find (\<lambda>b. ib_glob b \<and> ib_scope b \<in> set visible) bindings)"

definition exported_for :: "import_binding \<Rightarrow> string \<Rightarrow> string \<Rightarrow> string" where
  "exported_for b head_name last_seg =
     (if ib_glob b then last_seg
      else if ib_local b = head_name \<and> head_name \<noteq> last_seg then last_seg
      else ib_exported b)"

definition method_candidates :: "symbol_table \<Rightarrow> string \<Rightarrow> string \<Rightarrow> def_entry list" where
  "method_candidates t name lang =
     filter (\<lambda>d. dt_lang d = lang) (filter (\<lambda>d. dt_kind d = Method \<or> dt_kind d = Function) (defs_by_short t name))"

definition name_candidates :: "link_opts \<Rightarrow> symbol_table \<Rightarrow> string \<Rightarrow> string \<Rightarrow> nat option \<Rightarrow> def_entry list" where
  "name_candidates opts t name lang arity =
     (let hits = filter (\<lambda>d. is_callable (dt_kind d) \<or> dt_kind d = Type) (filter (\<lambda>d. dt_lang d = lang) (defs_by_short t name))
      in case (if lo_arity_filter opts then arity else None) of
           None \<Rightarrow> hits
         | Some a \<Rightarrow>
             (let fitting = filter (\<lambda>d. dt_arity d = None \<or> dt_arity d = Some a) hits
              in if fitting \<noteq> [] then fitting else hits))"

definition pinned_target :: "'l ref_context \<Rightarrow> raw_ref \<Rightarrow> string \<Rightarrow> node_id option" where
  "pinned_target ctx raw nm =
     (let facts = fi_facts (rc_file ctx) in
      if rr_kind raw = RefPinnedClosure \<and> length (rr_name_path raw) = 1 then
        (case resolve_pinned_closure (ff_scopes facts) (ff_defs facts) (rr_scope raw) nm of
           None \<Rightarrow> None
         | Some local_def \<Rightarrow>
             (case filter (\<lambda>d. dt_fqn d = sy_fqn local_def) (defs_by_short (rc_table ctx) nm) of
                [target] \<Rightarrow> Some (dt_node_id target)
              | _ \<Rightarrow> None))
      else None)"

definition lexical_target :: "'l ref_context \<Rightarrow> raw_ref \<Rightarrow> string \<Rightarrow> node_id option" where
  "lexical_target ctx raw nm =
     (let facts = fi_facts (rc_file ctx) in
      if rr_kind raw \<noteq> RefVirtualReceiver \<and> length (rr_name_path raw) = 1 then
        (case resolve_local (ff_scopes facts) (ff_defs facts) (rr_scope raw) nm of
           None \<Rightarrow> None
         | Some local_def \<Rightarrow> map_option dt_node_id (def_by_fqn (rc_table ctx) (sy_fqn local_def)))
      else None)"

definition indirect_rule :: "nat option \<Rightarrow> string" where
  "indirect_rule arity = ''indirect:'' @ (case arity of Some a \<Rightarrow> show_nat a | None \<Rightarrow> ''?'')"

subsection \<open>Resolving a reference\<close>

definition ref_span :: "'l ref_context \<Rightarrow> raw_ref \<Rightarrow> span" where
  "ref_span ctx raw = span_new (fi_path (rc_file ctx)) (sp_line (rr_span raw)) (sp_col (rr_span raw))"

definition single_edge ::
  "'l ref_context \<Rightarrow> symbol_def \<Rightarrow> node_id \<Rightarrow> raw_ref \<Rightarrow> node_id \<Rightarrow> bool \<Rightarrow> confidence \<Rightarrow> tier \<Rightarrow> string \<Rightarrow> edge_build" where
  "single_edge ctx caller caller_id raw dst virtual_dispatch conf tr rule =
     \<lparr>eb_src = caller_id, eb_dst = dst, eb_kind = edge_kind_of (rr_kind raw) virtual_dispatch, eb_confidence = conf,
      eb_tier = tr, eb_rule = rule, eb_raw = raw, eb_caller_fqn = sy_fqn caller, eb_span = ref_span ctx raw,
      eb_candidate_group = None\<rparr>"

definition dangling_ref :: "'l ref_context \<Rightarrow> symbol_def \<Rightarrow> node_id \<Rightarrow> raw_ref \<Rightarrow> cut_marker \<Rightarrow> unresolved_ref" where
  "dangling_ref ctx caller caller_id raw marker =
     \<lparr>ur_caller_fqn = sy_fqn caller, ur_name_path = rr_name_path raw, ur_span = ref_span ctx raw,
      ur_marker = marker, ur_caller = caller_id\<rparr>"

definition is_virtual :: "raw_ref \<Rightarrow> bool" where
  "is_virtual raw \<longleftrightarrow> rr_kind raw = RefVirtualReceiver"

text \<open>Steps 4 and 5: by name and arity in the same language, else dangling.\<close>

definition resolve_by_name ::
  "'l ref_context \<Rightarrow> symbol_def \<Rightarrow> node_id \<Rightarrow> raw_ref \<Rightarrow> 'l link_state \<Rightarrow> 'l link_state" where
  "resolve_by_name ctx caller caller_id raw st =
     (let hits = (if lo_name_arity_fallback (rc_opts ctx)
            then name_candidates (rc_opts ctx) (rc_table ctx) (last (rr_name_path raw)) (fi_lang (rc_file ctx)) (rr_arity raw)
            else [])
      in if hits \<noteq> [] then
           emit_candidate_set hits caller_id raw (is_virtual raw) ''name-arity'' (sy_fqn caller) (ref_span ctx raw) st
         else dangle (dangling_ref ctx caller caller_id raw Unresolved) st)"

text \<open>Step 3: every method or function of that name in the language.\<close>

definition resolve_virtual ::
  "'l ref_context \<Rightarrow> symbol_def \<Rightarrow> node_id \<Rightarrow> raw_ref \<Rightarrow> ('l receivers \<times> ref_site) option \<Rightarrow> 'l link_state \<Rightarrow> 'l link_state" where
  "resolve_virtual ctx caller caller_id raw recv_site st =
     (if is_virtual raw then
        (let hits = method_candidates (rc_table ctx) (last (rr_name_path raw)) (fi_lang (rc_file ctx));
             st = (case recv_site of
                     Some (rx, site) \<Rightarrow> st\<lparr>ls_ledger := rx_record_legacy rx site (length hits) (ls_ledger st)\<rparr>
                   | None \<Rightarrow> st)
         in if hits \<noteq> [] then
              emit_candidate_set hits caller_id raw True ''name-method'' (sy_fqn caller) (ref_span ctx raw) st
            else resolve_by_name ctx caller caller_id raw st)
      else resolve_by_name ctx caller caller_id raw st)"

text \<open>Step 2: through the import binding of the first segment.\<close>

definition resolve_import ::
  "'l ref_context \<Rightarrow> symbol_def \<Rightarrow> node_id \<Rightarrow> raw_ref \<Rightarrow> ('l receivers \<times> ref_site) option \<Rightarrow> 'l link_state \<Rightarrow> 'l link_state" where
  "resolve_import ctx caller caller_id raw recv_site st =
     (let head_name = hd (rr_name_path raw); nm = last (rr_name_path raw) in
      case lookup_binding (rc_bindings ctx) (ff_scopes (fi_facts (rc_file ctx))) (rr_scope raw) head_name of
        None \<Rightarrow> resolve_virtual ctx caller caller_id raw recv_site st
      | Some binding \<Rightarrow>
          (case resolve_member (rc_table ctx) (ib_specifier binding) (exported_for binding head_name nm) of
             OutUnique d \<Rightarrow>
               push_edge (single_edge ctx caller caller_id raw (dt_node_id d) (is_virtual raw) Probable ScopeGraph ''import-ref'') st
           | OutAmbiguous hits \<Rightarrow>
               emit_candidate_set hits caller_id raw (is_virtual raw) ''import-ref'' (sy_fqn caller) (ref_span ctx raw) st
           | OutNone \<Rightarrow> resolve_virtual ctx caller caller_id raw recv_site st))"

text \<open>Step 1b: what kind of value the receiver is, when narrowing is on.\<close>

definition resolve_receiver ::
  "'l ref_context \<Rightarrow> symbol_def \<Rightarrow> node_id \<Rightarrow> raw_ref \<Rightarrow> 'l link_state \<Rightarrow> 'l link_state" where
  "resolve_receiver ctx caller caller_id raw st =
     (let facts = fi_facts (rc_file ctx);
          site = \<lparr>rs_file = rc_file ctx, rs_file_idx = rc_file_idx ctx, rs_raw = raw, rs_caller = caller,
            rs_caller_id = caller_id,
            rs_local_def = resolve_local (ff_scopes facts) (ff_defs facts) (rr_scope raw) (hd (rr_name_path raw))\<rparr>
      in case (if is_virtual raw then rc_receivers ctx else None) of
           None \<Rightarrow> resolve_import ctx caller caller_id raw None st
         | Some rx \<Rightarrow>
             (case rx_narrow rx site (ls_ledger st) of (outcome, ledger) \<Rightarrow>
                let st = st\<lparr>ls_ledger := ledger\<rparr> in
                case outcome of
                  NarrowTyped hits rule virtual_dispatch \<Rightarrow>
                    emit_candidate_set hits caller_id raw virtual_dispatch rule (sy_fqn caller) (ref_span ctx raw) st
                | NarrowExternal \<Rightarrow> dangle (dangling_ref ctx caller caller_id raw External) st
                | NarrowLegacy \<Rightarrow> resolve_import ctx caller caller_id raw (Some (rx, site)) st))"

definition resolve_ref :: "'l ref_context \<Rightarrow> symbol_def \<Rightarrow> node_id \<Rightarrow> raw_ref \<Rightarrow> 'l link_state \<Rightarrow> 'l link_state" where
  "resolve_ref ctx caller caller_id raw st =
     (if rr_name_path raw = [] then st
      else let nm = last (rr_name_path raw) in
      case pinned_target ctx raw nm of
        Some dst \<Rightarrow> push_edge (single_edge ctx caller caller_id raw dst False Certain ScopeGraph ''scope-ref'') st
      | None \<Rightarrow>
          if rr_kind raw = RefClosure \<or> rr_kind raw = RefPinnedClosure \<or> rr_kind raw = RefCallback then
            stamp_last (indirect_rule (rr_arity raw))
              (push_edge (single_edge ctx caller caller_id raw caller_id False Possible NameSyntactic ''indirect'') st)
          else (case lexical_target ctx raw nm of
                  Some dst \<Rightarrow> push_edge (single_edge ctx caller caller_id raw dst False Certain ScopeGraph ''scope-ref'') st
                | None \<Rightarrow> resolve_receiver ctx caller caller_id raw st))"

subsection \<open>The passes over the files\<close>

definition resolve_file_ref ::
  "'l ref_context \<Rightarrow> (string, node_id) btree_map \<Rightarrow> raw_ref \<Rightarrow> 'l link_state \<Rightarrow> 'l link_state" where
  "resolve_file_ref ctx def_to_node raw st =
     (let facts = fi_facts (rc_file ctx) in
      case enclosing_def (ff_scopes facts) (ff_defs facts) (rr_scope raw) of
        None \<Rightarrow> st
      | Some caller \<Rightarrow>
          (case map_of def_to_node (sy_fqn caller) of
             None \<Rightarrow> st
           | Some caller_id \<Rightarrow> resolve_ref ctx caller caller_id raw st))"

definition file_context :: "symbol_table \<Rightarrow> link_opts \<Rightarrow> 'l receivers option \<Rightarrow> nat \<Rightarrow> file_input \<Rightarrow> 'l ref_context" where
  "file_context table opts rx i f =
     \<lparr>rc_file = f, rc_file_idx = i, rc_bindings = collect_import_bindings (ff_imports (fi_facts f)), rc_table = table,
      rc_opts = opts, rc_receivers = rx\<rparr>"

definition resolve_file ::
  "symbol_table \<Rightarrow> link_opts \<Rightarrow> 'l receivers option \<Rightarrow> (string, node_id) btree_map \<Rightarrow> nat \<times> file_input \<Rightarrow> 'l link_state \<Rightarrow> 'l link_state" where
  "resolve_file table opts rx def_to_node item st =
     (case item of (i, f) \<Rightarrow>
        fold (resolve_file_ref (file_context table opts rx i f) def_to_node) (ff_refs (fi_facts f)) st)"

end
