(* ===== verification/Resolve_Canonical.thy ===== *)
theory Resolve_Canonical
  imports Resolve_Refs
begin

text \<open>
  The end of the link pass (cgx-resolve/src/link.rs): the declared type relations, the counters of
  dangling references that \<open>finalize\<close> writes on the nodes, and \<open>canonicalize\<close>, the canonical order
  of edges, candidate groups and candidate rows. \<open>HashMap\<close>s that are only looked up are association
  lists.
\<close>

subsection \<open>Declared relations\<close>

definition singleton_id :: "def_entry list \<Rightarrow> node_id option" where
  "singleton_id ds = (case ds of [d] \<Rightarrow> Some (dt_node_id d) | _ \<Rightarrow> None)"

definition resolve_type_node :: "symbol_table \<Rightarrow> string list \<Rightarrow> node_id option" where
  "resolve_type_node t path =
     (case filter (\<lambda>d. dt_kind d = Type) (case def_by_fqn t (str_join ''::'' path) of Some d \<Rightarrow> [d] | None \<Rightarrow> []) of
        d # _ \<Rightarrow> Some (dt_node_id d)
      | [] \<Rightarrow>
          (if path = [] then None
           else singleton_id (filter (\<lambda>d. dt_kind d = Type) (defs_by_short t (last path)))))"

definition is_method_kind :: "symbol_kind \<Rightarrow> bool" where
  "is_method_kind k \<longleftrightarrow> k = Method \<or> k = Function"

definition resolve_trait_method :: "symbol_table \<Rightarrow> string list \<Rightarrow> node_id option" where
  "resolve_trait_method t path =
     (if length path < 2 then None
      else let trait_name = path ! (length path - 2); meth = last path;
               exact = trait_name @ ''::'' @ meth; suffix = ''::'' @ trait_name @ ''::'' @ meth
      in case filter (\<lambda>d. is_method_kind (dt_kind d)) (case def_by_fqn t exact of Some d \<Rightarrow> [d] | None \<Rightarrow> []) of
           d # _ \<Rightarrow> Some (dt_node_id d)
         | [] \<Rightarrow> singleton_id (filter (\<lambda>d. is_method_kind (dt_kind d) \<and> str_ends_with (dt_fqn d) suffix) (defs_by_short t meth)))"

definition structural_rule :: "edge_kind \<Rightarrow> string" where
  "structural_rule k =
     (if k = Inherits then ''supertrait'' else if k = Overrides then ''trait-override'' else ''impl-relation'')"

definition structural_edge :: "node_id \<Rightarrow> node_id \<Rightarrow> edge_kind \<Rightarrow> span \<Rightarrow> edge_with_provenance" where
  "structural_edge src dst k spn =
     \<lparr>ep_edge =
        \<lparr>e_id = 0, e_src = src, e_dst = dst, e_kind = k, e_condition = Always, e_confidence = Certain, e_tier = ScopeGraph,
         e_rule = structural_rule k, e_site_id = None, e_stmt_index = None, e_cut_markers = cut_markers_new,
         e_implicit = None, e_candidate_group = None, e_established_by = None, e_cfg_condition = None,
         e_macro_origin = None, e_transform = None\<rparr>,
      ep_provenance = provenance_new spn (structural_rule k) ScopeGraph []\<rparr>"

definition relation_ends ::
  "impl_relation \<Rightarrow> (string, node_id) btree_map \<Rightarrow> symbol_table \<Rightarrow> (node_id \<times> node_id \<times> edge_kind) option" where
  "relation_ends rel def_to_node t =
     (case il_kind rel of
        RelOverrides \<Rightarrow>
          Option.bind (map_of def_to_node (str_join ''::'' (il_subject rel))) (\<lambda>src.
          Option.bind (resolve_trait_method t (il_object rel)) (\<lambda>dst.
            if src = dst then None else Some (src, dst, Overrides)))
      | k \<Rightarrow>
          Option.bind (resolve_type_node t (il_subject rel)) (\<lambda>src.
          Option.bind (resolve_type_node t (il_object rel)) (\<lambda>dst.
            Some (src, dst, if k = RelImplements then Implements else Inherits))))"

definition resolve_impl_relation ::
  "file_input \<Rightarrow> (string, node_id) btree_map \<Rightarrow> symbol_table \<Rightarrow> impl_relation \<Rightarrow> edge_with_provenance list \<Rightarrow> edge_with_provenance list" where
  "resolve_impl_relation f def_to_node t rel edges =
     (case relation_ends rel def_to_node t of
        None \<Rightarrow> edges
      | Some (src, dst, k) \<Rightarrow>
          edges @ [structural_edge src dst k (span_new (fi_path f) (sp_line (il_span rel)) (sp_col (il_span rel)))])"

subsection \<open>Canonical order\<close>

definition link_edge_key :: "edge_with_provenance \<Rightarrow> nat \<times> nat \<times> nat \<times> nat \<times> nat" where
  "link_edge_key e =
     (e_src (ep_edge e), e_dst (ep_edge e), edge_kind_disc (e_kind (ep_edge e)),
      case e_stmt_index (ep_edge e) of Some i \<Rightarrow> i | None \<Rightarrow> u32_max,
      case e_candidate_group (ep_edge e) of Some g \<Rightarrow> g | None \<Rightarrow> u32_max)"

definition sort_link_edges :: "edge_with_provenance list \<Rightarrow> edge_with_provenance list" where
  "sort_link_edges es = sort_key link_edge_key es"

text \<open>The new number of a group, and the numbering extended by it when it is new.\<close>

definition renumber_group :: "nat \<Rightarrow> (nat \<times> nat) list \<Rightarrow> nat \<times> (nat \<times> nat) list" where
  "renumber_group g m =
     (case map_of m g of Some new \<Rightarrow> (new, m) | None \<Rightarrow> (length m, (g, length m) # m))"

definition set_group :: "nat \<Rightarrow> edge_with_provenance \<Rightarrow> edge_with_provenance" where
  "set_group g e = e\<lparr>ep_edge := (ep_edge e)\<lparr>e_candidate_group := Some g\<rparr>\<rparr>"

fun renumber_edges ::
  "edge_with_provenance list \<Rightarrow> (nat \<times> nat) list \<Rightarrow> bool \<Rightarrow> edge_with_provenance list \<times> (nat \<times> nat) list \<times> bool" where
  "renumber_edges [] m same = ([], m, same)"
| "renumber_edges (e # es) m same =
     (case e_candidate_group (ep_edge e) of
        None \<Rightarrow> (case renumber_edges es m same of (es', m', same') \<Rightarrow> (e # es', m', same'))
      | Some g \<Rightarrow>
          (case renumber_group g m of (new, m1) \<Rightarrow>
             (case renumber_edges es m1 (same \<and> new = g) of (es', m', same') \<Rightarrow> (set_group new e # es', m', same'))))"

fun renumber_rest :: "nat list \<Rightarrow> (nat \<times> nat) list \<Rightarrow> bool \<Rightarrow> (nat \<times> nat) list \<times> bool" where
  "renumber_rest [] m same = (m, same)"
| "renumber_rest (g # gs) m same = renumber_rest gs ((g, length m) # m) (same \<and> length m = g)"

definition assign_edge_ids :: "edge_with_provenance list \<Rightarrow> edge_with_provenance list" where
  "assign_edge_ids es = map2 (\<lambda>i e. e\<lparr>ep_edge := (ep_edge e)\<lparr>e_id := i\<rparr>\<rparr>) [0..<length es] es"

definition candidate_key :: "candidate \<Rightarrow> nat \<times> nat \<times> nat" where
  "candidate_key c = (cd_candidate_group c, cd_rank c, cd_dst c)"

definition canonicalize_parts ::
  "edge_with_provenance list \<Rightarrow> candidate list \<Rightarrow> edge_with_provenance list \<times> candidate list" where
  "canonicalize_parts edges candidates =
     (case renumber_edges (sort_link_edges edges) [] True of (es, m, same) \<Rightarrow>
       (let edgeless = remdups_adj (sort (filter (\<lambda>g. map_of m g = None) (map cd_candidate_group candidates))) in
        case renumber_rest edgeless m same of (m, same) \<Rightarrow>
          (let cs = (if same then candidates
                 else map (\<lambda>c. c\<lparr>cd_candidate_group := the (map_of m (cd_candidate_group c))\<rparr>) candidates);
               es = (if same then es else sort_link_edges es)
           in (assign_edge_ids es, sort_key candidate_key cs))))"

definition canonicalize :: "resolved_graph \<Rightarrow> resolved_graph" where
  "canonicalize g =
     (case canonicalize_parts (cv_iter (rg_edges g)) (rg_candidates g) of (es, cs) \<Rightarrow>
        g\<lparr>rg_edges := cv_from_iter es, rg_candidates := cs\<rparr>)"

text \<open>The edges at the given positions are dropped, the rest keep their order.\<close>

definition remove_edges_at :: "edge_with_provenance list \<Rightarrow> nat list \<Rightarrow> edge_with_provenance list" where
  "remove_edges_at es positions = map snd (filter (\<lambda>(i, e). i \<notin> set positions) (enumerate 0 es))"

subsection \<open>Dangling references\<close>

type_synonym dangling = "nat \<times> nat \<times> nat"

definition count_dangling :: "unresolved_ref list \<Rightarrow> (node_id, dangling) btree_map" where
  "count_dangling us =
     fold (\<lambda>r m. let (u, e, t) = (case map_of m (ur_caller r) of Some d \<Rightarrow> d | None \<Rightarrow> (0, 0, 0)) in
         bt_insert (ur_caller r)
           (case ur_marker r of External \<Rightarrow> (u, e + 1, t) | UntypedReceiver \<Rightarrow> (u, e, t + 1) | _ \<Rightarrow> (u + 1, e, t)) m) us []"

definition stamp_counts ::
  "(node_id, dangling) btree_map \<Rightarrow> (node_id, narrowing_counts) btree_map \<Rightarrow> node_record \<Rightarrow> node_record" where
  "stamp_counts dangling narrow n =
     (let d = map_of dangling (n_id n);
          n = (case d of Some (u, e, t) \<Rightarrow> n\<lparr>n_unresolved_calls := u, n_external_calls := e\<rparr> | None \<Rightarrow> n);
          n = (case map_of narrow (n_id n) of Some counts \<Rightarrow> n\<lparr>n_narrowing := counts\<rparr> | None \<Rightarrow> n)
      in n\<lparr>n_narrowing := (n_narrowing n)\<lparr>nc_visible_dropped_out := (case d of Some (u, e, t) \<Rightarrow> t | None \<Rightarrow> 0)\<rparr>\<rparr>)"

definition unresolved_key :: "unresolved_ref \<Rightarrow> string \<times> string list \<times> (string \<times> nat \<times> nat option) \<times> cut_marker \<times> nat" where
  "unresolved_key u =
     (ur_caller_fqn u, ur_name_path u, (sp_file (ur_span u), sp_line (ur_span u), sp_col (ur_span u)), ur_marker u, ur_caller u)"

definition dataflow_output_empty :: dataflow_output where
  "dataflow_output_empty =
     \<lparr>do_fn_intraproc_cache = [], do_summary_deps = [], do_changed_fns = [],
      do_stats = \<lparr>df_functions_recomputed = 0, df_functions_reused = 0\<rparr>, do_fn_summaries = [],
      do_ifds_stats = \<lparr>ifd_summaries_computed = 0, ifd_summary_edges_materialized = 0, ifd_budget_exceeded_sccs = 0\<rparr>\<rparr>"

definition cat_zero :: cat_stats where
  "cat_zero =
     \<lparr>ct_sites = 0, ct_edges_before = 0, ct_edges_after = 0, ct_dangling = 0, ct_dangling_edges_before = 0,
      ct_fallback = 0, ct_fallback_edges = 0\<rparr>"

definition precision_zero :: precision_stats where
  "precision_zero =
     \<lparr>ps_self_cone = cat_zero, ps_class_head = cat_zero, ps_super_call = cat_zero, ps_literal = cat_zero,
      ps_external_module = cat_zero, ps_typed_local = cat_zero, ps_ctor_call = cat_zero, ps_self_field = cat_zero,
      ps_go_vta = cat_zero, ps_unknown_base = cat_zero, ps_legacy_local = cat_zero, ps_legacy_self_chain = cat_zero,
      ps_legacy_chain = cat_zero, ps_legacy_anon = cat_zero, ps_open_nonclass_bases = 0, ps_unknown_bases = 0,
      ps_fqn_collisions = 0, ps_spec_ambiguous = 0, ps_spec_shadowed = 0, ps_floating_classes = 0\<rparr>"

definition finalize ::
  "node_with_provenance list \<Rightarrow> edge_with_provenance list \<Rightarrow> candidate list \<Rightarrow> unresolved_ref list \<Rightarrow>
   (node_id, narrowing_counts) btree_map \<Rightarrow> resolved_graph" where
  "finalize nodes edges candidates unresolved narrow =
     (let unresolved = sort_key unresolved_key unresolved;
          dangling = count_dangling unresolved;
          nodes = (if dangling \<noteq> [] \<or> narrow \<noteq> [] then
              map (\<lambda>n. n\<lparr>np_node := stamp_counts dangling narrow (np_node n)\<rparr>) nodes else nodes)
      in canonicalize
           \<lparr>rg_nodes = nodes, rg_edges = cv_from_iter edges, rg_candidates = candidates, rg_unresolved = unresolved,
            rg_dataflow = dataflow_output_empty, rg_precision = precision_zero\<rparr>)"

end
