(* ===== verification/Resolve_Ifds.thy ===== *)
theory Resolve_Ifds
  imports Resolve_Scc Resolve_Graph
begin

text \<open>
  The interprocedural data-flow summaries (cgx-resolve/src/ifds.rs). A function's summary says which
  formal parameters its return values derive from. Components of the call graph are iterated in
  reverse topological order until nothing changes, under a work budget, and each call site then
  gets the edges that the callee's summary implies. Counters are natural numbers.
\<close>

subsection \<open>Inputs and outputs\<close>

definition default_max_summary_edges :: nat where
  "default_max_summary_edges = 2000000"

record intra_edge =
  ie_derived_fqn :: string
  ie_source_fqn :: string
  ie_transform :: transform
  ie_condition :: edge_condition

record ifds_call =
  ic_result_fqn :: string
  ic_callee_fqn :: "string option"
  ic_args :: "string option list"
  ic_condition :: edge_condition
  ic_span :: span

record fn_dataflow =
  fd_intra :: "intra_edge list"
  fd_returns :: "string btree_set"
  fd_formal_ins :: "string list"
  fd_calls :: "ifds_call list"

definition fn_dataflow_empty :: fn_dataflow where
  "fn_dataflow_empty = \<lparr>fd_intra = [], fd_returns = [], fd_formal_ins = [], fd_calls = []\<rparr>"

type_synonym summaries = "(string, summary_fact list) btree_map"

record ifds_output =
  io_edges :: "edge_with_provenance list"
  io_summaries :: summaries
  io_stats :: ifds_dataflow_stats

subsection \<open>One function's summary\<close>

type_synonym hop_label = "transform \<times> edge_condition"

text \<open>The argument at a position, when it names a binding.\<close>

definition call_arg_at :: "ifds_call \<Rightarrow> nat \<Rightarrow> string option" where
  "call_arg_at cs i = (if i < length (ic_args cs) then ic_args cs ! i else None)"

text \<open>The facts of the callee that lead to its return.\<close>

definition return_facts :: "summaries \<Rightarrow> ifds_call \<Rightarrow> summary_fact list" where
  "return_facts m cs =
     (case ic_callee_fqn cs of
        None \<Rightarrow> []
      | Some callee \<Rightarrow> filter (\<lambda>f. sf_formal_out f = Return) (bt_items m callee))"

definition call_hops :: "summaries \<Rightarrow> ifds_call \<Rightarrow> (string \<times> string \<times> hop_label) list" where
  "call_hops m cs =
     List.map_filter (\<lambda>f. map_option (\<lambda>arg. (ic_result_fqn cs, arg, sf_transform f, join_condition (sf_condition f) (ic_condition cs)))
         (call_arg_at cs (unat (sf_formal_in_idx f)))) (return_facts m cs)"

definition back_hops :: "fn_dataflow \<Rightarrow> summaries \<Rightarrow> (string \<times> string \<times> hop_label) list" where
  "back_hops fd m =
     map (\<lambda>e. (ie_derived_fqn e, ie_source_fqn e, ie_transform e, ie_condition e)) (fd_intra fd) @
     concat (map (call_hops m) (fd_calls fd))"

definition back_map :: "(string \<times> string \<times> hop_label) list \<Rightarrow> (string, (string \<times> hop_label) list) btree_map" where
  "back_map hops = fold (\<lambda>(d, hop). bt_push d hop) hops []"

definition formal_index :: "fn_dataflow \<Rightarrow> (string, u8) btree_map" where
  "formal_index fd = fold (\<lambda>(i, f). bt_insert f (of_nat (min i 255))) (enumerate 0 (fd_formal_ins fd)) []"

type_synonym fact_map = "(u8, hop_label) btree_map"

definition join_label :: "hop_label \<Rightarrow> hop_label \<Rightarrow> hop_label" where
  "join_label a b = (join_transform (fst a) (fst b), join_condition (snd a) (snd b))"

text \<open>Reaching a formal records the labels of the path, joined with what is known of that formal.\<close>

definition record_fact :: "(string, u8) btree_map \<Rightarrow> string \<Rightarrow> hop_label \<Rightarrow> fact_map \<Rightarrow> fact_map" where
  "record_fact formal node label facts =
     (case map_of formal node of
        None \<Rightarrow> facts
      | Some i \<Rightarrow> bt_insert i (join_label (case map_of facts i of Some l \<Rightarrow> l | None \<Rightarrow> label) label) facts)"

definition back_universe :: "(string, (string \<times> hop_label) list) btree_map \<Rightarrow> string set" where
  "back_universe bm = fst ` set (concat (map snd bm))"

text \<open>The search from a return value: the stack's last entry is visited next.\<close>

function back_loop ::
  "(string, (string \<times> hop_label) list) btree_map \<Rightarrow> (string, u8) btree_map \<Rightarrow> (string \<times> hop_label) list \<Rightarrow>
   string btree_set \<Rightarrow> fact_map \<Rightarrow> fact_map" where
  "back_loop bm formal [] seen facts = facts"
| "back_loop bm formal ((node, label) # stack) seen facts =
     (if node \<in> set seen then back_loop bm formal stack seen facts
      else back_loop bm formal
        (rev (map (\<lambda>(src, hop). (src, join_label label hop)) (bt_items bm node)) @ stack)
        (bs_insert node seen) (record_fact formal node label facts))"
  by pat_completeness auto

definition compute_summary :: "fn_dataflow \<Rightarrow> summaries \<Rightarrow> summary_fact list" where
  "compute_summary fd m =
     (let bm = back_map (back_hops fd m); formal = formal_index fd;
          facts = fold (\<lambda>ret. back_loop bm formal [(ret, Copy, Always)] []) (fd_returns fd) []
      in map (\<lambda>(i, tr, cond). \<lparr>sf_formal_in_idx = i, sf_formal_out = Return, sf_transform = tr, sf_condition = cond\<rparr>) facts)"

lemma items_in_universe: "(src, hop) \<in> set (bt_items bm node) \<Longrightarrow> src \<in> back_universe bm"
proof -
  assume h: "(src, hop) \<in> set (bt_items bm node)"
  then obtain hops where "map_of bm node = Some hops" "(src, hop) \<in> set hops"
    by (cases "map_of bm node") (simp_all add: bt_items_def)
  then have "hops \<in> snd ` set bm" "src \<in> fst ` set hops" by (auto dest: map_of_SomeD intro: rev_image_eqI)
  then show "src \<in> back_universe bm" by (auto simp: back_universe_def)
qed

termination back_loop
proof (relation "inv_image (less_than <*lex*> less_than)
    (\<lambda>(bm, formal, stack, seen, facts).
      (card ((fst ` set stack \<union> back_universe bm) - set seen), length stack))")
  fix bm :: "(string, (string \<times> hop_label) list) btree_map"
    and formal :: "(string, u8) btree_map"
    and node :: string
    and label :: hop_label
    and stack :: "(string \<times> hop_label) list"
    and seen :: "string list"
    and facts :: fact_map
  assume new: "node \<notin> set seen"
  let ?pushed = "rev (map (\<lambda>(src, hop). (src, join_label label hop)) (bt_items bm node)) @ stack"
  have "fst ` set ?pushed = fst ` set (bt_items bm node) \<union> fst ` set stack"
    by (simp add: image_Un image_image case_prod_unfold)
  moreover have "fst ` set (bt_items bm node) \<subseteq> back_universe bm" using items_in_universe by auto
  ultimately have sub: "fst ` set ?pushed \<subseteq> fst ` set stack \<union> back_universe bm" by blast
  have "(fst ` set ?pushed \<union> back_universe bm) - set (bs_insert node seen)
      \<subset> (fst ` set ((node, label) # stack) \<union> back_universe bm) - set seen"
  proof (rule psubsetI)
    show "(fst ` set ?pushed \<union> back_universe bm) - set (bs_insert node seen)
        \<subseteq> (fst ` set ((node, label) # stack) \<union> back_universe bm) - set seen"
      unfolding set_bs_insert list.set image_insert fst_conv using sub by blast
    have "node \<in> (fst ` set ((node, label) # stack) \<union> back_universe bm) - set seen"
      "node \<notin> (fst ` set ?pushed \<union> back_universe bm) - set (bs_insert node seen)"
      using new unfolding set_bs_insert by simp_all
    then show "(fst ` set ?pushed \<union> back_universe bm) - set (bs_insert node seen)
        \<noteq> (fst ` set ((node, label) # stack) \<union> back_universe bm) - set seen" by metis
  qed
  moreover have "finite ((fst ` set ((node, label) # stack) \<union> back_universe bm) - set seen)"
    by (auto simp: back_universe_def)
  ultimately have "card ((fst ` set ?pushed \<union> back_universe bm) - set (bs_insert node seen))
      < card ((fst ` set ((node, label) # stack) \<union> back_universe bm) - set seen)"
    by (rule psubset_card_mono [rotated])
  then show "((bm, formal, ?pushed, bs_insert node seen, record_fact formal node label facts),
      (bm, formal, (node, label) # stack, seen, facts))
      \<in> inv_image (less_than <*lex*> less_than) (\<lambda>(bm, formal, stack, seen, facts).
        (card ((fst ` set stack \<union> back_universe bm) - set seen), length stack))" by simp
next
  fix bm :: "(string, (string \<times> hop_label) list) btree_map"
    and formal :: "(string, u8) btree_map"
    and node :: string
    and label :: hop_label
    and stack :: "(string \<times> hop_label) list"
    and seen :: "string list"
    and facts :: fact_map
  assume "node \<in> set seen"
  then have "(fst ` set ((node, label) # stack) \<union> back_universe bm) - set seen =
      (fst ` set stack \<union> back_universe bm) - set seen" by auto
  then show "((bm, formal, stack, seen, facts), (bm, formal, (node, label) # stack, seen, facts))
      \<in> inv_image (less_than <*lex*> less_than) (\<lambda>(bm, formal, stack, seen, facts).
        (card ((fst ` set stack \<union> back_universe bm) - set seen), length stack))" by simp
qed (rule wf_inv_image, rule wf_lex_prod, rule wf_less_than, rule wf_less_than)

declare back_loop.simps [simp del]

subsection \<open>The worklist over the components\<close>

type_synonym fn_table = "(string, fn_dataflow) btree_map"

definition ifds_succ :: "fn_table \<Rightarrow> (string, string btree_set) btree_map" where
  "ifds_succ fns =
     fold (\<lambda>(caller, fd). fold (\<lambda>cs m. case ic_callee_fqn cs of
         Some callee \<Rightarrow> if callee \<in> set (map fst fns) then bt_add caller callee m else m
       | None \<Rightarrow> m) (fd_calls fd)) fns []"

record ifds_state =
  is_summaries :: summaries
  is_scc_applied :: nat
  is_global_applied :: nat
  is_scc_exhausted :: bool
  is_global_exhausted :: bool
  is_changed :: bool

text \<open>One member is recomputed; the work it costs may exhaust a cap.\<close>

definition ifds_member :: "fn_table \<Rightarrow> nat \<Rightarrow> nat \<Rightarrow> string \<Rightarrow> ifds_state \<Rightarrow> ifds_state" where
  "ifds_member fns cap budget fn st =
     (case map_of fns fn of
        None \<Rightarrow> st
      | Some fd \<Rightarrow>
          (let new_summary = compute_summary fd (is_summaries st);
               st = (if map_of (is_summaries st) fn \<noteq> Some new_summary
                  then st\<lparr>is_summaries := bt_insert fn new_summary (is_summaries st), is_changed := True\<rparr> else st);
               st = st\<lparr>is_scc_applied := is_scc_applied st + 1, is_global_applied := is_global_applied st + 1\<rparr>
           in if is_scc_applied st > cap \<or> is_global_applied st > budget
              then st\<lparr>is_scc_exhausted := True, is_global_exhausted := is_global_applied st > budget\<rparr> else st))"

fun ifds_round :: "fn_table \<Rightarrow> nat \<Rightarrow> nat \<Rightarrow> string list \<Rightarrow> ifds_state \<Rightarrow> ifds_state" where
  "ifds_round fns cap budget [] st = st"
| "ifds_round fns cap budget (fn # fn_list) st =
     (let st = ifds_member fns cap budget fn st
      in if is_scc_exhausted st then st else ifds_round fns cap budget fn_list st)"

definition charged :: "nat \<Rightarrow> ifds_state \<Rightarrow> ifds_state \<Rightarrow> bool" where
  "charged cap st st' \<longleftrightarrow>
     is_scc_exhausted st' \<or>
     (is_scc_applied st \<le> is_scc_applied st' \<and> (is_changed st \<longrightarrow> is_changed st') \<and>
      (is_scc_applied st \<noteq> is_scc_applied st' \<longrightarrow> is_scc_applied st' \<le> cap) \<and>
      (is_scc_applied st = is_scc_applied st' \<longrightarrow> is_changed st = is_changed st'))"

lemma member_charge: "charged cap st (ifds_member fns cap budget fn st)"
  by (auto simp: charged_def ifds_member_def Let_def split: option.splits)

lemma round_charge: "charged cap st (ifds_round fns cap budget fn_list st)"
proof (induction fns cap budget fn_list st rule: ifds_round.induct)
  case (2 fns cap budget fn fn_list st)
  let ?mid = "ifds_member fns cap budget fn st"
  show ?case
  proof (cases "is_scc_exhausted ?mid")
    case False
    from 2 [OF refl False] member_charge [of cap st fns budget fn] show ?thesis
      using False by (auto simp: charged_def Let_def)
  qed (simp add: charged_def Let_def)
qed (simp add: charged_def)

text \<open>A component is iterated until a round changes nothing or a cap is exceeded.\<close>

function ifds_component :: "fn_table \<Rightarrow> nat \<Rightarrow> nat \<Rightarrow> string list \<Rightarrow> ifds_state \<Rightarrow> ifds_state" where
  "ifds_component fns cap budget fn_list st =
     (let st' = ifds_round fns cap budget fn_list (st\<lparr>is_changed := False\<rparr>)
      in if \<not> is_changed st' \<or> is_scc_exhausted st' \<or> is_scc_exhausted st then st'
         else ifds_component fns cap budget fn_list st')"
  by auto
termination
proof (relation "measure (\<lambda>(fns, cap, budget, fn_list, st). Suc cap - is_scc_applied st)")
  fix fns cap budget fn_list st st'
  assume "st' = ifds_round fns cap budget fn_list (st\<lparr>is_changed := False\<rparr>)"
    and "\<not> (\<not> is_changed st' \<or> is_scc_exhausted st' \<or> is_scc_exhausted st)"
  then have "is_scc_applied st < is_scc_applied st' \<and> is_scc_applied st' \<le> cap"
    using round_charge [of cap "st\<lparr>is_changed := False\<rparr>" fns budget fn_list] by (auto simp: charged_def)
  then show "((fns, cap, budget, fn_list, st'), fns, cap, budget, fn_list, st)
      \<in> measure (\<lambda>(fns, cap, budget, fn_list, st). Suc cap - is_scc_applied st)" by auto
qed simp

declare ifds_component.simps [simp del]

text \<open>Components in order, until the whole budget is used up.\<close>

fun ifds_components :: "fn_table \<Rightarrow> nat \<Rightarrow> string list list \<Rightarrow> summaries \<Rightarrow> nat \<Rightarrow> nat \<Rightarrow> summaries \<times> nat \<times> bool" where
  "ifds_components fns budget [] m applied exceeded = (m, exceeded, False)"
| "ifds_components fns budget (component # rest) m applied exceeded =
     (let st = ifds_component fns (max (budget div 10) 1) budget component
            \<lparr>is_summaries = m, is_scc_applied = 0, is_global_applied = applied, is_scc_exhausted = False,
             is_global_exhausted = False, is_changed = False\<rparr>;
          exceeded = (if is_scc_exhausted st then exceeded + 1 else exceeded)
      in if is_global_exhausted st then (is_summaries st, exceeded, True)
         else ifds_components fns budget rest (is_summaries st) (is_global_applied st) exceeded)"

subsection \<open>Applying the summaries\<close>

definition interproc_edge ::
  "node_id \<Rightarrow> node_id \<Rightarrow> transform \<Rightarrow> edge_condition \<Rightarrow> cut_markers \<Rightarrow> span \<Rightarrow> edge_with_provenance" where
  "interproc_edge result source tr cond markers spn =
     \<lparr>ep_edge =
        \<lparr>e_id = 0, e_src = result, e_dst = source, e_kind = DerivesFrom, e_condition = cond, e_confidence = Probable,
         e_tier = ScopeGraph, e_rule = ''interprocedural'', e_site_id = None, e_stmt_index = None, e_cut_markers = markers,
         e_implicit = None, e_candidate_group = None, e_established_by = None, e_cfg_condition = None,
         e_macro_origin = None, e_transform = Some tr\<rparr>,
      ep_provenance = provenance_new spn ''interprocedural'' ScopeGraph []\<rparr>"

text \<open>The flows that summaries imply at a call site, with the edge's ends resolved.\<close>

definition site_flows ::
  "(string \<Rightarrow> node_id option) \<Rightarrow> summaries \<Rightarrow> ifds_call \<Rightarrow> (node_id \<times> node_id \<times> summary_fact \<times> ifds_call) list" where
  "site_flows resolve m cs =
     List.map_filter (\<lambda>f.
       Option.bind (call_arg_at cs (unat (sf_formal_in_idx f))) (\<lambda>arg.
       Option.bind (resolve (ic_result_fqn cs)) (\<lambda>result.
       Option.bind (resolve arg) (\<lambda>source. Some (result, source, f, cs)))))
     (return_facts m cs)"

definition apply_flow :: "nat \<Rightarrow> bool \<Rightarrow> nat \<times> (node_id \<times> node_id \<times> summary_fact \<times> ifds_call) \<Rightarrow> edge_with_provenance" where
  "apply_flow budget exhausted item =
     (case item of (applied, result, source, f, cs) \<Rightarrow>
        interproc_edge result source (sf_transform f) (join_condition (sf_condition f) (ic_condition cs))
          (if applied \<ge> budget \<or> exhausted then cut_markers_insert SummaryBudgetExceeded cut_markers_new else cut_markers_new)
          (ic_span cs))"

definition run_ifds_summaries :: "fn_table \<Rightarrow> (string \<Rightarrow> node_id option) \<Rightarrow> nat \<Rightarrow> ifds_output" where
  "run_ifds_summaries fns resolve budget =
     (case ifds_components fns budget (tarjan_sccs (map fst fns) (ifds_succ fns)) [] 0 0 of (m, exceeded, exhausted) \<Rightarrow>
       (let flows = concat (map (\<lambda>(_, fd). concat (map (site_flows resolve m) (fd_calls fd))) fns);
            edges = map (apply_flow budget (exhausted \<or> exceeded > 0)) (enumerate 0 flows)
        in \<lparr>io_edges = edges, io_summaries = m,
            io_stats = \<lparr>ifd_summaries_computed = length (filter (\<lambda>(_, facts). facts \<noteq> []) m),
              ifd_summary_edges_materialized = length edges, ifd_budget_exceeded_sccs = exceeded\<rparr>\<rparr>))"

end
