(* ===== verification/Frontend_Canonical.thy ===== *)
theory Frontend_Canonical
  imports Frontend_Facts "HOL-Library.List_Lexorder"
begin

text \<open>
  The derived order of the facts as keys, and \<open>FileFacts::canonicalize\<close> (cgx-frontend/src/facts.rs),
  which sorts every list of facts and normalizes the cut markers. Keys are prefix free, so different
  facts have different keys and a list of facts has one canonical form.
\<close>

subsection \<open>Prefix-free keys\<close>

definition prefix_free :: "('a \<Rightarrow> nat list) \<Rightarrow> bool" where
  "prefix_free k \<longleftrightarrow> (\<forall>a b r s. k a @ r = k b @ s \<longrightarrow> a = b \<and> r = s)"

lemma prefix_freeI: "(\<And>a b r s. k a @ r = k b @ s \<Longrightarrow> a = b \<and> r = s) \<Longrightarrow> prefix_free k"
  unfolding prefix_free_def by blast

lemma prefix_freeD: "prefix_free k \<Longrightarrow> k a @ r = k b @ s \<longleftrightarrow> a = b \<and> r = s"
  unfolding prefix_free_def by blast

lemma prefix_free_inj: "prefix_free k \<Longrightarrow> k a = k b \<Longrightarrow> a = b"
  using prefix_freeD [of k a "[]" b "[]"] by simp

definition nat_key :: "nat \<Rightarrow> nat list" where
  "nat_key n = [n]"

definition enum_key :: "('a \<Rightarrow> nat) \<Rightarrow> 'a \<Rightarrow> nat list" where
  "enum_key f x = [f x]"

definition option_key :: "('a \<Rightarrow> nat list) \<Rightarrow> 'a option \<Rightarrow> nat list" where
  "option_key k x = (case x of None \<Rightarrow> [0] | Some y \<Rightarrow> 1 # k y)"

definition list_key :: "('a \<Rightarrow> nat list) \<Rightarrow> 'a list \<Rightarrow> nat list" where
  "list_key k xs = concat (map (\<lambda>x. 1 # k x) xs) @ [0]"

definition str_key :: "string \<Rightarrow> nat list" where
  "str_key = list_key (\<lambda>c. [of_char c])"

abbreviation names_key :: "string list \<Rightarrow> nat list" where
  "names_key \<equiv> list_key str_key"

abbreviation bool_key :: "bool \<Rightarrow> nat list" where
  "bool_key \<equiv> enum_key of_bool"

lemma nat_key_free: "prefix_free nat_key"
  by (rule prefix_freeI) (simp add: nat_key_def)

lemma enum_key_free: "inj f \<Longrightarrow> prefix_free (enum_key f)"
  by (rule prefix_freeI) (simp add: enum_key_def inj_eq)

lemma option_key_free: "prefix_free k \<Longrightarrow> prefix_free (option_key k)"
  by (rule prefix_freeI) (auto simp: option_key_def prefix_freeD split: option.splits)

lemma list_key_Nil: "list_key k [] = [0]"
  by (simp add: list_key_def)

lemma list_key_Cons: "list_key k (x # xs) = 1 # k x @ list_key k xs"
  by (simp add: list_key_def)

lemma list_key_step:
  assumes "\<forall>x \<in> set xs. \<forall>y r s. k x @ r = k y @ s \<longrightarrow> x = y \<and> r = s" "list_key k xs @ r = list_key k ys @ s"
  shows "xs = ys \<and> r = s"
  using assms
proof (induction xs arbitrary: ys)
  case Nil
  from Nil(2) show ?case by (cases ys) (simp_all add: list_key_Nil list_key_Cons)
next
  case (Cons x xs)
  from Cons.prems(2) obtain y ys' where y: "ys = y # ys'" and e: "k x @ list_key k xs @ r = k y @ list_key k ys' @ s"
    by (cases ys) (simp_all add: list_key_Nil list_key_Cons)
  have "x = y \<and> list_key k xs @ r = list_key k ys' @ s"
    using Cons.prems(1) [rule_format, OF list.set_intros(1), OF e] .
  moreover from Cons.prems(1) have "\<forall>x \<in> set xs. \<forall>y r s. k x @ r = k y @ s \<longrightarrow> x = y \<and> r = s"
    by (meson list.set_intros(2))
  ultimately show ?case using Cons.IH [of ys'] y by metis
qed

lemma list_key_cong [fundef_cong]:
  "xs = ys \<Longrightarrow> (\<And>x. x \<in> set ys \<Longrightarrow> f x = g x) \<Longrightarrow> list_key f xs = list_key g ys"
  by (simp add: list_key_def cong: map_cong)

lemma list_key_free: "prefix_free k \<Longrightarrow> prefix_free (list_key k)"
  by (rule prefix_freeI, rule list_key_step) (simp_all add: prefix_freeD)

lemma str_key_free: "prefix_free str_key"
  unfolding str_key_def by (rule list_key_free, rule prefix_freeI) simp

lemmas key_free = nat_key_free option_key_free list_key_free str_key_free enum_key_free

lemma bool_inj: "inj (of_bool :: bool \<Rightarrow> nat)"
  by (simp add: inj_def)

subsection \<open>Keys of the facts\<close>

fun symbol_kind_disc :: "symbol_kind \<Rightarrow> nat" where
  "symbol_kind_disc Function = 0"
| "symbol_kind_disc Method = 1"
| "symbol_kind_disc Type = 2"
| "symbol_kind_disc Field = 3"
| "symbol_kind_disc Variable = 4"
| "symbol_kind_disc Module = 5"
| "symbol_kind_disc Constant = 6"
| "symbol_kind_disc Macro = 7"
| "symbol_kind_disc Lambda = 8"
| "symbol_kind_disc Entrypoint = 9"

fun visibility_disc :: "visibility \<Rightarrow> nat" where
  "visibility_disc Public = 0"
| "visibility_disc Protected = 1"
| "visibility_disc Internal = 2"
| "visibility_disc Package = 3"
| "visibility_disc Private = 4"

fun entrypoint_kind_disc :: "entrypoint_kind \<Rightarrow> nat" where
  "entrypoint_kind_disc Main = 0"
| "entrypoint_kind_disc Test = 1"
| "entrypoint_kind_disc HttpHandler = 2"
| "entrypoint_kind_disc AsyncMain = 3"
| "entrypoint_kind_disc Declared = 4"

fun implicit_kind_disc :: "implicit_kind \<Rightarrow> nat" where
  "implicit_kind_disc Drop = 0"
| "implicit_kind_disc Destructor = 1"
| "implicit_kind_disc Deref = 2"
| "implicit_kind_disc Coercion = 3"
| "implicit_kind_disc Operator = 4"
| "implicit_kind_disc Iterator = 5"
| "implicit_kind_disc ContextEnter = 6"
| "implicit_kind_disc ContextExit = 7"
| "implicit_kind_disc Property = 8"
| "implicit_kind_disc Defer = 9"
| "implicit_kind_disc StaticInit = 10"
| "implicit_kind_disc Conversion = 11"

fun ref_kind_disc :: "ref_kind \<Rightarrow> nat" where
  "ref_kind_disc RefCall = 0"
| "ref_kind_disc RefVirtualReceiver = 1"
| "ref_kind_disc RefClosure = 2"
| "ref_kind_disc RefCallback = 3"
| "ref_kind_disc RefAsync = 4"
| "ref_kind_disc RefSpawn = 5"
| "ref_kind_disc RefReference = 6"
| "ref_kind_disc RefInstantiate = 7"
| "ref_kind_disc RefPinnedClosure = 8"

fun relation_kind_disc :: "relation_kind \<Rightarrow> nat" where
  "relation_kind_disc RelImplements = 0"
| "relation_kind_disc RelInherits = 1"
| "relation_kind_disc RelOverrides = 2"

fun literal_kind_disc :: "literal_kind \<Rightarrow> nat" where
  "literal_kind_disc LitStr = 0"
| "literal_kind_disc LitBytes = 1"
| "literal_kind_disc LitNum = 2"
| "literal_kind_disc LitBool = 3"
| "literal_kind_disc LitList = 4"
| "literal_kind_disc LitDict = 5"
| "literal_kind_disc LitSet = 6"
| "literal_kind_disc LitTuple = 7"

fun param_kind_disc :: "param_kind \<Rightarrow> nat" where
  "param_kind_disc PkReceiver = 0"
| "param_kind_disc PkPositional = 1"
| "param_kind_disc PkKeywordOnly = 2"
| "param_kind_disc PkVarArgs = 3"
| "param_kind_disc PkVarKeywords = 4"

lemma symbol_kind_disc_inj: "symbol_kind_disc a = symbol_kind_disc b \<Longrightarrow> a = b"
  by (cases a; cases b) simp_all

lemma visibility_disc_inj: "visibility_disc a = visibility_disc b \<Longrightarrow> a = b"
  by (cases a; cases b) simp_all

lemma entrypoint_kind_disc_inj: "entrypoint_kind_disc a = entrypoint_kind_disc b \<Longrightarrow> a = b"
  by (cases a; cases b) simp_all

lemma ref_kind_disc_inj: "ref_kind_disc a = ref_kind_disc b \<Longrightarrow> a = b"
  by (cases a; cases b) simp_all

lemma relation_kind_disc_inj: "relation_kind_disc a = relation_kind_disc b \<Longrightarrow> a = b"
  by (cases a; cases b) simp_all

lemma literal_kind_disc_inj: "literal_kind_disc a = literal_kind_disc b \<Longrightarrow> a = b"
  by (cases a; cases b) simp_all

lemma param_kind_disc_inj: "param_kind_disc a = param_kind_disc b \<Longrightarrow> a = b"
  by (cases a; cases b) simp_all

lemma implicit_kind_disc_inj: "implicit_kind_disc a = implicit_kind_disc b \<Longrightarrow> a = b"
  by (cases a; cases b) simp_all

lemmas disc_inj = symbol_kind_disc_inj [THEN injI [rule_format]]
  visibility_disc_inj [THEN injI [rule_format]]
  entrypoint_kind_disc_inj [THEN injI [rule_format]]
  ref_kind_disc_inj [THEN injI [rule_format]]
  relation_kind_disc_inj [THEN injI [rule_format]]
  literal_kind_disc_inj [THEN injI [rule_format]]
  param_kind_disc_inj [THEN injI [rule_format]]
  implicit_kind_disc_inj [THEN injI [rule_format]]

definition span_key :: "span \<Rightarrow> nat list" where
  "span_key s = str_key (sp_file s) @ nat_key (sp_line s) @ option_key nat_key (sp_col s)"

definition param_key :: "param \<Rightarrow> nat list" where
  "param_key p =
     str_key (pm_name p) @ option_key str_key (pm_type_text p) @ bool_key (pm_has_default p) @ bool_key (pm_variadic p)"

definition signature_key :: "signature \<Rightarrow> nat list" where
  "signature_key s =
     list_key param_key (sg_params s) @ option_key str_key (sg_return_type_text s) @
     names_key (sg_type_params s) @ option_key str_key (sg_receiver s)"

definition def_key :: "symbol_def \<Rightarrow> nat list" where
  "def_key d =
     str_key (sy_fqn d) @ enum_key symbol_kind_disc (sy_kind d) @ enum_key visibility_disc (sy_visibility d) @
     nat_key (sy_scope d) @ span_key (sy_span d) @ nat_key (sy_line_end d) @ bool_key (sy_is_abstract d) @
     option_key signature_key (sy_signature d)"

definition ref_key :: "raw_ref \<Rightarrow> nat list" where
  "ref_key r =
     names_key (rr_name_path r) @ nat_key (rr_scope r) @ enum_key ref_kind_disc (rr_kind r) @
     enum_key precedence (rr_edge_condition r) @ option_key (enum_key implicit_kind_disc) (rr_implicit r) @
     span_key (rr_span r) @ nat_key (rr_stmt_index r) @ option_key nat_key (rr_arity r) @
     list_key (enum_key cut_marker_disc) (rr_cut_markers r)"

definition relation_key :: "impl_relation \<Rightarrow> nat list" where
  "relation_key r =
     enum_key relation_kind_disc (il_kind r) @ names_key (il_subject r) @ names_key (il_object r) @ span_key (il_span r)"

definition imported_name_key :: "imported_name \<Rightarrow> nat list" where
  "imported_name_key n = str_key (in_name n) @ option_key str_key (in_alias n)"

definition import_key :: "import_fact \<Rightarrow> nat list" where
  "import_key i =
     str_key (im_specifier i) @ list_key imported_name_key (im_names i) @ bool_key (im_glob i) @
     bool_key (im_re_export i) @ nat_key (im_scope i) @ span_key (im_span i)"

definition export_key :: "export_fact \<Rightarrow> nat list" where
  "export_key e = str_key (ex_name e) @ option_key str_key (ex_alias e) @ option_key str_key (ex_from e) @ span_key (ex_span e)"

definition hint_key :: "entrypoint_hint \<Rightarrow> nat list" where
  "hint_key h = str_key (eh_fqn h) @ enum_key entrypoint_kind_disc (eh_kind h)"

definition effect_key :: "effect_fact \<Rightarrow> nat list" where
  "effect_key e = str_key (ef_fqn e) @ enum_key unat (ef_effects e)"

definition flow_key :: "data_flow_fact \<Rightarrow> nat list" where
  "flow_key f =
     names_key (fl_derived f) @ names_key (fl_source f) @ nat_key (fl_derived_version f) @ nat_key (fl_scope f) @
     enum_key transform_disc (fl_transform f) @ enum_key precedence (fl_edge_condition f) @
     list_key (enum_key cut_marker_disc) (fl_cut_markers f) @ option_key str_key (fl_callee_fqn f) @
     list_key names_key (fl_args f) @ span_key (fl_span f)"

definition cut_hint_key :: "cut_hint \<Rightarrow> nat list" where
  "cut_hint_key h =
     enum_key cut_marker_disc (ch_marker h) @ span_key (ch_span h) @ option_key str_key (ch_macro_origin h)"

fun type_key :: "type_expr \<Rightarrow> nat list" where
  "type_key (TNamed path indirect) = 0 # names_key path @ bool_key indirect"
| "type_key (TGeneric h args indirect) = 1 # names_key h @ list_key type_key args @ bool_key indirect"
| "type_key (TUnion args) = 2 # list_key type_key args"
| "type_key TUnknown = [3]"

fun value_key :: "value_source \<Rightarrow> nat list" where
  "value_key (VsVar n) = 0 # str_key n"
| "value_key (VsNew t) = 1 # type_key t"
| "value_key (VsCall path) = 2 # names_key path"
| "value_key (VsDeclared t) = 3 # type_key t"
| "value_key (VsEnter s) = 4 # value_key s"
| "value_key (VsElement s) = 5 # value_key s"
| "value_key (VsLiteral k) = 6 # enum_key literal_kind_disc k"
| "value_key VsNull = [7]"
| "value_key VsOpaque = [8]"

fun base_key :: "base_expr \<Rightarrow> nat list" where
  "base_key (BaseType t) = 0 # type_key t"
| "base_key (BaseCall path) = 1 # names_key path"
| "base_key BaseUnknown = [2]"

fun anon_root_key :: "anon_root \<Rightarrow> nat list" where
  "anon_root_key (AnonLiteral k) = 0 # enum_key literal_kind_disc k"
| "anon_root_key AnonSuper = [1]"
| "anon_root_key (AnonCall path) = 2 # names_key path"
| "anon_root_key AnonSubscript = [3]"
| "anon_root_key AnonOther = [4]"

definition call_arg_key :: "call_arg \<Rightarrow> nat list" where
  "call_arg_key a = option_key str_key (ca_keyword a) @ value_key (ca_value a)"

fun type_fact_key :: "type_fact \<Rightarrow> nat list" where
  "type_fact_key (ParamFact f n i k t) =
     0 # str_key f @ str_key n @ option_key nat_key i @ enum_key param_kind_disc k @ option_key type_key t"
| "type_fact_key (BindFact f v s) = 1 # str_key f @ str_key v @ value_key s"
| "type_fact_key (FieldBindFact f v s) = 2 # str_key f @ str_key v @ value_key s"
| "type_fact_key (ClassBasesFact c bs) = 3 # str_key c @ list_key base_key bs"
| "type_fact_key (AnonReceiverFact f l c m d r) =
     4 # str_key f @ nat_key l @ nat_key c @ str_key m @ nat_key d @ anon_root_key r"
| "type_fact_key (CallArgsFact f l c callee args) =
     5 # str_key f @ nat_key l @ nat_key c @ names_key callee @ list_key call_arg_key args"
| "type_fact_key (ReturnFact f t) = 6 # str_key f @ type_key t"
| "type_fact_key (FieldTypeFact c f t) = 7 # str_key c @ str_key f @ type_key t"
| "type_fact_key (AttrStoreFact f b v s) = 8 # str_key f @ value_key b @ str_key v @ value_key s"

subsection \<open>The keys determine the facts\<close>

lemmas enum_key_frees = disc_inj [THEN enum_key_free] bool_inj [THEN enum_key_free]
  precedence_inj [THEN injI [rule_format], THEN enum_key_free] cut_marker_disc_inj [THEN injI [rule_format], THEN enum_key_free]
  transform_disc_inj [THEN injI [rule_format], THEN enum_key_free]

lemmas atom_eq = enum_key_frees [THEN prefix_freeD] nat_key_free [THEN prefix_freeD] str_key_free [THEN prefix_freeD]

lemmas names_eq = list_key_free [OF str_key_free, THEN prefix_freeD] list_key_free [OF list_key_free [OF str_key_free], THEN prefix_freeD]
  option_key_free [OF str_key_free, THEN prefix_freeD] option_key_free [OF nat_key_free, THEN prefix_freeD]
  enum_key_frees [THEN list_key_free, THEN prefix_freeD] enum_key_frees [THEN option_key_free, THEN prefix_freeD]

lemma span_key_free: "prefix_free span_key"
  by (rule prefix_freeI, case_tac a; case_tac b) (simp_all add: span_key_def atom_eq names_eq)

lemma param_key_free: "prefix_free param_key"
  by (rule prefix_freeI, case_tac a; case_tac b) (simp_all add: param_key_def atom_eq names_eq)

lemma signature_key_free: "prefix_free signature_key"
  by (rule prefix_freeI, case_tac a; case_tac b)
    (simp_all add: signature_key_def atom_eq names_eq list_key_free [OF param_key_free, THEN prefix_freeD])

lemmas span_eq = span_key_free [THEN prefix_freeD]

lemma def_key_free: "prefix_free def_key"
  by (rule prefix_freeI, case_tac a; case_tac b)
    (simp_all add: def_key_def atom_eq names_eq span_eq option_key_free [OF signature_key_free, THEN prefix_freeD])

lemma ref_key_free: "prefix_free ref_key"
  by (rule prefix_freeI, case_tac a; case_tac b) (simp_all add: ref_key_def atom_eq names_eq span_eq)

lemma relation_key_free: "prefix_free relation_key"
  by (rule prefix_freeI, case_tac a; case_tac b) (simp_all add: relation_key_def atom_eq names_eq span_eq)

lemma imported_name_key_free: "prefix_free imported_name_key"
  by (rule prefix_freeI, case_tac a; case_tac b) (simp_all add: imported_name_key_def atom_eq names_eq)

lemma import_key_free: "prefix_free import_key"
  by (rule prefix_freeI, case_tac a; case_tac b)
    (simp_all add: import_key_def atom_eq names_eq span_eq list_key_free [OF imported_name_key_free, THEN prefix_freeD])

lemma export_key_free: "prefix_free export_key"
  by (rule prefix_freeI, case_tac a; case_tac b) (simp_all add: export_key_def atom_eq names_eq span_eq)

lemma hint_key_free: "prefix_free hint_key"
  by (rule prefix_freeI, case_tac a; case_tac b) (simp_all add: hint_key_def atom_eq names_eq)

lemma effect_key_free: "prefix_free effect_key"
  by (rule prefix_freeI, case_tac a; case_tac b) (simp_all add: effect_key_def atom_eq enum_key_def word_unat_eq_iff)

lemma flow_key_free: "prefix_free flow_key"
  by (rule prefix_freeI, case_tac a; case_tac b) (simp_all add: flow_key_def atom_eq names_eq span_eq)

lemma cut_hint_key_free: "prefix_free cut_hint_key"
  by (rule prefix_freeI, case_tac a; case_tac b) (simp_all add: cut_hint_key_def atom_eq names_eq span_eq)

lemma type_key_step: "type_key t @ r = type_key u @ s \<Longrightarrow> t = u \<and> r = s"
proof (induction t arbitrary: u r s)
  case (TNamed path indirect)
  then show ?case by (cases u) (simp_all add: atom_eq names_eq)
next
  case (TGeneric h args indirect)
  then obtain h' args' indirect' where u: "u = TGeneric h' args' indirect'" by (cases u) simp_all
  with TGeneric.prems have e: "h = h'" "list_key type_key args @ bool_key indirect @ r = list_key type_key args' @ bool_key indirect' @ s"
    by (simp_all add: names_eq)
  have "args = args' \<and> bool_key indirect @ r = bool_key indirect' @ s"
    by (rule list_key_step [OF _ e(2)]) (use TGeneric.IH in blast)
  with u e(1) show ?case by (simp add: atom_eq)
next
  case (TUnion args)
  then obtain args' where u: "u = TUnion args'" by (cases u) simp_all
  with TUnion.prems have e: "list_key type_key args @ r = list_key type_key args' @ s" by simp
  have "args = args' \<and> r = s" by (rule list_key_step [OF _ e]) (use TUnion.IH in blast)
  with u show ?case by simp
next
  case TUnknown
  then show ?case by (cases u) simp_all
qed

lemma type_key_free: "prefix_free type_key"
  by (rule prefix_freeI) (rule type_key_step)

lemmas type_eq = type_key_free [THEN prefix_freeD] option_key_free [OF type_key_free, THEN prefix_freeD]

lemma value_key_free: "prefix_free value_key"
proof (rule prefix_freeI)
  show "value_key v @ r = value_key w @ s \<Longrightarrow> v = w \<and> r = s" for v w r s
    by (induction v arbitrary: w; case_tac w) (simp_all add: atom_eq names_eq type_eq)
qed

lemmas value_eq = value_key_free [THEN prefix_freeD]

lemma base_key_free: "prefix_free base_key"
  by (rule prefix_freeI, case_tac a; case_tac b) (simp_all add: type_eq names_eq)

lemma anon_root_key_free: "prefix_free anon_root_key"
  by (rule prefix_freeI, case_tac a; case_tac b) (simp_all add: atom_eq names_eq)

lemma call_arg_key_free: "prefix_free call_arg_key"
  by (rule prefix_freeI, case_tac a; case_tac b) (simp_all add: call_arg_key_def names_eq value_eq)

lemma type_fact_key_free: "prefix_free type_fact_key"
  by (rule prefix_freeI, case_tac a; case_tac b)
    (simp_all add: atom_eq names_eq type_eq value_eq list_key_free [OF base_key_free, THEN prefix_freeD]
      anon_root_key_free [THEN prefix_freeD] list_key_free [OF call_arg_key_free, THEN prefix_freeD])

subsection \<open>Canonical facts\<close>

definition normal_markers :: "cut_marker list \<Rightarrow> cut_marker list" where
  "normal_markers ms = remdups_adj (sort ms)"

definition canonicalize_facts :: "file_facts \<Rightarrow> file_facts" where
  "canonicalize_facts f =
     f\<lparr>ff_defs := sort_key def_key (ff_defs f),
       ff_refs := map (\<lambda>r. r\<lparr>rr_cut_markers := normal_markers (rr_cut_markers r)\<rparr>) (sort_key ref_key (ff_refs f)),
       ff_impl_relations := sort_key relation_key (ff_impl_relations f),
       ff_imports := sort_key import_key (ff_imports f),
       ff_exports := sort_key export_key (ff_exports f),
       ff_entrypoint_hints := sort_key hint_key (ff_entrypoint_hints f),
       ff_cut_hints := sort_key cut_hint_key (ff_cut_hints f),
       ff_effects := sort_key effect_key (ff_effects f),
       ff_data_flows := map (\<lambda>d. d\<lparr>fl_cut_markers := normal_markers (fl_cut_markers d)\<rparr>) (sort_key flow_key (ff_data_flows f)),
       ff_type_facts := remdups_adj (sort_key type_fact_key (ff_type_facts f))\<rparr>"

text \<open>
  Two extractions of a file hold the same facts when they differ only in the order of each list, and
  for the type facts in repetitions.
\<close>

definition same_facts :: "file_facts \<Rightarrow> file_facts \<Rightarrow> bool" where
  "same_facts f g \<longleftrightarrow>
     mset (ff_defs f) = mset (ff_defs g) \<and> mset (ff_refs f) = mset (ff_refs g) \<and>
     mset (ff_impl_relations f) = mset (ff_impl_relations g) \<and> mset (ff_imports f) = mset (ff_imports g) \<and>
     mset (ff_exports f) = mset (ff_exports g) \<and> ff_scopes f = ff_scopes g \<and>
     mset (ff_entrypoint_hints f) = mset (ff_entrypoint_hints g) \<and> mset (ff_cut_hints f) = mset (ff_cut_hints g) \<and>
     mset (ff_effects f) = mset (ff_effects g) \<and> mset (ff_data_flows f) = mset (ff_data_flows g) \<and>
     ff_module f = ff_module g \<and> set (ff_type_facts f) = set (ff_type_facts g)"

definition markers_normal :: "file_facts \<Rightarrow> bool" where
  "markers_normal f \<longleftrightarrow>
     (\<forall>r \<in> set (ff_refs f). cut_markers_wf (rr_cut_markers r)) \<and>
     (\<forall>d \<in> set (ff_data_flows f). cut_markers_wf (fl_cut_markers d))"

lemma sort_key_mset:
  assumes "prefix_free k" "mset xs = mset ys"
  shows "sort_key k xs = sort_key k ys"
  by (rule sort_key_inj_key_eq) (use assms prefix_free_inj in \<open>auto simp: inj_on_def\<close>)

lemma map_remdups_adj: "inj_on k (set xs) \<Longrightarrow> map k (remdups_adj xs) = remdups_adj (map k xs)"
  by (induction xs rule: remdups_adj.induct) (auto simp: inj_on_def)

lemma dedup_sorted_set:
  assumes "prefix_free k" "set xs = set ys"
  shows "remdups_adj (sort_key k xs) = remdups_adj (sort_key k ys)"
proof (rule map_inj_on [where f = k])
  have inj: "inj_on k A" for A using prefix_free_inj [OF assms(1)] by (auto simp: inj_on_def)
  then show "inj_on k (set (remdups_adj (sort_key k xs)) \<union> set (remdups_adj (sort_key k ys)))" .
  show "map k (remdups_adj (sort_key k xs)) = map k (remdups_adj (sort_key k ys))"
    by (rule strict_sorted_unique) (simp_all add: map_remdups_adj [OF inj] sorted_remdups_adj_strict assms(2))
qed

lemma normal_markers_wf: "cut_markers_wf (normal_markers ms)"
  by (simp add: cut_markers_wf_def normal_markers_def strict_sorted_sort_remdups_adj)

lemma normal_markers_id: "cut_markers_wf ms \<Longrightarrow> normal_markers ms = ms"
  unfolding cut_markers_wf_def normal_markers_def
  by (rule strict_sorted_unique) (simp_all add: strict_sorted_sort_remdups_adj)

lemma map_normal_id: "(\<forall>x \<in> set xs. f x = x) \<Longrightarrow> map f xs = xs"
  by (induction xs) auto

text \<open>
  C14. The canonical form of a file's facts does not depend on the order in which the extractor
  produced them, nor on repeated type facts; and it is a fixed point once the markers of each fact
  are a canonical set.
\<close>

theorem canonicalize_facts_canonical:
  assumes "same_facts f g"
  shows "canonicalize_facts f = canonicalize_facts g \<and>
    (markers_normal f \<longrightarrow> canonicalize_facts (canonicalize_facts f) = canonicalize_facts f)"
proof (intro conjI impI)
  show "canonicalize_facts f = canonicalize_facts g"
    using assms sort_key_mset [OF def_key_free, of "ff_defs f" "ff_defs g"] sort_key_mset [OF ref_key_free, of "ff_refs f" "ff_refs g"]
      sort_key_mset [OF relation_key_free, of "ff_impl_relations f" "ff_impl_relations g"]
      sort_key_mset [OF import_key_free, of "ff_imports f" "ff_imports g"]
      sort_key_mset [OF export_key_free, of "ff_exports f" "ff_exports g"]
      sort_key_mset [OF hint_key_free, of "ff_entrypoint_hints f" "ff_entrypoint_hints g"]
      sort_key_mset [OF cut_hint_key_free, of "ff_cut_hints f" "ff_cut_hints g"]
      sort_key_mset [OF effect_key_free, of "ff_effects f" "ff_effects g"]
      sort_key_mset [OF flow_key_free, of "ff_data_flows f" "ff_data_flows g"]
      dedup_sorted_set [OF type_fact_key_free, of "ff_type_facts f" "ff_type_facts g"]
    by (cases f; cases g) (simp add: same_facts_def canonicalize_facts_def)
next
  assume wf: "markers_normal f"
  have refs: "map (\<lambda>r. r\<lparr>rr_cut_markers := normal_markers (rr_cut_markers r)\<rparr>) xs = xs" if "set xs = set (ff_refs f)" for xs
    by (rule map_normal_id) (use that wf in \<open>auto simp: markers_normal_def normal_markers_id\<close>)
  have flows: "map (\<lambda>d. d\<lparr>fl_cut_markers := normal_markers (fl_cut_markers d)\<rparr>) xs = xs" if "set xs = set (ff_data_flows f)" for xs
    by (rule map_normal_id) (use that wf in \<open>auto simp: markers_normal_def normal_markers_id\<close>)
  have types: "remdups_adj (sort_key type_fact_key (remdups_adj (sort_key type_fact_key xs))) = remdups_adj (sort_key type_fact_key xs)" for xs
    by (rule dedup_sorted_set [OF type_fact_key_free]) simp
  show "canonicalize_facts (canonicalize_facts f) = canonicalize_facts f"
    by (simp add: canonicalize_facts_def refs flows types sort_key_id_if_sorted)
qed

definition sample_ref :: "string list \<Rightarrow> ref_kind \<Rightarrow> nat \<Rightarrow> cut_marker list \<Rightarrow> raw_ref" where
  "sample_ref path kind line markers =
     \<lparr>rr_name_path = path, rr_scope = 1, rr_kind = kind, rr_edge_condition = Always, rr_implicit = None,
      rr_span = \<lparr>sp_file = [], sp_line = line, sp_col = None\<rparr>, rr_stmt_index = 0, rr_arity = None,
      rr_cut_markers = markers\<rparr>"

text \<open>The references are sorted before their markers are normalized, so the markers must be normal already.\<close>

definition markers_of :: "file_facts \<Rightarrow> cut_marker list list" where
  "markers_of f = map rr_cut_markers (ff_refs f)"

definition unnormal_facts :: file_facts where
  "unnormal_facts = facts_empty\<lparr>ff_refs :=
     [sample_ref [''f''] RefCall 1 [Dynamic, Reflective], sample_ref [''f''] RefCall 1 [Reflective, ViaFfi]]\<rparr>"

lemma canonicalize_twice_differs: "canonicalize_facts (canonicalize_facts unnormal_facts) \<noteq> canonicalize_facts unnormal_facts"
proof -
  have "markers_of (canonicalize_facts (canonicalize_facts unnormal_facts)) = [[Reflective, Dynamic], [Reflective, ViaFfi]]"
    "markers_of (canonicalize_facts unnormal_facts) = [[Reflective, ViaFfi], [Reflective, Dynamic]]"
    by code_simp+
  then show ?thesis by auto
qed

lemma canonicalize_facts_canonical_witness:
  "canonicalize_facts (facts_empty\<lparr>ff_refs := [sample_ref [''g''] RefCall 2 [], sample_ref [''f''] RefCall 1 []]\<rparr>) =
     canonicalize_facts (facts_empty\<lparr>ff_refs := [sample_ref [''f''] RefCall 1 [], sample_ref [''g''] RefCall 2 []]\<rparr>) \<and>
   canonicalize_facts (canonicalize_facts (facts_empty\<lparr>ff_refs := [sample_ref [''g''] RefCall 2 [], sample_ref [''f''] RefCall 1 []]\<rparr>)) =
     canonicalize_facts (facts_empty\<lparr>ff_refs := [sample_ref [''g''] RefCall 2 [], sample_ref [''f''] RefCall 1 []]\<rparr>)"
proof -
  let ?f = "facts_empty\<lparr>ff_refs := [sample_ref [''g''] RefCall 2 [], sample_ref [''f''] RefCall 1 []]\<rparr>"
  have "same_facts ?f (facts_empty\<lparr>ff_refs := [sample_ref [''f''] RefCall 1 [], sample_ref [''g''] RefCall 2 []]\<rparr>)"
    by (simp add: same_facts_def facts_empty_def add_mset_commute)
  moreover have "markers_normal ?f" by (auto simp: markers_normal_def facts_empty_def sample_ref_def cut_markers_wf_def)
  ultimately show ?thesis using canonicalize_facts_canonical by blast
qed

end
