(* ===== verification/Resolve_Flows.thy ===== *)
theory Resolve_Flows
  imports Resolve_Canonical Resolve_Ifds Frontend_Canonical
begin

text \<open>
  The data-flow layer of the linker (cgx-resolve/src/link.rs): the value nodes of every assignment,
  the edges between them, the callees at which summaries apply, and the per-function hashes and
  summary dependencies of the incremental substrate. Parameters: the postcard encoding of facts and
  of summaries, a third-party crate. A \<open>HashMap\<close> is an association list here; where the code
  iterates over one, the list gives the order in which it does.
\<close>

subsection \<open>Value nodes\<close>

definition value_fqn :: "string \<Rightarrow> string \<Rightarrow> nat \<Rightarrow> string" where
  "value_fqn fn local version = fn @ ''::'' @ local @ ''#'' @ show_nat version"

record value_stage =
  vs_fqn :: string
  vs_file :: string
  vs_line :: nat
  vs_span :: span
  vs_blob_oid :: string

type_synonym value_stages = "(string, value_stage) btree_map"

definition intern_value :: "string \<Rightarrow> file_input \<Rightarrow> span \<Rightarrow> value_stages \<Rightarrow> value_stages" where
  "intern_value fqn f spn m =
     (case map_of m fqn of
        Some _ \<Rightarrow> m
      | None \<Rightarrow> bt_insert fqn
          \<lparr>vs_fqn = fqn, vs_file = fi_path f, vs_line = sp_line spn,
           vs_span = span_new (fi_path f) (sp_line spn) (sp_col spn), vs_blob_oid = fi_blob_oid f\<rparr> m)"

definition value_into_node :: "nat \<Rightarrow> value_stage \<Rightarrow> node_with_provenance" where
  "value_into_node i v =
     \<lparr>np_node =
        \<lparr>n_id = i, n_kind = Variable, n_fqn = vs_fqn v, n_file = vs_file v, n_line_start = vs_line v, n_line_end = vs_line v,
         n_lang = [], n_visibility = Private, n_is_abstract = False, n_entrypoint_kind = None, n_signature = None,
         n_own_effects = effect_set_new, n_transitive_effects = effect_set_new, n_unresolved_calls = 0,
         n_external_calls = 0, n_narrowing = narrowing_zero\<rparr>,
      np_provenance = provenance_new (vs_span v) ''ssa-value'' ScopeGraph (vs_blob_oid v)\<rparr>"

subsection \<open>Edges of assignments\<close>

record pending_flow =
  pf_derived_fqn :: string
  pf_source_fqn :: string
  pf_transform :: transform
  pf_condition :: edge_condition
  pf_cut_markers :: "cut_marker list"
  pf_span :: span

definition flow_confidence :: "cut_marker list \<Rightarrow> transform \<Rightarrow> confidence" where
  "flow_confidence markers tr =
     (if TruncatedAccessPath \<in> set markers then Possible
      else if tr = Copy \<or> tr = Projection then Certain else Probable)"

definition data_flow_edge :: "node_id \<Rightarrow> node_id \<Rightarrow> pending_flow \<Rightarrow> edge_with_provenance" where
  "data_flow_edge derived source p =
     \<lparr>ep_edge =
        \<lparr>e_id = 0, e_src = derived, e_dst = source, e_kind = DerivesFrom, e_condition = pf_condition p,
         e_confidence = flow_confidence (pf_cut_markers p) (pf_transform p), e_tier = ScopeGraph, e_rule = ''derives-from'',
         e_site_id = None, e_stmt_index = None, e_cut_markers = fold cut_markers_insert (pf_cut_markers p) cut_markers_new,
         e_implicit = None, e_candidate_group = None, e_established_by = None, e_cfg_condition = None,
         e_macro_origin = None, e_transform = Some (pf_transform p)\<rparr>,
      ep_provenance = provenance_new (pf_span p) ''derives-from'' ScopeGraph []\<rparr>"

subsection \<open>Where a summary applies\<close>

datatype site_outcome = SiteUnresolved | SiteUnique node_id | SiteConflict

definition join_outcome :: "site_outcome \<Rightarrow> site_outcome \<Rightarrow> site_outcome" where
  "join_outcome acc next =
     (case (acc, next) of (SiteUnique a, SiteUnique b) \<Rightarrow> if a = b then acc else SiteConflict | _ \<Rightarrow> SiteConflict)"

definition caller_node :: "(string, node_id) btree_map \<Rightarrow> file_facts \<Rightarrow> scope_id \<Rightarrow> node_id option" where
  "caller_node def_to_node facts sc =
     Option.bind (enclosing_def (ff_scopes facts) (ff_defs facts) sc) (\<lambda>d. map_of def_to_node (sy_fqn d))"

text \<open>The caller, line and callee path of each opaque call with a known path.\<close>

definition wanted_sites :: "(string, node_id) btree_map \<Rightarrow> file_facts \<Rightarrow> (node_id \<times> nat \<times> string) list" where
  "wanted_sites def_to_node facts =
     List.map_filter (\<lambda>df.
       if OpaqueCall \<in> set (fl_cut_markers df) then
         Option.bind (fl_callee_fqn df) (\<lambda>callee.
         map_option (\<lambda>caller. (caller, sp_line (fl_span df), callee)) (caller_node def_to_node facts (fl_scope df)))
       else None) (ff_data_flows facts)"

type_synonym exact_site = "node_id \<times> nat \<times> nat option"

definition upsert :: "'k \<Rightarrow> ('v \<Rightarrow> 'v) \<Rightarrow> 'v \<Rightarrow> ('k \<times> 'v) list \<Rightarrow> ('k \<times> 'v) list" where
  "upsert k f init m =
     (if map_of m k = None then m @ [(k, init)] else map (\<lambda>(k', v). if k' = k then (k', f v) else (k', v)) m)"

definition ref_site_key ::
  "(string, node_id) btree_map \<Rightarrow> (node_id \<times> nat \<times> string) set \<Rightarrow> nat set \<Rightarrow> file_facts \<Rightarrow> raw_ref \<Rightarrow> (exact_site \<times> string) option" where
  "ref_site_key def_to_node wanted lines facts raw =
     (if rr_kind raw = RefReference \<or> rr_kind raw = RefInstantiate \<or> sp_line (rr_span raw) \<notin> lines then None
      else Option.bind (caller_node def_to_node facts (rr_scope raw)) (\<lambda>caller.
        let path = str_join ''::'' (rr_name_path raw) in
        if (caller, sp_line (rr_span raw), path) \<in> wanted
        then Some ((caller, sp_line (rr_span raw), sp_col (rr_span raw)), path) else None))"

definition collect_sites ::
  "(string, node_id) btree_map \<Rightarrow> file_input list \<Rightarrow> (exact_site \<times> (string \<times> site_outcome)) list" where
  "collect_sites def_to_node inputs =
     (let wanted = set (concat (map (\<lambda>f. wanted_sites def_to_node (fi_facts f)) inputs)) in
      fold (\<lambda>f m.
          let lines = (\<lambda>(_, line, _). line) ` set (wanted_sites def_to_node (fi_facts f)) in
          fold (\<lambda>raw m. case ref_site_key def_to_node wanted lines (fi_facts f) raw of
              None \<Rightarrow> m
            | Some (site, path) \<Rightarrow> upsert site (\<lambda>(p, _). (p, SiteConflict)) (path, SiteUnresolved) m) (ff_refs (fi_facts f)) m)
        inputs [])"

definition edge_outcome :: "node_with_provenance list \<Rightarrow> edge_with_provenance \<Rightarrow> site_outcome" where
  "edge_outcome nodes e =
     (if (e_rule (ep_edge e) = ''scope-ref'' \<or> e_rule (ep_edge e) = ''import-ref'') \<and> e_candidate_group (ep_edge e) = None \<and>
         e_dst (ep_edge e) < length nodes \<and> is_callable (n_kind (np_node (nodes ! e_dst (ep_edge e))))
      then SiteUnique (e_dst (ep_edge e)) else SiteConflict)"

definition fold_edge ::
  "node_with_provenance list \<Rightarrow> edge_with_provenance \<Rightarrow> (exact_site \<times> (string \<times> site_outcome)) list \<Rightarrow>
   (exact_site \<times> (string \<times> site_outcome)) list" where
  "fold_edge nodes e m =
     (if \<not> is_call (e_kind (ep_edge e)) then m
      else (let spn = pv_span (ep_provenance e); site = (e_src (ep_edge e), sp_line spn, sp_col spn); next = edge_outcome nodes e in
        map (\<lambda>(k, p, o1). if k = site then (k, p, if o1 = SiteUnresolved then next else join_outcome o1 next) else (k, p, o1)) m))"

definition summary_site_callees ::
  "file_input list \<Rightarrow> (string, node_id) btree_map \<Rightarrow> node_with_provenance list \<Rightarrow> edge_with_provenance list \<Rightarrow>
   ((node_id \<times> nat \<times> string) \<times> string option) list" where
  "summary_site_callees inputs def_to_node nodes edges =
     (let sites = fold (fold_edge nodes) edges (collect_sites def_to_node inputs);
          by_key = fold (\<lambda>((caller, line, _), (callee, oc)). upsert (caller, line, callee) (\<lambda>acc. join_outcome acc oc) oc) sites []
      in map (\<lambda>(key, oc). (key, case oc of
             SiteUnique i \<Rightarrow> if i < length nodes then Some (n_fqn (np_node (nodes ! i))) else None
           | _ \<Rightarrow> None)) by_key)"

definition ground_summary_callee ::
  "symbol_table \<Rightarrow> ((node_id \<times> nat \<times> string) \<times> string option) list \<Rightarrow> node_id option \<Rightarrow> nat \<Rightarrow> string option \<Rightarrow> string option" where
  "ground_summary_callee t site_callees caller line callee_fqn =
     Option.bind callee_fqn (\<lambda>name.
       case Option.bind caller (\<lambda>c. map_of site_callees (c, line, name)) of
         Some (Some fqn) \<Rightarrow> Some fqn
       | _ \<Rightarrow> (case def_by_fqn t name of Some d \<Rightarrow> if is_callable (dt_kind d) then Some (dt_fqn d) else None | None \<Rightarrow> None))"

subsection \<open>Hashes and dependencies of the functions\<close>

record fact_codec =
  fc_encode_flows :: "data_flow_fact list \<Rightarrow> u8 list"
  fc_encode_summary :: "summary_fact list \<Rightarrow> u8 list"

definition ground_callee :: "symbol_table \<Rightarrow> string option \<Rightarrow> string" where
  "ground_callee t callee_fqn =
     (case callee_fqn of
        None \<Rightarrow> ''*''
      | Some name \<Rightarrow>
          (case filter (\<lambda>d. is_callable (dt_kind d)) (case def_by_fqn t name of Some d \<Rightarrow> [d] | None \<Rightarrow> []) of
             d # _ \<Rightarrow> dt_fqn d
           | [] \<Rightarrow>
               (case filter (\<lambda>d. is_callable (dt_kind d)) (defs_by_short t (last_name name)) of
                  [d] \<Rightarrow> dt_fqn d
                | _ \<Rightarrow> ''*'')))"

definition flows_per_fn :: "file_input list \<Rightarrow> (string \<times> string, data_flow_fact list) btree_map" where
  "flows_per_fn inputs =
     fold (\<lambda>f m. fold (\<lambda>df m. case enclosing_def (ff_scopes (fi_facts f)) (ff_defs (fi_facts f)) (fl_scope df) of
           None \<Rightarrow> m | Some caller \<Rightarrow> bt_push (fi_blob_oid f, sy_fqn caller) df m) (ff_data_flows (fi_facts f)) m) inputs []"

definition build_incremental_substrate ::
  "fact_codec \<Rightarrow> file_input list \<Rightarrow> symbol_table \<Rightarrow> ((string \<times> string) \<times> string) list \<Rightarrow> dataflow_output" where
  "build_incremental_substrate codec inputs t prior_cache =
     (let per_fn = flows_per_fn inputs;
          prior_by_fqn = map_of (rev (map (\<lambda>((_, fqn), hash). (fqn, hash)) prior_cache));
          hashed = map (\<lambda>(key, facts). (key, content_hash_hex (fc_encode_flows codec facts))) per_fn
      in dataflow_output_empty
           \<lparr>do_changed_fns := map (\<lambda>((_, fn), _). fn) (filter (\<lambda>((_, fn), hash). prior_by_fqn fn \<noteq> Some hash) hashed),
            do_fn_intraproc_cache := hashed,
            do_summary_deps := bs_collect (concat (map (\<lambda>((_, fn), facts).
              map (\<lambda>df. (fn, ground_callee t (fl_callee_fqn df))) (filter (\<lambda>df. OpaqueCall \<in> set (fl_cut_markers df)) facts)) per_fn))\<rparr>)"

subsection \<open>Walking the facts of a file\<close>

record flow_state =
  fs_values :: value_stages
  fs_fns :: fn_table
  fs_blobs :: "(string, string) btree_map"
  fs_pending :: "pending_flow list"
  fs_current :: "string \<times> string \<Rightarrow> nat"

definition update_fn :: "string \<Rightarrow> (fn_dataflow \<Rightarrow> fn_dataflow) \<Rightarrow> flow_state \<Rightarrow> flow_state" where
  "update_fn fn f st =
     st\<lparr>fs_fns := bt_insert fn (f (case map_of (fs_fns st) fn of Some fd \<Rightarrow> fd | None \<Rightarrow> fn_dataflow_empty)) (fs_fns st)\<rparr>"

definition note_blob :: "string \<Rightarrow> string \<Rightarrow> flow_state \<Rightarrow> flow_state" where
  "note_blob fn blob st =
     (if map_of (fs_blobs st) fn = None then st\<lparr>fs_blobs := bt_insert fn blob (fs_blobs st)\<rparr> else st)"

definition mint :: "string \<Rightarrow> file_input \<Rightarrow> span \<Rightarrow> flow_state \<Rightarrow> flow_state" where
  "mint fqn f spn st = st\<lparr>fs_values := intern_value fqn f spn (fs_values st)\<rparr>"

text \<open>Every parameter of a callable gets its version 0 value.\<close>

definition param_step :: "file_input \<Rightarrow> symbol_def \<Rightarrow> param \<Rightarrow> flow_state \<Rightarrow> flow_state" where
  "param_step f d p st =
     (let fqn = value_fqn (sy_fqn d) (pm_name p) 0
      in update_fn (sy_fqn d) (\<lambda>fd. fd\<lparr>fd_formal_ins := fd_formal_ins fd @ [fqn]\<rparr>) (mint fqn f (sy_span d) st))"

definition def_step :: "file_input \<Rightarrow> symbol_def \<Rightarrow> flow_state \<Rightarrow> flow_state" where
  "def_step f d st =
     (case sy_signature d of
        None \<Rightarrow> st
      | Some sig \<Rightarrow>
          if is_callable (sy_kind d) then
            fold (param_step f d) (sg_params sig) (note_blob (sy_fqn d) (fi_blob_oid f) (update_fn (sy_fqn d) (\<lambda>fd. fd) st))
          else st)"

text \<open>The argument's base local at its current version.\<close>

fun mint_args :: "file_input \<Rightarrow> data_flow_fact \<Rightarrow> string \<Rightarrow> string list list \<Rightarrow> flow_state \<Rightarrow> string option list \<times> flow_state" where
  "mint_args f df fn [] st = ([], st)"
| "mint_args f df fn (path # paths) st =
     (case path of
        [] \<Rightarrow> (case mint_args f df fn paths st of (args, st') \<Rightarrow> (None # args, st'))
      | base # _ \<Rightarrow>
          (let fqn = value_fqn fn base (fs_current st (fn, base)) in
           case mint_args f df fn paths (mint fqn f (fl_span df) st) of (args, st') \<Rightarrow> (Some fqn # args, st')))"

definition last_or_empty :: "string list \<Rightarrow> string" where
  "last_or_empty path = (if path = [] then [] else last path)"

definition flow_step ::
  "symbol_table \<Rightarrow> ((node_id \<times> nat \<times> string) \<times> string option) list \<Rightarrow> (string, node_id) btree_map \<Rightarrow>
   file_input \<Rightarrow> data_flow_fact \<Rightarrow> flow_state \<Rightarrow> flow_state" where
  "flow_step t site_callees def_to_node f df st =
     (case enclosing_def (ff_scopes (fi_facts f)) (ff_defs (fi_facts f)) (fl_scope df) of
        None \<Rightarrow> st
      | Some caller \<Rightarrow>
          (let fn = sy_fqn caller;
               st = note_blob fn (fi_blob_oid f) st;
               local = last_or_empty (fl_derived df);
               derived = value_fqn fn local (fl_derived_version df);
               st = mint derived f (fl_span df) st;
               st = (if local = ''return'' then update_fn fn (\<lambda>fd. fd\<lparr>fd_returns := bs_insert derived (fd_returns fd)\<rparr>) st else st);
               source = (case fl_source df of [] \<Rightarrow> None | base # _ \<Rightarrow> Some (value_fqn fn base (fs_current st (fn, base))));
               st = (case source of None \<Rightarrow> st | Some s \<Rightarrow> mint s f (fl_span df) st);
               spn = span_new (fi_path f) (sp_line (fl_span df)) (sp_col (fl_span df));
               st = (if OpaqueCall \<in> set (fl_cut_markers df) then
                   (case mint_args f df fn (fl_args df) st of (args, st') \<Rightarrow>
                      update_fn fn (\<lambda>fd. fd\<lparr>fd_calls := fd_calls fd @
                        [\<lparr>ic_result_fqn = derived,
                          ic_callee_fqn = ground_summary_callee t site_callees (map_of def_to_node fn) (sp_line (fl_span df)) (fl_callee_fqn df),
                          ic_args = args, ic_condition = fl_edge_condition df, ic_span = spn\<rparr>]\<rparr>) st')
                 else st);
               st = st\<lparr>fs_current := (fs_current st)((fn, local) := fl_derived_version df)\<rparr>
           in case source of
                None \<Rightarrow> st
              | Some s \<Rightarrow>
                  (let st = update_fn fn (\<lambda>fd. fd\<lparr>fd_intra := fd_intra fd @
                         [\<lparr>ie_derived_fqn = derived, ie_source_fqn = s, ie_transform = fl_transform df, ie_condition = fl_edge_condition df\<rparr>]\<rparr>) st
                   in st\<lparr>fs_pending := fs_pending st @
                         [\<lparr>pf_derived_fqn = derived, pf_source_fqn = s, pf_transform = fl_transform df,
                           pf_condition = fl_edge_condition df, pf_cut_markers = fl_cut_markers df, pf_span = spn\<rparr>]\<rparr>)))"

definition flow_order :: "data_flow_fact \<Rightarrow> (string \<times> nat \<times> nat option) \<times> string list \<times> nat" where
  "flow_order df =
     ((sp_file (fl_span df), sp_line (fl_span df), sp_col (fl_span df)), fl_derived df, fl_derived_version df)"

definition walk_flows ::
  "file_input list \<Rightarrow> (string, node_id) btree_map \<Rightarrow> symbol_table \<Rightarrow> ((node_id \<times> nat \<times> string) \<times> string option) list \<Rightarrow> flow_state" where
  "walk_flows inputs def_to_node t site_callees =
     (let start = \<lparr>fs_values = [], fs_fns = [], fs_blobs = [], fs_pending = [], fs_current = (\<lambda>_. 0)\<rparr>;
          st = fold (\<lambda>f. fold (def_step f) (ff_defs (fi_facts f))) inputs start
      in fold (\<lambda>f st. fold (flow_step t site_callees def_to_node f) (sort_key flow_order (ff_data_flows (fi_facts f)))
           (st\<lparr>fs_current := (\<lambda>_. 0)\<rparr>)) inputs st)"

subsection \<open>The data-flow pass\<close>

definition value_order :: "value_stage \<Rightarrow> string \<times> nat \<times> string" where
  "value_order v = (vs_file v, vs_line v, vs_fqn v)"

definition pending_edge ::
  "(string \<Rightarrow> node_id option) \<Rightarrow> (string, node_id) btree_map \<Rightarrow> pending_flow \<Rightarrow> edge_with_provenance option" where
  "pending_edge resolve def_to_node p =
     Option.bind (resolve (pf_derived_fqn p)) (\<lambda>derived.
     map_option (\<lambda>source. data_flow_edge derived source p)
       (case resolve (pf_source_fqn p) of Some i \<Rightarrow> Some i | None \<Rightarrow> map_of def_to_node (pf_source_fqn p)))"

definition resolve_data_flows ::
  "fact_codec \<Rightarrow> file_input list \<Rightarrow> (string, node_id) btree_map \<Rightarrow> symbol_table \<Rightarrow> node_with_provenance list \<Rightarrow>
   edge_with_provenance list \<Rightarrow> ((string \<times> string) \<times> string) list \<Rightarrow> nat \<Rightarrow>
   node_with_provenance list \<times> edge_with_provenance list \<times> dataflow_output" where
  "resolve_data_flows codec inputs def_to_node t nodes edges prior_cache summary_budget =
     (let out = build_incremental_substrate codec inputs t prior_cache;
          st = walk_flows inputs def_to_node t (summary_site_callees inputs def_to_node nodes edges);
          staged = sort_key value_order (map snd (fs_values st));
          values = map2 value_into_node [length nodes..<length nodes + length staged] staged;
          resolve = map_of (fold (\<lambda>n. bt_insert (n_fqn (np_node n)) (n_id (np_node n))) values []);
          flows = List.map_filter (pending_edge resolve def_to_node) (fs_pending st);
          ifds = run_ifds_summaries (fs_fns st) resolve summary_budget;
          summaries = map (\<lambda>(fn, facts). (((case map_of (fs_blobs st) fn of Some b \<Rightarrow> b | None \<Rightarrow> []), fn), fc_encode_summary codec facts))
            (filter (\<lambda>(_, facts). facts \<noteq> []) (io_summaries ifds))
      in (nodes @ values, edges @ flows @ io_edges ifds,
          out\<lparr>do_fn_summaries := sort summaries, do_ifds_stats := io_stats ifds,
              do_stats := \<lparr>df_functions_recomputed = length (do_changed_fns out),
                df_functions_reused = length (do_fn_intraproc_cache out) - length (do_changed_fns out)\<rparr>\<rparr>))"

end
