(* ===== verification/Resolve_Link.thy ===== *)
theory Resolve_Link
  imports Resolve_Flows
begin

text \<open>
  The link pass (\<open>link\<close> in cgx-resolve/src/link.rs): nodes, symbol table, references, declared
  relations, data flow, the final node order, and the canonical graph. The receiver index is an
  argument with the operations that the pass calls.
\<close>

record 'l narrower =
  nw_new :: "bool \<Rightarrow> 'l"
  nw_build :: "file_input list \<Rightarrow> symbol_table \<Rightarrow> 'l \<Rightarrow> 'l receivers \<times> 'l"
  nw_finish :: "'l \<Rightarrow> symbol_table \<Rightarrow> precision_stats \<times> (node_id, narrowing_counts) btree_map"

definition link_table :: "file_input list \<Rightarrow> symbol_table" where
  "link_table inputs =
     symbol_table_build (map np_node (fst (build_nodes inputs))) (map (\<lambda>f. (module_segment f, fi_facts f)) inputs)"

definition link_start :: "'l \<Rightarrow> 'l link_state" where
  "link_start ledger =
     \<lparr>ls_edges = [], ls_candidates = [], ls_unresolved = [], ls_next_group = 0, ls_ledger = ledger\<rparr>"

text \<open>The references of all files, in order, then the declared relations.\<close>

definition link_refs ::
  "link_opts \<Rightarrow> 'l receivers option \<Rightarrow> file_input list \<Rightarrow> 'l \<Rightarrow> 'l link_state" where
  "link_refs opts rx inputs ledger =
     fold (resolve_file (link_table inputs) opts rx (snd (build_nodes inputs))) (enumerate 0 inputs) (link_start ledger)"

definition link_relations :: "file_input list \<Rightarrow> edge_with_provenance list \<Rightarrow> edge_with_provenance list" where
  "link_relations inputs edges =
     fold (\<lambda>f. fold (resolve_impl_relation f (snd (build_nodes inputs)) (link_table inputs)) (ff_impl_relations (fi_facts f)))
       inputs edges"

definition remap_counts :: "node_id list option \<Rightarrow> (node_id, narrowing_counts) btree_map \<Rightarrow> (node_id, narrowing_counts) btree_map" where
  "remap_counts remap counts =
     (case remap of None \<Rightarrow> counts | Some r \<Rightarrow> fold (\<lambda>(i, c). bt_insert (r ! i) c) counts [])"

definition link_graph :: "'l narrower \<Rightarrow> fact_codec \<Rightarrow> file_input list \<Rightarrow> link_opts \<Rightarrow> resolved_graph" where
  "link_graph nw codec inputs opts =
     (let (nodes, def_to_node) = build_nodes inputs;
          table = link_table inputs;
          ledger = nw_new nw (lo_narrowing_trace opts);
          (rx, ledger) = (if lo_receiver_narrowing opts
             then (case nw_build nw inputs table ledger of (r, l) \<Rightarrow> (Some r, l)) else (None, ledger));
          st = link_refs opts rx inputs ledger;
          edges = link_relations inputs (ls_edges st);
          (nodes, edges, dataflow) = (if lo_dataflow opts
             then resolve_data_flows codec inputs def_to_node table nodes edges (lo_prior_fn_cache opts)
               (case lo_max_summary_edges opts of Some n \<Rightarrow> n | None \<Rightarrow> default_max_summary_edges)
             else (nodes, edges, dataflow_output_empty));
          (nodes, edges, candidates, remap) = sort_nodes_canonical nodes edges (ls_candidates st);
          (precision, counts) = nw_finish nw (ls_ledger st) table
      in (finalize nodes edges candidates (ls_unresolved st) (remap_counts remap counts))
           \<lparr>rg_dataflow := dataflow, rg_precision := precision\<rparr>)"

end
