(* ===== verification/Resolve_Refs_Laws.thy ===== *)
theory Resolve_Refs_Laws
  imports Resolve_Refs
begin

text \<open>
  What resolving a reference adds to the state: one edge, a candidate set, or one dangling
  reference. The pass over all files inherits it.
\<close>

subsection \<open>Candidate sets\<close>

definition candidate_order :: "string \<Rightarrow> string \<Rightarrow> span \<Rightarrow> def_entry list \<Rightarrow> node_id list" where
  "candidate_order rule caller_fqn spn hits =
     (let ids = fst (canonicalize_candidate_dsts (map dt_node_id hits)) in
      if rule = ''name-arity''
      then sort_key (\<lambda>dst. (locality_at (hit_localities (sp_file spn) caller_fqn hits) dst, dst)) ids else ids)"

definition candidate_edge ::
  "def_entry list \<Rightarrow> node_id \<Rightarrow> raw_ref \<Rightarrow> bool \<Rightarrow> string \<Rightarrow> string \<Rightarrow> span \<Rightarrow> nat option \<Rightarrow> nat \<Rightarrow> node_id \<Rightarrow> edge_with_provenance" where
  "candidate_edge hits caller_id raw virtual_dispatch rule caller_fqn spn grp n dst =
     (let by_name = (rule = ''name-arity'');
          e = built_edge \<lparr>eb_src = caller_id, eb_dst = dst, eb_kind = edge_kind_of (rr_kind raw) virtual_dispatch,
            eb_confidence = (if by_name \<or> n \<noteq> 1 then Possible else Probable), eb_tier = (if by_name then NameSyntactic else ScopeGraph),
            eb_rule = rule, eb_raw = raw, eb_caller_fqn = caller_fqn, eb_span = spn, eb_candidate_group = grp\<rparr>
      in if by_name then restamp (''name-arity:loc:'' @ locality_as_str (locality_at (hit_localities (sp_file spn) caller_fqn hits) dst)) e else e)"

definition group_rows :: "nat \<Rightarrow> node_id list \<Rightarrow> candidate list" where
  "group_rows g dsts = map (\<lambda>(rank, dst). \<lparr>cd_candidate_group = g, cd_dst = dst, cd_rank = rank\<rparr>) (enumerate 0 dsts)"

lemma emit_candidates:
  "fold (emit_candidate grp build stamp) items st =
     st\<lparr>ls_edges := ls_edges st @ map (\<lambda>(_, dst). case stamp dst of Some r \<Rightarrow> restamp r (built_edge (build dst)) | None \<Rightarrow> built_edge (build dst)) items,
        ls_candidates := ls_candidates st @ (case grp of Some g \<Rightarrow> map (\<lambda>(rank, dst). \<lparr>cd_candidate_group = g, cd_dst = dst, cd_rank = rank\<rparr>) items | None \<Rightarrow> [])\<rparr>"
proof (induction items arbitrary: st)
  case (Cons item items)
  then show ?case
    by (cases item) (simp add: emit_candidate_def push_edge_def stamp_last_def Let_def split: option.split)
qed (simp split: option.split)

lemma candidate_order_ids: "set (candidate_order rule caller_fqn spn hits) = dt_node_id ` set hits"
  by (simp add: candidate_order_def canonicalize_candidate_dsts_def Let_def)

lemma candidate_order_distinct: "distinct (candidate_order rule caller_fqn spn hits)"
  using strict_sorted_distinct [OF strict_sorted_sort_remdups_adj, of "map dt_node_id hits"]
  by (simp add: candidate_order_def canonicalize_candidate_dsts_def Let_def)

lemma candidate_order_length: "length (candidate_order rule caller_fqn spn hits) = card (dt_node_id ` set hits)"
  by (metis candidate_order_distinct candidate_order_ids distinct_card)

lemma map_enumerate_snd: "map (\<lambda>(i, x). f x) (enumerate n xs) = map f xs"
  by (induction xs arbitrary: n) simp_all

lemma emit_candidate_set_eq:
  assumes "dsts = candidate_order rule caller_fqn spn hits"
  shows "emit_candidate_set hits caller_id raw virtual_dispatch rule caller_fqn spn st =
    (let grp = (if length dsts > 1 then Some (ls_next_group st) else None) in
     st\<lparr>ls_edges := ls_edges st @ map (candidate_edge hits caller_id raw virtual_dispatch rule caller_fqn spn grp (length dsts)) dsts,
        ls_candidates := ls_candidates st @ (if length dsts > 1 then group_rows (ls_next_group st) dsts else []),
        ls_next_group := ls_next_group st + (if length dsts > 1 then 1 else 0)\<rparr>)"
proof -
  obtain ids band where ids: "canonicalize_candidate_dsts (map dt_node_id hits) = (ids, band)" by fastforce
  then have band: "band = (if length ids = 1 then Probable else Possible)"
    by (auto simp: canonicalize_candidate_dsts_def Let_def)
  have least: "min c Possible = Possible" for c by (cases c) (simp_all add: min_def less_eq_confidence_def)
  show ?thesis
  proof (cases "rule = ''name-arity''")
    case True
    then have d: "dsts = sort_key (\<lambda>dst. (locality_at (hit_localities (sp_file spn) caller_fqn hits) dst, dst)) ids"
      using ids assms by (simp add: candidate_order_def)
    show ?thesis
      unfolding emit_candidate_set_def ids Let_def prod.case emit_candidates
      using True by (simp add: d [symmetric] map_enumerate_snd candidate_edge_def Let_def group_rows_def least)
  next
    case False
    then have d: "dsts = ids" using ids assms by (simp add: candidate_order_def)
    show ?thesis
      unfolding emit_candidate_set_def ids Let_def prod.case emit_candidates
      using False by (simp add: d map_enumerate_snd candidate_edge_def Let_def group_rows_def band)
  qed
qed

lemma candidate_edge_fields:
  assumes "e = ep_edge (candidate_edge hits caller_id raw virtual_dispatch rule caller_fqn spn grp n dst)"
  shows "e_src e = caller_id" "e_dst e = dst" "e_candidate_group e = grp"
    "e_confidence e = (if rule = ''name-arity'' \<or> n \<noteq> 1 then Possible else Probable)"
    "e_kind e = edge_kind_of (rr_kind raw) virtual_dispatch" "e_stmt_index e = Some (rr_stmt_index raw)"
  by (simp_all add: assms candidate_edge_def built_edge_def restamp_def Let_def)

subsection \<open>The outcomes of a reference\<close>

definition table_ids :: "symbol_table \<Rightarrow> node_id set \<Rightarrow> bool" where
  "table_ids t ids \<longleftrightarrow>
     (\<forall>fqn d. def_by_fqn t fqn = Some d \<longrightarrow> dt_node_id d \<in> ids) \<and>
     (\<forall>name. \<forall>d \<in> set (defs_by_short t name). dt_node_id d \<in> ids) \<and>
     (\<forall>p. \<forall>d \<in> set (bt_items (tb_by_module_prefix t) p). dt_node_id d \<in> ids)"

lemma table_ids_build: "t = symbol_table_build ns files \<Longrightarrow> table_ids t (n_id ` set ns)"
  by (auto simp: table_ids_def symbol_table_indexes(2,3) symbol_table_indexes(1) def_entry_of_def dest!: map_of_SomeD)

lemma outcome_ids:
  assumes "table_ids t ids"
  shows "resolve_member t spec nm = OutUnique d \<Longrightarrow> dt_node_id d \<in> ids"
    and "resolve_member t spec nm = OutAmbiguous hits \<Longrightarrow> hits \<noteq> [] \<and> dt_node_id ` set hits \<subseteq> ids"
proof -
  have members: "d \<in> set (module_members t p name) \<Longrightarrow> dt_node_id d \<in> ids" for d p name
    using assms by (auto simp: module_members_def table_ids_def)
  have suffix: "d \<in> set (suffix_members t seg name) \<Longrightarrow> dt_node_id d \<in> ids" for d seg name
    using set_dedup_by [of "\<lambda>a b. dt_node_id a = dt_node_id b"] members unfolding suffix_members_def by fastforce
  have of: "outcome_of hits = OutUnique d \<Longrightarrow> d \<in> set hits" "outcome_of hits = OutAmbiguous hs \<Longrightarrow> hs = hits \<and> hits \<noteq> []" for hits d hs
    by (auto simp: outcome_of_def split: list.splits)
  have direct: "resolve_prefixes t ps name = OutUnique d \<Longrightarrow> dt_node_id d \<in> ids"
    "resolve_prefixes t ps name = OutAmbiguous hs \<Longrightarrow> hs \<noteq> [] \<and> dt_node_id ` set hs \<subseteq> ids" for ps name d hs
    by (induction ps) (auto split: if_splits dest!: of intro: members suffix)
  have chain: "resolve_member t spec nm = r \<Longrightarrow> r \<noteq> OutNone \<Longrightarrow> \<exists>ps name. resolve_prefixes t ps name = r" for r
    using resolve_member_chain(2) [of r t spec nm] unfolding resolve_member_direct_def by blast
  show "resolve_member t spec nm = OutUnique d \<Longrightarrow> dt_node_id d \<in> ids"
    using chain direct(1) by blast
  show "resolve_member t spec nm = OutAmbiguous hits \<Longrightarrow> hits \<noteq> [] \<and> dt_node_id ` set hits \<subseteq> ids"
    using chain direct(2) by blast
qed

text \<open>One edge to a definition (or the caller itself, for an indirect call), a candidate set, or a dangling reference.\<close>

inductive resolved_as :: "node_id set \<Rightarrow> node_id \<Rightarrow> raw_ref \<Rightarrow> 'l link_state \<Rightarrow> 'l link_state \<Rightarrow> bool" for ids caller_id raw where
  as_edge: "e_src (ep_edge e) = caller_id \<Longrightarrow> e_dst (ep_edge e) \<in> insert caller_id ids \<Longrightarrow> e_candidate_group (ep_edge e) = None \<Longrightarrow>
    (e_confidence (ep_edge e) = Certain \<longrightarrow> e_rule (ep_edge e) = ''scope-ref'') \<Longrightarrow> e_stmt_index (ep_edge e) = Some (rr_stmt_index raw) \<Longrightarrow>
    resolved_as ids caller_id raw st (st\<lparr>ls_ledger := l, ls_edges := ls_edges st @ [e]\<rparr>)"
| as_set: "hits \<noteq> [] \<Longrightarrow> dt_node_id ` set hits \<subseteq> ids \<Longrightarrow>
    resolved_as ids caller_id raw st (emit_candidate_set hits caller_id raw virtual_dispatch rule caller_fqn spn (st\<lparr>ls_ledger := l\<rparr>))"
| as_dangling: "ur_caller u = caller_id \<Longrightarrow> ur_marker u = Unresolved \<or> ur_marker u = External \<Longrightarrow>
    resolved_as ids caller_id raw st (st\<lparr>ls_ledger := l, ls_unresolved := ls_unresolved st @ [u]\<rparr>)"

definition receivers_ok :: "node_id set \<Rightarrow> 'l receivers option \<Rightarrow> bool" where
  "receivers_ok ids rx \<longleftrightarrow>
     (\<forall>r site l hits rule vd l'. rx = Some r \<longrightarrow> rx_narrow r site l = (NarrowTyped hits rule vd, l') \<longrightarrow>
        hits \<noteq> [] \<and> dt_node_id ` set hits \<subseteq> ids)"

lemma as_single:
  assumes "dst \<in> insert caller_id ids" "conf = Certain \<longrightarrow> rule = ''scope-ref''"
  shows "resolved_as ids caller_id raw st
    (push_edge (single_edge ctx caller caller_id raw dst vd conf tr rule) (st\<lparr>ls_ledger := l\<rparr>))"
proof -
  have "resolved_as ids caller_id raw st
      (st\<lparr>ls_ledger := l, ls_edges := ls_edges st @ [built_edge (single_edge ctx caller caller_id raw dst vd conf tr rule)]\<rparr>)"
    by (rule as_edge) (use assms in \<open>simp_all add: single_edge_def built_edge_def\<close>)
  then show ?thesis by (simp add: push_edge_def)
qed

lemma as_dangle:
  assumes "marker = Unresolved \<or> marker = External"
  shows "resolved_as ids caller_id raw st (dangle (dangling_ref ctx caller caller_id raw marker) (st\<lparr>ls_ledger := l\<rparr>))"
proof -
  have "resolved_as ids caller_id raw st
      (st\<lparr>ls_ledger := l, ls_unresolved := ls_unresolved st @ [dangling_ref ctx caller caller_id raw marker]\<rparr>)"
    by (rule as_dangling) (use assms in \<open>simp_all add: dangling_ref_def\<close>)
  then show ?thesis by (simp add: dangle_def)
qed

lemma name_candidates_ids: "table_ids t ids \<Longrightarrow> dt_node_id ` set (name_candidates opts t name lang arity) \<subseteq> ids"
  by (auto simp: name_candidates_def table_ids_def Let_def split: option.splits if_splits)

lemma method_candidates_ids: "table_ids t ids \<Longrightarrow> dt_node_id ` set (method_candidates t name lang) \<subseteq> ids"
  by (auto simp: method_candidates_def table_ids_def)

lemma by_name_resolved:
  assumes "table_ids (rc_table ctx) ids"
  shows "resolved_as ids caller_id raw st (resolve_by_name ctx caller caller_id raw (st\<lparr>ls_ledger := l\<rparr>))"
proof (cases "lo_name_arity_fallback (rc_opts ctx) \<and>
    name_candidates (rc_opts ctx) (rc_table ctx) (last (rr_name_path raw)) (fi_lang (rc_file ctx)) (rr_arity raw) \<noteq> []")
  case True
  then show ?thesis by (simp add: resolve_by_name_def Let_def as_set name_candidates_ids [OF assms])
next
  case False
  then show ?thesis by (auto simp: resolve_by_name_def Let_def as_dangle)
qed

lemma virtual_resolved:
  assumes "table_ids (rc_table ctx) ids"
  shows "resolved_as ids caller_id raw st (resolve_virtual ctx caller caller_id raw recv_site (st\<lparr>ls_ledger := l\<rparr>))"
proof -
  let ?hits = "method_candidates (rc_table ctx) (last (rr_name_path raw)) (fi_lang (rc_file ctx))"
  obtain l' where l': "(case recv_site of Some (rx, site) \<Rightarrow> (st\<lparr>ls_ledger := l\<rparr>)\<lparr>ls_ledger := rx_record_legacy rx site (length ?hits) (ls_ledger (st\<lparr>ls_ledger := l\<rparr>))\<rparr>
      | None \<Rightarrow> st\<lparr>ls_ledger := l\<rparr>) = st\<lparr>ls_ledger := l'\<rparr>"
    by (cases recv_site) auto
  show ?thesis
    unfolding resolve_virtual_def Let_def l' by (simp add: by_name_resolved [OF assms] method_candidates_ids [OF assms] as_set)
qed

lemma import_resolved:
  assumes "table_ids (rc_table ctx) ids"
  shows "resolved_as ids caller_id raw st (resolve_import ctx caller caller_id raw recv_site (st\<lparr>ls_ledger := l\<rparr>))"
  unfolding resolve_import_def Let_def
  by (simp add: virtual_resolved [OF assms] outcome_ids [OF assms] as_set as_single split: option.split resolve_outcome.split)

lemma receiver_resolved:
  assumes "table_ids (rc_table ctx) ids" "receivers_ok ids (rc_receivers ctx)"
  shows "resolved_as ids caller_id raw st (resolve_receiver ctx caller caller_id raw (st\<lparr>ls_ledger := l\<rparr>))"
proof (cases "if is_virtual raw then rc_receivers ctx else None")
  case None
  then show ?thesis unfolding resolve_receiver_def Let_def by (simp add: import_resolved [OF assms(1)])
next
  case (Some rx)
  let ?site = "\<lparr>rs_file = rc_file ctx, rs_file_idx = rc_file_idx ctx, rs_raw = raw, rs_caller = caller, rs_caller_id = caller_id,
    rs_local_def = resolve_local (ff_scopes (fi_facts (rc_file ctx))) (ff_defs (fi_facts (rc_file ctx))) (rr_scope raw) (hd (rr_name_path raw))\<rparr>"
  obtain oc l' where n: "rx_narrow rx ?site l = (oc, l')" by fastforce
  have ok: "hits \<noteq> [] \<and> dt_node_id ` set hits \<subseteq> ids" if "oc = NarrowTyped hits rule vd" for hits rule vd
    using assms(2) Some n that unfolding receivers_ok_def by (metis option.distinct(1))
  show ?thesis
    unfolding resolve_receiver_def Let_def Some
    by (simp add: n ok import_resolved [OF assms(1)] as_set as_dangle split: narrowed.split)
qed

lemma ref_resolved:
  assumes "table_ids (rc_table ctx) ids" "receivers_ok ids (rc_receivers ctx)" "rr_name_path raw \<noteq> []"
  shows "resolved_as ids caller_id raw st (resolve_ref ctx caller caller_id raw st)"
proof -
  let ?nm = "last (rr_name_path raw)"
  have keep: "st\<lparr>ls_ledger := ls_ledger st\<rparr> = st" by simp
  have pinned: "dst \<in> ids" if "pinned_target ctx raw ?nm = Some dst" for dst
  proof -
    from that obtain d fqn where "dst = dt_node_id d" "filter (\<lambda>d. dt_fqn d = fqn) (defs_by_short (rc_table ctx) ?nm) = [d]"
      by (auto simp: pinned_target_def Let_def split: if_splits option.splits list.splits)
    then have "d \<in> set (defs_by_short (rc_table ctx) ?nm)" by (metis filter_is_subset list.set_intros(1) subsetD)
    then show ?thesis using assms(1) \<open>dst = dt_node_id d\<close> by (simp add: table_ids_def)
  qed
  have lexical: "dst \<in> ids" if "lexical_target ctx raw ?nm = Some dst" for dst
    using that assms(1) by (auto simp: lexical_target_def table_ids_def Let_def split: if_splits option.splits)
  have indirect: "resolved_as ids caller_id raw st
      (stamp_last rule (push_edge (single_edge ctx caller caller_id raw caller_id False Possible NameSyntactic ''indirect'') st))" for rule
  proof -
    let ?e = "restamp rule (built_edge (single_edge ctx caller caller_id raw caller_id False Possible NameSyntactic ''indirect''))"
    have "resolved_as ids caller_id raw st (st\<lparr>ls_ledger := ls_ledger st, ls_edges := ls_edges st @ [?e]\<rparr>)"
      by (rule as_edge) (simp_all add: restamp_def single_edge_def built_edge_def)
    then show ?thesis by (simp add: stamp_last_def push_edge_def)
  qed
  show ?thesis
    unfolding resolve_ref_def Let_def
    using assms(3) indirect as_single [of _ caller_id ids Certain "''scope-ref''" raw st ctx caller False ScopeGraph "ls_ledger st", unfolded keep]
      pinned lexical receiver_resolved [OF assms(1,2), of caller_id raw st caller "ls_ledger st", unfolded keep]
    by (auto split: option.split)
qed

subsection \<open>The invariant of the pass\<close>

text \<open>
  Every group below the counter is one candidate set: its rows and its edges, from one source, are
  the same two or more targets in the same order.
\<close>

definition group_is :: "'l link_state \<Rightarrow> nat \<Rightarrow> node_id \<Rightarrow> node_id list \<Rightarrow> bool" where
  "group_is st g src dsts \<longleftrightarrow>
     2 \<le> length dsts \<and> distinct dsts \<and> filter (\<lambda>c. cd_candidate_group c = g) (ls_candidates st) = group_rows g dsts \<and>
     map (\<lambda>e. (e_src (ep_edge e), e_dst (ep_edge e))) (filter (\<lambda>e. e_candidate_group (ep_edge e) = Some g) (ls_edges st)) = map (Pair src) dsts"

definition edge_ok :: "nat \<Rightarrow> nat \<Rightarrow> edge_record \<Rightarrow> bool" where
  "edge_ok n groups e \<longleftrightarrow>
     e_src e < n \<and> e_dst e < n \<and>
     (e_confidence e = Certain \<longrightarrow> e_rule e = ''scope-ref'' \<and> e_candidate_group e = None) \<and>
     (\<forall>g. e_candidate_group e = Some g \<longrightarrow> g < groups \<and> e_confidence e = Possible)"

definition link_ok :: "nat \<Rightarrow> 'l link_state \<Rightarrow> bool" where
  "link_ok n st \<longleftrightarrow>
     (\<forall>e \<in> set (ls_edges st). edge_ok n (ls_next_group st) (ep_edge e)) \<and>
     (\<forall>g < ls_next_group st. \<exists>src dsts. group_is st g src dsts) \<and>
     (\<forall>c \<in> set (ls_candidates st). cd_candidate_group c < ls_next_group st) \<and>
     (\<forall>u \<in> set (ls_unresolved st). ur_caller u < n)"

lemma edge_ok_mono: "edge_ok n g e \<Longrightarrow> g \<le> g' \<Longrightarrow> edge_ok n g' e"
  by (auto simp: edge_ok_def)

lemma group_rows_group: "c \<in> set (group_rows g dsts) \<Longrightarrow> cd_candidate_group c = g"
  by (auto simp: group_rows_def)

lemma link_ok_set:
  assumes ok: "link_ok n st" and ids: "dt_node_id ` set hits \<subseteq> {..<n}" and caller: "caller_id < n"
  shows "link_ok n (emit_candidate_set hits caller_id raw virtual_dispatch rule caller_fqn spn st)"
proof -
  define dsts where d: "dsts = candidate_order rule caller_fqn spn hits"
  define grp where "grp = (if length dsts > 1 then Some (ls_next_group st) else None)"
  let ?new = "map (candidate_edge hits caller_id raw virtual_dispatch rule caller_fqn spn grp (length dsts)) dsts"
  let ?g = "ls_next_group st" and ?many = "length dsts > 1"
  define st' where "st' = st\<lparr>ls_edges := ls_edges st @ ?new,
    ls_candidates := ls_candidates st @ (if ?many then group_rows ?g dsts else []), ls_next_group := ?g + (if ?many then 1 else 0)\<rparr>"
  have st': "emit_candidate_set hits caller_id raw virtual_dispatch rule caller_fqn spn st = st'"
    unfolding emit_candidate_set_eq [OF d] st'_def grp_def Let_def ..
  have dst: "\<forall>x \<in> set dsts. x < n" using ids candidate_order_ids [of rule caller_fqn spn hits] d by auto
  have new_fields: "e_src (ep_edge e) = caller_id \<and> e_dst (ep_edge e) \<in> set dsts \<and> e_candidate_group (ep_edge e) = grp \<and>
      e_confidence (ep_edge e) \<noteq> Certain \<and> (?many \<longrightarrow> e_confidence (ep_edge e) = Possible)" if "e \<in> set ?new" for e
    using that candidate_edge_fields [OF refl] by (auto split: if_splits)
  have new_ok: "edge_ok n (ls_next_group st') (ep_edge e)" if "e \<in> set ?new" for e
    using new_fields [OF that] dst caller by (auto simp: edge_ok_def st'_def grp_def split: if_splits)
  have old_edges: "edge_ok n (ls_next_group st') (ep_edge e)" if "e \<in> set (ls_edges st)" for e
    using ok that by (auto simp: link_ok_def st'_def intro: edge_ok_mono)
  have old_group: "e_candidate_group (ep_edge e) \<noteq> Some ?g" if "e \<in> set (ls_edges st)" for e
    using ok that by (auto simp: link_ok_def edge_ok_def)
  have new_group: "filter (\<lambda>e. e_candidate_group (ep_edge e) = Some g) ?new = (if grp = Some g then ?new else [])" for g
    using new_fields by (auto simp: filter_empty_conv filter_id_conv)
  have pairs: "map (\<lambda>e. (e_src (ep_edge e), e_dst (ep_edge e))) ?new = map (Pair caller_id) dsts"
    by (simp add: candidate_edge_fields [OF refl])
  have groups: "\<exists>src ds. group_is st' g src ds" if "g < ls_next_group st'" for g
  proof (cases "g < ?g")
    case True
    then obtain src ds where "group_is st g src ds" using ok by (auto simp: link_ok_def)
    moreover have "grp \<noteq> Some g" using True by (simp add: grp_def)
    ultimately have "group_is st' g src ds"
      using True new_group by (auto simp: group_is_def st'_def filter_empty_conv dest: group_rows_group)
    then show ?thesis by blast
  next
    case False
    then have many: ?many "g = ?g" "grp = Some g" using that by (auto simp: st'_def grp_def split: if_splits)
    have "filter (\<lambda>c. cd_candidate_group c = ?g) (ls_candidates st) = []" using ok by (auto simp: link_ok_def filter_empty_conv)
    moreover have "filter (\<lambda>c. cd_candidate_group c = ?g) (group_rows ?g dsts) = group_rows ?g dsts"
      by (auto simp: filter_id_conv dest: group_rows_group)
    moreover have "filter (\<lambda>e. e_candidate_group (ep_edge e) = Some ?g) (ls_edges st) = []"
      using old_group by (auto simp: filter_empty_conv)
    moreover have "distinct dsts" using candidate_order_distinct d by simp
    ultimately have "group_is st' ?g caller_id dsts"
      using many new_group [of ?g] pairs by (simp add: group_is_def st'_def)
    then show ?thesis using many(2) by blast
  qed
  have "\<forall>c \<in> set (ls_candidates st'). cd_candidate_group c < ls_next_group st'" "\<forall>u \<in> set (ls_unresolved st'). ur_caller u < n"
    using ok by (auto simp: link_ok_def st'_def dest: group_rows_group)
  then show ?thesis
    unfolding st' link_ok_def using groups old_edges new_ok by (auto simp: st'_def)
qed

lemma group_is_cong:
  "ls_candidates st' = ls_candidates st \<Longrightarrow> filter (\<lambda>e. e_candidate_group (ep_edge e) = Some g) (ls_edges st') =
     filter (\<lambda>e. e_candidate_group (ep_edge e) = Some g) (ls_edges st) \<Longrightarrow> group_is st' g src ds = group_is st g src ds"
  by (simp add: group_is_def)

lemma link_ok_resolved:
  assumes "resolved_as ids caller_id raw st st'" "link_ok n st" "ids \<subseteq> {..<n}" "caller_id < n"
  shows "link_ok n st'"
  using assms
proof cases
  case (as_edge e l)
  then have "edge_ok n (ls_next_group st) (ep_edge e)" using assms(3,4) by (auto simp: edge_ok_def)
  moreover have "group_is st' g src ds = group_is st g src ds" for g src ds
    by (rule group_is_cong) (use as_edge in simp_all)
  ultimately show ?thesis using assms(2) as_edge by (auto simp: link_ok_def)
next
  case (as_set hits virtual_dispatch rule caller_fqn spn l)
  have "link_ok n (st\<lparr>ls_ledger := l\<rparr>)" using assms(2) by (simp add: link_ok_def group_is_def)
  then show ?thesis using as_set assms(3,4) by (auto intro!: link_ok_set)
next
  case (as_dangling u l)
  then show ?thesis using assms(2,4) by (auto simp: link_ok_def group_is_def)
qed

end
