(* ===== verification/Resolve_Link_Properties.thy ===== *)
theory Resolve_Link_Properties
  imports Resolve_Link Resolve_Refs_Laws
begin

text \<open>
  Properties of the link pass: every reference leaves an edge or a dangling reference, the state that
  the references leave is well formed, and the node counters agree with the dangling references.
\<close>

subsection \<open>One reference\<close>

lemma resolved_trace:
  assumes "resolved_as ids caller_id raw st st'"
  shows "(\<exists>new. new \<noteq> [] \<and> ls_edges st' = ls_edges st @ new \<and> ls_unresolved st' = ls_unresolved st \<and>
      (\<forall>e \<in> set new. e_src (ep_edge e) = caller_id \<and> e_dst (ep_edge e) \<in> insert caller_id ids)) \<or>
    (\<exists>u. ls_edges st' = ls_edges st \<and> ls_candidates st' = ls_candidates st \<and> ls_unresolved st' = ls_unresolved st @ [u] \<and>
      ur_caller u = caller_id)"
  using assms
proof cases
  case (as_set hits vd rule caller_fqn spn l)
  define dsts where d: "dsts = candidate_order rule caller_fqn spn hits"
  have "dsts \<noteq> []" using as_set(2) candidate_order_ids [of rule caller_fqn spn hits] d by auto
  moreover have "\<forall>x \<in> set dsts. x \<in> ids" using as_set(3) candidate_order_ids [of rule caller_fqn spn hits] d by auto
  ultimately show ?thesis
    unfolding as_set(1) emit_candidate_set_eq [OF d] Let_def by (auto simp: candidate_edge_fields [OF refl])
qed auto

text \<open>
  C10. Resolving a reference with a name never loses it: the state gains at least one edge from the
  caller to a definition of the table (or to the caller itself, for an indirect call) and no dangling
  reference, or it gains exactly one dangling reference of the caller and neither edges nor candidates.
\<close>
theorem resolve_ref_leaves_trace:
  assumes "rr_name_path raw \<noteq> []" "rc_table ctx = symbol_table_build nodes files"
    "receivers_ok (n_id ` set nodes) (rc_receivers ctx)" "st' = resolve_ref ctx caller caller_id raw st"
  shows "(\<exists>new. new \<noteq> [] \<and> ls_edges st' = ls_edges st @ new \<and> ls_unresolved st' = ls_unresolved st \<and>
      (\<forall>e \<in> set new. e_src (ep_edge e) = caller_id \<and> e_dst (ep_edge e) \<in> insert caller_id (n_id ` set nodes))) \<or>
    (\<exists>u. ls_edges st' = ls_edges st \<and> ls_candidates st' = ls_candidates st \<and> ls_unresolved st' = ls_unresolved st @ [u] \<and>
      ur_caller u = caller_id)"
  unfolding assms(4) by (rule resolved_trace, rule ref_resolved [OF table_ids_build [OF assms(2)] assms(3,1)])

text \<open>
  C11. Looking up a member of a module follows re-exports: the answer is what some module on the chain
  of hops answers directly, and it is none exactly when no module on the chain has the member. A
  cyclic chain of re-exports ends.
\<close>
theorem resolve_member_follows_chain:
  "(\<exists>p. (hop t)\<^sup>*\<^sup>* (spec, nm) p \<and> resolve_member_direct t (fst p) (snd p) = resolve_member t spec nm) \<and>
   (resolve_member t spec nm = OutNone \<longleftrightarrow> \<not> (\<exists>p. (hop t)\<^sup>*\<^sup>* (spec, nm) p \<and> resolve_member_direct t (fst p) (snd p) \<noteq> OutNone))"
proof (cases "resolve_member t spec nm = OutNone")
  case True
  then have none: "\<forall>p. (hop t)\<^sup>*\<^sup>* (spec, nm) p \<longrightarrow> resolve_member_direct t (fst p) (snd p) = OutNone"
    by (simp only: resolve_member_chain(1))
  then have "(hop t)\<^sup>*\<^sup>* (spec, nm) (spec, nm) \<and> resolve_member_direct t (fst (spec, nm)) (snd (spec, nm)) = resolve_member t spec nm"
    using True by simp
  then show ?thesis using none True by blast
next
  case False
  then obtain p where "(hop t)\<^sup>*\<^sup>* (spec, nm) p" "resolve_member_direct t (fst p) (snd p) = resolve_member t spec nm"
    using resolve_member_chain(2) [OF False] by blast
  then show ?thesis using False by metis
qed

subsection \<open>All references\<close>

lemma resolve_file_ref_cases:
  assumes "table_ids (rc_table ctx) ids" "receivers_ok ids (rc_receivers ctx)"
  shows "resolve_file_ref ctx def_to_node raw st = st \<or>
    (\<exists>caller_id fqn. map_of def_to_node fqn = Some caller_id \<and> resolved_as ids caller_id raw st (resolve_file_ref ctx def_to_node raw st))"
proof (cases "rr_name_path raw = []")
  case True
  then show ?thesis by (simp add: resolve_file_ref_def resolve_ref_def Let_def split: option.split)
next
  case False
  then show ?thesis
    using ref_resolved [OF assms False]
    by (fastforce simp: resolve_file_ref_def Let_def split: option.split)
qed

lemma build_nodes_ids: "map (\<lambda>n. n_id (np_node n)) (fst (build_nodes inputs)) = [0..<length (fst (build_nodes inputs))]"
  by (simp add: build_nodes_def Let_def assign_ids_ids)

lemma build_nodes_id_set: "n_id ` set (map np_node (fst (build_nodes inputs))) = {..<length (fst (build_nodes inputs))}"
proof -
  have "n_id ` set (map np_node (fst (build_nodes inputs))) = set (map (\<lambda>n. n_id (np_node n)) (fst (build_nodes inputs)))"
    by (simp add: image_image)
  then show ?thesis by (simp only: build_nodes_ids) auto
qed

lemma build_nodes_get: "map_of (snd (build_nodes inputs)) fqn = Some i \<Longrightarrow> i < length (fst (build_nodes inputs))"
proof -
  assume "map_of (snd (build_nodes inputs)) fqn = Some i"
  then have "map_of (fqn_to_node (fst (build_nodes inputs))) fqn = Some i" by (simp add: build_nodes_def Let_def)
  then have "i \<in> n_id ` set (map np_node (fst (build_nodes inputs)))"
    unfolding fqn_to_node_get by (auto dest!: map_of_SomeD)
  then show ?thesis unfolding build_nodes_id_set by simp
qed

lemma fold_invariant: "P s \<Longrightarrow> (\<And>x s. x \<in> set xs \<Longrightarrow> P s \<Longrightarrow> P (f x s)) \<Longrightarrow> P (fold f xs s)"
  by (induction xs arbitrary: s) auto

lemma link_start_ok: "link_ok n (link_start ledger)"
  by (simp add: link_ok_def link_start_def)

text \<open>
  C9. The references of all files leave a well-formed state, whatever the files hold: every edge joins
  existing nodes, only a lexical hit is certain, an edge of a candidate group is only possible, every
  group that was opened holds two or more distinct targets whose rows and edges (all from one caller)
  agree in order, and every dangling reference names an existing caller.
\<close>
theorem link_refs_well_formed:
  assumes "receivers_ok {..<length (fst (build_nodes inputs))} rx"
  shows "link_ok (length (fst (build_nodes inputs))) (link_refs opts rx inputs ledger)"
proof -
  let ?n = "length (fst (build_nodes inputs))" and ?t = "link_table inputs"
  have t: "table_ids ?t {..<?n}"
    unfolding build_nodes_id_set [symmetric] link_table_def by (rule table_ids_build) simp
  have step: "link_ok ?n (resolve_file_ref (file_context ?t opts rx i f) (snd (build_nodes inputs)) raw st)"
    if "link_ok ?n st" for raw st i f
  proof -
    have "table_ids (rc_table (file_context ?t opts rx i f)) {..<?n}" "receivers_ok {..<?n} (rc_receivers (file_context ?t opts rx i f))"
      using t assms by (simp_all add: file_context_def)
    from resolve_file_ref_cases [OF this, of "snd (build_nodes inputs)" raw st] show ?thesis
      using that by (auto intro: link_ok_resolved dest: build_nodes_get)
  qed
  show ?thesis
    unfolding link_refs_def resolve_file_def
    by (rule fold_invariant [where P = "link_ok ?n"]) (auto intro: link_start_ok fold_invariant [where P = "link_ok ?n"] step split: prod.split)
qed

subsection \<open>Counters of dangling references\<close>

definition dangling_at :: "unresolved_ref list \<Rightarrow> node_id \<Rightarrow> (cut_marker \<Rightarrow> bool) \<Rightarrow> nat" where
  "dangling_at us i kinds = length (filter (\<lambda>u. ur_caller u = i \<and> kinds (ur_marker u)) us)"

lemma dangling_at_append [simp]:
  "dangling_at (us @ [u]) i kinds = dangling_at us i kinds + (if ur_caller u = i \<and> kinds (ur_marker u) then 1 else 0)"
  by (simp add: dangling_at_def)

lemma dangling_at_sort [simp]: "dangling_at (sort_key k us) i kinds = dangling_at us i kinds"
proof -
  have "length (filter P (sort_key k us)) = length (filter P us)" for P :: "unresolved_ref \<Rightarrow> bool"
    by (metis mset_filter mset_sort size_mset)
  then show ?thesis by (simp add: dangling_at_def)
qed

definition dangling_counts :: "unresolved_ref list \<Rightarrow> node_id \<Rightarrow> dangling" where
  "dangling_counts us i =
     (dangling_at us i (\<lambda>m. m \<noteq> External \<and> m \<noteq> UntypedReceiver), dangling_at us i (\<lambda>m. m = External),
      dangling_at us i (\<lambda>m. m = UntypedReceiver))"

lemma dangling_counts_none: "i \<notin> ur_caller ` set us \<Longrightarrow> dangling_counts us i = (0, 0, 0)"
  by (auto simp: dangling_counts_def dangling_at_def filter_empty_conv)

lemma count_dangling_get:
  "map_of (count_dangling us) i = (if i \<in> ur_caller ` set us then Some (dangling_counts us i) else None)"
proof (induction us arbitrary: i rule: rev_induct)
  case (snoc u us)
  let ?c = "ur_caller u"
  have old: "(case map_of (count_dangling us) ?c of Some d \<Rightarrow> d | None \<Rightarrow> (0, 0, 0)) = dangling_counts us ?c"
    by (simp add: snoc dangling_counts_none)
  have "count_dangling (us @ [u]) = bt_insert ?c (dangling_counts (us @ [u]) ?c) (count_dangling us)"
    using old unfolding count_dangling_def
    by (cases "ur_marker u") (simp_all add: Let_def dangling_counts_def)
  then show ?case
    by (auto simp: map_of_bt_insert snoc dangling_counts_def)
qed (simp add: count_dangling_def)

definition node_counts :: "node_record \<Rightarrow> dangling" where
  "node_counts n = (n_unresolved_calls n, n_external_calls n, nc_visible_dropped_out (n_narrowing n))"

lemma stamp_counts_id [simp]: "n_id (stamp_counts dangling narrow n) = n_id n"
  by (simp add: stamp_counts_def Let_def split: option.split)

lemma stamp_counts_node:
  "node_counts n = (0, 0, 0) \<Longrightarrow> node_counts (stamp_counts (count_dangling us) narrow n) = dangling_counts us (n_id n)"
  by (auto simp: stamp_counts_def Let_def node_counts_def count_dangling_get dangling_counts_none split: option.split prod.split)

lemma finalize_nodes:
  assumes "\<forall>n \<in> set nodes. node_counts (np_node n) = (0, 0, 0)"
    and "n \<in> set (rg_nodes (finalize nodes edges candidates us narrow))"
  shows "node_counts (np_node n) = dangling_counts us (n_id (np_node n))"
proof -
  have counts: "dangling_counts (sort_key unresolved_key us) i = dangling_counts us i" for i
    by (simp add: dangling_counts_def)
  have none: "dangling_counts us i = (0, 0, 0)" if "count_dangling (sort_key unresolved_key us) = []" for i
    using count_dangling_get [of "sort_key unresolved_key us" i] that
    by (auto intro!: dangling_counts_none split: if_splits)
  have nodes: "rg_nodes (canonicalize g) = rg_nodes g" for g
    by (simp add: canonicalize_def split: prod.split)
  show ?thesis
    using assms unfolding finalize_def Let_def nodes by (auto simp: stamp_counts_node counts none split: if_splits)
qed

lemma build_nodes_fresh: "\<forall>n \<in> set (fst (build_nodes inputs)). node_counts (np_node n) = (0, 0, 0)"
proof -
  define staged where "staged = concat (map (\<lambda>f. map (staged_node f) (ff_defs (fi_facts f))) inputs)"
  have "\<forall>n \<in> set staged. node_counts (np_node n) = (0, 0, 0)"
    by (auto simp: staged_def staged_node_def node_counts_def narrowing_zero_def)
  then have "\<forall>n \<in> set (assign_ids (sort_key (\<lambda>n. node_sort_key (np_node n)) staged)). node_counts (np_node n) = (0, 0, 0)"
    by (auto simp: in_set_conv_nth assign_ids_nth assign_id_def node_counts_def)
      (metis (no_types, lifting) length_sort node_counts_def nth_mem set_sort)+
  then show ?thesis by (simp add: build_nodes_def Let_def staged_def)
qed

lemma finalize_length: "length (rg_nodes (finalize nodes edges candidates us narrow)) = length nodes"
  by (simp add: finalize_def Let_def canonicalize_def split: prod.split)


lemma finalize_unresolved: "rg_unresolved (finalize nodes edges candidates us narrow) = sort_key unresolved_key us"
  by (simp add: finalize_def Let_def canonicalize_def split: prod.split)

lemma emit_candidate_set_unresolved [simp]:
  "ls_unresolved (emit_candidate_set hits caller_id raw vd rule caller_fqn spn st) = ls_unresolved st"
  by (simp add: emit_candidate_set_eq [OF refl] Let_def)

definition dangles :: "'l ref_context \<Rightarrow> symbol_def \<Rightarrow> node_id \<Rightarrow> raw_ref \<Rightarrow> 'l link_state \<Rightarrow> 'l link_state \<Rightarrow> bool" where
  "dangles ctx caller caller_id raw st st' \<longleftrightarrow>
     ls_unresolved st' = ls_unresolved st \<or> (\<exists>m. ls_unresolved st' = ls_unresolved st @ [dangling_ref ctx caller caller_id raw m])"

lemma dangles_refl [simp]: "ls_unresolved st' = ls_unresolved st \<Longrightarrow> dangles ctx caller caller_id raw st st'"
  by (simp add: dangles_def)

lemma by_name_dangles: "ls_unresolved st' = ls_unresolved st \<Longrightarrow> dangles ctx caller caller_id raw st (resolve_by_name ctx caller caller_id raw st')"
  by (auto simp: resolve_by_name_def Let_def dangles_def dangle_def)

lemma virtual_dangles: "ls_unresolved st' = ls_unresolved st \<Longrightarrow> dangles ctx caller caller_id raw st (resolve_virtual ctx caller caller_id raw recv st')"
  by (auto simp: resolve_virtual_def Let_def by_name_dangles split: option.split)

lemma import_dangles: "ls_unresolved st' = ls_unresolved st \<Longrightarrow> dangles ctx caller caller_id raw st (resolve_import ctx caller caller_id raw recv st')"
  by (simp add: resolve_import_def Let_def virtual_dangles push_edge_def split: option.split resolve_outcome.split)

lemma receiver_dangles: "dangles ctx caller caller_id raw st (resolve_receiver ctx caller caller_id raw st)"
  by (auto simp: resolve_receiver_def Let_def import_dangles dangle_def dangles_def [of _ _ _ _ _ "st\<lparr>ls_ledger := _, ls_unresolved := _\<rparr>"]
      split: option.split narrowed.split prod.split)

lemma ref_dangles: "dangles ctx caller caller_id raw st (resolve_ref ctx caller caller_id raw st)"
  by (auto simp: resolve_ref_def Let_def receiver_dangles push_edge_def stamp_last_def split: option.split)

lemma link_refs_callers:
  "\<forall>u \<in> set (ls_unresolved (link_refs opts rx inputs ledger)). map_of (snd (build_nodes inputs)) (ur_caller_fqn u) = Some (ur_caller u)"
proof -
  let ?ok = "\<lambda>st. \<forall>u \<in> set (ls_unresolved st). map_of (snd (build_nodes inputs)) (ur_caller_fqn u) = Some (ur_caller u)"
  have step: "?ok (resolve_file_ref ctx (snd (build_nodes inputs)) raw st)" if "?ok st" for ctx raw and st :: "'a link_state"
  proof -
    have "?ok (resolve_ref ctx caller i raw st)" if "map_of (snd (build_nodes inputs)) (sy_fqn caller) = Some i" for caller i
      using ref_dangles [of ctx caller i raw st] \<open>?ok st\<close> that by (auto simp: dangles_def dangling_ref_def)
    then show ?thesis using that by (auto simp: resolve_file_ref_def Let_def split: option.split)
  qed
  have files: "?ok (fold (resolve_file_ref ctx (snd (build_nodes inputs))) raws st)" if "?ok st" for ctx raws and st :: "'a link_state"
    by (rule fold_invariant [where P = ?ok]) (use that step in blast)+
  show ?thesis
    unfolding link_refs_def resolve_file_def
    by (rule fold_invariant [where P = ?ok]) (use files in \<open>auto simp: link_start_def split: prod.split\<close>)
qed

lemma build_nodes_fqn:
  assumes "map_of (snd (build_nodes inputs)) fqn = Some i"
  shows "i < length (fst (build_nodes inputs)) \<and> n_fqn (np_node (fst (build_nodes inputs) ! i)) = fqn"
proof -
  let ?ns = "fst (build_nodes inputs)"
  have "map_of (fqn_to_node ?ns) fqn = Some i" using assms by (simp add: build_nodes_def Let_def)
  then have "(fqn, i) \<in> set (map (\<lambda>n. (n_fqn (np_node n), n_id (np_node n))) ?ns)"
    unfolding fqn_to_node_get by (metis map_of_SomeD set_rev)
  then obtain k where k: "k < length ?ns" "n_fqn (np_node (?ns ! k)) = fqn" "n_id (np_node (?ns ! k)) = i"
    by (auto simp: in_set_conv_nth)
  then have "i = k" using arg_cong [OF build_nodes_ids [of inputs], of "\<lambda>l. l ! k"] by simp
  then show ?thesis using k by simp
qed

lemma finalize_fqns: "map (\<lambda>n. n_fqn (np_node n)) (rg_nodes (finalize nodes edges candidates us narrow)) = map (\<lambda>n. n_fqn (np_node n)) nodes"
  by (simp add: finalize_def Let_def canonicalize_def stamp_counts_def comp_def split: prod.split option.split)



subsection \<open>Counters when value nodes are merged in\<close>

lemma sort_nodes_fqns:
  "map (\<lambda>n. n_fqn (np_node n)) (fst (sort_nodes_canonical ns es cs)) = map (\<lambda>n. n_fqn (np_node n)) (sort_key node_key_of ns)"
  by (auto simp: sort_nodes_canonical_def Let_def sort_key_id_if_sorted assign_ids_nth assign_id_def intro!: nth_equalityI)

lemma sort_nodes_ids:
  "map (\<lambda>n. n_id (np_node n)) ns = [0..<length ns] \<Longrightarrow> map (\<lambda>n. n_id (np_node n)) (fst (sort_nodes_canonical ns es cs)) = [0..<length ns]"
  by (simp add: sort_nodes_canonical_def Let_def assign_ids_ids)

lemma sort_nodes_fresh:
  assumes "\<forall>n \<in> set ns. node_counts (np_node n) = (0, 0, 0)" "n \<in> set (fst (sort_nodes_canonical ns es cs))"
  shows "node_counts (np_node n) = (0, 0, 0)"
proof -
  have "node_counts (np_node (assign_id i m)) = node_counts (np_node m)" for i m by (simp add: assign_id_def node_counts_def)
  then have "\<forall>m \<in> set (assign_ids (sort_key node_key_of ns)). node_counts (np_node m) = (0, 0, 0)"
    using assms(1) unfolding set_conv_nth [of "assign_ids _"] by (auto simp: assign_ids_nth) (metis length_sort nth_mem set_sort)
  then show ?thesis using assms by (simp add: sort_nodes_canonical_def Let_def split: if_splits)
qed

lemma finalize_ids: "map (\<lambda>n. n_id (np_node n)) (rg_nodes (finalize nodes edges candidates us narrow)) = map (\<lambda>n. n_id (np_node n)) nodes"
  by (simp add: finalize_def Let_def canonicalize_def comp_def split: prod.split)

definition merged_nodes :: "file_input list \<Rightarrow> node_with_provenance list \<Rightarrow> edge_with_provenance list \<Rightarrow> candidate list \<Rightarrow> node_with_provenance list" where
  "merged_nodes inputs vals es cs = fst (sort_nodes_canonical (fst (build_nodes inputs) @ vals) es cs)"

text \<open>Values are appended to the definitions as fresh variable nodes, with the ids that follow.\<close>

definition value_nodes :: "file_input list \<Rightarrow> node_with_provenance list \<Rightarrow> bool" where
  "value_nodes inputs vals \<longleftrightarrow>
     (\<exists>staged. vals = map2 value_into_node [length (fst (build_nodes inputs))..<length (fst (build_nodes inputs)) + length staged] staged)"

lemma value_nodes_fresh:
  "value_nodes inputs vals \<Longrightarrow> v \<in> set vals \<Longrightarrow> node_counts (np_node v) = (0, 0, 0) \<and> n_kind (np_node v) = Variable"
  by (auto simp: value_nodes_def value_into_node_def node_counts_def narrowing_zero_def)

lemma value_nodes_ids:
  assumes "value_nodes inputs vals"
  shows "map (\<lambda>n. n_id (np_node n)) (fst (build_nodes inputs) @ vals) = [0..<length (fst (build_nodes inputs) @ vals)]"
proof -
  let ?n = "length (fst (build_nodes inputs))"
  obtain staged where v: "vals = map2 value_into_node [?n..<?n + length staged] staged" using assms by (auto simp: value_nodes_def)
  have "map (\<lambda>n. n_id (np_node n)) vals = [?n..<?n + length vals]"
    by (rule nth_equalityI) (simp_all add: v value_into_node_def)
  then show ?thesis by (simp add: build_nodes_ids flip: upt_add_eq_append)
qed

lemma link_graph_merged:
  obtains vals es cs edges us narrow where
    "value_nodes inputs vals" "\<not> lo_dataflow opts \<longrightarrow> vals = []"
    "rg_nodes (link_graph nw codec inputs opts) = rg_nodes (finalize (merged_nodes inputs vals es cs) edges cs us narrow)"
    "rg_unresolved (link_graph nw codec inputs opts) = sort_key unresolved_key us"
    "\<forall>u \<in> set us. map_of (snd (build_nodes inputs)) (ur_caller_fqn u) = Some (ur_caller u)"
proof -
  obtain nodes d where b: "build_nodes inputs = (nodes, d)" by fastforce
  obtain rx ledger where r: "(if lo_receiver_narrowing opts
      then (case nw_build nw inputs (link_table inputs) (nw_new nw (lo_narrowing_trace opts)) of (r, l) \<Rightarrow> (Some r, l))
      else (None, nw_new nw (lo_narrowing_trace opts))) = (rx, ledger)" by fastforce
  define st where "st = link_refs opts rx inputs ledger"
  obtain precision narrow where n: "nw_finish nw (ls_ledger st) (link_table inputs) = (precision, narrow)" by fastforce
  obtain ns es out where f: "(if lo_dataflow opts
      then resolve_data_flows codec inputs d (link_table inputs) nodes (link_relations inputs (ls_edges st)) (lo_prior_fn_cache opts)
        (case lo_max_summary_edges opts of None \<Rightarrow> default_max_summary_edges | Some n \<Rightarrow> n)
      else (nodes, link_relations inputs (ls_edges st), dataflow_output_empty)) = (ns, es, out)"
    by (metis prod.collapse)
  have "\<exists>vals. ns = nodes @ vals \<and> value_nodes inputs vals \<and> (\<not> lo_dataflow opts \<longrightarrow> vals = [])"
  proof (cases "lo_dataflow opts")
    case True
    define staged where "staged = sort_key value_order (map snd (fs_values
      (walk_flows inputs d (link_table inputs) (summary_site_callees inputs d nodes (link_relations inputs (ls_edges st))))))"
    have "ns = nodes @ map2 value_into_node [length nodes..<length nodes + length staged] staged"
      using True f by (simp add: resolve_data_flows_def Let_def staged_def)
    then show ?thesis using True b unfolding value_nodes_def by auto
  next
    case False
    then have "ns = nodes @ []" using f by simp
    then show ?thesis unfolding value_nodes_def by (intro exI [of _ "[]"] conjI) auto
  qed
  then obtain vals where v: "ns = nodes @ vals" "value_nodes inputs vals" "\<not> lo_dataflow opts \<longrightarrow> vals = []" by blast
  obtain ms es' cs' remap where m: "sort_nodes_canonical ns es (ls_candidates st) = (ms, es', cs', remap)" by (metis prod.collapse)
  have g: "link_graph nw codec inputs opts =
      (finalize ms es' cs' (ls_unresolved st) (remap_counts remap narrow))\<lparr>rg_dataflow := out, rg_precision := precision\<rparr>"
    unfolding link_graph_def b Let_def prod.case r st_def [symmetric] f m n ..
  have nodes: "rg_nodes (finalize x1 y1 z1 u w1) = rg_nodes (finalize x1 y2 z2 u w1)" for x1 y1 y2 z1 z2 u w1
    by (simp add: finalize_def Let_def canonicalize_def split: prod.split)
  show thesis
    by (rule that [of vals es "ls_candidates st" es' "ls_unresolved st" "remap_counts remap narrow"])
      (use v(2,3) nodes in \<open>simp_all add: g merged_nodes_def b m v(1) [symmetric] finalize_unresolved
        link_refs_callers [of opts rx inputs ledger, folded st_def, unfolded b snd_conv]\<close>)
qed

text \<open>
  C13. The counters of dangling references under every choice of options, data flow included. The
  nodes of a linked graph carry the ids 0, 1, 2 and so on; in order, they are the definitions merged
  with the value nodes of the data flow (none without it). The counters of every node are the numbers
  of the dangling references whose caller id is the id of the node, of each of the three kinds. But a
  caller id is the position of the caller among the definitions alone, before the values were merged
  in. So a definition keeps its own counters only while no value sorts before it; the witness shows
  a value node with the counter of a function, whose own node counts nothing.
\<close>
theorem counters_follow_old_ids:
  assumes "g = link_graph nw codec inputs opts"
  shows "map (\<lambda>n. n_id (np_node n)) (rg_nodes g) = [0..<length (rg_nodes g)] \<and>
    (\<exists>vals. (\<forall>v \<in> set vals. n_kind (np_node v) = Variable) \<and> (\<not> lo_dataflow opts \<longrightarrow> vals = []) \<and>
       map (\<lambda>n. n_fqn (np_node n)) (rg_nodes g) = map (\<lambda>n. n_fqn (np_node n)) (sort_key node_key_of (fst (build_nodes inputs) @ vals))) \<and>
    (\<forall>n \<in> set (rg_nodes g). node_counts (np_node n) = dangling_counts (rg_unresolved g) (n_id (np_node n))) \<and>
    (\<forall>u \<in> set (rg_unresolved g). ur_caller u < length (fst (build_nodes inputs)) \<and>
       n_fqn (np_node (fst (build_nodes inputs) ! ur_caller u)) = ur_caller_fqn u)"
proof -
  obtain vals es cs edges us narrow where v: "value_nodes inputs vals" "\<not> lo_dataflow opts \<longrightarrow> vals = []"
    and g: "rg_nodes g = rg_nodes (finalize (merged_nodes inputs vals es cs) edges cs us narrow)" "rg_unresolved g = sort_key unresolved_key us"
    and callers: "\<forall>u \<in> set us. map_of (snd (build_nodes inputs)) (ur_caller_fqn u) = Some (ur_caller u)"
    unfolding assms by (rule link_graph_merged)
  have ids: "map (\<lambda>n. n_id (np_node n)) (rg_nodes g) = [0..<length (rg_nodes g)]"
    using sort_nodes_ids [OF value_nodes_ids [OF v(1)], of es cs] unfolding g merged_nodes_def [symmetric] finalize_ids finalize_length
    by (metis length_map length_upt diff_zero)
  have fqns: "map (\<lambda>n. n_fqn (np_node n)) (rg_nodes g) = map (\<lambda>n. n_fqn (np_node n)) (sort_key node_key_of (fst (build_nodes inputs) @ vals))"
    unfolding g finalize_fqns merged_nodes_def by (rule sort_nodes_fqns)
  have "\<forall>n \<in> set (fst (build_nodes inputs) @ vals). node_counts (np_node n) = (0, 0, 0)"
    using build_nodes_fresh [of inputs] value_nodes_fresh [OF v(1)] by auto
  then have fresh: "\<forall>n \<in> set (merged_nodes inputs vals es cs). node_counts (np_node n) = (0, 0, 0)"
    unfolding merged_nodes_def using sort_nodes_fresh by blast
  have "dangling_counts (sort_key unresolved_key us) i = dangling_counts us i" for i by (simp add: dangling_counts_def)
  then have counts: "\<forall>n \<in> set (rg_nodes g). node_counts (np_node n) = dangling_counts (rg_unresolved g) (n_id (np_node n))"
    using finalize_nodes [OF fresh] unfolding g by simp
  show ?thesis
    using ids fqns counts callers g(2) v(2) value_nodes_fresh [OF v(1)] build_nodes_fqn by (intro conjI exI [of _ vals]) auto
qed

subsection \<open>A file with two functions\<close>

definition sample_symbol :: "string \<Rightarrow> scope_id \<Rightarrow> nat \<Rightarrow> symbol_def" where
  "sample_symbol fqn sc line =
     \<lparr>sy_fqn = fqn, sy_kind = Function, sy_visibility = Public, sy_scope = sc, sy_span = \<lparr>sp_file = [], sp_line = line, sp_col = None\<rparr>,
      sy_line_end = line, sy_is_abstract = False, sy_signature = None\<rparr>"

definition two_facts :: file_facts where
  "two_facts = facts_empty\<lparr>
     ff_defs := [sample_symbol ''m::f'' 0 1, sample_symbol ''m::g'' 0 10],
     ff_refs := [(sample_ref [''missing''] RefCall 11 [])\<lparr>rr_scope := 2\<rparr>],
     ff_scopes := \<lparr>scopes = [\<lparr>sc_parent = None, sc_owner_fqn = None\<rparr>, \<lparr>sc_parent = Some 0, sc_owner_fqn = Some ''m::f''\<rparr>,
       \<lparr>sc_parent = Some 0, sc_owner_fqn = Some ''m::g''\<rparr>]\<rparr>,
     ff_data_flows := [\<lparr>fl_derived = [''x''], fl_source = [''y''], fl_derived_version = 0, fl_scope = 1, fl_transform = Copy,
       fl_edge_condition = Always, fl_cut_markers = [], fl_callee_fqn = None, fl_args = [],
       fl_span = \<lparr>sp_file = [], sp_line = 2, sp_col = None\<rparr>\<rparr>]\<rparr>"

definition two_files :: "file_input list" where
  "two_files = [\<lparr>fi_blob_oid = ''oid'', fi_path = ''m.rs'', fi_lang = ''rust'', fi_facts = two_facts\<rparr>]"

definition no_narrower :: "unit narrower" where
  "no_narrower =
     \<lparr>nw_new = (\<lambda>_. ()), nw_build = (\<lambda>_ _ l. (\<lparr>rx_narrow = (\<lambda>_ l. (NarrowLegacy, l)), rx_record_legacy = (\<lambda>_ _ l. l)\<rparr>, l)),
      nw_finish = (\<lambda>_ _. (precision_zero, []))\<rparr>"

lemma two_nodes: "map (\<lambda>n. (n_fqn (np_node n), n_id (np_node n))) (fst (build_nodes two_files)) = [(''m::f'', 0), (''m::g'', 1)]"
  by code_simp

lemma resolve_ref_leaves_trace_witness:
  "1 \<le> length (ls_edges (resolve_ref (file_context (symbol_table_build [] []) link_opts_default None 0 (hd two_files))
      (sample_symbol ''m::g'' 0 10) 1 (sample_ref [''missing''] RefCall 11 []) (link_start ()))) +
    length (ls_unresolved (resolve_ref (file_context (symbol_table_build [] []) link_opts_default None 0 (hd two_files))
      (sample_symbol ''m::g'' 0 10) 1 (sample_ref [''missing''] RefCall 11 []) (link_start ())))"
  using resolve_ref_leaves_trace [of "sample_ref [''missing''] RefCall 11 []"
      "file_context (symbol_table_build [] []) link_opts_default None 0 (hd two_files)" "[]" "[]" _ "sample_symbol ''m::g'' 0 10" 1 "link_start ()", OF _ _ _ refl]
  by (auto simp: sample_ref_def file_context_def receivers_ok_def link_start_def Suc_le_eq)

lemma link_refs_well_formed_witness:
  "link_ok (length (fst (build_nodes two_files))) (link_refs link_opts_default None two_files ())"
  by (rule link_refs_well_formed) (simp add: receivers_ok_def)

definition no_codec :: fact_codec where
  "no_codec = \<lparr>fc_encode_flows = (\<lambda>_. []), fc_encode_summary = (\<lambda>_. [])\<rparr>"


lemma link_unresolved_mset:
  assumes "\<not> lo_receiver_narrowing opts"
  shows "mset (rg_unresolved (link_graph nw codec inputs opts)) = mset (ls_unresolved (link_refs opts None inputs (nw_new nw (lo_narrowing_trace opts))))"
  using assms by (simp add: link_graph_def Let_def finalize_unresolved split: prod.split)


text \<open>
  With data flow the value nodes of a function sort between the definitions, every id after them moves,
  and the dangling references keep the old ids: the reference of \<open>m::g\<close> names a value of \<open>m::f\<close>.
\<close>

definition flow_opts :: link_opts where
  "flow_opts = link_opts_default\<lparr>lo_dataflow := True\<rparr>"

definition flow_values :: "node_with_provenance list" where
  "flow_values =
     map2 value_into_node [2..<4]
       (sort_key value_order (map snd (fs_values (walk_flows two_files (snd (build_nodes two_files)) (link_table two_files)
         (summary_site_callees two_files (snd (build_nodes two_files)) (fst (build_nodes two_files)) [])))))"

lemma flow_fqns:
  "map (\<lambda>n. n_fqn (np_node n)) (sort_key node_key_of (fst (build_nodes two_files) @ flow_values)) =
     [''m::f'', ''m::f::x#0'', ''m::f::y#0'', ''m::g'']"
  by code_simp

lemma flow_edges: "ls_edges (link_refs flow_opts None two_files ()) = []"
  by code_simp

lemma flow_unresolved: "map (\<lambda>u. (ur_caller_fqn u, ur_caller u)) (ls_unresolved (link_refs flow_opts None two_files ())) = [(''m::g'', 1)]"
  by code_simp

lemma flow_relations: "link_relations two_files [] = []"
  by (simp add: link_relations_def two_files_def two_facts_def facts_empty_def)

lemma flow_value_count: "length flow_values = 2"
  using arg_cong [OF flow_fqns, of length] arg_cong [OF two_nodes, of length] by simp

lemma flow_all_nodes:
  "fst (resolve_data_flows codec two_files (snd (build_nodes two_files)) (link_table two_files) (fst (build_nodes two_files)) [] prior budget) =
     fst (build_nodes two_files) @ flow_values"
proof -
  have n: "length (fst (build_nodes two_files)) = 2" using arg_cong [OF two_nodes, of length] by simp
  let ?staged = "sort_key value_order (map snd (fs_values (walk_flows two_files (snd (build_nodes two_files)) (link_table two_files)
      (summary_site_callees two_files (snd (build_nodes two_files)) (fst (build_nodes two_files)) []))))"
  have "length ?staged = 2" by code_simp
  then show ?thesis
    by (simp add: resolve_data_flows_def Let_def n flow_values_def)
qed

lemma flow_fqn_list:
  "map (\<lambda>n. n_fqn (np_node n)) (rg_nodes (link_graph no_narrower codec two_files flow_opts)) = [''m::f'', ''m::f::x#0'', ''m::f::y#0'', ''m::g'']"
proof -
  obtain nodes d where b: "build_nodes two_files = (nodes, d)" by fastforce
  have opts: "lo_dataflow flow_opts" "\<not> lo_receiver_narrowing flow_opts" by (simp_all add: flow_opts_def link_opts_default_def)
  let ?budget = "case lo_max_summary_edges flow_opts of None \<Rightarrow> default_max_summary_edges | Some n \<Rightarrow> n"
  obtain es out where rdf: "resolve_data_flows codec two_files d (link_table two_files) nodes [] (lo_prior_fn_cache flow_opts) ?budget = (nodes @ flow_values, es, out)"
    using flow_all_nodes [of codec "lo_prior_fn_cache flow_opts" ?budget] b by (metis prod.collapse fst_conv snd_conv)
  obtain ns es' cs r where sorted: "sort_nodes_canonical (nodes @ flow_values) es (ls_candidates (link_refs flow_opts None two_files ())) = (ns, es', cs, r)"
    by (metis prod.collapse)
  have fqns: "map (\<lambda>n. n_fqn (np_node n)) ns = map (\<lambda>n. n_fqn (np_node n)) (sort_key node_key_of (nodes @ flow_values))"
    using sort_nodes_fqns [of "nodes @ flow_values" es "ls_candidates (link_refs flow_opts None two_files ())"] by (simp add: sorted)
  have "map (\<lambda>n. n_fqn (np_node n)) (rg_nodes (link_graph no_narrower codec two_files flow_opts)) =
      map (\<lambda>n. n_fqn (np_node n)) (sort_key node_key_of (nodes @ flow_values))"
    using opts fqns by (simp add: link_graph_def Let_def b no_narrower_def flow_relations flow_edges finalize_fqns rdf sorted)
  then show ?thesis using flow_fqns b by simp
qed

lemma flow_marker: "map ur_marker (ls_unresolved (link_refs flow_opts None two_files ())) = [Unresolved]"
  by code_simp

text \<open>The counter of the dangling reference of \<open>m::g\<close> is stamped on a value node of \<open>m::f\<close>.\<close>

theorem counters_follow_old_ids_witness:
  "(\<exists>u. rg_unresolved (link_graph no_narrower no_codec two_files flow_opts) = [u] \<and> ur_caller_fqn u = ''m::g'') \<and>
   map (\<lambda>n. (n_fqn (np_node n), node_counts (np_node n))) (rg_nodes (link_graph no_narrower no_codec two_files flow_opts)) =
     [(''m::f'', (0, 0, 0)), (''m::f::x#0'', (1, 0, 0)), (''m::f::y#0'', (0, 0, 0)), (''m::g'', (0, 0, 0))]"
proof -
  define g where "g = link_graph no_narrower no_codec two_files flow_opts"
  have ids: "map (\<lambda>n. n_id (np_node n)) (rg_nodes g) = [0..<length (rg_nodes g)]"
    and counts: "\<forall>n \<in> set (rg_nodes g). node_counts (np_node n) = dangling_counts (rg_unresolved g) (n_id (np_node n))"
    using counters_follow_old_ids [OF g_def] by blast+
  have fqns: "map (\<lambda>n. n_fqn (np_node n)) (rg_nodes g) = [''m::f'', ''m::f::x#0'', ''m::f::y#0'', ''m::g'']"
    unfolding g_def by (rule flow_fqn_list)
  have len: "length (rg_nodes g) = 4" using arg_cong [OF fqns, of length] by simp
  obtain u where u: "ls_unresolved (link_refs flow_opts None two_files ()) = [u]" "ur_caller_fqn u = ''m::g''" "ur_caller u = 1"
    "ur_marker u = Unresolved"
    using flow_unresolved flow_marker by auto
  have "mset (rg_unresolved g) = mset (ls_unresolved (link_refs flow_opts None two_files ()))"
    unfolding g_def by (subst link_unresolved_mset) (simp_all add: flow_opts_def link_opts_default_def no_narrower_def)
  then have "mset (rg_unresolved g) = {#u#}" using u(1) by simp
  then have us: "rg_unresolved g = [u]" by (simp add: mset_single_iff_right)
  have node: "(n_fqn (np_node n), node_counts (np_node n)) = (n_fqn (np_node n), dangling_counts [u] (n_id (np_node n)))" if "n \<in> set (rg_nodes g)" for n
    using counts that us by simp
  have "map (\<lambda>n. (n_fqn (np_node n), node_counts (np_node n))) (rg_nodes g) =
      map (\<lambda>n. (n_fqn (np_node n), dangling_counts [u] (n_id (np_node n)))) (rg_nodes g)"
    by (rule map_cong [OF refl]) (rule node)
  also have "\<dots> = zip (map (\<lambda>n. n_fqn (np_node n)) (rg_nodes g)) (map (dangling_counts [u]) (map (\<lambda>n. n_id (np_node n)) (rg_nodes g)))"
    by (simp add: zip_map_map zip_same_conv_map)
  also have "\<dots> = [(''m::f'', (0, 0, 0)), (''m::f::x#0'', (1, 0, 0)), (''m::f::y#0'', (0, 0, 0)), (''m::g'', (0, 0, 0))]"
    unfolding ids fqns len by (simp add: upt_rec dangling_counts_def dangling_at_def u)
  finally show ?thesis using us u(2) unfolding g_def by blast
qed

end
