(* ===== verification/Resolve_Targets.thy ===== *)
theory Resolve_Targets
  imports Resolve_Canonical Resolve_Refs_Laws
begin

text \<open>
  The passes of cgx-resolve that replace the targets of indirect and virtual calls in a linked graph:
  the signature pass (sig.rs), class hierarchy analysis (cha.rs) and rapid type analysis (rta.rs),
  after what the three share.
\<close>

section \<open>Sites and replacements\<close>

text \<open>
  What the graph post-passes of cgx-resolve share (sig.rs, cha.rs): the call sites of a rule, the sets
  that replace them, new candidate groups, and the replacement itself. A site is the source and the
  site id of its edges.
\<close>

subsection \<open>Call sites\<close>

definition cha_supernode_cap :: nat where
  "cha_supernode_cap = 64"

text \<open>The positions of the edges of each site, in the order of \<open>(src, site_id)\<close>.\<close>

definition call_sites :: "(edge_record \<Rightarrow> bool) \<Rightarrow> edge_with_provenance list \<Rightarrow> nat list list" where
  "call_sites admitted es =
     map snd (fold (\<lambda>(i, e) m.
       case e_site_id (ep_edge e) of
         Some s \<Rightarrow> if admitted (ep_edge e) then bt_push (e_src (ep_edge e), s) i m else m
       | None \<Rightarrow> m) (enumerate 0 es) [])"

definition next_candidate_group :: "edge_with_provenance list \<Rightarrow> nat" where
  "next_candidate_group es =
     fold (\<lambda>e n. case e_candidate_group (ep_edge e) of Some g \<Rightarrow> max n (g + 1) | None \<Rightarrow> n) es 0"

subsection \<open>Replacing sites\<close>

record replacement =
  rp_proto :: edge_with_provenance
  rp_dsts :: "node_id list"
  rp_confidence :: confidence
  rp_group :: "nat option"
  rp_over_cap :: bool

text \<open>The replacement of one site by a non-empty set, with its group and candidate rows.\<close>

record rescope_state =
  rz_next_group :: nat
  rz_candidates :: "candidate list"
  rz_replacements :: "replacement list"
  rz_dropped :: "nat list"
  rz_resolved :: nat
  rz_supernodes :: nat

definition rescope_site ::
  "edge_with_provenance \<Rightarrow> node_id list \<Rightarrow> confidence \<Rightarrow> nat list \<Rightarrow> rescope_state \<Rightarrow> rescope_state" where
  "rescope_site proto dsts conf positions st =
     (let over = length dsts > cha_supernode_cap;
          grp = (if length dsts > 1 then Some (rz_next_group st) else None)
      in st\<lparr>rz_next_group := rz_next_group st + (if length dsts > 1 then 1 else 0),
            rz_candidates := rz_candidates st @ (if length dsts > 1 then group_rows (rz_next_group st) dsts else []),
            rz_replacements := rz_replacements st @
              [\<lparr>rp_proto = proto, rp_dsts = dsts, rp_confidence = conf, rp_group = grp, rp_over_cap = over\<rparr>],
            rz_dropped := rz_dropped st @ positions,
            rz_resolved := rz_resolved st + 1,
            rz_supernodes := rz_supernodes st + (if over then 1 else 0)\<rparr>)"

definition rescope_start :: "nat \<Rightarrow> rescope_state" where
  "rescope_start g =
     \<lparr>rz_next_group = g, rz_candidates = [], rz_replacements = [], rz_dropped = [], rz_resolved = 0, rz_supernodes = 0\<rparr>"

definition rescoped_edge ::
  "string \<Rightarrow> edge_kind \<Rightarrow> edge_with_provenance \<Rightarrow> node_id \<Rightarrow> confidence \<Rightarrow> nat option \<Rightarrow> bool \<Rightarrow> edge_with_provenance" where
  "rescoped_edge rule k proto dst conf grp over_cap =
     (let p = ep_edge proto in
      \<lparr>ep_edge =
         \<lparr>e_id = 0, e_src = e_src p, e_dst = dst, e_kind = k, e_condition = e_condition p, e_confidence = conf, e_tier = ChaRta,
          e_rule = rule, e_site_id = e_site_id p, e_stmt_index = e_stmt_index p,
          e_cut_markers = (if over_cap then cut_markers_insert Unresolved (e_cut_markers p) else e_cut_markers p),
          e_implicit = e_implicit p, e_candidate_group = grp, e_established_by = None, e_cfg_condition = None,
          e_macro_origin = None, e_transform = None\<rparr>,
       ep_provenance = provenance_new (pv_span (ep_provenance proto)) rule ChaRta []\<rparr>)"

definition expand_replacement :: "(edge_with_provenance \<Rightarrow> node_id \<Rightarrow> confidence \<Rightarrow> nat option \<Rightarrow> bool \<Rightarrow> edge_with_provenance) \<Rightarrow> replacement \<Rightarrow> edge_with_provenance list" where
  "expand_replacement build r =
     map (\<lambda>dst. build (rp_proto r) dst (rp_confidence r) (rp_group r) (rp_over_cap r)) (rp_dsts r)"

definition replace_edges ::
  "(edge_with_provenance \<Rightarrow> node_id \<Rightarrow> confidence \<Rightarrow> nat option \<Rightarrow> bool \<Rightarrow> edge_with_provenance) \<Rightarrow> rescope_state \<Rightarrow>
   edge_with_provenance list \<Rightarrow> edge_with_provenance list" where
  "replace_edges build st es =
     remove_edges_at es (rz_dropped st) @ concat (map (expand_replacement build) (rz_replacements st))"

section \<open>The signature pass\<close>

text \<open>
  The signature post-pass (cgx-resolve/src/sig.rs): the placeholder of an indirect call is replaced by
  the function values of the caller's language whose signature has as many parameters as the call
  has arguments.
\<close>

record sig_stats =
  ss_sites_resolved :: nat
  ss_sites_unmatched :: nat
  ss_supernode_sites :: nat

text \<open>\<open>str::parse::<usize>\<close>: an optional plus sign and digits that fit 64 bits.\<close>

definition usize_digit :: "char \<Rightarrow> bool" where
  "usize_digit c \<longleftrightarrow> CHR ''0'' \<le> c \<and> c \<le> CHR ''9''"

definition parse_usize :: "string \<Rightarrow> nat option" where
  "parse_usize s =
     (let ds = (case s of c # cs \<Rightarrow> if c = CHR ''+'' then cs else s | [] \<Rightarrow> [])
      in if ds \<noteq> [] \<and> list_all usize_digit ds then
           (let n = fold (\<lambda>d n. 10 * n + (of_char d - 48)) ds (0 :: nat) in if n < 2 ^ 64 then Some n else None)
         else None)"

definition parse_arity :: "string \<Rightarrow> nat option" where
  "parse_arity rule = (if str_starts_with rule ''indirect:'' then parse_usize (drop (length ''indirect:'') rule) else None)"

definition is_indirect :: "edge_record \<Rightarrow> bool" where
  "is_indirect e \<longleftrightarrow> e_kind e \<in> {CallsClosure, CallsCallback, CallsIndirect} \<and> str_starts_with (e_rule e) ''indirect''"

text \<open>Each site with the position of its first placeholder and the arity of the call.\<close>

definition collect_indirect_sites :: "edge_with_provenance list \<Rightarrow> (nat \<times> nat option) list" where
  "collect_indirect_sites es =
     map snd (fold (\<lambda>(i, e) m.
       case e_site_id (ep_edge e) of
         Some s \<Rightarrow>
           if is_indirect (ep_edge e) \<and> map_of m (e_src (ep_edge e), s) = None
           then bt_insert (e_src (ep_edge e), s) (i, parse_arity (e_rule (ep_edge e))) m else m
       | None \<Rightarrow> m) (enumerate 0 es) [])"

subsection \<open>Function values\<close>

record callable_index =
  cx_by_lang_arity :: "(string \<times> nat, node_id list) btree_map"
  cx_all_by_lang :: "(string, node_id list) btree_map"

definition sort_dedup_lists :: "('k, node_id list) btree_map \<Rightarrow> ('k, node_id list) btree_map" where
  "sort_dedup_lists m = map (\<lambda>(k, v). (k, remdups_adj (sort v))) m"

text \<open>A closure, or a function whose parent is not a type.\<close>

definition is_function_value :: "string btree_set \<Rightarrow> node_record \<Rightarrow> bool" where
  "is_function_value type_fqns n \<longleftrightarrow>
     (case n_kind n of
        Lambda \<Rightarrow> True
      | Function \<Rightarrow> (case module_prefix (n_fqn n) of Some p \<Rightarrow> p \<notin> set type_fqns | None \<Rightarrow> True)
      | _ \<Rightarrow> False)"

definition callable_index_build :: "node_record list \<Rightarrow> callable_index" where
  "callable_index_build ns =
     (let type_fqns = bs_collect (map n_fqn (filter (\<lambda>n. n_kind n = Type) ns));
          vals = filter (is_function_value type_fqns) ns
      in \<lparr>cx_by_lang_arity = sort_dedup_lists (fold (\<lambda>n m.
            case n_signature n of
              Some sg \<Rightarrow> bt_push (n_lang n, length (sg_params sg)) (n_id n) m
            | None \<Rightarrow> m) vals []),
          cx_all_by_lang = sort_dedup_lists (fold (\<lambda>n. bt_push (n_lang n) (n_id n)) vals [])\<rparr>)"

definition compatible :: "callable_index \<Rightarrow> string \<Rightarrow> nat option \<Rightarrow> node_id list" where
  "compatible ix lang arity =
     (case arity of
        Some a \<Rightarrow> bt_items (cx_by_lang_arity ix) (lang, a)
      | None \<Rightarrow> bt_items (cx_all_by_lang ix) lang)"

subsection \<open>The pass\<close>

definition build_sig_edge :: "edge_with_provenance \<Rightarrow> node_id \<Rightarrow> confidence \<Rightarrow> nat option \<Rightarrow> bool \<Rightarrow> edge_with_provenance" where
  "build_sig_edge proto = rescoped_edge ''sig-compat'' (e_kind (ep_edge proto)) proto"

text \<open>A map built by inserting every node: the last node with an id counts.\<close>

definition lang_by_id :: "node_with_provenance list \<Rightarrow> (node_id, string) btree_map" where
  "lang_by_id ns = fold (\<lambda>n. bt_insert (n_id (np_node n)) (n_lang (np_node n))) ns []"

definition sig_site ::
  "edge_with_provenance list \<Rightarrow> callable_index \<Rightarrow> (node_id, string) btree_map \<Rightarrow> nat \<times> nat option \<Rightarrow>
   rescope_state \<times> nat \<Rightarrow> rescope_state \<times> nat" where
  "sig_site es ix langs site acc =
     (case site of (i, arity) \<Rightarrow> case acc of (st, unmatched) \<Rightarrow>
        let proto = es ! i;
            lang = (case map_of langs (e_src (ep_edge proto)) of Some l \<Rightarrow> l | None \<Rightarrow> []);
            found = compatible ix lang arity
        in if found = [] then (st\<lparr>rz_dropped := rz_dropped st @ [i]\<rparr>, unmatched + 1)
           else (rescope_site proto (fst (canonicalize_candidate_dsts found)) Possible [i] st, unmatched))"

definition run_sig :: "resolved_graph \<Rightarrow> resolved_graph \<times> sig_stats" where
  "run_sig g =
     (let es = cv_iter (rg_edges g); sites = collect_indirect_sites es in
      if sites = [] then (g, \<lparr>ss_sites_resolved = 0, ss_sites_unmatched = 0, ss_supernode_sites = 0\<rparr>)
      else
        (case fold (sig_site es (callable_index_build (map np_node (rg_nodes g))) (lang_by_id (rg_nodes g))) sites
            (rescope_start (next_candidate_group es), 0) of (st, unmatched) \<Rightarrow>
           (canonicalize (g\<lparr>rg_edges := cv_from_iter (replace_edges build_sig_edge st es),
                            rg_candidates := rg_candidates g @ rz_candidates st\<rparr>),
            \<lparr>ss_sites_resolved = rz_resolved st, ss_sites_unmatched = unmatched, ss_supernode_sites = rz_supernodes st\<rparr>)))"

section \<open>Class hierarchy analysis\<close>

text \<open>
  Class hierarchy analysis (cgx-resolve/src/cha.rs): the edges of a virtual call that was resolved by
  method name are replaced by the methods of the types that implement a trait which declares the
  method, or the default body of the trait for a type that does not override it.
\<close>

record cha_stats =
  ca_sites_rescoped :: nat
  ca_supernode_sites :: nat

subsection \<open>The lattice of traits\<close>

record lattice =
  lt_implementors :: "(string, string list) btree_map"
  lt_subtraits :: "(string, string btree_set) btree_map"
  lt_trait_methods :: "(string, string btree_set) btree_map"
  lt_node_by_fqn :: "(string, node_id) btree_map"
  lt_callable :: "string btree_set"
  lt_default_body :: "string btree_set"

definition fqn_of_id :: "node_with_provenance list \<Rightarrow> node_id \<Rightarrow> string option" where
  "fqn_of_id ns i = map_option (\<lambda>n. n_fqn (np_node n)) (find (\<lambda>n. n_id (np_node n) = i) ns)"

definition split_fqn :: "string \<Rightarrow> (string \<times> string) option" where
  "split_fqn fqn = str_rsplit_once ''::'' fqn"

definition member_fqn :: "string \<Rightarrow> string \<Rightarrow> string" where
  "member_fqn parent name = parent @ ''::'' @ name"

text \<open>The walk over the supertraits of a trait; the end of the stack is visited next.\<close>

function supertraits_loop :: "(string, string btree_set) btree_map \<Rightarrow> string list \<Rightarrow> string btree_set \<Rightarrow> string btree_set" where
  "supertraits_loop inherits [] seen = seen"
| "supertraits_loop inherits (s # stack) seen =
     (if s \<in> set seen then supertraits_loop inherits stack seen
      else supertraits_loop inherits (rev (bt_items inherits s) @ stack) (bs_insert s seen))"
  by pat_completeness auto
termination
proof (relation "inv_image (less_than <*lex*> less_than)
    (\<lambda>(inherits, stack, seen). (card ((set stack \<union> all_dependents inherits) - set seen), length stack))")
  fix inherits :: "(string, string btree_set) btree_map" and s :: string and stack :: "string list" and seen :: "string btree_set"
  assume "s \<in> set seen"
  then have "(set stack \<union> all_dependents inherits) - set seen = (set (s # stack) \<union> all_dependents inherits) - set seen" by auto
  then show "((inherits, stack, seen), inherits, s # stack, seen) \<in> inv_image (less_than <*lex*> less_than)
      (\<lambda>(inherits, stack, seen). (card ((set stack \<union> all_dependents inherits) - set seen), length stack))" by simp
next
  fix inherits :: "(string, string btree_set) btree_map" and s :: string and stack :: "string list" and seen :: "string btree_set"
  assume new: "s \<notin> set seen"
  let ?new = "(set (rev (bt_items inherits s) @ stack) \<union> all_dependents inherits) - set (bs_insert s seen)"
  let ?old = "(set (s # stack) \<union> all_dependents inherits) - set seen"
  have "?new \<subset> ?old" using new items_dependents [of inherits s] by (auto simp: set_bs_insert)
  then have "card ?new < card ?old" by (rule psubset_card_mono [rotated]) (simp add: all_dependents_def)
  then show "((inherits, rev (bt_items inherits s) @ stack, bs_insert s seen), inherits, s # stack, seen)
      \<in> inv_image (less_than <*lex*> less_than)
        (\<lambda>(inherits, stack, seen). (card ((set stack \<union> all_dependents inherits) - set seen), length stack))" by simp
qed (rule wf_inv_image, rule wf_lex_prod, rule wf_less_than, rule wf_less_than)

declare supertraits_loop.simps [simp del]

definition transitive_subtraits :: "(string, string btree_set) btree_map \<Rightarrow> (string, string btree_set) btree_map" where
  "transitive_subtraits inherits =
     fold (\<lambda>sub m. fold (\<lambda>sup. bt_add sup sub) (supertraits_loop inherits (rev (bt_items inherits sub)) []) m)
       (map fst inherits) []"

definition relation_fqns :: "node_with_provenance list \<Rightarrow> edge_kind \<Rightarrow> edge_with_provenance list \<Rightarrow> (string \<times> string) list" where
  "relation_fqns ns k es =
     List.map_filter (\<lambda>e.
       if e_kind (ep_edge e) = k then
         Option.bind (fqn_of_id ns (e_src (ep_edge e))) (\<lambda>s. map_option (Pair s) (fqn_of_id ns (e_dst (ep_edge e))))
       else None) es"

definition callable_nodes :: "node_with_provenance list \<Rightarrow> node_record list" where
  "callable_nodes ns = filter (\<lambda>n. n_kind n = Method \<or> n_kind n = Function) (map np_node ns)"

text \<open>The trait and the name of a trait method.\<close>

definition trait_method :: "string set \<Rightarrow> node_record \<Rightarrow> (string \<times> string) option" where
  "trait_method traits n =
     (case split_fqn (n_fqn n) of Some (parent, name) \<Rightarrow> if parent \<in> traits then Some (parent, name) else None | None \<Rightarrow> None)"

definition lattice_build :: "resolved_graph \<Rightarrow> lattice" where
  "lattice_build g =
     (let ns = rg_nodes g; es = cv_iter (rg_edges g);
          impls = relation_fqns ns Implements es; inh = relation_fqns ns Inherits es;
          traits = snd ` set impls \<union> fst ` set inh \<union> snd ` set inh;
          methods = filter (\<lambda>n. trait_method traits n \<noteq> None) (callable_nodes ns)
      in \<lparr>lt_implementors = map (\<lambda>(tr, tys). (tr, remdups_adj (sort tys))) (fold (\<lambda>(ty, tr). bt_push tr ty) impls []),
          lt_subtraits = transitive_subtraits (fold (\<lambda>(sub, sup). bt_add sub sup) inh []),
          lt_trait_methods = fold (\<lambda>n. case trait_method traits n of Some (parent, name) \<Rightarrow> bt_add name parent | None \<Rightarrow> id) methods [],
          lt_node_by_fqn = fold (\<lambda>n. bt_insert (n_fqn (np_node n)) (n_id (np_node n))) ns [],
          lt_callable = bs_collect (map n_fqn (callable_nodes ns)),
          lt_default_body = bs_collect (map n_fqn (filter (\<lambda>n. \<not> n_is_abstract n) methods))\<rparr>)"

text \<open>The types that implement the trait or one of its subtraits.\<close>

definition trait_types :: "lattice \<Rightarrow> string \<Rightarrow> string btree_set" where
  "trait_types lt tr =
     bs_collect (bt_items (lt_implementors lt) tr @
       concat (map (bt_items (lt_implementors lt)) (bt_items (lt_subtraits lt) tr)))"

definition dispatch_target :: "lattice \<Rightarrow> string \<Rightarrow> string \<Rightarrow> string \<Rightarrow> node_id option" where
  "dispatch_target lt meth tr ty =
     (if member_fqn ty meth \<in> set (lt_callable lt) then map_of (lt_node_by_fqn lt) (member_fqn ty meth)
      else if member_fqn tr meth \<in> set (lt_default_body lt) then map_of (lt_node_by_fqn lt) (member_fqn tr meth)
      else None)"

definition trait_scoped_candidates :: "lattice \<Rightarrow> string \<Rightarrow> node_id list" where
  "trait_scoped_candidates lt meth =
     bs_collect (concat (map (\<lambda>tr. List.map_filter (dispatch_target lt meth tr) (trait_types lt tr))
       (bt_items (lt_trait_methods lt) meth)))"

subsection \<open>The pass\<close>

definition is_name_method :: "edge_record \<Rightarrow> bool" where
  "is_name_method e \<longleftrightarrow> e_kind e = CallsVirtual \<and> e_rule e = ''name-method''"

definition build_cha_edge :: "edge_with_provenance \<Rightarrow> node_id \<Rightarrow> confidence \<Rightarrow> nat option \<Rightarrow> bool \<Rightarrow> edge_with_provenance" where
  "build_cha_edge = rescoped_edge ''cha-trait-set'' CallsVirtual"

definition cha_site :: "resolved_graph \<Rightarrow> lattice \<Rightarrow> nat list \<Rightarrow> rescope_state \<Rightarrow> rescope_state" where
  "cha_site g lt positions st =
     (let proto = cv_iter (rg_edges g) ! hd positions in
      case fqn_of_id (rg_nodes g) (e_dst (ep_edge proto)) of
        None \<Rightarrow> st
      | Some fqn \<Rightarrow>
          (let found = trait_scoped_candidates lt (last_name fqn) in
           if found = [] then st
           else (case canonicalize_candidate_dsts found of (dsts, conf) \<Rightarrow> rescope_site proto dsts conf positions st)))"

definition run_cha :: "resolved_graph \<Rightarrow> resolved_graph \<times> cha_stats" where
  "run_cha g =
     (let es = cv_iter (rg_edges g); sites = call_sites is_name_method es in
      if sites = [] then (g, \<lparr>ca_sites_rescoped = 0, ca_supernode_sites = 0\<rparr>)
      else
        (let st = fold (cha_site g (lattice_build g)) sites (rescope_start (next_candidate_group es));
             stats = \<lparr>ca_sites_rescoped = rz_resolved st, ca_supernode_sites = rz_supernodes st\<rparr>
         in if rz_dropped st = [] then (g, stats)
            else (let replaced = List.map_filter (\<lambda>i. e_candidate_group (ep_edge (es ! i))) (rz_dropped st) in
              (canonicalize (g\<lparr>rg_edges := cv_from_iter (replace_edges build_cha_edge st es),
                 rg_candidates := filter (\<lambda>c. cd_candidate_group c \<notin> set replaced) (rg_candidates g) @ rz_candidates st\<rparr>),
               stats))))"

section \<open>Rapid type analysis\<close>

text \<open>
  Rapid type analysis (cgx-resolve/src/rta.rs): of the sets that class hierarchy analysis left, only
  the methods of types that reachable code instantiates are kept, unless a cut makes the view of
  the instantiated types incomplete.
\<close>

record rta_stats =
  ra_sites_pruned :: nat
  ra_candidates_dropped :: nat
  ra_sites_guarded :: nat

subsection \<open>Reachable code and instantiated types\<close>

definition call_adjacency :: "edge_with_provenance list \<Rightarrow> (node_id, node_id btree_set) btree_map" where
  "call_adjacency es =
     fold (\<lambda>e m. if is_call (e_kind (ep_edge e)) then bt_add (e_src (ep_edge e)) (e_dst (ep_edge e)) m else m) es []"

text \<open>The entry points, or every callable when none is tagged.\<close>

definition rta_roots :: "node_record list \<Rightarrow> node_id list" where
  "rta_roots ns =
     (let tagged = filter (\<lambda>n. n_entrypoint_kind n \<noteq> None) ns
      in map n_id (if tagged = [] then filter (\<lambda>n. n_kind n = Function \<or> n_kind n = Method) ns else tagged))"

definition reachable_callers :: "resolved_graph \<Rightarrow> node_id btree_set" where
  "reachable_callers g =
     (let s = fold mark_dirty (rta_roots (map np_node (rg_nodes g))) ([], [])
      in dirty_loop (call_adjacency (cv_iter (rg_edges g))) (fst s) (snd s))"

definition fqn_by_id :: "node_with_provenance list \<Rightarrow> (node_id, string) btree_map" where
  "fqn_by_id ns = fold (\<lambda>n. bt_insert (n_id (np_node n)) (n_fqn (np_node n))) ns []"

definition instantiated_types :: "resolved_graph \<Rightarrow> node_id btree_set \<Rightarrow> string btree_set" where
  "instantiated_types g reachable =
     bs_collect (List.map_filter (\<lambda>e.
       if e_kind (ep_edge e) = Instantiates \<and> e_src (ep_edge e) \<in> set reachable
       then map_of (fqn_by_id (rg_nodes g)) (e_dst (ep_edge e)) else None) (cv_iter (rg_edges g)))"

definition hides_construction :: "cut_marker \<Rightarrow> bool" where
  "hides_construction m \<longleftrightarrow> m \<in> {UnexpandedMacro, ViaFfi, Reflective, Dynamic, ViaDi}"

definition construction_under_cut :: "resolved_graph \<Rightarrow> node_id btree_set \<Rightarrow> bool" where
  "construction_under_cut g reachable \<longleftrightarrow>
     list_ex (\<lambda>e. e_kind (ep_edge e) = Instantiates \<and> e_src (ep_edge e) \<in> set reachable \<and>
       \<not> cut_markers_is_empty (e_cut_markers (ep_edge e))) (cv_iter (rg_edges g)) \<or>
     list_ex (\<lambda>e. e_src (ep_edge e) \<in> set reachable \<and>
       list_ex hides_construction (cut_markers_iter (e_cut_markers (ep_edge e)))) (cv_iter (rg_edges g))"

subsection \<open>The pass\<close>

definition is_cha_edge :: "edge_record \<Rightarrow> bool" where
  "is_cha_edge e \<longleftrightarrow> e_kind e = CallsVirtual \<and> e_rule e = ''cha-trait-set''"

record prune_state =
  pr_drop :: "nat list"
  pr_upgrade :: "nat list"
  pr_stats :: rta_stats

text \<open>A candidate is kept when its declaring type is instantiated or cannot be named.\<close>

definition keeps_candidate :: "(node_id, string) btree_map \<Rightarrow> string btree_set \<Rightarrow> edge_record \<Rightarrow> bool" where
  "keeps_candidate fqns instantiated e =
     (case Option.bind (map_of fqns (e_dst e)) module_prefix of Some ty \<Rightarrow> ty \<in> set instantiated | None \<Rightarrow> True)"

definition guard_site :: "prune_state \<Rightarrow> prune_state" where
  "guard_site st = st\<lparr>pr_stats := (pr_stats st)\<lparr>ra_sites_guarded := ra_sites_guarded (pr_stats st) + 1\<rparr>\<rparr>"

definition rta_site ::
  "edge_with_provenance list \<Rightarrow> (node_id, string) btree_map \<Rightarrow> string btree_set \<Rightarrow> bool \<Rightarrow> nat list \<Rightarrow> prune_state \<Rightarrow> prune_state" where
  "rta_site es fqns instantiated under_cut positions st =
     (if list_ex (\<lambda>i. \<not> cut_markers_is_empty (e_cut_markers (ep_edge (es ! i)))) positions \<or> under_cut then guard_site st
      else
        (let kept = filter (\<lambda>i. keeps_candidate fqns instantiated (ep_edge (es ! i))) positions;
             dropped = filter (\<lambda>i. \<not> keeps_candidate fqns instantiated (ep_edge (es ! i))) positions
         in if dropped = [] then st
            else if kept = [] then guard_site st
            else st\<lparr>pr_drop := pr_drop st @ dropped, pr_upgrade := pr_upgrade st @ kept,
                    pr_stats := (pr_stats st)\<lparr>ra_sites_pruned := ra_sites_pruned (pr_stats st) + 1,
                      ra_candidates_dropped := ra_candidates_dropped (pr_stats st) + length dropped\<rparr>\<rparr>))"

definition upgraded_edge :: "edge_with_provenance \<Rightarrow> edge_with_provenance" where
  "upgraded_edge e = restamp ''rta-pruned'' (e\<lparr>ep_edge := (ep_edge e)\<lparr>e_confidence := Probable\<rparr>\<rparr>)"

definition upgrade_at :: "nat list \<Rightarrow> edge_with_provenance list \<Rightarrow> edge_with_provenance list" where
  "upgrade_at positions es = map (\<lambda>(i, e). if i \<in> set positions then upgraded_edge e else e) (enumerate 0 es)"

text \<open>The groups whose pruned edges lead to a single target.\<close>

definition singleton_groups :: "edge_with_provenance list \<Rightarrow> nat list" where
  "singleton_groups es =
     (let survivors = fold (\<lambda>e m. case e_candidate_group (ep_edge e) of
            Some g \<Rightarrow> if e_rule (ep_edge e) = ''rta-pruned'' then bt_push g (e_dst (ep_edge e)) m else m
          | None \<Rightarrow> m) es []
      in map fst (filter (\<lambda>(g, dsts). length (fst (canonicalize_candidate_dsts dsts)) = 1) survivors))"

definition shed_group :: "nat list \<Rightarrow> edge_with_provenance \<Rightarrow> edge_with_provenance" where
  "shed_group gs e =
     (case e_candidate_group (ep_edge e) of
        Some g \<Rightarrow> if g \<in> set gs then e\<lparr>ep_edge := (ep_edge e)\<lparr>e_candidate_group := None\<rparr>\<rparr> else e
      | None \<Rightarrow> e)"

definition prune_parts ::
  "prune_state \<Rightarrow> edge_with_provenance list \<Rightarrow> candidate list \<Rightarrow> edge_with_provenance list \<times> candidate list" where
  "prune_parts st es cs =
     (let dropped = List.map_filter (\<lambda>i. map_option (\<lambda>g. (g, e_dst (ep_edge (es ! i)))) (e_candidate_group (ep_edge (es ! i)))) (pr_drop st);
          es = remove_edges_at (upgrade_at (pr_upgrade st) es) (pr_drop st);
          cs = filter (\<lambda>c. (cd_candidate_group c, cd_dst c) \<notin> set dropped) cs;
          single = singleton_groups es
      in (map (shed_group single) es, filter (\<lambda>c. cd_candidate_group c \<notin> set single) cs))"

definition run_rta :: "resolved_graph \<Rightarrow> resolved_graph \<times> rta_stats" where
  "run_rta g =
     (let es = cv_iter (rg_edges g); sites = call_sites is_cha_edge es;
          none = \<lparr>ra_sites_pruned = 0, ra_candidates_dropped = 0, ra_sites_guarded = 0\<rparr>
      in if sites = [] then (g, none)
         else
           (let reachable = reachable_callers g;
                st = fold (rta_site es (fqn_by_id (rg_nodes g)) (instantiated_types g reachable) (construction_under_cut g reachable))
                  sites \<lparr>pr_drop = [], pr_upgrade = [], pr_stats = none\<rparr>
            in if pr_drop st = [] then (g, pr_stats st)
               else (case prune_parts st es (rg_candidates g) of (es', cs') \<Rightarrow>
                 (canonicalize (g\<lparr>rg_edges := cv_from_iter es', rg_candidates := cs'\<rparr>), pr_stats st))))"

end
