(* ===== verification/Resolve_Canonical_Laws.thy ===== *)
theory Resolve_Canonical_Laws
  imports Resolve_Canonical
begin

text \<open>
  The canonical form of a linked graph: what renumbering the candidate groups does to the edges, why
  one renumbering and one more sort reach a fixed point, and what of the edges it keeps.
\<close>

definition grp :: "edge_with_provenance \<Rightarrow> nat option" where
  "grp e = e_candidate_group (ep_edge e)"

definition run_key :: "edge_with_provenance \<Rightarrow> nat \<times> nat \<times> nat \<times> nat" where
  "run_key e =
     (e_src (ep_edge e), e_dst (ep_edge e), edge_kind_disc (e_kind (ep_edge e)),
      case e_stmt_index (ep_edge e) of Some i \<Rightarrow> i | None \<Rightarrow> u32_max)"

lemma link_edge_key_le: "link_edge_key a \<le> link_edge_key b \<Longrightarrow> run_key a \<le> run_key b"
  by (auto simp: link_edge_key_def run_key_def less_eq_prod_def)

lemma link_edge_key_less: "run_key a \<le> run_key b \<Longrightarrow> grp a = Some h \<Longrightarrow> grp b = Some g \<Longrightarrow> h < g \<Longrightarrow> link_edge_key a < link_edge_key b"
  by (auto simp: link_edge_key_def run_key_def grp_def less_eq_prod_def less_prod_def)

lemma set_group_fields [simp]: "grp (set_group g e) = Some g" "run_key (set_group g e) = run_key e"
  by (simp_all add: set_group_def grp_def run_key_def)

lemma set_group_same: "grp e = Some g \<Longrightarrow> set_group g e = e"
  by (cases e; cases "ep_edge e") (simp add: grp_def set_group_def)

subsection \<open>Dense numbering\<close>

text \<open>Every number in use is preceded by all smaller ones (or is below the numbers already given).\<close>

definition dense_from :: "nat \<Rightarrow> edge_with_provenance list \<Rightarrow> bool" where
  "dense_from n es \<longleftrightarrow>
     (\<forall>i < length es. \<forall>g. grp (es ! i) = Some g \<longrightarrow> (\<forall>h < g. h < n \<or> (\<exists>j < i. grp (es ! j) = Some h)))"

lemma dense_from_Cons:
  "dense_from n (e # es) \<longleftrightarrow>
     (case grp e of None \<Rightarrow> dense_from n es | Some g \<Rightarrow> g \<le> n \<and> dense_from (max n (Suc g)) es)"
proof -
  have first: "(\<exists>j < Suc i. grp ((e # es) ! j) = Some h) \<longleftrightarrow> grp e = Some h \<or> (\<exists>j < i. grp (es ! j) = Some h)" for i h
    by (simp add: Ex_less_Suc2)
  have low: "(\<forall>h < g. h < n) \<longleftrightarrow> g \<le> n" for g :: nat by (meson leI le_less_trans less_irrefl less_le_trans)
  have tail: "dense_from n (e # es) \<longleftrightarrow> (\<forall>g. grp e = Some g \<longrightarrow> g \<le> n) \<and>
      (\<forall>i < length es. \<forall>g. grp (es ! i) = Some g \<longrightarrow> (\<forall>h < g. h < n \<or> grp e = Some h \<or> (\<exists>j < i. grp (es ! j) = Some h)))"
    unfolding dense_from_def length_Cons All_less_Suc2 nth_Cons_Suc first by (simp add: low)
  show ?thesis
  proof (cases "grp e")
    case (Some g)
    have first: "(\<forall>g'. Some g = Some g' \<longrightarrow> g' \<le> n) \<longleftrightarrow> g \<le> n" by simp
    have "h < n \<or> Some g = Some h \<or> Q \<longleftrightarrow> h < max n (Suc g) \<or> Q" if "g \<le> n" for h Q using that by auto
    then show ?thesis unfolding tail unfolding dense_from_def Some first option.case
      by (cases "g \<le> n") (simp_all only: simp_thms)
  next
    case None
    show ?thesis unfolding tail unfolding dense_from_def None by simp
  qed
qed

text \<open>A numbering gives the numbers below its length, each once.\<close>

definition numbering :: "(nat \<times> nat) list \<Rightarrow> bool" where
  "numbering m \<longleftrightarrow> map snd m = rev [0..<length m] \<and> distinct (map fst m)"

lemma numbering_Nil [simp]: "numbering []"
  by (simp add: numbering_def)

lemma numbering_Cons: "numbering m \<Longrightarrow> map_of m g = None \<Longrightarrow> numbering ((g, length m) # m)"
  by (auto simp: numbering_def map_of_eq_None_iff)

lemma numbering_snd: "numbering m \<Longrightarrow> snd ` set m = {..<length m}"
proof -
  assume "numbering m"
  then have "set (map snd m) = set (rev [0..<length m])" by (simp only: numbering_def)
  then show ?thesis by auto
qed

lemma numbering_less: "numbering m \<Longrightarrow> map_of m g = Some n \<Longrightarrow> n < length m"
  using numbering_snd [of m] by (force dest: map_of_SomeD)

definition renumbered :: "(nat \<times> nat) list \<Rightarrow> edge_with_provenance \<Rightarrow> edge_with_provenance" where
  "renumbered m e = (case grp e of None \<Rightarrow> e | Some g \<Rightarrow> set_group (the (map_of m g)) e)"

lemma renumbered_run [simp]: "run_key (renumbered m e) = run_key e"
  by (simp add: renumbered_def split: option.split)

text \<open>What the renumbering of the edges returns.\<close>

lemma renumber_edges_spec:
  assumes "renumber_edges es m same = (es', m', same')" "numbering m"
  shows "numbering m' \<and> length m \<le> length m' \<and> (\<forall>g n. map_of m g = Some n \<longrightarrow> map_of m' g = Some n) \<and>
    set (map fst m') = set (map fst m) \<union> {g. \<exists>e \<in> set es. grp e = Some g} \<and>
    es' = map (renumbered m') es \<and> dense_from (length m) es' \<and>
    (same' \<longrightarrow> same \<and> ((\<forall>(g, n) \<in> set m. g = n) \<longrightarrow> (\<forall>(g, n) \<in> set m'. g = n)))"
  using assms
proof (induction es m same arbitrary: es' m' same' rule: renumber_edges.induct)
  case (1 m same)
  then show ?case by (simp add: dense_from_def)
next
  case (2 e es m same)
  show ?case
  proof (cases "e_candidate_group (ep_edge e)")
    case None
    obtain es1 m1 s1 where r: "renumber_edges es m same = (es1, m1, s1)" by (cases "renumber_edges es m same") auto
    from 2(1) [OF None r 2(4)] 2(3) r None show ?thesis
      by (auto simp: renumbered_def grp_def dense_from_Cons)
  next
    case (Some g)
    obtain new ma where n: "renumber_group g m = (new, ma)" by fastforce
    obtain es1 m1 s1 where r: "renumber_edges es ma (same \<and> new = g) = (es1, m1, s1)"
      by (cases "renumber_edges es ma (same \<and> new = g)") auto
    have out: "es' = set_group new e # es1" "m' = m1" "same' = s1" using 2(3) Some n r by auto
    have ma: "numbering ma \<and> map_of ma g = Some new \<and> (\<forall>h k. map_of m h = Some k \<longrightarrow> map_of ma h = Some k) \<and>
        set (map fst ma) = insert g (set (map fst m)) \<and> length ma = max (length m) (Suc new) \<and> new \<le> length m \<and>
        (new = g \<longrightarrow> (\<forall>(h, k) \<in> set m. h = k) \<longrightarrow> (\<forall>(h, k) \<in> set ma. h = k))"
    proof (cases "map_of m g")
      case None
      then show ?thesis using n 2(4) numbering_Cons [OF 2(4) None] by (auto simp: renumber_group_def)
    next
      case (Some k)
      then have "g \<in> set (map fst m)" by (auto dest!: map_of_SomeD intro: rev_image_eqI)
      then show ?thesis using n 2(4) Some numbering_less [OF 2(4) Some] by (auto simp: renumber_group_def)
    qed
    have ih: "numbering m1 \<and> length ma \<le> length m1 \<and> (\<forall>h k. map_of ma h = Some k \<longrightarrow> map_of m1 h = Some k) \<and>
        set (map fst m1) = set (map fst ma) \<union> {h. \<exists>e \<in> set es. grp e = Some h} \<and>
        es1 = map (renumbered m1) es \<and> dense_from (length ma) es1 \<and>
        (s1 \<longrightarrow> (same \<and> new = g) \<and> ((\<forall>(h, k) \<in> set ma. h = k) \<longrightarrow> (\<forall>(h, k) \<in> set m1. h = k)))"
      by (rule 2(2) [OF Some n [symmetric] r]) (use ma in simp_all)
    have G: "grp e = Some g" using Some by (simp add: grp_def)
    have e: "renumbered m1 e = set_group new e" using ih ma by (simp add: renumbered_def G)
    have A: "numbering m1" "length m \<le> length m1" using ih ma by simp_all
    have B: "\<forall>h k. map_of m h = Some k \<longrightarrow> map_of m1 h = Some k" using ih ma by blast
    have C: "set (map fst m1) = set (map fst m) \<union> {h. \<exists>e' \<in> set (e # es). grp e' = Some h}" using ih ma G by auto
    have D: "es' = map (renumbered m1) (e # es)" using ih e out(1) by simp
    have d: "dense_from (length ma) es1" "length ma = max (length m) (Suc new)" "new \<le> length m" using ih ma by blast+
    have E: "dense_from (length m) es'" unfolding out(1) dense_from_Cons using d by simp
    have F: "s1 \<longrightarrow> same \<and> ((\<forall>(h, k) \<in> set m. h = k) \<longrightarrow> (\<forall>(h, k) \<in> set m1. h = k))"
      using conjunct2 [OF conjunct2 [OF conjunct2 [OF conjunct2 [OF conjunct2 [OF conjunct2 [OF ih]]]]]]
        conjunct2 [OF conjunct2 [OF conjunct2 [OF conjunct2 [OF conjunct2 [OF conjunct2 [OF ma]]]]]] by satx
    show ?thesis unfolding out(2,3) by (intro conjI A B C D E F)
  qed
qed

text \<open>On a dense list the renumbering changes nothing.\<close>

definition identity_numbering :: "nat \<Rightarrow> (nat \<times> nat) list" where
  "identity_numbering n = rev (map (\<lambda>k. (k, k)) [0..<n])"

lemma identity_numbering_Suc: "identity_numbering (Suc n) = (n, n) # identity_numbering n"
  by (simp add: identity_numbering_def)

lemma identity_numbering_simps [simp]:
  "length (identity_numbering n) = n" "map_of (identity_numbering n) g = (if g < n then Some g else None)"
proof -
  show "length (identity_numbering n) = n" by (simp add: identity_numbering_def)
  show "map_of (identity_numbering n) g = (if g < n then Some g else None)"
    by (induction n) (auto simp: identity_numbering_Suc, simp add: identity_numbering_def)
qed

lemma renumber_dense:
  assumes "dense_from n es"
  shows "\<exists>k. renumber_edges es (identity_numbering n) same = (es, identity_numbering k, same) \<and>
    n \<le> k \<and> (\<forall>g. g < k \<longleftrightarrow> g < n \<or> (\<exists>e \<in> set es. grp e = Some g))"
  using assms
proof (induction es arbitrary: n)
  case Nil
  then show ?case by auto
next
  case (Cons e es)
  show ?case
  proof (cases "grp e")
    case None
    with Cons show ?thesis by (fastforce simp: dense_from_Cons grp_def)
  next
    case (Some g)
    with Cons.prems have g: "g \<le> n" "dense_from (max n (Suc g)) es" by (simp_all add: dense_from_Cons)
    from Cons.IH [OF g(2)] obtain k where
      k: "renumber_edges es (identity_numbering (max n (Suc g))) same = (es, identity_numbering k, same)"
      "max n (Suc g) \<le> k" "\<forall>h. h < k \<longleftrightarrow> h < max n (Suc g) \<or> (\<exists>e \<in> set es. grp e = Some h)" by blast
    have "renumber_group g (identity_numbering n) = (g, identity_numbering (max n (Suc g)))"
    proof (cases "g = n")
      case False
      then have "max n (Suc g) = n" "g < n" using g(1) by auto
      then show ?thesis by (simp add: renumber_group_def)
    qed (simp add: renumber_group_def identity_numbering_Suc)
    then have "renumber_edges (e # es) (identity_numbering n) same = (e # es, identity_numbering k, same)"
      using k(1) Some by (simp add: grp_def set_group_same [unfolded grp_def])
    moreover have "h < k \<longleftrightarrow> h < n \<or> (\<exists>e' \<in> set (e # es). grp e' = Some h)" for h
      using k(3) g(1) Some by (auto simp: max_def split: if_splits)
    ultimately show ?thesis using k(2) by (intro exI [of _ k]) auto
  qed
qed

subsection \<open>The two passes\<close>

definition renumber_all :: "(nat \<times> nat) list \<Rightarrow> candidate \<Rightarrow> candidate" where
  "renumber_all m c = c\<lparr>cd_candidate_group := the (map_of m (cd_candidate_group c))\<rparr>"

lemma renumber_rest_spec:
  assumes "renumber_rest gs m same = (m', same')" "numbering m" "distinct gs" "\<forall>g \<in> set gs. map_of m g = None"
  shows "numbering m' \<and> m' = rev (zip gs [length m..<length m + length gs]) @ m \<and>
    (same' \<longrightarrow> same \<and> ((\<forall>(g, n) \<in> set m. g = n) \<longrightarrow> (\<forall>(g, n) \<in> set m'. g = n)))"
  using assms
proof (induction gs m same rule: renumber_rest.induct)
  case (2 g gs m same)
  have A: "numbering ((g, length m) # m)" using 2(3,5) by (simp add: numbering_Cons)
  have B: "\<forall>h \<in> set gs. map_of ((g, length m) # m) h = None" using 2(4,5) by auto
  have C: "renumber_rest gs ((g, length m) # m) (same \<and> length m = g) = (m', same')" using 2(2) by simp
  have D: "distinct gs" using 2(4) by simp
  note ih = 2(1) [OF C A D B]
  have "[length m..<length m + length (g # gs)] = length m # [Suc (length m)..<Suc (length m) + length gs]"
    by (subst upt_conv_Cons) simp_all
  then have "m' = rev (zip (g # gs) [length m..<length m + length (g # gs)]) @ m"
    using conjunct1 [OF conjunct2 [OF ih]] by (simp del: upt_Suc)
  moreover have "same' \<longrightarrow> same \<and> ((\<forall>(h, n) \<in> set m. h = n) \<longrightarrow> (\<forall>(h, n) \<in> set m'. h = n))"
    using conjunct2 [OF conjunct2 [OF ih]] by simp
  ultimately show ?case by (intro conjI conjunct1 [OF ih])
qed simp

lemma renumber_rest_identity: "renumber_rest [n..<n + k] (identity_numbering n) same = (identity_numbering (n + k), same)"
proof (induction k arbitrary: n)
  case (Suc k)
  have "[n..<n + Suc k] = n # [Suc n..<Suc n + k]" by (simp add: upt_rec [of n])
  then show ?case using Suc [of "Suc n"] by (simp add: identity_numbering_Suc)
qed simp

text \<open>A sort by the full key keeps a dense numbering dense when the runs are in order.\<close>

lemma sorted_key_nth_less:
  "sorted (map f xs) \<Longrightarrow> i < length xs \<Longrightarrow> x \<in> set xs \<Longrightarrow> f x < f (xs ! i) \<Longrightarrow> \<exists>j < i. xs ! j = x"
proof -
  assume s: "sorted (map f xs)" "i < length xs" "x \<in> set xs" "f x < f (xs ! i)"
  then obtain j where j: "j < length xs" "xs ! j = x" by (auto simp: in_set_conv_nth)
  have "\<not> i \<le> j" using sorted_nth_mono [OF s(1), of i j] j s(2,4) by auto
  then show ?thesis using j(2) linorder_not_le by blast
qed

lemma dense_sort:
  assumes "sorted (map run_key es)" "dense_from 0 es"
  shows "dense_from 0 (sort_link_edges es)"
  unfolding dense_from_def
proof (intro allI impI disjI2)
  fix i g h assume i: "i < length (sort_link_edges es)" "grp (sort_link_edges es ! i) = Some g" "h < g"
  let ?e = "sort_link_edges es ! i"
  have "?e \<in> set es" using nth_mem [OF i(1)] by (simp add: sort_link_edges_def)
  then obtain p where p: "p < length es" "es ! p = ?e" by (auto simp: in_set_conv_nth)
  then obtain q where q: "q < p" "grp (es ! q) = Some h" using assms(2) i(2,3) unfolding dense_from_def by (metis not_less_zero)
  have "run_key (es ! q) \<le> run_key ?e" using sorted_nth_mono [OF assms(1), of q p] p q(1) by simp
  then have less: "link_edge_key (es ! q) < link_edge_key ?e" using q(2) i(2,3) by (rule link_edge_key_less)
  have "\<exists>j < i. sort_link_edges es ! j = es ! q"
    by (rule sorted_key_nth_less [of link_edge_key]) (use i(1) less p q(1) in \<open>simp_all add: sort_link_edges_def\<close>)
  then show "\<exists>j < i. grp (sort_link_edges es ! j) = Some h" using q(2) by metis
qed

lemma sorted_run_keys: "sorted (map link_edge_key es) \<Longrightarrow> sorted (map run_key es)"
  by (simp add: sorted_wrt_map) (rule sorted_wrt_mono_rel, auto intro: link_edge_key_le)

text \<open>Both outcomes of the comparison with the old numbers are the same computation.\<close>

lemma assign_edge_ids_fields:
  "length (assign_edge_ids es) = length es"
  "i < length es \<Longrightarrow> assign_edge_ids es ! i = (es ! i)\<lparr>ep_edge := (ep_edge (es ! i))\<lparr>e_id := i\<rparr>\<rparr>"
  by (simp_all add: assign_edge_ids_def)

lemma assign_edge_ids_map:
  assumes "\<And>e i. f (e\<lparr>ep_edge := (ep_edge e)\<lparr>e_id := i\<rparr>\<rparr>) = f e"
  shows "map f (assign_edge_ids es) = map f es"
  by (rule nth_equalityI) (simp_all add: assign_edge_ids_fields assms)

lemma canonicalize_parts_form:
  obtains m es' k where
    "canonicalize_parts es cs = (assign_edge_ids (sort_link_edges es'), sort_key candidate_key (map (renumber_all m) cs))"
    "es' = map (renumbered m) (sort_link_edges es)" "sorted (map run_key es')" "dense_from 0 es'" "numbering m"
    "{g. \<exists>e \<in> set es'. grp e = Some g} = {..<k}" "k \<le> length m"
    "{g \<in> cd_candidate_group ` set (map (renumber_all m) cs). k \<le> g} = {k..<length m}"
    "\<And>c. c \<in> set cs \<Longrightarrow> map_of m (cd_candidate_group c) \<noteq> None"
proof -
  let ?es = "sort_link_edges es"
  obtain es' m1 s1 where r: "renumber_edges ?es [] True = (es', m1, s1)" by (cases "renumber_edges ?es [] True") auto
  note spec = renumber_edges_spec [OF r numbering_Nil]
  define rest where "rest = remdups_adj (sort (filter (\<lambda>g. map_of m1 g = None) (map cd_candidate_group cs)))"
  obtain m s where q: "renumber_rest rest m1 s1 = (m, s)" by fastforce
  have rest: "distinct rest" "set rest = {g \<in> cd_candidate_group ` set cs. map_of m1 g = None}"
    using strict_sorted_distinct [OF strict_sorted_sort_remdups_adj] by (auto simp: rest_def)
  then have none: "\<forall>g \<in> set rest. map_of m1 g = None" by simp
  note spec2 = renumber_rest_spec [OF q _ rest(1) none]
  have n1: "numbering m1" by (rule conjunct1 [OF spec])
  have m: "numbering m" "m = rev (zip rest [length m1..<length m1 + length rest]) @ m1"
    and ident: "s \<longrightarrow> s1 \<and> ((\<forall>(g, n) \<in> set m1. g = n) \<longrightarrow> (\<forall>(g, n) \<in> set m. g = n))"
    by (rule conjunct1 [OF spec2 [OF n1]], rule conjunct1 [OF conjunct2 [OF spec2 [OF n1]]], rule conjunct2 [OF conjunct2 [OF spec2 [OF n1]]])
  have get: "(g, n) \<in> set m \<longleftrightarrow> map_of m g = Some n" for g n
    using m(1) by (simp add: numbering_def)
  have get1: "(g, n) \<in> set m1 \<longleftrightarrow> map_of m1 g = Some n" for g n
    using n1 by (simp add: numbering_def)
  have old: "map_of m1 g = Some n \<Longrightarrow> map_of m g = Some n" for g n
    using get [of g n] get1 [of g n] m(2) by simp
  have groups: "set (map fst m1) = {g. \<exists>e \<in> set ?es. grp e = Some g}"
    using conjunct1 [OF conjunct2 [OF conjunct2 [OF conjunct2 [OF spec]]]] by simp
  have edge_dom: "\<exists>n. map_of m1 g = Some n" if "e \<in> set ?es" "grp e = Some g" for e g
  proof -
    have "g \<in> set (map fst m1)" using groups that by blast
    then show ?thesis by (metis map_of_eq_None_iff not_None_eq set_map)
  qed
  have es1: "es' = map (renumbered m1) ?es" by (rule conjunct1 [OF conjunct2 [OF conjunct2 [OF conjunct2 [OF conjunct2 [OF spec]]]]])
  have es': "es' = map (renumbered m) ?es"
  proof -
    have "renumbered m1 e = renumbered m e" if "e \<in> set ?es" for e
    proof (cases "grp e")
      case (Some g)
      from edge_dom [OF that Some] obtain n where "map_of m1 g = Some n" by blast
      with old [OF this] Some show ?thesis by (simp add: renumbered_def)
    qed (simp add: renumbered_def)
    then show ?thesis unfolding es1 by simp
  qed
  have dom: "\<exists>n. map_of m (cd_candidate_group c) = Some n" if "c \<in> set cs" for c
  proof (cases "map_of m1 (cd_candidate_group c)")
    case None
    then have "cd_candidate_group c \<in> set rest" using rest(2) that by simp
    then have "cd_candidate_group c \<in> fst ` set (zip rest [length m1..<length m1 + length rest])"
      by (simp add: set_map [symmetric] del: set_map)
    then show ?thesis using get m(2) by fastforce
  qed (use old in blast)
  have rest_val: "length m1 \<le> n \<and> n < length m" if "map_of m g = Some n" "map_of m1 g = None" for g n
  proof -
    have "(g, n) \<in> set (zip rest [length m1..<length m1 + length rest])"
      using that get [of g n] get1 [of g n] m(2) by auto
    then show ?thesis using m(2) by (auto dest!: set_zip_rightD)
  qed
  have same_case: "es' = ?es \<and> map (renumber_all m) cs = cs" if "s"
  proof -
    have "s1" using ident that by blast
    then have "\<forall>(g, n) \<in> set m1. g = n"
      using conjunct2 [OF conjunct2 [OF conjunct2 [OF conjunct2 [OF conjunct2 [OF conjunct2 [OF spec]]]]]] by simp
    then have "\<forall>(g, n) \<in> set m. g = n" using ident that by simp
    then have id: "n = g" if "map_of m g = Some n" for g n using that get [of g n] by blast
    have "renumbered m e = e" if "e \<in> set ?es" for e
    proof (cases "grp e")
      case (Some g)
      from edge_dom [OF that Some] obtain n where "map_of m1 g = Some n" by blast
      then have "map_of m g = Some g" using old id by blast
      then show ?thesis by (simp add: renumbered_def Some set_group_same)
    qed (simp add: renumbered_def)
    moreover have "renumber_all m c = c" if "c \<in> set cs" for c
      using dom [OF that] id by (auto simp: renumber_all_def)
    ultimately show ?thesis unfolding es' by (simp add: map_idI)
  qed
  have sorted_es: "sort_link_edges ?es = ?es" by (simp add: sort_link_edges_def sort_key_id_if_sorted)
  have out: "canonicalize_parts es cs = (assign_edge_ids (sort_link_edges es'), sort_key candidate_key (map (renumber_all m) cs))"
    using same_case sorted_es
    by (simp add: canonicalize_parts_def r rest_def [symmetric] q renumber_all_def [symmetric, abs_def] Let_def)
  have k: "{g. \<exists>e \<in> set es'. grp e = Some g} = {..<length m1}"
  proof -
    have "{g. \<exists>e \<in> set es'. grp e = Some g} = {n. \<exists>e \<in> set ?es. \<exists>g. grp e = Some g \<and> map_of m1 g = Some n}"
    proof -
      have "grp (renumbered m1 e) = Some n \<longleftrightarrow> (\<exists>g. grp e = Some g \<and> map_of m1 g = Some n)" if "e \<in> set ?es" for e n
      proof (cases "grp e")
        case (Some g)
        from edge_dom [OF that Some] obtain n' where "map_of m1 g = Some n'" by blast
        with Some show ?thesis by (simp add: renumbered_def)
      qed (simp add: renumbered_def)
      then show ?thesis unfolding es1 by auto
    qed
    also have "\<dots> = snd ` set m1"
    proof (intro equalityI subsetI)
      fix n assume "n \<in> {n. \<exists>e \<in> set ?es. \<exists>g. grp e = Some g \<and> map_of m1 g = Some n}"
      then obtain g where "(g, n) \<in> set m1" using get1 by blast
      then show "n \<in> snd ` set m1" by (rule rev_image_eqI) simp
    next
      fix n assume "n \<in> snd ` set m1"
      then obtain g where g: "(g, n) \<in> set m1" by auto
      then have "g \<in> set (map fst m1)" by (simp add: rev_image_eqI)
      then show "n \<in> {n. \<exists>e \<in> set ?es. \<exists>g. grp e = Some g \<and> map_of m1 g = Some n}" using groups g get1 by blast
    qed
    finally show ?thesis using numbering_snd [OF n1] by simp
  qed
  have lengths: "length m = length m1 + length rest" using m(2) by simp
  have c: "{g \<in> cd_candidate_group ` set (map (renumber_all m) cs). length m1 \<le> g} = {length m1..<length m}"
  proof (intro equalityI subsetI)
    fix n assume "n \<in> {g \<in> cd_candidate_group ` set (map (renumber_all m) cs). length m1 \<le> g}"
    then obtain c where "c \<in> set cs" "n = the (map_of m (cd_candidate_group c))" "length m1 \<le> n" by (auto simp: renumber_all_def)
    then show "n \<in> {length m1..<length m}" using dom numbering_less [OF m(1)] by fastforce
  next
    fix n assume n: "n \<in> {length m1..<length m}"
    then have "n - length m1 < length rest" using lengths by auto
    then have "(rest ! (n - length m1), n) \<in> set (zip rest [length m1..<length m1 + length rest])"
      using n by (auto simp: set_zip intro!: exI [of _ "n - length m1"])
    then have g: "map_of m (rest ! (n - length m1)) = Some n" using get m(2) by auto
    have "rest ! (n - length m1) \<in> set rest" using \<open>n - length m1 < length rest\<close> by simp
    then obtain c where "c \<in> set cs" "cd_candidate_group c = rest ! (n - length m1)" using rest(2) by auto
    then have "cd_candidate_group (renumber_all m c) = n" "renumber_all m c \<in> set (map (renumber_all m) cs)"
      using g by (simp add: renumber_all_def) (use \<open>c \<in> set cs\<close> in simp)
    then have "n \<in> cd_candidate_group ` set (map (renumber_all m) cs)" by (metis imageI)
    then show "n \<in> {g \<in> cd_candidate_group ` set (map (renumber_all m) cs). length m1 \<le> g}"
      using n by simp
  qed
  have runs: "sorted (map run_key es')"
    unfolding es1 by (simp add: comp_def sort_link_edges_def) (rule sorted_run_keys, simp)
  have dense: "dense_from 0 es'"
    using conjunct1 [OF conjunct2 [OF conjunct2 [OF conjunct2 [OF conjunct2 [OF conjunct2 [OF spec]]]]]] by simp
  show thesis
    by (rule that [OF out es' runs dense m(1) k _ c]) (use lengths dom in \<open>auto\<close>)
qed

lemma canonicalize_parts_twice:
  assumes "canonicalize_parts es cs = (es1, cs1)"
  shows "canonicalize_parts es1 cs1 = (es1, cs1)"
proof -
  obtain m es' k where form: "canonicalize_parts es cs = (assign_edge_ids (sort_link_edges es'), sort_key candidate_key (map (renumber_all m) cs))"
    and run: "sorted (map run_key es')" and dense: "dense_from 0 es'"
    and k: "{g. \<exists>e \<in> set es'. grp e = Some g} = {..<k}" "k \<le> length m"
      "{g \<in> cd_candidate_group ` set (map (renumber_all m) cs). k \<le> g} = {k..<length m}"
    by (rule canonicalize_parts_form [of es cs])
  have es1: "es1 = assign_edge_ids (sort_link_edges es')" and cs1: "cs1 = sort_key candidate_key (map (renumber_all m) cs)"
    using assms form by simp_all
  have keys: "map link_edge_key es1 = map link_edge_key (sort_link_edges es')" "map grp es1 = map grp (sort_link_edges es')"
    unfolding es1 by (simp_all add: assign_edge_ids_map link_edge_key_def grp_def)
  have sorted: "sort_link_edges es1 = es1"
    unfolding sort_link_edges_def by (rule sort_key_id_if_sorted) (simp add: keys(1), simp add: sort_link_edges_def)
  have len: "length es1 = length (sort_link_edges es')" by (simp add: es1 assign_edge_ids_fields)
  have nth: "grp (es1 ! i) = grp (sort_link_edges es' ! i)" if "i < length es1" for i
    using arg_cong [OF keys(2), of "\<lambda>l. l ! i"] that len by simp
  have d: "dense_from 0 es1"
    unfolding dense_from_def
  proof (intro allI impI disjI2)
    fix i g h assume i: "i < length es1" "grp (es1 ! i) = Some g" "h < g"
    then have "grp (sort_link_edges es' ! i) = Some g" using nth by simp
    then obtain j where "j < i" "grp (sort_link_edges es' ! j) = Some h"
      using dense_sort [OF run dense] i(1,3) unfolding dense_from_def len by (metis not_less_zero)
    then show "\<exists>j < i. grp (es1 ! j) = Some h" using nth i(1) by (metis less_trans)
  qed
  have groups: "(\<exists>e \<in> set es1. grp e = Some g) \<longleftrightarrow> g < k" for g
  proof -
    have "Some g \<in> set (map grp es1) \<longleftrightarrow> Some g \<in> set (map grp es')" unfolding keys(2) by (auto simp: sort_link_edges_def)
    then have "(\<exists>e \<in> set es1. grp e = Some g) \<longleftrightarrow> (\<exists>e \<in> set es'. grp e = Some g)" unfolding set_map image_iff by metis
    then show ?thesis using k(1) by (simp add: set_eq_iff)
  qed
  obtain j where r: "renumber_edges es1 [] True = (es1, identity_numbering j, True)" and j: "\<forall>g. g < j \<longleftrightarrow> g < 0 \<or> (\<exists>e \<in> set es1. grp e = Some g)"
    using renumber_dense [OF d, of True] by (auto simp: identity_numbering_def)
  have "j = k" using j groups by (metis less_irrefl linorder_neqE_nat not_less_zero)
  have "remdups_adj (sort (filter (\<lambda>g. map_of (identity_numbering k) g = None) (map cd_candidate_group cs1))) = [k..<length m]"
  proof (rule strict_sorted_unique [OF strict_sorted_sort_remdups_adj])
    show "strict_sorted [k..<length m]" by (simp add: sorted_wrt_upt)
    have "cd_candidate_group ` set cs1 = cd_candidate_group ` set (map (renumber_all m) cs)" by (simp add: cs1)
    then show "set (remdups_adj (sort (filter (\<lambda>g. map_of (identity_numbering k) g = None) (map cd_candidate_group cs1)))) = set [k..<length m]"
    proof -
      assume cs1: "cd_candidate_group ` set cs1 = cd_candidate_group ` set (map (renumber_all m) cs)"
      have "set (remdups_adj (sort (filter (\<lambda>g. map_of (identity_numbering k) g = None) (map cd_candidate_group cs1)))) =
          {g \<in> cd_candidate_group ` set cs1. k \<le> g}" by (auto simp: not_less)
      then show ?thesis unfolding cs1 k(3) by simp
    qed
  qed
  moreover have "renumber_rest [k..<length m] (identity_numbering k) True = (identity_numbering (length m), True)"
    using renumber_rest_identity [of k "length m - k" True] k(2) by simp
  moreover have "assign_edge_ids es1 = es1"
    unfolding es1 by (rule nth_equalityI) (simp_all add: assign_edge_ids_fields)
  moreover have "sort_key candidate_key cs1 = cs1" by (simp add: cs1 sort_key_id_if_sorted)
  ultimately show ?thesis
    by (simp add: canonicalize_parts_def sorted r \<open>j = k\<close>)
qed

lemma canonicalize_twice: "canonicalize (canonicalize g) = canonicalize g"
proof -
  obtain es cs where c: "canonicalize_parts (cv_iter (rg_edges g)) (rg_candidates g) = (es, cs)" by fastforce
  have "cv_iter (cv_from_iter es) = es" by (simp add: cv_iter_def cv_from_iter_abs [unfolded cv_abs_def])
  then show ?thesis using canonicalize_parts_twice [OF c] by (simp add: canonicalize_def c)
qed

end
