(* ===== verification/Resolve_Passes.thy ===== *)
theory Resolve_Passes
  imports Resolve_Targets Resolve_Canonical_Laws Resolve_Properties
begin

text \<open>
  What the passes over the linked graph decide: the sets that class hierarchy analysis puts in the
  place of a virtual call, the candidates that rapid type analysis drops, and the function values
  that an indirect call can reach.
\<close>

subsection \<open>Sites\<close>

lemma bt_items_fold_push_option:
  "bt_items (fold (\<lambda>x m. case f x of Some (k, v) \<Rightarrow> bt_push k v m | None \<Rightarrow> m) xs m) k =
     bt_items m k @ map snd (filter (\<lambda>(l, v). l = k) (List.map_filter f xs))"
  by (induction xs arbitrary: m) (auto simp: List.map_filter_def container_simps split: option.split)

lemma bt_wf_fold_push_option:
  "bt_wf m \<Longrightarrow> bt_wf (fold (\<lambda>x m. case f x of Some (k, v) \<Rightarrow> bt_push k v m | None \<Rightarrow> m) xs m)"
  by (induction xs arbitrary: m) (auto simp: container_simps split: option.split)

definition site_of :: "(edge_record \<Rightarrow> bool) \<Rightarrow> edge_with_provenance \<Rightarrow> (node_id \<times> u64) option" where
  "site_of admitted e = (if admitted (ep_edge e) then map_option (Pair (e_src (ep_edge e))) (e_site_id (ep_edge e)) else None)"

text \<open>A site holds exactly the positions of the admitted edges with one source and one site id.\<close>

lemma call_sites_push:
  "call_sites admitted es =
     map snd (fold (\<lambda>x m. case (case x of (i, e) \<Rightarrow> map_option (\<lambda>k. (k, i)) (site_of admitted e)) of
       Some (k, v) \<Rightarrow> bt_push k v m | None \<Rightarrow> m) (enumerate 0 es) [])"
proof -
  have "(case e_site_id (ep_edge e) of Some s \<Rightarrow> if admitted (ep_edge e) then bt_push (e_src (ep_edge e), s) i m else m | None \<Rightarrow> m) =
      (case map_option (\<lambda>k. (k, i)) (site_of admitted e) of Some (k, v) \<Rightarrow> bt_push k v m | None \<Rightarrow> m)"
    for e and i :: nat and m
    by (cases "e_site_id (ep_edge e)"; cases "admitted (ep_edge e)") (simp_all add: site_of_def)
  then show ?thesis unfolding call_sites_def by (intro arg_cong [where f = "map snd"] fold_cong refl) (simp only: split_beta)
qed

lemma call_sites_positions:
  assumes "ps \<in> set (call_sites admitted es)"
  shows "\<exists>key. set ps = {i. i < length es \<and> site_of admitted (es ! i) = Some key}"
proof -
  define f where "f = (\<lambda>(i :: nat, e). map_option (\<lambda>k. (k, i)) (site_of admitted e))"
  define m where "m = fold (\<lambda>x m. case f x of Some (k, v) \<Rightarrow> bt_push k v m | None \<Rightarrow> m) (enumerate 0 es) []"
  have wf: "bt_wf m" unfolding m_def by (rule bt_wf_fold_push_option) simp
  have "ps \<in> snd ` set m" using assms unfolding call_sites_push m_def f_def set_map .
  then obtain key where key: "(key, ps) \<in> set m" by force
  from key have "map_of m key = Some ps" by (rule bt_items_get [OF wf, THEN iffD1])
  then have "ps = bt_items m key" by (simp add: bt_items_def)
  also have "\<dots> = map snd (filter (\<lambda>(l, v). l = key) (List.map_filter f (enumerate 0 es)))"
    unfolding m_def by (simp add: bt_items_fold_push_option)
  finally have ps: "set ps = {i. (key, i) \<in> set (List.map_filter f (enumerate 0 es))}" by force
  have "(key, i) \<in> set (List.map_filter f (enumerate 0 es)) \<longleftrightarrow> i < length es \<and> site_of admitted (es ! i) = Some key" for i
  proof -
    have "(key, i) \<in> set (List.map_filter f (enumerate 0 es)) \<longleftrightarrow> (\<exists>x. x \<in> set (enumerate 0 es) \<and> f x = Some (key, i))"
      unfolding set_map_filter by (simp add: Bex_def del: split_paired_Ex)
    also have "\<dots> \<longleftrightarrow> (\<exists>e. (i, e) \<in> set (enumerate 0 es) \<and> site_of admitted e = Some key)" by (cases key) (auto simp: f_def)
    also have "\<dots> \<longleftrightarrow> i < length es \<and> site_of admitted (es ! i) = Some key" by (simp add: in_set_enumerate_eq)
    finally show ?thesis .
  qed
  then show ?thesis unfolding ps by blast
qed

lemma call_sites_disjoint:
  assumes "ps \<in> set (call_sites admitted es)" "qs \<in> set (call_sites admitted es)" "i \<in> set ps" "i \<in> set qs"
  shows "set ps = set qs"
proof -
  obtain k where k: "set ps = {i. i < length es \<and> site_of admitted (es ! i) = Some k}" using call_sites_positions [OF assms(1)] ..
  obtain l where l: "set qs = {i. i < length es \<and> site_of admitted (es ! i) = Some l}" using call_sites_positions [OF assms(2)] ..
  have "k = l" using assms(3,4) unfolding k l by simp
  then show ?thesis by (simp add: k l)
qed

lemma call_sites_nonempty: "ps \<in> set (call_sites admitted es) \<Longrightarrow> ps \<noteq> []"
proof -
  assume ps: "ps \<in> set (call_sites admitted es)"
  define f where "f = (\<lambda>(i :: nat, e). map_option (\<lambda>k. (k, i)) (site_of admitted e))"
  define m where "m = fold (\<lambda>x m. case f x of Some (k, v) \<Rightarrow> bt_push k v m | None \<Rightarrow> m) (enumerate 0 es) []"
  have wf: "bt_wf m" unfolding m_def by (rule bt_wf_fold_push_option) simp
  have "map_of (fold (\<lambda>x m. case f x of Some (k, v) \<Rightarrow> bt_push k v m | None \<Rightarrow> m) xs m0) k \<noteq> Some []"
    if "\<forall>k. map_of m0 k \<noteq> Some []" for xs m0 k
    using that by (induction xs arbitrary: m0) (auto simp: bt_push_def map_of_bt_insert simp del: split_paired_All split: option.split)
  then have none: "map_of m key \<noteq> Some []" for key unfolding m_def by simp
  have "ps \<in> snd ` set m" using ps unfolding call_sites_push m_def f_def set_map .
  then obtain key where "(key, ps) \<in> set m" by force
  then have "map_of m key = Some ps" by (rule bt_items_get [OF wf, THEN iffD1])
  then show ?thesis using none by metis
qed

text \<open>The site of every admitted edge is one of the sites.\<close>

lemma call_sites_complete:
  assumes "i < length es" "site_of admitted (es ! i) = Some key"
  shows "\<exists>ps \<in> set (call_sites admitted es). i \<in> set ps"
proof -
  define f where "f = (\<lambda>(i :: nat, e). map_option (\<lambda>k. (k, i)) (site_of admitted e))"
  define m where "m = fold (\<lambda>x m. case f x of Some (k, v) \<Rightarrow> bt_push k v m | None \<Rightarrow> m) (enumerate 0 es) []"
  have "(i, es ! i) \<in> set (enumerate 0 es)" "f (i, es ! i) = Some (key, i)" using assms by (simp_all add: in_set_enumerate_eq f_def)
  then have "(key, i) \<in> set (List.map_filter f (enumerate 0 es))" unfolding set_map_filter by blast
  then have "i \<in> set (bt_items m key)" unfolding m_def bt_items_fold_push_option by force
  then obtain ps where ps: "map_of m key = Some ps" "i \<in> set ps" by (cases "map_of m key") (auto simp: bt_items_def)
  from map_of_SomeD [OF ps(1)] have "ps \<in> snd ` set m" by force
  then show ?thesis using ps(2) unfolding call_sites_push m_def f_def set_map by blast
qed

subsection \<open>Calls of a graph\<close>

text \<open>What canonicalization keeps of an edge: all but its id and its group.\<close>

definition call_of :: "edge_with_provenance \<Rightarrow> node_id \<times> u64 option \<times> node_id \<times> edge_kind \<times> string \<times> confidence" where
  "call_of e = (case ep_edge e of r \<Rightarrow> (e_src r, e_site_id r, e_dst r, e_kind r, e_rule r, e_confidence r))"

definition calls_in :: "resolved_graph \<Rightarrow> (node_id \<times> u64 option \<times> node_id \<times> edge_kind \<times> string \<times> confidence) multiset" where
  "calls_in g = mset (map call_of (cv_iter (rg_edges g)))"

lemma calls_in_canonicalize: "calls_in (canonicalize g) = calls_in g"
proof -
  obtain m es' where form: "fst (canonicalize_parts (cv_iter (rg_edges g)) (rg_candidates g)) = assign_edge_ids (sort_link_edges es')"
    and es': "es' = map (renumbered m) (sort_link_edges (cv_iter (rg_edges g)))"
    by (rule canonicalize_parts_form [of "cv_iter (rg_edges g)" "rg_candidates g"]) simp
  have ids: "map call_of (assign_edge_ids es) = map call_of es" for es
    by (rule assign_edge_ids_map) (simp add: call_of_def)
  have "call_of (renumbered m e) = call_of e" for e
    by (simp add: renumbered_def set_group_def call_of_def split: option.split)
  then have "mset (map call_of (assign_edge_ids (sort_link_edges es'))) = mset (map call_of (cv_iter (rg_edges g)))"
    unfolding ids es' by (simp add: sort_link_edges_def image_mset.compositionality comp_def)
  moreover have "cv_iter (rg_edges (canonicalize g)) = fst (canonicalize_parts (cv_iter (rg_edges g)) (rg_candidates g))"
    by (simp add: canonicalize_def cv_iter_def cv_from_iter_abs [unfolded cv_abs_def] split: prod.split)
  ultimately show ?thesis by (simp add: calls_in_def form)
qed

subsection \<open>Class hierarchy analysis\<close>

lemma bt_items_map:
  "bt_items (map (\<lambda>(k, xs). (k, f xs)) m) k = (case map_of m k of Some xs \<Rightarrow> f xs | None \<Rightarrow> [])"
  by (simp add: bt_items_def map_of_map split: option.split)

lemma set_remdups_adj_sort [simp]: "set (remdups_adj (sort xs)) = set xs" by simp

lemma supertraits_loop_closure:
  assumes "\<And>x y. x \<in> set seen \<Longrightarrow> y \<in> set (bt_items inherits x) \<Longrightarrow> y \<in> set seen \<union> set stack"
  shows "set (supertraits_loop inherits stack seen) = {(x, y). y \<in> set (bt_items inherits x)}\<^sup>* `` (set seen \<union> set stack)"
  using assms
proof (induction inherits stack seen rule: supertraits_loop.induct)
  case (1 inherits seen)
  then have "{(x, y). y \<in> set (bt_items inherits x)}\<^sup>* `` set seen = set seen"
    by (intro Image_closed_trancl) auto
  then show ?case by (simp add: supertraits_loop.simps)
next
  case (2 inherits s stack seen)
  let ?R = "{(x, y). y \<in> set (bt_items inherits x)}"
  show ?case
  proof (cases "s \<in> set seen")
    case True
    have "set (supertraits_loop inherits stack seen) = ?R\<^sup>* `` (set seen \<union> set stack)"
      by (rule "2.IH"(1) [OF True]) (use "2.prems" True in auto)
    then show ?thesis using True by (simp add: supertraits_loop.simps insert_absorb)
  next
    case False
    have "set (supertraits_loop inherits (rev (bt_items inherits s) @ stack) (bs_insert s seen)) =
        ?R\<^sup>* `` (set (bs_insert s seen) \<union> set (rev (bt_items inherits s) @ stack))"
      by (rule "2.IH"(2) [OF False]) (use "2.prems" in \<open>auto simp: set_bs_insert\<close>)
    also have "\<dots> = ?R\<^sup>* `` (set seen \<union> set (s # stack))"
      by (auto simp: set_bs_insert intro: converse_rtrancl_into_rtrancl)
    finally show ?thesis using False by (simp add: supertraits_loop.simps)
  qed
qed

lemma transitive_subtraits_rel:
  "sub \<in> set (bt_items (transitive_subtraits inherits) tr) \<longleftrightarrow> (sub, tr) \<in> {(x, y). y \<in> set (bt_items inherits x)}\<^sup>+"
proof -
  let ?R = "{(x, y). y \<in> set (bt_items inherits x)}" and ?reach = "\<lambda>sub. supertraits_loop inherits (rev (bt_items inherits sub)) []"
  have one: "set (bt_items (fold (\<lambda>tr. bt_add tr sub) sups m) k) = set (bt_items m k) \<union> {x. x = sub \<and> k \<in> set sups}" for sub sups m k
    using set_bt_items_fold_add [of "\<lambda>y. y" "\<lambda>_. sub" sups m k] by auto
  have "set (bt_items (fold (\<lambda>sub m. fold (\<lambda>tr. bt_add tr sub) (?reach sub) m) subs m) k) =
      set (bt_items m k) \<union> {sub \<in> set subs. k \<in> set (?reach sub)}" for subs m k
    by (induction subs arbitrary: m) (auto simp: one)
  then have "sub \<in> set (bt_items (transitive_subtraits inherits) tr) \<longleftrightarrow> sub \<in> fst ` set inherits \<and> tr \<in> set (?reach sub)"
    by (simp add: transitive_subtraits_def)
  also have "tr \<in> set (?reach sub) \<longleftrightarrow> (\<exists>y. (sub, y) \<in> ?R \<and> (y, tr) \<in> ?R\<^sup>*)"
    by (subst supertraits_loop_closure) auto
  also have "\<dots> \<longleftrightarrow> (sub, tr) \<in> ?R\<^sup>+" by (meson rtrancl_into_trancl2 tranclD)
  also have "sub \<in> fst ` set inherits \<and> (sub, tr) \<in> ?R\<^sup>+ \<longleftrightarrow> (sub, tr) \<in> ?R\<^sup>+"
  proof -
    have "sub \<in> fst ` set inherits" if "y \<in> set (bt_items inherits sub)" for y
      using that by (cases "map_of inherits sub") (auto simp: bt_items_def dest!: map_of_SomeD intro: rev_image_eqI)
    then show ?thesis by (auto dest: tranclD)
  qed
  finally show ?thesis .
qed

text \<open>
  The relations of the graph that the lattice reads: a type implements a trait, a trait inherits from
  another, a trait declares a method (a callable whose parent is a trait), and the node of a name, the
  last one that carries it.
\<close>

definition implementing :: "resolved_graph \<Rightarrow> (string \<times> string) set" where
  "implementing g = set (relation_fqns (rg_nodes g) Implements (cv_iter (rg_edges g)))"

definition inheriting :: "resolved_graph \<Rightarrow> (string \<times> string) set" where
  "inheriting g = set (relation_fqns (rg_nodes g) Inherits (cv_iter (rg_edges g)))"

definition trait_names :: "resolved_graph \<Rightarrow> string set" where
  "trait_names g = snd ` implementing g \<union> fst ` inheriting g \<union> snd ` inheriting g"

definition declares :: "resolved_graph \<Rightarrow> string \<Rightarrow> string \<Rightarrow> bool" where
  "declares g tr meth \<longleftrightarrow> tr \<in> trait_names g \<and> (\<exists>n \<in> set (callable_nodes (rg_nodes g)). split_fqn (n_fqn n) = Some (tr, meth))"

definition default_body :: "resolved_graph \<Rightarrow> string \<Rightarrow> bool" where
  "default_body g fqn \<longleftrightarrow>
     (\<exists>n \<in> set (callable_nodes (rg_nodes g)). n_fqn n = fqn \<and> \<not> n_is_abstract n \<and>
       (\<exists>tr meth. split_fqn fqn = Some (tr, meth) \<and> tr \<in> trait_names g))"

definition node_named :: "resolved_graph \<Rightarrow> string \<Rightarrow> node_id option" where
  "node_named g fqn = map_option (\<lambda>n. n_id (np_node n)) (find (\<lambda>n. n_fqn (np_node n) = fqn) (rev (rg_nodes g)))"

lemma fold_insert_find:
  "map_of (fold (\<lambda>x. bt_insert (f x) (h x)) xs m) k = (case find (\<lambda>x. f x = k) (rev xs) of Some x \<Rightarrow> Some (h x) | None \<Rightarrow> map_of m k)"
  by (induction xs rule: rev_induct) (auto simp: map_of_bt_insert)

lemma lattice_implementors: "set (bt_items (lt_implementors (lattice_build g)) tr) = {ty. (ty, tr) \<in> implementing g}"
proof -
  have push: "bt_items (fold (\<lambda>(ty, tr). bt_push tr ty) ps m) k = bt_items m k @ map fst (filter (\<lambda>p. snd p = k) ps)"
    for ps :: "(string \<times> string) list" and m k
    unfolding split_beta by (rule bt_items_fold_push)
  have "set (bt_items (lt_implementors (lattice_build g)) tr) =
      set (bt_items (fold (\<lambda>(ty, tr). bt_push tr ty) (relation_fqns (rg_nodes g) Implements (cv_iter (rg_edges g))) []) tr)"
    by (simp add: lattice_build_def Let_def bt_items_map) (simp add: bt_items_def split: option.split)
  then show ?thesis by (force simp: push implementing_def)
qed

lemma bt_items_fold_add_pairs: "y \<in> set (bt_items (fold (\<lambda>(a, b). bt_add a b) ps []) x) \<longleftrightarrow> (x, y) \<in> set ps"
proof -
  have "set (bt_items (fold (\<lambda>(a, b). bt_add a b) ps []) x) = snd ` {p \<in> set ps. fst p = x}"
    unfolding split_beta set_bt_items_fold_add by simp
  then show ?thesis by force
qed

lemma lattice_subtraits: "set (bt_items (lt_subtraits (lattice_build g)) tr) = {sub. (sub, tr) \<in> (inheriting g)\<^sup>+}"
proof -
  define F where "F = fold (\<lambda>(sub, tr). bt_add sub tr) (relation_fqns (rg_nodes g) Inherits (cv_iter (rg_edges g))) []"
  have "{(x, y). y \<in> set (bt_items F x)} = inheriting g"
    unfolding F_def bt_items_fold_add_pairs inheriting_def by simp
  moreover have "lt_subtraits (lattice_build g) = transitive_subtraits F" by (simp add: lattice_build_def Let_def F_def)
  ultimately show ?thesis using transitive_subtraits_rel [of _ F tr] by auto
qed

lemma trait_method_Some: "trait_method traits n = Some (p, m) \<longleftrightarrow> split_fqn (n_fqn n) = Some (p, m) \<and> p \<in> traits"
  by (auto simp: trait_method_def split: option.split)

lemma lattice_methods: "set (bt_items (lt_trait_methods (lattice_build g)) meth) = {tr. declares g tr meth}"
proof -
  define T where "T = trait_names g"
  have T: "snd ` set (relation_fqns (rg_nodes g) Implements (cv_iter (rg_edges g))) \<union>
      fst ` set (relation_fqns (rg_nodes g) Inherits (cv_iter (rg_edges g))) \<union>
      snd ` set (relation_fqns (rg_nodes g) Inherits (cv_iter (rg_edges g))) = T"
    by (simp add: T_def trait_names_def implementing_def inheriting_def)
  have "set (bt_items (fold (\<lambda>n. case trait_method T n of Some (parent, name) \<Rightarrow> bt_add name parent | None \<Rightarrow> id) ns m) k) =
      set (bt_items m k) \<union> {tr. \<exists>n \<in> set ns. trait_method T n = Some (tr, k)}" for ns m k
    by (induction ns arbitrary: m) (auto simp: container_simps split: option.splits)
  moreover have "lt_trait_methods (lattice_build g) =
      fold (\<lambda>n. case trait_method T n of Some (parent, name) \<Rightarrow> bt_add name parent | None \<Rightarrow> id)
        (filter (\<lambda>n. trait_method T n \<noteq> None) (callable_nodes (rg_nodes g))) []"
    by (simp add: lattice_build_def Let_def T)
  ultimately show ?thesis by (auto simp: declares_def trait_method_Some simp flip: T_def)
qed

lemma lattice_default: "fqn \<in> set (lt_default_body (lattice_build g)) \<longleftrightarrow> default_body g fqn"
proof -
  have T: "snd ` set (relation_fqns (rg_nodes g) Implements (cv_iter (rg_edges g))) \<union>
      fst ` set (relation_fqns (rg_nodes g) Inherits (cv_iter (rg_edges g))) \<union>
      snd ` set (relation_fqns (rg_nodes g) Inherits (cv_iter (rg_edges g))) = trait_names g"
    by (simp add: trait_names_def implementing_def inheriting_def)
  have "lt_default_body (lattice_build g) = bs_collect (map n_fqn (filter (\<lambda>n. \<not> n_is_abstract n)
      (filter (\<lambda>n. trait_method (trait_names g) n \<noteq> None) (callable_nodes (rg_nodes g)))))"
    by (simp add: lattice_build_def Let_def T)
  then have "fqn \<in> set (lt_default_body (lattice_build g)) \<longleftrightarrow>
      (\<exists>n \<in> set (callable_nodes (rg_nodes g)). n_fqn n = fqn \<and> \<not> n_is_abstract n \<and> trait_method (trait_names g) n \<noteq> None)"
    by auto
  also have "\<dots> \<longleftrightarrow> default_body g fqn"
  proof -
    have "trait_method T n \<noteq> None \<longleftrightarrow> (\<exists>tr meth. split_fqn (n_fqn n) = Some (tr, meth) \<and> tr \<in> T)" for T n
      by (simp flip: trait_method_Some)
    then show ?thesis unfolding default_body_def by metis
  qed
  finally show ?thesis .
qed

lemma lattice_nodes: "map_of (lt_node_by_fqn (lattice_build g)) fqn = node_named g fqn"
  by (simp add: lattice_build_def Let_def fold_insert_find node_named_def split: option.split)

lemma lattice_callable: "set (lt_callable (lattice_build g)) = n_fqn ` set (callable_nodes (rg_nodes g))"
  by (simp add: lattice_build_def Let_def)

lemma lattice_types: "set (trait_types (lattice_build g) tr) = {ty. \<exists>sub. (sub, tr) \<in> (inheriting g)\<^sup>* \<and> (ty, sub) \<in> implementing g}"
  by (auto simp: trait_types_def lattice_implementors lattice_subtraits rtrancl_eq_or_trancl)

text \<open>
  The set that class hierarchy analysis puts in the place of a call of a method by name: over every
  trait that declares the method and every type that implements the trait or a trait that inherits
  from it, directly or through others, the type's own method when it has one, and otherwise the
  default body of the trait when there is one.
\<close>

lemma trait_scoped_candidates_meaning:
  "i \<in> set (trait_scoped_candidates (lattice_build g) meth) \<longleftrightarrow>
     (\<exists>tr sub ty. declares g tr meth \<and> (sub, tr) \<in> (inheriting g)\<^sup>* \<and> (ty, sub) \<in> implementing g \<and>
        (if ty @ ''::'' @ meth \<in> n_fqn ` set (callable_nodes (rg_nodes g)) then node_named g (ty @ ''::'' @ meth) = Some i
         else default_body g (tr @ ''::'' @ meth) \<and> node_named g (tr @ ''::'' @ meth) = Some i))"
proof -
  have target: "dispatch_target (lattice_build g) meth tr ty = Some i \<longleftrightarrow>
      (if ty @ ''::'' @ meth \<in> n_fqn ` set (callable_nodes (rg_nodes g)) then node_named g (ty @ ''::'' @ meth) = Some i
       else default_body g (tr @ ''::'' @ meth) \<and> node_named g (tr @ ''::'' @ meth) = Some i)" for tr ty
    by (simp add: dispatch_target_def member_fqn_def lattice_callable lattice_default lattice_nodes)
  have "i \<in> set (trait_scoped_candidates (lattice_build g) meth) \<longleftrightarrow>
      (\<exists>tr ty. declares g tr meth \<and> ty \<in> set (trait_types (lattice_build g) tr) \<and> dispatch_target (lattice_build g) meth tr ty = Some i)"
    by (auto simp: trait_scoped_candidates_def lattice_methods set_map_filter)
  then show ?thesis unfolding target lattice_types by blast
qed

subsection \<open>Function values\<close>

lemma bt_items_sort_dedup: "set (bt_items (sort_dedup_lists m) k) = set (bt_items m k)"
  by (simp add: sort_dedup_lists_def bt_items_map) (simp add: bt_items_def split: option.split)

text \<open>
  The function values that an indirect call can reach: the closures, and the functions whose parent is
  not a type, of the language of the caller, with as many parameters as the call has arguments when
  their number is known.
\<close>

lemma compatible_meaning:
  "i \<in> set (compatible (callable_index_build ns) lang arity) \<longleftrightarrow>
     (\<exists>n \<in> set ns. n_id n = i \<and> n_lang n = lang \<and>
        (n_kind n = Lambda \<or>
         n_kind n = Function \<and> (\<forall>p. module_prefix (n_fqn n) = Some p \<longrightarrow> p \<notin> n_fqn ` {t \<in> set ns. n_kind t = Type})) \<and>
        (case arity of Some a \<Rightarrow> (\<exists>sg. n_signature n = Some sg \<and> length (sg_params sg) = a) | None \<Rightarrow> True))"
proof -
  let ?types = "bs_collect (map n_fqn (filter (\<lambda>n. n_kind n = Type) ns))"
  let ?vals = "filter (is_function_value ?types) ns"
  have "set ?types = n_fqn ` {t \<in> set ns. n_kind t = Type}" by simp
  then have val: "is_function_value ?types n \<longleftrightarrow> n_kind n = Lambda \<or>
      n_kind n = Function \<and> (\<forall>p. module_prefix (n_fqn n) = Some p \<longrightarrow> p \<notin> n_fqn ` {t \<in> set ns. n_kind t = Type})" for n
    by (simp add: is_function_value_def split: symbol_kind.split option.split)
  have arity: "set (bt_items (fold (\<lambda>n m. case n_signature n of Some sg \<Rightarrow> bt_push (n_lang n, length (sg_params sg)) (n_id n) m | None \<Rightarrow> m) vs m) (lang, a)) =
      set (bt_items m (lang, a)) \<union> {i. \<exists>n \<in> set vs. n_id n = i \<and> n_lang n = lang \<and> (\<exists>sg. n_signature n = Some sg \<and> length (sg_params sg) = a)}" for vs m a
    by (induction vs arbitrary: m) (auto simp: container_simps split: option.split)
  have all: "set (bt_items (fold (\<lambda>n. bt_push (n_lang n) (n_id n)) vs []) lang) = {i. \<exists>n \<in> set vs. n_id n = i \<and> n_lang n = lang}" for vs
    by (auto simp: bt_items_fold_push)
  show ?thesis
  proof (cases arity)
    case None
    then have "i \<in> set (compatible (callable_index_build ns) lang arity) \<longleftrightarrow> (\<exists>n \<in> set ?vals. n_id n = i \<and> n_lang n = lang)"
      unfolding callable_index_build_def Let_def compatible_def by (simp add: bt_items_sort_dedup all)
    then show ?thesis using None val by auto
  next
    case (Some a)
    then have "i \<in> set (compatible (callable_index_build ns) lang arity) \<longleftrightarrow>
        (\<exists>n \<in> set ?vals. n_id n = i \<and> n_lang n = lang \<and> (\<exists>sg. n_signature n = Some sg \<and> length (sg_params sg) = a))"
      unfolding callable_index_build_def Let_def compatible_def by (simp add: bt_items_sort_dedup arity)
    then show ?thesis using Some val by auto
  qed
qed

subsection \<open>Rapid type analysis\<close>

definition calling :: "resolved_graph \<Rightarrow> (node_id \<times> node_id) set" where
  "calling g = {(e_src (ep_edge e), e_dst (ep_edge e)) | e. e \<in> set (cv_iter (rg_edges g)) \<and> is_call (e_kind (ep_edge e))}"

lemma call_adjacency_rel: "y \<in> set (bt_items (call_adjacency es) x) \<longleftrightarrow>
    (\<exists>e \<in> set es. is_call (e_kind (ep_edge e)) \<and> e_src (ep_edge e) = x \<and> e_dst (ep_edge e) = y)"
proof -
  have "set (bt_items (fold (\<lambda>e m. if is_call (e_kind (ep_edge e)) then bt_add (e_src (ep_edge e)) (e_dst (ep_edge e)) m else m) es m) x) =
      set (bt_items m x) \<union> {y. \<exists>e \<in> set es. is_call (e_kind (ep_edge e)) \<and> e_src (ep_edge e) = x \<and> e_dst (ep_edge e) = y}" for m
    by (induction es arbitrary: m) (auto simp: container_simps)
  then show ?thesis by (simp add: call_adjacency_def)
qed

text \<open>The callers that count are those that a chain of calls reaches from a root.\<close>

lemma reachable_callers_closure:
  "set (reachable_callers g) = (calling g)\<^sup>* `` set (rta_roots (map np_node (rg_nodes g)))"
proof -
  let ?roots = "rta_roots (map np_node (rg_nodes g))"
  let ?s = "fold mark_dirty ?roots ([], [])"
  have rel: "{(x, y). y \<in> set (bt_items (call_adjacency (cv_iter (rg_edges g))) x)} = calling g"
    by (auto simp: call_adjacency_rel calling_def)
  have sets: "set (fst ?s) = set ?roots" "set (snd ?s) = set ?roots" by (simp_all add: mark_all)
  have "set (dirty_loop (call_adjacency (cv_iter (rg_edges g))) (fst ?s) (snd ?s)) = (calling g)\<^sup>* `` set (snd ?s)"
    unfolding rel [symmetric]
    by (rule dirty_loop_closure [THEN conjunct2]) (simp_all add: sets mark_all(4))
  then show ?thesis by (simp add: reachable_callers_def Let_def sets)
qed

text \<open>A position is cut when its edge carries a marker; a candidate is live when reachable code constructs its type.\<close>

definition cut_at :: "edge_with_provenance list \<Rightarrow> nat \<Rightarrow> bool" where
  "cut_at es i \<longleftrightarrow> \<not> cut_markers_is_empty (e_cut_markers (ep_edge (es ! i)))"

definition prunable :: "edge_with_provenance list \<Rightarrow> (nat \<Rightarrow> bool) \<Rightarrow> nat list \<Rightarrow> bool" where
  "prunable es live ps \<longleftrightarrow> \<not> (\<exists>i \<in> set ps. cut_at es i) \<and> (\<exists>i \<in> set ps. live i) \<and> (\<exists>i \<in> set ps. \<not> live i)"

lemma rta_site_sets:
  assumes "live = (\<lambda>i. keeps_candidate fqns instantiated (ep_edge (es ! i)))"
  shows "set (pr_drop (rta_site es fqns instantiated under_cut ps st)) =
      set (pr_drop st) \<union> {i \<in> set ps. \<not> under_cut \<and> prunable es live ps \<and> \<not> live i}"
    and "set (pr_upgrade (rta_site es fqns instantiated under_cut ps st)) =
      set (pr_upgrade st) \<union> {i \<in> set ps. \<not> under_cut \<and> prunable es live ps \<and> live i}"
  using assms by (auto simp: rta_site_def Let_def guard_site_def prunable_def cut_at_def list_ex_iff filter_empty_conv)

definition rta_state :: "resolved_graph \<Rightarrow> prune_state" where
  "rta_state g =
     fold (rta_site (cv_iter (rg_edges g)) (fqn_by_id (rg_nodes g)) (instantiated_types g (reachable_callers g))
         (construction_under_cut g (reachable_callers g)))
       (call_sites is_cha_edge (cv_iter (rg_edges g)))
       \<lparr>pr_drop = [], pr_upgrade = [], pr_stats = \<lparr>ra_sites_pruned = 0, ra_candidates_dropped = 0, ra_sites_guarded = 0\<rparr>\<rparr>"

definition live_at :: "resolved_graph \<Rightarrow> nat \<Rightarrow> bool" where
  "live_at g i \<longleftrightarrow> keeps_candidate (fqn_by_id (rg_nodes g)) (instantiated_types g (reachable_callers g)) (ep_edge (cv_iter (rg_edges g) ! i))"

lemma rta_state_sets:
  "set (pr_drop (rta_state g)) = {i. \<exists>ps \<in> set (call_sites is_cha_edge (cv_iter (rg_edges g))). i \<in> set ps \<and>
      \<not> construction_under_cut g (reachable_callers g) \<and> prunable (cv_iter (rg_edges g)) (live_at g) ps \<and> \<not> live_at g i}"
  "set (pr_upgrade (rta_state g)) = {i. \<exists>ps \<in> set (call_sites is_cha_edge (cv_iter (rg_edges g))). i \<in> set ps \<and>
      \<not> construction_under_cut g (reachable_callers g) \<and> prunable (cv_iter (rg_edges g)) (live_at g) ps \<and> live_at g i}"
proof -
  have live: "live_at g = (\<lambda>i. keeps_candidate (fqn_by_id (rg_nodes g)) (instantiated_types g (reachable_callers g)) (ep_edge (cv_iter (rg_edges g) ! i)))"
    by (simp add: live_at_def fun_eq_iff)
  note site = rta_site_sets [OF live, of "construction_under_cut g (reachable_callers g)"]
  let ?step = "rta_site (cv_iter (rg_edges g)) (fqn_by_id (rg_nodes g)) (instantiated_types g (reachable_callers g))
      (construction_under_cut g (reachable_callers g))"
  have "set (pr_drop (fold ?step sites st)) = set (pr_drop st) \<union> {i. \<exists>ps \<in> set sites. i \<in> set ps \<and>
      \<not> construction_under_cut g (reachable_callers g) \<and> prunable (cv_iter (rg_edges g)) (live_at g) ps \<and> \<not> live_at g i}" for sites st
    by (induction sites arbitrary: st) (auto simp: site)
  moreover have "set (pr_upgrade (fold ?step sites st)) = set (pr_upgrade st) \<union> {i. \<exists>ps \<in> set sites. i \<in> set ps \<and>
      \<not> construction_under_cut g (reachable_callers g) \<and> prunable (cv_iter (rg_edges g)) (live_at g) ps \<and> live_at g i}" for sites st
    by (induction sites arbitrary: st) (auto simp: site)
  ultimately show "set (pr_drop (rta_state g)) = {i. \<exists>ps \<in> set (call_sites is_cha_edge (cv_iter (rg_edges g))). i \<in> set ps \<and>
      \<not> construction_under_cut g (reachable_callers g) \<and> prunable (cv_iter (rg_edges g)) (live_at g) ps \<and> \<not> live_at g i}"
    "set (pr_upgrade (rta_state g)) = {i. \<exists>ps \<in> set (call_sites is_cha_edge (cv_iter (rg_edges g))). i \<in> set ps \<and>
      \<not> construction_under_cut g (reachable_callers g) \<and> prunable (cv_iter (rg_edges g)) (live_at g) ps \<and> live_at g i}"
    by (simp_all add: rta_state_def)
qed

subsection \<open>What the passes leave\<close>

lemma cv_iter_from [simp]: "cv_iter (cv_from_iter es) = es"
  by (simp add: cv_iter_def cv_from_iter_abs [unfolded cv_abs_def])

lemma rescoped_edge_call:
  "call_of (rescoped_edge rule k proto dst conf gr over) = (e_src (ep_edge proto), e_site_id (ep_edge proto), dst, k, rule, conf)"
  by (simp add: call_of_def rescoped_edge_def Let_def)

lemma remove_nothing: "remove_edges_at es [] = es"
  by (simp add: remove_edges_at_def)

text \<open>The set that replaces the edges of a site, empty when no trait declares the method.\<close>

definition cha_found :: "resolved_graph \<Rightarrow> nat list \<Rightarrow> node_id list" where
  "cha_found g ps =
     (case fqn_of_id (rg_nodes g) (e_dst (ep_edge (cv_iter (rg_edges g) ! hd ps))) of
        Some fqn \<Rightarrow> trait_scoped_candidates (lattice_build g) (last_name fqn)
      | None \<Rightarrow> [])"

definition cha_calls :: "resolved_graph \<Rightarrow> nat list \<Rightarrow> (node_id \<times> u64 option \<times> node_id \<times> edge_kind \<times> string \<times> confidence) list" where
  "cha_calls g ps =
     (let p = ep_edge (cv_iter (rg_edges g) ! hd ps) in
      map (\<lambda>d. (e_src p, e_site_id p, d, CallsVirtual, ''cha-trait-set'', if length (cha_found g ps) = 1 then Probable else Possible)) (cha_found g ps))"

lemma cha_site_state:
  "rz_dropped (cha_site g (lattice_build g) ps st) = rz_dropped st @ (if cha_found g ps = [] then [] else ps)"
  "concat (map (map call_of \<circ> expand_replacement build_cha_edge) (rz_replacements (cha_site g (lattice_build g) ps st))) =
     concat (map (map call_of \<circ> expand_replacement build_cha_edge) (rz_replacements st)) @ cha_calls g ps"
proof -
  have canon: "canonicalize_candidate_dsts (trait_scoped_candidates lt meth) =
      (trait_scoped_candidates lt meth, if length (trait_scoped_candidates lt meth) = 1 then Probable else Possible)" for lt meth
  proof -
    have "strict_sorted (trait_scoped_candidates lt meth)" by (simp add: trait_scoped_candidates_def)
    then have "remdups_adj (sort (trait_scoped_candidates lt meth)) = trait_scoped_candidates lt meth"
      by (simp add: sort_key_id_if_sorted strict_sorted_iff remdups_adj_distinct)
    then show ?thesis by (simp add: canonicalize_candidate_dsts_def)
  qed
  show "rz_dropped (cha_site g (lattice_build g) ps st) = rz_dropped st @ (if cha_found g ps = [] then [] else ps)"
    by (simp add: cha_site_def cha_found_def Let_def canon rescope_site_def split: option.split)
  show "concat (map (map call_of \<circ> expand_replacement build_cha_edge) (rz_replacements (cha_site g (lattice_build g) ps st))) =
     concat (map (map call_of \<circ> expand_replacement build_cha_edge) (rz_replacements st)) @ cha_calls g ps"
    by (simp add: cha_site_def cha_found_def cha_calls_def Let_def canon rescope_site_def expand_replacement_def build_cha_edge_def
        rescoped_edge_call comp_def split: option.split)
qed

lemma cha_fold_state:
  "rz_dropped (fold (cha_site g (lattice_build g)) sites st) = rz_dropped st @ concat (filter (\<lambda>ps. cha_found g ps \<noteq> []) sites)"
  "concat (map (map call_of \<circ> expand_replacement build_cha_edge) (rz_replacements (fold (cha_site g (lattice_build g)) sites st))) =
     concat (map (map call_of \<circ> expand_replacement build_cha_edge) (rz_replacements st)) @ concat (map (cha_calls g) sites)"
  by (induction sites arbitrary: st) (auto simp: cha_site_state)

text \<open>
  Class hierarchy analysis removes exactly the edges of the sites whose method some trait declares,
  and gives each of these sites one edge to every member of its trait scoped set; every other edge
  stays as it is, up to its id and the number of its group.
\<close>

lemma run_cha_calls:
  "calls_in (fst (run_cha g)) =
     mset (map call_of (remove_edges_at (cv_iter (rg_edges g))
       (concat (filter (\<lambda>ps. cha_found g ps \<noteq> []) (call_sites is_name_method (cv_iter (rg_edges g))))))) +
     mset (concat (map (cha_calls g) (call_sites is_name_method (cv_iter (rg_edges g)))))"
proof -
  let ?es = "cv_iter (rg_edges g)"
  define sites where "sites = call_sites is_name_method ?es"
  define st where "st = fold (cha_site g (lattice_build g)) sites (rescope_start (next_candidate_group ?es))"
  have dropped: "rz_dropped st = concat (filter (\<lambda>ps. cha_found g ps \<noteq> []) sites)"
    and expanded: "concat (map (map call_of \<circ> expand_replacement build_cha_edge) (rz_replacements st)) = concat (map (cha_calls g) sites)"
    unfolding st_def by (simp_all add: cha_fold_state rescope_start_def)
  show ?thesis
  proof (cases "rz_dropped st = []")
    case True
    have "cha_found g ps = []" if "ps \<in> set sites" for ps
      using True that call_sites_nonempty [of ps is_name_method ?es] unfolding dropped sites_def by (auto simp: filter_empty_conv)
    then have "concat (map (cha_calls g) sites) = []" by (auto simp: cha_calls_def)
    moreover have "concat (filter (\<lambda>ps. cha_found g ps \<noteq> []) sites) = []" using True dropped by simp
    moreover have "fst (run_cha g) = g" using True by (simp add: run_cha_def Let_def flip: sites_def st_def)
    ultimately show ?thesis unfolding sites_def [symmetric] by (simp only: calls_in_def remove_nothing list.map mset.simps add_0_right)
  next
    case False
    then have "sites \<noteq> []" by (auto simp: dropped)
    then have "fst (run_cha g) = canonicalize (g\<lparr>rg_edges := cv_from_iter (replace_edges build_cha_edge st ?es),
        rg_candidates := filter (\<lambda>c. cd_candidate_group c \<notin> set (List.map_filter (\<lambda>i. e_candidate_group (ep_edge (?es ! i))) (rz_dropped st))) (rg_candidates g) @ rz_candidates st\<rparr>)"
      using False by (simp add: run_cha_def Let_def flip: sites_def st_def)
    then have "calls_in (fst (run_cha g)) = mset (map call_of (replace_edges build_cha_edge st ?es))"
      by (simp add: calls_in_canonicalize) (simp add: calls_in_def)
    then show ?thesis
      using expanded unfolding sites_def [symmetric] dropped [symmetric] replace_edges_def by (simp add: map_concat comp_def)
  qed
qed

text \<open>
  The signature pass removes the first placeholder edge of every indirect site and gives the site one
  possible edge to every function value that fits; a site that nothing fits loses its placeholder.
\<close>

definition sig_found :: "resolved_graph \<Rightarrow> nat \<times> nat option \<Rightarrow> node_id list" where
  "sig_found g site =
     compatible (callable_index_build (map np_node (rg_nodes g)))
       (case map_of (lang_by_id (rg_nodes g)) (e_src (ep_edge (cv_iter (rg_edges g) ! fst site))) of Some l \<Rightarrow> l | None \<Rightarrow> []) (snd site)"

definition sig_calls :: "resolved_graph \<Rightarrow> nat \<times> nat option \<Rightarrow> (node_id \<times> u64 option \<times> node_id \<times> edge_kind \<times> string \<times> confidence) list" where
  "sig_calls g site =
     (let p = ep_edge (cv_iter (rg_edges g) ! fst site) in
      map (\<lambda>d. (e_src p, e_site_id p, d, e_kind p, ''sig-compat'', Possible)) (remdups_adj (sort (sig_found g site))))"

lemma sig_fold_state:
  fixes g
  defines "step \<equiv> sig_site (cv_iter (rg_edges g)) (callable_index_build (map np_node (rg_nodes g))) (lang_by_id (rg_nodes g))"
  shows "rz_dropped (fst (fold step sites acc)) = rz_dropped (fst acc) @ map fst sites"
    "concat (map (map call_of \<circ> expand_replacement build_sig_edge) (rz_replacements (fst (fold step sites acc)))) =
       concat (map (map call_of \<circ> expand_replacement build_sig_edge) (rz_replacements (fst acc))) @ concat (map (sig_calls g) sites)"
    "snd (fold step sites acc) = snd acc + length (filter (\<lambda>site. sig_found g site = []) sites)"
proof -
  have one: "rz_dropped (fst (step site acc)) = rz_dropped (fst acc) @ [fst site]"
    "concat (map (map call_of \<circ> expand_replacement build_sig_edge) (rz_replacements (fst (step site acc)))) =
       concat (map (map call_of \<circ> expand_replacement build_sig_edge) (rz_replacements (fst acc))) @ sig_calls g site"
    "snd (step site acc) = snd acc + (if sig_found g site = [] then 1 else 0)" for site acc
    unfolding step_def sig_site_def sig_found_def sig_calls_def Let_def
    by (simp_all add: rescope_site_def expand_replacement_def build_sig_edge_def rescoped_edge_call
        canonicalize_candidate_dsts_def Let_def comp_def sig_found_def split: prod.split)
  show "rz_dropped (fst (fold step sites acc)) = rz_dropped (fst acc) @ map fst sites"
    by (induction sites arbitrary: acc) (simp_all add: one)
  show "concat (map (map call_of \<circ> expand_replacement build_sig_edge) (rz_replacements (fst (fold step sites acc)))) =
       concat (map (map call_of \<circ> expand_replacement build_sig_edge) (rz_replacements (fst acc))) @ concat (map (sig_calls g) sites)"
    by (induction sites arbitrary: acc) (simp_all add: one)
  show "snd (fold step sites acc) = snd acc + length (filter (\<lambda>site. sig_found g site = []) sites)"
    by (induction sites arbitrary: acc) (simp_all add: one)
qed

lemma run_sig_calls:
  "calls_in (fst (run_sig g)) =
     mset (map call_of (remove_edges_at (cv_iter (rg_edges g)) (map fst (collect_indirect_sites (cv_iter (rg_edges g)))))) +
     mset (concat (map (sig_calls g) (collect_indirect_sites (cv_iter (rg_edges g)))))"
proof -
  let ?es = "cv_iter (rg_edges g)"
  define sites where "sites = collect_indirect_sites ?es"
  obtain st n where st: "fold (sig_site ?es (callable_index_build (map np_node (rg_nodes g))) (lang_by_id (rg_nodes g))) sites
      (rescope_start (next_candidate_group ?es), 0) = (st, n)" by fastforce
  have dropped: "rz_dropped st = map fst sites"
    and expanded: "concat (map (map call_of \<circ> expand_replacement build_sig_edge) (rz_replacements st)) = concat (map (sig_calls g) sites)"
    using sig_fold_state(1,2) [of g sites "(rescope_start (next_candidate_group ?es), 0)"] unfolding st by (simp_all add: rescope_start_def)
  show ?thesis
  proof (cases "sites = []")
    case True
    then show ?thesis unfolding sites_def [symmetric] by (simp add: run_sig_def Let_def remove_nothing calls_in_def flip: sites_def)
  next
    case False
    then have "fst (run_sig g) = canonicalize (g\<lparr>rg_edges := cv_from_iter (replace_edges build_sig_edge st ?es),
        rg_candidates := rg_candidates g @ rz_candidates st\<rparr>)"
      by (simp add: run_sig_def Let_def st flip: sites_def)
    then have "calls_in (fst (run_sig g)) = mset (map call_of (replace_edges build_sig_edge st ?es))"
      by (simp add: calls_in_canonicalize) (simp add: calls_in_def)
    then show ?thesis
      using expanded unfolding sites_def [symmetric] dropped [symmetric] replace_edges_def by (simp add: map_concat comp_def)
  qed
qed

text \<open>
  Rapid type analysis drops a candidate exactly when no cut hides a construction, no edge of its site
  is cut, its declaring type is not constructed by reachable code, and that of another candidate of
  the same site is. So a site never loses its last target.
\<close>

definition same_site :: "resolved_graph \<Rightarrow> nat \<Rightarrow> nat set" where
  "same_site g i =
     {k. k < length (cv_iter (rg_edges g)) \<and> site_of is_cha_edge (cv_iter (rg_edges g) ! k) = site_of is_cha_edge (cv_iter (rg_edges g) ! i)}"

lemma rta_drops_exactly:
  "i \<in> set (pr_drop (rta_state g)) \<longleftrightarrow>
     i < length (cv_iter (rg_edges g)) \<and> site_of is_cha_edge (cv_iter (rg_edges g) ! i) \<noteq> None \<and>
     \<not> construction_under_cut g (reachable_callers g) \<and> \<not> (\<exists>k \<in> same_site g i. cut_at (cv_iter (rg_edges g)) k) \<and>
     \<not> live_at g i \<and> (\<exists>k \<in> same_site g i. live_at g k)"
proof
  assume "i \<in> set (pr_drop (rta_state g))"
  then obtain ps where ps: "ps \<in> set (call_sites is_cha_edge (cv_iter (rg_edges g)))" "i \<in> set ps" "\<not> live_at g i"
      "\<not> construction_under_cut g (reachable_callers g)" "prunable (cv_iter (rg_edges g)) (live_at g) ps"
    unfolding rta_state_sets by blast
  obtain key where key: "set ps = {i. i < length (cv_iter (rg_edges g)) \<and> site_of is_cha_edge (cv_iter (rg_edges g) ! i) = Some key}"
    using call_sites_positions [OF ps(1)] ..
  have i: "i < length (cv_iter (rg_edges g))" "site_of is_cha_edge (cv_iter (rg_edges g) ! i) \<noteq> None"
    using ps(2) unfolding key by (simp_all del: not_None_eq)
  have "set ps = same_site g i" using ps(2) key by (simp add: same_site_def)
  then show "i < length (cv_iter (rg_edges g)) \<and> site_of is_cha_edge (cv_iter (rg_edges g) ! i) \<noteq> None \<and>
     \<not> construction_under_cut g (reachable_callers g) \<and> \<not> (\<exists>k \<in> same_site g i. cut_at (cv_iter (rg_edges g)) k) \<and>
     \<not> live_at g i \<and> (\<exists>k \<in> same_site g i. live_at g k)"
    using ps i by (simp add: prunable_def del: not_None_eq)
next
  assume r: "i < length (cv_iter (rg_edges g)) \<and> site_of is_cha_edge (cv_iter (rg_edges g) ! i) \<noteq> None \<and>
     \<not> construction_under_cut g (reachable_callers g) \<and> \<not> (\<exists>k \<in> same_site g i. cut_at (cv_iter (rg_edges g)) k) \<and>
     \<not> live_at g i \<and> (\<exists>k \<in> same_site g i. live_at g k)"
  then obtain ps where ps: "ps \<in> set (call_sites is_cha_edge (cv_iter (rg_edges g)))" "i \<in> set ps" using call_sites_complete by blast
  obtain key where key: "set ps = {i. i < length (cv_iter (rg_edges g)) \<and> site_of is_cha_edge (cv_iter (rg_edges g) ! i) = Some key}"
    using call_sites_positions [OF ps(1)] ..
  have "set ps = same_site g i" using ps(2) key by (simp add: same_site_def)
  then have "prunable (cv_iter (rg_edges g)) (live_at g) ps" using r ps(2) by (auto simp: prunable_def)
  then show "i \<in> set (pr_drop (rta_state g))" using r ps unfolding rta_state_sets by blast
qed

lemma rta_keeps_target:
  assumes "i \<in> set (pr_drop (rta_state g))"
  shows "\<exists>k \<in> same_site g i. k \<notin> set (pr_drop (rta_state g)) \<and> live_at g k"
  using assms unfolding rta_drops_exactly by blast

text \<open>A candidate counts as live when its declaring type cannot be named or is constructed by a reachable caller.\<close>

lemma live_at_meaning:
  "live_at g i \<longleftrightarrow>
     (\<forall>fqn ty. map_of (fqn_by_id (rg_nodes g)) (e_dst (ep_edge (cv_iter (rg_edges g) ! i))) = Some fqn \<longrightarrow> module_prefix fqn = Some ty \<longrightarrow>
       (\<exists>e \<in> set (cv_iter (rg_edges g)). e_kind (ep_edge e) = Instantiates \<and>
          e_src (ep_edge e) \<in> (calling g)\<^sup>* `` set (rta_roots (map np_node (rg_nodes g))) \<and>
          map_of (fqn_by_id (rg_nodes g)) (e_dst (ep_edge e)) = Some ty))"
proof -
  have "ty \<in> set (instantiated_types g reach) \<longleftrightarrow> (\<exists>e \<in> set (cv_iter (rg_edges g)). e_kind (ep_edge e) = Instantiates \<and>
      e_src (ep_edge e) \<in> set reach \<and> map_of (fqn_by_id (rg_nodes g)) (e_dst (ep_edge e)) = Some ty)" for ty reach
    by (auto simp: instantiated_types_def set_map_filter split: if_splits)
  then show ?thesis
    unfolding live_at_def keeps_candidate_def reachable_callers_closure [symmetric] by (simp split: option.split bind_split)
qed

text \<open>The other edges stay, those of a pruned site with the new rule and confidence.\<close>

lemma upgraded_call: "call_of (upgraded_edge e) =
    (e_src (ep_edge e), e_site_id (ep_edge e), e_dst (ep_edge e), e_kind (ep_edge e), ''rta-pruned'', Probable)"
  by (simp add: upgraded_edge_def restamp_def call_of_def)

lemma remove_edges_upgrade:
  "remove_edges_at (upgrade_at ups es) drops =
     map (\<lambda>i. if i \<in> set ups then upgraded_edge (es ! i) else es ! i) (filter (\<lambda>i. i \<notin> set drops) [0..<length es])"
proof -
  have enum: "enumerate 0 (upgrade_at ups es) = map (\<lambda>i. (i, if i \<in> set ups then upgraded_edge (es ! i) else es ! i)) [0..<length es]"
    by (rule nth_equalityI) (auto simp: upgrade_at_def nth_enumerate_eq)
  show ?thesis unfolding remove_edges_at_def enum by (simp add: filter_map comp_def)
qed

lemma run_rta_calls:
  "calls_in (fst (run_rta g)) =
     mset (map (\<lambda>i. let e = cv_iter (rg_edges g) ! i in if i \<in> set (pr_upgrade (rta_state g))
         then (e_src (ep_edge e), e_site_id (ep_edge e), e_dst (ep_edge e), e_kind (ep_edge e), ''rta-pruned'', Probable) else call_of e)
       (filter (\<lambda>i. i \<notin> set (pr_drop (rta_state g))) [0..<length (cv_iter (rg_edges g))]))"
proof -
  let ?es = "cv_iter (rg_edges g)"
  have keep: "calls_in g = mset (map call_of (map ((!) ?es) [0..<length ?es]))" by (simp add: calls_in_def map_nth del: map_map)
  show ?thesis
  proof (cases "pr_drop (rta_state g) = []")
    case True
    then have "set (pr_drop (rta_state g)) = {}" by simp
    then have "set (pr_upgrade (rta_state g)) = {}" unfolding rta_state_sets by (auto simp: prunable_def)
    moreover have "fst (run_rta g) = g" using True by (simp add: run_rta_def Let_def flip: rta_state_def)
    ultimately show ?thesis using True keep by (simp add: Let_def comp_def)
  next
    case False
    have "call_sites is_cha_edge ?es \<noteq> []" using False by (auto simp: rta_state_def)
    then obtain es cs where run: "prune_parts (rta_state g) ?es (rg_candidates g) = (es, cs)"
        "fst (run_rta g) = canonicalize (g\<lparr>rg_edges := cv_from_iter es, rg_candidates := cs\<rparr>)"
      using False by (cases "prune_parts (rta_state g) ?es (rg_candidates g)") (simp add: run_rta_def Let_def flip: rta_state_def)
    have "call_of (shed_group gs e) = call_of e" for gs e
      by (simp add: shed_group_def call_of_def split: option.split)
    moreover have "es = map (shed_group (singleton_groups (remove_edges_at (upgrade_at (pr_upgrade (rta_state g)) ?es) (pr_drop (rta_state g)))))
        (remove_edges_at (upgrade_at (pr_upgrade (rta_state g)) ?es) (pr_drop (rta_state g)))"
      using run(1) by (simp add: prune_parts_def Let_def)
    ultimately have "map call_of es = map call_of (remove_edges_at (upgrade_at (pr_upgrade (rta_state g)) ?es) (pr_drop (rta_state g)))" by simp
    then have "calls_in (fst (run_rta g)) = mset (map call_of (remove_edges_at (upgrade_at (pr_upgrade (rta_state g)) ?es) (pr_drop (rta_state g))))"
      unfolding run(2) calls_in_canonicalize by (simp add: calls_in_def del: mset_map)
    also have "\<dots> = mset (map (\<lambda>i. let e = ?es ! i in if i \<in> set (pr_upgrade (rta_state g))
         then (e_src (ep_edge e), e_site_id (ep_edge e), e_dst (ep_edge e), e_kind (ep_edge e), ''rta-pruned'', Probable) else call_of e)
       (filter (\<lambda>i. i \<notin> set (pr_drop (rta_state g))) [0..<length ?es]))"
      unfolding remove_edges_upgrade map_map by (intro arg_cong [where f = mset] map_cong refl) (simp add: upgraded_call Let_def)
    finally show ?thesis .
  qed
qed

subsection \<open>A trait with a default body\<close>

text \<open>
  The trait \<open>Tr\<close> has a method with a body, \<open>U\<close> overrides it and \<open>T\<close> does not; the main function
  constructs both types and calls the method.
\<close>

definition pass_node :: "node_id \<Rightarrow> symbol_kind \<Rightarrow> string \<Rightarrow> entrypoint_kind option \<Rightarrow> node_with_provenance" where
  "pass_node i k fqn entry = \<lparr>np_node = (sample_node i fqn ''rust'' entry)\<lparr>n_kind := k\<rparr>, np_provenance = sample_prov\<rparr>"

definition pass_edge :: "node_id \<Rightarrow> node_id \<Rightarrow> edge_kind \<Rightarrow> string \<Rightarrow> u64 option \<Rightarrow> edge_with_provenance" where
  "pass_edge s d k rule site =
     \<lparr>ep_edge = (sample_edge 0 s d Possible Always)\<lparr>e_kind := k, e_rule := rule, e_site_id := site\<rparr>, ep_provenance = sample_prov\<rparr>"

definition dispatch_nodes :: "node_with_provenance list" where
  "dispatch_nodes =
     [pass_node 0 Function ''app::main'' (Some Main), pass_node 1 Type ''app::Tr'' None, pass_node 2 Type ''app::T'' None,
      pass_node 3 Type ''app::U'' None, pass_node 4 Method ''app::Tr::m'' None, pass_node 5 Method ''app::U::m'' None]"

definition dispatch_edges :: "edge_with_provenance list \<Rightarrow> edge_with_provenance list" where
  "dispatch_edges calls =
     [pass_edge 2 1 Implements ''impl-relation'' None, pass_edge 3 1 Implements ''impl-relation'' None,
      pass_edge 0 2 Instantiates ''scope'' None, pass_edge 0 3 Instantiates ''scope'' None] @ calls"

definition dispatch_graph :: "edge_with_provenance list \<Rightarrow> resolved_graph" where
  "dispatch_graph calls = sample_graph\<lparr>rg_nodes := dispatch_nodes, rg_edges := cv_from_iter (dispatch_edges calls)\<rparr>"

lemma dispatch_fields [simp]:
  "rg_nodes (dispatch_graph calls) = dispatch_nodes" "cv_iter (rg_edges (dispatch_graph calls)) = dispatch_edges calls"
  by (simp_all add: dispatch_graph_def)

text \<open>The call by name reaches one method; afterwards it reaches the default body and the override.\<close>

definition named_call :: edge_with_provenance where
  "named_call = pass_edge 0 5 CallsVirtual ''name-method'' (Some 7)"

definition trait_calls :: "edge_with_provenance list" where
  "trait_calls = [pass_edge 0 4 CallsVirtual ''cha-trait-set'' (Some 7), pass_edge 0 5 CallsVirtual ''cha-trait-set'' (Some 7)]"

lemma dispatch_cha: "calls_in (fst (run_cha (dispatch_graph [named_call]))) = mset (map call_of (dispatch_edges trait_calls))"
proof -
  have sites: "call_sites is_name_method (dispatch_edges [named_call]) = [[4]]" by code_simp
  have found: "cha_found (dispatch_graph [named_call]) [4] = [4, 5]"
    unfolding cha_found_def lattice_build_def dispatch_fields by code_simp
  have kept: "map call_of (remove_edges_at (dispatch_edges [named_call]) [4]) = map call_of (dispatch_edges [])" by code_simp
  have new: "cha_calls (dispatch_graph [named_call]) [4] = map call_of trait_calls"
    unfolding cha_calls_def dispatch_fields found by code_simp
  have "calls_in (fst (run_cha (dispatch_graph [named_call]))) = mset (map call_of (dispatch_edges [])) + mset (map call_of trait_calls)"
    unfolding run_cha_calls dispatch_fields sites by (simp add: found kept new del: map_append)
  then show ?thesis by (simp add: dispatch_edges_def)
qed

text \<open>
  The default body is dropped although \<open>T\<close>, which uses it, is constructed: its declaring type is the
  trait, and no code constructs a trait.
\<close>

lemma rta_drops_default_body:
  "calls_in (fst (run_rta (dispatch_graph trait_calls))) =
     add_mset (0, Some 7, 5, CallsVirtual, ''rta-pruned'', Probable) (mset (map call_of (dispatch_edges [])))"
proof -
  have state: "pr_drop (rta_state (dispatch_graph trait_calls)) = [4]" "pr_upgrade (rta_state (dispatch_graph trait_calls)) = [5]"
    unfolding rta_state_def reachable_callers_def instantiated_types_def construction_under_cut_def dispatch_fields by code_simp+
  show ?thesis
    unfolding run_rta_calls dispatch_fields state
    by (simp add: dispatch_edges_def trait_calls_def upt_rec Let_def pass_edge_def call_of_def sample_edge_def)
qed

text \<open>No pass touches the nodes or the dangling references.\<close>

lemma passes_keep:
  "rg_nodes (fst (run_sig g)) = rg_nodes g" "rg_unresolved (fst (run_sig g)) = rg_unresolved g"
  "rg_nodes (fst (run_cha g)) = rg_nodes g" "rg_unresolved (fst (run_cha g)) = rg_unresolved g"
  "rg_nodes (fst (run_rta g)) = rg_nodes g" "rg_unresolved (fst (run_rta g)) = rg_unresolved g"
  by (simp_all add: run_sig_def run_cha_def run_rta_def Let_def canonicalize_def split: prod.split)

subsection \<open>An indirect call\<close>

text \<open>A caller, a closure with one parameter and a function with none, and a placeholder of a call.\<close>

definition closure_node :: "node_id \<Rightarrow> symbol_kind \<Rightarrow> string \<Rightarrow> param list \<Rightarrow> node_with_provenance" where
  "closure_node i k fqn ps =
     \<lparr>np_node = (sample_node i fqn ''typescript'' None)\<lparr>n_kind := k, n_signature := Some (signature_empty\<lparr>sg_params := ps\<rparr>)\<rparr>,
      np_provenance = sample_prov\<rparr>"

definition indirect_nodes :: "node_with_provenance list" where
  "indirect_nodes =
     [closure_node 0 Function ''app::main'' [], closure_node 1 Lambda ''app::main::f'' [\<lparr>pm_name = ''x'', pm_type_text = None, pm_has_default = False, pm_variadic = False\<rparr>]]"

definition indirect_graph :: "string \<Rightarrow> resolved_graph" where
  "indirect_graph rule = sample_graph\<lparr>rg_nodes := indirect_nodes, rg_edges := cv_from_iter [pass_edge 0 0 CallsClosure rule (Some 3)]\<rparr>"

lemma indirect_fields [simp]:
  "rg_nodes (indirect_graph rule) = indirect_nodes" "cv_iter (rg_edges (indirect_graph rule)) = [pass_edge 0 0 CallsClosure rule (Some 3)]"
  by (simp_all add: indirect_graph_def)

lemma indirect_arity: "parse_arity ''indirect:1'' = Some 1" "parse_arity ''indirect:2'' = Some 2"
  by (simp_all add: parse_arity_def parse_usize_def usize_digit_def str_starts_with_def Let_def of_char_def)

lemma indirect_sites: "collect_indirect_sites [pass_edge 0 0 CallsClosure ''indirect:1'' (Some 3)] = [(0, Some 1)]"
   "collect_indirect_sites [pass_edge 0 0 CallsClosure ''indirect:2'' (Some 3)] = [(0, Some 2)]"
  by (simp_all add: collect_indirect_sites_def pass_edge_def sample_edge_def is_indirect_def str_starts_with_def indirect_arity)

lemma sig_example: "calls_in (fst (run_sig (indirect_graph ''indirect:1''))) = {#(0, Some 3, 1, CallsClosure, ''sig-compat'', Possible)#}"
proof -
  have "sig_found (indirect_graph ''indirect:1'') (0, Some 1) = [1]" unfolding sig_found_def indirect_fields by code_simp
  then have "sig_calls (indirect_graph ''indirect:1'') (0, Some 1) = [(0, Some 3, 1, CallsClosure, ''sig-compat'', Possible)]"
    by (simp add: sig_calls_def pass_edge_def sample_edge_def)
  then show ?thesis unfolding run_sig_calls indirect_fields indirect_sites by (simp add: remove_edges_at_def)
qed

text \<open>When nothing fits, the call leaves neither an edge nor a dangling reference.\<close>

lemma sig_unmatched_vanishes: "calls_in (fst (run_sig (indirect_graph ''indirect:2''))) = {#}"
proof -
  have "sig_found (indirect_graph ''indirect:2'') (0, Some 2) = []" unfolding sig_found_def indirect_fields by code_simp
  then have "sig_calls (indirect_graph ''indirect:2'') (0, Some 2) = []" by (simp add: sig_calls_def)
  then show ?thesis unfolding run_sig_calls indirect_fields indirect_sites by (simp add: remove_edges_at_def)
qed

end
