(* ===== verification/Spec2Isabelle.thy ===== *)
theory Spec2Isabelle
  imports Resolve_Properties Diff_Properties Cql_Properties Cql_Match_Properties Query_Answers
    Query_Freshness Diff_Impacted_Properties Diff_History_Properties Resolve_Link_Properties Resolve_Passes
begin

text \<open>
  cgx builds a graph of a code base (symbols as nodes, calls and data flow as edges) and answers
  questions about it. The frontends extract facts from source files, the resolver links them into
  a graph, the store keeps it, and the engines below read it. This development models the engines
  and their data: the part of the program whose results are computed and not read from outside.

  Parts, theories and sources (every path is relative to src/crates/).

  Core. Core_Labels, Core_Markers, Core_Ident, Core_Model and Core_Pattern model cgx-core: the
  label enums with their derived orders, cut markers and effect sets, hashed identities at machine
  width, node and edge records with their canonical orders, and the symbol patterns with the
  backtracking glob matcher. Core_Properties states what they guarantee.

  Selectors. Select_Grammar, Select_Syntax, Select_Tokenizer, Select_Nfa and Select_Engine model
  cgx-select: a selector text is split by every registered tokenizer, each segment is parsed, and
  the patterns become an automaton that runs over the segments of a node's name. The inventory of
  tokenizers, collected at link time, is a parameter; the lemmas need only that it is a
  rearrangement of the submitted ones. Select_Properties has the meaning of selectors and their
  print and parse round trip.

  Queries. Query_Filter, Query_View, Query_Walk, Query_Dfs, Query_Reach, Query_Paths and
  Query_Engine model cgx-query: the admitted edges, the adjacency of a view, breadth first search,
  bounded path and trail enumeration, callers, callees, unused and explain. Graph_Search holds the
  contract of a frontier search that the breadth first routines interpret. Query_Properties states
  the results against chains of admitted edges. On top of the walks, Query_Symbols ranks and searches
  symbols, Query_Contract computes the approximation contract of an answer, Query_Impacted and
  Query_Impact_Contract find the tests that reach a change, and Query_Freshness compares trees.
  Query_Honesty shows what an exact contract guarantees, Query_Impact_Reach what the rounds of the
  impacted tests compute; Query_Answers states both.

  Frontend facts. Frontend_Facts (facts.rs) holds the records that an extractor emits for a file and
  the scope tree, Frontend_Canonical their derived orders as sort keys and the canonicalization.

  Resolver. Resolve_Symtab (symtab.rs), Resolve_Nodes (input.rs, link.rs), Resolve_Refs,
  Resolve_Canonical, Resolve_Flows (link.rs), Resolve_Ifds (ifds.rs) and Resolve_Link model the link
  pass: symbol nodes in canonical order, the table of definitions with re-export chains, the cascade
  that turns a reference into edges, a candidate set or a dangling reference, declared relations,
  value nodes with their flows and summaries, and the canonical graph with its counters. The receiver
  index and the codec are arguments with the operations that the pass calls. Resolve_Refs_Laws has
  the relation between a state and the state after one reference and the invariant of the pass,
  Resolve_Link_Properties states them, the counters under data flow included. Resolve_Scc (graph_alg.rs), Resolve_Effects (effects.rs),
  Resolve_Graph (graph.rs, summary.rs, receiver/stats.rs) and Resolve_Chunked (chunked.rs) model the
  graph algorithms of cgx-resolve that run on the linked graph: components, the closure of effects,
  the dirty set, and the chunked vector as a refinement of lists. Resolve_Properties states them.
  Resolve_Targets (sig.rs, cha.rs, rta.rs) models the passes that replace the targets of indirect and
  virtual calls.
  Resolve_Canonical_Laws shows that canonicalization is a fixed point of itself, and Resolve_Passes
  what each pass puts in the place of which edge, what the candidate sets mean on the graph, and that
  rapid type analysis leaves every site a target.

  Diffs. Diff_Graph (diff.rs, filter.rs) and Diff_Path (path_diff.rs) model cgx-diff: the diff of
  two graphs by stable identity, its post-filter and the gate on newly connected pairs.
  Diff_Properties states them. Diff_History (age.rs, coupling.rs) has the age of a symbol from blame
  lines and the coupling of files over a history, Diff_Impacted (impacted.rs, lib.rs) the tests that
  a change affects, with git and the indexer as arguments; Diff_History_Properties and
  Diff_Impacted_Properties state them.

  Query language. Cql_Value, Cql_Token, Cql_Ast and Cql_Parser model the values, the lexer, the
  syntax tree and the recursive descent parser of cgx-cql. Cql_Parser_Total shows that the parser
  always returns; Cql_Print, Cql_Roundtrip, Cql_Roundtrip_Expr and Cql_Roundtrip_Query that it reads
  back what the grammar prints. Cql_Lower (lower.rs) turns a pattern into a plan, Cql_Match,
  Cql_Expr, Cql_Project and Cql_Eval (eval.rs, proc.rs, lib.rs) run it on a view: the stream of
  bindings, expressions, projection with grouping, and the pipeline of WITH parts. Cql_Table holds
  the lemmas on result tables, Cql_Meaning what a pattern means on a view beside what its plan
  checks (anchor_checks, goal_checks), and Cql_Types the types of
  bindings and the fragment that cannot fail; Cql_Properties, Cql_Eval_Properties and
  Cql_Match_Properties state the results.

  Prelude and Rust_Str hold what all parts share: ordered maps and sets as sorted association
  lists with the operations of BTreeMap and BTreeSet, results, and the string functions of Rust
  on byte strings.

  Representation. Records, enums and their field order are those of the code. A u8, u16 or u64
  whose wrap-around or bits matter is a word (hashes, effect bits, discriminants); counters,
  indices and identifiers are naturals or integers, since the code never computes on them past
  their range. Strings are lists of bytes. Errors are values of sums; an index out of range, a
  missing key or an unwrap that would panic is None of an option. Hash maps that are only read by
  key are maps; sorted containers are strictly ordered lists.

  Bounds and fuel. A loop over a worklist is a function with a termination proof: every search
  marks a node before it is pushed, so the unmarked nodes of the view bound the rounds, and the
  depth limit of a walk bounds the enumeration. The loop that follows swaps in the chunked sort is
  a partial function and is proved to return. The parser takes fuel, twelve times the number of
  tokens and twenty, which is proved to be enough for every token list. A walk of a query without
  an upper bound stops at depth 8 and a variable length step at 1024 rows, as in the code.

  The fixpoint of the data-flow summaries ends because every recomputed member is charged to the
  budget of its component; the walk up the scope tree is bounded by the number of scopes.

  Not modelled. The language frontends (they visit the trees of third-party parsers), the store,
  index, transport, agent server, command line and doctor (files, git, databases, JSON and
  terminal output), and in the resolver the receiver index, whose operations the link pass takes as
  arguments. The manifest lists every part with its status.
\<close>

subsection \<open>Selecting nodes of a graph\<close>

text \<open>
  C22. Resolving a selector over a graph whose nodes are all of one language returns, in node
  order, the ids of exactly the nodes whose FQN segments the selector's patterns describe:
  the tokenizer, the grammar, the automaton and the scan of the view compose to the meaning of
  the selector.
\<close>

theorem resolve_select_meaning:
  assumes "mset inventory = mset submitted" "tok \<in> set submitted"
    and "wf_selector (tk_class tok) ps" "length ps < default_active_state_cap"
    and "\<forall>node \<in> set (gv_nodes view). n_lang node \<in> set (lang_tags (tk_family tok))"
  shows "\<exists>sel. compile inventory (print_selector (tk_sep tok) ps) = Inr sel \<and>
    sr_ids (resolve_select view sel match_options_native) =
      map n_id (filter (\<lambda>node. pattern_spec (map seg_pattern ps) (str_split ''::'' (n_fqn node)))
        (gv_nodes view)) \<and>
    sr_agnostic_cross_language (resolve_select view sel match_options_native) = []"
proof -
  let ?s = "print_selector (tk_sep tok) ps"
  have tok: "tokenize tok ?s = Inr (map seg_pattern ps, [])"
    by (rule tokenize_print [OF assms(3) submitted_sep_clear [OF assms(2)]])
  then have "?s \<noteq> []" by (auto simp: tokenize_def)
  moreover have "(tk_family tok, map seg_pattern ps) \<in> set (clean_parses (registered inventory) ?s)"
    using tok assms(2) registered_submitted [OF assms(1)] by (auto simp: clean_parses_mem)
  ultimately obtain sel where sel: "compile inventory ?s = Inr sel"
    using compile_succeeds [of ?s inventory] by fastforce
  have "nm_matched (evaluate sel node match_options_native)
      \<longleftrightarrow> pattern_spec (map seg_pattern ps) (str_split ''::'' (n_fqn node))"
    if "node \<in> set (gv_nodes view)" for node
  proof -
    have "n_lang node \<in> set (lang_tags (tk_family tok))" using assms(5) that by blast
    then show ?thesis
      using native_match_iff [OF sel assms(1,2) tok, of node default_active_state_cap]
        simulate_correct [of "map seg_pattern ps" default_active_state_cap] assms(4)
      by (simp add: evaluate_eq match_options_native_def Let_def)
  qed
  then have "filter (\<lambda>node. nm_matched (evaluate sel node match_options_native)) (gv_nodes view)
      = filter (\<lambda>node. pattern_spec (map seg_pattern ps) (str_split ''::'' (n_fqn node))) (gv_nodes view)"
    by (intro filter_cong) simp_all
  moreover have "\<not> nm_agnostic_cross_language (evaluate sel node match_options_native)" for node
    by (simp add: evaluate_eq match_options_native_def Let_def)
  ultimately show ?thesis using sel by (simp add: resolve_select_def resolve_select_fold)
qed

lemma resolve_select_meaning_witness:
  "\<exists>sel. compile submitted ''app::*load'' = Inr sel \<and>
     sr_ids (resolve_select sample_view sel match_options_native) = [1]"
proof -
  let ?ps = "[Some [ERun False [Lit ''app'']], Some [EStar, ERun False [Lit ''load'']]]"
  have "rust_tokenizer \<in> set submitted" "length ?ps < default_active_state_cap"
    by (simp_all add: submitted_def default_active_state_cap_def)
  moreover have "\<forall>node \<in> set (gv_nodes sample_view). n_lang node \<in> set (lang_tags (tk_family rust_tokenizer))"
    by (simp add: sample_view_def graph_view_new_fields sample_nodes_def sample_node_def rust_tokenizer_def)
  moreover have "wf_selector (tk_class rust_tokenizer) ?ps"
    by (simp add: wf_selector_def wf_segment_def wf_text_def admits_def is_ascii_alphanumeric_def
        less_eq_char_def rust_tokenizer_def)
  ultimately obtain sel where sel: "compile submitted (print_selector (tk_sep rust_tokenizer) ?ps) = Inr sel"
    and ids: "sr_ids (resolve_select sample_view sel match_options_native) =
      map n_id (filter (\<lambda>node. pattern_spec (map seg_pattern ?ps) (str_split ''::'' (n_fqn node)))
        (gv_nodes sample_view))"
    using resolve_select_meaning [of submitted rust_tokenizer ?ps sample_view] by blast
  have "so_matched (simulate (nfa_compile (map seg_pattern ?ps)) ws 8) \<longleftrightarrow> pattern_spec (map seg_pattern ?ps) ws" for ws
    by (rule simulate_correct) simp
  then have "map n_id (filter (\<lambda>node. pattern_spec (map seg_pattern ?ps) (str_split ''::'' (n_fqn node)))
        (gv_nodes sample_view))
      = map n_id (filter (\<lambda>node. so_matched (simulate (nfa_compile (map seg_pattern ?ps))
          (str_split ''::'' (n_fqn node)) 8)) (gv_nodes sample_view))" by simp
  also have "\<dots> = [1]" by code_simp
  finally have "sr_ids (resolve_select sample_view sel match_options_native) = [1]" using ids by simp
  moreover have "print_selector (tk_sep rust_tokenizer) ?ps = ''app::*load''"
    by (simp add: rust_tokenizer_def print_selector_def print_segment_def)
  ultimately show ?thesis using sel by metis
qed

end
